(* ===== verification/Text.thy ===== *)
theory Text
  imports Prelude
begin

text \<open>
  Rust text. A \<open>str\<close> is a sequence of Unicode scalar values stored as UTF-8: the
  model keeps the scalar values as numbers and counts bytes with \<open>utf8_len\<close>, so
  a byte offset of the sources is a sum of \<open>len_utf8\<close> here. The theory holds the
  character classes, the decimal number formats and the string functions of the
  Rust standard library that the sources call.
\<close>

section \<open>Characters\<close>

type_synonym rchar = nat
type_synonym rstr = "rchar list"

definition str :: "string \<Rightarrow> rstr" where
  "str s = map of_char s"

definition len_utf8 :: "rchar \<Rightarrow> nat" where
  "len_utf8 c = (if c < 0x80 then 1 else if c < 0x800 then 2 else if c < 0x10000 then 3 else 4)"

definition utf8_len :: "rstr \<Rightarrow> nat" where
  "utf8_len t = sum_list (map len_utf8 t)"

definition is_ascii_digit :: "rchar \<Rightarrow> bool" where
  "is_ascii_digit c \<longleftrightarrow> 48 \<le> c \<and> c \<le> 57"

definition is_ascii_lowercase :: "rchar \<Rightarrow> bool" where
  "is_ascii_lowercase c \<longleftrightarrow> 97 \<le> c \<and> c \<le> 122"

definition is_ascii_uppercase :: "rchar \<Rightarrow> bool" where
  "is_ascii_uppercase c \<longleftrightarrow> 65 \<le> c \<and> c \<le> 90"

definition is_ascii_alphabetic :: "rchar \<Rightarrow> bool" where
  "is_ascii_alphabetic c \<longleftrightarrow> is_ascii_lowercase c \<or> is_ascii_uppercase c"

definition is_ascii_alphanumeric :: "rchar \<Rightarrow> bool" where
  "is_ascii_alphanumeric c \<longleftrightarrow> is_ascii_alphabetic c \<or> is_ascii_digit c"

definition is_ascii_hexdigit :: "rchar \<Rightarrow> bool" where
  "is_ascii_hexdigit c \<longleftrightarrow> is_ascii_digit c \<or> (97 \<le> c \<and> c \<le> 102) \<or> (65 \<le> c \<and> c \<le> 70)"

definition to_ascii_lowercase :: "rchar \<Rightarrow> rchar" where
  "to_ascii_lowercase c = (if is_ascii_uppercase c then c + 32 else c)"

definition to_ascii_uppercase :: "rchar \<Rightarrow> rchar" where
  "to_ascii_uppercase c = (if is_ascii_lowercase c then c - 32 else c)"

text \<open>\<open>char::is_control\<close>: the Unicode category Cc.\<close>

definition is_control :: "rchar \<Rightarrow> bool" where
  "is_control c \<longleftrightarrow> c < 0x20 \<or> (0x7f \<le> c \<and> c \<le> 0x9f)"

text \<open>\<open>char::is_whitespace\<close>: the Unicode property White\_Space.\<close>

definition is_whitespace :: "rchar \<Rightarrow> bool" where
  "is_whitespace c \<longleftrightarrow>
     (9 \<le> c \<and> c \<le> 13) \<or> c = 0x20 \<or> c = 0x85 \<or> c = 0xa0 \<or> c = 0x1680 \<or>
     (0x2000 \<le> c \<and> c \<le> 0x200a) \<or> c = 0x2028 \<or> c = 0x2029 \<or> c = 0x202f \<or>
     c = 0x205f \<or> c = 0x3000"

lemmas char_class_defs =
  is_ascii_digit_def is_ascii_lowercase_def is_ascii_uppercase_def is_ascii_alphabetic_def
  is_ascii_alphanumeric_def is_ascii_hexdigit_def

lemma len_utf8_pos [simp]: "0 < len_utf8 c"
  by (simp add: len_utf8_def)

lemma utf8_len_simps [simp]:
  "utf8_len [] = 0" "utf8_len (c # t) = len_utf8 c + utf8_len t"
  "utf8_len (s @ t) = utf8_len s + utf8_len t"
  by (simp_all add: utf8_len_def)

lemma utf8_len_0 [simp]: "utf8_len t = 0 \<longleftrightarrow> t = []"
  by (cases t) simp_all

lemma str_simps [simp]: "str [] = []" "str (c # s) = of_char c # str s"
  by (simp_all add: str_def)

lemma utf8_len_ascii: "\<forall>c \<in> set t. c < 0x80 \<Longrightarrow> utf8_len t = length t"
  by (induction t) (simp_all add: len_utf8_def)

section \<open>Decimal numbers\<close>

text \<open>The digits \<open>format!\<close> prints for an unsigned number, without leading zeros.\<close>

fun digits :: "nat \<Rightarrow> rstr" where
  "digits n = (if n < 10 then [48 + n] else digits (n div 10) @ [48 + n mod 10])"

declare digits.simps [simp del]

definition of_digits :: "rstr \<Rightarrow> nat" where
  "of_digits t = foldl (\<lambda>a c. 10 * a + (c - 48)) 0 t"

text \<open>\<open>{n:0w}\<close>: zeros before a number up to width \<open>w\<close>; \<open>{t:0<w}\<close>: zeros after a text.\<close>

definition pad_left :: "nat \<Rightarrow> rstr \<Rightarrow> rstr" where
  "pad_left w t = replicate (w - length t) 48 @ t"

definition pad_right :: "nat \<Rightarrow> rstr \<Rightarrow> rstr" where
  "pad_right w t = t @ replicate (w - length t) 48"

text \<open>\<open>trim_end_matches(c)\<close>: drop every trailing \<open>c\<close>.\<close>

definition trim_end :: "rchar \<Rightarrow> rstr \<Rightarrow> rstr" where
  "trim_end c t = rev (dropWhile (\<lambda>x. x = c) (rev t))"

text \<open>\<open>split_once(c)\<close>: what is before and after the first \<open>c\<close>.\<close>

fun split_once :: "rchar \<Rightarrow> rstr \<Rightarrow> (rstr \<times> rstr) option" where
  "split_once c [] = None"
| "split_once c (x # xs) =
     (if x = c then Some ([], xs) else map_option (\<lambda>(a, b). (x # a, b)) (split_once c xs))"

text \<open>
  \<open>str::parse\<close> for an unsigned type with greatest value \<open>bound\<close>: an optional \<open>+\<close>, then
  digits, whose number does not exceed the type; and for a signed one, where an
  optional \<open>-\<close> is taken too.
\<close>

definition parse_digits :: "nat \<Rightarrow> rstr \<Rightarrow> nat option" where
  "parse_digits bound t =
     (if t \<noteq> [] \<and> (\<forall>c \<in> set t. is_ascii_digit c) \<and> of_digits t \<le> bound
      then Some (of_digits t) else None)"

definition parse_unsigned :: "nat \<Rightarrow> rstr \<Rightarrow> nat option" where
  "parse_unsigned bound t =
     (case t of [] \<Rightarrow> None
      | c # cs \<Rightarrow> if c = 43 then parse_digits bound cs else parse_digits bound t)"

definition parse_i64 :: "rstr \<Rightarrow> int option" where
  "parse_i64 t =
     (case t of [] \<Rightarrow> None
      | c # cs \<Rightarrow>
          if c = 43 then map_option int (parse_digits (2 ^ 63 - 1) cs)
          else if c = 45 then map_option (\<lambda>n. - int n) (parse_digits (2 ^ 63) cs)
          else map_option int (parse_digits (2 ^ 63 - 1) t))"

text \<open>The \<open>Display\<close> of an \<open>i64\<close>.\<close>

definition show_int :: "int \<Rightarrow> rstr" where
  "show_int i = (if i < 0 then 45 # digits (nat (- i)) else digits (nat i))"

lemma of_digits_Nil [simp]: "of_digits [] = 0"
  by (simp add: of_digits_def)

lemma of_digits_snoc [simp]: "of_digits (t @ [c]) = 10 * of_digits t + (c - 48)"
  by (simp add: of_digits_def)

lemma of_digits_append: "of_digits (s @ t) = of_digits s * 10 ^ length t + of_digits t"
  by (induction t rule: rev_induct) (simp_all flip: append_assoc add: algebra_simps)

lemma of_digits_zeros [simp]: "of_digits (replicate n 48) = 0"
  by (induction n) (simp_all add: replicate_append_same [symmetric])

lemma digits_digit: "c \<in> set (digits n) \<Longrightarrow> is_ascii_digit c"
proof (induction n rule: digits.induct)
  case (1 n)
  then show ?case
    by (subst (asm) digits.simps) (auto simp: is_ascii_digit_def split: if_splits)
qed

lemma digits_nonempty [simp]: "digits n \<noteq> []"
  by (subst digits.simps) simp

lemma of_digits_digits [simp]: "of_digits (digits n) = n"
proof (induction n rule: digits.induct)
  case (1 n)
  show ?case
  proof (cases "n < 10")
    case True
    then show ?thesis by (subst digits.simps) (simp add: of_digits_def)
  next
    case False
    with 1 show ?thesis by (subst digits.simps) simp
  qed
qed

lemma digits_length_le: "n < 10 ^ k \<Longrightarrow> 0 < k \<Longrightarrow> length (digits n) \<le> k"
proof (induction n arbitrary: k rule: digits.induct)
  case (1 n)
  show ?case
  proof (cases "n < 10")
    case True
    with \<open>0 < k\<close> show ?thesis by (subst digits.simps) simp
  next
    case False
    have "k \<noteq> 1" using False "1.prems" by auto
    with "1.prems" obtain j where j: "k = Suc j" "0 < j" by (cases k) auto
    with "1.prems" have "n div 10 < 10 ^ j" by simp
    with 1 False j have "length (digits (n div 10)) \<le> j" by simp
    with False j show ?thesis by (subst digits.simps) simp
  qed
qed

lemma of_digits_pad_left [simp]: "of_digits (pad_left w t) = of_digits t"
  by (simp add: pad_left_def of_digits_append)

lemma length_pad_left: "length t \<le> w \<Longrightarrow> length (pad_left w t) = w"
  by (simp add: pad_left_def)

lemma length_pad_right: "length t \<le> w \<Longrightarrow> length (pad_right w t) = w"
  by (simp add: pad_right_def)

lemma pad_right_trim_end: "pad_right (length t) (trim_end 48 t) = t"
proof -
  let ?d = "dropWhile (\<lambda>x. x = 48) (rev t)" and ?z = "takeWhile (\<lambda>x. x = (48::nat)) (rev t)"
  have z: "replicate (length ?z) 48 = rev ?z"
    by (subst length_rev [symmetric], rule replicate_length_same) (auto dest: set_takeWhileD)
  have "rev (rev t) = rev (?z @ ?d)" by simp
  then have t: "t = rev ?d @ rev ?z" by (simp del: takeWhile_dropWhile_id)
  have "length (rev t) = length (?z @ ?d)" by simp
  then have "length t = length ?d + length ?z" by (simp del: takeWhile_dropWhile_id)
  then have "pad_right (length t) (trim_end 48 t) = rev ?d @ replicate (length ?z) 48"
    by (simp add: pad_right_def trim_end_def)
  also have "\<dots> = t" using t z by simp
  finally show ?thesis .
qed

lemma split_once_append:
  "c \<notin> set a \<Longrightarrow> split_once c (a @ c # b) = Some (a, b)"
  by (induction a) auto

lemma split_once_None: "split_once c t = None \<longleftrightarrow> c \<notin> set t"
  by (induction t) auto

lemma parse_digits_digits [simp]: "n \<le> bound \<Longrightarrow> parse_digits bound (digits n) = Some n"
  by (simp add: parse_digits_def digits_digit)

lemma digit_not_sign: "is_ascii_digit c \<Longrightarrow> c \<noteq> 43 \<and> c \<noteq> 45 \<and> c \<noteq> 46"
  by (auto simp: is_ascii_digit_def)

lemma parse_unsigned_digits:
  assumes "t \<noteq> []" "\<forall>c \<in> set t. is_ascii_digit c"
  shows "parse_unsigned bound t = parse_digits bound t"
  using assms digit_not_sign by (cases t) (auto simp: parse_unsigned_def)

lemma parse_i64_digits:
  assumes "t \<noteq> []" "\<forall>c \<in> set t. is_ascii_digit c"
  shows "parse_i64 t = map_option int (parse_digits (2 ^ 63 - 1) t)"
  using assms digit_not_sign by (cases t) (auto simp: parse_i64_def)

lemma parse_i64_show_int:
  assumes "- (2 ^ 63) \<le> i" "i < 2 ^ 63"
  shows "parse_i64 (show_int i) = Some i"
proof (cases "i < 0")
  case True
  with assms show ?thesis by (simp add: show_int_def parse_i64_def)
next
  case False
  with assms show ?thesis
    by (simp add: show_int_def parse_i64_digits digits_digit)
qed

end
