(* ===== verification/Values.thy ===== *)
theory Values
  imports Text
begin

unbundle bit_operations_syntax

text \<open>
  The authored values of \<open>crates/donder-runtime-types/src/types.rs\<close> and
  \<open>values.rs\<close>: identifiers, types and values with their equality, hash and typing,
  colors, curves, gradients and mark windows.

  A \<open>f32\<close> is its 32 bits. The sources compare floats (\<open>==\<close>, \<open><\<close>, \<open>to_bits\<close>,
  \<open>is_finite\<close>), which the bits decide; float arithmetic (channels to bytes, ticks to
  seconds) is not modelled here.
\<close>

section \<open>Floats as bits\<close>

type_synonym f32 = u32

definition f32_magnitude :: "f32 \<Rightarrow> u32" where
  "f32_magnitude b = b AND 0x7fffffff"

definition f32_negative :: "f32 \<Rightarrow> bool" where
  "f32_negative b \<longleftrightarrow> bit b 31"

definition f32_is_nan :: "f32 \<Rightarrow> bool" where
  "f32_is_nan b \<longleftrightarrow> 0x7f800000 < f32_magnitude b"

definition f32_is_finite :: "f32 \<Rightarrow> bool" where
  "f32_is_finite b \<longleftrightarrow> f32_magnitude b < 0x7f800000"

definition f32_rank :: "f32 \<Rightarrow> int" where
  "f32_rank b =
     (if f32_negative b then - uint (f32_magnitude b) else uint (f32_magnitude b))"

text \<open>The IEEE comparisons: false on NaN, and the two zeros are equal.\<close>

definition f32_eq :: "f32 \<Rightarrow> f32 \<Rightarrow> bool" where
  "f32_eq a b \<longleftrightarrow> \<not> f32_is_nan a \<and> \<not> f32_is_nan b \<and> f32_rank a = f32_rank b"

definition f32_lt :: "f32 \<Rightarrow> f32 \<Rightarrow> bool" where
  "f32_lt a b \<longleftrightarrow> \<not> f32_is_nan a \<and> \<not> f32_is_nan b \<and> f32_rank a < f32_rank b"

definition f32_le :: "f32 \<Rightarrow> f32 \<Rightarrow> bool" where
  "f32_le a b \<longleftrightarrow> \<not> f32_is_nan a \<and> \<not> f32_is_nan b \<and> f32_rank a \<le> f32_rank b"

definition f32_one :: f32 where
  "f32_one = 0x3f800000"

text \<open>\<open>(0.0..=1.0).contains\<close>\<close>

definition in_unit :: "f32 \<Rightarrow> bool" where
  "in_unit x \<longleftrightarrow> f32_le 0 x \<and> f32_le x f32_one"

section \<open>Identifiers\<close>

type_synonym ident = rstr

datatype identifier_error = EmptyIdentifier | InvalidStart | InvalidCharacter

definition is_identifier_start :: "rchar \<Rightarrow> bool" where
  "is_identifier_start c \<longleftrightarrow> c = 95 \<or> is_ascii_alphabetic c"

definition is_identifier_continue :: "rchar \<Rightarrow> bool" where
  "is_identifier_continue c \<longleftrightarrow> c = 95 \<or> is_ascii_alphanumeric c"

definition identifier_new :: "rstr \<Rightarrow> identifier_error + ident" where
  "identifier_new value =
     (case value of [] \<Rightarrow> Inl EmptyIdentifier
      | first # chars \<Rightarrow>
          if \<not> is_identifier_start first then Inl InvalidStart
          else if \<exists>c \<in> set chars. \<not> is_identifier_continue c then Inl InvalidCharacter
          else Inr value)"

section \<open>Colors, curves and gradients\<close>

record color =
  red :: f32
  green :: f32
  blue :: f32

definition black :: color where
  "black = \<lparr>red = 0, green = 0, blue = 0\<rparr>"

definition color_eq :: "color \<Rightarrow> color \<Rightarrow> bool" where
  "color_eq a b \<longleftrightarrow>
     f32_eq (red a) (red b) \<and> f32_eq (green a) (green b) \<and> f32_eq (blue a) (blue b)"

text \<open>A hasher is the sequence of what is written to it.\<close>

datatype hashed = HashedWord u32 | HashedLength nat | HashedVariant nat | HashedText rstr

definition color_hash :: "color \<Rightarrow> hashed list" where
  "color_hash c = map HashedWord [red c, green c, blue c]"

record curve_point =
  point_position :: f32
  point_value :: f32

type_synonym curve = "curve_point list"

datatype curve_error = NonFinitePoint | PositionOutOfRange | PositionsNotStrictlyIncreasing

definition curve_same :: "curve \<Rightarrow> curve \<Rightarrow> bool" where
  "curve_same xs ys \<longleftrightarrow> length xs = length ys \<and>
     (\<forall>(a, b) \<in> set (zip xs ys). point_position a = point_position b \<and> point_value a = point_value b)"

definition curve_hash_same :: "curve \<Rightarrow> hashed list" where
  "curve_hash_same xs = HashedLength (length xs) #
     concat (map (\<lambda>p. [HashedWord (point_position p), HashedWord (point_value p)]) xs)"

fun validate_points :: "f32 \<Rightarrow> curve \<Rightarrow> curve_error option" where
  "validate_points previous [] = None"
| "validate_points previous (p # ps) =
     (if \<not> f32_is_finite (point_position p) \<or> \<not> f32_is_finite (point_value p) then Some NonFinitePoint
      else if \<not> in_unit (point_position p) then Some PositionOutOfRange
      else if f32_lt (point_position p) previous then Some PositionsNotStrictlyIncreasing
      else validate_points (point_position p) ps)"

definition curve_validate :: "curve \<Rightarrow> curve_error option" where
  "curve_validate points =
     (case points of [] \<Rightarrow> None
      | first # rest \<Rightarrow>
          if \<not> f32_is_finite (point_position first) \<or> \<not> f32_is_finite (point_value first)
          then Some NonFinitePoint
          else if \<not> in_unit (point_position first) then Some PositionOutOfRange
          else validate_points (point_position first) rest)"

datatype gradient_space = LinearRgb | Hsv | Oklab

record gradient_stop =
  stop_position :: f32
  stop_color :: color

record gradient =
  space :: gradient_space
  stops :: "gradient_stop list"

datatype gradient_error = InvalidPosition | PositionsOutOfOrder

definition gradient_same :: "gradient \<Rightarrow> gradient \<Rightarrow> bool" where
  "gradient_same g h \<longleftrightarrow> space g = space h \<and> length (stops g) = length (stops h) \<and>
     (\<forall>(a, b) \<in> set (zip (stops g) (stops h)).
        stop_position a = stop_position b \<and> color_eq (stop_color a) (stop_color b))"

definition gradient_space_number :: "gradient_space \<Rightarrow> nat" where
  "gradient_space_number s = (case s of LinearRgb \<Rightarrow> 0 | Hsv \<Rightarrow> 1 | Oklab \<Rightarrow> 2)"

definition gradient_hash_same :: "gradient \<Rightarrow> hashed list" where
  "gradient_hash_same g =
     HashedVariant (gradient_space_number (space g)) # HashedLength (length (stops g)) #
     concat (map (\<lambda>s. HashedWord (stop_position s) # color_hash (stop_color s)) (stops g))"

fun validate_stops :: "f32 \<Rightarrow> gradient_stop list \<Rightarrow> gradient_error option" where
  "validate_stops previous [] = None"
| "validate_stops previous (s # ss) =
     (if \<not> f32_is_finite (stop_position s) \<or> \<not> in_unit (stop_position s) then Some InvalidPosition
      else if f32_lt (stop_position s) previous then Some PositionsOutOfOrder
      else validate_stops (stop_position s) ss)"

definition gradient_validate :: "gradient \<Rightarrow> gradient_error option" where
  "gradient_validate g = validate_stops 0 (stops g)"

section \<open>Marks\<close>

text \<open>
  A window \<open>track[first..end]\<close> of a shared ascending track, measured from \<open>origin\<close>.
  \<open>partition_point\<close> on an ascending track is the length of the prefix its
  predicate accepts.
\<close>

record marks =
  track :: "u32 list"
  first_mark :: u32
  end_mark :: u32
  origin :: u32

definition partition_point :: "('a \<Rightarrow> bool) \<Rightarrow> 'a list \<Rightarrow> nat" where
  "partition_point p xs = length (takeWhile p xs)"

definition marks_new :: "u32 list \<Rightarrow> marks" where
  "marks_new ms =
     (let ticks = sort ms
      in \<lparr>track = ticks, first_mark = 0, end_mark = of_nat (length ticks), origin = 0\<rparr>)"

definition marks_empty :: marks where
  "marks_empty = marks_new []"

definition marks_window :: "u32 list \<Rightarrow> u32 \<Rightarrow> u32 \<Rightarrow> marks" where
  "marks_window trk start fin =
     (let first = of_nat (partition_point (\<lambda>mark. mark < start) trk);
          last = of_nat (partition_point (\<lambda>mark. mark < fin) trk)
      in \<lparr>track = trk, first_mark = first, end_mark = max last first, origin = start\<rparr>)"

definition marks_bounds :: "marks \<Rightarrow> u32 \<times> u32 \<times> u32" where
  "marks_bounds m = (first_mark m, end_mark m, origin m)"

definition marks_ticks :: "marks \<Rightarrow> u32 list" where
  "marks_ticks m = drop (unat (first_mark m)) (take (unat (end_mark m)) (track m))"

definition marks_len :: "marks \<Rightarrow> nat" where
  "marks_len m = unat (end_mark m - first_mark m)"

definition marks_is_empty :: "marks \<Rightarrow> bool" where
  "marks_is_empty m \<longleftrightarrow> first_mark m = end_mark m"

definition marks_iter :: "marks \<Rightarrow> u32 list" where
  "marks_iter m = map (\<lambda>mark. mark - origin m) (marks_ticks m)"

record mark_window =
  ticks :: "u32 list"
  window_origin :: u32

definition marks_view :: "marks \<Rightarrow> mark_window" where
  "marks_view m = \<lparr>ticks = marks_ticks m, window_origin = origin m\<rparr>"

definition marks_eq :: "marks \<Rightarrow> marks \<Rightarrow> bool" where
  "marks_eq a b \<longleftrightarrow> marks_len a = marks_len b \<and> marks_iter a = marks_iter b"

definition marks_hash :: "marks \<Rightarrow> hashed list" where
  "marks_hash m = HashedLength (marks_len m) # map HashedWord (marks_iter m)"

section \<open>Types and values\<close>

datatype ty = TVoid | TInt | TFloat | TBool | TColor | TMarks | TCurve | TGradient
  | TArray ty | TEnum "ident list"

datatype val = VVoid | VInt u32 | VFloat f32 | VBool bool | VColor color | VMarks marks
  | VCurve curve | VGradient gradient | VArray "val list" | VEnum ident

fun val_same :: "val \<Rightarrow> val \<Rightarrow> bool" where
  "val_same VVoid w = (case w of VVoid \<Rightarrow> True | _ \<Rightarrow> False)"
| "val_same (VInt a) w = (case w of VInt b \<Rightarrow> a = b | _ \<Rightarrow> False)"
| "val_same (VFloat a) w = (case w of VFloat b \<Rightarrow> a = b | _ \<Rightarrow> False)"
| "val_same (VBool a) w = (case w of VBool b \<Rightarrow> a = b | _ \<Rightarrow> False)"
| "val_same (VColor a) w = (case w of VColor b \<Rightarrow> color_eq a b | _ \<Rightarrow> False)"
| "val_same (VEnum a) w = (case w of VEnum b \<Rightarrow> a = b | _ \<Rightarrow> False)"
| "val_same (VMarks a) w = (case w of VMarks b \<Rightarrow> marks_eq a b | _ \<Rightarrow> False)"
| "val_same (VCurve a) w = (case w of VCurve b \<Rightarrow> curve_same a b | _ \<Rightarrow> False)"
| "val_same (VGradient a) w = (case w of VGradient b \<Rightarrow> gradient_same a b | _ \<Rightarrow> False)"
| "val_same (VArray xs) w =
     (case w of
        VArray ys \<Rightarrow> length xs = length ys \<and> (\<forall>(a, b) \<in> set (zip xs ys). val_same a b)
      | _ \<Rightarrow> False)"

definition val_number :: "val \<Rightarrow> nat" where
  "val_number v =
     (case v of VVoid \<Rightarrow> 0 | VInt _ \<Rightarrow> 1 | VFloat _ \<Rightarrow> 2 | VBool _ \<Rightarrow> 3 | VColor _ \<Rightarrow> 4 | VMarks _ \<Rightarrow> 5
      | VCurve _ \<Rightarrow> 6 | VGradient _ \<Rightarrow> 7 | VArray _ \<Rightarrow> 8 | VEnum _ \<Rightarrow> 9)"

fun val_hash_same :: "val \<Rightarrow> hashed list" where
  "val_hash_same v = HashedVariant (val_number v) #
     (case v of
        VVoid \<Rightarrow> []
      | VInt i \<Rightarrow> [HashedWord i]
      | VFloat f \<Rightarrow> [HashedWord f]
      | VBool b \<Rightarrow> [HashedVariant (of_bool b)]
      | VColor c \<Rightarrow> color_hash c
      | VEnum name \<Rightarrow> [HashedText name]
      | VMarks m \<Rightarrow> marks_hash m
      | VCurve c \<Rightarrow> curve_hash_same c
      | VGradient g \<Rightarrow> gradient_hash_same g
      | VArray vs \<Rightarrow> HashedLength (length vs) # concat (map val_hash_same vs))"

fun accepts_value :: "ty \<Rightarrow> val \<Rightarrow> bool" where
  "accepts_value TVoid v = (case v of VVoid \<Rightarrow> True | _ \<Rightarrow> False)"
| "accepts_value TInt v = (case v of VInt _ \<Rightarrow> True | _ \<Rightarrow> False)"
| "accepts_value TFloat v = (case v of VFloat _ \<Rightarrow> True | VInt _ \<Rightarrow> True | _ \<Rightarrow> False)"
| "accepts_value TBool v = (case v of VBool _ \<Rightarrow> True | _ \<Rightarrow> False)"
| "accepts_value TColor v = (case v of VColor _ \<Rightarrow> True | _ \<Rightarrow> False)"
| "accepts_value TMarks v = (case v of VMarks _ \<Rightarrow> True | _ \<Rightarrow> False)"
| "accepts_value TCurve v = (case v of VCurve _ \<Rightarrow> True | _ \<Rightarrow> False)"
| "accepts_value TGradient v = (case v of VGradient _ \<Rightarrow> True | _ \<Rightarrow> False)"
| "accepts_value (TEnum options) v = (case v of VEnum value \<Rightarrow> value \<in> set options | _ \<Rightarrow> False)"
| "accepts_value (TArray ty) v = (case v of VArray vs \<Rightarrow> \<forall>x \<in> set vs. accepts_value ty x | _ \<Rightarrow> False)"

text \<open>The default of an enum is its first option; of an enum with none, a panic.\<close>

definition default_value :: "ty \<Rightarrow> val option" where
  "default_value ty =
     (case ty of
        TVoid \<Rightarrow> Some VVoid
      | TInt \<Rightarrow> Some (VInt 0)
      | TFloat \<Rightarrow> Some (VFloat 0)
      | TBool \<Rightarrow> Some (VBool False)
      | TColor \<Rightarrow> Some (VColor black)
      | TMarks \<Rightarrow> Some (VMarks marks_empty)
      | TCurve \<Rightarrow> Some (VCurve [])
      | TGradient \<Rightarrow> Some (VGradient \<lparr>space = LinearRgb, stops = []\<rparr>)
      | TArray _ \<Rightarrow> Some (VArray [])
      | TEnum options \<Rightarrow> (case options of [] \<Rightarrow> None | x # _ \<Rightarrow> Some (VEnum x)))"

end
