(* ===== verification/ValueLaws.thy ===== *)
theory ValueLaws
  imports Values
begin

unbundle bit_operations_syntax

text \<open>
  What the values of \<open>donder-runtime-types\<close> guarantee: which identifiers and curves
  validate, that a default value has its type, what a mark window holds, and when
  values that are the same hash the same.
\<close>

section \<open>Comparisons\<close>

lemma f32_finite_not_nan: "f32_is_finite a \<Longrightarrow> \<not> f32_is_nan a"
  by (simp add: f32_is_finite_def f32_is_nan_def)

lemma f32_not_lt: "\<not> f32_is_nan a \<Longrightarrow> \<not> f32_is_nan b \<Longrightarrow> \<not> f32_lt a b \<longleftrightarrow> f32_le b a"
  by (auto simp: f32_lt_def f32_le_def)

lemma f32_le_trans: "f32_le a b \<Longrightarrow> f32_le b c \<Longrightarrow> f32_le a c"
  by (auto simp: f32_le_def)

lemma f32_sign_magnitude: "a = (if f32_negative a then f32_magnitude a OR 0x80000000 else f32_magnitude a)"
proof -
  have m: "bit (0x7fffffff :: u32) n \<longleftrightarrow> n < 31" for n
  proof -
    have "(0x7fffffff :: u32) = mask 31" by (simp add: mask_eq_exp_minus_1)
    then show ?thesis by (simp only: bit_mask_iff) auto
  qed
  have s: "bit (0x80000000 :: u32) n \<longleftrightarrow> n = 31" for n
  proof -
    have "(0x80000000 :: u32) = push_bit 31 1" by simp
    then show ?thesis by (simp only: bit_push_bit_iff bit_1_iff possible_bit_word) auto
  qed
  have "bit a n = bit (if bit a 31 then (a AND 0x7fffffff) OR 0x80000000 else a AND 0x7fffffff) n"
    if "n < 32" for n
    using that by (cases "bit a 31"; cases "n = 31")
      (simp_all only: if_True if_False bit_and_iff bit_or_iff m s, simp_all)
  then show ?thesis
    unfolding f32_negative_def f32_magnitude_def by (intro bit_word_eqI) simp
qed

text \<open>Equal floats have equal bits, but for the two zeros.\<close>

lemma f32_eq_bits:
  assumes "f32_eq a b" "a \<noteq> 0x80000000" "b \<noteq> 0x80000000"
  shows "a = b"
proof -
  have r: "f32_rank a = f32_rank b" using assms(1) by (simp add: f32_eq_def)
  have z: "c = 0x80000000" if "f32_negative c" "uint (f32_magnitude c) \<le> 0" for c
  proof -
    have "uint (f32_magnitude c) = 0" using that(2) by (rule antisym) simp
    then have "f32_magnitude c = 0" by (simp add: unsigned_eq_0_iff)
    then show ?thesis using f32_sign_magnitude [of c] that(1) by simp
  qed
  have "f32_negative a \<longleftrightarrow> f32_negative b"
  proof (rule ccontr)
    assume "\<not> ?thesis"
    then consider "f32_negative a" "\<not> f32_negative b" | "\<not> f32_negative a" "f32_negative b" by blast
    then show False
    proof cases
      case 1
      then have "- uint (f32_magnitude a) = uint (f32_magnitude b)" using r by (simp add: f32_rank_def)
      moreover have "0 \<le> uint (f32_magnitude b)" by simp
      ultimately have "uint (f32_magnitude a) \<le> 0" by linarith
      then show False using z 1(1) assms(2) by blast
    next
      case 2
      then have "uint (f32_magnitude a) = - uint (f32_magnitude b)" using r by (simp add: f32_rank_def)
      moreover have "0 \<le> uint (f32_magnitude a)" by simp
      ultimately have "uint (f32_magnitude b) \<le> 0" by linarith
      then show False using z 2(2) assms(3) by blast
    qed
  qed
  moreover from this have "f32_magnitude a = f32_magnitude b"
    using r by (intro word_uint_eq_iff [THEN iffD2]) (simp add: f32_rank_def split: if_splits)
  ultimately show ?thesis by (metis f32_sign_magnitude)
qed


section \<open>Values that are the same hash the same\<close>

fun no_negative_zero :: "val \<Rightarrow> bool" where
  "no_negative_zero v =
     (case v of
        VColor c \<Rightarrow> 0x80000000 \<notin> {red c, green c, blue c}
      | VGradient g \<Rightarrow> \<forall>s \<in> set (stops g). 0x80000000 \<notin> {red (stop_color s), green (stop_color s), blue (stop_color s)}
      | VArray vs \<Rightarrow> \<forall>x \<in> set vs. no_negative_zero x
      | _ \<Rightarrow> True)"

lemma color_eq_hash:
  assumes "color_eq c d" "0x80000000 \<notin> {red c, green c, blue c}" "0x80000000 \<notin> {red d, green d, blue d}"
  shows "color_hash c = color_hash d"
  using assms f32_eq_bits by (auto simp: color_eq_def color_hash_def)

lemma concat_map_zip:
  assumes "length xs = length ys" "\<And>a b. (a, b) \<in> set (zip xs ys) \<Longrightarrow> f a = g b"
  shows "map f xs = map g ys"
  using assms by (induction xs ys rule: list_induct2) auto

lemma gradient_same_hash:
  assumes "gradient_same g h" "no_negative_zero (VGradient g)" "no_negative_zero (VGradient h)"
  shows "gradient_hash_same g = gradient_hash_same h"
proof -
  have "map (\<lambda>s. HashedWord (stop_position s) # color_hash (stop_color s)) (stops g) =
      map (\<lambda>s. HashedWord (stop_position s) # color_hash (stop_color s)) (stops h)"
  proof (rule concat_map_zip)
    fix a b assume z: "(a, b) \<in> set (zip (stops g) (stops h))"
    then have "stop_position a = stop_position b" "color_eq (stop_color a) (stop_color b)"
      using assms(1) by (auto simp: gradient_same_def)
    moreover have "a \<in> set (stops g)" "b \<in> set (stops h)" using z by (auto dest: set_zip_leftD set_zip_rightD)
    ultimately show "HashedWord (stop_position a) # color_hash (stop_color a) =
        HashedWord (stop_position b) # color_hash (stop_color b)"
      using color_eq_hash [of "stop_color a" "stop_color b"] assms(2,3) by simp
  qed (use assms(1) in \<open>simp add: gradient_same_def\<close>)
  then show ?thesis using assms(1) by (simp add: gradient_hash_same_def gradient_same_def)
qed

lemma curve_same_hash: "curve_same c d \<Longrightarrow> curve_hash_same c = curve_hash_same d"
proof -
  assume same: "curve_same c d"
  then have "map (\<lambda>p. [HashedWord (point_position p), HashedWord (point_value p)]) c =
      map (\<lambda>p. [HashedWord (point_position p), HashedWord (point_value p)]) d"
    by (intro concat_map_zip) (auto simp: curve_same_def)
  with same show ?thesis by (simp add: curve_hash_same_def curve_same_def)
qed

declare val_hash_same.simps [simp del] no_negative_zero.simps [simp del]

lemma val_same_hash:
  "val_same v w \<Longrightarrow> no_negative_zero v \<Longrightarrow> no_negative_zero w \<Longrightarrow> val_hash_same v = val_hash_same w"
proof (induction v w rule: val_same.induct)
  case (10 xs w)
  then obtain ys where w: "w = VArray ys" by (cases w) simp_all
  have "map val_hash_same xs = map val_hash_same ys"
  proof (rule concat_map_zip)
    show "length xs = length ys" using "10.prems"(1) by (simp add: w)
    fix a b assume z: "(a, b) \<in> set (zip xs ys)"
    have "a \<in> set xs" "b \<in> set ys" using z by (auto dest: set_zip_leftD set_zip_rightD)
    then have "no_negative_zero a" "no_negative_zero b"
      using "10.prems"(2,3) by (simp_all add: w no_negative_zero.simps [of "VArray _"])
    moreover have "val_same a b" using "10.prems"(1) z by (auto simp: w)
    ultimately show "val_hash_same a = val_hash_same b" using "10.IH" w z by blast
  qed
  moreover from "10.prems"(1) have "length xs = length ys" by (simp add: w)
  ultimately show ?case by (simp add: w val_hash_same.simps [of "VArray _"] val_number_def)
next
  case (5 a w)
  then show ?case using color_eq_hash
    by (cases w) (simp_all add: val_hash_same.simps no_negative_zero.simps val_number_def)
next
  case (9 a w)
  then show ?case using gradient_same_hash
    by (cases w) (simp_all add: val_hash_same.simps val_number_def)
next
  case (8 a w)
  then show ?case using curve_same_hash
    by (cases w) (simp_all add: val_hash_same.simps val_number_def)
qed (rename_tac w, case_tac w, simp_all add: val_hash_same.simps val_number_def marks_eq_def marks_hash_def)+


section \<open>Validation\<close>

lemma identifier_new_iff:
  "identifier_new value = Inr name \<longleftrightarrow>
     name = value \<and> value \<noteq> [] \<and> is_identifier_start (hd value) \<and>
     (\<forall>c \<in> set (tl value). is_identifier_continue c)"
  by (cases "value") (auto simp: identifier_new_def)

lemma default_value_accepted:
  "case default_value t of Some v \<Rightarrow> accepts_value t v | None \<Rightarrow> t = TEnum []"
  by (cases t) (auto simp: default_value_def split: list.split)

definition valid_point :: "curve_point \<Rightarrow> bool" where
  "valid_point p \<longleftrightarrow> f32_is_finite (point_position p) \<and> f32_is_finite (point_value p) \<and> in_unit (point_position p)"

lemma validate_points_iff:
  assumes "\<not> f32_is_nan previous"
  shows "validate_points previous ps = None \<longleftrightarrow>
     (\<forall>p \<in> set ps. valid_point p \<and> f32_le previous (point_position p)) \<and>
     sorted_wrt (\<lambda>p q. f32_le (point_position p) (point_position q)) ps"
  using assms
proof (induction ps arbitrary: previous)
  case (Cons p ps)
  show ?case
  proof (cases "valid_point p")
    case True
    then have n: "\<not> f32_is_nan (point_position p)" by (simp add: valid_point_def f32_finite_not_nan)
    have "validate_points previous (p # ps) = None \<longleftrightarrow>
        f32_le previous (point_position p) \<and> validate_points (point_position p) ps = None"
      using True f32_not_lt [OF n Cons.prems] by (auto simp: valid_point_def)
    then show ?thesis using Cons.IH [OF n] True by (auto intro: f32_le_trans)
  qed (auto simp: valid_point_def)
qed simp

lemma curve_validate_iff:
  "curve_validate ps = None \<longleftrightarrow>
     (\<forall>p \<in> set ps. valid_point p) \<and>
     sorted_wrt (\<lambda>p q. f32_le (point_position p) (point_position q)) ps"
proof (cases ps)
  case (Cons p rest)
  show ?thesis
  proof (cases "valid_point p")
    case True
    then have n: "\<not> f32_is_nan (point_position p)" by (simp add: valid_point_def f32_finite_not_nan)
    have "curve_validate ps = validate_points (point_position p) rest"
      using True by (simp add: Cons curve_validate_def valid_point_def)
    then show ?thesis using validate_points_iff [OF n] True by (auto simp: Cons)
  qed (auto simp: Cons curve_validate_def valid_point_def)
qed (simp add: curve_validate_def)

section \<open>Mark windows\<close>

lemma takeWhile_sorted:
  "sorted xs \<Longrightarrow> takeWhile (\<lambda>m. m < e) xs = filter (\<lambda>m. m < (e :: u32)) xs"
proof (induction xs)
  case (Cons x xs)
  show ?case
  proof (cases "x < e")
    case False
    then have "e \<le> x" by simp
    then have "e \<le> m" if "m \<in> set xs" for m using Cons.prems that by (auto intro: order_trans)
    then have "filter (\<lambda>m. m < e) xs = []" by (auto simp: filter_empty_conv not_less)
    with False show ?thesis by simp
  qed (use Cons in simp)
qed simp

lemma partition_split:
  assumes "sorted xs"
  shows "drop (partition_point (\<lambda>m. m < s) xs) (take (partition_point (\<lambda>m. m < e) xs) xs) =
    filter (\<lambda>m. s \<le> m \<and> m < (e :: u32)) xs"
  using assms
proof (induction xs)
  case (Cons x xs)
  consider "e \<le> x" | "x < e" "s \<le> x" | "x < e" "x < s" by fastforce
  then show ?case
  proof cases
    case 1
    then have "filter (\<lambda>m. s \<le> m \<and> m < e) (x # xs) = []"
      using Cons.prems by (fastforce simp: filter_empty_conv)
    moreover have "\<not> x < e" using 1 by simp
    ultimately show ?thesis by (simp add: partition_point_def)
  next
    case 2
    have "filter (\<lambda>m. s \<le> m \<and> m < e) xs = filter (\<lambda>m. m < e) xs"
      using Cons.prems 2 by (intro filter_cong) auto
    moreover have "take (length (takeWhile (\<lambda>m. m < e) xs)) xs = filter (\<lambda>m. m < e) xs"
      by (rule trans [OF takeWhile_eq_take [symmetric] takeWhile_sorted]) (use Cons.prems in simp)
    ultimately show ?thesis using 2 by (simp add: partition_point_def)
  next
    case 3
    then show ?thesis using Cons by (simp add: partition_point_def)
  qed
qed (simp add: partition_point_def)

lemma partition_point_le: "partition_point p xs \<le> length xs"
  by (simp add: partition_point_def length_takeWhile_le)

lemma marks_window_ticks:
  assumes "sorted trk" "length trk < 2 ^ 32"
  shows "marks_ticks (marks_window trk s e) = filter (\<lambda>m. s \<le> m \<and> m < e) trk"
    "marks_len (marks_window trk s e) = length (filter (\<lambda>m. s \<le> m \<and> m < e) trk)"
proof -
  let ?f = "partition_point (\<lambda>m. m < s) trk" and ?l = "partition_point (\<lambda>m. m < e) trk"
  have u: "unat (of_nat (partition_point p trk) :: u32) = partition_point p trk" for p
    using partition_point_le [of p trk] assms(2) by (simp add: unat_of_nat)
  have m: "unat (max (of_nat ?l) (of_nat ?f) :: u32) = max ?l ?f"
    by (simp add: max_def word_le_nat_alt u)
  have "drop ?f (take (max ?l ?f) trk) = drop ?f (take ?l trk)"
    by (cases "?l \<le> ?f") (simp_all add: max_def)
  then show t: "marks_ticks (marks_window trk s e) = filter (\<lambda>m. s \<le> m \<and> m < e) trk"
    using partition_split [OF assms(1)] by (simp add: marks_ticks_def marks_window_def Let_def m u)
  have "length (marks_ticks (marks_window trk s e)) = max ?l ?f - ?f"
    using partition_point_le [of "\<lambda>m. m < s" trk] partition_point_le [of "\<lambda>m. m < e" trk]
    by (simp add: marks_ticks_def marks_window_def Let_def m u)
  moreover have "marks_len (marks_window trk s e) = max ?l ?f - ?f"
    by (simp add: marks_len_def marks_window_def Let_def unat_sub word_le_nat_alt m u)
  ultimately show "marks_len (marks_window trk s e) = length (filter (\<lambda>m. s \<le> m \<and> m < e) trk)"
    by (simp flip: t)
qed

section \<open>What values guarantee\<close>

text \<open>
  C40. Equal values hash alike: for the compiler's value numbering, two values that \<open>same\<close>
  identifies feed the hasher the same words, as long as no color channel is the float -0.0.
\<close>

theorem same_values_hash:
  assumes "val_same v w" "no_negative_zero v" "no_negative_zero w"
  shows "val_hash_same v = val_hash_same w"
  using assms by (rule val_same_hash)

text \<open>
  Two arrays that differ, a window of a longer track in one and a track of its own in the other,
  show the same marks and hash the same.
\<close>

theorem same_values_hash_witness:
  "VArray [VMarks (marks_window [10, 20, 30] 10 25), VColor black] \<noteq>
     VArray [VMarks (marks_new [0, 10]), VColor black] \<and>
   val_hash_same (VArray [VMarks (marks_window [10, 20, 30] 10 25), VColor black]) =
     val_hash_same (VArray [VMarks (marks_new [0, 10]), VColor black])"
proof
  show "VArray [VMarks (marks_window [10, 20, 30] 10 25), VColor black] \<noteq>
      VArray [VMarks (marks_new [0, 10]), VColor black]"
    by code_simp
  show "val_hash_same (VArray [VMarks (marks_window [10, 20, 30] 10 25), VColor black]) =
      val_hash_same (VArray [VMarks (marks_new [0, 10]), VColor black])"
    by (rule same_values_hash) code_simp+
qed

text \<open>
  With -0.0 the two disagree: two colors that differ in the sign of a zero are the same value
  and hash differently, so the two would be numbered apart.
\<close>

theorem negative_zero_hash:
  "val_same (VColor (black\<lparr>red := 0x80000000\<rparr>)) (VColor black) \<and>
   val_hash_same (VColor (black\<lparr>red := 0x80000000\<rparr>)) \<noteq> val_hash_same (VColor black)"
  by code_simp

text \<open>
  Every type's default is one of its values, and only an enum with no variants has none.
\<close>

theorem default_is_accepted:
  "case default_value t of Some v \<Rightarrow> accepts_value t v | None \<Rightarrow> t = TEnum []"
  by (rule default_value_accepted)

text \<open>
  C39. \<open>Identifier::new\<close> accepts exactly the non-empty words that start with an ASCII letter or an
  underscore and go on with letters, digits and underscores, and keeps them as they are.
\<close>

theorem identifier_accepted:
  "identifier_new value = Inr name \<longleftrightarrow>
     name = value \<and> value \<noteq> [] \<and> is_identifier_start (hd value) \<and>
     (\<forall>c \<in> set (tl value). is_identifier_continue c)"
  by (rule identifier_new_iff)

text \<open>
  A curve is valid exactly when its points are finite with positions in the unit interval,
  never decreasing. Equal neighbouring positions pass.
\<close>

theorem curve_validity:
  "curve_validate ps = None \<longleftrightarrow>
     (\<forall>p \<in> set ps. valid_point p) \<and>
     sorted_wrt (\<lambda>p q. f32_le (point_position p) (point_position q)) ps"
  by (rule curve_validate_iff)

text \<open>
  C32. A mark window over a sorted track holds exactly the track's ticks from its start up to its
  end, in order, and \<open>len\<close> counts them.
\<close>

theorem window_holds_range:
  assumes "sorted trk" "length trk < 2 ^ 32"
  shows "marks_ticks (marks_window trk s e) = filter (\<lambda>m. s \<le> m \<and> m < e) trk \<and>
    marks_len (marks_window trk s e) = length (filter (\<lambda>m. s \<le> m \<and> m < e) trk)"
  using marks_window_ticks [OF assms] by blast

theorem window_holds_range_witness:
  "marks_ticks (marks_window [1, 4, 4, 9] 2 9) = filter (\<lambda>m. 2 \<le> m \<and> m < 9) [1, 4, 4, 9]"
  by (rule window_holds_range [THEN conjunct1]) simp_all

theorem curve_validity_witness:
  "curve_validate [\<lparr>point_position = 0, point_value = 0\<rparr>, \<lparr>point_position = 0, point_value = f32_one\<rparr>] = None"
  unfolding curve_validity
  by (simp add: valid_point_def in_unit_def f32_le_def f32_is_finite_def f32_is_nan_def f32_rank_def f32_magnitude_def
      f32_negative_def f32_one_def)

theorem identifier_accepted_witness: "identifier_new (str ''a_1'') = Inr (str ''a_1'')"
  unfolding identifier_accepted by code_simp

end
