(* ===== verification/Bytecode.thy ===== *)
theory Bytecode
  imports Values "HOL-Library.State_Monad"
begin

unbundle bit_operations_syntax

text \<open>
  The strip bytecode of \<open>crates/donder-runtime-types/src/bytecode.rs\<close>: slots and
  banks, the instruction set, how an instruction reads and writes its slots, how
  much code it takes and nests, and what a program asks of its host.
\<close>

section \<open>Slots\<close>

definition STRIP :: nat where "STRIP = 128"
definition MAX_DEPTH :: u16 where "MAX_DEPTH = 16"
definition MAX_ROW_BYTES :: u32 where "MAX_ROW_BYTES = 192"
definition MAX_ITERATIONS :: int where "MAX_ITERATIONS = 10000"

definition ROW :: u16 where "ROW = push_bit 15 1"
definition INPUT :: u16 where "INPUT = push_bit 14 1"
definition INDEX :: u16 where "INDEX = INPUT - 1"

datatype slot = Slot (slot_bits: u16)

datatype input = PixelIndex | PixelFraction | PixelX | PixelY

datatype slot_class = Scalar u16 | Row u16 | PixelInput input

definition input_all :: "input list" where
  "input_all = [PixelIndex, PixelFraction, PixelX, PixelY]"

definition input_number :: "input \<Rightarrow> u16" where
  "input_number i = (case i of PixelIndex \<Rightarrow> 0 | PixelFraction \<Rightarrow> 1 | PixelX \<Rightarrow> 2 | PixelY \<Rightarrow> 3)"

definition slot_NONE :: slot where "slot_NONE = Slot (- 1)"
definition SCALARS :: u16 where "SCALARS = 127"
definition ROWS :: u16 where "ROWS = 124"
definition VIRTUAL :: u16 where "VIRTUAL = INDEX"

definition slot_from_bits :: "u16 \<Rightarrow> slot" where
  "slot_from_bits raw = Slot raw"

definition slot_scalar :: "u16 \<Rightarrow> slot" where
  "slot_scalar index = Slot (index AND INDEX)"

definition slot_row :: "u16 \<Rightarrow> slot" where
  "slot_row index = Slot (ROW OR (index AND INDEX))"

definition slot_input :: "input \<Rightarrow> slot" where
  "slot_input i = Slot (INPUT OR input_number i)"

definition slot_kind :: "slot \<Rightarrow> slot_class" where
  "slot_kind s =
     (if slot_bits s AND ROW \<noteq> 0 then Row (slot_bits s AND INDEX)
      else if slot_bits s AND INPUT \<noteq> 0
        then PixelInput (input_all ! unat (slot_bits s AND 3))
      else Scalar (slot_bits s))"

definition slot_is_scalar :: "slot \<Rightarrow> bool" where
  "slot_is_scalar s = (case slot_kind s of Scalar _ \<Rightarrow> True | _ \<Rightarrow> False)"

definition slot_is_none :: "slot \<Rightarrow> bool" where
  "slot_is_none s \<longleftrightarrow> s = slot_NONE"

definition slot_channel :: "slot \<Rightarrow> u16 \<Rightarrow> slot" where
  "slot_channel s channel = Slot (slot_bits s + channel)"

text \<open>The three kinds of slot are told apart by the two top bits.\<close>

lemma INDEX_mask: "INDEX = mask 14"
  by (simp add: INDEX_def INPUT_def mask_eq_exp_minus_1)
lemma bit_INDEX: "bit INDEX n \<longleftrightarrow> n < 14"
  by (simp only: INDEX_mask bit_mask_iff) auto
lemma bit_ROW: "bit ROW n \<longleftrightarrow> n = 15"
  by (simp only: ROW_def bit_push_bit_iff bit_1_iff possible_bit_word) auto
lemma bit_INPUT: "bit INPUT n \<longleftrightarrow> n = 14"
  by (simp only: INPUT_def bit_push_bit_iff bit_1_iff possible_bit_word) auto

lemma index_bit: "unat (i :: u16) < 16384 \<Longrightarrow> bit i n \<Longrightarrow> n < 14"
  using small_word_bit [of i 14 n] by simp

lemma masked_index: "unat (i :: u16) < 16384 \<Longrightarrow> i AND INDEX = i"
  by (intro bit_word_eqI) (auto simp: bit_simps bit_INDEX dest: index_bit)

lemma kind_scalar: "unat i < 16384 \<Longrightarrow> slot_kind (Slot i) = Scalar i"
proof -
  assume i: "unat i < 16384"
  have "\<not> bit i 15" "\<not> bit i 14" using index_bit [OF i, of 15] index_bit [OF i, of 14] by auto
  then have "i AND ROW = 0" "i AND INPUT = 0"
    by (auto intro!: bit_word_eqI simp: bit_simps bit_ROW bit_INPUT)
  then show ?thesis by (simp add: slot_kind_def)
qed

lemma kind_row: "unat i < 16384 \<Longrightarrow> slot_kind (slot_row i) = Row i"
proof -
  assume i: "unat i < 16384"
  have "bit ((ROW OR i) AND ROW) 15" by (simp add: bit_simps bit_ROW)
  then have "(ROW OR i) AND ROW \<noteq> 0" by force
  moreover have "(ROW OR i) AND INDEX = i"
    using index_bit [OF i] by (intro bit_word_eqI) (auto simp: bit_simps bit_ROW bit_INDEX)
  ultimately show ?thesis by (simp add: slot_kind_def slot_row_def masked_index [OF i])
qed

lemma kind_input: "slot_kind (slot_input i) = PixelInput i"
  by (cases i) (simp_all add: slot_kind_def slot_input_def input_number_def ROW_def INPUT_def input_all_def)

lemma kind_none: "slot_kind slot_NONE = Row 16383"
  by (simp add: slot_kind_def slot_NONE_def ROW_def INDEX_def INPUT_def)

section \<open>Banks\<close>

datatype bank = BFloat | BInt | BBool | BColor | BResource

definition bank_for_type :: "ty \<Rightarrow> bank" where
  "bank_for_type t =
     (case t of TFloat \<Rightarrow> BFloat | TInt \<Rightarrow> BInt | TEnum _ \<Rightarrow> BInt | TBool \<Rightarrow> BBool
      | TColor \<Rightarrow> BColor | _ \<Rightarrow> BResource)"

definition bank_storage :: "bank \<Rightarrow> bank" where
  "bank_storage b = (case b of BColor \<Rightarrow> BFloat | bank \<Rightarrow> bank)"

definition bank_width :: "bank \<Rightarrow> u16" where
  "bank_width b = (case b of BColor \<Rightarrow> 3 | _ \<Rightarrow> 1)"

definition bank_row_bytes :: "bank \<Rightarrow> u32" where
  "bank_row_bytes b = (case b of BBool \<Rightarrow> 1 | _ \<Rightarrow> 4)"

record banks =
  floats :: u16
  ints :: u16
  bools :: u16
  resource_slots :: u16

definition banks_default :: banks where
  "banks_default = \<lparr>floats = 0, ints = 0, bools = 0, resource_slots = 0\<rparr>"

definition banks_STORAGE :: "bank list" where
  "banks_STORAGE = [BFloat, BInt, BBool, BResource]"

definition banks_get :: "banks \<Rightarrow> bank \<Rightarrow> u16" where
  "banks_get bs b =
     (case bank_storage b of BInt \<Rightarrow> ints bs | BBool \<Rightarrow> bools bs
      | BResource \<Rightarrow> resource_slots bs | _ \<Rightarrow> floats bs)"

text \<open>Writing through \<open>get_mut\<close>.\<close>

definition banks_set :: "bank \<Rightarrow> u16 \<Rightarrow> banks \<Rightarrow> banks" where
  "banks_set b n bs =
     (case bank_storage b of BInt \<Rightarrow> bs\<lparr>ints := n\<rparr> | BBool \<Rightarrow> bs\<lparr>bools := n\<rparr>
      | BResource \<Rightarrow> bs\<lparr>resource_slots := n\<rparr> | _ \<Rightarrow> bs\<lparr>floats := n\<rparr>)"

definition banks_row_bytes :: "banks \<Rightarrow> u32" where
  "banks_row_bytes bs =
     sum_list (map (\<lambda>b. ucast (banks_get bs b) * bank_row_bytes b) banks_STORAGE)"

definition banks_max :: "banks \<Rightarrow> banks \<Rightarrow> banks" where
  "banks_max a b =
     \<lparr>floats = max (floats a) (floats b), ints = max (ints a) (ints b),
      bools = max (bools a) (bools b), resource_slots = max (resource_slots a) (resource_slots b)\<rparr>"

section \<open>Operators\<close>

datatype context_read = CSeconds | CProgress | CDuration | CFrameRate | CFramesElapsed
  | CPixelCount | CTargetMinX | CTargetMinY | CTargetMaxX | CTargetMaxY

definition context_bank :: "context_read \<Rightarrow> bank" where
  "context_bank r = (case r of CPixelCount \<Rightarrow> BInt | CFramesElapsed \<Rightarrow> BInt | _ \<Rightarrow> BFloat)"

definition reads_target_context :: "context_read \<Rightarrow> bool" where
  "reads_target_context r \<longleftrightarrow>
     \<not> (case r of CSeconds \<Rightarrow> True | CProgress \<Rightarrow> True | CDuration \<Rightarrow> True | CFrameRate \<Rightarrow> True
        | CFramesElapsed \<Rightarrow> True | _ \<Rightarrow> False)"

definition reads_geometry :: "context_read \<Rightarrow> bool" where
  "reads_geometry r =
     (case r of CTargetMinX \<Rightarrow> True | CTargetMinY \<Rightarrow> True | CTargetMaxX \<Rightarrow> True
      | CTargetMaxY \<Rightarrow> True | _ \<Rightarrow> False)"

datatype float_unary = FNegate | FSin | FCos | FTan | FExp | FLog | FAbs | FFloor | FCeil
  | FTrunc | FSqrt | FSmoothstep | FRand

datatype float_binary = FAdd | FSubtract | FMultiply | FDivide | FRemainder | FMin | FMax
  | FValueOr | FAtan2 | FPower

datatype int_unary = INegate | IAbs

datatype int_binary = IAdd | ISubtract | IMultiply | IRemainder | IFloorDivide | IMin | IMax

datatype colors = Colors (colors_bits: u8)

definition colors_NONE :: colors where "colors_NONE = Colors 0"

definition colors_with :: "colors \<Rightarrow> nat \<Rightarrow> colors" where
  "colors_with c index = Colors (colors_bits c OR push_bit index 1)"

definition colors_from_bits :: "u8 \<Rightarrow> colors" where
  "colors_from_bits bits = Colors bits"

definition is_color :: "colors \<Rightarrow> nat \<Rightarrow> bool" where
  "is_color c index \<longleftrightarrow> colors_bits c AND push_bit index 1 \<noteq> 0"

definition colors_channels :: "colors \<Rightarrow> u16" where
  "colors_channels c = (if colors_bits c = 0 then 1 else 3)"

definition colors_operand :: "colors \<Rightarrow> slot \<Rightarrow> nat \<Rightarrow> u16 \<Rightarrow> slot" where
  "colors_operand c s index channel = (if is_color c index then slot_channel s channel else s)"

definition colors_bank :: "colors \<Rightarrow> nat option \<Rightarrow> bank" where
  "colors_bank c index =
     (let color = (case index of Some i \<Rightarrow> is_color c i | None \<Rightarrow> colors_bits c \<noteq> 0)
      in if color then BColor else BFloat)"

datatype compare_op = CmpLess | CmpLessEqual | CmpGreater | CmpGreaterEqual | CmpEqual | CmpNotEqual

datatype color_component = Hue | Saturation | Intensity

datatype curve_op = CurveSample | CurveIntegral | CurveCrossing | CurveLastCrossing

datatype mark_op = MarkAt | MarkLast | MarkLastIndex

datatype resource = RCurve | RGradient | RMarks | RArray

datatype reducer = RedMax | RedMin | RedSum | RedAny | RedAll | RedFirst | RedLast

datatype direction = Forward | Backward

datatype edges = EdgeSkip | EdgeExtend | EdgeMirror

datatype 'a signal_pixel = Current | Local 'a | Shifted 'a edges

text \<open>
  Local indices are \<open>i32\<close>; the sources call this with indices and counts of a fixture, so
  the subtractions do not overflow. \<open>clamp\<close> panics when its bounds are inverted, which
  \<open>last.max(0)\<close> excludes.
\<close>

definition clamp_int :: "int \<Rightarrow> int \<Rightarrow> int \<Rightarrow> int" where
  "clamp_int lo hi x = (if x < lo then lo else if hi < x then hi else x)"

definition edges_local :: "edges \<Rightarrow> int \<Rightarrow> int \<Rightarrow> int option" where
  "edges_local e index count =
     (let last = count - 1
      in if 0 \<le> index \<and> index < count then Some index
         else case e of
           EdgeSkip \<Rightarrow> None
         | EdgeExtend \<Rightarrow> Some (clamp_int 0 (max last 0) index)
         | EdgeMirror \<Rightarrow>
             let reflected = (if index < 0 then - index else 2 * last - index)
             in Some (clamp_int 0 (max last 0) reflected))"

definition signal_pixel_map :: "('a \<Rightarrow> 'b) \<Rightarrow> 'a signal_pixel \<Rightarrow> 'b signal_pixel" where
  "signal_pixel_map f p =
     (case p of Current \<Rightarrow> Current | Local i \<Rightarrow> Local (f i) | Shifted i e \<Rightarrow> Shifted (f i) e)"

definition signal_pixel_index :: "'a signal_pixel \<Rightarrow> 'a option" where
  "signal_pixel_index p = (case p of Current \<Rightarrow> None | Local i \<Rightarrow> Some i | Shifted i _ \<Rightarrow> Some i)"

section \<open>Instructions\<close>

datatype (plugins only: size code) instruction =
    Const bank slot u32
  | Param bank slot u16
  | Context slot context_read
  | FloatUnary float_unary slot slot
  | FloatBinary float_binary colors slot slot slot
  | Clamp slot slot slot slot
  | Mix colors slot slot slot slot
  | IntUnary int_unary slot slot
  | IntBinary int_binary slot slot slot
  | IntToFloat slot slot
  | FloatToInt slot slot
  | Compare compare_op bank slot slot slot
  | ColorComponent color_component slot slot
  | HsvColor slot slot slot slot
  | Recolor bool slot slot slot
  | Curve curve_op slot slot slot slot
  | Gradient slot slot slot slot
  | Mark mark_op slot slot slot
  | Length resource slot slot
  | Index bank slot slot slot slot
  | Select bank slot slot slot slot
  | Move bank slot slot
  | Section bool slot slot
  | Read slot u16 "slot signal_pixel"
  | Tabulate bank bool slot slot slot slot slot u8
  | Lookup bank slot slot slot slot
  | Branch slot u16 u16
  | Reduce reducer bank slot slot slot slot slot slot u16 u16
  | Stencil reducer edges slot slot slot slot slot slot slot u16 u16
  | Scan direction slot slot slot u8 u16

definition STATE_INPUT :: u16 where "STATE_INPUT = - 1"

section \<open>Slot uses\<close>

datatype access = ReadAccess | WriteAccess | UpdateAccess

text \<open>
  \<open>visit_slots\<close> hands each slot field to a callback that may rewrite it and keeps state
  of its own: a state monad. The local closure \<open>v\<close> of the source skips absent
  operands.
\<close>

type_synonym 's visitor = "bank \<Rightarrow> slot \<Rightarrow> access \<Rightarrow> ('s, slot) state"

definition visit_present :: "'s visitor \<Rightarrow> bank \<Rightarrow> slot \<Rightarrow> access \<Rightarrow> ('s, slot) state" where
  "visit_present visit b s a = (if slot_is_none s then State_Monad.return s else visit b s a)"

definition visit_read_pixel ::
  "'s visitor \<Rightarrow> slot signal_pixel \<Rightarrow> ('s, slot signal_pixel) state" where
  "visit_read_pixel visit p =
     (case p of
        Current \<Rightarrow> State_Monad.return Current
      | Local i \<Rightarrow> do { i \<leftarrow> visit_present visit BInt i ReadAccess; State_Monad.return (Local i) }
      | Shifted i e \<Rightarrow>
          do { i \<leftarrow> visit_present visit BInt i ReadAccess; State_Monad.return (Shifted i e) })"

definition mark_operand_bank :: "mark_op \<Rightarrow> bank" where
  "mark_operand_bank op = (case op of MarkAt \<Rightarrow> BInt | MarkLast \<Rightarrow> BFloat | MarkLastIndex \<Rightarrow> BFloat)"

definition mark_dst_bank :: "mark_op \<Rightarrow> bank" where
  "mark_dst_bank op = (case op of MarkAt \<Rightarrow> BFloat | MarkLast \<Rightarrow> BFloat | MarkLastIndex \<Rightarrow> BInt)"

fun visit_slots :: "'s visitor \<Rightarrow> instruction \<Rightarrow> ('s, instruction) state" where
  "visit_slots visit (Const b dst bits) =
     do { dst \<leftarrow> visit_present visit b dst WriteAccess; State_Monad.return (Const b dst bits) }"
| "visit_slots visit (Param b dst index) =
     do { dst \<leftarrow> visit_present visit b dst WriteAccess; State_Monad.return (Param b dst index) }"
| "visit_slots visit (Context dst rd) =
     do { dst \<leftarrow> visit_present visit (context_bank rd) dst WriteAccess;
          State_Monad.return (Context dst rd) }"
| "visit_slots visit (FloatUnary op dst a) =
     do { a \<leftarrow> visit_present visit BFloat a ReadAccess;
          dst \<leftarrow> visit_present visit BFloat dst WriteAccess;
          State_Monad.return (FloatUnary op dst a) }"
| "visit_slots visit (FloatBinary op cs dst a b) =
     do { a \<leftarrow> visit_present visit (colors_bank cs (Some 0)) a ReadAccess;
          b \<leftarrow> visit_present visit (colors_bank cs (Some 1)) b ReadAccess;
          dst \<leftarrow> visit_present visit (colors_bank cs None) dst WriteAccess;
          State_Monad.return (FloatBinary op cs dst a b) }"
| "visit_slots visit (Mix cs dst a b amount) =
     do { a \<leftarrow> visit_present visit (colors_bank cs (Some 0)) a ReadAccess;
          b \<leftarrow> visit_present visit (colors_bank cs (Some 1)) b ReadAccess;
          amount \<leftarrow> visit_present visit (colors_bank cs (Some 2)) amount ReadAccess;
          dst \<leftarrow> visit_present visit (colors_bank cs None) dst WriteAccess;
          State_Monad.return (Mix cs dst a b amount) }"
| "visit_slots visit (Clamp dst a b c) =
     do { a \<leftarrow> visit_present visit BFloat a ReadAccess;
          b \<leftarrow> visit_present visit BFloat b ReadAccess;
          c \<leftarrow> visit_present visit BFloat c ReadAccess;
          dst \<leftarrow> visit_present visit BFloat dst WriteAccess;
          State_Monad.return (Clamp dst a b c) }"
| "visit_slots visit (IntUnary op dst a) =
     do { a \<leftarrow> visit_present visit BInt a ReadAccess;
          dst \<leftarrow> visit_present visit BInt dst WriteAccess;
          State_Monad.return (IntUnary op dst a) }"
| "visit_slots visit (IntBinary op dst a b) =
     do { a \<leftarrow> visit_present visit BInt a ReadAccess;
          b \<leftarrow> visit_present visit BInt b ReadAccess;
          dst \<leftarrow> visit_present visit BInt dst WriteAccess;
          State_Monad.return (IntBinary op dst a b) }"
| "visit_slots visit (IntToFloat dst a) =
     do { a \<leftarrow> visit_present visit BInt a ReadAccess;
          dst \<leftarrow> visit_present visit BFloat dst WriteAccess;
          State_Monad.return (IntToFloat dst a) }"
| "visit_slots visit (FloatToInt dst a) =
     do { a \<leftarrow> visit_present visit BFloat a ReadAccess;
          dst \<leftarrow> visit_present visit BInt dst WriteAccess;
          State_Monad.return (FloatToInt dst a) }"
| "visit_slots visit (Compare op bank dst a b) =
     do { a \<leftarrow> visit_present visit bank a ReadAccess;
          b \<leftarrow> visit_present visit bank b ReadAccess;
          dst \<leftarrow> visit_present visit BBool dst WriteAccess;
          State_Monad.return (Compare op bank dst a b) }"
| "visit_slots visit (ColorComponent op dst color) =
     do { color \<leftarrow> visit_present visit BColor color ReadAccess;
          dst \<leftarrow> visit_present visit BFloat dst WriteAccess;
          State_Monad.return (ColorComponent op dst color) }"
| "visit_slots visit (Recolor shift dst color hue) =
     do { color \<leftarrow> visit_present visit BColor color ReadAccess;
          hue \<leftarrow> visit_present visit BFloat hue ReadAccess;
          dst \<leftarrow> visit_present visit BColor dst WriteAccess;
          State_Monad.return (Recolor shift dst color hue) }"
| "visit_slots visit (HsvColor dst hue saturation val) =
     do { hue \<leftarrow> visit_present visit BFloat hue ReadAccess;
          saturation \<leftarrow> visit_present visit BFloat saturation ReadAccess;
          val \<leftarrow> visit_present visit BFloat val ReadAccess;
          dst \<leftarrow> visit_present visit BColor dst WriteAccess;
          State_Monad.return (HsvColor dst hue saturation val) }"
| "visit_slots visit (Curve op dst curve val before) =
     do { curve \<leftarrow> visit_present visit BResource curve ReadAccess;
          val \<leftarrow> visit_present visit BFloat val ReadAccess;
          before \<leftarrow> visit_present visit BFloat before ReadAccess;
          dst \<leftarrow> visit_present visit BFloat dst WriteAccess;
          State_Monad.return (Curve op dst curve val before) }"
| "visit_slots visit (Gradient dst gradient pos scale) =
     do { gradient \<leftarrow> visit_present visit BResource gradient ReadAccess;
          pos \<leftarrow> visit_present visit BFloat pos ReadAccess;
          scale \<leftarrow> visit_present visit BFloat scale ReadAccess;
          dst \<leftarrow> visit_present visit BColor dst WriteAccess;
          State_Monad.return (Gradient dst gradient pos scale) }"
| "visit_slots visit (Mark op dst marks operand) =
     do { marks \<leftarrow> visit_present visit BResource marks ReadAccess;
          operand \<leftarrow> visit_present visit (mark_operand_bank op) operand ReadAccess;
          dst \<leftarrow> visit_present visit (mark_dst_bank op) dst WriteAccess;
          State_Monad.return (Mark op dst marks operand) }"
| "visit_slots visit (Length kind dst res) =
     do { res \<leftarrow> visit_present visit BResource res ReadAccess;
          dst \<leftarrow> visit_present visit BInt dst WriteAccess;
          State_Monad.return (Length kind dst res) }"
| "visit_slots visit (Index bank dst array index fallback) =
     do { array \<leftarrow> visit_present visit BResource array ReadAccess;
          index \<leftarrow> visit_present visit BInt index ReadAccess;
          fallback \<leftarrow> visit_present visit bank fallback ReadAccess;
          dst \<leftarrow> visit_present visit bank dst WriteAccess;
          State_Monad.return (Index bank dst array index fallback) }"
| "visit_slots visit (Select bank dst condition yes no) =
     do { condition \<leftarrow> visit_present visit BBool condition ReadAccess;
          yes \<leftarrow> visit_present visit bank yes ReadAccess;
          no \<leftarrow> visit_present visit bank no ReadAccess;
          dst \<leftarrow> visit_present visit bank dst WriteAccess;
          State_Monad.return (Select bank dst condition yes no) }"
| "visit_slots visit (Move bank dst src) =
     do { src \<leftarrow> visit_present visit bank src ReadAccess;
          dst \<leftarrow> visit_present visit bank dst WriteAccess;
          State_Monad.return (Move bank dst src) }"
| "visit_slots visit (Section index dst width) =
     do { width \<leftarrow> visit_present visit BInt width ReadAccess;
          dst \<leftarrow> visit_present visit BInt dst WriteAccess;
          State_Monad.return (Section index dst width) }"
| "visit_slots visit (Read dst input pixel) =
     do { pixel \<leftarrow> visit_read_pixel visit pixel;
          dst \<leftarrow> visit_present visit BColor dst WriteAccess;
          State_Monad.return (Read dst input pixel) }"
| "visit_slots visit (Tabulate bank prefix dst index start fin val len) =
     do { start \<leftarrow> visit_present visit BInt start ReadAccess;
          fin \<leftarrow> visit_present visit BInt fin ReadAccess;
          index \<leftarrow> visit_present visit BInt index WriteAccess;
          val \<leftarrow> visit_present visit bank val ReadAccess;
          dst \<leftarrow> visit_present visit bank dst WriteAccess;
          State_Monad.return (Tabulate bank prefix dst index start fin val len) }"
| "visit_slots visit (Lookup bank dst table index start) =
     do { table \<leftarrow> visit_present visit bank table ReadAccess;
          index \<leftarrow> visit_present visit BInt index ReadAccess;
          start \<leftarrow> visit_present visit BInt start ReadAccess;
          dst \<leftarrow> visit_present visit bank dst WriteAccess;
          State_Monad.return (Lookup bank dst table index start) }"
| "visit_slots visit (Branch condition then_len else_len) =
     do { condition \<leftarrow> visit_present visit BBool condition ReadAccess;
          State_Monad.return (Branch condition then_len else_len) }"
| "visit_slots visit (Reduce reducer bank acc index start fin keep val loop_len contribute_len) =
     do { start \<leftarrow> visit_present visit BInt start ReadAccess;
          fin \<leftarrow> visit_present visit BInt fin ReadAccess;
          index \<leftarrow> visit_present visit BInt index WriteAccess;
          keep \<leftarrow> visit_present visit BBool keep ReadAccess;
          val \<leftarrow> visit_present visit bank val ReadAccess;
          acc \<leftarrow> visit_present visit bank acc UpdateAccess;
          State_Monad.return
            (Reduce reducer bank acc index start fin keep val loop_len contribute_len) }"
| "visit_slots visit (Scan direction dst decay weight cache weight_len) =
     do { decay \<leftarrow> visit_present visit BFloat decay ReadAccess;
          weight \<leftarrow> visit_present visit BFloat weight ReadAccess;
          dst \<leftarrow> visit_present visit BColor dst WriteAccess;
          State_Monad.return (Scan direction dst decay weight cache weight_len) }"
| "visit_slots visit
     (Stencil reducer edges acc index start fin weight scale pixel weight_len tap_len) =
     do { start \<leftarrow> visit_present visit BInt start ReadAccess;
          fin \<leftarrow> visit_present visit BInt fin ReadAccess;
          index \<leftarrow> visit_present visit BInt index WriteAccess;
          weight \<leftarrow> visit_present visit BFloat weight ReadAccess;
          scale \<leftarrow> visit_present visit BFloat scale ReadAccess;
          pixel \<leftarrow> visit_present visit BFloat pixel ReadAccess;
          acc \<leftarrow> visit_present visit BColor acc UpdateAccess;
          State_Monad.return
            (Stencil reducer edges acc index start fin weight scale pixel weight_len tap_len) }"

text \<open>
  Visiting with a callback that only records lists an instruction's slots in order; with
  one that only rewrites, it renames them.
\<close>

definition slot_uses :: "instruction \<Rightarrow> (bank \<times> slot \<times> access) list" where
  "slot_uses i =
     snd (run_state (visit_slots (\<lambda>b s a. State (\<lambda>seen. (s, seen @ [(b, s, a)]))) i) [])"

definition rename_slots :: "(bank \<Rightarrow> slot \<Rightarrow> slot) \<Rightarrow> instruction \<Rightarrow> instruction" where
  "rename_slots f i =
     fst (run_state (visit_slots (\<lambda>b s a. State_Monad.return (f b s)) i) ())"

text \<open>What one operand adds to the list of uses; the uses of an instruction unfold to these.\<close>

definition present :: "bank \<Rightarrow> slot \<Rightarrow> access \<Rightarrow> (bank \<times> slot \<times> access) list" where
  "present b s a = (if slot_is_none s then [] else [(b, s, a)])"

abbreviation record_use :: "(bank \<times> slot \<times> access) list visitor" where
  "record_use \<equiv> \<lambda>b s a. State (\<lambda>seen. (s, seen @ [(b, s, a)]))"

lemma record_present:
  "visit_present record_use b s a = State (\<lambda>seen. (s, seen @ present b s a))"
  by (simp add: visit_present_def present_def State_Monad.return_def)

lemma state_bind: "State_Monad.bind (State f) g = State (\<lambda>s. case f s of (x, t) \<Rightarrow> run_state (g x) t)"
  by (simp add: State_Monad.bind_def)

lemmas state_simps = record_present state_bind State_Monad.return_def

lemma visit_pixel_uses:
  "visit_read_pixel record_use p =
     State (\<lambda>seen. (p, seen @ (case signal_pixel_index p of None \<Rightarrow> [] | Some i \<Rightarrow> present BInt i ReadAccess)))"
  by (cases p) (simp_all add: visit_read_pixel_def signal_pixel_index_def state_simps)

lemmas slot_uses_simps = slot_uses_def state_simps visit_pixel_uses

record operand_uses =
  operands_dst :: "(bank \<times> slot) option"
  operands_reads :: "(bank \<times> slot) list"

definition is_reduction :: "instruction \<Rightarrow> bool" where
  "is_reduction i =
     (case i of Reduce _ _ _ _ _ _ _ _ _ _ \<Rightarrow> True | Stencil _ _ _ _ _ _ _ _ _ _ _ \<Rightarrow> True | _ \<Rightarrow> False)"

definition collect_operand ::
  "bool \<Rightarrow> bank \<Rightarrow> slot \<Rightarrow> access \<Rightarrow> operand_uses \<Rightarrow> operand_uses" where
  "collect_operand reduction b s a ops =
     (case a of
        ReadAccess \<Rightarrow> ops\<lparr>operands_reads := operands_reads ops @ [(b, s)]\<rparr>
      | WriteAccess \<Rightarrow> if \<not> reduction then ops\<lparr>operands_dst := Some (b, s)\<rparr> else ops
      | UpdateAccess \<Rightarrow>
          ops\<lparr>operands_reads := operands_reads ops @ [(b, s)], operands_dst := Some (b, s)\<rparr>)"

definition operands :: "instruction \<Rightarrow> operand_uses" where
  "operands i =
     snd (run_state
       (visit_slots (\<lambda>b s a. State (\<lambda>ops. (s, collect_operand (is_reduction i) b s a ops))) i)
       \<lparr>operands_dst = None, operands_reads = []\<rparr>)"

section \<open>Code layout\<close>

definition width :: "instruction \<Rightarrow> nat" where
  "width i = (if is_reduction i then 2 else 1)"

definition nested :: "instruction \<Rightarrow> u32" where
  "nested i =
     (case i of
        Branch _ then_len else_len \<Rightarrow> ucast then_len + ucast else_len
      | Reduce _ _ _ _ _ _ _ _ loop_len contribute_len \<Rightarrow> ucast loop_len + ucast contribute_len
      | Stencil _ _ _ _ _ _ _ _ _ weight_len tap_len \<Rightarrow> ucast weight_len + ucast tap_len
      | Scan _ _ _ _ _ weight_len \<Rightarrow> ucast weight_len
      | Tabulate _ _ _ _ _ _ _ len \<Rightarrow> ucast len
      | _ \<Rightarrow> 0)"

section \<open>Parameters\<close>

datatype parameter_kind = KVoid | KInt | KFloat | KBool | KColor | KMarks | KCurve | KGradient
  | KEnum | KArray

datatype param_storage = WordStorage | ResourceStorage

definition kind_for_type :: "ty \<Rightarrow> parameter_kind" where
  "kind_for_type t =
     (case t of TVoid \<Rightarrow> KVoid | TInt \<Rightarrow> KInt | TFloat \<Rightarrow> KFloat | TBool \<Rightarrow> KBool | TColor \<Rightarrow> KColor
      | TMarks \<Rightarrow> KMarks | TCurve \<Rightarrow> KCurve | TGradient \<Rightarrow> KGradient | TEnum _ \<Rightarrow> KEnum
      | TArray _ \<Rightarrow> KArray)"

definition kind_storage :: "parameter_kind \<Rightarrow> param_storage option" where
  "kind_storage k =
     (case k of
        KVoid \<Rightarrow> None
      | KInt \<Rightarrow> Some WordStorage | KFloat \<Rightarrow> Some WordStorage | KBool \<Rightarrow> Some WordStorage
      | KColor \<Rightarrow> Some WordStorage | KEnum \<Rightarrow> Some WordStorage
      | KMarks \<Rightarrow> Some ResourceStorage | KCurve \<Rightarrow> Some ResourceStorage
      | KGradient \<Rightarrow> Some ResourceStorage | KArray \<Rightarrow> Some ResourceStorage)"

text \<open>Indexing past the parameters panics: \<open>None\<close>.\<close>

definition param_bank :: "ty list \<Rightarrow> nat \<Rightarrow> u16 option" where
  "param_bank params index =
     (if index < length params
      then let storage = kind_storage (kind_for_type (params ! index))
           in Some (of_nat (length
                (filter (\<lambda>t. kind_storage (kind_for_type t) = storage) (take index params))))
      else None)"

end
