(* ===== verification/InstructionWords.thy ===== *)
theory InstructionWords
  imports Bytecode
begin

unbundle bit_operations_syntax

text \<open>
  Instructions as 8-byte words, \<open>crates/donder-runtime-types/src/word.rs\<close>: the wire
  numbers of the fieldless enums (the trait \<open>Wire\<close>, the locale \<open>wire\<close> here), slots
  packed into a byte, and the encoding and decoding of every instruction. A panic of
  the source (an enum number out of range, an opcode the compiler never writes, a
  missing word) is \<open>None\<close>.
\<close>

section \<open>Wire enums\<close>

type_synonym instruction_word = "u8 list"

definition to_wire :: "'a list \<Rightarrow> 'a \<Rightarrow> u8" where
  "to_wire all x = of_nat (length (takeWhile (\<lambda>y. y \<noteq> x) all))"

definition from_wire :: "'a list \<Rightarrow> u8 \<Rightarrow> 'a option" where
  "from_wire all n = nth_opt all (unat n)"

text \<open>Two enum operands in the low and the high four bits of a byte.\<close>

definition both :: "u8 \<Rightarrow> u8 \<Rightarrow> u8" where
  "both low high = low OR push_bit 4 high"

lemma low_nibble: "(15 :: u8) = mask 4"
  by (simp add: mask_eq_exp_minus_1)

lemma nibble_bit: "(a :: u8) < 16 \<Longrightarrow> bit a n \<Longrightarrow> n < 4"
  by (rule small_word_bit [of a]) (simp_all add: word_less_nat_alt)

lemma low_of_both: "a < 16 \<Longrightarrow> both a b AND 15 = a"
  by (intro bit_word_eqI) (auto simp: both_def bit_simps low_nibble dest: nibble_bit)

lemma high_of_both: "a < 16 \<Longrightarrow> b < 16 \<Longrightarrow> drop_bit 4 (both a b) = b"
  by (intro bit_word_eqI) (fastforce simp: both_def bit_simps dest: nibble_bit)

lemma low_of_nibble: "a < 16 \<Longrightarrow> a AND 15 = (a :: u8)"
  by (intro bit_word_eqI) (auto simp: bit_simps low_nibble dest: nibble_bit)

text \<open>
  What the encoding relies on of a wire enum: \<open>ALL\<close> lists every variant once, and there
  are few enough for four bits.
\<close>

locale wire =
  fixes all :: "'a list"
  assumes listed: "x \<in> set all"
    and few: "length all \<le> 16"
begin

lemma number_less: "length (takeWhile (\<lambda>y. y \<noteq> x) all) < length all"
  using listed [of x] by (induction all) auto

lemma nth_number: "all ! length (takeWhile (\<lambda>y. y \<noteq> x) all) = x"
  using nth_length_takeWhile [OF number_less] by blast

lemma unat_to_wire: "unat (to_wire all x) = length (takeWhile (\<lambda>y. y \<noteq> x) all)"
  using number_less [of x] few by (simp add: to_wire_def unat_of_nat)

lemma to_wire_small [simp, codec]: "to_wire all x < 16"
  using number_less [of x] few by (simp add: word_less_nat_alt unat_to_wire)

lemma from_to_wire [simp, codec]: "from_wire all (to_wire all x) = Some x"
  by (simp add: from_wire_def unat_to_wire number_less nth_number)

lemma low [simp, codec]: "from_wire all (both (to_wire all x) high AND 15) = Some x"
  by (simp add: low_of_both)

lemma alone [simp, codec]: "from_wire all (to_wire all x AND 15) = Some x"
  by (simp add: low_of_nibble)

lemma high [simp, codec]: "low < 16 \<Longrightarrow> from_wire all (drop_bit 4 (both low (to_wire all x))) = Some x"
  by (simp add: high_of_both)

end

definition float_unary_ALL :: "float_unary list" where
  "float_unary_ALL = [FNegate, FSin, FCos, FTan, FExp, FLog, FAbs, FFloor, FCeil, FTrunc, FSqrt,
     FSmoothstep, FRand]"

definition float_binary_ALL :: "float_binary list" where
  "float_binary_ALL = [FAdd, FSubtract, FMultiply, FDivide, FRemainder, FMin, FMax, FValueOr,
     FAtan2, FPower]"

definition int_unary_ALL :: "int_unary list" where
  "int_unary_ALL = [INegate, IAbs]"

definition int_binary_ALL :: "int_binary list" where
  "int_binary_ALL = [IAdd, ISubtract, IMultiply, IRemainder, IFloorDivide, IMin, IMax]"

definition compare_op_ALL :: "compare_op list" where
  "compare_op_ALL = [CmpLess, CmpLessEqual, CmpGreater, CmpGreaterEqual, CmpEqual, CmpNotEqual]"

definition color_component_ALL :: "color_component list" where
  "color_component_ALL = [Hue, Saturation, Intensity]"

definition curve_op_ALL :: "curve_op list" where
  "curve_op_ALL = [CurveSample, CurveIntegral, CurveCrossing, CurveLastCrossing]"

definition mark_op_ALL :: "mark_op list" where
  "mark_op_ALL = [MarkAt, MarkLast, MarkLastIndex]"

definition resource_ALL :: "resource list" where
  "resource_ALL = [RCurve, RGradient, RMarks, RArray]"

definition reducer_ALL :: "reducer list" where
  "reducer_ALL = [RedMax, RedMin, RedSum, RedAny, RedAll, RedFirst, RedLast]"

definition bank_ALL :: "bank list" where
  "bank_ALL = [BFloat, BInt, BBool, BColor, BResource]"

definition context_read_ALL :: "context_read list" where
  "context_read_ALL = [CSeconds, CProgress, CDuration, CFrameRate, CFramesElapsed, CPixelCount,
     CTargetMinX, CTargetMinY, CTargetMaxX, CTargetMaxY]"

definition direction_ALL :: "direction list" where
  "direction_ALL = [Forward, Backward]"

definition edges_ALL :: "edges list" where
  "edges_ALL = [EdgeSkip, EdgeExtend, EdgeMirror]"

interpretation float_unary: wire float_unary_ALL
  by unfold_locales (rename_tac x, case_tac x, simp_all add: float_unary_ALL_def)

interpretation float_binary: wire float_binary_ALL
  by unfold_locales (rename_tac x, case_tac x, simp_all add: float_binary_ALL_def)

interpretation int_unary: wire int_unary_ALL
  by unfold_locales (rename_tac x, case_tac x, simp_all add: int_unary_ALL_def)

interpretation int_binary: wire int_binary_ALL
  by unfold_locales (rename_tac x, case_tac x, simp_all add: int_binary_ALL_def)

interpretation compare_op: wire compare_op_ALL
  by unfold_locales (rename_tac x, case_tac x, simp_all add: compare_op_ALL_def)

interpretation color_component: wire color_component_ALL
  by unfold_locales (rename_tac x, case_tac x, simp_all add: color_component_ALL_def)

interpretation curve_op: wire curve_op_ALL
  by unfold_locales (rename_tac x, case_tac x, simp_all add: curve_op_ALL_def)

interpretation mark_op: wire mark_op_ALL
  by unfold_locales (rename_tac x, case_tac x, simp_all add: mark_op_ALL_def)

interpretation resource: wire resource_ALL
  by unfold_locales (rename_tac x, case_tac x, simp_all add: resource_ALL_def)

interpretation reducer: wire reducer_ALL
  by unfold_locales (rename_tac x, case_tac x, simp_all add: reducer_ALL_def)

interpretation bank: wire bank_ALL
  by unfold_locales (rename_tac x, case_tac x, simp_all add: bank_ALL_def)

interpretation context_read: wire context_read_ALL
  by unfold_locales (rename_tac x, case_tac x, simp_all add: context_read_ALL_def)

interpretation direction: wire direction_ALL
  by unfold_locales (rename_tac x, case_tac x, simp_all add: direction_ALL_def)

interpretation edges: wire edges_ALL
  by unfold_locales (rename_tac x, case_tac x, simp_all add: edges_ALL_def)

section \<open>Opcodes\<close>

abbreviation (input) op_CONST :: u8 where "op_CONST \<equiv> 0"
abbreviation (input) op_PARAM :: u8 where "op_PARAM \<equiv> 1"
abbreviation (input) op_CONTEXT :: u8 where "op_CONTEXT \<equiv> 2"
abbreviation (input) op_FLOAT_UNARY :: u8 where "op_FLOAT_UNARY \<equiv> 3"
abbreviation (input) op_FLOAT_BINARY :: u8 where "op_FLOAT_BINARY \<equiv> 4"
abbreviation (input) op_CLAMP :: u8 where "op_CLAMP \<equiv> 5"
abbreviation (input) op_MIX :: u8 where "op_MIX \<equiv> 6"
abbreviation (input) op_INT_UNARY :: u8 where "op_INT_UNARY \<equiv> 7"
abbreviation (input) op_INT_BINARY :: u8 where "op_INT_BINARY \<equiv> 8"
abbreviation (input) op_INT_TO_FLOAT :: u8 where "op_INT_TO_FLOAT \<equiv> 9"
abbreviation (input) op_FLOAT_TO_INT :: u8 where "op_FLOAT_TO_INT \<equiv> 10"
abbreviation (input) op_COMPARE :: u8 where "op_COMPARE \<equiv> 11"
abbreviation (input) op_COLOR_COMPONENT :: u8 where "op_COLOR_COMPONENT \<equiv> 12"
abbreviation (input) op_HSV :: u8 where "op_HSV \<equiv> 13"
abbreviation (input) op_RECOLOR :: u8 where "op_RECOLOR \<equiv> 14"
abbreviation (input) op_CURVE :: u8 where "op_CURVE \<equiv> 15"
abbreviation (input) op_GRADIENT :: u8 where "op_GRADIENT \<equiv> 16"
abbreviation (input) op_MARK :: u8 where "op_MARK \<equiv> 17"
abbreviation (input) op_LENGTH :: u8 where "op_LENGTH \<equiv> 18"
abbreviation (input) op_INDEX :: u8 where "op_INDEX \<equiv> 19"
abbreviation (input) op_SELECT :: u8 where "op_SELECT \<equiv> 20"
abbreviation (input) op_MOVE :: u8 where "op_MOVE \<equiv> 21"
abbreviation (input) op_SECTION :: u8 where "op_SECTION \<equiv> 22"
abbreviation (input) op_SAMPLE :: u8 where "op_SAMPLE \<equiv> 23"
abbreviation (input) op_BRANCH :: u8 where "op_BRANCH \<equiv> 24"
abbreviation (input) op_REDUCE :: u8 where "op_REDUCE \<equiv> 25"
abbreviation (input) op_STENCIL :: u8 where "op_STENCIL \<equiv> 26"
abbreviation (input) op_SCAN :: u8 where "op_SCAN \<equiv> 27"
abbreviation (input) op_TABULATE :: u8 where "op_TABULATE \<equiv> 29"
abbreviation (input) op_LOOKUP :: u8 where "op_LOOKUP \<equiv> 30"
abbreviation (input) op_CONTINUED :: u8 where "op_CONTINUED \<equiv> 28"

abbreviation (input) PIXEL_CURRENT :: u8 where "PIXEL_CURRENT \<equiv> 0"
abbreviation (input) PIXEL_LOCAL :: u8 where "PIXEL_LOCAL \<equiv> 1"
abbreviation (input) PIXEL_SHIFTED :: u8 where "PIXEL_SHIFTED \<equiv> 2"

section \<open>Slots in a byte\<close>

definition NONE_BYTE :: u8 where "NONE_BYTE = 0x7f"
definition ROW_BYTE :: u8 where "ROW_BYTE = 0x80"
definition INPUT_BYTE :: u8 where "INPUT_BYTE = 0xfc"

text \<open>The debug assertions of the source are not part of a release build.\<close>

definition pack :: "slot \<Rightarrow> u8" where
  "pack s =
     (if slot_is_none s then NONE_BYTE
      else case slot_kind s of
        Scalar index \<Rightarrow> ucast index
      | Row index \<Rightarrow> ROW_BYTE OR ucast index
      | PixelInput i \<Rightarrow> INPUT_BYTE + ucast (input_number i))"

definition unpack :: "u8 \<Rightarrow> slot" where
  "unpack b =
     (if b = NONE_BYTE then slot_NONE
      else if INPUT_BYTE \<le> b then slot_input (input_all ! unat (b - INPUT_BYTE))
      else if ROW_BYTE \<le> b then slot_row (ucast (b AND NOT ROW_BYTE))
      else slot_scalar (ucast b))"

text \<open>The slots a word can name: the absent one, and those allocation bounds.\<close>

definition allocated :: "slot \<Rightarrow> bool" where
  "allocated s \<longleftrightarrow> slot_is_none s \<or>
     (case slot_kind s of
        Scalar index \<Rightarrow> index < SCALARS
      | Row index \<Rightarrow> index < ROWS \<and> s = slot_row index
      | PixelInput i \<Rightarrow> s = slot_input i)"

lemma narrow: "unat (i :: u16) < 256 \<Longrightarrow> unat (ucast i :: u8) = unat i"
  by (simp add: unsigned_ucast_eq take_bit_nat_eq_self_iff)

lemma narrow_widen: "unat (i :: u16) < 256 \<Longrightarrow> ucast (ucast i :: u8) = i"
  by (rule unsigned_word_eqI [where 'a = nat], subst unsigned_ucast_eq) (simp add: narrow take_bit_nat_eq_self_iff)

lemma unpack_scalar: "i < SCALARS \<Longrightarrow> unpack (pack (Slot i)) = Slot i"
proof -
  assume "i < SCALARS"
  then have i: "unat i < 127" by (simp add: SCALARS_def word_less_nat_alt)
  have "Slot i \<noteq> slot_NONE" using i by (auto simp: slot_NONE_def unsigned_minus_1_eq_mask mask_eq_exp_minus_1)
  then have p: "pack (Slot i) = ucast i"
    using i by (simp add: pack_def slot_is_none_def kind_scalar)
  have "(ucast i :: u8) \<noteq> NONE_BYTE"
    using narrow [of i] i by (auto simp: NONE_BYTE_def dest: arg_cong [of _ _ unat])
  then show ?thesis using narrow [of i] i
    by (simp add: p unpack_def INPUT_BYTE_def ROW_BYTE_def word_le_nat_alt slot_scalar_def
       masked_index narrow_widen)
qed

lemma bit_ROW_BYTE: "bit ROW_BYTE n \<longleftrightarrow> n = 7"
proof -
  have eq: "ROW_BYTE = push_bit 7 1" by (simp add: ROW_BYTE_def)
  show ?thesis by (simp only: eq bit_push_bit_iff bit_1_iff possible_bit_word) auto
qed

lemma row_byte: "unat (i :: u16) < 128 \<Longrightarrow> unat (ROW_BYTE OR ucast i) = 128 + unat i"
proof -
  assume i: "unat i < 128"
  have "\<not> bit ROW_BYTE n \<or> \<not> bit (ucast i :: u8) n" for n
    using small_word_bit [of i 7 n] i
    by (auto simp: bit_simps bit_ROW_BYTE)
  then have "ROW_BYTE OR ucast i = ROW_BYTE + (ucast i :: u8)"
    by (subst disjunctive_add) auto
  then show ?thesis using i narrow [of i] by (simp add: ROW_BYTE_def unat_word_ariths)
qed

lemma unpack_row: "i < ROWS \<Longrightarrow> unpack (pack (slot_row i)) = slot_row i"
proof -
  assume "i < ROWS"
  then have i: "unat i < 124" by (simp add: ROWS_def word_less_nat_alt)
  have "slot_row i \<noteq> slot_NONE"
  proof
    assume "slot_row i = slot_NONE"
    then show False using kind_row [of i] kind_none i by simp
  qed
  then have p: "pack (slot_row i) = ROW_BYTE OR ucast i"
    using i by (simp add: pack_def slot_is_none_def kind_row)
  have b: "unat (pack (slot_row i)) = 128 + unat i" using i by (simp add: p row_byte)
  have "pack (slot_row i) AND NOT ROW_BYTE = ucast i"
   using small_word_bit [of i 7] i
    by (intro bit_word_eqI) (auto simp: bit_simps p bit_ROW_BYTE)
  then show ?thesis using i b
    by (auto simp: unpack_def INPUT_BYTE_def NONE_BYTE_def ROW_BYTE_def word_le_nat_alt narrow_widen)
qed

lemma unpack_input: "unpack (pack (slot_input i)) = slot_input i"
  by (cases i) (simp_all add: pack_def slot_is_none_def slot_NONE_def slot_kind_def slot_input_def 
  input_number_def ROW_def INPUT_def input_all_def INPUT_BYTE_def unpack_def NONE_BYTE_def)

lemma pack_none [simp, codec]: "unpack (pack slot_NONE) = slot_NONE"
  by (simp add: pack_def unpack_def slot_is_none_def)

lemma unpack_pack [simp, codec]: "allocated s \<Longrightarrow> unpack (pack s) = s"
proof (cases "slot_is_none s")
  case True
  then show ?thesis by (simp add: slot_is_none_def)
next
  case False
  moreover assume "allocated s"
  ultimately show ?thesis
  proof (cases "slot_kind s")
    case (Scalar i)
    then have "s = Slot i" by (cases s) (auto simp: slot_kind_def split: if_splits)
    with Scalar \<open>allocated s\<close> False show ?thesis by (simp add: allocated_def unpack_scalar)
  qed (auto simp: allocated_def intro: unpack_row unpack_input)
qed

section \<open>Filling a word\<close>

text \<open>A word is eight bytes; the field positions are those of the source.\<close>

definition writer_new :: "u8 \<Rightarrow> u8 \<Rightarrow> instruction_word" where
  "writer_new opcode enums = [opcode, enums, 0, 0, 0, 0, 0, 0]"

fun writer_slots_from :: "nat \<Rightarrow> slot list \<Rightarrow> instruction_word \<Rightarrow> instruction_word" where
  "writer_slots_from at [] w = w"
| "writer_slots_from at (s # ss) w = writer_slots_from (Suc at) ss (w[at := pack s])"

definition writer_slots :: "slot list \<Rightarrow> instruction_word \<Rightarrow> instruction_word" where
  "writer_slots ss w = writer_slots_from 2 ss w"

definition writer_half :: "nat \<Rightarrow> u16 \<Rightarrow> instruction_word \<Rightarrow> instruction_word" where
  "writer_half at v w = w[at := ucast v, Suc at := ucast (drop_bit 8 v)]"

definition writer_wide :: "u32 \<Rightarrow> instruction_word \<Rightarrow> instruction_word" where
  "writer_wide v w =
     w[4 := ucast v, 5 := ucast (drop_bit 8 v), 6 := ucast (drop_bit 16 v),
       7 := ucast (drop_bit 24 v)]"

definition word_slot :: "instruction_word \<Rightarrow> nat \<Rightarrow> slot" where
  "word_slot w at = unpack (w ! at)"

definition word_half :: "instruction_word \<Rightarrow> nat \<Rightarrow> u16" where
  "word_half w at = of_le16 (w ! at) (w ! Suc at)"

definition word_wide :: "instruction_word \<Rightarrow> u32" where
  "word_wide w = of_le32 (w ! 4) (w ! 5) (w ! 6) (w ! 7)"

definition word_low :: "'a list \<Rightarrow> instruction_word \<Rightarrow> 'a option" where
  "word_low all w = from_wire all (w ! 1 AND 0xf)"

definition word_high :: "'a list \<Rightarrow> instruction_word \<Rightarrow> 'a option" where
  "word_high all w = from_wire all (drop_bit 4 (w ! 1))"

section \<open>Encoding\<close>

text \<open>\<open>u8::from(bool)\<close>\<close>

definition u8_of_bool :: "bool \<Rightarrow> u8" where
  "u8_of_bool b = (if b then 1 else 0)"

definition encode_pixel :: "slot signal_pixel \<Rightarrow> u8 \<times> u8 \<times> slot" where
  "encode_pixel p =
     (case p of
        Current \<Rightarrow> (PIXEL_CURRENT, 0, slot_NONE)
      | Local index \<Rightarrow> (PIXEL_LOCAL, 0, index)
      | Shifted offset e \<Rightarrow> (PIXEL_SHIFTED, to_wire edges_ALL e, offset))"

fun encode_words :: "instruction \<Rightarrow> instruction_word list" where
  "encode_words (Const bank dst bits) =
     [writer_wide bits (writer_slots [dst] (writer_new op_CONST (to_wire bank_ALL bank)))]"
| "encode_words (Param bank dst index) =
     [writer_half 4 index (writer_slots [dst] (writer_new op_PARAM (to_wire bank_ALL bank)))]"
| "encode_words (Context dst rd) =
     [writer_slots [dst] (writer_new op_CONTEXT (to_wire context_read_ALL rd))]"
| "encode_words (FloatUnary op dst a) =
     [writer_slots [dst, a] (writer_new op_FLOAT_UNARY (to_wire float_unary_ALL op))]"
| "encode_words (FloatBinary op cs dst a b) =
     [writer_slots [dst, a, b]
        (writer_new op_FLOAT_BINARY (both (to_wire float_binary_ALL op) (colors_bits cs)))]"
| "encode_words (Clamp dst val lo hi) =
     [writer_slots [dst, val, lo, hi] (writer_new op_CLAMP 0)]"
| "encode_words (Mix cs dst a b amount) =
     [writer_slots [dst, a, b, amount] (writer_new op_MIX (colors_bits cs))]"
| "encode_words (IntUnary op dst a) =
     [writer_slots [dst, a] (writer_new op_INT_UNARY (to_wire int_unary_ALL op))]"
| "encode_words (IntBinary op dst a b) =
     [writer_slots [dst, a, b] (writer_new op_INT_BINARY (to_wire int_binary_ALL op))]"
| "encode_words (IntToFloat dst a) = [writer_slots [dst, a] (writer_new op_INT_TO_FLOAT 0)]"
| "encode_words (FloatToInt dst a) = [writer_slots [dst, a] (writer_new op_FLOAT_TO_INT 0)]"
| "encode_words (Compare op bank dst a b) =
     [writer_slots [dst, a, b]
        (writer_new op_COMPARE (both (to_wire compare_op_ALL op) (to_wire bank_ALL bank)))]"
| "encode_words (ColorComponent op dst color) =
     [writer_slots [dst, color] (writer_new op_COLOR_COMPONENT (to_wire color_component_ALL op))]"
| "encode_words (HsvColor dst hue saturation val) =
     [writer_slots [dst, hue, saturation, val] (writer_new op_HSV 0)]"
| "encode_words (Recolor shift dst color hue) =
     [writer_slots [dst, color, hue] (writer_new op_RECOLOR (u8_of_bool shift))]"
| "encode_words (Curve op dst curve val before) =
     [writer_slots [dst, curve, val, before] (writer_new op_CURVE (to_wire curve_op_ALL op))]"
| "encode_words (Gradient dst gradient pos scale) =
     [writer_slots [dst, gradient, pos, scale] (writer_new op_GRADIENT 0)]"
| "encode_words (Mark op dst marks operand) =
     [writer_slots [dst, marks, operand] (writer_new op_MARK (to_wire mark_op_ALL op))]"
| "encode_words (Length kind dst res) =
     [writer_slots [dst, res] (writer_new op_LENGTH (to_wire resource_ALL kind))]"
| "encode_words (Index bank dst array index fallback) =
     [writer_slots [dst, array, index, fallback] (writer_new op_INDEX (to_wire bank_ALL bank))]"
| "encode_words (Select bank dst condition yes no) =
     [writer_slots [dst, condition, yes, no] (writer_new op_SELECT (to_wire bank_ALL bank))]"
| "encode_words (Move bank dst src) =
     [writer_slots [dst, src] (writer_new op_MOVE (to_wire bank_ALL bank))]"
| "encode_words (Section index dst section_width) =
     [writer_slots [dst, section_width] (writer_new op_SECTION (u8_of_bool index))]"
| "encode_words (Read dst input pixel) =
     (let (kind, edge, index) = encode_pixel pixel
      in [writer_half 4 input (writer_slots [dst, index] (writer_new op_SAMPLE (both kind edge)))])"
| "encode_words (Branch condition then_len else_len) =
     [writer_half 6 else_len (writer_half 4 then_len
        (writer_slots [condition] (writer_new op_BRANCH 0)))]"
| "encode_words (Reduce reducer bank acc index start fin keep val loop_len contribute_len) =
     [writer_half 6 loop_len (writer_slots [acc, index, start, fin]
        (writer_new op_REDUCE (both (to_wire reducer_ALL reducer) (to_wire bank_ALL bank)))),
      writer_half 6 contribute_len (writer_slots [keep, val] (writer_new op_CONTINUED 0))]"
| "encode_words (Stencil reducer edge acc index start fin weight scale pixel weight_len tap_len) =
     [writer_half 6 weight_len (writer_slots [acc, index, start, fin]
        (writer_new op_STENCIL (both (to_wire reducer_ALL reducer) (to_wire edges_ALL edge)))),
      writer_half 6 tap_len (writer_slots [weight, scale, pixel] (writer_new op_CONTINUED 0))]"
| "encode_words (Tabulate bank prefix dst index start fin val len) =
     [(writer_slots [dst, index, start, fin, val]
        (writer_new op_TABULATE (both (to_wire bank_ALL bank) (u8_of_bool prefix))))[7 := len]]"
| "encode_words (Lookup bank dst table index start) =
     [writer_slots [dst, table, index, start] (writer_new op_LOOKUP (to_wire bank_ALL bank))]"
| "encode_words (Scan direction dst decay weight cache weight_len) =
     [(writer_half 6 weight_len (writer_slots [dst, decay, weight]
        (writer_new op_SCAN (to_wire direction_ALL direction))))[5 := cache]]"

definition encode :: "instruction \<Rightarrow> instruction_word list \<Rightarrow> instruction_word list" where
  "encode i code = code @ encode_words i"


section \<open>Decoding\<close>

text \<open>
  \<open>decode\<close> panics (\<open>None\<close>) on an empty slice, a two-word instruction cut short, an enum
  number out of range and an opcode the compiler never writes.
\<close>

definition decode_pixel :: "instruction_word \<Rightarrow> slot signal_pixel option" where
  "decode_pixel w =
     (let pixel = w ! 1 AND 0xf
      in if pixel = PIXEL_CURRENT then Some Current
         else if pixel = PIXEL_LOCAL then Some (Local (word_slot w 3))
         else do { edge \<leftarrow> word_high edges_ALL w; Some (Shifted (word_slot w 3) edge) })"

definition decode_first :: "instruction_word \<Rightarrow> instruction option" where
  "decode_first w =
     (let opcode = w ! 0; s = word_slot w
      in if opcode = op_CONST then
           do { bank \<leftarrow> word_low bank_ALL w; Some (Const bank (s 2) (word_wide w)) }
         else if opcode = op_PARAM then
           do { bank \<leftarrow> word_low bank_ALL w; Some (Param bank (s 2) (word_half w 4)) }
         else if opcode = op_CONTEXT then
           do { rd \<leftarrow> word_low context_read_ALL w; Some (Context (s 2) rd) }
         else if opcode = op_FLOAT_UNARY then
           do { op \<leftarrow> word_low float_unary_ALL w; Some (FloatUnary op (s 2) (s 3)) }
         else if opcode = op_FLOAT_BINARY then
           do { op \<leftarrow> word_low float_binary_ALL w;
                Some (FloatBinary op (colors_from_bits (drop_bit 4 (w ! 1))) (s 2) (s 3) (s 4)) }
         else if opcode = op_CLAMP then Some (Clamp (s 2) (s 3) (s 4) (s 5))
         else if opcode = op_MIX then
           Some (Mix (colors_from_bits (w ! 1)) (s 2) (s 3) (s 4) (s 5))
         else if opcode = op_INT_UNARY then
           do { op \<leftarrow> word_low int_unary_ALL w; Some (IntUnary op (s 2) (s 3)) }
         else if opcode = op_INT_BINARY then
           do { op \<leftarrow> word_low int_binary_ALL w; Some (IntBinary op (s 2) (s 3) (s 4)) }
         else if opcode = op_INT_TO_FLOAT then Some (IntToFloat (s 2) (s 3))
         else if opcode = op_FLOAT_TO_INT then Some (FloatToInt (s 2) (s 3))
         else if opcode = op_COMPARE then
           do { op \<leftarrow> word_low compare_op_ALL w; bank \<leftarrow> word_high bank_ALL w;
                Some (Compare op bank (s 2) (s 3) (s 4)) }
         else if opcode = op_COLOR_COMPONENT then
           do { op \<leftarrow> word_low color_component_ALL w; Some (ColorComponent op (s 2) (s 3)) }
         else if opcode = op_HSV then Some (HsvColor (s 2) (s 3) (s 4) (s 5))
         else if opcode = op_RECOLOR then Some (Recolor (w ! 1 \<noteq> 0) (s 2) (s 3) (s 4))
         else if opcode = op_CURVE then
           do { op \<leftarrow> word_low curve_op_ALL w; Some (Curve op (s 2) (s 3) (s 4) (s 5)) }
         else if opcode = op_GRADIENT then Some (Gradient (s 2) (s 3) (s 4) (s 5))
         else if opcode = op_MARK then
           do { op \<leftarrow> word_low mark_op_ALL w; Some (Mark op (s 2) (s 3) (s 4)) }
         else if opcode = op_LENGTH then
           do { kind \<leftarrow> word_low resource_ALL w; Some (Length kind (s 2) (s 3)) }
         else if opcode = op_INDEX then
           do { bank \<leftarrow> word_low bank_ALL w; Some (Index bank (s 2) (s 3) (s 4) (s 5)) }
         else if opcode = op_SELECT then
           do { bank \<leftarrow> word_low bank_ALL w; Some (Select bank (s 2) (s 3) (s 4) (s 5)) }
         else if opcode = op_MOVE then
           do { bank \<leftarrow> word_low bank_ALL w; Some (Move bank (s 2) (s 3)) }
         else if opcode = op_SECTION then Some (Section (w ! 1 \<noteq> 0) (s 2) (s 3))
         else if opcode = op_SAMPLE then
           do { pixel \<leftarrow> decode_pixel w; Some (Read (s 2) (word_half w 4) pixel) }
         else if opcode = op_BRANCH then Some (Branch (s 2) (word_half w 4) (word_half w 6))
         else if opcode = op_SCAN then
           do { direction \<leftarrow> word_low direction_ALL w;
                Some (Scan direction (s 2) (s 3) (s 4) (w ! 5) (word_half w 6)) }
         else if opcode = op_TABULATE then
           do { bank \<leftarrow> word_low bank_ALL w;
                Some (Tabulate bank (drop_bit 4 (w ! 1) \<noteq> 0) (s 2) (s 3) (s 4) (s 5) (s 6) (w ! 7)) }
         else if opcode = op_LOOKUP then
           do { bank \<leftarrow> word_low bank_ALL w; Some (Lookup bank (s 2) (s 3) (s 4) (s 5)) }
         else None)"

definition decode_reduce :: "instruction_word \<Rightarrow> instruction_word \<Rightarrow> instruction option" where
  "decode_reduce w nxt =
     do { reducer \<leftarrow> word_low reducer_ALL w; bank \<leftarrow> word_high bank_ALL w;
          Some (Reduce reducer bank (word_slot w 2) (word_slot w 3) (word_slot w 4) (word_slot w 5)
            (word_slot nxt 2) (word_slot nxt 3) (word_half w 6) (word_half nxt 6)) }"

definition decode_stencil :: "instruction_word \<Rightarrow> instruction_word \<Rightarrow> instruction option" where
  "decode_stencil w nxt =
     do { reducer \<leftarrow> word_low reducer_ALL w; edge \<leftarrow> word_high edges_ALL w;
          Some (Stencil reducer edge (word_slot w 2) (word_slot w 3) (word_slot w 4) (word_slot w 5)
            (word_slot nxt 2) (word_slot nxt 3) (word_slot nxt 4) (word_half w 6) (word_half nxt 6)) }"

definition decode :: "instruction_word list \<Rightarrow> instruction option" where
  "decode code =
     do { w \<leftarrow> nth_opt code 0;
          if w ! 0 = op_REDUCE then do { nxt \<leftarrow> nth_opt code 1; decode_reduce w nxt }
          else if w ! 0 = op_STENCIL then do { nxt \<leftarrow> nth_opt code 1; decode_stencil w nxt }
          else decode_first w }"

section \<open>Decoding what was encoded\<close>

text \<open>
  What slot allocation guarantees of the code it hands to the encoder: every slot fits its
  byte, and a float operator has at most four color operands.
\<close>

definition encodable :: "instruction \<Rightarrow> bool" where
  "encodable i \<longleftrightarrow> (\<forall>(b, s, a) \<in> set (slot_uses i). allocated s) \<and>
     (case i of FloatBinary _ cs _ _ _ \<Rightarrow> colors_bits cs < 16 | _ \<Rightarrow> True)"

lemma allocated_none [simp]: "slot_is_none s \<Longrightarrow> allocated s"
  by (simp add: allocated_def)

lemma present_allocated [simp]:
  "(\<forall>u \<in> set (present b s a). case u of (b, s, a) \<Rightarrow> allocated s) \<longleftrightarrow> allocated s"
  by (simp add: present_def)

text \<open>The words of the writer, byte by byte, and the fields a reader finds there.\<close>

lemma writer_slots_simps [codec]:
  "writer_slots [a] (writer_new opc e) = [opc, e, pack a, 0, 0, 0, 0, 0]"
  "writer_slots [a, b] (writer_new opc e) = [opc, e, pack a, pack b, 0, 0, 0, 0]"
  "writer_slots [a, b, c] (writer_new opc e) = [opc, e, pack a, pack b, pack c, 0, 0, 0]"
  "writer_slots [a, b, c, d] (writer_new opc e) = [opc, e, pack a, pack b, pack c, pack d, 0, 0]"
  "writer_slots [a, b, c, d, f] (writer_new opc e) = [opc, e, pack a, pack b, pack c, pack d, pack f, 0]"
  by (simp_all add: writer_slots_def writer_new_def numeral_eq_Suc)

lemma writer_number_simps [codec]:
  "writer_half 4 v [a, b, c, d, e, f, g, h] = [a, b, c, d, ucast v, ucast (drop_bit 8 v), g, h]"
  "writer_half 6 v [a, b, c, d, e, f, g, h] = [a, b, c, d, e, f, ucast v, ucast (drop_bit 8 v)]"
  "writer_wide n [a, b, c, d, e, f, g, h] = 
     [a, b, c, d, ucast n, ucast (drop_bit 8 n), ucast (drop_bit 16 n), ucast (drop_bit 24 n)]"
  "[a, b, c, d, e, f, g, h][5 := n'] = [a, b, c, d, e, n', g, h]"
  "[a, b, c, d, e, f, g, h][7 := n'] = [a, b, c, d, e, f, g, n']"
  by (simp_all add: writer_half_def writer_wide_def numeral_eq_Suc)

lemma word_reads [codec]:
  "word_slot [a, b, c, d, e, f, g, h] 2 = unpack c"
  "word_slot [a, b, c, d, e, f, g, h] 3 = unpack d"
  "word_slot [a, b, c, d, e, f, g, h] 4 = unpack e"
  "word_slot [a, b, c, d, e, f, g, h] 5 = unpack f"
  "word_slot [a, b, c, d, e, f, g, h] 6 = unpack g"
  "word_half [a, b, c, d, e, f, g, h] 4 = of_le16 e f"
  "word_half [a, b, c, d, e, f, g, h] 6 = of_le16 g h"
  "word_wide [a, b, c, d, e, f, g, h] = of_le32 e f g h"
  "word_low all [a, b, c, d, e, f, g, h] = from_wire all (b AND 15)"
  "word_high all' [a, b, c, d, e, f, g, h] = from_wire all' (drop_bit 4 b)"
  by (simp_all add: word_slot_def word_half_def word_wide_def word_low_def word_high_def numeral_eq_Suc)



lemmas decode_simps = decode_def decode_first_def decode_pixel_def decode_reduce_def
  decode_stencil_def encode_pixel_def u8_of_bool_def colors_from_bits_def nth_opt_def

lemma decode_encode_words:
  assumes "encodable i"
  shows "decode (encode_words i @ rest) = Some i"
proof -
  note a = assms [unfolded encodable_def slot_uses_def]
  show ?thesis
  proof (cases i)
    case (Read dst input pixel)
    then show ?thesis using a
      by (cases pixel) (simp_all add: visit_pixel_uses signal_pixel_index_def state_simps ball_Un decode_simps codec high_of_both Let_def low_of_both)
  qed (use a in \<open>simp_all add: state_simps ball_Un decode_simps codec high_of_both\<close>)
qed
lemma length_encode_words: "length (encode_words i) = width i"
  by (cases i) (simp_all add: width_def is_reduction_def split: prod.split)

section \<open>What the encoding guarantees\<close>

text \<open>
  C15. Every encodable instruction survives its words: \<open>encode\<close> appends exactly as many words as
  \<open>width\<close> says, and decoding them gives the instruction back, whatever words follow.
\<close>

theorem codec_round_trip:
  assumes "encodable i"
  shows "encode i ws = ws @ encode_words i \<and> length (encode_words i) = width i \<and>
    decode (encode_words i @ rest) = Some i"
  using decode_encode_words [OF assms] length_encode_words [of i] by (simp add: encode_def)

theorem codec_round_trip_witness:
  "decode (encode_words (Reduce RedSum BFloat (Slot 3) (Slot 2) (Slot 0) (Slot 1) slot_NONE (Slot 2) 2 0) @ []) =
     Some (Reduce RedSum BFloat (Slot 3) (Slot 2) (Slot 0) (Slot 1) slot_NONE (Slot 2) 2 0)"
  by (rule codec_round_trip [THEN conjunct2, THEN conjunct2]) code_simp

text \<open>
  A slot in a byte: every allocated slot (a scalar below 127, a row below 124, a pixel input
  or the absent slot) comes back from its one-byte form.
\<close>

theorem slot_byte_round_trip:
  assumes "allocated s"
  shows "unpack (pack s) = s"
  using assms by (rule unpack_pack)

theorem slot_byte_round_trip_witness: "unpack (pack (slot_row 123)) = slot_row 123"
  by (rule slot_byte_round_trip) code_simp

end
