(* ===== verification/Programs.thy ===== *)
theory Programs
  imports InstructionWords
begin

text \<open>
  Whole programs of \<open>crates/donder-runtime-types/src/bytecode.rs\<close>: the blocks of the
  code, the iterator over its instructions, and what a host asks of a program before
  it runs it. A decode that panics makes the query \<open>None\<close>.
\<close>

record bytecode_program =
  program_params :: "ty list"
  program_code :: "instruction_word list"
  query_end :: u16
  target_end :: u16
  program_result :: slot
  program_scalars :: banks
  program_rows :: banks
  program_depth :: u16
  program_resources :: "val list"
  program_enums :: "ident list"
  program_scans :: u16

section \<open>Instructions in order\<close>

function instructions :: "instruction_word list \<Rightarrow> instruction list option" where
  "instructions rest =
     (if rest = [] then Some []
      else do { i \<leftarrow> decode rest; later \<leftarrow> instructions (drop (width i) rest); Some (i # later) })"
  by pat_completeness auto

lemma width_pos [simp]: "0 < width i"
  by (simp add: width_def)

termination instructions
  by (relation "measure length") (auto simp: width_def)

declare instructions.simps [simp del]

section \<open>Blocks\<close>

text \<open>Slicing out of range or backwards panics.\<close>

definition slice :: "nat \<Rightarrow> nat \<Rightarrow> 'a list \<Rightarrow> 'a list option" where
  "slice from to xs = (if from \<le> to \<and> to \<le> length xs then Some (drop from (take to xs)) else None)"

definition query_block :: "bytecode_program \<Rightarrow> instruction_word list option" where
  "query_block p = slice 0 (unat (query_end p)) (program_code p)"

definition target_block :: "bytecode_program \<Rightarrow> instruction_word list option" where
  "target_block p = slice (unat (query_end p)) (unat (target_end p)) (program_code p)"

definition body_block :: "bytecode_program \<Rightarrow> instruction_word list option" where
  "body_block p = slice (unat (target_end p)) (length (program_code p)) (program_code p)"

section \<open>What a program needs\<close>

definition program_instructions :: "bytecode_program \<Rightarrow> instruction list option" where
  "program_instructions p = instructions (program_code p)"

definition uses_pixel_context :: "bytecode_program \<Rightarrow> bool" where
  "uses_pixel_context p \<longleftrightarrow> \<not> slot_is_scalar (program_result p)"

definition program_reads :: "(instruction \<Rightarrow> bool) \<Rightarrow> bytecode_program \<Rightarrow> bool option" where
  "program_reads rd p = map_option (list_ex rd) (program_instructions p)"

definition reads_spatially :: "instruction \<Rightarrow> bool" where
  "reads_spatially i \<longleftrightarrow>
     (case i of Context _ rd \<Rightarrow> reads_geometry rd | _ \<Rightarrow> False) \<or>
     list_ex (\<lambda>(b, s). case slot_kind s of PixelInput PixelX \<Rightarrow> True | PixelInput PixelY \<Rightarrow> True
       | _ \<Rightarrow> False) (operands_reads (operands i))"

definition uses_spatial_context :: "bytecode_program \<Rightarrow> bool option" where
  "uses_spatial_context = program_reads reads_spatially"

definition reads_target :: "bytecode_program \<Rightarrow> bool option" where
  "reads_target = program_reads (\<lambda>i.
     case i of
       Context _ rd \<Rightarrow> reads_target_context rd
     | Stencil _ edge _ _ _ _ _ _ _ _ _ \<Rightarrow> edge \<noteq> EdgeSkip
     | Read _ _ pixel \<Rightarrow> (case pixel of Shifted _ edge \<Rightarrow> edge \<noteq> EdgeSkip | _ \<Rightarrow> False)
     | _ \<Rightarrow> False)"

definition reads_state :: "bytecode_program \<Rightarrow> bool option" where
  "reads_state = program_reads (\<lambda>i. case i of Read _ input _ \<Rightarrow> input = STATE_INPUT | _ \<Rightarrow> False)"

definition uses_sections :: "bytecode_program \<Rightarrow> bool option" where
  "uses_sections = program_reads (\<lambda>i. case i of Section _ _ _ \<Rightarrow> True | _ \<Rightarrow> False)"

definition has_stencil :: "bytecode_program \<Rightarrow> bool option" where
  "has_stencil p =
     do { body \<leftarrow> body_block p; is \<leftarrow> instructions body;
          Some (list_ex (\<lambda>i. case i of Stencil _ _ _ _ _ _ _ _ _ _ _ \<Rightarrow> True | _ \<Rightarrow> False) is) }"

section \<open>Encoded code reads back\<close>

lemma encode_words_nonempty [simp]: "encode_words i \<noteq> []"
  using length_encode_words [of i] by (auto simp: width_def split: if_splits)

lemma instructions_Nil [simp]: "instructions [] = Some []"
  by (simp add: instructions.simps)

lemma instructions_encode_Cons:
  assumes "encodable i"
  shows "instructions (encode_words i @ rest) = map_option ((#) i) (instructions rest)"
  using decode_encode_words [OF assms, of rest] length_encode_words [of i]
  by (subst instructions.simps) (simp split: bind_split)

text \<open>
  The compiler emits instructions in order; the iterator hands them back, so every
  question a host asks of the program is answered from the instructions emitted.
\<close>

definition emit :: "instruction list \<Rightarrow> instruction_word list" where
  "emit is = fold encode is []"

lemma emit_concat: "emit is = concat (map encode_words is)"
proof -
  have "fold encode is acc = acc @ concat (map encode_words is)" for acc
    by (induction "is" arbitrary: acc) (simp_all add: encode_def)
  then show ?thesis by (simp add: emit_def)
qed

lemma instructions_emit: "list_all encodable is \<Longrightarrow> instructions (emit is) = Some is"
  by (induction "is") (simp_all add: emit_concat instructions_encode_Cons)

lemma emit_append: "emit (is @ js) = emit is @ emit js"
  by (simp add: emit_concat)

section \<open>What a program's words guarantee\<close>

text \<open>
  Reading a program's words instruction by instruction gives back the instructions that were
  emitted into it, in order, and two pieces of code emitted one after the other are read one after
  the other.
\<close>

theorem words_read_back:
  assumes "list_all encodable is"
  shows "instructions (emit is) = Some is \<and> emit (is @ js) = emit is @ emit js"
  using instructions_emit [OF assms] emit_append by blast

theorem words_read_back_witness:
  "instructions (emit [Const BFloat (Slot 0) 7, Clamp (Slot 1) (Slot 0) (Slot 0) (Slot 2)]) =
     Some [Const BFloat (Slot 0) 7, Clamp (Slot 1) (Slot 0) (Slot 0) (Slot 2)]"
  by (rule words_read_back [THEN conjunct1]) code_simp

end
