(* ===== verification/Slots.thy ===== *)
theory Slots
  imports Programs "HOL-Library.Product_Lexorder"
begin

unbundle bit_operations_syntax

text \<open>
  Slot allocation, \<open>crates/donder-language/src/compiler/lower/slots.rs\<close>: liveness
  intervals of virtual slots over the structured code, their extension over loops and
  blocks, the linear scan that packs them into physical slots, and the renaming of the
  code.

  The hash maps of the source become functions and association lists in order of first
  insertion. Their iteration order reaches the result only where intervals of two
  different banks tie, and banks are scanned apart. Slot numbers of the scan are natural
  numbers: virtual slots stop at \<open>Slot::VIRTUAL\<close>, so at most 3 times 16384 are ever
  taken and the 16-bit counter of the source does not reach its end.
\<close>

section \<open>Keys and colors\<close>

type_synonym vkey = "bank \<times> bool \<times> u16"
type_synonym group = "bank \<times> bool"

record interval =
  live_from :: nat
  live_to :: nat

definition slot_key :: "bank \<Rightarrow> slot \<Rightarrow> vkey option" where
  "slot_key b s =
     (case slot_kind s of
        Scalar index \<Rightarrow> Some (bank_storage b, False, index)
      | Row index \<Rightarrow> Some (bank_storage b, True, index)
      | PixelInput _ \<Rightarrow> None)"

definition place :: "bool \<Rightarrow> u16 \<Rightarrow> slot" where
  "place row index = (if row then slot_row index else slot_scalar index)"

fun key_group :: "vkey \<Rightarrow> group" where
  "key_group (b, row, index) = (b, row)"

fun key_index :: "vkey \<Rightarrow> u16" where
  "key_index (b, row, index) = index"

text \<open>Each color's first virtual float slot owns itself and the next two.\<close>

type_synonym owners = "vkey \<Rightarrow> vkey option"

definition own_color :: "bank \<Rightarrow> slot \<Rightarrow> owners \<Rightarrow> owners" where
  "own_color b s owner =
     (if b = BColor then
        case slot_key b s of
          None \<Rightarrow> owner
        | Some (storage, row, index) \<Rightarrow>
            fold (\<lambda>channel own. own((storage, row, index + channel) \<mapsto> (storage, row, index)))
              [0, 1, 2] owner
      else owner)"

definition color_owners :: "instruction list \<Rightarrow> slot \<Rightarrow> owners" where
  "color_owners code result =
     own_color BColor result
       (fold (\<lambda>i. fold (\<lambda>(b, s, a). own_color b s) (slot_uses i)) code (\<lambda>k. None))"

definition unit_of :: "owners \<Rightarrow> vkey \<Rightarrow> vkey" where
  "unit_of owner k = (case owner k of Some base \<Rightarrow> base | None \<Rightarrow> k)"

definition unit_width :: "owners \<Rightarrow> vkey \<Rightarrow> nat" where
  "unit_width owner k = (if owner k \<noteq> None then 3 else 1)"

section \<open>Liveness\<close>

type_synonym intervals = "(vkey \<times> interval) list"

fun stretch :: "vkey \<Rightarrow> nat \<Rightarrow> intervals \<Rightarrow> intervals" where
  "stretch k at [] = [(k, \<lparr>live_from = at, live_to = at\<rparr>)]"
| "stretch k at ((k', iv) # rest) =
     (if k' = k then (k, \<lparr>live_from = min (live_from iv) at, live_to = max (live_to iv) at\<rparr>) # rest
      else (k', iv) # stretch k at rest)"

definition touch :: "owners \<Rightarrow> bank \<Rightarrow> slot \<Rightarrow> nat \<Rightarrow> intervals \<Rightarrow> intervals" where
  "touch owner b s at ivs =
     (case slot_key b s of None \<Rightarrow> ivs | Some k \<Rightarrow> stretch (unit_of owner k) at ivs)"

text \<open>
  Where an instruction at \<open>at\<close> touches its slots: a construct with nested code keeps what it
  reads every time round until its last nested word.
\<close>

definition touches :: "instruction \<Rightarrow> nat \<Rightarrow> (bank \<times> slot \<times> nat) list" where
  "touches i at =
     (let header = at + width i - 1
      in case i of
        Reduce _ bank acc index start fin keep val loop_len contribute_len \<Rightarrow>
          let filter_at = header + unat loop_len;
              last = filter_at + unat contribute_len
          in [(BInt, start, last), (BInt, fin, last), (BInt, index, at)] @
             (if \<not> slot_is_none keep then [(BBool, keep, filter_at)] else []) @
             [(bank, val, last), (bank, acc, last)]
      | Stencil _ _ acc index start fin weight scale pixel weight_len tap_len \<Rightarrow>
          let source_end = header + unat weight_len;
              last = source_end + unat tap_len
          in [(BInt, start, last), (BInt, fin, last), (BInt, index, at), (BFloat, weight, source_end),
              (BFloat, scale, last), (BFloat, pixel, last), (BColor, acc, last)]
      | Scan _ dst decay weight _ weight_len \<Rightarrow>
          let last = header + unat weight_len
          in [(BFloat, decay, last), (BFloat, weight, last), (BColor, dst, last)]
      | Tabulate bank _ dst index start fin val len \<Rightarrow>
          let last = header + unat len
          in [(BInt, start, last), (BInt, fin, last), (BInt, index, at), (bank, val, last),
              (bank, dst, last)]
      | _ \<Rightarrow> map (\<lambda>(b, s, a). (b, s, at)) (slot_uses i))"

text \<open>The position and the last nested position of a construct whose code runs repeatedly.\<close>

definition loop_span :: "instruction \<Rightarrow> nat \<Rightarrow> (nat \<times> nat) list" where
  "loop_span i at =
     (let header = at + width i - 1
      in case i of
        Reduce _ _ _ _ _ _ _ _ loop_len contribute_len \<Rightarrow>
          [(at, header + unat loop_len + unat contribute_len)]
      | Stencil _ _ _ _ _ _ _ _ _ weight_len tap_len \<Rightarrow>
          [(at, header + unat weight_len + unat tap_len)]
      | Scan _ _ _ _ _ weight_len \<Rightarrow> [(at, header + unat weight_len)]
      | Tabulate _ _ _ _ _ _ _ len \<Rightarrow> [(at, header + unat len)]
      | _ \<Rightarrow> [])"

fun positions :: "nat \<Rightarrow> instruction list \<Rightarrow> nat list" where
  "positions at [] = []"
| "positions at (i # is) = at # positions (at + width i) is"

definition code_words :: "instruction list \<Rightarrow> nat" where
  "code_words is = sum_list (map width is)"

definition touch_all :: "owners \<Rightarrow> (bank \<times> slot \<times> nat) list \<Rightarrow> intervals \<Rightarrow> intervals" where
  "touch_all owner ts ivs = fold (\<lambda>(b, s, at). touch owner b s at) ts ivs"

definition code_touches :: "instruction list \<Rightarrow> slot \<Rightarrow> (bank \<times> slot \<times> nat) list" where
  "code_touches code result =
     concat (map (\<lambda>(i, at). touches i at) (zip code (positions 0 code))) @
     [(BColor, result, code_words code)]"

definition code_loops :: "instruction list \<Rightarrow> (nat \<times> nat) list" where
  "code_loops code = concat (map (\<lambda>(i, at). loop_span i at) (zip code (positions 0 code)))"

definition extend_loop :: "nat \<times> nat \<Rightarrow> interval \<Rightarrow> interval" where
  "extend_loop l iv =
     (if live_from iv \<le> fst l \<and> live_to iv > fst l
      then iv\<lparr>live_to := max (live_to iv) (snd l)\<rparr> else iv)"

definition persist :: "nat list \<Rightarrow> nat \<Rightarrow> interval \<Rightarrow> interval" where
  "persist blocks fin iv =
     (case find (\<lambda>block_end. live_from iv < block_end) blocks of
        Some block_end \<Rightarrow> if live_to iv \<ge> block_end then iv\<lparr>live_to := fin\<rparr> else iv
      | None \<Rightarrow> iv)"

definition settle :: "(nat \<times> nat) list \<Rightarrow> nat list \<Rightarrow> nat \<Rightarrow> interval \<Rightarrow> interval" where
  "settle loops blocks fin iv = persist blocks fin (fold extend_loop loops iv)"

definition liveness :: "owners \<Rightarrow> instruction list \<Rightarrow> slot \<Rightarrow> nat list \<Rightarrow> intervals" where
  "liveness owner code result blocks =
     map (\<lambda>(k, iv). (k, settle (code_loops code) blocks (code_words code) iv))
       (touch_all owner (code_touches code result) [])"

section \<open>Linear scan\<close>

record held =
  held_until :: nat
  held_first :: nat
  held_width :: nat

record lane =
  busy :: "held list"
  taken :: "bool list"

definition lane_empty :: lane where
  "lane_empty = \<lparr>busy = [], taken = []\<rparr>"

definition taken_at :: "bool list \<Rightarrow> nat \<Rightarrow> bool" where
  "taken_at t n = (case nth_opt t n of Some b \<Rightarrow> b | None \<Rightarrow> False)"

definition mark_range :: "bool \<Rightarrow> nat \<Rightarrow> nat \<Rightarrow> bool list \<Rightarrow> bool list" where
  "mark_range b first w t = fold (\<lambda>n t. t[n := b]) [first..<first + w] t"

definition expire :: "nat \<Rightarrow> lane \<Rightarrow> lane" where
  "expire now l =
     \<lparr>busy = filter (\<lambda>h. \<not> held_until h < now) (busy l),
      taken = fold (\<lambda>h t. if held_until h < now
                          then mark_range False (held_first h) (held_width h) t else t)
                (busy l) (taken l)\<rparr>"

definition run_free :: "bool list \<Rightarrow> nat \<Rightarrow> nat \<Rightarrow> bool" where
  "run_free t w n = list_all (\<lambda>m. \<not> taken_at t m) [n..<n + w]"

text \<open>The search is unbounded in the source; every run past the end is free.\<close>

definition first_free :: "bool list \<Rightarrow> nat \<Rightarrow> nat" where
  "first_free t w =
     (case find (run_free t w) [0..<length t] of Some n \<Rightarrow> n | None \<Rightarrow> length t)"

definition resize :: "nat \<Rightarrow> bool list \<Rightarrow> bool list" where
  "resize n t = t @ replicate (n - length t) False"

definition lane_place :: "nat \<Rightarrow> interval \<Rightarrow> lane \<Rightarrow> lane \<times> nat" where
  "lane_place w iv l =
     (let l = expire (live_from iv) l;
          first = first_free (taken l) w;
          t = mark_range True first w (resize (first + w) (taken l))
      in (\<lparr>busy = busy l @ [\<lparr>held_until = live_to iv, held_first = first, held_width = w\<rparr>],
           taken = t\<rparr>, first))"

record scan_state =
  lanes :: "group \<Rightarrow> lane"
  assigned :: "vkey \<Rightarrow> nat option"

definition scan_start :: scan_state where
  "scan_start = \<lparr>lanes = (\<lambda>g. lane_empty), assigned = (\<lambda>k. None)\<rparr>"

definition scan_step :: "owners \<Rightarrow> vkey \<times> interval \<Rightarrow> scan_state \<Rightarrow> scan_state" where
  "scan_step owner p st =
     (let (k, iv) = p;
          (l, first) = lane_place (unit_width owner k) iv (lanes st (key_group k))
      in \<lparr>lanes = (lanes st)(key_group k := l), assigned = (assigned st)(k \<mapsto> first)\<rparr>)"

definition sort_position :: "vkey \<times> interval \<Rightarrow> nat \<times> nat \<times> bool \<times> nat" where
  "sort_position p =
     (case p of ((b, row, index), iv) \<Rightarrow> (live_from iv, live_to iv, row, unat index))"

definition scan_order :: "intervals \<Rightarrow> intervals" where
  "scan_order ivs = sort_key sort_position ivs"

definition linear_scan :: "owners \<Rightarrow> intervals \<Rightarrow> scan_state" where
  "linear_scan owner ivs = fold (scan_step owner) (scan_order ivs) scan_start"

section \<open>Renaming\<close>

definition physical :: "owners \<Rightarrow> (vkey \<Rightarrow> nat option) \<Rightarrow> bank \<Rightarrow> slot \<Rightarrow> slot option" where
  "physical owner asg b s =
     (case slot_key b s of
        None \<Rightarrow> Some s
      | Some k \<Rightarrow>
          let base = unit_of owner k
          in case asg base of
               None \<Rightarrow> None
             | Some first \<Rightarrow> Some (place (fst (snd k)) (of_nat first + (key_index k - key_index base))))"

text \<open>A slot without an assignment panics: the state remembers that none was missing.\<close>

definition rename_visitor :: "(bank \<Rightarrow> slot \<Rightarrow> slot option) \<Rightarrow> bool visitor" where
  "rename_visitor f = (\<lambda>b s a. State (\<lambda>ok. case f b s of None \<Rightarrow> (s, False) | Some t \<Rightarrow> (t, ok)))"

definition rename_code ::
  "(bank \<Rightarrow> slot \<Rightarrow> slot option) \<Rightarrow> instruction list \<Rightarrow> instruction list option" where
  "rename_code f code =
     those (map (\<lambda>i. case run_state (visit_slots (rename_visitor f) i) True of
                       (j, ok) \<Rightarrow> if ok then Some j else None) code)"

definition lane_counts :: "scan_state \<Rightarrow> bool \<Rightarrow> banks" where
  "lane_counts st row =
     (let count = (\<lambda>b. of_nat (length (taken (lanes st (b, row)))))
      in \<lparr>floats = count BFloat, ints = count BInt, bools = count BBool,
          resource_slots = count BResource\<rparr>)"

definition allocate ::
  "instruction list \<Rightarrow> slot \<Rightarrow> nat list \<Rightarrow> (instruction list \<times> slot \<times> banks \<times> banks) option" where
  "allocate code result blocks =
     (let owner = color_owners code result;
          st = linear_scan owner (liveness owner code result blocks);
          f = physical owner (assigned st)
      in do { code \<leftarrow> rename_code f code;
              result \<leftarrow> f BColor result;
              Some (code, result, lane_counts st False, lane_counts st True) })"

section \<open>The scan keeps live slots apart\<close>

definition held_range :: "held \<Rightarrow> nat set" where
  "held_range h = {held_first h..<held_first h + held_width h}"

definition lane_inv :: "lane \<Rightarrow> bool" where
  "lane_inv l \<longleftrightarrow>
     (\<forall>n. taken_at (taken l) n \<longleftrightarrow> (\<exists>h \<in> set (busy l). n \<in> held_range h)) \<and>
     sorted_wrt (\<lambda>h h'. disjnt (held_range h) (held_range h')) (busy l)"

lemma taken_at_bound: "taken_at t n \<Longrightarrow> n < length t"
  by (auto simp: taken_at_def nth_opt_def split: if_splits)

lemma taken_at_update: "taken_at (t[m := b]) n = (if n = m \<and> n < length t then b else taken_at t n)"
  by (simp add: taken_at_def nth_opt_def)

lemma mark_range_Suc: "mark_range b f (Suc w) t = (mark_range b f w t)[f + w := b]"
  by (simp add: mark_range_def)

lemma length_mark_range [simp]: "length (mark_range b f w t) = length t"
  by (induction w) (simp_all add: mark_range_Suc, simp add: mark_range_def)

lemma taken_at_mark_range:
  "taken_at (mark_range b f w t) n = (if f \<le> n \<and> n < f + w \<and> n < length t then b else taken_at t n)"
proof (induction w)
  case 0
  then show ?case by (auto simp: mark_range_def)
next
  case (Suc w)
  then show ?case by (auto simp: mark_range_Suc taken_at_update)
qed

lemma taken_at_resize [simp]: "taken_at (resize n t) m = taken_at t m"
  by (auto simp: resize_def taken_at_def nth_opt_def nth_append split: if_splits)

lemma length_resize [simp]: "length (resize n t) = max n (length t)"
  by (simp add: resize_def)

definition release :: "nat \<Rightarrow> held list \<Rightarrow> bool list \<Rightarrow> bool list" where
  "release now = fold (\<lambda>h t. if held_until h < now
                          then mark_range False (held_first h) (held_width h) t else t)"

lemma release:
  "taken_at (release now hs t) n \<longleftrightarrow>
     taken_at t n \<and> \<not> (\<exists>h \<in> set hs. held_until h < now \<and> n \<in> held_range h)"
  "length (release now hs t) = length t"
  by (induction hs arbitrary: t)
    (auto simp: release_def taken_at_mark_range held_range_def dest: taken_at_bound)

lemma expire_release:
  "expire now l = \<lparr>busy = filter (\<lambda>h. \<not> held_until h < now) (busy l), taken = release now (busy l) (taken l)\<rparr>"
  by (simp add: expire_def release_def)

lemma disjnt_members:
  "sorted_wrt (\<lambda>h h'. disjnt (R h) (R h')) hs \<Longrightarrow> h \<in> set hs \<Longrightarrow> h' \<in> set hs \<Longrightarrow> h \<noteq> h' \<Longrightarrow>
   disjnt (R h) (R h')"
  by (induction hs) (auto simp: disjnt_sym)

lemma lane_inv_expire: "lane_inv l \<Longrightarrow> lane_inv (expire now l)"
  using disjnt_members [of held_range "busy l"]
  by (auto simp: lane_inv_def expire_release release sorted_wrt_filter disjnt_iff)

lemma first_free_run: "run_free t w (first_free t w)"
proof (cases "find (run_free t w) [0..<length t]")
  case None
  have "run_free t w (length t)"
    by (auto simp: run_free_def list_all_iff dest: taken_at_bound)
  with None show ?thesis by (simp add: first_free_def)
next
  case (Some n)
  then have "run_free t w n" by (auto simp: find_Some_iff)
  with Some show ?thesis by (simp add: first_free_def)
qed

lemma lane_inv_place:
  assumes "lane_inv l" and "lane_place w iv l = (l', first)"
  shows "lane_inv l'" 
    and "first + w \<le> length (taken l')" "length (taken l) \<le> length (taken l')"
    and "busy l' = filter (\<lambda>h. \<not> held_until h < live_from iv) (busy l) @
           [\<lparr>held_until = live_to iv, held_first = first, held_width = w\<rparr>]"
    and "h \<in> set (busy l) \<Longrightarrow> live_from iv \<le> held_until h \<Longrightarrow>
           disjnt (held_range h) {first..<first + w}"
proof -
  let ?e = "expire (live_from iv) l"
  have e: "lane_inv ?e" using assms(1) by (rule lane_inv_expire)
  have first: "first = first_free (taken ?e) w" using assms(2) by (auto simp: lane_place_def Let_def)
  have free: "\<not> taken_at (taken ?e) n" if "first \<le> n" "n < first + w" for n
    using first_free_run [of "taken ?e" w] that by (auto simp: run_free_def list_all_iff first)
  have b: "busy l' = busy ?e @ [\<lparr>held_until = live_to iv, held_first = first, held_width = w\<rparr>]"
    and t: "taken l' = mark_range True first w (resize (first + w) (taken ?e))"
    using assms(2) by (auto simp: lane_place_def Let_def)
  have range: "held_range h' \<inter> {first..<first + w} = {}" if "h' \<in> set (busy ?e)" for h'
    using e free that by (fastforce simp: lane_inv_def)
  show "lane_inv l'" using e range
    by (auto simp: lane_inv_def b t taken_at_mark_range held_range_def sorted_wrt_append disjnt_def)
  show "first + w \<le> length (taken l')" "length (taken l) \<le> length (taken l')"
    by (simp_all add: t expire_release release)
  show "busy l' = filter (\<lambda>h. \<not> held_until h < live_from iv) (busy l) @
           [\<lparr>held_until = live_to iv, held_first = first, held_width = w\<rparr>]"
    by (simp add: b expire_release)
  show "disjnt (held_range h) {first..<first + w}"
    if "h \<in> set (busy l)" "live_from iv \<le> held_until h"
    using range [of h] that by (simp add: expire_release disjnt_def)
qed


text \<open>
  What holds after scanning \<open>done\<close>, in order of their starts: every lane is consistent,
  every interval has a run of slots within its lane, an interval still live at every start
  so far is still held, and intervals that overlap have disjoint runs.
\<close>

definition run_of :: "owners \<Rightarrow> scan_state \<Rightarrow> vkey \<Rightarrow> nat set" where
  "run_of owner st k = (case assigned st k of None \<Rightarrow> {} | Some f \<Rightarrow> {f..<f + unit_width owner k})"

definition overlap :: "interval \<Rightarrow> interval \<Rightarrow> bool" where
  "overlap iv iv' \<longleftrightarrow> live_from iv' \<le> live_to iv \<and> live_from iv \<le> live_to iv'"

definition scan_inv :: "owners \<Rightarrow> intervals \<Rightarrow> scan_state \<Rightarrow> bool" where
  "scan_inv owner dn st \<longleftrightarrow>
     (\<forall>g. lane_inv (lanes st g)) \<and>
     (\<forall>(k, iv) \<in> set dn. \<exists>f. assigned st k = Some f \<and>
        f + unit_width owner k \<le> length (taken (lanes st (key_group k))) \<and>
        ((\<forall>(k', iv') \<in> set dn. live_from iv' \<le> live_to iv) \<longrightarrow>
           \<lparr>held_until = live_to iv, held_first = f, held_width = unit_width owner k\<rparr>
             \<in> set (busy (lanes st (key_group k))))) \<and>
     (\<forall>k iv k' iv'. (k, iv) \<in> set dn \<longrightarrow> (k', iv') \<in> set dn \<longrightarrow> k \<noteq> k' \<longrightarrow>
        key_group k = key_group k' \<longrightarrow> overlap iv iv' \<longrightarrow>
        disjnt (run_of owner st k) (run_of owner st k'))"

lemma scan_inv_step:
  assumes inv: "scan_inv owner dn st"
    and new: "k \<notin> fst ` set dn"
    and later: "\<forall>(k', iv') \<in> set dn. live_from iv' \<le> live_from iv"
  shows "scan_inv owner (dn @ [(k, iv)]) (scan_step owner (k, iv) st)"
proof -
  obtain l first where place: "lane_place (unit_width owner k) iv (lanes st (key_group k)) = (l, first)"
    by (cases "lane_place (unit_width owner k) iv (lanes st (key_group k))")
  have lane: "lane_inv (lanes st (key_group k))" using inv unfolding scan_inv_def by blast
  note placed = lane_inv_place [OF lane place]
  let ?st = "scan_step owner (k, iv) st"
  have st: "?st = \<lparr>lanes = (lanes st)(key_group k := l), assigned = (assigned st)(k \<mapsto> first)\<rparr>"
    by (simp add: scan_step_def place)
  have old: "\<exists>f. assigned st k' = Some f \<and>
        f + unit_width owner k' \<le> length (taken (lanes st (key_group k'))) \<and>
        ((\<forall>(k', iv'') \<in> set dn. live_from iv'' \<le> live_to iv') \<longrightarrow>
           \<lparr>held_until = live_to iv', held_first = f, held_width = unit_width owner k'\<rparr>
             \<in> set (busy (lanes st (key_group k'))))" if "(k', iv') \<in> set dn" for k' iv'
    using inv that by (fastforce simp: scan_inv_def)
  have ne: "k' \<noteq> k" if "(k', iv') \<in> set dn" for k' iv' using new that by force
  have apart: "disjnt (run_of owner ?st k') (run_of owner ?st k)"
    if k': "(k', iv') \<in> set dn" "key_group k' = key_group k" "live_from iv \<le> live_to iv'" for k' iv'
  proof -
    obtain f where f: "assigned st k' = Some f" 
      "(\<forall>(k', iv'') \<in> set dn. live_from iv'' \<le> live_to iv') \<longrightarrow>
           \<lparr>held_until = live_to iv', held_first = f, held_width = unit_width owner k'\<rparr>
             \<in> set (busy (lanes st (key_group k')))" using old [OF k'(1)] by auto
    have "\<forall>(k', iv'') \<in> set dn. live_from iv'' \<le> live_to iv'" using later k'(3) by fastforce
    with f k'(2) have "\<lparr>held_until = live_to iv', held_first = f, held_width = unit_width owner k'\<rparr>
             \<in> set (busy (lanes st (key_group k)))" by simp
    from placed(5) [OF this] k'(3) ne [OF k'(1)] f(1) show ?thesis
      by (simp add: run_of_def st held_range_def)
  qed
  have same: "run_of owner ?st k' = run_of owner st k'" if "(k', iv') \<in> set dn" for k' iv'
    using ne [OF that] by (simp add: run_of_def st)
  show ?thesis unfolding scan_inv_def
  proof (intro conjI)
    show "\<forall>g. lane_inv (lanes ?st g)" using inv placed(1) by (simp add: scan_inv_def st)
  next
    have "\<exists>f. assigned ?st k' = Some f \<and>
        f + unit_width owner k' \<le> length (taken (lanes ?st (key_group k'))) \<and>
        ((\<forall>(k'', iv'') \<in> set (dn @ [(k, iv)]). live_from iv'' \<le> live_to iv') \<longrightarrow>
           \<lparr>held_until = live_to iv', held_first = f, held_width = unit_width owner k'\<rparr>
             \<in> set (busy (lanes ?st (key_group k'))))" if "(k', iv') \<in> set dn" for k' iv'
      using old [OF that] ne [OF that] placed(3,4) by (auto simp: st)
    then show "\<forall>(k', iv') \<in> set (dn @ [(k, iv)]). \<exists>f. assigned ?st k' = Some f \<and>
        f + unit_width owner k' \<le> length (taken (lanes ?st (key_group k'))) \<and>
        ((\<forall>(k'', iv'') \<in> set (dn @ [(k, iv)]). live_from iv'' \<le> live_to iv') \<longrightarrow>
           \<lparr>held_until = live_to iv', held_first = f, held_width = unit_width owner k'\<rparr>
             \<in> set (busy (lanes ?st (key_group k'))))"
      using placed(2,4) by (auto simp: st)
  next
    have both: "disjnt (run_of owner ?st k1) (run_of owner ?st k2)"
      if "(k1, iv1) \<in> set dn" "(k2, iv2) \<in> set dn" "k1 \<noteq> k2" "key_group k1 = key_group k2"
        "overlap iv1 iv2" for k1 iv1 k2 iv2
      using inv that unfolding scan_inv_def same [OF that(1)] same [OF that(2)] by blast
    show "\<forall>k1 iv1 k2 iv2. (k1, iv1) \<in> set (dn @ [(k, iv)]) \<longrightarrow> (k2, iv2) \<in> set (dn @ [(k, iv)]) \<longrightarrow>
        k1 \<noteq> k2 \<longrightarrow> key_group k1 = key_group k2 \<longrightarrow> overlap iv1 iv2 \<longrightarrow>
        disjnt (run_of owner ?st k1) (run_of owner ?st k2)"
    proof (intro allI impI)
      fix k1 iv1 k2 iv2
      assume m: "(k1, iv1) \<in> set (dn @ [(k, iv)])" "(k2, iv2) \<in> set (dn @ [(k, iv)])"
        and r: "k1 \<noteq> k2" "key_group k1 = key_group k2" "overlap iv1 iv2"
      have o: "live_from iv2 \<le> live_to iv1" "live_from iv1 \<le> live_to iv2" using r(3) by (simp_all add: overlap_def)
      consider "(k1, iv1) \<in> set dn" "(k2, iv2) \<in> set dn" | "(k1, iv1) \<in> set dn" "k2 = k" "iv2 = iv"
        | "(k2, iv2) \<in> set dn" "k1 = k" "iv1 = iv"
        using m r(1) by (simp only: set_append Un_iff list.set insert_iff empty_iff prod.inject) blast
      then show "disjnt (run_of owner ?st k1) (run_of owner ?st k2)"
      proof cases
        case 1
        then show ?thesis using both r by blast
      next
        case 2
        then show ?thesis using apart [of k1 iv1] r o by simp
      next
        case 3
        then show ?thesis using apart [of k2 iv2] r o disjnt_sym by metis
      qed
    qed
  qed
qed

lemma scan_inv_fold:
  assumes "scan_inv owner dn st" "sorted_wrt (\<lambda>p q. live_from (snd p) \<le> live_from (snd q)) (dn @ ps)"
    "distinct (map fst (dn @ ps))"
  shows "scan_inv owner (dn @ ps) (fold (scan_step owner) ps st)"
  using assms
proof (induction ps arbitrary: dn st)
  case (Cons p ps)
  obtain k iv where p: "p = (k, iv)" by (cases p)
  have "scan_inv owner (dn @ [p]) (scan_step owner p st)"
    unfolding p
  proof (rule scan_inv_step [OF Cons.prems(1)])
    show "k \<notin> fst ` set dn" using Cons.prems(3) by (simp add: p)
    show "\<forall>(k', iv') \<in> set dn. live_from iv' \<le> live_from iv"
      using Cons.prems(2) by (auto simp: p sorted_wrt_append)
  qed
  from Cons.IH [OF this] Cons.prems show ?case by simp
qed simp

lemma scan_inv_start: "scan_inv owner [] scan_start"
  by (simp add: scan_inv_def scan_start_def lane_inv_def lane_empty_def taken_at_def nth_opt_def)

section \<open>Intervals cover what the code touches\<close>

definition covered :: "intervals \<Rightarrow> vkey \<Rightarrow> nat \<Rightarrow> bool" where
  "covered ivs k at \<longleftrightarrow> (\<exists>iv. (k, iv) \<in> set ivs \<and> live_from iv \<le> at \<and> at \<le> live_to iv)"

lemma covered_simps [simp]:
  "\<not> covered [] k at"
  "covered ((k', iv) # ivs) k at \<longleftrightarrow>
     (k' = k \<and> live_from iv \<le> at \<and> at \<le> live_to iv) \<or> covered ivs k at"
  by (auto simp: covered_def)

lemma covered_stretch: "covered (stretch k at ivs) k at"
  by (induction k at ivs rule: stretch.induct) auto

lemma covered_stretch_mono: "covered ivs k' at' \<Longrightarrow> covered (stretch k at ivs) k' at'"
  by (induction k at ivs rule: stretch.induct) auto

lemma stretch_keys: "fst ` set (stretch k at ivs) = insert k (fst ` set ivs)"
  by (induction k at ivs rule: stretch.induct) auto

lemma stretch_distinct: "distinct (map fst ivs) \<Longrightarrow> distinct (map fst (stretch k at ivs))"
proof (induction k at ivs rule: stretch.induct)
  case (2 k at k' iv rest)
  then show ?case using stretch_keys [of k at rest] by (auto simp flip: set_map)
qed simp

lemma stretch_bound:
  "\<lbrakk>\<forall>p \<in> set ivs. live_to (snd p) \<le> m; at \<le> m; p \<in> set (stretch k at ivs)\<rbrakk> \<Longrightarrow> live_to (snd p) \<le> m"
  by (induction k at ivs rule: stretch.induct) (auto split: if_splits)

lemma touch_cases:
  obtains "slot_key b s = None" "touch owner b s at ivs = ivs"
  | k where "slot_key b s = Some k" "touch owner b s at ivs = stretch (unit_of owner k) at ivs"
  by (cases "slot_key b s") (simp_all add: touch_def)

lemma touch_all_Cons [simp]:
  "touch_all owner ((b, s, at) # ts) ivs = touch_all owner ts (touch owner b s at ivs)"
  "touch_all owner [] ivs = ivs"
  by (simp_all add: touch_all_def)

lemma touch_all_mono: "covered ivs k at \<Longrightarrow> covered (touch_all owner ts ivs) k at"
proof (induction ts arbitrary: ivs)
  case (Cons t ts)
  obtain b s a where t: "t = (b, s, a)" by (cases t)
  show ?case unfolding t touch_all_Cons
    by (rule Cons.IH, rule touch_cases [of b s owner a ivs]) (simp_all add: Cons.prems covered_stretch_mono)
qed simp

lemma touch_all_covers:
  "(b, s, at) \<in> set ts \<Longrightarrow> slot_key b s = Some k \<Longrightarrow> covered (touch_all owner ts ivs) (unit_of owner k) at"
proof (induction ts arbitrary: ivs)
  case (Cons t ts)
  show ?case
  proof (cases "t = (b, s, at)")
    case True
    then show ?thesis using Cons.prems
      by (auto simp: touch_def covered_stretch intro: touch_all_mono)
  next
    case False
    then show ?thesis using Cons by (cases t) auto
  qed
qed simp

lemma touch_all_distinct: "distinct (map fst ivs) \<Longrightarrow> distinct (map fst (touch_all owner ts ivs))"
proof (induction ts arbitrary: ivs)
  case (Cons t ts)
  obtain b s a where t: "t = (b, s, a)" by (cases t)
  show ?case unfolding t touch_all_Cons
    by (rule Cons.IH, rule touch_cases [of b s owner a ivs]) (simp_all add: Cons.prems stretch_distinct)
qed simp

lemma touch_all_bound:
  "\<forall>p \<in> set ivs. live_to (snd p) \<le> m \<Longrightarrow> \<forall>(b, s, at) \<in> set ts. at \<le> m \<Longrightarrow> 
   p \<in> set (touch_all owner ts ivs) \<Longrightarrow> live_to (snd p) \<le> m"
proof (induction ts arbitrary: ivs)
  case (Cons t ts)
  obtain b s a where t: "t = (b, s, a)" by (cases t)
  have "\<forall>p \<in> set (touch owner b s a ivs). live_to (snd p) \<le> m"
    by (rule touch_cases [of b s owner a ivs]) (use Cons.prems in \<open>auto simp: t intro: stretch_bound\<close>)
  then show ?case using Cons.IH Cons.prems by (simp add: t)
qed simp

text \<open>Loops are listed by position; extending an interval over one never re-opens an earlier one.\<close>

lemma extend_loop_from [simp]: "live_from (extend_loop l iv) = live_from iv"
  by (simp add: extend_loop_def)

lemma fold_extend_from [simp]: "live_from (fold extend_loop loops iv) = live_from iv"
  by (induction loops arbitrary: iv) simp_all

lemma extend_loop_to: "live_to iv \<le> live_to (extend_loop l iv)"
  by (simp add: extend_loop_def)

lemma fold_extend_to: "live_to iv \<le> live_to (fold extend_loop loops iv)"
  by (induction loops arbitrary: iv) (simp, metis extend_loop_to fold_simps(2) le_trans)

lemma fold_extend_bound:
  "live_to iv \<le> m \<Longrightarrow> \<forall>l \<in> set loops. snd l \<le> m \<Longrightarrow> live_to (fold extend_loop loops iv) \<le> m"
  by (induction loops arbitrary: iv) (simp_all add: extend_loop_def)

definition closed_over :: "nat \<times> nat \<Rightarrow> interval \<Rightarrow> bool" where
  "closed_over l iv \<longleftrightarrow> (live_from iv \<le> fst l \<and> fst l < live_to iv \<longrightarrow> snd l \<le> live_to iv)"

lemma fold_extend_closed:
  "sorted_wrt (\<lambda>l l'. fst l \<le> fst l') loops \<Longrightarrow> l \<in> set loops \<Longrightarrow> closed_over l (fold extend_loop loops iv)"
proof (induction loops arbitrary: iv)
  case (Cons l' loops)
  have keep: "closed_over l (fold extend_loop ls iv)"
    if "\<forall>l' \<in> set ls. fst l \<le> fst l'" "closed_over l iv" for l ls iv
    using that
  proof (induction ls arbitrary: iv)
    case (Cons l' ls)
    have "closed_over l (extend_loop l' iv)" using Cons.prems by (auto simp: closed_over_def extend_loop_def)
    then show ?case using Cons by simp
  qed simp
  have "closed_over l' (extend_loop l' iv)" by (auto simp: closed_over_def extend_loop_def)
  then show ?case using Cons keep [of loops l' "extend_loop l' iv"] by (cases "l = l'") auto
qed simp

text \<open>Nested code lies within the program, as emission lays it out.\<close>

definition nested_within :: "instruction list \<Rightarrow> bool" where
  "nested_within code \<longleftrightarrow>
     list_all (\<lambda>(i, at). at + width i + unat (nested i) \<le> code_words code)
       (zip code (positions 0 code))"

lemma width_nested_pos: "0 < width i" "width i \<le> 2"
  by (simp_all add: width_def)

lemma unat_widen [simp]:
  "unat (ucast (a :: u16) :: u32) = unat a" "unat (ucast (c :: u8) :: u32) = unat c"
proof -
  have "unat a < 2 ^ 32" "unat c < 2 ^ 32"
    by (rule less_trans [OF unat_lt16], simp, rule less_trans [OF unat_lt8], simp)
  then show "unat (ucast a :: u32) = unat a" "unat (ucast c :: u32) = unat c"
    by (simp_all add: unsigned_ucast_eq take_bit_nat_eq_self_iff)
qed

lemma unat_add_half [simp]: "unat (ucast (a :: u16) + ucast (b :: u16) :: u32) = unat a + unat b"
proof -
  have "unat a < 65536" "unat b < 65536" by (rule unat_lt16)+
  then have "unat a + unat b < 4294967296" by linarith
  then show ?thesis by (simp add: unat_word_ariths)
qed

lemma touches_plain:
  "loop_span i at = [] \<Longrightarrow> (b, s, q) \<in> set (touches i at) \<longleftrightarrow> q = at \<and> (\<exists>a. (b, s, a) \<in> set (slot_uses i))"
proof -
  have "loop_span i at = [] \<Longrightarrow> touches i at = map (\<lambda>(b, s, a). (b, s, at)) (slot_uses i)"
    by (cases i) (simp_all add: loop_span_def touches_def Let_def)
  then show "loop_span i at = [] \<Longrightarrow> ?thesis" by force
qed

lemma touches_bound:
  assumes "(b, s, q) \<in> set (touches i at)"
  shows "q < at + width i + unat (nested i)"
proof (cases i)
  case Reduce
  then show ?thesis using assms
    by (auto simp: touches_def Let_def nested_def width_def is_reduction_def split: if_splits)
next
  case Stencil
  then show ?thesis using assms
    by (auto simp: touches_def Let_def nested_def width_def is_reduction_def split: if_splits)
next
  case Scan
  then show ?thesis using assms
    by (auto simp: touches_def Let_def nested_def width_def is_reduction_def split: if_splits)
next
  case Tabulate
  then show ?thesis using assms
    by (auto simp: touches_def Let_def nested_def width_def is_reduction_def split: if_splits)
qed (use assms touches_plain [of i at b s q] width_nested_pos [of i] in \<open>simp_all add: loop_span_def\<close>)

lemma loop_span_bound:
  assumes "l \<in> set (loop_span i at)"
  shows "fst l = at \<and> snd l < at + width i + unat (nested i)"
proof (cases i)
  case Reduce
  then show ?thesis using assms
    by (auto simp: loop_span_def Let_def nested_def width_def is_reduction_def split: if_splits)
next
  case Stencil
  then show ?thesis using assms
    by (auto simp: loop_span_def Let_def nested_def width_def is_reduction_def split: if_splits)
next
  case Scan
  then show ?thesis using assms
    by (auto simp: loop_span_def Let_def nested_def width_def is_reduction_def split: if_splits)
next
  case Tabulate
  then show ?thesis using assms
    by (auto simp: loop_span_def Let_def nested_def width_def is_reduction_def split: if_splits)
qed (use assms in \<open>simp_all add: loop_span_def Let_def\<close>)

lemma set_present:
  "(b, s, a) \<in> set (present b' s' a') \<longleftrightarrow> \<not> slot_is_none s' \<and> b = b' \<and> s = s' \<and> a = a'"
  by (auto simp: present_def)

lemma slot_uses_touched:
  assumes "(b, s, a) \<in> set (slot_uses i)"
  shows "\<exists>q. (b, s, q) \<in> set (touches i at)"
proof (cases "loop_span i at = []")
  case True
  then show ?thesis using assms touches_plain by blast
next
  case False
  then show ?thesis
  proof (cases i)
  case Reduce
  then show ?thesis using assms
    by (auto simp: touches_def Let_def slot_uses_simps set_present)
next
  case Stencil
  then show ?thesis using assms
    by (auto simp: touches_def Let_def slot_uses_simps set_present)
next
  case Scan
  then show ?thesis using assms
    by (auto simp: touches_def Let_def slot_uses_simps set_present)
next
  case Tabulate
  then show ?thesis using assms
    by (auto simp: touches_def Let_def slot_uses_simps set_present)
qed (use False in \<open>simp_all add: loop_span_def\<close>)
qed

lemma positions_ge: "p \<in> set (positions at code) \<Longrightarrow> at \<le> p"
  by (induction code arbitrary: at) (auto dest: add_leD1)

lemma length_positions [simp]: "length (positions at code) = length code"
  by (induction code arbitrary: at) auto

lemma code_loops_sorted: "sorted_wrt (\<lambda>l l'. fst l \<le> fst l') (code_loops code)"
proof -
  have s: "sorted_wrt (\<lambda>l l'. fst l \<le> fst l') (concat (map (\<lambda>(i, at). loop_span i at) (zip code (positions at code))))
    \<and> (\<forall>l \<in> set (concat (map (\<lambda>(i, at). loop_span i at) (zip code (positions at code)))). at \<le> fst l)" for at
  proof (induction code arbitrary: at)
    case (Cons i code)
    have "sorted_wrt (\<lambda>l l'. fst l \<le> fst l') (loop_span i at)"
      by (cases i) (simp_all add: loop_span_def Let_def)
    then show ?case using Cons [of "at + width i"]
      by (fastforce simp: sorted_wrt_append dest: loop_span_bound)
  qed simp
  show ?thesis using s [of 0] by (simp add: code_loops_def)
qed

lemma code_touches_bound:
  "nested_within code \<Longrightarrow> (b, s, q) \<in> set (code_touches code result) \<Longrightarrow> q \<le> code_words code"
  by (fastforce simp: nested_within_def list_all_iff code_touches_def dest: touches_bound)

lemma code_loops_bound: "nested_within code \<Longrightarrow> l \<in> set (code_loops code) \<Longrightarrow> snd l \<le> code_words code"
  by (fastforce simp: nested_within_def list_all_iff code_loops_def dest: loop_span_bound)

lemma settle_from [simp]: "live_from (settle loops blocks fin iv) = live_from iv"
  by (simp add: settle_def persist_def split: option.split)

lemma settle_to:
  assumes "live_to iv \<le> fin" "\<forall>l \<in> set loops. snd l \<le> fin"
  shows "live_to (fold extend_loop loops iv) \<le> live_to (settle loops blocks fin iv)"
  using fold_extend_bound [OF assms] by (simp add: settle_def persist_def split: option.split)

lemma liveness_distinct: "distinct (map fst (liveness owner code result blocks))"
proof -
  have "map fst (liveness owner code result blocks) =
    map fst (touch_all owner (code_touches code result) [])"
    by (simp add: liveness_def comp_def case_prod_beta)
  then show ?thesis by (simp add: touch_all_distinct)
qed

lemma liveness_covers:
  assumes "nested_within code" "(b, s, at) \<in> set (code_touches code result)" "slot_key b s = Some k"
  shows "covered (liveness owner code result blocks) (unit_of owner k) at"
proof -
  let ?raw = "touch_all owner (code_touches code result) []"
  have "covered ?raw (unit_of owner k) at" using assms(2,3) by (rule touch_all_covers)
  then obtain iv where iv: "(unit_of owner k, iv) \<in> set ?raw" "live_from iv \<le> at" "at \<le> live_to iv"
    by (auto simp: covered_def)
  have "live_to (snd (unit_of owner k, iv)) \<le> code_words code"
    by (rule touch_all_bound [OF _ _ iv(1)]) (use assms(1) in \<open>auto dest: code_touches_bound\<close>)
  then have "live_to iv \<le> live_to (settle (code_loops code) blocks (code_words code) iv)"
    using settle_to [of iv "code_words code" "code_loops code" blocks] code_loops_bound [OF assms(1)]
      fold_extend_to [of iv "code_loops code"] by fastforce
  then show ?thesis using iv by (force simp: covered_def liveness_def)
qed

section \<open>Colors stay together\<close>

definition owners_ok :: "owners \<Rightarrow> bool" where
  "owners_ok owner \<longleftrightarrow> (\<forall>k base. owner k = Some base \<longrightarrow>
     owner base \<noteq> None \<and> key_group base = key_group k \<and> unat (key_index base) < 16384 \<and>
     unat (key_index k - key_index base) < 3)"

lemma slot_key_small: "slot_key b s = Some k \<Longrightarrow> unat (key_index k) < 16384"
proof -
  have small: "unat (x AND INDEX) < 16384" for x
  proof -
    have "unat (x AND INDEX) = take_bit 14 (unat x)"
      by (simp add: INDEX_mask unsigned_take_bit_eq flip: take_bit_eq_mask)
    then show ?thesis using take_bit_nat_less_exp [of 14 "unat x"] by simp
  qed
  have "slot_bits s AND INDEX = slot_bits s"
    if "slot_bits s AND ROW = 0" "slot_bits s AND INPUT = 0"
  proof (rule bit_word_eqI)
    fix n assume n: "n < LENGTH(16)"
    have "\<not> bit (slot_bits s) 15" "\<not> bit (slot_bits s) 14"
      using arg_cong [OF that(1), of "\<lambda>w. bit w 15"] arg_cong [OF that(2), of "\<lambda>w. bit w 14"]
      by (simp_all add: bit_simps bit_ROW bit_INPUT)
    then show "bit (slot_bits s AND INDEX) n = bit (slot_bits s) n"
      using n by (cases "n = 14"; cases "n = 15") (auto simp: bit_simps bit_INDEX)
  qed
  then show "slot_key b s = Some k \<Longrightarrow> ?thesis"
    using small [of "slot_bits s"]
    by (auto simp: slot_key_def slot_kind_def split: if_splits)
qed

lemma owners_ok_insert:
  assumes "owners_ok owner" "k = base \<or> owner base \<noteq> None" "key_group base = key_group k"
    "unat (key_index base) < 16384" "unat (key_index k - key_index base) < 3"
  shows "owners_ok (owner(k \<mapsto> base))"
  using assms unfolding owners_ok_def
  by (auto simp del: split_paired_All split_paired_Ex key_group.simps key_index.simps)

lemma owners_ok_color: "owners_ok owner \<Longrightarrow> owners_ok (own_color b s owner)"
proof -
  assume ok: "owners_ok owner"
  have color: "owners_ok (owner ((t, row, index) \<mapsto> (t, row, index), (t, row, index + 1) \<mapsto> (t, row, index),
       (t, row, index + 2) \<mapsto> (t, row, index)))"
    if "unat index < 16384" for t row and index :: u16
    by (rule owners_ok_insert, rule owners_ok_insert, rule owners_ok_insert, rule ok)
      (simp_all add: that)
  show ?thesis
  proof (cases "b = BColor \<and> slot_key b s \<noteq> None")
    case True
    then obtain t row index where "slot_key BColor s = Some (t, row, index)" by auto
    then show ?thesis using True color [of index t row] slot_key_small [of BColor s]
      by (auto simp: own_color_def)
  next
    case False
    then have "b \<noteq> BColor \<or> slot_key b s = None" by blast
    then show ?thesis using ok by (cases "b = BColor") (simp_all add: own_color_def)
  qed
qed

lemma owners_ok_code: "owners_ok (color_owners code result)"
proof -
  have u: "owners_ok owner \<Longrightarrow> owners_ok (fold (\<lambda>(b, s, a). own_color b s) us owner)" for us owner
    by (induction us arbitrary: owner) (auto intro: owners_ok_color)
  have v: "owners_ok owner \<Longrightarrow> owners_ok (fold (\<lambda>i. fold (\<lambda>(b, s, a). own_color b s) (slot_uses i)) code owner)"
    for owner by (induction code arbitrary: owner) (auto intro: u)
  have "owners_ok (\<lambda>k. None)" by (simp add: owners_ok_def)
  then show ?thesis unfolding color_owners_def by (intro owners_ok_color v)
qed

lemma unit_of_ok:
  assumes "owners_ok owner"
  shows "key_group (unit_of owner k) = key_group k" 
    "unat (key_index k - key_index (unit_of owner k)) < unit_width owner (unit_of owner k)"
proof -
  show "key_group (unit_of owner k) = key_group k" 
    using assms unfolding unit_of_def owners_ok_def by (metis option.case_eq_if option.collapse)
  show "unat (key_index k - key_index (unit_of owner k)) < unit_width owner (unit_of owner k)"
  proof (cases "owner k")
    case None
    then show ?thesis by (simp add: unit_of_def unit_width_def)
  next
    case (Some base)
    then have "owner base \<noteq> None \<and> unat (key_index k - key_index base) < 3"
      using assms unfolding owners_ok_def by blast
    then show ?thesis by (simp add: Some unit_of_def unit_width_def)
  qed
qed

section \<open>Renamed code is the same code\<close>

definition renamed :: "(bank \<Rightarrow> slot \<Rightarrow> slot option) \<Rightarrow> bank \<Rightarrow> slot \<Rightarrow> slot" where
  "renamed f b s = (case f b s of None \<Rightarrow> s | Some t \<Rightarrow> t)"

definition unless_none :: "(bank \<Rightarrow> slot \<Rightarrow> slot) \<Rightarrow> bank \<Rightarrow> slot \<Rightarrow> slot" where
  "unless_none g b s = (if slot_is_none s then s else g b s)"

lemma present_rename:
  "visit_present (rename_visitor f) b s a =
     State (\<lambda>ok. (unless_none (renamed f) b s, ok \<and> (\<forall>(b, s, a) \<in> set (present b s a). f b s \<noteq> None)))"
  by (auto simp: visit_present_def rename_visitor_def present_def unless_none_def renamed_def
      State_Monad.return_def split: option.split)

lemma present_pure:
  "visit_present (\<lambda>b s a. State (Pair (g b s))) b s a = State (\<lambda>u. (unless_none g b s, u))"
  by (simp add: visit_present_def unless_none_def State_Monad.return_def)

lemma pixel_rename:
  "visit_read_pixel (rename_visitor f) p =
     State (\<lambda>ok. (signal_pixel_map (unless_none (renamed f) BInt) p,
       ok \<and> (case signal_pixel_index p of None \<Rightarrow> True
             | Some i \<Rightarrow> \<forall>(b, s, a) \<in> set (present BInt i ReadAccess). f b s \<noteq> None)))"
  by (cases p) (simp_all add: visit_read_pixel_def signal_pixel_index_def signal_pixel_map_def
    state_bind present_rename State_Monad.return_def)

lemma pixel_pure:
  "visit_read_pixel (\<lambda>b s a. State (Pair (g b s))) p =
     State (\<lambda>u. (signal_pixel_map (unless_none g BInt) p, u))"
  by (cases p) (simp_all add: visit_read_pixel_def signal_pixel_map_def
    state_bind present_pure State_Monad.return_def)

lemma rename_visit:
  "run_state (visit_slots (rename_visitor f) i) ok =
     (rename_slots (renamed f) i, ok \<and> (\<forall>(b, s, a) \<in> set (slot_uses i). f b s \<noteq> None))"
proof (cases i)
  case (Read dst input pixel)
  then show ?thesis
    by (cases "signal_pixel_index pixel") (simp_all add: slot_uses_simps rename_slots_def present_rename present_pure state_bind
      State_Monad.return_def pixel_rename pixel_pure visit_pixel_uses ball_Un)
qed (simp_all add: slot_uses_simps rename_slots_def present_rename present_pure state_bind
      State_Monad.return_def ball_Un)

lemma present_unless:
  "\<forall>(b, s, a) \<in> set (present b s a). \<not> slot_is_none (g b s) \<Longrightarrow>
   present b (unless_none g b s) a = map (\<lambda>(b, s, a). (b, g b s, a)) (present b s a)"
  by (cases "slot_is_none s") (simp_all add: present_def unless_none_def)

lemma slot_uses_rename:
  assumes "\<forall>(b, s, a) \<in> set (slot_uses i). \<not> slot_is_none (g b s)"
  shows "slot_uses (rename_slots g i) = map (\<lambda>(b, s, a). (b, g b s, a)) (slot_uses i)"
proof (cases i)
  case (Read dst input pixel)
  then show ?thesis using assms
    by (cases pixel) (simp_all add: slot_uses_simps rename_slots_def present_pure state_bind
      State_Monad.return_def pixel_pure visit_pixel_uses ball_Un present_unless signal_pixel_map_def signal_pixel_index_def)
qed (use assms in \<open>simp_all add: slot_uses_simps rename_slots_def present_pure state_bind
      State_Monad.return_def ball_Un present_unless\<close>)

lemma rename_keeps [simp]:
  "width (rename_slots g i) = width i" "nested (rename_slots g i) = nested i"
  "(case rename_slots g i of FloatBinary _ cs _ _ _ \<Rightarrow> colors_bits cs < 16 | _ \<Rightarrow> True) \<longleftrightarrow>
   (case i of FloatBinary _ cs _ _ _ \<Rightarrow> colors_bits cs < 16 | _ \<Rightarrow> True)"
proof (atomize (full), cases i)
  case (Read dst input pixel)
  then show "width (rename_slots g i) = width i \<and> nested (rename_slots g i) = nested i \<and>
  ((case rename_slots g i of FloatBinary _ cs _ _ _ \<Rightarrow> colors_bits cs < 16 | _ \<Rightarrow> True) \<longleftrightarrow>
   (case i of FloatBinary _ cs _ _ _ \<Rightarrow> colors_bits cs < 16 | _ \<Rightarrow> True))"
    by (simp add: rename_slots_def present_pure pixel_pure state_bind State_Monad.return_def
      width_def is_reduction_def nested_def)
qed (simp_all add: rename_slots_def present_pure state_bind State_Monad.return_def
      width_def is_reduction_def nested_def)

lemma rename_code:
  "rename_code f code =
     (if \<forall>i \<in> set code. \<forall>(b, s, a) \<in> set (slot_uses i). f b s \<noteq> None
      then Some (map (rename_slots (renamed f)) code) else None)"
  by (induction code) (simp_all add: rename_code_def rename_visit)

section \<open>Allocation\<close>

lemma slot_uses_code_touches:
  assumes "i \<in> set code" "(b, s, a) \<in> set (slot_uses i)"
  shows "\<exists>q. (b, s, q) \<in> set (code_touches code result)"
proof -
  have "\<exists>at. (i, at) \<in> set (zip code (positions n code))" for n
    using assms(1) by (induction code arbitrary: n) auto
  then obtain at where at: "(i, at) \<in> set (zip code (positions 0 code))" by blast
  obtain q where "(b, s, q) \<in> set (touches i at)" using slot_uses_touched [OF assms(2)] by blast
  with at show ?thesis by (fastforce simp: code_touches_def)
qed

lemma liveness_keys:
  assumes "(b, s, q) \<in> set (code_touches code result)" "slot_key b s = Some k"
  shows "unit_of owner k \<in> fst ` set (liveness owner code result blocks)"
  using touch_all_covers [OF assms, of owner "[]"] by (force simp: covered_def liveness_def)

lemma touch_all_keys:
  assumes "\<And>b s k. slot_key b s = Some k \<Longrightarrow> unit_of owner k \<in> K"
  shows "fst ` set ivs \<subseteq> K \<Longrightarrow> fst ` set (touch_all owner ts ivs) \<subseteq> K"
proof (induction ts arbitrary: ivs)
  case (Cons t ts)
  obtain b s a where t: "t = (b, s, a)" by (cases t)
  have "fst ` set (touch owner b s a ivs) \<subseteq> K"
    by (rule touch_cases [of b s owner a ivs]) (simp_all add: stretch_keys Cons.prems assms)
  then show ?case using Cons.IH by (simp add: t)
qed simp

lemma liveness_small:
  assumes "owners_ok owner" "k \<in> fst ` set (liveness owner code result blocks)"
  shows "unat (key_index k) < 16384"
proof -
  have "unat (key_index (unit_of owner k)) < 16384" if "slot_key b s = Some k" for b s k
  proof (cases "owner k")
    case None
    then show ?thesis using slot_key_small [OF that] by (simp add: unit_of_def)
  next
    case (Some base)
    then have "unat (key_index base) < 16384" using assms(1) unfolding owners_ok_def by blast
    then show ?thesis by (simp add: Some unit_of_def)
  qed
  then have "fst ` set (touch_all owner (code_touches code result) []) \<subseteq> {k. unat (key_index k) < 16384}"
    by (intro touch_all_keys) simp_all
  moreover have "fst ` set (liveness owner code result blocks) =
      fst ` set (touch_all owner (code_touches code result) [])"
    by (simp add: liveness_def image_image case_prod_beta)
  ultimately show ?thesis using assms(2) by blast
qed

lemma scan_order_sorted:
  "sorted_wrt (\<lambda>p q. live_from (snd p) \<le> live_from (snd q)) (scan_order ivs)"
proof -
  have "sorted (map sort_position (scan_order ivs))" by (simp add: scan_order_def)
  moreover have "live_from (snd p) \<le> live_from (snd q)" if "sort_position p \<le> sort_position q" for p q
    using that by (cases p; cases q) (auto simp: sort_position_def less_eq_prod_def split: prod.splits)
  ultimately show ?thesis by (auto simp: sorted_map intro: sorted_wrt_mono_rel [rotated])
qed

lemma linear_scan_inv:
  assumes "distinct (map fst ivs)"
  shows "scan_inv owner (scan_order ivs) (linear_scan owner ivs)"
proof -
  have "distinct (map fst (scan_order ivs))"
    using assms by (simp add: scan_order_def distinct_map)
  from scan_inv_fold [OF scan_inv_start, of "scan_order ivs" owner] this scan_order_sorted [of ivs]
  show ?thesis by (simp add: linear_scan_def)
qed

lemma set_scan_order [simp]: "set (scan_order ivs) = set ivs"
  by (simp add: scan_order_def)

lemma scan_assigned:
  assumes "distinct (map fst ivs)" "k \<in> fst ` set ivs"
  obtains first where "assigned (linear_scan owner ivs) k = Some first"
    "first + unit_width owner k \<le> length (taken (lanes (linear_scan owner ivs) (key_group k)))"
  using linear_scan_inv [OF assms(1), of owner] assms(2) by (fastforce simp: scan_inv_def)

text \<open>No lane ever holds more slots than the widths of its units.\<close>

lemma lane_place_length:
  "lane_place w iv l = (l', first) \<Longrightarrow> length (taken l') \<le> length (taken l) + w"
proof -
  have "first_free t w \<le> length t" for t
    by (auto simp: first_free_def find_Some_iff split: option.split)
  from this [of "release (live_from iv) (busy l) (taken l)"]
  show "lane_place w iv l = (l', first) \<Longrightarrow> ?thesis"
    by (auto simp: lane_place_def Let_def expire_release release)
qed

lemma scan_length:
  "length (taken (lanes (fold (scan_step owner) ps st) g)) \<le>
     length (taken (lanes st g)) + 3 * length (filter (\<lambda>p. key_group (fst p) = g) ps)"
proof (induction ps arbitrary: st)
  case (Cons p ps)
  obtain k iv where p: "p = (k, iv)" by (cases p)
  obtain l first where place: "lane_place (unit_width owner k) iv (lanes st (key_group k)) = (l, first)"
    by (cases "lane_place (unit_width owner k) iv (lanes st (key_group k))")
  have "unit_width owner k \<le> 3" by (simp add: unit_width_def)
  with lane_place_length [OF place]
  have "length (taken (lanes (scan_step owner p st) g)) \<le>
      length (taken (lanes st g)) + (if key_group k = g then 3 else 0)"
    by (auto simp: scan_step_def p place)
  with Cons [of "scan_step owner p st"] show ?case by (auto simp: p split: if_splits)
qed simp

lemma lane_length:
  assumes d: "distinct (map fst ivs)" and small: "\<forall>k \<in> fst ` set ivs. unat (key_index k) < 16384"
  shows "length (taken (lanes (linear_scan owner ivs) g)) < 65536"
proof -
  let ?ks = "map fst (filter (\<lambda>p. key_group (fst p) = g) (scan_order ivs))"
  have dk: "distinct ?ks" using d by (simp add: scan_order_def distinct_map inj_on_def)
  have "inj_on (\<lambda>k. unat (key_index k)) (set ?ks)"
  proof (rule inj_onI)
    fix k k' assume ks: "k \<in> set ?ks" "k' \<in> set ?ks" and eq: "unat (key_index k) = unat (key_index k')"
    have "key_group k = g" "key_group k' = g" using ks by auto
    moreover have "key_index k = key_index k'" using eq by (rule unsigned_word_eqI [where 'a = nat])
    ultimately show "k = k'" by (cases k; cases k') auto
  qed
  moreover have "(\<lambda>k. unat (key_index k)) ` set ?ks \<subseteq> {..<16384}" using small by auto
  ultimately have "card (set ?ks) \<le> card {..<16384::nat}" by (intro card_inj_on_le) auto
  then have "length ?ks \<le> 16384" using distinct_card [OF dk] by simp
  then show ?thesis
    using scan_length [of owner "scan_order ivs" scan_start g]
    by (simp add: linear_scan_def scan_start_def lane_empty_def)
qed


abbreviation (input) scan_of :: "instruction list \<Rightarrow> slot \<Rightarrow> nat list \<Rightarrow> scan_state" where
  "scan_of code result blocks \<equiv>
     linear_scan (color_owners code result) (liveness (color_owners code result) code result blocks)"

definition rename_of :: "instruction list \<Rightarrow> slot \<Rightarrow> nat list \<Rightarrow> bank \<Rightarrow> slot \<Rightarrow> slot option" where
  "rename_of code result blocks =
     physical (color_owners code result) (assigned (scan_of code result blocks))"

lemma rename_input: "slot_key b s = None \<Longrightarrow> rename_of code result blocks b s = Some s"
  by (simp add: rename_of_def physical_def)

lemma rename_number:
  fixes code result blocks
  defines "owner \<equiv> color_owners code result" and "st \<equiv> scan_of code result blocks"
  assumes u: "unit_of owner k \<in> fst ` set (liveness owner code result blocks)"
    and k: "slot_key b s = Some k"
  obtains first n where "rename_of code result blocks b s = Some (place (fst (snd k)) (of_nat n))"
    "assigned st (unit_of owner k) = Some first"
    "n = first + unat (key_index k - key_index (unit_of owner k))"
    "n \<in> run_of owner st (unit_of owner k)" "n < length (taken (lanes st (key_group k)))"
proof -
  obtain first where first: "assigned st (unit_of owner k) = Some first"
    "first + unit_width owner (unit_of owner k) \<le> length (taken (lanes st (key_group (unit_of owner k))))"
    unfolding st_def owner_def [symmetric]
    by (rule scan_assigned [OF liveness_distinct u])
  note unit = unit_of_ok [OF owners_ok_code [of code result], of k, folded owner_def]
  show ?thesis
  proof (rule that [OF _ first(1) refl])
    show "rename_of code result blocks b s =
        Some (place (fst (snd k)) (of_nat (first + unat (key_index k - key_index (unit_of owner k)))))"
      using first(1) k unfolding st_def owner_def by (simp add: rename_of_def physical_def Let_def)
    show "first + unat (key_index k - key_index (unit_of owner k)) \<in> run_of owner st (unit_of owner k)"
      using first(1) unit(2) by (simp add: run_of_def)
    show "first + unat (key_index k - key_index (unit_of owner k)) < length (taken (lanes st (key_group k)))"
      using first(2) unit by simp
  qed
qed

lemma scan_lane_length: "length (taken (lanes (scan_of code result blocks) g)) < 65536"
  by (rule lane_length [OF liveness_distinct]) (use liveness_small [OF owners_ok_code] in blast)

lemma rename_total:
  "(b, s, q) \<in> set (code_touches code result) \<Longrightarrow> rename_of code result blocks b s \<noteq> None"
proof (cases "slot_key b s")
  case (Some k)
  then show "(b, s, q) \<in> set (code_touches code result) \<Longrightarrow> ?thesis"
    using rename_number [OF liveness_keys] by (metis option.distinct(1))
qed (simp add: rename_input)

lemma result_touched: "(BColor, result, code_words code) \<in> set (code_touches code result)"
  by (simp add: code_touches_def)

lemma allocate_eq:
  "allocate code result blocks =
     Some (map (rename_slots (renamed (rename_of code result blocks))) code,
       renamed (rename_of code result blocks) BColor result,
       lane_counts (scan_of code result blocks) False, lane_counts (scan_of code result blocks) True)"
proof -
  have f: "physical (color_owners code result) (assigned (scan_of code result blocks)) =
      rename_of code result blocks"
    by (simp add: rename_of_def)
  have uses: "\<forall>i \<in> set code. \<forall>(b, s, a) \<in> set (slot_uses i). rename_of code result blocks b s \<noteq> None"
  proof (intro ballI)
    fix i u assume i: "i \<in> set code" "u \<in> set (slot_uses i)"
    obtain b s a where u: "u = (b, s, a)" by (cases u)
    obtain q where "(b, s, q) \<in> set (code_touches code result)"
      using slot_uses_code_touches i unfolding u by blast
    then show "case u of (b, s, a) \<Rightarrow> rename_of code result blocks b s \<noteq> None"
      unfolding u prod.case by (rule rename_total)
  qed
  obtain r where "rename_of code result blocks BColor result = Some r"
    using rename_total [OF result_touched] by blast
  then show ?thesis
    unfolding allocate_def Let_def f rename_code if_P [OF uses]
    by (simp add: renamed_def [where s = result])
qed

section \<open>What liveness means\<close>

text \<open>
  A slot is live where the interval of its value covers a position: a color is one value
  of three slots.
\<close>

definition live_at :: "instruction list \<Rightarrow> slot \<Rightarrow> nat list \<Rightarrow> bank \<Rightarrow> slot \<Rightarrow> nat \<Rightarrow> bool" where
  "live_at code result blocks b s at =
     (let owner = color_owners code result
      in case slot_key b s of
           None \<Rightarrow> False
         | Some k \<Rightarrow> list_ex (\<lambda>(k', iv). k' = unit_of owner k \<and> live_from iv \<le> at \<and> at \<le> live_to iv)
                     (liveness owner code result blocks))"

lemma live_at_interval:
  "live_at code result blocks b s at \<longleftrightarrow>
     (\<exists>k. slot_key b s = Some k \<and>
        covered (liveness (color_owners code result) code result blocks)
          (unit_of (color_owners code result) k) at)"
  by (auto simp: live_at_def covered_def list_ex_iff Let_def split: option.split)

lemma covered_between:
  assumes "distinct (map fst ivs)" "covered ivs k p" "covered ivs k q" "p \<le> at" "at \<le> q"
  shows "covered ivs k at"
proof -
  obtain iv iv' where iv: "(k, iv) \<in> set ivs" "live_from iv \<le> p" "p \<le> live_to iv"
    "(k, iv') \<in> set ivs" "live_from iv' \<le> q" "q \<le> live_to iv'"
    using assms(2,3) by (auto simp: covered_def)
  have "iv' = iv" using assms(1) iv(1,4) by (rule eq_key_imp_eq_value [symmetric])
  with iv assms(4,5) show ?thesis by (auto simp: covered_def intro!: exI [of _ iv])
qed

lemma settle_closed:
  assumes "live_to iv \<le> fin" "\<forall>l \<in> set loops. snd l \<le> fin" "l \<in> set loops"
    "sorted_wrt (\<lambda>l l'. fst l \<le> fst l') loops"
    "live_from iv \<le> fst l" "fst l < live_to iv"
  shows "snd l \<le> live_to (settle loops blocks fin iv)"
proof -
  have "closed_over l (fold extend_loop loops iv)" using assms(4,3) by (rule fold_extend_closed)
  moreover have "live_to iv \<le> live_to (fold extend_loop loops iv)" by (rule fold_extend_to)
  ultimately have "snd l \<le> live_to (fold extend_loop loops iv)"
    using assms(5,6) by (simp add: closed_over_def)
  also have "\<dots> \<le> live_to (settle loops blocks fin iv)" using assms(1,2) by (rule settle_to)
  finally show ?thesis .
qed

lemma settle_persists:
  assumes "sorted blocks" "block_end \<in> set blocks" "live_from iv < block_end" "block_end \<le> live_to iv"
  shows "live_to (settle loops blocks fin iv) = fin"
proof -
  let ?iv = "fold extend_loop loops iv"
  have to: "live_to iv \<le> live_to ?iv" by (rule fold_extend_to)
  have "\<exists>e. find (\<lambda>block_end. live_from iv < block_end) blocks = Some e \<and> e \<le> block_end"
    using assms(1-3) by (induction blocks) auto
  then show ?thesis using to assms(4) by (auto simp: settle_def persist_def)
qed

text \<open>The interval of a touched slot, before and after it is settled.\<close>

lemma touched_interval:
  assumes "nested_within code" "(b, s, p) \<in> set (code_touches code result)"
    "(b, s, q) \<in> set (code_touches code result)" "slot_key b s = Some k"
  obtains iv where "live_from iv \<le> p" "q \<le> live_to iv" "live_to iv \<le> code_words code"
    "(unit_of owner k, settle (code_loops code) blocks (code_words code) iv)
       \<in> set (liveness owner code result blocks)"
proof -
  let ?raw = "touch_all owner (code_touches code result) []"
  have "covered ?raw (unit_of owner k) p" "covered ?raw (unit_of owner k) q"
    using touch_all_covers assms(2-4) by blast+
  then obtain iv iv' where iv: "(unit_of owner k, iv) \<in> set ?raw" "live_from iv \<le> p"
    "(unit_of owner k, iv') \<in> set ?raw" "q \<le> live_to iv'"
    by (auto simp: covered_def)
  have "distinct (map fst ?raw)" by (simp add: touch_all_distinct)
  then have eq: "iv' = iv" using iv(1,3) by (rule eq_key_imp_eq_value [symmetric])
  have "live_to (snd (unit_of owner k, iv)) \<le> code_words code"
    by (rule touch_all_bound [OF _ _ iv(1)]) (use assms(1) in \<open>auto dest: code_touches_bound\<close>)
  with iv eq that [of iv] show ?thesis by (force simp: liveness_def)
qed

text \<open>
  A value is alive at every position between any two of its uses.
\<close>

theorem live_between:
  assumes "nested_within code" "slot_key b s \<noteq> None"
    "(b, s, p) \<in> set (code_touches code result)" "(b, s, q) \<in> set (code_touches code result)"
    "p \<le> at" "at \<le> q"
  shows "live_at code result blocks b s at"
proof -
  obtain k where k: "slot_key b s = Some k" using assms(2) by blast
  have "covered (liveness (color_owners code result) code result blocks)
      (unit_of (color_owners code result) k) at"
    using assms(5,6) by (intro covered_between [OF liveness_distinct
      liveness_covers [OF assms(1,3) k] liveness_covers [OF assms(1,4) k]])
  with k show ?thesis unfolding live_at_interval by blast
qed

text \<open>
  C13. A value written before a loop and read in it or after it stays alive to the loop's last
  word, so no pass of the loop finds its slot reused.
\<close>

theorem live_through_loop:
  assumes "nested_within code" "slot_key b s \<noteq> None"
    "(b, s, p) \<in> set (code_touches code result)" "(b, s, q) \<in> set (code_touches code result)"
    "(start, loop_end) \<in> set (code_loops code)" "p \<le> start" "start < q" "p \<le> at" "at \<le> loop_end"
  shows "live_at code result blocks b s at"
proof -
  obtain k where k: "slot_key b s = Some k" using assms(2) by blast
  let ?owner = "color_owners code result"
  obtain iv where iv: "live_from iv \<le> p" "q \<le> live_to iv" "live_to iv \<le> code_words code"
    "(unit_of ?owner k, settle (code_loops code) blocks (code_words code) iv)
       \<in> set (liveness ?owner code result blocks)"
    by (rule touched_interval [OF assms(1,3,4) k])
  have "loop_end \<le> live_to (settle (code_loops code) blocks (code_words code) iv)"
    using settle_closed [OF iv(3) _ assms(5) code_loops_sorted, of blocks] code_loops_bound [OF assms(1)]
      iv(1,2) assms(6,7) by simp
  then show ?thesis using iv(1,4) assms(8,9) k by (force simp: live_at_interval covered_def)
qed

text \<open>
  A value written in one block (the invariant code, the query, the target code) and read in
  a later one stays alive to the end of the program, since the blocks run at different times.
\<close>

theorem live_past_block:
  assumes "nested_within code" "slot_key b s \<noteq> None" "sorted blocks" "block_end \<in> set blocks"
    "(b, s, p) \<in> set (code_touches code result)" "(b, s, q) \<in> set (code_touches code result)"
    "p < block_end" "block_end \<le> q" "p \<le> at" "at \<le> code_words code"
  shows "live_at code result blocks b s at"
proof -
  obtain k where k: "slot_key b s = Some k" using assms(2) by blast
  let ?owner = "color_owners code result"
  obtain iv where iv: "live_from iv \<le> p" "q \<le> live_to iv" "live_to iv \<le> code_words code"
    "(unit_of ?owner k, settle (code_loops code) blocks (code_words code) iv)
       \<in> set (liveness ?owner code result blocks)"
    by (rule touched_interval [OF assms(1,5,6) k])
  have "live_to (settle (code_loops code) blocks (code_words code) iv) = code_words code"
    using settle_persists [OF assms(3,4)] iv(1,2) assms(7,8) by simp
  then show ?thesis using iv(1,4) assms(9,10) k by (force simp: live_at_interval covered_def)
qed


text \<open>The slots of renamed code, under counts the word format addresses.\<close>

lemma slot_kind_place:
  "n < 16384 \<Longrightarrow> slot_kind (place row (of_nat n)) = (if row then Row (of_nat n) else Scalar (of_nat n))"
  by (simp add: place_def kind_row kind_scalar slot_scalar_def masked_index unat_of_nat)

lemma place_inject:
  assumes "m < 16384" "n < 16384" "place row (of_nat m) = place row (of_nat n)"
  shows "m = n"
proof -
  have "(if row then Row (of_nat m) else Scalar (of_nat m)) =
      (if row then Row (of_nat n) else Scalar (of_nat n))"
    by (rule trans [OF trans [OF slot_kind_place [OF assms(1), symmetric] arg_cong [OF assms(3), of slot_kind]]
      slot_kind_place [OF assms(2)]])
  then have "(of_nat m :: u16) = of_nat n" by (cases row) (simp_all only: slot_class.inject if_True if_False)
  then have "unat (of_nat m :: u16) = unat (of_nat n :: u16)" by simp
  then show ?thesis using assms(1,2) by (simp add: unat_of_nat)
qed

lemma place_allocated:
  assumes "n < unat (if row then ROWS else SCALARS)"
  shows "allocated (place row (of_nat n))" "\<not> slot_is_none (place row (of_nat n))"
proof -
  have "n < 127 \<and> (row \<longrightarrow> n < 124)" using assms by (cases row) (simp_all add: ROWS_def SCALARS_def)
  then have n: "n < 127" "row \<longrightarrow> n < 124" by blast+
  have k: "slot_kind (place row (of_nat n)) = (if row then Row (of_nat n) else Scalar (of_nat n))"
    using n(1) by (intro slot_kind_place) simp
  show "\<not> slot_is_none (place row (of_nat n))"
  proof
    assume "slot_is_none (place row (of_nat n))"
    then have "slot_kind (place row (of_nat n)) = Row 16383" by (simp add: slot_is_none_def kind_none)
    then have "row" "(of_nat n :: u16) = 16383" using k by (auto split: if_splits)
    then have "unat (of_nat n :: u16) = 16383" by simp
    with n(1) show False by (simp add: unat_of_nat)
  qed
  show "allocated (place row (of_nat n))"
    using n k by (auto simp: allocated_def place_def ROWS_def SCALARS_def word_less_nat_alt unat_of_nat)
qed

section \<open>The allocated code\<close>

text \<open>\<open>emit.rs\<close>: whether every bank's count is within what a word addresses.\<close>

definition fits :: "banks \<Rightarrow> u16 \<Rightarrow> bool" where
  "fits bs limit = list_all (\<lambda>count. count \<le> limit) [floats bs, ints bs, bools bs, resource_slots bs]"

lemma fits_lane:
  assumes "fits (lane_counts (scan_of code result blocks) row) limit" "slot_key b s = Some k"
    "fst (snd k) = row"
  shows "length (taken (lanes (scan_of code result blocks) (key_group k))) \<le> unat limit"
proof -
  have g: "key_group k = (bank_storage b, row)"
    using assms(2,3) by (auto simp: slot_key_def split: slot_class.splits)
  have n: "unat (of_nat (length (taken (lanes (scan_of code result blocks) g))) :: u16) =
      length (taken (lanes (scan_of code result blocks) g))" for g
    using scan_lane_length [of code result blocks g] by (simp add: unat_of_nat)
  show ?thesis using assms(1)
    by (cases b) (auto simp: fits_def lane_counts_def bank_storage_def word_le_nat_alt n g simp del: unat_of_nat)
qed

lemma unat_limits: "unat SCALARS = 127" "unat ROWS = 124"
  by (simp_all add: SCALARS_def ROWS_def)

lemma renamed_number:
  assumes "fits (lane_counts (scan_of code result blocks) False) SCALARS"
    "fits (lane_counts (scan_of code result blocks) True) ROWS"
    "slot_key b s = Some k" "n < length (taken (lanes (scan_of code result blocks) (key_group k)))"
  shows "n < unat (if fst (snd k) then ROWS else SCALARS)"
proof (cases "fst (snd k)")
  case True
  with fits_lane [OF assms(2,3)] assms(4) show ?thesis by simp
next
  case False
  with fits_lane [OF assms(1,3)] assms(4) show ?thesis by simp
qed

lemma rename_apart:
  assumes fits: "fits (lane_counts (scan_of code result blocks) False) SCALARS"
    "fits (lane_counts (scan_of code result blocks) True) ROWS"
    and live: "live_at code result blocks b s at" "live_at code result blocks b' s' at"
    and keys: "slot_key b s = Some k" "slot_key b' s' = Some k'" "key_group k = key_group k'" "k \<noteq> k'"
  shows "rename_of code result blocks b s \<noteq> rename_of code result blocks b' s'"
proof
  assume eq: "rename_of code result blocks b s = rename_of code result blocks b' s'"
  let ?owner = "color_owners code result" and ?st = "scan_of code result blocks"
  let ?ivs = "liveness ?owner code result blocks"
  obtain iv where iv: "(unit_of ?owner k, iv) \<in> set ?ivs" "live_from iv \<le> at" "at \<le> live_to iv"
    using live(1) keys(1) by (simp only: live_at_interval covered_def option.inject) blast
  obtain iv' where iv': "(unit_of ?owner k', iv') \<in> set ?ivs" "live_from iv' \<le> at" "at \<le> live_to iv'"
    using live(2) keys(2) by (simp only: live_at_interval covered_def option.inject) blast
  have u: "unit_of ?owner k \<in> fst ` set ?ivs" using iv(1) by (rule image_eqI [rotated]) simp
  have u': "unit_of ?owner k' \<in> fst ` set ?ivs" using iv'(1) by (rule image_eqI [rotated]) simp
  obtain f n where n: "rename_of code result blocks b s = Some (place (fst (snd k)) (of_nat n))"
    "assigned ?st (unit_of ?owner k) = Some f"
    "n = f + unat (key_index k - key_index (unit_of ?owner k))"
    "n \<in> run_of ?owner ?st (unit_of ?owner k)" "n < length (taken (lanes ?st (key_group k)))"
    by (rule rename_number [OF u keys(1)])
  obtain f' n' where n': "rename_of code result blocks b' s' = Some (place (fst (snd k')) (of_nat n'))"
    "assigned ?st (unit_of ?owner k') = Some f'"
    "n' = f' + unat (key_index k' - key_index (unit_of ?owner k'))"
    "n' \<in> run_of ?owner ?st (unit_of ?owner k')" "n' < length (taken (lanes ?st (key_group k')))"
    by (rule rename_number [OF u' keys(2)])
  have row: "fst (snd k) = fst (snd k')" using keys(3) by (cases k; cases k') simp
  have small: "n < 16384" "n' < 16384"
    using renamed_number [OF fits keys(1) n(5)] renamed_number [OF fits keys(2) n'(5)]
    by (auto simp: unat_limits split: if_splits)
  have "place (fst (snd k)) (of_nat n) = place (fst (snd k)) (of_nat n')"
    using eq n(1) n'(1) row by (simp only: option.inject)
  then have same: "n = n'" by (rule place_inject [OF small])
  show False
  proof (cases "unit_of ?owner k = unit_of ?owner k'")
    case True
    then have "unat (key_index k - key_index (unit_of ?owner k)) = unat (key_index k' - key_index (unit_of ?owner k))"
      using same n(2,3) n'(2,3) by simp
    then have "key_index k - key_index (unit_of ?owner k) = key_index k' - key_index (unit_of ?owner k)"
      by (rule unsigned_word_eqI [where 'a = nat])
    then have "key_index k = key_index k'" by simp
    with keys(3,4) show False by (cases k; cases k') simp
  next
    case False
    have "scan_inv ?owner (scan_order ?ivs) ?st" by (rule linear_scan_inv [OF liveness_distinct])
    moreover have "key_group (unit_of ?owner k) = key_group (unit_of ?owner k')"
      using unit_of_ok(1) [OF owners_ok_code [of code result]] keys(3) by simp
    moreover have "overlap iv iv'" using iv(2,3) iv'(2,3) by (simp add: overlap_def)
    ultimately have "disjnt (run_of ?owner ?st (unit_of ?owner k)) (run_of ?owner ?st (unit_of ?owner k'))"
      using iv(1) iv'(1) False unfolding scan_inv_def set_scan_order by blast
    with n(4) n'(4) same show False unfolding disjnt_iff by blast
  qed
qed

text \<open>
  Emission names slots by their constructors, and float operators have at most four
  operands.
\<close>

definition well_formed :: "instruction \<Rightarrow> bool" where
  "well_formed i \<longleftrightarrow>
     list_all (\<lambda>(b, s, a). case slot_kind s of PixelInput p \<Rightarrow> s = slot_input p | _ \<Rightarrow> True) (slot_uses i) \<and>
     (case i of FloatBinary _ cs _ _ _ \<Rightarrow> colors_bits cs < 16 | _ \<Rightarrow> True)"

lemma input_not_none: "\<not> slot_is_none (slot_input p)"
  using kind_input [of p] kind_none by (auto simp: slot_is_none_def)

lemma rename_allocated:
  assumes fits: "fits (lane_counts (scan_of code result blocks) False) SCALARS"
    "fits (lane_counts (scan_of code result blocks) True) ROWS"
    and t: "(b, s, q) \<in> set (code_touches code result)"
    and canonical: "case slot_kind s of PixelInput p \<Rightarrow> s = slot_input p | _ \<Rightarrow> True"
  shows "allocated (renamed (rename_of code result blocks) b s) \<and>
    \<not> slot_is_none (renamed (rename_of code result blocks) b s)"
proof (cases "slot_key b s")
  case None
  then obtain p where "slot_kind s = PixelInput p" by (auto simp: slot_key_def split: slot_class.splits)
  then have "s = slot_input p" using canonical by simp
  then show ?thesis using None
    by (simp add: renamed_def rename_input allocated_def kind_input input_not_none)
next
  case (Some k)
  obtain n where n: "rename_of code result blocks b s = Some (place (fst (snd k)) (of_nat n))"
    "n < length (taken (lanes (scan_of code result blocks) (key_group k)))"
    by (rule rename_number [OF liveness_keys [OF t Some] Some])
  show ?thesis using place_allocated [OF renamed_number [OF fits Some n(2)]] by (simp add: renamed_def n(1))
qed

lemma rename_encodable:
  assumes fits: "fits (lane_counts (scan_of code result blocks) False) SCALARS"
    "fits (lane_counts (scan_of code result blocks) True) ROWS"
    and i: "i \<in> set code" "well_formed i"
  shows "encodable (rename_slots (renamed (rename_of code result blocks)) i)"
proof -
  let ?g = "renamed (rename_of code result blocks)"
  have all: "allocated (?g b s) \<and> \<not> slot_is_none (?g b s)" if u: "(b, s, a) \<in> set (slot_uses i)" for b s a
  proof -
    obtain q where "(b, s, q) \<in> set (code_touches code result)"
      using slot_uses_code_touches [OF i(1) u] by blast
    from rename_allocated [OF fits this] i(2) u show ?thesis
      unfolding well_formed_def list_all_iff by fastforce
  qed
  then have "\<forall>(b, s, a) \<in> set (slot_uses i). \<not> slot_is_none (?g b s)" by fast
  from slot_uses_rename [OF this] all i(2) show ?thesis
    unfolding encodable_def well_formed_def rename_keeps by (auto simp: list_all_iff)
qed

lemma live_renamed:
  assumes "live_at code result blocks b s at"
  shows "\<exists>t. rename_of code result blocks b s = Some t"
proof -
  obtain k iv where k: "slot_key b s = Some k"
    and iv: "(unit_of (color_owners code result) k, iv) \<in> set (liveness (color_owners code result) code result blocks)"
    using assms by (auto simp add: live_at_interval covered_def simp del: split_paired_All split_paired_Ex)
  then have u: "unit_of (color_owners code result) k \<in> fst ` set (liveness (color_owners code result) code result blocks)"
    by force
  show ?thesis by (rule rename_number [OF u k]) blast
qed

section \<open>What allocation guarantees\<close>

text \<open>
  C1. Register allocation never gives two values alive at once the same place: when
  \<open>allocate\<close> returns and its banks stay in their limits, one renaming produced the code and
  the result, and any two different virtual values of one bank and one kind (scalar or row)
  whose live ranges meet are renamed apart.
\<close>

theorem allocation_keeps_apart:
  assumes "allocate code result blocks = Some (code', result', scalars, rows)"
    and "fits scalars SCALARS" "fits rows ROWS"
  shows "\<exists>g. code' = map (rename_slots g) code \<and> result' = g BColor result \<and>
    (\<forall>at b s b' s' k k'. live_at code result blocks b s at \<longrightarrow> live_at code result blocks b' s' at \<longrightarrow>
       slot_key b s = Some k \<longrightarrow> slot_key b' s' = Some k' \<longrightarrow> key_group k = key_group k' \<longrightarrow> k \<noteq> k' \<longrightarrow>
       g b s \<noteq> g b' s')"
proof (intro exI conjI allI impI)
  let ?g = "renamed (rename_of code result blocks)"
  have eq: "code' = map (rename_slots ?g) code" "result' = ?g BColor result"
    "scalars = lane_counts (scan_of code result blocks) False"
    "rows = lane_counts (scan_of code result blocks) True"
    using assms(1) unfolding allocate_eq by auto
  show "code' = map (rename_slots ?g) code" "result' = ?g BColor result" using eq by auto
  fix at b s b' s' k k'
  assume live: "live_at code result blocks b s at" "live_at code result blocks b' s' at"
    and keys: "slot_key b s = Some k" "slot_key b' s' = Some k'" "key_group k = key_group k'" "k \<noteq> k'"
  have "rename_of code result blocks b s \<noteq> rename_of code result blocks b' s'"
    by (rule rename_apart [OF assms(2,3) [unfolded eq] live keys])
  then show "?g b s \<noteq> ?g b' s'"
    using live_renamed [OF live(1)] live_renamed [OF live(2)] by (auto simp: renamed_def)
qed

text \<open>A loop in a program of one query block: slot 0 is written before it and read in it.\<close>

definition sample_code :: "instruction list" where
  "sample_code =
     [Const BInt (Slot 0) 0, Const BInt (Slot 1) 4, Const BFloat (Slot 0) 7,
      Reduce RedSum BFloat (Slot 1) (Slot 2) (Slot 0) (Slot 1) slot_NONE (Slot 2) 2 0,
      Const BFloat (Slot 3) 9,
      FloatBinary FMultiply colors_NONE (Slot 2) (Slot 0) (Slot 3),
      Mix (Colors 3) (Slot 4) (Slot 7) (Slot 7) (Slot 1)]"

definition sample_blocks :: "nat list" where "sample_blocks = [0, 5]"

lemma sample_allocated:
  "allocate sample_code (Slot 4) sample_blocks =
     Some ([Const BInt (Slot 0) 0, Const BInt (Slot 1) 4, Const BFloat (Slot 0) 7,
        Reduce RedSum BFloat (Slot 3) (Slot 2) (Slot 0) (Slot 1) slot_NONE (Slot 2) 2 0,
        Const BFloat (Slot 1) 9, FloatBinary FMultiply colors_NONE (Slot 2) (Slot 0) (Slot 1),
        Mix (Colors 3) (Slot 7) (Slot 4) (Slot 4) (Slot 3)], Slot 7,
       \<lparr>floats = 10, ints = 3, bools = 0, resource_slots = 0\<rparr>,
       \<lparr>floats = 0, ints = 0, bools = 0, resource_slots = 0\<rparr>)"
  by code_simp

theorem allocation_keeps_apart_witness:
  "\<exists>g. map (rename_slots g) sample_code ! 6 = Mix (Colors 3) (Slot 7) (Slot 4) (Slot 4) (Slot 3) \<and>
     g BFloat (Slot 0) \<noteq> g BFloat (Slot 1)"
proof -
  have live: "live_at sample_code (Slot 4) sample_blocks BFloat (Slot 0) 6"
    "live_at sample_code (Slot 4) sample_blocks BFloat (Slot 1) 6" by code_simp+
  have keys: "slot_key BFloat (Slot 0) = Some (BFloat, False, 0)" "slot_key BFloat (Slot 1) = Some (BFloat, False, 1)"
    by (simp_all add: slot_key_def kind_scalar bank_storage_def)
  have fit: "fits \<lparr>floats = 10, ints = 3, bools = 0, resource_slots = 0\<rparr> SCALARS"
    "fits \<lparr>floats = 0, ints = 0, bools = 0, resource_slots = 0\<rparr> ROWS" by code_simp+
  obtain g where g: "[Const BInt (Slot 0) 0, Const BInt (Slot 1) 4, Const BFloat (Slot 0) 7,
        Reduce RedSum BFloat (Slot 3) (Slot 2) (Slot 0) (Slot 1) slot_NONE (Slot 2) 2 0,
        Const BFloat (Slot 1) 9, FloatBinary FMultiply colors_NONE (Slot 2) (Slot 0) (Slot 1),
        Mix (Colors 3) (Slot 7) (Slot 4) (Slot 4) (Slot 3)] = map (rename_slots g) sample_code"
    and apart: "\<And>at b s b' s' k k'. live_at sample_code (Slot 4) sample_blocks b s at \<Longrightarrow>
      live_at sample_code (Slot 4) sample_blocks b' s' at \<Longrightarrow> slot_key b s = Some k \<Longrightarrow>
      slot_key b' s' = Some k' \<Longrightarrow> key_group k = key_group k' \<Longrightarrow> k \<noteq> k' \<Longrightarrow> g b s \<noteq> g b' s'"
    using allocation_keeps_apart [OF sample_allocated fit] by (elim exE conjE) meson
  have "g BFloat (Slot 0) \<noteq> g BFloat (Slot 1)" by (rule apart [OF live keys]) simp_all
  moreover have "map (rename_slots g) sample_code ! 6 = Mix (Colors 3) (Slot 7) (Slot 4) (Slot 4) (Slot 3)"
    unfolding g [symmetric] by simp
  ultimately show ?thesis by blast
qed

text \<open>
  C25. Allocation never panics: whatever the code, \<open>allocate\<close> returns, with one instruction for
  each and every instruction as wide as before, so no jump length changes.
\<close>

theorem allocation_total:
  "\<exists>code' result' scalars rows. allocate code result blocks = Some (code', result', scalars, rows) \<and>
     map width code' = map width code \<and> map nested code' = map nested code"
  unfolding allocate_eq by (simp add: rename_keeps)

text \<open>
  Allocated code can be encoded: when the banks fit, every slot of every renamed instruction
  has a byte of its own in an instruction word.
\<close>

theorem allocation_encodable:
  assumes "allocate code result blocks = Some (code', result', scalars, rows)"
    and "fits scalars SCALARS" "fits rows ROWS" "list_all well_formed code"
  shows "list_all encodable code'"
  using assms rename_encodable [of code result blocks]
  unfolding allocate_eq by (auto simp: list_all_iff)

theorem allocation_encodable_witness:
  "list_all encodable [Const BInt (Slot 0) 0, Const BInt (Slot 1) 4, Const BFloat (Slot 0) 7,
        Reduce RedSum BFloat (Slot 3) (Slot 2) (Slot 0) (Slot 1) slot_NONE (Slot 2) 2 0,
        Const BFloat (Slot 1) 9, FloatBinary FMultiply colors_NONE (Slot 2) (Slot 0) (Slot 1),
        Mix (Colors 3) (Slot 7) (Slot 4) (Slot 4) (Slot 3)]"
  by (rule allocation_encodable [OF sample_allocated]) code_simp+

theorem live_between_witness: "live_at sample_code (Slot 4) sample_blocks BFloat (Slot 3) 6"
  by (rule live_between [where p = 5 and q = 6]) (code_simp | simp)+

theorem live_through_loop_witness: "live_at sample_code (Slot 4) sample_blocks BInt (Slot 1) 4"
  by (rule live_through_loop [where p = 1 and q = 6 and start = 3 and loop_end = 6]) (code_simp | simp)+

theorem live_past_block_witness: "live_at sample_code (Slot 4) sample_blocks BFloat (Slot 0) 8"
  by (rule live_past_block [where p = 2 and q = 6 and block_end = 5]) (code_simp | simp)+

end
