(* ===== verification/Emission.thy ===== *)
theory Emission
  imports Slots
begin

text \<open>
  The ends of code emission, \<open>crates/donder-language/src/compiler/lower/emit.rs\<close>: the
  virtual slots an emitter hands out and \<open>finish\<close>, which allocates slots, checks the
  limits of the word format and encodes the code. Selecting the instructions for a dataflow graph is
  not modelled: \<open>finish\<close> takes them as the source does.
\<close>

section \<open>The emitter\<close>

datatype lower_error = LowerRows u32 | LowerDepth u16 | LowerSlots | LowerCode | LowerLoops

record emitter =
  head_code :: "instruction list"
  next_slot :: "group \<Rightarrow> u16"
  emitter_params :: "ty list"
  emitter_resources :: "val list"
  emitter_enums :: "ident list"
  scan_count :: u16
  deepest :: u16
  lower_failure :: "lower_error option"

definition fail :: "lower_error \<Rightarrow> emitter \<Rightarrow> emitter" where
  "fail e m = (case lower_failure m of None \<Rightarrow> m\<lparr>lower_failure := Some e\<rparr> | Some _ \<Rightarrow> m)"

definition saturating_add16 :: "u16 \<Rightarrow> u16 \<Rightarrow> u16" where
  "saturating_add16 a b = (if unat a + unat b < 2 ^ 16 then a + b else - 1)"

definition fresh :: "bank \<Rightarrow> bool \<Rightarrow> emitter \<Rightarrow> slot \<times> emitter" where
  "fresh b row m =
     (let g = (bank_storage b, row);
          index = next_slot m g;
          m = m\<lparr>next_slot := (next_slot m)(g := saturating_add16 index (bank_width b))\<rparr>;
          m = (if unat index + unat (bank_width b) > unat VIRTUAL then fail LowerSlots m else m)
      in (if row then slot_row index else slot_scalar index, m))"

definition emitter_length :: "instruction list \<Rightarrow> emitter \<Rightarrow> u16 \<times> emitter" where
  "emitter_length code m =
     (if code_words code < 2 ^ 16 then (of_nat (code_words code), m) else (0, fail LowerCode m))"

definition finish ::
  "emitter \<Rightarrow> instruction list \<Rightarrow> instruction list \<Rightarrow> instruction list \<Rightarrow> slot \<Rightarrow>
     (lower_error + bytecode_program) option" where
  "finish m query target body result =
     (let code = head_code m @ query;
          at_query = code_words code;
          code = code @ target;
          at_target = code_words code;
          code = code @ body
      in case lower_failure m of
           Some e \<Rightarrow> Some (Inl e)
         | None \<Rightarrow>
             if \<not> (at_query < 2 ^ 16 \<and> at_target < 2 ^ 16 \<and> code_words code < 2 ^ 16)
             then Some (Inl LowerCode)
             else do {
               (code, result, scalars, rows) \<leftarrow> allocate code result [at_query, at_target];
               Some (if \<not> fits scalars SCALARS \<or> \<not> fits rows ROWS then Inl LowerSlots
                     else if banks_row_bytes rows > MAX_ROW_BYTES then Inl (LowerRows (banks_row_bytes rows))
                     else if deepest m > MAX_DEPTH then Inl (LowerDepth (deepest m))
                     else Inr \<lparr>program_params = emitter_params m, program_code = emit code,
                       query_end = of_nat at_query, target_end = of_nat at_target,
                       program_result = result, program_scalars = scalars, program_rows = rows,
                       program_depth = deepest m, program_resources = emitter_resources m,
                       program_enums = emitter_enums m, program_scans = scan_count m\<rparr>) })"

section \<open>Fresh slots\<close>

lemma bank_width_pos: "0 < unat (bank_width b)" "unat (bank_width b) \<le> 3"
  by (cases b; simp add: bank_width_def)+

lemma unat_saturating_add16: "unat (saturating_add16 a b) = min 65535 (unat a + unat b)"
proof (cases "unat a + unat b < 2 ^ 16")
  case True
  then show ?thesis by (simp add: saturating_add16_def unat_word_ariths)
next
  case False
  then show ?thesis by (simp add: saturating_add16_def unsigned_minus_1_eq_mask mask_eq_exp_minus_1)
qed

lemma unat_VIRTUAL: "unat VIRTUAL = 16383"
  by (simp add: VIRTUAL_def INDEX_def INPUT_def)

lemma fail_fields [simp]: "next_slot (fail e m) = next_slot m" "lower_failure (fail e m) \<noteq> None"
  by (simp_all add: fail_def split: option.split)

text \<open>
  A run of requests: each fresh slot names the start of its range, ranges of one storage
  bank and kind never meet, and an emitter that did not fail stayed below the limit.
\<close>

fun fresh_all :: "(bank \<times> bool) list \<Rightarrow> emitter \<Rightarrow> slot list \<times> emitter" where
  "fresh_all [] m = ([], m)"
| "fresh_all ((b, row) # rs) m =
     (let (s, m) = fresh b row m; (ss, m) = fresh_all rs m in (s # ss, m))"

lemma fresh_next:
  assumes "fresh b row m = (s, m')"
  shows "unat (next_slot m' g) =
    (if g = (bank_storage b, row) then min 65535 (unat (next_slot m g) + unat (bank_width b))
     else unat (next_slot m g))"
  using assms by (auto simp: fresh_def Let_def unat_saturating_add16)

lemma fresh_failure:
  assumes "fresh b row m = (s, m')" "lower_failure m' = None"
  shows "lower_failure m = None"
    "unat (next_slot m (bank_storage b, row)) + unat (bank_width b) \<le> 16383"
  using assms by (auto simp: fresh_def Let_def unat_VIRTUAL split: if_splits)

lemma fresh_key:
  assumes "fresh b row m = (s, m')" "lower_failure m' = None"
  shows "slot_key b s = Some (bank_storage b, row, next_slot m (bank_storage b, row))"
proof -
  have "unat (next_slot m (bank_storage b, row)) < 16384"
    using fresh_failure [OF assms] bank_width_pos [of b] by simp
  with assms(1) show ?thesis
    by (auto simp: fresh_def Let_def slot_key_def kind_row kind_scalar slot_scalar_def masked_index)
qed

text \<open>The virtual indices a slot of a bank takes: three for a color.\<close>

definition slot_range :: "bank \<Rightarrow> slot \<Rightarrow> nat set" where
  "slot_range b s =
     (case slot_key b s of None \<Rightarrow> {}
      | Some k \<Rightarrow> {unat (key_index k)..<unat (key_index k) + unat (bank_width b)})"

definition slots_apart :: "(bank \<times> bool) \<times> slot \<Rightarrow> (bank \<times> bool) \<times> slot \<Rightarrow> bool" where
  "slots_apart p q =
     (case (p, q) of (((b, row), s), ((b', row'), s')) \<Rightarrow>
        bank_storage b = bank_storage b' \<and> row = row' \<longrightarrow> disjnt (slot_range b s) (slot_range b' s'))"

lemma fresh_all_failure: "fresh_all rs m = (ss, m') \<Longrightarrow> lower_failure m' = None \<Longrightarrow> lower_failure m = None"
proof (induction rs arbitrary: m ss)
  case (Cons r rs)
  obtain b row where r: "r = (b, row)" by (cases r)
  obtain s m1 where f: "fresh b row m = (s, m1)" by (cases "fresh b row m")
  obtain ss1 where rest: "fresh_all rs m1 = (ss1, m')" using Cons.prems(1) f by (auto simp: r split: prod.splits)
  from Cons.IH [OF rest Cons.prems(2)] fresh_failure [OF f] show ?case by blast
qed simp

lemma fresh_all_from:
  "fresh_all rs m = (ss, m') \<Longrightarrow> lower_failure m' = None \<Longrightarrow> ((b, row), s) \<in> set (zip rs ss) \<Longrightarrow>
   n \<in> slot_range b s \<Longrightarrow> unat (next_slot m (bank_storage b, row)) \<le> n"
proof (induction rs arbitrary: m ss)
  case (Cons r rs)
  obtain b1 row1 where r: "r = (b1, row1)" by (cases r)
  obtain s1 m1 where f: "fresh b1 row1 m = (s1, m1)" by (cases "fresh b1 row1 m")
  obtain ss1 where rest: "fresh_all rs m1 = (ss1, m')" and ss: "ss = s1 # ss1"
    using Cons.prems(1) f by (auto simp: r split: prod.splits)
  note m1 = fresh_all_failure [OF rest Cons.prems(2)]
  from Cons.prems(3) consider "b = b1" "row = row1" "s = s1" | "((b, row), s) \<in> set (zip rs ss1)"
    by (auto simp: ss r)
  then show ?case
  proof cases
    case 1
    then show ?thesis using Cons.prems(4) fresh_key [OF f m1] by (simp add: slot_range_def)
  next
    case 2
    from Cons.IH [OF rest Cons.prems(2) 2 Cons.prems(4)] fresh_next [OF f, of "(bank_storage b, row)"]
      fresh_failure(2) [OF f m1]
    show ?thesis by (simp split: if_splits)
  qed
qed simp

lemma fresh_all_apart:
  "fresh_all rs m = (ss, m') \<Longrightarrow> lower_failure m' = None \<Longrightarrow> sorted_wrt slots_apart (zip rs ss)"
proof (induction rs arbitrary: m ss)
  case (Cons r rs)
  obtain b row where r: "r = (b, row)" by (cases r)
  obtain s m1 where f: "fresh b row m = (s, m1)" by (cases "fresh b row m")
  obtain ss1 where rest: "fresh_all rs m1 = (ss1, m')" and ss: "ss = s # ss1"
    using Cons.prems(1) f by (auto simp: r split: prod.splits)
  note m1 = fresh_all_failure [OF rest Cons.prems(2)]
  have "slots_apart (r, s) q" if q: "q \<in> set (zip rs ss1)" for q
  proof -
    obtain b' row' s' where q': "q = ((b', row'), s')" by (cases q) auto
    have "n < unat (next_slot m1 (bank_storage b, row))" if "n \<in> slot_range b s" for n
      using that fresh_key [OF f m1] fresh_next [OF f, of "(bank_storage b, row)"] fresh_failure(2) [OF f m1]
      by (simp add: slot_range_def)
    then show ?thesis
      using fresh_all_from [OF rest Cons.prems(2) q [unfolded q']]
      by (fastforce simp: slots_apart_def q' r disjnt_iff)
  qed
  then show ?case using Cons.IH [OF rest Cons.prems(2)] by (simp add: ss)
qed simp

section \<open>Finished programs\<close>

text \<open>What a finished program holds: the emitted code, renamed.\<close>

lemma finish_ok:
  assumes "finish m query target body result = Some (Inr p)"
  defines "code \<equiv> head_code m @ query @ target @ body"
    and "blocks \<equiv> [code_words (head_code m @ query), code_words (head_code m @ query @ target)]"
  shows "program_code p = emit (map (rename_slots (renamed (rename_of code result blocks))) code)"
    "query_end p = of_nat (code_words (head_code m @ query))"
    "target_end p = of_nat (code_words (head_code m @ query @ target))"
    "code_words code < 2 ^ 16"
    "fits (lane_counts (scan_of code result blocks) False) SCALARS"
    "fits (lane_counts (scan_of code result blocks) True) ROWS"
    "program_scalars p = lane_counts (scan_of code result blocks) False"
    "program_rows p = lane_counts (scan_of code result blocks) True"
    "banks_row_bytes (program_rows p) \<le> MAX_ROW_BYTES" "program_depth p \<le> MAX_DEPTH"
    "program_result p = renamed (rename_of code result blocks) BColor result"
  using assms(1) unfolding code_def blocks_def
  by (auto simp: finish_def Let_def allocate_eq split: option.splits if_splits)

lemma code_words_append: "code_words (is @ js) = code_words is + code_words js"
  by (simp add: code_words_def)

lemma length_emit: "length (emit is) = code_words is"
  by (induction "is") (simp_all add: emit_concat code_words_def length_encode_words)

lemma code_words_rename [simp]: "code_words (map (rename_slots g) is) = code_words is"
  by (simp add: code_words_def comp_def)

lemma finish_reads_back:
  assumes p: "finish m query target body result = Some (Inr p)"
    and wf: "list_all well_formed (head_code m @ query @ target @ body)"
  shows "\<exists>rename. program_instructions p =
        Some (map (rename_slots rename) (head_code m @ query @ target @ body)) \<and>
      query_block p = Some (emit (map (rename_slots rename) (head_code m @ query))) \<and>
      target_block p = Some (emit (map (rename_slots rename) target)) \<and>
      body_block p = Some (emit (map (rename_slots rename) body))"
proof (intro exI conjI)
  let ?code = "head_code m @ query @ target @ body"
  let ?blocks = "[code_words (head_code m @ query), code_words (head_code m @ query @ target)]"
  let ?g = "renamed (rename_of ?code result ?blocks)"
  note ok = finish_ok [OF p]
  have "list_all encodable (map (rename_slots ?g) ?code)"
    using wf rename_encodable [OF ok(5,6)] unfolding list_all_iff by fastforce
  then show "program_instructions p = Some (map (rename_slots ?g) ?code)"
    unfolding program_instructions_def ok(1) by (rule instructions_emit)
  have "code_words (head_code m @ query) < 2 ^ 16" "code_words (head_code m @ query @ target) < 2 ^ 16"
    using ok(4) by (simp_all add: code_words_append)
  then have ends: "unat (query_end p) = code_words (head_code m @ query)"
    "unat (target_end p) = code_words (head_code m @ query @ target)"
    unfolding ok(2,3) by (simp_all add: unat_of_nat)
  note simps = slice_def ends ok(1) emit_append length_emit code_words_append
  show "query_block p = Some (emit (map (rename_slots ?g) (head_code m @ query)))"
    by (simp add: query_block_def simps)
  show "target_block p = Some (emit (map (rename_slots ?g) target))"
    by (simp add: target_block_def simps)
  show "body_block p = Some (emit (map (rename_slots ?g) body))"
    by (simp add: body_block_def simps)
qed

section \<open>Failures while emitting\<close>

text \<open>
  What emission does that may fail: it requests a slot, measures the code of a construct, or notes an
  error itself. \<open>emission_error\<close> is the error one such step finds and
  \<open>first_error\<close> the first one of a sequence.
\<close>

datatype emission = Request bank bool | Measure "instruction list" | Note lower_error

definition emission_step :: "emission \<Rightarrow> emitter \<Rightarrow> emitter" where
  "emission_step e m =
     (case e of
        Request b row \<Rightarrow> snd (fresh b row m)
      | Measure code \<Rightarrow> snd (emitter_length code m)
      | Note x \<Rightarrow> fail x m)"

definition emission_error :: "emission \<Rightarrow> emitter \<Rightarrow> lower_error option" where
  "emission_error e m =
     (case e of
        Request b row \<Rightarrow>
          if unat (next_slot m (bank_storage b, row)) + unat (bank_width b) > unat VIRTUAL
          then Some LowerSlots else None
      | Measure code \<Rightarrow> if code_words code < 2 ^ 16 then None else Some LowerCode
      | Note x \<Rightarrow> Some x)"

fun first_error :: "emission list \<Rightarrow> emitter \<Rightarrow> lower_error option" where
  "first_error [] m = None"
| "first_error (e # es) m =
     (case emission_error e m of Some x \<Rightarrow> Some x | None \<Rightarrow> first_error es (emission_step e m))"

lemma fail_failure:
  "lower_failure (fail x m) = (case lower_failure m of Some y \<Rightarrow> Some y | None \<Rightarrow> Some x)"
  by (simp add: fail_def split: option.split)

lemma fail_head [simp]: "head_code (fail x m) = head_code m"
  by (simp add: fail_def split: option.split)

lemma emission_step_failure:
  "lower_failure (emission_step e m) =
     (case lower_failure m of Some x \<Rightarrow> Some x | None \<Rightarrow> emission_error e m)"
  by (cases e) (simp_all add: emission_step_def emission_error_def fresh_def emitter_length_def Let_def
      fail_failure split: option.split)

lemma emission_step_head [simp]: "head_code (emission_step e m) = head_code m"
  by (cases e) (simp_all add: emission_step_def fresh_def emitter_length_def Let_def)

lemma emissions_head [simp]: "head_code (fold emission_step es m) = head_code m"
  by (induction es arbitrary: m) simp_all

lemma emissions_failure:
  "lower_failure (fold emission_step es m) =
     (case lower_failure m of Some x \<Rightarrow> Some x | None \<Rightarrow> first_error es m)"
proof (induction es arbitrary: m)
  case (Cons e es)
  then show ?case by (simp add: emission_step_failure split: option.split)
qed (simp split: option.split)

lemma finish_returns:
  "\<exists>r. finish m query target body result = Some r \<and>
     (case lower_failure m of
        Some e \<Rightarrow> r = Inl e
      | None \<Rightarrow> (if 2 ^ 16 \<le> code_words (head_code m @ query @ target @ body) then r = Inl LowerCode
                 else r \<noteq> Inl LowerCode \<and> r \<noteq> Inl LowerLoops))"
proof (cases "lower_failure m")
  case None
  let ?code = "head_code m @ query @ target @ body"
  let ?blocks = "[code_words (head_code m @ query), code_words (head_code m @ query @ target)]"
  obtain code' result' scalars rows where a: "allocate ?code result ?blocks = Some (code', result', scalars, rows)"
    unfolding allocate_eq by blast
  have below: "code_words (head_code m @ query) \<le> code_words ?code"
    "code_words (head_code m @ query @ target) \<le> code_words ?code"
    by (simp_all add: code_words_append)
  show ?thesis
  proof (cases "code_words ?code < 2 ^ 16")
    case True
    with below have "code_words (head_code m @ query) < 2 ^ 16 \<and> code_words (head_code m @ query @ target) < 2 ^ 16"
      by (simp only: le_less_trans simp_thms)
    with True None a show ?thesis by (simp add: finish_def Let_def)
  next
    case False
    with None show ?thesis by (simp add: finish_def Let_def)
  qed
qed (simp add: finish_def Let_def)

section \<open>What lowering guarantees\<close>

text \<open>A small program: two invariant slots, a query, and a body over them.\<close>

definition sample_emitter :: emitter where
  "sample_emitter =
     \<lparr>head_code = [Const BFloat (Slot 0) 7], next_slot = (\<lambda>g. 9), emitter_params = [TFloat],
      emitter_resources = [], emitter_enums = [], scan_count = 0, deepest = 1, lower_failure = None\<rparr>"

definition sample_query :: "instruction list" where
  "sample_query = [Const BInt (Slot 0) 1]"

definition sample_body :: "instruction list" where
  "sample_body = [Mix (Colors 3) (Slot 3) (Slot 6) (Slot 6) (Slot 0)]"

text \<open>
  C2. The compiler's output reads back: a program \<open>finish\<close> returns decodes, whole and block by
  block, to the code the emitter collected under one renaming of its slots.
\<close>

theorem program_reads_back:
  assumes "finish m query target body result = Some (Inr p)"
    and "list_all well_formed (head_code m @ query @ target @ body)"
  shows "\<exists>rename. program_instructions p =
        Some (map (rename_slots rename) (head_code m @ query @ target @ body)) \<and>
      query_block p = Some (emit (map (rename_slots rename) (head_code m @ query))) \<and>
      target_block p = Some (emit (map (rename_slots rename) target)) \<and>
      body_block p = Some (emit (map (rename_slots rename) body))"
  using assms by (rule finish_reads_back)

lemma sample_allocation:
  "allocate (head_code sample_emitter @ sample_query @ [] @ sample_body) (Slot 3) [2, 2] =
     Some ([Const BFloat (Slot 0) 7, Const BInt (Slot 0) 1, Mix (Colors 3) (Slot 4) (Slot 1) (Slot 1) (Slot 0)], Slot 4,
       \<lparr>floats = 7, ints = 1, bools = 0, resource_slots = 0\<rparr>, \<lparr>floats = 0, ints = 0, bools = 0, resource_slots = 0\<rparr>)"
  by code_simp

definition sample_program :: bytecode_program where
  "sample_program =
     \<lparr>program_params = [TFloat],
      program_code = emit [Const BFloat (Slot 0) 7, Const BInt (Slot 0) 1, Mix (Colors 3) (Slot 4) (Slot 1) (Slot 1) (Slot 0)],
      query_end = 2, target_end = 2, program_result = Slot 4,
      program_scalars = \<lparr>floats = 7, ints = 1, bools = 0, resource_slots = 0\<rparr>,
      program_rows = \<lparr>floats = 0, ints = 0, bools = 0, resource_slots = 0\<rparr>,
      program_depth = 1, program_resources = [], program_enums = [], program_scans = 0\<rparr>"

lemma sample_finished: "finish sample_emitter sample_query [] sample_body (Slot 3) = Some (Inr sample_program)"
proof -
  have words: "code_words (head_code sample_emitter @ sample_query) = 2"
    "code_words ((head_code sample_emitter @ sample_query) @ []) = 2"
    "code_words (((head_code sample_emitter @ sample_query) @ []) @ sample_body) = 3" by code_simp+
  have fit: "fits \<lparr>floats = 7, ints = 1, bools = 0, resource_slots = 0\<rparr> SCALARS"
    "fits \<lparr>floats = 0, ints = 0, bools = 0, resource_slots = 0\<rparr> ROWS"
    "\<not> banks_row_bytes \<lparr>floats = 0, ints = 0, bools = 0, resource_slots = 0\<rparr> > MAX_ROW_BYTES" by code_simp+
  have "lower_failure sample_emitter = None" "\<not> deepest sample_emitter > MAX_DEPTH"
    by (simp_all add: sample_emitter_def MAX_DEPTH_def)
  then show ?thesis unfolding finish_def Let_def words using sample_allocation fit
    by (simp add: sample_program_def) (simp add: sample_emitter_def)
qed

theorem program_reads_back_witness:
  "\<exists>rename. body_block sample_program = Some (emit (map (rename_slots rename) sample_body))"
proof -
  have "list_all well_formed (head_code sample_emitter @ sample_query @ [] @ sample_body)" by code_simp
  from program_reads_back [OF sample_finished this] show ?thesis by blast
qed

text \<open>
  C24. A program that lowering accepts keeps every limit of the machine: 65535 words of code, the
  scalar and row slots of each bank, the bytes of its rows and the depth of its constructs.
\<close>

theorem program_within_limits:
  assumes "finish m query target body result = Some (Inr p)"
  shows "length (program_code p) < 2 ^ 16 \<and> unat (query_end p) \<le> unat (target_end p) \<and>
    unat (target_end p) \<le> length (program_code p) \<and>
    fits (program_scalars p) SCALARS \<and> fits (program_rows p) ROWS \<and>
    banks_row_bytes (program_rows p) \<le> MAX_ROW_BYTES \<and> program_depth p \<le> MAX_DEPTH"
proof -
  note ok = finish_ok [OF assms]
  have n: "length (program_code p) = code_words (head_code m @ query @ target @ body)"
    unfolding ok(1) by (simp only: length_emit code_words_rename)
  have q: "unat (of_nat (code_words (head_code m @ query)) :: u16) = code_words (head_code m @ query)"
    and t: "unat (of_nat (code_words (head_code m @ query @ target)) :: u16) = code_words (head_code m @ query @ target)"
    using ok(4) by (simp_all only: code_words_append unat_of_nat) simp_all
  show ?thesis unfolding n ok(2) ok(3) q t using ok(4-10)
    by (simp add: code_words_append)
qed

theorem program_within_limits_witness:
  "length (program_code sample_program) < 2 ^ 16 \<and> banks_row_bytes (program_rows sample_program) \<le> MAX_ROW_BYTES"
  using program_within_limits [OF sample_finished] by blast

text \<open>
  C26. Lowering always answers: \<open>finish\<close> neither panics nor runs on. After any sequence of slot
  requests, measured constructs and noted errors it reports the first failure among them, and later
  ones never replace it; without one, code that is too long is refused as such.
\<close>

theorem finish_answers:
  "\<exists>r. finish (fold emission_step es m) query target body result = Some r \<and>
     (case (case lower_failure m of Some e \<Rightarrow> Some e | None \<Rightarrow> first_error es m) of
        Some e \<Rightarrow> r = Inl e
      | None \<Rightarrow> (if 2 ^ 16 \<le> code_words (head_code m @ query @ target @ body) then r = Inl LowerCode
                 else r \<noteq> Inl LowerCode \<and> r \<noteq> Inl LowerLoops))"
  using finish_returns [of "fold emission_step es m" query target body result]
  by (simp only: emissions_failure emissions_head)

text \<open>
  C25. Slots handed out by \<open>fresh\<close> never overlap: of any values requested in turn from an emitter
  that stays in range, two of one bank and kind own disjoint runs of slots, a color three of them.
\<close>

theorem fresh_slots_apart:
  assumes "fresh_all requests m = (ss, m')" "lower_failure m' = None"
  shows "sorted_wrt slots_apart (zip requests ss)"
  using assms by (rule fresh_all_apart)

theorem fresh_slots_apart_witness:
  "sorted_wrt slots_apart (zip [(BColor, False), (BFloat, False)] (fst (fresh_all [(BColor, False), (BFloat, False)] sample_emitter)))"
  by (rule fresh_slots_apart [OF surjective_pairing])
    (simp add: fresh_def sample_emitter_def unat_VIRTUAL bank_width_def saturating_add16_def fail_def bank_storage_def)

end
