(* ===== verification/ShowTime.thy ===== *)
theory ShowTime
  imports Prelude
begin

unbundle bit_operations_syntax

text \<open>
  The show clock: exact scaling in 32-bit arithmetic
  (\<open>crates/donder-runtime-types/src/values.rs\<close>) and the playback rates every host
  shares (\<open>crates/donder-runtime/src/playback_rate.rs\<close>). Times are microseconds in a
  \<open>u32\<close>.
\<close>

section \<open>Scaling\<close>

definition MICROS_PER_SECOND :: u32 where "MICROS_PER_SECOND = 1000000"

datatype sample_time_error = InvalidFrameRate | NotFinite | Negative | OutOfRange

definition wide_mul :: "u32 \<Rightarrow> u32 \<Rightarrow> u32 \<times> u32" where
  "wide_mul a b =
     (let a1 = drop_bit 16 a; a0 = a AND 0xffff;
          b1 = drop_bit 16 b; b0 = b AND 0xffff;
          low = a0 * b0;
          cross1 = a0 * b1; cross2 = a1 * b0;
          middle = drop_bit 16 low + (cross1 AND 0xffff) + (cross2 AND 0xffff);
          high = a1 * b1 + drop_bit 16 cross1 + drop_bit 16 cross2 + drop_bit 16 middle
      in (high, (low AND 0xffff) OR push_bit 16 middle))"

fun divide_bits :: "nat \<Rightarrow> u32 \<Rightarrow> u32 \<Rightarrow> u32 \<Rightarrow> u32 \<Rightarrow> u32 \<times> u32" where
  "divide_bits 0 denominator high low quot = (quot, high)"
| "divide_bits (Suc bits) denominator high low quot =
     (let carry = drop_bit 31 high;
          high = push_bit 1 high OR drop_bit 31 low;
          low = push_bit 1 low;
          quot = push_bit 1 quot
      in if carry \<noteq> 0 \<or> high \<ge> denominator
         then divide_bits bits denominator (high - denominator) low (quot OR 1)
         else divide_bits bits denominator high low quot)"

definition mul_div :: "u32 \<Rightarrow> u32 \<Rightarrow> u32 \<Rightarrow> (u32 \<times> u32) option" where
  "mul_div val numerator denominator =
     (let (high, low) = wide_mul val numerator
      in if denominator = 0 \<or> high \<ge> denominator then None
         else Some (divide_bits 32 denominator high low 0))"

definition sample_time_from_frame :: "u32 \<Rightarrow> u32 \<Rightarrow> sample_time_error + u32" where
  "sample_time_from_frame frame frame_rate =
     (if frame_rate = 0 then Inl InvalidFrameRate
      else case mul_div frame MICROS_PER_SECOND frame_rate of
             None \<Rightarrow> Inl OutOfRange
           | Some (ticks, _) \<Rightarrow> Inr ticks)"

definition checked_add_duration :: "u32 \<Rightarrow> u32 \<Rightarrow> u32 option" where
  "checked_add_duration time duration = checked_add32 time duration"

section \<open>Playback rates\<close>

datatype frame_timing = Scaled | Constant

text \<open>\<open>NonZeroU32\<close>: the rate's constructor takes no zero.\<close>

record playback_rate =
  show_micros_per_second :: u32
  frame_timing :: frame_timing

definition rate_NORMAL :: playback_rate where
  "rate_NORMAL = \<lparr>show_micros_per_second = MICROS_PER_SECOND, frame_timing = Scaled\<rparr>"

definition scale :: "u32 \<Rightarrow> u32 \<Rightarrow> u32 \<Rightarrow> u32" where
  "scale val numerator denominator =
     (case mul_div val numerator denominator of None \<Rightarrow> - 1 | Some (quot, _) \<Rightarrow> quot)"

definition scale_ceil :: "u32 \<Rightarrow> u32 \<Rightarrow> u32 \<Rightarrow> u32" where
  "scale_ceil val numerator denominator =
     (case mul_div val numerator denominator of
        None \<Rightarrow> - 1
      | Some (quot, rest) \<Rightarrow> saturating_add32 quot (if rest \<noteq> 0 then 1 else 0))"

definition frame_grid_divisor :: "playback_rate \<Rightarrow> u32" where
  "frame_grid_divisor r =
     (case frame_timing r of Scaled \<Rightarrow> MICROS_PER_SECOND | Constant \<Rightarrow> show_micros_per_second r)"

definition show_elapsed :: "playback_rate \<Rightarrow> u32 \<Rightarrow> u32" where
  "show_elapsed r wall = scale wall (show_micros_per_second r) MICROS_PER_SECOND"

definition wall_elapsed :: "playback_rate \<Rightarrow> u32 \<Rightarrow> u32" where
  "wall_elapsed r show_time = scale_ceil show_time MICROS_PER_SECOND (show_micros_per_second r)"

definition frame_at :: "playback_rate \<Rightarrow> u32 \<Rightarrow> u32 \<Rightarrow> u32" where
  "frame_at r pos frame_rate = scale pos frame_rate (frame_grid_divisor r)"

definition frame_start :: "playback_rate \<Rightarrow> u32 \<Rightarrow> u32 \<Rightarrow> u32" where
  "frame_start r frame frame_rate = scale_ceil frame (frame_grid_divisor r) (max frame_rate 1)"

section \<open>The wide product is exact\<close>

lemma unat_low_half: "unat (a AND 0xffff :: u32) = unat a mod 65536"
proof -
  have "(0xffff :: u32) = mask 16" by (simp add: mask_eq_exp_minus_1)
  then have "unat (a AND 0xffff) = unat (take_bit 16 a)" by (simp only: take_bit_eq_mask)
  also have "\<dots> = unat a mod 65536" by (subst unsigned_take_bit_eq) (simp add: take_bit_eq_mod)
  finally show ?thesis .
qed

lemma unat_high_half: "unat (drop_bit n (a :: u32)) = unat a div 2 ^ n"
  by (subst unsigned_drop_bit_eq) (simp add: drop_bit_eq_div take_bit_nat_eq_self)

lemma unat_mult_small: "unat (a :: u32) * unat b < 2 ^ 32 \<Longrightarrow> unat (a * b) = unat a * unat b"
  by (simp add: unat_word_ariths)

lemma unat_add_small: "unat (a :: u32) + unat b < 2 ^ 32 \<Longrightarrow> unat (a + b) = unat a + unat b"
  by (simp add: unat_word_ariths)

lemma half_product:
  assumes "(x :: nat) < 65536" "y < 65536"
  shows "x * y \<le> 65535 * 65535"
  using mult_le_mono [of x 65535 y 65535] assms by simp

lemma unat_or_push:
  assumes "unat (a :: u32) < 65536"
  shows "unat (a OR push_bit 16 b) = unat a + (unat b mod 65536) * 65536"
proof -
  have "\<not> bit a n \<or> \<not> bit (push_bit 16 b) n" for n
    using small_word_bit [of a 16 n] assms by (auto simp: bit_simps)
  then have "a OR push_bit 16 b = a + push_bit 16 b" by (subst disjunctive_add) auto
  moreover have "unat (push_bit 16 b) = (unat b mod 65536) * 65536"
    by (subst unsigned_push_bit_eq) (simp add: take_bit_eq_mod push_bit_eq_mult mult_mod_left)
  moreover have "(unat b mod 65536) * 65536 \<le> 65535 * 65536" by (rule mult_right_mono) auto
  ultimately show ?thesis using assms by (simp add: unat_word_ariths)
qed

lemma carry_total:
  "(p + q1 + q2 + mq) * s * s + (r + mr * s) = (p + q1 + q2) * s * s + (mq * s + mr) * s + (r :: nat)"
  by (simp add: algebra_simps)

lemma cross_total:
  "(p + q1 + q2) * s * s + (q0 + r1 + r2) * s + r0 =
     p * s * s + (q1 * s + r1) * s + (q2 * s + r2) * s + (q0 * s + (r0 :: nat))"
  by (simp add: algebra_simps)

lemma wide_mul_exact:
  assumes "wide_mul a b = (high, low)"
  shows "unat high * 2 ^ 32 + unat low = unat a * unat b"
proof -
  let ?S = "65536 :: nat"
  define A1 A0 B1 B0 where AB: "A1 = unat a div ?S" "A0 = unat a mod ?S" "B1 = unat b div ?S" "B0 = unat b mod ?S"
  have a: "unat a = A1 * ?S + A0" and b: "unat b = B1 * ?S + B0" by (simp_all add: AB)
  have small: "A1 < ?S" "A0 < ?S" "B1 < ?S" "B0 < ?S"
    using unat_lt32 [of a] unat_lt32 [of b] by (simp_all add: AB less_mult_imp_div_less)
  define a1 a0 b1 b0 where ab: "a1 = drop_bit 16 a" "a0 = a AND 0xffff" "b1 = drop_bit 16 b" "b0 = b AND 0xffff"
  have u: "unat a1 = A1" "unat a0 = A0" "unat b1 = B1" "unat b0 = B0"
    by (simp_all add: ab AB unat_low_half unat_high_half)
  note le = half_product
  have p: "unat (a0 * b0) = A0 * B0" "unat (a0 * b1) = A0 * B1" "unat (a1 * b0) = A1 * B0" "unat (a1 * b1) = A1 * B1"
    using le [of A0 B0] le [of A0 B1] le [of A1 B0] le [of A1 B1] small
    by (simp_all add: unat_mult_small u)
  define middle where "middle = drop_bit 16 (a0 * b0) + (a0 * b1 AND 0xffff) + (a1 * b0 AND 0xffff)"
  have pd: "A0 * B0 div ?S < ?S" using le [of A0 B0] small by (simp add: less_mult_imp_div_less)
  have c: "A0 * B1 mod ?S < ?S" "A1 * B0 mod ?S < ?S" by simp_all
  have m: "unat middle = A0 * B0 div ?S + A0 * B1 mod ?S + A1 * B0 mod ?S"
    unfolding middle_def using pd c by (simp add: unat_add_small unat_high_half unat_low_half p)
  define H L where "H = A1 * B1 + A0 * B1 div ?S + A1 * B0 div ?S + unat middle div ?S"
    and "L = A0 * B0 mod ?S + (unat middle mod ?S) * ?S"
  have split: "x div ?S * ?S + x mod ?S = x" for x by simp
  have "H * ?S * ?S + L = (A1 * B1 + A0 * B1 div ?S + A1 * B0 div ?S) * ?S * ?S +
      (unat middle div ?S * ?S + unat middle mod ?S) * ?S + A0 * B0 mod ?S"
    unfolding H_def L_def by (rule carry_total)
  also have "\<dots> = (A1 * B1 + A0 * B1 div ?S + A1 * B0 div ?S) * ?S * ?S +
      unat middle * ?S + A0 * B0 mod ?S"
    unfolding split ..
  also have "\<dots> = A1 * B1 * ?S * ?S + (A0 * B1 div ?S * ?S + A0 * B1 mod ?S) * ?S +
      (A1 * B0 div ?S * ?S + A1 * B0 mod ?S) * ?S + (A0 * B0 div ?S * ?S + A0 * B0 mod ?S)"
    unfolding m by (rule cross_total)
  also have "\<dots> = A1 * B1 * ?S * ?S + A0 * B1 * ?S + A1 * B0 * ?S + A0 * B0"
    unfolding split ..
  also have "\<dots> = unat a * unat b" by (simp add: a b algebra_simps)
  finally have total: "H * ?S * ?S + L = unat a * unat b" .
  have "unat a * unat b < 2 ^ 32 * 2 ^ 32"
    using mult_strict_mono [of "unat a" "2 ^ 32" "unat b" "2 ^ 32"] by simp
  with total have H: "H < 2 ^ 32" by simp
  have hl: "high = a1 * b1 + drop_bit 16 (a0 * b1) + drop_bit 16 (a1 * b0) + drop_bit 16 middle"
    "low = (a0 * b0 AND 0xffff) OR push_bit 16 middle"
    using assms by (simp_all add: wide_mul_def Let_def ab middle_def)
  have d: "unat (drop_bit 16 (a0 * b1)) = A0 * B1 div ?S" "unat (drop_bit 16 (a1 * b0)) = A1 * B0 div ?S"
    "unat (drop_bit 16 middle) = unat middle div ?S"
    by (simp_all only: unat_high_half p) simp_all
  have "unat (a1 * b1 + drop_bit 16 (a0 * b1)) = A1 * B1 + A0 * B1 div ?S"
    using H by (subst unat_add_small) (simp_all add: p d H_def)
  then have "unat (a1 * b1 + drop_bit 16 (a0 * b1) + drop_bit 16 (a1 * b0)) =
      A1 * B1 + A0 * B1 div ?S + A1 * B0 div ?S"
    using H by (subst unat_add_small) (simp_all add: d H_def)
  then have "unat high = H"
    unfolding hl(1) using H by (subst unat_add_small) (simp_all add: d H_def)
  moreover have "unat low = L"
    unfolding hl(2) by (subst unat_or_push) (simp_all add: unat_low_half p L_def)
  ultimately show ?thesis using total by simp
qed

section \<open>The division is exact\<close>

text \<open>
  With \<open>n\<close> bits to go, \<open>low\<close> holds the rest \<open>r\<close> of the dividend in its top bits and
  \<open>high\<close> the remainder so far.
\<close>

lemma shift_in:
  assumes "unat (low :: u32) = r * 2 ^ (31 - n)" "r < 2 ^ Suc n" "n < 32"
  shows "unat (push_bit 1 high OR drop_bit 31 low :: u32) = (2 * unat high + r div 2 ^ n) mod 2 ^ 32"
    and "unat (push_bit 1 low) = (r mod 2 ^ n) * 2 ^ (32 - n)" and "r div 2 ^ n < 2"
proof -
  show b: "r div 2 ^ n < 2" using assms(2) by (simp add: less_mult_imp_div_less)
  have e: "2 ^ 31 = 2 ^ n * (2 :: nat) ^ (31 - n)" using assms(3) by (simp flip: power_add)
  have d: "unat (drop_bit 31 low) = r div 2 ^ n"
    unfolding unat_high_half assms(1) e by simp
  have "\<not> bit (push_bit 1 high) k \<or> \<not> bit (drop_bit 31 low) k" for k
    using small_word_bit [of "drop_bit 31 low" 1 k] b d by (simp only: bit_push_bit_iff) auto
  then have "push_bit 1 high OR drop_bit 31 low = push_bit 1 high + drop_bit 31 low"
    by (subst disjunctive_add) auto
  then show "unat (push_bit 1 high OR drop_bit 31 low :: u32) = (2 * unat high + r div 2 ^ n) mod 2 ^ 32"
    by (simp add: unat_word_ariths d mod_simps mult.commute)
  have "unat (push_bit 1 low) = (unat low * 2) mod 2 ^ 32"
    by (simp add: unat_word_ariths)
  also have "unat low * 2 = r * 2 ^ (32 - n)"
  proof -
    have "32 - n = Suc (31 - n)" using assms(3) by simp
    then show ?thesis unfolding assms(1) by simp
  qed
  also have "(2 :: nat) ^ 32 = 2 ^ n * 2 ^ (32 - n)" using assms(3) by (simp flip: power_add)
  finally show "unat (push_bit 1 low) = (r mod 2 ^ n) * 2 ^ (32 - n)" by (simp add: mult_mod_left)
qed

lemma even_carry: "\<not> 2 * x + b < 2 ^ 32 \<Longrightarrow> (b :: nat) < 2 \<Longrightarrow> 2 ^ 32 \<le> 2 * (x :: nat)"
  by simp

lemma borrow: "(d :: nat) \<le> x \<Longrightarrow> d \<le> s \<Longrightarrow> x + (s - d) = (x - d) + s"
  by simp

lemma wrapped_sub:
  assumes "(h :: nat) < s" "d < s"
  shows "(if d \<le> h then h - d else h + s - d) = (h + (s - d)) mod s"
proof (cases "d \<le> h")
  case True
  then have e: "h + (s - d) = (h - d) + s" using assms by simp
  have "(h + (s - d)) mod s = h - d" unfolding e using assms by simp
  with True show ?thesis by simp
qed (use assms in simp)

lemma subtracted: "(d :: nat) \<le> x \<Longrightarrow> x * p + r = ((x - d) * p + r) + p * d"
  by (metis add.commute add.left_commute add_mult_distrib le_add_diff_inverse mult.commute)

lemma div_step:
  assumes "(d :: nat) \<le> x" "0 < d"
  shows "(x * p + r) div d = p + ((x - d) * p + r) div d \<and> (x * p + r) mod d = ((x - d) * p + r) mod d"
  unfolding subtracted [OF assms(1)]
  by (simp only: div_mult_self1 [OF less_imp_neq [OF assms(2), symmetric]] mod_mult_self1)

lemma ceil_inexact:
  assumes "p = q * d + m" "0 < m" "m < (d :: nat)"
  shows "(p + d - 1) div d = q + 1"
proof -
  have "p + d - 1 = (m - 1) + (q + 1) * d" using assms by (simp add: algebra_simps)
  moreover have "m - 1 < d" using assms by simp
  ultimately show ?thesis using assms by (simp only: div_mult_self1) simp
qed

lemma ceil_exact: "0 < d \<Longrightarrow> p = q * d \<Longrightarrow> (p + d - 1) div d = (q :: nat)"
proof -
  assume d: "0 < d" and p: "p = q * d"
  have "p + d - 1 = (d - 1) + q * d" using d p by simp
  then show ?thesis using d by (simp only: div_mult_self1 [OF less_imp_neq [OF d, symmetric]]) simp
qed

lemma divide_bits_exact:
  assumes "n \<le> 32" "0 < unat d" "unat high < unat d" "r < 2 ^ n" "unat low = r * 2 ^ (32 - n)"
    "unat quot < 2 ^ (32 - n)" "divide_bits n d high low quot = (q, rest)"
  shows "unat q = unat quot * 2 ^ n + (unat high * 2 ^ n + r) div unat d"
    and "unat rest = (unat high * 2 ^ n + r) mod unat d"
  using assms
proof (atomize (full), induction n arbitrary: high low quot r)
  case (Suc n)
  let ?b = "r div 2 ^ n" and ?r = "r mod 2 ^ n"
  have n: "n < 32" "32 - Suc n = 31 - n" "32 - n = Suc (31 - n)" using Suc.prems(1) by auto
  define h where "h = push_bit 1 high OR drop_bit 31 low"
  have low: "unat low = r * 2 ^ (31 - n)" using Suc.prems(5) n by simp
  note shift = shift_in(1) [OF low Suc.prems(4) n(1), of high, folded h_def]
    shift_in(2,3) [OF low Suc.prems(4) n(1)]
  have carry: "drop_bit 31 high \<noteq> 0 \<longleftrightarrow> 2 ^ 32 \<le> 2 * unat high"
  proof -
    have "drop_bit 31 high \<noteq> 0 \<longleftrightarrow> unat (drop_bit 31 high) \<noteq> 0" by (simp add: unsigned_eq_0_iff)
    also have "\<dots> \<longleftrightarrow> 2 ^ 31 \<le> unat high" by (simp add: unat_high_half div_eq_0_iff not_less)
    finally show ?thesis by simp
  qed
  let ?x = "2 * unat high + ?b"
  have x: "?x < 2 * unat d" using Suc.prems(3) shift(3) by linarith
  have q2: "unat (push_bit 1 quot) = 2 * unat quot" and qb: "unat (push_bit 1 quot OR 1) = 2 * unat quot + 1"
    and qs: "2 * unat quot + 1 < 2 ^ (32 - n)"
  proof -
    show qs: "2 * unat quot + 1 < 2 ^ (32 - n)" using Suc.prems(6) n by simp
    also have "(2 :: nat) ^ (32 - n) \<le> 2 ^ 32" by (rule power_increasing) simp_all
    finally have s: "2 * unat quot + 1 < 2 ^ 32" .
    then show q2: "unat (push_bit 1 quot) = 2 * unat quot" by (simp add: unat_word_ariths)
    have "\<not> bit (push_bit 1 quot) k \<or> \<not> bit (1 :: u32) k" for k
      by (simp only: bit_push_bit_iff bit_1_iff) auto
    then have "push_bit 1 quot OR 1 = push_bit 1 quot + 1" by (subst disjunctive_add) auto
    then show "unat (push_bit 1 quot OR 1) = 2 * unat quot + 1"
      using s q2 by (simp add: unat_add_small del: push_bit_Suc)
  qed
  have r: "r = ?b * 2 ^ n + ?r" by (rule div_mult_mod_eq [symmetric])
  have dividend: "unat high * 2 ^ Suc n + r = ?x * 2 ^ n + ?r"
    using r by (simp add: algebra_simps)
  have step: "divide_bits (Suc n) d high low quot =
      (if unat d \<le> ?x then divide_bits n d (h - d) (push_bit 1 low) (push_bit 1 quot OR 1)
       else divide_bits n d h (push_bit 1 low) (push_bit 1 quot))"
  proof -
    have "drop_bit 31 high \<noteq> 0 \<or> d \<le> h \<longleftrightarrow> unat d \<le> ?x"
    proof (cases "?x < 2 ^ 32")
      case True
      then show ?thesis using carry shift(1) by (simp add: word_le_nat_alt)
    next
      case False
      then have "2 ^ 32 \<le> 2 * unat high" using shift(3) by (rule even_carry)
      moreover have "unat d \<le> 2 ^ 32" by (rule less_imp_le) simp
      with calculation have "unat d \<le> ?x" by (rule order_trans [OF _ trans_le_add1, rotated])
      ultimately show ?thesis using carry by blast
    qed
    then show ?thesis by (simp add: Let_def h_def del: push_bit_Suc)
  qed
  show ?case
  proof (cases "unat d \<le> ?x")
    case True
    have "unat (h - d) = ?x - unat d"
    proof -
      have "?x - unat d < unat d" using x by linarith
      also have "unat d < 2 ^ 32" by simp
      finally have "?x - unat d < 2 ^ 32" .
      moreover have "(?x mod 2 ^ 32 + (2 ^ 32 - unat d)) mod 2 ^ 32 = (?x + (2 ^ 32 - unat d)) mod 2 ^ 32"
        by (simp add: mod_simps)
      moreover have "?x + (2 ^ 32 - unat d) = (?x - unat d) + 2 ^ 32"
        by (rule borrow [OF True], rule less_imp_le) simp
      moreover have "unat (h - d) = (unat h + (2 ^ 32 - unat d)) mod 2 ^ 32"
      proof -
        have "unat (h - d) = (if unat d \<le> unat h then unat h - unat d else unat h + 2 ^ 32 - unat d)"
          by (simp add: unat_sub_if_size word_size)
        also have "\<dots> = (unat h + (2 ^ 32 - unat d)) mod 2 ^ 32" by (rule wrapped_sub) simp_all
        finally show ?thesis .
      qed
      ultimately show ?thesis by (simp add: shift(1))
    qed
    note hd = this
    have less: "?x - unat d < unat d" using x by simp
    have div: "(?x * 2 ^ n + ?r) div unat d = 2 ^ n + ((?x - unat d) * 2 ^ n + ?r) div unat d"
      and mod: "(?x * 2 ^ n + ?r) mod unat d = ((?x - unat d) * 2 ^ n + ?r) mod unat d"
      using div_step [OF True Suc.prems(2)] by blast+
    have "unat q = (2 * unat quot + 1) * 2 ^ n + ((?x - unat d) * 2 ^ n + ?r) div unat d \<and>
        unat rest = ((?x - unat d) * 2 ^ n + ?r) mod unat d"
      using Suc.IH [of "h - d" ?r "push_bit 1 low" "push_bit 1 quot OR 1"] Suc.prems(1,2,7) n
        less hd shift(2) qb qs step True by simp
    then show ?thesis unfolding dividend div mod by (simp add: algebra_simps)
  next
    case False
    have "?x < unat d" using False by simp
    also have "unat d < 2 ^ 32" by simp
    finally have x32: "?x < 2 ^ 32" .
    have "unat q = (2 * unat quot) * 2 ^ n + (?x * 2 ^ n + ?r) div unat d \<and>
        unat rest = (?x * 2 ^ n + ?r) mod unat d"
      using Suc.IH [of h ?r "push_bit 1 low" "push_bit 1 quot"] Suc.prems(1,2,7) n
        False shift(1,2) x32 q2 qs step by simp
    then show ?thesis unfolding dividend by (simp add: algebra_simps)
  qed
qed simp

lemma high_word: "(l :: nat) < 2 ^ 32 \<Longrightarrow> 2 ^ 32 * d \<le> h * 2 ^ 32 + l \<longleftrightarrow> d \<le> h"
  by simp linarith

lemma mul_div_exact:
  "mul_div val numerator denominator =
     (if denominator = 0 \<or> 2 ^ 32 \<le> unat val * unat numerator div unat denominator then None
      else Some (of_nat (unat val * unat numerator div unat denominator),
                 of_nat (unat val * unat numerator mod unat denominator)))"
proof (cases "denominator = 0")
  case False
  obtain high low where w: "wide_mul val numerator = (high, low)" by (cases "wide_mul val numerator")
  note total = wide_mul_exact [OF w, symmetric]
  have d: "0 < unat denominator" using False by (simp add: unsigned_eq_0_iff zero_less_iff_neq_zero)
  have fit: "denominator \<le> high \<longleftrightarrow> 2 ^ 32 \<le> unat val * unat numerator div unat denominator"
  proof -
    have "2 ^ 32 \<le> unat val * unat numerator div unat denominator \<longleftrightarrow>
        2 ^ 32 * unat denominator \<le> unat high * 2 ^ 32 + unat low"
      using d by (simp add: total less_eq_div_iff_mult_less_eq)
    also have "\<dots> \<longleftrightarrow> unat denominator \<le> unat high" by (rule high_word) simp
    finally show ?thesis by (simp add: word_le_nat_alt)
  qed
  show ?thesis
  proof (cases "denominator \<le> high")
    case True
    then show ?thesis using fit by (simp add: mul_div_def w)
  next
    case small: False
    obtain q rest where r: "divide_bits 32 denominator high low 0 = (q, rest)"
      by (cases "divide_bits 32 denominator high low 0")
    have "unat q = unat val * unat numerator div unat denominator"
      "unat rest = unat val * unat numerator mod unat denominator"
      using divide_bits_exact [OF _ d _ _ _ _ r, of "unat low"] small total
      by (simp_all add: word_le_nat_alt)
    moreover have "q = of_nat (unat q)" "rest = of_nat (unat rest)" by simp_all
    ultimately have "q = of_nat (unat val * unat numerator div unat denominator)"
      "rest = of_nat (unat val * unat numerator mod unat denominator)"
      by simp_all
    then show ?thesis using small fit False by (simp add: mul_div_def w r)
  qed
qed (simp add: mul_div_def split: prod.split)

section \<open>Rates\<close>

lemma unat_scale:
  assumes "denominator \<noteq> 0"
  shows "unat (scale val numerator denominator) =
    min (2 ^ 32 - 1) (unat val * unat numerator div unat denominator)"
  using assms by (auto simp: scale_def mul_div_exact unat_of_nat)

lemma unat_scale_ceil:
  assumes "denominator \<noteq> 0"
  shows "unat (scale_ceil val numerator denominator) =
    min (2 ^ 32 - 1) ((unat val * unat numerator + unat denominator - 1) div unat denominator)"
proof -
  let ?p = "unat val * unat numerator" and ?d = "unat denominator"
  have d: "0 < ?d" using assms by (simp add: unsigned_eq_0_iff zero_less_iff_neq_zero)
  have ceil: "(?p + ?d - 1) div ?d = ?p div ?d + (if ?p mod ?d = 0 then 0 else 1)"
  proof (cases "?p mod ?d = 0")
    case True
    then have "?p = ?p div ?d * ?d" using div_mult_mod_eq [of ?p ?d] by simp
    from ceil_exact [OF d this] True show ?thesis by simp
  next
    case False
    then show ?thesis
      using ceil_inexact [OF div_mult_mod_eq [symmetric], of ?p ?d] mod_less_divisor [OF d] by simp
  qed
  show ?thesis
  proof (cases "2 ^ 32 \<le> ?p div ?d")
    case True
    then show ?thesis unfolding ceil using assms by (simp add: scale_ceil_def mul_div_exact)
  next
    case False
    have r: "?p mod ?d < 2 ^ 32" by (rule less_trans [OF mod_less_divisor [OF d]]) simp
    have "unat (of_nat (?p mod ?d) :: u32) = ?p mod ?d" using r by (simp add: unat_of_nat)
    then have "(of_nat (?p mod ?d) :: u32) = 0 \<longleftrightarrow> ?p mod ?d = 0"
      by (metis unsigned_eq_0_iff)
    then show ?thesis unfolding ceil using False assms
      by (auto simp: scale_ceil_def mul_div_exact unat_saturating_add32 unat_of_nat min_def)
  qed
qed

text \<open>
  Rounding up in one direction and down in the other are inverse: both saturate, so the last
  tick of the clock is left out.
\<close>

lemma unat_max: "unat (x :: u32) \<le> 2 ^ 32 - 1"
proof -
  have "unat x < 4294967296" by (rule unat_lt32)
  then have "unat x \<le> 4294967295" by linarith
  then show ?thesis by simp
qed

lemma scale_galois:
  assumes "a \<noteq> 0" "b \<noteq> 0" "p \<noteq> - 1"
  shows "scale_ceil f a b \<le> p \<longleftrightarrow> f \<le> scale p b a"
proof -
  have d: "0 < unat a" "0 < unat b" using assms(1,2) by (simp_all add: unsigned_eq_0_iff zero_less_iff_neq_zero)
  have "unat p \<noteq> 2 ^ 32 - 1"
  proof
    assume "unat p = 2 ^ 32 - 1"
    then have "unat p = unat (- 1 :: u32)" by simp
    then have "p = - 1" by (rule unsigned_word_eqI [where 'a = nat])
    with assms(3) show False by blast
  qed
  moreover have "unat p \<le> 2 ^ 32 - 1" "unat f \<le> 2 ^ 32 - 1"
    by (simp_all only: unat_max) 
  ultimately have p: "unat p < 2 ^ 32 - 1" and f: "unat f \<le> 2 ^ 32 - 1" by linarith+
  have "scale_ceil f a b \<le> p \<longleftrightarrow> (unat f * unat a + unat b - 1) div unat b \<le> unat p"
    using p unfolding word_le_nat_alt unat_scale_ceil [OF assms(2)] by (auto simp: min_def)
  also have "\<dots> \<longleftrightarrow> unat f * unat a + unat b - 1 < Suc (unat p) * unat b"
    using d(2) by (simp add: less_Suc_eq_le [symmetric] div_less_iff_less_mult)
  also have "\<dots> \<longleftrightarrow> unat f * unat a \<le> unat p * unat b" using d(2) by (simp; linarith)
  also have "\<dots> \<longleftrightarrow> unat f \<le> unat p * unat b div unat a"
    using d(1) by (simp add: less_eq_div_iff_mult_less_eq)
  also have "\<dots> \<longleftrightarrow> f \<le> scale p b a"
    using f unfolding word_le_nat_alt unat_scale [OF assms(1)] by (auto simp: min_def)
  finally show ?thesis .
qed

lemma scale_mono: "d \<noteq> 0 \<Longrightarrow> v \<le> w \<Longrightarrow> scale v n d \<le> scale w n d"
  by (simp add: word_le_nat_alt unat_scale div_le_mono min.coboundedI2)

section \<open>What show time guarantees\<close>

text \<open>
  C23. \<open>mul_div\<close> is exact: the 64-bit product built from 16-bit halves and the bit-by-bit division
  give the true quotient and remainder, and the result is absent exactly for a zero denominator
  or a quotient of more than 32 bits.
\<close>

theorem mul_div_divides:
  "mul_div val numerator denominator =
     (if denominator = 0 \<or> 2 ^ 32 \<le> unat val * unat numerator div unat denominator then None
      else Some (of_nat (unat val * unat numerator div unat denominator),
                 of_nat (unat val * unat numerator mod unat denominator)))"
  by (rule mul_div_exact)

text \<open>
  C21. The start of a frame is the first position in it: for a frame rate that is not zero, a
  position below the greatest has reached frame \<open>f\<close> exactly when it is not before \<open>frame_start f\<close>.
\<close>

theorem frame_start_first:
  assumes "show_micros_per_second r \<noteq> 0" "frame_rate \<noteq> 0" "pos \<noteq> - 1"
  shows "f \<le> frame_at r pos frame_rate \<longleftrightarrow> frame_start r f frame_rate \<le> pos"
proof -
  have grid: "frame_grid_divisor r \<noteq> 0"
    using assms(1) by (simp add: frame_grid_divisor_def MICROS_PER_SECOND_def split: frame_timing.split)
  have "1 \<le> frame_rate" using assms(2) by (simp add: word_le_nat_alt Suc_le_eq unat_gt_0)
  then have "max frame_rate 1 = frame_rate" by (rule max.absorb1)
  then show ?thesis
    using scale_galois [OF grid assms(2,3), of f] by (simp add: frame_at_def frame_start_def)
qed

theorem frame_start_first_witness:
  "1 \<le> frame_at rate_NORMAL 33334 30 \<longleftrightarrow> frame_start rate_NORMAL 1 30 \<le> 33334"
  by (rule frame_start_first) (simp_all add: rate_NORMAL_def MICROS_PER_SECOND_def)

text \<open>
  C22. \<open>wall_elapsed\<close> is the least wall time that covers a show time: wall time below the greatest
  covers \<open>show\<close> microseconds exactly when it is at least that long.
\<close>

theorem wall_time_least:
  assumes "show_micros_per_second r \<noteq> 0" "wall \<noteq> - 1"
  shows "show_time \<le> show_elapsed r wall \<longleftrightarrow> wall_elapsed r show_time \<le> wall"
  using scale_galois [OF _ assms(1,2), of MICROS_PER_SECOND show_time]
  by (simp add: show_elapsed_def wall_elapsed_def MICROS_PER_SECOND_def)

theorem wall_time_least_witness:
  "15 \<le> show_elapsed \<lparr>show_micros_per_second = 1500000, frame_timing = Constant\<rparr> 10 \<longleftrightarrow>
   wall_elapsed \<lparr>show_micros_per_second = 1500000, frame_timing = Constant\<rparr> 15 \<le> 10"
  by (rule wall_time_least) simp_all

end
