(* ===== verification/Transport.thy ===== *)
theory Transport
  imports ShowTime "HOL-Library.Signed_Division"
begin

text \<open>
  Playback on a controller: the clock estimate and the transport of
  \<open>firmware/esp32/src/transport.rs\<close>, the commands of
  \<open>crates/donder-device-protocol/src/lib.rs\<close> and the two handlers that apply them,
  \<open>firmware/esp32/src/loader_control.rs\<close> and the transport service of
  \<open>firmware/esp32/src/bin/loader.rs\<close>.

  Rust's \<open>i128\<close> holds every intermediate of the clock, so those are integers;
  \<open>/\<close> rounds towards zero (\<open>sdiv\<close>). A panic (a division by zero) is \<open>None\<close>. Sums of
  \<open>u64\<close> wrap, as in the firmware's release profile.
\<close>

section \<open>The clock estimate\<close>

record clock =
  clock_id :: "u32 option"
  local_anchor :: u64
  master_anchor :: u64
  rate_ppb :: int
  valid_until :: u64

definition clock_new :: clock where
  "clock_new = \<lparr>clock_id = None, local_anchor = 0, master_anchor = 0, rate_ppb = 0, valid_until = 0\<rparr>"

definition clamp_u64 :: "int \<Rightarrow> u64" where
  "clamp_u64 x = of_int (max 0 (min (2 ^ 64 - 1) x))"

definition master_at :: "clock \<Rightarrow> u64 \<Rightarrow> u64" where
  "master_at c local =
     (let elapsed = uint local - uint (local_anchor c)
      in clamp_u64 (uint (master_anchor c) + elapsed + (elapsed * rate_ppb c) sdiv 1000000000))"

definition local_at :: "clock \<Rightarrow> u64 \<Rightarrow> u64 option" where
  "local_at c master =
     (if 1000000000 + rate_ppb c = 0 then None
      else let elapsed = ((uint master - uint (master_anchor c)) * 1000000000)
                           sdiv (1000000000 + rate_ppb c)
           in Some (clamp_u64 (uint (local_anchor c) + elapsed)))"

definition clock_usable :: "clock \<Rightarrow> u32 \<Rightarrow> u64 \<Rightarrow> bool" where
  "clock_usable c i local \<longleftrightarrow> clock_id c = Some i \<and> local < valid_until c"

section \<open>The transport\<close>

datatype mode = Playing | Paused | Stopped | Ended

record scheduled =
  scheduled_id :: u32
  scheduled_at :: u64
  scheduled_mode :: mode
  scheduled_position :: u32
  scheduled_looping :: bool
  scheduled_rate :: playback_rate

record transport =
  transport_mode :: mode
  anchor_time :: u64
  anchor_position :: u32
  looping :: bool
  transport_rate :: playback_rate
  pending :: "scheduled option"
  command_id :: u32
  generation :: u32

definition transport_new :: transport where
  "transport_new =
     \<lparr>transport_mode = Stopped, anchor_time = 0, anchor_position = 0, looping = False,
      transport_rate = rate_NORMAL, pending = None, command_id = 0, generation = 0\<rparr>"

definition transport_apply ::
  "mode \<Rightarrow> u32 \<Rightarrow> u64 \<Rightarrow> bool \<Rightarrow> playback_rate \<Rightarrow> transport \<Rightarrow> transport" where
  "transport_apply m pos now loops r t =
     t\<lparr>generation := generation t + 1, transport_mode := m, anchor_time := now,
       anchor_position := pos, looping := loops, transport_rate := r, pending := None\<rparr>"

definition schedule :: "scheduled \<Rightarrow> transport \<Rightarrow> bool \<times> transport" where
  "schedule c t =
     (if scheduled_id c \<le> command_id t then (False, t)
      else (True, t\<lparr>command_id := scheduled_id c, generation := generation t + 1,
                    pending := Some c\<rparr>))"

definition apply_due :: "u64 \<Rightarrow> transport \<Rightarrow> transport" where
  "apply_due now t =
     (case pending t of
        Some p \<Rightarrow>
          if now \<ge> scheduled_at p
          then transport_apply (scheduled_mode p) (scheduled_position p) (scheduled_at p)
                 (scheduled_looping p) (scheduled_rate p) t
          else t
      | None \<Rightarrow> t)"

definition rate_at :: "u64 \<Rightarrow> transport \<Rightarrow> playback_rate" where
  "rate_at now t = transport_rate (apply_due now t)"

definition wall_since :: "u64 \<Rightarrow> u64 \<Rightarrow> u32" where
  "wall_since anchor now =
     (let d = unat now - unat anchor in if d < 2 ^ 32 then of_nat d else - 1)"

definition sample :: "u64 \<Rightarrow> u32 \<Rightarrow> transport \<Rightarrow> (mode \<times> u32) option" where
  "sample now duration t =
     (let current = apply_due now t
      in if transport_mode current \<noteq> Playing
         then Some (transport_mode current, anchor_position current)
         else let wall = wall_since (anchor_time current) now;
                  pos = unat (anchor_position current) + unat (show_elapsed (transport_rate current) wall)
              in if looping current then
                   (if duration = 0 then None else Some (Playing, of_nat (pos mod unat duration)))
                 else if pos \<ge> unat duration then Some (Ended, duration)
                 else Some (Playing, of_nat pos))"

definition refresh :: "u64 \<Rightarrow> u32 \<Rightarrow> transport \<Rightarrow> transport option" where
  "refresh now duration t =
     (let t = apply_due now t
      in case sample now duration t of
           None \<Rightarrow> None
         | Some (m, pos) \<Rightarrow>
             Some (if m = Ended \<and> transport_mode t \<noteq> Ended
                   then transport_apply m pos now False (transport_rate t) t else t))"

definition cancel :: "u32 \<Rightarrow> u64 \<Rightarrow> transport \<Rightarrow> bool \<times> transport" where
  "cancel i now t =
     (case pending t of
        Some p \<Rightarrow>
          if scheduled_id p = i \<and> now < scheduled_at p
          then (True, t\<lparr>pending := None, generation := generation t + 1\<rparr>)
          else (False, t)
      | None \<Rightarrow> (False, t))"

section \<open>Commands\<close>

datatype action = Play | Pause | Stop

definition mode_from_action :: "action \<Rightarrow> mode" where
  "mode_from_action a = (case a of Play \<Rightarrow> Playing | Pause \<Rightarrow> Paused | Stop \<Rightarrow> Stopped)"

record sync_command =
  sync_boot_id :: u32
  sync_clock_id :: u32
  local_micros :: u64
  master_micros :: u64
  sync_rate_ppb :: int
  valid_for_micros :: u32

record schedule_command =
  schedule_boot_id :: u32
  schedule_clock_id :: u32
  schedule_command_id :: u32
  at_micros :: u64
  schedule_action :: action
  position_micros :: u32
  schedule_rate :: playback_rate
  schedule_looping :: bool
  schedule_show_id :: u32
  schedule_show_bytes :: u32

datatype command = SyncClock sync_command | ScheduleCommand schedule_command | CancelCommand u32

datatype control_error = ControllerRestarted | PlaybackActive | NoShowLoaded | ClockNotSynchronized
  | ShowChanged | DeadlineTooLate | StaleCommand | CommandDue | NoLongerPending

record playback =
  show_duration :: u32
  playback_transport :: transport
  show_id :: u32
  show_bytes :: u32

record controller =
  boot_id :: u32
  controller_clock :: clock
  active :: "playback option"

definition DATA_MICROS :: u64 where "DATA_MICROS = 6000"

text \<open>Whether playback holds the clock it follows; the sample may panic.\<close>

definition follows_clock :: "clock \<Rightarrow> u64 \<Rightarrow> playback \<Rightarrow> bool option" where
  "follows_clock c now p =
     (case sample (master_at c now) (show_duration p) (playback_transport p) of
        None \<Rightarrow> None
      | Some (m, _) \<Rightarrow> Some (m = Playing \<or> pending (playback_transport p) \<noteq> None))"

definition sync_clock ::
  "u64 \<Rightarrow> sync_command \<Rightarrow> controller \<Rightarrow> ((control_error + unit) \<times> controller) option" where
  "sync_clock now s st =
     (if sync_boot_id s \<noteq> boot_id st then Some (Inl ControllerRestarted, st)
      else
        let c = controller_clock st;
            other = (case clock_id c of Some i \<Rightarrow> i \<noteq> sync_clock_id s | None \<Rightarrow> False);
            blocked = (if other then (case active st of None \<Rightarrow> Some False | Some p \<Rightarrow> follows_clock c now p)
                       else Some False)
        in case blocked of
             None \<Rightarrow> None
           | Some True \<Rightarrow> Some (Inl PlaybackActive, st)
           | Some False \<Rightarrow>
               Some (Inr (), st\<lparr>controller_clock :=
                 \<lparr>clock_id = Some (sync_clock_id s), local_anchor = local_micros s,
                  master_anchor = master_micros s, rate_ppb = sync_rate_ppb s,
                  valid_until = now + ucast (valid_for_micros s)\<rparr>\<rparr>))"

definition schedule_playback ::
  "u64 \<Rightarrow> schedule_command \<Rightarrow> controller \<Rightarrow> (control_error + unit) \<times> controller" where
  "schedule_playback now s st =
     (let c = controller_clock st;
          master_now = master_at c now
      in case active st of
           None \<Rightarrow> (Inl NoShowLoaded, st)
         | Some p \<Rightarrow>
             if schedule_boot_id s \<noteq> boot_id st \<or> \<not> clock_usable c (schedule_clock_id s) now
             then (Inl ClockNotSynchronized, st)
             else if show_id p \<noteq> schedule_show_id s \<or> show_bytes p \<noteq> schedule_show_bytes s
             then (Inl ShowChanged, st)
             else if at_micros s < master_now + 20000 then (Inl DeadlineTooLate, st)
             else
               let (accepted, t) = schedule
                     \<lparr>scheduled_id = schedule_command_id s, scheduled_at = at_micros s,
                      scheduled_mode = mode_from_action (schedule_action s),
                      scheduled_position = position_micros s, scheduled_looping = schedule_looping s,
                      scheduled_rate = schedule_rate s\<rparr> (playback_transport p)
               in if accepted then (Inr (), st\<lparr>active := Some (p\<lparr>playback_transport := t\<rparr>)\<rparr>)
                  else (Inl StaleCommand, st))"

definition cancel_command ::
  "u64 \<Rightarrow> u32 \<Rightarrow> controller \<Rightarrow> (control_error + unit) \<times> controller" where
  "cancel_command now i st =
     (let master_now = master_at (controller_clock st) now;
          cutoff = master_now + DATA_MICROS + 1000
      in case active st of
           None \<Rightarrow> (Inl NoLongerPending, st)
         | Some p \<Rightarrow>
             let (cancelled, t) = cancel i cutoff (playback_transport p)
             in if cancelled then (Inr (), st\<lparr>active := Some (p\<lparr>playback_transport := t\<rparr>)\<rparr>)
                else (Inl CommandDue, st))"

definition control ::
  "u64 \<Rightarrow> command \<Rightarrow> controller \<Rightarrow> ((control_error + unit) \<times> controller) option" where
  "control now c st =
     (case c of
        SyncClock s \<Rightarrow> sync_clock now s st
      | ScheduleCommand s \<Rightarrow> Some (schedule_playback now s st)
      | CancelCommand i \<Rightarrow> Some (cancel_command now i st))"

text \<open>
  The transport service: a local action applies at once and loops. The outer \<open>None\<close> is a
  panic; an \<open>Inl\<close> is the conflict of a controller with no show.
\<close>

record playback_report =
  status_mode :: mode
  status_position :: u32
  status_show_id :: u32
  status_show_bytes :: u32
  status_command_id :: u32

definition local_action :: "action \<Rightarrow> u64 \<Rightarrow> playback \<Rightarrow> playback option" where
  "local_action a now p =
     (let m = mode_from_action a; t = playback_transport p
      in do {
           pos \<leftarrow> (if m = Stopped then Some 0 else map_option snd (sample now (show_duration p) t));
           Some (p\<lparr>playback_transport := transport_apply m pos now True rate_NORMAL t\<rparr>) })"

definition playback_status :: "u64 \<Rightarrow> playback \<Rightarrow> playback_report option" where
  "playback_status now p =
     do { (m, pos) \<leftarrow> sample now (show_duration p) (playback_transport p);
          Some \<lparr>status_mode = m, status_position = pos, status_show_id = show_id p,
                status_show_bytes = show_bytes p,
                status_command_id = command_id (playback_transport p)\<rparr> }"

definition transport_service ::
  "action option \<Rightarrow> u64 \<Rightarrow> controller \<Rightarrow>
     ((control_error + playback_report option) \<times> controller) option" where
  "transport_service request local st =
     (let now = master_at (controller_clock st) local
      in case (request, active st) of
           (Some _, None) \<Rightarrow> Some (Inl NoShowLoaded, st)
         | (None, None) \<Rightarrow> Some (Inr None, st)
         | (_, Some p) \<Rightarrow>
             do { p \<leftarrow> (case request of Some a \<Rightarrow> local_action a now p | None \<Rightarrow> Some p);
                  s \<leftarrow> playback_status now p;
                  Some (Inr (Some s), st\<lparr>active := Some p\<rparr>) })"

text \<open>
  One turn of the rendering core's loop at local time \<open>local\<close>, as far as it touches what the handlers
  share or may panic over it: \<open>latch\<close> is the master time of the next latch, which follows from the
  frame rate and how long rendering took before.
\<close>

definition render_frame :: "u64 \<Rightarrow> u64 \<Rightarrow> controller \<Rightarrow> controller option" where
  "render_frame local latch st =
     do { let now = master_at (controller_clock st) local;
          _ \<leftarrow> local_at (controller_clock st) (latch - min latch DATA_MICROS);
          case active st of
            None \<Rightarrow> Some st
          | Some p \<Rightarrow>
              do { t \<leftarrow> refresh now (show_duration p) (playback_transport p);
                   _ \<leftarrow> sample latch (show_duration p) t;
                   Some (st\<lparr>active := Some (p\<lparr>playback_transport := t\<rparr>)\<rparr>) } }"

section \<open>Paces\<close>

text \<open>
  What the transport relies on of a playback rate: no wall time covers no show time, and more
  wall time never less.
\<close>

locale pace =
  fixes elapsed :: "u32 \<Rightarrow> u32"
  assumes at_rest: "elapsed 0 = 0"
    and onward: "v \<le> w \<Longrightarrow> elapsed v \<le> elapsed w"
begin

lemma later_position: "a \<le> b \<Longrightarrow> p + unat (elapsed (wall_since t a)) \<le> p + unat (elapsed (wall_since t b))"
proof -
  assume ab: "a \<le> b"
  have "wall_since t a \<le> wall_since t b"
  proof -
    have u: "unat (wall_since t x) = min (2 ^ 32 - 1) (unat x - unat t)" for x
      by (simp add: wall_since_def Let_def unat_of_nat)
    have "unat a - unat t \<le> unat b - unat t" using ab by (simp add: word_le_nat_alt diff_le_mono)
    then show ?thesis unfolding word_le_nat_alt u by simp
  qed
  then show ?thesis using onward by (simp add: word_le_nat_alt)
qed

lemma anchor_position: "p + unat (elapsed (wall_since t t)) = p"
  by (simp add: wall_since_def Let_def at_rest)

end

interpretation rate_pace: pace "show_elapsed r" for r
proof unfold_locales
  show "show_elapsed r 0 = 0"
    by (simp add: show_elapsed_def scale_def mul_div_exact MICROS_PER_SECOND_def)
  show "show_elapsed r v \<le> show_elapsed r w" if "v \<le> w" for v w
    using that by (simp add: show_elapsed_def scale_mono MICROS_PER_SECOND_def)
qed

section \<open>Reachable transports\<close>

inductive transport_step :: "transport \<Rightarrow> transport \<Rightarrow> bool" where
  apply_step: "transport_step t (transport_apply m pos now loops r t)"
| schedule_step: "transport_step t (snd (schedule c t))"
| refresh_step: "refresh now duration t = Some t' \<Longrightarrow> transport_step t t'"
| cancel_step: "transport_step t (snd (cancel i now t))"

definition pending_current :: "transport \<Rightarrow> bool" where
  "pending_current t =
     (case pending t of None \<Rightarrow> True | Some c \<Rightarrow> scheduled_id c = command_id t)"

lemma apply_fields [simp]:
  "pending (transport_apply m pos now loops r t) = None"
  "command_id (transport_apply m pos now loops r t) = command_id t"
  "transport_mode (transport_apply m pos now loops r t) = m"
  "anchor_position (transport_apply m pos now loops r t) = pos"
  "anchor_time (transport_apply m pos now loops r t) = now"
  "looping (transport_apply m pos now loops r t) = loops"
  "transport_rate (transport_apply m pos now loops r t) = r"
  by (simp_all add: transport_apply_def)

lemma apply_due_id [simp]: "command_id (apply_due now t) = command_id t"
  by (simp add: apply_due_def split: option.split)

lemma apply_due_pending: "pending (apply_due now t) = None \<or> apply_due now t = t"
  by (simp add: apply_due_def split: option.split)

lemma transport_step_id: "transport_step t t' \<Longrightarrow> command_id t \<le> command_id t'"
proof (induction rule: transport_step.induct)
  case (schedule_step t c)
  then show ?case by (auto simp: schedule_def)
next
  case (cancel_step t i now)
  then show ?case by (simp add: cancel_def split: option.split)
qed (auto simp: refresh_def Let_def split: option.splits)

lemma transport_step_pending: "transport_step t t' \<Longrightarrow> pending_current t \<Longrightarrow> pending_current t'"
proof (induction rule: transport_step.induct)
  case (schedule_step t c)
  then show ?case
    by (cases "scheduled_id c \<le> command_id t") (simp_all add: schedule_def pending_current_def)
next
  case (cancel_step t i now)
  then show ?case by (auto simp: cancel_def pending_current_def split: option.split)
next
  case (refresh_step now duration t t')
  then show ?case using apply_due_pending [of now t]
    by (auto simp: refresh_def Let_def pending_current_def split: option.splits if_splits)
qed (simp add: pending_current_def)

lemma transport_steps_id: "rtranclp transport_step t t' \<Longrightarrow> command_id t \<le> command_id t'"
  by (induction rule: rtranclp_induct) (auto dest: transport_step_id)

lemma reachable_pending_current:
  "rtranclp transport_step transport_new t \<Longrightarrow> pending_current t"
  by (induction rule: rtranclp_induct)
    (auto dest: transport_step_pending simp: pending_current_def transport_new_def)

lemma accepted_once:
  assumes "schedule c t = (True, t1)" "rtranclp transport_step t1 t2"
    and "scheduled_id d \<le> scheduled_id c"
  shows "schedule d t2 = (False, t2)"
proof -
  have "command_id t1 = scheduled_id c" using assms(1) by (auto simp: schedule_def split: if_splits)
  with transport_steps_id [OF assms(2)] assms(3) show ?thesis by (simp add: schedule_def)
qed

section \<open>What playback shows\<close>

lemma apply_due_later:
  "now \<le> later \<Longrightarrow> apply_due later (apply_due now t) = apply_due later t"
  by (auto simp: apply_due_def split: option.split)

lemma sample_due: "now \<le> later \<Longrightarrow> sample later d (apply_due now t) = sample later d t"
  by (simp add: sample_def apply_due_later)

lemma sample_ended_later:
  assumes "pending t = None" "sample now d t = Some (Ended, pos)" "now \<le> later" "transport_mode t \<noteq> Ended"
  shows "sample later d t = Some (Ended, d)" "pos = d"
proof -
  have t: "apply_due x t = t" for x using assms(1) by (simp add: apply_due_def)
  have p: "transport_mode t = Playing" "\<not> looping t"
    "unat d \<le> unat (anchor_position t) + unat (show_elapsed (transport_rate t) (wall_since (anchor_time t) now))"
    and pos: "pos = d"
    using assms(2,4) by (auto simp: sample_def t Let_def split: if_splits)
  have "unat d \<le> unat (anchor_position t) + unat (show_elapsed (transport_rate t) (wall_since (anchor_time t) later))"
    using p(3) rate_pace.later_position [OF assms(3)] by (rule order_trans)
  then show "sample later d t = Some (Ended, d)" using p(1,2) by (simp add: sample_def t Let_def)
  show "pos = d" by (rule pos)
qed

lemma refresh_invisible_pending:
  assumes "refresh now d t = Some t'" "now \<le> later" "pending (apply_due now t) = None"
  shows "sample later d t' = sample later d t"
proof -
  let ?u = "apply_due now t"
  obtain m pos where s: "sample now d ?u = Some (m, pos)"
    and t': "t' = (if m = Ended \<and> transport_mode ?u \<noteq> Ended
                   then transport_apply m pos now False (transport_rate ?u) ?u else ?u)"
    using assms(1) by (auto simp: refresh_def Let_def split: option.splits)
  show ?thesis
  proof (cases "m = Ended \<and> transport_mode ?u \<noteq> Ended")
    case True
    then have ended: "sample later d ?u = Some (Ended, d)" "pos = d"
      using sample_ended_later [OF assms(3) _ assms(2)] s by auto
    have "sample later d t' = Some (Ended, d)"
      using True by (simp add: t' sample_def apply_due_def ended(2))
    then show ?thesis using ended(1) sample_due [OF assms(2), of d t] by simp
  next
    case False
    then have "t' = ?u" unfolding t' by (rule if_not_P)
    then show ?thesis using sample_due [OF assms(2), of d t] by simp
  qed
qed

lemma refresh_running:
  assumes "refresh now d t = Some t'" "now \<le> later" "sample now d t \<noteq> Some (Ended, d)"
  shows "sample later d t' = sample later d t"
proof -
  let ?u = "apply_due now t"
  obtain m pos where s: "sample now d ?u = Some (m, pos)"
    and t': "t' = (if m = Ended \<and> transport_mode ?u \<noteq> Ended
                   then transport_apply m pos now False (transport_rate ?u) ?u else ?u)"
    using assms(1) by (auto simp: refresh_def Let_def split: option.splits)
  have "m = Ended \<Longrightarrow> transport_mode ?u \<noteq> Ended \<Longrightarrow> pos = d"
    using s apply_due_later [of now now t] by (auto simp: sample_def Let_def split: if_splits)
  then have "\<not> (m = Ended \<and> transport_mode ?u \<noteq> Ended)"
    using s assms(3) sample_due [of now now d t] by auto
  then have "t' = ?u" unfolding t' by (rule if_not_P)
  then show ?thesis using sample_due [OF assms(2), of d t] by simp
qed

lemma refresh_ended_pending:
  assumes "refresh now d t = Some t'" "sample now d t = Some (Ended, d)"
    "transport_mode (apply_due now t) \<noteq> Ended"
  shows "pending t' = None" "transport_mode t' = Ended"
  using assms sample_due [of now now d t]
  by (auto simp: refresh_def Let_def)

lemma schedule_undisturbed:
  assumes "schedule c t = (True, t')" "now < scheduled_at c"
    "case pending t of None \<Rightarrow> True | Some p \<Rightarrow> now < scheduled_at p"
  shows "sample now d t' = sample now d t"
proof -
  have t': "t' = t\<lparr>command_id := scheduled_id c, generation := generation t + 1, pending := Some c\<rparr>"
    using assms(1) by (auto simp: schedule_def split: if_splits)
  have "apply_due now t' = t'" using assms(2) by (simp add: t' apply_due_def)
  moreover have "apply_due now t = t" using assms(3) by (simp add: apply_due_def split: option.splits)
  ultimately show ?thesis by (simp add: sample_def t' Let_def)
qed

lemma schedule_takes_effect:
  assumes "schedule c t = (True, t')"
  shows "sample (scheduled_at c) d t' =
    (if scheduled_mode c \<noteq> Playing then Some (scheduled_mode c, scheduled_position c)
     else if scheduled_looping c then
       (if d = 0 then None else Some (Playing, of_nat (unat (scheduled_position c) mod unat d)))
     else if d \<le> scheduled_position c then Some (Ended, d) else Some (Playing, scheduled_position c))"
proof -
  have t': "t' = t\<lparr>command_id := scheduled_id c, generation := generation t + 1, pending := Some c\<rparr>"
    using assms by (auto simp: schedule_def split: if_splits)
  have z: "unat (show_elapsed r (wall_since x x)) = 0" for r x
    using rate_pace.anchor_position [of 0 r x] by simp
  show ?thesis by (simp add: sample_def t' apply_due_def Let_def z word_le_nat_alt)
qed

section \<open>Clock estimates\<close>

lemma sdiv_cases: "0 < (k :: int) \<Longrightarrow> x sdiv k = (if 0 \<le> x then x div k else - (- x div k))"
  by (simp add: signed_divide_int_def sgn_if)

lemma sdiv_remainder:
  assumes "0 < (k :: int)"
  obtains s where "x = k * (x sdiv k) + s" "\<bar>s\<bar> < k"
proof (cases "0 \<le> x")
  case True
  with assms that [of "x mod k"] show ?thesis by (simp add: sdiv_cases)
next
  case False
  have "- x = k * (- x div k) + - x mod k" by simp
  then have "x = - (k * (- x div k)) + - (- x mod k)" by linarith
  then have "x = k * (- (- x div k)) + - (- x mod k)" by (simp only: mult_minus_right)
  moreover have "\<bar>- (- x mod k)\<bar> < k" using assms by (simp add: abs_of_nonneg)
  ultimately show ?thesis using that [of "- (- x mod k)"] assms False by (simp add: sdiv_cases)
qed

lemma sdiv_mono: "0 < (k :: int) \<Longrightarrow> x \<le> y \<Longrightarrow> x sdiv k \<le> y sdiv k"
proof -
  assume k: "0 < k" and xy: "x \<le> y"
  consider "0 \<le> x" | "x < 0" "0 \<le> y" | "y < 0" by linarith
  then show ?thesis
  proof cases
    case 1
    with xy k show ?thesis by (simp add: sdiv_cases zdiv_mono1)
  next
    case 2
    with k have "0 \<le> - x div k" "0 \<le> y div k" by (simp_all add: pos_imp_zdiv_nonneg_iff)
    with 2 k show ?thesis by (simp add: sdiv_cases)
  next
    case 3
    then have "- y div k \<le> - x div k" using xy k by (intro zdiv_mono1) simp_all
    with 3 xy k show ?thesis by (simp add: sdiv_cases)
  qed
qed

lemma sdiv_back: "0 < (k :: int) \<Longrightarrow> x sdiv k - 1 \<le> (x - k) sdiv k"
proof -
  assume k: "0 < k"
  consider "k \<le> x" | "0 \<le> x" "x < k" | "x < 0" by linarith
  then show ?thesis
  proof cases
    case 1
    have "(x - k) div k = x div k - 1" using k div_mult_self1 [of k x "- 1"] by simp
    with 1 k show ?thesis by (simp add: sdiv_cases)
  next
    case 2
    have "- (x - k) div k \<le> 1" using 2 k zdiv_mono1 [of "- (x - k)" k k] by simp
    with 2 k show ?thesis by (simp add: sdiv_cases)
  next
    case 3
    have e: "- (x - k) = - x + 1 * k" by simp
    have "- (x - k) div k = - x div k + 1" unfolding e using k by (subst div_mult_self1) simp_all
    with 3 k show ?thesis by (simp add: sdiv_cases)
  qed
qed

lemma uint_clamp: "uint (clamp_u64 x) = max 0 (min (2 ^ 64 - 1) x)"
  by (simp add: clamp_u64_def uint_word_of_int max_def min_def)

lemma clamp_mono: "x \<le> y \<Longrightarrow> clamp_u64 x \<le> clamp_u64 y"
  unfolding word_le_def uint_clamp by linarith

lemma drift_mono:
  fixes a b r :: int
  assumes "- 1000000000 \<le> r" "a \<le> b"
  shows "a + (a * r) sdiv 1000000000 \<le> b + (b * r) sdiv 1000000000"
proof -
  have step: "a + (a * r) sdiv 1000000000 \<le> (a + 1) + ((a + 1) * r) sdiv 1000000000" for a :: int
  proof -
    have "(a * r) sdiv 1000000000 - 1 \<le> (a * r - 1000000000) sdiv 1000000000"
      by (rule sdiv_back) simp
    also have "\<dots> \<le> ((a + 1) * r) sdiv 1000000000"
      using assms(1) by (intro sdiv_mono) (simp_all add: algebra_simps)
    finally show ?thesis by simp
  qed
  have "a + (a * r) sdiv 1000000000 \<le> (a + int n) + ((a + int n) * r) sdiv 1000000000" for n
  proof (induction n)
    case (Suc n)
    from Suc step [of "a + int n"] show ?case by (simp add: algebra_simps)
  qed simp
  from this [of "nat (b - a)"] assms(2) show ?thesis by simp
qed

lemma master_at_mono:
  assumes "- 1000000000 \<le> rate_ppb c" "a \<le> b"
  shows "master_at c a \<le> master_at c b"
proof -
  have "uint a - uint (local_anchor c) \<le> uint b - uint (local_anchor c)"
    using assms(2) by (simp add: word_le_def)
  from drift_mono [OF assms(1) this] show ?thesis
    by (simp add: master_at_def Let_def clamp_mono add.assoc)
qed

lemma sdiv_near:
  assumes "0 < (k :: int)" "\<bar>s\<bar> < k"
  shows "\<bar>(e * k - s) sdiv k - e\<bar> \<le> 1"
proof -
  obtain u where u: "e * k - s = k * ((e * k - s) sdiv k) + u" "\<bar>u\<bar> < k"
    by (rule sdiv_remainder [OF assms(1)])
  let ?d = "(e * k - s) sdiv k - e"
  have "k * ?d = - s - u" using u(1) by (simp add: algebra_simps)
  then have "\<bar>k * ?d\<bar> < k * 2" using assms(2) u(2) by linarith
  then have "k * \<bar>?d\<bar> < k * 2" using assms(1) by (simp add: abs_mult)
  then have "\<bar>?d\<bar> < 2" using assms(1) by simp
  then show ?thesis by linarith
qed

lemma local_master_inverse:
  assumes "0 \<le> rate_ppb c"
    and "0 \<le> uint (master_anchor c) + (uint local - uint (local_anchor c)) +
           ((uint local - uint (local_anchor c)) * rate_ppb c) sdiv 1000000000"
    and "uint (master_anchor c) + (uint local - uint (local_anchor c)) +
           ((uint local - uint (local_anchor c)) * rate_ppb c) sdiv 1000000000 < 2 ^ 64"
  shows "\<exists>back. local_at c (master_at c local) = Some back \<and> \<bar>uint back - uint local\<bar> \<le> 1"
proof -
  let ?k = "1000000000 :: int" and ?r = "rate_ppb c"
  let ?e = "uint local - uint (local_anchor c)"
  have m: "uint (master_at c local) = uint (master_anchor c) + ?e + (?e * ?r) sdiv ?k"
    using assms(2,3) unfolding master_at_def Let_def uint_clamp by linarith
  obtain s where s: "?e * ?r = ?k * ((?e * ?r) sdiv ?k) + s" "\<bar>s\<bar> < ?k"
    by (rule sdiv_remainder [of ?k "?e * ?r"]) simp
  have "(uint (master_at c local) - uint (master_anchor c)) * ?k = ?e * (?k + ?r) - s"
    using s(1) by (simp add: m algebra_simps)
  moreover have "\<bar>(?e * (?k + ?r) - s) sdiv (?k + ?r) - ?e\<bar> \<le> 1"
    using assms(1) s(2) by (intro sdiv_near) linarith+
  ultimately have near: "\<bar>((uint (master_at c local) - uint (master_anchor c)) * ?k) sdiv (?k + ?r) - ?e\<bar> \<le> 1"
    by simp
  have l: "0 \<le> uint local" "uint local \<le> 2 ^ 64 - 1" using uint_lt2p [of local] by simp_all
  have "?k + ?r \<noteq> 0" using assms(1) by linarith
  moreover have "\<bar>uint (clamp_u64 (uint (local_anchor c) +
      ((uint (master_at c local) - uint (master_anchor c)) * ?k) sdiv (?k + ?r))) - uint local\<bar> \<le> 1"
    unfolding uint_clamp using near l by linarith
  ultimately show ?thesis by (simp add: local_at_def Let_def)
qed

section \<open>Accepted commands\<close>

text \<open>Which schedule commands a controller takes, and what it then holds.\<close>

lemma schedule_accepted_iff:
  "fst (schedule_playback now s st) = Inr () \<longleftrightarrow>
     (\<exists>p. active st = Some p \<and> schedule_boot_id s = boot_id st \<and>
        clock_usable (controller_clock st) (schedule_clock_id s) now \<and>
        show_id p = schedule_show_id s \<and> show_bytes p = schedule_show_bytes s \<and>
        master_at (controller_clock st) now + 20000 \<le> at_micros s \<and>
        command_id (playback_transport p) < schedule_command_id s)"
  by (auto simp: schedule_playback_def schedule_def Let_def not_less split: option.splits if_splits)

lemma schedule_refused: "fst (schedule_playback now s st) \<noteq> Inr () \<Longrightarrow> snd (schedule_playback now s st) = st"
  by (auto simp: schedule_playback_def schedule_def Let_def split: option.splits)

lemma cancel_margin:
  assumes "cancel_command now i st = (Inr (), st')"
  obtains p q where "active st = Some p" "pending (playback_transport p) = Some q" "scheduled_id q = i"
    "master_at (controller_clock st) now + DATA_MICROS + 1000 < scheduled_at q"
    "\<exists>p'. active st' = Some p' \<and> pending (playback_transport p') = None \<and>
       generation (playback_transport p') = generation (playback_transport p) + 1"
  using assms by (auto simp: cancel_command_def cancel_def Let_def split: option.splits if_splits)

lemma sync_stops_clock:
  assumes "sync_boot_id s = boot_id st" "sync_rate_ppb s = - 1000000000" "active st = None"
  shows "\<exists>st'. sync_clock now s st = Some (Inr (), st') \<and> local_at (controller_clock st') master = None"
  using assms by (simp add: sync_clock_def local_at_def Let_def split: option.split)

section \<open>What the transport guarantees\<close>

definition sample_command :: scheduled where
  "sample_command =
     \<lparr>scheduled_id = 5, scheduled_at = 2000000, scheduled_mode = Playing, scheduled_position = 10,
      scheduled_looping = False, scheduled_rate = rate_NORMAL\<rparr>"

text \<open>
  C19. Command numbers: in every transport reachable from a new one by scheduling, cancelling,
  refreshing and applying, the pending command is the last one accepted.
\<close>

theorem pending_is_last_accepted:
  assumes "rtranclp transport_step transport_new t"
  shows "case pending t of Some p \<Rightarrow> scheduled_id p = command_id t | None \<Rightarrow> True"
  using reachable_pending_current [OF assms] by (simp add: pending_current_def)

theorem pending_is_last_accepted_witness:
  "case pending (snd (schedule sample_command transport_new)) of
     Some p \<Rightarrow> scheduled_id p = command_id (snd (schedule sample_command transport_new)) | None \<Rightarrow> True"
proof (rule pending_is_last_accepted)
  show "rtranclp transport_step transport_new (snd (schedule sample_command transport_new))"
    by (rule r_into_rtranclp) (rule transport_step.intros)
qed

text \<open>
  C18. A command number is accepted once: after a command with some number is taken, and whatever
  is scheduled, cancelled, refreshed or applied in between, every command with that number or a
  lower one is refused, whatever it asks for, and refusing it changes nothing.
\<close>

theorem command_accepted_once:
  assumes "schedule c t = (True, t1)" "rtranclp transport_step t1 t2"
    and "scheduled_id d \<le> scheduled_id c"
  shows "schedule d t2 = (False, t2)"
  using assms by (rule accepted_once)

theorem command_accepted_once_witness:
  "schedule (sample_command\<lparr>scheduled_at := 1000000, scheduled_mode := Stopped\<rparr>)
     (snd (cancel 5 1500000 (snd (schedule sample_command transport_new)))) =
   (False, snd (cancel 5 1500000 (snd (schedule sample_command transport_new))))"
proof (rule command_accepted_once)
  show "schedule sample_command transport_new = (True, snd (schedule sample_command transport_new))"
    by (simp add: schedule_def sample_command_def transport_new_def)
  show "rtranclp transport_step (snd (schedule sample_command transport_new))
      (snd (cancel 5 1500000 (snd (schedule sample_command transport_new))))"
    by (rule r_into_rtranclp) (rule transport_step.intros)
qed (simp add: sample_command_def)

text \<open>
  C20. A scheduled command takes effect at its time and not before: until then (and until the
  command it replaces was due) the sample is what it was, and at that time it is the command's mode
  at the command's position, looped or ended by the duration.
\<close>

theorem command_takes_effect:
  assumes "schedule c t = (True, t')"
  shows "(now < scheduled_at c \<and> (case pending t of None \<Rightarrow> True | Some p \<Rightarrow> now < scheduled_at p) \<longrightarrow>
      sample now d t' = sample now d t) \<and>
    sample (scheduled_at c) d t' =
      (if scheduled_mode c \<noteq> Playing then Some (scheduled_mode c, scheduled_position c)
       else if scheduled_looping c then
         (if d = 0 then None else Some (Playing, of_nat (unat (scheduled_position c) mod unat d)))
       else if d \<le> scheduled_position c then Some (Ended, d) else Some (Playing, scheduled_position c))"
  using schedule_undisturbed [OF assms, of now d] schedule_takes_effect [OF assms, of d] by blast

theorem command_takes_effect_witness:
  "sample 2000000 100 (snd (schedule sample_command transport_new)) = Some (Playing, 10)"
proof -
  have "schedule sample_command transport_new = (True, snd (schedule sample_command transport_new))"
    by (simp add: schedule_def sample_command_def transport_new_def)
  from command_takes_effect [OF this, of 0 100, THEN conjunct2] show ?thesis
    by (simp add: sample_command_def)
qed

text \<open>
  C17. Refreshing is invisible: unless playback just ended while a command waits, what the
  transport shows at any later time is the same with and without a refresh.
\<close>

theorem refresh_invisible:
  assumes "refresh now d t = Some t'" "now \<le> later"
    and "sample now d t \<noteq> Some (Ended, d) \<or> pending (apply_due now t) = None"
  shows "sample later d t' = sample later d t"
  using assms refresh_running refresh_invisible_pending by blast

theorem refresh_invisible_witness:
  "\<exists>t'. refresh 1000 500 (transport_apply Playing 0 0 False rate_NORMAL transport_new) = Some t' \<and>
     transport_mode t' = Ended \<and>
     sample 2000000 500 t' = sample 2000000 500 (transport_apply Playing 0 0 False rate_NORMAL transport_new)"
proof -
  let ?playing = "transport_apply Playing 0 0 False rate_NORMAL transport_new"
  note model = transport_new_def transport_apply_def refresh_def sample_def apply_due_def wall_since_def
    show_elapsed_def scale_def mul_div_exact rate_NORMAL_def MICROS_PER_SECOND_def
  obtain t' where r: "refresh 1000 500 ?playing = Some t'" "transport_mode t' = Ended"
    by (simp add: model Let_def)
  have "sample 2000000 500 t' = sample 2000000 500 ?playing"
    by (rule refresh_invisible [OF r(1)]) (simp_all add: apply_due_def transport_new_def)
  with r show ?thesis by blast
qed

text \<open>
  An accepted command can be lost: when playback ends before a command's time, the refresh that
  notes the end clears the command, and at its time the transport shows the end instead of playing.
\<close>

theorem refresh_loses_command:
  "\<exists>t t'. schedule sample_command (transport_apply Playing 0 0 False rate_NORMAL transport_new) = (True, t) \<and>
     refresh 1000 500 t = Some t' \<and> pending t' = None \<and>
     sample 2000000 500 t = Some (Playing, 10) \<and> sample 2000000 500 t' = Some (Ended, 500)"
proof -
  let ?playing = "transport_apply Playing 0 0 False rate_NORMAL transport_new"
  let ?t = "snd (schedule sample_command ?playing)"
  note model = schedule_def sample_command_def transport_new_def transport_apply_def refresh_def sample_def
    apply_due_def wall_since_def show_elapsed_def scale_def mul_div_exact rate_NORMAL_def MICROS_PER_SECOND_def
  have "schedule sample_command ?playing = (True, ?t)" by (simp add: model)
  moreover have "\<exists>t'. refresh 1000 500 ?t = Some t' \<and> pending t' = None \<and> sample 2000000 500 t' = Some (Ended, 500)"
    by (simp add: model Let_def)
  moreover have "sample 2000000 500 ?t = Some (Playing, 10)" by (simp add: model Let_def)
  ultimately show ?thesis by blast
qed

text \<open>
  The estimated master clock never runs backwards for a rate of at least -10^9 parts per
  billion: a later local time is never mapped to an earlier master time.
\<close>

theorem master_clock_monotone:
  assumes "- 1000000000 \<le> rate_ppb c" "a \<le> b"
  shows "master_at c a \<le> master_at c b"
  using assms by (rule master_at_mono)

theorem master_clock_monotone_witness:
  "master_at (clock_new\<lparr>rate_ppb := - 20000\<rparr>) 10 \<le> master_at (clock_new\<lparr>rate_ppb := - 20000\<rparr>) 20"
  by (rule master_clock_monotone) (simp_all add: clock_new_def)

text \<open>
  C36. \<open>local_at\<close> inverts \<open>master_at\<close> to within a microsecond, for a clock that does not run slow
  and times the 64-bit estimate holds.
\<close>

theorem clock_inverse:
  assumes "0 \<le> rate_ppb c"
    and "0 \<le> uint (master_anchor c) + (uint local - uint (local_anchor c)) +
           ((uint local - uint (local_anchor c)) * rate_ppb c) sdiv 1000000000"
    and "uint (master_anchor c) + (uint local - uint (local_anchor c)) +
           ((uint local - uint (local_anchor c)) * rate_ppb c) sdiv 1000000000 < 2 ^ 64"
  shows "\<exists>back. local_at c (master_at c local) = Some back \<and> \<bar>uint back - uint local\<bar> \<le> 1"
  using assms by (rule local_master_inverse)

theorem clock_inverse_witness:
  "\<exists>back. local_at (clock_new\<lparr>rate_ppb := 30000\<rparr>) (master_at (clock_new\<lparr>rate_ppb := 30000\<rparr>) 123456) = Some back \<and>
     \<bar>uint back - uint (123456 :: u64)\<bar> \<le> 1"
  by (rule clock_inverse) (simp_all add: clock_new_def signed_divide_int_def)

text \<open>
  C27. What a schedule command needs: it is taken exactly when a show is loaded and is the one it
  names, the controller has not restarted, its clock is in sync, the time is at least 20 ms away
  and the command number is new; refused, it changes nothing.
\<close>

theorem schedule_accepted:
  "(fst (schedule_playback now s st) = Inr () \<longleftrightarrow>
     (\<exists>p. active st = Some p \<and> schedule_boot_id s = boot_id st \<and>
        clock_usable (controller_clock st) (schedule_clock_id s) now \<and>
        show_id p = schedule_show_id s \<and> show_bytes p = schedule_show_bytes s \<and>
        master_at (controller_clock st) now + 20000 \<le> at_micros s \<and>
        command_id (playback_transport p) < schedule_command_id s)) \<and>
   (fst (schedule_playback now s st) = Inr () \<or> snd (schedule_playback now s st) = st)"
  using schedule_accepted_iff [of now s st] schedule_refused [of now s st] by blast

text \<open>
  A cancellation that succeeds leaves a margin: the command was pending under its number and
  due more than the transmission time and a millisecond from now; it is gone, and the generation
  moves on so that frames computed for it are stale.
\<close>

theorem cancel_leaves_margin:
  assumes "cancel_command now i st = (Inr (), st')"
  shows "\<exists>p q p'. active st = Some p \<and> pending (playback_transport p) = Some q \<and> scheduled_id q = i \<and>
    master_at (controller_clock st) now + DATA_MICROS + 1000 < scheduled_at q \<and>
    active st' = Some p' \<and> pending (playback_transport p') = None \<and>
    generation (playback_transport p') = generation (playback_transport p) + 1"
  by (rule cancel_margin [OF assms]) blast

definition sample_controller :: controller where
  "sample_controller =
     \<lparr>boot_id = 1, controller_clock = clock_new,
      active = Some \<lparr>show_duration = 100, playback_transport = snd (schedule sample_command transport_new),
        show_id = 3, show_bytes = 64\<rparr>\<rparr>"

theorem cancel_leaves_margin_witness:
  "\<exists>p q. active sample_controller = Some p \<and> pending (playback_transport p) = Some q \<and>
     master_at (controller_clock sample_controller) 1000 + DATA_MICROS + 1000 < scheduled_at q"
proof -
  have "fst (cancel_command 1000 5 sample_controller) = Inr ()" by code_simp
  then have "cancel_command 1000 5 sample_controller = (Inr (), snd (cancel_command 1000 5 sample_controller))"
    by (cases "cancel_command 1000 5 sample_controller") simp
  from cancel_leaves_margin [OF this] show ?thesis by blast
qed

text \<open>
  C39. A clock that stands still: the controller accepts a rate of -10^9 parts per billion, and
  every later conversion back to local time then divides by zero.
\<close>

theorem sync_accepts_stopped_clock:
  assumes "sync_boot_id s = boot_id st" "sync_rate_ppb s = - 1000000000" "active st = None"
  shows "\<exists>st'. sync_clock now s st = Some (Inr (), st') \<and> local_at (controller_clock st') master = None"
  using assms by (rule sync_stops_clock)

theorem sync_accepts_stopped_clock_witness:
  "\<exists>st'. sync_clock 0 \<lparr>sync_boot_id = 1, sync_clock_id = 2, local_micros = 0, master_micros = 0,
       sync_rate_ppb = - 1000000000, valid_for_micros = 1000\<rparr> (sample_controller\<lparr>active := None\<rparr>) = Some (Inr (), st') \<and>
     local_at (controller_clock st') 5 = None"
  by (rule sync_accepts_stopped_clock) (simp_all add: sample_controller_def)

end
