(* ===== verification/Lexer.thy ===== *)
theory Lexer
  imports Text
begin

text \<open>
  The lexer of Donder documents, \<open>crates/donder-language/src/compiler/syntax/lexer.rs\<close>.
  The source keeps the whole text and a byte cursor; the model keeps the text from the
  cursor on and the cursor, and a slice \<open>source[start..cursor]\<close> is the characters taken since.
\<close>

section \<open>Tokens\<close>

record text_span =
  span_start :: nat
  span_end :: nat

definition span_to :: "text_span \<Rightarrow> text_span \<Rightarrow> text_span" where
  "span_to a b = \<lparr>span_start = span_start a, span_end = span_end b\<rparr>"

datatype keyword =
  KwEffect | KwOperator | KwFn | KwLet | KwGuard | KwIf | KwElse | KwFor | KwIn | KwTrue
  | KwFalse | KwImport | KwFrom | KwNone

datatype lex_error = UnexpectedCharacter | InvalidColor | UnterminatedString | UnterminatedPath
  | CommentInData

datatype token_kind =
    TokIdentifier | TokInteger | TokFloat | TokColor | TokString | TokDuration | TokDistance
  | TokPath | TokKeyword keyword
  | TokLeftBrace | TokRightBrace | TokLeftParen | TokRightParen | TokLeftBracket
  | TokRightBracket | TokLess | TokGreater | TokLessEqual | TokGreaterEqual | TokColon
  | TokSemicolon | TokComma | TokDot | TokDotDot | TokDotDotEqual | TokEquals
  | TokEqualEqual | TokBang | TokBangEqual | TokAmpAmp | TokPipePipe | TokPlus | TokMinus
  | TokStar | TokSlash | TokSlashSlash | TokArrow | TokPercent
  | TokEof | TokError lex_error

record token =
  token_kind :: token_kind
  token_span :: text_span

datatype lex_mode = Script | Data

definition keyword_text :: "keyword \<Rightarrow> rstr" where
  "keyword_text k =
     (case k of
        KwEffect \<Rightarrow> str ''effect''
      | KwOperator \<Rightarrow> str ''operator''
      | KwFn \<Rightarrow> str ''fn''
      | KwLet \<Rightarrow> str ''let''
      | KwGuard \<Rightarrow> str ''guard''
      | KwIf \<Rightarrow> str ''if''
      | KwElse \<Rightarrow> str ''else''
      | KwFor \<Rightarrow> str ''for''
      | KwIn \<Rightarrow> str ''in''
      | KwTrue \<Rightarrow> str ''true''
      | KwFalse \<Rightarrow> str ''false''
      | KwImport \<Rightarrow> str ''import''
      | KwFrom \<Rightarrow> str ''from''
      | KwNone \<Rightarrow> str ''none'')"

definition mode_keywords :: "lex_mode \<Rightarrow> keyword list" where
  "mode_keywords m =
     (case m of
        Script \<Rightarrow> [KwEffect, KwOperator, KwFn, KwLet, KwGuard, KwIf, KwElse, KwFor, KwIn, KwTrue,
          KwFalse]
      | Data \<Rightarrow> [KwImport, KwFrom, KwNone, KwTrue, KwFalse])"

definition keyword_of :: "rstr \<Rightarrow> lex_mode \<Rightarrow> keyword option" where
  "keyword_of text m = find (\<lambda>k. keyword_text k = text) (mode_keywords m)"

datatype contextual_keyword =
  CtxParam | CtxInput | CtxSample | CtxAround | CtxExtended | CtxMirrored | CtxAs | CtxScan
  | CtxForward | CtxBackward | CtxDecay

definition contextual_ALL :: "contextual_keyword list" where
  "contextual_ALL =
     [CtxParam, CtxInput, CtxSample, CtxAround, CtxExtended, CtxMirrored, CtxAs, CtxScan
  , CtxForward, CtxBackward, CtxDecay]"

definition contextual_MEMBERS :: "contextual_keyword list" where
  "contextual_MEMBERS = [CtxParam, CtxInput, CtxSample]"

definition contextual_text :: "contextual_keyword \<Rightarrow> rstr" where
  "contextual_text k =
     (case k of
        CtxParam \<Rightarrow> str ''param''
      | CtxInput \<Rightarrow> str ''input''
      | CtxSample \<Rightarrow> str ''sample''
      | CtxAround \<Rightarrow> str ''around''
      | CtxExtended \<Rightarrow> str ''extended''
      | CtxMirrored \<Rightarrow> str ''mirrored''
      | CtxAs \<Rightarrow> str ''as''
      | CtxScan \<Rightarrow> str ''scan''
      | CtxForward \<Rightarrow> str ''forward''
      | CtxBackward \<Rightarrow> str ''backward''
      | CtxDecay \<Rightarrow> str ''decay'')"

definition contextual_of :: "rstr \<Rightarrow> contextual_keyword option" where
  "contextual_of t = find (\<lambda>k. contextual_text k = t) contextual_ALL"

definition is_member :: "contextual_keyword \<Rightarrow> bool" where
  "is_member k \<longleftrightarrow> k \<in> set contextual_MEMBERS"

section \<open>The lexer\<close>

record lexer =
  rest :: rstr
  cursor :: nat
  lex_mode :: lex_mode
  comments :: "text_span list"

definition peek :: "lexer \<Rightarrow> rchar option" where
  "peek l = nth_opt (rest l) 0"

definition peek_second :: "lexer \<Rightarrow> rchar option" where
  "peek_second l = nth_opt (rest l) 1"

definition bump :: "lexer \<Rightarrow> lexer" where
  "bump l = (case rest l of [] \<Rightarrow> l | c # cs \<Rightarrow> l\<lparr>rest := cs, cursor := cursor l + len_utf8 c\<rparr>)"

text \<open>\<open>take_while\<close> with the characters it took; the source returns their count.\<close>

fun take_while_from :: "(rchar \<Rightarrow> bool) \<Rightarrow> rstr \<Rightarrow> nat \<Rightarrow> rstr \<times> rstr \<times> nat" where
  "take_while_from p [] n = ([], [], n)"
| "take_while_from p (c # cs) n =
     (if p c then let (taken, left, n) = take_while_from p cs (n + len_utf8 c) in (c # taken, left, n)
      else ([], c # cs, n))"

definition take_while :: "(rchar \<Rightarrow> bool) \<Rightarrow> lexer \<Rightarrow> rstr \<times> lexer" where
  "take_while p l =
     (let (taken, left, n) = take_while_from p (rest l) (cursor l) in (taken, l\<lparr>rest := left, cursor := n\<rparr>))"

definition eat :: "rchar \<Rightarrow> lexer \<Rightarrow> bool \<times> lexer" where
  "eat expected l = (if peek l = Some expected then (True, bump l) else (False, l))"

definition pair_kind :: "rchar \<Rightarrow> token_kind \<Rightarrow> token_kind \<Rightarrow> lexer \<Rightarrow> token_kind \<times> lexer" where
  "pair_kind nxt matched single l = (let (ate, l) = eat nxt l in (if ate then matched else single, l))"

definition make_token :: "token_kind \<Rightarrow> nat \<Rightarrow> lexer \<Rightarrow> token" where
  "make_token kind start l = \<lparr>token_kind = kind, token_span = \<lparr>span_start = start, span_end = cursor l\<rparr>\<rparr>"

text \<open>The body of a string: up to the closing quote, or before a line feed.\<close>

fun string_body :: "bool \<Rightarrow> rstr \<Rightarrow> nat \<Rightarrow> bool \<times> rstr \<times> nat" where
  "string_body escaped [] n = (False, [], n)"
| "string_body escaped (c # cs) n =
     (if c = 10 then (False, c # cs, n)
      else let n = n + len_utf8 c
        in if \<not> escaped \<and> c = 34 then (True, cs, n)
           else string_body (\<not> escaped \<and> c = 92) cs n)"

definition lex_string :: "lexer \<Rightarrow> token_kind \<times> lexer" where
  "lex_string l =
     (let (closed, left, n) = string_body False (rest l) (cursor l)
      in (if closed then TokString else TokError UnterminatedString, l\<lparr>rest := left, cursor := n\<rparr>))"

definition lex_path :: "lexer \<Rightarrow> token_kind \<times> lexer" where
  "lex_path l =
     (let (taken, l) = take_while (\<lambda>c. \<not> (c = 60 \<or> c = 62 \<or> c = 10 \<or> c = 13)) l;
          (ate, l) = eat 62 l
      in (if ate then TokPath else TokError UnterminatedPath, l))"

definition lex_dots :: "lexer \<Rightarrow> token_kind \<times> lexer" where
  "lex_dots l =
     (let (second, l) = eat 46 l
      in if second then (let (inclusive, l) = eat 61 l in (if inclusive then TokDotDotEqual else TokDotDot, l))
         else (TokDot, l))"

definition lex_color :: "lexer \<Rightarrow> token_kind \<times> lexer" where
  "lex_color l =
     (let (taken, l) = take_while is_ascii_hexdigit l
      in (if length taken = 6 then TokColor else TokError InvalidColor, l))"

definition is_word_start :: "rchar \<Rightarrow> bool" where
  "is_word_start c \<longleftrightarrow> c = 95 \<or> is_ascii_alphabetic c"

definition is_word_char :: "rchar \<Rightarrow> bool" where
  "is_word_char c \<longleftrightarrow> c = 95 \<or> is_ascii_alphanumeric c"

definition lex_word :: "rchar \<Rightarrow> lexer \<Rightarrow> token_kind \<times> lexer" where
  "lex_word c l =
     (let (taken, l) = take_while is_word_char l
      in (case keyword_of (c # taken) (lex_mode l) of Some k \<Rightarrow> TokKeyword k | None \<Rightarrow> TokIdentifier, l))"

definition lex_number :: "lexer \<Rightarrow> token_kind \<times> lexer" where
  "lex_number l =
     (let (taken, l) = take_while is_ascii_digit l;
          fraction = (peek l = Some 46 \<and>
            (case peek_second l of Some c \<Rightarrow> is_ascii_digit c | None \<Rightarrow> False));
          l = (if fraction then snd (take_while is_ascii_digit (bump l)) else l);
          unit = (case peek l of
              Some u \<Rightarrow> if lex_mode l = Data \<and> (u = 115 \<or> u = 109) \<and>
                           \<not> (case peek_second l of Some c \<Rightarrow> is_word_char c | None \<Rightarrow> False)
                        then Some u else None
            | None \<Rightarrow> None)
      in case unit of
           Some u \<Rightarrow> (if u = 115 then TokDuration else TokDistance, bump l)
         | None \<Rightarrow> (if fraction then TokFloat else TokInteger, l))"

text \<open>The token that starts with \<open>c\<close>, taken already.\<close>

definition lex_kind :: "rchar \<Rightarrow> lexer \<Rightarrow> token_kind \<times> lexer" where
  "lex_kind c l =
     (if c = 123 then (TokLeftBrace, l)
      else if c = 125 then (TokRightBrace, l)
      else if c = 40 then (TokLeftParen, l)
      else if c = 41 then (TokRightParen, l)
      else if c = 91 then (TokLeftBracket, l)
      else if c = 93 then (TokRightBracket, l)
      else if c = 58 then (TokColon, l)
      else if c = 59 then (TokSemicolon, l)
      else if c = 44 then (TokComma, l)
      else if c = 43 then (TokPlus, l)
      else if c = 45 then pair_kind 62 TokArrow TokMinus l
      else if c = 42 then (TokStar, l)
      else if c = 47 then pair_kind 47 TokSlashSlash TokSlash l
      else if c = 37 then (TokPercent, l)
      else if c = 60 \<and> lex_mode l = Data then lex_path l
      else if c = 60 then pair_kind 61 TokLessEqual TokLess l
      else if c = 34 then lex_string l
      else if c = 62 then pair_kind 61 TokGreaterEqual TokGreater l
      else if c = 61 then pair_kind 61 TokEqualEqual TokEquals l
      else if c = 33 then pair_kind 61 TokBangEqual TokBang l
      else if c = 38 then pair_kind 38 TokAmpAmp (TokError UnexpectedCharacter) l
      else if c = 124 then pair_kind 124 TokPipePipe (TokError UnexpectedCharacter) l
      else if c = 46 then lex_dots l
      else if c = 35 then lex_color l
      else if is_word_start c then lex_word c l
      else if is_ascii_digit c then lex_number l
      else (TokError UnexpectedCharacter, l))"

section \<open>Progress\<close>

text \<open>Every step of the lexer takes some text from the front and moves the cursor past it.\<close>

definition advances :: "lexer \<Rightarrow> rstr \<Rightarrow> lexer \<Rightarrow> bool" where
  "advances l t l' \<longleftrightarrow>
     rest l = t @ rest l' \<and> cursor l' = cursor l + utf8_len t \<and> lex_mode l' = lex_mode l"

lemma advances_refl [simp]: "advances l [] l"
  by (simp add: advances_def)

lemma advances_trans [trans]: "advances l a l1 \<Longrightarrow> advances l1 b l2 \<Longrightarrow> advances l (a @ b) l2"
  by (simp add: advances_def)

lemma advances_mode: "advances l t l' \<Longrightarrow> lex_mode l' = lex_mode l"
  by (simp add: advances_def)

lemma advances_bump: "peek l = Some c \<Longrightarrow> advances l [c] (bump l)"
  by (cases "rest l") (auto simp: peek_def bump_def advances_def nth_opt_def)

lemma take_while_from:
  "take_while_from p cs n = (takeWhile p cs, dropWhile p cs, n + utf8_len (takeWhile p cs))"
  by (induction cs arbitrary: n) simp_all

lemma take_while:
  assumes "take_while p l = (taken, l')"
  shows "taken = takeWhile p (rest l)" "rest l' = dropWhile p (rest l)" "advances l taken l'"
    "comments l' = comments l"
  using assms by (auto simp: take_while_def take_while_from advances_def)

lemma advances_take_while: "advances l (takeWhile p (rest l)) (snd (take_while p l))"
  by (simp add: take_while_def take_while_from advances_def)

lemma advances_eat: "eat c l = (ate, l') \<Longrightarrow> advances l (if ate then [c] else []) l'"
  by (auto simp: eat_def advances_bump split: if_splits)

lemma string_body:
  "string_body e cs n = (closed, left, n') \<Longrightarrow>
   \<exists>t. cs = t @ left \<and> n' = n + utf8_len t \<and> 10 \<notin> set t \<and> (closed \<longrightarrow> t \<noteq> [] \<and> last t = 34)"
proof (induction e cs n arbitrary: closed left n' rule: string_body.induct)
  case (2 e c cs n)
  show ?case
  proof (cases "c = 10")
    case True
    then show ?thesis using "2.prems" by auto
  next
    case line: False
    show ?thesis
    proof (cases "\<not> e \<and> c = 34")
      case True
      then show ?thesis using "2.prems" by (intro exI [of _ "[c]"]) auto
    next
      case False
      then have "string_body (\<not> e \<and> c = 92) cs (n + len_utf8 c) = (closed, left, n')"
        using "2.prems" by (simp only: string_body.simps Let_def line False if_False)
      from "2.IH" [OF line refl False this] obtain t
        where "cs = t @ left" "n' = n + len_utf8 c + utf8_len t" "10 \<notin> set t"
          "closed \<longrightarrow> t \<noteq> [] \<and> last t = 34" by blast
      then show ?thesis using line by (intro exI [of _ "c # t"]) auto
    qed
  qed
qed simp

section \<open>What each token covers\<close>

definition is_word :: "rstr \<Rightarrow> bool" where
  "is_word t \<longleftrightarrow> t \<noteq> [] \<and> is_word_start (hd t) \<and> (\<forall>c \<in> set (tl t). is_word_char c)"

definition is_number :: "rstr \<Rightarrow> bool" where
  "is_number t \<longleftrightarrow> t \<noteq> [] \<and> (\<forall>c \<in> set t. is_ascii_digit c)"

definition is_fraction :: "rstr \<Rightarrow> bool" where
  "is_fraction t \<longleftrightarrow> (case split_once 46 t of Some (a, b) \<Rightarrow> is_number a \<and> is_number b | None \<Rightarrow> False)"

definition kind_text :: "lex_mode \<Rightarrow> token_kind \<Rightarrow> rstr \<Rightarrow> bool" where
  "kind_text m k t =
     (case k of
        TokIdentifier \<Rightarrow> is_word t \<and> keyword_of t m = None
      | TokKeyword w \<Rightarrow> is_word t \<and> keyword_of t m = Some w
      | TokInteger \<Rightarrow> is_number t
      | TokFloat \<Rightarrow> is_fraction t
      | TokDuration \<Rightarrow> m = Data \<and> (\<exists>n. t = n @ [115] \<and> (is_number n \<or> is_fraction n))
      | TokDistance \<Rightarrow> m = Data \<and> (\<exists>n. t = n @ [109] \<and> (is_number n \<or> is_fraction n))
      | TokColor \<Rightarrow> \<exists>h. t = 35 # h \<and> length h = 6 \<and> (\<forall>c \<in> set h. is_ascii_hexdigit c)
      | TokString \<Rightarrow> \<exists>b. t = 34 # b \<and> b \<noteq> [] \<and> last b = 34 \<and> 10 \<notin> set b
      | TokPath \<Rightarrow> m = Data \<and> (\<exists>b. t = 60 # b @ [62] \<and> set b \<inter> {60, 62, 10, 13} = {})
      | TokEof \<Rightarrow> t = []
      | TokError e \<Rightarrow> t \<noteq> []
      | TokLeftBrace \<Rightarrow> t = str ''{'' | TokRightBrace \<Rightarrow> t = str ''}''
      | TokLeftParen \<Rightarrow> t = str ''('' | TokRightParen \<Rightarrow> t = str '')''
      | TokLeftBracket \<Rightarrow> t = str ''['' | TokRightBracket \<Rightarrow> t = str '']''
      | TokLess \<Rightarrow> t = str ''<'' \<and> m = Script | TokGreater \<Rightarrow> t = str ''>''
      | TokLessEqual \<Rightarrow> t = str ''<='' \<and> m = Script | TokGreaterEqual \<Rightarrow> t = str ''>=''
      | TokColon \<Rightarrow> t = str '':'' | TokSemicolon \<Rightarrow> t = str '';'' | TokComma \<Rightarrow> t = str '',''
      | TokDot \<Rightarrow> t = str ''.'' | TokDotDot \<Rightarrow> t = str ''..'' | TokDotDotEqual \<Rightarrow> t = str ''..=''
      | TokEquals \<Rightarrow> t = str ''='' | TokEqualEqual \<Rightarrow> t = str ''=='' | TokBang \<Rightarrow> t = str ''!''
      | TokBangEqual \<Rightarrow> t = str ''!='' | TokAmpAmp \<Rightarrow> t = str ''&&'' | TokPipePipe \<Rightarrow> t = str ''||''
      | TokPlus \<Rightarrow> t = str ''+'' | TokMinus \<Rightarrow> t = str ''-'' | TokStar \<Rightarrow> t = str ''*''
      | TokSlash \<Rightarrow> t = str ''/'' | TokSlashSlash \<Rightarrow> t = str ''//'' | TokArrow \<Rightarrow> t = str ''->''
      | TokPercent \<Rightarrow> t = str ''%'')"

text \<open>A scanned piece: the text taken after the first character, and what it makes of the token.\<close>

definition scans :: "rchar \<Rightarrow> lexer \<Rightarrow> token_kind \<times> lexer \<Rightarrow> bool" where
  "scans c l r \<longleftrightarrow>
     (\<exists>t. advances l t (snd r) \<and> kind_text (lex_mode l) (fst r) (c # t) \<and> fst r \<noteq> TokEof \<and>
        comments (snd r) = comments l)"

lemma bump_comments [simp]: "comments (bump l) = comments l"
  by (simp add: bump_def split: list.split)

lemma eat_comments: "eat c l = (ate, l') \<Longrightarrow> comments l' = comments l"
  by (auto simp: eat_def split: if_splits)

lemma scans_alone: "kind_text (lex_mode l) k [c] \<Longrightarrow> k \<noteq> TokEof \<Longrightarrow> scans c l (k, l)"
  unfolding scans_def by (intro exI [of _ "[]"]) simp

lemma scans_pair:
  assumes "kind_text (lex_mode l) matched [c, nxt]" "kind_text (lex_mode l) single [c]"
    "matched \<noteq> TokEof" "single \<noteq> TokEof"
  shows "scans c l (pair_kind nxt matched single l)"
proof -
  obtain ate l' where e: "eat nxt l = (ate, l')" by (cases "eat nxt l")
  show ?thesis
    unfolding scans_def using assms advances_eat [OF e] eat_comments [OF e]
    by (intro exI [of _ "if ate then [nxt] else []"]) (auto simp: pair_kind_def e)
qed

lemma scans_string: "scans 34 l (lex_string l)"
proof -
  obtain closed left n where b: "string_body False (rest l) (cursor l) = (closed, left, n)"
    by (cases "string_body False (rest l) (cursor l)")
  from string_body [OF b] obtain t where t: "rest l = t @ left" "n = cursor l + utf8_len t"
    "10 \<notin> set t" "closed \<longrightarrow> t \<noteq> [] \<and> last t = 34" by blast
  have eq: "lex_string l =
      (if closed then TokString else TokError UnterminatedString, l\<lparr>rest := left, cursor := n\<rparr>)"
    by (simp add: lex_string_def b)
  show ?thesis unfolding scans_def eq using t
    by (intro exI [of _ t]) (auto simp: advances_def kind_text_def)
qed

lemma scans_path:
  assumes "lex_mode l = Data"
  shows "scans 60 l (lex_path l)"
proof -
  let ?p = "\<lambda>c. \<not> (c = 60 \<or> c = 62 \<or> c = 10 \<or> c = 13)"
  obtain taken l1 where tw: "take_while ?p l = (taken, l1)" by (cases "take_while ?p l")
  obtain ate l2 where e: "eat 62 l1 = (ate, l2)" by (cases "eat 62 l1")
  note t = take_while [OF tw]
  have "set taken \<inter> {60, 62, 10, 13} = {}" unfolding t(1) by (auto dest: set_takeWhileD)
  moreover have "advances l (taken @ (if ate then [62] else [])) l2"
    using t(3) advances_eat [OF e] by (rule advances_trans)
  moreover have "comments l2 = comments l" using eat_comments [OF e] t(4) by simp
  moreover have "lex_path l = (if ate then TokPath else TokError UnterminatedPath, l2)"
    unfolding lex_path_def tw prod.case Let_def e by (rule refl)
  ultimately show ?thesis unfolding scans_def using assms
    by (intro exI [of _ "taken @ (if ate then [62] else [])"]) (auto simp: kind_text_def)
qed

lemma scans_dots: "scans 46 l (lex_dots l)"
proof -
  obtain a l1 where e1: "eat 46 l = (a, l1)" by (cases "eat 46 l")
  obtain b l2 where e2: "eat 61 l1 = (b, l2)" by (cases "eat 61 l1")
  note a1 = advances_eat [OF e1] and a2 = advances_eat [OF e2]
  note c1 = eat_comments [OF e1] and c2 = eat_comments [OF e2]
  show ?thesis
  proof (cases a)
    case True
    then have "advances l [46] l1" using a1 by simp
    then have "advances l ([46] @ (if b then [61] else [])) l2" using a2 by (rule advances_trans)
    with True c1 c2 show ?thesis unfolding scans_def
      by (intro exI [of _ "[46] @ (if b then [61] else [])"]) (auto simp: lex_dots_def e1 e2 kind_text_def)
  next
    case False
    with a1 c1 show ?thesis unfolding scans_def
      by (intro exI [of _ "[]"]) (simp add: lex_dots_def e1 kind_text_def)
  qed
qed

lemma scans_color: "scans 35 l (lex_color l)"
proof -
  obtain taken l1 where tw: "take_while is_ascii_hexdigit l = (taken, l1)"
    by (cases "take_while is_ascii_hexdigit l")
  note t = take_while [OF tw]
  have "\<forall>c \<in> set taken. is_ascii_hexdigit c" unfolding t(1) by (auto dest: set_takeWhileD)
  with t(3,4) show ?thesis unfolding scans_def
    by (intro exI [of _ taken]) (auto simp: lex_color_def tw kind_text_def)
qed

lemma scans_word:
  assumes "is_word_start c"
  shows "scans c l (lex_word c l)"
proof -
  obtain taken l1 where tw: "take_while is_word_char l = (taken, l1)" by (cases "take_while is_word_char l")
  note t = take_while [OF tw]
  have "\<forall>c \<in> set taken. is_word_char c" unfolding t(1) by (auto dest: set_takeWhileD)
  with assms t(3,4) advances_mode [OF t(3)] show ?thesis unfolding scans_def
    by (intro exI [of _ taken]) (auto simp: lex_word_def tw kind_text_def is_word_def split: option.split)
qed

lemma split_once_number: "is_number a \<Longrightarrow> split_once 46 (a @ 46 # b) = Some (a, b)"
  by (rule split_once_append) (auto simp: is_number_def is_ascii_digit_def)

lemma is_fraction_append: "is_number a \<Longrightarrow> is_number b \<Longrightarrow> is_fraction (a @ 46 # b)"
  by (simp add: is_fraction_def split_once_number)

text \<open>A number without its unit: what it took and whether it has a fraction.\<close>

lemma scans_number:
  assumes "is_ascii_digit c"
  shows "scans c l (lex_number l)"
proof -
  obtain taken l1 where tw: "take_while is_ascii_digit l = (taken, l1)" by (cases "take_while is_ascii_digit l")
  note t = take_while [OF tw]
  have number: "is_number (c # taken)"
    using assms unfolding is_number_def t(1) by (auto dest: set_takeWhileD)
  define fraction where "fraction = (peek l1 = Some 46 \<and>
      (case peek_second l1 of Some c \<Rightarrow> is_ascii_digit c | None \<Rightarrow> False))"
  define l2 where "l2 = (if fraction then snd (take_while is_ascii_digit (bump l1)) else l1)"
  have "\<exists>u. advances l u l2 \<and> (if fraction then is_fraction (c # u) else is_number (c # u)) \<and>
      comments l2 = comments l"
  proof (cases fraction)
    case True
    obtain digits l3 where tw2: "take_while is_ascii_digit (bump l1) = (digits, l3)"
      by (cases "take_while is_ascii_digit (bump l1)")
    note t2 = take_while [OF tw2]
    have p: "peek l1 = Some 46" and d: "\<exists>d. peek_second l1 = Some d \<and> is_ascii_digit d"
      using True by (auto simp: fraction_def split: option.splits)
    then obtain d ds where "rest l1 = 46 # d # ds" "is_ascii_digit d"
      by (cases "rest l1"; cases "tl (rest l1)") (auto simp: peek_def peek_second_def nth_opt_def)
    then have "digits \<noteq> []" unfolding t2(1) by (simp add: bump_def)
    then have "is_number digits" unfolding is_number_def t2(1) by (auto dest: set_takeWhileD)
    with number have "is_fraction ((c # taken) @ 46 # digits)" by (rule is_fraction_append)
    moreover have "advances l (taken @ [46] @ digits) l3"
      using t(3) advances_bump [OF p] t2(3) by (blast intro: advances_trans)
    moreover have "comments l3 = comments l" using t2(4) t(4) by simp
    ultimately show ?thesis using True
      by (intro exI [of _ "taken @ [46] @ digits"]) (simp add: l2_def tw2)
  next
    case False
    then show ?thesis using t(3,4) number by (intro exI [of _ taken]) (simp add: l2_def)
  qed
  then obtain u where u: "advances l u l2" "if fraction then is_fraction (c # u) else is_number (c # u)"
    "comments l2 = comments l" by blast
  define unit where "unit = (case peek l2 of
      Some u \<Rightarrow> if lex_mode l2 = Data \<and> (u = 115 \<or> u = 109) \<and>
                   \<not> (case peek_second l2 of Some c \<Rightarrow> is_word_char c | None \<Rightarrow> False)
                then Some u else None
    | None \<Rightarrow> None)"
  have lex: "lex_number l = (case unit of
      Some u \<Rightarrow> (if u = 115 then TokDuration else TokDistance, bump l2)
    | None \<Rightarrow> (if fraction then TokFloat else TokInteger, l2))"
    unfolding lex_number_def tw Let_def fraction_def l2_def unit_def prod.case by (rule refl)
  show ?thesis
  proof (cases unit)
    case None
    then show ?thesis unfolding scans_def using u
      by (intro exI [of _ u]) (auto simp: lex kind_text_def split: if_splits)
  next
    case (Some n)
    then have n: "peek l2 = Some n" "lex_mode l2 = Data" "n = 115 \<or> n = 109"
      by (auto simp: unit_def split: option.splits if_splits)
    have "advances l (u @ [n]) (bump l2)" using u(1) advances_bump [OF n(1)] by (rule advances_trans)
    moreover have "lex_mode l = Data" using advances_mode [OF u(1)] n(2) by simp
    moreover have "is_number (c # u) \<or> is_fraction (c # u)" using u(2) by (auto split: if_splits)
    ultimately show ?thesis unfolding scans_def using n(3) u(3)
      by (intro exI [of _ "u @ [n]"]) (auto simp: lex Some kind_text_def)
  qed
qed

lemma not_data: "m \<noteq> Data \<longleftrightarrow> m = Script"
  by (cases m) simp_all

lemma scans_kind: "scans c l (lex_kind c l)"
  unfolding lex_kind_def
  by (intro if_split [where P = "scans c l", THEN iffD2] conjI impI)
    (auto intro!: scans_pair scans_alone scans_string scans_path scans_dots scans_color scans_word scans_number
      simp: kind_text_def not_data)

section \<open>The token stream\<close>

text \<open>
  \<open>skip_trivia\<close>: white space and, in scripts, \<open>--\<close> comments. A comment in a data document
  is a token of its own.
\<close>

definition at_comment :: "rstr \<Rightarrow> bool" where
  "at_comment t \<longleftrightarrow> take 2 t = str ''--''"

function skip_trivia :: "lexer \<Rightarrow> token option \<times> lexer" where
  "skip_trivia l =
     (let l = snd (take_while is_whitespace l)
      in if \<not> at_comment (rest l) then (None, l)
         else let start = cursor l; l = snd (take_while (\<lambda>c. c \<noteq> 10) l)
           in if lex_mode l = Data then (Some (make_token (TokError CommentInData) start l), l)
              else skip_trivia (l\<lparr>comments := comments l @ [\<lparr>span_start = start, span_end = cursor l\<rparr>]\<rparr>))"
  by pat_completeness auto

lemma rest_take_while [simp]: "rest (snd (take_while p l)) = dropWhile p (rest l)"
  by (simp add: take_while_def take_while_from)

lemma cursor_take_while [simp]: "cursor (snd (take_while p l)) = cursor l + utf8_len (takeWhile p (rest l))"
  by (simp add: take_while_def take_while_from)

lemma mode_take_while [simp]: "lex_mode (snd (take_while p l)) = lex_mode l"
  by (simp add: take_while_def take_while_from)

lemma comments_take_while [simp]: "comments (snd (take_while p l)) = comments l"
  by (simp add: take_while_def take_while_from)

lemma at_comment_iff: "at_comment t \<longleftrightarrow> (\<exists>u. t = 45 # 45 # u)"
  by (cases t; cases "tl t") (auto simp: at_comment_def)

lemma length_comment: "at_comment t \<Longrightarrow> length (dropWhile (\<lambda>c. c \<noteq> 10) t) < length t"
  by (auto simp: at_comment_iff less_Suc_eq_le le_SucI length_dropWhile_le)

termination skip_trivia
proof (relation "measure (\<lambda>l. length (rest l))", goal_cases)
  case (2 l l1 start l2)
  then have "length (rest l2) < length (rest l1)" by (simp add: length_comment)
  also have "\<dots> \<le> length (rest l)" using 2 by (simp add: length_dropWhile_le)
  finally show ?case by simp
qed simp

declare skip_trivia.simps [simp del]

definition next_token :: "lexer \<Rightarrow> token \<times> lexer" where
  "next_token l =
     (case skip_trivia l of
        (Some comment, l) \<Rightarrow> (comment, l)
      | (None, l) \<Rightarrow>
          (case rest l of
             [] \<Rightarrow> (make_token TokEof (cursor l) l, l)
           | c # _ \<Rightarrow> let (kind, l') = lex_kind c (bump l) in (make_token kind (cursor l) l', l')))"

lemma lex_kind_advances:
  assumes "rest l = c # cs" "lex_kind c (bump l) = (k, l')"
  obtains t where "rest l = t @ rest l'" "t \<noteq> []" "hd t = c" "cursor l' = cursor l + utf8_len t"
    "lex_mode l' = lex_mode l" "kind_text (lex_mode l) k t" "k \<noteq> TokEof" "comments l' = comments l"
proof -
  have b: "rest (bump l) = cs" "cursor (bump l) = cursor l + len_utf8 c" "lex_mode (bump l) = lex_mode l"
    using assms(1) by (simp_all add: bump_def)
  have "scans c (bump l) (k, l')" using scans_kind [of c "bump l"] assms(2) by simp
  then obtain t where t: "cs = t @ rest l'" "cursor l' = cursor l + len_utf8 c + utf8_len t"
    "lex_mode l' = lex_mode l" "kind_text (lex_mode l) k (c # t)" "k \<noteq> TokEof" "comments l' = comments l"
    unfolding scans_def advances_def b by auto
  show thesis by (rule that [of "c # t"]) (use t assms(1) in simp_all)
qed

lemma skip_trivia_rest: "length (rest (snd (skip_trivia l))) \<le> length (rest l)"
proof (induction l rule: skip_trivia.induct)
  case (1 l)
  let ?l = "snd (take_while is_whitespace l)" and ?m = "snd (take_while (\<lambda>c. c \<noteq> 10) (snd (take_while is_whitespace l)))"
  have "length (rest ?m) \<le> length (rest l)"
    using length_dropWhile_le [of "\<lambda>c. c \<noteq> 10" "dropWhile is_whitespace (rest l)"]
      length_dropWhile_le [of is_whitespace "rest l"] by simp
  with "1.IH" [OF refl _ refl refl] show ?case
    by (subst skip_trivia.simps) (force simp: Let_def length_dropWhile_le)
qed

lemma next_token_rest:
  assumes "next_token l = (t, l')" "token_kind t \<noteq> TokEof" "\<not> (\<exists>c. fst (skip_trivia l) = Some c)"
  shows "length (rest l') < length (rest l)"
proof -
  obtain l1 where s: "skip_trivia l = (None, l1)" using assms(3) by (cases "skip_trivia l") auto
  show ?thesis
  proof (cases "rest l1")
    case Nil
    then show ?thesis using assms s by (auto simp: next_token_def make_token_def)
  next
    case (Cons c cs)
    obtain k l2 where k: "lex_kind c (bump l1) = (k, l2)" by (cases "lex_kind c (bump l1)")
    obtain u where "rest l1 = u @ rest l2" "u \<noteq> []" by (rule lex_kind_advances [OF Cons k])
    then have "length (rest l2) < length (rest l1)" by simp
    also have "\<dots> \<le> length (rest l)" using skip_trivia_rest [of l] s by simp
    finally show ?thesis using assms(1) s Cons k by (simp add: next_token_def)
  qed
qed

lemma skip_trivia_comment:
  "fst (skip_trivia l) = Some c \<Longrightarrow> length (rest (snd (skip_trivia l))) < length (rest l)"
proof (induction l rule: skip_trivia.induct)
  case (1 l)
  let ?l = "snd (take_while is_whitespace l)"
  let ?m = "snd (take_while (\<lambda>c. c \<noteq> 10) ?l)"
  have shorter: "at_comment (rest ?l) \<Longrightarrow> length (rest ?m) < length (rest l)"
    using length_comment [of "rest ?l"] length_dropWhile_le [of is_whitespace "rest l"] by simp
  have comment: "at_comment (rest ?l)"
    using "1.prems" by (subst (asm) skip_trivia.simps) (simp add: Let_def split: if_splits)
  show ?case
  proof (cases "lex_mode ?m = Data")
    case True
    with comment shorter show ?thesis by (subst skip_trivia.simps) (simp add: Let_def)
  next
    case False
    note eq = skip_trivia.simps [of l, unfolded Let_def]
    show ?thesis using "1.IH" [OF refl _ refl refl] "1.prems" comment False shorter
      by (subst eq, subst (asm) eq) fastforce
  qed
qed

function lex_tokens :: "lexer \<Rightarrow> token list \<times> text_span list" where
  "lex_tokens l =
     (let (t, l) = next_token l
      in if token_kind t = TokEof then ([t], comments l)
         else let (ts, cs) = lex_tokens l in (t # ts, cs))"
  by pat_completeness auto

termination lex_tokens
proof (relation "measure (\<lambda>l. length (rest l))", goal_cases)
  case (2 l x t l')
  then have n: "next_token l = (t, l')" "token_kind t \<noteq> TokEof" by auto
  show ?case
  proof (cases "\<exists>c. fst (skip_trivia l) = Some c")
    case True
    then obtain c m where s: "skip_trivia l = (Some c, m)" by (cases "skip_trivia l") auto
    with n have "l' = m" by (simp add: next_token_def)
    with skip_trivia_comment [of l c] s show ?thesis by simp
  next
    case False
    then show ?thesis using next_token_rest [OF n] by simp
  qed
qed simp

declare lex_tokens.simps [simp del]

definition lex_with_comments :: "rstr \<Rightarrow> lex_mode \<Rightarrow> token list \<times> text_span list" where
  "lex_with_comments source m = lex_tokens \<lparr>rest = source, cursor = 0, lex_mode = m, comments = []\<rparr>"

definition lex_source :: "rstr \<Rightarrow> lex_mode \<Rightarrow> token list" where
  "lex_source source m = fst (lex_with_comments source m)"

definition is_identifier :: "rstr \<Rightarrow> lex_mode \<Rightarrow> bool" where
  "is_identifier t m =
     (case lex_source t m of
        [token, final] \<Rightarrow> token_kind token = TokIdentifier \<and> token_kind final = TokEof
      | _ \<Rightarrow> False)"

section \<open>The tokens tile the source\<close>

text \<open>
  What a token stream is: from byte \<open>at\<close> on, the text is a sequence of white space, comments
  and tokens whose spans name exactly the bytes they cover, with one end token at its end.
\<close>

definition is_comment :: "rstr \<Rightarrow> rstr \<Rightarrow> bool" where
  "is_comment t left \<longleftrightarrow> at_comment t \<and> 10 \<notin> set t \<and> (left = [] \<or> hd left = 10)"

definition span_of :: "nat \<Rightarrow> rstr \<Rightarrow> text_span" where
  "span_of at t = \<lparr>span_start = at, span_end = at + utf8_len t\<rparr>"

inductive tiles :: "lex_mode \<Rightarrow> nat \<Rightarrow> rstr \<Rightarrow> token list \<Rightarrow> text_span list \<Rightarrow> bool" for m where
  final: "tiles m at [] [\<lparr>token_kind = TokEof, token_span = span_of at []\<rparr>] []"
| space: "is_whitespace c \<Longrightarrow> tiles m (at + len_utf8 c) left ts cs \<Longrightarrow> tiles m at (c # left) ts cs"
| comment: "m = Script \<Longrightarrow> is_comment t left \<Longrightarrow> tiles m (at + utf8_len t) left ts cs \<Longrightarrow>
    tiles m at (t @ left) ts (span_of at t # cs)"
| data_comment: "m = Data \<Longrightarrow> is_comment t left \<Longrightarrow> tiles m (at + utf8_len t) left ts cs \<Longrightarrow>
    tiles m at (t @ left) (\<lparr>token_kind = TokError CommentInData, token_span = span_of at t\<rparr> # ts) cs"
| token: "t \<noteq> [] \<Longrightarrow> \<not> is_whitespace (hd t) \<Longrightarrow> \<not> at_comment (t @ left) \<Longrightarrow> kind_text m k t \<Longrightarrow>
    k \<noteq> TokEof \<Longrightarrow> tiles m (at + utf8_len t) left ts cs \<Longrightarrow>
    tiles m at (t @ left) (\<lparr>token_kind = k, token_span = span_of at t\<rparr> # ts) cs"

lemma tiles_space:
  "\<forall>c \<in> set w. is_whitespace c \<Longrightarrow> tiles m (at + utf8_len w) left ts cs \<Longrightarrow> tiles m at (w @ left) ts cs"
proof (induction w arbitrary: at)
  case (Cons c w)
  then have "tiles m (at + len_utf8 c) (w @ left) ts cs" by (simp add: add.assoc)
  with Cons.prems(1) show ?case by (simp add: tiles.space)
qed simp

lemma skipped:
  "skip_trivia l = (found, l') \<Longrightarrow>
   \<exists>cs. comments l' = comments l @ cs \<and> lex_mode l' = lex_mode l \<and>
     (case found of
        Some c \<Rightarrow> token_kind c = TokError CommentInData \<and>
          (\<forall>ts cs'. tiles (lex_mode l) (cursor l') (rest l') ts cs' \<longrightarrow>
            tiles (lex_mode l) (cursor l) (rest l) (c # ts) (cs @ cs'))
      | None \<Rightarrow> \<not> at_comment (rest l') \<and> (rest l' = [] \<or> \<not> is_whitespace (hd (rest l'))) \<and>
          (\<forall>ts cs'. tiles (lex_mode l) (cursor l') (rest l') ts cs' \<longrightarrow>
            tiles (lex_mode l) (cursor l) (rest l) ts (cs @ cs')))"
proof (induction l arbitrary: found l' rule: skip_trivia.induct)
  case (1 l)
  let ?w = "takeWhile is_whitespace (rest l)"
  let ?l = "snd (take_while is_whitespace l)"
  let ?t = "takeWhile (\<lambda>c. c \<noteq> 10) (rest ?l)"
  let ?m = "snd (take_while (\<lambda>c. c \<noteq> 10) ?l)"
  let ?n = "?m\<lparr>comments := comments ?m @ [\<lparr>span_start = cursor ?l, span_end = cursor ?m\<rparr>]\<rparr>"
  have space: "tiles (lex_mode l) (cursor ?l) (rest ?l) ts cs \<Longrightarrow> tiles (lex_mode l) (cursor l) (rest l) ts cs"
    for ts cs using tiles_space [of ?w "lex_mode l" "cursor l" "rest ?l" ts cs]
    by (auto dest: set_takeWhileD)
  note eq = skip_trivia.simps [of l, unfolded Let_def]
  show ?case
  proof (cases "at_comment (rest ?l)")
    case False
    then have "found = None" "l' = ?l" using "1.prems" by (simp_all add: eq)
    moreover have "rest ?l = [] \<or> \<not> is_whitespace (hd (rest ?l))"
      using hd_dropWhile [of is_whitespace "rest l"] by auto
    ultimately show ?thesis using False space by (intro exI [of _ "[]"]) simp
  next
    case True
    have split: "rest ?l = ?t @ rest ?m" by simp
    have head: "rest ?m = [] \<or> hd (rest ?m) = 10"
      using hd_dropWhile [of "\<lambda>c. c \<noteq> 10" "rest ?l"] by auto
    have "10 \<notin> set ?t" by (auto dest: set_takeWhileD)
    with True head have comment: "is_comment ?t (rest ?m)"
      by (auto simp: is_comment_def at_comment_iff)
    have span: "span_of (cursor ?l) ?t = \<lparr>span_start = cursor ?l, span_end = cursor ?m\<rparr>"
      by (simp add: span_of_def)
    show ?thesis
    proof (cases "lex_mode ?m = Data")
      case data: True
      then have f: "found = Some (make_token (TokError CommentInData) (cursor ?l) ?m)" "l' = ?m"
        using "1.prems" True by (auto simp: eq)
      have "tiles (lex_mode l) (cursor l) (rest l) (make_token (TokError CommentInData) (cursor ?l) ?m # ts) cs'"
        if "tiles (lex_mode l) (cursor ?m) (rest ?m) ts cs'" for ts cs'
      proof (rule space)
        have "tiles (lex_mode l) (cursor ?l) (?t @ rest ?m)
            (\<lparr>token_kind = TokError CommentInData, token_span = span_of (cursor ?l) ?t\<rparr> # ts) cs'"
          using data that by (intro tiles.data_comment comment) simp_all
        then show "tiles (lex_mode l) (cursor ?l) (rest ?l)
            (make_token (TokError CommentInData) (cursor ?l) ?m # ts) cs'"
          unfolding split [symmetric] span make_token_def .
      qed
      then show ?thesis unfolding f by (intro exI [of _ "[]"]) (simp add: make_token_def)
    next
      case False
      then have script: "lex_mode l = Script" by (simp add: not_data)
      have "skip_trivia ?n = (found, l')" using "1.prems" True False by (simp add: eq)
      from "1.IH" [OF refl _ refl refl _ this] True False obtain cs where
        cs: "comments l' = comments ?n @ cs" "lex_mode l' = lex_mode ?n"
          "case found of
            Some c \<Rightarrow> token_kind c = TokError CommentInData \<and>
              (\<forall>ts cs'. tiles (lex_mode ?n) (cursor l') (rest l') ts cs' \<longrightarrow>
                tiles (lex_mode ?n) (cursor ?n) (rest ?n) (c # ts) (cs @ cs'))
          | None \<Rightarrow> \<not> at_comment (rest l') \<and> (rest l' = [] \<or> \<not> is_whitespace (hd (rest l'))) \<and>
              (\<forall>ts cs'. tiles (lex_mode ?n) (cursor l') (rest l') ts cs' \<longrightarrow>
                tiles (lex_mode ?n) (cursor ?n) (rest ?n) ts (cs @ cs'))" by blast
      have before: "tiles (lex_mode l) (cursor l) (rest l) ts (span_of (cursor ?l) ?t # cs')"
        if "tiles (lex_mode l) (cursor ?n) (rest ?n) ts cs'" for ts cs'
      proof (rule space)
        have "tiles (lex_mode l) (cursor ?l) (?t @ rest ?m) ts (span_of (cursor ?l) ?t # cs')"
          using script that by (intro tiles.comment comment) simp_all
        then show "tiles (lex_mode l) (cursor ?l) (rest ?l) ts (span_of (cursor ?l) ?t # cs')"
          unfolding split [symmetric] .
      qed
      have "lex_mode ?n = lex_mode l" by simp
      with cs before show ?thesis
        by (intro exI [of _ "span_of (cursor ?l) ?t # cs"]) (simp add: span_of_def split: option.splits)
    qed
  qed
qed

lemma tiles_next:
  assumes n: "next_token l = (t, l')"
  shows "\<exists>cs. comments l' = comments l @ cs \<and> lex_mode l' = lex_mode l \<and>
    (token_kind t = TokEof \<longrightarrow> tiles (lex_mode l) (cursor l) (rest l) [t] cs) \<and>
    (token_kind t \<noteq> TokEof \<longrightarrow> (\<forall>ts cs'. tiles (lex_mode l) (cursor l') (rest l') ts cs' \<longrightarrow>
       tiles (lex_mode l) (cursor l) (rest l) (t # ts) (cs @ cs')))"
proof (cases "skip_trivia l")
  case (Pair found l1)
  note skip = skipped [OF Pair]
  show ?thesis
  proof (cases found)
    case (Some c)
    with n Pair have "t = c" "l' = l1" by (simp_all add: next_token_def)
    with skip Some show ?thesis by auto
  next
    case None
    with skip obtain cs where cs: "comments l1 = comments l @ cs" "lex_mode l1 = lex_mode l"
      "\<not> at_comment (rest l1)" "rest l1 = [] \<or> \<not> is_whitespace (hd (rest l1))"
      "\<And>ts cs'. tiles (lex_mode l) (cursor l1) (rest l1) ts cs' \<Longrightarrow>
        tiles (lex_mode l) (cursor l) (rest l) ts (cs @ cs')" by auto
    show ?thesis
    proof (cases "rest l1")
      case Nil
      then have t: "t = \<lparr>token_kind = TokEof, token_span = span_of (cursor l1) []\<rparr>" "l' = l1"
        using n Pair None by (auto simp: next_token_def make_token_def span_of_def)
      have "tiles (lex_mode l) (cursor l) (rest l) [t] (cs @ [])"
        by (rule cs(5)) (simp add: Nil t tiles.final)
      then show ?thesis using t cs(1,2) by simp
    next
      case (Cons c left)
      obtain k l2 where k: "lex_kind c (bump l1) = (k, l2)" by (cases "lex_kind c (bump l1)")
      obtain u where u: "rest l1 = u @ rest l2" "u \<noteq> []" "hd u = c" "cursor l2 = cursor l1 + utf8_len u"
        "lex_mode l2 = lex_mode l1" "kind_text (lex_mode l1) k u" "k \<noteq> TokEof" "comments l2 = comments l1"
        by (rule lex_kind_advances [OF Cons k])
      have t: "t = \<lparr>token_kind = k, token_span = span_of (cursor l1) u\<rparr>" "l' = l2"
        using n Pair None Cons k u(4) by (auto simp: next_token_def make_token_def span_of_def)
      have "tiles (lex_mode l) (cursor l) (rest l) (t # ts) (cs @ cs')"
        if "tiles (lex_mode l) (cursor l2) (rest l2) ts cs'" for ts cs'
      proof (rule cs(5))
        show "tiles (lex_mode l) (cursor l1) (rest l1) (t # ts) cs'"
          unfolding t u(1) using u cs that Cons by (intro tiles.token) simp_all
      qed
      then show ?thesis using t u cs(1,2) by simp
    qed
  qed
qed

lemma tiles_tokens:
  "lex_tokens l = (ts, all) \<Longrightarrow>
   \<exists>cs. all = comments l @ cs \<and> tiles (lex_mode l) (cursor l) (rest l) ts cs"
proof (induction l arbitrary: ts all rule: lex_tokens.induct)
  case (1 l)
  obtain t l' where n: "next_token l = (t, l')" by (cases "next_token l")
  note next_tiles = tiles_next [OF n]
  show ?case
  proof (cases "token_kind t = TokEof")
    case True
    then have "ts = [t]" "all = comments l'" using "1.prems" n
      by (auto simp: lex_tokens.simps [of l])
    with next_tiles True show ?thesis by auto
  next
    case False
    obtain us bs where r: "lex_tokens l' = (us, bs)" by (cases "lex_tokens l'")
    have ts: "ts = t # us" "all = bs" using "1.prems" n False r
      by (auto simp: lex_tokens.simps [of l])
    from "1.IH" [OF n [symmetric] refl False r] obtain cs' where
      "bs = comments l' @ cs'" "tiles (lex_mode l') (cursor l') (rest l') us cs'" by blast
    with next_tiles False show ?thesis unfolding ts by fastforce
  qed
qed

text \<open>An authored name: one identifier token exactly when it is a word and not a keyword.\<close>

lemma word_start: "is_word_start c \<Longrightarrow> \<not> is_whitespace c \<and> c \<noteq> 45"
  by (auto simp: is_word_start_def is_whitespace_def char_class_defs)

lemma skip_nothing: "rest l = [] \<or> \<not> is_whitespace (hd (rest l)) \<and> hd (rest l) \<noteq> 45 \<Longrightarrow> skip_trivia l = (None, l)"
  by (subst skip_trivia.simps, cases "rest l")
    (auto simp: take_while_def take_while_from at_comment_iff)

lemma lex_kind_word: "is_word_start c \<Longrightarrow> lex_kind c l = lex_word c l"
  by (auto simp: lex_kind_def is_word_start_def char_class_defs)

lemma lex_word_whole:
  assumes "\<forall>c \<in> set (rest l). is_word_char c"
  shows "lex_word c l =
    (case keyword_of (c # rest l) (lex_mode l) of Some k \<Rightarrow> TokKeyword k | None \<Rightarrow> TokIdentifier,
     l\<lparr>rest := [], cursor := cursor l + utf8_len (rest l)\<rparr>)"
proof -
  have all: "takeWhile is_word_char (rest l) = rest l" "dropWhile is_word_char (rest l) = []"
    using assms by (simp_all add: takeWhile_eq_all_conv dropWhile_eq_Nil_conv)
  show ?thesis unfolding lex_word_def take_while_def take_while_from all Let_def prod.case by simp
qed

lemma lex_tokens_end: "rest l = [] \<Longrightarrow> lex_tokens l = ([make_token TokEof (cursor l) l], comments l)"
  by (simp add: lex_tokens.simps [of l] next_token_def skip_nothing make_token_def)

lemma lex_word_source:
  assumes "is_word t"
  shows "lex_source t m =
    [\<lparr>token_kind = (case keyword_of t m of Some k \<Rightarrow> TokKeyword k | None \<Rightarrow> TokIdentifier), token_span = span_of 0 t\<rparr>,
     \<lparr>token_kind = TokEof, token_span = span_of (utf8_len t) []\<rparr>]"
proof -
  obtain c w where t: "t = c # w" "is_word_start c" "\<forall>c \<in> set w. is_word_char c"
    using assms by (cases t) (auto simp: is_word_def)
  let ?l = "\<lparr>rest = t, cursor = 0, lex_mode = m, comments = []\<rparr>"
  let ?e = "\<lparr>rest = [], cursor = utf8_len t, lex_mode = m, comments = []\<rparr>"
  let ?k = "case keyword_of t m of Some k \<Rightarrow> TokKeyword k | None \<Rightarrow> TokIdentifier"
  have "skip_trivia ?l = (None, ?l)" using t word_start [OF t(2)] by (intro skip_nothing) simp
  moreover have "lex_kind c (bump ?l) = (?k, ?e)"
    using t by (simp add: lex_kind_word lex_word_whole bump_def)
  ultimately have "next_token ?l = (make_token ?k 0 ?e, ?e)" using t(1) by (simp add: next_token_def)
  moreover have "?k \<noteq> TokEof" by (simp split: option.split)
  ultimately have "lex_tokens ?l = (make_token ?k 0 ?e # fst (lex_tokens ?e), snd (lex_tokens ?e))"
    by (simp add: lex_tokens.simps [of ?l] make_token_def case_prod_beta)
  then show ?thesis
    by (simp add: lex_source_def lex_with_comments_def lex_tokens_end make_token_def span_of_def)
qed

section \<open>What the lexer guarantees\<close>

text \<open>
  C16. Lexing terminates and loses nothing: the tokens and comments of any source, with the white
  space between them, tile it byte for byte; every span names exactly the text of its token, that
  text is one of the token's kind in the lexer's mode, and the one end token comes last.
\<close>

theorem lexing_tiles:
  "tiles m 0 source (fst (lex_with_comments source m)) (snd (lex_with_comments source m))"
proof -
  let ?l = "\<lparr>rest = source, cursor = 0, lex_mode = m, comments = []\<rparr>"
  show ?thesis using tiles_tokens [of ?l, OF surjective_pairing]
    by (simp add: lex_with_comments_def)
qed

text \<open>
  C38. A word is an authored name exactly when it is not a keyword of the mode: \<open>is_identifier\<close>,
  which lexes it, agrees with the keyword table.
\<close>

theorem identifier_words:
  assumes "is_word t"
  shows "is_identifier t m \<longleftrightarrow> keyword_of t m = None"
  using lex_word_source [OF assms, of m] by (simp add: is_identifier_def split: option.split)

theorem identifier_words_witness:
  "is_identifier (str ''effect'') Data \<longleftrightarrow> keyword_of (str ''effect'') Data = None"
  by (rule identifier_words) code_simp

end
