(* ===== verification/ShowSlots.thy ===== *)
theory ShowSlots
  imports Prelude
begin

text \<open>
  The two flash slots of saved shows,
  \<open>firmware/esp32/crates/donder-device-storage/src/show_slots.rs\<close>, and the upload of
  \<open>bin/loader.rs\<close> that writes them.

  The storage driver and the CRC are not part of the repository: the driver is a record of the
  three operations of its trait, and \<open>crc\<close> a function, both arguments of the model.
  \<open>flash_laws\<close> states what the driver documents, with \<open>byte s a\<close> the byte at \<open>a\<close>: a read fails or
  gives the bytes, a completed erase fills its range with ones, a completed write to an erased range
  stores its bytes, and neither ever touches a byte outside its range, failed or not. What a failed
  operation leaves inside its range is undefined. Nothing is assumed of the CRC.
\<close>

section \<open>The storage\<close>

datatype storage_error = Corruption | FileTooBig | StorageIo

record 's storage =
  storage_read :: "'s \<Rightarrow> nat \<Rightarrow> nat \<Rightarrow> storage_error + u8 list"
  storage_write :: "nat \<Rightarrow> u8 list \<Rightarrow> 's \<Rightarrow> (storage_error + unit) \<times> 's"
  storage_erase :: "nat \<Rightarrow> nat \<Rightarrow> 's \<Rightarrow> (storage_error + unit) \<times> 's"

definition BLOCK_SIZE :: nat where "BLOCK_SIZE = 4096"
definition SLOT_BYTES :: nat where "SLOT_BYTES = 128 * 1024"
definition DATA_OFFSET :: nat where "DATA_OFFSET = 4096"
definition CAPACITY :: nat where "CAPACITY = SLOT_BYTES - DATA_OFFSET"
definition MAGIC :: "u8 list" where "MAGIC = [0x44, 0x53, 0x48, 0x57]"

record show_slot =
  slot_index :: nat
  slot_generation :: u32
  slot_length :: nat

definition data_offset :: "show_slot \<Rightarrow> nat" where
  "data_offset slot = slot_index slot * SLOT_BYTES + DATA_OFFSET"

section \<open>Headers\<close>

definition header_word :: "u8 list \<Rightarrow> nat \<Rightarrow> u32" where
  "header_word h i = of_le32 (h ! i) (h ! (i + 1)) (h ! (i + 2)) (h ! (i + 3))"

definition committed :: "(u8 list \<Rightarrow> u32) \<Rightarrow> u8 list \<Rightarrow> bool" where
  "committed crc h \<longleftrightarrow> take 4 h = MAGIC \<and> crc (take 12 h) = header_word h 12"

definition header_slot :: "nat \<Rightarrow> u8 list \<Rightarrow> show_slot" where
  "header_slot index h =
     \<lparr>slot_index = index, slot_generation = header_word h 4, slot_length = unat (header_word h 8)\<rparr>"

text \<open>\<open>slot.generation.wrapping_sub(old.generation) as i32 > 0\<close>\<close>

definition newer :: "show_slot \<Rightarrow> show_slot option \<Rightarrow> bool" where
  "newer slot selected =
     (case selected of None \<Rightarrow> True | Some old \<Rightarrow> 0 < sint (slot_generation slot - slot_generation old))"

definition bytes_read :: "'s storage \<Rightarrow> 's \<Rightarrow> nat \<Rightarrow> nat \<Rightarrow> u8 list" where
  "bytes_read ops s at n = (case storage_read ops s at n of Inl _ \<Rightarrow> [] | Inr bytes \<Rightarrow> bytes)"

definition read_header :: "'s storage \<Rightarrow> nat \<Rightarrow> 's \<Rightarrow> u8 list" where
  "read_header ops index s = bytes_read ops s (index * SLOT_BYTES) 16"

definition consider_slot ::
  "(u8 list \<Rightarrow> u32) \<Rightarrow> 's storage \<Rightarrow> 's \<Rightarrow> nat \<Rightarrow> show_slot option \<Rightarrow> storage_error + show_slot option" where
  "consider_slot crc ops s index selected =
     (case storage_read ops s (index * SLOT_BYTES) 16 of
        Inl e \<Rightarrow> Inl e
      | Inr h \<Rightarrow>
          if \<not> committed crc h then Inr selected
          else let slot = header_slot index h
            in if slot_length slot > CAPACITY then Inl Corruption
               else Inr (if newer slot selected then Some slot else selected))"

definition latest ::
  "(u8 list \<Rightarrow> u32) \<Rightarrow> 's storage \<Rightarrow> 's \<Rightarrow> storage_error + show_slot option" where
  "latest crc ops s =
     (case consider_slot crc ops s 0 None of
        Inl e \<Rightarrow> Inl e
      | Inr selected \<Rightarrow> consider_slot crc ops s 1 selected)"

section \<open>Writing a show\<close>

fun erase_blocks :: "'s storage \<Rightarrow> nat list \<Rightarrow> 's \<Rightarrow> (storage_error + unit) \<times> 's" where
  "erase_blocks ops [] s = (Inr (), s)"
| "erase_blocks ops (at # ats) s =
     (case storage_erase ops at BLOCK_SIZE s of
        (Inl e, s) \<Rightarrow> (Inl e, s)
      | (Inr _, s) \<Rightarrow> erase_blocks ops ats s)"

text \<open>\<open>(0..n).step_by(BLOCK_SIZE)\<close>\<close>

definition blocks_below :: "nat \<Rightarrow> nat list" where
  "blocks_below n = map (\<lambda>i. i * BLOCK_SIZE) [0..<(n + BLOCK_SIZE - 1) div BLOCK_SIZE]"

definition next_slot_for :: "show_slot option \<Rightarrow> nat \<Rightarrow> show_slot" where
  "next_slot_for old len =
     (case old of
        None \<Rightarrow> \<lparr>slot_index = 0, slot_generation = 1, slot_length = len\<rparr>
      | Some slot \<Rightarrow> \<lparr>slot_index = 1 - slot_index slot, slot_generation = slot_generation slot + 1,
          slot_length = len\<rparr>)"

definition begin_show ::
  "(u8 list \<Rightarrow> u32) \<Rightarrow> 's storage \<Rightarrow> nat \<Rightarrow> 's \<Rightarrow> (storage_error + show_slot) \<times> 's" where
  "begin_show crc ops len s =
     (if len > CAPACITY then (Inl FileTooBig, s)
      else case latest crc ops s of
             Inl e \<Rightarrow> (Inl e, s)
           | Inr old \<Rightarrow>
               let slot = next_slot_for old len
               in case erase_blocks ops (map (\<lambda>at. slot_index slot * SLOT_BYTES + at)
                         (blocks_below (DATA_OFFSET + len))) s of
                    (Inl e, s) \<Rightarrow> (Inl e, s)
                  | (Inr _, s) \<Rightarrow> (Inr slot, s))"

definition append_show ::
  "'s storage \<Rightarrow> show_slot \<Rightarrow> nat \<Rightarrow> u8 list \<Rightarrow> 's \<Rightarrow> (storage_error + unit) \<times> 's" where
  "append_show ops slot offset bytes s = storage_write ops (data_offset slot + offset) bytes s"

definition slot_header :: "(u8 list \<Rightarrow> u32) \<Rightarrow> show_slot \<Rightarrow> u8 list" where
  "slot_header crc slot =
     (let h = MAGIC @ le32 (slot_generation slot) @ le32 (of_nat (slot_length slot))
      in h @ le32 (crc h))"

definition commit_show ::
  "(u8 list \<Rightarrow> u32) \<Rightarrow> 's storage \<Rightarrow> show_slot \<Rightarrow> 's \<Rightarrow> (storage_error + unit) \<times> 's" where
  "commit_show crc ops slot s =
     storage_write ops (slot_index slot * SLOT_BYTES) (slot_header crc slot) s"

text \<open>
  The upload of \<open>loader.rs\<close>, from a received body on: \<open>buffer\<close> is the show's buffer, \<open>len\<close>
  bytes long and padded, and \<open>admitted\<close> whether the controller can play it, which does not
  touch the storage. The result is whether the show was saved.
\<close>

definition save_show ::
  "(u8 list \<Rightarrow> u32) \<Rightarrow> 's storage \<Rightarrow> bool \<Rightarrow> nat \<Rightarrow> u8 list \<Rightarrow> 's \<Rightarrow> bool \<times> 's" where
  "save_show crc ops admitted len buffer s =
     (case begin_show crc ops len s of
        (Inl e, s) \<Rightarrow> (False, s)
      | (Inr slot, s) \<Rightarrow>
          (case append_show ops slot 0 buffer s of
             (Inl e, s) \<Rightarrow> (False, s)
           | (Inr _, s) \<Rightarrow>
               if \<not> admitted then (False, s)
               else case commit_show crc ops slot s of
                      (Inl e, s) \<Rightarrow> (False, s)
                    | (Inr _, s) \<Rightarrow> (True, s)))"

definition read_show :: "'s storage \<Rightarrow> show_slot \<Rightarrow> 's \<Rightarrow> storage_error + u8 list" where
  "read_show ops slot s = storage_read ops s (data_offset slot) (slot_length slot)"

section \<open>What the driver and the CRC promise\<close>

definition unchanged_outside :: "('s \<Rightarrow> nat \<Rightarrow> u8) \<Rightarrow> nat \<Rightarrow> nat \<Rightarrow> 's \<Rightarrow> 's \<Rightarrow> bool" where
  "unchanged_outside byte at len s s' \<longleftrightarrow> (\<forall>a. a < at \<or> at + len \<le> a \<longrightarrow> byte s' a = byte s a)"

definition erased :: "('s \<Rightarrow> nat \<Rightarrow> u8) \<Rightarrow> nat \<Rightarrow> nat \<Rightarrow> 's \<Rightarrow> bool" where
  "erased byte at len s \<longleftrightarrow> (\<forall>a. at \<le> a \<and> a < at + len \<longrightarrow> byte s a = 0xff)"

definition flash_laws :: "'s storage \<Rightarrow> ('s \<Rightarrow> nat \<Rightarrow> u8) \<Rightarrow> bool" where
  "flash_laws ops byte \<longleftrightarrow>
     (\<forall>s at n bytes. storage_read ops s at n = Inr bytes \<longrightarrow> bytes = map (byte s) [at..<at + n]) \<and>
     (\<forall>s at bs. unchanged_outside byte at (length bs) s (snd (storage_write ops at bs s))) \<and>
     (\<forall>s at bs. erased byte at (length bs) s \<longrightarrow> fst (storage_write ops at bs s) = Inr () \<longrightarrow>
        map (byte (snd (storage_write ops at bs s))) [at..<at + length bs] = bs) \<and>
     (\<forall>s at n. unchanged_outside byte at n s (snd (storage_erase ops at n s))) \<and>
     (\<forall>s at n. fst (storage_erase ops at n s) = Inr () \<longrightarrow> erased byte at n (snd (storage_erase ops at n s)))"

text \<open>
  What is stored, whether or not the driver can read it just now: the driver with every read
  succeeding, and the latest show with its bytes as it would be found.
\<close>

definition reading :: "('s \<Rightarrow> nat \<Rightarrow> u8) \<Rightarrow> 's storage \<Rightarrow> 's storage" where
  "reading byte ops = ops\<lparr>storage_read := \<lambda>s at n. Inr (map (byte s) [at..<at + n])\<rparr>"

definition found_show ::
  "(u8 list \<Rightarrow> u32) \<Rightarrow> 's storage \<Rightarrow> 's \<Rightarrow> storage_error + (show_slot \<times> u8 list) option" where
  "found_show crc ops s =
     (case latest crc ops s of
        Inl e \<Rightarrow> Inl e
      | Inr None \<Rightarrow> Inr None
      | Inr (Some slot) \<Rightarrow>
          (case read_show ops slot s of Inl e \<Rightarrow> Inl e | Inr bytes \<Rightarrow> Inr (Some (slot, bytes))))"

definition stored_show ::
  "(u8 list \<Rightarrow> u32) \<Rightarrow> 's storage \<Rightarrow> ('s \<Rightarrow> nat \<Rightarrow> u8) \<Rightarrow> 's \<Rightarrow>
     storage_error + (show_slot \<times> u8 list) option" where
  "stored_show crc ops byte s = found_show crc (reading byte ops) s"

definition stored_header :: "('s \<Rightarrow> nat \<Rightarrow> u8) \<Rightarrow> nat \<Rightarrow> 's \<Rightarrow> u8 list" where
  "stored_header byte index s = map (byte s) [index * SLOT_BYTES..<index * SLOT_BYTES + 16]"

text \<open>
  The accident the code cannot exclude: what a failed erase or a failed commit left in the header
  of \<open>slot\<close> passes its checksum, and is not the header that was there, nor, once the upload has
  \<open>begun\<close> with every block erased, the one the commit writes.
\<close>

definition stray_header ::
  "(u8 list \<Rightarrow> u32) \<Rightarrow> ('s \<Rightarrow> nat \<Rightarrow> u8) \<Rightarrow> bool \<Rightarrow> show_slot \<Rightarrow> 's \<Rightarrow> 's \<Rightarrow> bool" where
  "stray_header crc byte begun slot s s' \<longleftrightarrow>
     (let h = stored_header byte (slot_index slot) s'
      in committed crc h \<and> h \<noteq> stored_header byte (slot_index slot) s \<and>
         (begun \<longrightarrow> h \<noteq> slot_header crc slot))"

text \<open>The laws of a driver whose reads succeed, under which an upload is followed.\<close>

definition readable_flash :: "'s storage \<Rightarrow> ('s \<Rightarrow> nat \<Rightarrow> u8) \<Rightarrow> bool" where
  "readable_flash ops byte \<longleftrightarrow>
     (\<forall>s at n. storage_read ops s at n = Inr (map (byte s) [at..<at + n])) \<and>
     (\<forall>s at bs. unchanged_outside byte at (length bs) s (snd (storage_write ops at bs s))) \<and>
     (\<forall>s at bs. erased byte at (length bs) s \<longrightarrow> fst (storage_write ops at bs s) = Inr () \<longrightarrow>
        map (byte (snd (storage_write ops at bs s))) [at..<at + length bs] = bs) \<and>
     (\<forall>s at n. unchanged_outside byte at n s (snd (storage_erase ops at n s))) \<and>
     (\<forall>s at n. fst (storage_erase ops at n s) = Inr () \<longrightarrow> erased byte at n (snd (storage_erase ops at n s)))"

lemma reading_readable: "flash_laws ops byte \<Longrightarrow> readable_flash (reading byte ops) byte"
  by (simp add: flash_laws_def readable_flash_def reading_def)

section \<open>The latest show\<close>

lemma sizes: "SLOT_BYTES = 131072" "CAPACITY = 126976" "DATA_OFFSET = 4096" "BLOCK_SIZE = 4096"
  by (simp_all add: SLOT_BYTES_def CAPACITY_def DATA_OFFSET_def BLOCK_SIZE_def)

lemma slot_header_committed: "committed crc (slot_header crc slot)"
  by (simp add: committed_def slot_header_def Let_def MAGIC_def le32_def header_word_def)

lemma header_slot_header:
  assumes "slot_length slot < 2 ^ 32"
  shows "header_slot (slot_index slot) (slot_header crc slot) = slot"
proof -
  have "header_word (slot_header crc slot) 4 = slot_generation slot"
    "header_word (slot_header crc slot) 8 = of_nat (slot_length slot)"
    by (simp_all add: slot_header_def Let_def MAGIC_def le32_def header_word_def)
  then show ?thesis using assms by (simp add: header_slot_def unat_of_nat)
qed

lemma length_slot_header [simp]: "length (slot_header crc slot) = 16"
  by (simp add: slot_header_def Let_def MAGIC_def)

lemma consider_readable:
  assumes "readable_flash ops byte"
  shows "consider_slot crc ops s index selected =
     (let h = read_header ops index s; slot = header_slot index h
      in if \<not> committed crc h then Inr selected
         else if slot_length slot > CAPACITY then Inl Corruption
         else Inr (if newer slot selected then Some slot else selected))"
proof -
  have "storage_read ops s (index * SLOT_BYTES) 16 = Inr (read_header ops index s)"
    using assms by (simp add: readable_flash_def read_header_def bytes_read_def)
  then show ?thesis by (simp add: consider_slot_def Let_def)
qed

lemma consider_slot_cases:
  "consider_slot crc ops s index selected = Inr chosen \<Longrightarrow>
   (\<not> committed crc (read_header ops index s) \<and> chosen = selected) \<or>
   (committed crc (read_header ops index s) \<and> slot_length (header_slot index (read_header ops index s)) \<le> CAPACITY \<and>
    chosen = (if newer (header_slot index (read_header ops index s)) selected
              then Some (header_slot index (read_header ops index s)) else selected))"
  by (auto simp: consider_slot_def read_header_def bytes_read_def Let_def split: if_splits sum.splits)

lemma latest_cases:
  assumes "latest crc ops s = Inr old"
  obtains (none) "old = None" "\<not> committed crc (read_header ops 0 s)" "\<not> committed crc (read_header ops 1 s)"
  | (some) slot where "old = Some slot" "slot_index slot \<in> {0, 1}"
      "committed crc (read_header ops (slot_index slot) s)"
      "slot = header_slot (slot_index slot) (read_header ops (slot_index slot) s)" "slot_length slot \<le> CAPACITY"
proof -
  obtain mid where mid: "consider_slot crc ops s 0 None = Inr mid" "consider_slot crc ops s 1 mid = Inr old"
    using assms by (auto simp: latest_def split: sum.splits)
  have index: "slot_index (header_slot i h) = i" for i h by (simp add: header_slot_def)
  from consider_slot_cases [OF mid(1)] consider_slot_cases [OF mid(2)] show thesis
  proof (elim disjE conjE, goal_cases)
    case 1
    then show thesis by (intro none) simp_all
  next
    case 2
    then show thesis by (intro some [of "header_slot 1 (read_header ops 1 s)"]) (simp_all add: index newer_def)
  next
    case 3
    then show thesis by (intro some [of "header_slot 0 (read_header ops 0 s)"]) (simp_all add: index newer_def)
  next
    case 4
    have "mid = Some (header_slot 0 (read_header ops 0 s))" using 4 by (simp add: newer_def)
    then show thesis using 4
      by (cases "newer (header_slot 1 (read_header ops 1 s)) mid")
        (auto simp: index intro: some [of "header_slot 1 (read_header ops 1 s)"] some [of "header_slot 0 (read_header ops 0 s)"])
  qed
qed

text \<open>Replacing an uncommitted header changes nothing; committing the next one makes it the latest.\<close>

lemma two_slots: "i \<in> {0, 1} \<Longrightarrow> j = 1 - i \<Longrightarrow> (i = 0 \<and> j = 1) \<or> (i = 1 \<and> j = (0 :: nat))"
  by auto

lemma next_slot_index: "latest crc ops s = Inr old \<Longrightarrow> slot_index (next_slot_for old len) \<in> {0, 1}"
  by (erule latest_cases) (auto simp: next_slot_for_def)

lemma latest_keeps:
  assumes laws: "readable_flash ops byte" and l: "latest crc ops s = Inr old"
    and j: "j = slot_index (next_slot_for old len)"
    and other: "read_header ops (1 - j) s' = read_header ops (1 - j) s"
    and header: "\<not> committed crc (read_header ops j s')"
  shows "latest crc ops s' = Inr old"
  using l
proof (cases rule: latest_cases)
  case none
  then have "j = 0" using j by (simp add: next_slot_for_def)
  with none other header show ?thesis by (simp add: latest_def consider_readable [OF laws])
next
  case (some slot)
  have "j = 1 - slot_index slot" using j some(1) by (simp add: next_slot_for_def)
  from two_slots [OF some(2) this] show ?thesis
  proof (elim disjE conjE)
    assume i: "slot_index slot = 0" "j = 1"
    then have "committed crc (read_header ops 0 s')" "header_slot 0 (read_header ops 0 s') = slot"
      using some(3,4) other by simp_all
    then show ?thesis using some(1,5) header i by (simp add: latest_def consider_readable [OF laws] newer_def)
  next
    assume i: "slot_index slot = 1" "j = 0"
    then have "committed crc (read_header ops 1 s')" "header_slot 1 (read_header ops 1 s') = slot"
      using some(3,4) other by simp_all
    then show ?thesis using some(1,5) header i by (simp add: latest_def consider_readable [OF laws] newer_def)
  qed
qed

lemma latest_unchanged:
  assumes laws: "readable_flash ops byte" and same: "read_header ops 0 s' = read_header ops 0 s" "read_header ops 1 s' = read_header ops 1 s"
  shows "latest crc ops s' = latest crc ops s"
  unfolding latest_def consider_readable [OF laws] same by (rule refl)

lemma next_is_newer: "0 < sint (a + 1 - a :: u32)" "\<not> 0 < sint (a - (a + 1) :: u32)"
  by simp_all

lemma latest_next:
  assumes laws: "readable_flash ops byte" and l: "latest crc ops s = Inr old" and len: "len \<le> CAPACITY"
    and j: "j = slot_index (next_slot_for old len)"
    and other: "read_header ops (1 - j) s' = read_header ops (1 - j) s"
    and header: "read_header ops j s' = slot_header crc (next_slot_for old len)"
  shows "latest crc ops s' = Inr (Some (next_slot_for old len))"
proof -
  let ?new = "next_slot_for old len"
  have length: "slot_length ?new = len" by (simp add: next_slot_for_def split: option.split)
  have new: "header_slot j (read_header ops j s') = ?new" "committed crc (read_header ops j s')"
    using header_slot_header [of ?new crc] len
    unfolding header by (simp_all add: j length sizes slot_header_committed)
  show ?thesis using l
  proof (cases rule: latest_cases)
    case none
    then have "j = 0" using j by (simp add: next_slot_for_def)
    with none other new len length show ?thesis
      by (simp add: latest_def consider_readable [OF laws] newer_def Let_def)
  next
    case (some slot)
    have gen: "slot_generation ?new = slot_generation slot + 1" using some(1) by (simp add: next_slot_for_def)
    have "j = 1 - slot_index slot" using j some(1) by (simp add: next_slot_for_def)
    from two_slots [OF some(2) this] show ?thesis
    proof (elim disjE conjE)
      assume i: "slot_index slot = 0" "j = 1"
      then have "committed crc (read_header ops 0 s')" "header_slot 0 (read_header ops 0 s') = slot"
        using some(3,4) other by simp_all
      then show ?thesis using some(5) new len i gen
        by (simp add: latest_def consider_readable [OF laws] newer_def length)
    next
      assume i: "slot_index slot = 1" "j = 0"
      then have "committed crc (read_header ops 1 s')" "header_slot 1 (read_header ops 1 s') = slot"
        using some(3,4) other by simp_all
      then show ?thesis using some(5) new len i gen
        by (simp add: latest_def consider_readable [OF laws] newer_def length)
    qed
  qed
qed

section \<open>Uploads\<close>

text \<open>What a step on slot \<open>j\<close> leaves alone: every byte outside the slot.\<close>

definition slot_only :: "('s \<Rightarrow> nat \<Rightarrow> u8) \<Rightarrow> nat \<Rightarrow> 's \<Rightarrow> 's \<Rightarrow> bool" where
  "slot_only byte j s s' \<longleftrightarrow> unchanged_outside byte (j * SLOT_BYTES) SLOT_BYTES s s'"

lemma slot_only_refl [simp]: "slot_only byte j s s"
  by (simp add: slot_only_def unchanged_outside_def)

lemma slot_only_trans: "slot_only byte j s s1 \<Longrightarrow> slot_only byte j s1 s2 \<Longrightarrow> slot_only byte j s s2"
  by (simp add: slot_only_def unchanged_outside_def)

lemma slot_only_within:
  "unchanged_outside byte at len s s' \<Longrightarrow> j * SLOT_BYTES \<le> at \<Longrightarrow> at + len \<le> (j + 1) * SLOT_BYTES \<Longrightarrow>
   slot_only byte j s s'"
  by (auto simp: slot_only_def unchanged_outside_def algebra_simps)

lemma slot_only_read:
  assumes "readable_flash ops byte" "slot_only byte j s s'" "i \<noteq> j" "at + n \<le> SLOT_BYTES"
  shows "storage_read ops s' (i * SLOT_BYTES + at) n = storage_read ops s (i * SLOT_BYTES + at) n"
proof -
  have "byte s' a = byte s a" if a: "i * SLOT_BYTES + at \<le> a" "a < i * SLOT_BYTES + at + n" for a
  proof -
    have "(i + 1) * SLOT_BYTES \<le> j * SLOT_BYTES \<or> (j + 1) * SLOT_BYTES \<le> i * SLOT_BYTES"
      using assms(3) by (metis Suc_eq_plus1 linorder_neqE_nat Suc_leI mult_le_mono1)
    then have "a < j * SLOT_BYTES \<or> j * SLOT_BYTES + SLOT_BYTES \<le> a"
      using a assms(4) by (auto simp: algebra_simps)
    with assms(2) show ?thesis by (auto simp: slot_only_def unchanged_outside_def)
  qed
  with assms(1) show ?thesis by (simp add: readable_flash_def)
qed

lemma slot_only_header: "readable_flash ops byte \<Longrightarrow> slot_only byte j s s' \<Longrightarrow> i \<noteq> j \<Longrightarrow> read_header ops i s' = read_header ops i s"
  using slot_only_read [of ops byte j s s' i 0 16] by (simp add: read_header_def bytes_read_def sizes)

lemma slot_only_show:
  "readable_flash ops byte \<Longrightarrow> slot_only byte j s s' \<Longrightarrow> slot_index o' \<noteq> j \<Longrightarrow> slot_length o' \<le> CAPACITY \<Longrightarrow>
   read_show ops o' s' = read_show ops o' s"
  using slot_only_read [of ops byte j s s' "slot_index o'" DATA_OFFSET "slot_length o'"]
  by (simp add: read_show_def data_offset_def sizes)

lemma erase_blocks_outside:
  assumes laws: "readable_flash ops byte"
    and "erase_blocks ops ats s = (r, s')" "\<forall>at \<in> set ats. lo \<le> at \<and> at + BLOCK_SIZE \<le> lo + n"
  shows "unchanged_outside byte lo n s s'"
  using assms(2,3)
proof (induction ats arbitrary: s)
  case (Cons at ats)
  obtain r1 s1 where e: "storage_erase ops at BLOCK_SIZE s = (r1, s1)" by (cases "storage_erase ops at BLOCK_SIZE s")
  have here: "unchanged_outside byte at BLOCK_SIZE s s1" using laws e unfolding readable_flash_def by (metis snd_conv)
  have bounds: "lo \<le> at" "at + BLOCK_SIZE \<le> lo + n" using Cons.prems(2) by auto
  show ?case
  proof (cases r1)
    case (Inl x)
    with Cons.prems e have "s' = s1" by auto
    with here bounds show ?thesis by (auto simp: unchanged_outside_def)
  next
    case (Inr u)
    with Cons.prems e have "unchanged_outside byte lo n s1 s'" by (intro Cons.IH) auto
    with here bounds show ?thesis by (auto simp: unchanged_outside_def)
  qed
qed (simp add: unchanged_outside_def)

lemma erase_blocks_bytes:
  assumes laws: "readable_flash ops byte" and "erase_blocks ops ats s = (Inr (), s')"
  shows "byte s' a = (if \<exists>at \<in> set ats. at \<le> a \<and> a < at + BLOCK_SIZE then 0xff else byte s a)"
  using assms(2)
proof (induction ats arbitrary: s)
  case (Cons at ats)
  obtain s1 where e: "storage_erase ops at BLOCK_SIZE s = (Inr (), s1)" "erase_blocks ops ats s1 = (Inr (), s')"
    using Cons.prems by (auto split: prod.splits sum.splits)
  have "erased byte at BLOCK_SIZE s1" "unchanged_outside byte at BLOCK_SIZE s s1"
    using laws e(1) unfolding readable_flash_def by (metis fst_conv snd_conv)+
  with Cons.IH [OF e(2)] show ?case by (auto simp: erased_def unchanged_outside_def not_less)
qed simp

lemma blocks_below_bound: "at \<in> set (blocks_below n) \<Longrightarrow> at + BLOCK_SIZE \<le> (n + BLOCK_SIZE - 1) div BLOCK_SIZE * BLOCK_SIZE"
  by (auto simp: blocks_below_def sizes)

lemma blocks_below_cover:
  assumes "a < (n + BLOCK_SIZE - 1) div BLOCK_SIZE * BLOCK_SIZE"
  shows "\<exists>at \<in> set (blocks_below n). at \<le> a \<and> a < at + BLOCK_SIZE"
proof -
  have "a div BLOCK_SIZE < (n + BLOCK_SIZE - 1) div BLOCK_SIZE"
    using assms by (simp add: less_mult_imp_div_less sizes)
  moreover have "a < a div BLOCK_SIZE * BLOCK_SIZE + BLOCK_SIZE"
    using div_mult_mod_eq [of a BLOCK_SIZE] mod_less_divisor [of BLOCK_SIZE a] by (simp only: sizes)
  ultimately show ?thesis
    by (intro bexI [of _ "a div BLOCK_SIZE * BLOCK_SIZE"]) (auto simp: blocks_below_def)
qed

lemma staged_within:
  assumes "len \<le> CAPACITY"
  shows "\<forall>at \<in> set (map (\<lambda>at. j * SLOT_BYTES + at) (blocks_below (DATA_OFFSET + len))).
    j * SLOT_BYTES \<le> at \<and> at + BLOCK_SIZE \<le> j * SLOT_BYTES + SLOT_BYTES"
proof -
  have "(DATA_OFFSET + len + BLOCK_SIZE - 1) div BLOCK_SIZE * BLOCK_SIZE \<le> SLOT_BYTES"
    using assms by (simp add: sizes)
  then show ?thesis by (fastforce dest: blocks_below_bound)
qed

lemma begin_show_ok:
  assumes laws: "readable_flash ops byte" and "begin_show crc ops len s = (Inr slot, s')"
  obtains old where "latest crc ops s = Inr old" "slot = next_slot_for old len" "len \<le> CAPACITY"
    "slot_only byte (slot_index slot) s s'"
    "erased byte (slot_index slot * SLOT_BYTES) ((DATA_OFFSET + len + BLOCK_SIZE - 1) div BLOCK_SIZE * BLOCK_SIZE) s'"
proof -
  obtain old where old: "len \<le> CAPACITY" "latest crc ops s = Inr old" "slot = next_slot_for old len"
    and e: "erase_blocks ops (map (\<lambda>at. slot_index slot * SLOT_BYTES + at) (blocks_below (DATA_OFFSET + len))) s = (Inr (), s')"
    using assms(2) by (auto simp: begin_show_def Let_def split: sum.splits prod.splits if_splits)
  have "slot_only byte (slot_index slot) s s'"
    unfolding slot_only_def by (rule erase_blocks_outside [OF laws e staged_within [OF old(1)]])
  moreover have "erased byte (slot_index slot * SLOT_BYTES) ((DATA_OFFSET + len + BLOCK_SIZE - 1) div BLOCK_SIZE * BLOCK_SIZE) s'"
    unfolding erased_def
  proof (intro allI impI, elim conjE)
    fix a assume a: "slot_index slot * SLOT_BYTES \<le> a"
      "a < slot_index slot * SLOT_BYTES + (DATA_OFFSET + len + BLOCK_SIZE - 1) div BLOCK_SIZE * BLOCK_SIZE"
    then obtain b where b: "a = slot_index slot * SLOT_BYTES + b" by (metis le_Suc_ex)
    with a(2) have "b < (DATA_OFFSET + len + BLOCK_SIZE - 1) div BLOCK_SIZE * BLOCK_SIZE" by simp
    from blocks_below_cover [OF this] show "byte s' a = 0xff"
      unfolding erase_blocks_bytes [OF laws e] b by auto
  qed
  ultimately show thesis using old that by blast
qed

lemma header_stored: "readable_flash ops byte \<Longrightarrow> read_header ops j s = stored_header byte j s"
  by (simp add: readable_flash_def read_header_def bytes_read_def stored_header_def)

lemma erased_header:
  assumes "readable_flash ops byte" "erased byte (j * SLOT_BYTES) n s" "16 \<le> n"
  shows "\<not> committed crc (read_header ops j s)"
proof -
  have "read_header ops j s = map (byte s) [j * SLOT_BYTES..<j * SLOT_BYTES + 16]"
    using assms(1) by (simp add: readable_flash_def read_header_def bytes_read_def)
  then have "read_header ops j s ! 0 = byte s (j * SLOT_BYTES)" by simp
  moreover have "byte s (j * SLOT_BYTES) = 0xff" using assms(2,3) by (simp add: erased_def)
  moreover have "take 4 h = MAGIC \<Longrightarrow> h ! 0 = 0x44" for h :: "u8 list"
    by (cases h) (simp_all add: MAGIC_def)
  ultimately show ?thesis by (auto simp: committed_def)
qed

lemma padded_room:
  assumes "n \<le> 4 * ((len + 3) div 4)" "len \<le> CAPACITY"
  shows "DATA_OFFSET + n \<le> (DATA_OFFSET + len + BLOCK_SIZE - 1) div BLOCK_SIZE * BLOCK_SIZE"
    "DATA_OFFSET + n \<le> SLOT_BYTES"
proof -
  define k where "k = (8191 + len) div 4096"
  have k: "4096 + len \<le> 4096 * k" "k \<le> 32"
    using div_mult_mod_eq [of "8191 + len" 4096] mod_less_divisor [of 4096 "8191 + len"] assms(2)
    by (simp_all add: k_def sizes)
  then have "(len + 3) div 4 \<le> 1024 * k - 1024" by simp
  with k have "4096 + n \<le> k * 4096" using assms(1) by simp
  with k(2) show "DATA_OFFSET + n \<le> (DATA_OFFSET + len + BLOCK_SIZE - 1) div BLOCK_SIZE * BLOCK_SIZE"
    "DATA_OFFSET + n \<le> SLOT_BYTES" by (simp_all add: sizes k_def)
qed

lemma one_minus_index: "j \<in> {0, 1 :: nat} \<Longrightarrow> 1 - j \<noteq> j"
  by auto

text \<open>What stays true of the previous show while the next one is staged.\<close>

definition show_kept :: "(u8 list \<Rightarrow> u32) \<Rightarrow> 's storage \<Rightarrow> show_slot option \<Rightarrow> 's \<Rightarrow> 's \<Rightarrow> bool" where
  "show_kept crc ops old s s' \<longleftrightarrow> latest crc ops s' = Inr old \<and>
     (\<forall>slot. old = Some slot \<longrightarrow> read_show ops slot s' = read_show ops slot s)"

lemma old_show_kept:
  assumes laws: "readable_flash ops byte" and l: "latest crc ops s = Inr old"
    and only: "slot_only byte (slot_index (next_slot_for old len)) s s'" and "old = Some slot"
  shows "read_show ops slot s' = read_show ops slot s"
  using l
proof (cases rule: latest_cases)
  case (some o')
  then have "slot_index slot \<noteq> slot_index (next_slot_for old len)" "slot_length slot \<le> CAPACITY"
    using assms(4) by (auto simp: next_slot_for_def)
  then show ?thesis by (rule slot_only_show [OF laws only])
qed (use assms(4) in simp)

lemma kept_by_header:
  assumes laws: "readable_flash ops byte" and l: "latest crc ops s = Inr old"
    and j: "j = slot_index (next_slot_for old len)" and only: "slot_only byte j s s'"
    and header: "read_header ops j s' = read_header ops j s \<or> \<not> committed crc (read_header ops j s')"
  shows "show_kept crc ops old s s'"
proof -
  have index: "j \<in> {0, 1}" unfolding j by (rule next_slot_index [OF l])
  have other: "read_header ops (1 - j) s' = read_header ops (1 - j) s"
    by (rule slot_only_header [OF laws only]) (use index one_minus_index in blast)
  have "latest crc ops s' = Inr old"
  proof (cases "committed crc (read_header ops j s')")
    case False
    then show ?thesis using latest_keeps [OF laws l j other] by blast
  next
    case True
    with header have "read_header ops j s' = read_header ops j s" by blast
    with other index have "latest crc ops s' = latest crc ops s" by (intro latest_unchanged [OF laws]) auto
    with l show ?thesis by simp
  qed
  with old_show_kept [OF laws l only [unfolded j]] show ?thesis by (simp add: show_kept_def)
qed

text \<open>Staging keeps the previous show; so does a commit, unless its header is whole.\<close>

lemma begin_keeps:
  assumes laws: "readable_flash ops byte" and old: "latest crc ops s = Inr old"
    and len: "len \<le> CAPACITY" and b: "begin_show crc ops len s = (r, s')"
  defines "j \<equiv> slot_index (next_slot_for old len)"
  shows "slot_only byte j s s'"
    "show_kept crc ops old s s' \<or> stray_header crc byte False (next_slot_for old len) s s'"
proof -
  obtain r0 where e: "erase_blocks ops (map (\<lambda>at. j * SLOT_BYTES + at) (blocks_below (DATA_OFFSET + len))) s = (r0, s')"
    using b old len by (auto simp: begin_show_def j_def Let_def split: prod.splits sum.splits)
  show only: "slot_only byte j s s'"
    unfolding slot_only_def by (rule erase_blocks_outside [OF laws e staged_within [OF len]])
  show "show_kept crc ops old s s' \<or> stray_header crc byte False (next_slot_for old len) s s'"
    using kept_by_header [OF laws old j_def [THEN meta_eq_to_obj_eq] only]
    by (auto simp: stray_header_def header_stored [OF laws] j_def Let_def)
qed

lemma append_keeps:
  assumes laws: "readable_flash ops byte" and old: "latest crc ops s = Inr old" and len: "len \<le> CAPACITY"
    and buffer: "length buffer \<le> 4 * ((len + 3) div 4)"
    and b: "begin_show crc ops len s = (Inr slot, s1)" and a: "append_show ops slot 0 buffer s1 = (r, s2)"
  defines "j \<equiv> slot_index (next_slot_for old len)"
  shows "slot = next_slot_for old len" "slot_only byte j s s2" "show_kept crc ops old s s2"
    "erased byte (j * SLOT_BYTES) 16 s2"
    "r = Inr () \<Longrightarrow> map (byte s2) [j * SLOT_BYTES + DATA_OFFSET..<j * SLOT_BYTES + DATA_OFFSET + length buffer] = buffer"
proof -
  show slot: "slot = next_slot_for old len" using begin_show_ok [OF laws b] old by auto
  have er: "erased byte (j * SLOT_BYTES) ((DATA_OFFSET + len + BLOCK_SIZE - 1) div BLOCK_SIZE * BLOCK_SIZE) s1"
    and only1: "slot_only byte j s s1"
    using begin_show_ok [OF laws b] old unfolding j_def slot [symmetric] by auto
  have w: "storage_write ops (j * SLOT_BYTES + DATA_OFFSET) buffer s1 = (r, s2)"
    using a by (simp add: append_show_def data_offset_def j_def slot)
  have out: "unchanged_outside byte (j * SLOT_BYTES + DATA_OFFSET) (length buffer) s1 s2"
    using laws w unfolding readable_flash_def by (metis snd_conv)
  note room = padded_room [OF buffer len]
  have "slot_only byte j s1 s2" by (rule slot_only_within [OF out]) (use room(2) in simp_all)
  with only1 show only2: "slot_only byte j s s2" by (rule slot_only_trans)
  show bare: "erased byte (j * SLOT_BYTES) 16 s2"
    using er out room(1) by (auto simp: erased_def unchanged_outside_def sizes)
  show "show_kept crc ops old s s2"
    by (rule kept_by_header [OF laws old j_def [THEN meta_eq_to_obj_eq] only2])
      (use erased_header [OF laws bare] in simp)
  have "erased byte (j * SLOT_BYTES + DATA_OFFSET) (length buffer) s1"
    using er room(1) by (auto simp: erased_def)
  then show "r = Inr () \<Longrightarrow> map (byte s2) [j * SLOT_BYTES + DATA_OFFSET..<j * SLOT_BYTES + DATA_OFFSET + length buffer] = buffer"
    using laws w unfolding readable_flash_def by (metis fst_conv snd_conv)
qed

lemma commit_outcome:
  assumes laws: "readable_flash ops byte" and old: "latest crc ops s = Inr old"
    and len: "len \<le> CAPACITY" "len \<le> length buffer"
    and c: "commit_show crc ops (next_slot_for old len) s2 = (r, s3)"
  defines "j \<equiv> slot_index (next_slot_for old len)"
  assumes only2: "slot_only byte j s s2" and bare: "erased byte (j * SLOT_BYTES) 16 s2"
    and data: "map (byte s2) [j * SLOT_BYTES + DATA_OFFSET..<j * SLOT_BYTES + DATA_OFFSET + length buffer] = buffer"
  shows "((show_kept crc ops old s s3 \<or> stray_header crc byte True (next_slot_for old len) s s3) \<and> r \<noteq> Inr ()) \<or>
    (latest crc ops s3 = Inr (Some (next_slot_for old len)) \<and>
     read_show ops (next_slot_for old len) s3 = Inr (take len buffer))"
proof -
  let ?new = "next_slot_for old len"
  note j = j_def [THEN meta_eq_to_obj_eq]
  have length: "slot_length ?new = len" by (simp add: next_slot_for_def split: option.split)
  have wc: "storage_write ops (j * SLOT_BYTES) (slot_header crc ?new) s2 = (r, s3)"
    using c by (simp add: commit_show_def j_def)
  have out: "unchanged_outside byte (j * SLOT_BYTES) 16 s2 s3"
    using laws wc unfolding readable_flash_def by (metis snd_conv length_slot_header)
  have "slot_only byte j s2 s3" by (rule slot_only_within [OF out]) (simp_all add: sizes)
  with only2 have only3: "slot_only byte j s s3" by (rule slot_only_trans)
  have written: "r = Inr () \<Longrightarrow> read_header ops j s3 = slot_header crc ?new"
    using laws wc bare unfolding readable_flash_def read_header_def bytes_read_def by (metis sum.case(2) fst_conv snd_conv length_slot_header)
  show ?thesis
  proof (cases "read_header ops j s3 = slot_header crc ?new")
    case False
    then obtain x where x: "r = Inl x" using written by (cases r) auto
    have "show_kept crc ops old s s3 \<or> stray_header crc byte True ?new s s3"
      using kept_by_header [OF laws old j only3] False
      by (auto simp: stray_header_def header_stored [OF laws] j_def Let_def)
    with x show ?thesis by simp
  next
    case True
    have "read_header ops (1 - j) s3 = read_header ops (1 - j) s"
      by (rule slot_only_header [OF laws only3])
        (use next_slot_index [OF old] one_minus_index in \<open>auto simp: j_def\<close>)
    then have "latest crc ops s3 = Inr (Some ?new)" by (rule latest_next [OF laws old len(1) j _ True])
    moreover have "read_show ops ?new s3 = Inr (map (byte s3) [j * SLOT_BYTES + DATA_OFFSET..<j * SLOT_BYTES + DATA_OFFSET + len])"
      using laws by (simp add: read_show_def readable_flash_def data_offset_def length j_def)
    moreover have "map (byte s3) [j * SLOT_BYTES + DATA_OFFSET..<j * SLOT_BYTES + DATA_OFFSET + len] =
        map (byte s2) [j * SLOT_BYTES + DATA_OFFSET..<j * SLOT_BYTES + DATA_OFFSET + len]"
      using out by (auto simp: unchanged_outside_def sizes)
    moreover have "\<dots> = take len (map (byte s2) [j * SLOT_BYTES + DATA_OFFSET..<j * SLOT_BYTES + DATA_OFFSET + length buffer])"
      using len(2) by (simp add: take_map)
    ultimately show ?thesis by (simp only: data) simp
  qed
qed

lemma save_outcome:
  assumes "readable_flash ops byte" "latest crc ops s = Inr old"
    and "len \<le> length buffer" "length buffer \<le> 4 * ((len + 3) div 4)"
    and "save_show crc ops admitted len buffer s = (saved, s')"
  shows "((show_kept crc ops old s s' \<or>
        stray_header crc byte (\<exists>slot. fst (begin_show crc ops len s) = Inr slot) (next_slot_for old len) s s') \<and> \<not> saved) \<or>
    (latest crc ops s' = Inr (Some (next_slot_for old len)) \<and>
     read_show ops (next_slot_for old len) s' = Inr (take len buffer))"
proof (cases "len \<le> CAPACITY")
  case False
  with assms(2,5) show ?thesis by (auto simp: save_show_def begin_show_def show_kept_def)
next
  case len: True
  obtain r1 s1 where b: "begin_show crc ops len s = (r1, s1)" by (cases "begin_show crc ops len s")
  show ?thesis
  proof (cases r1)
    case (Inl x)
    with begin_keeps(2) [OF assms(1,2) len b] assms(5) b show ?thesis by (auto simp: save_show_def)
  next
    case (Inr slot)
    obtain r2 s2 where a: "append_show ops slot 0 buffer s1 = (r2, s2)" by (cases "append_show ops slot 0 buffer s1")
    note staged = append_keeps [OF assms(1,2) len assms(4) b [unfolded Inr] a]
    obtain r3 s3 where c: "commit_show crc ops slot s2 = (r3, s3)" by (cases "commit_show crc ops slot s2")
    show ?thesis
    proof (cases "r2 = Inr () \<and> admitted")
      case False
      then have "s' = s2" "\<not> saved" using assms(5) b a Inr by (auto simp: save_show_def split: sum.splits)
      with staged(3) show ?thesis by simp
    next
      case True
      then have "s' = s3" "saved \<longleftrightarrow> r3 = Inr ()" using assms(5) b a c Inr
        by (auto simp: save_show_def split: sum.splits)
      with commit_outcome [OF assms(1,2) len assms(3) c [unfolded staged(1)] staged(2,4) staged(5)] True b Inr
      show ?thesis by auto
    qed
  qed
qed

text \<open>A driver whose reads may fail: an upload gives up at once, or reads what is stored.\<close>

lemma latest_reads:
  assumes "flash_laws ops byte"
  shows "(\<exists>e. latest crc ops s = Inl e) \<or> latest crc ops s = latest crc (reading byte ops) s"
proof -
  have "(\<exists>e. consider_slot crc ops s i sel = Inl e) \<or>
      consider_slot crc ops s i sel = consider_slot crc (reading byte ops) s i sel" for i sel
    using assms by (cases "storage_read ops s (i * SLOT_BYTES) 16")
      (auto simp: flash_laws_def consider_slot_def reading_def)
  then show ?thesis unfolding latest_def by (metis (mono_tags, lifting) sum.exhaust sum.case)
qed

lemma reading_operations:
  "storage_write (reading byte ops) = storage_write ops" "storage_erase (reading byte ops) = storage_erase ops"
  by (simp_all add: reading_def)

lemma reading_steps:
  "erase_blocks (reading byte ops) ats s = erase_blocks ops ats s"
  "append_show (reading byte ops) slot offset bytes s = append_show ops slot offset bytes s"
  "commit_show crc (reading byte ops) slot s = commit_show crc ops slot s"
  by (induction ats arbitrary: s)
    (simp_all add: append_show_def commit_show_def reading_operations split: prod.split sum.split)

lemma save_reads:
  assumes "flash_laws ops byte"
  shows "save_show crc ops admitted len buffer s = (False, s) \<or>
    (begin_show crc ops len s = begin_show crc (reading byte ops) len s \<and>
     save_show crc ops admitted len buffer s = save_show crc (reading byte ops) admitted len buffer s)"
proof -
  consider e where "latest crc ops s = Inl e" | "latest crc ops s = latest crc (reading byte ops) s"
    using latest_reads [OF assms] by blast
  then show ?thesis
  proof cases
    case 1
    then show ?thesis by (simp add: save_show_def begin_show_def)
  next
    case 2
    then show ?thesis unfolding save_show_def begin_show_def reading_steps by simp
  qed
qed

lemma found_is_stored:
  assumes "flash_laws ops byte" "found_show crc ops s = Inr found"
  shows "stored_show crc ops byte s = Inr found"
proof -
  have "latest crc ops s = latest crc (reading byte ops) s"
    using latest_reads [OF assms(1), of crc s] assms(2) by (auto simp: found_show_def)
  with assms show ?thesis
    by (auto simp: stored_show_def found_show_def read_show_def flash_laws_def reading_def split: sum.splits option.splits)
qed

text \<open>
  C28. Replacing the saved show is atomic: whatever fails or loses power on the way, reads
  included, afterwards the flash holds the show before, with its bytes, or the new one, complete;
  and it holds the new one when the controller answers that it saved it. The one exception is
  named: bytes a failed operation left in the new slot's header that pass its checksum by
  accident. After a failed erase that is any header but the one that was there; after a failed
  commit it is also not the one the commit writes. Whatever show
  the driver finds afterwards is the one the flash holds.
\<close>

theorem save_show_atomic:
  assumes "flash_laws ops byte" "stored_show crc ops byte s = Inr old"
    and "len \<le> length buffer" "length buffer \<le> 4 * ((len + 3) div 4)"
    and "save_show crc ops admitted len buffer s = (saved, s')"
  defines "slot \<equiv> next_slot_for (map_option fst old) len"
  shows "(stored_show crc ops byte s' = Inr old \<and> \<not> saved \<or>
      stored_show crc ops byte s' = Inr (Some (slot, take len buffer)) \<or>
      stray_header crc byte (\<exists>slot. fst (begin_show crc ops len s) = Inr slot) slot s s' \<and> \<not> saved) \<and>
    (\<forall>found. found_show crc ops s' = Inr found \<longrightarrow> stored_show crc ops byte s' = Inr found)"
proof
  let ?ops = "reading byte ops"
  have l: "latest crc ?ops s = Inr (map_option fst old)"
    using assms(2) by (auto simp: stored_show_def found_show_def split: sum.splits option.splits)
  have kept: "stored_show crc ops byte s' = Inr old" if "show_kept crc ?ops (map_option fst old) s s'" for s'
    using assms(2) that
    by (auto simp: stored_show_def found_show_def show_kept_def split: sum.splits option.splits)
  show "\<forall>found. found_show crc ops s' = Inr found \<longrightarrow> stored_show crc ops byte s' = Inr found"
    using found_is_stored [OF assms(1)] by blast
  show "stored_show crc ops byte s' = Inr old \<and> \<not> saved \<or>
      stored_show crc ops byte s' = Inr (Some (slot, take len buffer)) \<or>
      stray_header crc byte (\<exists>slot. fst (begin_show crc ops len s) = Inr slot) slot s s' \<and> \<not> saved"
    using save_reads [OF assms(1), of crc admitted len buffer s]
  proof (elim disjE conjE)
    assume "save_show crc ops admitted len buffer s = (False, s)"
    with assms(2,5) show ?thesis by simp
  next
    assume begins: "begin_show crc ops len s = begin_show crc ?ops len s"
      and saves: "save_show crc ops admitted len buffer s = save_show crc ?ops admitted len buffer s"
    have new: "stored_show crc ops byte s' = Inr (Some (slot, take len buffer))"
      if "latest crc ?ops s' = Inr (Some slot)" "read_show ?ops slot s' = Inr (take len buffer)"
      using that by (simp add: stored_show_def found_show_def)
    show ?thesis
      using save_outcome [OF reading_readable [OF assms(1)] l assms(3,4) assms(5) [unfolded saves]] kept new
      unfolding begins slot_def by blast
  qed
qed

text \<open>
  A driver over plain memory that loses power during its last operation, which stores only the first
  half of its range, and fails from then on. The upload of a second show loses it in the commit:
  nothing can be read for now, and the flash holds the first show.
\<close>

definition cut_after :: "nat \<Rightarrow> nat \<Rightarrow> nat" where
  "cut_after left n = (if left = 0 then 0 else if left = 1 then n div 2 else n)"

definition power_cut :: "((nat \<Rightarrow> u8) \<times> nat) storage" where
  "power_cut =
     \<lparr>storage_read = (\<lambda>s at n. if snd s = 0 then Inl StorageIo else Inr (map (fst s) [at..<at + n])),
      storage_write = (\<lambda>at bs s.
        (if snd s \<le> 1 then Inl StorageIo else Inr (),
         \<lambda>a. if at \<le> a \<and> a < at + cut_after (snd s) (length bs) then bs ! (a - at) else fst s a, snd s - 1)),
      storage_erase = (\<lambda>at n s.
        (if snd s \<le> 1 then Inl StorageIo else Inr (),
         \<lambda>a. if at \<le> a \<and> a < at + cut_after (snd s) n then 0xff else fst s a, snd s - 1))\<rparr>"

definition first_slot :: show_slot where
  "first_slot = \<lparr>slot_index = 0, slot_generation = 1, slot_length = 3\<rparr>"

definition saved_flash :: "nat \<Rightarrow> u8" where
  "saved_flash = (\<lambda>a.
     if a < 16 then slot_header (\<lambda>_. 0) first_slot ! a
     else if DATA_OFFSET \<le> a \<and> a < DATA_OFFSET + 3 then [1, 2, 3] ! (a - DATA_OFFSET) else 0xff)"

lemma power_cut_operations:
  "storage_read power_cut s at n = (if snd s = 0 then Inl StorageIo else Inr (map (fst s) [at..<at + n]))"
  "storage_write power_cut at bs s =
     (if snd s \<le> 1 then Inl StorageIo else Inr (),
      \<lambda>a. if at \<le> a \<and> a < at + cut_after (snd s) (length bs) then bs ! (a - at) else fst s a, snd s - 1)"
  "storage_erase power_cut at n s =
     (if snd s \<le> 1 then Inl StorageIo else Inr (),
      \<lambda>a. if at \<le> a \<and> a < at + cut_after (snd s) n then 0xff else fst s a, snd s - 1)"
  by (simp_all add: power_cut_def)

lemma power_cut_laws: "flash_laws power_cut fst"
  by (auto simp: flash_laws_def power_cut_operations unchanged_outside_def erased_def cut_after_def
      intro: nth_equalityI split: if_splits)

lemmas power_cut_readable = reading_readable [OF power_cut_laws]

lemma saved_headers:
  "\<not> committed crc (stored_header fst 1 (saved_flash, k :: nat))"
  "stored_header fst 0 (saved_flash, k :: nat) = slot_header (\<lambda>_. 0) first_slot"
proof -
  show "\<not> committed crc (stored_header fst 1 (saved_flash, k))"
    using erased_header [OF power_cut_readable, of 1 16 "(saved_flash, k)"]
    by (simp add: header_stored [OF power_cut_readable] erased_def saved_flash_def sizes)
  show "stored_header fst 0 (saved_flash, k) = slot_header (\<lambda>_. 0) first_slot"
    by (rule nth_equalityI) (simp_all add: stored_header_def saved_flash_def)
qed

lemma saved_latest: "latest (\<lambda>_. 0) (reading fst power_cut) (saved_flash, k) = Inr (Some first_slot)"
proof -
  have "header_slot 0 (slot_header (\<lambda>_. 0) first_slot) = first_slot"
    using header_slot_header [of first_slot "\<lambda>_. 0"] by (simp add: first_slot_def)
  then show ?thesis
    using saved_headers by (simp add: latest_def consider_readable [OF power_cut_readable]
        header_stored [OF power_cut_readable] slot_header_committed newer_def Let_def first_slot_def sizes)
qed

lemma saved_show: "stored_show (\<lambda>_. 0) power_cut fst (saved_flash, k) = Inr (Some (first_slot, [1, 2, 3]))"
proof -
  have "map saved_flash [4096..<4099] = [1, 2, 3]"
    by (simp add: saved_flash_def sizes upt_conv_Cons)
  then show ?thesis
    by (simp add: stored_show_def found_show_def saved_latest read_show_def first_slot_def data_offset_def sizes)
       (simp add: reading_def)
qed

definition second_slot :: show_slot where
  "second_slot = \<lparr>slot_index = 1, slot_generation = 2, slot_length = 3\<rparr>"

lemma second_fields:
  "next_slot_for (Some first_slot) 3 = second_slot" "slot_index second_slot = 1"
  "slot_header (\<lambda>_. 0) second_slot = MAGIC @ [2, 0, 0, 0, 3, 0, 0, 0, 0, 0, 0, 0]"
  by (simp_all add: second_slot_def next_slot_for_def first_slot_def slot_header_def le32_def Let_def)

lemma cut_begins:
  "begin_show (\<lambda>_. 0) power_cut 3 (saved_flash, 4) =
    (Inr second_slot, snd (erase_blocks power_cut [131072, 135168] (saved_flash, 4)))"
proof -
  have same: "consider_slot (\<lambda>_. 0) power_cut (saved_flash, 4) i selected =
      consider_slot (\<lambda>_. 0) (reading fst power_cut) (saved_flash, 4) i selected" for i selected
    by (simp add: consider_slot_def power_cut_operations) (simp add: reading_def)
  have "latest (\<lambda>_. 0) power_cut (saved_flash, 4) = Inr (Some first_slot)"
    using saved_latest [of 4] unfolding latest_def same .
  moreover have "blocks_below 4099 = [0, 4096]"
    by (simp add: blocks_below_def sizes upt_conv_Cons numeral_eq_Suc [of "num.Bit0 num.One"])
  ultimately show ?thesis
    by (simp add: begin_show_def second_fields Let_def sizes power_cut_operations cong: if_cong)
qed

definition cut_upload :: "bool \<times> (nat \<Rightarrow> u8) \<times> nat" where
  "cut_upload = save_show (\<lambda>_. 0) power_cut True 3 [7, 8, 9, 0] (saved_flash, 4)"

lemma cut_header:
  "\<not> fst cut_upload" "snd (snd cut_upload) = 0"
  "stored_header fst 1 (snd cut_upload) = MAGIC @ [2, 0, 0, 0, 255, 255, 255, 255, 255, 255, 255, 255]"
proof -
  note run = cut_upload_def save_show_def cut_begins append_show_def commit_show_def power_cut_operations
  show "\<not> fst cut_upload" "snd (snd cut_upload) = 0" by (simp_all add: run)
  show "stored_header fst 1 (snd cut_upload) = MAGIC @ [2, 0, 0, 0, 255, 255, 255, 255, 255, 255, 255, 255]"
    by (simp add: run second_fields MAGIC_def cut_after_def stored_header_def data_offset_def sizes upt_conv_Cons)
qed

theorem save_show_atomic_witness:
  "\<not> fst cut_upload \<and> found_show (\<lambda>_. 0) power_cut (snd cut_upload) = Inl StorageIo \<and>
   stored_show (\<lambda>_. 0) power_cut fst (snd cut_upload) = Inr (Some (first_slot, [1, 2, 3]))"
proof (intro conjI)
  let ?s = "(saved_flash, 4)"
  have run: "save_show (\<lambda>_. 0) power_cut True 3 [7, 8, 9, 0] ?s = (fst cut_upload, snd cut_upload)"
    by (simp add: cut_upload_def)
  show saved: "\<not> fst cut_upload" by (rule cut_header)
  show "found_show (\<lambda>_. 0) power_cut (snd cut_upload) = Inl StorageIo"
    by (simp add: found_show_def latest_def consider_slot_def power_cut_operations cut_header)
  have torn: "\<not> committed (\<lambda>_. 0) (stored_header fst 1 (snd cut_upload))"
    unfolding cut_header by (simp add: committed_def MAGIC_def header_word_def of_le32_def)
  have new: "next_slot_for (map_option fst (Some (first_slot, [1, 2, 3 :: u8]))) 3 = second_slot"
    by (simp add: second_fields)
  have "stored_show (\<lambda>_. 0) power_cut fst (snd cut_upload) \<noteq> Inr (Some (second_slot, bytes))" for bytes
    using torn by (auto simp: stored_show_def found_show_def header_stored [OF power_cut_readable] second_fields
        elim!: latest_cases split: sum.splits option.splits)
  moreover have "\<not> stray_header (\<lambda>_. 0) fst begun second_slot ?s (snd cut_upload)" for begun
    using torn by (simp add: stray_header_def second_fields Let_def)
  ultimately show "stored_show (\<lambda>_. 0) power_cut fst (snd cut_upload) = Inr (Some (first_slot, [1, 2, 3]))"
    using save_show_atomic [OF power_cut_laws saved_show _ _ run, unfolded new] by auto
qed

text \<open>
  C38. A committed header, in either slot, with a length over the slot's capacity is never replaced:
  every later upload is refused without touching the storage, whatever the other slot holds.
\<close>

theorem oversized_header_blocks:
  assumes "i < 2" "committed crc (read_header ops i s)"
    and "unat (header_word (read_header ops i s) 8) > CAPACITY"
  shows "save_show crc ops admitted len buffer s = (False, s)"
proof -
  have "\<exists>e. consider_slot crc ops s i selected = Inl e" for selected
    using assms(2,3) by (cases "storage_read ops s (i * SLOT_BYTES) 16")
      (auto simp: consider_slot_def read_header_def bytes_read_def header_slot_def committed_def MAGIC_def Let_def)
  moreover have "i = 0 \<or> i = 1" using assms(1) by auto
  ultimately have "\<exists>e. latest crc ops s = Inl e" unfolding latest_def
    by (elim disjE) (metis sum.case(1), metis sum.case sum.exhaust)
  then show ?thesis by (auto simp: save_show_def begin_show_def)
qed

text \<open>Two flashes: one with such a header alone, and one that holds a whole show in the other slot.\<close>

definition oversized_flash :: "nat \<Rightarrow> nat \<Rightarrow> u8" where
  "oversized_flash i = (\<lambda>a.
     if i * SLOT_BYTES \<le> a \<and> a < i * SLOT_BYTES + 16
     then (MAGIC @ [2, 0, 0, 0, 0, 0, 2, 0, 0, 0, 0, 0]) ! (a - i * SLOT_BYTES) else saved_flash a)"

theorem oversized_header_blocks_witness:
  "save_show (\<lambda>_. 0) power_cut True 3 [7, 8, 9, 0] (oversized_flash 0, 4) = (False, oversized_flash 0, 4) \<and>
   save_show (\<lambda>_. 0) power_cut True 3 [7, 8, 9, 0] (oversized_flash 1, 4) = (False, oversized_flash 1, 4)"
proof -
  have h: "read_header power_cut i (oversized_flash i, 4) = MAGIC @ [2, 0, 0, 0, 0, 0, 2, 0, 0, 0, 0, 0]" for i
    by (rule nth_equalityI) (simp_all add: read_header_def bytes_read_def power_cut_operations oversized_flash_def MAGIC_def)
  have c: "committed (\<lambda>_. 0) (MAGIC @ [2, 0, 0, 0, 0, 0, 2, 0, 0, 0, 0, 0])"
    "unat (header_word (MAGIC @ [2, 0, 0, 0, 0, 0, 2, 0, 0, 0, 0, 0]) 8) > CAPACITY"
    by (simp_all add: committed_def MAGIC_def header_word_def of_le32_def sizes)
  show ?thesis
    using oversized_header_blocks [of 0 "\<lambda>_. 0" power_cut "(oversized_flash 0, 4)"]
      oversized_header_blocks [of 1 "\<lambda>_. 0" power_cut "(oversized_flash 1, 4)"] c
    unfolding h by simp
qed

end
