(* ===== verification/ColorText.thy ===== *)
theory ColorText
  imports Text Values
begin

text \<open>
  Colors as text, \<open>crates/donder-runtime-types/src/values.rs\<close>: eight-bit channels and
  \<open>#rrggbb\<close>. The channels go through \<open>f32\<close> arithmetic, which is exact rational arithmetic
  followed by one rounding; \<open>f32_round\<close> is that rounding for values that are not negative.
\<close>

section \<open>Rounding to f32\<close>

text \<open>\<open>num / den\<close> scaled by a power of two, and the greatest exponent \<open>e\<close>, at least
  \<open>-126\<close>, with \<open>2 ^ e\<close> at most \<open>num / den\<close>, searched downwards.\<close>

definition scaled :: "int \<Rightarrow> int \<Rightarrow> int \<Rightarrow> int \<times> int" where
  "scaled e num den = (if e \<ge> 0 then (num * 2 ^ nat e, den) else (num, den * 2 ^ nat (- e)))"

fun f32_exponent :: "nat \<Rightarrow> int \<Rightarrow> int \<Rightarrow> int" where
  "f32_exponent 0 num den = - 126"
| "f32_exponent (Suc n) num den =
     (let e = int n - 125; (p, q) = scaled (- e) num den
      in if q \<le> p then e else f32_exponent n num den)"

text \<open>Round half to even; the exponent field and a carry out of the significand add up.\<close>

definition round_even :: "int \<Rightarrow> int \<Rightarrow> int" where
  "round_even p q =
     (let d = p div q; r = 2 * (p mod q)
      in if r < q then d else if r > q then d + 1 else d + d mod 2)"

definition f32_round :: "int \<Rightarrow> int \<Rightarrow> f32" where
  "f32_round num den =
     (let e = f32_exponent 253 num den; (p, q) = scaled (23 - e) num den
      in of_int ((e + 126) * 2 ^ 23 + round_even p q))"

text \<open>A finite \<open>f32\<close> without a sign is its significand times \<open>2 ^ (field - 150)\<close>.\<close>

definition f32_parts :: "f32 \<Rightarrow> int \<times> int" where
  "f32_parts b =
     (let field = uint (drop_bit 23 b); fraction = uint (b AND 0x7fffff)
      in if field = 0 then (fraction, - 149) else (fraction + 2 ^ 23, field - 150))"

definition f32_ratio :: "f32 \<Rightarrow> int \<times> int" where
  "f32_ratio b = (let (m, e) = f32_parts b in scaled e m 1)"

section \<open>Color channels\<close>

definition channel_of_byte :: "u8 \<Rightarrow> f32" where
  "channel_of_byte b = f32_round (uint b) 255"

text \<open>
  \<open>(channel * 255.0 + 0.5) as u8\<close>: the cast takes a NaN and what is below zero to 0, and what
  is above to 255. A negative channel gives less than a half, and a channel from 1 at least
  255, so only the others round.
\<close>

definition byte_of_channel :: "f32 \<Rightarrow> u8" where
  "byte_of_channel c =
     (if f32_is_nan c \<or> f32_negative c then 0
      else if f32_le f32_one c then 255
      else let (m, d) = f32_ratio c;
               (m, d) = f32_ratio (f32_round (m * 255) d);
               (m, d) = f32_ratio (f32_round (2 * m + d) (2 * d))
           in of_int (min 255 (m div d)))"

definition color_from_bytes :: "u8 \<times> u8 \<times> u8 \<Rightarrow> color" where
  "color_from_bytes = (\<lambda>(r, g, b). \<lparr>red = channel_of_byte r, green = channel_of_byte g, blue = channel_of_byte b\<rparr>)"

definition color_to_bytes :: "color \<Rightarrow> u8 \<times> u8 \<times> u8" where
  "color_to_bytes c = (byte_of_channel (red c), byte_of_channel (green c), byte_of_channel (blue c))"

section \<open>Hexadecimal colors\<close>

definition hex_digit :: "nat \<Rightarrow> rchar" where
  "hex_digit n = (if n < 10 then 48 + n else 87 + n)"

text \<open>\<open>{b:02x}\<close> and \<open>u8::from_str_radix(_, 16)\<close> of two characters, which takes a plus sign.\<close>

definition hex_of_byte :: "u8 \<Rightarrow> rstr" where
  "hex_of_byte b = [hex_digit (unat b div 16), hex_digit (unat b mod 16)]"

definition digit_of_hex :: "rchar \<Rightarrow> nat option" where
  "digit_of_hex c =
     (if is_ascii_digit c then Some (c - 48)
      else if 97 \<le> c \<and> c \<le> 102 then Some (c - 87)
      else if 65 \<le> c \<and> c \<le> 70 then Some (c - 55) else None)"

definition byte_of_hex :: "rchar \<Rightarrow> rchar \<Rightarrow> u8 option" where
  "byte_of_hex a b =
     (if a = 43 then map_option of_nat (digit_of_hex b)
      else do { x \<leftarrow> digit_of_hex a; y \<leftarrow> digit_of_hex b; Some (of_nat (16 * x + y)) })"

definition color_to_hex :: "color \<Rightarrow> rstr" where
  "color_to_hex c =
     (let (r, g, b) = color_to_bytes c in 35 # hex_of_byte r @ hex_of_byte g @ hex_of_byte b)"

text \<open>
  The source takes seven bytes and cuts them in pairs; with fewer characters than bytes a cut
  falls inside one or its digits do not parse.
\<close>

definition color_from_hex :: "rstr \<Rightarrow> color option" where
  "color_from_hex t =
     (case t of
        [h, a, b, c, d, e, f] \<Rightarrow>
          if h = 35 \<and> utf8_len t = 7
          then do { r \<leftarrow> byte_of_hex a b; g \<leftarrow> byte_of_hex c d; bl \<leftarrow> byte_of_hex e f;
                    Some (color_from_bytes (r, g, bl)) }
          else None
      | _ \<Rightarrow> None)"

lemma hex_digit_class: "n < 16 \<Longrightarrow> is_ascii_hexdigit (hex_digit n) \<and> hex_digit n < 128 \<and> hex_digit n \<noteq> 43"
  by (auto simp: hex_digit_def is_ascii_hexdigit_def is_ascii_digit_def)

lemma digit_of_hex_digit [simp]: "n < 16 \<Longrightarrow> digit_of_hex (hex_digit n) = Some n"
  by (auto simp: hex_digit_def digit_of_hex_def is_ascii_digit_def)

lemma byte_parts: "unat (b :: u8) div 16 < 16"
  by (rule less_mult_imp_div_less) simp

lemma byte_of_hex_of_byte [simp]: "byte_of_hex (hex_digit (unat b div 16)) (hex_digit (unat b mod 16)) = Some b"
proof -
  have "of_nat (16 * (unat b div 16) + unat b mod 16) = b" by (simp only: mult_div_mod_eq) simp
  then have "16 * of_nat (unat b div 16) + of_nat (unat b mod 16) = b"
    by (simp only: of_nat_add of_nat_mult of_nat_numeral)
  then show ?thesis using byte_parts [of b] hex_digit_class [OF byte_parts [of b]] by (simp add: byte_of_hex_def)
qed

lemma color_from_to_hex: "color_from_hex (color_to_hex c) = Some (color_from_bytes (color_to_bytes c))"
proof -
  have "len_utf8 (hex_digit n) = 1" if "n < 16" for n
    using hex_digit_class [OF that] by (simp add: len_utf8_def)
  then show ?thesis using byte_parts
    by (simp add: color_from_hex_def color_to_hex_def hex_of_byte_def case_prod_beta len_utf8_def [of 35])
qed

lemma color_hex_digits:
  "\<exists>h. color_to_hex c = 35 # h \<and> length h = 6 \<and> (\<forall>x \<in> set h. is_ascii_hexdigit x)"
  using hex_digit_class byte_parts
  by (simp add: color_to_hex_def hex_of_byte_def case_prod_beta)

end
