(* ===== verification/DataTree.thy ===== *)
theory DataTree
  imports ColorText Lexer
begin

text \<open>
  The tree of data documents and the one spelling of each literal,
  \<open>crates/donder-language/src/data/tree.rs\<close> and \<open>literal.rs\<close>.

  How Rust's library prints and reads an \<open>f32\<close> is an argument of the model, a record of the
  two functions; \<open>float_laws\<close> states what it documents: a finite float prints as decimal digits
  with an optional sign and fraction, and reads back as itself.
\<close>

section \<open>The tree\<close>

datatype 'a spanned = Spanned (spanned_value: 'a) (spanned_span: text_span)

record duration =
  secs :: u64
  nanos :: u32

datatype (plugins only: size code) data_value =
    DInteger int
  | DFloat f32
  | DDuration duration
  | DDistance int
  | DColor color
  | DString rstr
  | DPath rstr
  | DBool bool
  | DNone
  | DReference "ident spanned list"
  | DVariant "ident spanned"
  | DRecord "ident spanned" "data_field list spanned"
  | DNamed "ident spanned" "ident spanned" "data_field list spanned"
  | DMap "data_field list"
  | DList "data_value spanned list"
  | DTuple "data_value spanned list"
  | DError
and data_field = DataField (field_name: "ident spanned") (field_value: "data_value spanned")

record data_import =
  import_alias :: "ident spanned"
  import_paths :: "rstr spanned list"

record data_declaration =
  declaration_type :: "ident spanned"
  declaration_name :: "ident spanned"
  declaration_fields :: "data_field list spanned"

record data_document =
  doc_imports :: "data_import list"
  doc_declarations :: "data_declaration list"

definition empty_document :: data_document where
  "empty_document = \<lparr>doc_imports = [], doc_declarations = []\<rparr>"

text \<open>\<open>snake_case\<close> and \<open>PascalCase\<close>.\<close>

definition is_snake_case :: "rstr \<Rightarrow> bool" where
  "is_snake_case t =
     (case t of [] \<Rightarrow> False
      | first # chars \<Rightarrow> (is_ascii_lowercase first \<or> first = 95) \<and>
          list_all (\<lambda>c. is_ascii_lowercase c \<or> is_ascii_digit c \<or> c = 95) chars)"

definition is_pascal_case :: "rstr \<Rightarrow> bool" where
  "is_pascal_case t =
     (case t of [] \<Rightarrow> False
      | first # chars \<Rightarrow> is_ascii_uppercase first \<and> list_all is_ascii_alphanumeric chars)"

section \<open>Literals\<close>

record float_format =
  show_f32 :: "f32 \<Rightarrow> rstr"
  read_f32 :: "rstr \<Rightarrow> f32 option"

record invalid =
  invalid_message :: rstr
  invalid_fix :: "rstr option"

definition invalid_because :: "rstr \<Rightarrow> invalid" where
  "invalid_because message = \<lparr>invalid_message = message, invalid_fix = None\<rparr>"

definition respell :: "rstr \<Rightarrow> rstr \<Rightarrow> invalid" where
  "respell message canonical = \<lparr>invalid_message = message, invalid_fix = Some canonical\<rparr>"

definition canonical_float :: "float_format \<Rightarrow> f32 \<Rightarrow> rstr" where
  "canonical_float fmt value =
     (let text = show_f32 fmt value in if 46 \<in> set text then text else text @ str ''.0'')"

definition canonical_duration :: "duration \<Rightarrow> rstr" where
  "canonical_duration d =
     (if nanos d = 0 then digits (unat (secs d)) @ str ''s''
      else let fraction = pad_left 9 (digits (unat (nanos d)))
        in digits (unat (secs d)) @ str ''.'' @ trim_end 48 fraction @ str ''s'')"

definition canonical_distance :: "int \<Rightarrow> rstr" where
  "canonical_distance micrometers =
     (let sign = (if micrometers < 0 then str ''-'' else []);
          magnitude = nat \<bar>micrometers\<bar>;
          meters = magnitude div 1000000; fraction = magnitude mod 1000000
      in if fraction = 0 then sign @ digits meters @ str ''m''
         else sign @ digits meters @ str ''.'' @ trim_end 48 (pad_left 6 (digits fraction)) @ str ''m'')"

definition tick :: "rstr \<Rightarrow> rstr" where
  "tick t = str ''`'' @ t @ str ''`''"

definition in_i64 :: "int \<Rightarrow> bool" where
  "in_i64 i \<longleftrightarrow> - (2 ^ 63) \<le> i \<and> i < 2 ^ 63"

text \<open>\<open>text\<close> without its \<open>m\<close>, as micrometers.\<close>

definition distance :: "rstr \<Rightarrow> invalid + int" where
  "distance text =
     (let (negative, number) = (case text of c # cs \<Rightarrow> if c = 45 then (True, cs) else (False, text) | [] \<Rightarrow> (False, text));
          (meters, fraction) = (case split_once 46 number of Some p \<Rightarrow> p | None \<Rightarrow> (number, []));
          bad = Inl (invalid_because (tick (text @ str ''m'') @ str '' is not a distance''))
      in if utf8_len fraction > 6
         then Inl (invalid_because (str ''distances are exact to the micrometer: at most six decimals''))
         else case parse_i64 meters of None \<Rightarrow> bad | Some meters \<Rightarrow>
           (case (if fraction = [] then Some 0 else parse_i64 (pad_right 6 fraction)) of None \<Rightarrow> bad | Some fraction \<Rightarrow>
              if \<not> in_i64 (meters * 1000000) \<or> \<not> in_i64 (meters * 1000000 + fraction) then bad
              else let magnitude = meters * 1000000 + fraction;
                       value = (if negative then - magnitude else magnitude);
                       canonical = canonical_distance value
                in if canonical = text @ str ''m'' then Inr value
                   else Inl (respell (str ''write '' @ tick canonical) canonical)))"

text \<open>\<open>f32::is_finite\<close> of what parses.\<close>

definition float_literal :: "float_format \<Rightarrow> rstr \<Rightarrow> invalid + f32" where
  "float_literal fmt text =
     (case read_f32 fmt text of
        Some value \<Rightarrow>
          if \<not> f32_is_finite value then Inl (invalid_because (tick text @ str '' is not a 32-bit float''))
          else let canonical = canonical_float fmt value
            in if canonical = text then Inr value
               else Inl (respell (str ''write '' @ tick canonical @ str '', the shortest spelling of this float'') canonical)
      | None \<Rightarrow> Inl (invalid_because (tick text @ str '' is not a 32-bit float'')))"

definition integer_literal :: "rstr \<Rightarrow> invalid + int" where
  "integer_literal text =
     (case parse_i64 text of
        None \<Rightarrow> Inl (invalid_because (tick text @ str '' is out of the integer range''))
      | Some value \<Rightarrow>
          if show_int value = text then Inr value
          else Inl (respell (str ''write '' @ tick (show_int value) @ str '' without leading zeros'') (show_int value)))"

text \<open>Decimal seconds, exact to the nanosecond.\<close>

definition seconds :: "rstr \<Rightarrow> rstr + duration" where
  "seconds text =
     (let (whole, fraction) = (case split_once 46 text of Some p \<Rightarrow> p | None \<Rightarrow> (text, []));
          fraction = trim_end 48 fraction
      in if (whole = [] \<and> fraction = []) \<or> \<not> list_all is_ascii_digit whole \<or> \<not> list_all is_ascii_digit fraction
         then Inl (tick text @ str '' is not a number of seconds'')
         else if length fraction > 9
         then Inl (str ''durations are exact to the nanosecond: at most nine decimals'')
         else case (if whole = [] then Some 0 else parse_unsigned (2 ^ 64 - 1) whole) of
                None \<Rightarrow> Inl (tick text @ str '' seconds is out of range'')
              | Some whole \<Rightarrow>
                  (case parse_unsigned (2 ^ 32 - 1) (pad_right 9 fraction) of
                     None \<Rightarrow> Inl (tick text @ str '' is not a number of seconds'')
                   | Some n \<Rightarrow> Inr \<lparr>secs = of_nat whole, nanos = of_nat n\<rparr>))"

definition parse_duration :: "rstr \<Rightarrow> rstr + duration" where
  "parse_duration text =
     seconds (if text \<noteq> [] \<and> last text = 115 then butlast text else text)"

definition duration_literal :: "rstr \<Rightarrow> invalid + duration" where
  "duration_literal text =
     (case seconds text of
        Inl message \<Rightarrow> Inl (invalid_because message)
      | Inr value \<Rightarrow>
          let canonical = canonical_duration value
          in if canonical = text @ str ''s'' then Inr value
             else Inl (respell (str ''write '' @ tick canonical) canonical))"

text \<open>The characters between the quotes of a string token; the last problem is reported.\<close>

definition bad_escape :: "rstr \<Rightarrow> rstr" where
  "bad_escape c = tick (92 # c) @ str '' is not an escape; use '' @ tick [92, 34] @ str '', '' @ tick [92, 92] @
     str '', '' @ tick [92, 110] @ str '' or '' @ tick [92, 116]"

definition bad_control :: rstr where
  "bad_control = str ''write control characters as '' @ tick [92, 110] @ str '' or '' @ tick [92, 116]"

fun string_chars :: "rstr \<Rightarrow> rstr option \<Rightarrow> rstr \<times> rstr option" where
  "string_chars [] problem = ([], problem)"
| "string_chars (c # cs) problem =
     (if c = 92 then
        case cs of
          [] \<Rightarrow> ([], Some (bad_escape []))
        | d # cs \<Rightarrow>
            if d = 34 \<or> d = 92 \<or> d = 110 \<or> d = 116
            then let (value, problem) = string_chars cs problem
              in ((if d = 110 then 10 else if d = 116 then 9 else d) # value, problem)
            else string_chars cs
                   (Some (bad_escape [d]))
      else if is_control c
      then string_chars cs (Some bad_control)
      else let (value, problem) = string_chars cs problem in (c # value, problem))"

definition string_literal :: "rstr \<Rightarrow> rstr + rstr" where
  "string_literal quoted =
     (let (value, problem) = string_chars (butlast (tl quoted)) None
      in case problem of None \<Rightarrow> Inr value | Some message \<Rightarrow> Inl message)"

section \<open>Every canonical spelling reads back\<close>

lemma digits_no: "\<not> is_ascii_digit c \<Longrightarrow> c \<notin> set (digits n)"
  using digits_digit by blast

lemma split_digits [simp]: "split_once 46 (digits n) = None" "split_once 46 (digits n @ 46 # t) = Some (digits n, t)"
  by (simp_all add: split_once_None split_once_append digits_no is_ascii_digit_def)

lemma parse_i64_nat [simp]: "n < 2 ^ 63 \<Longrightarrow> parse_i64 (digits n) = Some (int n)"
  by (simp add: parse_i64_digits digits_digit)

lemma set_pad_left: "c \<in> set (pad_left w t) \<Longrightarrow> c = 48 \<or> c \<in> set t"
  by (auto simp: pad_left_def)

lemma set_trim_end: "c \<in> set (trim_end x t) \<Longrightarrow> c \<in> set t"
  by (auto simp: trim_end_def dest: set_dropWhileD)

lemma padded_digits: "c \<in> set (pad_left w (digits n)) \<Longrightarrow> is_ascii_digit c"
  using digits_digit by (auto dest!: set_pad_left simp: is_ascii_digit_def)

text \<open>A fraction of \<open>w\<close> digits, trimmed and padded again.\<close>

definition fraction_text :: "nat \<Rightarrow> nat \<Rightarrow> rstr" where
  "fraction_text w n = trim_end 48 (pad_left w (digits n))"

lemma fraction_text:
  assumes "n < 10 ^ w" "0 < w"
  shows "pad_right w (fraction_text w n) = pad_left w (digits n)" "length (pad_left w (digits n)) = w"
    "\<forall>c \<in> set (fraction_text w n). is_ascii_digit c" "length (fraction_text w n) \<le> w"
    "n \<noteq> 0 \<Longrightarrow> fraction_text w n \<noteq> []" "trim_end 48 (fraction_text w n) = fraction_text w n"
proof -
  show l: "length (pad_left w (digits n)) = w" by (rule length_pad_left [OF digits_length_le [OF assms]])
  show p: "pad_right w (fraction_text w n) = pad_left w (digits n)"
    using pad_right_trim_end [of "pad_left w (digits n)"] by (simp add: l fraction_text_def)
  show "\<forall>c \<in> set (fraction_text w n). is_ascii_digit c"
    by (auto simp: fraction_text_def dest!: set_trim_end intro: padded_digits)
  have "length (trim_end 48 t) \<le> length t" for t :: rstr
    using length_dropWhile_le [of "\<lambda>x. x = 48" "rev t"] by (simp add: trim_end_def)
  from this [of "pad_left w (digits n)"] show "length (fraction_text w n) \<le> w" by (simp add: fraction_text_def l)
  show "fraction_text w n \<noteq> []" if "n \<noteq> 0"
  proof
    assume "fraction_text w n = []"
    with p have "pad_left w (digits n) = replicate w 48" by (simp add: pad_right_def)
    then have "of_digits (pad_left w (digits n)) = 0" by simp
    with that show False by simp
  qed
  show "trim_end 48 (fraction_text w n) = fraction_text w n"
    by (simp add: fraction_text_def trim_end_def dropWhile_idem)
qed

lemma utf8_len_digits: "\<forall>c \<in> set t. is_ascii_digit c \<Longrightarrow> utf8_len t = length t"
  by (rule utf8_len_ascii) (auto simp: is_ascii_digit_def)

lemma digits_head: "digits n = c # cs \<Longrightarrow> c \<noteq> 45 \<and> c \<noteq> 43"
  using digits_digit [of c n] by (auto simp: is_ascii_digit_def)

definition distance_body :: "int \<Rightarrow> rstr" where
  "distance_body v = butlast (canonical_distance v)"

lemma canonical_distance_body: "canonical_distance v = distance_body v @ [109]"
  by (simp add: distance_body_def canonical_distance_def Let_def butlast_append)

lemma distance_body_eq:
  "distance_body v = (if v < 0 then [45] else []) @ digits (nat \<bar>v\<bar> div 1000000) @
     (if nat \<bar>v\<bar> mod 1000000 = 0 then [] else 46 # fraction_text 6 (nat \<bar>v\<bar> mod 1000000))"
  by (simp add: distance_body_def canonical_distance_def Let_def butlast_append fraction_text_def)

lemma distance_canonical:
  assumes "- (2 ^ 63) < v" "v < 2 ^ 63"
  shows "distance (distance_body v) = Inr v"
proof -
  define n where "n = nat \<bar>v\<bar>"
  let ?meters = "digits (n div 1000000)" and ?f = "n mod 1000000"
  have n: "int n < 2 ^ 63" using assms by (simp add: n_def)
  have meters: "n div 1000000 < 2 ^ 63" using n by simp
  have ft: "?f < 10 ^ 6" "(0::nat) < 6" by simp_all
  have fraction: "parse_i64 (pad_right 6 (fraction_text 6 ?f)) = Some (int ?f)"
    unfolding fraction_text(1) [OF ft]
    by (subst parse_i64_digits) (auto simp: fraction_text(2) [OF ft] parse_digits_def dest: padded_digits
      simp flip: length_0_conv)
  have number: "int n = int (n div 1000000) * 1000000 + int ?f"
    by (metis mult.commute mult_div_mod_eq of_nat_add of_nat_mult of_nat_numeral)
  have whole: "in_i64 (int (n div 1000000) * 1000000)" and range: "in_i64 (int n)"
    using n number by (simp_all add: in_i64_def)
  have sign: "v < 0 \<Longrightarrow> - int n = v" "\<not> v < 0 \<Longrightarrow> int n = v" by (simp_all add: n_def)
  have body: "distance_body v = (if v < 0 then [45] else []) @ ?meters @ (if ?f = 0 then [] else 46 # fraction_text 6 ?f)"
    by (simp add: distance_body_eq n_def)
  let ?number = "?meters @ (if ?f = 0 then [] else 46 # fraction_text 6 ?f)"
  have neg: "(case distance_body v of c # cs \<Rightarrow> if c = 45 then (True, cs) else (False, distance_body v)
      | [] \<Rightarrow> (False, distance_body v)) = (v < 0, ?number)"
    unfolding body using digits_head by (cases ?meters) (auto split: list.split)
  show ?thesis
  proof (cases "?f = 0")
    case True
    then have "int (n div 1000000) * 1000000 = int n" using number by simp
    with True show ?thesis unfolding distance_def neg Let_def prod.case
      using meters range sign by (simp add: canonical_distance_body)
  next
    case False
    have len: "utf8_len (fraction_text 6 ?f) \<le> 6" 
      using utf8_len_digits [OF fraction_text(3) [OF ft]] fraction_text(4) [OF ft] by simp
    show ?thesis unfolding distance_def neg Let_def prod.case
      using False meters whole range number [symmetric] sign fraction len fraction_text(5) [OF ft False]
      by (simp add: canonical_distance_body)
  qed
qed

definition duration_body :: "duration \<Rightarrow> rstr" where
  "duration_body d = butlast (canonical_duration d)"

lemma canonical_duration_body: "canonical_duration d = duration_body d @ [115]"
  by (simp add: duration_body_def canonical_duration_def Let_def butlast_append)

lemma duration_body_eq:
  "duration_body d = digits (unat (secs d)) @ (if nanos d = 0 then [] else 46 # fraction_text 9 (unat (nanos d)))"
  by (simp add: duration_body_def canonical_duration_def Let_def butlast_append fraction_text_def)

definition valid_duration :: "duration \<Rightarrow> bool" where
  "valid_duration d \<longleftrightarrow> unat (nanos d) < 10 ^ 9"

lemma parse_unsigned_nat [simp]: "n \<le> bound \<Longrightarrow> parse_unsigned bound (digits n) = Some n"
  by (simp add: parse_unsigned_digits digits_digit)

lemma seconds_body:
  assumes "valid_duration d"
  shows "seconds (duration_body d) = Inr d"
proof -
  let ?n = "unat (nanos d)"
  have ft: "?n < 10 ^ 9" "(0::nat) < 9" using assms by (simp_all add: valid_duration_def)
  have whole: "parse_unsigned (2 ^ 64 - 1) (digits (unat (secs d))) = Some (unat (secs d))"
    by (rule parse_unsigned_nat) (use unat_lt64 [of "secs d"] in \<open>simp del: unat_lt64\<close>)
  have digits: "list_all is_ascii_digit (digits m)" for m by (auto simp: list_all_iff digits_digit)
  show ?thesis
  proof (cases "nanos d = 0")
    case True
    have "parse_unsigned (2 ^ 32 - 1) (pad_right 9 []) = Some 0"
      by (subst parse_unsigned_digits) (auto simp: pad_right_def parse_digits_def is_ascii_digit_def)
    then show ?thesis using True whole digits
      by (simp add: seconds_def duration_body_eq trim_end_def)
  next
    case False
    then have "?n \<noteq> 0" by (simp add: unat_eq_0)
    have "parse_unsigned (2 ^ 32 - 1) (pad_right 9 (fraction_text 9 ?n)) = Some ?n"
      unfolding fraction_text(1) [OF ft]
      by (subst parse_unsigned_digits)
        (use ft(1) in \<open>auto simp: fraction_text(2) [OF ft] parse_digits_def dest: padded_digits simp flip: length_0_conv\<close>)
    moreover have "list_all is_ascii_digit (fraction_text 9 ?n)" using fraction_text(3) [OF ft] by (simp add: list_all_iff)
    ultimately show ?thesis
      using False whole digits fraction_text(4,6) [OF ft] by (simp add: seconds_def duration_body_eq)
  qed
qed

lemma duration_canonical: "valid_duration d \<Longrightarrow> duration_literal (duration_body d) = Inr d"
  by (simp add: duration_literal_def seconds_body canonical_duration_body)

lemma integer_canonical: "in_i64 i \<Longrightarrow> integer_literal (show_int i) = Inr i"
  by (simp add: integer_literal_def parse_i64_show_int in_i64_def)

text \<open>The documented behaviour of the library's \<open>Display\<close> and \<open>FromStr\<close> for \<open>f32\<close>.\<close>

definition float_laws :: "float_format \<Rightarrow> bool" where
  "float_laws fmt \<longleftrightarrow>
     (\<forall>x. f32_is_finite x \<longrightarrow>
        (\<exists>sign number. show_f32 fmt x = sign @ number \<and> (sign = [] \<or> sign = [45]) \<and>
           (is_number number \<or> is_fraction number)) \<and>
        read_f32 fmt (canonical_float fmt x) = Some x)"

lemma float_canonical: "float_laws fmt \<Longrightarrow> f32_is_finite x \<Longrightarrow> float_literal fmt (canonical_float fmt x) = Inr x"
  by (simp add: float_literal_def float_laws_def)

lemma is_number_no_dot: "is_number t \<Longrightarrow> 46 \<notin> set t"
  by (auto simp: is_number_def is_ascii_digit_def)

lemma is_fraction_dot: "is_fraction t \<Longrightarrow> 46 \<in> set t"
  using split_once_None [of 46 t] by (auto simp: is_fraction_def split: option.splits)

lemma canonical_float_text:
  assumes "float_laws fmt" "f32_is_finite x"
  obtains sign number where "canonical_float fmt x = sign @ number" "sign = [] \<or> sign = [45]" "is_fraction number"
proof -
  obtain sign number where t: "show_f32 fmt x = sign @ number" "sign = [] \<or> sign = [45]"
    "is_number number \<or> is_fraction number"
    using assms unfolding float_laws_def by blast
  show thesis
  proof (cases "is_fraction number")
    case True
    then show thesis using t that is_fraction_dot [OF True] by (auto simp: canonical_float_def)
  next
    case False
    then have n: "is_number number" using t(3) by blast
    have "is_fraction (number @ 46 # [48])"
      by (rule is_fraction_append [OF n]) (simp add: is_number_def is_ascii_digit_def)
    moreover have "46 \<notin> set (sign @ number)" using is_number_no_dot [OF n] t(2) by auto
    ultimately show thesis using t(1,2) that by (auto simp: canonical_float_def)
  qed
qed

text \<open>Quoted text.\<close>

definition quoted_char :: "rchar \<Rightarrow> rstr" where
  "quoted_char c =
     (if c = 34 then [92, 34] else if c = 92 then [92, 92] else if c = 10 then [92, 110]
      else if c = 9 then [92, 116] else [c])"

definition quoted :: "rstr \<Rightarrow> rstr" where
  "quoted t = 34 # concat (map quoted_char t) @ [34]"

definition plain_text :: "rstr \<Rightarrow> bool" where
  "plain_text t \<longleftrightarrow> (\<forall>c \<in> set t. is_control c \<longrightarrow> c = 10 \<or> c = 9)"

lemma string_chars_quoted: "plain_text t \<Longrightarrow> string_chars (concat (map quoted_char t)) problem = (t, problem)"
  by (induction t) (auto simp: quoted_char_def plain_text_def is_control_def)

lemma string_canonical: "plain_text t \<Longrightarrow> string_literal (quoted t) = Inr t"
  by (simp add: string_literal_def quoted_def string_chars_quoted butlast_append)

end
