(* ===== verification/DataPrinter.thy ===== *)
theory DataPrinter
  imports DataTree
begin
text \<open>
  The canonical layout of a data document, \<open>crates/donder-language/src/data/printer.rs\<close>.

  The buffer every function appends to is passed along. A value's fit is decided by writing its
  one-line form with a limit in bytes, absent where the source passes \<open>usize::MAX\<close>, which no
  buffer outgrows. The printer panics on what a syntax error left behind: then there is no
  text.
\<close>

definition LINE_WIDTH :: nat where "LINE_WIDTH = 100"

definition within :: "nat option \<Rightarrow> rstr \<Rightarrow> bool" where
  "within limit text = (case limit of None \<Rightarrow> True | Some n \<Rightarrow> utf8_len text \<le> n)"

definition name_text :: "ident spanned \<Rightarrow> rstr" where
  "name_text n = spanned_value n"

definition dotted :: "ident spanned list \<Rightarrow> rstr" where
  "dotted segments =
     (case map spanned_value segments of [] \<Rightarrow> [] | s # ss \<Rightarrow> s @ concat (map (\<lambda>t. 46 # t) ss))"

lemma size_spanned_value: "size_spanned f s = f (spanned_value s) + 1"
  by (cases s) simp

lemma size_field: "size f = size (spanned_value (field_value f)) + 2"
  by (cases f) (simp add: size_spanned_value)

lemma size_item: "item \<in> set items \<Longrightarrow> size (spanned_value item) < size_list (\<lambda>x. size (spanned_value x) + 1) items"
  by (induction items) auto

text \<open>The one-line form; it stops once the text is over the limit.\<close>

function flat :: "float_format \<Rightarrow> nat option \<Rightarrow> data_value \<Rightarrow> rstr \<Rightarrow> (rstr \<times> bool) option"
  and flat_items :: "float_format \<Rightarrow> nat option \<Rightarrow> bool \<Rightarrow> data_value spanned list \<Rightarrow> rstr \<Rightarrow> (rstr \<times> bool) option"
  and flat_fields :: "float_format \<Rightarrow> nat option \<Rightarrow> bool \<Rightarrow> data_field list \<Rightarrow> rstr \<Rightarrow> (rstr \<times> bool) option"
where
  "flat fmt limit v text =
     (let plain = (\<lambda>t. let text = text @ t in Some (text, within limit text));
          close = (\<lambda>result t. do { (text, ok) \<leftarrow> result;
            Some (if ok then (text @ t, within limit (text @ t)) else (text, False)) })
      in case v of
           DInteger i \<Rightarrow> plain (show_int i)
         | DFloat x \<Rightarrow> plain (canonical_float fmt x)
         | DDuration d \<Rightarrow> plain (canonical_duration d)
         | DDistance m \<Rightarrow> plain (canonical_distance m)
         | DColor c \<Rightarrow> plain (color_to_hex c)
         | DString s \<Rightarrow> plain (quoted s)
         | DPath p \<Rightarrow> plain (str ''<'' @ p @ str ''>'')
         | DBool b \<Rightarrow> plain (if b then str ''true'' else str ''false'')
         | DNone \<Rightarrow> plain (str ''none'')
         | DReference segments \<Rightarrow> plain (dotted segments)
         | DVariant n \<Rightarrow> plain (name_text n)
         | DRecord ty body \<Rightarrow>
             if spanned_value body = [] then plain (name_text ty @ str '' {}'')
             else close (flat_fields fmt limit True (spanned_value body) (text @ name_text ty @ str '' { '')) (str '' }'')
         | DNamed ty n body \<Rightarrow>
             close (flat_fields fmt limit True (spanned_value body)
               (text @ name_text ty @ str '' '' @ name_text n @ str '' { '')) (str '' }'')
         | DMap body \<Rightarrow>
             if body = [] then plain (str ''{}'')
             else close (flat_fields fmt limit True body (text @ str ''{ '')) (str '' }'')
         | DList items \<Rightarrow> close (flat_items fmt limit True items (text @ str ''['')) (str '']'')
         | DTuple items \<Rightarrow> close (flat_items fmt limit True items (text @ str ''('')) (str '')'')
         | DError \<Rightarrow> None)"
| "flat_items fmt limit first [] text = Some (text, True)"
| "flat_items fmt limit first (item # items) text =
     do { (text, ok) \<leftarrow> flat fmt limit (spanned_value item) (if first then text else text @ str '', '');
          if ok then flat_items fmt limit False items text else Some (text, False) }"
| "flat_fields fmt limit first [] text = Some (text, True)"
| "flat_fields fmt limit first (f # fs) text =
     do { (text, ok) \<leftarrow> flat fmt limit (spanned_value (field_value f))
            ((if first then text else text @ str '', '') @ name_text (field_name f) @ str '': '');
          if ok then flat_fields fmt limit False fs text else Some (text, False) }"
  by pat_completeness auto

termination
  by (relation "measure (\<lambda>x. case x of Inl (_, _, v, _) \<Rightarrow> size v | Inr (Inl (_, _, _, items, _)) \<Rightarrow> size_list (\<lambda>x. size (spanned_value x) + 1) items | Inr (Inr (_, _, _, fs, _)) \<Rightarrow> size_list (\<lambda>f. size (spanned_value (field_value f)) + 2) fs)")
    (auto simp: size_spanned_value size_field)

definition expandable :: "data_value \<Rightarrow> bool" where
  "expandable v =
     (case v of
        DRecord ty body \<Rightarrow> spanned_value body \<noteq> []
      | DNamed ty n body \<Rightarrow> spanned_value body \<noteq> []
      | DMap body \<Rightarrow> body \<noteq> []
      | DList items \<Rightarrow> items \<noteq> []
      | DTuple items \<Rightarrow> items \<noteq> []
      | _ \<Rightarrow> False)"

text \<open>Items that pack several to a line.\<close>

function dense :: "data_value \<Rightarrow> bool" where
  "dense v =
     (case v of
        DInteger i \<Rightarrow> True | DFloat x \<Rightarrow> True | DDuration d \<Rightarrow> True | DDistance m \<Rightarrow> True
      | DColor c \<Rightarrow> True | DBool b \<Rightarrow> True
      | DTuple items \<Rightarrow> list_all (\<lambda>item. dense (spanned_value item)) items
      | _ \<Rightarrow> False)"
  by pat_completeness auto

termination
  by (relation "measure size") (auto simp: size_spanned_value dest: size_item)

definition indent :: "nat \<Rightarrow> rstr" where
  "indent level = concat (replicate level (str ''  ''))"

fun dense_lines :: "float_format \<Rightarrow> nat \<Rightarrow> data_value spanned list \<Rightarrow> rstr \<Rightarrow> rstr \<Rightarrow> rstr option" where
  "dense_lines fmt level [] line text =
     Some (if line \<noteq> [] then text @ indent (level + 1) @ line @ [10] else text)"
| "dense_lines fmt level (item # items) line text =
     do { (item_text, ok) \<leftarrow> flat fmt None (spanned_value item) [];
          let item_text = item_text @ str '','';
              full = (line \<noteq> [] \<and> 2 * (level + 1) + utf8_len line + 1 + utf8_len item_text > LINE_WIDTH);
              text = (if full then text @ indent (level + 1) @ line @ [10] else text);
              line = (if full then [] else line);
              line = (if line \<noteq> [] then line @ str '' '' else line) @ item_text
          in dense_lines fmt level items line text }"

definition closing :: "nat \<Rightarrow> rstr \<Rightarrow> rstr option \<Rightarrow> rstr option" where
  "closing level bracket lines = map_option (\<lambda>text. text @ indent level @ bracket) lines"

text \<open>
  A value from column \<open>start\<close> on: on one line when that fits, and its expanded form otherwise.
  Truncating the buffer to the mark gives back the text passed in.
\<close>

function render :: "float_format \<Rightarrow> data_value \<Rightarrow> nat \<Rightarrow> nat \<Rightarrow> nat \<Rightarrow> rstr \<Rightarrow> rstr option"
  and field_line :: "float_format \<Rightarrow> data_field \<Rightarrow> nat \<Rightarrow> rstr \<Rightarrow> rstr option"
  and field_lines :: "float_format \<Rightarrow> data_field list \<Rightarrow> nat \<Rightarrow> rstr \<Rightarrow> rstr option"
  and list_item_into :: "float_format \<Rightarrow> data_value \<Rightarrow> nat \<Rightarrow> rstr \<Rightarrow> rstr option"
  and list_items_into :: "float_format \<Rightarrow> data_value spanned list \<Rightarrow> nat \<Rightarrow> rstr \<Rightarrow> rstr option"
where
  "render fmt v level start suffix text =
     (if \<not> expandable v then map_option fst (flat fmt None v text)
      else do {
        (flat_text, fits) \<leftarrow> flat fmt (Some (utf8_len text + (LINE_WIDTH - (start + suffix)))) v text;
        if fits then Some flat_text
        else case v of
            DRecord ty body \<Rightarrow>
              closing level (str ''}'') (field_lines fmt (spanned_value body) (level + 1)
                (text @ name_text ty @ str '' {'' @ [10]))
          | DNamed ty n body \<Rightarrow>
              closing level (str ''}'') (field_lines fmt (spanned_value body) (level + 1)
                (text @ name_text ty @ str '' '' @ name_text n @ str '' {'' @ [10]))
          | DMap body \<Rightarrow>
              closing level (str ''}'') (field_lines fmt body (level + 1) (text @ str ''{'' @ [10]))
          | DList items \<Rightarrow>
              closing level (str '']'')
                (if list_all (\<lambda>item. dense (spanned_value item)) items
                 then dense_lines fmt level items [] (text @ str ''['' @ [10])
                 else list_items_into fmt items (level + 1) (text @ str ''['' @ [10]))
          | DTuple items \<Rightarrow>
              closing level (str '')'') (list_items_into fmt items (level + 1) (text @ str ''('' @ [10]))
          | _ \<Rightarrow> None })"
| "field_line fmt f level text =
     (let line = text @ indent level @ name_text (field_name f) @ str '': '';
          start = utf8_len line - utf8_len text
      in do { text \<leftarrow> render fmt (spanned_value (field_value f)) level start 1 line;
              Some (text @ str '','' @ [10]) })"
| "field_lines fmt [] level text = Some text"
| "field_lines fmt (f # fs) level text =
     do { text \<leftarrow> field_line fmt f level text; field_lines fmt fs level text }"
| "list_item_into fmt v level text =
     do { text \<leftarrow> render fmt v level (2 * level) 1 (text @ indent level);
          Some (text @ str '','' @ [10]) }"
| "list_items_into fmt [] level text = Some text"
| "list_items_into fmt (item # items) level text =
     do { text \<leftarrow> list_item_into fmt (spanned_value item) level text;
          list_items_into fmt items level text }"
  by pat_completeness auto

termination
  by (relation "measures
      [\<lambda>x. case x of
           Inl (Inl (_, v, _)) \<Rightarrow> size v
         | Inl (Inr (_, f, _)) \<Rightarrow> size (spanned_value (field_value f))
         | Inr (Inl (_, fs, _)) \<Rightarrow> size_list (\<lambda>f. size (spanned_value (field_value f)) + 2) fs
         | Inr (Inr (Inl (_, v, _))) \<Rightarrow> size v
         | Inr (Inr (Inr (_, items, _))) \<Rightarrow> size_list (\<lambda>x. size (spanned_value x) + 1) items,
       \<lambda>x. case x of Inl (Inl _) \<Rightarrow> 0 | Inl (Inr _) \<Rightarrow> 1 | Inr (Inl _) \<Rightarrow> 2 | Inr (Inr (Inl _)) \<Rightarrow> 1 | Inr (Inr (Inr _)) \<Rightarrow> 2]")
    (auto simp: size_spanned_value size_field)

declare flat.simps [simp del] dense.simps [simp del] render.simps [simp del] field_line.simps [simp del]
  list_item_into.simps [simp del]

text \<open>\<open>value\<close> as an item of an expanded list.\<close>

definition list_item :: "float_format \<Rightarrow> data_value \<Rightarrow> nat \<Rightarrow> rstr option" where
  "list_item fmt v level = list_item_into fmt v level []"

section \<open>Documents\<close>

record list_splice =
  splice_declaration :: nat
  splice_field :: rstr
  splice_items :: "rstr list"

definition import_line :: "data_import \<Rightarrow> rstr" where
  "import_line import =
     str ''import '' @ name_text (import_alias import) @ str '' from '' @
     (case map (\<lambda>p. str ''<'' @ spanned_value p @ str ''>'') (import_paths import) of
        [] \<Rightarrow> [] | p # ps \<Rightarrow> p @ concat (map (\<lambda>p. str '', '' @ p) ps)) @
     str '';'' @ [10]"

fun declaration_lines ::
  "float_format \<Rightarrow> list_splice list \<Rightarrow> nat \<Rightarrow> data_field list \<Rightarrow> rstr \<Rightarrow> rstr option" where
  "declaration_lines fmt splices index [] text = Some text"
| "declaration_lines fmt splices index (f # fs) text =
     do { text \<leftarrow>
            (case find (\<lambda>s. splice_declaration s = index \<and> splice_field s = name_text (field_name f)) splices of
               Some s \<Rightarrow>
                 if splice_items s \<noteq> []
                 then Some (text @ indent 1 @ splice_field s @ str '': ['' @ [10] @ concat (splice_items s) @
                        indent 1 @ str ''],'' @ [10])
                 else field_line fmt f 1 text
             | None \<Rightarrow> field_line fmt f 1 text);
          declaration_lines fmt splices index fs text }"

fun print_declarations ::
  "float_format \<Rightarrow> list_splice list \<Rightarrow> bool \<Rightarrow> nat \<Rightarrow> data_declaration list \<Rightarrow> rstr \<Rightarrow> rstr option" where
  "print_declarations fmt splices imports_empty index [] text = Some text"
| "print_declarations fmt splices imports_empty index (d # ds) text =
     do { text \<leftarrow> declaration_lines fmt splices index (spanned_value (declaration_fields d))
            ((if index > 0 \<or> \<not> imports_empty then text @ [10] else text) @
             name_text (declaration_type d) @ str '' '' @ name_text (declaration_name d) @ str '' {'' @ [10]);
          print_declarations fmt splices imports_empty (index + 1) ds (text @ str ''}'' @ [10]) }"

definition print_spliced :: "float_format \<Rightarrow> data_document \<Rightarrow> list_splice list \<Rightarrow> rstr option" where
  "print_spliced fmt document splices =
     print_declarations fmt splices (doc_imports document = []) 0 (doc_declarations document)
       (concat (map import_line (doc_imports document)))"

definition print_document :: "float_format \<Rightarrow> data_document \<Rightarrow> rstr option" where
  "print_document fmt document = print_spliced fmt document []"

end
