(* ===== verification/ParserTotal.thy ===== *)
theory ParserTotal
  imports DataParser
begin

text \<open>
  The parser of data documents always returns: no input makes it panic, and the fuel
  \<open>parse_document\<close> gives is enough. \<open>parser_ok\<close> is what every state of it keeps, \<open>runs\<close> the contract of
  its functions: they return, at a later token, at no less nesting, and after some token when they
  succeed. The loops end because an item that fails without taking a token is skipped.
\<close>

section \<open>Tokens can be read\<close>

text \<open>Slices: a span that covers a piece of the source gives that piece.\<close>

lemma skip_bytes_0 [simp]: "skip_bytes 0 t = Some t"
  by (subst skip_bytes.simps) simp

lemma skip_bytes_append: "skip_bytes (utf8_len a + n) (a @ t) = skip_bytes n t"
proof (induction a)
  case (Cons c a)
  then show ?case by (subst skip_bytes.simps) (simp add: add.assoc len_utf8_pos [THEN less_imp_neq, symmetric])
qed simp

lemma take_bytes_append: "take_bytes (utf8_len a) (a @ t) = Some a"
proof (induction a)
  case Nil
  then show ?case by (subst take_bytes.simps) simp
next
  case (Cons c a)
  then show ?case by (subst take_bytes.simps) simp
qed

lemma slice_span_of: "source_slice (a @ t @ b) (span_of (utf8_len a) t) = Some t"
  using skip_bytes_append [of a 0 "t @ b"] take_bytes_append [of t b] by (simp add: source_slice_def span_of_def)

text \<open>Every token of a source can be read, and its text is one of its kind.\<close>

definition readable :: "rstr \<Rightarrow> token \<Rightarrow> bool" where
  "readable source t \<longleftrightarrow> (\<exists>u. source_slice source (token_span t) = Some u \<and> kind_text Data (token_kind t) u)"

lemma tiles_readable:
  "tiles m at left ts cs \<Longrightarrow> m = Data \<Longrightarrow> at = utf8_len before \<Longrightarrow>
   ts \<noteq> [] \<and> token_kind (last ts) = TokEof \<and> (\<forall>t \<in> set ts. readable (before @ left) t)"
proof (induction arbitrary: before rule: tiles.induct)
  case (final at)
  then show ?case using slice_span_of [of before "[]" "[]"] by (auto simp: readable_def kind_text_def)
next
  case (space c at left ts cs)
  from space.IH [of "before @ [c]"] space.prems show ?case by simp
next
  case (comment t left at ts cs)
  then show ?case by simp
next
  case (data_comment t left at ts cs)
  have "readable (before @ t @ left) \<lparr>token_kind = TokError CommentInData, token_span = span_of at t\<rparr>"
    using data_comment by (auto simp: readable_def slice_span_of kind_text_def is_comment_def at_comment_def)
  with data_comment.IH [of "before @ t"] data_comment.prems show ?case by simp
next
  case (token t left k at ts cs)
  have "readable (before @ t @ left) \<lparr>token_kind = k, token_span = span_of at t\<rparr>"
    using token by (auto simp: readable_def slice_span_of)
  with token.IH [of "before @ t"] token.prems show ?case by simp
qed

text \<open>What every parser keeps: the end token is last, every token can be read.\<close>

definition parser_ok :: "parser \<Rightarrow> bool" where
  "parser_ok p \<longleftrightarrow>
     token_kind (last (stream p)) = TokEof \<and> (\<forall>t \<in> set (stream p). readable (parser_source p) t)"

lemma new_parser_ok:
  obtains p where "new_parser source = Some p" "parser_ok p" "parser_source p = source" "depth p = 0"
    "diagnostics p = []" "stream p = lex_source source Data"
proof -
  have "tiles Data 0 source (lex_source source Data) (snd (lex_with_comments source Data))"
    unfolding lex_source_def using tiles_tokens [of "\<lparr>rest = source, cursor = 0, lex_mode = Data, comments = []\<rparr>", OF surjective_pairing]
    by (simp add: lex_with_comments_def)
  from tiles_readable [OF this refl, of "[]"] show thesis
    by (cases "lex_source source Data") (auto simp: new_parser_def parser_ok_def stream_def intro: that)
qed

text \<open>Later states of a parser: the same source and some of its last tokens.\<close>

definition later :: "parser \<Rightarrow> parser \<Rightarrow> bool" where
  "later p p' \<longleftrightarrow> parser_source p' = parser_source p \<and> suffix (stream p') (stream p)"

definition remaining :: "parser \<Rightarrow> nat" where
  "remaining p = length (ahead p)"

lemma later_refl [simp, intro]: "later p p"
  by (simp add: later_def)

lemma later_trans [trans]: "later p q \<Longrightarrow> later q r \<Longrightarrow> later p r"
  unfolding later_def by (auto intro: suffix_order.trans)

lemma later_left: "later p q \<Longrightarrow> remaining q \<le> remaining p"
  using suffix_length_le [of "stream q" "stream p"] by (simp add: later_def remaining_def stream_def)

lemma later_same: "later p q \<Longrightarrow> remaining q = remaining p \<Longrightarrow> stream q = stream p"
  by (auto simp: later_def remaining_def stream_def suffix_def Cons_eq_append_conv)

lemma later_ok: "later p q \<Longrightarrow> parser_ok p \<Longrightarrow> parser_ok q"
  unfolding later_def parser_ok_def
  by (metis last_appendR list.discI set_mono_suffix stream_def subsetD suffix_def)

lemma parser_ok_text: "parser_ok p \<Longrightarrow> t \<in> set (stream p) \<Longrightarrow> \<exists>u. token_text p t = Some u \<and> kind_text Data (token_kind t) u"
  by (auto simp: parser_ok_def readable_def token_text_def)

lemma here_stream [simp]: "here p \<in> set (stream p)"
  by (simp add: stream_def)

lemma ok_ahead: "parser_ok p \<Longrightarrow> \<not> at_kind TokEof p \<Longrightarrow> ahead p \<noteq> []"
  by (auto simp: parser_ok_def stream_def at_kind_def)

lemma advance_later [simp, intro]: "later p (snd (advance p))" "later p (step p)"
  by (auto simp: advance_def step_def later_def stream_def suffix_def split: list.split)

lemma advance_less: "parser_ok p \<Longrightarrow> \<not> at_kind TokEof p \<Longrightarrow> remaining (snd (advance p)) < remaining p"
  using ok_ahead [of p] step_ahead [of p] by (simp add: advance_def remaining_def)

lemma advance_depth [simp]: "depth (snd (advance p)) = depth p" "depth (step p) = depth p"
  by (auto simp: advance_def step_def split: list.split)

text \<open>
  A run: the function returns, later, with at least \<open>d\<close> levels of nesting, and after at least \<open>k\<close>
  tokens when it succeeds.
\<close>

definition runs :: "nat \<Rightarrow> nat \<Rightarrow> 'a parse \<Rightarrow> parser \<Rightarrow> bool" where
  "runs k d m p \<longleftrightarrow>
     (\<exists>r q. m p = Some (r, q) \<and> later p q \<and> d \<le> depth q \<and> (r \<noteq> None \<longrightarrow> remaining q + k \<le> remaining p))"

lemma runs_then:
  assumes p: "parser_ok p" and m: "runs k d m p"
    and f: "\<And>x q. m p = Some (Some x, q) \<Longrightarrow> later p q \<Longrightarrow> parser_ok q \<Longrightarrow> d \<le> depth q \<Longrightarrow>
      remaining q + k \<le> remaining p \<Longrightarrow> runs j e (f x) q"
    and e: "e \<le> d"
  shows "runs (k + j) e (and_then m f) p"
proof -
  obtain r q where q: "m p = Some (r, q)" "later p q" "d \<le> depth q" "r \<noteq> None \<longrightarrow> remaining q + k \<le> remaining p"
    using m by (auto simp: runs_def)
  show ?thesis
  proof (cases r)
    case None
    with q e show ?thesis by (auto simp: runs_def and_then_def)
  next
    case (Some x)
    have "runs j e (f x) q" using f [of x q] later_ok [OF q(2) p] q Some by simp
    then obtain r' q' where "f x q = Some (r', q')" "later q q'" "e \<le> depth q'" "r' \<noteq> None \<longrightarrow> remaining q' + j \<le> remaining q"
      by (auto simp: runs_def)
    with q Some show ?thesis by (auto simp: runs_def and_then_def intro: later_trans)
  qed
qed

lemma runs_at: "m p = m' p \<Longrightarrow> runs k d m' p \<Longrightarrow> runs k d m p"
  by (simp add: runs_def)

lemma runs_less: "runs k d m p \<Longrightarrow> j \<le> k \<Longrightarrow> e \<le> d \<Longrightarrow> runs j e m p"
  by (fastforce simp: runs_def)

lemma runs_after:
  assumes "m p = m' q" "later p q" "runs k d m' q" "remaining q + j \<le> remaining p"
  shows "runs (k + j) d m p"
proof -
  obtain r t where "m' q = Some (r, t)" "later q t" "d \<le> depth t" "r \<noteq> None \<longrightarrow> remaining t + k \<le> remaining q"
    using assms(3) unfolding runs_def by blast
  moreover from this have "later p t" using assms(2) by (blast intro: later_trans)
  ultimately show ?thesis using assms(1,4) unfolding runs_def by auto
qed

lemma runs_ok: "d \<le> depth p \<Longrightarrow> runs 0 d (ok x) p"
  by (simp add: runs_def ok_def)

lemma runs_change: "later p (f p) \<Longrightarrow> d \<le> depth (f p) \<Longrightarrow> runs 0 d (change f) p"
  using later_left by (auto simp: runs_def change_def)

lemma runs_unless: "x \<noteq> None \<Longrightarrow> d \<le> depth p \<Longrightarrow> runs 0 d (unreachable_unless x) p"
  by (auto simp: runs_def unreachable_unless_def)

lemma report_simps [simp]:
  "later p (report d q) \<longleftrightarrow> later p q" "depth (report d p) = depth p" "stream (report d p) = stream p"
  "remaining (report d p) = remaining p" "parser_source (report d p) = parser_source p"
  "later p (error_at s t q) \<longleftrightarrow> later p q" "depth (error_at s t p) = depth p"
  "stream (error_at s t p) = stream p" "remaining (error_at s t p) = remaining p"
  "parser_source (error_at s t p) = parser_source p"
  by (simp_all add: report_def error_at_def later_def stream_def remaining_def)

lemma unexpected_some: "parser_ok p \<Longrightarrow> \<exists>q. unexpected what p = Some q \<and> later p q \<and> depth q = depth p \<and> stream q = stream p"
  using parser_ok_text [of p "here p"]
  by (auto simp: unexpected_def Let_def peek_token_def split: token_kind.split)

lemma runs_failed: "parser_ok p \<Longrightarrow> d \<le> depth p \<Longrightarrow> runs k d (failed what) p"
  using unexpected_some [of p what] by (auto simp: runs_def failed_def)

lemma advance_left: "parser_ok p \<Longrightarrow> \<not> at_kind TokEof p \<Longrightarrow> remaining (snd (advance p)) + 1 \<le> remaining p"
  using advance_less [of p] by simp

lemma runs_expect: "parser_ok p \<Longrightarrow> kind \<noteq> TokEof \<Longrightarrow> d \<le> depth p \<Longrightarrow> runs 1 d (expect kind what) p"
  using advance_left [of p] runs_failed [of p d 1 what]
  by (auto simp: runs_def expect_def ok_def at_kind_def)

lemma expect_token: "expect kind what p = Some (Some t, q) \<Longrightarrow> t = here p \<and> token_kind t = kind"
  by (auto simp: expect_def ok_def at_kind_def advance_def failed_def split: if_splits)

text \<open>What the texts of tokens are made of keeps the \<open>unreachable!\<close>s unreachable.\<close>

lemma word_identifier: "is_word t \<Longrightarrow> identifier_new t = Inr t"
  by (cases t) (auto simp: is_word_def identifier_new_def is_word_start_def is_word_char_def
    is_identifier_start_def is_identifier_continue_def)

lemma runs_new_identifier:
  assumes "parser_ok p" "token_text p t = Some u" "is_word u" "d \<le> depth p"
  shows "runs 0 d (new_identifier t) p"
  using assms by (simp add: runs_def new_identifier_def and_then_def unreachable_unless_def ok_def word_identifier)

lemma advance_source [simp]: "parser_source (snd (advance p)) = parser_source p" "parser_source (step p) = parser_source p"
  by (simp_all add: advance_def step_def split: list.split)

lemma token_text_source: "parser_source q = parser_source p \<Longrightarrow> token_text q = token_text p"
  by (simp add: token_text_def fun_eq_iff)

lemma parse_identifier_eq:
  assumes "at_kind TokIdentifier p" "token_text p (here p) = Some u" "is_word u"
  shows "parse_identifier what pascal p =
    Some (Some (Spanned u (token_span (here p))),
      if if pascal then is_pascal_case u else is_snake_case u then snd (advance p)
      else error_at (token_span (here p)) (what @ str '' must be '' @ (if pascal then str ''PascalCase'' else str ''snake_case''))
        (snd (advance p)))"
proof -
  have t: "token_text (snd (advance p)) (here p) = Some u" "token_text (error_at a b (snd (advance p))) (here p) = Some u" for a b
    using assms(2) by (simp_all add: token_text_def)
  have h: "fst (advance p) = here p" by (simp add: advance_def)
  show ?thesis using assms t
    by (simp add: parse_identifier_def and_then_def expect_def ok_def unreachable_unless_def change_def
        new_identifier_def word_identifier h Let_def)
qed

lemma runs_parse_identifier:
  assumes "parser_ok p" "d \<le> depth p"
  shows "runs 1 d (parse_identifier what pascal) p"
proof (cases "at_kind TokIdentifier p")
  case True
  obtain u where "token_text p (here p) = Some u" "is_word u"
    using parser_ok_text [OF assms(1), of "here p"] True by (auto simp: kind_text_def at_kind_def)
  from parse_identifier_eq [OF True this] show ?thesis
    using advance_left [OF assms(1)] True assms(2) by (auto simp: runs_def at_kind_def)
next
  case False
  then have "parse_identifier what pascal p = failed what p"
    using unexpected_some [OF assms(1), of what] 
    by (auto simp: parse_identifier_def and_then_def expect_def failed_def)
  then show ?thesis using runs_failed [OF assms, of 1 what] by (simp add: runs_def)
qed

lemma runs_literal_value: "parser_ok p \<Longrightarrow> \<not> at_kind TokEof p \<Longrightarrow> d \<le> depth p \<Longrightarrow> runs 1 d (literal_value t v) p"
  using advance_left [of p] by (auto simp: runs_def literal_value_def and_then_def change_def ok_def)

lemma runs_parse_path: "parser_ok p \<Longrightarrow> d \<le> depth p \<Longrightarrow> runs 1 d parse_path p"
proof -
  assume p: "parser_ok p" "d \<le> depth p"
  have "runs (1 + (0 + 0)) d parse_path p" unfolding parse_path_def
  proof (rule runs_then [OF p(1) runs_expect [OF p(1) _ p(2)]], goal_cases)
    case (2 t q)
    then obtain u where "token_text q t = Some u"
      using parser_ok_text [OF p(1), of t] expect_token [OF 2(1)] by (auto simp: later_def token_text_def)
    with 2 show ?case by (auto simp: runs_def and_then_def unreachable_unless_def ok_def)
  qed simp_all
  then show ?thesis by simp
qed

lemma eat_token_cases:
  assumes "parser_ok p" "kind \<noteq> TokEof" "eat_token kind p = (ate, q)"
  shows "later p q" "depth q = depth p" "parser_ok q" "if ate then remaining q + 1 \<le> remaining p else q = p"
  using assms advance_left [of p] later_ok [of p "snd (advance p)"]
  by (auto simp: eat_token_def at_kind_def split: if_splits)

lemma runs_new_identifier_of:
  assumes "parser_ok p" "expect TokIdentifier what p = Some (Some t, q)" "later p q" "d \<le> depth q"
  shows "runs 0 d (new_identifier t) q"
proof -
  obtain u where "token_text p t = Some u" "is_word u"
    using parser_ok_text [OF assms(1), of t] expect_token [OF assms(2)] by (auto simp: kind_text_def)
  then show ?thesis using assms later_ok [OF assms(3,1)]
    by (intro runs_new_identifier [where u = u]) (auto simp: later_def token_text_def)
qed

lemma runs_parse_segment: "parser_ok p \<Longrightarrow> d \<le> depth p \<Longrightarrow> runs 1 d parse_segment p"
proof -
  assume p: "parser_ok p" "d \<le> depth p"
  have "runs (1 + 0) d parse_segment p" unfolding parse_segment_def
    by (rule runs_then [OF p(1) runs_expect [OF p(1) _ p(2)]]) (use runs_new_identifier_of [OF p(1)] in auto)
  then show ?thesis by simp
qed

lemma runs_parse_segments:
  "parser_ok p \<Longrightarrow> d \<le> depth p \<Longrightarrow> remaining p < n \<Longrightarrow> runs 0 d (parse_segments n segments) p"
proof (induction n arbitrary: p segments)
  case (Suc n)
  obtain ate q where e: "eat_token TokDot p = (ate, q)" by (cases "eat_token TokDot p")
  note q = eat_token_cases [OF Suc.prems(1) _ e, simplified]
  show ?case
  proof (cases ate)
    case False
    with q e Suc.prems show ?thesis by (simp add: runs_def ok_def)
  next
    case True
    have "runs (1 + 0) d (and_then parse_segment (\<lambda>s. parse_segments n (segments @ [s]))) q"
      using q True Suc.prems by (intro runs_then [where d = d] runs_parse_segment Suc.IH) auto
    then have "runs 0 d (and_then parse_segment (\<lambda>s. parse_segments n (segments @ [s]))) q" by (rule runs_less) simp_all
    then show ?thesis using e True q unfolding runs_def by (auto intro: later_trans)
  qed
qed simp

lemma runs_more_paths:
  "parser_ok p \<Longrightarrow> d \<le> depth p \<Longrightarrow> remaining p < n \<Longrightarrow> runs 0 d (more_paths n paths) p"
proof (induction n arbitrary: p paths)
  case (Suc n)
  obtain ate q where e: "eat_token TokComma p = (ate, q)" by (cases "eat_token TokComma p")
  note q = eat_token_cases [OF Suc.prems(1) _ e, simplified]
  show ?case
  proof (cases ate)
    case False
    with q e Suc.prems show ?thesis by (simp add: runs_def ok_def)
  next
    case True
    have "runs (1 + 0) d (and_then parse_path (\<lambda>s. more_paths n (paths @ [s]))) q"
      using q True Suc.prems by (intro runs_then [where d = d] runs_parse_path Suc.IH) auto
    then have "runs 0 d (and_then parse_path (\<lambda>s. more_paths n (paths @ [s]))) q" by (rule runs_less) simp_all
    then show ?thesis using e True q unfolding runs_def by (auto intro: later_trans)
  qed
qed simp

lemma hexdigit_byte: "is_ascii_hexdigit a \<Longrightarrow> is_ascii_hexdigit b \<Longrightarrow> \<exists>x. byte_of_hex a b = Some x"
  by (auto simp: byte_of_hex_def digit_of_hex_def is_ascii_hexdigit_def is_ascii_digit_def)

lemma color_from_hex_token:
  assumes "length h = 6" "\<forall>c \<in> set h. is_ascii_hexdigit c"
  shows "\<exists>c. color_from_hex (35 # h) = Some c"
proof -
  obtain a b c d e f where h: "h = [a, b, c, d, e, f]"
    using assms(1) by (auto simp: length_Suc_conv eval_nat_numeral)
  have "utf8_len h = 6" using assms by (subst utf8_len_ascii) (auto simp: is_ascii_hexdigit_def is_ascii_digit_def)
  moreover obtain x y z where "byte_of_hex a b = Some x" "byte_of_hex c d = Some y" "byte_of_hex e f = Some z"
    using hexdigit_byte assms(2) unfolding h by (metis list.set_intros)
  ultimately show ?thesis by (simp add: color_from_hex_def h len_utf8_def [of 35])
qed

lemma runs_parse_color:
  assumes "parser_ok p" "at_kind TokColor p" "d \<le> depth p"
  shows "runs 1 d (parse_color (here p)) p"
proof -
  obtain t where t: "token_text p (here p) = Some t" "kind_text Data TokColor t"
    using parser_ok_text [OF assms(1), of "here p"] assms(2) by (auto simp: at_kind_def)
  then obtain c where c: "color_from_hex t = Some c"
    using color_from_hex_token by (auto simp: kind_text_def)
  show ?thesis using t c assms advance_left [of p] advance_left [of "report x p" for x]
    by (auto simp: parse_color_def runs_def and_then_def unreachable_unless_def change_def literal_value_def ok_def
      at_kind_def advance_def step_def later_def stream_def remaining_def report_def suffix_def split: list.split)
qed

lemma runs_parse_string:
  assumes "parser_ok p" "d \<le> depth p"
  shows "runs 0 d (parse_string (token_span (here p))) p"
proof -
  obtain t where "source_slice (parser_source p) (token_span (here p)) = Some t"
    using parser_ok_text [OF assms(1), of "here p"] by (auto simp: token_text_def)
  then show ?thesis using assms(2)
    by (auto simp: parse_string_def runs_def and_then_def unreachable_unless_def change_def ok_def split: sum.split)
qed

lemma runs_parse_number:
  assumes p: "parser_ok p" "\<not> at_kind TokEof p" and d: "d \<le> depth p"
  shows "runs 1 d (parse_number fmt) p"
proof -
  obtain neg q where e: "eat_token TokMinus p = (neg, q)" by (cases "eat_token TokMinus p")
  note q = eat_token_cases [OF p(1) _ e, simplified]
  obtain t where t: "token_text q (here q) = Some t" using parser_ok_text [OF q(3), of "here q"] by auto
  have adv: "token_kind (here q) \<noteq> TokEof \<Longrightarrow> remaining (snd (advance q)) + 1 \<le> remaining p"
    using advance_left [OF q(3)] q(4) by (auto simp: at_kind_def split: if_splits)
  have no: "runs 1 d (\<lambda>_. failed (str ''a number'') q) p"
    using unexpected_some [OF q(3), of "str ''a number''"] q d by (auto simp: runs_def failed_def intro: later_trans)
  have "runs 1 d (\<lambda>_. parse_number fmt p) p"
  proof (cases "number_literal fmt (token_kind (here q)) neg ((if neg then str ''-'' else []) @ t)")
    case None
    with no t show ?thesis
      by (simp add: parse_number_def e Let_def peek_token_def and_then_def unreachable_unless_def)
  next
    case (Some literal)
    then have "token_kind (here q) \<noteq> TokEof" by (auto simp: number_literal_def)
    from adv [OF this] show ?thesis using Some t q d
      by (auto simp: parse_number_def e Let_def peek_token_def and_then_def unreachable_unless_def change_def ok_def
        runs_def intro: later_trans split: sum.split)
  qed
  then show ?thesis by (simp add: runs_def)
qed

lemma recover_item_from_later: "later p (recover_item_from close k p) \<and> depth (recover_item_from close k p) = depth p"
proof (induction close k p rule: recover_item_from.induct)
  case (1 close k p)
  show ?case
    by (subst (1 2) recover_item_from.simps, auto simp: Let_def)
      (use 1 in \<open>auto simp: Let_def intro: later_trans [OF advance_later(2)]\<close>)
qed

lemma recover_item_later [simp]: "later p (recover_item close p)" "depth (recover_item close p) = depth p"
  using recover_item_from_later [of p close 0] by (simp_all add: recover_item_def)

lemma recover_item_less:
  assumes p: "parser_ok p" "\<not> at_kind TokEof p" "\<not> at_kind TokComma p" "\<not> at_kind close p" "\<not> at_other_close close p"
  shows "remaining (recover_item close p) < remaining p"
proof -
  have k: "token_kind (peek_token p) \<noteq> TokEof" "ahead p \<noteq> []" "token_kind (peek_token p) \<noteq> TokComma"
    "token_kind (peek_token p) \<noteq> close" "\<not> closes (token_kind (peek_token p))"
    using assms ok_ahead [of p] by (auto simp: at_kind_def at_other_close_def peek_token_def)
  have "remaining (recover_item_from close n (step p)) < remaining p" for n
    using later_left [OF conjunct1 [OF recover_item_from_later [of "step p" close n]]] step_ahead [OF k(2)]
    by (simp add: remaining_def)
  then show ?thesis using k by (subst recover_item_def, subst recover_item_from.simps) (simp add: Let_def)
qed

lemma recover_comma: "at_kind TokComma p \<Longrightarrow> recover_item close p = p"
  by (subst recover_item_def, subst recover_item_from.simps) (simp add: Let_def at_kind_def peek_token_def)

text \<open>After an item, parsed or recovered from, the separator is passed and there is less left.\<close>

lemma separator_some:
  assumes "parser_ok p"
  shows "\<exists>q. separator close what p = Some (Some (), q) \<and> later p q \<and> depth p \<le> depth q \<and> 
    (at_kind TokComma p \<longrightarrow> remaining q < remaining p)"
proof -
  obtain ate q where e: "eat_token TokComma p = (ate, q)" by (cases "eat_token TokComma p")
  note q = eat_token_cases [OF assms _ e, simplified]
  show ?thesis
  proof (cases "\<not> ate \<and> \<not> at_kind close q")
    case True
    obtain q1 where q1: "unexpected (str ''`,` or '' @ what) q = Some q1" "later q q1" "depth q1 = depth q" "stream q1 = stream q"
      using unexpected_some [OF q(3)] by blast
    let ?r = "recover_item close q1"
    obtain ate' q2 where e2: "eat_token TokComma ?r = (ate', q2)" by (cases "eat_token TokComma ?r")
    have "later q1 ?r" by simp
    then have later: "later p ?r" using q(1) q1(2) by (blast intro: later_trans)
    note q2 = eat_token_cases [OF later_ok [OF later assms] _ e2, simplified]
    have "\<not> at_kind TokComma p" using True e by (auto simp: eat_token_def split: if_splits)
    with True e q1 e2 q2 later q(2) show ?thesis by (auto simp: separator_def ok_def intro: later_trans)
  next
    case False
    with e q have "separator close what p = Some (Some (), q)" by (auto simp: separator_def ok_def)
    moreover have "at_kind TokComma p \<Longrightarrow> ate" using e by (simp add: eat_token_def)
    ultimately show ?thesis using q by auto
  qed
qed

lemma item_progress:
  assumes p: "parser_ok p" "\<not> at_kind TokEof p" "\<not> at_kind close p" "\<not> at_other_close close p"
    and q: "later p q" "r \<noteq> None \<longrightarrow> remaining q + 1 \<le> remaining p" 
    and q': "q' = (if r = None then recover_item close q else q)"
  shows "\<exists>t. separator close what q' = Some (Some (), t) \<and> later p t \<and> depth q \<le> depth t \<and> remaining t < remaining p"
proof -
  have "later q q'" "depth q' = depth q" using q' by auto
  then have later: "later p q'" using q(1) by (blast intro: later_trans)
  obtain t where t: "separator close what q' = Some (Some (), t)" "later q' t" "depth q' \<le> depth t"
    "at_kind TokComma q' \<longrightarrow> remaining t < remaining q'"
    using separator_some [OF later_ok [OF later p(1)]] by blast
  have "remaining t < remaining p"
  proof (cases "r = None \<and> remaining q = remaining p")
    case False
    then have "remaining q < remaining p" using q(2) later_left [OF q(1)] by auto
    then show ?thesis using later_left [OF \<open>later q q'\<close>] later_left [OF t(2)] by simp
  next
    case True
    then have s: "stream q = stream p" using later_same [OF q(1)] by simp
    then have h: "here q = here p" by (simp add: stream_def)
    show ?thesis
    proof (cases "at_kind TokComma q")
      case c: True
      then have "q' = q" using True q' recover_comma by simp
      with t(4) c True show ?thesis by simp
    next
      case False
      have "remaining (recover_item close q) < remaining q"
        using p h later_ok [OF q(1) p(1)] False
        by (intro recover_item_less) (simp_all add: at_kind_def at_other_close_def peek_token_def)
      then have "remaining q' < remaining q" using True q' by simp
      then show ?thesis using later_left [OF t(2)] True by simp
    qed
  qed
  with t later \<open>depth q' = depth q\<close> show ?thesis by (auto intro: later_trans)
qed

lemma runs_end_of_list: "parser_ok p \<Longrightarrow> 0 < depth p \<Longrightarrow> runs k (depth p - 1) (end_of_list what) p"
  using unexpected_some [of p what]
  by (auto simp: end_of_list_def runs_def and_then_def leave_def ok_def later_def stream_def)

text \<open>What is asked of the values inside: with fewer than \<open>b\<close> tokens left, they return.\<close>

definition values_run :: "data_value spanned parse \<Rightarrow> nat \<Rightarrow> bool" where
  "values_run value b \<longleftrightarrow> (\<forall>p. parser_ok p \<longrightarrow> remaining p < b \<longrightarrow> runs 1 (depth p) value p)"

lemma runs_field_name:
  assumes p: "parser_ok p"
  shows "runs 1 (depth p) (if at_kind (TokKeyword KwImport) p \<or> at_kind (TokKeyword KwFrom) p
        then (\<lambda>p. let (token, p) = advance p in new_identifier token p)
        else parse_identifier (str ''a field name'') False) p"
proof (cases "at_kind (TokKeyword KwImport) p \<or> at_kind (TokKeyword KwFrom) p")
  case True
  obtain u where u: "token_text p (here p) = Some u" "is_word u"
    using parser_ok_text [OF p here_stream] True by (auto simp: at_kind_def kind_text_def)
  have "token_text (snd (advance p)) (here p) = Some u" using u(1) by (simp add: token_text_def)
  moreover have "remaining (snd (advance p)) + 1 \<le> remaining p"
    using True by (intro advance_left p) (auto simp: at_kind_def)
  moreover have "fst (advance p) = here p" by (simp add: advance_def)
  ultimately show ?thesis using True u(2)
    by (auto simp: runs_def new_identifier_def and_then_def unreachable_unless_def ok_def word_identifier case_prod_beta)
qed (simp add: runs_parse_identifier [unfolded One_nat_def] p del: str_simps)

lemma runs_parse_field:
  assumes v: "values_run value b" and p: "parser_ok p" "remaining p \<le> b"
  shows "runs 1 (depth p) (parse_field value) p"
proof -
  have "runs (1 + 0) (depth p) (parse_field value) p"
  proof (rule runs_at, rule parse_field_def, rule runs_then [OF p(1) runs_field_name [OF p(1)]], goal_cases)
    case (1 name q)
    have "runs (1 + 1) (depth q) (and_then (expect TokColon (str ''`:` and a value'')) (\<lambda>_. value)) q"
    proof (rule runs_then [OF 1(3) runs_expect [OF 1(3), where d = "depth q"]], goal_cases)
      case (3 t r)
      have "runs 1 (depth r) value r" using v 3 1 p(2) unfolding values_run_def by simp
      then show ?case by (rule runs_less) (use 3 in simp_all)
    qed simp_all
    then obtain r s where r: "and_then (expect TokColon (str ''`:` and a value'')) (\<lambda>_. value) q = Some (r, s)"
      "later q s" "depth q \<le> depth s" by (auto simp: runs_def)
    have "later q (recover_item TokRightBrace s)" using r(2) recover_item_later(1) by (rule later_trans)
    then show ?case using r 1 later_left [OF r(2)] later_left [of q "recover_item TokRightBrace s"]
      by (auto simp: runs_def Let_def ok_def split: option.split)
  qed simp
  then show ?thesis by simp
qed

lemma runs_leave_then:
  assumes "parser_ok p" "\<not> at_kind TokEof p" "0 < depth p"
  shows "runs 0 (depth p - 1) (\<lambda>p. let (token, p) = advance p in and_then leave (\<lambda>_. ok (f token)) p) p"
  using assms advance_left [OF assms(1,2)] advance_later(1) [of p]
  by (auto simp: runs_def and_then_def leave_def ok_def case_prod_beta later_def stream_def remaining_def)

lemma runs_fields_from:
  assumes v: "values_run value b"
  shows "parser_ok p \<Longrightarrow> remaining p \<le> b \<Longrightarrow> remaining p < n \<Longrightarrow> 0 < depth p \<Longrightarrow>
    runs 0 (depth p - 1) (fields_from value n s fs) p"
proof (induction n arbitrary: p fs)
  case (Suc n)
  show ?case
  proof (cases "at_kind TokRightBrace p")
    case True
    show ?thesis
      by (rule runs_at [OF _ runs_leave_then [OF Suc.prems(1) _ Suc.prems(4)]]) (use True in \<open>simp_all add: at_kind_def\<close>)
  next
    case close: False
    show ?thesis
    proof (cases "at_kind TokEof p \<or> at_other_close TokRightBrace p")
      case True
      show ?thesis
        by (rule runs_at [OF _ runs_end_of_list [OF Suc.prems(1,4)]]) (use True close in simp)
    next
      case False
      obtain r q where q: "parse_field value p = Some (r, q)" "later p q" "depth p \<le> depth q" "r \<noteq> None \<longrightarrow> remaining q + 1 \<le> remaining p"
        using runs_parse_field [OF v Suc.prems(1,2)] by (auto simp: runs_def)
      let ?q = "if r = None then recover_item TokRightBrace q else q" and ?fs = "case r of Some f \<Rightarrow> fs @ [f] | None \<Rightarrow> fs"
      obtain t where t: "separator TokRightBrace (str ''`}`'') ?q = Some (Some (), t)" "later p t" "depth q \<le> depth t"
        "remaining t < remaining p"
        using item_progress [OF Suc.prems(1) _ close _ q(2,4) refl] False by blast
      have "fields_from value (Suc n) s fs p = fields_from value n s ?fs t"
        using close False q(1) t(1) by (cases r) (simp_all add: and_then_def)
      moreover have "runs 0 (depth t - 1) (fields_from value n s ?fs) t"
        using t q(3) Suc.prems later_ok [OF t(2) Suc.prems(1)] by (intro Suc.IH) simp_all
      ultimately show ?thesis using t q(3) unfolding runs_def by (fastforce intro: later_trans)
    qed
  qed
qed simp

lemma runs_items_from:
  assumes v: "values_run value b" and close: "closes close"
  shows "parser_ok p \<Longrightarrow> remaining p < b \<Longrightarrow> remaining p < n \<Longrightarrow> 0 < depth p \<Longrightarrow>
    runs 0 (depth p - 1) (items_from value n close what s vs) p"
proof (induction n arbitrary: p vs)
  case (Suc n)
  show ?case
  proof (cases "at_kind close p")
    case True
    show ?thesis
      by (rule runs_at [OF _ runs_leave_then [OF Suc.prems(1) _ Suc.prems(4)]])
        (use True close in \<open>auto simp: at_kind_def closes_def\<close>)
  next
    case open_item: False
    show ?thesis
    proof (cases "at_kind TokEof p \<or> at_other_close close p")
      case True
      show ?thesis
        by (rule runs_at [OF _ runs_end_of_list [OF Suc.prems(1,4)]]) (use True open_item in simp)
    next
      case False
      obtain r q where q: "value p = Some (r, q)" "later p q" "depth p \<le> depth q" "r \<noteq> None \<longrightarrow> remaining q + 1 \<le> remaining p"
        using v Suc.prems(1,2) unfolding values_run_def runs_def by blast
      let ?q = "if r = None then recover_item close q else q"
        and ?vs = "case r of Some v \<Rightarrow> vs @ [v] | None \<Rightarrow> vs @ [Spanned DError (token_span (peek_token q))]"
      obtain t where t: "separator close what ?q = Some (Some (), t)" "later p t" "depth q \<le> depth t"
        "remaining t < remaining p"
        using item_progress [OF Suc.prems(1) _ open_item _ q(2,4) refl] False by blast
      have "items_from value (Suc n) close what s vs p = items_from value n close what s ?vs t"
        using open_item False q(1) t(1) by (cases r) (simp_all add: and_then_def)
      moreover have "runs 0 (depth t - 1) (items_from value n close what s ?vs) t"
        using t q(3) Suc.prems later_ok [OF t(2) Suc.prems(1)] by (intro Suc.IH) simp_all
      ultimately show ?thesis using t q(3) unfolding runs_def by (fastforce intro: later_trans)
    qed
  qed
qed simp

lemma nest_cases:
  "nest p = Some (r, q) \<Longrightarrow> parser_ok p \<Longrightarrow>
   later p q \<and> depth q = depth p + 1 \<and> parser_ok q \<and> stream q = stream p \<and> remaining q = remaining p"
  by (auto simp: nest_def Let_def ok_def later_def stream_def remaining_def parser_ok_def error_at_def report_def split: if_splits)

lemma nest_some: "nest p \<noteq> None"
  by (simp add: nest_def Let_def ok_def)

lemma runs_nest_then:
  assumes p: "parser_ok p"
    and f: "\<And>q. parser_ok q \<Longrightarrow> remaining q = remaining p \<Longrightarrow> depth q = depth p + 1 \<Longrightarrow> runs k (depth p) (f ()) q"
  shows "runs k (depth p) (and_then nest f) p"
proof -
  obtain r q where n: "nest p = Some (r, q)" using nest_some [of p] by auto
  note q = nest_cases [OF n p]
  show ?thesis
  proof (cases r)
    case None
    with n q show ?thesis by (auto simp: runs_def and_then_def)
  next
    case (Some u)
    with f [of q] n q show ?thesis unfolding runs_def by (auto simp: and_then_def intro: later_trans)
  qed
qed

lemma runs_parse_fields:
  assumes v: "values_run value b" and p: "parser_ok p" "remaining p \<le> b" "remaining p \<le> n"
  shows "runs 1 (depth p) (parse_fields value n) p"
proof -
  have "runs (1 + 0) (depth p) (parse_fields value n) p" unfolding parse_fields_def
  proof (rule runs_then [OF p(1) runs_expect [OF p(1), where d = "depth p"]], goal_cases)
    case (3 t q)
    have "runs 0 (depth q) (and_then nest (\<lambda>_. fields_from value n (token_span t) [])) q"
    proof (rule runs_nest_then [OF 3(3)])
      fix s assume s: "parser_ok s" "remaining s = remaining q" "depth s = depth q + 1"
      then have "runs 0 (depth s - 1) (fields_from value n (token_span t) []) s"
        using 3 p by (intro runs_fields_from [OF v]) simp_all
      then show "runs 0 (depth q) (fields_from value n (token_span t) []) s" using s by simp
    qed
    then show ?case by (rule runs_less) (use 3 in simp_all)
  qed simp_all
  then show ?thesis by simp
qed

lemma runs_parse_items:
  assumes v: "values_run value b" and p: "parser_ok p" "\<not> at_kind TokEof p" "remaining p \<le> b" "remaining p \<le> n" and close: "closes close"
  shows "runs 1 (depth p) (parse_items value n close what) p"
proof -
  let ?q = "snd (advance p)"
  have q: "parser_ok ?q" "remaining ?q + 1 \<le> remaining p" "later p ?q"
    using later_ok [OF advance_later(1) p(1)] advance_left [OF p(1,2)] by simp_all
  have "runs 0 (depth ?q) (and_then nest (\<lambda>_. items_from value n close what (token_span (fst (advance p))) [])) ?q"
  proof (rule runs_nest_then [OF q(1)])
    fix s assume s: "parser_ok s" "remaining s = remaining ?q" "depth s = depth ?q + 1"
    then have "runs 0 (depth s - 1) (items_from value n close what (token_span (fst (advance p))) []) s"
      using q p by (intro runs_items_from [OF v close]) simp_all
    then show "runs 0 (depth ?q) (items_from value n close what (token_span (fst (advance p))) []) s" using s by simp
  qed
  then have "runs (0 + 1) (depth p) (parse_items value n close what) p"
    using q by (intro runs_after [where q = ?q]) (simp_all add: parse_items_def case_prod_beta)
  then show ?thesis by simp
qed

lemma runs_reference_value:
  assumes "parser_ok p" "remaining p \<le> n"
  shows "runs 1 (depth p) (reference_value n) p"
proof -
  have "runs (1 + (0 + 0)) (depth p) (reference_value n) p" unfolding reference_value_def
    by (intro runs_then [where d = "depth p"] runs_parse_identifier runs_parse_segments runs_ok) (use assms in auto)
  then show ?thesis by simp
qed

lemma runs_record_value:
  assumes v: "values_run value b" and p: "parser_ok p" "remaining p \<le> b" "remaining p \<le> n"
  shows "runs 1 (depth p) (record_value value n) p"
proof -
  have fields: "runs 1 d (parse_fields value n) q" if "parser_ok q" "remaining q \<le> remaining p" "d \<le> depth q" for q d
    using runs_parse_fields [OF v that(1), of n] that p by (auto intro: runs_less)
  have "runs (1 + 0) (depth p) (record_value value n) p" unfolding record_value_def
  proof (rule runs_then [OF p(1) runs_parse_identifier [OF p(1) order_refl]], goal_cases)
    case (1 ty q)
    have "runs 0 (depth p) (and_then (parse_identifier (str ''an object's name'') False) (\<lambda>name.
            and_then (parse_fields value n) (\<lambda>fs.
            ok (Spanned (DNamed ty name fs) (span_to (spanned_span ty) (spanned_span fs)))))) q"
      by (rule runs_less [where k = "1 + (1 + 0)" and d = "depth p"],
          intro runs_then [where d = "depth p"] runs_parse_identifier fields runs_ok) (use 1 in auto)
    moreover have "runs 0 (depth p) (and_then (parse_fields value n) (\<lambda>fs.
            ok (Spanned (DRecord ty fs) (span_to (spanned_span ty) (spanned_span fs))))) q"
      by (rule runs_less [where k = "1 + 0" and d = "depth p"],
          intro runs_then [where d = "depth p"] fields runs_ok) (use 1 in auto)
    moreover have "runs 0 (depth p) (ok (Spanned (DVariant ty) (spanned_span ty))) q"
      using 1 by (intro runs_ok) simp
    ultimately show ?case by (simp add: runs_def typed_value_def del: str_simps)
  qed simp
  then show ?thesis by simp
qed

lemma runs_name_value:
  assumes v: "values_run value b" and p: "parser_ok p" "remaining p \<le> b" "remaining p \<le> n"
  shows "runs 1 (depth p) (name_value value n) p"
proof -
  obtain t where "token_text p (here p) = Some t" using parser_ok_text [OF p(1) here_stream] by blast
  then have "name_value value n p =
      (if is_pascal_case t \<and> token_kind (peek_at 1 p) \<noteq> TokDot then record_value value n p else reference_value n p)"
    by (simp add: name_value_def peek_token_def and_then_def unreachable_unless_def Let_def)
  then show ?thesis using runs_record_value [OF assms] runs_reference_value [OF p(1,3)] by (simp add: runs_def)
qed

lemma runs_tuple_value: "parser_ok p \<Longrightarrow> d \<le> depth p \<Longrightarrow> runs 0 d (tuple_value x) p"
  by (cases x) (auto simp: tuple_value_def runs_def and_then_def change_def ok_def)

lemma runs_value_body:
  assumes v: "values_run value n" and p: "parser_ok p" "remaining p \<le> n"
  shows "runs 1 (depth p) (value_body fmt value n) p"
proof -
  let ?d = "depth p" and ?k = "token_kind (here p)"
  obtain t where t: "token_text p (here p) = Some t" using parser_ok_text [OF p(1) here_stream] by blast
  have number: "?k \<noteq> TokEof \<Longrightarrow> runs 1 ?d (parse_number fmt) p"
    using runs_parse_number [OF p(1)] by (simp add: at_kind_def)
  have literal: "?k \<noteq> TokEof \<Longrightarrow> runs 1 ?d (literal_value (here p) x) p" for x
    using runs_literal_value [OF p(1)] by (simp add: at_kind_def)
  have color: "?k = TokColor \<Longrightarrow> runs 1 ?d (parse_color (here p)) p"
    using runs_parse_color [OF p(1)] by (simp add: at_kind_def)
  have string: "?k = TokString \<Longrightarrow>
      runs 1 ?d (and_then (parse_string (token_span (here p))) (\<lambda>t. literal_value (here p) (DString t))) p"
  proof -
    assume k: "?k = TokString"
    have "stream q = stream p" if "parse_string (token_span (here p)) p = Some (Some x, q)" for x q
      using that by (auto simp: parse_string_def and_then_def unreachable_unless_def change_def ok_def split: option.splits sum.splits)
    then have "runs (0 + 1) ?d (and_then (parse_string (token_span (here p))) (\<lambda>t. literal_value (here p) (DString t))) p"
      using k by (intro runs_then [where d = ?d] runs_parse_string runs_literal_value)
        (use p in \<open>auto simp: at_kind_def stream_def\<close>)
    then show ?thesis by simp
  qed
  have path: "?k \<noteq> TokEof \<Longrightarrow> runs 1 ?d (and_then (unreachable_unless (token_text p (here p)))
      (\<lambda>t. literal_value (here p) (DPath (butlast (tl t))))) p"
    using literal by (simp add: runs_def and_then_def unreachable_unless_def t)
  have fields: "runs 1 ?d (and_then (parse_fields value n) (\<lambda>fs. ok (Spanned (DMap (spanned_value fs)) (spanned_span fs)))) p"
    by (rule runs_less [where k = "1 + 0" and d = ?d],
        intro runs_then [where d = ?d] runs_parse_fields [OF v] runs_ok) (use p in auto)
  have items: "runs 1 ?d (and_then (parse_items value n close what) f) p"
    if "?k \<noteq> TokEof" "closes close" "\<And>x q. parser_ok q \<Longrightarrow> ?d \<le> depth q \<Longrightarrow> runs 0 ?d (f x) q"
    for close what and f :: "data_value spanned list \<times> text_span \<Rightarrow> data_value spanned parse"
    by (rule runs_less [where k = "1 + 0" and d = ?d],
        intro runs_then [where d = ?d] runs_parse_items [OF v] that) (use p that(1) in \<open>auto simp: at_kind_def\<close>)
  have lists: "?k \<noteq> TokEof \<Longrightarrow> runs 1 ?d (and_then (parse_items value n TokRightBracket (str ''`]`''))
             (\<lambda>(vs, span). ok (Spanned (DList vs) span))) p"
    by (rule items) (auto simp: closes_def runs_def ok_def)
  have tuples: "?k \<noteq> TokEof \<Longrightarrow> runs 1 ?d (and_then (parse_items value n TokRightParen (str ''`)`'')) tuple_value) p"
    by (rule items) (auto simp: closes_def runs_tuple_value)
  have name: "runs 1 ?d (name_value value n) p" by (rule runs_name_value [OF v p p(2)])
  have other: "runs 1 ?d (failed (str ''a value'')) p" by (rule runs_failed [OF p(1) order_refl])
  show ?thesis
  proof (cases "?k = TokEof")
    case True
    with other show ?thesis by (simp add: runs_def value_body_def peek_token_def del: str_simps)
  next
    case False
    note runs_at [of "value_body fmt value n" p, unfolded value_body_def peek_token_def Let_def]
    show ?thesis
      using number [OF False] literal [OF False] color string path [OF False] fields lists [OF False]
        tuples [OF False] name other
      unfolding runs_def value_body_def peek_token_def Let_def
      by (cases ?k; simp del: str_simps split: keyword.split)
  qed
qed

lemma runs_parse_value: "parser_ok p \<Longrightarrow> remaining p < n \<Longrightarrow> runs 1 (depth p) (parse_value fmt n) p"
proof (induction n arbitrary: p)
  case (Suc n)
  then have "values_run (parse_value fmt n) n" by (simp add: values_run_def)
  from runs_value_body [OF this, of p fmt] Suc.prems show ?case by simp
qed simp

section \<open>Documents are always parsed\<close>

lemma runs_parse_import:
  assumes p: "parser_ok p" "\<not> at_kind TokEof p" "remaining p \<le> n"
  shows "runs 1 (depth p) (parse_import n) p"
proof -
  let ?q = "snd (advance p)" and ?d = "depth p"
  have q: "parser_ok ?q" "remaining ?q + 1 \<le> remaining p" "later p ?q"
    using later_ok [OF advance_later(1) p(1)] advance_left [OF p(1,2)] by simp_all
  let ?rest = "and_then (parse_identifier (str ''an import alias'') False) (\<lambda>alias.
     and_then (expect (TokKeyword KwFrom) (str ''`from`'')) (\<lambda>_.
     and_then parse_path (\<lambda>path.
     and_then (more_paths n [path]) (\<lambda>paths.
     and_then (expect TokSemicolon (str ''`;` after the import'')) (\<lambda>_.
     ok \<lparr>import_alias = alias, import_paths = paths\<rparr>)))))"
  have "runs (1 + (1 + (1 + (0 + (1 + 0))))) ?d ?rest ?q"
    by (intro runs_then [where d = ?d] runs_parse_identifier runs_expect runs_parse_path runs_more_paths runs_ok)
      (use q p in \<open>auto dest: later_left\<close>)
  then have "runs 0 ?d ?rest ?q" by (rule runs_less) simp_all
  moreover have "parse_import n p = ?rest ?q"
    by (simp add: parse_import_def and_then_def [of "change f" for f] change_def)
  ultimately have "runs (0 + 1) ?d (parse_import n) p" using q by (intro runs_after [where q = ?q])
  then show ?thesis by simp
qed

lemma runs_parse_declaration:
  assumes p: "parser_ok p" "remaining p \<le> n"
  shows "runs 1 (depth p) (parse_declaration fmt n) p"
proof -
  have v: "values_run (parse_value fmt n) n" using runs_parse_value by (simp add: values_run_def)
  have fields: "runs 1 d (parse_fields (parse_value fmt n) n) q" if "parser_ok q" "remaining q \<le> remaining p" "d \<le> depth q" for q d
    using runs_parse_fields [OF v that(1), of n] that p by (auto intro: runs_less)
  have "runs (1 + (1 + (1 + 0))) (depth p) (parse_declaration fmt n) p" unfolding parse_declaration_def
    by (intro runs_then [where d = "depth p"] runs_parse_identifier fields runs_ok) (use p in auto)
  then show ?thesis by (rule runs_less) simp_all
qed

lemma runs_parse_part:
  assumes p: "parser_ok p" "\<not> at_kind TokEof p" "remaining p \<le> n"
  shows "runs 1 (depth p) (parse_part fmt n) p"
proof -
  have "runs (1 + 0) (depth p) (and_then (parse_import n) (\<lambda>i. ok (add_import i))) p"
    by (intro runs_then [where d = "depth p"] runs_parse_import runs_ok) (use p in auto)
  moreover have "runs (1 + 0) (depth p) (and_then (parse_declaration fmt n) (\<lambda>d. ok (add_declaration d))) p"
    by (intro runs_then [where d = "depth p"] runs_parse_declaration runs_ok) (use p in auto)
  ultimately show ?thesis by (simp add: runs_def parse_part_def)
qed

lemma recover_declaration_from_later: "later p (recover_declaration_from k p)"
proof (induction k p rule: recover_declaration_from.induct)
  case (1 k p)
  show ?case
    by (subst recover_declaration_from.simps, auto simp: Let_def)
      (use 1 in \<open>auto simp: Let_def intro: later_trans [OF advance_later(2)]\<close>)
qed

lemma runs_document_from:
  "parser_ok p \<Longrightarrow> remaining p + 1 < n \<Longrightarrow> \<exists>d q. document_from fmt n document p = Some (Some d, q)"
proof (induction n arbitrary: p document)
  case (Suc n)
  show ?case
  proof (cases "at_kind TokEof p")
    case True
    then show ?thesis by (simp add: ok_def)
  next
    case False
    obtain r q where q: "parse_part fmt n p = Some (r, q)" "later p q" "r \<noteq> None \<longrightarrow> remaining q + 1 \<le> remaining p"
      using runs_parse_part [OF Suc.prems(1) False, of n fmt] Suc.prems(2) by (auto simp: runs_def)
    note ok_q = later_ok [OF q(2) Suc.prems(1)]
    show ?thesis
    proof (cases r)
      case (Some f)
      with q False show ?thesis using Suc.prems(2) Suc.IH [OF ok_q] by simp
    next
      case None
      let ?t = "recover_declaration q"
      have t: "later (snd (advance q)) ?t" by (simp add: recover_declaration_def recover_declaration_from_later)
      have "remaining (snd (advance q)) < remaining p"
      proof (cases "remaining q = remaining p")
        case True
        then have "\<not> at_kind TokEof q" using later_same [OF q(2)] False by (simp add: stream_def at_kind_def)
        with advance_left [OF ok_q] True show ?thesis by simp
      next
        case False
        with later_left [OF q(2)] later_left [OF advance_later(1), of q] show ?thesis by simp
      qed
      then have "remaining ?t < remaining p" using later_left [OF t] by simp
      moreover have "parser_ok ?t" using t advance_later(1) [of q] ok_q by (blast intro: later_ok)
      ultimately show ?thesis using Suc.IH [of ?t] Suc.prems(2) q(1) None False by simp
    qed
  qed
qed simp

text \<open>
  C5. Parsing a data document always returns a tree and the diagnostics, whatever the source: the
  parser terminates, and neither a slice off a character boundary nor an \<open>unreachable!\<close> is reached.
\<close>

theorem parse_total: "\<exists>document ds. parse_document fmt source = Some (document, ds)"
proof -
  obtain p where p: "new_parser source = Some p" "parser_ok p" using new_parser_ok by metis
  have "\<exists>d q. document_from fmt (length (ahead p) + 2) empty_document p = Some (Some d, q)"
    by (rule runs_document_from [OF p(2)]) (simp add: remaining_def)
  then obtain d q where "document_from fmt (length (ahead p) + 2) empty_document p = Some (Some d, q)" by blast
  with p(1) show ?thesis by (simp add: parse_document_def)
qed

end
