(* ===== verification/DataTokens.thy ===== *)
theory DataTokens
  imports DataTree
begin

text \<open>
  What the lexer makes of text that is put together from pieces: the tokens of data documents, each
  with its kind and text. \<open>reads safe t ps\<close> says that before any text \<open>u\<close> with \<open>safe u\<close>, the lexer
  turns \<open>t\<close> into tokens of the pieces \<open>ps\<close>, whose spans lie where the pieces are. White space adds no
  piece, and texts are put together where the second may follow the first.
\<close>

section \<open>Pieces\<close>

type_synonym piece = "token_kind \<times> rstr"

definition data_lexer :: "nat \<Rightarrow> rstr \<Rightarrow> lexer" where
  "data_lexer start t = \<lparr>rest = t, cursor = start, lex_mode = Data, comments = []\<rparr>"

lemma data_lexer_simps [simp]:
  "rest (data_lexer n t) = t" "cursor (data_lexer n t) = n" "lex_mode (data_lexer n t) = Data"
  "comments (data_lexer n t) = []" "(data_lexer n t)\<lparr>rest := u, cursor := m\<rparr> = data_lexer m u"
  "bump (data_lexer n (c # t)) = data_lexer (n + len_utf8 c) t"
  "peek (data_lexer n (c # t)) = Some c" "peek (data_lexer n []) = None"
  "peek_second (data_lexer n (c # d # t)) = Some d" "peek_second (data_lexer n [c]) = None"
  by (simp_all add: data_lexer_def bump_def peek_def peek_second_def nth_opt_def)

definition spot :: "nat \<Rightarrow> rstr \<Rightarrow> token \<Rightarrow> piece \<Rightarrow> bool" where
  "spot start t token p \<longleftrightarrow>
     token_kind token = fst p \<and>
     (\<exists>a b. t = a @ snd p @ b \<and> token_span token = span_of (start + utf8_len a) (snd p))"

definition reads :: "(rstr \<Rightarrow> bool) \<Rightarrow> rstr \<Rightarrow> piece list \<Rightarrow> bool" where
  "reads safe t ps \<longleftrightarrow>
     (\<forall>start u. safe u \<longrightarrow>
        (\<exists>ts. fst (lex_tokens (data_lexer start (t @ u))) =
             ts @ fst (lex_tokens (data_lexer (start + utf8_len t) u)) \<and>
           list_all2 (spot start t) ts ps))"

lemma spot_before: "spot start t token p \<Longrightarrow> spot start (t @ u) token p"
  unfolding spot_def by (metis append.assoc)

lemma spot_after: "spot (start + utf8_len s) t token p \<Longrightarrow> spot start (s @ t) token p"
  unfolding spot_def by (metis (no_types, opaque_lifting) add.assoc append.assoc utf8_len_simps(3))

lemma reads_append:
  assumes "reads first s ps" "reads safe t qs" "\<And>u. safe u \<Longrightarrow> first (t @ u)"
  shows "reads safe (s @ t) (ps @ qs)"
  unfolding reads_def
proof (intro allI impI)
  fix start u
  assume u: "safe u"
  obtain ts where ts: "fst (lex_tokens (data_lexer start (s @ t @ u))) =
      ts @ fst (lex_tokens (data_lexer (start + utf8_len s) (t @ u)))" "list_all2 (spot start s) ts ps"
    using assms(1) assms(3) [OF u] unfolding reads_def by blast
  obtain us where us: "fst (lex_tokens (data_lexer (start + utf8_len s) (t @ u))) =
      us @ fst (lex_tokens (data_lexer (start + utf8_len s + utf8_len t) u))"
    "list_all2 (spot (start + utf8_len s) t) us qs"
    using assms(2) u unfolding reads_def by blast
  have "list_all2 (spot start (s @ t)) (ts @ us) (ps @ qs)"
    using list_all2_mono [OF ts(2) spot_before] list_all2_mono [OF us(2) spot_after] by (rule list_all2_appendI)
  then show "\<exists>ts. fst (lex_tokens (data_lexer start ((s @ t) @ u))) =
      ts @ fst (lex_tokens (data_lexer (start + utf8_len (s @ t)) u)) \<and> list_all2 (spot start (s @ t)) ts (ps @ qs)"
    using ts(1) us(1) by (intro exI [of _ "ts @ us"]) (simp add: add.assoc)
qed

lemma reads_Nil [simp, intro]: "reads safe [] []"
  by (simp add: reads_def)

text \<open>What may follow: nothing that continues a word, a number or a dotted name.\<close>

definition anything :: "rstr \<Rightarrow> bool" where
  "anything u = True"

definition boundary :: "rstr \<Rightarrow> bool" where
  "boundary u \<longleftrightarrow> u = [] \<or> \<not> is_word_char (hd u) \<and> hd u \<noteq> 46"

lemma reads_anything: "reads anything t ps \<Longrightarrow> reads safe t ps"
  by (simp add: reads_def anything_def)

lemma boundary_simps [simp]:
  "boundary []" "boundary (c # u) \<longleftrightarrow> \<not> is_word_char c \<and> c \<noteq> 46"
  by (simp_all add: boundary_def)

text \<open>White space.\<close>

lemma skip_trivia_space:
  "is_whitespace c \<Longrightarrow> skip_trivia (data_lexer n (c # u)) = skip_trivia (data_lexer (n + len_utf8 c) u)"
  by (subst (1 2) skip_trivia.simps) (simp add: take_while_def take_while_from add.assoc)

lemma lex_tokens_space:
  "is_whitespace c \<Longrightarrow> lex_tokens (data_lexer n (c # u)) = lex_tokens (data_lexer (n + len_utf8 c) u)"
  by (subst (1 2) lex_tokens.simps) (simp add: next_token_def skip_trivia_space)

lemma reads_space: "\<forall>c \<in> set w. is_whitespace c \<Longrightarrow> reads anything w []"
  unfolding reads_def
proof (intro allI impI, goal_cases)
  case (1 start u)
  then have "lex_tokens (data_lexer start (w @ u)) = lex_tokens (data_lexer (start + utf8_len w) u)"
    by (induction w arbitrary: start) (simp_all add: lex_tokens_space add.assoc)
  then show ?case by simp
qed

text \<open>One token.\<close>

definition lexes :: "rstr \<Rightarrow> token_kind \<Rightarrow> rstr \<Rightarrow> bool" where
  "lexes t k u \<longleftrightarrow>
     t \<noteq> [] \<and> \<not> is_whitespace (hd t) \<and> \<not> at_comment (t @ u) \<and> k \<noteq> TokEof \<and>
     (\<forall>n. lex_kind (hd t) (data_lexer (n + len_utf8 (hd t)) (tl t @ u)) = (k, data_lexer (n + utf8_len t) u))"

lemma reads_token:
  assumes "\<And>u. safe u \<Longrightarrow> lexes t k u"
  shows "reads safe t [(k, t)]"
  unfolding reads_def
proof (intro allI impI)
  fix start u
  assume "safe u"
  then have l: "lexes t k u" by (rule assms)
  then obtain c cs where t: "t = c # cs" by (cases t) (auto simp: lexes_def)
  let ?tok = "\<lparr>token_kind = k, token_span = span_of start t\<rparr>"
  have "skip_trivia (data_lexer start (t @ u)) = (None, data_lexer start (t @ u))"
    using l by (subst skip_trivia.simps) (simp add: lexes_def t take_while_def take_while_from)
  then have "next_token (data_lexer start (t @ u)) = (?tok, data_lexer (start + utf8_len t) u)"
    using l by (simp add: next_token_def t lexes_def make_token_def span_of_def)
  then have "fst (lex_tokens (data_lexer start (t @ u))) = [?tok] @ fst (lex_tokens (data_lexer (start + utf8_len t) u))"
    using l by (subst lex_tokens.simps) (simp add: lexes_def case_prod_beta)
  moreover have "spot start t ?tok (k, t)"
    unfolding spot_def by (intro conjI exI [of _ "[]"]) simp_all
  ultimately show "\<exists>ts. fst (lex_tokens (data_lexer start (t @ u))) =
      ts @ fst (lex_tokens (data_lexer (start + utf8_len t) u)) \<and> list_all2 (spot start t) ts [(k, t)]"
    by (intro exI [of _ "[?tok]"]) simp
qed

section \<open>The tokens of data documents\<close>

lemma lexes_mark:
  assumes "(c, k) \<in> {(123, TokLeftBrace), (125, TokRightBrace), (40, TokLeftParen), (41, TokRightParen),
    (91, TokLeftBracket), (93, TokRightBracket), (58, TokColon), (59, TokSemicolon), (44, TokComma)}"
  shows "lexes [c] k u"
  using assms by (auto simp: lexes_def lex_kind_def is_whitespace_def at_comment_iff)

lemma reads_mark:
  "reads anything [123] [(TokLeftBrace, [123])]" "reads anything [125] [(TokRightBrace, [125])]"
  "reads anything [40] [(TokLeftParen, [40])]" "reads anything [41] [(TokRightParen, [41])]"
  "reads anything [91] [(TokLeftBracket, [91])]" "reads anything [93] [(TokRightBracket, [93])]"
  "reads anything [58] [(TokColon, [58])]" "reads anything [59] [(TokSemicolon, [59])]"
  "reads anything [44] [(TokComma, [44])]"
  by (rule reads_token, rule lexes_mark, simp)+

definition stops :: "(rchar \<Rightarrow> bool) \<Rightarrow> rstr \<Rightarrow> bool" where
  "stops P u \<longleftrightarrow> u = [] \<or> \<not> P (hd u)"

lemma take_while_stops:
  assumes "\<forall>c \<in> set t. P c" "stops P u"
  shows "take_while P (data_lexer n (t @ u)) = (t, data_lexer (n + utf8_len t) u)"
proof -
  have "takeWhile P (t @ u) = t" "dropWhile P (t @ u) = u"
    using assms by (cases u; simp add: stops_def)+
  then show ?thesis by (simp add: take_while_def take_while_from)
qed

lemma digit_word_char: "is_ascii_digit c \<Longrightarrow> is_word_char c"
  by (simp add: is_word_char_def is_ascii_alphanumeric_def)

lemma boundary_stops: "boundary u \<Longrightarrow> stops is_word_char u" "boundary u \<Longrightarrow> stops is_ascii_digit u"
  using digit_word_char by (auto simp: boundary_def stops_def)

lemma lexes_word:
  assumes "is_word t" "stops is_word_char u"
  shows "lexes t (case keyword_of t Data of Some k \<Rightarrow> TokKeyword k | None \<Rightarrow> TokIdentifier) u"
proof -
  obtain c cs where t: "t = c # cs" "is_word_start c" "\<forall>c \<in> set cs. is_word_char c"
    using assms(1) by (cases t) (auto simp: is_word_def)
  then show ?thesis using word_start [OF t(2)] take_while_stops [OF t(3) assms(2)]
    by (simp add: lexes_def lex_kind_word lex_word_def at_comment_iff add.assoc split: option.split)
qed

lemma reads_word: "is_word t \<Longrightarrow> reads boundary t [(case keyword_of t Data of Some k \<Rightarrow> TokKeyword k | None \<Rightarrow> TokIdentifier, t)]"
  by (rule reads_token) (simp add: lexes_word boundary_stops)

lemma reads_dot: "reads (\<lambda>u. u \<noteq> [] \<and> hd u \<noteq> 46) [46] [(TokDot, [46])]"
proof (rule reads_token)
  fix u :: rstr
  assume "u \<noteq> [] \<and> hd u \<noteq> 46"
  then show "lexes [46] TokDot u"
    by (cases u) (auto simp: lexes_def lex_kind_def is_whitespace_def at_comment_iff lex_dots_def eat_def)
qed

text \<open>Numbers: the digits, the fraction and the unit.\<close>

lemma digit_facts: "is_ascii_digit c \<Longrightarrow> \<not> is_whitespace c \<and> c \<noteq> 45 \<and> \<not> is_word_start c"
  by (auto simp: is_whitespace_def is_word_start_def char_class_defs)

lemma lex_kind_digit: "is_ascii_digit c \<Longrightarrow> lex_kind c l = lex_number l"
  using digit_facts [of c] by (auto simp: lex_kind_def is_ascii_digit_def)

definition suffix_of :: "rstr \<Rightarrow> token_kind option" where
  "suffix_of u =
     (case u of
        [] \<Rightarrow> None
      | c # v \<Rightarrow> if (c = 115 \<or> c = 109) \<and> stops is_word_char v
                 then Some (if c = 115 then TokDuration else TokDistance) else None)"

definition unit_end :: "nat \<Rightarrow> rstr \<Rightarrow> token_kind \<Rightarrow> token_kind \<times> lexer" where
  "unit_end n u plain =
     (case suffix_of u of
        Some k \<Rightarrow> (k, data_lexer (n + len_utf8 (hd u)) (tl u))
      | None \<Rightarrow> (plain, data_lexer n u))"

lemma lex_number_number:
  assumes "\<forall>c \<in> set ds. is_ascii_digit c" "stops is_ascii_digit u" "stops (\<lambda>c. c = 46) u"
  shows "lex_number (data_lexer n (ds @ u)) = unit_end (n + utf8_len ds) u TokInteger"
  using assms(2,3) unfolding lex_number_def take_while_stops [OF assms(1,2)]
  by (cases u; cases "tl u") (auto simp: unit_end_def suffix_of_def stops_def)

lemma lex_number_fraction:
  assumes "\<forall>c \<in> set ds. is_ascii_digit c" "is_number fs" "stops is_ascii_digit u"
  shows "lex_number (data_lexer n (ds @ 46 # fs @ u)) = unit_end (n + utf8_len (ds @ 46 # fs)) u TokFloat"
proof -
  have s: "stops is_ascii_digit (46 # fs @ u)" by (simp add: stops_def is_ascii_digit_def)
  obtain f fs' where fs: "fs = f # fs'" "is_ascii_digit f" "\<forall>c \<in> set fs. is_ascii_digit c"
    using assms(2) by (cases fs) (auto simp: is_number_def)
  note t = take_while_stops [OF fs(3) assms(3)]
  have p: "peek (data_lexer m (46 # fs @ u)) = Some 46" "peek_second (data_lexer m (46 # fs @ u)) = Some f" for m
    by (simp_all add: fs(1))
  show ?thesis
    unfolding lex_number_def take_while_stops [OF assms(1) s] Let_def prod.case p option.case
    using fs(2) t by (cases u; cases "tl u") (auto simp: unit_end_def suffix_of_def stops_def add.assoc)
qed

lemma lexes_number:
  assumes t: "is_number t" and u: "stops is_ascii_digit u" "stops (\<lambda>c. c = 46) u"
  shows "suffix_of u = None \<Longrightarrow> lexes t TokInteger u"
    "suffix_of u = Some k \<Longrightarrow> lexes (t @ [hd u]) k (tl u)"
proof -
  obtain c cs where c: "t = c # cs" "is_ascii_digit c" "\<forall>c \<in> set cs. is_ascii_digit c"
    using t by (cases t) (auto simp: is_number_def)
  show "suffix_of u = None \<Longrightarrow> lexes t TokInteger u"
    using c digit_facts [OF c(2)] lex_number_number [OF c(3) u]
    by (simp add: lexes_def lex_kind_digit at_comment_iff unit_end_def add.assoc)
  assume k: "suffix_of u = Some k"
  then have "u = hd u # tl u" "k \<noteq> TokEof" by (auto simp: suffix_of_def split: list.splits if_splits)
  then show "lexes (t @ [hd u]) k (tl u)"
    using c digit_facts [OF c(2)] lex_number_number [OF c(3) u] k
    by (simp add: lexes_def lex_kind_digit at_comment_iff unit_end_def add.assoc)
qed

lemma split_once_Some: "split_once c t = Some (a, b) \<Longrightarrow> t = a @ c # b"
  by (induction t arbitrary: a) (auto split: if_splits)

lemma lexes_fraction:
  assumes t: "is_fraction t" and u: "stops is_ascii_digit u"
  shows "suffix_of u = None \<Longrightarrow> lexes t TokFloat u"
    "suffix_of u = Some k \<Longrightarrow> lexes (t @ [hd u]) k (tl u)"
proof -
  obtain a fs where af: "split_once 46 t = Some (a, fs)" "is_number a" "is_number fs"
    using t by (auto simp: is_fraction_def split: option.splits)
  have "t = a @ 46 # fs" using af(1) by (rule split_once_Some)
  with af obtain c cs where c: "t = c # cs @ 46 # fs" "is_ascii_digit c" "\<forall>c \<in> set cs. is_ascii_digit c"
    by (cases a) (auto simp: is_number_def)
  show "suffix_of u = None \<Longrightarrow> lexes t TokFloat u"
    using c digit_facts [OF c(2)] lex_number_fraction [OF c(3) af(3) u]
    by (simp add: lexes_def lex_kind_digit at_comment_iff unit_end_def add.assoc)
  assume k: "suffix_of u = Some k"
  then have "u = hd u # tl u" "k \<noteq> TokEof" by (auto simp: suffix_of_def split: list.splits if_splits)
  then show "lexes (t @ [hd u]) k (tl u)"
    using c digit_facts [OF c(2)] lex_number_fraction [OF c(3) af(3) u] k
    by (simp add: lexes_def lex_kind_digit at_comment_iff unit_end_def add.assoc)
qed

lemma units_are_word_chars: "is_word_char 115" "is_word_char 109" "\<not> is_word_char 46"
  by (simp_all add: is_word_char_def char_class_defs)

lemma boundary_numbers:
  assumes "boundary u"
  shows "stops is_ascii_digit u" "stops (\<lambda>c. c = 46) u" "suffix_of u = None"
    "suffix_of (115 # u) = Some TokDuration" "suffix_of (109 # u) = Some TokDistance"
proof -
  show "stops is_ascii_digit u" by (rule boundary_stops [OF assms])
  show "stops (\<lambda>c. c = 46) u" using assms by (auto simp: boundary_def stops_def)
  show "suffix_of u = None" using assms units_are_word_chars by (cases u) (auto simp: suffix_of_def)
  show "suffix_of (115 # u) = Some TokDuration" "suffix_of (109 # u) = Some TokDistance"
    using boundary_stops(1) [OF assms] by (simp_all add: suffix_of_def)
qed

lemma reads_number:
  "is_number t \<Longrightarrow> reads boundary t [(TokInteger, t)]"
  "is_fraction t \<Longrightarrow> reads boundary t [(TokFloat, t)]"
  by (rule reads_token, simp add: lexes_number lexes_fraction boundary_numbers)+

lemma unit_stops: "stops is_ascii_digit (115 # u)" "stops (\<lambda>c. c = 46) (115 # u)"
  "stops is_ascii_digit (109 # u)" "stops (\<lambda>c. c = 46) (109 # u)"
  by (simp_all add: stops_def is_ascii_digit_def)

lemma reads_unit:
  assumes "is_number t \<or> is_fraction t"
  shows "reads boundary (t @ [115]) [(TokDuration, t @ [115])]" "reads boundary (t @ [109]) [(TokDistance, t @ [109])]"
proof -
  have "lexes (t @ [115]) TokDuration u \<and> lexes (t @ [109]) TokDistance u" if "boundary u" for u
    using assms lexes_number(2) [of t "115 # u"] lexes_number(2) [of t "109 # u"]
      lexes_fraction(2) [of t "115 # u"] lexes_fraction(2) [of t "109 # u"]
    by (auto simp: unit_stops boundary_numbers [OF that])
  then show "reads boundary (t @ [115]) [(TokDuration, t @ [115])]" "reads boundary (t @ [109]) [(TokDistance, t @ [109])]"
    by (simp_all add: reads_token)
qed

lemma reads_minus: "reads (\<lambda>u. u \<noteq> [] \<and> is_ascii_digit (hd u)) [45] [(TokMinus, [45])]"
proof (rule reads_token)
  fix u :: rstr
  assume "u \<noteq> [] \<and> is_ascii_digit (hd u)"
  then show "lexes [45] TokMinus u"
    by (cases u) (auto simp: lexes_def lex_kind_def is_whitespace_def at_comment_iff pair_kind_def eat_def is_ascii_digit_def)
qed

lemma is_number_head: "is_number t \<or> is_fraction t \<Longrightarrow> t \<noteq> [] \<and> is_ascii_digit (hd t)"
  by (cases t) (auto simp: is_number_def is_fraction_def is_ascii_digit_def split: option.splits if_splits)

lemma reads_negative:
  assumes "reads safe t ps" "t \<noteq> []" "is_ascii_digit (hd t)"
  shows "reads safe (45 # t) ((TokMinus, [45]) # ps)"
  using reads_append [OF reads_minus assms(1)] assms(2,3) by simp

lemma reads_color:
  assumes "length h = 6" "\<forall>c \<in> set h. is_ascii_hexdigit c"
  shows "reads boundary (35 # h) [(TokColor, 35 # h)]"
proof (rule reads_token)
  fix u
  assume "boundary u"
  then have "stops is_ascii_hexdigit u"
    by (auto simp: boundary_def stops_def is_word_char_def char_class_defs)
  then show "lexes (35 # h) TokColor u"
    using take_while_stops [OF assms(2)] assms(1)
    by (simp add: lexes_def lex_kind_def is_whitespace_def at_comment_iff lex_color_def add.assoc)
qed

lemma string_body_quoted:
  "string_body False (concat (map quoted_char t) @ 34 # u) n = (True, u, n + utf8_len (concat (map quoted_char t)) + 1)"
  by (induction t arbitrary: n) (simp_all add: quoted_char_def len_utf8_def)

lemma reads_string: "reads anything (quoted t) [(TokString, quoted t)]"
proof (rule reads_token)
  fix u :: rstr
  have len: "len_utf8 34 = 1" by (simp add: len_utf8_def)
  show "lexes (quoted t) TokString u"
    using string_body_quoted [of t u]
    by (simp add: lexes_def quoted_def lex_kind_def is_whitespace_def at_comment_iff lex_string_def len add.assoc)
qed

definition path_char :: "rchar \<Rightarrow> bool" where
  "path_char c \<longleftrightarrow> \<not> (c = 60 \<or> c = 62 \<or> c = 10 \<or> c = 13)"

lemma reads_path:
  assumes "\<forall>c \<in> set t. path_char c"
  shows "reads anything (60 # t @ [62]) [(TokPath, 60 # t @ [62])]"
proof (rule reads_token)
  fix u :: rstr
  have "\<forall>c \<in> set t. \<not> (c = 60 \<or> c = 62 \<or> c = 10 \<or> c = 13)" "stops (\<lambda>c. \<not> (c = 60 \<or> c = 62 \<or> c = 10 \<or> c = 13)) (62 # u)"
    using assms by (auto simp: path_char_def stops_def)
  from take_while_stops [OF this] show "lexes (60 # t @ [62]) TokPath u"
    by (simp add: lexes_def lex_kind_def is_whitespace_def at_comment_iff lex_path_def eat_def add.assoc)
qed

text \<open>A whole text.\<close>

lemma reads_source:
  assumes "reads boundary t ps"
  shows "list_all2 (spot 0 t) (lex_source t Data) (ps @ [(TokEof, [])])"
proof -
  obtain ts where ts: "fst (lex_tokens (data_lexer 0 t)) = ts @ fst (lex_tokens (data_lexer (utf8_len t) []))"
    "list_all2 (spot 0 t) ts ps"
    using assms [unfolded reads_def, rule_format, of "[]" 0] by auto
  have "spot 0 t \<lparr>token_kind = TokEof, token_span = span_of (utf8_len t) []\<rparr> (TokEof, [])"
    unfolding spot_def by (simp, rule exI [of _ t], simp)
  moreover have "lex_source t Data = ts @ [\<lparr>token_kind = TokEof, token_span = span_of (utf8_len t) []\<rparr>]"
    using ts(1) by (simp add: lex_source_def lex_with_comments_def data_lexer_def lex_tokens_end make_token_def span_of_def)
  ultimately show ?thesis using ts(2) by (simp add: list_all2_appendI)
qed

end
