(* ===== verification/DataSpelling.thy ===== *)
theory DataSpelling
  imports DataPrinter DataTokens
begin

text \<open>
  What the printer of data documents writes. \<open>printable\<close> and \<open>document_ok\<close> say what a tree needs to be
  written and read back; \<open>spells\<close> and \<open>document_spelled\<close> are the pieces of its text, whatever the
  layout: a comma may follow the last entry of a bracket. The printer writes every such document,
  and the lexer reads what it writes as a spelling of it.
\<close>

section \<open>Trees without their spans\<close>

definition no_span :: text_span where
  "no_span = \<lparr>span_start = 0, span_end = 0\<rparr>"

definition unspan :: "'a spanned \<Rightarrow> 'a spanned" where
  "unspan x = Spanned (spanned_value x) no_span"

primrec bare :: "data_value \<Rightarrow> data_value"
  and bare_field :: "data_field \<Rightarrow> data_field" where
  "bare (DInteger i) = DInteger i"
| "bare (DFloat x) = DFloat x"
| "bare (DDuration d) = DDuration d"
| "bare (DDistance m) = DDistance m"
| "bare (DColor c) = DColor c"
| "bare (DString s) = DString s"
| "bare (DPath p) = DPath p"
| "bare (DBool b) = DBool b"
| "bare DNone = DNone"
| "bare (DReference segments) = DReference (map unspan segments)"
| "bare (DVariant n) = DVariant (unspan n)"
| "bare (DRecord ty fs) = DRecord (unspan ty) (unspan (map_spanned (map bare_field) fs))"
| "bare (DNamed ty n fs) = DNamed (unspan ty) (unspan n) (unspan (map_spanned (map bare_field) fs))"
| "bare (DMap fs) = DMap (map bare_field fs)"
| "bare (DList items) = DList (map unspan (map (map_spanned bare) items))"
| "bare (DTuple items) = DTuple (map unspan (map (map_spanned bare) items))"
| "bare DError = DError"
| "bare_field (DataField n v) = DataField (unspan n) (unspan (map_spanned bare v))"

section \<open>Documents that can be printed\<close>

definition name_ok :: "rstr \<Rightarrow> bool" where
  "name_ok t \<longleftrightarrow> is_snake_case t \<and> keyword_of t Data = None"

definition field_name_ok :: "rstr \<Rightarrow> bool" where
  "field_name_ok t \<longleftrightarrow> is_snake_case t \<and> keyword_of t Data \<in> {None, Some KwImport, Some KwFrom}"

definition segment_ok :: "rstr \<Rightarrow> bool" where
  "segment_ok t \<longleftrightarrow> is_word t \<and> keyword_of t Data = None"

definition path_ok :: "rstr \<Rightarrow> bool" where
  "path_ok t \<longleftrightarrow> list_all path_char t"

definition field_ok :: "(data_value \<Rightarrow> bool) \<Rightarrow> data_field \<Rightarrow> bool" where
  "field_ok inner f \<longleftrightarrow> field_name_ok (spanned_value (field_name f)) \<and> inner (spanned_value (field_value f))"

text \<open>
  What a value needs to be read back. \<open>allowed\<close> tells whether it may hold others, which \<open>inner\<close>
  accepts.
\<close>

definition value_ok :: "bool \<Rightarrow> (data_value \<Rightarrow> bool) \<Rightarrow> data_value \<Rightarrow> bool" where
  "value_ok allowed inner v =
     (case v of
        DInteger i \<Rightarrow> in_i64 i
      | DFloat x \<Rightarrow> f32_is_finite x
      | DDuration d \<Rightarrow> valid_duration d
      | DDistance m \<Rightarrow> - (2 ^ 63) < m \<and> m < 2 ^ 63
      | DColor c \<Rightarrow> color_from_bytes (color_to_bytes c) = c
      | DString t \<Rightarrow> plain_text t
      | DPath t \<Rightarrow> path_ok t
      | DBool b \<Rightarrow> True
      | DNone \<Rightarrow> True
      | DReference segments \<Rightarrow>
          (case map spanned_value segments of [] \<Rightarrow> False | s # ss \<Rightarrow> name_ok s \<and> list_all segment_ok ss)
      | DVariant n \<Rightarrow> is_pascal_case (spanned_value n)
      | DRecord ty fs \<Rightarrow> allowed \<and> is_pascal_case (spanned_value ty) \<and> list_all (field_ok inner) (spanned_value fs)
      | DNamed ty n fs \<Rightarrow> allowed \<and> is_pascal_case (spanned_value ty) \<and> name_ok (spanned_value n) \<and>
          list_all (field_ok inner) (spanned_value fs)
      | DMap fs \<Rightarrow> allowed \<and> list_all (field_ok inner) fs
      | DList items \<Rightarrow> allowed \<and> list_all (\<lambda>i. inner (spanned_value i)) items
      | DTuple items \<Rightarrow> allowed \<and> 2 \<le> length items \<and> list_all (\<lambda>i. inner (spanned_value i)) items
      | DError \<Rightarrow> False)"

text \<open>At most \<open>d\<close> levels deep.\<close>

primrec printable :: "nat \<Rightarrow> data_value \<Rightarrow> bool" where
  "printable 0 = value_ok False (\<lambda>_. False)"
| "printable (Suc d) = value_ok True (printable d)"

section \<open>How values are spelled\<close>

definition word_piece :: "rstr \<Rightarrow> piece" where
  "word_piece t = (case keyword_of t Data of Some k \<Rightarrow> TokKeyword k | None \<Rightarrow> TokIdentifier, t)"

abbreviation (input) comma_piece :: piece where "comma_piece \<equiv> (TokComma, [44])"
abbreviation (input) colon_piece :: piece where "colon_piece \<equiv> (TokColon, [58])"
abbreviation (input) dot_piece :: piece where "dot_piece \<equiv> (TokDot, [46])"
abbreviation (input) open_piece :: piece where "open_piece \<equiv> (TokLeftBrace, [123])"
abbreviation (input) close_piece :: piece where "close_piece \<equiv> (TokRightBrace, [125])"

definition signed :: "token_kind \<Rightarrow> rstr \<Rightarrow> piece list" where
  "signed k t = (if t \<noteq> [] \<and> hd t = 45 then [(TokMinus, [45]), (k, tl t)] else [(k, t)])"

text \<open>Entries between commas; a comma may follow the last one.\<close>

inductive commas :: "piece list list \<Rightarrow> piece list \<Rightarrow> bool" where
  none: "commas [] []"
| single: "commas [ps] ps"
| more: "commas pss qs \<Longrightarrow> commas (ps # pss) (ps @ comma_piece # qs)"

definition field_spelled :: "(data_value \<Rightarrow> piece list \<Rightarrow> bool) \<Rightarrow> data_field \<Rightarrow> piece list \<Rightarrow> bool" where
  "field_spelled inner f ps \<longleftrightarrow>
     (\<exists>us. inner (spanned_value (field_value f)) us \<and> ps = word_piece (spanned_value (field_name f)) # colon_piece # us)"

definition fields_spelled :: "(data_value \<Rightarrow> piece list \<Rightarrow> bool) \<Rightarrow> data_field list \<Rightarrow> piece list \<Rightarrow> bool" where
  "fields_spelled inner fs ps \<longleftrightarrow>
     (\<exists>pss qs. list_all2 (field_spelled inner) fs pss \<and> commas pss qs \<and> ps = open_piece # qs @ [close_piece])"

definition items_spelled :: "(data_value \<Rightarrow> piece list \<Rightarrow> bool) \<Rightarrow> data_value spanned list \<Rightarrow> piece list \<Rightarrow> bool" where
  "items_spelled inner items ps \<longleftrightarrow>
     (\<exists>pss. list_all2 (\<lambda>i us. inner (spanned_value i) us) items pss \<and> commas pss ps)"

definition value_spelled :: "float_format \<Rightarrow> (data_value \<Rightarrow> piece list \<Rightarrow> bool) \<Rightarrow> data_value \<Rightarrow> piece list \<Rightarrow> bool" where
  "value_spelled fmt inner v ps =
     (case v of
        DInteger i \<Rightarrow> ps = signed TokInteger (show_int i)
      | DFloat x \<Rightarrow> ps = signed TokFloat (canonical_float fmt x)
      | DDuration d \<Rightarrow> ps = [(TokDuration, canonical_duration d)]
      | DDistance m \<Rightarrow> ps = signed TokDistance (canonical_distance m)
      | DColor c \<Rightarrow> ps = [(TokColor, color_to_hex c)]
      | DString t \<Rightarrow> ps = [(TokString, quoted t)]
      | DPath t \<Rightarrow> ps = [(TokPath, 60 # t @ [62])]
      | DBool b \<Rightarrow> ps = [word_piece (if b then str ''true'' else str ''false'')]
      | DNone \<Rightarrow> ps = [word_piece (str ''none'')]
      | DReference segments \<Rightarrow>
          (case map spanned_value segments of
             [] \<Rightarrow> False
           | s # ss \<Rightarrow> ps = word_piece s # concat (map (\<lambda>t. [dot_piece, word_piece t]) ss))
      | DVariant n \<Rightarrow> ps = [word_piece (spanned_value n)]
      | DRecord ty fs \<Rightarrow> \<exists>qs. fields_spelled inner (spanned_value fs) qs \<and> ps = word_piece (spanned_value ty) # qs
      | DNamed ty n fs \<Rightarrow> \<exists>qs. fields_spelled inner (spanned_value fs) qs \<and>
          ps = word_piece (spanned_value ty) # word_piece (spanned_value n) # qs
      | DMap fs \<Rightarrow> fields_spelled inner fs ps
      | DList items \<Rightarrow> \<exists>qs. items_spelled inner items qs \<and> ps = (TokLeftBracket, [91]) # qs @ [(TokRightBracket, [93])]
      | DTuple items \<Rightarrow> \<exists>qs. items_spelled inner items qs \<and> ps = (TokLeftParen, [40]) # qs @ [(TokRightParen, [41])]
      | DError \<Rightarrow> False)"

primrec spells :: "float_format \<Rightarrow> nat \<Rightarrow> data_value \<Rightarrow> piece list \<Rightarrow> bool" where
  "spells fmt 0 = value_spelled fmt (\<lambda>_ _. False)"
| "spells fmt (Suc d) = value_spelled fmt (spells fmt d)"

section \<open>What is printed is spelled\<close>

lemma snake_word: "is_snake_case t \<Longrightarrow> is_word t"
  by (cases t) (auto simp: is_snake_case_def is_word_def is_word_start_def is_word_char_def list_all_iff char_class_defs)

lemma pascal_word: "is_pascal_case t \<Longrightarrow> is_word t"
  by (cases t) (auto simp: is_pascal_case_def is_word_def is_word_start_def is_word_char_def list_all_iff char_class_defs)

lemma reads_word_piece: "is_word t \<Longrightarrow> reads (stops is_word_char) t [word_piece t]"
  unfolding word_piece_def by (rule reads_token) (rule lexes_word)

lemma reads_weaken: "reads safe t ps \<Longrightarrow> (\<And>u. safe' u \<Longrightarrow> safe u) \<Longrightarrow> reads safe' t ps"
  by (auto simp: reads_def)

lemma reads_word_boundary: "is_word t \<Longrightarrow> reads boundary t [word_piece t]"
  by (rule reads_weaken [OF reads_word_piece]) (simp_all add: boundary_stops)

lemma reads_spaces: "reads anything [32] []" "reads anything [10] []" "reads anything [32, 32] []"
  by (rule reads_space, simp add: is_whitespace_def)+

lemma reads_space_before: "reads safe t ps \<Longrightarrow> reads safe (32 # t) ps" "reads safe t ps \<Longrightarrow> reads safe (10 # t) ps"
  using reads_append [OF reads_spaces(1), of safe t ps] reads_append [OF reads_spaces(2), of safe t ps]
  by (simp_all add: anything_def)

lemma reads_mark_before:
  assumes "reads safe t ps"
  shows "reads safe (123 # t) (open_piece # ps)" "reads safe (125 # t) (close_piece # ps)"
    "reads safe (40 # t) ((TokLeftParen, [40]) # ps)" "reads safe (41 # t) ((TokRightParen, [41]) # ps)"
    "reads safe (91 # t) ((TokLeftBracket, [91]) # ps)" "reads safe (93 # t) ((TokRightBracket, [93]) # ps)"
    "reads safe (58 # t) (colon_piece # ps)" "reads safe (59 # t) ((TokSemicolon, [59]) # ps)"
    "reads safe (44 # t) (comma_piece # ps)"
  using reads_mark [THEN reads_append, OF assms] by (simp_all add: anything_def)

lemmas reads_before = reads_space_before reads_mark_before

lemma reads_then:
  "reads boundary s ps \<Longrightarrow> reads safe (c # t) qs \<Longrightarrow> \<not> is_word_char c \<Longrightarrow> c \<noteq> 46 \<Longrightarrow> reads safe (s @ c # t) (ps @ qs)"
  by (erule reads_append) simp_all

lemma is_number_digits: "is_number (digits n)"
  by (simp add: is_number_def digits_digit)

lemma is_number_fraction_text: "n < 10 ^ w \<Longrightarrow> 0 < w \<Longrightarrow> n \<noteq> 0 \<Longrightarrow> is_number (fraction_text w n)"
  using fraction_text(3,5) [of n w] by (simp add: is_number_def)

lemma decimal_text:
  assumes "f < 10 ^ w" "0 < w"
  shows "is_number (digits n @ (if f = 0 then [] else 46 # fraction_text w f)) \<or>
    is_fraction (digits n @ (if f = 0 then [] else 46 # fraction_text w f))"
  using is_fraction_append [OF is_number_digits is_number_fraction_text [OF assms], of n] is_number_digits by auto

lemma reads_signed:
  assumes "reads boundary number [(k, number)]" "is_number number \<or> is_fraction number \<or> (\<exists>u. number = u @ [109] \<and> (is_number u \<or> is_fraction u))"
    "sign = [] \<or> sign = [45]"
  shows "reads boundary (sign @ number) (signed k (sign @ number))"
proof -
  have h: "number \<noteq> [] \<and> is_ascii_digit (hd number)"
    using assms(2) is_number_head by (metis append_is_Nil_conv hd_append2)
  then have "hd number \<noteq> 45" by (auto simp: is_ascii_digit_def)
  with h assms(1,3) reads_negative [OF assms(1)] show ?thesis by (auto simp: signed_def)
qed

lemma reads_integer: "reads boundary (show_int i) (signed TokInteger (show_int i))"
  using reads_signed [of "digits (nat (- i))" TokInteger "[45]"] reads_signed [of "digits (nat i)" TokInteger "[]"]
  by (auto simp: show_int_def is_number_digits reads_number)

lemma reads_float:
  assumes "float_laws fmt" "f32_is_finite x"
  shows "reads boundary (canonical_float fmt x) (signed TokFloat (canonical_float fmt x))"
proof -
  obtain sign number where t: "canonical_float fmt x = sign @ number" "sign = [] \<or> sign = [45]" "is_fraction number"
    by (rule canonical_float_text [OF assms])
  show ?thesis unfolding t(1) by (rule reads_signed) (use t in \<open>simp_all add: reads_number\<close>)
qed

lemma reads_duration: 
  assumes "valid_duration d"
  shows "reads boundary (canonical_duration d) [(TokDuration, canonical_duration d)]"
  unfolding canonical_duration_body
proof (rule reads_unit)
  have "nanos d = 0 \<longleftrightarrow> unat (nanos d) = 0" by (simp add: unat_eq_0)
  then show "is_number (duration_body d) \<or> is_fraction (duration_body d)"
    using decimal_text [of "unat (nanos d)" 9 "unat (secs d)"] assms by (simp add: duration_body_eq valid_duration_def)
qed

lemma reads_distance: "reads boundary (canonical_distance m) (signed TokDistance (canonical_distance m))"
proof -
  let ?u = "digits (nat \<bar>m\<bar> div 1000000) @ (if nat \<bar>m\<bar> mod 1000000 = 0 then [] else 46 # fraction_text 6 (nat \<bar>m\<bar> mod 1000000))"
  have u: "is_number ?u \<or> is_fraction ?u" by (rule decimal_text) simp_all
  have t: "canonical_distance m = (if m < 0 then [45] else []) @ (?u @ [109])"
    by (simp add: canonical_distance_body distance_body_eq)
  show ?thesis unfolding t by (rule reads_signed) (use u reads_unit [OF u] in auto)
qed

lemma reads_hex_color: "reads boundary (color_to_hex c) [(TokColor, color_to_hex c)]"
  using color_hex_digits [of c] reads_color by auto

lemma segment_head: "is_word t \<Longrightarrow> t \<noteq> [] \<and> hd t \<noteq> 46"
  by (auto simp: is_word_def is_word_start_def char_class_defs)

lemma reads_segments:
  "list_all is_word ss \<Longrightarrow>
   reads (stops is_word_char) (concat (map ((#) 46) ss)) (concat (map (\<lambda>t. [dot_piece, word_piece t]) ss))"
proof (induction ss)
  case (Cons s ss)
  have "stops is_word_char (concat (map ((#) 46) ss) @ u)" if "stops is_word_char u" for u
    using that units_are_word_chars(3) by (cases ss) (simp_all add: stops_def)
  then have "reads (stops is_word_char) (s @ concat (map ((#) 46) ss)) ([word_piece s] @ concat (map (\<lambda>t. [dot_piece, word_piece t]) ss))"
    using Cons by (intro reads_append [OF reads_word_piece]) simp_all
  from reads_append [OF reads_dot this] segment_head [of s] Cons.prems show ?case by simp
qed simp

lemma reads_reference:
  assumes "is_word s" "list_all is_word ss"
  shows "reads boundary (s @ concat (map ((#) 46) ss)) (word_piece s # concat (map (\<lambda>t. [dot_piece, word_piece t]) ss))"
proof -
  have "stops is_word_char (concat (map ((#) 46) ss) @ u)" if "stops is_word_char u" for u
    using that units_are_word_chars(3) by (cases ss) (simp_all add: stops_def)
  from reads_append [OF reads_word_piece [OF assms(1)] reads_segments [OF assms(2)] this]
  have "reads (stops is_word_char) (s @ concat (map ((#) 46) ss)) ([word_piece s] @ concat (map (\<lambda>t. [dot_piece, word_piece t]) ss))" .
  then show ?thesis using reads_weaken boundary_stops(1) by fastforce
qed

text \<open>
  What printing on one line writes: always \<open>t\<close>, unless the limit is passed before its end.
\<close>

definition line_of :: "(nat option \<Rightarrow> rstr \<Rightarrow> (rstr \<times> bool) option) \<Rightarrow> rstr \<Rightarrow> bool" where
  "line_of write t \<longleftrightarrow>
     (\<forall>limit text. \<exists>out ok. write limit text = Some (out, ok) \<and> (limit = None \<longrightarrow> ok) \<and> (ok \<longrightarrow> out = text @ t))"

definition flat_read :: "float_format \<Rightarrow> data_value \<Rightarrow> rstr \<Rightarrow> piece list \<Rightarrow> bool" where
  "flat_read fmt v t ps \<longleftrightarrow> line_of (\<lambda>limit. flat fmt limit v) t \<and> reads boundary t ps"

lemma line_of_eq: "line_of write t \<Longrightarrow> (\<And>limit buf. write' limit buf = write limit buf) \<Longrightarrow> line_of write' t"
  by (simp add: line_of_def)

lemma line_of_plain: "(\<And>limit text. write limit text = Some (text @ t, within limit (text @ t))) \<Longrightarrow> line_of write t"
  by (simp add: line_of_def within_def)

definition leaf_text :: "float_format \<Rightarrow> data_value \<Rightarrow> rstr option" where
  "leaf_text fmt v =
     (case v of
        DInteger i \<Rightarrow> Some (show_int i)
      | DFloat x \<Rightarrow> Some (canonical_float fmt x)
      | DDuration d \<Rightarrow> Some (canonical_duration d)
      | DDistance m \<Rightarrow> Some (canonical_distance m)
      | DColor c \<Rightarrow> Some (color_to_hex c)
      | DString s \<Rightarrow> Some (quoted s)
      | DPath p \<Rightarrow> Some (str ''<'' @ p @ str ''>'')
      | DBool b \<Rightarrow> Some (if b then str ''true'' else str ''false'')
      | DNone \<Rightarrow> Some (str ''none'')
      | DReference segments \<Rightarrow> Some (dotted segments)
      | DVariant n \<Rightarrow> Some (name_text n)
      | _ \<Rightarrow> None)"

lemma flat_leaf: "leaf_text fmt v = Some t \<Longrightarrow> line_of (\<lambda>limit. flat fmt limit v) t"
  by (rule line_of_plain, subst flat.simps) (auto simp: leaf_text_def Let_def split: data_value.splits)

lemma word_constants: "is_word (str ''true'')" "is_word (str ''false'')" "is_word (str ''none'')"
  by code_simp+

lemma leaf_read:
  assumes ok: "value_ok allowed inner v" and laws: "float_laws fmt" and t: "leaf_text fmt v = Some t"
  shows "\<exists>ps. value_spelled fmt spelled v ps \<and> flat_read fmt v t ps"
proof -
  note line = flat_leaf [OF t]
  have words: "list_all is_word ss" if "list_all segment_ok ss" for ss
    using that by (simp add: list_all_iff segment_ok_def)
  show ?thesis
  proof (cases v)
    case (DReference segments)
    obtain s ss where s: "map spanned_value segments = s # ss" "name_ok s" "list_all segment_ok ss"
      using ok DReference by (auto simp: value_ok_def split: list.splits)
    have "reads boundary t (word_piece s # concat (map (\<lambda>t. [dot_piece, word_piece t]) ss))"
      using t s reads_reference [of s ss] words snake_word
      by (simp add: leaf_text_def DReference dotted_def name_ok_def)
    with line show ?thesis by (simp add: flat_read_def value_spelled_def DReference s(1))
  qed (use ok t line laws in \<open>auto simp: leaf_text_def value_ok_def value_spelled_def flat_read_def reads_integer
      reads_float reads_duration reads_distance reads_hex_color path_ok_def list_all_iff pascal_word name_text_def
      reads_word_boundary [OF word_constants(1), simplified] reads_word_boundary [OF word_constants(2), simplified]
      reads_word_boundary [OF word_constants(3), simplified]
      intro: reads_anything [OF reads_string] reads_anything [OF reads_path] reads_word_boundary\<close>)
qed

text \<open>Entries on one line, and one to a line with a comma after each.\<close>

fun continued :: "rstr list \<Rightarrow> rstr" where
  "continued [] = []"
| "continued (t # ts) = str '', '' @ t @ continued ts"

fun joined :: "rstr list \<Rightarrow> rstr" where
  "joined [] = []"
| "joined (t # ts) = t @ continued ts"

definition lines :: "nat \<Rightarrow> rstr list \<Rightarrow> rstr" where
  "lines level ts = concat (map (\<lambda>t. indent level @ t @ str '','' @ [10]) ts)"

lemma reads_entry: "reads boundary t ps \<Longrightarrow> reads anything w qs \<Longrightarrow> reads anything (t @ 44 # w) (ps @ comma_piece # qs)"
  by (erule reads_then) (auto intro: reads_before simp: is_word_char_def char_class_defs)

lemma joined_more: "ts \<noteq> [] \<Longrightarrow> joined (t # ts) = t @ 44 # 32 # joined ts"
  by (cases ts) simp_all

lemma reads_joined:
  "list_all2 (reads boundary) ts pss \<Longrightarrow> \<exists>qs. commas pss qs \<and> reads boundary (joined ts) qs"
proof (induction ts pss rule: list_all2_induct)
  case Nil
  then show ?case by (auto intro: commas.none)
next
  case (Cons t ts ps pss)
  then obtain qs where qs: "commas pss qs" "reads boundary (joined ts) qs" by blast
  show ?case
  proof (cases "ts = []")
    case True
    with Cons have "pss = []" by simp
    with True Cons show ?thesis by (auto intro: commas.single)
  next
    case False
    have "reads boundary (t @ 44 # 32 # joined ts) (ps @ comma_piece # qs)"
      using Cons(1) qs(2) by (intro reads_then reads_before) (simp_all add: is_word_char_def char_class_defs)
    with qs(1) show ?thesis unfolding joined_more [OF False] by (blast intro: commas.more)
  qed
qed

lemma reads_indent: "reads anything (indent level) []"
  by (rule reads_space) (auto simp: indent_def is_whitespace_def)

lemma reads_indented: "reads safe t ps \<Longrightarrow> reads safe (indent level @ t) ps"
  using reads_append [OF reads_indent, of safe t ps] by (simp add: anything_def)

lemma reads_lines:
  "list_all2 (reads boundary) ts pss \<Longrightarrow> \<exists>qs. commas pss qs \<and> reads anything (lines level ts) qs"
proof (induction ts pss rule: list_all2_induct)
  case Nil
  then show ?case by (auto simp: lines_def intro: commas.none)
next
  case (Cons t ts ps pss)
  then obtain qs where qs: "commas pss qs" "reads anything (lines level ts) qs" by blast
  have "reads anything (indent level @ t @ 44 # 10 # lines level ts) (ps @ comma_piece # qs)"
    using Cons(1) qs(2) by (intro reads_indented reads_entry reads_before)
  with qs(1) show ?case by (auto simp: lines_def intro: commas.more)
qed

definition field_text :: "data_field \<Rightarrow> rstr \<Rightarrow> rstr" where
  "field_text f t = name_text (field_name f) @ str '': '' @ t"

lemma field_name_word: "field_name_ok t \<Longrightarrow> is_word t" "name_ok t \<Longrightarrow> is_word t"
  by (simp_all add: field_name_ok_def name_ok_def snake_word)

lemma reads_field:
  assumes "field_name_ok (spanned_value (field_name f))" "reads boundary t ps"
  shows "reads boundary (field_text f t) (word_piece (spanned_value (field_name f)) # colon_piece # ps)"
proof -
  have "reads boundary (58 # 32 # t) (colon_piece # ps)" using assms(2) by (intro reads_before)
  from reads_then [OF reads_word_boundary [OF field_name_word(1) [OF assms(1)]] this] show ?thesis
    by (simp add: field_text_def name_text_def is_word_char_def char_class_defs)
qed

text \<open>Brackets on one line.\<close>

lemma line_of_close:
  assumes "line_of write t"
  shows "line_of (\<lambda>limit buf. do { (text, ok) \<leftarrow> write limit (buf @ a);
      Some (if ok then (text @ b, within limit (text @ b)) else (text, False)) }) (a @ t @ b)"
  unfolding line_of_def
proof (intro allI)
  fix limit buf
  obtain out ok where "write limit (buf @ a) = Some (out, ok)" "limit = None \<longrightarrow> ok" "ok \<longrightarrow> out = buf @ a @ t"
    using assms unfolding line_of_def by (metis append.assoc)
  then show "\<exists>out ok. do { (text, ok) \<leftarrow> write limit (buf @ a);
      Some (if ok then (text @ b, within limit (text @ b)) else (text, False)) } = Some (out, ok) \<and>
      (limit = None \<longrightarrow> ok) \<and> (ok \<longrightarrow> out = buf @ a @ t @ b)"
    by (cases ok) (auto simp: within_def)
qed

lemma line_of_items:
  "list_all2 (\<lambda>i t. line_of (\<lambda>limit. flat fmt limit (spanned_value i)) t) items ts \<Longrightarrow>
   line_of (\<lambda>limit. flat_items fmt limit first items) (if first then joined ts else continued ts)"
proof (induction items ts arbitrary: first rule: list_all2_induct)
  case Nil
  then show ?case by (auto simp: line_of_def)
next
  case (Cons i items t ts)
  show ?case unfolding line_of_def
  proof (intro allI)
    fix limit buf
    let ?buf = "if first then buf else buf @ str '', ''"
    obtain out ok where o: "flat fmt limit (spanned_value i) ?buf = Some (out, ok)" "limit = None \<longrightarrow> ok" "ok \<longrightarrow> out = ?buf @ t"
      using Cons(1) unfolding line_of_def by blast
    obtain out' ok' where o': "flat_items fmt limit False items out = Some (out', ok')" "limit = None \<longrightarrow> ok'"
      "ok' \<longrightarrow> out' = out @ continued ts"
      using Cons(3) [of False] unfolding line_of_def if_False by blast
    show "\<exists>out ok. flat_items fmt limit first (i # items) buf = Some (out, ok) \<and> (limit = None \<longrightarrow> ok) \<and>
        (ok \<longrightarrow> out = buf @ (if first then joined (t # ts) else continued (t # ts)))"
      using o o' by (cases ok) auto
  qed
qed

lemma line_of_fields:
  "list_all2 (\<lambda>f t. line_of (\<lambda>limit. flat fmt limit (spanned_value (field_value f))) t) fs ts \<Longrightarrow>
   line_of (\<lambda>limit. flat_fields fmt limit first fs)
     (let us = map2 field_text fs ts in if first then joined us else continued us)"
proof (induction fs ts arbitrary: first rule: list_all2_induct)
  case Nil
  then show ?case by (auto simp: line_of_def)
next
  case (Cons f fs t ts)
  show ?case unfolding line_of_def
  proof (intro allI)
    fix limit buf
    let ?buf = "(if first then buf else buf @ str '', '') @ name_text (field_name f) @ str '': ''"
    obtain out ok where o: "flat fmt limit (spanned_value (field_value f)) ?buf = Some (out, ok)" "limit = None \<longrightarrow> ok" "ok \<longrightarrow> out = ?buf @ t"
      using Cons(1) unfolding line_of_def by blast
    obtain out' ok' where o': "flat_fields fmt limit False fs out = Some (out', ok')" "limit = None \<longrightarrow> ok'"
      "ok' \<longrightarrow> out' = out @ continued (map2 field_text fs ts)"
      using Cons(3) [of False] unfolding line_of_def Let_def if_False by blast
    show "\<exists>out ok. flat_fields fmt limit first (f # fs) buf = Some (out, ok) \<and> (limit = None \<longrightarrow> ok) \<and>
        (ok \<longrightarrow> out = buf @ (let us = map2 field_text (f # fs) (t # ts) in
           if first then joined us else continued us))"
      using o o' by (cases ok) (auto simp: field_text_def)
  qed
qed

text \<open>The values inside, when each of them is written as it is spelled.\<close>

definition written :: "float_format \<Rightarrow> (data_value \<Rightarrow> bool) \<Rightarrow> (data_value \<Rightarrow> piece list \<Rightarrow> bool) \<Rightarrow> bool" where
  "written fmt inner spelled \<longleftrightarrow> (\<forall>v. inner v \<longrightarrow> (\<exists>t ps. spelled v ps \<and> flat_read fmt v t ps))"

lemma written_items:
  assumes w: "written fmt inner spelled"
  shows "list_all (\<lambda>i. inner (spanned_value i)) items \<Longrightarrow>
    \<exists>ts qs. line_of (\<lambda>limit. flat_items fmt limit True items) (joined ts) \<and> items_spelled spelled items qs \<and>
      reads boundary (joined ts) qs"
proof -
  assume "list_all (\<lambda>i. inner (spanned_value i)) items"
  then have "\<exists>ts pss. list_all2 (\<lambda>i t. line_of (\<lambda>limit. flat fmt limit (spanned_value i)) t) items ts \<and>
      list_all2 (\<lambda>i us. spelled (spanned_value i) us) items pss \<and> list_all2 (reads boundary) ts pss"
  proof (induction items)
    case (Cons i items)
    obtain t ps where t: "spelled (spanned_value i) ps" "flat_read fmt (spanned_value i) t ps"
      using w Cons.prems by (auto simp: written_def)
    with Cons obtain ts pss where "list_all2 (\<lambda>i t. line_of (\<lambda>limit. flat fmt limit (spanned_value i)) t) items ts"
      "list_all2 (\<lambda>i us. spelled (spanned_value i) us) items pss" "list_all2 (reads boundary) ts pss" by auto
    with t show ?case by (intro exI [of _ "t # ts"] exI [of _ "ps # pss"]) (simp add: flat_read_def)
  qed simp
  then obtain ts pss where ts: "list_all2 (\<lambda>i t. line_of (\<lambda>limit. flat fmt limit (spanned_value i)) t) items ts"
    "list_all2 (\<lambda>i us. spelled (spanned_value i) us) items pss" "list_all2 (reads boundary) ts pss" by blast
  from line_of_items [OF ts(1), of True] reads_joined [OF ts(3)] ts(2) show ?thesis
    by (auto simp: items_spelled_def)
qed

lemma written_fields:
  assumes w: "written fmt inner spelled"
  shows "list_all (field_ok inner) fs \<Longrightarrow>
    \<exists>t ps. line_of (\<lambda>limit. flat_fields fmt limit True fs) t \<and>
      (\<exists>pss. list_all2 (field_spelled spelled) fs pss \<and> commas pss ps) \<and> reads boundary t ps"
proof -
  assume "list_all (field_ok inner) fs"
  then have "\<exists>ts pss. list_all2 (\<lambda>f t. line_of (\<lambda>limit. flat fmt limit (spanned_value (field_value f))) t) fs ts \<and>
      list_all2 (field_spelled spelled) fs pss \<and> list_all2 (reads boundary) (map2 field_text fs ts) pss"
  proof (induction fs)
    case (Cons f fs)
    obtain t ps where t: "spelled (spanned_value (field_value f)) ps" "flat_read fmt (spanned_value (field_value f)) t ps"
      using w Cons.prems by (auto simp: written_def field_ok_def)
    from Cons obtain ts pss where "list_all2 (\<lambda>f t. line_of (\<lambda>limit. flat fmt limit (spanned_value (field_value f))) t) fs ts"
      "list_all2 (field_spelled spelled) fs pss" "list_all2 (reads boundary) (map2 field_text fs ts) pss" by auto
    moreover have "field_spelled spelled f (word_piece (spanned_value (field_name f)) # colon_piece # ps)"
      using t(1) by (simp add: field_spelled_def)
    moreover have "field_name_ok (spanned_value (field_name f))" using Cons.prems by (simp add: field_ok_def)
    ultimately show ?case using t reads_field [of f t ps]
      by (intro exI [of _ "t # ts"] exI [of _ "(word_piece (spanned_value (field_name f)) # colon_piece # ps) # pss"])
        (simp add: flat_read_def)
  qed simp
  then obtain ts pss where ts: "list_all2 (\<lambda>f t. line_of (\<lambda>limit. flat fmt limit (spanned_value (field_value f))) t) fs ts"
    "list_all2 (field_spelled spelled) fs pss" "list_all2 (reads boundary) (map2 field_text fs ts) pss" by blast
  from line_of_fields [OF ts(1), of True] reads_joined [OF ts(3)] ts(2) show ?thesis by (auto simp: Let_def)
qed

lemma boundary_marks: "\<not> is_word_char c" "c \<noteq> 46" if "c \<in> {32, 10, 44, 58, 59, 123, 125, 40, 41, 91, 93}"
  using that by (auto simp: is_word_char_def char_class_defs)

lemma reads_closed:
  assumes "reads boundary t ps"
  shows "reads anything (t @ 32 # 125 # []) (ps @ [close_piece])" "reads anything (t @ 125 # []) (ps @ [close_piece])"
    "reads anything (t @ 93 # []) (ps @ [(TokRightBracket, [93])])" "reads anything (t @ 41 # []) (ps @ [(TokRightParen, [41])])"
  by (rule reads_then [OF assms], intro reads_before reads_Nil, simp_all add: boundary_marks)+

lemma reads_braces:
  assumes "list_all2 (field_spelled spelled) fs pss" "commas pss ps" "reads boundary t ps"
  shows "\<exists>qs. fields_spelled spelled fs qs \<and> reads anything (str ''{ '' @ t @ str '' }'') qs"
proof -
  have "reads anything (123 # 32 # t @ 32 # 125 # []) (open_piece # ps @ [close_piece])"
    using reads_closed(1) [OF assms(3)] by (intro reads_before)
  with assms(1,2) show ?thesis by (auto simp: fields_spelled_def)
qed

lemma reads_record:
  assumes "is_pascal_case ty" "reads anything (123 # t) qs"
  shows "reads anything (ty @ 32 # 123 # t) (word_piece ty # qs)"
  using reads_then [OF reads_word_boundary [OF pascal_word [OF assms(1)]], of anything 32 "123 # t" qs] assms(2)
  by (simp add: boundary_marks reads_before)

lemma reads_named:
  assumes "is_pascal_case ty" "name_ok n" "reads anything (123 # t) qs"
  shows "reads anything (ty @ 32 # n @ 32 # 123 # t) (word_piece ty # word_piece n # qs)"
proof -
  have "reads anything (n @ 32 # 123 # t) (word_piece n # qs)"
    using reads_then [OF reads_word_boundary [OF field_name_word(2) [OF assms(2)]], of anything 32 "123 # t" qs] assms(3)
    by (simp add: boundary_marks reads_before)
  then show ?thesis
    using reads_then [OF reads_word_boundary [OF pascal_word [OF assms(1)]], of anything 32 "n @ 32 # 123 # t" "word_piece n # qs"]
    by (simp add: boundary_marks reads_before)
qed

lemma flat_value:
  assumes ok: "value_ok allowed inner v" and laws: "float_laws fmt" and w: "written fmt inner spelled"
  shows "\<exists>t ps. value_spelled fmt spelled v ps \<and> flat_read fmt v t ps"
proof (cases "leaf_text fmt v")
  case (Some t)
  then show ?thesis using leaf_read [OF ok laws] by blast
next
  case None
  show ?thesis
  proof (cases v)
    case (DRecord ty fs)
    have ty: "is_pascal_case (spanned_value ty)" and "list_all (field_ok inner) (spanned_value fs)"
      using ok by (simp_all add: value_ok_def DRecord)
    then obtain t ps pss where t: "line_of (\<lambda>limit. flat_fields fmt limit True (spanned_value fs)) t"
      "list_all2 (field_spelled spelled) (spanned_value fs) pss" "commas pss ps" "reads boundary t ps"
      using written_fields [OF w] by blast
    show ?thesis
    proof (cases "spanned_value fs = []")
      case True
      have "line_of (\<lambda>limit. flat fmt limit v) (name_text ty @ str '' {}'')"
        by (rule line_of_plain, subst flat.simps) (simp add: DRecord True Let_def)
      moreover have "reads anything (spanned_value ty @ 32 # 123 # 125 # []) (word_piece (spanned_value ty) # [open_piece, close_piece])"
        by (intro reads_record ty reads_before reads_Nil)
      moreover have "value_spelled fmt spelled v (word_piece (spanned_value ty) # [open_piece, close_piece])"
        by (auto simp: value_spelled_def DRecord True fields_spelled_def intro: commas.none)
      ultimately show ?thesis by (auto simp: flat_read_def name_text_def intro: reads_anything)
    next
      case False
      obtain qs where qs: "fields_spelled spelled (spanned_value fs) qs" "reads anything (str ''{ '' @ t @ str '' }'') qs"
        using reads_braces [OF t(2-4)] by blast
      have "line_of (\<lambda>limit. flat fmt limit v) ((name_text ty @ str '' { '') @ t @ str '' }'')"
        by (rule line_of_eq [OF line_of_close [OF t(1), of "name_text ty @ str '' { ''" "str '' }''"]], subst flat.simps) (simp add: DRecord False Let_def del: str_simps)
      moreover have "reads anything (spanned_value ty @ 32 # 123 # 32 # t @ str '' }'') (word_piece (spanned_value ty) # qs)"
        using qs(2) by (intro reads_record ty) simp
      ultimately show ?thesis using qs(1)
        by (intro exI) (auto simp: flat_read_def name_text_def value_spelled_def DRecord intro: reads_anything)
    qed
  next
    case (DNamed ty n fs)
    have ty: "is_pascal_case (spanned_value ty)" "name_ok (spanned_value n)" and "list_all (field_ok inner) (spanned_value fs)"
      using ok by (simp_all add: value_ok_def DNamed)
    then obtain t ps pss where t: "line_of (\<lambda>limit. flat_fields fmt limit True (spanned_value fs)) t"
      "list_all2 (field_spelled spelled) (spanned_value fs) pss" "commas pss ps" "reads boundary t ps"
      using written_fields [OF w] by blast
    obtain qs where qs: "fields_spelled spelled (spanned_value fs) qs" "reads anything (str ''{ '' @ t @ str '' }'') qs"
      using reads_braces [OF t(2-4)] by blast
    have "line_of (\<lambda>limit. flat fmt limit v) ((name_text ty @ str '' '' @ name_text n @ str '' { '') @ t @ str '' }'')"
      by (rule line_of_eq [OF line_of_close [OF t(1), of "name_text ty @ str '' '' @ name_text n @ str '' { ''" "str '' }''"]], subst flat.simps) (simp add: DNamed Let_def del: str_simps)
    moreover have "reads anything (spanned_value ty @ 32 # spanned_value n @ 32 # 123 # 32 # t @ str '' }'')
        (word_piece (spanned_value ty) # word_piece (spanned_value n) # qs)"
      using qs(2) by (intro reads_named ty) simp
    ultimately show ?thesis using qs(1)
      by (intro exI) (auto simp: flat_read_def name_text_def value_spelled_def DNamed intro: reads_anything)
  next
    case (DMap fs)
    have "list_all (field_ok inner) fs" using ok by (simp add: value_ok_def DMap)
    then obtain t ps pss where t: "line_of (\<lambda>limit. flat_fields fmt limit True fs) t"
      "list_all2 (field_spelled spelled) fs pss" "commas pss ps" "reads boundary t ps"
      using written_fields [OF w] by blast
    show ?thesis
    proof (cases "fs = []")
      case True
      have "line_of (\<lambda>limit. flat fmt limit v) (str ''{}'')"
        by (rule line_of_plain, subst flat.simps) (simp add: DMap True Let_def)
      moreover have "reads anything (123 # 125 # []) [open_piece, close_piece]" by (intro reads_before reads_Nil)
      moreover have "value_spelled fmt spelled v [open_piece, close_piece]"
        by (auto simp: value_spelled_def DMap True fields_spelled_def intro: commas.none)
      ultimately show ?thesis by (auto simp: flat_read_def intro: reads_anything)
    next
      case False
      obtain qs where qs: "fields_spelled spelled fs qs" "reads anything (str ''{ '' @ t @ str '' }'') qs"
        using reads_braces [OF t(2-4)] by blast
      have "line_of (\<lambda>limit. flat fmt limit v) (str ''{ '' @ t @ str '' }'')"
        by (rule line_of_eq [OF line_of_close [OF t(1), of "str ''{ ''" "str '' }''"]], subst flat.simps) (simp add: DMap False Let_def del: str_simps)
      with qs show ?thesis by (intro exI) (auto simp: flat_read_def value_spelled_def DMap intro: reads_anything)
    qed
  next
    case (DList items)
    have "list_all (\<lambda>i. inner (spanned_value i)) items" using ok by (simp add: value_ok_def DList)
    then obtain ts qs where t: "line_of (\<lambda>limit. flat_items fmt limit True items) (joined ts)"
      "items_spelled spelled items qs" "reads boundary (joined ts) qs" using written_items [OF w] by blast
    have "line_of (\<lambda>limit. flat fmt limit v) (str ''['' @ joined ts @ str '']'')"
      by (rule line_of_eq [OF line_of_close [OF t(1), of "str ''[''" "str '']''"]], subst flat.simps) (simp add: DList Let_def del: str_simps)
    moreover have "reads anything (91 # joined ts @ 93 # []) ((TokLeftBracket, [91]) # qs @ [(TokRightBracket, [93])])"
      using reads_closed(3) [OF t(3)] by (intro reads_before)
    ultimately show ?thesis using t(2) by (intro exI) (auto simp: flat_read_def value_spelled_def DList intro: reads_anything)
  next
    case (DTuple items)
    have "list_all (\<lambda>i. inner (spanned_value i)) items" using ok by (simp add: value_ok_def DTuple)
    then obtain ts qs where t: "line_of (\<lambda>limit. flat_items fmt limit True items) (joined ts)"
      "items_spelled spelled items qs" "reads boundary (joined ts) qs" using written_items [OF w] by blast
    have "line_of (\<lambda>limit. flat fmt limit v) (str ''('' @ joined ts @ str '')'')"
      by (rule line_of_eq [OF line_of_close [OF t(1), of "str ''(''" "str '')''"]], subst flat.simps) (simp add: DTuple Let_def del: str_simps)
    moreover have "reads anything (40 # joined ts @ 41 # []) ((TokLeftParen, [40]) # qs @ [(TokRightParen, [41])])"
      using reads_closed(4) [OF t(3)] by (intro reads_before)
    ultimately show ?thesis using t(2) by (intro exI) (auto simp: flat_read_def value_spelled_def DTuple intro: reads_anything)
  qed (use ok None in \<open>simp_all add: leaf_text_def value_ok_def\<close>)
qed

lemma flat_printable: "float_laws fmt \<Longrightarrow> written fmt (printable d) (spells fmt d)"
  unfolding written_def
proof (induction d)
  case 0
  then show ?case using flat_value [of False "\<lambda>_. False"] by (simp add: written_def)
next
  case (Suc d)
  then show ?case using flat_value [of True "printable d"] by (simp add: written_def)
qed

text \<open>Values that may take several lines.\<close>

definition rendered :: "float_format \<Rightarrow> (data_value \<Rightarrow> bool) \<Rightarrow> (data_value \<Rightarrow> piece list \<Rightarrow> bool) \<Rightarrow> bool" where
  "rendered fmt inner spelled \<longleftrightarrow>
     (\<forall>v level start suffix buf. inner v \<longrightarrow>
        (\<exists>t ps. spelled v ps \<and> reads boundary t ps \<and> render fmt v level start suffix buf = Some (buf @ t)))"

lemma rendered_fields:
  assumes r: "rendered fmt inner spelled"
  shows "list_all (field_ok inner) fs \<Longrightarrow>
    \<exists>us pss. field_lines fmt fs level buf = Some (buf @ lines level us) \<and>
      list_all2 (reads boundary) us pss \<and> list_all2 (field_spelled spelled) fs pss"
proof (induction fs arbitrary: buf)
  case Nil
  then show ?case by (intro exI [of _ "[]"]) (simp add: lines_def)
next
  case (Cons f fs)
  let ?v = "spanned_value (field_value f)" and ?line = "buf @ indent level @ name_text (field_name f) @ str '': ''"
  have f: "field_name_ok (spanned_value (field_name f))" "inner ?v" using Cons.prems by (simp_all add: field_ok_def)
  have fs: "list_all (field_ok inner) fs" using Cons.prems by simp
  obtain t ps where t: "spelled ?v ps" "reads boundary t ps"
    "render fmt ?v level (utf8_len ?line - utf8_len buf) 1 ?line = Some (?line @ t)"
    using r f(2) unfolding rendered_def by blast
  have line: "field_line fmt f level buf = Some (buf @ indent level @ field_text f t @ str '','' @ [10])"
    using t(3) by (subst field_line.simps) (simp only: Let_def, simp add: field_text_def)
  obtain us pss where us: "field_lines fmt fs level (buf @ indent level @ field_text f t @ str '','' @ [10]) =
      Some ((buf @ indent level @ field_text f t @ str '','' @ [10]) @ lines level us)"
    "list_all2 (reads boundary) us pss" "list_all2 (field_spelled spelled) fs pss"
    using Cons.IH [OF fs] by blast
  have "field_lines fmt (f # fs) level buf = Some (buf @ lines level (field_text f t # us))"
    using line us(1) by (simp add: lines_def)
  moreover have "field_spelled spelled f (word_piece (spanned_value (field_name f)) # colon_piece # ps)"
    using t(1) by (simp add: field_spelled_def)
  ultimately show ?case using us(2,3) reads_field [OF f(1) t(2)] by (blast intro: list.rel_intros)
qed

lemma rendered_items:
  assumes r: "rendered fmt inner spelled"
  shows "list_all (\<lambda>i. inner (spanned_value i)) items \<Longrightarrow>
    \<exists>us pss. list_items_into fmt items level buf = Some (buf @ lines level us) \<and>
      list_all2 (reads boundary) us pss \<and> list_all2 (\<lambda>i. spelled (spanned_value i)) items pss"
proof (induction items arbitrary: buf)
  case Nil
  then show ?case by (intro exI [of _ "[]"]) (simp add: lines_def)
next
  case (Cons i items)
  let ?v = "spanned_value i"
  have i: "inner ?v" "list_all (\<lambda>i. inner (spanned_value i)) items" using Cons.prems by simp_all
  obtain t ps where t: "spelled ?v ps" "reads boundary t ps"
    "render fmt ?v level (2 * level) 1 (buf @ indent level) = Some ((buf @ indent level) @ t)"
    using r i(1) unfolding rendered_def by blast
  have line: "list_item_into fmt ?v level buf = Some (buf @ indent level @ t @ str '','' @ [10])"
    using t(3) by (subst list_item_into.simps) simp
  obtain us pss where us: "list_items_into fmt items level (buf @ indent level @ t @ str '','' @ [10]) =
      Some ((buf @ indent level @ t @ str '','' @ [10]) @ lines level us)"
    "list_all2 (reads boundary) us pss" "list_all2 (\<lambda>i. spelled (spanned_value i)) items pss"
    using Cons.IH [OF i(2)] by blast
  have "list_items_into fmt (i # items) level buf = Some (buf @ lines level (t # us))"
    using line us(1) by (simp add: lines_def)
  with us(2,3) t(1,2) show ?case by (blast intro: list.rel_intros)
qed

text \<open>Dense lists: the line so far ends with a comma, or is empty.\<close>

lemma commas_trailing: "commas pss (concat (map (\<lambda>ps. ps @ [comma_piece]) pss))"
  by (induction pss) (auto intro: commas.none commas.more)

lemma dense_lines_read:
  assumes w: "written fmt inner spelled"
  shows "list_all (\<lambda>i. inner (spanned_value i)) items \<Longrightarrow> reads anything line qs \<Longrightarrow>
    \<exists>t pss. dense_lines fmt level items line buf = Some (buf @ t) \<and>
      list_all2 (\<lambda>i. spelled (spanned_value i)) items pss \<and>
      reads anything t (qs @ concat (map (\<lambda>ps. ps @ [comma_piece]) pss))"
proof (induction items arbitrary: line qs buf)
  case Nil
  have "reads anything (indent (level + 1) @ line @ 10 # []) (qs @ [])"
    by (intro reads_indented reads_append [OF Nil(2)] reads_before reads_Nil) (simp add: anything_def)
  moreover have "line = [] \<Longrightarrow> reads anything [] qs" using Nil(2) by simp
  ultimately show ?case by (cases "line = []") simp_all
next
  case (Cons i items)
  obtain t ps where t: "spelled (spanned_value i) ps" "flat_read fmt (spanned_value i) t ps"
    using w Cons.prems(1) by (auto simp: written_def)
  obtain out ok where o: "flat fmt None (spanned_value i) [] = Some (out, ok)" "ok" "out = [] @ t"
    using t(2) unfolding flat_read_def line_of_def by blast
  let ?item = "t @ str '',''"
  have item: "reads anything ?item (ps @ [comma_piece])"
    using reads_entry [of t ps "[]" "[]"] t(2) by (simp add: flat_read_def)
  define full where "full \<longleftrightarrow> line \<noteq> [] \<and> 2 * (level + 1) + utf8_len line + 1 + utf8_len ?item > LINE_WIDTH"
  define before where "before = (if full then indent (level + 1) @ line @ [10] else [])"
  define line' where "line' = (let line = if full then [] else line in (if line \<noteq> [] then line @ str '' '' else line) @ ?item)"
  have step: "dense_lines fmt level (i # items) line buf = dense_lines fmt level items line' (buf @ before)"
    using o by (simp add: before_def line'_def full_def Let_def)
  have items: "list_all (\<lambda>i. inner (spanned_value i)) items" using Cons.prems(1) by simp
  have all: "reads anything u us \<Longrightarrow> reads anything v vs \<Longrightarrow> reads anything (u @ v) (us @ vs)" for u v us vs
    by (erule reads_append) (simp_all add: anything_def)
  show ?case
  proof (cases full)
    case True
    then have "line' = ?item" by (simp add: line'_def)
    with Cons.IH [OF items, of line' "ps @ [comma_piece]" "buf @ before"] item obtain v pss where v:
      "dense_lines fmt level items line' (buf @ before) = Some ((buf @ before) @ v)"
      "list_all2 (\<lambda>i. spelled (spanned_value i)) items pss"
      "reads anything v ((ps @ [comma_piece]) @ concat (map (\<lambda>ps. ps @ [comma_piece]) pss))" by blast
    have "reads anything (indent (level + 1) @ line @ 10 # []) (qs @ [])"
      by (intro reads_indented all Cons.prems(2) reads_before reads_Nil)
    then have "reads anything before (qs @ [])" using True by (simp add: before_def)
    from all [OF this v(3)] step v(1,2) t(1) show ?thesis
      by (intro exI [of _ "before @ v"] exI [of _ "ps # pss"]) simp
  next
    case False
    have "reads anything line' (qs @ ps @ [comma_piece])"
    proof (cases "line = []")
      case True
      then have "qs @ ps @ [comma_piece] = qs @ ps @ [comma_piece]" "line' = [] @ ?item" by (simp_all add: line'_def)
      then show ?thesis using all [of "[]" qs, OF _ item] Cons.prems(2) True by simp
    next
      case l: False
      then have "line' = line @ 32 # ?item" using False by (simp add: line'_def)
      then show ?thesis using all [OF Cons.prems(2) reads_space_before(1) [OF item]] by simp
    qed
    with Cons.IH [OF items, of line' "qs @ ps @ [comma_piece]" "buf @ before"] obtain v pss where v:
      "dense_lines fmt level items line' (buf @ before) = Some ((buf @ before) @ v)"
      "list_all2 (\<lambda>i. spelled (spanned_value i)) items pss"
      "reads anything v ((qs @ ps @ [comma_piece]) @ concat (map (\<lambda>ps. ps @ [comma_piece]) pss))" by blast
    moreover have "before = []" using False by (simp add: before_def)
    ultimately show ?thesis using step t(1) by (intro exI [of _ v] exI [of _ "ps # pss"]) simp
  qed
qed

lemma reads_all: "reads anything u us \<Longrightarrow> reads anything v vs \<Longrightarrow> reads anything (u @ v) (us @ vs)"
  by (erule reads_append) (simp_all add: anything_def)

lemma expanded_fields_read:
  assumes r: "rendered fmt inner spelled" and fs: "list_all (field_ok inner) fs"
  shows "\<exists>t qs. closing level (str ''}'') (field_lines fmt fs (level + 1) (buf @ str ''{'' @ [10])) = Some (buf @ 123 # t) \<and>
    fields_spelled spelled fs qs \<and> reads anything (123 # t) qs"
proof -
  obtain us pss where us: "field_lines fmt fs (level + 1) (buf @ str ''{'' @ [10]) = Some ((buf @ str ''{'' @ [10]) @ lines (level + 1) us)"
    "list_all2 (reads boundary) us pss" "list_all2 (field_spelled spelled) fs pss"
    using rendered_fields [OF r fs] by blast
  obtain qs where qs: "commas pss qs" "reads anything (lines (level + 1) us) qs" using reads_lines [OF us(2)] by blast
  let ?t = "10 # lines (level + 1) us @ indent level @ 125 # []"
  have "reads anything (123 # ?t) (open_piece # qs @ [close_piece])"
    by (intro reads_before reads_all qs(2) reads_indented reads_Nil)
  moreover have "fields_spelled spelled fs (open_piece # qs @ [close_piece])"
    using us(3) qs(1) by (auto simp: fields_spelled_def)
  moreover have "closing level (str ''}'') (field_lines fmt fs (level + 1) (buf @ str ''{'' @ [10])) = Some (buf @ 123 # ?t)"
    by (simp add: closing_def us(1) [simplified])
  ultimately show ?thesis by blast
qed

lemma expanded_items_read:
  assumes r: "rendered fmt inner spelled" and w: "written fmt inner spelled"
    and items: "list_all (\<lambda>i. inner (spanned_value i)) items"
    and entries: "entries = list_items_into fmt items (level + 1) buf \<or> entries = dense_lines fmt level items [] buf"
  shows "\<exists>t qs. entries = Some (buf @ t) \<and> items_spelled spelled items qs \<and> reads anything t qs"
  using entries
proof
  assume e: "entries = list_items_into fmt items (level + 1) buf"
  obtain us pss where us: "list_items_into fmt items (level + 1) buf = Some (buf @ lines (level + 1) us)"
    "list_all2 (reads boundary) us pss" "list_all2 (\<lambda>i. spelled (spanned_value i)) items pss"
    using rendered_items [OF r items] by blast
  obtain qs where "commas pss qs" "reads anything (lines (level + 1) us) qs" using reads_lines [OF us(2)] by blast
  with e us show ?thesis by (auto simp: items_spelled_def)
next
  assume e: "entries = dense_lines fmt level items [] buf"
  obtain t pss where t: "dense_lines fmt level items [] buf = Some (buf @ t)"
    "list_all2 (\<lambda>i. spelled (spanned_value i)) items pss"
    "reads anything t ([] @ concat (map (\<lambda>ps. ps @ [comma_piece]) pss))"
    using dense_lines_read [OF w items reads_Nil] by blast
  with e commas_trailing [of pss] show ?thesis by (auto simp: items_spelled_def)
qed

lemma expanded_list_read:
  assumes r: "rendered fmt inner spelled" and w: "written fmt inner spelled"
    and items: "list_all (\<lambda>i. inner (spanned_value i)) items"
    and entries: "entries = list_items_into fmt items (level + 1) (buf @ [a, 10]) \<or> entries = dense_lines fmt level items [] (buf @ [a, 10])"
    and marks: "(a, ka, b, kb) \<in> {(91, TokLeftBracket, 93, TokRightBracket), (40, TokLeftParen, 41, TokRightParen)}"
  shows "\<exists>t qs. closing level [b] entries = Some (buf @ t) \<and> items_spelled spelled items qs \<and>
    reads anything t ((ka, [a]) # qs @ [(kb, [b])])"
proof -
  obtain t qs where t: "entries = Some ((buf @ [a, 10]) @ t)" "items_spelled spelled items qs" "reads anything t qs"
    using expanded_items_read [OF r w items entries] by blast
  have "reads anything (a # 10 # t @ indent level @ b # []) ((ka, [a]) # qs @ [(kb, [b])])"
    using marks by (auto intro!: reads_before reads_all t(3) reads_indented reads_mark)
  with t(1,2) show ?thesis by (auto simp: closing_def)
qed

lemma render_value:
  assumes ok: "value_ok allowed inner v" and laws: "float_laws fmt" and w: "written fmt inner spelled"
    and r: "rendered fmt inner spelled"
  shows "\<exists>t ps. value_spelled fmt spelled v ps \<and> reads boundary t ps \<and> render fmt v level start suffix buf = Some (buf @ t)"
proof -
  obtain t ps where t: "value_spelled fmt spelled v ps" "flat_read fmt v t ps" using flat_value [OF ok laws w] by blast
  note render = render.simps [of fmt v level start suffix buf]
  show ?thesis
  proof (cases "expandable v")
    case False
    obtain out where "flat fmt None v buf = Some (out, True)" "out = buf @ t"
      using t(2) unfolding flat_read_def line_of_def by (metis (full_types))
    then have "render fmt v level start suffix buf = Some (buf @ t)" using False by (simp add: render)
    with t show ?thesis by (auto simp: flat_read_def)
  next
    case True
    let ?limit = "utf8_len buf + (LINE_WIDTH - (start + suffix))"
    obtain out fits where o: "flat fmt (Some ?limit) v buf = Some (out, fits)" "fits \<longrightarrow> out = buf @ t"
      using t(2) unfolding flat_read_def line_of_def by blast
    show ?thesis
    proof (cases fits)
      case True
      then have "render fmt v level start suffix buf = Some (buf @ t)" using \<open>expandable v\<close> o by (simp add: render)
      with t show ?thesis by (auto simp: flat_read_def)
    next
      case False
      note render = render [unfolded o(1)]
      show ?thesis
      proof (cases v)
        case (DRecord ty fs)
        then have v: "is_pascal_case (spanned_value ty)" "list_all (field_ok inner) (spanned_value fs)"
          using ok by (simp_all add: value_ok_def)
        obtain u qs where u: "closing level (str ''}'') (field_lines fmt (spanned_value fs) (level + 1) ((buf @ name_text ty @ [32]) @ str ''{'' @ [10])) =
            Some ((buf @ name_text ty @ [32]) @ 123 # u)" "fields_spelled spelled (spanned_value fs) qs" "reads anything (123 # u) qs"
          using expanded_fields_read [OF r v(2)] by blast
        have "render fmt v level start suffix buf = Some (buf @ name_text ty @ 32 # 123 # u)"
          using u(1) \<open>expandable v\<close> False by (subst render) (simp add: DRecord)
        with reads_record [OF v(1) u(3)] u(2) show ?thesis
          by (intro exI) (auto simp: value_spelled_def DRecord name_text_def intro: reads_anything)
      next
        case (DNamed ty n fs)
        then have v: "is_pascal_case (spanned_value ty)" "name_ok (spanned_value n)" "list_all (field_ok inner) (spanned_value fs)"
          using ok by (simp_all add: value_ok_def)
        obtain u qs where u: "closing level (str ''}'') (field_lines fmt (spanned_value fs) (level + 1)
              ((buf @ name_text ty @ [32] @ name_text n @ [32]) @ str ''{'' @ [10])) =
            Some ((buf @ name_text ty @ [32] @ name_text n @ [32]) @ 123 # u)" "fields_spelled spelled (spanned_value fs) qs" "reads anything (123 # u) qs"
          using expanded_fields_read [OF r v(3)] by blast
        have "render fmt v level start suffix buf = Some (buf @ name_text ty @ 32 # name_text n @ 32 # 123 # u)"
          using u(1) \<open>expandable v\<close> False by (subst render) (simp add: DNamed)
        with reads_named [OF v(1,2) u(3)] u(2) show ?thesis
          by (intro exI) (auto simp: value_spelled_def DNamed name_text_def intro: reads_anything)
      next
        case (DMap fs)
        then have v: "list_all (field_ok inner) fs" using ok by (simp add: value_ok_def)
        obtain u qs where u: "closing level (str ''}'') (field_lines fmt fs (level + 1) (buf @ str ''{'' @ [10])) = Some (buf @ 123 # u)"
          "fields_spelled spelled fs qs" "reads anything (123 # u) qs"
          using expanded_fields_read [OF r v] by blast
        have "render fmt v level start suffix buf = Some (buf @ 123 # u)"
          using u(1) \<open>expandable v\<close> False by (subst render) (simp add: DMap)
        with u(2,3) show ?thesis by (intro exI) (auto simp: value_spelled_def DMap intro: reads_anything)
      next
        case (DList items)
        then have v: "list_all (\<lambda>i. inner (spanned_value i)) items" using ok by (simp add: value_ok_def)
        define entries where "entries = (if list_all (\<lambda>item. dense (spanned_value item)) items
          then dense_lines fmt level items [] (buf @ [91, 10]) else list_items_into fmt items (level + 1) (buf @ [91, 10]))"
        have "entries = list_items_into fmt items (level + 1) (buf @ [91, 10]) \<or> entries = dense_lines fmt level items [] (buf @ [91, 10])"
          by (auto simp: entries_def)
        then obtain u qs where u: "closing level [93] entries = Some (buf @ u)" "items_spelled spelled items qs"
          "reads anything u ((TokLeftBracket, [91]) # qs @ [(TokRightBracket, [93])])"
          using expanded_list_read [OF r w v, of entries level buf 91 TokLeftBracket 93 TokRightBracket] by blast
        have "render fmt v level start suffix buf = Some (buf @ u)"
          using u(1) \<open>expandable v\<close> False by (subst render) (simp add: DList entries_def split: if_splits)
        with u(2,3) show ?thesis by (intro exI) (auto simp: value_spelled_def DList intro: reads_anything)
      next
        case (DTuple items)
        then have v: "list_all (\<lambda>i. inner (spanned_value i)) items" using ok by (simp add: value_ok_def)
        obtain u qs where u: "closing level [41] (list_items_into fmt items (level + 1) (buf @ [40, 10])) = Some (buf @ u)"
          "items_spelled spelled items qs" "reads anything u ((TokLeftParen, [40]) # qs @ [(TokRightParen, [41])])"
          using expanded_list_read [OF r w v disjI1 [OF refl], where a = 40 and ka = TokLeftParen and b = 41 and kb = TokRightParen] by blast
        have "render fmt v level start suffix buf = Some (buf @ u)"
          using u(1) \<open>expandable v\<close> False by (subst render) (simp add: DTuple)
        with u(2,3) show ?thesis by (intro exI) (auto simp: value_spelled_def DTuple intro: reads_anything)
      qed (use True in \<open>simp_all add: expandable_def\<close>)
    qed
  qed
qed

lemma render_printable: "float_laws fmt \<Longrightarrow> rendered fmt (printable d) (spells fmt d)"
proof (induction d)
  case 0
  have "written fmt (\<lambda>_. False) (\<lambda>_ _. False)" "rendered fmt (\<lambda>_. False) (\<lambda>_ _. False)"
    by (simp_all add: written_def rendered_def)
  from render_value [OF _ 0 this] show ?case by (simp add: rendered_def)
next
  case (Suc d)
  from render_value [OF _ Suc.prems flat_printable [OF Suc.prems] Suc.IH [OF Suc.prems]]
  show ?case by (simp add: rendered_def)
qed

section \<open>Documents\<close>

definition import_ok :: "data_import \<Rightarrow> bool" where
  "import_ok i \<longleftrightarrow> name_ok (spanned_value (import_alias i)) \<and> import_paths i \<noteq> [] \<and>
     list_all (\<lambda>p. path_ok (spanned_value p)) (import_paths i)"

definition declaration_ok :: "nat \<Rightarrow> data_declaration \<Rightarrow> bool" where
  "declaration_ok d x \<longleftrightarrow> is_pascal_case (spanned_value (declaration_type x)) \<and>
     name_ok (spanned_value (declaration_name x)) \<and>
     list_all (field_ok (printable d)) (spanned_value (declaration_fields x))"

text \<open>A declaration's fields are one level themselves.\<close>

definition document_ok :: "data_document \<Rightarrow> bool" where
  "document_ok d \<longleftrightarrow> list_all import_ok (doc_imports d) \<and> list_all (declaration_ok 127) (doc_declarations d)"

definition path_pieces :: "rstr spanned list \<Rightarrow> piece list" where
  "path_pieces paths =
     (case map (\<lambda>p. (TokPath, 60 # spanned_value p @ [62])) paths of
        [] \<Rightarrow> []
      | p # ps \<Rightarrow> p # concat (map (\<lambda>p. [comma_piece, p]) ps))"

definition import_pieces :: "data_import \<Rightarrow> piece list" where
  "import_pieces i =
     word_piece (str ''import'') # word_piece (spanned_value (import_alias i)) # word_piece (str ''from'') #
     path_pieces (import_paths i) @ [(TokSemicolon, [59])]"

definition declaration_spelled :: "float_format \<Rightarrow> nat \<Rightarrow> data_declaration \<Rightarrow> piece list \<Rightarrow> bool" where
  "declaration_spelled fmt d x ps \<longleftrightarrow>
     (\<exists>qs. fields_spelled (spells fmt d) (spanned_value (declaration_fields x)) qs \<and>
        ps = word_piece (spanned_value (declaration_type x)) # word_piece (spanned_value (declaration_name x)) # qs)"

definition document_spelled :: "float_format \<Rightarrow> data_document \<Rightarrow> piece list \<Rightarrow> bool" where
  "document_spelled fmt d ps \<longleftrightarrow>
     (\<exists>pss. list_all2 (declaration_spelled fmt 127) (doc_declarations d) pss \<and>
        ps = concat (map import_pieces (doc_imports d)) @ concat pss)"

lemma reads_path_token: "path_ok t \<Longrightarrow> reads anything (60 # t @ [62]) [(TokPath, 60 # t @ [62])]"
  by (rule reads_path) (simp add: path_ok_def list_all_iff)

lemma reads_more_paths:
  "list_all path_ok ts \<Longrightarrow>
   reads anything (concat (map (\<lambda>t. 44 # 32 # 60 # t @ [62]) ts)) (concat (map (\<lambda>t. [comma_piece, (TokPath, 60 # t @ [62])]) ts))"
proof (induction ts)
  case (Cons t ts)
  then have "reads anything (44 # 32 # 60 # t @ [62]) [comma_piece, (TokPath, 60 # t @ [62])]"
    by (intro reads_before reads_path_token) simp
  from reads_all [OF this, of "concat (map (\<lambda>t. 44 # 32 # 60 # t @ [62]) ts)"] Cons show ?case by simp
qed simp

lemma import_words: "is_word (str ''import'')" "is_word (str ''from'')"
  by code_simp+

lemma reads_import:
  assumes "import_ok i"
  shows "reads anything (import_line i) (import_pieces i)"
proof -
  obtain t ts where t: "map spanned_value (import_paths i) = t # ts" "path_ok t" "list_all path_ok ts"
    using assms by (cases "import_paths i") (auto simp: import_ok_def list_all_iff)
  let ?paths = "60 # t @ [62] @ concat (map (\<lambda>t. 44 # 32 # 60 # t @ [62]) ts)"
    and ?pieces = "(TokPath, 60 # t @ [62]) # concat (map (\<lambda>t. [comma_piece, (TokPath, 60 # t @ [62])]) ts)"
  have sep: "(@) (str '', '') = (\<lambda>t. 44 # 32 # t)" by (rule ext) simp
  have paths: "map (\<lambda>p. 60 # spanned_value p @ [62]) (import_paths i) = map (\<lambda>t. 60 # t @ [62]) (t # ts)"
    "map (\<lambda>p. (TokPath, 60 # spanned_value p @ [62])) (import_paths i) = map (\<lambda>t. (TokPath, 60 # t @ [62])) (t # ts)"
    unfolding t(1) [symmetric] by (simp_all add: comp_def)
  have line: "import_line i = str ''import'' @ 32 # spanned_value (import_alias i) @ 32 # str ''from'' @ 32 # ?paths @ 59 # 10 # []"
    by (simp add: import_line_def paths(1) sep name_text_def comp_def)
  have pieces: "import_pieces i = [word_piece (str ''import'')] @ [word_piece (spanned_value (import_alias i))] @
      [word_piece (str ''from'')] @ ?pieces @ [(TokSemicolon, [59])]"
    by (simp add: import_pieces_def path_pieces_def paths(2) comp_def)
  have paths_read: "reads anything ?paths ?pieces"
    using reads_all [OF reads_path_token [OF t(2)] reads_more_paths [OF t(3)]] by simp
  have "reads anything [59, 10] [(TokSemicolon, [59])]" by (intro reads_before reads_Nil)
  from reads_space_before(1) [OF reads_all [OF paths_read this]]
  have tail_read: "reads anything (32 # ?paths @ 59 # 10 # []) (?pieces @ [(TokSemicolon, [59])])" by simp
  have alias_word: "is_word (spanned_value (import_alias i))"
    using assms by (simp add: import_ok_def field_name_word)
  have space: "reads anything (w @ 32 # u) ([word_piece w] @ us)" if "is_word w" "reads anything (32 # u) us" for w u us
    by (rule reads_then [OF reads_word_boundary [OF that(1)] that(2)]) (simp_all add: boundary_marks)
  note step = space [OF _ reads_space_before(1)]
  show ?thesis unfolding line pieces
    by (intro step space import_words alias_word tail_read)
qed

lemma declaration_lines_none: "declaration_lines fmt [] index fs buf = field_lines fmt fs 1 buf"
  by (induction fs arbitrary: buf) (simp_all split: bind_split)

lemma print_declarations_read:
  assumes laws: "float_laws fmt"
  shows "list_all (declaration_ok d) xs \<Longrightarrow>
    \<exists>t pss. print_declarations fmt [] bare_file index xs buf = Some (buf @ t) \<and>
      list_all2 (declaration_spelled fmt d) xs pss \<and> reads anything t (concat pss)"
proof (induction xs arbitrary: index buf)
  case (Cons x xs)
  let ?nl = "if index > 0 \<or> \<not> bare_file then [10] else []"
    and ?head = "name_text (declaration_type x) @ 32 # name_text (declaration_name x) @ [32]"
  have x: "is_pascal_case (spanned_value (declaration_type x))" "name_ok (spanned_value (declaration_name x))"
    "list_all (field_ok (printable d)) (spanned_value (declaration_fields x))"
    using Cons.prems by (simp_all add: declaration_ok_def)
  obtain u qs where u: "closing 0 (str ''}'') (field_lines fmt (spanned_value (declaration_fields x)) (0 + 1)
        ((buf @ ?nl @ ?head) @ str ''{'' @ [10])) = Some ((buf @ ?nl @ ?head) @ 123 # u)"
    "fields_spelled (spells fmt d) (spanned_value (declaration_fields x)) qs" "reads anything (123 # u) qs"
    using expanded_fields_read [OF render_printable [OF laws] x(3)] by blast
  then obtain lines_text where l: "field_lines fmt (spanned_value (declaration_fields x)) 1 (buf @ ?nl @ ?head @ [123, 10]) = Some lines_text"
    "lines_text @ [125] = buf @ ?nl @ ?head @ 123 # u"
    by (auto simp: closing_def indent_def)
  have "print_declarations fmt [] bare_file index (x # xs) buf =
      print_declarations fmt [] bare_file (index + 1) xs (lines_text @ [125, 10])"
    using l(1) by (auto simp: declaration_lines_none)
  moreover have "lines_text @ [125, 10] = buf @ ?nl @ ?head @ 123 # u @ [10]"
    using arg_cong [OF l(2), of "\<lambda>t. t @ [10]"] by simp
  moreover obtain t pss where t: "print_declarations fmt [] bare_file (index + 1) xs (buf @ ?nl @ ?head @ 123 # u @ [10]) =
      Some ((buf @ ?nl @ ?head @ 123 # u @ [10]) @ t)"
    "list_all2 (declaration_spelled fmt d) xs pss" "reads anything t (concat pss)"
    using Cons.IH Cons.prems unfolding list.pred_inject by blast
  ultimately have out: "print_declarations fmt [] bare_file index (x # xs) buf = Some (buf @ ?nl @ ?head @ 123 # u @ [10] @ t)"
    by simp
  let ?ps = "word_piece (spanned_value (declaration_type x)) # word_piece (spanned_value (declaration_name x)) # qs"
  have "reads anything ?nl []" using reads_spaces(2) by simp
  moreover have "reads anything (?head @ 123 # u) ?ps" using reads_named [OF x(1,2) u(3)] by (simp add: name_text_def)
  moreover have "reads anything ([10] @ t) (concat pss)" using reads_before(2) [OF t(3)] by simp
  ultimately have "reads anything (?nl @ (?head @ 123 # u) @ [10] @ t) ([] @ ?ps @ concat pss)"
    by (intro reads_all)
  moreover have "declaration_spelled fmt d x ?ps" using u(2) by (auto simp: declaration_spelled_def)
  ultimately show ?case using out t(2)
    by (intro exI [of _ "?nl @ (?head @ 123 # u) @ [10] @ t"] exI [of _ "?ps # pss"])
      (simp del: print_declarations.simps)
qed simp

lemma print_document_read:
  assumes "float_laws fmt" "document_ok d"
  shows "\<exists>t ps. print_document fmt d = Some t \<and> document_spelled fmt d ps \<and> reads boundary t ps"
proof -
  have "list_all import_ok is \<Longrightarrow> reads anything (concat (map import_line is)) (concat (map import_pieces is))" for "is"
    by (induction "is") (auto intro: reads_all reads_import)
  then have heads: "reads anything (concat (map import_line (doc_imports d))) (concat (map import_pieces (doc_imports d)))"
    using assms(2) by (simp add: document_ok_def)
  obtain t pss where t: "print_declarations fmt [] (doc_imports d = []) 0 (doc_declarations d) (concat (map import_line (doc_imports d))) =
      Some (concat (map import_line (doc_imports d)) @ t)"
    "list_all2 (declaration_spelled fmt 127) (doc_declarations d) pss" "reads anything t (concat pss)"
    using print_declarations_read [OF assms(1)] assms(2) unfolding document_ok_def by blast
  from reads_all [OF heads t(3)] t(1,2) show ?thesis
    by (auto simp: print_document_def print_spliced_def document_spelled_def intro: reads_anything)
qed

end
