(* ===== verification/DataRoundTrip.thy ===== *)
theory DataRoundTrip
  imports DataSpelling ParserTotal
begin

text \<open>
  What the printer of data documents writes, the parser reads back: \<open>sees\<close> says which pieces of text
  stand before a parser, \<open>quietly\<close> that it has taken some without a diagnostic, and each parsing
  function of \<open>DataParser\<close> has its lemma over the pieces that \<open>DataSpelling\<close> shows printed.
\<close>

section \<open>A parser before known pieces\<close>

definition is_piece :: "rstr \<Rightarrow> token \<Rightarrow> piece \<Rightarrow> bool" where
  "is_piece source token p \<longleftrightarrow> token_kind token = fst p \<and> source_slice source (token_span token) = Some (snd p)"

definition sees :: "parser \<Rightarrow> piece list \<Rightarrow> bool" where
  "sees p ps \<longleftrightarrow> list_all2 (is_piece (parser_source p)) (stream p) ps"

text \<open>What a parser without an error on its way keeps.\<close>

definition quietly :: "parser \<Rightarrow> parser \<Rightarrow> bool" where
  "quietly p q \<longleftrightarrow> parser_source q = parser_source p \<and> depth q = depth p \<and> diagnostics q = diagnostics p"

lemma quietly_refl [simp]: "quietly p p"
  by (simp add: quietly_def)

lemma quietly_trans [trans]: "quietly p q \<Longrightarrow> quietly q r \<Longrightarrow> quietly p r"
  by (simp add: quietly_def)

lemma sees_head: "sees p (x # ps) \<Longrightarrow> token_kind (here p) = fst x \<and> token_text p (here p) = Some (snd x)"
  by (simp add: sees_def stream_def is_piece_def token_text_def)

lemma sees_at: "sees p ((k, t) # ps) \<Longrightarrow> at_kind k' p \<longleftrightarrow> k' = k"
  using sees_head by (fastforce simp: at_kind_def)

lemma sees_length: "sees p ps \<Longrightarrow> length ps = Suc (remaining p)"
  by (simp add: sees_def stream_def remaining_def list_all2_lengthD [symmetric] flip: list_all2_lengthD)

lemma sees_second: "sees p (x # y # ps) \<Longrightarrow> token_kind (peek_at (Suc 0) p) = fst y"
  by (cases "ahead p") (auto simp: sees_def stream_def peek_at_def is_piece_def)

lemma sees_step:
  assumes "sees p (x # ps)" "ps \<noteq> []"
  shows "sees (step p) ps" "quietly p (step p)" "remaining p = Suc (remaining (step p))"
  using assms by (cases "ahead p"; auto simp: sees_def stream_def step_def quietly_def remaining_def)+

lemma sees_advance:
  assumes "sees p ((k, t) # ps)" "ps \<noteq> []" "k \<noteq> TokEof"
  shows "snd (advance p) = step p" "fst (advance p) = here p"
  using sees_at [OF assms(1)] assms(3) by (simp_all add: advance_def)

lemma sees_quiet: "quietly p q \<Longrightarrow> stream q = stream p \<Longrightarrow> sees p ps \<Longrightarrow> sees q ps"
  by (simp add: sees_def quietly_def)

text \<open>A function that succeeds without an error over the pieces \<open>ps\<close>, before others.\<close>

definition takes :: "'a parse \<Rightarrow> parser \<Rightarrow> piece list \<Rightarrow> ('a \<Rightarrow> bool) \<Rightarrow> bool" where
  "takes m p qs good \<longleftrightarrow> (\<exists>x q. m p = Some (Some x, q) \<and> good x \<and> quietly p q \<and> sees q qs)"

lemma takes_then:
  assumes "takes m p qs good" "\<And>x q. good x \<Longrightarrow> quietly p q \<Longrightarrow> sees q qs \<Longrightarrow> takes (f x) q us fine"
  shows "takes (and_then m f) p us fine"
proof -
  obtain x q where q: "m p = Some (Some x, q)" "good x" "quietly p q" "sees q qs"
    using assms(1) by (auto simp: takes_def)
  from assms(2) [OF q(2-4)] q show ?thesis by (auto simp: takes_def and_then_def intro: quietly_trans)
qed

lemma takes_ok: "sees p qs \<Longrightarrow> good x \<Longrightarrow> takes (ok x) p qs good"
  by (simp add: takes_def ok_def)

lemma takes_expect: "sees p ((k, t) # qs) \<Longrightarrow> qs \<noteq> [] \<Longrightarrow> k \<noteq> TokEof \<Longrightarrow> takes (expect k what) p qs (\<lambda>_. True)"
  using sees_step [of p "(k, t)" qs] by (simp add: takes_def expect_def sees_at ok_def sees_advance)

lemma takes_literal: "sees p ((k, t) # qs) \<Longrightarrow> qs \<noteq> [] \<Longrightarrow> k \<noteq> TokEof \<Longrightarrow>
    takes (literal_value token v) p qs (\<lambda>x. spanned_value x = v)"
  using sees_step [of p "(k, t)" qs] by (simp add: takes_def literal_value_def and_then_def change_def ok_def sees_advance)

lemma word_piece_kind: "keyword_of t Data = None \<Longrightarrow> word_piece t = (TokIdentifier, t)"
  by (simp add: word_piece_def)

lemma pascal_keyword: "is_pascal_case t \<Longrightarrow> keyword_of t Data = None"
  by (cases t) (auto simp: is_pascal_case_def keyword_of_def mode_keywords_def keyword_text_def is_ascii_uppercase_def)

lemma takes_identifier:
  assumes "sees p (word_piece t # qs)" "qs \<noteq> []" "if pascal then is_pascal_case t else name_ok t"
  shows "takes (parse_identifier what pascal) p qs (\<lambda>x. spanned_value x = t)"
proof -
  have k: "keyword_of t Data = None" "is_word t" "if pascal then is_pascal_case t else is_snake_case t"
    using assms(3) pascal_keyword pascal_word snake_word by (auto simp: name_ok_def split: if_splits)
  then have s: "sees p ((TokIdentifier, t) # qs)" using assms(1) by (simp add: word_piece_kind)
  then have "at_kind TokIdentifier p" "token_text p (here p) = Some t" using sees_head sees_at by fastforce+
  from parse_identifier_eq [OF this k(2), of what pascal] show ?thesis
    using s k(3) sees_step [OF s assms(2)] sees_advance [OF s assms(2)] by (simp add: takes_def)
qed

section \<open>Literals and names\<close>

lemma takes_number:
  assumes p: "sees p (signed k t @ qs)" and qs: "qs \<noteq> []" and t: "t \<noteq> []"
    and k: "k \<in> {TokInteger, TokFloat, TokDuration, TokDistance}"
    and l: "number_literal fmt k (hd t = 45) t = Some (Inr v)"
  shows "takes (parse_number fmt) p qs (\<lambda>x. spanned_value x = v)"
proof (cases "hd t = 45")
  case True
  then have s: "sees p ((TokMinus, [45]) # (k, tl t) # qs)" using p t by (simp add: signed_def)
  note one = sees_step [OF s, simplified]
  note two = sees_step [OF one(1) qs]
  have e: "eat_token TokMinus p = (True, step p)" using s sees_advance(1) [OF s] by (simp add: eat_token_def sees_at [OF s])
  have h: "token_kind (here (step p)) = k" "token_text (step p) (here (step p)) = Some (tl t)"
    using sees_head [OF one(1)] by simp_all
  have a: "snd (advance (step p)) = step (step p)" using sees_advance(1) [OF one(1) qs] k by auto
  have "45 # tl t = t" using True t by (cases t) simp_all
  then show ?thesis using True e h a l two(1,2) one(2)
    by (auto simp: takes_def parse_number_def Let_def peek_token_def and_then_def unreachable_unless_def change_def ok_def
      intro: quietly_trans)
next
  case False
  then have s: "sees p ((k, t) # qs)" using p by (simp add: signed_def)
  have "k \<noteq> TokMinus" "k \<noteq> TokEof" using k by auto
  then have e: "eat_token TokMinus p = (False, p)" by (simp add: eat_token_def sees_at [OF s])
  have h: "token_kind (here p) = k" "token_text p (here p) = Some t" using sees_head [OF s] by simp_all
  have a: "snd (advance p) = step p" using sees_advance(1) [OF s qs] \<open>k \<noteq> TokEof\<close> by simp
  show ?thesis using False e h a l sees_step [OF s qs]
    by (auto simp: takes_def parse_number_def Let_def peek_token_def and_then_def unreachable_unless_def change_def ok_def)
qed

lemma canonical_texts:
  "show_int i \<noteq> []" "canonical_duration d \<noteq> []" "canonical_distance m \<noteq> []" "hd (canonical_duration d) \<noteq> 45"
proof -
  have d: "digits n \<noteq> [] \<and> hd (digits n) \<noteq> 45" for n
    using digits_head [of n] by (cases "digits n") auto
  show "show_int i \<noteq> []" by (simp add: show_int_def)
  show "canonical_duration d \<noteq> []" "canonical_distance m \<noteq> []" by (simp_all add: canonical_duration_def canonical_distance_def Let_def)
  show "hd (canonical_duration d) \<noteq> 45" using d by (simp add: canonical_duration_def Let_def)
qed

lemma takes_color:
  assumes s: "sees p ((TokColor, color_to_hex c) # qs)" and qs: "qs \<noteq> []"
    and c: "color_from_bytes (color_to_bytes c) = c"
  shows "takes (parse_color (here p)) p qs (\<lambda>x. spanned_value x = DColor c)"
  using sees_head [OF s] takes_literal [OF s qs]
  by (simp add: takes_def parse_color_def and_then_def unreachable_unless_def change_def color_from_to_hex c)

lemma takes_string:
  assumes s: "sees p ((TokString, quoted t) # qs)" and qs: "qs \<noteq> []" and t: "plain_text t"
  shows "takes (and_then (parse_string (token_span (here p))) (\<lambda>t. literal_value (here p) (DString t))) p qs
    (\<lambda>x. spanned_value x = DString t)"
  using sees_head [OF s] takes_literal [OF s qs]
  by (simp add: takes_def parse_string_def and_then_def unreachable_unless_def token_text_def string_canonical [OF t] ok_def)

lemma takes_path:
  assumes s: "sees p ((TokPath, 60 # t @ [62]) # qs)" and qs: "qs \<noteq> []"
  shows "takes (and_then (unreachable_unless (token_text p (here p))) (\<lambda>t. literal_value (here p) (DPath (butlast (tl t))))) p qs
    (\<lambda>x. spanned_value x = DPath t)"
  using sees_head [OF s] takes_literal [OF s qs]
  by (simp add: takes_def and_then_def unreachable_unless_def)

lemma sees_segment: "segment_ok t \<Longrightarrow> sees p (word_piece t # qs) \<Longrightarrow> sees p ((TokIdentifier, t) # qs)"
  by (simp add: segment_ok_def word_piece_kind)

lemma takes_segment:
  assumes t: "segment_ok t" and s: "sees p (word_piece t # qs)" and qs: "qs \<noteq> []"
  shows "takes parse_segment p qs (\<lambda>x. spanned_value x = t)"
proof -
  have w: "is_word t" using t by (simp add: segment_ok_def)
  note s' = sees_segment [OF t s]
  have "token_text (step p) (here p) = Some t"
    using sees_head [OF s'] sees_step(2) [OF s' qs] by (simp add: token_text_def quietly_def)
  then show ?thesis using sees_step [OF s' qs] sees_advance [OF s' qs] w
    by (simp add: takes_def parse_segment_def and_then_def expect_def sees_at [OF s'] ok_def new_identifier_def
      unreachable_unless_def word_identifier)
qed

definition follows :: "piece list \<Rightarrow> bool" where
  "follows qs \<longleftrightarrow> qs \<noteq> [] \<and> fst (hd qs) \<in> {TokComma, TokRightBrace, TokRightBracket, TokRightParen}"

lemma follows_not: "follows qs \<Longrightarrow> sees p qs \<Longrightarrow> at_kind k p \<Longrightarrow> k \<in> {TokComma, TokRightBrace, TokRightBracket, TokRightParen}"
  using sees_at [of p "fst (hd qs)" "snd (hd qs)" "tl qs"] by (cases qs) (auto simp: follows_def)

lemma takes_segments:
  "list_all segment_ok ss \<Longrightarrow> sees p (concat (map (\<lambda>t. [dot_piece, word_piece t]) ss) @ qs) \<Longrightarrow> follows qs \<Longrightarrow> remaining p < n \<Longrightarrow>
   takes (parse_segments n acc) p qs (\<lambda>xs. \<exists>ys. xs = acc @ ys \<and> map spanned_value ys = ss)"
proof (induction ss arbitrary: p n acc)
  case Nil
  then have "\<not> at_kind TokDot p" using follows_not by fastforce
  with Nil show ?case by (cases n) (auto simp: takes_def eat_token_def ok_def)
next
  case (Cons t ss)
  let ?later = "concat (map (\<lambda>t. [dot_piece, word_piece t]) ss) @ qs"
  have s: "sees p (dot_piece # word_piece t # ?later)" using Cons.prems(2) by simp
  note one = sees_step [OF s, simplified]
  obtain m where m: "n = Suc m" using Cons.prems(4) by (cases n) auto
  have more: "?later \<noteq> []" using Cons.prems(3) by (auto simp: follows_def)
  have e: "eat_token TokDot p = (True, step p)" using sees_advance [OF s] by (simp add: eat_token_def sees_at [OF s])
  have "takes (and_then parse_segment (\<lambda>s. parse_segments m (acc @ [s]))) (step p) qs
      (\<lambda>xs. \<exists>ys. xs = acc @ ys \<and> map spanned_value ys = t # ss)"
  proof (rule takes_then [OF takes_segment [OF _ one(1) more]])
    show "segment_ok t" using Cons.prems(1) by simp
    fix x q assume q: "spanned_value x = t" "quietly (step p) q" "sees q ?later"
    have "remaining q < m" using sees_length [OF q(3)] sees_length [OF one(1)] one(3) m Cons.prems(4) by simp
    then have "takes (parse_segments m (acc @ [x])) q qs (\<lambda>xs. \<exists>ys. xs = (acc @ [x]) @ ys \<and> map spanned_value ys = ss)"
      using Cons q by (intro Cons.IH) simp_all
    then show "takes (parse_segments m (acc @ [x])) q qs (\<lambda>xs. \<exists>ys. xs = acc @ ys \<and> map spanned_value ys = t # ss)"
      unfolding takes_def using q(1) by (elim exE conjE) (auto intro!: exI [of _ "x # y" for y])
  qed
  then show ?case unfolding m takes_def using e one(2) by (auto intro: quietly_trans)
qed

lemma takes_reference:
  assumes "name_ok s" "list_all segment_ok ss" "sees p (word_piece s # concat (map (\<lambda>t. [dot_piece, word_piece t]) ss) @ qs)"
    "follows qs" "remaining p \<le> n"
  shows "takes (reference_value n) p qs (\<lambda>x. \<exists>ys. spanned_value x = DReference ys \<and> map spanned_value ys = s # ss)"
  unfolding reference_value_def
proof (rule takes_then [OF takes_identifier [OF assms(3)]])
  show "concat (map (\<lambda>t. [dot_piece, word_piece t]) ss) @ qs \<noteq> []" using assms(4) by (auto simp: follows_def)
  fix x q assume q: "spanned_value x = s" "quietly p q" "sees q (concat (map (\<lambda>t. [dot_piece, word_piece t]) ss) @ qs)"
  have "remaining q < n" using sees_length [OF q(3)] sees_length [OF assms(3)] assms(5) by simp
  from takes_segments [OF assms(2) q(3) assms(4) this, of "[x]"]
  show "takes (and_then (parse_segments n [x]) (\<lambda>segments. ok (Spanned (DReference segments)
       (span_to (spanned_span (hd segments)) (spanned_span (last segments)))))) q qs
     (\<lambda>x. \<exists>ys. spanned_value x = DReference ys \<and> map spanned_value ys = s # ss)"
    by (rule takes_then) (use q(1) in \<open>auto intro!: takes_ok\<close>)
qed (use assms(1) in simp)

section \<open>Brackets\<close>

text \<open>
  Values at most \<open>d\<close> levels deep are read from any of their spellings, where \<open>b\<close> bounds the tokens
  left.
\<close>

definition values_read :: "float_format \<Rightarrow> data_value spanned parse \<Rightarrow> nat \<Rightarrow> nat \<Rightarrow> bool" where
  "values_read fmt value b d \<longleftrightarrow>
     (\<forall>v ps p qs. printable d v \<longrightarrow> spells fmt d v ps \<longrightarrow> sees p (ps @ qs) \<longrightarrow> follows qs \<longrightarrow>
        remaining p < b \<longrightarrow> depth p + d \<le> MAX_NESTING \<longrightarrow> takes value p qs (\<lambda>x. bare (spanned_value x) = bare v))"

lemma values_readD:
  "values_read fmt value b d \<Longrightarrow> printable d v \<Longrightarrow> spells fmt d v ps \<Longrightarrow> sees p (ps @ qs) \<Longrightarrow> follows qs \<Longrightarrow>
   remaining p < b \<Longrightarrow> depth p + d \<le> MAX_NESTING \<Longrightarrow> takes value p qs (\<lambda>x. bare (spanned_value x) = bare v)"
  by (simp add: values_read_def)

lemma takes_at: "m p = m' p \<Longrightarrow> takes m' p qs good \<Longrightarrow> takes m p qs good"
  by (simp add: takes_def)

lemma takes_move: "m p = m' q \<Longrightarrow> quietly p q \<Longrightarrow> takes m' q qs good \<Longrightarrow> takes m p qs good"
  by (auto simp: takes_def intro: quietly_trans)

lemma takes_weaken: "takes m p qs good \<Longrightarrow> (\<And>x. good x \<Longrightarrow> fine x) \<Longrightarrow> takes m p qs fine"
  by (auto simp: takes_def)

lemma takes_new_identifier:
  assumes "is_word t" "sees p ((k, t) # qs)" "qs \<noteq> []" "k \<noteq> TokEof"
  shows "takes (\<lambda>p. let (token, p) = advance p in new_identifier token p) p qs (\<lambda>x. spanned_value x = t)"
proof -
  have "token_text (step p) (here p) = Some t"
    using sees_head [OF assms(2)] sees_step(2) [OF assms(2,3)] by (simp add: token_text_def quietly_def)
  then show ?thesis using sees_step [OF assms(2,3)] sees_advance [OF assms(2-4)] assms(1)
    by (simp add: takes_def case_prod_beta new_identifier_def and_then_def unreachable_unless_def ok_def word_identifier)
qed

lemma takes_field_name:
  assumes n: "field_name_ok t" and s: "sees p (word_piece t # qs)" and qs: "qs \<noteq> []"
  shows "takes (if at_kind (TokKeyword KwImport) p \<or> at_kind (TokKeyword KwFrom) p
        then (\<lambda>p. let (token, p) = advance p in new_identifier token p)
        else parse_identifier (str ''a field name'') False) p qs (\<lambda>x. spanned_value x = t)"
proof (cases "keyword_of t Data")
  case None
  then have k: "sees p ((TokIdentifier, t) # qs)" using s by (simp add: word_piece_def)
  have "name_ok t" using n None by (simp add: name_ok_def field_name_ok_def)
  then show ?thesis using takes_identifier [OF s qs, of False "str ''a field name''"] by (simp add: sees_at [OF k] del: str_simps)
next
  case (Some w)
  then have k: "sees p ((TokKeyword w, t) # qs)" and w: "w = KwImport \<or> w = KwFrom"
    using s n by (auto simp: word_piece_def field_name_ok_def)
  have "is_word t" using n by (rule field_name_word)
  from takes_new_identifier [OF this k qs] w show ?thesis by (auto simp: sees_at [OF k])
qed

lemma takes_field:
  assumes v: "values_read fmt value b d" and f: "field_ok (printable d) f" "field_spelled (spells fmt d) f ps"
    and s: "sees p (ps @ qs)" and qs: "follows qs" and b: "remaining p < b" and d: "depth p + d \<le> MAX_NESTING"
  shows "takes (parse_field value) p qs (\<lambda>x. bare_field x = bare_field f)"
proof -
  let ?n = "spanned_value (field_name f)" and ?v = "spanned_value (field_value f)"
  obtain us where us: "spells fmt d ?v us" "ps = word_piece ?n # colon_piece # us"
    using f(2) by (auto simp: field_spelled_def)
  have more: "us @ qs \<noteq> []" using qs by (simp add: follows_def)
  have n: "field_name_ok ?n" "printable d ?v" using f(1) by (simp_all add: field_ok_def)
  have s': "sees p (word_piece ?n # colon_piece # us @ qs)" using s us(2) by simp
  show ?thesis
  proof (rule takes_at, rule parse_field_def, rule takes_then [OF takes_field_name [OF n(1) s']])
    fix name q
    assume q: "spanned_value name = ?n" "quietly p q" "sees q (colon_piece # us @ qs)"
    have "takes (and_then (expect TokColon (str ''`:` and a value'')) (\<lambda>_. value)) q qs (\<lambda>x. bare (spanned_value x) = bare ?v)"
    proof (rule takes_then [OF takes_expect [OF q(3) more]])
      fix x r assume r: "quietly q r" "sees r (us @ qs)"
      have "remaining r < b" using sees_length [OF r(2)] sees_length [OF s'] b by simp
      moreover have "depth r + d \<le> MAX_NESTING" using d q(2) r(1) by (simp add: quietly_def)
      ultimately show "takes value r qs (\<lambda>x. bare (spanned_value x) = bare ?v)"
        by (rule values_readD [OF v n(2) us(1) r(2) qs])
    qed simp
    then obtain x t where x: "and_then (expect TokColon (str ''`:` and a value'')) (\<lambda>_. value) q = Some (Some x, t)"
      "bare (spanned_value x) = bare ?v" "quietly q t" "sees t qs" by (auto simp: takes_def)
    have "bare_field (DataField name x) = bare_field f"
      using x(2) q(1) by (cases f; cases x; cases "field_value f") (simp add: unspan_def)
    then show "takes (\<lambda>p. let span = token_span (peek_token p)
        in case and_then (expect TokColon (str ''`:` and a value'')) (\<lambda>_. value) p of
             None \<Rightarrow> None
           | Some (None, p) \<Rightarrow> ok (DataField name (Spanned DError span)) (recover_item TokRightBrace p)
           | Some (Some v, p) \<Rightarrow> ok (DataField name v) p) q qs (\<lambda>x. bare_field x = bare_field f)"
      using x by (simp add: takes_def ok_def del: str_simps)
  qed simp
qed

text \<open>The loops run one level deeper and come back.\<close>

definition deeper :: "parser \<Rightarrow> parser" where
  "deeper p = p\<lparr>depth := Suc (depth p)\<rparr>"

lemma deeper_simps [simp]:
  "stream (deeper p) = stream p" "remaining (deeper p) = remaining p" "depth (deeper p) = Suc (depth p)"
  "at_kind k (deeper p) = at_kind k p" "at_other_close k (deeper p) = at_other_close k p" "sees (deeper p) ps = sees p ps"
  "here (deeper p) = here p" "quietly (deeper p) (deeper q) = quietly p q"
  by (auto simp: deeper_def stream_def remaining_def at_kind_def at_other_close_def peek_token_def sees_def quietly_def)

lemma deeper_back: "quietly (deeper p) q \<Longrightarrow> \<exists>r. q = deeper r \<and> quietly p r"
  by (rule exI [of _ "q\<lparr>depth := depth p\<rparr>"]) (auto simp: deeper_def quietly_def)

lemma takes_nest:
  assumes "depth p < MAX_NESTING" "takes (\<lambda>p. f () (deeper p)) p qs good"
  shows "takes (and_then nest f) p qs good"
  using assms by (simp add: takes_def and_then_def nest_def Let_def ok_def deeper_def)

lemma takes_leave:
  assumes "sees p ((k, t) # qs)" "qs \<noteq> []" "k \<noteq> TokEof" "\<And>token. good (f token)"
  shows "takes (\<lambda>p. let (token, p) = advance (deeper p) in and_then leave (\<lambda>_. ok (f token)) p) p qs good"
proof -
  have s: "sees (deeper p) ((k, t) # qs)" using assms(1) by simp
  have "step (deeper p) = deeper (step p)" by (simp add: step_def deeper_def split: list.split)
  then show ?thesis using sees_advance [OF s assms(2,3)] sees_step [OF assms(1,2)] assms(4)
    by (simp add: takes_def case_prod_beta and_then_def leave_def ok_def)
      (simp add: deeper_def quietly_def sees_def stream_def)
qed

definition closer :: "token_kind \<Rightarrow> bool" where
  "closer k \<longleftrightarrow> k \<in> {TokRightBrace, TokRightBracket, TokRightParen}"

text \<open>After an entry comes a comma and perhaps more entries, or the closing bracket.\<close>

lemma separator_comma:
  assumes "sees p (comma_piece # qs)" "qs \<noteq> []"
  shows "separator close what p = Some (Some (), step p)"
  using sees_advance [OF assms] by (simp add: separator_def eat_token_def sees_at [OF assms(1)] ok_def)

lemma separator_close:
  assumes "sees p ((close, t) # qs)" "closer close"
  shows "separator close what p = Some (Some (), p)"
  using assms(2) by (auto simp: separator_def eat_token_def sees_at [OF assms(1)] ok_def closer_def)

definition inside :: "token_kind \<Rightarrow> bool" where
  "inside k \<longleftrightarrow> k \<noteq> TokEof \<and> \<not> closes k"

lemma inside_not:
  assumes "sees p (x # qs)" "inside (fst x)" "closes close"
  shows "\<not> at_kind close p" "\<not> at_kind TokEof p" "\<not> at_other_close close p"
  using sees_head [OF assms(1)] assms(2,3)
  by (auto simp: inside_def at_kind_def at_other_close_def peek_token_def)

lemma closes_marks: "closes TokRightBrace" "closes TokRightBracket" "closes TokRightParen"
  by (simp_all add: closes_def)

lemma inside_word: "inside (fst (word_piece t))"
  by (simp add: inside_def word_piece_def closes_def split: option.split)

lemma step_deeper: "step (deeper p) = deeper (step p)"
  by (cases p) (auto simp: step_def deeper_def split: list.split)

lemma separator_deeper:
  "sees p (comma_piece # qs) \<Longrightarrow> qs \<noteq> [] \<Longrightarrow> separator close what (deeper p) = Some (Some (), deeper (step p))"
  using separator_comma [of "deeper p"] by (simp add: step_deeper)

lemma separator_close_deeper:
  "sees p ((close, t) # qs) \<Longrightarrow> closer close \<Longrightarrow> separator close what (deeper p) = Some (Some (), deeper p)"
  using separator_close [of "deeper p"] by simp

lemma takes_fields_from:
  assumes v: "values_read fmt value b d"
  shows "commas pss ps \<Longrightarrow> list_all2 (field_spelled (spells fmt d)) fs pss \<Longrightarrow> list_all (field_ok (printable d)) fs \<Longrightarrow>
    sees p (ps @ (TokRightBrace, t) # qs) \<Longrightarrow> qs \<noteq> [] \<Longrightarrow> remaining p < b \<Longrightarrow> remaining p < n \<Longrightarrow>
    Suc (depth p) + d \<le> MAX_NESTING \<Longrightarrow>
    takes (\<lambda>p. fields_from value n sp acc (deeper p)) p qs
      (\<lambda>x. map bare_field (spanned_value x) = map bare_field (acc @ fs))"
proof (induction arbitrary: fs p n acc rule: commas.induct)
  case none
  then obtain m where m: "n = Suc m" by (cases n) auto
  have s: "sees p ((TokRightBrace, t) # qs)" using none by simp
  show ?case
    by (rule takes_at [OF _ takes_leave [OF s none.prems(4), where f = "\<lambda>token. Spanned acc (span_to sp (token_span token))"]]) (use none in \<open>simp_all add: m sees_at [OF s]\<close>)
next
  case (single us)
  then obtain m f where m: "n = Suc m" "fs = [f]" by (cases n) (auto simp: list_all2_Cons2)
  have s: "sees p (us @ (TokRightBrace, t) # qs)" and f: "field_spelled (spells fmt d) f us" "field_ok (printable d) f"
    using single m(2) by simp_all
  obtain ws where us: "us = word_piece (spanned_value (field_name f)) # ws" using f(1) by (auto simp: field_spelled_def)
  note at = inside_not [OF s [unfolded us append_Cons] inside_word closes_marks(1)]
  have "takes (parse_field value) (deeper p) ((TokRightBrace, t) # qs) (\<lambda>x. bare_field x = bare_field f)"
    using single s by (intro takes_field [OF v f(2,1)]) (auto simp: follows_def)
  then obtain x q where x: "parse_field value (deeper p) = Some (Some x, deeper q)" "bare_field x = bare_field f"
    "quietly p q" "sees q ((TokRightBrace, t) # qs)" unfolding takes_def using deeper_back by fastforce
  have rem: "remaining q < remaining p" using sees_length [OF x(4)] sees_length [OF s] us by simp
  then obtain k where k: "m = Suc k" using single.prems(6) m(1) by (cases m) auto
  have "fields_from value n sp acc (deeper p) = fields_from value m sp (acc @ [x]) (deeper q)"
    using at x(1) separator_close_deeper [OF x(4)] by (simp add: m and_then_def closer_def)
  moreover have "takes (\<lambda>p. fields_from value m sp (acc @ [x]) (deeper p)) q qs
      (\<lambda>y. map bare_field (spanned_value y) = map bare_field (acc @ fs))"
    by (rule takes_at [OF _ takes_leave [OF x(4) single.prems(4), where f = "\<lambda>token. Spanned (acc @ [x]) (span_to sp (token_span token))"]])
      (use x(2) m(2) in \<open>simp_all add: k sees_at [OF x(4)]\<close>)
  ultimately show ?case using x(3) by (intro takes_move [of _ p])
next
  case (more pss ws us)
  then obtain m f gs where m: "n = Suc m" "fs = f # gs" by (cases n) (auto simp: list_all2_Cons2)
  let ?later = "ws @ (TokRightBrace, t) # qs"
  have s: "sees p (us @ comma_piece # ?later)" and f: "field_spelled (spells fmt d) f us" "field_ok (printable d) f"
    using more.prems m(2) by simp_all
  obtain vs where us: "us = word_piece (spanned_value (field_name f)) # vs" using f(1) by (auto simp: field_spelled_def)
  note at = inside_not [OF s [unfolded us append_Cons] inside_word closes_marks(1)]
  have "takes (parse_field value) (deeper p) (comma_piece # ?later) (\<lambda>x. bare_field x = bare_field f)"
    using more.prems s by (intro takes_field [OF v f(2,1)]) (auto simp: follows_def)
  then obtain x q where x: "parse_field value (deeper p) = Some (Some x, deeper q)" "bare_field x = bare_field f"
    "quietly p q" "sees q (comma_piece # ?later)" unfolding takes_def using deeper_back by fastforce
  note one = sees_step [OF x(4)]
  have rem: "Suc (remaining (step q)) < remaining p" using sees_length [OF x(4)] one(3) sees_length [OF s] us by simp
  have "fields_from value n sp acc (deeper p) = fields_from value m sp (acc @ [x]) (deeper (step q))"
    using at x(1) separator_deeper [OF x(4)] by (simp add: m and_then_def)
  moreover have quiet: "quietly p (step q)" using x(3) one(2) by (auto intro: quietly_trans)
  moreover have "takes (\<lambda>p. fields_from value m sp (acc @ [x]) (deeper p)) (step q) qs
      (\<lambda>y. map bare_field (spanned_value y) = map bare_field ((acc @ [x]) @ gs))"
    using more.prems m rem one quiet by (intro more.IH) (auto simp: quietly_def)
  then have "takes (\<lambda>p. fields_from value m sp (acc @ [x]) (deeper p)) (step q) qs
      (\<lambda>y. map bare_field (spanned_value y) = map bare_field (acc @ fs))"
    by (rule takes_weaken) (simp add: m(2) x(2))
  ultimately show ?case by (rule takes_move)
qed

lemma value_spelled_start: "value_spelled fmt spelled v ps \<Longrightarrow> ps \<noteq> [] \<and> inside (fst (hd ps))"
  using inside_word
  by (cases v) (auto simp: value_spelled_def signed_def inside_def closes_def fields_spelled_def split: list.splits)

lemma spells_start: "spells fmt d v ps \<Longrightarrow> \<exists>x us. ps = x # us \<and> inside (fst x)"
  using value_spelled_start by (cases d; cases ps; fastforce)

abbreviation (input) items_bare :: "data_value spanned list \<Rightarrow> data_value list" where
  "items_bare vs \<equiv> map (\<lambda>i. bare (spanned_value i)) vs"

lemma takes_items_from:
  assumes v: "values_read fmt value b d" and close: "closer close"
  shows "commas pss ps \<Longrightarrow> list_all2 (\<lambda>i. spells fmt d (spanned_value i)) vs pss \<Longrightarrow> list_all (\<lambda>i. printable d (spanned_value i)) vs \<Longrightarrow>
    sees p (ps @ (close, t) # qs) \<Longrightarrow> qs \<noteq> [] \<Longrightarrow> remaining p < b \<Longrightarrow> remaining p < n \<Longrightarrow>
    Suc (depth p) + d \<le> MAX_NESTING \<Longrightarrow>
    takes (\<lambda>p. items_from value n close what sp acc (deeper p)) p qs (\<lambda>x. items_bare (fst x) = items_bare (acc @ vs))"
proof (induction arbitrary: vs p n acc rule: commas.induct)
  case none
  then obtain m where m: "n = Suc m" by (cases n) auto
  have s: "sees p ((close, t) # qs)" and k: "close \<noteq> TokEof" using none close by (auto simp: closer_def)
  show ?case
    by (rule takes_at [OF _ takes_leave [OF s none.prems(4) k, where f = "\<lambda>token. (acc, span_to sp (token_span token))"]])
      (use none in \<open>simp_all add: m sees_at [OF s]\<close>)
next
  case (single us)
  then obtain m i where m: "n = Suc m" "vs = [i]" by (cases n) (auto simp: list_all2_Cons2)
  have s: "sees p (us @ (close, t) # qs)" and i: "spells fmt d (spanned_value i) us" "printable d (spanned_value i)"
    using single m(2) by simp_all
  obtain w ws where us: "us = w # ws" "inside (fst w)" using spells_start [OF i(1)] by blast
  have k: "closes close" "close \<noteq> TokEof" using close by (auto simp: closer_def closes_def)
  note at = inside_not [OF s [unfolded us append_Cons] us(2) k(1)]
  have "takes value (deeper p) ((close, t) # qs) (\<lambda>x. bare (spanned_value x) = bare (spanned_value i))"
    using single s close by (intro values_readD [OF v i(2,1)]) (auto simp: follows_def closer_def)
  then obtain x q where x: "value (deeper p) = Some (Some x, deeper q)" "bare (spanned_value x) = bare (spanned_value i)"
    "quietly p q" "sees q ((close, t) # qs)" unfolding takes_def using deeper_back by fastforce
  have rem: "remaining q < remaining p" using sees_length [OF x(4)] sees_length [OF s] us by simp
  then obtain l where l: "m = Suc l" using single.prems(6) m(1) by (cases m) auto
  have "items_from value n close what sp acc (deeper p) = items_from value m close what sp (acc @ [x]) (deeper q)"
    using at x(1) separator_close_deeper [OF x(4) close] by (simp add: m and_then_def)
  moreover have "takes (\<lambda>p. items_from value m close what sp (acc @ [x]) (deeper p)) q qs
      (\<lambda>y. items_bare (fst y) = items_bare (acc @ vs))"
    by (rule takes_at [OF _ takes_leave [OF x(4) single.prems(4) k(2), where f = "\<lambda>token. (acc @ [x], span_to sp (token_span token))"]])
      (use x(2) m(2) in \<open>simp_all add: l sees_at [OF x(4)]\<close>)
  ultimately show ?case using x(3) by (intro takes_move [of _ p])
next
  case (more pss ws us)
  then obtain m i gs where m: "n = Suc m" "vs = i # gs" by (cases n) (auto simp: list_all2_Cons2)
  let ?later = "ws @ (close, t) # qs"
  have s: "sees p (us @ comma_piece # ?later)" and i: "spells fmt d (spanned_value i) us" "printable d (spanned_value i)"
    using more.prems m(2) by simp_all
  obtain w vs' where us: "us = w # vs'" "inside (fst w)" using spells_start [OF i(1)] by blast
  have k: "closes close" using close by (auto simp: closer_def closes_def)
  note at = inside_not [OF s [unfolded us append_Cons] us(2) k]
  have "takes value (deeper p) (comma_piece # ?later) (\<lambda>x. bare (spanned_value x) = bare (spanned_value i))"
    using more.prems s by (intro values_readD [OF v i(2,1)]) (auto simp: follows_def)
  then obtain x q where x: "value (deeper p) = Some (Some x, deeper q)" "bare (spanned_value x) = bare (spanned_value i)"
    "quietly p q" "sees q (comma_piece # ?later)" unfolding takes_def using deeper_back by fastforce
  note one = sees_step [OF x(4)]
  have rem: "Suc (remaining (step q)) < remaining p" using sees_length [OF x(4)] one(3) sees_length [OF s] us by simp
  have "items_from value n close what sp acc (deeper p) = items_from value m close what sp (acc @ [x]) (deeper (step q))"
    using at x(1) separator_deeper [OF x(4)] by (simp add: m and_then_def)
  moreover have quiet: "quietly p (step q)" using x(3) one(2) by (auto intro: quietly_trans)
  moreover have "takes (\<lambda>p. items_from value m close what sp (acc @ [x]) (deeper p)) (step q) qs
      (\<lambda>y. items_bare (fst y) = items_bare ((acc @ [x]) @ gs))"
    using more.prems m rem one quiet by (intro more.IH) (auto simp: quietly_def)
  then have "takes (\<lambda>p. items_from value m close what sp (acc @ [x]) (deeper p)) (step q) qs
      (\<lambda>y. items_bare (fst y) = items_bare (acc @ vs))"
    by (rule takes_weaken) (simp add: m(2) x(2))
  ultimately show ?case by (rule takes_move)
qed

lemma takes_fields:
  assumes v: "values_read fmt value b d" and fs: "fields_spelled (spells fmt d) fs ps" "list_all (field_ok (printable d)) fs"
    and s: "sees p (ps @ qs)" and qs: "qs \<noteq> []" and b: "remaining p \<le> b" "remaining p \<le> n" and d: "Suc (depth p) + d \<le> MAX_NESTING"
  shows "takes (parse_fields value n) p qs (\<lambda>x. map bare_field (spanned_value x) = map bare_field fs)"
proof -
  obtain pss us where us: "list_all2 (field_spelled (spells fmt d)) fs pss" "commas pss us" "ps = open_piece # us @ [close_piece]"
    using fs(1) by (auto simp: fields_spelled_def)
  have s': "sees p (open_piece # us @ close_piece # qs)" using s us(3) by simp
  show ?thesis unfolding parse_fields_def
  proof (rule takes_then [OF takes_expect [OF s']])
    fix x q assume q: "quietly p q" "sees q (us @ close_piece # qs)"
    have rem: "Suc (remaining q) = remaining p" using sees_length [OF q(2)] sees_length [OF s'] by simp
    have "takes (\<lambda>p. fields_from value n (token_span x) [] (deeper p)) q qs
        (\<lambda>x. map bare_field (spanned_value x) = map bare_field ([] @ fs))"
      using rem b d q(1) by (intro takes_fields_from [OF v us(2,1) fs(2) q(2) qs]) (auto simp: quietly_def)
    then show "takes (and_then nest (\<lambda>_. fields_from value n (token_span x) [])) q qs
        (\<lambda>x. map bare_field (spanned_value x) = map bare_field fs)"
      using d q(1) by (intro takes_nest) (simp_all add: quietly_def)
  qed simp_all
qed

lemma takes_items:
  assumes v: "values_read fmt value b d" and close: "closer close"
    and vs: "items_spelled (spells fmt d) vs ps" "list_all (\<lambda>i. printable d (spanned_value i)) vs"
    and s: "sees p ((k, t) # ps @ (close, u) # qs)" "k \<noteq> TokEof" and qs: "qs \<noteq> []"
    and b: "remaining p \<le> b" "remaining p \<le> n" and d: "Suc (depth p) + d \<le> MAX_NESTING"
  shows "takes (parse_items value n close what) p qs (\<lambda>x. items_bare (fst x) = items_bare vs)"
proof -
  obtain pss where pss: "list_all2 (\<lambda>i. spells fmt d (spanned_value i)) vs pss" "commas pss ps"
    using vs(1) by (auto simp: items_spelled_def)
  have more: "ps @ (close, u) # qs \<noteq> []" by simp
  note one = sees_step [OF s(1) more]
  have "takes (\<lambda>p. items_from value n close what (token_span (here p0)) [] (deeper p)) (step p) qs
      (\<lambda>x. items_bare (fst x) = items_bare ([] @ vs))" for p0
    using b d one by (intro takes_items_from [OF v close pss(2,1) vs(2) one(1) qs]) (auto simp: quietly_def)
  then have "takes (and_then nest (\<lambda>_. items_from value n close what (token_span (here p)) [])) (step p) qs
      (\<lambda>x. items_bare (fst x) = items_bare vs)"
    using d one(2) by (intro takes_nest) (simp_all add: quietly_def)
  then show ?thesis
    by (rule takes_move [OF _ one(2), rotated]) (simp add: parse_items_def case_prod_beta sees_advance [OF s(1) more s(2)])
qed

section \<open>Values\<close>

lemma snake_not_pascal: "is_snake_case t \<Longrightarrow> \<not> is_pascal_case t"
  by (cases t) (auto simp: is_snake_case_def is_pascal_case_def is_ascii_lowercase_def is_ascii_uppercase_def)

lemma follows_kind: "follows qs \<Longrightarrow> fst (hd qs) \<notin> {TokDot, TokIdentifier, TokLeftBrace}"
  by (auto simp: follows_def)

lemma sees_second_kind: "sees p (x # qs) \<Longrightarrow> qs \<noteq> [] \<Longrightarrow> token_kind (peek_at (Suc 0) p) = fst (hd qs)"
  by (cases qs) (simp_all add: sees_second)

lemma fields_start: "fields_spelled spelled fs ps \<Longrightarrow> \<exists>us. ps = open_piece # us"
  by (auto simp: fields_spelled_def)

lemma takes_record_value:
  assumes ty: "is_pascal_case ty" and s: "sees p (word_piece ty # us)" and us: "us \<noteq> []"
    and m: "\<And>x q. spanned_value x = ty \<Longrightarrow> quietly p q \<Longrightarrow> sees q us \<Longrightarrow>
      takes (typed_value value n x) q qs good"
    and dot: "fst (hd us) \<noteq> TokDot"
  shows "takes (name_value value n) p qs good"
proof -
  have t: "token_text p (here p) = Some ty" using sees_head [OF s] by (simp add: word_piece_def)
  have "takes (record_value value n) p qs good" unfolding record_value_def
    by (rule takes_then [OF takes_identifier [OF s us] m]) (use ty in simp_all)
  then show ?thesis using ty dot sees_second_kind [OF s us]
    by (simp add: takes_def name_value_def peek_token_def Let_def and_then_def unreachable_unless_def t)
qed

lemma takes_variant:
  assumes ty: "is_pascal_case (spanned_value ty)" and s: "sees p (word_piece (spanned_value ty) # qs)" and qs: "follows qs"
  shows "takes (name_value value n) p qs (\<lambda>x. bare (spanned_value x) = bare (DVariant ty))"
proof (rule takes_record_value [OF ty s])
  fix x q assume q: "spanned_value x = spanned_value ty" "sees q qs"
  have "\<not> at_kind TokIdentifier q" "\<not> at_kind TokLeftBrace q" using follows_not [OF qs q(2)] by auto
  with q show "takes (typed_value value n x) q qs (\<lambda>x. bare (spanned_value x) = bare (DVariant ty))"
    by (simp add: takes_def typed_value_def ok_def unspan_def)
qed (use qs in \<open>auto simp: follows_def\<close>)

lemma bare_fields: "map bare_field (spanned_value x) = map bare_field (spanned_value fs) \<Longrightarrow>
    unspan (map_spanned (map bare_field) x) = unspan (map_spanned (map bare_field) fs)"
  by (cases x; cases fs) (simp add: unspan_def)

lemma bare_items: "items_bare xs = items_bare vs \<Longrightarrow>
    map unspan (map (map_spanned bare) xs) = map unspan (map (map_spanned bare) vs)"
proof -
  have eq: "map unspan (map (map_spanned bare) vs) = map (\<lambda>v. Spanned v no_span) (items_bare vs)" for vs
  proof (induction vs)
    case (Cons v vs)
    then show ?case by (cases v) (simp add: unspan_def)
  qed simp
  show "items_bare xs = items_bare vs \<Longrightarrow> ?thesis" by (simp only: eq)
qed

lemma takes_record:
  assumes v: "values_read fmt value b d" and ty: "is_pascal_case (spanned_value ty)"
    and fs: "fields_spelled (spells fmt d) (spanned_value fs) us" "list_all (field_ok (printable d)) (spanned_value fs)"
    and s: "sees p (word_piece (spanned_value ty) # us @ qs)" and qs: "qs \<noteq> []"
    and b: "remaining p \<le> b" "remaining p \<le> n" and d: "Suc (depth p) + d \<le> MAX_NESTING"
  shows "takes (name_value value n) p qs (\<lambda>x. bare (spanned_value x) = bare (DRecord ty fs))"
proof (rule takes_record_value [OF ty s])
  obtain ws where us: "us = open_piece # ws" using fields_start [OF fs(1)] by blast
  then show "us @ qs \<noteq> []" "fst (hd (us @ qs)) \<noteq> TokDot" by simp_all
  fix x q assume q: "spanned_value x = spanned_value ty" "quietly p q" "sees q (us @ qs)"
  have k: "\<not> at_kind TokIdentifier q" "at_kind TokLeftBrace q" using sees_at [of q] q(3) us by auto
  have rem: "remaining q \<le> remaining p" using sees_length [OF q(3)] sees_length [OF s] by simp
  have "takes (and_then (parse_fields value n) (\<lambda>fs. ok (Spanned (DRecord x fs) (span_to (spanned_span x) (spanned_span fs))))) q qs
      (\<lambda>x. bare (spanned_value x) = bare (DRecord ty fs))"
    by (rule takes_then [OF takes_fields [OF v fs q(3) qs]])
      (use rem b d q(1,2) in \<open>auto simp: quietly_def unspan_def [of ty] unspan_def [of x] intro!: takes_ok bare_fields\<close>)
  then show "takes (typed_value value n x) q qs (\<lambda>x. bare (spanned_value x) = bare (DRecord ty fs))"
    by (rule takes_at [rotated]) (simp add: k typed_value_def del: str_simps)
qed

lemma takes_named:
  assumes v: "values_read fmt value b d" and ty: "is_pascal_case (spanned_value ty)" "name_ok (spanned_value name)"
    and fs: "fields_spelled (spells fmt d) (spanned_value fs) us" "list_all (field_ok (printable d)) (spanned_value fs)"
    and s: "sees p (word_piece (spanned_value ty) # word_piece (spanned_value name) # us @ qs)" and qs: "qs \<noteq> []"
    and b: "remaining p \<le> b" "remaining p \<le> n" and d: "Suc (depth p) + d \<le> MAX_NESTING"
  shows "takes (name_value value n) p qs (\<lambda>x. bare (spanned_value x) = bare (DNamed ty name fs))"
proof (rule takes_record_value [OF ty(1) s])
  obtain ws where us: "us = open_piece # ws" using fields_start [OF fs(1)] by blast
  have w: "word_piece (spanned_value name) = (TokIdentifier, spanned_value name)"
    using ty(2) by (simp add: word_piece_kind name_ok_def)
  then show "word_piece (spanned_value name) # us @ qs \<noteq> []" "fst (hd (word_piece (spanned_value name) # us @ qs)) \<noteq> TokDot"
    by simp_all
  fix x q assume q: "spanned_value x = spanned_value ty" "quietly p q" "sees q (word_piece (spanned_value name) # us @ qs)"
  have k: "at_kind TokIdentifier q" "token_kind (peek_at (Suc 0) q) = TokLeftBrace"
    using sees_at [of q] sees_second [of q] q(3) us w by auto
  have more: "us @ qs \<noteq> []" using us by simp
  have "takes (and_then (parse_identifier (str ''an object's name'') False) (\<lambda>name.
      and_then (parse_fields value n) (\<lambda>fs. ok (Spanned (DNamed x name fs) (span_to (spanned_span x) (spanned_span fs)))))) q qs
      (\<lambda>x. bare (spanned_value x) = bare (DNamed ty name fs))"
  proof (rule takes_then [OF takes_identifier [OF q(3) more]])
    fix y r assume r: "spanned_value y = spanned_value name" "quietly q r" "sees r (us @ qs)"
    have rem: "remaining r \<le> remaining p" using sees_length [OF r(3)] sees_length [OF s] by simp
    show "takes (and_then (parse_fields value n) (\<lambda>fs. ok (Spanned (DNamed x y fs) (span_to (spanned_span x) (spanned_span fs))))) r qs
      (\<lambda>x. bare (spanned_value x) = bare (DNamed ty name fs))"
      by (rule takes_then [OF takes_fields [OF v fs r(3) qs]])
        (use rem b d q(1,2) r(1,2) in \<open>auto simp: quietly_def unspan_def [of ty] unspan_def [of x] unspan_def [of y] unspan_def [of name] intro!: takes_ok bare_fields\<close>)
  qed (use ty(2) in simp)
  then show "takes (typed_value value n x) q qs (\<lambda>x. bare (spanned_value x) = bare (DNamed ty name fs))"
    by (rule takes_at [rotated]) (simp add: k typed_value_def del: str_simps)
qed

lemma canonical_numbers:
  "in_i64 i \<Longrightarrow> number_literal fmt TokInteger neg (show_int i) = Some (Inr (DInteger i))"
  "float_laws fmt \<Longrightarrow> f32_is_finite x \<Longrightarrow> number_literal fmt TokFloat neg (canonical_float fmt x) = Some (Inr (DFloat x))"
  "valid_duration d \<Longrightarrow> number_literal fmt TokDuration False (canonical_duration d) = Some (Inr (DDuration d))"
  "- (2 ^ 63) < m \<Longrightarrow> m < 2 ^ 63 \<Longrightarrow> number_literal fmt TokDistance neg (canonical_distance m) = Some (Inr (DDistance m))"
  by (simp_all add: number_literal_def integer_canonical float_canonical canonical_duration_body duration_canonical
    canonical_distance_body distance_canonical)

lemma canonical_float_nonempty: "canonical_float fmt x \<noteq> []"
  by (auto simp: canonical_float_def Let_def)

lemma value_body_at:
  "token_kind (here p) \<in> {TokMinus, TokInteger, TokFloat, TokDuration, TokDistance} \<Longrightarrow> value_body fmt value n p = parse_number fmt p"
  "token_kind (here p) = TokIdentifier \<Longrightarrow> value_body fmt value n p = name_value value n p"
  by (auto simp: value_body_def Let_def peek_token_def)

lemma signed_start: "t \<noteq> [] \<Longrightarrow> sees p (signed k t @ qs) \<Longrightarrow> token_kind (here p) \<in> {TokMinus, k}"
  using sees_head [of p "(TokMinus, [45])"] sees_head [of p "(k, t)"] by (fastforce simp: signed_def split: if_splits)

lemma word_constant_pieces:
  "word_piece (str ''true'') = (TokKeyword KwTrue, str ''true'')" "word_piece (str ''false'') = (TokKeyword KwFalse, str ''false'')"
  "word_piece (str ''none'') = (TokKeyword KwNone, str ''none'')" "word_piece (str ''import'') = (TokKeyword KwImport, str ''import'')"
  "word_piece (str ''from'') = (TokKeyword KwFrom, str ''from'')"
  by code_simp+

lemma takes_eq: "takes m' p qs good \<Longrightarrow> m p = m' p \<Longrightarrow> takes m p qs good"
  by (simp add: takes_def)

lemma takes_then_eq:
  assumes "v p = and_then m f p" "takes m p qs good"
    and "\<And>x q. \<lbrakk>good x; quietly p q; sees q qs\<rbrakk> \<Longrightarrow> takes (f x) q us fine"
  shows "takes v p us fine"
  by (rule takes_eq [where m' = "and_then m f"], rule takes_then [OF assms(2,3)], simp_all add: assms(1))

lemma takes_leaf:
  "takes m p qs (\<lambda>x. spanned_value x = w) \<Longrightarrow> m' p = m p \<Longrightarrow> bare w = bare v \<Longrightarrow>
   takes m' p qs (\<lambda>x. bare (spanned_value x) = bare v)"
  by (auto simp: takes_def)

lemma takes_value_body:
  assumes ok: "value_ok allowed inner v" and sp: "value_spelled fmt spelled v ps" and laws: "float_laws fmt"
    and s: "sees p (ps @ qs)" and fol: "follows qs" and n: "remaining p \<le> n"
    and inner: "allowed \<Longrightarrow> inner = printable d \<and> spelled = spells fmt d \<and> values_read fmt value n d \<and> Suc (depth p) + d \<le> MAX_NESTING"
  shows "takes (value_body fmt value n) p qs (\<lambda>x. bare (spanned_value x) = bare v)"
proof -
  have qs: "qs \<noteq> []" using fol by (simp add: follows_def)
  have number: ?thesis
    if "sees p (signed k t @ qs)" "t \<noteq> []" "k \<in> {TokInteger, TokFloat, TokDuration, TokDistance}"
      "number_literal fmt k (hd t = 45) t = Some (Inr w)" "bare w = bare v" for k t w
  proof -
    have "token_kind (here p) \<in> {TokMinus, TokInteger, TokFloat, TokDuration, TokDistance}"
      using signed_start [OF that(2,1)] that(3) by auto
    moreover have "takes (parse_number fmt) p qs (\<lambda>x. bare (spanned_value x) = bare v)"
      by (rule takes_weaken [OF takes_number [OF that(1) qs that(2-4)]]) (simp add: that(5))
    ultimately show ?thesis by (rule takes_at [OF value_body_at(1)])
  qed
  show ?thesis
  proof (cases v)
    case (DInteger i)
    then show ?thesis using ok sp s
      by (intro number [of TokInteger "show_int i" "DInteger i"]) (simp_all add: value_ok_def value_spelled_def canonical_texts canonical_numbers)
  next
    case (DFloat x)
    then show ?thesis using ok sp s laws
      by (intro number [of TokFloat "canonical_float fmt x" "DFloat x"])
        (simp_all add: value_ok_def value_spelled_def canonical_float_nonempty canonical_numbers)
  next
    case (DDuration x)
    then show ?thesis using ok sp s
      by (intro number [of TokDuration "canonical_duration x" "DDuration x"])
        (simp_all add: value_ok_def value_spelled_def canonical_texts canonical_numbers signed_def)
  next
    case (DDistance m)
    then show ?thesis using ok sp s
      by (intro number [of TokDistance "canonical_distance m" "DDistance m"])
        (simp_all add: value_ok_def value_spelled_def canonical_texts canonical_numbers)
  next
    case (DColor c)
    then have s': "sees p ((TokColor, color_to_hex c) # qs)" using sp s by (simp add: value_spelled_def)
    have "color_from_bytes (color_to_bytes c) = c" using ok DColor by (simp add: value_ok_def)
    from takes_color [OF s' qs this] show ?thesis
      by (rule takes_leaf) (use sees_head [OF s'] in \<open>simp_all add: value_body_def peek_token_def Let_def DColor\<close>)
  next
    case (DString t)
    then have s': "sees p ((TokString, quoted t) # qs)" and t: "plain_text t" using sp s ok by (simp_all add: value_spelled_def value_ok_def)
    from takes_string [OF s' qs t] show ?thesis
      by (rule takes_leaf) (use sees_head [OF s'] in \<open>simp_all add: value_body_def peek_token_def Let_def DString\<close>)
  next
    case (DPath t)
    then have s': "sees p ((TokPath, 60 # t @ [62]) # qs)" using sp s by (simp add: value_spelled_def)
    from takes_path [OF s' qs] show ?thesis
      by (rule takes_leaf) (use sees_head [OF s'] in \<open>simp_all add: value_body_def peek_token_def Let_def DPath\<close>)
  next
    case (DBool x)
    then have s': "sees p ((TokKeyword (if x then KwTrue else KwFalse), if x then str ''true'' else str ''false'') # qs)"
      using sp s by (simp add: value_spelled_def word_constant_pieces split: if_splits del: str_simps)
    have "takes (literal_value (here p) (DBool x)) p qs (\<lambda>y. spanned_value y = DBool x)" by (rule takes_literal [OF s' qs]) simp
    then show ?thesis
      by (rule takes_leaf) (use sees_head [OF s'] in \<open>simp_all add: value_body_def peek_token_def Let_def DBool\<close>)
  next
    case DNone
    then have s': "sees p ((TokKeyword KwNone, str ''none'') # qs)"
      using sp s by (simp add: value_spelled_def word_constant_pieces del: str_simps)
    have "takes (literal_value (here p) DNone) p qs (\<lambda>y. spanned_value y = DNone)" by (rule takes_literal [OF s' qs]) simp
    then show ?thesis
      by (rule takes_leaf) (use sees_head [OF s'] in \<open>simp_all add: value_body_def peek_token_def Let_def DNone\<close>)
  next
    case (DReference segments)
    then obtain a as where a: "map spanned_value segments = a # as" "name_ok a" "list_all segment_ok as"
      using ok by (auto simp: value_ok_def split: list.splits)
    have s': "sees p (word_piece a # concat (map (\<lambda>t. [dot_piece, word_piece t]) as) @ qs)"
      using sp s by (simp add: value_spelled_def DReference a(1))
    have k: "word_piece a = (TokIdentifier, a)" using a(2) by (simp add: name_ok_def word_piece_kind)
    have h: "token_kind (here p) = TokIdentifier" "token_text p (here p) = Some a" using sees_head [OF s'] k by simp_all
    have "name_value value n p = reference_value n p"
      using snake_not_pascal a(2) by (simp add: name_value_def peek_token_def Let_def and_then_def unreachable_unless_def h(2) name_ok_def)
    then have eq: "value_body fmt value n p = reference_value n p" using value_body_at(2) [OF h(1)] by simp
    have same: "bare (DReference ys) = bare (DReference segments)" if "map spanned_value ys = a # as" for ys
    proof -
      have "map unspan xs = map (\<lambda>t. Spanned t no_span) (map spanned_value xs)" for xs :: "ident spanned list"
        by (simp add: unspan_def)
      then show ?thesis using that a(1) by (metis bare.simps(10))
    qed
    show ?thesis
      by (rule takes_eq [where m' = "reference_value n"], rule takes_weaken [OF takes_reference [OF a(2,3) s' fol n]])
        (use same DReference eq in \<open>(elim exE conjE, simp del: bare.simps), simp\<close>)
  next
    case (DVariant ty)
    then have s': "sees p (word_piece (spanned_value ty) # qs)" and ty: "is_pascal_case (spanned_value ty)"
      using sp s ok by (simp_all add: value_spelled_def value_ok_def)
    have "token_kind (here p) = TokIdentifier" using sees_head [OF s'] by (simp add: word_piece_kind pascal_keyword ty)
    from takes_eq [OF takes_variant [OF ty s' fol], of "value_body fmt value n", OF value_body_at(2) [OF this]]
    show ?thesis by (simp add: DVariant)
  next
    case (DRecord ty fs)
    then obtain us where us: "fields_spelled spelled (spanned_value fs) us" "ps = word_piece (spanned_value ty) # us"
      using sp by (auto simp: value_spelled_def)
    have v: "allowed" "is_pascal_case (spanned_value ty)" "list_all (field_ok inner) (spanned_value fs)" using ok by (simp_all add: value_ok_def DRecord)
    note i = inner [OF v(1)]
    have s': "sees p (word_piece (spanned_value ty) # us @ qs)" using s us(2) by simp
    have "token_kind (here p) = TokIdentifier" using sees_head [OF s'] by (simp add: word_piece_kind pascal_keyword v(2))
    then have eq: "value_body fmt value n p = name_value value n p" by (rule value_body_at(2))
    from takes_record [of fmt "value" n d ty fs us p qs n] i us(1) v s' qs n
    have "takes (name_value value n) p qs (\<lambda>x. bare (spanned_value x) = bare v)" by (simp add: DRecord)
    then show ?thesis using eq by (rule takes_eq)
  next
    case (DNamed ty name fs)
    then obtain us where us: "fields_spelled spelled (spanned_value fs) us"
      "ps = word_piece (spanned_value ty) # word_piece (spanned_value name) # us" using sp by (auto simp: value_spelled_def)
    have v: "allowed" "is_pascal_case (spanned_value ty)" "name_ok (spanned_value name)" "list_all (field_ok inner) (spanned_value fs)"
      using ok by (simp_all add: value_ok_def DNamed)
    note i = inner [OF v(1)]
    have s': "sees p (word_piece (spanned_value ty) # word_piece (spanned_value name) # us @ qs)" using s us(2) by simp
    have "token_kind (here p) = TokIdentifier" using sees_head [OF s'] by (simp add: word_piece_kind pascal_keyword v(2))
    then have eq: "value_body fmt value n p = name_value value n p" by (rule value_body_at(2))
    from takes_named [of fmt "value" n d ty name fs us p qs n] i us(1) v s' qs n
    have "takes (name_value value n) p qs (\<lambda>x. bare (spanned_value x) = bare v)" by (simp add: DNamed)
    then show ?thesis using eq by (rule takes_eq)
  next
    case (DMap fs)
    then have v: "allowed" "list_all (field_ok inner) fs" and us: "fields_spelled spelled fs ps"
      using ok sp by (simp_all add: value_ok_def value_spelled_def)
    note i = inner [OF v(1)]
    obtain ws where ws: "ps = open_piece # ws" using fields_start [OF us] by blast
    have "token_kind (here p) = TokLeftBrace" using sees_head [of p open_piece "ws @ qs"] s ws by simp
    then have eq: "value_body fmt value n p = and_then (parse_fields value n) (\<lambda>fs. ok (Spanned (DMap (spanned_value fs)) (spanned_span fs))) p"
      by (simp add: value_body_def peek_token_def Let_def)
    have "takes (parse_fields value n) p qs (\<lambda>x. map bare_field (spanned_value x) = map bare_field fs)"
      using i us v s qs n by (intro takes_fields) auto
    then show ?thesis
      by (rule takes_then_eq [where v = "value_body fmt value n" and p = p, OF eq]) (auto simp: DMap intro: takes_ok)
  next
    case (DList items)
    then obtain us where us: "items_spelled spelled items us" "ps = (TokLeftBracket, [91]) # us @ [(TokRightBracket, [93])]"
      using sp by (auto simp: value_spelled_def)
    have v: "allowed" "list_all (\<lambda>i. inner (spanned_value i)) items" using ok by (simp_all add: value_ok_def DList)
    note i = inner [OF v(1)]
    have s': "sees p ((TokLeftBracket, [91]) # us @ (TokRightBracket, [93]) # qs)" using s us(2) by simp
    then have eq: "value_body fmt value n p = and_then (parse_items value n TokRightBracket (str ''`]`'')) (\<lambda>(vs, span). ok (Spanned (DList vs) span)) p"
      using sees_head [OF s'] by (simp add: value_body_def peek_token_def Let_def)
    have "takes (parse_items value n TokRightBracket (str ''`]`'')) p qs (\<lambda>x. items_bare (fst x) = items_bare items)"
      using i us(1) v s' qs n by (intro takes_items [where d = d and b = n and ps = us]) (auto simp: closer_def)
    then show ?thesis
      by (rule takes_then_eq [where v = "value_body fmt value n" and p = p, OF eq]) (auto simp: DList intro!: takes_ok bare_items simp del: map_map)
  next
    case (DTuple items)
    then obtain us where us: "items_spelled spelled items us" "ps = (TokLeftParen, [40]) # us @ [(TokRightParen, [41])]"
      using sp by (auto simp: value_spelled_def)
    have v: "allowed" "list_all (\<lambda>i. inner (spanned_value i)) items" "2 \<le> length items" using ok by (simp_all add: value_ok_def DTuple)
    note i = inner [OF v(1)]
    have s': "sees p ((TokLeftParen, [40]) # us @ (TokRightParen, [41]) # qs)" using s us(2) by simp
    then have eq: "value_body fmt value n p = and_then (parse_items value n TokRightParen (str ''`)`'')) tuple_value p"
      using sees_head [OF s'] by (simp add: value_body_def peek_token_def Let_def)
    have "takes (parse_items value n TokRightParen (str ''`)`'')) p qs (\<lambda>x. items_bare (fst x) = items_bare items)"
      using i us(1) v s' qs n by (intro takes_items [where d = d and b = n and ps = us]) (auto simp: closer_def)
    moreover have "takes (tuple_value x) q qs (\<lambda>x. bare (spanned_value x) = bare v)"
      if "items_bare (fst x) = items_bare items" "sees q qs" for x q
    proof -
      have "length (fst x) = length items" using map_eq_imp_length_eq [OF that(1)] .
      then show ?thesis using v(3) that bare_items [OF that(1)]
        by (simp add: takes_def tuple_value_def case_prod_beta and_then_def change_def ok_def DTuple del: map_map)
    qed
    ultimately show ?thesis by (rule takes_then_eq [where v = "value_body fmt value n" and p = p, OF eq]) auto
  next
    case DError
    then show ?thesis using ok by (simp add: value_ok_def)
  qed
qed


lemma values_read_parse:
  assumes laws: "float_laws fmt"
  shows "values_read fmt (parse_value fmt n) n d"
proof (induction n arbitrary: d)
  case 0
  show ?case by (simp add: values_read_def)
next
  case (Suc n)
  show ?case unfolding values_read_def parse_value.simps
  proof (intro allI impI)
    fix v ps p qs
    assume h: "printable d v" "spells fmt d v ps" "sees p (ps @ qs)" "follows qs" "remaining p < Suc n"
      "depth p + d \<le> MAX_NESTING"
    show "takes (value_body fmt (parse_value fmt n) n) p qs (\<lambda>x. bare (spanned_value x) = bare v)"
    proof (cases d)
      case 0
      with h show ?thesis by (intro takes_value_body [OF _ _ laws, where allowed = False]) auto
    next
      case (Suc e)
      with h Suc.IH show ?thesis by (intro takes_value_body [OF _ _ laws, where allowed = True and d = e]) auto
    qed
  qed
qed

section \<open>Imports and declarations\<close>

lemma takes_path_token:
  assumes s: "sees p ((TokPath, 60 # t @ [62]) # qs)" and qs: "qs \<noteq> []"
  shows "takes parse_path p qs (\<lambda>x. spanned_value x = t)"
  using sees_head [OF s] sees_step [OF s qs] sees_advance [OF s qs]
  by (simp add: takes_def parse_path_def and_then_def expect_def sees_at [OF s] ok_def unreachable_unless_def
      token_text_def quietly_def)

lemma takes_more_paths:
  "sees p (concat (map (\<lambda>t. [comma_piece, (TokPath, 60 # t @ [62])]) ts) @ qs) \<Longrightarrow> qs \<noteq> [] \<Longrightarrow> fst (hd qs) \<noteq> TokComma \<Longrightarrow>
   remaining p < n \<Longrightarrow>
   takes (more_paths n acc) p qs (\<lambda>xs. map spanned_value xs = map spanned_value acc @ ts)"
proof (induction ts arbitrary: p n acc)
  case Nil
  then have "\<not> at_kind TokComma p" using sees_at [of p "fst (hd qs)" "snd (hd qs)" "tl qs"] by (cases qs) auto
  with Nil show ?case by (cases n) (auto simp: takes_def eat_token_def ok_def)
next
  case (Cons t ts)
  let ?later = "concat (map (\<lambda>t. [comma_piece, (TokPath, 60 # t @ [62])]) ts) @ qs"
  have s: "sees p (comma_piece # (TokPath, 60 # t @ [62]) # ?later)" using Cons.prems(1) by simp
  note one = sees_step [OF s, simplified]
  obtain m where m: "n = Suc m" using Cons.prems(4) by (cases n) auto
  have more: "?later \<noteq> []" using Cons.prems(2) by auto
  have e: "eat_token TokComma p = (True, step p)" using sees_advance [OF s] by (simp add: eat_token_def sees_at [OF s])
  have "takes (and_then parse_path (\<lambda>x. more_paths m (acc @ [x]))) (step p) qs
      (\<lambda>xs. map spanned_value xs = map spanned_value acc @ t # ts)"
  proof (rule takes_then [OF takes_path_token [OF one(1) more]])
    fix x q assume q: "spanned_value x = t" "quietly (step p) q" "sees q ?later"
    have "remaining q < m" using sees_length [OF q(3)] sees_length [OF one(1)] one(3) m Cons.prems(4) by simp
    from Cons.IH [OF q(3) Cons.prems(2,3) this, of "acc @ [x]"] q(1)
    show "takes (more_paths m (acc @ [x])) q qs (\<lambda>xs. map spanned_value xs = map spanned_value acc @ t # ts)" by simp
  qed
  then show ?case unfolding m takes_def using e one(2) by (auto intro: quietly_trans)
qed

text \<open>The equality of the source, which ignores spans.\<close>

definition bare_import :: "data_import \<Rightarrow> rstr \<times> rstr list" where
  "bare_import i = (spanned_value (import_alias i), map spanned_value (import_paths i))"

definition bare_declaration :: "data_declaration \<Rightarrow> rstr \<times> rstr \<times> data_field list" where
  "bare_declaration x = (spanned_value (declaration_type x), spanned_value (declaration_name x),
     map bare_field (spanned_value (declaration_fields x)))"

definition same_document :: "data_document \<Rightarrow> data_document \<Rightarrow> bool" where
  "same_document d e \<longleftrightarrow> map bare_import (doc_imports d) = map bare_import (doc_imports e) \<and>
     map bare_declaration (doc_declarations d) = map bare_declaration (doc_declarations e)"

lemma takes_advance:
  "sees p ((k, t) # qs) \<Longrightarrow> qs \<noteq> [] \<Longrightarrow> k \<noteq> TokEof \<Longrightarrow> takes (change (\<lambda>p. snd (advance p))) p qs (\<lambda>_. True)"
  using sees_step [of p "(k, t)" qs] by (simp add: takes_def change_def sees_advance)

lemma takes_import:
  assumes i: "import_ok i" and s: "sees p (import_pieces i @ qs)" and qs: "qs \<noteq> []" and n: "remaining p \<le> n"
  shows "takes (parse_import n) p qs (\<lambda>x. bare_import x = bare_import i)"
proof -
  obtain t ts where ts: "map spanned_value (import_paths i) = t # ts" using i by (cases "import_paths i") (auto simp: import_ok_def)
  let ?last = "(TokSemicolon, [59]) # qs"
  let ?more = "concat (map (\<lambda>t. [comma_piece, (TokPath, 60 # t @ [62])]) ts) @ ?last"
  have "map (\<lambda>p. (TokPath, 60 # spanned_value p @ [62])) (import_paths i) = map (\<lambda>t. (TokPath, 60 # t @ [62])) (t # ts)"
    using ts [symmetric] by simp
  then have paths: "path_pieces (import_paths i) @ ?last = (TokPath, 60 # t @ [62]) # ?more"
    by (simp add: path_pieces_def comp_def)
  have s0: "sees p ((TokKeyword KwImport, str ''import'') # word_piece (spanned_value (import_alias i)) #
      (TokKeyword KwFrom, str ''from'') # (TokPath, 60 # t @ [62]) # ?more)"
    using s paths by (simp add: import_pieces_def word_constant_pieces del: str_simps)
  have named: "name_ok (spanned_value (import_alias i))" using i by (simp add: import_ok_def)
  have len: "remaining q < n" if "sees q ?more" for q
    using sees_length [OF that] sees_length [OF s0] n by simp
  show ?thesis unfolding parse_import_def
    apply (rule takes_then [OF takes_advance [OF s0]], simp, simp)
    apply (rule takes_then [OF takes_identifier], assumption, simp, simp add: named)
    apply (rule takes_then [OF takes_expect], assumption, simp, simp)
    apply (rule takes_then [OF takes_path_token], assumption, simp)
    apply (rule takes_then [OF takes_more_paths], assumption, simp, simp, erule len)
    apply (rule takes_then [OF takes_expect], assumption, rule qs, simp)
    apply (rule takes_ok, assumption, simp add: bare_import_def ts)
    done
qed

lemma takes_declaration:
  assumes laws: "float_laws fmt" and x: "declaration_ok 127 x" and us: "declaration_spelled fmt 127 x us"
    and s: "sees p (us @ qs)" and qs: "qs \<noteq> []" and n: "remaining p \<le> n" and d: "depth p = 0"
  shows "takes (parse_declaration fmt n) p qs (\<lambda>y. bare_declaration y = bare_declaration x)"
proof -
  obtain ws where ws: "fields_spelled (spells fmt 127) (spanned_value (declaration_fields x)) ws"
    "us = word_piece (spanned_value (declaration_type x)) # word_piece (spanned_value (declaration_name x)) # ws"
    using us by (auto simp: declaration_spelled_def)
  have ok: "is_pascal_case (spanned_value (declaration_type x))" "name_ok (spanned_value (declaration_name x))"
    "list_all (field_ok (printable 127)) (spanned_value (declaration_fields x))"
    using x by (simp_all add: declaration_ok_def)
  have s0: "sees p (word_piece (spanned_value (declaration_type x)) # word_piece (spanned_value (declaration_name x)) # ws @ qs)"
    using s ws(2) by simp
  have len: "remaining q < n" if "sees q (ws @ qs)" for q
    using sees_length [OF that] sees_length [OF s0] n by simp
  show ?thesis unfolding parse_declaration_def
    apply (rule takes_then [OF takes_identifier [OF s0]], simp, simp add: ok)
    apply (rule takes_then [OF takes_identifier], assumption, simp add: qs, simp add: ok)
    apply (rule takes_then [OF takes_fields [OF values_read_parse [OF laws] ws(1) ok(3)]], assumption, rule qs)
       apply (simp add: len less_imp_le)
      apply (simp add: len less_imp_le)
     apply (simp add: quietly_def d MAX_NESTING_def)
    apply (rule takes_ok, assumption, simp add: bare_declaration_def)
    done
qed

text \<open>Reading a part of a document leaves the parser before what follows, with some fuel used.\<close>

definition grows :: "data_document \<Rightarrow> (rstr \<times> rstr list) list \<Rightarrow> (rstr \<times> rstr \<times> data_field list) list \<Rightarrow> data_document \<Rightarrow> bool" where
  "grows d is xs e \<longleftrightarrow> map bare_import (doc_imports e) = map bare_import (doc_imports d) @ is \<and>
     map bare_declaration (doc_declarations e) = map bare_declaration (doc_declarations d) @ xs"

lemma document_step:
  assumes part: "takes (parse_part fmt n) p qs good" and p: "\<not> at_kind TokEof p"
    and more: "\<And>add q. \<lbrakk>good add; quietly p q; sees q qs\<rbrakk> \<Longrightarrow> takes (document_from fmt n (add d)) q us fine"
  shows "takes (document_from fmt (Suc n) d) p us fine"
proof -
  obtain add q where q: "parse_part fmt n p = Some (Some add, q)" "good add" "quietly p q" "sees q qs"
    using part by (auto simp: takes_def)
  from more [OF q(2-4)] q(1,3) p show ?thesis by (auto simp: takes_def intro: quietly_trans)
qed

lemma takes_declarations:
  assumes laws: "float_laws fmt"
  shows "list_all2 (declaration_spelled fmt 127) xs pss \<Longrightarrow> list_all (declaration_ok 127) xs \<Longrightarrow>
    sees p (concat pss @ [(TokEof, [])]) \<Longrightarrow> depth p = 0 \<Longrightarrow> remaining p < n \<Longrightarrow>
    takes (document_from fmt n d) p [(TokEof, [])] (grows d [] (map bare_declaration xs))"
proof (induction xs pss arbitrary: p n d rule: list_all2_induct)
  case Nil
  then show ?case by (cases n) (auto simp: takes_def sees_at ok_def grows_def)
next
  case (Cons x xs ps pss)
  let ?qs = "concat pss @ [(TokEof, [])]"
  obtain m where m: "n = Suc m" using Cons.prems(4) by (cases n) auto
  obtain ws where ps: "ps = (TokIdentifier, spanned_value (declaration_type x)) # ws"
    using Cons.hyps(1) Cons.prems(1) by (auto simp: declaration_spelled_def declaration_ok_def pascal_keyword word_piece_kind)
  have s: "sees p (ps @ ?qs)" using Cons.prems(2) by simp
  have kind: "\<not> at_kind TokEof p" "\<not> at_kind (TokKeyword KwImport) p" using s ps by (simp_all add: sees_at)
  have part: "takes (parse_part fmt m) p ?qs (\<lambda>add. \<exists>y. add = add_declaration y \<and> bare_declaration y = bare_declaration x)"
  proof (rule takes_then_eq [where v = "parse_part fmt m" and p = p and m = "parse_declaration fmt m" and f = "\<lambda>d. ok (add_declaration d)"])
    show "takes (parse_declaration fmt m) p ?qs (\<lambda>y. bare_declaration y = bare_declaration x)"
      using Cons.prems Cons.hyps(1) m by (intro takes_declaration [OF laws _ _ s]) simp_all
  qed (auto simp: parse_part_def kind intro: takes_ok)
  show ?case unfolding m
  proof (rule document_step [OF part kind(1)])
    fix add q assume q: "\<exists>y. add = add_declaration y \<and> bare_declaration y = bare_declaration x" "quietly p q" "sees q ?qs"
    then obtain y where y: "add = add_declaration y" "bare_declaration y = bare_declaration x" by blast
    have "remaining q < m" using sees_length [OF q(3)] sees_length [OF s] ps Cons.prems(4) m by simp
    then have "takes (document_from fmt m (add d)) q [(TokEof, [])] (grows (add d) [] (map bare_declaration xs))"
      using Cons.prems q(2,3) by (intro Cons.IH) (simp_all add: quietly_def)
    then show "takes (document_from fmt m (add d)) q [(TokEof, [])] (grows d [] (map bare_declaration (x # xs)))"
      by (rule takes_weaken) (simp add: grows_def y add_declaration_def)
  qed
qed

lemma takes_document:
  assumes laws: "float_laws fmt"
    and xs: "list_all2 (declaration_spelled fmt 127) xs pss" "list_all (declaration_ok 127) xs"
  shows "list_all import_ok is \<Longrightarrow> sees p (concat (map import_pieces is) @ concat pss @ [(TokEof, [])]) \<Longrightarrow> depth p = 0 \<Longrightarrow>
    remaining p < n \<Longrightarrow>
    takes (document_from fmt n d) p [(TokEof, [])] (grows d (map bare_import is) (map bare_declaration xs))"
proof (induction "is" arbitrary: p n d)
  case Nil
  then show ?case using takes_declarations [OF laws xs] by simp
next
  case (Cons i "is")
  let ?qs = "concat (map import_pieces is) @ concat pss @ [(TokEof, [])]"
  obtain m where m: "n = Suc m" using Cons.prems(4) by (cases n) auto
  have s: "sees p (import_pieces i @ ?qs)" using Cons.prems(2) by simp
  obtain ws where ps: "import_pieces i = (TokKeyword KwImport, str ''import'') # ws"
    by (simp add: import_pieces_def word_constant_pieces del: str_simps)
  have kind: "\<not> at_kind TokEof p" "at_kind (TokKeyword KwImport) p" using s ps by (simp_all add: sees_at del: str_simps)
  have part: "takes (parse_part fmt m) p ?qs (\<lambda>add. \<exists>y. add = add_import y \<and> bare_import y = bare_import i)"
  proof (rule takes_then_eq [where v = "parse_part fmt m" and p = p and m = "parse_import m" and f = "\<lambda>i. ok (add_import i)"])
    show "takes (parse_import m) p ?qs (\<lambda>y. bare_import y = bare_import i)"
      using Cons.prems m by (intro takes_import [OF _ s]) simp_all
  qed (auto simp: parse_part_def kind intro: takes_ok)
  show ?case unfolding m
  proof (rule document_step [OF part kind(1)])
    fix add q assume q: "\<exists>y. add = add_import y \<and> bare_import y = bare_import i" "quietly p q" "sees q ?qs"
    then obtain y where y: "add = add_import y" "bare_import y = bare_import i" by blast
    have "remaining q < m" using sees_length [OF q(3)] sees_length [OF s] ps Cons.prems(4) m by simp
    then have "takes (document_from fmt m (add d)) q [(TokEof, [])] (grows (add d) (map bare_import is) (map bare_declaration xs))"
      using Cons.prems q(2,3) by (intro Cons.IH) (simp_all add: quietly_def)
    then show "takes (document_from fmt m (add d)) q [(TokEof, [])] (grows d (map bare_import (i # is)) (map bare_declaration xs))"
      by (rule takes_weaken) (simp add: grows_def y add_import_def)
  qed
qed

lemma spot_is_piece: "spot 0 t token p \<Longrightarrow> is_piece t token p"
  using slice_span_of by (auto simp: spot_def is_piece_def)

lemma document_read:
  assumes laws: "float_laws fmt" and d: "document_ok d" and ps: "document_spelled fmt d ps" and t: "reads boundary t ps"
  shows "\<exists>e. parse_document fmt t = Some (e, []) \<and> same_document e d"
proof -
  have all: "list_all2 (is_piece t) (lex_source t Data) (ps @ [(TokEof, [])])"
    using reads_source [OF t] spot_is_piece by (rule list_all2_mono)
  then obtain x ts where x: "lex_source t Data = x # ts" by (cases "lex_source t Data") auto
  let ?p = "\<lparr>parser_source = t, here = x, ahead = ts, depth = 0, diagnostics = []\<rparr>"
  have new: "new_parser t = Some ?p" by (simp add: new_parser_def x)
  obtain pss where pss: "list_all2 (declaration_spelled fmt 127) (doc_declarations d) pss"
    "ps = concat (map import_pieces (doc_imports d)) @ concat pss" using ps by (auto simp: document_spelled_def)
  have "sees ?p (concat (map import_pieces (doc_imports d)) @ concat pss @ [(TokEof, [])])"
    using all by (simp add: sees_def stream_def x pss(2))
  then have "takes (document_from fmt (length ts + 2) empty_document) ?p [(TokEof, [])]
      (grows empty_document (map bare_import (doc_imports d)) (map bare_declaration (doc_declarations d)))"
    using d by (intro takes_document [OF laws pss(1)]) (simp_all add: document_ok_def remaining_def)
  then show ?thesis
    by (auto simp: takes_def parse_document_def new same_document_def grows_def quietly_def empty_document_def)
qed

text \<open>
  C4. What the printer writes is what the parser reads. A document whose names, numbers, colors and
  strings have a spelling (\<open>document_ok\<close>: snake case and Pascal case names that are no keywords, finite
  floats, at most 128 levels of nesting, no raw control characters) prints, on every width the
  layout chooses, to a text that parses without a diagnostic, to the same document apart from spans.
\<close>

theorem print_parse_round_trip:
  assumes "float_laws fmt" "document_ok document"
  shows "\<exists>t parsed. print_document fmt document = Some t \<and> parse_document fmt t = Some (parsed, []) \<and>
    same_document parsed document"
  using print_document_read [OF assms] document_read [OF assms] by blast


text \<open>A float format with the documented behaviour, though not the library's: the number of the bits.\<close>

definition bits_format :: float_format where
  "bits_format = \<lparr>show_f32 = (\<lambda>x. digits (unat x)),
     read_f32 = (\<lambda>t. case split_once 46 t of None \<Rightarrow> None | Some (a, _) \<Rightarrow> Some (word_of_nat (of_digits a)))\<rparr>"

lemma bits_format_laws: "float_laws bits_format"
proof -
  have dots: "46 \<notin> set (digits n)" for n
    using digits_digit [of 46 n] by (auto simp: is_ascii_digit_def)
  have "is_number (digits n)" for n
    using digits_digit [of _ n] by (auto simp: is_number_def list_all_iff)
  then show ?thesis
    using split_once_append [OF dots, of _ "[48]"] dots
    by (fastforce simp: float_laws_def bits_format_def canonical_float_def Let_def)
qed

definition sample_document :: data_document where
  "sample_document =
     \<lparr>doc_imports = [\<lparr>import_alias = Spanned (str ''shared'') no_span, import_paths = [Spanned (str ''a.donder'') no_span]\<rparr>],
      doc_declarations = [\<lparr>declaration_type = Spanned (str ''Cue'') no_span,
        declaration_name = Spanned (str ''opening'') no_span,
        declaration_fields = Spanned
          [DataField (Spanned (str ''level'') no_span) (Spanned (DInteger (-12)) no_span),
           DataField (Spanned (str ''from'') no_span) (Spanned (DList [Spanned (DString (str ''a b'')) no_span,
             Spanned (DFloat 0x3f800000) no_span]) no_span)] no_span\<rparr>]\<rparr>"

lemma sample_document_ok: "document_ok sample_document"
proof -
  have "printable 127 = value_ok True (printable 126)" "printable 126 = value_ok True (printable 125)"
    using printable.simps(2) [of 126] printable.simps(2) [of 125] by simp_all
  moreover have "value_ok a v (DInteger (-12))" "value_ok a v (DString (str ''a b''))" "value_ok a v (DFloat 0x3f800000)" for a v
    unfolding value_ok_def by (simp_all add: in_i64_def f32_is_finite_def f32_magnitude_def plain_text_def is_control_def)
  moreover have "name_ok (str ''shared'')" "name_ok (str ''opening'')" "is_pascal_case (str ''Cue'')"
    "field_name_ok (str ''level'')" "field_name_ok (str ''from'')" "path_ok (str ''a.donder'')" by code_simp+
  ultimately show ?thesis
    by (simp add: sample_document_def document_ok_def import_ok_def declaration_ok_def field_ok_def del: str_simps)
      (simp add: value_ok_def)
qed

theorem print_parse_round_trip_witness:
  "\<exists>t parsed. print_document bits_format sample_document = Some t \<and>
    parse_document bits_format t = Some (parsed, []) \<and> same_document parsed sample_document"
  by (rule print_parse_round_trip [OF bits_format_laws sample_document_ok])

end
