(* ===== verification/ValidDocuments.thy ===== *)
theory ValidDocuments
  imports DataRoundTrip
begin

text \<open>
  What the parser of data documents takes without a diagnostic is a valid document: literals in
  range, strings without control characters, values nested within the limit.
\<close>

section \<open>Literals that are taken\<close>

lemma integer_taken: "integer_literal t = Inr i \<Longrightarrow> in_i64 i"
  by (auto simp: integer_literal_def parse_i64_def parse_digits_def in_i64_def split: option.splits list.splits if_splits)

lemma float_taken: "float_literal fmt t = Inr x \<Longrightarrow> f32_is_finite x"
  by (auto simp: float_literal_def Let_def split: option.splits if_splits)

lemma of_digits_less: "\<forall>c \<in> set t. is_ascii_digit c \<Longrightarrow> of_digits t < 10 ^ length t"
proof (induction t rule: rev_induct)
  case (snoc c t)
  then have "of_digits t < 10 ^ length t" "c \<le> 57" by (simp_all add: is_ascii_digit_def)
  then show ?case by simp
qed simp

lemma seconds_taken: "seconds t = Inr d \<Longrightarrow> valid_duration d"
proof -
  assume s: "seconds t = Inr d"
  define f where "f = trim_end 48 (snd (case split_once 46 t of Some p \<Rightarrow> p | None \<Rightarrow> (t, [])))"
  have f: "list_all is_ascii_digit f" "length f \<le> 9"
    using s by (auto simp: seconds_def Let_def f_def split: prod.splits if_splits)
  obtain n where n: "parse_unsigned (2 ^ 32 - 1) (pad_right 9 f) = Some n" "nanos d = of_nat n"
    using s by (auto simp: seconds_def Let_def f_def split: prod.splits if_splits option.splits)
  have pad: "\<forall>c \<in> set (pad_right 9 f). is_ascii_digit c" "length (pad_right 9 f) = 9"
    using f by (auto simp: pad_right_def list_all_iff is_ascii_digit_def)
  then have "n = of_digits (pad_right 9 f)"
    using n(1) by (subst (asm) parse_unsigned_digits) (auto simp: parse_digits_def split: if_splits)
  then have "n < 10 ^ 9" using of_digits_less [OF pad(1)] pad(2) by simp
  then have "unat (of_nat n :: u32) = n" by (simp add: unat_of_nat)
  then show ?thesis using \<open>n < 10 ^ 9\<close> n(2) by (simp add: valid_duration_def)
qed

lemma duration_taken: "duration_literal t = Inr d \<Longrightarrow> valid_duration d"
  by (auto simp: duration_literal_def Let_def dest: seconds_taken split: sum.splits if_splits)

lemma canonical_distance_sign: "hd (canonical_distance v) = 45 \<longleftrightarrow> v < 0"
  using digits_head by (cases "digits (nat \<bar>v\<bar> div 1000000)") (auto simp: canonical_distance_def Let_def)

lemma distance_taken:
  assumes "distance t = Inr v"
  shows "- (2 ^ 63) < v \<and> v < 2 ^ 63"
proof -
  obtain negative number where n: "(case t of c # cs \<Rightarrow> if c = 45 then (True, cs) else (False, t) | [] \<Rightarrow> (False, t)) = (negative, number)"
    by (metis surj_pair)
  then have sign: "negative \<longleftrightarrow> hd (t @ str ''m'') = 45" by (cases t) (auto split: if_splits)
  obtain meters f where f: "(case split_once 46 number of Some p \<Rightarrow> p | None \<Rightarrow> (number, [])) = (meters, f)" by (metis surj_pair)
  define magnitude where "magnitude = (if negative then - v else v)"
  have v: "in_i64 magnitude" "canonical_distance v = t @ str ''m''"
    using assms unfolding distance_def n f Let_def prod.case
    by (auto split: if_splits option.splits simp del: str_simps simp: magnitude_def add.commute)
  then show ?thesis using canonical_distance_sign [of v] sign by (auto simp: in_i64_def magnitude_def split: if_splits)
qed

lemma color_taken: "color_from_hex t = Some c \<Longrightarrow> color_to_hex c = t \<Longrightarrow> color_from_bytes (color_to_bytes c) = c"
  using color_from_to_hex [of c] by simp

lemma string_chars_taken: "snd (string_chars cs problem) = None \<Longrightarrow> problem = None \<and> plain_text (fst (string_chars cs problem))"
proof (induction cs problem rule: string_chars.induct)
  case (2 c cs problem)
  show ?case
  proof (cases "c = 92")
    case True
    show ?thesis
    proof (cases cs)
      case (Cons d ds)
      show ?thesis
      proof (cases "d = 34 \<or> d = 92 \<or> d = 110 \<or> d = 116")
        case escape: True
        have "snd (string_chars ds problem) = None" using "2.prems" True Cons escape by (simp add: case_prod_beta)
        then have "problem = None \<and> plain_text (fst (string_chars ds problem))"
          using "2.IH"(1) [OF True Cons escape] by blast
        then have "problem = None" "plain_text (fst (string_chars ds None))" by metis+
        then show ?thesis using True Cons escape by (auto simp: case_prod_beta plain_text_def is_control_def)
      next
        case False
        then show ?thesis using "2.IH"(2) [OF True Cons] "2.prems" True Cons by simp
      qed
    qed (use "2.prems" True in simp)
  next
    case False
    then show ?thesis using "2.IH"(3) [OF False] "2.IH"(4) [OF False] "2.prems"
      by (cases "is_control c") (simp_all add: case_prod_beta plain_text_def)
  qed
qed (simp add: plain_text_def)

lemma string_taken: "string_literal q = Inr t \<Longrightarrow> plain_text t"
  using string_chars_taken [of "butlast (tl q)" None]
  by (simp add: string_literal_def case_prod_beta Let_def split: option.splits)

section \<open>Diagnostics stay\<close>

text \<open>A result with a sound parser whose diagnostics are none only if there were none.\<close>

definition calm :: "parser \<Rightarrow> ('a option \<times> parser) option \<Rightarrow> bool" where
  "calm p res \<longleftrightarrow> (\<forall>r q. res = Some (r, q) \<longrightarrow>
     (parser_ok p \<longrightarrow> parser_ok q) \<and> (diagnostics q = [] \<longrightarrow> diagnostics p = []))"

abbreviation (input) calms :: "'a parse \<Rightarrow> bool" where
  "calms m \<equiv> \<forall>p. calm p (m p)"

definition calm_change :: "(parser \<Rightarrow> parser) \<Rightarrow> bool" where
  "calm_change f \<longleftrightarrow> (\<forall>p. (parser_ok p \<longrightarrow> parser_ok (f p)) \<and> (diagnostics (f p) = [] \<longrightarrow> diagnostics p = []))"

named_theorems calm_intros

lemma calm_None [calm_intros]: "calm p None"
  by (simp add: calm_def)

lemma calm_then [calm_intros]: "calm p (m p) \<Longrightarrow> (\<And>x q. calm q (f x q)) \<Longrightarrow> calm p (and_then m f p)"
  unfolding calm_def and_then_def by (auto split: option.splits)

lemma calm_from: "calm q res \<Longrightarrow> (parser_ok p \<longrightarrow> parser_ok q) \<Longrightarrow> (diagnostics q = [] \<longrightarrow> diagnostics p = []) \<Longrightarrow> calm p res"
  by (simp add: calm_def)

lemma calm_ok [calm_intros]: "calm p (ok x p)"
  by (simp add: calm_def ok_def)

lemma calm_unless [calm_intros]: "calm p (unreachable_unless x p)"
  by (auto simp: calm_def unreachable_unless_def)

lemma calm_change [calm_intros]: "calm_change f \<Longrightarrow> calm p (change f p)"
  unfolding calm_def calm_change_def change_def by (metis option.inject prod.inject)

lemma parser_ok_report [simp]: "parser_ok (report d p) = parser_ok p" "parser_ok (error_at s t p) = parser_ok p"
  by (simp_all add: parser_ok_def)

lemma later_diagnostics [simp]:
  "diagnostics (snd (advance p)) = diagnostics p" "diagnostics (step p) = diagnostics p"
  "diagnostics (report d p) \<noteq> []" "diagnostics (error_at s t p) \<noteq> []"
  by (simp_all add: advance_def step_def report_def error_at_def split: list.split)

lemma recover_item_diagnostics [simp]: "diagnostics (recover_item_from close k p) = diagnostics p"
  "diagnostics (recover_item close p) = diagnostics p"
proof -
  show *: "diagnostics (recover_item_from close k p) = diagnostics p" for k
    by (induction close k p rule: recover_item_from.induct) (subst recover_item_from.simps, simp add: Let_def)
  show "diagnostics (recover_item close p) = diagnostics p" by (simp add: recover_item_def *)
qed

lemma recover_declaration_diagnostics [simp]: "diagnostics (recover_declaration p) = diagnostics p"
proof -
  have "diagnostics (recover_declaration_from k p) = diagnostics p" for k p
    by (induction k p rule: recover_declaration_from.induct) (subst recover_declaration_from.simps, simp add: Let_def)
  then show ?thesis by (simp add: recover_declaration_def)
qed

lemma recovered_ok [simp]:
  "parser_ok p \<Longrightarrow> parser_ok (snd (advance p))" "parser_ok p \<Longrightarrow> parser_ok (recover_item close p)"
  "parser_ok p \<Longrightarrow> parser_ok (recover_declaration p)"
proof -
  assume p: "parser_ok p"
  then show a: "parser_ok (snd (advance p))" "parser_ok (recover_item close p)" by (blast intro: later_ok recover_item_later)+
  show "parser_ok (recover_declaration p)"
    unfolding recover_declaration_def by (rule later_ok [OF recover_declaration_from_later a(1)])
qed

lemma calm_changes [calm_intros]:
  "calm_change (\<lambda>p. snd (advance p))" "calm_change (report d)" "calm_change (error_at s t)"
  "calm_change (\<lambda>p. p)" "calm_change (recover_item close)" "calm_change recover_declaration"
  by (simp_all add: calm_change_def)

lemma calm_change_if [calm_intros]: "calm_change f \<Longrightarrow> calm_change g \<Longrightarrow> calm_change (\<lambda>p. if b then f p else g p)"
  by (cases b) simp_all

lemma calm_unexpected: "unexpected what p = Some q \<Longrightarrow> (parser_ok p \<longrightarrow> parser_ok q) \<and> diagnostics q \<noteq> []"
  by (auto simp: unexpected_def Let_def split: if_splits token_kind.splits)

lemma calm_failed [calm_intros]: "calm p (failed what p)"
  using calm_unexpected by (fastforce simp: calm_def failed_def)

lemma calm_expect [calm_intros]: "calm p (expect kind what p)"
  unfolding expect_def by (auto intro!: calm_failed) (simp add: calm_def ok_def)

lemma calm_new_identifier [calm_intros]: "calm p (new_identifier t p)"
  unfolding new_identifier_def by (intro calm_intros)

lemma calm_parse_identifier [calm_intros]: "calm p (parse_identifier what pascal p)"
  unfolding parse_identifier_def Let_def by (intro calm_intros)

lemma calm_leave [calm_intros]: "calm p (leave p)"
  by (auto simp: calm_def leave_def ok_def parser_ok_def stream_def)

lemma calm_nest [calm_intros]: "calm p (nest p)"
  by (auto simp: calm_def nest_def ok_def parser_ok_def stream_def Let_def error_at_def report_def)

lemma calm_case [calm_intros]:
  "(a = None \<Longrightarrow> calm p x) \<Longrightarrow> (\<And>b. a = Some b \<Longrightarrow> calm p (y b)) \<Longrightarrow> calm p (case a of None \<Rightarrow> x | Some b \<Rightarrow> y b)"
  by (simp split: option.split)

lemma calm_if [calm_intros]: "calm p x \<Longrightarrow> calm p y \<Longrightarrow> calm p (if b then x else y)"
  by simp

lemma calm_branches [calm_intros]:
  "(a = None \<Longrightarrow> calm p (m q)) \<Longrightarrow> (\<And>b. a = Some b \<Longrightarrow> calm p (f b q)) \<Longrightarrow>
    calm p ((case a of None \<Rightarrow> m | Some b \<Rightarrow> f b) q)"
  "(\<And>x. s = Inl x \<Longrightarrow> calm p (g x q)) \<Longrightarrow> (\<And>x. s = Inr x \<Longrightarrow> calm p (h x q)) \<Longrightarrow>
    calm p ((case s of Inl x \<Rightarrow> g x | Inr x \<Rightarrow> h x) q)"
  "calm p (m q) \<Longrightarrow> calm p (k q) \<Longrightarrow> calm p ((if b then m else k) q)"
  by (simp_all split: option.split sum.split)

lemma calm_literal_value [calm_intros]: "calm p (literal_value token v p)"
  unfolding literal_value_def by (intro calm_intros)

lemma calm_literals [calm_intros]:
  "calm p (parse_string span p)" "calm p (parse_path p)" "calm p (parse_color token p)"
  "calm p (parse_segment p)"
proof -
  show "calm p (parse_string span p)" unfolding parse_string_def
    by (intro calm_intros)
  show "calm p (parse_path p)" unfolding parse_path_def by (intro calm_intros)
  show "calm p (parse_color token p)" unfolding parse_color_def by (intro calm_intros)
  show "calm p (parse_segment p)" unfolding parse_segment_def by (intro calm_intros)
qed

lemma calm_eat: "eat_token k p = (ate, q) \<Longrightarrow> (parser_ok p \<longrightarrow> parser_ok q) \<and> diagnostics q = diagnostics p"
  by (auto simp: eat_token_def split: if_splits)

lemma calm_parse_number [calm_intros]: "calm p (parse_number fmt p)"
proof -
  obtain negative q where q: "eat_token TokMinus p = (negative, q)" by (cases "eat_token TokMinus p")
  show ?thesis unfolding parse_number_def q Let_def prod.case
    by (rule calm_from [of q], intro calm_intros) (use calm_eat [OF q] in auto)
qed

lemma calm_parse_segments [calm_intros]: "calm p (parse_segments n acc p)"
proof (induction n arbitrary: acc p)
  case (Suc n)
  obtain ate q where q: "eat_token TokDot p = (ate, q)" by (cases "eat_token TokDot p")
  show ?case unfolding parse_segments.simps q prod.case
    by (rule calm_from [of q]) (use calm_eat [OF q] Suc.IH in \<open>auto intro!: calm_intros split: bool.split\<close>)
qed (simp add: calm_None)

lemma calm_more_paths [calm_intros]: "calm p (more_paths n acc p)"
proof (induction n arbitrary: acc p)
  case (Suc n)
  obtain ate q where q: "eat_token TokComma p = (ate, q)" by (cases "eat_token TokComma p")
  show ?case unfolding more_paths.simps q prod.case
    by (rule calm_from [of q]) (use calm_eat [OF q] Suc.IH in \<open>auto intro!: calm_intros split: bool.split\<close>)
qed (simp add: calm_None)

lemma calm_result: "calm p res \<Longrightarrow> res = Some (r, q) \<Longrightarrow> (parser_ok p \<longrightarrow> parser_ok q) \<and> (diagnostics q = [] \<longrightarrow> diagnostics p = [])"
  by (simp add: calm_def)

lemma calm_end_of_list [calm_intros]: "calm p (end_of_list what p)"
proof (cases "unexpected what p")
  case (Some q)
  have "calm q (and_then leave (\<lambda>_ p. Some (None, p)) q)" by (intro calm_intros) (simp add: calm_def)
  then show ?thesis unfolding end_of_list_def Some option.case
    by (rule calm_from) (use calm_unexpected [OF Some] in auto)
qed (simp add: end_of_list_def calm_None)

lemma calm_eaten: "calm p (ok x (snd (eat_token k (recover_item close p))))"
  using calm_eat [of k "recover_item close p", OF surjective_pairing] by (auto simp: calm_def ok_def)

lemma calm_separator [calm_intros]: "calm p (separator close what p)"
proof -
  obtain comma q where q: "eat_token TokComma p = (comma, q)" by (cases "eat_token TokComma p")
  have report: "calm q (case unexpected w q of None \<Rightarrow> None
      | Some p \<Rightarrow> ok () (snd (eat_token TokComma (recover_item close p))))" for w
  proof (cases "unexpected w q")
    case (Some r)
    have "calm q (ok () (snd (eat_token TokComma (recover_item close r))))"
      by (rule calm_from [OF calm_eaten]) (use calm_unexpected [OF Some] in auto)
    then show ?thesis by (simp add: Some)
  qed (simp add: calm_None)
  show ?thesis unfolding separator_def q Let_def prod.case
    by (rule calm_from [of q], intro calm_if calm_ok report) (use calm_eat [OF q] in auto)
qed

lemma calm_advanced: "calm p (let (token, p) = advance p in f token p)" if "\<And>t q. calm q (f t q)"
  unfolding Let_def case_prod_beta
  by (rule calm_from [of "snd (advance p)"]) (simp_all add: that)

lemma calm_field_rest:
  assumes v: "\<And>p. calm p (value p)"
  shows "calm q (case and_then (expect TokColon what) (\<lambda>_. value) q of None \<Rightarrow> None
       | Some (Some v, p) \<Rightarrow> ok (DataField name v) p
       | Some (None, p) \<Rightarrow> ok (DataField name (Spanned DError span)) (recover_item TokRightBrace p))"
proof -
  have "calm q (and_then (expect TokColon what) (\<lambda>_. value) q)" by (intro calm_intros v)
  then show ?thesis
    by (cases "and_then (expect TokColon what) (\<lambda>_. value) q") (auto simp: calm_def ok_def split: option.splits)
qed

lemma calm_field_name: "calm p ((if c then (\<lambda>p. let (token, p) = advance p in new_identifier token p)
    else parse_identifier what pascal) p)"
  by (intro calm_branches(3) calm_advanced calm_new_identifier calm_parse_identifier)

lemma calm_parse_field:
  assumes v: "\<And>p. calm p (value p)"
  shows "calm p (parse_field value p)"
  unfolding parse_field_def Let_def
  by (rule calm_then [OF calm_field_name [unfolded Let_def] calm_field_rest [OF v]])

lemma calm_fields_from:
  assumes v: "\<And>p. calm p (value p)"
  shows "calm p (fields_from value n s fs p)"
proof (induction n arbitrary: p fs)
  case (Suc n)
  have more: "calm p (case parse_field value p of None \<Rightarrow> None
        | Some (parsed, p) \<Rightarrow>
            let (fs, p) = (case parsed of
                  Some f \<Rightarrow> (fs @ [f], p)
                | None \<Rightarrow> (fs, recover_item TokRightBrace p))
            in and_then (separator TokRightBrace w) (\<lambda>_. fields_from value n s fs) p)" for w
  proof (cases "parse_field value p")
    case (Some res)
    obtain parsed q where q: "res = (parsed, q)" by (cases res)
    have stp: "calm r (and_then (separator TokRightBrace w) (\<lambda>_. fields_from value n s gs) r)" for r gs
      by (intro calm_intros Suc.IH)
    note kept = calm_result [OF calm_parse_field [OF v] Some [unfolded q]]
    have "calm p (and_then (separator TokRightBrace w) (\<lambda>_. fields_from value n s gs) q)" for gs
      by (rule calm_from [OF stp]) (use kept in auto)
    moreover have "calm p (and_then (separator TokRightBrace w) (\<lambda>_. fields_from value n s gs) (recover_item TokRightBrace q))" for gs
      by (rule calm_from [OF stp]) (use kept in auto)
    ultimately show ?thesis by (simp add: Some q split: option.split)
  qed (simp add: calm_None)
  show ?case unfolding fields_from.simps
    by (intro calm_if calm_advanced calm_end_of_list calm_then calm_leave calm_ok more)
qed (simp add: calm_None)

lemma calm_items_from:
  assumes v: "\<And>p. calm p (item p)"
  shows "calm p (items_from item n close what s vs p)"
proof (induction n arbitrary: p vs)
  case (Suc n)
  have more: "calm p (case item p of None \<Rightarrow> None
        | Some (parsed, p) \<Rightarrow>
            let (vs, p) = (case parsed of
                  Some v \<Rightarrow> (vs @ [v], p)
                | None \<Rightarrow> (vs @ [Spanned DError (token_span (peek_token p))], recover_item close p))
            in and_then (separator close what) (\<lambda>_. items_from item n close what s vs) p)"
  proof (cases "item p")
    case (Some res)
    obtain parsed q where q: "res = (parsed, q)" by (cases res)
    have stp: "calm r (and_then (separator close what) (\<lambda>_. items_from item n close what s gs) r)" for r gs
      by (intro calm_intros Suc.IH)
    note kept = calm_result [OF v Some [unfolded q]]
    have "calm p (and_then (separator close what) (\<lambda>_. items_from item n close what s gs) q)" for gs
      by (rule calm_from [OF stp]) (use kept in auto)
    moreover have "calm p (and_then (separator close what) (\<lambda>_. items_from item n close what s gs) (recover_item close q))" for gs
      by (rule calm_from [OF stp]) (use kept in auto)
    ultimately show ?thesis by (simp add: Some q split: option.split)
  qed (simp add: calm_None)
  show ?case unfolding items_from.simps
    by (intro calm_if calm_advanced calm_end_of_list calm_then calm_leave calm_ok more)
qed (simp add: calm_None)

lemma calm_parse_fields: "(\<And>p. calm p (value p)) \<Longrightarrow> calm p (parse_fields value n p)"
  unfolding parse_fields_def by (intro calm_intros calm_fields_from)

lemma calm_parse_items: "(\<And>p. calm p (item p)) \<Longrightarrow> calm p (parse_items item n close what p)"
  unfolding parse_items_def by (intro calm_advanced calm_intros calm_items_from)

lemma calm_reference_value [calm_intros]: "calm p (reference_value n p)"
  unfolding reference_value_def by (intro calm_intros)

lemma calm_name_value:
  assumes v: "\<And>p. calm p (value p)"
  shows "calm p (name_value value n p)"
proof -
  have "calm q (record_value value n q)" for q
    unfolding record_value_def typed_value_def by (intro calm_intros calm_parse_fields v)
  then show ?thesis unfolding name_value_def Let_def by (intro calm_intros)
qed

lemma calm_tuple_value [calm_intros]: "calm p (tuple_value x p)"
  unfolding tuple_value_def case_prod_beta by (intro calm_intros)

lemma calm_value_body:
  assumes v: "\<And>p. calm p (value p)"
  shows "calm p (value_body fmt value n p)"
proof -
  have "calm p (and_then (parse_items value n close what) (\<lambda>(vs, span). ok (Spanned (DList vs) span)) p)" for close what
    unfolding case_prod_beta by (intro calm_intros calm_parse_items v)
  then show ?thesis unfolding value_body_def Let_def
    by (auto intro!: calm_intros calm_parse_fields calm_parse_items calm_name_value v split: token_kind.split keyword.split)
qed

lemma calm_parse_value [calm_intros]: "calm p (parse_value fmt n p)"
  by (induction n arbitrary: p) (simp_all add: calm_None calm_value_body)

lemma calm_parse_part: "calm p (parse_part fmt n p)"
  unfolding parse_part_def parse_import_def parse_declaration_def by (intro calm_intros calm_parse_fields)

lemma calm_document_from: "calm p (document_from fmt n d p)"
proof (induction n arbitrary: d p)
  case (Suc n)
  have "calm p (case parse_part fmt n p of None \<Rightarrow> None
      | Some (Some add, p) \<Rightarrow> document_from fmt n (add d) p
      | Some (None, p) \<Rightarrow> document_from fmt n d (recover_declaration p))"
  proof (cases "parse_part fmt n p")
    case (Some res)
    obtain part q where q: "res = (part, q)" by (cases res)
    note kept = calm_result [OF calm_parse_part Some [unfolded q]]
    have "calm p (document_from fmt n e q)" for e by (rule calm_from [OF Suc.IH]) (use kept in auto)
    moreover have "calm p (document_from fmt n d (recover_declaration q))" by (rule calm_from [OF Suc.IH]) (use kept in auto)
    ultimately show ?thesis by (simp add: Some q split: option.split)
  qed (simp add: calm_None)
  then show ?case unfolding document_from.simps by (intro calm_if calm_ok)
qed (simp add: calm_None)

section \<open>What is read without a diagnostic\<close>

text \<open>
  A result without diagnostics is a good value, at depth \<open>d\<close>; a function that \<open>yields\<close> comes back
  to the depth it started at.
\<close>

definition lands :: "'a parse \<Rightarrow> parser \<Rightarrow> nat \<Rightarrow> ('a \<Rightarrow> bool) \<Rightarrow> bool" where
  "lands m p d good \<longleftrightarrow> (\<forall>r q. m p = Some (r, q) \<longrightarrow> diagnostics q = [] \<longrightarrow>
     (\<exists>x. r = Some x \<and> good x) \<and> depth q = d)"

definition yields :: "'a parse \<Rightarrow> parser \<Rightarrow> ('a \<Rightarrow> bool) \<Rightarrow> bool" where
  "yields m p good \<longleftrightarrow> (\<forall>r q. m p = Some (r, q) \<longrightarrow> diagnostics q = [] \<longrightarrow>
     (\<exists>x. r = Some x \<and> good x) \<and> depth q = depth p)"

lemma yields_lands: "yields m p good \<longleftrightarrow> lands m p (depth p) good"
  by (simp add: yields_def lands_def)

lemma lands_then:
  assumes p: "parser_ok p" and m: "lands m p d good" and calm: "calm p (m p)" "\<And>x q. calm q (f x q)"
    and f: "\<And>x q. \<lbrakk>m p = Some (Some x, q); good x; parser_ok q; depth q = d; diagnostics q = []\<rbrakk> \<Longrightarrow> lands (f x) q e fine"
  shows "lands (and_then m f) p e fine"
  unfolding lands_def
proof (intro allI impI)
  fix r q assume r: "and_then m f p = Some (r, q)" "diagnostics q = []"
  then consider "m p = Some (None, q)" "r = None" | x t where "m p = Some (Some x, t)" "f x t = Some (r, q)"
    by (auto simp: and_then_def split: option.splits)
  then show "(\<exists>x. r = Some x \<and> fine x) \<and> depth q = e"
  proof cases
    case 1
    then show ?thesis using m r(2) by (auto simp: lands_def)
  next
    case (2 x t)
    have t: "parser_ok t" "diagnostics t = []"
      using calm_result [OF calm(1) 2(1)] calm_result [OF calm(2) 2(2)] p r(2) by auto
    then have "good x" "depth t = d" using m 2(1) by (auto simp: lands_def)
    with f [OF 2(1) this(1) t(1) this(2) t(2)] 2(2) r(2) show ?thesis by (auto simp: lands_def)
  qed
qed

lemma yields_then:
  assumes "parser_ok p" "yields m p good" "calm p (m p)" "\<And>x q. calm q (f x q)"
    and "\<And>x q. \<lbrakk>m p = Some (Some x, q); good x; parser_ok q; depth q = depth p; diagnostics q = []\<rbrakk> \<Longrightarrow> yields (f x) q fine"
  shows "yields (and_then m f) p fine"
  unfolding yields_lands
  by (rule lands_then [OF assms(1) assms(2) [unfolded yields_lands] assms(3,4)])
    (use assms(5) in \<open>auto simp: yields_lands\<close>)

lemma yields_ok: "good x \<Longrightarrow> yields (ok x) p good"
  by (simp add: yields_def ok_def)

lemma yields_weaken: "yields m p good \<Longrightarrow> (\<And>x. good x \<Longrightarrow> fine x) \<Longrightarrow> yields m p fine"
  unfolding yields_def by blast

lemma yields_at: "m p = m' p \<Longrightarrow> yields m' p good \<Longrightarrow> yields m p good"
  by (simp add: yields_def)

lemma yields_failed: "yields (failed what) p good"
  using calm_unexpected by (fastforce simp: yields_def failed_def)

lemma yields_expect: "yields (expect kind what) p (\<lambda>t. t = here p \<and> token_kind t = kind)"
  using yields_failed [of what p] by (auto simp: yields_def expect_def ok_def at_kind_def advance_def)

lemma yields_change: "depth (f p) = depth p \<Longrightarrow> yields (change f) p (\<lambda>_. True)"
  by (simp add: yields_def change_def)

lemma yields_unless: "yields (unreachable_unless x) p (\<lambda>y. x = Some y)"
  by (auto simp: yields_def unreachable_unless_def)

lemma identifier_new_same: "identifier_new t = Inr n \<Longrightarrow> n = t"
  by (auto simp: identifier_new_def split: list.splits if_splits)

lemma yields_new_identifier: "yields (new_identifier t) p (\<lambda>x. token_text p t = Some (spanned_value x))"
  by (auto simp: yields_def new_identifier_def and_then_def unreachable_unless_def ok_def
      dest!: identifier_new_same split: option.splits sum.splits)

lemma yields_identifier:
  assumes p: "parser_ok p"
  shows "yields (parse_identifier what pascal) p (\<lambda>x. keyword_of (spanned_value x) Data = None \<and>
     (if pascal then is_pascal_case (spanned_value x) else is_snake_case (spanned_value x)))"
proof (cases "at_kind TokIdentifier p")
  case True
  obtain u where u: "token_text p (here p) = Some u" "is_word u" "keyword_of u Data = None"
    using parser_ok_text [OF p, of "here p"] True by (auto simp: kind_text_def at_kind_def)
  show ?thesis using parse_identifier_eq [OF True u(1,2), of what pascal] u(3)
    by (simp add: yields_def)
next
  case False
  then have "parse_identifier what pascal p = failed what p"
    by (simp add: parse_identifier_def and_then_def expect_def failed_def split: option.split)
  then show ?thesis by (rule yields_at) (rule yields_failed)
qed

lemma yields_name: "parser_ok p \<Longrightarrow> yields (parse_identifier what False) p (\<lambda>x. name_ok (spanned_value x))"
  "parser_ok p \<Longrightarrow> yields (parse_identifier what True) p (\<lambda>x. is_pascal_case (spanned_value x))"
  using yields_identifier [of p what False] yields_identifier [of p what True]
  by (auto elim!: yields_weaken simp: name_ok_def)

lemma yields_literal: "yields (literal_value token v) p (\<lambda>x. spanned_value x = v)"
  by (simp add: yields_def literal_value_def and_then_def change_def ok_def)

lemma yields_path:
  assumes p: "parser_ok p"
  shows "yields parse_path p (\<lambda>x. path_ok (spanned_value x))"
proof (cases "at_kind TokPath p")
  case True
  obtain b where b: "token_text p (here p) = Some (60 # b @ [62])" "set b \<inter> {60, 62, 10, 13} = {}"
    using parser_ok_text [OF p, of "here p"] True by (auto simp: kind_text_def at_kind_def)
  have "token_text (snd (advance p)) (here p) = Some (60 # b @ [62])" using b(1) by (simp add: token_text_def)
  moreover have "path_ok b" using b(2) by (auto simp: path_ok_def list_all_iff path_char_def)
  ultimately show ?thesis using True
    by (auto simp: yields_def parse_path_def and_then_def expect_def ok_def unreachable_unless_def advance_def)
next
  case False
  have "yields (failed w) p (\<lambda>x. path_ok (spanned_value x))" for w :: rstr by (rule yields_failed)
  then show ?thesis using False
    by (simp add: yields_def parse_path_def and_then_def expect_def failed_def del: str_simps split: option.split)
qed

lemma yields_segment:
  assumes p: "parser_ok p"
  shows "yields parse_segment p (\<lambda>x. segment_ok (spanned_value x))"
  unfolding parse_segment_def
proof (rule yields_then [OF p yields_expect], goal_cases)
  case (3 t q)
  then obtain u where "token_text p t = Some u" "is_word u" "keyword_of u Data = None"
    using parser_ok_text [OF p, of "here p"] by (auto simp: kind_text_def)
  moreover have "token_text q t = token_text p t"
    using 3(1) by (auto simp: expect_def ok_def failed_def token_text_def split: if_splits)
  ultimately show ?case
    by (intro yields_weaken [OF yields_new_identifier]) (auto simp: segment_ok_def)
qed (intro calm_intros)+

lemma yields_segments:
  "parser_ok p \<Longrightarrow> yields (parse_segments n acc) p (\<lambda>xs. \<exists>ys. xs = acc @ ys \<and> list_all (\<lambda>y. segment_ok (spanned_value y)) ys)"
proof (induction n arbitrary: p acc)
  case 0
  show ?case by (simp add: yields_def)
next
  case (Suc n)
  obtain ate q where q: "eat_token TokDot p = (ate, q)" by (cases "eat_token TokDot p")
  have kept: "parser_ok q" "depth q = depth p" using calm_eat [OF q] Suc.prems q by (auto simp: eat_token_def split: if_splits)
  have "yields (and_then parse_segment (\<lambda>s. parse_segments n (acc @ [s]))) q
      (\<lambda>xs. \<exists>ys. xs = acc @ ys \<and> list_all (\<lambda>y. segment_ok (spanned_value y)) ys)"
  proof (rule yields_then [OF kept(1) yields_segment [OF kept(1)]], goal_cases)
    case (3 x r)
    show ?case using 3(2)
      by (intro yields_weaken [OF Suc.IH [OF 3(3), of "acc @ [x]"]]) (auto intro: exI [of _ "x # y" for y])
  qed (intro calm_intros)+
  then show ?case using q kept(2) by (cases ate) (auto simp: yields_def ok_def)
qed

lemma yields_reference:
  assumes p: "parser_ok p"
  shows "yields (reference_value n) p (\<lambda>x. value_ok allowed inner (spanned_value x))"
  unfolding reference_value_def
proof (rule yields_then [OF p yields_name(1) [OF p]], goal_cases)
  case (3 x q)
  show ?case
  proof (rule yields_then [OF 3(3) yields_segments [OF 3(3)]], goal_cases)
    case a: (3 xs r)
    then show ?case using 3(2)
      by (intro yields_ok) (auto simp: value_ok_def list_all_iff)
  qed (intro calm_intros)+
qed (intro calm_intros)+

section \<open>Values inside values\<close>

definition values_good :: "data_value spanned parse \<Rightarrow> bool" where
  "values_good value \<longleftrightarrow> (\<forall>p. calm p (value p)) \<and>
     (\<forall>p. parser_ok p \<longrightarrow> depth p \<le> MAX_NESTING \<longrightarrow>
        yields value p (\<lambda>x. printable (MAX_NESTING - depth p) (spanned_value x)))"

lemma keyword_text_words: "keyword_of t Data = Some KwImport \<Longrightarrow> t = str ''import''" "keyword_of t Data = Some KwFrom \<Longrightarrow> t = str ''from''"
  by (auto simp: keyword_of_def mode_keywords_def keyword_text_def split: if_splits)

lemma yields_field_name:
  assumes p: "parser_ok p"
  shows "yields (if at_kind (TokKeyword KwImport) p \<or> at_kind (TokKeyword KwFrom) p
        then (\<lambda>p. let (token, p) = advance p in new_identifier token p)
        else parse_identifier what False) p (\<lambda>x. field_name_ok (spanned_value x))"
proof (cases "at_kind (TokKeyword KwImport) p \<or> at_kind (TokKeyword KwFrom) p")
  case True
  obtain u where u: "token_text p (here p) = Some u" "keyword_of u Data = Some KwImport \<or> keyword_of u Data = Some KwFrom"
    using parser_ok_text [OF p, of "here p"] True by (auto simp: kind_text_def at_kind_def)
  have "is_snake_case (str ''import'')" "is_snake_case (str ''from'')" by code_simp+
  then have "field_name_ok u" using u(2) keyword_text_words by (auto simp: field_name_ok_def simp del: str_simps)
  moreover have "token_text (snd (advance p)) (here p) = Some u" using u(1) by (simp add: token_text_def)
  ultimately show ?thesis using True yields_new_identifier [of "here p" "snd (advance p)"]
    by (auto simp: yields_def case_prod_beta advance_def)
next
  case False
  have "yields (parse_identifier what False) p (\<lambda>x. field_name_ok (spanned_value x))"
    by (rule yields_weaken [OF yields_identifier [OF p]]) (simp add: field_name_ok_def)
  then show ?thesis using False by simp
qed

lemma yields_parse_field:
  assumes v: "values_good value" and p: "parser_ok p" "depth p \<le> MAX_NESTING"
  shows "yields (parse_field value) p (field_ok (printable (MAX_NESTING - depth p)))"
proof (rule yields_at, rule parse_field_def, rule yields_then [OF p(1) yields_field_name [OF p(1)] calm_field_name], goal_cases)
  case (1 name q)
  show ?case unfolding Let_def by (rule calm_field_rest) (use v in \<open>simp add: values_good_def\<close>)
next
  case (2 name q)
  have inner: "yields (and_then (expect TokColon (str ''`:` and a value'')) (\<lambda>_. value)) q
      (\<lambda>x. printable (MAX_NESTING - depth p) (spanned_value x))"
  proof (rule yields_then [OF 2(3) yields_expect calm_expect], goal_cases)
    case (2 t r)
    then show ?case using v p(2) \<open>depth q = depth p\<close> unfolding values_good_def by metis
  qed (use v in \<open>simp add: values_good_def\<close>)
  show ?case
  proof (cases "and_then (expect TokColon (str ''`:` and a value'')) (\<lambda>_. value) q")
    case (Some res)
    obtain r t where t: "res = (r, t)" by (cases res)
    show ?thesis using inner Some 2(2) unfolding t
      by (cases r) (auto simp: yields_def ok_def Let_def field_ok_def)
  qed (simp add: yields_def Let_def)
qed

lemma yields_separator: "yields (separator close what) p (\<lambda>_. True)"
proof -
  obtain comma q where q: "eat_token TokComma p = (comma, q)" by (cases "eat_token TokComma p")
  then have d: "depth q = depth p" by (auto simp: eat_token_def split: if_splits)
  have "diagnostics (snd (eat_token k (recover_item close r))) = diagnostics r" for k r
    using calm_eat [of k "recover_item close r", OF surjective_pairing] by simp
  then show ?thesis using d calm_unexpected [of _ q]
    by (auto simp: yields_def separator_def q ok_def split: option.splits if_splits)
qed

lemma lands_fields_from:
  assumes v: "values_good value"
  shows "parser_ok p \<Longrightarrow> 0 < depth p \<Longrightarrow> depth p \<le> MAX_NESTING \<Longrightarrow> list_all (field_ok (printable (MAX_NESTING - depth p))) fs \<Longrightarrow>
    lands (fields_from value n s fs) p (depth p - 1) (\<lambda>x. list_all (field_ok (printable (MAX_NESTING - depth p))) (spanned_value x))"
proof (induction n arbitrary: p fs)
  case (Suc n)
  have calm_value: "calm q (value q)" for q using v by (simp add: values_good_def)
  show ?case
  proof (cases "at_kind TokRightBrace p")
    case True
    then show ?thesis using Suc.prems
      by (auto simp: lands_def case_prod_beta and_then_def leave_def ok_def)
  next
    case brace: False
    show ?thesis
    proof (cases "at_kind TokEof p \<or> at_other_close TokRightBrace p")
      case True
      then show ?thesis using brace calm_unexpected
        by (fastforce simp: lands_def end_of_list_def and_then_def leave_def ok_def split: option.splits if_splits)
    next
      case False
      show ?thesis unfolding lands_def
      proof (intro allI impI)
        fix r q assume run: "fields_from value (Suc n) s fs p = Some (r, q)" "diagnostics q = []"
        obtain parsed t where t: "parse_field value p = Some (parsed, t)"
          using run(1) brace False by (auto split: option.splits)
        have tail: "calm u (and_then (separator TokRightBrace w) (\<lambda>_. fields_from value n s gs) u)" for u gs w
          by (intro calm_intros calm_fields_from calm_value)
        have kept: "parser_ok t" "diagnostics t = []"
          using calm_result [OF calm_parse_field [OF calm_value] t] Suc.prems(1)
            calm_result [OF tail [of "recover_item TokRightBrace t"], of _ _ r q] calm_result [OF tail [of t], of _ _ r q]
            run brace False t by (auto split: option.splits)
        then obtain f where f: "parsed = Some f" "field_ok (printable (MAX_NESTING - depth p)) f" "depth t = depth p"
          using yields_parse_field [OF v Suc.prems(1,3)] t by (auto simp: yields_def)
        have "lands (and_then (separator TokRightBrace (str ''`}`'')) (\<lambda>_. fields_from value n s (fs @ [f]))) t (depth p - 1)
            (\<lambda>x. list_all (field_ok (printable (MAX_NESTING - depth p))) (spanned_value x))"
        proof (rule lands_then [OF kept(1) yields_separator [unfolded yields_lands] calm_separator], goal_cases)
          case (2 x u)
          then show ?case using Suc.IH [of u "fs @ [f]"] Suc.prems f by simp
        qed (intro calm_fields_from calm_value)
        then show "(\<exists>x. r = Some x \<and> list_all (field_ok (printable (MAX_NESTING - depth p))) (spanned_value x)) \<and> depth q = depth p - 1"
          using run brace False t f(1) by (simp add: lands_def)
      qed
    qed
  qed
qed (simp add: lands_def)

lemma lands_items_from:
  assumes v: "values_good value"
  shows "parser_ok p \<Longrightarrow> 0 < depth p \<Longrightarrow> depth p \<le> MAX_NESTING \<Longrightarrow>
    list_all (\<lambda>i. printable (MAX_NESTING - depth p) (spanned_value i)) vs \<Longrightarrow>
    lands (items_from value n close what s vs) p (depth p - 1)
      (\<lambda>x. list_all (\<lambda>i. printable (MAX_NESTING - depth p) (spanned_value i)) (fst x))"
proof (induction n arbitrary: p vs)
  case (Suc n)
  have calm_value: "calm q (value q)" for q using v by (simp add: values_good_def)
  show ?case
  proof (cases "at_kind close p")
    case True
    then show ?thesis using Suc.prems
      by (auto simp: lands_def case_prod_beta and_then_def leave_def ok_def)
  next
    case other: False
    show ?thesis
    proof (cases "at_kind TokEof p \<or> at_other_close close p")
      case True
      then show ?thesis using other calm_unexpected
        by (fastforce simp: lands_def end_of_list_def and_then_def leave_def ok_def split: option.splits if_splits)
    next
      case False
      show ?thesis unfolding lands_def
      proof (intro allI impI)
        fix r q assume run: "items_from value (Suc n) close what s vs p = Some (r, q)" "diagnostics q = []"
        obtain parsed t where t: "value p = Some (parsed, t)"
          using run(1) other False by (auto split: option.splits)
        have tail: "calm u (and_then (separator close what) (\<lambda>_. items_from value n close what s gs) u)" for u gs
          by (intro calm_intros calm_items_from calm_value)
        have "diagnostics t = []"
        proof (cases parsed)
          case None
          have "and_then (separator close what) (\<lambda>_. items_from value n close what s (vs @ [Spanned DError (token_span (peek_token t))]))
              (recover_item close t) = Some (r, q)"
            using run(1) other False t None by simp
          from calm_result [OF tail this] run(2) show ?thesis by simp
        next
          case (Some x)
          have "and_then (separator close what) (\<lambda>_. items_from value n close what s (vs @ [x])) t = Some (r, q)"
            using run(1) other False t Some by simp
          from calm_result [OF tail this] run(2) show ?thesis by simp
        qed
        moreover have "parser_ok t" using calm_result [OF calm_value t] Suc.prems(1) by simp
        ultimately have kept: "parser_ok t" "diagnostics t = []" by simp_all
        then obtain x where x: "parsed = Some x" "printable (MAX_NESTING - depth p) (spanned_value x)" "depth t = depth p"
          using v Suc.prems(1,3) t unfolding values_good_def yields_def by blast
        have "lands (and_then (separator close what) (\<lambda>_. items_from value n close what s (vs @ [x]))) t (depth p - 1)
            (\<lambda>x. list_all (\<lambda>i. printable (MAX_NESTING - depth p) (spanned_value i)) (fst x))"
        proof (rule lands_then [OF kept(1) yields_separator [unfolded yields_lands] calm_separator], goal_cases)
          case (2 y u)
          then show ?case using Suc.IH [of u "vs @ [x]"] Suc.prems x by simp
        qed (intro calm_items_from calm_value)
        then show "(\<exists>x. r = Some x \<and> list_all (\<lambda>i. printable (MAX_NESTING - depth p) (spanned_value i)) (fst x)) \<and> depth q = depth p - 1"
          using run other False t x(1) by (simp add: lands_def)
      qed
    qed
  qed
qed (simp add: lands_def)

lemma lands_nest: "depth p \<le> MAX_NESTING \<Longrightarrow> lands nest p (Suc (depth p)) (\<lambda>_. depth p < MAX_NESTING)"
  by (auto simp: lands_def nest_def ok_def Let_def error_at_def report_def)

text \<open>Values one level down.\<close>

definition inside_of :: "nat \<Rightarrow> (data_value \<Rightarrow> bool) \<Rightarrow> bool" where
  "inside_of d inner \<longleftrightarrow> d < MAX_NESTING \<and> inner = printable (MAX_NESTING - Suc d)"

lemma yields_fields:
  assumes v: "values_good value" and p: "parser_ok p" "depth p \<le> MAX_NESTING"
  shows "yields (parse_fields value n) p
    (\<lambda>x. depth p < MAX_NESTING \<and> list_all (field_ok (printable (MAX_NESTING - Suc (depth p)))) (spanned_value x))"
  unfolding parse_fields_def
proof (rule yields_then [OF p(1) yields_expect calm_expect], goal_cases)
  case (1 x q)
  show ?case by (intro calm_intros calm_fields_from) (use v in \<open>simp add: values_good_def\<close>)
next
  case (2 t q)
  have deep: "depth q \<le> MAX_NESTING" using 2 p by simp
  show ?case unfolding yields_lands
  proof (rule lands_then [OF 2(3) lands_nest [OF deep] calm_nest], goal_cases)
    case (1 x q)
    show ?case by (intro calm_intros calm_fields_from) (use v in \<open>simp add: values_good_def\<close>)
  next
    case (2 x r)
    then show ?case using lands_fields_from [OF v, of r "[]" n "token_span t"] \<open>depth q = depth p\<close>
      by (simp add: lands_def)
  qed
qed

lemma yields_items:
  assumes v: "values_good value" and p: "parser_ok p" "depth p \<le> MAX_NESTING"
  shows "yields (parse_items value n close what) p
    (\<lambda>x. depth p < MAX_NESTING \<and> list_all (\<lambda>i. printable (MAX_NESTING - Suc (depth p)) (spanned_value i)) (fst x))"
proof -
  let ?q = "snd (advance p)"
  have q: "parser_ok ?q" "depth ?q \<le> MAX_NESTING" using p by simp_all
  have "lands (and_then nest (\<lambda>_. items_from value n close what (token_span (here p)) [])) ?q (depth p)
    (\<lambda>x. depth p < MAX_NESTING \<and> list_all (\<lambda>i. printable (MAX_NESTING - Suc (depth p)) (spanned_value i)) (fst x))"
  proof (rule lands_then [OF q(1) lands_nest [OF q(2)] calm_nest], goal_cases)
    case (1 x q)
    show ?case by (intro calm_intros calm_items_from) (use v in \<open>simp add: values_good_def\<close>)
  next
    case (2 x r)
    then show ?case using lands_items_from [OF v, of r "[]" n close what "token_span (here p)"]
      by (simp add: lands_def)
  qed
  then show ?thesis by (simp add: yields_def lands_def parse_items_def case_prod_beta) (simp add: advance_def)
qed

abbreviation (input) leaf :: "data_value \<Rightarrow> bool" where
  "leaf \<equiv> value_ok False (\<lambda>_. False)"

lemma leaf_ok: "leaf v \<Longrightarrow> value_ok allowed inner v"
  by (cases v) (auto simp: value_ok_def)

lemma printable_eq: "printable k v \<longleftrightarrow> value_ok (0 < k) (if k = 0 then (\<lambda>_. False) else printable (k - 1)) v"
  by (cases k) simp_all

lemma leaf_printable: "leaf v \<Longrightarrow> printable k v"
  by (subst printable_eq) (rule leaf_ok)

lemma number_taken: "number_literal fmt k negative t = Some (Inr v) \<Longrightarrow> leaf v"
  by (auto simp: number_literal_def value_ok_def map_sum_def
      dest: integer_taken float_taken duration_taken distance_taken split: if_splits sum.splits)

lemma yields_number: "yields (parse_number fmt) p (\<lambda>x. leaf (spanned_value x))"
proof -
  obtain negative q where q: "eat_token TokMinus p = (negative, q)" by (cases "eat_token TokMinus p")
  then have d: "depth q = depth p" by (auto simp: eat_token_def split: if_splits)
  have "yields (failed w) q good" for w :: rstr and good :: "data_value spanned \<Rightarrow> bool" by (rule yields_failed)
  then show ?thesis using d number_taken
    by (auto simp: yields_def parse_number_def q Let_def and_then_def unreachable_unless_def change_def ok_def
        simp del: str_simps split: option.splits sum.splits)
qed

lemma yields_color: "yields (parse_color token) p (\<lambda>x. leaf (spanned_value x))"
  by (auto simp: yields_def parse_color_def and_then_def unreachable_unless_def change_def literal_value_def ok_def
      value_ok_def color_taken split: option.splits)

lemma yields_string:
  "yields (and_then (parse_string span) (\<lambda>t. literal_value token (DString t))) p (\<lambda>x. leaf (spanned_value x))"
  by (auto simp: yields_def parse_string_def and_then_def unreachable_unless_def change_def literal_value_def ok_def
      value_ok_def string_taken split: option.splits sum.splits)

lemma yields_path_value:
  assumes p: "parser_ok p" "at_kind TokPath p"
  shows "yields (and_then (unreachable_unless (token_text p (here p))) (\<lambda>t. literal_value (here p) (DPath (butlast (tl t))))) p
    (\<lambda>x. leaf (spanned_value x))"
proof -
  obtain b where b: "token_text p (here p) = Some (60 # b @ [62])" "set b \<inter> {60, 62, 10, 13} = {}"
    using parser_ok_text [OF p(1), of "here p"] p(2) by (auto simp: kind_text_def at_kind_def)
  have "path_ok b" using b(2) by (auto simp: path_ok_def list_all_iff path_char_def)
  then show ?thesis using b(1)
    by (auto simp: yields_def and_then_def unreachable_unless_def literal_value_def change_def ok_def value_ok_def)
qed

lemma yields_record:
  assumes v: "values_good value" and p: "parser_ok p" "depth p \<le> MAX_NESTING"
  shows "yields (record_value value n) p (\<lambda>x. printable (MAX_NESTING - depth p) (spanned_value x))"
  unfolding record_value_def
proof (rule yields_then [OF p(1) yields_name(2) [OF p(1)] calm_parse_identifier], goal_cases)
  case (1 x q)
  show ?case unfolding typed_value_def
    by (intro calm_intros calm_parse_fields) (use v in \<open>simp_all add: values_good_def\<close>)
next
  case (2 ty q)
  have calm_value: "calm q (value q)" for q using v by (simp add: values_good_def)
  have k: "printable (MAX_NESTING - depth p) (f x)"
    if "depth p < MAX_NESTING" "value_ok True (printable (MAX_NESTING - Suc (depth p))) (f x)" for f :: "'a \<Rightarrow> data_value" and x
    using that by (subst printable_eq) simp
  consider (named) "at_kind TokIdentifier q \<and> token_kind (peek_at 1 q) = TokLeftBrace"
    | (plain) "\<not> (at_kind TokIdentifier q \<and> token_kind (peek_at 1 q) = TokLeftBrace)" "at_kind TokLeftBrace q"
    | (variant) "\<not> (at_kind TokIdentifier q \<and> token_kind (peek_at 1 q) = TokLeftBrace)" "\<not> at_kind TokLeftBrace q"
    by blast
  then show ?case
  proof cases
    case named
    have "yields (and_then (parse_identifier (str ''an object's name'') False) (\<lambda>name.
           and_then (parse_fields value n) (\<lambda>fs.
           ok (Spanned (DNamed ty name fs) (span_to (spanned_span ty) (spanned_span fs)))))) q
         (\<lambda>x. printable (MAX_NESTING - depth p) (spanned_value x))"
    proof (rule yields_then [OF 2(3) yields_name(1) [OF 2(3)] calm_parse_identifier], goal_cases)
      case a: (2 name r)
      have deep: "depth r \<le> MAX_NESTING" using a(4) 2(4) p(2) by simp
      show ?case
        by (rule yields_then [OF a(3) yields_fields [OF v a(3) deep] calm_parse_fields [OF calm_value] calm_ok])
          (use a 2 in \<open>auto intro!: yields_ok k simp: value_ok_def\<close>)
    qed (intro calm_intros calm_parse_fields calm_value)
    then show ?thesis using named by (simp add: typed_value_def yields_def)
  next
    case plain
    have deep: "depth q \<le> MAX_NESTING" using 2(4) p(2) by simp
    have "yields (and_then (parse_fields value n) (\<lambda>fs.
           ok (Spanned (DRecord ty fs) (span_to (spanned_span ty) (spanned_span fs))))) q
         (\<lambda>x. printable (MAX_NESTING - depth p) (spanned_value x))"
      by (rule yields_then [OF 2(3) yields_fields [OF v 2(3) deep] calm_parse_fields [OF calm_value] calm_ok])
        (use 2 in \<open>auto intro!: yields_ok k simp: value_ok_def\<close>)
    then show ?thesis using plain by (auto simp: typed_value_def yields_def)
  next
    case variant
    then show ?thesis using 2(2) leaf_printable [of "DVariant ty"]
      by (auto simp: typed_value_def yields_def ok_def value_ok_def)
  qed
qed

lemma yields_name_value:
  assumes v: "values_good value" and p: "parser_ok p" "depth p \<le> MAX_NESTING"
  shows "yields (name_value value n) p (\<lambda>x. printable (MAX_NESTING - depth p) (spanned_value x))"
proof -
  have "yields (reference_value n) p (\<lambda>x. printable (MAX_NESTING - depth p) (spanned_value x))"
    by (rule yields_weaken [OF yields_reference [OF p(1), where allowed = False and inner = "\<lambda>_. False"] leaf_printable])
  then show ?thesis using yields_record [OF v p, of n]
    by (auto simp: yields_def name_value_def Let_def and_then_def unreachable_unless_def split: option.splits if_splits)
qed

lemma printable_inside:
  "d < MAX_NESTING \<Longrightarrow> value_ok True (printable (MAX_NESTING - Suc d)) v \<Longrightarrow> printable (MAX_NESTING - d) v"
  by (subst printable_eq) simp

lemma yields_containers:
  assumes v: "values_good value" and p: "parser_ok p" "depth p \<le> MAX_NESTING"
  shows "yields (and_then (parse_fields value n) (\<lambda>fs. ok (Spanned (DMap (spanned_value fs)) (spanned_span fs)))) p
      (\<lambda>x. printable (MAX_NESTING - depth p) (spanned_value x))" (is ?map)
    "yields (and_then (parse_items value n close what) (\<lambda>(vs, span). ok (Spanned (DList vs) span))) p
      (\<lambda>x. printable (MAX_NESTING - depth p) (spanned_value x))" (is ?list)
    "yields (and_then (parse_items value n close what) tuple_value) p
      (\<lambda>x. printable (MAX_NESTING - depth p) (spanned_value x))" (is ?tuple)
proof -
  have calm_value: "calm q (value q)" for q using v by (simp add: values_good_def)
  show ?map
    by (rule yields_then [OF p(1) yields_fields [OF v p] calm_parse_fields [OF calm_value] calm_ok])
      (auto intro!: yields_ok printable_inside simp: value_ok_def)
  show ?list
    by (rule yields_then [OF p(1) yields_items [OF v p] calm_parse_items [OF calm_value]])
      (auto intro!: yields_ok printable_inside calm_ok simp: value_ok_def case_prod_beta)
  show ?tuple
  proof (rule yields_then [OF p(1) yields_items [OF v p] calm_parse_items [OF calm_value] calm_tuple_value], goal_cases)
    case (1 x q)
    obtain vs span where x: "x = (vs, span)" by (cases x)
    have "printable (MAX_NESTING - depth p) (DTuple vs)" if "2 \<le> length vs"
      using 1(2) that by (intro printable_inside) (simp_all add: value_ok_def x)
    then show ?case by (auto simp: x yields_def tuple_value_def and_then_def change_def ok_def not_less)
  qed
qed

lemma yields_value_body:
  assumes v: "values_good value" and p: "parser_ok p" "depth p \<le> MAX_NESTING"
  shows "yields (value_body fmt value n) p (\<lambda>x. printable (MAX_NESTING - depth p) (spanned_value x))"
proof -
  let ?good = "\<lambda>x. printable (MAX_NESTING - depth p) (spanned_value x)"
  have leaf: "yields m p (\<lambda>x. leaf (spanned_value x)) \<Longrightarrow> yields m p ?good" for m
    by (erule yields_weaken) (rule leaf_printable)
  have literal: "yields (literal_value (here p) w) p ?good" if "leaf w" for w
    by (rule leaf, rule yields_weaken [OF yields_literal]) (simp add: that)
  note number = leaf [OF yields_number] and color = leaf [OF yields_color] and string = leaf [OF yields_string]
  show ?thesis
  proof (cases "token_kind (here p)")
    case TokPath
    then have "at_kind TokPath p" by (simp add: at_kind_def)
    from leaf [OF yields_path_value [OF p(1) this]] show ?thesis
      by (rule yields_at [rotated]) (simp add: value_body_def peek_token_def Let_def TokPath)
  next
    case (TokKeyword k)
    have l: "leaf (DBool b)" "leaf DNone" for b by (simp_all add: value_ok_def)
    have "yields (case k of KwTrue \<Rightarrow> literal_value (here p) (DBool True) | KwFalse \<Rightarrow> literal_value (here p) (DBool False)
        | KwNone \<Rightarrow> literal_value (here p) DNone | _ \<Rightarrow> failed (str ''a value'')) p ?good"
      by (cases k) (simp_all add: literal l yields_failed del: str_simps)
    then show ?thesis by (rule yields_at [rotated]) (cases k; simp add: value_body_def peek_token_def Let_def TokKeyword)
  qed (rule yields_at [where m = "value_body fmt value n"], simp add: value_body_def peek_token_def Let_def,
    (rule number color string yields_containers [OF v p] yields_name_value [OF v p] yields_failed))+
qed

lemma values_good_parse: "values_good (parse_value fmt n)"
proof (induction n)
  case 0
  show ?case by (simp add: values_good_def calm_None yields_def)
next
  case (Suc n)
  then show ?case
    using yields_value_body [OF Suc] calm_parse_value [of _ fmt "Suc n"] by (simp add: values_good_def)
qed

section \<open>Documents\<close>

lemma yields_more_paths:
  "parser_ok p \<Longrightarrow> list_all (\<lambda>p. path_ok (spanned_value p)) acc \<Longrightarrow>
   yields (more_paths n acc) p (\<lambda>xs. (acc \<noteq> [] \<longrightarrow> xs \<noteq> []) \<and> list_all (\<lambda>p. path_ok (spanned_value p)) xs)"
proof (induction n arbitrary: p acc)
  case 0
  show ?case by (simp add: yields_def)
next
  case (Suc n)
  obtain ate q where q: "eat_token TokComma p = (ate, q)" by (cases "eat_token TokComma p")
  have kept: "parser_ok q" "depth q = depth p" using calm_eat [OF q] Suc.prems q by (auto simp: eat_token_def split: if_splits)
  have "yields (and_then parse_path (\<lambda>s. more_paths n (acc @ [s]))) q
      (\<lambda>xs. (acc \<noteq> [] \<longrightarrow> xs \<noteq> []) \<and> list_all (\<lambda>p. path_ok (spanned_value p)) xs)"
  proof (rule yields_then [OF kept(1) yields_path [OF kept(1)]], goal_cases)
    case (3 x r)
    then show ?case using Suc.prems(2)
      by (intro yields_weaken [OF Suc.IH [OF 3(3), of "acc @ [x]"]]) auto
  qed (intro calm_intros)+
  then show ?case using q kept(2) Suc.prems(2) by (cases ate) (auto simp: yields_def ok_def)
qed

lemma yields_import:
  assumes p: "parser_ok p"
  shows "yields (parse_import n) p import_ok"
  unfolding parse_import_def
proof (rule yields_then [OF p yields_change calm_change], goal_cases)
  case (4 x q)
  show ?case
  proof (rule yields_then [OF 4(3) yields_name(1) [OF 4(3)]], goal_cases)
    case name: (3 x q)
    show ?case
    proof (rule yields_then [OF name(3) yields_expect], goal_cases)
      case source: (3 x q)
      show ?case
      proof (rule yields_then [OF source(3) yields_path [OF source(3)]], goal_cases)
        case path: (3 x q)
        show ?case
        proof (rule yields_then [OF path(3) yields_more_paths [OF path(3)]], goal_cases)
          case paths: (4 xs q)
          show ?case
            by (rule yields_then [OF paths(3) yields_expect])
              (use name paths in \<open>auto intro!: yields_ok calm_intros simp: import_ok_def\<close>)
        qed (use path in \<open>auto intro!: calm_intros\<close>)
      qed (intro calm_intros)+
    qed (intro calm_intros)+
  qed (intro calm_intros)+
qed (simp, (intro calm_intros)+)

lemma yields_declaration:
  assumes p: "parser_ok p" "depth p = 0"
  shows "yields (parse_declaration fmt n) p (declaration_ok 127)"
  unfolding parse_declaration_def
proof (rule yields_then [OF p(1) yields_name(2) [OF p(1)]], goal_cases)
  case ty: (3 x q)
  show ?case
  proof (rule yields_then [OF ty(3) yields_name(1) [OF ty(3)]], goal_cases)
    case name: (3 y r)
    have deep: "depth r \<le> MAX_NESTING" using name ty p by simp
    have top: "MAX_NESTING - Suc (depth r) = 127" using name ty p by (simp add: MAX_NESTING_def)
    show ?case
      by (rule yields_then [OF name(3) yields_fields [OF values_good_parse name(3) deep, unfolded top]])
        (use ty name in \<open>auto intro!: yields_ok calm_intros calm_parse_fields simp: declaration_ok_def\<close>)
  qed (intro calm_intros calm_parse_fields)+
qed (intro calm_intros calm_parse_fields)+

lemma document_ok_add:
  "document_ok d \<Longrightarrow> import_ok i \<Longrightarrow> document_ok (add_import i d)"
  "document_ok d \<Longrightarrow> declaration_ok 127 x \<Longrightarrow> document_ok (add_declaration x d)"
  by (simp_all add: document_ok_def add_import_def add_declaration_def)

lemma yields_part:
  assumes p: "parser_ok p" "depth p = 0"
  shows "yields (parse_part fmt n) p (\<lambda>add. \<forall>d. document_ok d \<longrightarrow> document_ok (add d))"
proof (cases "at_kind (TokKeyword KwImport) p")
  case True
  have "yields (and_then (parse_import n) (\<lambda>i. ok (add_import i))) p (\<lambda>add. \<forall>d. document_ok d \<longrightarrow> document_ok (add d))"
    by (rule yields_then [OF p(1) yields_import [OF p(1)]])
      (auto intro!: yields_ok document_ok_add calm_intros simp: parse_import_def)
  then show ?thesis by (rule yields_at [rotated]) (simp add: parse_part_def True)
next
  case False
  have "yields (and_then (parse_declaration fmt n) (\<lambda>d. ok (add_declaration d))) p (\<lambda>add. \<forall>d. document_ok d \<longrightarrow> document_ok (add d))"
    by (rule yields_then [OF p(1) yields_declaration [OF p]])
      (auto intro!: yields_ok document_ok_add calm_intros calm_parse_fields simp: parse_declaration_def)
  then show ?thesis by (rule yields_at [rotated]) (simp add: parse_part_def False)
qed

lemma yields_document:
  "parser_ok p \<Longrightarrow> depth p = 0 \<Longrightarrow> document_ok d \<Longrightarrow> yields (document_from fmt n d) p document_ok"
proof (induction n arbitrary: p d)
  case (Suc n)
  show ?case
  proof (cases "at_kind TokEof p")
    case True
    then show ?thesis using Suc.prems by (simp add: yields_def ok_def)
  next
    case False
    show ?thesis unfolding yields_def
    proof (intro allI impI)
      fix r q assume run: "document_from fmt (Suc n) d p = Some (r, q)" "diagnostics q = []"
      obtain part t where t: "parse_part fmt n p = Some (part, t)" using run(1) False by (auto split: option.splits)
      note kept = calm_result [OF calm_parse_part t]
      have "diagnostics t = []"
      proof (cases part)
        case None
        then have "document_from fmt n d (recover_declaration t) = Some (r, q)" using run(1) False t by simp
        from calm_result [OF calm_document_from this] run(2) show ?thesis by simp
      next
        case (Some add)
        then have "document_from fmt n (add d) t = Some (r, q)" using run(1) False t by simp
        from calm_result [OF calm_document_from this] run(2) show ?thesis by simp
      qed
      then obtain add where add: "part = Some add" "document_ok (add d)" "depth t = 0"
        using yields_part [OF Suc.prems(1,2)] t Suc.prems(2,3) unfolding yields_def by metis
      have "parser_ok t" using kept Suc.prems(1) by simp
      from Suc.IH [OF this add(3,2)] run False t add(1) add(3) Suc.prems(2)
      show "(\<exists>x. r = Some x \<and> document_ok x) \<and> depth q = depth p" by (simp add: yields_def)
    qed
  qed
qed (simp add: yields_def)

lemma parsed_ok:
  assumes "parse_document fmt source = Some (document, [])"
  shows "document_ok document"
proof -
  obtain p where p: "new_parser source = Some p" "parser_ok p" "depth p = 0"
    using new_parser_ok [of source] by blast
  have empty: "document_ok empty_document" by (simp add: document_ok_def empty_document_def)
  from yields_document [OF p(2,3) this, of fmt "length (ahead p) + 2"] assms show ?thesis
    by (auto simp: parse_document_def p(1) yields_def split: option.splits)
qed

end
