(* ===== verification/Formatting.thy ===== *)
theory Formatting
  imports ValidDocuments
begin

text \<open>
  Formatting is parsing and printing: on every source that parses without a diagnostic it keeps the
  document, and formatting again changes nothing.
\<close>

section \<open>Printing looks at no span\<close>

lemma bare_parts [simp]:
  "spanned_value (unspan x) = spanned_value x" "spanned_value (map_spanned f y) = f (spanned_value y)"
  "name_text (unspan n) = name_text n" "dotted (map unspan segments) = dotted segments"
  "field_name (bare_field fd) = unspan (field_name fd)" "field_value (bare_field fd) = unspan (map_spanned bare (field_value fd))"
  by (cases y; cases fd; simp add: unspan_def name_text_def dotted_def comp_def)+

lemma flat_bare:
  "flat fmt limit (bare v) t = flat fmt limit v t"
  "flat_items fmt limit first (map unspan (map (map_spanned bare) items)) t = flat_items fmt limit first items t"
  "flat_fields fmt limit first (map bare_field fs) t = flat_fields fmt limit first fs t"
proof (induction fmt limit v t and fmt limit "first" items t and fmt limit "first" fs t rule: flat_flat_items_flat_fields.induct)
  case (1 fmt limit v t)
  then show ?case by (cases v) (simp_all add: flat.simps [of _ _ _ t] Let_def comp_def del: map_map)
next
  case (3 fmt limit start item items t)
  then show ?case by (auto simp: bind_eq_Some_conv split: option.splits prod.splits bind_splits)
next
  case (5 fmt limit start f fs t)
  then show ?case by (auto split: option.splits prod.splits bind_splits)
qed simp_all

lemma dense_bare [simp]: "dense (bare v) = dense v"
proof (induction v rule: dense.induct)
  case (1 v)
  show ?case
  proof (cases v)
    case (DTuple items)
    have "dense (bare (spanned_value i)) = dense (spanned_value i)" if "i \<in> set items" for i
      using 1 DTuple that by blast
    then show ?thesis by (simp add: DTuple dense.simps [of "DTuple _"] list_all_iff)
  qed (simp_all add: dense.simps [of "DInteger _"] dense.simps [of "DFloat _"] dense.simps [of "DDuration _"]
      dense.simps [of "DDistance _"] dense.simps [of "DColor _"] dense.simps [of "DBool _"] dense.simps [of "DString _"]
      dense.simps [of "DPath _"] dense.simps [of DNone] dense.simps [of "DReference _"] dense.simps [of "DVariant _"]
      dense.simps [of "DRecord _ _"] dense.simps [of "DNamed _ _ _"] dense.simps [of "DMap _"] dense.simps [of "DList _"]
      dense.simps [of DError])
qed

lemma expandable_bare [simp]: "expandable (bare v) = expandable v"
  by (cases v) (simp_all add: expandable_def comp_def)

lemma dense_lines_bare:
  "dense_lines fmt level (map unspan (map (map_spanned bare) items)) line t = dense_lines fmt level items line t"
  by (induction items arbitrary: line t) (simp_all add: flat_bare Let_def)

lemma render_bare:
  "render fmt (bare v) level start room t = render fmt v level start room t"
  "field_line fmt (bare_field f) level t = field_line fmt f level t"
  "field_lines fmt (map bare_field fs) level t = field_lines fmt fs level t"
  "list_item_into fmt (bare v) level t = list_item_into fmt v level t"
  "list_items_into fmt (map unspan (map (map_spanned bare) items)) level t = list_items_into fmt items level t"
proof (induction fmt v level start room t and fmt f level t and fmt fs level t and fmt v level t and fmt items level t
    rule: render_field_line_field_lines_list_item_into_list_items_into.induct)
  case (1 fmt v level start room t)
  let ?flat = "flat fmt (Some (utf8_len t + (LINE_WIDTH - (start + room)))) v t"
  show ?case
  proof (cases "expandable v \<and> (\<exists>out. ?flat = Some (out, False))")
    case False
    then show ?thesis
      by (auto simp: render.simps [of _ "bare v"] render.simps [of _ v] flat_bare split: option.splits prod.splits bind_splits)
  next
    case True
    then obtain out where out: "expandable v" "?flat = Some (out, False)" by blast
    note ih = 1 [OF _ out(2) refl]
    show ?thesis
      unfolding render.simps [of fmt "bare v" level start room t] render.simps [of fmt v level start room t]
        flat_bare expandable_bare out(2)
      by (cases v) (use out(1) ih in \<open>simp_all add: dense_lines_bare list_all_iff flip: map_map\<close>)
  qed
next
  case (4 fmt f fs level t)
  then show ?case by (simp split: bind_splits)
next
  case (7 fmt item items level t)
  then show ?case by (simp split: bind_splits)
qed (simp_all add: field_line.simps list_item_into.simps Let_def split: bind_splits)

lemma declaration_lines_bare:
  "declaration_lines fmt [] index (map bare_field fs) t = declaration_lines fmt [] index fs t"
  by (induction fs arbitrary: t) (simp_all add: render_bare fun_eq_iff split: bind_splits)

lemma print_declarations_same:
  "map bare_declaration xs = map bare_declaration ys \<Longrightarrow>
   print_declarations fmt [] b index xs t = print_declarations fmt [] b index ys t"
proof (induction xs arbitrary: ys index t)
  case (Cons x xs)
  then obtain y zs where y: "ys = y # zs" "bare_declaration x = bare_declaration y" "map bare_declaration xs = map bare_declaration zs"
    by (cases ys) auto
  have fs: "map bare_field (spanned_value (declaration_fields x)) = map bare_field (spanned_value (declaration_fields y))"
    and n: "name_text (declaration_type x) = name_text (declaration_type y)" "name_text (declaration_name x) = name_text (declaration_name y)"
    using y(2) by (simp_all add: bare_declaration_def name_text_def)
  have "declaration_lines fmt [] index (spanned_value (declaration_fields x)) u =
      declaration_lines fmt [] index (spanned_value (declaration_fields y)) u" for u
    using declaration_lines_bare [of fmt index "spanned_value (declaration_fields x)" u]
      declaration_lines_bare [of fmt index "spanned_value (declaration_fields y)" u] fs by simp
  then show ?case using Cons.IH [OF y(3)] n by (simp add: y(1))
qed simp

lemma import_line_same: "bare_import i = bare_import j \<Longrightarrow> import_line i = import_line j"
proof -
  assume "bare_import i = bare_import j"
  then have n: "name_text (import_alias i) = name_text (import_alias j)" and
    p: "map spanned_value (import_paths i) = map spanned_value (import_paths j)"
    by (simp_all add: bare_import_def name_text_def)
  have "map (\<lambda>p. f (spanned_value p)) (import_paths i) = map (\<lambda>p. f (spanned_value p)) (import_paths j)" for f :: "rstr \<Rightarrow> rstr"
    using arg_cong [OF p, of "map f"] unfolding map_map comp_def .
  from this [of "\<lambda>t. str ''<'' @ t @ str ''>''"] show ?thesis by (simp only: import_line_def n)
qed

lemma print_same:
  assumes "same_document d e"
  shows "print_document fmt d = print_document fmt e"
proof -
  have i: "map bare_import (doc_imports d) = map bare_import (doc_imports e)" using assms by (simp add: same_document_def)
  have "map import_line xs = map import_line ys" if "map bare_import xs = map bare_import ys" for xs ys
    using that
  proof (induction xs arbitrary: ys)
    case (Cons x xs)
    then obtain y zs where y: "ys = y # zs" "bare_import x = bare_import y" "map bare_import xs = map bare_import zs"
      by (cases ys) auto
    from Cons.IH [OF y(3)] import_line_same [OF y(2)] show ?case by (simp only: y(1) list.map)
  qed simp
  from this [OF i] have lines: "concat (map import_line (doc_imports d)) = concat (map import_line (doc_imports e))"
    by (rule arg_cong)
  have empty: "(doc_imports d = []) = (doc_imports e = [])" using i by (metis map_is_Nil_conv)
  show ?thesis unfolding print_document_def print_spliced_def lines empty
    by (rule print_declarations_same) (use assms in \<open>simp add: same_document_def\<close>)
qed

text \<open>
  C6. Formatting. Whatever parses without a diagnostic prints; the printed text parses without a
  diagnostic, to the same document apart from spans; and printing that again gives the same text.
  The printer never meets the error values it panics on, and what it writes is a fixed point.
\<close>

theorem formatting_keeps_documents:
  assumes "float_laws fmt" "parse_document fmt source = Some (document, [])"
  shows "\<exists>t again. print_document fmt document = Some t \<and> parse_document fmt t = Some (again, []) \<and>
    same_document again document \<and> print_document fmt again = Some t"
  using print_document_read [OF assms(1) parsed_ok [OF assms(2)]] document_read [OF assms(1) parsed_ok [OF assms(2)]]
    print_same by metis

theorem formatting_keeps_documents_witness:
  "\<exists>source document t again. print_document bits_format sample_document = Some source \<and>
    parse_document bits_format source = Some (document, []) \<and> same_document document sample_document \<and>
    print_document bits_format document = Some t \<and> parse_document bits_format t = Some (again, []) \<and>
    same_document again document \<and> print_document bits_format again = Some t"
proof -
  obtain source ps where s: "print_document bits_format sample_document = Some source"
    "document_spelled bits_format sample_document ps" "reads boundary source ps"
    using print_document_read [OF bits_format_laws sample_document_ok] by blast
  obtain d where d: "parse_document bits_format source = Some (d, [])" "same_document d sample_document"
    using document_read [OF bits_format_laws sample_document_ok s(2,3)] by blast
  from formatting_keeps_documents [OF bits_format_laws d(1)] s(1) d show ?thesis by blast
qed

end
