(* ===== verification/Runs.thy ===== *)
theory Runs
  imports Main
begin

text \<open>
  Runs of a state machine given by an executable step function: finite runs over a list of
  events, infinite runs over a stream of optional events (\<open>None\<close> is a moment at which nothing
  happens), what an invariant of the steps gives for both, and the two rules that liveness
  proofs use.
\<close>

section \<open>Finite and infinite runs\<close>

fun run_events :: "('e \<Rightarrow> 's \<Rightarrow> 's option) \<Rightarrow> 'e list \<Rightarrow> 's \<Rightarrow> 's option" where
  "run_events step [] s = Some s"
| "run_events step (e # es) s = Option.bind (step e s) (run_events step es)"

definition is_run ::
  "('e \<Rightarrow> 's \<Rightarrow> 's option) \<Rightarrow> 's \<Rightarrow> (nat \<Rightarrow> 's) \<Rightarrow> (nat \<Rightarrow> 'e option) \<Rightarrow> bool" where
  "is_run step start state event \<longleftrightarrow>
     state 0 = start \<and>
     (\<forall>n. case event n of None \<Rightarrow> state (Suc n) = state n
           | Some e \<Rightarrow> step e (state n) = Some (state (Suc n)))"

lemma run_events_append:
  "run_events step (xs @ ys) s = Option.bind (run_events step xs s) (run_events step ys)"
  by (induction xs arbitrary: s) (auto split: Option.bind_split)

lemma run_snoc:
  "run_events step (es @ [e]) s = Some t \<longleftrightarrow>
     (\<exists>u. run_events step es s = Some u \<and> step e u = Some t)"
  by (auto simp: run_events_append split: bind_splits)

lemma run_moment:
  "is_run step start state event \<Longrightarrow> event n = None \<Longrightarrow> state (Suc n) = state n"
  unfolding is_run_def by (metis option.simps(4))

lemma run_event:
  "is_run step start state event \<Longrightarrow> event n = Some e \<Longrightarrow> step e (state n) = Some (state (Suc n))"
  unfolding is_run_def by (metis option.simps(5))

text \<open>The run that replays a finite one and then rests.\<close>

definition replay :: "('e \<Rightarrow> 's \<Rightarrow> 's option) \<Rightarrow> 'e list \<Rightarrow> 's \<Rightarrow> nat \<Rightarrow> 's" where
  "replay step es s n = (case run_events step (take n es) s of Some t \<Rightarrow> t | None \<Rightarrow> s)"

definition replayed :: "'e list \<Rightarrow> nat \<Rightarrow> 'e option" where
  "replayed es n = (if n < length es then Some (es ! n) else None)"

lemma run_prefix: "run_events step (xs @ ys) s = Some t \<Longrightarrow> \<exists>u. run_events step xs s = Some u"
  by (auto simp: run_events_append split: bind_splits)

lemma replay_is_run:
  assumes "run_events step es s = Some t"
  shows "is_run step s (replay step es s) (replayed es)"
proof -
  have "case replayed es n of
          None \<Rightarrow> replay step es s (Suc n) = replay step es s n
        | Some e \<Rightarrow> step e (replay step es s n) = Some (replay step es s (Suc n))" for n
  proof (cases "n < length es")
    case True
    have split: "es = take n es @ [es ! n] @ drop (Suc n) es" using True by (simp add: id_take_nth_drop)
    obtain v where v: "run_events step (take n es @ [es ! n]) s = Some v"
      using run_prefix [of step "take n es @ [es ! n]" "drop (Suc n) es"] split assms by auto
    then obtain u where u: "run_events step (take n es) s = Some u" "step (es ! n) u = Some v"
      by (auto simp: run_snoc)
    have "take (Suc n) es = take n es @ [es ! n]" using True by (simp add: take_Suc_conv_app_nth)
    then show ?thesis using True u v by (simp add: replay_def replayed_def)
  qed (simp add: replayed_def replay_def)
  then show ?thesis by (simp add: is_run_def replay_def)
qed

lemma replay_rest:
  "run_events step es s = Some t \<Longrightarrow> length es \<le> n \<Longrightarrow> replay step es s n = t"
  by (simp add: replay_def)

section \<open>Invariants\<close>

locale preserved =
  fixes step :: "'e \<Rightarrow> 's \<Rightarrow> 's option" and start :: 's and good :: "'s \<Rightarrow> bool"
  assumes good_start: "good start"
    and good_step: "good s \<Longrightarrow> step e s = Some t \<Longrightarrow> good t"
begin

lemma good_events: "good s \<Longrightarrow> run_events step es s = Some t \<Longrightarrow> good t"
  by (induction es arbitrary: s) (auto split: bind_splits dest: good_step)

lemma good_reached: "run_events step es start = Some t \<Longrightarrow> good t"
  using good_events good_start by blast

lemma good_always: "is_run step start state event \<Longrightarrow> good (state n)"
proof (induction n)
  case 0
  then show ?case using good_start by (simp add: is_run_def)
next
  case (Suc n)
  then show ?case
    by (cases "event n") (auto simp: run_moment [OF Suc.prems] dest: good_step run_event [OF Suc.prems])
qed

end

section \<open>Eventually\<close>

text \<open>A state that lasts until an event happens still holds when it happens.\<close>

lemma until_event:
  assumes "P n" "\<exists>m\<ge>n. event m = Some e"
    and "\<And>k. k \<ge> n \<Longrightarrow> P k \<Longrightarrow> event k \<noteq> Some e \<Longrightarrow> P (Suc k)"
  shows "\<exists>m\<ge>n. event m = Some e \<and> P m"
proof -
  let ?first = "LEAST m. m \<ge> n \<and> event m = Some e"
  have first: "?first \<ge> n \<and> event ?first = Some e" using assms(2) by (rule LeastI_ex)
  have "k \<ge> n \<Longrightarrow> k \<le> ?first \<Longrightarrow> P k" for k
  proof (induction k rule: dec_induct)
    case base
    show ?case by (rule assms(1))
  next
    case (step k)
    then have "event k \<noteq> Some e" using not_less_Least [of k "\<lambda>m. m \<ge> n \<and> event m = Some e"] by auto
    then show ?case using assms(3) step by simp
  qed
  then show ?thesis using first by blast
qed

lemma from_then_on:
  assumes "P n" "\<And>k. k \<ge> n \<Longrightarrow> P k \<Longrightarrow> P (Suc k)" "m \<ge> n"
  shows "P (m :: nat)"
  using assms(3,1,2) by (induction m rule: dec_induct) auto

end
