(* ===== verification/TaskScheduler.thy ===== *)
theory TaskScheduler
  imports Prelude Runs
begin

text \<open>
  The background scheduler of the desktop application,
  \<open>apps/desktop/src/state_tasks/scheduler.rs\<close>: one worker thread, one running request and
  one replaceable pending request, guarded by a mutex and a condition variable.

  A step is one lock section (or the end of the worker's call, which holds no lock). A thread
  that finds its loop condition unmet sleeps on the condition variable; only \<open>notify_all\<close>, or a
  spurious wake-up, lets it look again. The client threads that call \<open>finish_pending\<close> are
  numbered. A worker that panics unwinds out of the thread, which the mutex does not notice: it
  is not held at the time.
\<close>

section \<open>State\<close>

record 'p queue =
  queue_next :: "'p option"
  running :: bool
  closed :: bool

datatype 'p worker = Polling | Sleeping | Working 'p | Exited | Panicked

datatype client = Away | Checking | Waiting

record 'p scheduler =
  queue :: "'p queue"
  worker_thread :: "'p worker"
  clients :: "nat \<Rightarrow> client"

definition scheduler_new :: "'p scheduler" where
  "scheduler_new =
     \<lparr>queue = \<lparr>queue_next = None, running = False, closed = False\<rparr>, worker_thread = Polling,
      clients = \<lambda>_. Away\<rparr>"

section \<open>Lock sections\<close>

definition wake_worker :: "'p worker \<Rightarrow> 'p worker" where
  "wake_worker w = (case w of Sleeping \<Rightarrow> Polling | _ \<Rightarrow> w)"

definition wake_client :: "client \<Rightarrow> client" where
  "wake_client c = (case c of Waiting \<Rightarrow> Checking | _ \<Rightarrow> c)"

definition notify_all :: "'p scheduler \<Rightarrow> 'p scheduler" where
  "notify_all s =
     s\<lparr>worker_thread := wake_worker (worker_thread s), clients := \<lambda>c. wake_client (clients s c)\<rparr>"

text \<open>The worker looks at the queue: it sleeps, leaves, or takes the pending request.\<close>

definition worker_poll :: "'p scheduler \<Rightarrow> 'p scheduler" where
  "worker_poll s =
     (if closed (queue s) then s\<lparr>worker_thread := Exited\<rparr>
      else case queue_next (queue s) of
             None \<Rightarrow> s\<lparr>worker_thread := Sleeping\<rparr>
           | Some p \<Rightarrow> s\<lparr>queue := queue s\<lparr>running := True, queue_next := None\<rparr>,
                         worker_thread := Working p\<rparr>)"

definition worker_done :: "'p scheduler \<Rightarrow> 'p scheduler" where
  "worker_done s = notify_all (s\<lparr>queue := queue s\<lparr>running := False\<rparr>, worker_thread := Polling\<rparr>)"

definition schedule_request :: "'p \<Rightarrow> 'p scheduler \<Rightarrow> bool \<times> 'p scheduler" where
  "schedule_request p s =
     (if closed (queue s) then (False, s)
      else (True, notify_all (s\<lparr>queue := queue s\<lparr>queue_next := Some p\<rparr>\<rparr>)))"

definition invalidate_pending :: "'p scheduler \<Rightarrow> 'p scheduler" where
  "invalidate_pending s = notify_all (s\<lparr>queue := queue s\<lparr>queue_next := None\<rparr>\<rparr>)"

definition is_idle :: "'p scheduler \<Rightarrow> bool" where
  "is_idle s \<longleftrightarrow> \<not> running (queue s) \<and> queue_next (queue s) = None"

definition finish_check :: "nat \<Rightarrow> 'p scheduler \<Rightarrow> 'p scheduler" where
  "finish_check c s =
     (if running (queue s) \<or> queue_next (queue s) \<noteq> None
      then s\<lparr>clients := (clients s)(c := Waiting)\<rparr>
      else s\<lparr>clients := (clients s)(c := Away)\<rparr>)"

definition close_scheduler :: "'p scheduler \<Rightarrow> 'p scheduler" where
  "close_scheduler s = notify_all (s\<lparr>queue := queue s\<lparr>closed := True, queue_next := None\<rparr>\<rparr>)"

section \<open>Steps\<close>

text \<open>
  The thread interleaving: \<open>None\<close> where the thread is not there to take the step. \<open>Drop\<close> needs
  the only reference to the scheduler, so no client is inside \<open>finish_pending\<close>; the model lets
  it happen at any time.
\<close>

datatype 'p event = Poll | Return | Panic | Schedule 'p | Invalidate | Enter nat | Check nat
  | Drop | WakeWorker | WakeClient nat

fun scheduler_step :: "'p event \<Rightarrow> 'p scheduler \<Rightarrow> 'p scheduler option" where
  "scheduler_step Poll s =
     (case worker_thread s of Polling \<Rightarrow> Some (worker_poll s) | _ \<Rightarrow> None)"
| "scheduler_step Return s =
     (case worker_thread s of Working p \<Rightarrow> Some (worker_done s) | _ \<Rightarrow> None)"
| "scheduler_step Panic s =
     (case worker_thread s of Working p \<Rightarrow> Some (s\<lparr>worker_thread := Panicked\<rparr>) | _ \<Rightarrow> None)"
| "scheduler_step (Schedule p) s = Some (snd (schedule_request p s))"
| "scheduler_step Invalidate s = Some (invalidate_pending s)"
| "scheduler_step (Enter c) s =
     (case clients s c of Away \<Rightarrow> Some (s\<lparr>clients := (clients s)(c := Checking)\<rparr>) | _ \<Rightarrow> None)"
| "scheduler_step (Check c) s =
     (case clients s c of Checking \<Rightarrow> Some (finish_check c s) | _ \<Rightarrow> None)"
| "scheduler_step Drop s = Some (close_scheduler s)"
| "scheduler_step WakeWorker s =
     (case worker_thread s of Sleeping \<Rightarrow> Some (s\<lparr>worker_thread := Polling\<rparr>) | _ \<Rightarrow> None)"
| "scheduler_step (WakeClient c) s =
     (case clients s c of Waiting \<Rightarrow> Some (s\<lparr>clients := (clients s)(c := Checking)\<rparr>) | _ \<Rightarrow> None)"

section \<open>No wake-up is lost\<close>

text \<open>
  A thread sleeps only while its loop condition is unmet: whatever makes it met has notified.
\<close>

definition scheduler_ok :: "'p scheduler \<Rightarrow> bool" where
  "scheduler_ok s \<longleftrightarrow>
     (running (queue s) \<longleftrightarrow> worker_thread s = Panicked \<or> (\<exists>p. worker_thread s = Working p)) \<and>
     (worker_thread s = Sleeping \<longrightarrow> queue_next (queue s) = None \<and> \<not> closed (queue s)) \<and>
     (worker_thread s = Exited \<longrightarrow> closed (queue s)) \<and>
     (closed (queue s) \<longrightarrow> queue_next (queue s) = None) \<and>
     (\<forall>c. clients s c = Waiting \<longrightarrow> \<not> is_idle s)"

lemmas lock_sections = worker_poll_def worker_done_def schedule_request_def invalidate_pending_def
  finish_check_def close_scheduler_def notify_all_def wake_worker_def wake_client_def is_idle_def

lemma scheduler_ok_new: "scheduler_ok scheduler_new"
  by (simp add: scheduler_ok_def scheduler_new_def)

lemma scheduler_ok_notify:
  assumes "running (queue s) \<longleftrightarrow> worker_thread s = Panicked \<or> (\<exists>p. worker_thread s = Working p)"
    "worker_thread s = Exited \<longrightarrow> closed (queue s)"
    "closed (queue s) \<longrightarrow> queue_next (queue s) = None"
  shows "scheduler_ok (notify_all s)"
proof -
  have "worker_thread (notify_all s) \<noteq> Sleeping"
    and w: "w \<noteq> Sleeping \<Longrightarrow> w \<noteq> Polling \<Longrightarrow> worker_thread (notify_all s) = w \<longleftrightarrow> worker_thread s = w"
    and "clients (notify_all s) c \<noteq> Waiting" for w c
    by (auto simp: notify_all_def wake_worker_def wake_client_def split: worker.splits client.splits)
  moreover have "queue (notify_all s) = queue s" by (simp add: notify_all_def)
  ultimately show ?thesis using assms unfolding scheduler_ok_def by (simp add: w)
qed

lemma scheduler_ok_step:
  assumes "scheduler_ok s" "scheduler_step e s = Some t"
  shows "scheduler_ok t"
proof (cases e)
  case Poll
  then have "worker_thread s = Polling" "t = worker_poll s"
    using assms(2) by (simp_all split: worker.splits)
  then show ?thesis using assms(1)
    by (auto simp: scheduler_ok_def worker_poll_def is_idle_def split: option.split)
next
  case Return
  then have "t = worker_done s" "worker_thread s \<noteq> Exited" using assms(2) by (auto split: worker.splits)
  then show ?thesis using assms(1) unfolding worker_done_def
    by (simp only:) (rule scheduler_ok_notify; simp add: scheduler_ok_def)
next
  case (Schedule p)
  then have "t = (if closed (queue s) then s else notify_all (s\<lparr>queue := queue s\<lparr>queue_next := Some p\<rparr>\<rparr>))"
    using assms(2) by (simp add: schedule_request_def split: if_splits)
  moreover have "\<not> closed (queue s) \<Longrightarrow> scheduler_ok (notify_all (s\<lparr>queue := queue s\<lparr>queue_next := Some p\<rparr>\<rparr>))"
    using assms(1) by (intro scheduler_ok_notify; simp add: scheduler_ok_def)
  ultimately show ?thesis using assms(1) by simp
next
  case Drop
  then have "t = close_scheduler s" using assms(2) by simp
  then show ?thesis using assms(1) unfolding close_scheduler_def
    by (simp only:) (rule scheduler_ok_notify; simp add: scheduler_ok_def)
next
  case Invalidate
  then have "t = invalidate_pending s" using assms(2) by simp
  then show ?thesis using assms(1) unfolding invalidate_pending_def
    by (simp only:) (rule scheduler_ok_notify; simp add: scheduler_ok_def)
next
  case (Check c)
  then have "t = finish_check c s" using assms(2) by (simp split: client.splits)
  then show ?thesis using assms(1) by (auto simp: scheduler_ok_def finish_check_def is_idle_def)
next
  case Panic
  then obtain p where "worker_thread s = Working p" "t = s\<lparr>worker_thread := Panicked\<rparr>"
    using assms(2) by (auto split: worker.splits)
  then show ?thesis using assms(1) by (simp add: scheduler_ok_def is_idle_def)
next
  case (Enter c)
  then have "t = s\<lparr>clients := (clients s)(c := Checking)\<rparr>" using assms(2) by (auto split: client.splits)
  then show ?thesis using assms(1) by (auto simp: scheduler_ok_def is_idle_def)
next
  case WakeWorker
  then have "worker_thread s = Sleeping" "t = s\<lparr>worker_thread := Polling\<rparr>"
    using assms(2) by (auto split: worker.splits)
  then show ?thesis using assms(1) by (auto simp: scheduler_ok_def is_idle_def)
next
  case (WakeClient c)
  then have "t = s\<lparr>clients := (clients s)(c := Checking)\<rparr>" using assms(2) by (auto split: client.splits)
  then show ?thesis using assms(1) by (auto simp: scheduler_ok_def is_idle_def)
qed

interpretation safe: preserved scheduler_step scheduler_new scheduler_ok
  by unfold_locales (fact scheduler_ok_new, fact scheduler_ok_step)

lemma finish_stays:
  assumes "scheduler_step e s = Some t" "running (queue s)" "clients s c \<noteq> Away"
  shows "clients t c \<noteq> Away"
  using assms
  by (cases e) (auto simp: lock_sections split: worker.splits client.splits if_splits option.splits)

section \<open>Fair runs\<close>

text \<open>
  The operating system runs a thread that can run, and every call of the worker returns.
\<close>

definition fair_run :: "(nat \<Rightarrow> 'p scheduler) \<Rightarrow> (nat \<Rightarrow> 'p event option) \<Rightarrow> bool" where
  "fair_run state event \<longleftrightarrow>
     is_run scheduler_step scheduler_new state event \<and>
     (\<forall>n. worker_thread (state n) = Polling \<longrightarrow> (\<exists>m\<ge>n. event m = Some Poll)) \<and>
     (\<forall>n p. worker_thread (state n) = Working p \<longrightarrow> (\<exists>m\<ge>n. event m = Some Return)) \<and>
     (\<forall>n c. clients (state n) c = Checking \<longrightarrow> (\<exists>m\<ge>n. event m = Some (Check c)))"

lemma fair_is_run: "fair_run state event \<Longrightarrow> is_run scheduler_step scheduler_new state event"
  by (simp add: fair_run_def)

lemma fair_ok: "fair_run state event \<Longrightarrow> scheduler_ok (state n)"
  by (rule safe.good_always [OF fair_is_run])

lemma fair_poll: "fair_run state event \<Longrightarrow> worker_thread (state n) = Polling \<Longrightarrow> \<exists>m\<ge>n. event m = Some Poll"
  by (simp add: fair_run_def)

lemma fair_return: "fair_run state event \<Longrightarrow> worker_thread (state n) = Working p \<Longrightarrow> \<exists>m\<ge>n. event m = Some Return"
  unfolding fair_run_def by blast

lemma fair_check: "fair_run state event \<Longrightarrow> clients (state n) c = Checking \<Longrightarrow> \<exists>m\<ge>n. event m = Some (Check c)"
  by (simp add: fair_run_def)

lemma fair_step:
  assumes "fair_run state event"
  shows "event n = None \<and> state (Suc n) = state n \<or>
    (\<exists>e. event n = Some e \<and> scheduler_step e (state n) = Some (state (Suc n)))"
  using run_moment [OF fair_is_run [OF assms]] run_event [OF fair_is_run [OF assms]]
  by (cases "event n") auto

lemma fair_event:
  "fair_run state event \<Longrightarrow> event n = Some e \<Longrightarrow> scheduler_step e (state n) = Some (state (Suc n))"
  by (rule run_event [OF fair_is_run])

text \<open>A step from outside a case leaves the case as it is: one lemma per thread.\<close>

lemma worker_kept:
  assumes "scheduler_step e s = Some t" "e \<noteq> Poll" "e \<noteq> Return" "e \<noteq> Panic"
    "worker_thread s \<noteq> Sleeping"
  shows "worker_thread t = worker_thread s"
  using assms
  by (cases e) (auto simp: lock_sections split: worker.splits client.splits if_splits)

lemma client_kept:
  assumes "scheduler_step e s = Some t" "e \<noteq> Check c" "clients s c = Checking"
  shows "clients t c = Checking"
  using assms
  by (cases e) (auto simp: lock_sections split: worker.splits client.splits if_splits option.splits)

lemma next_kept:
  assumes "scheduler_step e s = Some t" "e \<noteq> Poll" "e \<noteq> Invalidate" "e \<noteq> Drop" "\<forall>p. e \<noteq> Schedule p"
  shows "queue_next (queue t) = queue_next (queue s) \<and> closed (queue t) = closed (queue s)"
  using assms
  by (cases e) (auto simp: lock_sections split: worker.splits client.splits if_splits)

lemma next_none_kept:
  assumes "scheduler_step e s = Some t" "\<forall>p. e \<noteq> Schedule p" "queue_next (queue s) = None"
  shows "queue_next (queue t) = None"
  using assms
  by (cases e) (auto simp: lock_sections split: worker.splits client.splits if_splits)

lemma poll_takes:
  assumes "scheduler_step Poll s = Some t" "scheduler_ok s"
  shows "queue_next (queue t) = None"
    "queue_next (queue s) = Some p \<Longrightarrow> worker_thread t = Working p"
  using assms
  by (auto simp: worker_poll_def scheduler_ok_def split: worker.splits option.splits if_splits)

lemma panicked_kept:
  assumes "scheduler_step e s = Some t" "worker_thread s = Panicked"
  shows "worker_thread t = Panicked"
  using assms by (cases "e = Poll \<or> e = Return \<or> e = Panic") (auto dest: worker_kept)

lemma panic_event:
  assumes "scheduler_step e s = Some t" "worker_thread s \<noteq> Panicked"
  shows "worker_thread t = Panicked \<longleftrightarrow> e = Panic"
  using assms
  by (cases e) (auto simp: lock_sections split: worker.splits client.splits if_splits option.splits)

lemma return_step:
  assumes "scheduler_step Return s = Some t"
  shows "worker_thread t = Polling" "\<not> running (queue t)" "queue_next (queue t) = queue_next (queue s)"
  using assms by (auto simp: lock_sections split: worker.splits)

lemma schedule_step:
  assumes "scheduler_step (Schedule p) s = Some t" "\<not> closed (queue s)"
  shows "queue_next (queue t) = Some p"
  using assms by (auto simp: lock_sections)

lemma never_panicked:
  assumes "fair_run state event"
  shows "worker_thread (state n) \<noteq> Panicked"
proof (induction n)
  case 0
  then show ?case using fair_is_run [OF assms] by (simp add: is_run_def scheduler_new_def)
next
  case (Suc n)
  show ?case
  proof
    assume panicked: "worker_thread (state (Suc n)) = Panicked"
    then obtain e where e: "event n = Some e" "scheduler_step e (state n) = Some (state (Suc n))"
      using fair_step [OF assms, of n] Suc by auto
    then have "e = Panic" using panic_event panicked Suc by blast
    then obtain p where "worker_thread (state n) = Working p" using e(2) by (auto split: worker.splits)
    then obtain m where m: "m \<ge> n" "event m = Some Return" using fair_return [OF assms] by blast
    then have "m \<noteq> n" using e(1) \<open>e = Panic\<close> by auto
    then have "m \<ge> Suc n" using m(1) by simp
    moreover have "worker_thread (state (Suc k)) = Panicked" if "worker_thread (state k) = Panicked" for k
      using fair_step [OF assms, of k] that panicked_kept by metis
    ultimately have "worker_thread (state m) = Panicked"
      using from_then_on [of "\<lambda>k. worker_thread (state k) = Panicked", OF panicked] by blast
    then show False using fair_step [OF assms, of m] m(2) by auto
  qed
qed

lemma never_panics:
  assumes "fair_run state event"
  shows "event n \<noteq> Some Panic"
  using fair_step [OF assms, of n] panic_event never_panicked [OF assms] by (metis option.inject option.distinct(1))

text \<open>The worker's two stages: a call returns, and a worker that looks gets the lock.\<close>

lemma call_returns:
  assumes "fair_run state event" "worker_thread (state n) = Working q" "P n"
    and kept: "\<And>k. k \<ge> n \<Longrightarrow> P k \<Longrightarrow> event k \<noteq> Some Poll \<Longrightarrow> P (Suc k)"
  shows "\<exists>m\<ge>n. event m = Some Return \<and> worker_thread (state (Suc m)) = Polling \<and> P (Suc m)"
proof -
  have stays: "P (Suc k) \<and> worker_thread (state (Suc k)) = Working q"
    if "k \<ge> n" "P k \<and> worker_thread (state k) = Working q" "event k \<noteq> Some Return" for k
    using fair_step [OF assms(1), of k]
  proof
    assume "event k = None \<and> state (Suc k) = state k"
    then show ?thesis using kept [of k] that by simp
  next
    assume "\<exists>e. event k = Some e \<and> scheduler_step e (state k) = Some (state (Suc k))"
    then obtain e where e: "event k = Some e" "scheduler_step e (state k) = Some (state (Suc k))" by blast
    moreover have "e \<noteq> Poll" using e(2) that(2) by auto
    moreover have "e \<noteq> Panic" using e(1) never_panics [OF assms(1)] by blast
    ultimately show ?thesis using kept [of k] that worker_kept [of e "state k"] by auto
  qed
  obtain m where m: "m \<ge> n" "event m = Some Return" "P m" "worker_thread (state m) = Working q"
    using until_event [of "\<lambda>k. P k \<and> worker_thread (state k) = Working q" n event Return] assms(2,3)
      fair_return [OF assms(1,2)] stays by blast
  have "worker_thread (state (Suc m)) = Polling" by (rule return_step [OF fair_event [OF assms(1) m(2)]])
  then show ?thesis using m kept [of m] by auto
qed

lemma pending_is_polled:
  assumes "fair_run state event" "worker_thread (state n) = Polling" "P n"
    and "\<And>k. k \<ge> n \<Longrightarrow> P k \<Longrightarrow> event k \<noteq> Some Poll \<Longrightarrow> P (Suc k)"
  shows "\<exists>m\<ge>n. event m = Some Poll \<and> P m"
  using until_event [of P n event Poll] fair_poll [OF assms(1,2)] assms(3,4) by blast

lemma pending_worker:
  assumes "fair_run state event" "queue_next (queue (state n)) = Some p"
  shows "worker_thread (state n) = Polling \<or> (\<exists>q. worker_thread (state n) = Working q)"
  using fair_ok [OF assms(1), of n] never_panicked [OF assms(1), of n] assms(2)
  by (cases "worker_thread (state n)") (auto simp: scheduler_ok_def)

text \<open>What is pending and stays until it is looked at, is looked at.\<close>

lemma pending_until_polled:
  assumes "fair_run state event" "P n" "\<And>k. P k \<Longrightarrow> queue_next (queue (state k)) \<noteq> None"
    and kept: "\<And>k. k \<ge> n \<Longrightarrow> P k \<Longrightarrow> event k \<noteq> Some Poll \<Longrightarrow> P (Suc k)"
  shows "\<exists>m\<ge>n. event m = Some Poll \<and> P m"
proof -
  have "worker_thread (state n) = Polling \<or> (\<exists>q. worker_thread (state n) = Working q)"
    using pending_worker [OF assms(1)] assms(2,3) by blast
  then show ?thesis
  proof
    assume "worker_thread (state n) = Polling"
    then show ?thesis using pending_is_polled [OF assms(1) _ assms(2) kept] by blast
  next
    assume "\<exists>q. worker_thread (state n) = Working q"
    then obtain m where m: "m \<ge> n" "worker_thread (state (Suc m)) = Polling" "P (Suc m)"
      using call_returns [OF assms(1) _ assms(2) kept] by blast
    have "\<exists>j\<ge>Suc m. event j = Some Poll \<and> P j"
      using pending_is_polled [of state event "Suc m" P] assms(1) m kept by simp
    then show ?thesis using m(1) by (meson Suc_leD le_trans)
  qed
qed

section \<open>Liveness\<close>

text \<open>
  C10. A request that the scheduler accepts is taken up by the worker in every fair run, unless a
  later request replaces it, it is invalidated, or the scheduler is closed.
\<close>

theorem scheduled_request_starts:
  assumes "fair_run state event" "event n = Some (Schedule p)" "\<not> closed (queue (state n))"
    and untouched: "\<And>m. m > n \<Longrightarrow> event m \<noteq> Some Invalidate \<and> event m \<noteq> Some Drop \<and> (\<forall>q. event m \<noteq> Some (Schedule q))"
  shows "\<exists>m>n. event m = Some Poll \<and> worker_thread (state (Suc m)) = Working p"
proof -
  let ?P = "\<lambda>k. queue_next (queue (state k)) = Some p"
  have kept: "?P (Suc k)" if "k \<ge> Suc n" "?P k" "event k \<noteq> Some Poll" for k
    using fair_step [OF assms(1), of k] untouched [of k] that next_kept [of _ "state k" "state (Suc k)"] by auto
  have "?P (Suc n)"
    by (rule schedule_step [OF fair_event [OF assms(1,2)] assms(3)])
  then obtain m where m: "m \<ge> Suc n" "event m = Some Poll" "?P m"
    using pending_until_polled [OF assms(1), of ?P "Suc n"] kept by auto
  moreover have "scheduler_step Poll (state m) = Some (state (Suc m))"
    by (rule fair_event [OF assms(1) m(2)])
  ultimately show ?thesis using poll_takes(2) [OF _ fair_ok [OF assms(1)]] by (auto intro!: exI [of _ m])
qed

lemma idle_kept:
  assumes "scheduler_step e s = Some t" "\<forall>p. e \<noteq> Schedule p" "is_idle s"
  shows "is_idle t"
  using assms
  by (cases e) (auto simp: lock_sections split: worker.splits client.splits if_splits option.splits)

lemma check_leaves: "scheduler_step (Check c) s = Some t \<Longrightarrow> is_idle s \<Longrightarrow> clients t c = Away"
  by (auto simp: finish_check_def is_idle_def split: client.splits)

lemma fair_keeps:
  assumes "fair_run state event" "\<And>m p. m \<ge> n \<Longrightarrow> event m \<noteq> Some (Schedule p)"
    and "\<And>e s t. scheduler_step e s = Some t \<Longrightarrow> \<forall>p. e \<noteq> Schedule p \<Longrightarrow> Q s \<Longrightarrow> Q t"
    and "Q (state k)" "k \<ge> n" "m \<ge> k"
  shows "Q (state m)"
proof (rule from_then_on [of "\<lambda>k. Q (state k)", OF assms(4) _ assms(6)])
  fix j
  assume "j \<ge> k" "Q (state j)"
  moreover from this have "event j \<noteq> Some (Schedule p)" for p using assms(2) [of j] assms(5) by simp
  ultimately show "Q (state (Suc j))" using fair_step [OF assms(1), of j] assms(3) by auto
qed

lemma eventually_none:
  assumes "fair_run state event" "\<And>m p. m \<ge> n \<Longrightarrow> event m \<noteq> Some (Schedule p)"
  shows "\<exists>k\<ge>n. queue_next (queue (state k)) = None"
proof (rule ccontr)
  assume "\<not> ?thesis"
  then have some: "\<forall>k\<ge>n. queue_next (queue (state k)) \<noteq> None" by simp
  have "\<exists>m\<ge>n. event m = Some Poll \<and> m \<ge> n"
    by (rule pending_until_polled [OF assms(1), of "\<lambda>k. k \<ge> n" n]) (use some in auto)
  then obtain m where m: "m \<ge> n" "event m = Some Poll" by blast
  then have "scheduler_step Poll (state m) = Some (state (Suc m))" by (intro fair_event [OF assms(1)]) simp
  then have "queue_next (queue (state (Suc m))) = None" by (rule poll_takes(1)) (rule fair_ok [OF assms(1)])
  then show False using some m(1) by simp
qed

lemma eventually_idle:
  assumes "fair_run state event" "\<And>m p. m \<ge> n \<Longrightarrow> event m \<noteq> Some (Schedule p)"
  shows "\<exists>k\<ge>n. is_idle (state k)"
proof -
  obtain k where k: "k \<ge> n" "queue_next (queue (state k)) = None" using eventually_none [OF assms] by blast
  have none: "queue_next (queue (state m)) = None" if "m \<ge> k" for m
    using fair_keeps [of state event n "\<lambda>s. queue_next (queue s) = None", OF assms(1,2) next_none_kept k(2,1) that] .
  show ?thesis
  proof (cases "running (queue (state k))")
    case False
    then show ?thesis using k by (auto simp: is_idle_def)
  next
    case True
    then obtain q where "worker_thread (state k) = Working q"
      using fair_ok [OF assms(1), of k] never_panicked [OF assms(1), of k] by (auto simp: scheduler_ok_def)
    then obtain m where m: "m \<ge> k" "event m = Some Return" using fair_return [OF assms(1)] by blast
    then have "scheduler_step Return (state m) = Some (state (Suc m))" by (intro fair_event [OF assms(1)]) simp
    then have "is_idle (state (Suc m))" using none [of "Suc m"] m(1) return_step(2) by (auto simp: is_idle_def)
    then show ?thesis using m(1) k(1) by (meson le_SucI le_trans)
  qed
qed

text \<open>
  C9. In every fair run, once nobody schedules any more, a thread inside \<open>finish_pending\<close>
  leaves it: the worker finishes what runs and what is pending, and its last notification finds
  the thread.
\<close>

theorem finish_pending_returns:
  assumes "fair_run state event" "\<And>m p. m \<ge> n \<Longrightarrow> event m \<noteq> Some (Schedule p)"
  shows "\<exists>m\<ge>n. clients (state m) c = Away"
proof -
  obtain k where k: "k \<ge> n" "is_idle (state k)" using eventually_idle [OF assms] by blast
  have idle: "is_idle (state m)" if "m \<ge> k" for m
    using fair_keeps [of state event n is_idle, OF assms(1,2) idle_kept k(2,1) that] .
  show ?thesis
  proof (cases "clients (state k) c")
    case Checking
    then obtain m where m: "m \<ge> k" "event m = Some (Check c)" using fair_check [OF assms(1)] by blast
    then have "scheduler_step (Check c) (state m) = Some (state (Suc m))" by (intro fair_event [OF assms(1)]) simp
    then show ?thesis using check_leaves idle m(1) k(1) by (meson le_SucI le_trans)
  next
    case Waiting
    then show ?thesis using fair_ok [OF assms(1), of k] k(2) by (auto simp: scheduler_ok_def)
  qed (use k in auto)
qed

section \<open>Runs that meet the hypotheses\<close>

lemma fair_replay:
  assumes run: "run_events scheduler_step es scheduler_new = Some t"
    and settled: "worker_thread t = Sleeping" "\<And>c. clients t c \<noteq> Checking"
    and worker: "\<forall>n<length es. case worker_thread (replay scheduler_step es scheduler_new n) of
      Polling \<Rightarrow> Poll \<in> set (drop n es) | Working p \<Rightarrow> Return \<in> set (drop n es) | _ \<Rightarrow> True"
    and client: "\<forall>n<length es. \<forall>c. clients (replay scheduler_step es scheduler_new n) c = Checking \<longrightarrow>
      Check c \<in> set (drop n es)"
  shows "fair_run (replay scheduler_step es scheduler_new) (replayed es)"
proof -
  let ?state = "replay scheduler_step es scheduler_new"
  have later: "\<exists>m\<ge>n. replayed es m = Some e" if e: "e \<in> set (drop n es)" for e n
  proof -
    obtain i where "i < length (drop n es)" "drop n es ! i = e" using e unfolding in_set_conv_nth by blast
    then show ?thesis by (intro exI [of _ "n + i"]) (simp add: replayed_def)
  qed
  have early: "n < length es" if "worker_thread (?state n) \<noteq> Sleeping \<or> clients (?state n) c = Checking" for n c
    using that settled replay_rest [OF run, of n] by (cases "n < length es") auto
  have "\<exists>m\<ge>n. replayed es m = Some Poll" if "worker_thread (?state n) = Polling" for n
    using worker that early [of n] by (intro later) (auto split: worker.splits)
  moreover have "\<exists>m\<ge>n. replayed es m = Some Return" if "worker_thread (?state n) = Working p" for n p
    using worker that early [of n] by (intro later) (auto split: worker.splits)
  moreover have "\<exists>m\<ge>n. replayed es m = Some (Check c)" if "clients (?state n) c = Checking" for n c
    using client that early [of n c] by (intro later) auto
  ultimately show ?thesis unfolding fair_run_def using replay_is_run [OF run] by blast
qed

definition sample_events :: "nat event list" where
  "sample_events = [Schedule 7, Enter 0, Check 0, Poll, Return, Check 0, Poll]"

lemmas scheduler_eval = replay_def replayed_def sample_events_def scheduler_new_def lock_sections
  less_Suc_eq numeral_nat take_Cons' drop_Cons'

lemma sample_is_fair:
  "fair_run (replay scheduler_step sample_events scheduler_new) (replayed sample_events)"
proof -
  obtain t where t: "run_events scheduler_step sample_events scheduler_new = Some t"
    and "worker_thread t = Sleeping" "clients t c \<noteq> Checking" for c
    by (simp add: scheduler_eval)
  then show ?thesis
    by (rule fair_replay) (auto simp: scheduler_eval)
qed

theorem scheduled_request_starts_witness:
  "\<exists>m>0. replayed sample_events m = Some Poll \<and>
     worker_thread (replay scheduler_step sample_events scheduler_new (Suc m)) = Working 7"
  by (rule scheduled_request_starts [OF sample_is_fair])
    (auto simp: scheduler_eval)

theorem finish_pending_returns_witness:
  "clients (replay scheduler_step sample_events scheduler_new 3) 0 = Waiting \<and>
     (\<exists>m\<ge>3. clients (replay scheduler_step sample_events scheduler_new m) 0 = Away)"
proof
  show "clients (replay scheduler_step sample_events scheduler_new 3) 0 = Waiting"
    by (simp add: scheduler_eval)
  show "\<exists>m\<ge>3. clients (replay scheduler_step sample_events scheduler_new m) 0 = Away"
    by (rule finish_pending_returns [OF sample_is_fair]) (auto simp: scheduler_eval split: if_splits)
qed

section \<open>Safety\<close>

text \<open>
  C30. No wake-up is lost: over every run, a sleeping worker has nothing to take and is not asked
  to leave, a sleeping \<open>finish_pending\<close> has something to wait for, and \<open>running\<close> is set exactly
  while the worker is inside a call, or has panicked in one.
\<close>

theorem no_lost_wakeup:
  assumes "run_events scheduler_step es scheduler_new = Some s"
  shows "(worker_thread s = Sleeping \<longrightarrow> queue_next (queue s) = None \<and> \<not> closed (queue s)) \<and>
    (\<forall>c. clients s c = Waiting \<longrightarrow> \<not> is_idle s) \<and>
    (running (queue s) \<longleftrightarrow> worker_thread s = Panicked \<or> (\<exists>p. worker_thread s = Working p))"
  using safe.good_reached [OF assms] unfolding scheduler_ok_def by blast

theorem no_lost_wakeup_witness:
  "\<exists>s. run_events scheduler_step [Schedule (7 :: nat), Enter 0, Check 0] scheduler_new = Some s \<and>
     clients s 0 = Waiting \<and> \<not> is_idle s"
proof -
  obtain s where s: "run_events scheduler_step [Schedule (7 :: nat), Enter 0, Check 0] scheduler_new = Some s"
    and "clients s 0 = Waiting"
    by (simp add: scheduler_eval)
  with no_lost_wakeup [OF s] show ?thesis by blast
qed

text \<open>What the worker takes is the last request scheduled, pending ever since.\<close>

lemma pending_since:
  assumes "run_events scheduler_step es scheduler_new = Some s" "queue_next (queue s) = Some p"
  shows "\<exists>xs ys. es = xs @ Schedule p # ys \<and> (\<forall>q. Schedule q \<notin> set ys) \<and> Invalidate \<notin> set ys \<and>
    Drop \<notin> set ys \<and> Poll \<notin> set ys"
  using assms
proof (induction es arbitrary: s rule: rev_induct)
  case Nil
  then show ?case by (auto simp: scheduler_new_def)
next
  case (snoc e es)
  then obtain u where u: "run_events scheduler_step es scheduler_new = Some u" "scheduler_step e u = Some s"
    by (auto simp: run_snoc)
  note ok = safe.good_reached [OF u(1)]
  show ?case
  proof (cases "\<exists>q. e = Schedule q")
    case True
    then obtain q where q: "e = Schedule q" ..
    show ?thesis
    proof (cases "closed (queue u)")
      case True
      then show ?thesis using u(2) q snoc.prems(2) ok by (auto simp: schedule_request_def scheduler_ok_def)
    next
      case False
      then have "q = p" using schedule_step [of q u s] u(2) q snoc.prems(2) by simp
      then show ?thesis using q by force
    qed
  next
    case False
    have "e \<noteq> Poll" using poll_takes(1) [of u s] u(2) ok snoc.prems(2) by auto
    moreover have "e \<noteq> Invalidate" "e \<noteq> Drop" using u(2) snoc.prems(2) by (auto simp: lock_sections)
    ultimately have "queue_next (queue u) = Some p" using next_kept [OF u(2)] False snoc.prems(2) by auto
    then obtain xs ys where "es = xs @ Schedule p # ys" "\<forall>q. Schedule q \<notin> set ys" "Invalidate \<notin> set ys"
      "Drop \<notin> set ys" "Poll \<notin> set ys"
      using snoc.IH [OF u(1)] by blast
    then show ?thesis using False \<open>e \<noteq> Poll\<close> \<open>e \<noteq> Invalidate\<close> \<open>e \<noteq> Drop\<close>
      by (intro exI [of _ xs] exI [of _ "ys @ [e]"]) auto
  qed
qed

text \<open>
  C31. What the worker starts is the last request scheduled, which nothing has invalidated since
  and which the worker has not been at the queue to take before: a request starts at most once,
  and never after a newer one was accepted.
\<close>

theorem started_request_is_latest:
  assumes "run_events scheduler_step es scheduler_new = Some s"
    and "scheduler_step Poll s = Some t" "worker_thread t = Working p"
  shows "\<exists>xs ys. es = xs @ Schedule p # ys \<and> (\<forall>q. Schedule q \<notin> set ys) \<and> Invalidate \<notin> set ys \<and>
    Drop \<notin> set ys \<and> Poll \<notin> set ys"
proof (rule pending_since [OF assms(1)])
  show "queue_next (queue s) = Some p"
    using assms(2,3) by (auto simp: worker_poll_def split: worker.splits option.splits if_splits)
qed

theorem started_request_is_latest_witness:
  "\<exists>xs ys. [Schedule (3 :: nat), Schedule 7] = xs @ Schedule 7 # ys \<and> (\<forall>q. Schedule q \<notin> set ys)"
proof -
  obtain s t where "run_events scheduler_step [Schedule (3 :: nat), Schedule 7] scheduler_new = Some s"
    and "scheduler_step Poll s = Some t" "worker_thread t = Working 7"
    by (simp add: scheduler_eval)
  from started_request_is_latest [OF this] show ?thesis by blast
qed

text \<open>
  C37. A worker that panics leaves \<open>running\<close> set and nothing resets it: whatever happens later,
  the scheduler is never idle again, no request is ever taken up, and a thread that is inside
  \<open>finish_pending\<close> never leaves it.
\<close>

theorem panic_hangs_finish_pending:
  fixes s :: "'p scheduler"
  assumes "run_events scheduler_step xs scheduler_new = Some s" "scheduler_step Panic s = Some s'"
    and "run_events scheduler_step ys s' = Some t"
  shows "\<not> is_idle t \<and> (\<forall>p. worker_thread t \<noteq> Working p) \<and>
    (\<forall>c. clients s' c \<noteq> Away \<longrightarrow> clients t c \<noteq> Away)"
proof -
  define stuck where "stuck u \<longleftrightarrow> scheduler_ok u \<and> worker_thread u = Panicked \<and>
    (\<forall>c. clients s' c \<noteq> Away \<longrightarrow> clients u c \<noteq> Away)" for u :: "'p scheduler"
  have start: "stuck s'"
    using assms(2) scheduler_ok_step [OF safe.good_reached [OF assms(1)] assms(2)]
    by (auto simp: stuck_def split: worker.splits)
  have stays: "stuck v" if "stuck u" "scheduler_step e u = Some v" for e and u v :: "'p scheduler"
    using that scheduler_ok_step [of u e v] panicked_kept [of e u v] finish_stays [of e u v]
    by (auto simp: stuck_def scheduler_ok_def)
  have "stuck u \<Longrightarrow> run_events scheduler_step ys u = Some t \<Longrightarrow> stuck t" for u
    by (induction ys arbitrary: u) (auto split: bind_splits dest: stays)
  with start assms(3) have "stuck t" by blast
  then show ?thesis by (auto simp: stuck_def scheduler_ok_def is_idle_def)
qed

theorem panic_hangs_finish_pending_witness:
  "\<exists>t. run_events scheduler_step [Schedule (7 :: nat), Enter 0, Poll, Panic, Check 0] scheduler_new = Some t \<and>
     \<not> is_idle t \<and> clients t 0 \<noteq> Away"
proof -
  obtain s s' t where "run_events scheduler_step [Schedule (7 :: nat), Enter 0, Poll] scheduler_new = Some s"
    and "scheduler_step Panic s = Some s'" "run_events scheduler_step [Check 0] s' = Some t"
    and "clients s' 0 \<noteq> Away"
    and "run_events scheduler_step [Schedule 7, Enter 0, Poll, Panic, Check 0] scheduler_new = Some t"
    by (simp add: scheduler_eval)
  with panic_hangs_finish_pending [of "[Schedule 7, Enter 0, Poll]" s s' "[Check 0]" t]
  show ?thesis by blast
qed

end
