(* ===== verification/DeviceClock.thy ===== *)
theory DeviceClock
  imports Transport
begin

text \<open>
  The clock exchange between the desktop and a controller: the packets of
  \<open>crates/donder-device-protocol/src/clock.rs\<close>, the controller's answer
  (\<open>clock_server\<close> in \<open>firmware/esp32/src/bin/loader.rs\<close>), and the samples the desktop takes of
  it (\<open>apps/desktop/src/device/playback.rs\<close>).

  What the network does is data of the model: the datagrams that reach a socket, with the
  desktop's clock when each is read. A receive buffer truncates a longer datagram, as on Unix.
\<close>

section \<open>Packets\<close>

definition CLOCK_MAGIC :: "u8 list" where
  "CLOCK_MAGIC = [0x44, 0x43, 0x4C, 0x4B]"

record clock_reply =
  reply_sent :: u64
  reply_boot_id :: u32
  reply_received :: u64
  reply_replied :: u64

definition request_encode :: "u64 \<Rightarrow> u8 list" where
  "request_encode sent = CLOCK_MAGIC @ le64 sent"

definition request_decode :: "u8 list \<Rightarrow> u64 option" where
  "request_decode bytes =
     (if length bytes = 12 \<and> take 4 bytes = CLOCK_MAGIC then of_le64 (drop 4 bytes) else None)"

definition reply_encode :: "clock_reply \<Rightarrow> u8 list" where
  "reply_encode r =
     CLOCK_MAGIC @ le64 (reply_sent r) @ le32 (reply_boot_id r) @ le64 (reply_received r) @
       le64 (reply_replied r)"

definition field :: "nat \<Rightarrow> u8 list \<Rightarrow> nat \<Rightarrow> u8 list" where
  "field n bytes start = take n (drop start bytes)"

fun from_le32 :: "u8 list \<Rightarrow> u32 option" where
  "from_le32 [a, b, c, d] = Some (of_le32 a b c d)"
| "from_le32 _ = None"

definition reply_decode :: "u8 list \<Rightarrow> clock_reply option" where
  "reply_decode bytes =
     (if length bytes = 32 \<and> take 4 bytes = CLOCK_MAGIC
      then do { sent \<leftarrow> of_le64 (field 8 bytes 4);
                boot \<leftarrow> from_le32 (field 4 bytes 12);
                received \<leftarrow> of_le64 (field 8 bytes 16);
                replied \<leftarrow> of_le64 (field 8 bytes 24);
                Some \<lparr>reply_sent = sent, reply_boot_id = boot, reply_received = received,
                      reply_replied = replied\<rparr> }
      else None)"

text \<open>
  The controller's answer to one datagram: none to what does not fit its buffer or is no
  request. The two times are its clock's at the two readings.
\<close>

definition clock_answer :: "u32 \<Rightarrow> u64 \<Rightarrow> u64 \<Rightarrow> u8 list \<Rightarrow> u8 list option" where
  "clock_answer boot received replied datagram =
     (if length datagram > 12 then None
      else case request_decode datagram of
             None \<Rightarrow> None
           | Some sent \<Rightarrow> Some (reply_encode
               \<lparr>reply_sent = sent, reply_boot_id = boot, reply_received = received,
                reply_replied = replied\<rparr>))"

section \<open>Samples\<close>

datatype link_error = LinkFailed string | MasterBackwards | ControllerBackwards | InvalidExchange
  | ReplyTimedOut | MalformedReply | RestartedDuringSync | NoSamples | DriftOutOfRange
  | NoLoadedSequence | PrepareFirst | DifferentShow | CounterExhausted | OtherProject
  | ClockOverflow | DeadlineClose "nat list"

record sampled_clock =
  sample_boot_id :: u32
  sample_local :: u64
  sample_master :: u64
  sample_delay :: u64

definition checked_sub64 :: "u64 \<Rightarrow> u64 \<Rightarrow> u64 option" where
  "checked_sub64 a b = (if b \<le> a then Some (a - b) else None)"

definition saturating_sub64 :: "u64 \<Rightarrow> u64 \<Rightarrow> u64" where
  "saturating_sub64 a b = (if b \<le> a then a - b else 0)"

definition clock_sample :: "u64 \<Rightarrow> u64 \<Rightarrow> u64 \<Rightarrow> u64 \<Rightarrow> u32 \<Rightarrow> link_error + sampled_clock" where
  "clock_sample t1 t2 t3 t4 boot =
     (case checked_sub64 t4 t1 of
        None \<Rightarrow> Inl MasterBackwards
      | Some elapsed \<Rightarrow>
          (case checked_sub64 t3 t2 of
             None \<Rightarrow> Inl ControllerBackwards
           | Some processing \<Rightarrow>
               (case checked_sub64 elapsed processing of
                  None \<Rightarrow> Inl InvalidExchange
                | Some delay \<Rightarrow>
                    Inr \<lparr>sample_boot_id = boot, sample_local = t2 + processing div 2,
                         sample_master = t1 + elapsed div 2, sample_delay = delay\<rparr>)))"

text \<open>
  Waiting for the reply: replies to earlier requests are passed over. The list ends where the
  deadline passes; a receive that is still waiting then fails first.
\<close>

datatype arrival = Datagram "u8 list" u64 | ReceiveFailed string

fun await_reply :: "u64 \<Rightarrow> arrival list \<Rightarrow> link_error + sampled_clock" where
  "await_reply t1 [] = Inl ReplyTimedOut"
| "await_reply t1 (ReceiveFailed why # later) = Inl (LinkFailed why)"
| "await_reply t1 (Datagram bytes t4 # later) =
     (case reply_decode (take 33 bytes) of
        None \<Rightarrow> Inl MalformedReply
      | Some r \<Rightarrow>
          if reply_sent r \<noteq> t1 then await_reply t1 later
          else clock_sample t1 (reply_received r) (reply_replied r) t4 (reply_boot_id r))"

record exchange =
  exchange_sent :: u64
  exchange_failure :: "string option"
  exchange_arrivals :: "arrival list"

definition udp_clock_sample :: "exchange \<Rightarrow> link_error + sampled_clock" where
  "udp_clock_sample x =
     (case exchange_failure x of
        Some why \<Rightarrow> Inl (LinkFailed why)
      | None \<Rightarrow> await_reply (exchange_sent x) (exchange_arrivals x))"

section \<open>The rate\<close>

text \<open>
  The estimate of a controller's rate from two samples of one boot at least thirty seconds
  apart, in parts per billion; the quotient rounds towards zero.
\<close>

definition SAMPLE_GAP :: u64 where "SAMPLE_GAP = 30000000"
definition MAX_RATE_PPB :: int where "MAX_RATE_PPB = 200000"

definition rate_estimate :: "sampled_clock \<Rightarrow> sampled_clock \<Rightarrow> u64 \<Rightarrow> int" where
  "rate_estimate previous s elapsed =
     ((uint (sample_master s) - uint (sample_master previous)) - uint elapsed) * 1000000000
       sdiv uint elapsed"

definition same_boot :: "sampled_clock option \<Rightarrow> sampled_clock \<Rightarrow> sampled_clock option" where
  "same_boot previous s =
     (case previous of
        Some p \<Rightarrow> if sample_boot_id p = sample_boot_id s then Some p else None
      | None \<Rightarrow> None)"

definition next_rate :: "sampled_clock option \<Rightarrow> int \<Rightarrow> sampled_clock \<Rightarrow> link_error + int" where
  "next_rate previous rate s =
     (case same_boot previous s of
        None \<Rightarrow> Inr rate
      | Some p \<Rightarrow>
          let elapsed = saturating_sub64 (sample_local s) (sample_local p)
          in if elapsed \<ge> SAMPLE_GAP
             then let estimate = rate_estimate p s elapsed
                  in if \<bar>estimate\<bar> > MAX_RATE_PPB then Inl DriftOutOfRange else Inr estimate
             else Inr rate)"

definition next_sample :: "sampled_clock option \<Rightarrow> sampled_clock \<Rightarrow> sampled_clock option" where
  "next_sample previous s =
     (case previous of
        None \<Rightarrow> Some s
      | Some p \<Rightarrow>
          if sample_boot_id p \<noteq> sample_boot_id s \<or>
             saturating_sub64 (sample_local s) (sample_local p) \<ge> SAMPLE_GAP
          then Some s else previous)"

definition uncertainty_of :: "sampled_clock \<Rightarrow> u32" where
  "uncertainty_of s = ucast (sample_delay s div 2 + 100)"

definition sync_command_for :: "u32 \<Rightarrow> int \<Rightarrow> sampled_clock \<Rightarrow> sync_command" where
  "sync_command_for clock rate s =
     \<lparr>sync_boot_id = sample_boot_id s, sync_clock_id = clock, local_micros = sample_local s,
      master_micros = sample_master s, sync_rate_ppb = rate, valid_for_micros = 15000000\<rparr>"

section \<open>Packets read back\<close>

lemma le32_of_le32 [simp]: "le32 (of_le32 a b c d) = [a, b, c, d]"
proof -
  have "ucast (of_le32 a b c d) = a" "ucast (drop_bit 8 (of_le32 a b c d)) = b"
    "ucast (drop_bit 16 (of_le32 a b c d)) = c" "ucast (drop_bit 24 (of_le32 a b c d)) = d"
    unfolding of_le32_def by (rule bit_word_eqI; auto simp: bit_simps dest: bit_imp_le_length)+
  then show ?thesis by (simp add: le32_def)
qed

lemma le64_of_le64: "of_le64 bytes = Some w \<Longrightarrow> le64 w = bytes"
proof (cases bytes rule: of_le64.cases)
  case (1 a b c d e f g h)
  assume "of_le64 bytes = Some w"
  then have w: "w = ucast (of_le32 a b c d) OR push_bit 32 (ucast (of_le32 e f g h))" using 1 by simp
  have "ucast w = of_le32 a b c d" "ucast (drop_bit 32 w) = of_le32 e f g h"
    unfolding w by (rule bit_word_eqI; auto simp: bit_simps dest: bit_imp_le_length)+
  then show ?thesis using 1 by (simp add: le64_def)
qed simp_all

lemma of_le64_eq: "of_le64 bytes = Some w \<longleftrightarrow> bytes = le64 w"
  using le64_of_le64 [of bytes w] of_le64_le64 [of w] by auto

lemma from_le32_eq: "from_le32 bytes = Some w \<longleftrightarrow> bytes = le32 w"
proof (cases bytes rule: from_le32.cases)
  case (1 a b c d)
  then show ?thesis by (metis from_le32.simps(1) le32_of_le32 le32_def of_le32_le32 option.inject)
qed (auto simp: le32_def)

lemma request_decode_eq: "request_decode bytes = Some t \<longleftrightarrow> bytes = request_encode t"
proof -
  have "length CLOCK_MAGIC = 4" by (simp add: CLOCK_MAGIC_def)
  moreover have "bytes = take 4 bytes @ drop 4 bytes" by simp
  ultimately show ?thesis unfolding request_decode_def request_encode_def of_le64_eq
    by (metis append_eq_conv_conj length_append length_le64 numeral_plus_numeral
      semiring_norm(2) semiring_norm(6) option.distinct(1) append_take_drop_id
      add_num_simps of_le64_eq)
qed

lemma reply_parts:
  "length bytes = 32 \<Longrightarrow>
     bytes = take 4 bytes @ field 8 bytes 4 @ field 4 bytes 12 @ field 8 bytes 16 @ field 8 bytes 24"
proof -
  assume len: "length bytes = 32"
  have "drop n bytes = take m (drop n bytes) @ drop (n + m) bytes" for n m
    by (metis append_take_drop_id drop_drop add.commute)
  from this [of 4 8] this [of 12 4] this [of 16 8]
  have "drop 4 bytes = field 8 bytes 4 @ field 4 bytes 12 @ field 8 bytes 16 @ drop 24 bytes"
    by (simp add: field_def)
  moreover have "drop 24 bytes = field 8 bytes 24" using len by (simp add: field_def)
  ultimately show ?thesis by (metis append_take_drop_id)
qed

lemma reply_encode_fields:
  "take 4 (reply_encode r) = CLOCK_MAGIC" "field 8 (reply_encode r) 4 = le64 (reply_sent r)"
  "field 4 (reply_encode r) 12 = le32 (reply_boot_id r)"
  "field 8 (reply_encode r) 16 = le64 (reply_received r)"
  "field 8 (reply_encode r) 24 = le64 (reply_replied r)" "length (reply_encode r) = 32"
proof -
  have [simp]: "length CLOCK_MAGIC = 4" by (simp add: CLOCK_MAGIC_def)
  show "take 4 (reply_encode r) = CLOCK_MAGIC" "field 8 (reply_encode r) 4 = le64 (reply_sent r)"
    "field 4 (reply_encode r) 12 = le32 (reply_boot_id r)"
    "field 8 (reply_encode r) 16 = le64 (reply_received r)"
    "field 8 (reply_encode r) 24 = le64 (reply_replied r)" "length (reply_encode r) = 32"
    by (simp_all add: reply_encode_def field_def)
qed

lemma reply_decode_eq: "reply_decode bytes = Some r \<longleftrightarrow> bytes = reply_encode r"
proof
  assume "reply_decode bytes = Some r"
  then have "length bytes = 32" "take 4 bytes = CLOCK_MAGIC" "field 8 bytes 4 = le64 (reply_sent r)"
    "field 4 bytes 12 = le32 (reply_boot_id r)" "field 8 bytes 16 = le64 (reply_received r)"
    "field 8 bytes 24 = le64 (reply_replied r)"
    by (auto simp: reply_decode_def of_le64_eq from_le32_eq split: if_splits bind_splits)
  then show "bytes = reply_encode r"
    using reply_parts [of bytes] by (simp add: reply_encode_def)
next
  assume "bytes = reply_encode r"
  moreover have "from_le32 (le32 w) = Some w" for w by (simp add: from_le32_eq)
  ultimately show "reply_decode bytes = Some r"
    by (simp add: reply_decode_def reply_encode_fields)
qed

section \<open>A sample is as good as its delay\<close>

lemma clock_sample_Inr:
  "clock_sample t1 t2 t3 t4 boot = Inr s \<longleftrightarrow>
     t1 \<le> t4 \<and> t2 \<le> t3 \<and> t3 - t2 \<le> t4 - t1 \<and>
     s = \<lparr>sample_boot_id = boot, sample_local = t2 + (t3 - t2) div 2,
          sample_master = t1 + (t4 - t1) div 2, sample_delay = (t4 - t1) - (t3 - t2)\<rparr>"
  by (auto simp: clock_sample_def checked_sub64_def)

lemma uint_sub: "b \<le> a \<Longrightarrow> uint ((a :: u64) - b) = uint a - uint b"
  by (simp add: uint_sub_lem [symmetric] word_le_def)

lemma uint_half: "uint ((a :: u64) div 2) = uint a div 2"
  by (simp add: uint_div)

lemma uint_add: "uint (a :: u64) + uint b < 2 ^ 64 \<Longrightarrow> uint (a + b) = uint a + uint b"
  by (simp add: uint_word_ariths)

lemma uint_midpoint:
  assumes "(a :: u64) \<le> b"
  shows "uint (a + (b - a) div 2) = uint a + (uint b - uint a) div 2"
proof -
  have "uint a + (uint b - uint a) div 2 \<le> uint b" using assms by (simp add: word_le_def)
  moreover have "uint b < 2 ^ 64" using uint_lt2p [of b] by simp
  ultimately have "uint a + uint ((b - a) div 2) < 2 ^ 64"
    using assms by (simp add: uint_half uint_sub)
  then show ?thesis using assms by (simp only: uint_add uint_half uint_sub)
qed

lemma sample_parts:
  assumes "clock_sample t1 t2 t3 t4 boot = Inr s"
  shows "uint (sample_local s) = uint t2 + (uint t3 - uint t2) div 2"
    "uint (sample_master s) = uint t1 + (uint t4 - uint t1) div 2"
    "uint (sample_delay s) = (uint t4 - uint t1) - (uint t3 - uint t2)"
  using assms by (auto simp: clock_sample_Inr uint_midpoint uint_sub)

text \<open>Two clocks of one pace, \<open>offset\<close> apart: the controller reads the request and the reply at
  master times \<open>a\<close> and \<open>b\<close>, between the desktop's two.\<close>

lemma offset_within_half_delay:
  fixes offset a b :: int
  assumes "clock_sample t1 t2 t3 t4 boot = Inr s"
    and "uint t2 = a + offset" "uint t3 = b + offset" "uint t1 \<le> a" "b \<le> uint t4"
  shows "\<bar>uint (sample_local s) - uint (sample_master s) - offset\<bar> \<le> uint (sample_delay s) div 2 + 1"
  using assms sample_parts [OF assms(1)] by linarith

lemma uint_uncertainty:
  assumes "sample_delay s < 2 ^ 33 - 202"
  shows "uint (uncertainty_of s) = uint (sample_delay s) div 2 + 100"
proof -
  have "uint (sample_delay s) < 2 ^ 33 - 202" using assms by (simp add: word_less_def)
  moreover have "uint (sample_delay s div 2 + 100) = uint (sample_delay s) div 2 + 100"
    using calculation by (simp add: uint_word_ariths uint_half)
  ultimately show ?thesis by (simp add: uncertainty_of_def uint_up_ucast unsigned_ucast_eq take_bit_eq_mod)
qed

lemma await_passes_over:
  assumes "\<forall>x \<in> set stale. \<exists>r t. x = Datagram (reply_encode r) t \<and> reply_sent r \<noteq> t1"
  shows "await_reply t1 (stale @ arrivals) = await_reply t1 arrivals"
  using assms
proof (induction stale)
  case (Cons x stale)
  then obtain r t where "x = Datagram (reply_encode r) t" "reply_sent r \<noteq> t1" by auto
  moreover have "reply_decode (take 33 (reply_encode r)) = Some r"
    by (simp add: reply_decode_eq reply_encode_fields)
  ultimately show ?case using Cons by simp
qed simp

lemma clock_answer_request:
  "clock_answer boot t2 t3 (request_encode t1) =
     Some (reply_encode \<lparr>reply_sent = t1, reply_boot_id = boot, reply_received = t2, reply_replied = t3\<rparr>)"
  using request_decode_eq [of "request_encode t1" t1]
  by (simp add: clock_answer_def request_encode_def CLOCK_MAGIC_def)

lemma answered_exchange:
  assumes "\<forall>x \<in> set stale. \<exists>r t. x = Datagram (reply_encode r) t \<and> reply_sent r \<noteq> t1"
    and "clock_answer boot t2 t3 (request_encode t1) = Some answer"
  shows "udp_clock_sample \<lparr>exchange_sent = t1, exchange_failure = None,
      exchange_arrivals = stale @ Datagram answer t4 # later\<rparr> = clock_sample t1 t2 t3 t4 boot"
proof -
  let ?r = "\<lparr>reply_sent = t1, reply_boot_id = boot, reply_received = t2, reply_replied = t3\<rparr>"
  have "answer = reply_encode ?r" using assms(2) by (simp add: clock_answer_request)
  moreover have "reply_decode (take 33 (reply_encode ?r)) = Some ?r"
    by (simp add: reply_decode_eq reply_encode_fields)
  ultimately show ?thesis using await_passes_over [OF assms(1)] by (simp add: udp_clock_sample_def)
qed

section \<open>Rates\<close>

lemma next_rate_bounded:
  "next_rate previous rate s = Inr r \<Longrightarrow> \<bar>rate\<bar> \<le> MAX_RATE_PPB \<Longrightarrow> \<bar>r\<bar> \<le> MAX_RATE_PPB"
  by (auto simp: next_rate_def Let_def split: option.splits if_splits)

lemma sdiv_within:
  assumes "0 < (k :: int)" "\<bar>x\<bar> \<le> m * k"
  shows "\<bar>x sdiv k\<bar> \<le> m"
proof -
  have "x sdiv k \<le> (m * k) sdiv k" "(- m * k) sdiv k \<le> x sdiv k"
    using assms by (intro sdiv_mono; simp)+
  moreover have "(n * k) sdiv k = n" for n
    using assms(1) by (cases "0 \<le> n * k") (simp_all add: sdiv_cases flip: mult_minus_left)
  ultimately show ?thesis by (simp add: abs_le_iff)
qed

text \<open>Two good samples of clocks of one pace never look like drift.\<close>

lemma small_delay_small_rate:
  fixes offset :: int
  assumes "\<bar>uint (sample_local p) - uint (sample_master p) - offset\<bar> \<le> 3000"
    and "\<bar>uint (sample_local s) - uint (sample_master s) - offset\<bar> \<le> 3000"
    and "sample_local p \<le> sample_local s" "SAMPLE_GAP \<le> sample_local s - sample_local p"
  shows "\<bar>rate_estimate p s (sample_local s - sample_local p)\<bar> \<le> MAX_RATE_PPB"
proof -
  let ?e = "sample_local s - sample_local p"
  have e: "uint ?e = uint (sample_local s) - uint (sample_local p)" by (rule uint_sub [OF assms(3)])
  have gap: "30000000 \<le> uint ?e" using assms(4) by (simp add: SAMPLE_GAP_def word_le_def)
  let ?d = "uint (sample_master s) - uint (sample_master p) - uint ?e"
  have "\<bar>?d\<bar> \<le> 6000" using assms(1,2) e by linarith
  then have "\<bar>?d * 1000000000\<bar> \<le> 200000 * uint ?e" using gap by (simp add: abs_mult)
  then show ?thesis unfolding rate_estimate_def MAX_RATE_PPB_def
    using gap by (intro sdiv_within) simp_all
qed

lemma clamp_near:
  assumes "\<bar>y\<bar> \<le> b"
  shows "\<bar>uint (clamp_u64 (uint (a :: u64) + y)) - uint a\<bar> \<le> b"
proof -
  have "0 \<le> uint a" "uint a \<le> 2 ^ 64 - 1" using uint_lt2p [of a] by simp_all
  then show ?thesis using assms unfolding uint_clamp by linarith
qed

lemma near_quotient:
  assumes "0 < (k :: int)" "k * y = u - v" "\<bar>u\<bar> < e" "\<bar>v\<bar> < k"
  shows "\<bar>y\<bar> \<le> e div k + 1"
proof -
  have "k * \<bar>y\<bar> = \<bar>u - v\<bar>" using assms(1) by (simp add: assms(2) [symmetric] abs_mult)
  also have "\<dots> < e + k" using assms(3,4) by linarith
  also have "\<dots> < k * (e div k + 1) + k"
  proof -
    have "e = k * (e div k) + e mod k" "e mod k < k" using assms(1) by simp_all
    then show ?thesis unfolding distrib_left by linarith
  qed
  also have "\<dots> = k * (e div k + 2)" by (simp add: algebra_simps)
  finally have "\<bar>y\<bar> < e div k + 2" using assms(1) by simp
  then show ?thesis by simp
qed

text \<open>The clock a new sample sets still shows the earlier sample, to the rounding.\<close>

definition clock_of :: "sync_command \<Rightarrow> u64 \<Rightarrow> clock" where
  "clock_of s until =
     \<lparr>clock_id = Some (sync_clock_id s), local_anchor = local_micros s,
      master_anchor = master_micros s, rate_ppb = sync_rate_ppb s, valid_until = until\<rparr>"

lemma estimate_replays:
  assumes "next_rate (Some p) old s = Inr rate" "sample_boot_id p = sample_boot_id s"
    and "sample_local p \<le> sample_local s" "SAMPLE_GAP \<le> sample_local s - sample_local p"
  shows "\<bar>uint (master_at (clock_of (sync_command_for clock rate s) until) (sample_local p)) -
      uint (sample_master p)\<bar> \<le> uint (sample_local s - sample_local p) div 1000000000 + 1"
proof -
  let ?k = "1000000000 :: int" and ?e = "sample_local s - sample_local p"
  have e: "uint ?e = uint (sample_local s) - uint (sample_local p)" by (rule uint_sub [OF assms(3)])
  have pos: "0 < uint ?e" using assms(4) by (simp add: SAMPLE_GAP_def word_le_def)
  let ?d = "uint (sample_master s) - uint (sample_master p) - uint ?e"
  have rate: "rate = (?d * ?k) sdiv uint ?e"
    using assms by (auto simp: next_rate_def same_boot_def saturating_sub64_def rate_estimate_def Let_def split: if_splits)
  obtain u where u: "?d * ?k = uint ?e * rate + u" "\<bar>u\<bar> < uint ?e"
    unfolding rate by (rule sdiv_remainder [OF pos])
  let ?q = "((- uint ?e) * rate) sdiv ?k"
  obtain v where v: "(- uint ?e) * rate = ?k * ?q + v" "\<bar>v\<bar> < ?k"
    using sdiv_remainder [of ?k "(- uint ?e) * rate"] by auto
  have sum: "?k * (?q + ?d) = u - v" using u(1) v(1) by (simp add: algebra_simps)
  have near: "\<bar>?q + ?d\<bar> \<le> uint ?e div ?k + 1"
    by (rule near_quotient [OF _ sum u(2) v(2)]) simp
  have "master_at (clock_of (sync_command_for clock rate s) until) (sample_local p) =
      clamp_u64 (uint (sample_master p) + (?q + ?d))"
  proof -
    have behind: "uint (sample_local p) - uint (sample_local s) = - uint ?e" using e by simp
    have sums: "uint (sample_master p) + (?q + ?d) = uint (sample_master s) + - uint ?e + ?q" by simp
    show ?thesis
      unfolding sums
      by (simp only: master_at_def clock_of_def sync_command_for_def Let_def behind clock.simps sync_command.simps)
  qed
  then show ?thesis by (simp only: clamp_near [OF near])
qed

section \<open>Properties of the exchange\<close>

text \<open>
  A clock packet decodes exactly when it is the encoding of what it decodes to, for requests
  and for replies.
\<close>

theorem clock_packets_exact:
  "(request_decode bytes = Some t \<longleftrightarrow> bytes = request_encode t) \<and>
   (reply_decode bytes = Some r \<longleftrightarrow> bytes = reply_encode r)"
  using request_decode_eq reply_decode_eq by blast

text \<open>
  C12. One exchange measures the offset of a controller's clock to within half the round trip's
  delay, whatever replies to earlier requests are still in flight: when the controller reads the
  request and sends its answer at master times \<open>a\<close> and \<open>b\<close> inside the exchange, the sample is
  taken, and its two anchors lie the true offset apart up to half its delay and one microsecond.
\<close>

theorem exchange_measures_offset:
  fixes offset a b :: int
  assumes "\<forall>x \<in> set stale. \<exists>r t. x = Datagram (reply_encode r) t \<and> reply_sent r \<noteq> t1"
    and "clock_answer boot t2 t3 (request_encode t1) = Some answer"
    and "uint t2 = a + offset" "uint t3 = b + offset" "uint t1 \<le> a" "a \<le> b" "b \<le> uint t4"
  shows "\<exists>s. udp_clock_sample \<lparr>exchange_sent = t1, exchange_failure = None,
        exchange_arrivals = stale @ Datagram answer t4 # later\<rparr> = Inr s \<and>
      sample_boot_id s = boot \<and>
      uint (sample_delay s) = (uint t4 - uint t1) - (b - a) \<and>
      \<bar>uint (sample_local s) - uint (sample_master s) - offset\<bar> \<le> uint (sample_delay s) div 2 + 1"
proof -
  have le: "t1 \<le> t4" "t2 \<le> t3" using assms(3-7) by (simp_all add: word_le_def)
  then have "t3 - t2 \<le> t4 - t1" using assms(3-7) by (simp add: word_le_def uint_sub)
  with le obtain s where s: "clock_sample t1 t2 t3 t4 boot = Inr s" by (simp add: clock_sample_Inr)
  then have "sample_boot_id s = boot" by (simp add: clock_sample_Inr)
  moreover have "uint (sample_delay s) = (uint t4 - uint t1) - (b - a)"
    using sample_parts(3) [OF s] assms(3,4) by simp
  moreover note offset_within_half_delay [OF s assms(3,4,5,7)]
  ultimately show ?thesis using answered_exchange [OF assms(1,2)] s by simp
qed

theorem exchange_measures_offset_witness:
  "\<exists>s. udp_clock_sample \<lparr>exchange_sent = 100000, exchange_failure = None,
        exchange_arrivals = [] @ [Datagram (reply_encode \<lparr>reply_sent = 100000, reply_boot_id = 7,
          reply_received = 601000, reply_replied = 604000\<rparr>) 105000]\<rparr> = Inr s \<and>
      sample_boot_id s = 7 \<and> uint (sample_delay s) = 2000 \<and>
      \<bar>uint (sample_local s) - uint (sample_master s) - 500000\<bar> \<le> uint (sample_delay s) div 2 + 1"
  using exchange_measures_offset [of "[]" 100000 7 601000 604000 _ 101000 500000 104000 105000 "[]",
      OF _ clock_answer_request]
  by simp

text \<open>
  Samples of a clock of the desktop's own pace, each within three milliseconds of the true
  offset, never exceed the accepted drift: the rate is the estimate, or the one before.
\<close>

theorem good_samples_accepted:
  fixes offset :: int
  assumes "\<bar>uint (sample_local p) - uint (sample_master p) - offset\<bar> \<le> 3000"
    and "\<bar>uint (sample_local s) - uint (sample_master s) - offset\<bar> \<le> 3000"
    and "sample_local p \<le> sample_local s" "\<bar>rate\<bar> \<le> MAX_RATE_PPB"
  shows "\<exists>r. next_rate (Some p) rate s = Inr r \<and> \<bar>r\<bar> \<le> MAX_RATE_PPB"
  using small_delay_small_rate [OF assms(1,2,3)] assms(3,4)
  by (auto simp: next_rate_def same_boot_def saturating_sub64_def Let_def not_less)

theorem good_samples_accepted_witness:
  "\<exists>r. next_rate (Some \<lparr>sample_boot_id = 7, sample_local = 3000, sample_master = 0, sample_delay = 6000\<rparr>) 0
      \<lparr>sample_boot_id = 7, sample_local = 30002000, sample_master = 30003000, sample_delay = 6000\<rparr> = Inr r \<and>
    \<bar>r\<bar> \<le> MAX_RATE_PPB"
  by (rule good_samples_accepted [of _ 0]) (simp_all add: MAX_RATE_PPB_def)

text \<open>
  A slow network stops a synchronization: two exchanges thirty seconds apart with a clock
  that keeps the desktop's pace exactly, the first slow on the way back and the second on the
  way there, are measured as drift outside the accepted range.
\<close>

theorem slow_network_looks_like_drift:
  "\<exists>p s. clock_sample 0 0 0 14000 7 = Inr p \<and>
     clock_sample 30000000 30014000 30014000 30014000 7 = Inr s \<and>
     next_rate (Some p) 0 s = Inl DriftOutOfRange"
  by (simp add: clock_sample_def checked_sub64_def next_rate_def same_boot_def saturating_sub64_def
    rate_estimate_def SAMPLE_GAP_def MAX_RATE_PPB_def sdiv_cases)

text \<open>
  The rate makes the new clock agree with the earlier sample: read at the controller time of
  the sample before, the clock a synchronization sets shows that sample's master time, to a
  microsecond and one more for every thousand seconds between the two.
\<close>

theorem rate_fits_both_samples:
  assumes "next_rate (Some p) old s = Inr rate" "sample_boot_id p = sample_boot_id s"
    and "sample_local p \<le> sample_local s" "SAMPLE_GAP \<le> sample_local s - sample_local p"
  shows "\<bar>uint (master_at (clock_of (sync_command_for clock rate s) until) (sample_local p)) -
      uint (sample_master p)\<bar> \<le> uint (sample_local s - sample_local p) div 1000000000 + 1"
  by (rule estimate_replays [OF assms])

theorem rate_fits_both_samples_witness:
  "\<bar>uint (master_at (clock_of (sync_command_for 3 (- 49997)
        \<lparr>sample_boot_id = 7, sample_local = 30002000, sample_master = 30000500, sample_delay = 6000\<rparr>) 0)
      500) - uint (500 :: u64)\<bar> \<le> uint (30002000 - 500 :: u64) div 1000000000 + 1"
proof -
  let ?p = "\<lparr>sample_boot_id = 7, sample_local = 500, sample_master = 500, sample_delay = 6000\<rparr>"
  let ?s = "\<lparr>sample_boot_id = 7, sample_local = 30002000, sample_master = 30000500, sample_delay = 6000\<rparr>"
  have "next_rate (Some ?p) 0 ?s = Inr (- 49997)"
    by (simp add: next_rate_def same_boot_def saturating_sub64_def rate_estimate_def SAMPLE_GAP_def
      MAX_RATE_PPB_def sdiv_cases)
  from rate_fits_both_samples [OF this, of 3 0] show ?thesis by (simp add: SAMPLE_GAP_def)
qed

end
