(* ===== verification/DevicePlayback.thy ===== *)
theory DevicePlayback
  imports DeviceClock Runs
begin

text \<open>
  The desktop's clock master and its deployment of prepared shows,
  \<open>apps/desktop/src/device/playback.rs\<close>: a binding per controller of the open setup, the clock
  synchronization of one, the upload of a show, and the service that keeps, stops, prepares and
  schedules the group.

  The network and the controllers behind it are the state \<open>'w\<close> of a record of operations, the
  arguments of the definitions that use them: one clock exchange, one control command, one
  transport request, one upload, the connection of a socket, and the time since the service
  began, in nanoseconds. A controller is addressed by a number. The service's mutex is held
  through every operation, so operations do not interleave.
\<close>

section \<open>The network\<close>

record 'w network =
  net_exchange :: "nat \<Rightarrow> 'w \<Rightarrow> exchange \<times> 'w"
  net_control :: "nat \<Rightarrow> command \<Rightarrow> 'w \<Rightarrow> (link_error + unit) \<times> 'w"
  net_transport :: "nat \<Rightarrow> action option \<Rightarrow> 'w \<Rightarrow> (link_error + playback_report option) \<times> 'w"
  net_upload :: "nat \<Rightarrow> u8 list \<Rightarrow> 'w \<Rightarrow> (link_error + unit) \<times> 'w"
  net_connect :: "nat \<Rightarrow> 'w \<Rightarrow> (link_error + unit) \<times> 'w"
  net_elapsed :: "'w \<Rightarrow> nat \<times> 'w"

section \<open>Bindings\<close>

record 'q prepared_show =
  prepared_revision :: u32
  prepared_sequence :: 'q
  prepared_bytes :: "u8 list"
  prepared_frame_rate :: u32
  prepared_id :: u32

record compiled_show =
  compiled_bytes :: "u8 list"
  compiled_frame_rate :: u32
  compiled_id :: u32

record ('c, 'q) binding =
  device_id :: nat
  device_address :: nat
  device_ports :: 'c
  prepared :: "'q prepared_show option"
  uploaded :: "u32 option"
  last_sample :: "sampled_clock option"
  device_rate :: int
  uncertainty :: "u32 option"
  device_error :: "link_error option"

record 'c wanted_device =
  wanted_id :: nat
  wanted_address :: nat
  wanted_ports :: 'c

record ('c, 'q) core =
  core_epoch :: u32
  core_bindings :: "('c, 'q) binding list"
  core_clock_id :: u32

section \<open>Synchronizing one clock\<close>

text \<open>Eight samples of one boot; the one of least delay, the first of equals.\<close>

fun best_sample :: "'w network \<Rightarrow> nat \<Rightarrow> nat \<Rightarrow> sampled_clock option \<Rightarrow> 'w \<Rightarrow> (link_error + sampled_clock option) \<times> 'w" where
  "best_sample net addr 0 best w = (Inr best, w)"
| "best_sample net addr (Suc n) best w =
     (let (x, w) = net_exchange net addr w
      in case udp_clock_sample x of
           Inl e \<Rightarrow> (Inl e, w)
         | Inr s \<Rightarrow>
             if (case best of None \<Rightarrow> False | Some b \<Rightarrow> sample_boot_id b \<noteq> sample_boot_id s)
             then (Inl RestartedDuringSync, w)
             else best_sample net addr n
               (if (case best of None \<Rightarrow> True | Some b \<Rightarrow> sample_delay s < sample_delay b)
                then Some s else best) w)"

definition synchronize ::
  "'w network \<Rightarrow> u32 \<Rightarrow> ('c, 'q) binding \<Rightarrow> 'w \<Rightarrow> (link_error + unit) \<times> ('c, 'q) binding \<times> 'w" where
  "synchronize net clock b w =
     (let (found, w) = best_sample net (device_address b) 8 None w
      in case found of
           Inl e \<Rightarrow> (Inl e, b, w)
         | Inr None \<Rightarrow> (Inl NoSamples, b, w)
         | Inr (Some s) \<Rightarrow>
             (case next_rate (last_sample b) (device_rate b) s of
                Inl e \<Rightarrow> (Inl e, b, w)
              | Inr rate \<Rightarrow>
                  let (sent, w) = net_control net (device_address b)
                                    (SyncClock (sync_command_for clock rate s)) w
                  in case sent of
                       Inl e \<Rightarrow> (Inl e, b, w)
                     | Inr _ \<Rightarrow>
                         (Inr (), b\<lparr>last_sample := next_sample (last_sample b) s, device_rate := rate,
                                    uncertainty := Some (uncertainty_of s), device_error := None\<rparr>, w)))"

section \<open>Stopping, preparing and checking one controller\<close>

definition stop_loaded :: "'w network \<Rightarrow> nat \<Rightarrow> 'w \<Rightarrow> (link_error + unit) \<times> 'w" where
  "stop_loaded net addr w =
     (case net_transport net addr None w of
        (Inl e, w) \<Rightarrow> (Inl e, w)
      | (Inr None, w) \<Rightarrow> (Inr (), w)
      | (Inr (Some _), w) \<Rightarrow>
          (case net_transport net addr (Some Stop) w of
             (Inl e, w) \<Rightarrow> (Inl e, w)
           | (Inr _, w) \<Rightarrow> (Inr (), w)))"

definition prepared_for ::
  "u32 \<Rightarrow> 'q \<Rightarrow> ('c \<Rightarrow> link_error + compiled_show) \<Rightarrow> ('c, 'q) binding \<Rightarrow> link_error + 'q prepared_show" where
  "prepared_for revision seq compile b =
     (let fresh = (case compile (device_ports b) of
                     Inl e \<Rightarrow> Inl e
                   | Inr c \<Rightarrow> Inr \<lparr>prepared_revision = revision, prepared_sequence = seq,
                       prepared_bytes = compiled_bytes c, prepared_frame_rate = compiled_frame_rate c,
                       prepared_id = compiled_id c\<rparr>)
      in case prepared b of
           None \<Rightarrow> fresh
         | Some p \<Rightarrow> if prepared_revision p \<noteq> revision \<or> prepared_sequence p \<noteq> seq then fresh else Inr p)"

text \<open>Whether what the controller reports loaded is the prepared show.\<close>

definition holds_show :: "'q prepared_show \<Rightarrow> playback_report \<Rightarrow> bool" where
  "holds_show p r \<longleftrightarrow>
     unat (status_show_bytes r) = length (prepared_bytes p) \<and> status_show_id r = prepared_id p"

definition prepare_binding ::
  "'w network \<Rightarrow> u32 \<Rightarrow> 'q \<Rightarrow> ('c \<Rightarrow> link_error + compiled_show) \<Rightarrow> ('c, 'q) binding \<Rightarrow> 'w \<Rightarrow>
     (link_error + unit) \<times> ('c, 'q) binding \<times> 'w" where
  "prepare_binding net revision seq compile b w =
     (case prepared_for revision seq compile b of
        Inl e \<Rightarrow> (Inl e, b, w)
      | Inr p \<Rightarrow>
          let b = b\<lparr>prepared := Some p\<rparr>
          in case net_transport net (device_address b) None w of
               (Inl e, w) \<Rightarrow> (Inl e, b, w)
             | (Inr loaded, w) \<Rightarrow>
                 let matches = (case loaded of None \<Rightarrow> False | Some r \<Rightarrow> holds_show p r)
                 in if uploaded b \<noteq> Some (prepared_id p) \<or> \<not> matches
                    then (case net_upload net (device_address b) (prepared_bytes p) w of
                            (Inl e, w) \<Rightarrow> (Inl e, b, w)
                          | (Inr _, w) \<Rightarrow> (Inr (), b\<lparr>uploaded := Some (prepared_id p)\<rparr>, w))
                    else (Inr (), b, w))"

definition ready_binding ::
  "'w network \<Rightarrow> u32 \<Rightarrow> ('c, 'q) binding \<Rightarrow> 'w \<Rightarrow>
     (link_error + (sampled_clock \<times> playback_report)) \<times> ('c, 'q) binding \<times> 'w" where
  "ready_binding net clock b w =
     (case synchronize net clock b w of
        (Inl e, b, w) \<Rightarrow> (Inl e, b, w)
      | (Inr _, b, w) \<Rightarrow>
          let (x, w) = net_exchange net (device_address b) w
          in case udp_clock_sample x of
               Inl e \<Rightarrow> (Inl e, b, w)
             | Inr s \<Rightarrow>
                 (case net_transport net (device_address b) None w of
                    (Inl e, w) \<Rightarrow> (Inl e, b, w)
                  | (Inr None, w) \<Rightarrow> (Inl NoLoadedSequence, b, w)
                  | (Inr (Some r), w) \<Rightarrow>
                      (case prepared b of
                         None \<Rightarrow> (Inl PrepareFirst, b, w)
                       | Some p \<Rightarrow> if holds_show p r then (Inr (s, r), b, w) else (Inl DifferentShow, b, w))))"

section \<open>The group\<close>

text \<open>
  An operation over every binding, each with what it needs: those that fail are stopped, released
  and named in the result; the others stay, in order.
\<close>

fun each_binding ::
  "'w network \<Rightarrow> ('i \<Rightarrow> 'w \<Rightarrow> (link_error + 'r) \<times> ('c, 'q) binding \<times> 'w) \<Rightarrow> 'i list \<Rightarrow> 'w \<Rightarrow>
     (('c, 'q) binding \<times> 'r) list \<times> (nat \<rightharpoonup> link_error) \<times> 'w" where
  "each_binding net operation [] w = ([], Map.empty, w)"
| "each_binding net operation (i # is) w =
     (case operation i w of
        (Inr r, b, w) \<Rightarrow>
          let (kept, failures, w) = each_binding net operation is w
          in ((b, r) # kept, failures, w)
      | (Inl e, b, w) \<Rightarrow>
          let (_, w) = stop_loaded net (device_address b) w;
              (kept, failures, w) = each_binding net operation is w
          in (kept, (if device_id b \<in> dom failures then failures else failures(device_id b \<mapsto> e)), w))"

definition prepare_group ::
  "'w network \<Rightarrow> u32 \<Rightarrow> u32 \<Rightarrow> 'q \<Rightarrow> ('c \<Rightarrow> link_error + compiled_show) \<Rightarrow> ('c, 'q) core \<Rightarrow> 'w \<Rightarrow>
     (link_error + (nat \<rightharpoonup> link_error)) \<times> ('c, 'q) core \<times> 'w" where
  "prepare_group net epoch revision seq compile c w =
     (if core_epoch c \<noteq> epoch then (Inl OtherProject, c, w)
      else let (kept, failures, w) =
                 each_binding net (prepare_binding net revision seq compile) (core_bindings c) w
           in (Inr failures, c\<lparr>core_bindings := map fst kept\<rparr>, w))"

section \<open>Scheduling the group\<close>

definition ceil_div :: "nat \<Rightarrow> nat \<Rightarrow> nat" where
  "ceil_div a b = (a + b - 1) div b"

definition slowest :: "('c, 'q) binding list \<Rightarrow> u32" where
  "slowest bs = fold (\<lambda>b m. case uncertainty b of None \<Rightarrow> m | Some u \<Rightarrow> max m u) bs 0"

text \<open>The lead in microseconds: fifty milliseconds a controller between a quarter second and one,
  and eight times the loosest clock for each.\<close>

definition schedule_lead :: "('c, 'q) binding list \<Rightarrow> nat" where
  "schedule_lead bs =
     max 250 (min 1000 (length bs * 50)) * 1000 +
       unat (ucast (slowest bs) * 8 * of_nat (length bs) :: u64)"

definition frame_aligned :: "nat \<Rightarrow> u32 \<Rightarrow> nat option" where
  "frame_aligned earliest frame_rate =
     (if frame_rate = 0 then None
      else let frame = ceil_div (earliest * unat frame_rate) 1000000
           in Some (ceil_div (frame * 1000000) (unat frame_rate)))"

definition start_time :: "('c, 'q) binding list \<Rightarrow> nat \<Rightarrow> nat option" where
  "start_time bs earliest =
     (case bs of
        [] \<Rightarrow> Some earliest
      | b # _ \<Rightarrow> (case prepared b of None \<Rightarrow> Some earliest | Some p \<Rightarrow> frame_aligned earliest (prepared_frame_rate p)))"

text \<open>Where the timeline will be at the deadline, \<open>observed\<close> nanoseconds after the service began.\<close>

definition position_at :: "u32 \<Rightarrow> playback_rate option \<Rightarrow> u32 \<Rightarrow> nat \<Rightarrow> nat \<Rightarrow> u32" where
  "position_at pos advancing duration observed deadline =
     (case advancing of
        None \<Rightarrow> min pos duration
      | Some r \<Rightarrow>
          let wait = (deadline * 1000 - observed) div 1000;
              wall = (if wait < 2 ^ 32 then of_nat wait else - 1)
          in min (saturating_add32 pos (show_elapsed r wall)) duration)"

definition schedule_command_for ::
  "u32 \<Rightarrow> u64 \<Rightarrow> action \<Rightarrow> u32 \<Rightarrow> playback_rate \<Rightarrow> sampled_clock \<Rightarrow> playback_report \<Rightarrow> u32 \<Rightarrow> schedule_command" where
  "schedule_command_for clock start a pos r s status i =
     \<lparr>schedule_boot_id = sample_boot_id s, schedule_clock_id = clock, schedule_command_id = i,
      at_micros = start, schedule_action = a, position_micros = pos, schedule_rate = r,
      schedule_looping = False, schedule_show_id = status_show_id status,
      schedule_show_bytes = status_show_bytes status\<rparr>"

text \<open>A schedule that fails is cancelled: a lost reply may hide its acceptance.\<close>

definition send_schedule ::
  "'w network \<Rightarrow> u32 \<Rightarrow> u64 \<Rightarrow> action \<Rightarrow> u32 \<Rightarrow> playback_rate \<Rightarrow>
     ('c, 'q) binding \<times> sampled_clock \<times> playback_report \<Rightarrow> 'w \<Rightarrow> (link_error + u32) \<times> ('c, 'q) binding \<times> 'w" where
  "send_schedule net clock start a pos r item w =
     (case item of (b, s, status) \<Rightarrow>
        case checked_add32 (status_command_id status) 1 of
          None \<Rightarrow> (Inl CounterExhausted, b, w)
        | Some i \<Rightarrow>
            (case net_control net (device_address b)
                    (ScheduleCommand (schedule_command_for clock start a pos r s status i)) w of
               (Inr _, w) \<Rightarrow> (Inr i, b, w)
             | (Inl e, w) \<Rightarrow> (Inl e, b, snd (net_control net (device_address b) (CancelCommand i) w))))"

fun cancel_commands :: "'w network \<Rightarrow> ('c, 'q) binding list \<Rightarrow> (nat \<times> u32) list \<Rightarrow> 'w \<Rightarrow> nat list \<times> 'w" where
  "cancel_commands net bs [] w = ([], w)"
| "cancel_commands net bs ((addr, i) # commands) w =
     (if \<exists>b \<in> set bs. device_address b = addr
      then let (answer, w) = net_control net addr (CancelCommand i) w;
               (failed, w) = cancel_commands net bs commands w
           in ((case answer of Inl _ \<Rightarrow> addr # failed | Inr _ \<Rightarrow> failed), w)
      else cancel_commands net bs commands w)"

record group_schedule =
  schedule_deadline :: u64
  schedule_position :: u32
  schedule_commands :: "(nat \<times> u32) list"
  schedule_failures :: "nat \<rightharpoonup> link_error"

text \<open>\<open>None\<close> is the panic of a show with no frame rate.\<close>

definition schedule_group ::
  "'w network \<Rightarrow> action \<Rightarrow> u32 \<Rightarrow> playback_rate option \<Rightarrow> playback_rate \<Rightarrow> u32 \<Rightarrow> nat \<Rightarrow> ('c, 'q) core \<Rightarrow> 'w \<Rightarrow>
     ((link_error + group_schedule) \<times> ('c, 'q) core \<times> 'w) option" where
  "schedule_group net a pos advancing r duration observed c w =
     (let clock = core_clock_id c;
          (ready, failures, w) = each_binding net (ready_binding net clock) (core_bindings c) w;
          c = c\<lparr>core_bindings := map fst ready\<rparr>;
          (now, w) = net_elapsed net w
      in case start_time (core_bindings c) (now div 1000 + schedule_lead (core_bindings c)) of
           None \<Rightarrow> None
         | Some at_time \<Rightarrow>
             if at_time \<ge> 2 ^ 64 then Some (Inl ClockOverflow, c, w)
             else
               let start = of_nat at_time;
                   pos = position_at pos advancing duration observed at_time;
                   (sent, refused, w) = each_binding net (send_schedule net clock start a pos r) ready w;
                   c = c\<lparr>core_bindings := map fst sent\<rparr>;
                   commands = map (\<lambda>(b, i). (device_address b, i)) sent;
                   (now, w) = net_elapsed net w
               in if at_time * 1000 - now < 40000000
                  then let (failed, w) = cancel_commands net (core_bindings c) commands w
                       in Some (Inl (DeadlineClose failed), c, w)
                  else Some (Inr \<lparr>schedule_deadline = start, schedule_position = pos,
                                 schedule_commands = commands, schedule_failures = failures ++ refused\<rparr>, c, w))"

definition cancel_group :: "'w network \<Rightarrow> group_schedule \<Rightarrow> ('c, 'q) core \<Rightarrow> 'w \<Rightarrow> nat list \<times> 'w" where
  "cancel_group net g c w = cancel_commands net (core_bindings c) (schedule_commands g) w"

section \<open>Keeping the group\<close>

definition bind_device ::
  "'w network \<Rightarrow> u32 \<Rightarrow> 'c wanted_device \<Rightarrow> 'w \<Rightarrow> (link_error + ('c, 'q) binding) \<times> 'w" where
  "bind_device net clock d w =
     (case net_connect net (wanted_address d) w of
        (Inl e, w) \<Rightarrow> (Inl e, w)
      | (Inr _, w) \<Rightarrow>
          (case stop_loaded net (wanted_address d) w of
             (Inl e, w) \<Rightarrow> (Inl e, w)
           | (Inr _, w) \<Rightarrow>
               (case synchronize net clock
                       \<lparr>device_id = wanted_id d, device_address = wanted_address d,
                        device_ports = wanted_ports d, prepared = None, uploaded = None,
                        last_sample = None, device_rate = 0, uncertainty = None, device_error = None\<rparr> w of
                  (Inl e, b, w) \<Rightarrow> (Inl e, w)
                | (Inr _, b, w) \<Rightarrow> (Inr b, w))))"

fun stop_all :: "'w network \<Rightarrow> ('c, 'q) binding list \<Rightarrow> 'w \<Rightarrow> 'w" where
  "stop_all net [] w = w"
| "stop_all net (b # bs) w = stop_all net bs (snd (stop_loaded net (device_address b) w))"

text \<open>Unchanged bindings stay; those no longer wanted are stopped; changed ones only go.\<close>

fun keep_wanted :: "'w network \<Rightarrow> 'c wanted_device list \<Rightarrow> ('c, 'q) binding list \<Rightarrow> 'w \<Rightarrow> ('c, 'q) binding list \<times> 'w" where
  "keep_wanted net wanted [] w = ([], w)"
| "keep_wanted net wanted (b # bs) w =
     (case find (\<lambda>d. wanted_id d = device_id b) wanted of
        Some d \<Rightarrow>
          let (kept, w) = keep_wanted net wanted bs w
          in (if wanted_address d = device_address b \<and> wanted_ports d = device_ports b then b # kept else kept, w)
      | None \<Rightarrow> keep_wanted net wanted bs (snd (stop_loaded net (device_address b) w)))"

fun bind_wanted ::
  "'w network \<Rightarrow> u32 \<Rightarrow> 'c wanted_device list \<Rightarrow> ('c, 'q) binding list \<Rightarrow> (nat \<rightharpoonup> link_error + unit) \<Rightarrow> 'w \<Rightarrow>
     ('c, 'q) binding list \<times> (nat \<rightharpoonup> link_error + unit) \<times> 'w" where
  "bind_wanted net clock [] bs results w = (bs, results, w)"
| "bind_wanted net clock (d # ds) bs results w =
     (if \<exists>b \<in> set bs. device_id b = wanted_id d
      then bind_wanted net clock ds bs (results(wanted_id d \<mapsto> Inr ())) w
      else case bind_device net clock d w of
             (Inl e, w) \<Rightarrow> bind_wanted net clock ds bs (results(wanted_id d \<mapsto> Inl e)) w
           | (Inr b, w) \<Rightarrow> bind_wanted net clock ds (bs @ [b]) (results(wanted_id d \<mapsto> Inr ())) w)"

definition sync_group ::
  "'w network \<Rightarrow> u32 \<Rightarrow> 'c wanted_device list \<Rightarrow> ('c, 'q) core \<Rightarrow> 'w \<Rightarrow>
     (nat \<rightharpoonup> link_error + unit) \<times> ('c, 'q) core \<times> 'w" where
  "sync_group net epoch wanted c w =
     (let (bs, w) = (if core_epoch c \<noteq> epoch then ([], stop_all net (core_bindings c) w)
                     else (core_bindings c, w));
          (bs, w) = keep_wanted net wanted bs w;
          (bs, results, w) = bind_wanted net (core_clock_id c) wanted bs Map.empty w
      in (results, c\<lparr>core_epoch := epoch, core_bindings := bs\<rparr>, w))"

text \<open>Every five seconds the worker synchronizes each binding; a new error is reported once.\<close>

fun resynchronize ::
  "'w network \<Rightarrow> u32 \<Rightarrow> ('c, 'q) binding list \<Rightarrow> 'w \<Rightarrow> ('c, 'q) binding list \<times> (nat \<times> link_error) list \<times> 'w" where
  "resynchronize net clock [] w = ([], [], w)"
| "resynchronize net clock (b # bs) w =
     (case synchronize net clock b w of
        (Inr _, b, w) \<Rightarrow>
          let (bs, reports, w) = resynchronize net clock bs w in (b # bs, reports, w)
      | (Inl e, b, w) \<Rightarrow>
          let (bs, reports, w) = resynchronize net clock bs w
          in (b\<lparr>device_error := Some e\<rparr> # bs,
              (if device_error b \<noteq> Some e then (device_address b, e) # reports else reports), w))"

fun stop_each :: "'w network \<Rightarrow> ('c, 'q) binding list \<Rightarrow> 'w \<Rightarrow> ('c, 'q) binding list \<times> (nat \<times> link_error) list \<times> 'w" where
  "stop_each net [] w = ([], [], w)"
| "stop_each net (b # bs) w =
     (let (answer, w) = stop_loaded net (device_address b) w;
          (bs, errors, w) = stop_each net bs w
      in (b\<lparr>prepared := None\<rparr> # bs,
          (case answer of Inl e \<Rightarrow> (device_address b, e) # errors | Inr _ \<Rightarrow> errors), w))"

definition stop_for_source ::
  "'w network \<Rightarrow> u32 \<Rightarrow> 'q option \<Rightarrow> ('c, 'q) core \<Rightarrow> 'w \<Rightarrow>
     ((nat \<times> link_error) list + unit) \<times> ('c, 'q) core \<times> 'w" where
  "stop_for_source net epoch seq c w =
     (let changed = core_epoch c \<noteq> epoch \<or> seq = None \<or>
            (\<exists>b \<in> set (core_bindings c).
               case prepared b of None \<Rightarrow> False | Some p \<Rightarrow> Some (prepared_sequence p) \<noteq> seq)
      in if \<not> changed then (Inr (), c, w)
         else let (bs, errors, w) = stop_each net (core_bindings c) w
              in ((if errors = [] then Inr () else Inl errors), c\<lparr>core_bindings := bs\<rparr>, w))"

definition connections :: "('c, 'q) core \<Rightarrow> nat \<rightharpoonup> link_error + u32 option" where
  "connections c =
     map_of (rev (map (\<lambda>b. (device_id b,
       case device_error b of None \<Rightarrow> Inr (uncertainty b) | Some e \<Rightarrow> Inl e)) (core_bindings c)))"

definition has_devices :: "('c, 'q) core \<Rightarrow> bool" where
  "has_devices c \<longleftrightarrow> core_bindings c \<noteq> []"

section \<open>What the operations keep of a binding\<close>

definition identity :: "('c, 'q) binding \<Rightarrow> nat \<times> nat \<times> 'c" where
  "identity b = (device_id b, device_address b, device_ports b)"

definition rate_bounded :: "('c, 'q) binding \<Rightarrow> bool" where
  "rate_bounded b \<longleftrightarrow> \<bar>device_rate b\<bar> \<le> MAX_RATE_PPB"

lemma synchronize_keeps:
  assumes "synchronize net clock b w = (x, b', w')"
  shows "identity b' = identity b" "rate_bounded b \<Longrightarrow> rate_bounded b'" "prepared b' = prepared b"
    "uploaded b' = uploaded b"
  using assms
  by (auto simp: synchronize_def identity_def rate_bounded_def Let_def dest: next_rate_bounded
    split: prod.splits sum.splits option.splits)

lemma prepare_binding_keeps:
  assumes "prepare_binding net revision seq compile b w = (x, b', w')"
  shows "identity b' = identity b" "rate_bounded b \<Longrightarrow> rate_bounded b'"
  using assms
  by (auto simp: prepare_binding_def identity_def rate_bounded_def Let_def
    split: prod.splits sum.splits option.splits if_splits)

lemma ready_binding_keeps:
  assumes "ready_binding net clock b w = (x, b', w')"
  shows "identity b' = identity b" "rate_bounded b \<Longrightarrow> rate_bounded b'"
proof -
  obtain y b1 w1 where s: "synchronize net clock b w = (y, b1, w1)" by (metis prod_cases3)
  have "b' = b1" using assms s
    by (auto simp: ready_binding_def Let_def split: prod.splits sum.splits option.splits if_splits)
  then show "identity b' = identity b" "rate_bounded b \<Longrightarrow> rate_bounded b'"
    using synchronize_keeps [OF s] by simp_all
qed

lemma send_schedule_keeps:
  "send_schedule net clock start a pos r item w = (x, b', w') \<Longrightarrow> b' = fst item"
  by (auto simp: send_schedule_def split: prod.splits sum.splits option.splits)

text \<open>A pass over the group: what stays and what is released partition what there was.\<close>

lemma each_binding_partition:
  assumes "each_binding net operation is w = (kept, failures, w')"
    and same: "\<And>i w x b w'. operation i w = (x, b, w') \<Longrightarrow> device_id b = key i"
    and "distinct (map key is)"
  shows "device_id ` fst ` set kept \<union> dom failures = key ` set is \<and>
    device_id ` fst ` set kept \<inter> dom failures = {} \<and> distinct (map (device_id \<circ> fst) kept)"
  using assms(1,3)
proof (induction "is" arbitrary: w kept failures w')
  case (Cons i "is")
  obtain x b w1 where op: "operation i w = (x, b, w1)" by (metis prod_cases3)
  note id = same [OF op]
  show ?case
  proof (cases x)
    case (Inr r)
    obtain kept1 w2 where rest: "each_binding net operation is w1 = (kept1, failures, w2)" "kept = (b, r) # kept1"
      using Cons.prems(1) op Inr by (auto split: prod.splits)
    note ih = Cons.IH [OF rest(1)]
    have new: "key i \<notin> key ` set is" "distinct (map key is)" using Cons.prems(2) by simp_all
    then have "key i \<notin> device_id ` fst ` set kept1" "key i \<notin> dom failures" using ih by blast+
    then show ?thesis using ih new(2) id by (simp add: rest(2) comp_def image_comp)
  next
    case (Inl e)
    obtain w2 failures1 w3 where rest: "each_binding net operation is w2 = (kept, failures1, w3)"
      and f: "failures = (if device_id b \<in> dom failures1 then failures1 else failures1(device_id b \<mapsto> e))"
      using Cons.prems(1) op Inl by (auto simp: Let_def split: prod.splits)
    note ih = Cons.IH [OF rest]
    have new: "key i \<notin> key ` set is" "distinct (map key is)" using Cons.prems(2) by simp_all
    then have "key i \<notin> device_id ` fst ` set kept" using ih by blast
    moreover have "dom failures = insert (key i) (dom failures1)" using f id by auto
    ultimately show ?thesis using ih new(2) by simp
  qed
qed simp

lemma each_binding_kept:
  assumes "each_binding net operation is w = (kept, failures, w')" "(b, r) \<in> set kept"
  shows "\<exists>i w0 w1. i \<in> set is \<and> operation i w0 = (Inr r, b, w1)"
  using assms
proof (induction "is" arbitrary: w kept failures w')
  case (Cons i "is")
  obtain x b1 w1 where op: "operation i w = (x, b1, w1)" by (metis prod_cases3)
  show ?case
  proof (cases x)
    case (Inr r1)
    then show ?thesis using Cons.prems op Cons.IH by (fastforce split: prod.splits)
  next
    case (Inl e)
    then show ?thesis using Cons.prems op Cons.IH by (fastforce simp: Let_def split: prod.splits)
  qed
qed simp

text \<open>The bindings a pass leaves are bindings it had, with bounded rates where it had them.\<close>

definition group_ok :: "('c, 'q) binding list \<Rightarrow> bool" where
  "group_ok bs \<longleftrightarrow> distinct (map device_id bs) \<and> list_all rate_bounded bs"

lemma each_binding_ok:
  assumes "each_binding net operation is w = (kept, failures, w')" "group_ok (map item is)"
    and "\<And>i w x b w'. operation i w = (x, b, w') \<Longrightarrow>
      identity b = identity (item i) \<and> (rate_bounded (item i) \<longrightarrow> rate_bounded b)"
  shows "group_ok (map fst kept)"
proof -
  have "distinct (map (device_id \<circ> fst) kept)"
    using each_binding_partition [OF assms(1), of "device_id \<circ> item"] assms(2,3)
    by (force simp: group_ok_def identity_def)
  moreover have "rate_bounded (fst k)" if kept: "k \<in> set kept" for k
  proof -
    obtain b r where k: "k = (b, r)" by (cases k)
    then obtain i w0 w1 where "i \<in> set is" "operation i w0 = (Inr r, b, w1)"
      using each_binding_kept [OF assms(1)] kept by blast
    then show ?thesis using assms(2,3) k by (fastforce simp: group_ok_def list_all_iff)
  qed
  ultimately show ?thesis by (simp add: group_ok_def list_all_iff)
qed

lemma prepare_group_ok:
  assumes "prepare_group net epoch revision seq compile c w = (x, c', w')" "group_ok (core_bindings c)"
  shows "group_ok (core_bindings c')"
proof (cases "core_epoch c = epoch")
  case True
  obtain kept failures w1
    where e: "each_binding net (prepare_binding net revision seq compile) (core_bindings c) w = (kept, failures, w1)"
    by (metis prod_cases3)
  have "group_ok (map fst kept)"
    by (rule each_binding_ok [OF e, where item = "\<lambda>b. b"])
      (use assms(2) in \<open>auto dest: prepare_binding_keeps\<close>)
  then show ?thesis using assms(1) True e by (auto simp: prepare_group_def)
qed (use assms in \<open>auto simp: prepare_group_def\<close>)

lemma schedule_group_ok:
  assumes "schedule_group net a pos advancing r duration observed c w = Some (x, c', w')" "group_ok (core_bindings c)"
  shows "group_ok (core_bindings c')"
proof -
  obtain ready failures w1
    where e: "each_binding net (ready_binding net (core_clock_id c)) (core_bindings c) w = (ready, failures, w1)"
    by (metis prod_cases3)
  have ready: "group_ok (map fst ready)"
    by (rule each_binding_ok [OF e, where item = "\<lambda>b. b"])
      (use assms(2) in \<open>auto dest: ready_binding_keeps\<close>)
  have sent: "group_ok (map fst sent)"
    if "each_binding net (send_schedule net clock start a pos r) ready w = (sent, refused, w')"
    for clock start pos w sent refused w'
    by (rule each_binding_ok [OF that, where item = fst]) (use ready in \<open>auto dest: send_schedule_keeps\<close>)
  show ?thesis using assms(1) e ready sent
    by (fastforce simp: schedule_group_def Let_def split: prod.splits option.splits if_splits)
qed

lemma keep_wanted_subset:
  "keep_wanted net wanted bs w = (kept, w') \<Longrightarrow> group_ok bs \<Longrightarrow> group_ok kept \<and> set kept \<subseteq> set bs"
proof (induction bs arbitrary: w kept w')
  case (Cons b bs)
  show ?case
  proof (cases "find (\<lambda>d. wanted_id d = device_id b) wanted")
    case None
    then show ?thesis using Cons by (fastforce simp: group_ok_def)
  next
    case (Some d)
    obtain kept1 w1 where k: "keep_wanted net wanted bs w = (kept1, w1)" by (metis surj_pair)
    moreover have ok: "group_ok bs" "device_id b \<notin> device_id ` set bs" "rate_bounded b"
      using Cons.prems(2) by (simp_all add: group_ok_def)
    ultimately have "group_ok kept1" "set kept1 \<subseteq> set bs" using Cons.IH by blast+
    then have "group_ok (b # kept1)" using ok by (auto simp: group_ok_def)
    then show ?thesis using Cons.prems(1) Some k \<open>group_ok kept1\<close> \<open>set kept1 \<subseteq> set bs\<close>
      by (auto simp: Let_def split: if_splits)
  qed
qed simp

lemma bind_device_ok:
  assumes "bind_device net clock d w = (Inr b, w')"
  shows "rate_bounded b \<and> device_id b = wanted_id d"
proof -
  let ?b = "\<lparr>device_id = wanted_id d, device_address = wanted_address d,
    device_ports = wanted_ports d, prepared = None, uploaded = None,
    last_sample = None, device_rate = 0, uncertainty = None, device_error = None\<rparr>"
  obtain w1 w2 where "synchronize net clock ?b w1 = (Inr (), b, w2)"
    using assms by (auto simp: bind_device_def split: prod.splits sum.splits)
  from synchronize_keeps(1,2) [OF this] show ?thesis
    by (simp add: identity_def rate_bounded_def MAX_RATE_PPB_def)
qed

lemma bind_wanted_ok:
  "bind_wanted net clock ds bs results w = (bs', results', w') \<Longrightarrow> group_ok bs \<Longrightarrow> group_ok bs'"
proof (induction ds arbitrary: bs results w bs' results' w')
  case (Cons d ds)
  show ?case
  proof (cases "\<exists>b \<in> set bs. device_id b = wanted_id d")
    case False
    with Cons.prems(1) consider
      e w1 where "bind_wanted net clock ds bs (results(wanted_id d \<mapsto> Inl e)) w1 = (bs', results', w')"
    | b w1 where "rate_bounded b" "device_id b = wanted_id d"
        "bind_wanted net clock ds (bs @ [b]) (results(wanted_id d \<mapsto> Inr ())) w1 = (bs', results', w')"
      by (auto dest: bind_device_ok split: prod.splits sum.splits)
    then show ?thesis
    proof cases
      case 1
      then show ?thesis using Cons.IH Cons.prems(2) by blast
    next
      case (2 b)
      then have "group_ok (bs @ [b])" using False Cons.prems(2) by (auto simp: group_ok_def)
      then show ?thesis using Cons.IH 2(3) by blast
    qed
  qed (use Cons in auto)
qed simp

lemma sync_group_ok:
  assumes "sync_group net epoch wanted c w = (results, c', w')" "group_ok (core_bindings c)"
  shows "group_ok (core_bindings c')"
proof -
  define start where "start = (if core_epoch c \<noteq> epoch then ([], stop_all net (core_bindings c) w) else (core_bindings c, w))"
  have "group_ok (fst start)" using assms(2) by (simp add: start_def group_ok_def)
  obtain bs w1 bs1 w2 where s: "start = (bs, w1)" "keep_wanted net wanted bs w1 = (bs1, w2)" by (metis surj_pair)
  obtain bs2 results2 w3
    where b: "bind_wanted net (core_clock_id c) wanted bs1 Map.empty w2 = (bs2, results2, w3)" by (metis prod_cases3)
  have "group_ok bs1" using keep_wanted_subset [OF s(2)] \<open>group_ok (fst start)\<close> s(1) by simp
  then have "group_ok bs2" by (rule bind_wanted_ok [OF b])
  then show ?thesis using assms(1) s b unfolding sync_group_def start_def [symmetric] by auto
qed

lemma resynchronize_ok:
  "resynchronize net clock bs w = (bs', reports, w') \<Longrightarrow>
     map device_id bs' = map device_id bs \<and> (list_all rate_bounded bs \<longrightarrow> list_all rate_bounded bs')"
proof (induction bs arbitrary: w bs' reports w')
  case (Cons b bs)
  obtain x b1 w1 where s: "synchronize net clock b w = (x, b1, w1)" by (metis prod_cases3)
  obtain bs1 reports1 w2 where r: "resynchronize net clock bs w1 = (bs1, reports1, w2)" by (metis prod_cases3)
  have "device_id b1 = device_id b" "rate_bounded b \<Longrightarrow> rate_bounded b1"
    using synchronize_keeps(1,2) [OF s] by (simp_all add: identity_def)
  moreover have "bs' = (case x of Inl e \<Rightarrow> b1\<lparr>device_error := Some e\<rparr> | Inr _ \<Rightarrow> b1) # bs1"
    using Cons.prems s r by (auto split: sum.splits)
  ultimately show ?case using Cons.IH [OF r] by (auto simp: rate_bounded_def split: sum.splits)
qed simp

lemma stop_each_ok:
  "stop_each net bs w = (bs', errors, w') \<Longrightarrow> bs' = map (\<lambda>b. b\<lparr>prepared := None\<rparr>) bs"
  by (induction bs arbitrary: w bs' errors w') (auto simp: Let_def split: prod.splits)

section \<open>The service\<close>

text \<open>Requests of the desktop and the worker's tick, as steps of the service and its network.\<close>

datatype ('c, 'q) device_request =
    SyncDevices u32 "'c wanted_device list"
  | PrepareDevices u32 u32 'q "'c \<Rightarrow> link_error + compiled_show"
  | ScheduleDevices action u32 "playback_rate option" playback_rate u32 nat
  | CancelDevices group_schedule
  | StopForSource u32 "'q option"
  | Resynchronize

definition service_step ::
  "'w network \<Rightarrow> ('c, 'q) device_request \<Rightarrow> ('c, 'q) core \<times> 'w \<Rightarrow> (('c, 'q) core \<times> 'w) option" where
  "service_step net request s =
     (case s of (c, w) \<Rightarrow>
      case request of
        SyncDevices epoch wanted \<Rightarrow> Some (snd (sync_group net epoch wanted c w))
      | PrepareDevices epoch revision seq compile \<Rightarrow> Some (snd (prepare_group net epoch revision seq compile c w))
      | ScheduleDevices a pos advancing r duration observed \<Rightarrow>
          map_option snd (schedule_group net a pos advancing r duration observed c w)
      | CancelDevices g \<Rightarrow> Some (c, snd (cancel_group net g c w))
      | StopForSource epoch seq \<Rightarrow> Some (snd (stop_for_source net epoch seq c w))
      | Resynchronize \<Rightarrow>
          let (bs, reports, w) = resynchronize net (core_clock_id c) (core_bindings c) w
          in Some (c\<lparr>core_bindings := bs\<rparr>, w))"

definition core_new :: "u32 \<Rightarrow> ('c, 'q) core" where
  "core_new clock = \<lparr>core_epoch = 0, core_bindings = [], core_clock_id = clock\<rparr>"

lemma service_step_ok:
  assumes "group_ok (core_bindings (fst s))" "service_step net request s = Some t"
  shows "group_ok (core_bindings (fst t))"
proof (cases s)
  case (Pair c w)
  note ok = assms(1) [unfolded Pair fst_conv]
  show ?thesis
  proof (cases request)
    case (SyncDevices epoch wanted)
    then show ?thesis using assms(2) Pair sync_group_ok [OF _ ok, of net epoch wanted w]
      by (cases "sync_group net epoch wanted c w") (auto simp: service_step_def)
  next
    case (PrepareDevices epoch revision seq compile)
    then show ?thesis using assms(2) Pair prepare_group_ok [OF _ ok, of net epoch revision seq compile w]
      by (cases "prepare_group net epoch revision seq compile c w") (auto simp: service_step_def)
  next
    case (ScheduleDevices a pos advancing r duration observed)
    then show ?thesis using assms(2) Pair schedule_group_ok [OF _ ok, of net a pos advancing r duration observed w]
      by (auto simp: service_step_def)
  next
    case (StopForSource epoch seq)
    then show ?thesis using assms(2) Pair ok
      by (auto simp: service_step_def stop_for_source_def Let_def group_ok_def list_all_iff rate_bounded_def comp_def
        dest!: stop_each_ok split: prod.splits if_splits)
  next
    case Resynchronize
    obtain bs reports w1 where "resynchronize net (core_clock_id c) (core_bindings c) w = (bs, reports, w1)"
      by (metis prod_cases3)
    with resynchronize_ok [OF this] show ?thesis using assms(2) Pair Resynchronize ok
      by (auto simp: service_step_def group_ok_def)
  qed (use assms(2) Pair ok in \<open>auto simp: service_step_def\<close>)
qed

section \<open>What the service does to the controllers\<close>

text \<open>
  A property of the network and its controllers that no request breaks, as long as a clock
  command carries a bounded rate: the service never breaks it either.
\<close>

definition steady_command :: "command \<Rightarrow> bool" where
  "steady_command c = (case c of SyncClock s \<Rightarrow> \<bar>sync_rate_ppb s\<bar> \<le> MAX_RATE_PPB | _ \<Rightarrow> True)"

locale steady_network =
  fixes net :: "'w network" and holds :: "'w \<Rightarrow> bool"
  assumes exchange_holds: "holds w \<Longrightarrow> holds (snd (net_exchange net addr w))"
    and control_holds: "holds w \<Longrightarrow> steady_command c \<Longrightarrow> holds (snd (net_control net addr c w))"
    and transport_holds: "holds w \<Longrightarrow> holds (snd (net_transport net addr a w))"
    and upload_holds: "holds w \<Longrightarrow> holds (snd (net_upload net addr bytes w))"
    and connect_holds: "holds w \<Longrightarrow> holds (snd (net_connect net addr w))"
    and elapsed_holds: "holds w \<Longrightarrow> holds (snd (net_elapsed net w))"
begin

text \<open>Each request and each operation, as a step from one network state to the next.\<close>

lemma requests_hold:
  "net_exchange net addr w = (x, w') \<Longrightarrow> holds w \<Longrightarrow> holds w'"
  "net_transport net addr a w = (t, w') \<Longrightarrow> holds w \<Longrightarrow> holds w'"
  "net_upload net addr bytes w = (y, w') \<Longrightarrow> holds w \<Longrightarrow> holds w'"
  "net_connect net addr w = (y, w') \<Longrightarrow> holds w \<Longrightarrow> holds w'"
  "net_elapsed net w = (now, w') \<Longrightarrow> holds w \<Longrightarrow> holds w'"
  using exchange_holds transport_holds upload_holds connect_holds elapsed_holds by (metis snd_conv)+

lemma control_holds_to:
  "net_control net addr c w = (y, w') \<Longrightarrow> steady_command c \<Longrightarrow> holds w \<Longrightarrow> holds w'"
  using control_holds by (metis snd_conv)

lemma steady_commands [simp]:
  "steady_command (ScheduleCommand q)" "steady_command (CancelCommand i)"
  "steady_command (SyncClock (sync_command_for clock rate s)) \<longleftrightarrow> \<bar>rate\<bar> \<le> MAX_RATE_PPB"
  by (simp_all add: steady_command_def sync_command_for_def)

lemma best_sample_holds: "best_sample net addr n best w = (x, w') \<Longrightarrow> holds w \<Longrightarrow> holds w'"
proof (induction n arbitrary: best w)
  case (Suc n)
  obtain e w1 where e: "net_exchange net addr w = (e, w1)" by (metis surj_pair)
  then have "holds w1" using requests_hold(1) Suc.prems(2) by blast
  then show ?case using Suc.IH Suc.prems(1) e by (auto split: sum.splits if_splits)
qed simp

lemma synchronize_holds:
  assumes "synchronize net clock b w = (x, b', w')" "rate_bounded b" "holds w"
  shows "holds w'"
proof -
  obtain found w1 where f: "best_sample net (device_address b) 8 None w = (found, w1)" by (metis surj_pair)
  then have w1: "holds w1" using best_sample_holds assms(3) by blast
  have "holds w2"
    if "next_rate (last_sample b) (device_rate b) s = Inr rate"
      "net_control net (device_address b) (SyncClock (sync_command_for clock rate s)) w1 = (y, w2)" for s rate y w2
    using next_rate_bounded [OF that(1)] assms(2) w1 by (intro control_holds_to [OF that(2)]) (simp_all add: rate_bounded_def)
  with w1 assms(1) show ?thesis
    by (auto simp: synchronize_def f Let_def split: prod.splits sum.splits option.splits)
qed

lemma stop_loaded_holds: "stop_loaded net addr w = (x, w') \<Longrightarrow> holds w \<Longrightarrow> holds w'"
  by (auto simp: stop_loaded_def split: prod.splits sum.splits option.splits dest: requests_hold)

lemma prepare_binding_holds:
  "prepare_binding net revision seq compile b w = (x, b', w') \<Longrightarrow> holds w \<Longrightarrow> holds w'"
  by (auto simp: prepare_binding_def Let_def split: prod.splits sum.splits if_splits dest: requests_hold)

lemma ready_binding_holds:
  assumes "ready_binding net clock b w = (x, b', w')" "rate_bounded b" "holds w"
  shows "holds w'"
proof -
  obtain y b1 w1 where s: "synchronize net clock b w = (y, b1, w1)" by (metis prod_cases3)
  then have "holds w1" using synchronize_holds assms(2,3) by blast
  then show ?thesis using assms(1) s
    by (auto simp: ready_binding_def Let_def split: prod.splits sum.splits option.splits if_splits dest: requests_hold)
qed

lemma send_schedule_holds:
  assumes "send_schedule net clock start a pos r item w = (x, b', w')" "holds w"
  shows "holds w'"
proof -
  obtain b s status where item: "item = (b, s, status)" by (metis prod_cases3)
  show ?thesis
  proof (cases "checked_add32 (status_command_id status) 1")
    case (Some i)
    obtain y w1 where y: "net_control net (device_address b)
      (ScheduleCommand (schedule_command_for clock start a pos r s status i)) w = (y, w1)" by (metis surj_pair)
    obtain z w2 where z: "net_control net (device_address b) (CancelCommand i) w1 = (z, w2)" by (metis surj_pair)
    have "holds w1" "holds w2" using control_holds_to [OF y] control_holds_to [OF z] assms(2) by simp_all
    then show ?thesis using assms(1) item Some y z by (auto simp: send_schedule_def split: sum.splits)
  qed (use assms item in \<open>auto simp: send_schedule_def\<close>)
qed

lemma each_binding_holds:
  assumes "each_binding net operation is w = (kept, failures, w')" "holds w"
    and "\<And>i w x b w'. i \<in> set is \<Longrightarrow> operation i w = (x, b, w') \<Longrightarrow> holds w \<Longrightarrow> holds w'"
  shows "holds w'"
  using assms
proof (induction "is" arbitrary: w kept failures)
  case (Cons i "is")
  obtain x b w1 where op: "operation i w = (x, b, w1)" by (metis prod_cases3)
  then have w1: "holds w1" using Cons.prems(2,3) by (metis list.set_intros(1))
  note later = Cons.IH [OF _ _ Cons.prems(3)]
  obtain y w2 where stop: "stop_loaded net (device_address b) w1 = (y, w2)" by (metis surj_pair)
  have w2: "holds w2" using stop_loaded_holds [OF stop w1] .
  show ?case using Cons.prems(1) op stop w1 w2
    by (auto simp: Let_def split: sum.splits prod.splits intro: later)
qed simp

lemma rate_bounded_in: "group_ok bs \<Longrightarrow> b \<in> set bs \<Longrightarrow> rate_bounded b"
  by (simp add: group_ok_def list_all_iff)

lemma stop_all_holds: "holds w \<Longrightarrow> holds (stop_all net bs w)"
proof (induction bs arbitrary: w)
  case (Cons b bs)
  have "holds (snd (stop_loaded net (device_address b) w))"
    using stop_loaded_holds Cons.prems by (metis surj_pair snd_conv)
  then show ?case using Cons.IH by simp
qed simp

lemma stop_each_holds: "stop_each net bs w = (bs', errors, w') \<Longrightarrow> holds w \<Longrightarrow> holds w'"
proof (induction bs arbitrary: w bs' errors)
  case (Cons b bs)
  obtain y w1 where "stop_loaded net (device_address b) w = (y, w1)" by (metis surj_pair)
  moreover from this have "holds w1" using stop_loaded_holds Cons.prems(2) by blast
  ultimately show ?case using Cons by (auto simp: Let_def split: prod.splits)
qed simp

lemma cancel_commands_holds: "cancel_commands net bs commands w = (failed, w') \<Longrightarrow> holds w \<Longrightarrow> holds w'"
proof (induction commands arbitrary: w failed)
  case (Cons command commands)
  obtain addr i where command: "command = (addr, i)" by (cases command)
  obtain y w1 where y: "net_control net addr (CancelCommand i) w = (y, w1)" by (metis surj_pair)
  have "holds w1" by (rule control_holds_to [OF y]) (simp_all add: Cons.prems(2))
  then show ?case using Cons command y by (auto simp: Let_def split: prod.splits if_splits)
qed simp

lemma keep_wanted_holds: "keep_wanted net wanted bs w = (kept, w') \<Longrightarrow> holds w \<Longrightarrow> holds w'"
proof (induction bs arbitrary: w kept)
  case (Cons b bs)
  have "holds (snd (stop_loaded net (device_address b) w))"
    using stop_loaded_holds Cons.prems(2) by (metis surj_pair snd_conv)
  then show ?case using Cons by (auto simp: Let_def split: prod.splits option.splits)
qed simp

lemma bind_device_holds:
  assumes "bind_device net clock d w = (x, w')" "holds w"
  shows "holds w'"
proof -
  let ?b = "\<lparr>device_id = wanted_id d, device_address = wanted_address d,
    device_ports = wanted_ports d, prepared = None, uploaded = None,
    last_sample = None, device_rate = 0, uncertainty = None, device_error = None\<rparr>"
  obtain y w1 where c: "net_connect net (wanted_address d) w = (y, w1)" by (metis surj_pair)
  obtain z w2 where s: "stop_loaded net (wanted_address d) w1 = (z, w2)" by (metis surj_pair)
  have w: "holds w1" "holds w2"
    using requests_hold(4) [OF c assms(2)] stop_loaded_holds [OF s] by simp_all
  have "holds w4" if "synchronize net clock ?b w2 = (v, b, w4)" for v b w4
    by (rule synchronize_holds [OF that _ w(2)]) (simp add: rate_bounded_def MAX_RATE_PPB_def)
  with w assms(1) c s show ?thesis
    by (auto simp: bind_device_def split: sum.splits prod.splits)
qed

lemma bind_wanted_holds: "bind_wanted net clock ds bs results w = (bs', results', w') \<Longrightarrow> holds w \<Longrightarrow> holds w'"
  by (induction ds arbitrary: bs results w)
    (auto split: if_splits prod.splits sum.splits dest: bind_device_holds)

lemma sync_group_holds:
  assumes "sync_group net epoch wanted c w = (results, c', w')" "holds w"
  shows "holds w'"
proof -
  have "holds (stop_all net (core_bindings c) w)" by (rule stop_all_holds [OF assms(2)])
  with assms show ?thesis
    by (auto simp: sync_group_def Let_def split: prod.splits if_splits dest!: keep_wanted_holds bind_wanted_holds)
qed

lemma resynchronize_holds:
  "resynchronize net clock bs w = (bs', reports, w') \<Longrightarrow> list_all rate_bounded bs \<Longrightarrow> holds w \<Longrightarrow> holds w'"
proof (induction bs arbitrary: w bs' reports)
  case (Cons b bs)
  obtain x b1 w1 where s: "synchronize net clock b w = (x, b1, w1)" by (metis prod_cases3)
  then have "holds w1" using synchronize_holds Cons.prems(2,3) by auto
  then show ?case using Cons.IH Cons.prems(1,2) s by (auto simp: Let_def split: sum.splits prod.splits)
qed simp

lemma prepare_group_holds:
  assumes "prepare_group net epoch revision seq compile c w = (x, c', w')" "holds w"
  shows "holds w'"
  using assms each_binding_holds [of "prepare_binding net revision seq compile" "core_bindings c" w] prepare_binding_holds
  by (fastforce simp: prepare_group_def split: if_splits prod.splits)

lemma schedule_group_holds:
  assumes "schedule_group net a pos advancing r duration observed c w = Some (x, c', w')"
    and "group_ok (core_bindings c)" "holds w"
  shows "holds w'"
proof -
  obtain ready failures w1
    where e: "each_binding net (ready_binding net (core_clock_id c)) (core_bindings c) w = (ready, failures, w1)"
    by (metis prod_cases3)
  have w1: "holds w1"
    by (rule each_binding_holds [OF e assms(3)]) (use rate_bounded_in [OF assms(2)] ready_binding_holds in blast)
  obtain now w2 where now: "net_elapsed net w1 = (now, w2)" by (metis surj_pair)
  have w2: "holds w2" by (rule requests_hold(5) [OF now w1])
  have sent: "holds w4"
    if "each_binding net (send_schedule net clock start a pos r) ready w2 = (sent, refused, w4)"
    for clock start pos sent refused w4
    by (rule each_binding_holds [OF that w2]) (use send_schedule_holds in blast)
  show ?thesis using assms(1) e now w2
    by (auto simp: schedule_group_def Let_def split: prod.splits option.splits if_splits
      dest!: sent requests_hold(5) cancel_commands_holds)
qed

lemma service_holds:
  assumes "service_step net request s = Some t" "group_ok (core_bindings (fst s))" "holds (snd s)"
  shows "holds (snd t)"
proof (cases s)
  case (Pair c w)
  note good = assms(2,3) [unfolded Pair fst_conv snd_conv]
  show ?thesis
  proof (cases request)
    case (SyncDevices epoch wanted)
    then show ?thesis using assms(1) Pair sync_group_holds [OF _ good(2)]
      by (cases "sync_group net epoch wanted c w") (auto simp: service_step_def)
  next
    case (PrepareDevices epoch revision seq compile)
    then show ?thesis using assms(1) Pair prepare_group_holds [OF _ good(2)]
      by (cases "prepare_group net epoch revision seq compile c w") (auto simp: service_step_def)
  next
    case (ScheduleDevices a pos advancing r duration observed)
    then show ?thesis using assms(1) Pair schedule_group_holds [OF _ good]
      by (auto simp: service_step_def)
  next
    case (CancelDevices g)
    obtain failed w1 where k: "cancel_commands net (core_bindings c) (schedule_commands g) w = (failed, w1)"
      by (metis surj_pair)
    then show ?thesis using CancelDevices assms(1) Pair cancel_commands_holds [OF k good(2)]
      by (auto simp: service_step_def cancel_group_def)
  next
    case (StopForSource epoch seq)
    then show ?thesis using assms(1) Pair stop_each_holds [OF _ good(2)] good(2)
      by (auto simp: service_step_def stop_for_source_def Let_def split: prod.splits if_splits)
  next
    case Resynchronize
    then show ?thesis using assms(1) Pair resynchronize_holds [OF _ _ good(2)] good(1)
      by (auto simp: service_step_def group_ok_def split: prod.splits)
  qed
qed

end

end
