(* ===== verification/DeviceGroup.thy ===== *)
theory DeviceGroup
  imports DevicePlayback
begin

text \<open>
  The desktop's playback service (\<open>apps/desktop/src/device/playback.rs\<close>) at work on controllers
  that run the firmware's handlers of \<open>Transport\<close>: what the service keeps, what it does to
  the controllers' clocks, and what a group schedule leaves behind.
\<close>

section \<open>Controllers on a bench\<close>

text \<open>
  Boards on a network of constant \<open>lag\<close>, each with a clock that runs at the desktop's pace
  from its own origin. While time passes every board's rendering core turns its loop:
  \<open>frames addr from to\<close>, any list of times and latches, are the turns of board \<open>addr\<close> on the way from
  \<open>from\<close> to \<open>to\<close>. A board that panics, in a handler or in a frame, is gone. How a board takes an
  uploaded show is a parameter too.
\<close>

record bench =
  bench_nanos :: nat
  boards :: "nat \<Rightarrow> controller option"

definition bench_clock :: "(nat \<Rightarrow> u64) \<Rightarrow> nat \<Rightarrow> nat \<Rightarrow> u64" where
  "bench_clock origin addr nanos = of_nat (nanos div 1000) + origin addr"

fun render_frames :: "(u64 \<times> u64) list \<Rightarrow> controller \<Rightarrow> controller option" where
  "render_frames [] st = Some st"
| "render_frames ((local, latch) # frames) st =
     do { st \<leftarrow> render_frame local latch st; render_frames frames st }"

type_synonym frames = "nat \<Rightarrow> nat \<Rightarrow> nat \<Rightarrow> (nat \<times> u64) list"

definition bench_pass :: "frames \<Rightarrow> (nat \<Rightarrow> u64) \<Rightarrow> nat \<Rightarrow> bench \<Rightarrow> bench" where
  "bench_pass frames origin until w =
     w\<lparr>bench_nanos := until,
       boards := \<lambda>addr.
         do { st \<leftarrow> boards w addr;
              render_frames
                (map (\<lambda>(nanos, latch). (bench_clock origin addr nanos, latch)) (frames addr (bench_nanos w) until))
                st }\<rparr>"

definition bench_request ::
  "(u64 \<Rightarrow> controller \<Rightarrow> ((link_error + 'r) \<times> controller) option) \<Rightarrow> frames \<Rightarrow> (nat \<Rightarrow> u64) \<Rightarrow>
     nat \<Rightarrow> nat \<Rightarrow> bench \<Rightarrow> (link_error + 'r) \<times> bench" where
  "bench_request handler frames origin lag addr w =
     (let arrives = bench_nanos w + lag;
          w = bench_pass frames origin arrives w;
          back = bench_pass frames origin (arrives + lag)
      in case boards w addr of
           None \<Rightarrow> (Inl (LinkFailed ''no answer''), back w)
         | Some st \<Rightarrow>
             (case handler (bench_clock origin addr arrives) st of
                None \<Rightarrow> (Inl (LinkFailed ''no answer''), back (w\<lparr>boards := (boards w)(addr := None)\<rparr>))
              | Some (answer, st') \<Rightarrow> (answer, back (w\<lparr>boards := (boards w)(addr := Some st')\<rparr>))))"

definition refused :: "control_error + 'r \<Rightarrow> link_error + 'r" where
  "refused answer = (case answer of Inl e \<Rightarrow> Inl (LinkFailed ''refused'') | Inr r \<Rightarrow> Inr r)"

definition bench_control :: "command \<Rightarrow> u64 \<Rightarrow> controller \<Rightarrow> ((link_error + unit) \<times> controller) option" where
  "bench_control c now st = map_option (\<lambda>(answer, st). (refused answer, st)) (control now c st)"

definition bench_transport ::
  "action option \<Rightarrow> u64 \<Rightarrow> controller \<Rightarrow> ((link_error + playback_report option) \<times> controller) option" where
  "bench_transport a now st = map_option (\<lambda>(answer, st). (refused answer, st)) (transport_service a now st)"

definition bench_exchange :: "frames \<Rightarrow> (nat \<Rightarrow> u64) \<Rightarrow> nat \<Rightarrow> nat \<Rightarrow> bench \<Rightarrow> exchange \<times> bench" where
  "bench_exchange frames origin lag addr w =
     (let sent = of_nat (bench_nanos w div 1000);
          arrives = bench_nanos w + lag;
          w = bench_pass frames origin arrives w;
          now = bench_clock origin addr arrives;
          replies = (case boards w addr of
              None \<Rightarrow> [ReceiveFailed ''no answer'']
            | Some st \<Rightarrow>
                (case clock_answer (boot_id st) now now (request_encode sent) of
                   None \<Rightarrow> [ReceiveFailed ''no answer'']
                 | Some bytes \<Rightarrow> [Datagram bytes (of_nat ((arrives + lag) div 1000))]))
      in (\<lparr>exchange_sent = sent, exchange_failure = None, exchange_arrivals = replies\<rparr>,
          bench_pass frames origin (arrives + lag) w))"

definition bench_network ::
  "(u8 list \<Rightarrow> controller \<Rightarrow> controller) \<Rightarrow> frames \<Rightarrow> (nat \<Rightarrow> u64) \<Rightarrow> nat \<Rightarrow> bench network" where
  "bench_network install frames origin lag =
     \<lparr>net_exchange = bench_exchange frames origin lag,
      net_control = \<lambda>addr c. bench_request (bench_control c) frames origin lag addr,
      net_transport = \<lambda>addr a. bench_request (bench_transport a) frames origin lag addr,
      net_upload = \<lambda>addr bytes. bench_request (\<lambda>now st. Some (Inr (), install bytes st)) frames origin lag addr,
      net_connect = \<lambda>addr w. (Inr (), w),
      net_elapsed = \<lambda>w. (bench_nanos w, w)\<rparr>"

section \<open>No clock is ever stopped\<close>

definition clock_bounded :: "controller \<Rightarrow> bool" where
  "clock_bounded st \<longleftrightarrow> \<bar>rate_ppb (controller_clock st)\<bar> \<le> MAX_RATE_PPB"

definition boards_ok :: "bench \<Rightarrow> bool" where
  "boards_ok w \<longleftrightarrow> (\<forall>addr st. boards w addr = Some st \<longrightarrow> clock_bounded st)"

lemma control_bounded:
  "control now c st = Some (answer, st') \<Longrightarrow> steady_command c \<Longrightarrow> clock_bounded st \<Longrightarrow> clock_bounded st'"
  by (auto simp: control_def clock_bounded_def steady_command_def sync_clock_def schedule_playback_def
    cancel_command_def Let_def split: command.splits option.splits if_splits bool.splits prod.splits)

lemma transport_bounded:
  "transport_service a now st = Some (answer, st') \<Longrightarrow> controller_clock st' = controller_clock st"
  by (auto simp: transport_service_def Let_def split: option.splits bind_splits)

lemma frames_bounded:
  "render_frames fs st = Some st' \<Longrightarrow> controller_clock st' = controller_clock st"
  by (induction fs st rule: render_frames.induct)
    (auto simp: render_frame_def split: bind_splits option.splits)

lemma bench_pass_ok: "boards_ok w \<Longrightarrow> boards_ok (bench_pass frames origin until w)"
  by (auto simp: boards_ok_def bench_pass_def clock_bounded_def dest: frames_bounded split: bind_splits)

lemma bench_request_ok:
  assumes ok: "boards_ok w"
    and handler: "\<And>now st answer st'. handler now st = Some (answer, st') \<Longrightarrow> clock_bounded st \<Longrightarrow> clock_bounded st'"
  shows "boards_ok (snd (bench_request handler frames origin lag addr w))"
proof -
  have "boards_ok (v\<lparr>boards := (boards v)(addr := None)\<rparr>)" if "boards_ok v" for v
    using that by (simp add: boards_ok_def)
  moreover have "boards_ok (v\<lparr>boards := (boards v)(addr := Some st')\<rparr>)"
    if "boards_ok v" "boards v addr = Some st" "handler now st = Some (answer, st')" for v st st' now answer
    using that handler by (simp add: boards_ok_def)
  ultimately show ?thesis
    by (auto simp: bench_request_def Let_def bench_pass_ok ok split: option.splits)
qed

text \<open>The bench with boards whose uploads leave the clock alone is a steady network.\<close>

definition keeps_clock :: "(u8 list \<Rightarrow> controller \<Rightarrow> controller) \<Rightarrow> u8 list \<Rightarrow> controller \<Rightarrow> controller" where
  "keeps_clock install bytes st = (install bytes st)\<lparr>controller_clock := controller_clock st\<rparr>"

interpretation bench: steady_network "bench_network (keeps_clock install) frames origin lag" boards_ok
  for install frames origin lag
proof unfold_locales
  fix w addr
  assume ok: "boards_ok w"
  show "boards_ok (snd (net_exchange (bench_network (keeps_clock install) frames origin lag) addr w))"
    using ok by (simp add: bench_network_def bench_exchange_def bench_pass_ok Let_def)
  show "boards_ok (snd (net_connect (bench_network (keeps_clock install) frames origin lag) addr w))"
    "boards_ok (snd (net_elapsed (bench_network (keeps_clock install) frames origin lag) w))"
    using ok by (simp_all add: bench_network_def)
  show "boards_ok (snd (net_control (bench_network (keeps_clock install) frames origin lag) addr c w))"
    if "steady_command c" for c
    unfolding bench_network_def network.simps
    by (rule bench_request_ok [OF ok]) (use that in \<open>auto simp: bench_control_def dest: control_bounded\<close>)
  show "boards_ok (snd (net_transport (bench_network (keeps_clock install) frames origin lag) addr a w))" for a
    unfolding bench_network_def network.simps
    by (rule bench_request_ok [OF ok])
      (auto simp: bench_transport_def clock_bounded_def dest: transport_bounded)
  show "boards_ok (snd (net_upload (bench_network (keeps_clock install) frames origin lag) addr bytes w))" for bytes
    unfolding bench_network_def network.simps
    by (rule bench_request_ok [OF ok]) (auto simp: keeps_clock_def clock_bounded_def)
qed

section \<open>A group starts together\<close>

text \<open>
  What a controller that accepted the group's schedule has come to: it holds the start, it has made
  it, or a frame found the show at its end, which drops a start that is still to come. A
  board that panicked in a frame since is gone.
\<close>

definition start_of :: "u32 \<Rightarrow> u64 \<Rightarrow> action \<Rightarrow> u32 \<Rightarrow> playback_rate \<Rightarrow> scheduled" where
  "start_of i start a pos r =
     \<lparr>scheduled_id = i, scheduled_at = start, scheduled_mode = mode_from_action a,
      scheduled_position = pos, scheduled_looping = False, scheduled_rate = r\<rparr>"

definition holds_start :: "scheduled \<Rightarrow> transport \<Rightarrow> bool" where
  "holds_start c t \<longleftrightarrow> pending t = Some c"

definition made_start :: "scheduled \<Rightarrow> transport \<Rightarrow> bool" where
  "made_start c t \<longleftrightarrow> pending t = None \<and> transport_mode t = scheduled_mode c \<and>
     anchor_time t = scheduled_at c \<and> anchor_position t = scheduled_position c \<and>
     looping t = scheduled_looping c \<and> transport_rate t = scheduled_rate c"

definition at_end :: "u32 \<Rightarrow> transport \<Rightarrow> bool" where
  "at_end duration t \<longleftrightarrow> pending t = None \<and> transport_mode t = Ended \<and> anchor_position t = duration"

definition start_stands :: "scheduled \<Rightarrow> controller option \<Rightarrow> bool" where
  "start_stands c board \<longleftrightarrow>
     (case board of
        None \<Rightarrow> True
      | Some st \<Rightarrow>
          (\<exists>p. active st = Some p \<and>
            (holds_start c (playback_transport p) \<or> made_start c (playback_transport p) \<or>
             at_end (show_duration p) (playback_transport p))))"

lemma accepted_schedule_held:
  assumes "control now (ScheduleCommand (schedule_command_for clock start a pos r s status i)) st = Some (Inr (), st')"
  shows "start_stands (start_of i start a pos r) (Some st')"
  using assms
  by (auto simp: control_def schedule_playback_def schedule_def schedule_command_for_def start_stands_def
    holds_start_def start_of_def Let_def split: option.splits if_splits)

lemma refresh_stands:
  assumes "refresh now d t = Some t'" "holds_start c t \<or> made_start c t \<or> at_end d t"
  shows "holds_start c t' \<or> made_start c t' \<or> at_end d t'"
proof -
  define u where "u = apply_due now t"
  have u: "holds_start c u \<or> made_start c u \<or> at_end d u"
    using assms(2) by (auto simp: u_def apply_due_def holds_start_def made_start_def at_end_def split: if_splits)
  obtain m pos where s: "sample now d u = Some (m, pos)"
    and t': "t' = (if m = Ended \<and> transport_mode u \<noteq> Ended then transport_apply m pos now False (transport_rate u) u else u)"
    using assms(1) by (auto simp: refresh_def u_def Let_def split: option.splits)
  show ?thesis
  proof (cases "m = Ended \<and> transport_mode u \<noteq> Ended")
    case True
    moreover have "transport_mode (apply_due now u) = transport_mode u"
      using apply_due_later [of now now t] by (simp add: u_def)
    ultimately have "pos = d" using s by (auto simp: sample_def Let_def split: if_splits)
    then show ?thesis using True t' by (simp add: at_end_def)
  next
    case False
    with u t' show ?thesis by simp
  qed
qed

lemma frames_stand:
  "render_frames fs st = Some st' \<Longrightarrow> start_stands c (Some st) \<Longrightarrow> start_stands c (Some st')"
proof (induction fs st rule: render_frames.induct)
  case (2 local latch fs st)
  obtain st1 where st1: "render_frame local latch st = Some st1" "render_frames fs st1 = Some st'"
    using 2(2) by (auto split: bind_splits)
  obtain p where p: "active st = Some p" "holds_start c (playback_transport p) \<or>
      made_start c (playback_transport p) \<or> at_end (show_duration p) (playback_transport p)"
    using 2(3) by (auto simp: start_stands_def)
  obtain t where t: "refresh (master_at (controller_clock st) local) (show_duration p) (playback_transport p) = Some t"
    "st1 = st\<lparr>active := Some (p\<lparr>playback_transport := t\<rparr>)\<rparr>"
    using st1(1) p(1) by (auto simp: render_frame_def Let_def split: bind_splits)
  have "start_stands c (Some st1)"
    using refresh_stands [OF t(1) p(2)] by (simp add: start_stands_def t(2))
  then show ?case using 2(1) st1 by blast
qed simp

lemma pass_stands: "start_stands c (boards w addr) \<Longrightarrow> start_stands c (boards (bench_pass frames origin until w) addr)"
proof (cases "boards (bench_pass frames origin until w) addr")
  case (Some st')
  assume ok: "start_stands c (boards w addr)"
  obtain st where "boards w addr = Some st" "render_frames
      (map (\<lambda>(nanos, latch). (bench_clock origin addr nanos, latch)) (frames addr (bench_nanos w) until)) st = Some st'"
    using Some by (auto simp: bench_pass_def split: bind_splits)
  then show ?thesis using frames_stand ok Some by metis
qed (simp add: start_stands_def)

lemma bench_request_stands:
  assumes "bench_request handler frames origin lag addr w = (answer, w')" "addr' \<noteq> addr"
    and "start_stands c (boards w addr')"
  shows "start_stands c (boards w' addr')"
  using assms by (auto simp: bench_request_def Let_def split: option.splits intro!: pass_stands)

lemma bench_stands:
  "net_control (bench_network install frames origin lag) addr q w = (x, w') \<Longrightarrow> addr' \<noteq> addr \<Longrightarrow>
     start_stands c (boards w addr') \<Longrightarrow> start_stands c (boards w' addr')"
  "net_transport (bench_network install frames origin lag) addr q' w = (y, w') \<Longrightarrow> addr' \<noteq> addr \<Longrightarrow>
     start_stands c (boards w addr') \<Longrightarrow> start_stands c (boards w' addr')"
  by (auto simp: bench_network_def dest: bench_request_stands)

lemma stop_stands:
  "stop_loaded (bench_network install frames origin lag) addr w = (x, w') \<Longrightarrow> addr' \<noteq> addr \<Longrightarrow>
     start_stands c (boards w addr') \<Longrightarrow> start_stands c (boards w' addr')"
  by (auto simp: stop_loaded_def split: prod.splits sum.splits option.splits) (metis bench_stands(2))+

lemma send_stands:
  assumes "send_schedule (bench_network install frames origin lag) clock start a pos r item w = (x, b, w')"
    and "addr \<noteq> device_address (fst item)" "start_stands c (boards w addr)"
  shows "start_stands c (boards w' addr)"
  using assms
  by (auto simp: send_schedule_def dest: bench_stands(1) split: prod.splits option.splits sum.splits)
    (metis bench_stands(1) surj_pair snd_conv)

lemma send_held:
  assumes "send_schedule (bench_network install frames origin lag) clock start a pos r item w = (Inr i, b, w')"
  shows "start_stands (start_of i start a pos r) (boards w' (device_address b))"
  using assms
  by (auto simp: send_schedule_def bench_network_def bench_request_def bench_control_def refused_def Let_def
    dest!: accepted_schedule_held intro!: pass_stands split: prod.splits option.splits sum.splits)

lemma each_binding_distinct:
  assumes "each_binding net operation is w = (kept, failures, w')" "distinct (map key is)"
    and "\<And>i w x b w'. operation i w = (x, b, w') \<Longrightarrow> tag b = key i"
  shows "distinct (map (tag \<circ> fst) kept) \<and> tag ` fst ` set kept \<subseteq> key ` set is"
  using assms(1,2)
proof (induction "is" arbitrary: w kept failures w')
  case (Cons i "is")
  obtain x b w1 where op: "operation i w = (x, b, w1)" by (metis prod_cases3)
  have new: "key i \<notin> key ` set is" "distinct (map key is)" "tag b = key i"
    using Cons.prems(2) assms(3) [OF op] by simp_all
  show ?case
  proof (cases x)
    case (Inr r)
    obtain kept1 w2 where rest: "each_binding net operation is w1 = (kept1, failures, w2)" "kept = (b, r) # kept1"
      using Cons.prems(1) op Inr by (auto split: prod.splits)
    then have "key i \<notin> tag ` fst ` set kept1" using Cons.IH [OF rest(1) new(2)] new(1) by blast
    then show ?thesis using Cons.IH [OF rest(1) new(2)] rest(2) new(3) by (auto simp: comp_def image_comp)
  next
    case (Inl e)
    obtain w2 failures1 w3 where "each_binding net operation is w2 = (kept, failures1, w3)"
      using Cons.prems(1) op Inl by (auto simp: Let_def split: prod.splits)
    then show ?thesis using Cons.IH [OF _ new(2)] by fastforce
  qed
qed simp

lemma sends_held:
  assumes "each_binding (bench_network install frames origin lag)
      (send_schedule (bench_network install frames origin lag) clock start a pos r) items w = (sent, failures, w')"
    and "distinct (map (device_address \<circ> fst) items)"
  shows "(\<forall>addr c. addr \<notin> device_address ` fst ` set items \<longrightarrow> start_stands c (boards w addr) \<longrightarrow>
      start_stands c (boards w' addr)) \<and>
    (\<forall>(b, i) \<in> set sent. b \<in> fst ` set items \<and>
      start_stands (start_of i start a pos r) (boards w' (device_address b)))"
  using assms
proof (induction items arbitrary: w sent failures)
  case (Cons item items)
  let ?net = "bench_network install frames origin lag"
  obtain x b w1 where op: "send_schedule ?net clock start a pos r item w = (x, b, w1)"
    by (metis prod_cases3)
  have b: "b = fst item" by (rule send_schedule_keeps [OF op])
  have new: "device_address b \<notin> device_address ` fst ` set items" "distinct (map (device_address \<circ> fst) items)"
    using Cons.prems(2) by (simp_all add: b image_comp comp_def)
  obtain y w2 where stop: "stop_loaded ?net (device_address b) w1 = (y, w2)" by (metis surj_pair)
  define w3 where "w3 = (case x of Inl _ \<Rightarrow> w2 | Inr _ \<Rightarrow> w1)"
  have w3: "start_stands c (boards w3 addr)" if "addr \<noteq> device_address b" "start_stands c (boards w addr)" for c addr
    using send_stands [OF op] stop_stands [OF stop] that by (auto simp: w3_def b split: sum.split)
  obtain sent1 failures1 w4 where rest: "each_binding ?net (send_schedule ?net clock start a pos r) items w3 =
      (sent1, failures1, w4)"
    by (metis prod_cases3)
  have out: "w' = w4" "sent = (case x of Inl _ \<Rightarrow> sent1 | Inr i \<Rightarrow> (b, i) # sent1)"
    using Cons.prems(1) op stop rest by (auto simp: w3_def split: sum.splits)
  note ih = Cons.IH [OF rest [folded out(1)] new(2)]
  have "start_stands (start_of i start a pos r) (boards w' (device_address b))" if "x = Inr i" for i
    using ih new(1) send_held [OF op [unfolded that]] that by (simp add: w3_def)
  then show ?case using ih w3 out(2) b by (auto split: sum.splits)
qed simp

section \<open>What a schedule does to the group\<close>

text \<open>The stages of a schedule that answers with a plan.\<close>

lemma schedule_stages:
  assumes "schedule_group net a pos advancing r duration observed c w = Some (Inr g, c', w')"
  obtains ready late w1 now w2 t sent refused w3 now2 w4 where
    "each_binding net (ready_binding net (core_clock_id c)) (core_bindings c) w = (ready, late, w1)"
    "net_elapsed net w1 = (now, w2)"
    "start_time (map fst ready) (now div 1000 + schedule_lead (map fst ready)) = Some t" "t < 2 ^ 64"
    "each_binding net (send_schedule net (core_clock_id c) (of_nat t) a
       (position_at pos advancing duration observed t) r) ready w2 = (sent, refused, w3)"
    "net_elapsed net w3 = (now2, w')" "40000000 \<le> t * 1000 - now2"
    "c' = c\<lparr>core_bindings := map fst sent\<rparr>"
    "g = \<lparr>schedule_deadline = of_nat t, schedule_position = position_at pos advancing duration observed t,
      schedule_commands = map (\<lambda>(b, i). (device_address b, i)) sent, schedule_failures = late ++ refused\<rparr>"
  using assms
  by (fastforce simp: schedule_group_def Let_def not_less split: prod.splits option.splits if_splits)

lemma ready_id: "ready_binding net clock b w = (x, b', w') \<Longrightarrow> device_id b' = device_id b"
  "ready_binding net clock b w = (x, b', w') \<Longrightarrow> device_address b' = device_address b"
  by (auto dest!: ready_binding_keeps(1) simp: identity_def)

lemma split_twice:
  assumes "S \<union> G = R" "S \<inter> G = {}" "R \<union> F = A" "R \<inter> F = {}"
  shows "S \<union> (F \<union> G) = A" "S \<inter> (F \<union> G) = {}"
  using assms by blast+

text \<open>
  C29. A schedule that succeeds splits the group: every controller there was either follows the
  schedule, in one command of the plan, or is named among the failures, and none is both.
\<close>

theorem schedule_splits_group:
  assumes "schedule_group net a pos advancing r duration observed c w = Some (Inr g, c', w')"
    and "group_ok (core_bindings c)"
  shows "device_id ` set (core_bindings c') \<union> dom (schedule_failures g) = device_id ` set (core_bindings c) \<and>
    device_id ` set (core_bindings c') \<inter> dom (schedule_failures g) = {} \<and>
    map fst (schedule_commands g) = map device_address (core_bindings c') \<and>
    group_ok (core_bindings c')"
proof -
  obtain ready late w1 now w2 t sent refused w3 now2 w4 where
    e: "each_binding net (ready_binding net (core_clock_id c)) (core_bindings c) w = (ready, late, w1)"
    and s: "each_binding net (send_schedule net (core_clock_id c) (of_nat t) a
       (position_at pos advancing duration observed t) r) ready w2 = (sent, refused, w3)"
    and c': "c' = c\<lparr>core_bindings := map fst sent\<rparr>"
    and g: "schedule_commands g = map (\<lambda>(b, i). (device_address b, i)) sent" "schedule_failures g = late ++ refused"
    by (rule schedule_stages [OF assms(1)]) auto
  have p1: "device_id ` fst ` set ready \<union> dom late = device_id ` set (core_bindings c) \<and>
      device_id ` fst ` set ready \<inter> dom late = {} \<and> distinct (map (device_id \<circ> fst) ready)"
    by (rule each_binding_partition [OF e]) (use assms(2) ready_id in \<open>auto simp: group_ok_def\<close>)
  have p2: "device_id ` fst ` set sent \<union> dom refused = (device_id \<circ> fst) ` set ready \<and>
      device_id ` fst ` set sent \<inter> dom refused = {} \<and> distinct (map (device_id \<circ> fst) sent)"
  proof (rule each_binding_partition [OF s])
    show "distinct (map (device_id \<circ> fst) ready)" using p1 by blast
    show "device_id b = (device_id \<circ> fst) i"
      if "send_schedule net (core_clock_id c) (of_nat t) a (position_at pos advancing duration observed t) r i w = (x, b, w')"
      for i w x b w'
      using send_schedule_keeps [OF that] by simp
  qed
  let ?S = "device_id ` fst ` set sent" and ?R = "device_id ` fst ` set ready"
  have R: "(device_id \<circ> fst) ` set ready = ?R" by (simp add: image_comp)
  have split: "?S \<union> (dom late \<union> dom refused) = device_id ` set (core_bindings c)"
    "?S \<inter> (dom late \<union> dom refused) = {}"
    using split_twice [of ?S "dom refused" ?R "dom late"] p1 p2 unfolding R by simp_all
  have S: "device_id ` set (core_bindings c') = ?S" by (simp add: c')
  have F: "dom (schedule_failures g) = dom late \<union> dom refused" by (simp add: g Un_commute)
  have "map fst (schedule_commands g) = map device_address (core_bindings c')"
    by (simp add: g c' split_def comp_def)
  with split schedule_group_ok [OF assms] show ?thesis unfolding S F by blast
qed

text \<open>
  C11. On a bench of the firmware's handlers and rendering loops whose controllers have different
  addresses (the service itself keeps only their ids apart), a schedule that succeeds leaves every
  controller of the plan with the same start: its own command number, and one deadline, mode,
  position and rate for the group. It holds that start, or has made it; the exceptions are a board
  that panicked in a frame since, and one whose frame found its show at the end: before the deadline
  that drops the start, as \<open>refresh_loses_command\<close> shows.
\<close>

theorem group_starts_together:
  assumes "schedule_group (bench_network install frames origin lag) a pos advancing r duration observed c w =
      Some (Inr g, c', w')"
    and "distinct (map device_address (core_bindings c))"
    and "(addr, i) \<in> set (schedule_commands g)" "boards w' addr = Some st"
  shows "\<exists>p. active st = Some p \<and>
    (let start = start_of i (schedule_deadline g) a (schedule_position g) r; t = playback_transport p
     in holds_start start t \<or> made_start start t \<or> at_end (show_duration p) t)"
proof -
  let ?net = "bench_network install frames origin lag"
  obtain ready late w1 now w2 t sent refused w3 now2 w4 where
    e: "each_binding ?net (ready_binding ?net (core_clock_id c)) (core_bindings c) w = (ready, late, w1)"
    and s: "each_binding ?net (send_schedule ?net (core_clock_id c) (of_nat t) a
       (position_at pos advancing duration observed t) r) ready w2 = (sent, refused, w3)"
    and last: "net_elapsed ?net w3 = (now2, w')"
    and g: "g = \<lparr>schedule_deadline = of_nat t, schedule_position = position_at pos advancing duration observed t,
      schedule_commands = map (\<lambda>(b, i). (device_address b, i)) sent, schedule_failures = late ++ refused\<rparr>"
    by (rule schedule_stages [OF assms(1)]) auto
  have "distinct (map (device_address \<circ> fst) ready)"
  proof (rule each_binding_distinct [OF e assms(2), THEN conjunct1])
    show "device_address b = device_address i"
      if "ready_binding ?net (core_clock_id c) i w = (x, b, w')" for i w x b w'
      by (rule ready_id(2) [OF that])
  qed
  then have "\<forall>(b, i) \<in> set sent. start_stands (start_of i (of_nat t) a
      (position_at pos advancing duration observed t) r) (boards w3 (device_address b))"
    using sends_held [OF s] by blast
  moreover have "w' = w3" using last by (simp add: bench_network_def)
  ultimately have "start_stands (start_of i (schedule_deadline g) a (schedule_position g) r) (Some st)"
    using assms(3,4) by (auto simp: g)
  then show ?thesis by (simp add: start_stands_def Let_def)
qed

section \<open>Deadlines on frames\<close>

lemma ceil_div_bounds:
  assumes "0 < b"
  shows "a \<le> ceil_div a b * b" "ceil_div a b * b < a + b"
proof -
  have "(a + b - 1) div b * b + (a + b - 1) mod b = a + b - 1" by (rule div_mult_mod_eq)
  moreover have "(a + b - 1) mod b < b" using assms by simp
  ultimately show "a \<le> ceil_div a b * b" "ceil_div a b * b < a + b"
    using assms unfolding ceil_div_def by linarith+
qed

text \<open>
  The deadline of a schedule is the start of a frame, not before the earliest time the lead
  allows, and less than a frame and a microsecond after it.
\<close>

lemma deadline_on_frame:
  assumes "frame_aligned earliest frame_rate = Some t"
  shows "earliest \<le> t \<and> (\<exists>frame. t = ceil_div (frame * 1000000) (unat frame_rate)) \<and>
    t * unat frame_rate < earliest * unat frame_rate + 1000000 + unat frame_rate"
proof -
  let ?r = "unat frame_rate"
  define frame where "frame = ceil_div (earliest * ?r) 1000000"
  have r: "0 < ?r" and t: "t = ceil_div (frame * 1000000) ?r"
    using assms by (auto simp: frame_aligned_def frame_def Let_def unat_gt_0 split: if_splits)
  have f: "earliest * ?r \<le> frame * 1000000" "frame * 1000000 < earliest * ?r + 1000000"
    unfolding frame_def by (rule ceil_div_bounds; simp)+
  have "frame * 1000000 \<le> t * ?r" "t * ?r < frame * 1000000 + ?r"
    unfolding t by (rule ceil_div_bounds [OF r])+
  then have "earliest * ?r \<le> t * ?r" "t * ?r < earliest * ?r + 1000000 + ?r" using f by linarith+
  then show ?thesis using r t by auto
qed

section \<open>A concrete group\<close>

text \<open>
  One board that holds the prepared show, and a controller that does not answer. Every board turns
  its rendering loop once on the way of each message.
\<close>

definition bench_board :: controller where
  "bench_board =
     \<lparr>boot_id = 7, controller_clock = clock_new,
      active = Some \<lparr>show_duration = 60000000, playback_transport = transport_new, show_id = 9, show_bytes = 3\<rparr>\<rparr>"

definition bench_start :: bench where
  "bench_start = \<lparr>bench_nanos = 0, boards = [0 \<mapsto> bench_board]\<rparr>"

definition bench_binding :: "nat \<Rightarrow> (unit, unit) binding" where
  "bench_binding addr =
     \<lparr>device_id = 10 + addr, device_address = addr, device_ports = (),
      prepared = Some \<lparr>prepared_revision = 1, prepared_sequence = (), prepared_bytes = [1, 2, 3],
        prepared_frame_rate = 40, prepared_id = 9\<rparr>,
      uploaded = Some 9, last_sample = None, device_rate = 0, uncertainty = None, device_error = None\<rparr>"

definition bench_core :: "(unit, unit) core" where
  "bench_core = \<lparr>core_epoch = 1, core_bindings = [bench_binding 0, bench_binding 2], core_clock_id = 5\<rparr>"

abbreviation "bench_frames \<equiv> (\<lambda>addr from until. [(until, 0)])"
abbreviation "bench_net \<equiv> bench_network (\<lambda>bytes st. st) bench_frames (\<lambda>addr. 500000) 0"

definition bench_first :: sampled_clock where
  "bench_first = \<lparr>sample_boot_id = 7, sample_local = 500000, sample_master = 0, sample_delay = 0\<rparr>"

definition bench_synced :: controller where
  "bench_synced = bench_board\<lparr>controller_clock := clock_of (sync_command_for 5 0 bench_first) 15500000\<rparr>"

text \<open>Frames that change nothing: a stopped transport with nothing due.\<close>

definition frame_idle :: "controller \<Rightarrow> bool" where
  "frame_idle st \<longleftrightarrow> render_frame 500000 0 st = Some st"

definition bench_idle :: "bench \<Rightarrow> bool" where
  "bench_idle w \<longleftrightarrow> bench_nanos w = 0 \<and> (\<forall>addr st. boards w addr = Some st \<longrightarrow> frame_idle st)"

lemma frame_idleI:
  assumes "local_at (controller_clock st) 0 \<noteq> None"
    and "\<And>p. active st = Some p \<Longrightarrow> transport_mode (playback_transport p) = Stopped \<and>
      (\<forall>c. pending (playback_transport p) = Some c \<longrightarrow> master_at (controller_clock st) 500000 < scheduled_at c)"
  shows "frame_idle st"
proof (cases "active st")
  case None
  with assms(1) show ?thesis by (auto simp: frame_idle_def render_frame_def Let_def)
next
  case (Some p)
  have "apply_due (master_at (controller_clock st) 500000) (playback_transport p) = playback_transport p"
    using assms(2) [OF Some] by (auto simp: apply_due_def not_le split: option.split)
  then have "refresh (master_at (controller_clock st) 500000) (show_duration p) (playback_transport p) =
      Some (playback_transport p)"
    using assms(2) [OF Some] by (simp add: refresh_def sample_def Let_def)
  moreover have "apply_due 0 (playback_transport p) = playback_transport p"
    using assms(2) [OF Some] by (auto simp: apply_due_def split: option.split)
  then have "sample 0 (show_duration p) (playback_transport p) \<noteq> None"
    using assms(2) [OF Some] by (simp add: sample_def Let_def)
  ultimately show ?thesis using assms(1) Some by (auto simp: frame_idle_def render_frame_def Let_def)
qed

lemma idle_pass: "bench_idle w \<Longrightarrow> bench_pass bench_frames (\<lambda>addr. 500000) 0 w = w"
proof -
  assume idle: "bench_idle w"
  have "do { st \<leftarrow> boards w addr; render_frames [(500000, 0)] st } = boards w addr" for addr
    using idle by (cases "boards w addr") (auto simp: bench_idle_def frame_idle_def)
  then show ?thesis using idle by (simp add: bench_pass_def bench_idle_def bench_clock_def)
qed

lemma bench_idle_update:
  "bench_idle w \<Longrightarrow> frame_idle st \<Longrightarrow> bench_idle (w\<lparr>boards := (boards w)(addr := Some st)\<rparr>)"
  by (simp add: bench_idle_def)

lemma idle_request:
  assumes "bench_idle w" "boards w addr = Some st" "handler 500000 st = Some (answer, st')" "frame_idle st'"
  shows "bench_request handler bench_frames (\<lambda>addr. 500000) 0 addr w = (answer, w\<lparr>boards := (boards w)(addr := Some st')\<rparr>)"
proof -
  have "bench_nanos w = 0" using assms(1) by (simp add: bench_idle_def)
  then show ?thesis
    using assms idle_pass bench_idle_update [OF assms(1,4), of addr]
    by (simp add: bench_request_def Let_def bench_clock_def)
qed

lemma idle_silence:
  assumes "bench_idle w" "boards w addr = None"
  shows "bench_request handler bench_frames (\<lambda>addr. 500000) 0 addr w = (Inl (LinkFailed ''no answer''), w)"
  using assms idle_pass [OF assms(1)] by (simp add: bench_request_def bench_idle_def Let_def)

lemma idle_exchange:
  assumes "bench_idle w"
  shows "snd (bench_exchange bench_frames (\<lambda>addr. 500000) 0 addr w) = w"
    "exchange_sent (fst (bench_exchange bench_frames (\<lambda>addr. 500000) 0 addr w)) = 0"
    "exchange_failure (fst (bench_exchange bench_frames (\<lambda>addr. 500000) 0 addr w)) = None"
    "exchange_arrivals (fst (bench_exchange bench_frames (\<lambda>addr. 500000) 0 addr w)) =
      (case boards w addr of
         None \<Rightarrow> [ReceiveFailed ''no answer'']
       | Some st \<Rightarrow>
           (case clock_answer (boot_id st) 500000 500000 (request_encode 0) of
              None \<Rightarrow> [ReceiveFailed ''no answer'']
            | Some bytes \<Rightarrow> [Datagram bytes 0]))"
  using idle_pass [OF assms] assms by (simp_all add: bench_exchange_def bench_idle_def bench_clock_def Let_def cong: option.case_cong)

lemma bench_exchanged:
  assumes "boards w 0 = Some st" "boot_id st = 7" "bench_idle w"
  obtains x where "net_exchange bench_net 0 w = (x, w)" "udp_clock_sample x = Inr bench_first"
proof -
  let ?reply = "reply_encode \<lparr>reply_sent = 0, reply_boot_id = 7, reply_received = 500000, reply_replied = 500000\<rparr>"
  have answer: "clock_answer 7 500000 500000 (request_encode 0) = Some ?reply" by (rule clock_answer_request)
  obtain x where x: "bench_exchange bench_frames (\<lambda>addr. 500000) 0 0 w = (x, w)"
    using idle_exchange(1) [OF assms(3), of 0] by (metis prod.collapse)
  have "exchange_sent x = 0" "exchange_failure x = None" "exchange_arrivals x = [] @ Datagram ?reply 0 # []"
    using idle_exchange(2-4) [OF assms(3), of 0] assms(1,2) answer unfolding x by simp_all
  then have "x = \<lparr>exchange_sent = 0, exchange_failure = None, exchange_arrivals = [] @ Datagram ?reply 0 # []\<rparr>"
    by (cases x) simp
  then have "udp_clock_sample x = clock_sample 0 500000 500000 0 7"
    using answered_exchange [OF _ answer, of "[]" 0 "[]"] by (simp only: list.set ball_empty simp_thms)
  moreover have "net_exchange bench_net 0 w = (x, w)" by (simp add: bench_network_def x)
  ultimately show ?thesis using that by (simp add: clock_sample_Inr bench_first_def)
qed

lemma bench_best:
  assumes "boards w 0 = Some st" "boot_id st = 7" "bench_idle w"
  shows "best_sample bench_net 0 8 None w = (Inr (Some bench_first), w)"
proof -
  obtain x where x: "net_exchange bench_net 0 w = (x, w)" "udp_clock_sample x = Inr bench_first"
    by (rule bench_exchanged [OF assms])
  have "best_sample bench_net 0 n (Some bench_first) w = (Inr (Some bench_first), w)" for n
    by (induction n) (simp_all add: x)
  then show ?thesis by (simp add: x eval_nat_numeral)
qed

abbreviation "first_clock \<equiv> clock_of (sync_command_for 5 0 bench_first) 15500000"

lemma first_clock_master: "master_at first_clock 500000 = 0" "local_at first_clock 0 \<noteq> None"
  by (simp_all add: master_at_def local_at_def clock_of_def sync_command_for_def bench_first_def clamp_u64_def Let_def)

lemma bench_synchronizes:
  assumes "boards w 0 = Some st" "boot_id st = 7" "bench_idle w" "clock_id (controller_clock st) = None"
    and "frame_idle (st\<lparr>controller_clock := first_clock\<rparr>)"
    and "device_address b = 0" "last_sample b = None" "device_rate b = 0" "device_error b = None"
  shows "synchronize bench_net 5 b w =
    (Inr (), b\<lparr>last_sample := Some bench_first, uncertainty := Some 100\<rparr>,
     w\<lparr>boards := (boards w)(0 \<mapsto> st\<lparr>controller_clock := first_clock\<rparr>)\<rparr>)"
proof -
  let ?st = "st\<lparr>controller_clock := first_clock\<rparr>"
  have best: "best_sample bench_net 0 8 None w = (Inr (Some bench_first), w)"
    by (rule bench_best [OF assms(1-3)])
  have "sync_clock 500000 (sync_command_for 5 0 bench_first) st = Some (Inr (), ?st)"
    using assms(2,4) by (simp add: sync_clock_def sync_command_for_def bench_first_def clock_of_def)
  then have "bench_control (SyncClock (sync_command_for 5 0 bench_first)) 500000 st = Some (Inr (), ?st)"
    by (simp add: bench_control_def control_def refused_def)
  then have "net_control bench_net 0 (SyncClock (sync_command_for 5 0 bench_first)) w =
      (Inr (), w\<lparr>boards := (boards w)(0 \<mapsto> ?st)\<rparr>)"
    using idle_request [OF assms(3,1) _ assms(5)] by (simp add: bench_network_def)
  then show ?thesis using assms(6-9)
    by (simp add: synchronize_def best next_rate_def same_boot_def next_sample_def uncertainty_of_def bench_first_def)
qed

definition bench_report :: playback_report where
  "bench_report = \<lparr>status_mode = Stopped, status_position = 0, status_show_id = 9, status_show_bytes = 3, status_command_id = 0\<rparr>"

lemma bench_binding_fields [simp]:
  "device_address (bench_binding addr) = addr" "device_id (bench_binding addr) = 10 + addr"
  "device_rate (bench_binding addr) = 0" "device_error (bench_binding addr) = None"
  "uncertainty (bench_binding addr) = None" "last_sample (bench_binding addr) = None"
  "prepared (bench_binding addr) = Some \<lparr>prepared_revision = 1, prepared_sequence = (),
     prepared_bytes = [1, 2, 3], prepared_frame_rate = 40, prepared_id = 9\<rparr>"
  by (simp_all add: bench_binding_def)

lemma bench_boards_idle: "frame_idle bench_board" "frame_idle bench_synced"
proof -
  show "frame_idle bench_board"
    by (rule frame_idleI) (simp_all add: bench_board_def transport_new_def clock_new_def local_at_def Let_def)
  show "frame_idle bench_synced"
    using first_clock_master by (intro frame_idleI) (auto simp: bench_synced_def bench_board_def transport_new_def)
qed

lemma bench_worlds_idle: "bench_idle bench_start" "bench_idle (bench_start\<lparr>boards := [0 \<mapsto> bench_synced]\<rparr>)"
  using bench_boards_idle by (simp_all add: bench_idle_def bench_start_def)

lemma bench_is_ready:
  "ready_binding bench_net 5 (bench_binding 0) bench_start =
    (Inr (bench_first, bench_report), (bench_binding 0)\<lparr>last_sample := Some bench_first, uncertainty := Some 100\<rparr>,
     bench_start\<lparr>boards := [0 \<mapsto> bench_synced]\<rparr>)"
proof -
  let ?w = "bench_start\<lparr>boards := [0 \<mapsto> bench_synced]\<rparr>"
  have synced: "synchronize bench_net 5 (bench_binding 0) bench_start =
      (Inr (), (bench_binding 0)\<lparr>last_sample := Some bench_first, uncertainty := Some 100\<rparr>, ?w)"
    using bench_synchronizes [of bench_start bench_board "bench_binding 0"] bench_worlds_idle(1)
      bench_boards_idle(2) [unfolded bench_synced_def]
    by (simp add: bench_start_def bench_board_def bench_synced_def clock_new_def)
  obtain x where x: "net_exchange bench_net 0 ?w = (x, ?w)" "udp_clock_sample x = Inr bench_first"
    by (rule bench_exchanged [OF _ _ bench_worlds_idle(2), of bench_synced]) (simp_all add: bench_synced_def bench_board_def)
  have "bench_transport None 500000 bench_synced = Some (Inr (Some bench_report), bench_synced)"
    by (simp add: bench_transport_def transport_service_def bench_synced_def bench_board_def playback_status_def
      sample_def apply_due_def transport_new_def bench_report_def refused_def Let_def)
  then have "net_transport bench_net 0 None ?w = (Inr (Some bench_report), ?w)"
    using idle_request [OF bench_worlds_idle(2), of 0 bench_synced "bench_transport None"] bench_boards_idle(2)
    by (simp add: bench_network_def)
  then show ?thesis
    by (simp add: ready_binding_def synced x holds_show_def bench_report_def)
qed

lemma bench_absent:
  assumes "boards w addr = None" "bench_idle w"
  shows "ready_binding bench_net 5 (bench_binding addr) w = (Inl (LinkFailed ''no answer''), bench_binding addr, w)"
    "snd (stop_loaded bench_net addr w) = w"
proof -
  have "net_exchange bench_net addr w = (\<lparr>exchange_sent = 0, exchange_failure = None,
      exchange_arrivals = [ReceiveFailed ''no answer'']\<rparr>, w)"
    using idle_exchange [OF assms(2), of addr] assms(1) by (simp add: bench_network_def prod_eq_iff)
  then have "best_sample bench_net addr (Suc n) None w = (Inl (LinkFailed ''no answer''), w)" for n
    by (simp add: udp_clock_sample_def)
  from this [of 7] have "best_sample bench_net addr 8 None w = (Inl (LinkFailed ''no answer''), w)" by simp
  then show "ready_binding bench_net 5 (bench_binding addr) w = (Inl (LinkFailed ''no answer''), bench_binding addr, w)"
    by (simp add: ready_binding_def synchronize_def)
  have "net_transport bench_net addr None w = (Inl (LinkFailed ''no answer''), w)"
    using idle_silence [OF assms(2,1)] by (simp add: bench_network_def)
  then show "snd (stop_loaded bench_net addr w) = w" by (simp add: stop_loaded_def)
qed

lemma bench_group_ready:
  "each_binding bench_net (ready_binding bench_net 5) (core_bindings bench_core) bench_start =
    ([((bench_binding 0)\<lparr>last_sample := Some bench_first, uncertainty := Some 100\<rparr>, bench_first, bench_report)],
     [12 \<mapsto> LinkFailed ''no answer''], bench_start\<lparr>boards := [0 \<mapsto> bench_synced]\<rparr>)"
proof -
  let ?w = "bench_start\<lparr>boards := [0 \<mapsto> bench_synced]\<rparr>"
  have w: "boards ?w 2 = None" "bench_idle ?w" using bench_worlds_idle by simp_all
  obtain y where "stop_loaded bench_net 2 ?w = (y, ?w)"
    using bench_absent(2) [OF w] by (metis surj_pair snd_conv)
  then show ?thesis
    by (simp add: bench_core_def bench_is_ready bench_absent(1) [OF w])
qed

definition bench_end :: "bench" where
  "bench_end = bench_start\<lparr>boards := [0 \<mapsto> snd (schedule_playback 500000
     (schedule_command_for 5 275000 Play 1000 rate_NORMAL bench_first bench_report 1) bench_synced)]\<rparr>"

lemma bench_schedules:
  "\<exists>g c. schedule_group bench_net Play 1000 None rate_NORMAL 60000000 0 bench_core bench_start =
       Some (Inr g, c, bench_end) \<and>
     schedule_commands g = [(0, 1)] \<and> schedule_deadline g = 275000 \<and> schedule_position g = 1000"
proof -
  let ?b = "(bench_binding 0)\<lparr>last_sample := Some bench_first, uncertainty := Some 100\<rparr>"
  let ?w = "bench_start\<lparr>boards := [0 \<mapsto> bench_synced]\<rparr>"
  have lead: "schedule_lead [?b] = 250800" by (simp add: schedule_lead_def slowest_def)
  have start: "start_time [?b] 250800 = Some 275000"
    by (simp add: start_time_def frame_aligned_def ceil_div_def)
  have pos: "position_at 1000 None 60000000 0 275000 = 1000" by (simp add: position_at_def)
  let ?c = "schedule_command_for 5 275000 Play 1000 rate_NORMAL bench_first bench_report 1"
  have accepted: "fst (schedule_playback 500000 ?c bench_synced) = Inr ()"
    using first_clock_master(1)
    by (simp add: schedule_accepted_iff bench_synced_def bench_board_def schedule_command_for_def
      clock_usable_def clock_of_def sync_command_for_def bench_first_def bench_report_def transport_new_def)
  define st where "st = snd (schedule_playback 500000 ?c bench_synced)"
  have ran: "bench_control (ScheduleCommand ?c) 500000 bench_synced = Some (Inr (), st)"
    using accepted by (cases "schedule_playback 500000 ?c bench_synced")
      (simp add: st_def bench_control_def control_def refused_def)
  have "frame_idle st"
  proof (rule frame_idleI)
    have clock: "controller_clock st = first_clock"
      by (simp add: st_def schedule_playback_def bench_synced_def bench_board_def Let_def split: prod.split)
    with first_clock_master show "local_at (controller_clock st) 0 \<noteq> None" by simp
    show "transport_mode (playback_transport p) = Stopped \<and>
        (\<forall>c. pending (playback_transport p) = Some c \<longrightarrow> master_at (controller_clock st) 500000 < scheduled_at c)"
      if "active st = Some p" for p
      using that accepted unfolding clock first_clock_master
      by (auto simp: st_def schedule_playback_def schedule_def bench_synced_def bench_board_def transport_new_def
        schedule_command_for_def Let_def split: if_splits)
  qed
  then have "net_control bench_net 0 (ScheduleCommand ?c) ?w = (Inr (), bench_end)"
    using idle_request [OF bench_worlds_idle(2), of 0 bench_synced "bench_control (ScheduleCommand ?c)"] ran
    by (simp add: bench_network_def bench_end_def st_def)
  then have "each_binding bench_net (send_schedule bench_net 5 275000 Play 1000 rate_NORMAL)
      [(?b, bench_first, bench_report)] ?w = ([(?b, 1)], Map.empty, bench_end)"
    by (simp add: send_schedule_def bench_report_def checked_add32_def)
  moreover have "net_elapsed bench_net v = (0, v)" if "bench_nanos v = 0" for v
    using that by (simp add: bench_network_def)
  moreover have "bench_nanos bench_end = 0" "bench_nanos ?w = 0" by (simp_all add: bench_end_def bench_start_def)
  ultimately show ?thesis using bench_group_ready
    by (simp add: schedule_group_def lead start pos bench_core_def)
qed

theorem schedule_splits_group_witness:
  "\<exists>g c w. schedule_group bench_net Play 1000 None rate_NORMAL 60000000 0 bench_core bench_start = Some (Inr g, c, w) \<and>
     device_id ` set (core_bindings c) \<union> dom (schedule_failures g) = {10, 12} \<and>
     device_id ` set (core_bindings c) \<inter> dom (schedule_failures g) = {}"
proof -
  obtain g c where s: "schedule_group bench_net Play 1000 None rate_NORMAL 60000000 0 bench_core bench_start =
      Some (Inr g, c, bench_end)"
    using bench_schedules by blast
  have "group_ok (core_bindings bench_core)"
    by (simp add: group_ok_def bench_core_def rate_bounded_def bench_binding_def MAX_RATE_PPB_def)
  from schedule_splits_group [OF s this] s show ?thesis by (auto simp: bench_core_def)
qed

theorem group_starts_together_witness:
  "\<exists>g c p. schedule_group bench_net Play 1000 None rate_NORMAL 60000000 0 bench_core bench_start = Some (Inr g, c, bench_end) \<and>
     map_option active (boards bench_end 0) = Some (Some p) \<and>
     holds_start (start_of 1 275000 Play 1000 rate_NORMAL) (playback_transport p)"
proof -
  obtain g c where s: "schedule_group bench_net Play 1000 None rate_NORMAL 60000000 0 bench_core bench_start =
      Some (Inr g, c, bench_end)"
    and g: "schedule_commands g = [(0, 1)]" "schedule_deadline g = 275000" "schedule_position g = 1000"
    using bench_schedules by blast
  obtain st where st: "boards bench_end 0 = Some st" by (simp add: bench_end_def)
  have "\<exists>p. active st = Some p \<and>
      (let start = start_of 1 275000 Play 1000 rate_NORMAL; t = playback_transport p
       in holds_start start t \<or> made_start start t \<or> at_end (show_duration p) t)"
    using group_starts_together [OF s _ _ st, of 1] g by (simp add: bench_core_def)
  moreover have "transport_mode (playback_transport p) = Stopped" if "active st = Some p" for p
    using that st by (auto simp: bench_end_def schedule_playback_def schedule_def bench_synced_def bench_board_def
      transport_new_def Let_def split: if_splits)
  ultimately show ?thesis using s st
    by (auto simp: made_start_def at_end_def start_of_def mode_from_action_def Let_def)
qed

section \<open>Runs of the service\<close>

interpretation groups: preserved "service_step net" "(core_new clock, w)" "\<lambda>s. group_ok (core_bindings (fst s))"
  for net clock w
  by unfold_locales (simp add: core_new_def group_ok_def, rule service_step_ok)

text \<open>
  C32. Over every run of the service and every network: no two bindings are of one controller,
  and no binding's rate leaves the accepted range.
\<close>

theorem service_keeps_group:
  assumes "run_events (service_step net) requests (core_new clock, w) = Some (c, w')"
  shows "distinct (map device_id (core_bindings c)) \<and>
    (\<forall>b \<in> set (core_bindings c). \<bar>device_rate b\<bar> \<le> MAX_RATE_PPB)"
  using groups.good_reached [OF assms] by (simp add: group_ok_def list_all_iff rate_bounded_def)

definition fresh_boards :: "(nat \<Rightarrow> controller option) \<Rightarrow> bench" where
  "fresh_boards fleet =
     \<lparr>bench_nanos = 0, boards = \<lambda>addr. map_option (\<lambda>st. st\<lparr>controller_clock := clock_new\<rparr>) (fleet addr)\<rparr>"

interpretation bench_run: preserved "service_step (bench_network (keeps_clock install) frames origin lag)"
    "(core_new clock, fresh_boards fleet)"
    "\<lambda>s. group_ok (core_bindings (fst s)) \<and> boards_ok (snd s)"
  for install frames origin lag clock fleet
proof unfold_locales
  show "group_ok (core_bindings (fst (core_new clock, fresh_boards fleet))) \<and>
      boards_ok (snd (core_new clock, fresh_boards fleet))"
    by (auto simp: core_new_def group_ok_def fresh_boards_def boards_ok_def clock_bounded_def clock_new_def
      MAX_RATE_PPB_def)
qed (auto dest: service_step_ok bench.service_holds)

text \<open>
  C7. The firmware accepts a rate with which its clock divides by zero, but no desktop sends it:
  on controllers that boot with a fresh clock, whatever the desktop's service is asked to do and
  in whatever order, no controller's clock ever fails to convert a master time, and its estimate
  of the master clock never runs backwards.
\<close>

theorem desktop_never_stops_a_clock:
  assumes "run_events (service_step (bench_network (keeps_clock install) frames origin lag)) requests
      (core_new clock, fresh_boards fleet) = Some (c, w)"
    and "boards w addr = Some st"
  shows "(\<forall>master. local_at (controller_clock st) master \<noteq> None) \<and>
    (\<forall>earlier later. earlier \<le> later \<longrightarrow>
       master_at (controller_clock st) earlier \<le> master_at (controller_clock st) later)"
proof -
  have "\<bar>rate_ppb (controller_clock st)\<bar> \<le> 200000"
    using bench_run.good_reached [OF assms(1)] assms(2)
    by (auto simp: boards_ok_def clock_bounded_def MAX_RATE_PPB_def)
  then show ?thesis using master_at_mono [of "controller_clock st"] by (auto simp: local_at_def Let_def)
qed

definition wanted_board :: "unit wanted_device" where
  "wanted_board = \<lparr>wanted_id = 10, wanted_address = 0, wanted_ports = ()\<rparr>"

definition quiet_board :: controller where
  "quiet_board = \<lparr>boot_id = 7, controller_clock = clock_new, active = None\<rparr>"

lemma bench_binds:
  obtains c w st where "run_events (service_step bench_net) [SyncDevices 1 [wanted_board] :: (unit, unit) device_request]
      (core_new 5, fresh_boards [0 \<mapsto> quiet_board]) = Some (c, w)"
    "core_bindings c \<noteq> []" "boards w 0 = Some st"
proof -
  let ?w = "fresh_boards [0 \<mapsto> quiet_board]"
  let ?b = "\<lparr>device_id = 10, device_address = 0, device_ports = (), prepared = None, uploaded = None,
    last_sample = None, device_rate = 0, uncertainty = None, device_error = None\<rparr> :: (unit, unit) binding"
  let ?st = "quiet_board\<lparr>controller_clock := clock_of (sync_command_for 5 0 bench_first) 15500000\<rparr>"
  have idle: "bench_idle ?w" "frame_idle quiet_board" "frame_idle ?st"
    using first_clock_master by (auto simp: bench_idle_def fresh_boards_def quiet_board_def clock_new_def
        local_at_def Let_def intro!: frame_idleI split: if_splits)
  have synced: "synchronize bench_net 5 ?b ?w =
      (Inr (), ?b\<lparr>last_sample := Some bench_first, uncertainty := Some 100\<rparr>, ?w\<lparr>boards := (boards ?w)(0 \<mapsto> ?st)\<rparr>)"
    using bench_synchronizes [of ?w quiet_board ?b] idle
    by (simp add: fresh_boards_def quiet_board_def clock_new_def)
  have "bench_transport None 500000 quiet_board = Some (Inr None, quiet_board)"
    by (simp add: bench_transport_def transport_service_def quiet_board_def refused_def)
  then have "net_transport bench_net 0 None ?w = (Inr None, ?w)"
    using idle_request [OF idle(1), of 0 quiet_board "bench_transport None"] idle(2)
    by (simp add: bench_network_def fresh_boards_def quiet_board_def fun_upd_idem_iff)
  then have stopped: "stop_loaded bench_net 0 ?w = (Inr (), ?w)" by (simp add: stop_loaded_def)
  have connected: "net_connect bench_net 0 ?w = (Inr (), ?w)" by (simp add: bench_network_def)
  show ?thesis
    by (rule that [where st = ?st], simp add: service_step_def sync_group_def core_new_def bind_device_def
      wanted_board_def stopped connected synced) simp_all
qed

theorem service_keeps_group_witness:
  "\<exists>c w. run_events (service_step bench_net) [SyncDevices 1 [wanted_board] :: (unit, unit) device_request]
      (core_new 5, fresh_boards [0 \<mapsto> quiet_board]) = Some (c, w) \<and>
     core_bindings c \<noteq> [] \<and> (\<forall>b \<in> set (core_bindings c). \<bar>device_rate b\<bar> \<le> MAX_RATE_PPB)"
proof -
  obtain c w st where run: "run_events (service_step bench_net) [SyncDevices 1 [wanted_board] :: (unit, unit) device_request]
      (core_new 5, fresh_boards [0 \<mapsto> quiet_board]) = Some (c, w)"
    and "core_bindings c \<noteq> []" "boards w 0 = Some st"
    by (rule bench_binds)
  then show ?thesis using service_keeps_group [OF run] run by blast
qed

theorem desktop_never_stops_a_clock_witness:
  "\<exists>c w st. run_events (service_step bench_net) [SyncDevices 1 [wanted_board] :: (unit, unit) device_request]
      (core_new 5, fresh_boards [0 \<mapsto> quiet_board]) = Some (c, w) \<and> boards w 0 = Some st \<and>
     local_at (controller_clock st) 2000000 \<noteq> None"
proof -
  have "keeps_clock (\<lambda>bytes st. st) = (\<lambda>bytes st. st)" by (simp add: keeps_clock_def fun_eq_iff)
  then have net: "bench_net = bench_network (keeps_clock (\<lambda>bytes st. st)) bench_frames (\<lambda>addr. 500000) 0" by simp
  obtain c w st where run: "run_events (service_step bench_net) [SyncDevices 1 [wanted_board] :: (unit, unit) device_request]
      (core_new 5, fresh_boards [0 \<mapsto> quiet_board]) = Some (c, w)" "boards w 0 = Some st"
    by (rule bench_binds)
  from desktop_never_stops_a_clock [OF run(1) [unfolded net] run(2)] run show ?thesis by blast
qed

end
