(* ===== verification/Sampling.thy ===== *)
theory Sampling
  imports Bytecode "HOL-Library.Signed_Division"
begin

unbundle bit_operations_syntax

text \<open>
  The arithmetic programs run, \<open>crates/donder-runtime-types/src/sampling.rs\<close>, and the mark
  queries of \<open>values.rs\<close>: integer operators, curve sampling, areas and crossings, gradients, hues,
  and the search for a mark from a cursor.

  Comparisons, signs and bits of floats are those of the bit patterns in \<open>Values\<close>. The rounding
  operations are not: the hardware's sums and products, and the functions of the crates \<open>libm\<close> and
  \<open>micromath\<close>, are the fields of \<open>arith\<close>, an argument of every definition that uses one.
  Indexing past the end of a slice, which panics, is \<open>None\<close>.
\<close>

type_synonym i32 = "32 word"

record arith =
  add :: "f32 \<Rightarrow> f32 \<Rightarrow> f32"
  subtract :: "f32 \<Rightarrow> f32 \<Rightarrow> f32"
  multiply :: "f32 \<Rightarrow> f32 \<Rightarrow> f32"
  divide_by :: "f32 \<Rightarrow> f32 \<Rightarrow> f32"
  modulo_by :: "f32 \<Rightarrow> f32 \<Rightarrow> f32"
  of_i32 :: "i32 \<Rightarrow> f32"
  of_u32 :: "u32 \<Rightarrow> f32"
  to_i32 :: "f32 \<Rightarrow> i32"
  to_u32 :: "f32 \<Rightarrow> u32"
  libm_floor :: "f32 \<Rightarrow> f32"
  libm_ceil :: "f32 \<Rightarrow> f32"
  libm_trunc :: "f32 \<Rightarrow> f32"
  libm_sqrt :: "f32 \<Rightarrow> f32"
  libm_cbrt :: "f32 \<Rightarrow> f32"
  libm_exp :: "f32 \<Rightarrow> f32"
  libm_log :: "f32 \<Rightarrow> f32"
  libm_atan2 :: "f32 \<Rightarrow> f32 \<Rightarrow> f32"
  libm_pow :: "f32 \<Rightarrow> f32 \<Rightarrow> f32"
  fast_sin :: "f32 \<Rightarrow> f32"
  fast_cos :: "f32 \<Rightarrow> f32"
  fast_tan :: "f32 \<Rightarrow> f32"

section \<open>Scalars\<close>

definition f32_nan :: f32 where "f32_nan = 0x7fc00000"

definition negate :: "f32 \<Rightarrow> f32" where "negate v = v XOR 0x80000000"

definition value_or :: "f32 \<Rightarrow> f32 \<Rightarrow> f32" where
  "value_or left right = (if f32_is_nan left then right else left)"

definition min_float :: "f32 \<Rightarrow> f32 \<Rightarrow> f32" where
  "min_float left right = (if f32_lt left right then left else right)"

definition max_float :: "f32 \<Rightarrow> f32 \<Rightarrow> f32" where
  "max_float left right = (if f32_lt right left then left else right)"

definition clamp_float :: "f32 \<Rightarrow> f32 \<Rightarrow> f32 \<Rightarrow> f32" where
  "clamp_float v low high = min_float (max_float v low) high"

text \<open>\<open>f32::min\<close> and \<open>f32::max\<close> of the standard library: a NaN loses.\<close>

definition std_min :: "f32 \<Rightarrow> f32 \<Rightarrow> f32" where
  "std_min a b = (if f32_is_nan a then b else if f32_is_nan b then a else if f32_le a b then a else b)"

definition std_max :: "f32 \<Rightarrow> f32 \<Rightarrow> f32" where
  "std_max a b = (if f32_is_nan a then b else if f32_is_nan b then a else if f32_le b a then a else b)"

definition wrapping_div :: "i32 \<Rightarrow> i32 \<Rightarrow> i32" where
  "wrapping_div a b = word_of_int (sint a sdiv sint b)"

definition wrapping_rem :: "i32 \<Rightarrow> i32 \<Rightarrow> i32" where
  "wrapping_rem a b = word_of_int (sint a smod sint b)"

definition int_floor_divide :: "i32 \<Rightarrow> i32 \<Rightarrow> i32" where
  "int_floor_divide v divisor =
     (if divisor = 0 then 0
      else let q = wrapping_div v divisor
        in if wrapping_rem v divisor \<noteq> 0 \<and> (sint v < 0) \<noteq> (sint divisor < 0) then q - 1 else q)"

definition int_remainder :: "i32 \<Rightarrow> i32 \<Rightarrow> i32" where
  "int_remainder v divisor =
     (if divisor = 0 then 0
      else let r = wrapping_rem v divisor
        in if r \<noteq> 0 \<and> (sint r < 0) \<noteq> (sint divisor < 0) then r + divisor else r)"

definition int_min :: "i32 \<Rightarrow> i32 \<Rightarrow> i32" where
  "int_min a b = (if sint b < sint a then b else a)"

definition int_max :: "i32 \<Rightarrow> i32 \<Rightarrow> i32" where
  "int_max a b = (if sint b < sint a then a else b)"

definition int_binary :: "int_binary \<Rightarrow> i32 \<Rightarrow> i32 \<Rightarrow> i32" where
  "int_binary op left right =
     (case op of
        IAdd \<Rightarrow> left + right
      | ISubtract \<Rightarrow> left - right
      | IMultiply \<Rightarrow> left * right
      | IRemainder \<Rightarrow> int_remainder left right
      | IFloorDivide \<Rightarrow> int_floor_divide left right
      | IMin \<Rightarrow> int_min left right
      | IMax \<Rightarrow> int_max left right)"

definition float_remainder :: "arith \<Rightarrow> f32 \<Rightarrow> f32 \<Rightarrow> f32" where
  "float_remainder ar v divisor =
     (let r = modulo_by ar v divisor
      in if \<not> f32_eq r 0 \<and> f32_lt r 0 \<noteq> f32_lt divisor 0 then add ar r divisor else r)"

definition smoothstep :: "arith \<Rightarrow> f32 \<Rightarrow> f32" where
  "smoothstep ar v =
     (let t = clamp_float v 0 f32_one
      in multiply ar (multiply ar t t) (subtract ar 0x40400000 (multiply ar 0x40000000 t)))"

definition deterministic_random_seed :: "arith \<Rightarrow> f32 \<Rightarrow> f32" where
  "deterministic_random_seed ar seed =
     (let v = seed;
          v = v XOR drop_bit 16 v;
          v = v * 0x85ebca6b;
          v = v XOR drop_bit 13 v;
          v = v * 0xc2b2ae35;
          v = v XOR drop_bit 16 v
      in multiply ar (of_u32 ar (drop_bit 8 v)) 0x33800000)"

definition float_unary :: "arith \<Rightarrow> float_unary \<Rightarrow> f32 \<Rightarrow> f32" where
  "float_unary ar op v =
     (case op of
        FNegate \<Rightarrow> negate v
      | FSmoothstep \<Rightarrow> smoothstep ar v
      | FRand \<Rightarrow> deterministic_random_seed ar v
      | FSin \<Rightarrow> fast_sin ar v
      | FCos \<Rightarrow> fast_cos ar v
      | FTan \<Rightarrow> fast_tan ar v
      | FExp \<Rightarrow> libm_exp ar v
      | FLog \<Rightarrow> libm_log ar v
      | FAbs \<Rightarrow> f32_magnitude v
      | FFloor \<Rightarrow> libm_floor ar v
      | FCeil \<Rightarrow> libm_ceil ar v
      | FTrunc \<Rightarrow> libm_trunc ar v
      | FSqrt \<Rightarrow> libm_sqrt ar v)"

definition float_binary :: "arith \<Rightarrow> float_binary \<Rightarrow> f32 \<Rightarrow> f32 \<Rightarrow> f32" where
  "float_binary ar op left right =
     (case op of
        FAdd \<Rightarrow> add ar left right
      | FSubtract \<Rightarrow> subtract ar left right
      | FMultiply \<Rightarrow> multiply ar left right
      | FDivide \<Rightarrow> divide_by ar left right
      | FRemainder \<Rightarrow> float_remainder ar left right
      | FValueOr \<Rightarrow> value_or left right
      | FMin \<Rightarrow> min_float left right
      | FMax \<Rightarrow> max_float left right
      | FAtan2 \<Rightarrow> libm_atan2 ar left right
      | FPower \<Rightarrow> libm_pow ar left right)"

text \<open>\<open>index.max(0) as usize\<close>, at most the last index; the length is not zero.\<close>

definition clamp_array_index :: "i32 \<Rightarrow> nat \<Rightarrow> nat" where
  "clamp_array_index index nonempty_length = min (nat (sint index)) (nonempty_length - 1)"

section \<open>Curves\<close>

definition segment_slope :: "arith \<Rightarrow> curve_point \<Rightarrow> curve_point \<Rightarrow> f32" where
  "segment_slope ar start finish =
     divide_by ar (subtract ar (point_value finish) (point_value start))
       (subtract ar (point_position finish) (point_position start))"

text \<open>The slopes written over a buffer; what lies past the points keeps its value.\<close>

definition curve_slopes :: "arith \<Rightarrow> curve \<Rightarrow> f32 list \<Rightarrow> f32 list option" where
  "curve_slopes ar points slopes =
     (case slopes of
        [] \<Rightarrow> None
      | _ \<Rightarrow> Some (map (\<lambda>i. if i = 0 then 0
            else if i < length points then segment_slope ar (points ! (i - 1)) (points ! i)
            else slopes ! i) [0..<length slopes]))"

definition sample_curve_sloped :: "arith \<Rightarrow> curve \<Rightarrow> (nat \<Rightarrow> f32 option) \<Rightarrow> f32 \<Rightarrow> f32 option" where
  "sample_curve_sloped ar points slope pos =
     (case points of
        [] \<Rightarrow> None
      | first # _ \<Rightarrow>
          if length points = 1 \<or> f32_lt pos (point_position first) then Some (point_value first)
          else if f32_le (point_position (last points)) pos then Some (point_value (last points))
          else
            let index = 1 + partition_point (\<lambda>p. f32_le (point_position p) pos) (tl (butlast points));
                previous = points ! (index - 1)
            in do { s \<leftarrow> slope index;
                    Some (add ar (point_value previous)
                      (multiply ar (subtract ar pos (point_position previous)) s)) })"

definition sample_curve_points :: "arith \<Rightarrow> curve \<Rightarrow> f32 \<Rightarrow> f32 option" where
  "sample_curve_points ar points pos =
     sample_curve_sloped ar points
       (\<lambda>index. do { a \<leftarrow> nth_opt points (index - 1); b \<leftarrow> nth_opt points index;
                     Some (segment_slope ar a b) }) pos"

definition sample_curve :: "arith \<Rightarrow> curve \<Rightarrow> f32 \<Rightarrow> f32 option" where
  "sample_curve ar curve pos =
     (if curve = [] then Some f32_nan else sample_curve_points ar curve pos)"

text \<open>The area of a segment, and of the part of it before a position.\<close>

definition whole_area :: "arith \<Rightarrow> curve_point \<Rightarrow> curve_point \<Rightarrow> f32" where
  "whole_area ar start finish =
     multiply ar (multiply ar (subtract ar (point_position finish) (point_position start))
       (add ar (point_value start) (point_value finish))) 0x3f000000"

definition part_area :: "arith \<Rightarrow> f32 \<Rightarrow> curve_point \<Rightarrow> curve_point \<Rightarrow> f32" where
  "part_area ar pos start finish =
     (let fraction = divide_by ar (subtract ar pos (point_position start))
            (subtract ar (point_position finish) (point_position start));
          v = add ar (point_value start)
            (multiply ar (subtract ar (point_value finish) (point_value start)) fraction)
      in multiply ar (multiply ar (subtract ar pos (point_position start))
           (add ar (point_value start) v)) 0x3f000000)"

fun area_walk :: "arith \<Rightarrow> f32 \<Rightarrow> f32 \<Rightarrow> curve \<Rightarrow> f32 option" where
  "area_walk ar pos area (start # finish # rest) =
     (if f32_lt pos (point_position finish) then Some (add ar area (part_area ar pos start finish))
      else area_walk ar pos (add ar area (whole_area ar start finish)) (finish # rest))"
| "area_walk ar pos area [final] =
     Some (add ar area (multiply ar (subtract ar pos (point_position final)) (point_value final)))"
| "area_walk ar pos area [] = None"

definition curve_area_from_start :: "arith \<Rightarrow> curve \<Rightarrow> f32 \<Rightarrow> f32 option" where
  "curve_area_from_start ar points pos =
     (case points of
        [] \<Rightarrow> None
      | first # _ \<Rightarrow>
          if f32_le pos (point_position first)
          then Some (multiply ar (subtract ar pos (point_position first)) (point_value first))
          else area_walk ar pos 0 points)"

definition curve_area :: "arith \<Rightarrow> curve \<Rightarrow> f32 \<Rightarrow> f32 \<Rightarrow> f32 option" where
  "curve_area ar points from_pos to_pos =
     do { b \<leftarrow> curve_area_from_start ar points to_pos;
          a \<leftarrow> curve_area_from_start ar points from_pos;
          Some (subtract ar b a) }"

definition curve_integral :: "arith \<Rightarrow> curve \<Rightarrow> f32 \<Rightarrow> f32 option" where
  "curve_integral ar points pos = curve_area ar points 0 pos"

text \<open>The prefix areas of a buffer's first entries; the buffer holds one per point.\<close>

fun prefix_areas :: "arith \<Rightarrow> f32 \<Rightarrow> curve \<Rightarrow> f32 list" where
  "prefix_areas ar area (start # finish # rest) =
     area # prefix_areas ar (add ar area (whole_area ar start finish)) (finish # rest)"
| "prefix_areas ar area [final] = [area]"
| "prefix_areas ar area [] = []"

definition curve_prefix_areas :: "arith \<Rightarrow> curve \<Rightarrow> f32 list \<Rightarrow> f32 list" where
  "curve_prefix_areas ar points areas =
     take (length areas) (prefix_areas ar 0 points) @ drop (length points) areas"

definition area_from_start_table :: "arith \<Rightarrow> curve \<Rightarrow> f32 list \<Rightarrow> f32 \<Rightarrow> f32 option" where
  "area_from_start_table ar points areas pos =
     (case points of
        [] \<Rightarrow> None
      | first # others \<Rightarrow>
          if f32_le pos (point_position first)
          then Some (multiply ar (subtract ar pos (point_position first)) (point_value first))
          else
            let segment = partition_point (\<lambda>p. f32_le (point_position p) pos) others
            in case nth_opt points (segment + 1) of
                 Some finish \<Rightarrow>
                   do { start \<leftarrow> nth_opt points segment; area \<leftarrow> nth_opt areas segment;
                        Some (add ar area (part_area ar pos start finish)) }
               | None \<Rightarrow>
                   let final = last points
                   in do { area \<leftarrow> nth_opt areas (length points - 1);
                           Some (add ar area
                             (multiply ar (subtract ar pos (point_position final)) (point_value final))) })"

definition curve_integral_table :: "arith \<Rightarrow> curve \<Rightarrow> f32 list \<Rightarrow> f32 \<Rightarrow> f32 option" where
  "curve_integral_table ar points areas pos =
     do { b \<leftarrow> area_from_start_table ar points areas pos;
          a \<leftarrow> area_from_start_table ar points areas 0;
          Some (subtract ar b a) }"

text \<open>The first crossing walks the segments in order, the last one from the end.\<close>

fun first_crossing_walk :: "arith \<Rightarrow> f32 \<Rightarrow> curve \<Rightarrow> f32" where
  "first_crossing_walk ar v (start # finish # rest) =
     (if f32_le (std_min (point_value start) (point_value finish)) v \<and>
         f32_le v (std_max (point_value start) (point_value finish))
      then let span = subtract ar (point_value finish) (point_value start)
        in if f32_eq span 0 then point_position start
           else add ar (point_position start)
             (divide_by ar (multiply ar (subtract ar (point_position finish) (point_position start))
                (subtract ar v (point_value start))) span)
      else first_crossing_walk ar v (finish # rest))"
| "first_crossing_walk ar v _ = f32_nan"

definition curve_first_crossing :: "arith \<Rightarrow> curve \<Rightarrow> f32 \<Rightarrow> f32" where
  "curve_first_crossing ar points v =
     (case points of
        [point] \<Rightarrow> if f32_eq (point_value point) v then point_position point else f32_nan
      | _ \<Rightarrow> first_crossing_walk ar v points)"

definition arrival :: "arith \<Rightarrow> f32 \<Rightarrow> f32 \<Rightarrow> curve_point \<times> curve_point \<Rightarrow> f32 option" where
  "arrival ar v before pair =
     (let start = fst pair; finish = snd pair
      in if f32_eq v (point_value start) \<or>
            f32_lt v (std_min (point_value start) (point_value finish)) \<or>
            f32_lt (std_max (point_value start) (point_value finish)) v then None
         else if f32_eq (point_position start) (point_position finish) \<and>
                 \<not> f32_eq v (point_value finish) then None
         else
           let pos = (if f32_eq v (point_value finish) then point_position finish
                else add ar (point_position start)
                  (divide_by ar (multiply ar (subtract ar (point_position finish) (point_position start))
                     (subtract ar v (point_value start)))
                   (subtract ar (point_value finish) (point_value start))))
           in if f32_le pos before then Some pos else None)"

fun first_some :: "('a \<Rightarrow> 'b option) \<Rightarrow> 'a list \<Rightarrow> 'b option" where
  "first_some f [] = None"
| "first_some f (x # xs) = (case f x of Some y \<Rightarrow> Some y | None \<Rightarrow> first_some f xs)"

text \<open>\<open>windows(2)\<close>\<close>

definition windows2 :: "'a list \<Rightarrow> ('a \<times> 'a) list" where
  "windows2 xs = zip xs (tl xs)"

definition curve_last_crossing :: "arith \<Rightarrow> curve \<Rightarrow> f32 \<Rightarrow> f32 \<Rightarrow> f32 option" where
  "curve_last_crossing ar points v before =
     (let stop = partition_point (\<lambda>p. f32_le (point_position p) before) points;
          pairs = windows2 (take (min (stop + 1) (length points)) points)
      in case first_some (arrival ar v before) (rev pairs) of
           Some pos \<Rightarrow> Some pos
         | None \<Rightarrow>
             (case points of
                [] \<Rightarrow> None
              | first # _ \<Rightarrow>
                  Some (if f32_eq (point_value first) v \<and> f32_le (point_position first) before
                        then point_position first else f32_nan)))"

section \<open>Colors\<close>

definition per_channel :: "color \<Rightarrow> color \<Rightarrow> (f32 \<Rightarrow> f32 \<Rightarrow> f32) \<Rightarrow> color" where
  "per_channel a b f =
     \<lparr>red = f (red a) (red b), green = f (green a) (green b), blue = f (blue a) (blue b)\<rparr>"

definition mix :: "arith \<Rightarrow> f32 \<Rightarrow> f32 \<Rightarrow> f32 \<Rightarrow> f32" where
  "mix ar t a b = add ar a (multiply ar (subtract ar b a) t)"

definition mix_colors :: "arith \<Rightarrow> color \<Rightarrow> color \<Rightarrow> f32 \<Rightarrow> color" where
  "mix_colors ar left right t = per_channel left right (mix ar t)"

definition scale_color :: "arith \<Rightarrow> color \<Rightarrow> f32 \<Rightarrow> color" where
  "scale_color ar c s =
     \<lparr>red = multiply ar (red c) s, green = multiply ar (green c) s, blue = multiply ar (blue c) s\<rparr>"

definition add_colors :: "arith \<Rightarrow> color \<Rightarrow> color \<Rightarrow> color" where
  "add_colors ar left right = per_channel left right (add ar)"

definition multiply_colors :: "arith \<Rightarrow> color \<Rightarrow> color \<Rightarrow> color" where
  "multiply_colors ar left right = per_channel left right (multiply ar)"

definition max_colors :: "color \<Rightarrow> color \<Rightarrow> color" where
  "max_colors left right = per_channel left right max_float"

definition invert_color :: "arith \<Rightarrow> color \<Rightarrow> color" where
  "invert_color ar c =
     \<lparr>red = subtract ar f32_one (red c), green = subtract ar f32_one (green c),
      blue = subtract ar f32_one (blue c)\<rparr>"

definition brightest :: "color \<Rightarrow> f32" where
  "brightest c = max_float (max_float (red c) (green c)) (blue c)"

definition dimmest :: "color \<Rightarrow> f32" where
  "dimmest c = min_float (min_float (red c) (green c)) (blue c)"

definition color_intensity :: "color \<Rightarrow> f32" where
  "color_intensity c = brightest c"

definition color_hue :: "arith \<Rightarrow> color \<Rightarrow> f32" where
  "color_hue ar c =
     (let high = brightest c; low = dimmest c
      in if f32_eq high low then 0
         else
           let chroma = subtract ar high low;
               sector =
                 (if f32_eq high (red c) then divide_by ar (subtract ar (green c) (blue c)) chroma
                  else if f32_eq high (green c)
                    then add ar (divide_by ar (subtract ar (blue c) (red c)) chroma) 0x40000000
                  else add ar (divide_by ar (subtract ar (red c) (green c)) chroma) 0x40800000);
               hue = multiply ar sector 0x3e2aaaab
           in if f32_lt hue 0 then add ar hue f32_one else hue)"

definition color_saturation :: "arith \<Rightarrow> color \<Rightarrow> f32" where
  "color_saturation ar c =
     (let high = brightest c; low = dimmest c
      in if f32_eq high 0 then 0 else divide_by ar (subtract ar high low) high)"

definition hue_color :: "arith \<Rightarrow> f32 \<Rightarrow> f32 \<Rightarrow> f32 \<Rightarrow> color" where
  "hue_color ar hue chroma low =
     (let sector = multiply ar (subtract ar hue (libm_floor ar hue)) 0x40c00000;
          whole = to_i32 ar sector;
          rise = subtract ar sector (of_i32 ar whole);
          up = multiply ar chroma rise;
          down = multiply ar chroma (subtract ar f32_one rise);
          (r, g, b) =
            (if whole = 0 then (chroma, up, 0)
             else if whole = 1 then (down, chroma, 0)
             else if whole = 2 then (0, chroma, up)
             else if whole = 3 then (0, down, chroma)
             else if whole = 4 then (up, 0, chroma)
             else (chroma, 0, down))
      in \<lparr>red = add ar r low, green = add ar g low, blue = add ar b low\<rparr>)"

definition recolor :: "arith \<Rightarrow> color \<Rightarrow> f32 \<Rightarrow> bool \<Rightarrow> color" where
  "recolor ar c hue shift =
     (let high = brightest c; low = dimmest c;
          hue = (if shift then add ar (color_hue ar c) hue else hue)
      in hue_color ar hue (subtract ar high low) low)"

definition hsv :: "arith \<Rightarrow> f32 \<Rightarrow> f32 \<Rightarrow> f32 \<Rightarrow> color" where
  "hsv ar h s v = (let chroma = multiply ar v s in hue_color ar h chroma (subtract ar v chroma))"

section \<open>Gradients\<close>

definition dot3 :: "arith \<Rightarrow> f32 \<Rightarrow> f32 \<Rightarrow> f32 \<Rightarrow> color \<Rightarrow> f32" where
  "dot3 ar a b c col =
     add ar (add ar (multiply ar a (red col)) (multiply ar b (green col))) (multiply ar c (blue col))"

definition space_encode :: "arith \<Rightarrow> gradient_space \<Rightarrow> color \<Rightarrow> color" where
  "space_encode ar spc c =
     (case spc of
        LinearRgb \<Rightarrow> c
      | Hsv \<Rightarrow> \<lparr>red = color_hue ar c, green = color_saturation ar c, blue = color_intensity c\<rparr>
      | Oklab \<Rightarrow>
          \<lparr>red = libm_cbrt ar (dot3 ar 0x3ed30eb1 0x3f094d17 0x3d52b909 c),
           green = libm_cbrt ar (dot3 ar 0x3e58fd3b 0x3f2e4253 0x3ddbf2f0 c),
           blue = libm_cbrt ar (dot3 ar 0x3db4d7ec 0x3e903d74 0x3f214649 c)\<rparr>)"

definition space_decode :: "arith \<Rightarrow> gradient_space \<Rightarrow> color \<Rightarrow> color" where
  "space_decode ar spc c =
     (case spc of
        LinearRgb \<Rightarrow> c
      | Hsv \<Rightarrow> hsv ar (red c) (green c) (blue c)
      | Oklab \<Rightarrow>
          let cube = (\<lambda>v. multiply ar (multiply ar v v) v);
              l = cube (red c); m = cube (green c); s = cube (blue c)
          in \<lparr>red = add ar (subtract ar (multiply ar 0x408274ab l) (multiply ar 0x4053b18c m))
                      (multiply ar 0x3e6c8362 s),
              green = subtract ar (add ar (multiply ar (negate 0x3fa25c2d) l) (multiply ar 0x40270644 m))
                        (multiply ar 0x3eaec16b s),
              blue = add ar (subtract ar (multiply ar (negate 0x3b897f52) l) (multiply ar 0x3f34133e m))
                       (multiply ar 0x3fda931e s)\<rparr>)"

text \<open>Each value that means nothing takes the one before it that does, or the first that does.\<close>

fun borrow_walk :: "f32 \<Rightarrow> (f32 \<times> bool) list \<Rightarrow> f32 list" where
  "borrow_walk l [] = []"
| "borrow_walk l ((v, valid) # rest) = (if valid then v # borrow_walk v rest else l # borrow_walk l rest)"

definition borrow_from_neighbors :: "f32 list \<Rightarrow> bool list \<Rightarrow> f32 list" where
  "borrow_from_neighbors vs means =
     (case position (\<lambda>valid. valid) means of
        None \<Rightarrow> vs
      | Some first \<Rightarrow> borrow_walk (vs ! first) (zip vs means) @ drop (length means) vs)"

fun unwrap_hues :: "arith \<Rightarrow> f32 \<Rightarrow> (gradient_stop \<times> f32 \<times> f32) list \<Rightarrow> gradient_stop list" where
  "unwrap_hues ar previous [] = []"
| "unwrap_hues ar previous ((stop, hue, saturation) # rest) =
     (let step = subtract ar hue previous;
          previous = add ar previous (subtract ar step (libm_floor ar (add ar step 0x3f000000)))
      in stop\<lparr>stop_color := (stop_color stop)\<lparr>red := previous, green := saturation\<rparr>\<rparr>
           # unwrap_hues ar previous rest)"

definition encode_gradient_stops ::
  "arith \<Rightarrow> gradient_space \<Rightarrow> gradient_stop list \<Rightarrow> gradient_stop list" where
  "encode_gradient_stops ar spc sts =
     (let encoded = map (\<lambda>s. \<lparr>stop_position = stop_position s,
            stop_color = space_encode ar spc (stop_color s)\<rparr>) sts
      in if spc \<noteq> Hsv then encoded
         else
           let saturated = map (\<lambda>s. f32_lt 0 (blue (stop_color s))) encoded;
               hued = map (\<lambda>s. f32_lt 0 (green (stop_color s)) \<and> f32_lt 0 (blue (stop_color s))) encoded;
               hues = borrow_from_neighbors (map (\<lambda>s. red (stop_color s)) encoded) hued;
               saturations = borrow_from_neighbors (map (\<lambda>s. green (stop_color s)) encoded) saturated;
               previous = (case hues of [] \<Rightarrow> 0 | hue # _ \<Rightarrow> hue)
           in unwrap_hues ar previous (zip encoded (zip hues saturations)))"

text \<open>
  A stop of an authored gradient computes one over the width of the span to the next; a bound one
  holds it. \<open>inverse\<close> is the trait's method. The scan for a span, the source's loop over \<open>index\<close>,
  is the walk over what follows it.
\<close>

type_synonym 'a span_inverse = "'a gradient_stop_scheme \<Rightarrow> 'a gradient_stop_scheme \<Rightarrow> f32"

definition stop_inverse :: "arith \<Rightarrow> 'a span_inverse" where
  "stop_inverse ar stop following =
     divide_by ar f32_one (subtract ar (stop_position following) (stop_position stop))"

definition span_color :: "arith \<Rightarrow> 'a span_inverse \<Rightarrow> gradient_space \<Rightarrow> f32 \<Rightarrow>
    'a gradient_stop_scheme \<Rightarrow> 'a gradient_stop_scheme \<Rightarrow> color" where
  "span_color ar span_inv spc pos previous stop =
     space_decode ar spc (mix_colors ar (stop_color previous) (stop_color stop)
       (multiply ar (subtract ar pos (stop_position previous)) (span_inv previous stop)))"

fun span_scan :: "arith \<Rightarrow> 'a span_inverse \<Rightarrow> gradient_space \<Rightarrow> f32 \<Rightarrow>
    'a gradient_stop_scheme \<Rightarrow> 'a gradient_stop_scheme list \<Rightarrow> color option" where
  "span_scan ar span_inv spc pos previous (stop # rest) =
     (if f32_le (stop_position stop) pos then span_scan ar span_inv spc pos stop rest
      else Some (span_color ar span_inv spc pos previous stop))"
| "span_scan ar span_inv spc pos previous [] = None"

definition sample_gradient_stops :: "arith \<Rightarrow> 'a span_inverse \<Rightarrow> gradient_space \<Rightarrow>
    'a gradient_stop_scheme list \<Rightarrow> f32 \<Rightarrow> color option" where
  "sample_gradient_stops ar span_inv spc sts pos =
     (case sts of
        [] \<Rightarrow> None
      | first # rest \<Rightarrow>
          if length sts = 1 \<or> f32_lt pos (stop_position first)
          then Some (space_decode ar spc (stop_color first))
          else if f32_le (stop_position (last sts)) pos
          then Some (space_decode ar spc (stop_color (last sts)))
          else span_scan ar span_inv spc pos first rest)"

definition sample_gradient :: "arith \<Rightarrow> gradient \<Rightarrow> f32 \<Rightarrow> color option" where
  "sample_gradient ar g pos =
     (if stops g = [] then Some black
      else sample_gradient_stops ar (stop_inverse ar) (space g)
             (encode_gradient_stops ar (space g) (stops g)) pos)"

definition gradient_color_scaled :: "arith \<Rightarrow> 'a span_inverse \<Rightarrow> gradient_space \<Rightarrow>
    'a gradient_stop_scheme list \<Rightarrow> f32 \<Rightarrow> f32 \<Rightarrow> color option" where
  "gradient_color_scaled ar span_inv spc sts pos scale =
     map_option (\<lambda>c. scale_color ar c (clamp_float scale 0 f32_one))
       (sample_gradient_stops ar span_inv spc sts pos)"

section \<open>Marks\<close>

definition SECONDS_PER_TICK :: f32 where "SECONDS_PER_TICK = 0x358637bd"

definition seconds_of_ticks :: "arith \<Rightarrow> u32 \<Rightarrow> f32" where
  "seconds_of_ticks ar n = multiply ar (of_u32 ar n) SECONDS_PER_TICK"

definition mark_seconds :: "arith \<Rightarrow> mark_window \<Rightarrow> nat \<Rightarrow> f32" where
  "mark_seconds ar marks index =
     (case nth_opt (ticks marks) index of
        Some mark \<Rightarrow> seconds_of_ticks ar (mark - window_origin marks)
      | None \<Rightarrow> f32_nan)"

text \<open>The index as a \<open>usize\<close>: a negative one is past every mark.\<close>

definition mark_at :: "arith \<Rightarrow> mark_window \<Rightarrow> i32 \<Rightarrow> f32" where
  "mark_at ar marks index = (if sint index < 0 then f32_nan else mark_seconds ar marks (nat (sint index)))"

definition mark_count :: "arith \<Rightarrow> mark_window \<Rightarrow> f32 \<Rightarrow> nat \<Rightarrow> nat" where
  "mark_count ar marks seconds hint =
     (let at = saturating_add32 (window_origin marks) (to_u32 ar (multiply ar seconds 0x49742400));
          fits = (hint \<le> length (ticks marks) \<and> (hint = 0 \<or> ticks marks ! (hint - 1) \<le> at) \<and>
                  (hint = length (ticks marks) \<or> at < ticks marks ! hint))
      in if fits then hint else partition_point (\<lambda>mark. mark \<le> at) (ticks marks))"

definition previous_mark :: "arith \<Rightarrow> mark_window \<Rightarrow> f32 \<Rightarrow> nat \<Rightarrow> (nat \<times> f32) option \<times> nat" where
  "previous_mark ar marks seconds cursor =
     (let count = mark_count ar marks seconds cursor
      in (if count = 0 then None else Some (count - 1, mark_seconds ar marks (count - 1)), count))"

definition previous_mark_index :: "arith \<Rightarrow> mark_window \<Rightarrow> f32 \<Rightarrow> nat \<Rightarrow> i32 \<times> nat" where
  "previous_mark_index ar marks seconds cursor =
     (let (found, cursor) = previous_mark ar marks seconds cursor
      in (case found of None \<Rightarrow> - 1 | Some (index, _) \<Rightarrow> of_nat index, cursor))"

definition previous_mark_time :: "arith \<Rightarrow> mark_window \<Rightarrow> f32 \<Rightarrow> nat \<Rightarrow> f32 \<times> nat" where
  "previous_mark_time ar marks seconds cursor =
     (let (found, cursor) = previous_mark ar marks seconds cursor
      in (case found of None \<Rightarrow> f32_nan | Some (_, time) \<Rightarrow> time, cursor))"

end
