(* ===== verification/SamplingLaws.thy ===== *)
theory SamplingLaws
  imports Sampling ValueLaws
begin

text \<open>
  What \<open>Sampling\<close> promises: floored integer division at 32 bits, the tables of a curve against
  the walks they replace, the search for a mark from any cursor, and gradients that always sample.
\<close>

section \<open>Floored division\<close>

lemma smod_zero: "b \<noteq> 0 \<Longrightarrow> a smod b = 0 \<longleftrightarrow> b dvd a" for a b :: int
  by (auto simp: signed_modulo_int_def sgn_if dvd_eq_mod_eq_0 [symmetric])

lemma smod_sign: "b \<noteq> 0 \<Longrightarrow> a smod b \<noteq> 0 \<Longrightarrow> a smod b < 0 \<longleftrightarrow> a < 0" for a b :: int
  using smod_int_compares [of a b] by (cases "a < 0"; cases "b < 0") auto

lemma floor_div_of_truncated:
  fixes a b :: int
  assumes "b \<noteq> 0"
  shows "a div b = (if a smod b \<noteq> 0 \<and> (a < 0) \<noteq> (b < 0) then a sdiv b - 1 else a sdiv b)"
    and "a mod b = (if a smod b \<noteq> 0 \<and> (a < 0) \<noteq> (b < 0) then a smod b + b else a smod b)"
  using assms smod_zero [OF assms, of a]
  by (auto simp: divide_int_eq_signed_divide_int modulo_int_eq_signed_modulo_int sgn_if
      dvd_def split: if_splits)

lemma sint_range: "- (2 ^ 31) \<le> sint v" "sint v < 2 ^ 31" for v :: i32
  using sint_greater_eq [of v] sint_lt [of v] by simp_all

lemma small_sint: "- (2 ^ 31) \<le> k \<Longrightarrow> k < 2 ^ 31 \<Longrightarrow> sint (word_of_int k :: i32) = k"
  by (simp add: sint_sbintrunc' signed_take_bit_int_eq_self)

lemma sint_zero_iff: "sint v = 0 \<longleftrightarrow> v = 0" for v :: i32
  by (metis sint_0 signed_word_eqI)

lemma sint_wrapping_rem: "d \<noteq> 0 \<Longrightarrow> sint (wrapping_rem v d) = sint v smod sint d"
proof -
  assume "d \<noteq> 0"
  then have "sint d \<noteq> 0" by (simp only: sint_zero_iff not_False_eq_True)
  then have "sint v smod sint d \<in> {- \<bar>sint d\<bar> + 1..\<bar>sint d\<bar> - 1}" by (rule smod_int_range)
  then show ?thesis using sint_range [of d]
    unfolding wrapping_rem_def by (intro small_sint) auto
qed

lemma wrapping_rem_zero: "d \<noteq> 0 \<Longrightarrow> wrapping_rem v d = 0 \<longleftrightarrow> sint v smod sint d = 0"
  by (metis sint_wrapping_rem sint_zero_iff)

lemma int_floor_divide_floor:
  "int_floor_divide v d = (if d = 0 then 0 else word_of_int (sint v div sint d))"
proof (cases "d = 0")
  case False
  then have d: "sint d \<noteq> 0" by (simp only: sint_zero_iff not_False_eq_True)
  then show ?thesis using False wrapping_rem_zero [OF False, of v]
    by (simp add: int_floor_divide_def floor_div_of_truncated(1) [OF d] wrapping_div_def Let_def)
qed (simp add: int_floor_divide_def)

lemma int_remainder_floor:
  "int_remainder v d = (if d = 0 then 0 else word_of_int (sint v mod sint d))"
proof (cases "d = 0")
  case False
  then have d: "sint d \<noteq> 0" by (simp only: sint_zero_iff not_False_eq_True)
  have "word_of_int (sint v smod sint d + sint d) = wrapping_rem v d + d"
    by (simp add: wrapping_rem_def)
  then show ?thesis
    using False wrapping_rem_zero [OF False, of v] sint_wrapping_rem [OF False, of v]
      smod_sign [OF d, of "sint v"]
    by (auto simp: int_remainder_def floor_div_of_truncated(2) [OF d] Let_def wrapping_rem_def)
qed (simp add: int_remainder_def)

text \<open>The quotient and remainder go together at every pair, the overflowing one included.\<close>

lemma quotient_and_remainder: "d \<noteq> 0 \<Longrightarrow> int_floor_divide v d * d + int_remainder v d = v"
proof -
  assume d: "d \<noteq> 0"
  have "int_floor_divide v d * d + int_remainder v d =
      word_of_int (sint v div sint d) * word_of_int (sint d) + word_of_int (sint v mod sint d)"
    using d by (simp add: int_floor_divide_floor int_remainder_floor)
  also have "\<dots> = word_of_int (sint v div sint d * sint d + sint v mod sint d)" by (simp only: wi_hom_syms)
  finally show ?thesis by simp
qed

lemma sint_remainder:
  assumes "d \<noteq> 0"
  shows "sint (int_remainder v d) = sint v mod sint d"
proof -
  have "sint d \<noteq> 0" using assms by (simp only: sint_zero_iff not_False_eq_True)
  then have "\<bar>sint v mod sint d\<bar> < \<bar>sint d\<bar>" by (rule abs_mod_less)
  then show ?thesis using assms sint_range [of d] by (simp add: int_remainder_floor small_sint)
qed

lemma sint_floor_divide:
  assumes "d \<noteq> 0" "\<not> (v = 0x80000000 \<and> d = - 1)"
  shows "sint (int_floor_divide v d) = sint v div sint d"
proof -
  let ?q = "sint v div sint d"
  have d: "sint d \<noteq> 0" using assms(1) by (simp only: sint_zero_iff not_False_eq_True)
  have split: "sint v = sint d * ?q + sint v mod sint d" by simp
  have le: "- (2 ^ 31) \<le> ?q"
  proof (cases "sint d > 0")
    case True
    have "- (2 ^ 31) div sint d \<le> ?q" using True sint_range [of v] by (intro zdiv_mono1) auto
    moreover have "- (2 ^ 31) \<le> - (2 ^ 31) div sint d" using True zdiv_mono2_neg [of "- (2 ^ 31)" 1 "sint d"] by simp
    ultimately show ?thesis by linarith
  next
    case False
    then have n: "sint d < 0" using d by linarith
    have "?q = (- sint v) div (- sint d)" by simp
    moreover have "- (2 ^ 31) div (- sint d) \<le> (- sint v) div (- sint d)" using n sint_range [of v] by (intro zdiv_mono1) auto
    moreover have "- (2 ^ 31) \<le> - (2 ^ 31) div (- sint d)" using n zdiv_mono2_neg [of "- (2 ^ 31)" 1 "- sint d"] by simp
    ultimately show ?thesis by linarith
  qed
  have "?q < 2 ^ 31"
  proof (cases "sint d > 0")
    case True
    have "?q \<le> sint v \<or> sint v < 0"
      using True zdiv_mono2 [of "sint v" 1 "sint d"] by auto
    moreover have "?q < 0" if "sint v < 0" using True that by (simp add: neg_imp_zdiv_neg_iff pos_imp_zdiv_neg_iff)
    ultimately show ?thesis using sint_range [of v] by auto
  next
    case False
    then have n: "sint d < 0" using d by linarith
    show ?thesis
    proof (cases "sint d = - 1")
      case True
      then have "sint d = sint (- 1 :: i32)" by simp
      then have "d = - 1" by (rule signed_word_eqI)
      then have "sint v \<noteq> sint (0x80000000 :: i32)" using assms(2) signed_word_eqI by metis
      then have "sint v \<noteq> - (2 ^ 31)" by simp
      then show ?thesis using True sint_range [of v] by simp
    next
      case False
      then have two: "sint d \<le> - 2" using n by linarith
      have "?q = (- sint v) div (- sint d)" by simp
      moreover have "(- sint v) div (- sint d) \<le> 2 ^ 31 div (- sint d)" using n sint_range [of v] by (intro zdiv_mono1) auto
      moreover have "2 ^ 31 div (- sint d) \<le> 2 ^ 31 div 2" using two by (intro zdiv_mono2) auto
      ultimately show ?thesis by simp
    qed
  qed
  then show ?thesis using assms(1) le by (simp add: int_floor_divide_floor small_sint)
qed

text \<open>
  C36. Integer division rounds towards minus infinity and the remainder takes the sign of the divisor, at
  every pair of words whose quotient fits; at the one that overflows too, quotient and remainder
  still make up the dividend.
\<close>

theorem floor_divide_remainder:
  assumes "d \<noteq> 0"
  shows "int_floor_divide v d * d + int_remainder v d = v \<and>
    sint (int_remainder v d) = sint v mod sint d \<and>
    (v = 0x80000000 \<and> d = - 1 \<or> sint (int_floor_divide v d) = sint v div sint d)"
  using quotient_and_remainder [OF assms] sint_remainder [OF assms] sint_floor_divide [OF assms]
  by blast

lemma floor_divide_remainder_witness:
  "(- 3 :: i32) \<noteq> 0 \<and> sint (int_floor_divide 7 (- 3)) = - 3 \<and> sint (int_remainder 7 (- 3)) = - 2"
  using floor_divide_remainder [of "- 3" 7] by simp

section \<open>Curve tables\<close>

definition rising :: "curve \<Rightarrow> bool" where
  "rising points \<longleftrightarrow> sorted_wrt (\<lambda>p q. f32_le (point_position p) (point_position q)) points
     \<and> (\<forall>p \<in> set points. \<not> f32_is_nan (point_position p))"

lemma not_le_lt: "\<not> f32_is_nan a \<Longrightarrow> \<not> f32_is_nan b \<Longrightarrow> \<not> f32_le a b \<longleftrightarrow> f32_lt b a"
  by (auto simp: f32_le_def f32_lt_def)

lemma validated_points_rising:
  "validate_points previous points = None \<Longrightarrow> \<not> f32_is_nan previous \<Longrightarrow>
    rising points \<and> (\<forall>p \<in> set points. f32_le previous (point_position p))"
proof (induction points arbitrary: previous)
  case Nil
  then show ?case by (simp add: rising_def)
next
  case (Cons p ps)
  have nan: "\<not> f32_is_nan (point_position p)" using Cons.prems
    by (auto simp: f32_is_finite_def f32_is_nan_def split: if_splits)
  moreover have "f32_le previous (point_position p)" using Cons.prems nan
    using not_le_lt [of previous "point_position p"] by (auto split: if_splits)
  moreover have "rising ps \<and> (\<forall>q \<in> set ps. f32_le (point_position p) (point_position q))"
    using Cons.IH [of "point_position p"] Cons.prems nan by (auto split: if_splits)
  ultimately show ?case by (auto simp: rising_def intro: f32_le_trans)
qed

lemma validated_curve_rising: "curve_validate points = None \<Longrightarrow> rising points"
proof (cases points)
  case (Cons p ps)
  assume "curve_validate points = None"
  then have v: "validate_points (point_position p) ps = None" and fin: "f32_is_finite (point_position p)"
    using Cons by (auto simp: curve_validate_def split: if_splits)
  then have "\<not> f32_is_nan (point_position p)" by (auto simp: f32_is_finite_def f32_is_nan_def)
  with validated_points_rising [OF v this] show ?thesis by (simp add: rising_def Cons)
qed (simp add: rising_def)

text \<open>The walk over the segments, from the segment the search finds.\<close>

lemma length_prefix_areas [simp]: "length (prefix_areas ar area points) = length points"
  by (induction ar area points rule: prefix_areas.induct) simp_all

lemma area_walk_table:
  assumes "rising (p # ps)" "\<not> f32_is_nan pos"
  defines "segment \<equiv> partition_point (\<lambda>q. f32_le (point_position q) pos) ps"
  shows "area_walk ar pos area (p # ps) =
    (case nth_opt (p # ps) (segment + 1) of
       Some finish \<Rightarrow> Some (add ar (prefix_areas ar area (p # ps) ! segment)
          (part_area ar pos ((p # ps) ! segment) finish))
     | None \<Rightarrow> Some (add ar (prefix_areas ar area (p # ps) ! length ps)
          (multiply ar (subtract ar pos (point_position (last (p # ps)))) (point_value (last (p # ps))))))"
  using assms(1) unfolding segment_def
proof (induction ps arbitrary: p area)
  case Nil
  then show ?case by (simp add: nth_opt_def partition_point_def)
next
  case (Cons q qs)
  have nan: "\<not> f32_is_nan (point_position q)" and later: "rising (q # qs)"
    using Cons.prems by (auto simp: rising_def)
  show ?case
  proof (cases "f32_le (point_position q) pos")
    case True
    then have "\<not> f32_lt pos (point_position q)" using nan assms(2) not_le_lt by blast
    then show ?thesis using True Cons.IH [OF later, of "add ar area (whole_area ar p q)"]
      by (simp add: partition_point_def nth_opt_def)
  next
    case False
    then have "f32_lt pos (point_position q)" using nan assms(2) not_le_lt by blast
    then show ?thesis using False by (simp add: partition_point_def nth_opt_def)
  qed
qed

lemma area_table_walk:
  assumes "rising points" "points \<noteq> []" "length points \<le> length areas" "\<not> f32_is_nan pos"
  shows "area_from_start_table ar points (curve_prefix_areas ar points areas) pos =
    curve_area_from_start ar points pos"
proof -
  obtain p ps where points: "points = p # ps" using assms(2) by (cases points) auto
  have nth: "nth_opt (curve_prefix_areas ar points areas) i = Some (prefix_areas ar 0 points ! i)"
    if "i < length points" for i
    using that assms(3) by (simp add: curve_prefix_areas_def nth_append)
  show ?thesis
  proof (cases "f32_le pos (point_position p)")
    case True
    then show ?thesis by (simp add: area_from_start_table_def curve_area_from_start_def points)
  next
    case False
    let ?segment = "partition_point (\<lambda>q. f32_le (point_position q) pos) ps"
    have "?segment < length points" using partition_point_le [of _ ps] by (simp add: points le_imp_less_Suc)
    then show ?thesis using False nth [of ?segment] nth [of "length ps"]
        area_walk_table [OF assms(1) [unfolded points] assms(4), of ar 0]
      by (auto simp: area_from_start_table_def curve_area_from_start_def points nth_opt_def Let_def
          split: if_splits)
  qed
qed

text \<open>
  C34. The area under a validated curve up to a position, read from its table of prefix areas with one
  search, is the area that adding up the segments from the start gives, sum for sum.
\<close>

theorem integral_table_exact:
  assumes "curve_validate points = None" "points \<noteq> []" "length points \<le> length areas"
    and "\<not> f32_is_nan pos"
  shows "curve_integral_table ar points (curve_prefix_areas ar points areas) pos =
    curve_integral ar points pos"
proof -
  have "\<not> f32_is_nan 0" by (simp add: f32_is_nan_def f32_magnitude_def)
  then show ?thesis
    using area_table_walk [OF validated_curve_rising [OF assms(1)] assms(2,3)] assms(4)
    by (simp add: curve_integral_table_def curve_integral_def curve_area_def)
qed

text \<open>Sums and products on the bits, to run examples with.\<close>

definition bit_arith :: arith where
  "bit_arith = \<lparr>add = (+), subtract = (-), multiply = (*), divide_by = (div), modulo_by = (mod),
     of_i32 = id, of_u32 = id, to_i32 = id, to_u32 = id, libm_floor = id, libm_ceil = id,
     libm_trunc = id, libm_sqrt = id, libm_cbrt = id, libm_exp = id, libm_log = id,
     libm_atan2 = (-), libm_pow = (*), fast_sin = id, fast_cos = id, fast_tan = id\<rparr>"

definition ramp :: curve where
  "ramp = [\<lparr>point_position = 0, point_value = 0x3f800000\<rparr>, \<lparr>point_position = 0x3f000000, point_value = 0\<rparr>,
     \<lparr>point_position = 0x3f800000, point_value = 0x3f800000\<rparr>]"

lemma integral_table_exact_witness:
  "curve_validate ramp = None \<and>
   curve_integral_table bit_arith ramp (curve_prefix_areas bit_arith ramp [0, 0, 0]) 0x3f400000 =
     curve_integral bit_arith ramp 0x3f400000"
proof -
  have "curve_validate ramp = None" "ramp \<noteq> []" "length ramp \<le> length [0, 0, 0 :: f32]"
    "\<not> f32_is_nan 0x3f400000" by code_simp+
  then show ?thesis using integral_table_exact [where points = ramp and areas = "[0, 0, 0]" and pos = "0x3f400000" and ar = bit_arith]
    by simp
qed

text \<open>A bound curve samples by its table of slopes; an authored one computes the slope it needs.\<close>

lemma slope_table_exact:
  assumes "length points \<le> length slopes" "curve_slopes ar points slopes = Some table"
  shows "sample_curve_sloped ar points (nth_opt table) pos = sample_curve_points ar points pos"
proof (cases points)
  case (Cons p ps)
  have index: "1 + partition_point P (tl (butlast points)) < length points" if "length points \<noteq> 1" for P
    using that Cons partition_point_le [of P "tl (butlast points)"] by (cases ps) auto
  have full: "table = map (\<lambda>i. if i = 0 then 0
      else if i < length points then segment_slope ar (points ! (i - 1)) (points ! i)
      else slopes ! i) [0..<length slopes]"
    using assms(2) by (cases slopes) (auto simp: curve_slopes_def simp del: upt_Suc)
  have table: "nth_opt table i = Some (segment_slope ar (points ! (i - 1)) (points ! i))"
    if "0 < i" "i < length points" for i
    using assms that unfolding full by simp
  show ?thesis
  proof (cases "length points = 1")
    case False
    then show ?thesis
      using index [OF False, of "\<lambda>p. f32_le (point_position p) pos"]
        table [of "1 + partition_point (\<lambda>p. f32_le (point_position p) pos) (tl (butlast points))"]
      by (auto simp: sample_curve_points_def sample_curve_sloped_def Cons nth_opt_def Let_def)
  qed (simp add: sample_curve_points_def sample_curve_sloped_def Cons)
qed (simp add: sample_curve_points_def sample_curve_sloped_def)

section \<open>Mark searches\<close>

lemma sorted_partition:
  assumes "sorted xs" "hint \<le> length xs" "hint = 0 \<or> xs ! (hint - 1) \<le> at"
    and "hint = length xs \<or> at < xs ! hint"
  shows "partition_point (\<lambda>x. x \<le> at) xs = hint"
proof -
  have low: "x \<le> at" if x: "x \<in> set (take hint xs)" for x
  proof -
    obtain i where i: "i < hint" "x = xs ! i" using x assms(2) by (auto simp: in_set_conv_nth)
    then have "xs ! i \<le> xs ! (hint - 1)" using assms(1,2) by (intro sorted_nth_mono) auto
    then show ?thesis using i assms(3) by auto
  qed
  have "takeWhile (\<lambda>x. x \<le> at) (take hint xs @ drop hint xs) = take hint xs @ takeWhile (\<lambda>x. x \<le> at) (drop hint xs)"
    by (rule takeWhile_append2) (rule low)
  moreover have "takeWhile (\<lambda>x. x \<le> at) (drop hint xs) = []"
  proof (cases "hint = length xs")
    case False
    then have "drop hint xs = xs ! hint # drop (Suc hint) xs" using assms(2) by (simp add: Cons_nth_drop_Suc)
    then show ?thesis using assms(4) False by simp
  qed simp
  ultimately show ?thesis using assms(2) by (simp add: partition_point_def)
qed

lemma mark_cursor_only_speeds_up:
  assumes "sorted (ticks marks)"
  shows "mark_count ar marks seconds cursor =
    partition_point (\<lambda>mark. mark \<le> saturating_add32 (window_origin marks)
      (to_u32 ar (multiply ar seconds 0x49742400))) (ticks marks)"
  using sorted_partition [OF assms, of cursor "saturating_add32 (window_origin marks)
      (to_u32 ar (multiply ar seconds 0x49742400))"] by (simp add: mark_count_def Let_def)

section \<open>Gradients always sample\<close>

lemma span_scan_total:
  "\<not> f32_le (stop_position (last (stop # rest))) pos \<Longrightarrow>
    \<exists>c. span_scan ar span_inv spc pos previous (stop # rest) = Some c"
  by (induction rest arbitrary: stop previous) auto

lemma gradient_samples:
  assumes "sts \<noteq> []"
  shows "\<exists>c. sample_gradient_stops ar span_inv spc sts pos = Some c"
proof -
  obtain s rest where sts: "sts = s # rest" using assms by (cases sts) auto
  show ?thesis
  proof (cases rest)
    case (Cons stop more)
    show ?thesis using span_scan_total [of stop more pos ar span_inv spc s]
      by (auto simp: sample_gradient_stops_def sts Cons)
  qed (simp add: sample_gradient_stops_def sts)
qed

lemma length_borrow_walk [simp]: "length (borrow_walk l xs) = length xs"
  by (induction l xs rule: borrow_walk.induct) auto

lemma length_borrow [simp]: "length means = length vs \<Longrightarrow> length (borrow_from_neighbors vs means) = length vs"
  by (simp add: borrow_from_neighbors_def split: option.split)

lemma length_unwrap [simp]: "length (unwrap_hues ar previous xs) = length xs"
  by (induction ar previous xs rule: unwrap_hues.induct) (simp_all add: Let_def)

lemma length_encoded [simp]: "length (encode_gradient_stops ar spc sts) = length sts"
  by (simp add: encode_gradient_stops_def Let_def)

lemma authored_gradient_samples: "\<exists>c. sample_gradient ar g pos = Some c"
proof (cases "stops g = []")
  case False
  then have "encode_gradient_stops ar (space g) (stops g) \<noteq> []"
    by (metis length_encoded length_greater_0_conv)
  then show ?thesis using False gradient_samples by (simp add: sample_gradient_def)
qed (simp add: sample_gradient_def)

end
