(* ===== verification/Resources.thy ===== *)
theory Resources
  imports SamplingLaws Programs
begin

text \<open>
  Bound resources, \<open>crates/donder-runtime/src/resources.rs\<close> with the records of \<open>format.rs\<close> it reads:
  curves with the segments that invert them, the windows an automation rewrites, live marks, and
  where a bound parameter lives. Reading past the end of a section panics: \<open>None\<close>.
\<close>

section \<open>Curves and their inverses\<close>

record crossing_segment =
  position_bias :: f32
  position_scale :: f32
  min_value :: f32
  max_value :: f32

definition CROSSINGS_INCREASING :: u32 where "CROSSINGS_INCREASING = 0"
definition CROSSINGS_DECREASING :: u32 where "CROSSINGS_DECREASING = 1"
definition CROSSINGS_MIXED :: u32 where "CROSSINGS_MIXED = 2"

record curve_view =
  view_points :: curve
  view_areas :: "f32 list"
  view_slopes :: "f32 list"
  view_kind :: u32
  view_crossings :: "crossing_segment list"

definition view_sample :: "arith \<Rightarrow> curve_view \<Rightarrow> f32 \<Rightarrow> f32 option" where
  "view_sample ar cv pos = sample_curve_sloped ar (view_points cv) (nth_opt (view_slopes cv)) pos"

definition view_integral :: "arith \<Rightarrow> curve_view \<Rightarrow> f32 \<Rightarrow> f32 option" where
  "view_integral ar cv pos = curve_integral_table ar (view_points cv) (view_areas cv) pos"

definition view_last_crossing :: "arith \<Rightarrow> curve_view \<Rightarrow> f32 \<Rightarrow> f32 \<Rightarrow> f32 option" where
  "view_last_crossing ar cv v before = curve_last_crossing ar (view_points cv) v before"

definition segment_crossing :: "arith \<Rightarrow> f32 \<Rightarrow> crossing_segment \<Rightarrow> f32 option" where
  "segment_crossing ar v s =
     (if f32_le (min_value s) v \<and> f32_le v (max_value s)
      then Some (add ar (position_bias s) (multiply ar v (position_scale s)))
      else None)"

definition unwrap_or :: "'a \<Rightarrow> 'a option \<Rightarrow> 'a" where
  "unwrap_or fallback found = (case found of None \<Rightarrow> fallback | Some x \<Rightarrow> x)"

definition view_crossing :: "arith \<Rightarrow> curve_view \<Rightarrow> f32 \<Rightarrow> f32" where
  "view_crossing ar cv v =
     (case view_crossings cv of
        [] \<Rightarrow> f32_nan
      | [segment] \<Rightarrow> unwrap_or f32_nan (segment_crossing ar v segment)
      | segments \<Rightarrow>
          if view_kind cv = CROSSINGS_INCREASING then
            let index = partition_point (\<lambda>s. f32_lt (max_value s) v) segments
            in unwrap_or f32_nan (Option.bind (nth_opt segments index) (segment_crossing ar v))
          else if view_kind cv = CROSSINGS_DECREASING then
            let index = partition_point (\<lambda>s. f32_lt v (min_value s)) segments
            in unwrap_or f32_nan (Option.bind (nth_opt segments index) (segment_crossing ar v))
          else unwrap_or f32_nan (first_some (segment_crossing ar v) segments))"

text \<open>The segments a buffer takes, and the kind and count returned.\<close>

definition pair_segment :: "arith \<Rightarrow> curve_point \<times> curve_point \<Rightarrow> crossing_segment" where
  "pair_segment ar pair =
     (let start = fst pair; finish = snd pair;
          span = subtract ar (point_value finish) (point_value start);
          slope = (if f32_eq span 0 then 0
            else divide_by ar (subtract ar (point_position finish) (point_position start)) span)
      in \<lparr>position_bias = subtract ar (point_position start) (multiply ar (point_value start) slope),
          position_scale = slope,
          min_value = std_min (point_value start) (point_value finish),
          max_value = std_max (point_value start) (point_value finish)\<rparr>)"

definition curve_crossings ::
  "arith \<Rightarrow> curve \<Rightarrow> crossing_segment list \<Rightarrow> ((u32 \<times> nat) \<times> crossing_segment list) option" where
  "curve_crossings ar points output =
     (let pairs = windows2 points;
          increasing = list_all (\<lambda>(a, b). f32_le (point_value a) (point_value b)) pairs;
          decreasing = list_all (\<lambda>(a, b). f32_le (point_value b) (point_value a)) pairs;
          found = (case points of
              [point] \<Rightarrow> [\<lparr>position_bias = point_position point, position_scale = 0,
                          min_value = point_value point, max_value = point_value point\<rparr>]
            | _ \<Rightarrow> map (pair_segment ar) pairs);
          kind = (if increasing then CROSSINGS_INCREASING
                  else if decreasing then CROSSINGS_DECREASING else CROSSINGS_MIXED)
      in if length found \<le> length output
         then Some ((kind, length found), found @ drop (length found) output) else None)"

section \<open>The show's sections\<close>

record section_range =
  range_start :: u32
  range_len :: u32

definition range_get :: "section_range \<Rightarrow> 'a list \<Rightarrow> 'a list option" where
  "range_get r items = slice (unat (range_start r)) (unat (range_start r) + unat (range_len r)) items"

record curve_record =
  curve_points :: section_range
  curve_areas :: section_range
  curve_slopes_range :: section_range
  crossings_kind :: u32
  curve_crossing_range :: section_range

record gradient_record =
  gradient_stop_range :: section_range
  gradient_space_word :: u32

record bound_stop = gradient_stop +
  bound_inverse :: f32

record marks_record =
  marks_track :: section_range
  marks_first :: u32
  marks_end :: u32
  marks_origin :: u32

record show_value =
  show_value_kind :: u32
  show_value_word :: u32

record show_image =
  show_colors :: "color list"
  show_curves :: "curve_record list"
  show_curve_points :: "curve_point list"
  show_curve_areas :: "f32 list"
  show_curve_slopes :: "f32 list"
  show_crossings :: "crossing_segment list"
  show_gradients :: "gradient_record list"
  show_gradient_stops :: "bound_stop list"
  show_marks :: "marks_record list"
  show_tracks :: "u32 list"
  show_arrays :: "section_range list"
  show_values :: "show_value list"

definition show_curve :: "show_image \<Rightarrow> u32 \<Rightarrow> curve_view option" where
  "show_curve sh index =
     do { c \<leftarrow> nth_opt (show_curves sh) (unat index);
          points \<leftarrow> range_get (curve_points c) (show_curve_points sh);
          areas \<leftarrow> range_get (curve_areas c) (show_curve_areas sh);
          slopes \<leftarrow> range_get (curve_slopes_range c) (show_curve_slopes sh);
          crossings \<leftarrow> range_get (curve_crossing_range c) (show_crossings sh);
          Some \<lparr>view_points = points, view_areas = areas, view_slopes = slopes,
            view_kind = crossings_kind c, view_crossings = crossings\<rparr> }"

definition record_space :: "gradient_record \<Rightarrow> gradient_space option" where
  "record_space g =
     (if gradient_space_word g = 0 then Some LinearRgb
      else if gradient_space_word g = 1 then Some Hsv
      else if gradient_space_word g = 2 then Some Oklab else None)"

definition show_gradient :: "show_image \<Rightarrow> u32 \<Rightarrow> (gradient_space \<times> bound_stop list) option" where
  "show_gradient sh index =
     do { g \<leftarrow> nth_opt (show_gradients sh) (unat index);
          spc \<leftarrow> record_space g;
          sts \<leftarrow> range_get (gradient_stop_range g) (show_gradient_stops sh);
          Some (spc, sts) }"

definition show_mark_window :: "show_image \<Rightarrow> u32 \<Rightarrow> mark_window option" where
  "show_mark_window sh index =
     do { m \<leftarrow> nth_opt (show_marks sh) (unat index);
          trk \<leftarrow> range_get (marks_track m) (show_tracks sh);
          window \<leftarrow> slice (unat (marks_first m)) (unat (marks_end m)) trk;
          Some \<lparr>ticks = window, window_origin = marks_origin m\<rparr> }"

definition show_array :: "show_image \<Rightarrow> u32 \<Rightarrow> show_value list option" where
  "show_array sh index =
     do { items \<leftarrow> nth_opt (show_arrays sh) (unat index); range_get items (show_values sh) }"

section \<open>Bound parameters\<close>

record resource_ref =
  ref_kind :: u32
  ref_index :: u32

definition STORE_SHOW :: u32 where "STORE_SHOW = 0"
definition STORE_WINDOW :: u32 where "STORE_WINDOW = 1"
definition STORE_LIVE :: u32 where "STORE_LIVE = 2"

record resource_slot =
  slot_resource_kind :: u32
  slot_store :: u32
  slot_index :: u32
  slot_origin :: u32

definition resource_slot_show :: "resource_ref \<Rightarrow> resource_slot" where
  "resource_slot_show r =
     \<lparr>slot_resource_kind = ref_kind r, slot_store = STORE_SHOW, slot_index = ref_index r, slot_origin = 0\<rparr>"

record window_state =
  window_start :: u32
  window_capacity :: u32
  window_len :: u32
  window_kind :: u32

record live_track =
  live_start :: u32
  live_len :: u32

datatype resource_list = ShowResources "resource_ref list" | SlotResources "resource_slot list"

record params_view =
  param_words :: "u32 list"
  param_resources :: resource_list
  param_windows :: "window_state list"
  param_points :: "curve_point list"
  param_areas :: "f32 list"
  param_slopes :: "f32 list"
  param_crossings :: "crossing_segment list"
  live_tracks :: "live_track list"
  live_ticks :: "u32 list"

definition params_resource :: "params_view \<Rightarrow> u16 \<Rightarrow> resource_slot option" where
  "params_resource ps bank =
     (case param_resources ps of
        ShowResources rs \<Rightarrow> map_option resource_slot_show (nth_opt rs (unat bank))
      | SlotResources slots \<Rightarrow> nth_opt slots (unat bank))"

definition params_curve :: "params_view \<Rightarrow> show_image \<Rightarrow> resource_slot \<Rightarrow> curve_view option" where
  "params_curve ps sh slot =
     (if slot_store slot = STORE_WINDOW then
        do { w \<leftarrow> nth_opt (param_windows ps) (unat (slot_index slot));
             let start = unat (window_start w); stop = unat (window_start w + window_len w) in
             do { points \<leftarrow> slice start stop (param_points ps);
                  areas \<leftarrow> slice start stop (param_areas ps);
                  slopes \<leftarrow> slice start stop (param_slopes ps);
                  crossings \<leftarrow> slice start stop (param_crossings ps);
                  Some \<lparr>view_points = points, view_areas = areas, view_slopes = slopes,
                    view_kind = window_kind w, view_crossings = crossings\<rparr> } }
      else show_curve sh (slot_index slot))"

definition params_marks :: "params_view \<Rightarrow> show_image \<Rightarrow> resource_slot \<Rightarrow> mark_window option" where
  "params_marks ps sh slot =
     (if slot_store slot = STORE_LIVE then
        do { t \<leftarrow> nth_opt (live_tracks ps) (unat (slot_index slot));
             marks \<leftarrow> slice (unat (live_start t)) (unat (live_start t + live_len t)) (live_ticks ps);
             Some \<lparr>ticks = drop (partition_point (\<lambda>mark. mark < slot_origin slot) marks) marks,
               window_origin = slot_origin slot\<rparr> }
      else show_mark_window sh (slot_index slot))"

section \<open>Searching a monotone curve finds what scanning it would\<close>

definition plain :: "crossing_segment \<Rightarrow> bool" where
  "plain s \<longleftrightarrow> \<not> f32_is_nan (min_value s) \<and> \<not> f32_is_nan (max_value s)"

lemma segment_crossing_None_iff:
  "segment_crossing ar v s = None \<longleftrightarrow> \<not> (f32_le (min_value s) v \<and> f32_le v (max_value s))"
  by (simp add: segment_crossing_def)

lemma f32_lt_not_le: "f32_lt a b \<Longrightarrow> \<not> f32_le b a"
  by (auto simp: f32_lt_def f32_le_def)

lemma first_some_None: "first_some f xs = None \<longleftrightarrow> (\<forall>x \<in> set xs. f x = None)"
  by (induction xs) (auto split: option.split)

lemma nth_opt_Cons [simp]: "nth_opt (x # xs) 0 = Some x" "nth_opt (x # xs) (Suc i) = nth_opt xs i"
  by (simp_all add: nth_opt_def)

lemma partition_point_Cons [simp]:
  "partition_point P (x # xs) = (if P x then Suc (partition_point P xs) else 0)"
  by (simp add: partition_point_def)

text \<open>
  A search that skips what cannot answer and stops where nothing later can, unless the element at
  hand does, answers as a scan.
\<close>

lemma search_scan:
  assumes "\<forall>x \<in> set xs. P x \<longrightarrow> f x = None"
    and "sorted_wrt (\<lambda>x y. \<not> P x \<longrightarrow> f x = None \<longrightarrow> f y = None) xs"
  shows "Option.bind (nth_opt xs (partition_point P xs)) f = first_some f xs"
  using assms
proof (induction xs)
  case (Cons x xs)
  then show ?case using first_some_None [of f xs] by (cases "P x"; cases "f x") simp_all
qed (simp add: nth_opt_def)

lemma rising_search:
  assumes "sorted_wrt (\<lambda>a b. f32_le (min_value a) (min_value b)) segments" "\<forall>s \<in> set segments. plain s"
  shows "Option.bind (nth_opt segments (partition_point (\<lambda>s. f32_lt (max_value s) v) segments))
      (segment_crossing ar v) = first_some (segment_crossing ar v) segments"
proof (rule search_scan)
  show "\<forall>s \<in> set segments. f32_lt (max_value s) v \<longrightarrow> segment_crossing ar v s = None"
    using f32_lt_not_le segment_crossing_None_iff by blast
  show "sorted_wrt (\<lambda>s t. \<not> f32_lt (max_value s) v \<longrightarrow> segment_crossing ar v s = None \<longrightarrow>
      segment_crossing ar v t = None) segments"
  proof (rule sorted_wrt_mono_rel [OF _ assms(1)], intro impI)
    fix s t :: crossing_segment
    assume s: "s \<in> set segments" and t: "f32_le (min_value s) (min_value t)"
      and above: "\<not> f32_lt (max_value s) v" and none: "segment_crossing ar v s = None"
    have "f32_is_nan v \<or> f32_lt v (min_value s)"
      using above none assms(2) s not_le_lt [of v "max_value s"] not_le_lt [of "min_value s" v]
      by (auto simp: plain_def segment_crossing_None_iff)
    then have "\<not> f32_le (min_value t) v"
      using t by (auto simp: f32_le_def f32_lt_def)
    then show "segment_crossing ar v t = None" by (simp add: segment_crossing_None_iff)
  qed
qed

lemma falling_search:
  assumes "sorted_wrt (\<lambda>a b. f32_le (max_value b) (max_value a)) segments" "\<forall>s \<in> set segments. plain s"
  shows "Option.bind (nth_opt segments (partition_point (\<lambda>s. f32_lt v (min_value s)) segments))
      (segment_crossing ar v) = first_some (segment_crossing ar v) segments"
proof (rule search_scan)
  show "\<forall>s \<in> set segments. f32_lt v (min_value s) \<longrightarrow> segment_crossing ar v s = None"
    using f32_lt_not_le segment_crossing_None_iff by blast
  show "sorted_wrt (\<lambda>s t. \<not> f32_lt v (min_value s) \<longrightarrow> segment_crossing ar v s = None \<longrightarrow>
      segment_crossing ar v t = None) segments"
  proof (rule sorted_wrt_mono_rel [OF _ assms(1)], intro impI)
    fix s t :: crossing_segment
    assume s: "s \<in> set segments" and t: "f32_le (max_value t) (max_value s)"
      and below: "\<not> f32_lt v (min_value s)" and none: "segment_crossing ar v s = None"
    have "f32_is_nan v \<or> f32_lt (max_value s) v"
      using below none assms(2) s not_le_lt [of v "max_value s"] not_le_lt [of "min_value s" v]
      by (auto simp: plain_def segment_crossing_None_iff)
    then have "\<not> f32_le v (max_value t)"
      using t by (auto simp: f32_le_def f32_lt_def)
    then show "segment_crossing ar v t = None" by (simp add: segment_crossing_None_iff)
  qed
qed

text \<open>The segments of a curve with finite values are those searches' input.\<close>

definition plain_values :: "curve \<Rightarrow> bool" where
  "plain_values points \<longleftrightarrow> (\<forall>p \<in> set points. \<not> f32_is_nan (point_value p))"

lemma validated_points_values: "validate_points previous points = None \<Longrightarrow> plain_values points"
  by (induction previous points rule: validate_points.induct)
    (auto simp: plain_values_def f32_is_finite_def f32_is_nan_def split: if_splits)

lemma validated_plain: "curve_validate points = None \<Longrightarrow> plain_values points"
  using validated_points_values
  by (fastforce simp: curve_validate_def plain_values_def f32_is_finite_def f32_is_nan_def
      split: list.splits if_splits)

lemma windows2_simps [simp]:
  "windows2 [] = []" "windows2 [a] = []" "windows2 (a # b # rest) = (a, b) # windows2 (b # rest)"
  by (simp_all add: windows2_def)

lemma pair_segment_plain:
  "\<not> f32_is_nan (point_value a) \<Longrightarrow> \<not> f32_is_nan (point_value b) \<Longrightarrow> plain (pair_segment ar (a, b))"
  by (simp add: plain_def pair_segment_def Let_def std_min_def std_max_def)

lemma segments_plain: "plain_values points \<Longrightarrow> \<forall>s \<in> set (map (pair_segment ar) (windows2 points)). plain s"
  by (induction points rule: induct_list012) (auto simp: plain_values_def pair_segment_plain)

lemma pair_segment_bounds:
  "f32_le (point_value a) (point_value b) \<Longrightarrow> f32_le x (point_value a) \<Longrightarrow> f32_le x (min_value (pair_segment ar (a, b)))"
  "f32_le (point_value a) (point_value b) \<Longrightarrow> f32_le (point_value b) x \<Longrightarrow> f32_le (min_value (pair_segment ar (a, b))) x"
  "f32_le (point_value b) (point_value a) \<Longrightarrow> f32_le (point_value a) x \<Longrightarrow> f32_le (max_value (pair_segment ar (a, b))) x"
  "f32_le (point_value b) (point_value a) \<Longrightarrow> f32_le x (point_value b) \<Longrightarrow> f32_le x (max_value (pair_segment ar (a, b)))"
  by (auto simp: pair_segment_def Let_def std_min_def std_max_def f32_le_def)

lemma increasing_segments:
  assumes "list_all (\<lambda>(a, b). f32_le (point_value a) (point_value b)) (windows2 (p # points))"
    and "\<not> f32_is_nan (point_value p)"
  shows "sorted_wrt (\<lambda>a b. f32_le (min_value a) (min_value b)) (map (pair_segment ar) (windows2 (p # points)))
    \<and> (\<forall>s \<in> set (map (pair_segment ar) (windows2 (p # points))). f32_le (point_value p) (min_value s))"
  using assms
proof (induction points arbitrary: p)
  case (Cons q points)
  then have le: "f32_le (point_value p) (point_value q)" by simp
  have q: "\<not> f32_is_nan (point_value q)" using le by (simp add: f32_le_def)
  have "f32_le (point_value p) (point_value p)" using Cons.prems(2) by (simp add: f32_le_def)
  then show ?case using Cons.IH [of q] Cons.prems(1) le q pair_segment_bounds(1,2) [OF le]
    by (auto intro: f32_le_trans)
qed simp

lemma decreasing_segments:
  assumes "list_all (\<lambda>(a, b). f32_le (point_value b) (point_value a)) (windows2 (p # points))"
    and "\<not> f32_is_nan (point_value p)"
  shows "sorted_wrt (\<lambda>a b. f32_le (max_value b) (max_value a)) (map (pair_segment ar) (windows2 (p # points)))
    \<and> (\<forall>s \<in> set (map (pair_segment ar) (windows2 (p # points))). f32_le (max_value s) (point_value p))"
  using assms
proof (induction points arbitrary: p)
  case (Cons q points)
  then have le: "f32_le (point_value q) (point_value p)" by simp
  have q: "\<not> f32_is_nan (point_value q)" using le by (simp add: f32_le_def)
  have "f32_le (point_value p) (point_value p)" using Cons.prems(2) by (simp add: f32_le_def)
  then show ?case using Cons.IH [of q] Cons.prems(1) le q pair_segment_bounds(3,4) [OF le]
    by (auto intro: f32_le_trans)
qed simp

lemma search_or_scan:
  assumes "view_kind cv = CROSSINGS_INCREASING \<Longrightarrow>
      Option.bind (nth_opt xs (partition_point (\<lambda>s. f32_lt (max_value s) v) xs)) (segment_crossing ar v)
        = first_some (segment_crossing ar v) xs"
    and "view_kind cv = CROSSINGS_DECREASING \<Longrightarrow>
      Option.bind (nth_opt xs (partition_point (\<lambda>s. f32_lt v (min_value s)) xs)) (segment_crossing ar v)
        = first_some (segment_crossing ar v) xs"
    and "view_crossings cv = xs"
  shows "view_crossing ar cv v = unwrap_or f32_nan (first_some (segment_crossing ar v) xs)"
proof -
  consider "xs = []" | s where "xs = [s]" | s t rest where "xs = s # t # rest"
    by (metis list.exhaust)
  then show ?thesis
  proof cases
    case 3
    show ?thesis using assms(1,2) unfolding view_crossing_def assms(3) Let_def
      unfolding 3 list.case by (metis (no_types, lifting))
  qed (simp_all add: view_crossing_def assms(3) unwrap_or_def split: option.split)
qed

text \<open>
  C33. The inverse of a validated curve as it is bound, which searches a curve that rises or falls,
  answers at every value, a NaN included, what the scan of all its segments answers.
\<close>

theorem curve_inverse_scans:
  assumes "curve_validate points = None" "curve_crossings ar points output = Some ((kind, n), segments)"
    and "view_crossings cv = take n segments" "view_kind cv = kind"
  shows "view_crossing ar cv v = unwrap_or f32_nan (first_some (segment_crossing ar v) (take n segments))"
proof -
  have vals: "plain_values points" using validated_plain [OF assms(1)] .
  consider "points = [] \<or> (\<exists>p. points = [p])" | p q rest where "points = p # q # rest"
    by (metis list.exhaust)
  then show ?thesis
  proof cases
    case 1
    then show ?thesis using assms(2-4)
      by (auto simp: curve_crossings_def view_crossing_def Let_def unwrap_or_def split: if_splits option.splits)
  next
    case 2
    let ?segments = "map (pair_segment ar) (windows2 points)"
    have segments: "take n segments = ?segments" and kind: "kind =
        (if list_all (\<lambda>(a, b). f32_le (point_value a) (point_value b)) (windows2 points) then CROSSINGS_INCREASING
         else if list_all (\<lambda>(a, b). f32_le (point_value b) (point_value a)) (windows2 points) then CROSSINGS_DECREASING
         else CROSSINGS_MIXED)"
      using assms(2) by (auto simp: curve_crossings_def Let_def 2 split: if_splits)
    have p: "\<not> f32_is_nan (point_value p)" using vals by (simp add: plain_values_def 2)
    note plain = segments_plain [OF vals, of ar]
    show ?thesis unfolding segments
    proof (rule search_or_scan)
      assume "view_kind cv = CROSSINGS_INCREASING"
      then have "list_all (\<lambda>(a, b). f32_le (point_value a) (point_value b)) (windows2 (p # q # rest))"
        using kind assms(4)
        by (simp add: 2 CROSSINGS_INCREASING_def CROSSINGS_DECREASING_def CROSSINGS_MIXED_def split: if_splits)
      from increasing_segments [OF this p, of ar]
      show "Option.bind (nth_opt ?segments (partition_point (\<lambda>s. f32_lt (max_value s) v) ?segments))
          (segment_crossing ar v) = first_some (segment_crossing ar v) ?segments"
        using plain unfolding 2 by (intro rising_search) blast+
    next
      assume "view_kind cv = CROSSINGS_DECREASING"
      then have "list_all (\<lambda>(a, b). f32_le (point_value b) (point_value a)) (windows2 (p # q # rest))"
        using kind assms(4)
        by (simp add: 2 CROSSINGS_INCREASING_def CROSSINGS_DECREASING_def CROSSINGS_MIXED_def split: if_splits)
      from decreasing_segments [OF this p, of ar]
      show "Option.bind (nth_opt ?segments (partition_point (\<lambda>s. f32_lt v (min_value s)) ?segments))
          (segment_crossing ar v) = first_some (segment_crossing ar v) ?segments"
        using plain unfolding 2 by (intro falling_search) blast+
    qed (simp add: assms(3) segments)
  qed
qed

text \<open>A falling curve of three segments, searched.\<close>

definition fall :: curve where
  "fall = [\<lparr>point_position = 0, point_value = 0x40400000\<rparr>, \<lparr>point_position = 0x3e800000, point_value = 0x40000000\<rparr>,
     \<lparr>point_position = 0x3f000000, point_value = 0x3f800000\<rparr>, \<lparr>point_position = 0x3f800000, point_value = 0\<rparr>]"

definition fall_view :: curve_view where
  "fall_view = \<lparr>view_points = fall, view_areas = [], view_slopes = [], view_kind = CROSSINGS_DECREASING,
     view_crossings = map (pair_segment bit_arith) (windows2 fall)\<rparr>"

lemma curve_inverse_scans_witness:
  "curve_validate fall = None \<and> view_kind fall_view = CROSSINGS_DECREASING \<and>
   view_crossing bit_arith fall_view 0x3fc00000 =
     unwrap_or f32_nan (first_some (segment_crossing bit_arith 0x3fc00000) (view_crossings fall_view))"
proof -
  have "curve_validate fall = None"
    "curve_crossings bit_arith fall (view_crossings fall_view) =
      Some ((CROSSINGS_DECREASING, 3), view_crossings fall_view)"
    "view_crossings fall_view = take 3 (view_crossings fall_view)"
    "view_kind fall_view = CROSSINGS_DECREASING" by code_simp+
  then show ?thesis using curve_inverse_scans [of fall bit_arith "view_crossings fall_view"
      CROSSINGS_DECREASING 3 "view_crossings fall_view" fall_view] by simp
qed

end
