(* ===== verification/Sections.thy ===== *)
theory Sections
  imports SamplingLaws Programs
begin

text \<open>
  Section queries, \<open>crates/donder-runtime/src/sections.rs\<close>: the runs of fixture pixels a target is
  made of, a pixel's place among them, and the numbering of the sections of a width. Words wrap;
  the casts between \<open>u32\<close> and \<open>i32\<close> keep the bits.
\<close>

record section_run =
  run_fixture :: u32
  run_first :: u32
  run_last :: u32

record section_pixel =
  pixel_run :: u32
  pixel_at :: u32

record section_span =
  span_end :: u32
  span_first :: section_pixel

record sections_view =
  section_runs :: "section_run list"
  section_spans :: "section_span list"
  section_pixels :: "section_pixel list"
  per_fixture :: bool

definition section_pixel_default :: section_pixel where
  "section_pixel_default = \<lparr>pixel_run = 0, pixel_at = 0\<rparr>"

definition sections_pixel :: "sections_view \<Rightarrow> nat \<Rightarrow> section_pixel option" where
  "sections_pixel view index =
     (if section_pixels view \<noteq> [] then nth_opt (section_pixels view) index
      else if section_spans view = [] then Some section_pixel_default
      else
        let sp = partition_point (\<lambda>s. unat (span_end s) \<le> index) (section_spans view);
            start = (if sp = 0 then 0 else unat (span_end (section_spans view ! (sp - 1))))
        in do { s \<leftarrow> nth_opt (section_spans view) sp;
                Some \<lparr>pixel_run = pixel_run (span_first s),
                  pixel_at = pixel_at (span_first s) + of_nat (index - start)\<rparr> })"

record run_sections =
  sections_key :: "u32 \<times> i32"
  sections_width :: u32
  sections_base :: i32
  sections_count :: i32
  sections_missing :: bool

text \<open>\<open>width.max(1) as u32\<close>\<close>

definition section_width :: "i32 \<Rightarrow> u32" where
  "section_width w = int_max w 1"

text \<open>The loop over the runs: how many sections so far, the base of the run asked for, and the
  fixture and section the run before ended in.\<close>

type_synonym section_state = "u32 \<times> i32 \<times> (u32 \<times> u32) option"

definition section_step ::
  "sections_view \<Rightarrow> u32 \<Rightarrow> u32 \<Rightarrow> u32 \<Rightarrow> nat \<times> section_run \<Rightarrow> section_state \<Rightarrow> section_state" where
  "section_step view fixture asked wd item st =
     (case (item, st) of ((index, run), (count, base, previous)) \<Rightarrow>
        if per_fixture view \<and> run_fixture run \<noteq> fixture then (count, base, previous)
        else
          let first = run_first run div wd;
              final = run_last run div wd;
              merge = (if previous = Some (run_fixture run, first) then 1 else 0);
              base = (if index = unat asked then count - merge - first else base);
              count = count + (final - first + 1 - merge)
          in (count, base, Some (run_fixture run, final)))"

definition section_walk :: "sections_view \<Rightarrow> u32 \<Rightarrow> u32 \<Rightarrow> u32 \<Rightarrow> section_state" where
  "section_walk view fixture asked wd =
     fold (section_step view fixture asked wd) (List.enumerate 0 (section_runs view)) (0, 0, None)"

definition run_sections_of :: "sections_view \<Rightarrow> section_pixel \<Rightarrow> i32 \<Rightarrow> run_sections" where
  "run_sections_of view pixel wd =
     (case nth_opt (section_runs view) (unat (pixel_run pixel)) of
        None \<Rightarrow> \<lparr>sections_key = (pixel_run pixel, wd), sections_width = 1, sections_base = - 1,
                 sections_count = 0, sections_missing = True\<rparr>
      | Some current \<Rightarrow>
          let w = section_width wd;
              (count, base, _) = section_walk view (run_fixture current) (pixel_run pixel) w
          in \<lparr>sections_key = (pixel_run pixel, wd), sections_width = w, sections_base = base,
              sections_count = min count 0x7fffffff, sections_missing = False\<rparr>)"

definition sections_query :: "run_sections \<Rightarrow> section_pixel \<Rightarrow> bool \<Rightarrow> i32" where
  "sections_query rs pixel index =
     (if \<not> index then sections_count rs
      else if sections_missing rs then - 1
      else sections_base rs + pixel_at pixel div sections_width rs)"

definition single_section_query :: "i32 \<Rightarrow> i32 \<Rightarrow> i32 \<Rightarrow> bool \<Rightarrow> i32" where
  "single_section_query pixel count wd index =
     (if sint count \<le> 0 then (if index then - 1 else 0)
      else let w = section_width wd
        in if index then pixel div w else 1 + (count - 1) div w)"

section \<open>Every section of a target is counted\<close>

text \<open>The runs hold pixels of a target, fewer in all than \<open>2 ^ 31\<close>.\<close>

definition run_pixels :: "section_run \<Rightarrow> nat" where
  "run_pixels r = unat (run_last r) + 1 - unat (run_first r)"

definition runs_ok :: "section_run list \<Rightarrow> bool" where
  "runs_ok rs \<longleftrightarrow> (\<forall>r \<in> set rs. run_first r \<le> run_last r) \<and> sum_list (map run_pixels rs) < 2 ^ 31"

lemma run_sections_same_run:
  "pixel_run p = pixel_run q \<Longrightarrow> run_sections_of view p wd = run_sections_of view q wd"
  by (simp only: run_sections_of_def)

text \<open>A run adds its sections, one fewer when it goes on in the section the run before ended in.\<close>

lemma unat_less: "n < 2 ^ 32 \<Longrightarrow> unat (of_nat n :: u32) = n"
  by (simp add: unat_of_nat take_bit_nat_eq_self)

lemma div_add_le: "0 < w \<Longrightarrow> (a + d) div w \<le> a div w + d" for a d w :: nat
proof (induction d)
  case (Suc d)
  then show ?case by (simp add: div_Suc)
qed simp

lemma section_step_count:
  assumes "run_first r \<le> run_last r" "0 < w" "unat count + run_pixels r < 2 ^ 31"
    and "previous \<noteq> None \<longrightarrow> 0 < unat count"
    and "section_step view fixture asked w (i, r) (count, base, previous) = (count', base', previous')"
  shows "unat count \<le> unat count' \<and> unat count' \<le> unat count + run_pixels r \<and>
    (previous' \<noteq> None \<longrightarrow> 0 < unat count') \<and> (i \<noteq> unat asked \<longrightarrow> base' = base) \<and>
    (i = unat asked \<longrightarrow> \<not> (per_fixture view \<and> run_fixture r \<noteq> fixture) \<longrightarrow>
       run_first r \<le> at \<longrightarrow> at \<le> run_last r \<longrightarrow> unat (base' + at div w) < unat count')"
proof (cases "per_fixture view \<and> run_fixture r \<noteq> fixture")
  case True
  then show ?thesis using assms(4,5) by (simp add: section_step_def)
next
  case False
  define f where "f = unat (run_first r) div unat w"
  define l where "l = unat (run_last r) div unat w"
  define merged where "merged = (previous = Some (run_fixture r, run_first r div w))"
  define m :: nat where "m = (if merged then 1 else 0)"
  have w: "0 < unat w" using assms(2) by (simp add: word_less_nat_alt)
  have f: "run_first r div w = of_nat f" and l: "run_last r div w = of_nat l"
    by (simp_all add: f_def l_def unat_div_distrib [symmetric])
  have "unat (run_first r) \<le> unat (run_last r)" using assms(1) by (simp add: word_le_nat_alt)
  then have fl: "f \<le> l" by (simp add: f_def l_def div_le_mono)
  have few: "l - f + 1 \<le> run_pixels r"
  proof -
    have "l \<le> f + (unat (run_last r) - unat (run_first r))"
      using div_add_le [OF w, of "unat (run_first r)" "unat (run_last r) - unat (run_first r)"] assms(1)
      by (simp add: f_def l_def word_le_nat_alt)
    then show ?thesis using fl assms(1) by (simp add: run_pixels_def word_le_nat_alt)
  qed
  have m: "m \<le> unat count" "m \<le> 1" using assms(4) by (auto simp: m_def merged_def)
  have merge: "(if previous = Some (run_fixture r, of_nat f) then 1 else 0) = (of_nat m :: u32)"
    by (simp add: m_def merged_def f)
  have count: "count' = of_nat (unat count + (l - f + 1) - m)"
  proof -
    have "count' = count + (of_nat l - of_nat f + 1 - of_nat m)"
      using assms(5) False by (simp add: section_step_def Let_def f l merge)
    then show ?thesis using fl m by (simp add: of_nat_diff)
  qed
  have small: "unat count + (l - f + 1) - m < 2 ^ 32" using few assms(3) by simp
  have unat_count: "unat count' = unat count + (l - f + 1) - m" using small by (simp only: count unat_less)
  have previous: "previous' = Some (run_fixture r, of_nat l)" and
    base: "base' = (if i = unat asked then count - of_nat m - of_nat f else base)"
    using assms(5) False
    by (simp_all add: section_step_def Let_def f l merge split: if_splits)
  have placed: "unat (base' + at div w) < unat count'"
    if at: "i = unat asked" "run_first r \<le> at" "at \<le> run_last r"
  proof -
    define a where "a = unat at div unat w"
    have a: "at div w = of_nat a" by (simp add: a_def unat_div_distrib [symmetric])
    have "f \<le> a" "a \<le> l" using at(2,3) by (simp_all add: a_def f_def l_def word_le_nat_alt div_le_mono)
    then have "base' + at div w = of_nat (unat count - m + (a - f))"
      using at(1) m(1) by (simp add: base a of_nat_diff)
    moreover have "unat count - m + (a - f) < 2 ^ 32" using \<open>a \<le> l\<close> small \<open>f \<le> a\<close> m(1) by linarith
    ultimately have "unat (base' + at div w) = unat count - m + (a - f)" by (simp only: unat_less)
    then show ?thesis using \<open>f \<le> a\<close> \<open>a \<le> l\<close> m(1) unat_count by linarith
  qed
  have "0 < unat count'" using m unat_count by linarith
  then show ?thesis using placed base few m unat_count by auto
qed

lemma section_fold_count:
  assumes "\<forall>r \<in> set rs. run_first r \<le> run_last r" "0 < w"
    and "unat count + sum_list (map run_pixels rs) < 2 ^ 31" "previous \<noteq> None \<longrightarrow> 0 < unat count"
    and "fold (section_step view fixture asked w) (List.enumerate n rs) (count, base, previous)
      = (count', base', previous')"
  shows "unat count \<le> unat count' \<and> unat count' \<le> unat count + sum_list (map run_pixels rs) \<and>
    (unat asked < n \<longrightarrow> base' = base) \<and>
    (n \<le> unat asked \<longrightarrow> unat asked < n + length rs \<longrightarrow>
       \<not> (per_fixture view \<and> run_fixture (rs ! (unat asked - n)) \<noteq> fixture) \<longrightarrow>
       run_first (rs ! (unat asked - n)) \<le> at \<longrightarrow> at \<le> run_last (rs ! (unat asked - n)) \<longrightarrow>
       unat (base' + at div w) < unat count')"
  using assms
proof (induction rs arbitrary: n count base previous)
  case (Cons r rs)
  obtain c b p where step: "section_step view fixture asked w (n, r) (count, base, previous) = (c, b, p)"
    by (metis prod_cases3)
  have small: "unat count + run_pixels r < 2 ^ 31" using Cons.prems(3) by simp
  have first: "run_first r \<le> run_last r" using Cons.prems(1) by simp
  note one = section_step_count [OF first Cons.prems(2) small Cons.prems(4) step, of at]
  have rest: "fold (section_step view fixture asked w) (List.enumerate (Suc n) rs) (c, b, p)
      = (count', base', previous')"
    using Cons.prems(5) by (simp add: step)
  have "unat c + sum_list (map run_pixels rs) < 2 ^ 31" using one Cons.prems(3) by simp
  note more = Cons.IH [OF _ Cons.prems(2) this _ rest]
  show ?case
  proof (cases "unat asked = n")
    case True
    then show ?thesis using one more Cons.prems(1) by (auto simp: nth_Cons')
  next
    case False
    then have "n \<le> unat asked \<Longrightarrow> (r # rs) ! (unat asked - n) = rs ! (unat asked - Suc n)"
      by (simp add: nth_Cons')
    then show ?thesis using False one more Cons.prems(1) by auto
  qed
qed simp

lemma sint_small: "unat v < 2 ^ 31 \<Longrightarrow> sint v = int (unat v)" for v :: i32
proof -
  assume "unat v < 2 ^ 31"
  then have "int (unat v) < int (2 ^ 31)" by (simp only: of_nat_less_iff)
  then have "int (unat v) < 2 ^ 31" by simp
  moreover have "- (2 ^ 31) \<le> int (unat v)" by (rule order_trans [OF _ of_nat_0_le_iff]) simp
  ultimately have "sint (word_of_int (int (unat v)) :: i32) = int (unat v)" by (intro small_sint)
  then show ?thesis by simp
qed

lemma section_width_pos: "0 < section_width wd"
proof -
  have "sint (section_width wd) \<ge> 1" by (simp add: section_width_def int_max_def)
  then have "section_width wd \<noteq> 0" by auto
  then show ?thesis by (simp add: word_gt_0)
qed

text \<open>
  C35. The section a pixel of a run is in is one of those counted: the index the query answers is at
  least zero and below the count it answers, at every width and whether or not fixtures are apart.
\<close>

theorem section_index_counted:
  assumes "runs_ok (section_runs view)" "nth_opt (section_runs view) (unat (pixel_run pixel)) = Some run"
    and "run_first run \<le> pixel_at pixel" "pixel_at pixel \<le> run_last run"
  shows "0 \<le> sint (sections_query (run_sections_of view pixel wd) pixel True) \<and>
    sint (sections_query (run_sections_of view pixel wd) pixel True)
      < sint (sections_query (run_sections_of view pixel wd) pixel False)"
proof -
  let ?w = "section_width wd"
  obtain count base previous where walk:
    "section_walk view (run_fixture run) (pixel_run pixel) ?w = (count, base, previous)"
    by (metis prod_cases3)
  have run: "unat (pixel_run pixel) < length (section_runs view)"
    "section_runs view ! unat (pixel_run pixel) = run" using assms(2) by simp_all
  have ok: "\<forall>r \<in> set (section_runs view). run_first r \<le> run_last r"
    "sum_list (map run_pixels (section_runs view)) < 2 ^ 31"
    using assms(1) by (simp_all add: runs_ok_def)
  then have "unat (base + pixel_at pixel div ?w) < unat count" "unat count < 2 ^ 31"
    using section_fold_count [OF ok(1) section_width_pos, of 0 None view "run_fixture run" "pixel_run pixel"
        wd 0 0 count base previous "pixel_at pixel"] walk assms(3,4) run
    by (auto simp: section_walk_def)
  moreover have "min count 0x7fffffff = count"
    using calculation(2) by (simp add: min_def word_le_nat_alt)
  moreover have "unat (base + pixel_at pixel div ?w) < 2 ^ 31" using calculation(1,2) by simp
  moreover have "uint (base + pixel_at pixel div ?w) < uint count"
    using calculation(1) by (simp add: word_less_nat_alt [symmetric] word_less_def)
  ultimately show ?thesis
    unfolding run_sections_of_def assms(2) sections_query_def option.case Let_def walk
    by (simp add: sint_small)
qed

text \<open>Two runs of one fixture that share a section, and a run of another.\<close>

definition strand :: sections_view where
  "strand = \<lparr>section_runs = [\<lparr>run_fixture = 0, run_first = 0, run_last = 4\<rparr>,
       \<lparr>run_fixture = 0, run_first = 5, run_last = 9\<rparr>, \<lparr>run_fixture = 1, run_first = 2, run_last = 3\<rparr>],
     section_spans = [], section_pixels = [], per_fixture = False\<rparr>"

lemma section_index_counted_witness:
  "runs_ok (section_runs strand) \<and>
   sections_query (run_sections_of strand \<lparr>pixel_run = 2, pixel_at = 3\<rparr> 4)
     \<lparr>pixel_run = 2, pixel_at = 3\<rparr> True = 3 \<and>
   sint (sections_query (run_sections_of strand \<lparr>pixel_run = 2, pixel_at = 3\<rparr> 4)
     \<lparr>pixel_run = 2, pixel_at = 3\<rparr> True) <
   sint (sections_query (run_sections_of strand \<lparr>pixel_run = 2, pixel_at = 3\<rparr> 4)
     \<lparr>pixel_run = 2, pixel_at = 3\<rparr> False)"
proof -
  have "runs_ok (section_runs strand)"
    "nth_opt (section_runs strand) (unat (pixel_run \<lparr>pixel_run = 2, pixel_at = 3\<rparr>)) =
      Some \<lparr>run_fixture = 1, run_first = 2, run_last = 3\<rparr>"
    "sections_query (run_sections_of strand \<lparr>pixel_run = 2, pixel_at = 3\<rparr> 4)
      \<lparr>pixel_run = 2, pixel_at = 3\<rparr> True = 3"
    by (simp_all add: strand_def runs_ok_def run_pixels_def run_sections_of_def section_walk_def
        section_step_def section_width_def int_max_def sections_query_def nth_opt_def)
  then show ?thesis using section_index_counted [of strand "\<lparr>pixel_run = 2, pixel_at = 3\<rparr>"
      "\<lparr>run_fixture = 1, run_first = 2, run_last = 3\<rparr>" 4] by simp
qed

end
