(* ===== verification/StripRanges.thy ===== *)
theory StripRanges
  imports Bytecode "HOL-Library.Monad_Syntax"
begin

text \<open>
  Selections of the strip interpreter, \<open>crates/donder-runtime/src/dsl/vm/strip.rs\<close>: the pixels an
  instruction runs for, as ascending disjoint runs, and the splitting of a selection by a
  condition into a buffer of limited size. A run's ends are \<open>u8\<close> in the source; a strip has 128
  pixels, so they fit and are numbers here.
\<close>

type_synonym selection = "(nat \<times> nat) list"

definition range_sel :: "nat \<Rightarrow> nat \<Rightarrow> selection" where
  "range_sel start stop = [(start, stop)]"

text \<open>The pixels \<open>each\<close> visits, in order.\<close>

definition range_pixels :: "nat \<times> nat \<Rightarrow> nat list" where
  "range_pixels r = [fst r..<min (snd r) STRIP]"

definition pixels :: "selection \<Rightarrow> nat list" where
  "pixels sel = concat (map range_pixels sel)"

text \<open>A loop whose body may panic.\<close>

fun loop :: "('i \<Rightarrow> 's \<Rightarrow> 's option) \<Rightarrow> 'i list \<Rightarrow> 's \<Rightarrow> 's option" where
  "loop visit [] s = Some s"
| "loop visit (i # rest) s = do { s \<leftarrow> visit i s; loop visit rest s }"

definition each :: "selection \<Rightarrow> (nat \<Rightarrow> 's \<Rightarrow> 's option) \<Rightarrow> 's \<Rightarrow> 's option" where
  "each sel visit s = loop visit (pixels sel) s"

text \<open>
  The runs where \<open>keep\<close> holds. A run is open from its first pixel until a pixel that does not
  keep, or the end of its range. What does not fit the buffer is dropped.
\<close>

fun open_runs :: "(nat \<Rightarrow> bool) \<Rightarrow> nat option \<Rightarrow> nat list \<Rightarrow> nat \<Rightarrow> selection" where
  "open_runs keep run [] stop = (case run of None \<Rightarrow> [] | Some first \<Rightarrow> [(first, stop)])"
| "open_runs keep run (i # is) stop =
     (case (keep i, run) of
        (True, None) \<Rightarrow> open_runs keep (Some i) is stop
      | (False, Some first) \<Rightarrow> (first, i) # open_runs keep None is stop
      | _ \<Rightarrow> open_runs keep run is stop)"

definition range_runs :: "(nat \<Rightarrow> bool) \<Rightarrow> nat \<times> nat \<Rightarrow> selection" where
  "range_runs keep r = open_runs keep None (range_pixels r) (min (snd r) STRIP)"

definition filter_sel :: "nat \<Rightarrow> selection \<Rightarrow> (nat \<Rightarrow> bool) \<Rightarrow> selection" where
  "filter_sel capacity sel keep = take capacity (concat (map (range_runs keep) sel))"

section \<open>Selections stay in order and nothing is dropped\<close>

definition sel_ok :: "selection \<Rightarrow> bool" where
  "sel_ok sel \<longleftrightarrow> (\<forall>r \<in> set sel. fst r < snd r \<and> snd r \<le> STRIP) \<and> sorted_wrt (\<lambda>a b. snd a \<le> fst b) sel"

lemma pixels_Nil [simp]: "pixels [] = []"
  by (simp add: pixels_def)

lemma pixels_Cons: "pixels (r # sel) = range_pixels r @ pixels sel"
  by (simp add: pixels_def)

lemma pixels_append [simp]: "pixels (xs @ ys) = pixels xs @ pixels ys"
  by (simp add: pixels_def)

lemma pixels_below: "i \<in> set (pixels sel) \<Longrightarrow> i < STRIP"
  by (auto simp: pixels_def range_pixels_def)

text \<open>One range: the runs of its pixels, with what an open run has already kept.\<close>

definition opened :: "nat \<Rightarrow> nat option \<Rightarrow> nat" where
  "opened start run = (case run of None \<Rightarrow> start | Some first \<Rightarrow> first)"

lemma opened_simps [simp]: "opened start None = start" "opened start (Some first) = first"
  by (simp_all add: opened_def)

lemma open_runs_pixels:
  assumes "start \<le> stop" "stop \<le> STRIP" "opened start run \<le> start"
  shows "pixels (open_runs keep run [start..<stop] stop) =
    [opened start run..<start] @ filter keep [start..<stop]"
  using assms
proof (induction "stop - start" arbitrary: start run)
  case 0
  then show ?case by (cases run) (simp_all add: pixels_Cons range_pixels_def min_absorb1)
next
  case (Suc n)
  then have less: "start < stop" by simp
  then have up: "[start..<stop] = start # [Suc start..<stop]" by (simp add: upt_conv_Cons)
  note ih = Suc.hyps(1) [of "Suc start"]
  show ?case
  proof (cases run)
    case None
    then show ?thesis using ih [of None] ih [of "Some start"] less Suc.prems Suc.hyps(2)
      by (cases "keep start") (simp_all add: up)
  next
    case (Some f)
    then have f: "f \<le> start" using Suc.prems by simp
    then have more: "[f..<Suc start] = [f..<start] @ [start]" by simp
    show ?thesis using ih [of None] ih [of "Some f"] f Some less Suc.prems Suc.hyps(2)
      by (cases "keep start") (simp_all add: up pixels_Cons range_pixels_def min_absorb1 more del: upt_Suc)
  qed
qed

text \<open>An open run began before the pixel at hand.\<close>

definition open_before :: "nat \<Rightarrow> nat option \<Rightarrow> bool" where
  "open_before start run = (case run of None \<Rightarrow> True | Some first \<Rightarrow> first < start)"

lemma open_before_simps [simp]: "open_before start None" "open_before start (Some first) \<longleftrightarrow> first < start"
  by (simp_all add: open_before_def)

lemma open_runs_within:
  assumes "start \<le> stop" "open_before start run"
    and "r \<in> set (open_runs keep run [start..<stop] stop)"
  shows "opened start run \<le> fst r \<and> fst r < snd r \<and> snd r \<le> stop"
  using assms
proof (induction "stop - start" arbitrary: start run)
  case 0
  then show ?case by (cases run) simp_all
next
  case (Suc n)
  then have less: "start < stop" by simp
  then have up: "[start..<stop] = start # [Suc start..<stop]" by (simp add: upt_conv_Cons)
  note ih = Suc.hyps(1) [of "Suc start"]
  show ?case
  proof (cases run)
    case None
    then show ?thesis using ih [of None] ih [of "Some start"] less Suc.prems Suc.hyps(2)
      by (cases "keep start") (fastforce simp: up)+
  next
    case (Some f)
    then show ?thesis using ih [of None] ih [of "Some f"] less Suc.prems Suc.hyps(2)
      by (cases "keep start") (fastforce simp: up)+
  qed
qed

lemma open_runs_sorted:
  assumes "start \<le> stop" "open_before start run"
  shows "sorted_wrt (\<lambda>a b. snd a \<le> fst b) (open_runs keep run [start..<stop] stop)"
  using assms
proof (induction "stop - start" arbitrary: start run)
  case 0
  then show ?case by (cases run) simp_all
next
  case (Suc n)
  then have less: "start < stop" by simp
  then have up: "[start..<stop] = start # [Suc start..<stop]" by (simp add: upt_conv_Cons)
  have within: "\<forall>r \<in> set (open_runs keep None [Suc start..<stop] stop). start \<le> fst r"
    using open_runs_within [of "Suc start" stop None _ keep] less by fastforce
  show ?case using Suc.hyps(1) [of "Suc start" None] Suc.hyps(1) [of "Suc start" "Some start"]
      Suc.hyps(1) [of "Suc start" run] less Suc.prems Suc.hyps(2) within
    by (cases run; cases "keep start") (simp_all add: up)
qed

lemma range_runs_pixels:
  assumes "fst r < snd r" "snd r \<le> STRIP"
  shows "pixels (range_runs keep r) = filter keep (range_pixels r)"
  using assms open_runs_pixels [of "fst r" "snd r" None keep]
  by (simp add: range_runs_def range_pixels_def min_absorb1)

lemma range_runs_within:
  assumes "fst r < snd r" "snd r \<le> STRIP" "a \<in> set (range_runs keep r)"
  shows "fst r \<le> fst a \<and> fst a < snd a \<and> snd a \<le> snd r"
  using assms open_runs_within [of "fst r" "snd r" None a keep]
  by (simp add: range_runs_def range_pixels_def min_absorb1)

lemma range_runs_sorted:
  assumes "fst r < snd r" "snd r \<le> STRIP"
  shows "sorted_wrt (\<lambda>a b. snd a \<le> fst b) (range_runs keep r)"
  using assms open_runs_sorted [of "fst r" "snd r" None keep]
  by (simp add: range_runs_def range_pixels_def min_absorb1)

definition all_runs :: "(nat \<Rightarrow> bool) \<Rightarrow> selection \<Rightarrow> selection" where
  "all_runs keep sel = concat (map (range_runs keep) sel)"

lemma sel_ok_Cons:
  "sel_ok (r # sel) \<longleftrightarrow> fst r < snd r \<and> snd r \<le> STRIP \<and> (\<forall>b \<in> set sel. snd r \<le> fst b) \<and> sel_ok sel"
  by (auto simp: sel_ok_def)

lemma sel_ok_append:
  "sel_ok (xs @ ys) \<longleftrightarrow> sel_ok xs \<and> sel_ok ys \<and> (\<forall>a \<in> set xs. \<forall>b \<in> set ys. snd a \<le> fst b)"
  by (auto simp: sel_ok_def sorted_wrt_append)

lemma sel_ok_take: "sel_ok sel \<Longrightarrow> sel_ok (take n sel)"
  using sel_ok_append [of "take n sel" "drop n sel"] by simp

lemma all_runs_within:
  assumes "sel_ok sel" "a \<in> set (all_runs keep sel)"
  shows "\<exists>r \<in> set sel. fst r \<le> fst a \<and> fst a < snd a \<and> snd a \<le> snd r"
proof -
  obtain r where r: "r \<in> set sel" "a \<in> set (range_runs keep r)" using assms(2) by (auto simp: all_runs_def)
  then have "fst r < snd r" "snd r \<le> STRIP" using assms(1) by (auto simp: sel_ok_def)
  from range_runs_within [OF this r(2)] r(1) show ?thesis by blast
qed

lemma all_runs_ok: "sel_ok sel \<Longrightarrow> sel_ok (all_runs keep sel)"
proof (induction sel)
  case Nil
  then show ?case by (simp add: all_runs_def sel_ok_def)
next
  case (Cons r sel)
  then have r: "fst r < snd r" "snd r \<le> STRIP" "\<forall>b \<in> set sel. snd r \<le> fst b" "sel_ok sel"
    by (simp_all add: sel_ok_Cons)
  have "sel_ok (range_runs keep r)"
    using range_runs_sorted [OF r(1,2)] range_runs_within [OF r(1,2)] r(2)
    by (fastforce simp: sel_ok_def)
  moreover have "snd a \<le> fst b" if a: "a \<in> set (range_runs keep r)" and b: "b \<in> set (all_runs keep sel)" for a b
  proof -
    obtain c where "c \<in> set sel" "fst c \<le> fst b" using all_runs_within [OF r(4) b] by blast
    then show ?thesis using range_runs_within [OF r(1,2) a] r(3) by fastforce
  qed
  ultimately show ?case using Cons.IH r(4) by (simp add: all_runs_def sel_ok_append)
qed

lemma all_runs_pixels: "sel_ok sel \<Longrightarrow> pixels (all_runs keep sel) = filter keep (pixels sel)"
  by (induction sel) (simp_all add: all_runs_def pixels_Cons sel_ok_Cons range_runs_pixels)

text \<open>Every run has a pixel of its own, so a strip's buffer holds the runs of any condition.\<close>

lemma sel_length: "sel_ok sel \<Longrightarrow> length sel \<le> length (pixels sel)"
  by (induction sel) (auto simp: sel_ok_Cons pixels_Cons range_pixels_def)

lemma range_pixels_sorted: "sorted_wrt (<) (range_pixels r)"
  by (simp add: range_pixels_def)

lemma pixels_sorted: "sel_ok sel \<Longrightarrow> sorted_wrt (<) (pixels sel)"
proof (induction sel)
  case Nil
  then show ?case by simp
next
  case (Cons r sel)
  have "i < j" if i: "i \<in> set (range_pixels r)" and j: "j \<in> set (pixels sel)" for i j
  proof -
    obtain c where "c \<in> set sel" "fst c \<le> j" using j by (auto simp: pixels_def range_pixels_def)
    then show ?thesis using Cons.prems i by (fastforce simp: sel_ok_Cons range_pixels_def)
  qed
  then show ?case using Cons by (simp add: sel_ok_Cons pixels_Cons sorted_wrt_append range_pixels_sorted)
qed

lemma pixels_distinct: "sel_ok sel \<Longrightarrow> distinct (pixels sel)"
  using pixels_sorted strict_sorted_iff by blast

lemma pixels_length: "sel_ok sel \<Longrightarrow> length (pixels sel) \<le> STRIP"
proof -
  assume "sel_ok sel"
  then have "length (pixels sel) = card (set (pixels sel))" by (simp add: distinct_card pixels_distinct)
  also have "\<dots> \<le> card {..<STRIP}" by (rule card_mono) (auto dest: pixels_below)
  finally show ?thesis by simp
qed

lemma filter_sel_fits:
  assumes "sel_ok sel" "length (filter keep (pixels sel)) \<le> capacity"
  shows "filter_sel capacity sel keep = all_runs keep sel"
  using assms sel_length [OF all_runs_ok [OF assms(1)], of keep]
  by (simp add: filter_sel_def all_runs_def [symmetric] all_runs_pixels)

lemma filter_sel_ok: "sel_ok sel \<Longrightarrow> sel_ok (filter_sel capacity sel keep)"
  by (simp add: filter_sel_def all_runs_def [symmetric] all_runs_ok sel_ok_take)

lemma filter_sel_pixels:
  assumes "sel_ok sel" "length (filter keep (pixels sel)) \<le> capacity"
  shows "pixels (filter_sel capacity sel keep) = filter keep (pixels sel)"
  using assms by (simp add: filter_sel_fits all_runs_pixels)

lemma filter_both_fit:
  assumes "sel_ok sel"
  shows "length (filter_sel STRIP sel keep) + length (filter (\<lambda>i. \<not> keep i) (pixels sel)) \<le> STRIP"
proof -
  have less: "length (filter keep (pixels sel)) \<le> STRIP"
    using length_filter_le [of keep "pixels sel"] pixels_length [OF assms] by linarith
  then have "length (filter_sel STRIP sel keep) \<le> length (filter keep (pixels sel))"
    using sel_length [OF all_runs_ok [OF assms], of keep] assms
    by (simp add: filter_sel_fits all_runs_pixels)
  moreover have "length (filter keep (pixels sel)) + length (filter (\<lambda>i. \<not> keep i) (pixels sel))
    = length (pixels sel)" by (rule sum_length_filter_compl)
  ultimately show ?thesis using pixels_length [OF assms] by linarith
qed

lemma single_range: "0 < n \<Longrightarrow> n \<le> STRIP \<Longrightarrow> sel_ok (range_sel 0 n) \<and> pixels (range_sel 0 n) = [0..<n]"
  by (simp add: range_sel_def sel_ok_def pixels_def range_pixels_def min_absorb1)

end
