(* ===== verification/StripStore.thy ===== *)
theory StripStore
  imports StripRanges Resources Sections
begin

unbundle bit_operations_syntax

text \<open>
  The cells of the strip interpreter (\<open>crates/donder-runtime/src/dsl/vm/strip.rs\<close> and
  \<open>workspace.rs\<close>): a bank's scalars and rows in one array, operands as windows of it with a mask,
  destinations, and the loops that write a destination from operands. A cell is shared: a read
  sees what was last written, so an operand is read in the workspace at hand. A panic is \<open>None\<close>.
\<close>

section \<open>Stores and workspaces\<close>

definition MASK :: nat where "MASK = STRIP - 1"

record 'a store =
  store_values :: "nat \<Rightarrow> 'a"
  store_len :: nat
  store_scalars :: nat

definition store_length :: "nat \<Rightarrow> nat \<Rightarrow> nat" where
  "store_length scalars rows =
     (let rows = (if scalars = 0 then rows else max rows 1) in scalars + rows * STRIP)"

definition store_new :: "'a \<Rightarrow> nat \<Rightarrow> nat \<Rightarrow> 'a store" where
  "store_new initial scalars rows =
     \<lparr>store_values = \<lambda>_. initial, store_len = store_length scalars rows, store_scalars = scalars\<rparr>"

type_synonym handle = u32

definition PARAM_HANDLE :: u32 where "PARAM_HANDLE = push_bit 31 1"

definition handle_show :: "u32 \<Rightarrow> handle" where
  "handle_show index = index"

definition handle_param :: "u16 \<Rightarrow> handle" where
  "handle_param bank = PARAM_HANDLE OR ucast bank"

definition handle_kind :: "handle \<Rightarrow> u32 + u16" where
  "handle_kind h = (if h AND PARAM_HANDLE = 0 then Inl h else Inr (ucast h))"

record pixel_rows =
  px_index :: "nat \<Rightarrow> i32"
  px_fraction :: "nat \<Rightarrow> f32"
  px_x :: "nat \<Rightarrow> f32"
  px_y :: "nat \<Rightarrow> f32"
  px_sections :: "nat \<Rightarrow> section_pixel"

record workspace =
  ws_pixels :: pixel_rows
  ws_floats :: "f32 store"
  ws_ints :: "i32 store"
  ws_bools :: "bool store"
  ws_handles :: "handle store"

text \<open>The slots a workspace holds, the most of every program it runs.\<close>

record strip_slots =
  slots_scalars :: banks
  slots_rows :: banks
  slots_depth :: u16
  slots_stencils :: bool

definition slots_include :: "banks \<Rightarrow> banks \<Rightarrow> u16 \<Rightarrow> bool \<Rightarrow> strip_slots \<Rightarrow> strip_slots" where
  "slots_include scalars rows depth stencil sl =
     \<lparr>slots_scalars = banks_max (slots_scalars sl) scalars,
      slots_rows = banks_max (slots_rows sl) rows,
      slots_depth = max (slots_depth sl) depth,
      slots_stencils = (slots_stencils sl \<or> stencil)\<rparr>"

text \<open>What \<open>carve\<close> makes of a buffer that is large enough.\<close>

definition carve :: "strip_slots \<Rightarrow> workspace" where
  "carve sl =
     \<lparr>ws_pixels = \<lparr>px_index = \<lambda>_. 0, px_fraction = \<lambda>_. 0, px_x = \<lambda>_. 0, px_y = \<lambda>_. 0,
        px_sections = \<lambda>_. section_pixel_default\<rparr>,
      ws_floats = store_new 0 (unat (floats (slots_scalars sl))) (unat (floats (slots_rows sl))),
      ws_ints = store_new 0 (unat (ints (slots_scalars sl))) (unat (ints (slots_rows sl))),
      ws_bools = store_new False (unat (bools (slots_scalars sl))) (unat (bools (slots_rows sl))),
      ws_handles = store_new 0 (unat (resource_slots (slots_scalars sl)))
        (unat (resource_slots (slots_rows sl)))\<rparr>"

section \<open>Operands and destinations\<close>

record 'a src =
  src_row :: "workspace \<Rightarrow> nat \<Rightarrow> 'a"
  src_mask :: nat

definition src_at :: "'a src \<Rightarrow> workspace \<Rightarrow> nat \<Rightarrow> 'a" where
  "src_at s ws index = src_row s ws (index AND src_mask s AND MASK)"

definition src_is_scalar :: "'a src \<Rightarrow> bool" where
  "src_is_scalar s \<longleftrightarrow> src_mask s = 0"

datatype 'a dst = One "'a \<Rightarrow> workspace \<Rightarrow> workspace" | Many "nat \<Rightarrow> 'a \<Rightarrow> workspace \<Rightarrow> workspace"

text \<open>A bank of the workspace: how it is read, and how it is updated.\<close>

record 'a lens =
  bank_of :: "workspace \<Rightarrow> 'a store"
  with_bank :: "('a store \<Rightarrow> 'a store) \<Rightarrow> workspace \<Rightarrow> workspace"

definition float_bank :: "f32 lens" where
  "float_bank = \<lparr>bank_of = ws_floats, with_bank = ws_floats_update\<rparr>"

definition int_bank :: "i32 lens" where
  "int_bank = \<lparr>bank_of = ws_ints, with_bank = ws_ints_update\<rparr>"

definition bool_bank :: "bool lens" where
  "bool_bank = \<lparr>bank_of = ws_bools, with_bank = ws_bools_update\<rparr>"

definition handle_bank :: "handle lens" where
  "handle_bank = \<lparr>bank_of = ws_handles, with_bank = ws_handles_update\<rparr>"

definition store_write :: "nat \<Rightarrow> 'a \<Rightarrow> 'a store \<Rightarrow> 'a store" where
  "store_write address v st = st\<lparr>store_values := (store_values st)(address := v)\<rparr>"

definition window :: "'a lens \<Rightarrow> nat \<Rightarrow> nat \<Rightarrow> workspace \<Rightarrow> 'a src option" where
  "window b msk start ws =
     (if start + STRIP \<le> store_len (bank_of b ws)
      then Some \<lparr>src_row = \<lambda>w k. store_values (bank_of b w) (start + k), src_mask = msk\<rparr> else None)"

definition row_start :: "'a store \<Rightarrow> u16 \<Rightarrow> nat" where
  "row_start st index = store_scalars st + unat index * STRIP"

definition src_one :: "'a lens \<Rightarrow> workspace \<Rightarrow> u16 \<Rightarrow> 'a src option" where
  "src_one b ws index = window b 0 (unat index) ws"

definition src_many :: "'a lens \<Rightarrow> workspace \<Rightarrow> u16 \<Rightarrow> 'a src option" where
  "src_many b ws index = window b MASK (row_start (bank_of b ws) index) ws"

definition operand :: "'a lens \<Rightarrow> workspace \<Rightarrow> slot \<Rightarrow> 'a src option" where
  "operand b ws s =
     (case slot_kind s of
        Scalar index \<Rightarrow> src_one b ws index
      | Row index \<Rightarrow> src_many b ws index
      | PixelInput _ \<Rightarrow> None)"

definition destination :: "'a lens \<Rightarrow> workspace \<Rightarrow> slot \<Rightarrow> 'a dst option" where
  "destination b ws s =
     (case slot_kind s of
        Scalar index \<Rightarrow>
          if unat index < store_len (bank_of b ws)
          then Some (One (\<lambda>v. with_bank b (store_write (unat index) v))) else None
      | Row index \<Rightarrow>
          let start = row_start (bank_of b ws) index
          in if start + STRIP \<le> store_len (bank_of b ws)
             then Some (Many (\<lambda>k v. with_bank b (store_write (start + k) v))) else None
      | PixelInput _ \<Rightarrow> None)"

definition input_src :: "(pixel_rows \<Rightarrow> nat \<Rightarrow> 'a) \<Rightarrow> 'a src" where
  "input_src row = \<lparr>src_row = \<lambda>w. row (ws_pixels w), src_mask = MASK\<rparr>"

definition float_src :: "workspace \<Rightarrow> slot \<Rightarrow> f32 src option" where
  "float_src ws s =
     (case slot_kind s of
        Scalar index \<Rightarrow> src_one float_bank ws index
      | Row index \<Rightarrow> src_many float_bank ws index
      | PixelInput PixelX \<Rightarrow> Some (input_src px_x)
      | PixelInput PixelY \<Rightarrow> Some (input_src px_y)
      | PixelInput _ \<Rightarrow> Some (input_src px_fraction))"

definition int_src :: "workspace \<Rightarrow> slot \<Rightarrow> i32 src option" where
  "int_src ws s =
     (case slot_kind s of
        Scalar index \<Rightarrow> src_one int_bank ws index
      | Row index \<Rightarrow> src_many int_bank ws index
      | PixelInput _ \<Rightarrow> Some (input_src px_index))"

definition bool_src :: "workspace \<Rightarrow> slot \<Rightarrow> bool src option" where
  "bool_src ws s = operand bool_bank ws s"

definition handle_src :: "workspace \<Rightarrow> slot \<Rightarrow> handle src option" where
  "handle_src ws s = operand handle_bank ws s"

definition float_dst :: "workspace \<Rightarrow> slot \<Rightarrow> f32 dst option" where
  "float_dst ws s = destination float_bank ws s"

definition int_dst :: "workspace \<Rightarrow> slot \<Rightarrow> i32 dst option" where
  "int_dst ws s = destination int_bank ws s"

definition bool_dst :: "workspace \<Rightarrow> slot \<Rightarrow> bool dst option" where
  "bool_dst ws s = destination bool_bank ws s"

definition handle_dst :: "workspace \<Rightarrow> slot \<Rightarrow> handle dst option" where
  "handle_dst ws s = destination handle_bank ws s"

type_synonym color_src = "f32 src \<times> f32 src \<times> f32 src"
type_synonym color_dst = "f32 dst \<times> f32 dst \<times> f32 dst"

definition color_src_of :: "workspace \<Rightarrow> slot \<Rightarrow> color_src option" where
  "color_src_of ws s =
     do { r \<leftarrow> float_src ws s; g \<leftarrow> float_src ws (slot_channel s 1); b \<leftarrow> float_src ws (slot_channel s 2);
          Some (r, g, b) }"

definition color_dst_of :: "workspace \<Rightarrow> slot \<Rightarrow> color_dst option" where
  "color_dst_of ws s =
     do { r \<leftarrow> float_dst ws s; g \<leftarrow> float_dst ws (slot_channel s 1); b \<leftarrow> float_dst ws (slot_channel s 2);
          Some (r, g, b) }"

definition color_at :: "color_src \<Rightarrow> workspace \<Rightarrow> nat \<Rightarrow> color" where
  "color_at c ws index =
     (case c of (r, g, b) \<Rightarrow>
        \<lparr>red = src_at r ws index, green = src_at g ws index, blue = src_at b ws index\<rparr>)"

section \<open>Loops over a selection\<close>

text \<open>
  A closure may keep a cell of its own between pixels (a search's cursor, a cached run) and may
  panic. \<open>pure\<close> is a closure that does neither.
\<close>

definition pure :: "'d \<Rightarrow> 'c \<Rightarrow> ('d \<times> 'c) option" where
  "pure v c = Some (v, c)"

definition fallible :: "'d option \<Rightarrow> 'c \<Rightarrow> ('d \<times> 'c) option" where
  "fallible v c = map_option (\<lambda>v. (v, c)) v"

definition write_one ::
  "('d \<Rightarrow> workspace \<Rightarrow> workspace) \<Rightarrow> ('d \<times> 'c) option \<Rightarrow> workspace \<Rightarrow> workspace option" where
  "write_one put v ws = map_option (\<lambda>(v, _). put v ws) v"

definition write_each ::
  "selection \<Rightarrow> (nat \<Rightarrow> 'd \<Rightarrow> workspace \<Rightarrow> workspace) \<Rightarrow>
   (workspace \<Rightarrow> nat \<Rightarrow> 'c \<Rightarrow> ('d \<times> 'c) option) \<Rightarrow> 'c \<Rightarrow> workspace \<Rightarrow> workspace option" where
  "write_each sel put value c ws =
     map_option fst (each sel (\<lambda>i (ws, c). map_option (\<lambda>(v, c). (put i v ws, c)) (value ws i c)) (ws, c))"

definition strip_map1 ::
  "selection \<Rightarrow> 'd dst \<Rightarrow> 'a src \<Rightarrow> ('a \<Rightarrow> 'c \<Rightarrow> ('d \<times> 'c) option) \<Rightarrow> 'c \<Rightarrow> workspace \<Rightarrow> workspace option" where
  "strip_map1 sel dst a f c ws =
     (case dst of
        One put \<Rightarrow> write_one put (f (src_at a ws 0) c) ws
      | Many put \<Rightarrow>
          if src_is_scalar a
          then do { (v, _) \<leftarrow> f (src_at a ws 0) c; write_each sel put (\<lambda>_ _. pure v) () ws }
          else write_each sel put (\<lambda>ws i. f (src_row a ws i)) c ws)"

definition strip_map2 ::
  "selection \<Rightarrow> 'd dst \<Rightarrow> 'a src \<Rightarrow> 'b src \<Rightarrow> ('a \<Rightarrow> 'b \<Rightarrow> 'd) \<Rightarrow> workspace \<Rightarrow> workspace option" where
  "strip_map2 sel dst a b f ws =
     (case dst of
        One put \<Rightarrow> Some (put (f (src_at a ws 0) (src_at b ws 0)) ws)
      | Many put \<Rightarrow>
          if \<not> src_is_scalar a \<and> \<not> src_is_scalar b
          then write_each sel put (\<lambda>ws i. pure (f (src_row a ws i) (src_row b ws i))) () ws
          else if \<not> src_is_scalar a then
            let b = src_at b ws 0 in write_each sel put (\<lambda>ws i. pure (f (src_row a ws i) b)) () ws
          else write_each sel put (\<lambda>ws i. pure (f (src_at a ws i) (src_at b ws i))) () ws)"

definition strip_map3 ::
  "selection \<Rightarrow> 'd dst \<Rightarrow> 'a src \<Rightarrow> 'b src \<Rightarrow> 'e src \<Rightarrow> ('a \<Rightarrow> 'b \<Rightarrow> 'e \<Rightarrow> 'd) \<Rightarrow> workspace \<Rightarrow> workspace option" where
  "strip_map3 sel dst a b c f ws =
     (case dst of
        One put \<Rightarrow> Some (put (f (src_at a ws 0) (src_at b ws 0) (src_at c ws 0)) ws)
      | Many put \<Rightarrow>
          if \<not> src_is_scalar a \<and> src_is_scalar b \<and> src_is_scalar c then
            let b = src_at b ws 0; c = src_at c ws 0
            in write_each sel put (\<lambda>ws i. pure (f (src_row a ws i) b c)) () ws
          else write_each sel put (\<lambda>ws i. pure (f (src_at a ws i) (src_at b ws i) (src_at c ws i))) () ws)"

definition pick_each ::
  "selection \<Rightarrow> 'd dst \<Rightarrow> (workspace \<Rightarrow> nat \<Rightarrow> 'c \<Rightarrow> ('d \<times> 'c) option) \<Rightarrow> 'c \<Rightarrow> workspace \<Rightarrow> workspace option" where
  "pick_each sel dst value c ws =
     (case dst of
        One put \<Rightarrow> write_one put (value ws 0 c) ws
      | Many put \<Rightarrow> write_each sel put value c ws)"

definition apply1 ::
  "selection \<Rightarrow> 'd dst \<Rightarrow> 'a src \<Rightarrow> ('a \<Rightarrow> 'c \<Rightarrow> ('d \<times> 'c) option) \<Rightarrow> 'c \<Rightarrow> workspace \<Rightarrow> workspace option" where
  "apply1 sel dst a f c ws =
     (case dst of
        One put \<Rightarrow> write_one put (f (src_at a ws 0) c) ws
      | Many put \<Rightarrow> write_each sel put (\<lambda>ws i. f (src_at a ws i)) c ws)"

definition apply2 ::
  "selection \<Rightarrow> 'd dst \<Rightarrow> 'a src \<Rightarrow> 'b src \<Rightarrow> ('a \<Rightarrow> 'b \<Rightarrow> 'c \<Rightarrow> ('d \<times> 'c) option) \<Rightarrow> 'c \<Rightarrow>
   workspace \<Rightarrow> workspace option" where
  "apply2 sel dst a b f c ws =
     (case dst of
        One put \<Rightarrow> write_one put (f (src_at a ws 0) (src_at b ws 0) c) ws
      | Many put \<Rightarrow> write_each sel put (\<lambda>ws i. f (src_at a ws i) (src_at b ws i)) c ws)"

definition apply3 ::
  "selection \<Rightarrow> 'd dst \<Rightarrow> 'a src \<Rightarrow> 'b src \<Rightarrow> 'e src \<Rightarrow> ('a \<Rightarrow> 'b \<Rightarrow> 'e \<Rightarrow> 'c \<Rightarrow> ('d \<times> 'c) option) \<Rightarrow> 'c \<Rightarrow>
   workspace \<Rightarrow> workspace option" where
  "apply3 sel dst a b e f c ws =
     (case dst of
        One put \<Rightarrow> write_one put (f (src_at a ws 0) (src_at b ws 0) (src_at e ws 0) c) ws
      | Many put \<Rightarrow> write_each sel put (\<lambda>ws i. f (src_at a ws i) (src_at b ws i) (src_at e ws i)) c ws)"

text \<open>A color's channels are written together, from one value.\<close>

definition pick_color ::
  "selection \<Rightarrow> color_dst \<Rightarrow> (workspace \<Rightarrow> nat \<Rightarrow> color option) \<Rightarrow> workspace \<Rightarrow> workspace option" where
  "pick_color sel dst value ws =
     (case dst of
        (Many r, Many g, Many b) \<Rightarrow>
          each sel (\<lambda>i ws. map_option (\<lambda>c. b i (blue c) (g i (green c) (r i (red c) ws))) (value ws i)) ws
      | (r, g, b) \<Rightarrow>
          map_option (\<lambda>c. fold (\<lambda>(dst, v) ws. case dst of One put \<Rightarrow> put v ws | Many _ \<Rightarrow> ws)
              [(r, red c), (g, green c), (b, blue c)] ws) (value ws 0))"

definition set_scalar :: "'d dst \<Rightarrow> 'd \<Rightarrow> workspace \<Rightarrow> workspace" where
  "set_scalar dst v ws = (case dst of One put \<Rightarrow> put v ws | Many _ \<Rightarrow> ws)"

definition set_first :: "'d dst \<Rightarrow> 'd \<Rightarrow> workspace \<Rightarrow> workspace" where
  "set_first dst v ws = (case dst of Many put \<Rightarrow> put 0 v ws | One _ \<Rightarrow> ws)"

end
