(* ===== verification/StripSteps.thy ===== *)
theory StripSteps
  imports StripStore
begin

unbundle bit_operations_syntax

text \<open>
  The instructions of the strip interpreter that nest no code,
  \<open>crates/donder-runtime/src/dsl/vm/strip.rs\<close>: \<open>step\<close> and what it calls. What an instruction reads
  besides its slots (the show, its bound parameters, the frame's clock and target) is a \<open>machine\<close>;
  the provider of other layers' pixels is \<open>signals\<close>. The source passes it as \<open>&mut\<close>, for scans; the two
  queries the modelled instructions make read frames evaluated before and change nothing, in both
  implementors (\<open>NoSignals\<close> here and \<open>FrameSignals\<close> of \<open>evaluation.rs\<close>), so that the provider is a
  function of the query.
\<close>

section \<open>What a strip runs with\<close>

record machine =
  m_arith :: arith
  m_show :: show_image
  m_resources :: "u32 list"
  m_params :: params_view
  m_sections :: "sections_view option"
  m_seconds :: f32
  m_duration :: f32
  m_progress :: f32
  m_frame_rate :: f32
  m_frames_elapsed :: u32
  m_pixel_count :: i32
  m_min :: "f32 \<times> f32"
  m_max :: "f32 \<times> f32"

record signals =
  read_strip :: "nat \<Rightarrow> nat \<Rightarrow> color"
  read_pixel :: "nat \<Rightarrow> nat \<Rightarrow> i32 signal_pixel \<Rightarrow> color"

definition no_signals :: signals where
  "no_signals = \<lparr>read_strip = \<lambda>_ _. black, read_pixel = \<lambda>_ _ _. black\<rparr>"

section \<open>Resources\<close>

definition word_color :: "machine \<Rightarrow> u32 \<Rightarrow> color option" where
  "word_color m word = nth_opt (show_colors (m_show m)) (unat word)"

definition handle_curve :: "machine \<Rightarrow> handle \<Rightarrow> curve_view option" where
  "handle_curve m h =
     (case handle_kind h of
        Inl index \<Rightarrow> show_curve (m_show m) index
      | Inr bank \<Rightarrow> do { slot \<leftarrow> params_resource (m_params m) bank; params_curve (m_params m) (m_show m) slot })"

definition handle_gradient :: "machine \<Rightarrow> handle \<Rightarrow> (gradient_space \<times> bound_stop list) option" where
  "handle_gradient m h =
     (case handle_kind h of Inl index \<Rightarrow> show_gradient (m_show m) index | Inr _ \<Rightarrow> None)"

definition handle_marks :: "machine \<Rightarrow> handle \<Rightarrow> mark_window option" where
  "handle_marks m h =
     (case handle_kind h of
        Inl index \<Rightarrow> show_mark_window (m_show m) index
      | Inr bank \<Rightarrow> do { slot \<leftarrow> params_resource (m_params m) bank; params_marks (m_params m) (m_show m) slot })"

definition handle_array :: "machine \<Rightarrow> handle \<Rightarrow> show_value list option" where
  "handle_array m h =
     (case handle_kind h of Inl index \<Rightarrow> show_array (m_show m) index | Inr _ \<Rightarrow> None)"

definition curve_query :: "machine \<Rightarrow> curve_op \<Rightarrow> handle \<Rightarrow> f32 \<Rightarrow> f32 \<Rightarrow> f32 option" where
  "curve_query m op h v before =
     do { cv \<leftarrow> handle_curve m h;
          case op of
            CurveSample \<Rightarrow> view_sample (m_arith m) cv v
          | CurveIntegral \<Rightarrow> view_integral (m_arith m) cv v
          | CurveCrossing \<Rightarrow> Some (view_crossing (m_arith m) cv v)
          | CurveLastCrossing \<Rightarrow> view_last_crossing (m_arith m) cv v before }"

definition bound_span :: "bound_stop \<Rightarrow> bound_stop \<Rightarrow> f32" where
  "bound_span stop _ = bound_inverse stop"

definition gradient_color :: "machine \<Rightarrow> gradient_space \<times> bound_stop list \<Rightarrow> f32 \<Rightarrow> f32 option \<Rightarrow> color option" where
  "gradient_color m g pos scale =
     (case scale of
        Some s \<Rightarrow> gradient_color_scaled (m_arith m) bound_span (fst g) (snd g) pos s
      | None \<Rightarrow> sample_gradient_stops (m_arith m) bound_span (fst g) (snd g) pos)"

definition resource_length :: "machine \<Rightarrow> resource \<Rightarrow> handle \<Rightarrow> i32 option" where
  "resource_length m kind h =
     (case kind of
        RMarks \<Rightarrow> map_option (\<lambda>w. of_nat (length (ticks w))) (handle_marks m h)
      | _ \<Rightarrow> map_option (\<lambda>items. of_nat (length items)) (handle_array m h))"

definition array_item :: "machine \<Rightarrow> handle \<Rightarrow> i32 \<Rightarrow> show_value option option" where
  "array_item m h index =
     do { items \<leftarrow> handle_array m h;
          Some (if items = [] then None else Some (items ! clamp_array_index index (length items))) }"

definition VALUE_INT :: u32 where "VALUE_INT = 1"
definition VALUE_FLOAT :: u32 where "VALUE_FLOAT = 2"
definition VALUE_BOOL :: u32 where "VALUE_BOOL = 3"
definition VALUE_COLOR :: u32 where "VALUE_COLOR = 4"
definition VALUE_ENUM :: u32 where "VALUE_ENUM = 5"

definition int_item :: "show_value option \<Rightarrow> i32 \<Rightarrow> i32" where
  "int_item item fallback =
     (case item of
        Some v \<Rightarrow> if show_value_kind v = VALUE_INT \<or> show_value_kind v = VALUE_ENUM
                  then show_value_word v else fallback
      | None \<Rightarrow> fallback)"

definition float_item :: "machine \<Rightarrow> show_value option \<Rightarrow> f32 \<Rightarrow> f32" where
  "float_item m item fallback =
     (case item of
        Some v \<Rightarrow> if show_value_kind v = VALUE_FLOAT then show_value_word v
                  else if show_value_kind v = VALUE_INT then of_i32 (m_arith m) (show_value_word v)
                  else fallback
      | None \<Rightarrow> fallback)"

definition bool_item :: "show_value option \<Rightarrow> bool \<Rightarrow> bool" where
  "bool_item item fallback =
     (case item of
        Some v \<Rightarrow> if show_value_kind v = VALUE_BOOL then show_value_word v \<noteq> 0 else fallback
      | None \<Rightarrow> fallback)"

definition color_item :: "machine \<Rightarrow> show_value option \<Rightarrow> color \<Rightarrow> color option" where
  "color_item m item fallback =
     (case item of
        Some v \<Rightarrow> if show_value_kind v = VALUE_COLOR then word_color m (show_value_word v) else Some fallback
      | None \<Rightarrow> Some fallback)"

definition section_query ::
  "machine \<Rightarrow> bool \<Rightarrow> workspace \<Rightarrow> nat \<Rightarrow> i32 \<Rightarrow> run_sections option \<Rightarrow> i32 \<times> run_sections option" where
  "section_query m index ws i wd run =
     (case m_sections m of
        None \<Rightarrow>
          (single_section_query (px_index (ws_pixels ws) (i AND MASK)) (m_pixel_count m) wd index, run)
      | Some target \<Rightarrow>
          let pixel = px_sections (ws_pixels ws) (i AND MASK);
              fresh = run_sections_of target pixel wd;
              sections = (case run of
                  Some s \<Rightarrow> if sections_key s = (pixel_run pixel, wd) then s else fresh
                | None \<Rightarrow> fresh)
          in (sections_query sections pixel index, Some sections))"

definition context_float :: "machine \<Rightarrow> context_read \<Rightarrow> f32" where
  "context_float m rd =
     (case rd of
        CSeconds \<Rightarrow> m_seconds m
      | CProgress \<Rightarrow> m_progress m
      | CDuration \<Rightarrow> m_duration m
      | CFrameRate \<Rightarrow> m_frame_rate m
      | CTargetMinX \<Rightarrow> fst (m_min m)
      | CTargetMinY \<Rightarrow> snd (m_min m)
      | CTargetMaxX \<Rightarrow> fst (m_max m)
      | _ \<Rightarrow> snd (m_max m))"

definition component :: "machine \<Rightarrow> color_component \<Rightarrow> color \<Rightarrow> f32" where
  "component m op c =
     (case op of
        Hue \<Rightarrow> color_hue (m_arith m) c
      | Saturation \<Rightarrow> color_saturation (m_arith m) c
      | Intensity \<Rightarrow> color_intensity c)"

section \<open>Assignments and comparisons\<close>

definition strip_choose :: "bool \<Rightarrow> 'a \<Rightarrow> 'a \<Rightarrow> 'a" where
  "strip_choose c yes no = (if c then yes else no)"

definition channels :: "u16 \<Rightarrow> u16 list" where
  "channels n = map of_nat [0..<unat n]"

definition strip_assign :: "bank \<Rightarrow> slot \<Rightarrow> slot \<Rightarrow> selection \<Rightarrow> workspace \<Rightarrow> workspace option" where
  "strip_assign bank dst src sel ws =
     (case bank of
        BInt \<Rightarrow> do { d \<leftarrow> int_dst ws dst; a \<leftarrow> int_src ws src; strip_map1 sel d a pure () ws }
      | BBool \<Rightarrow> do { d \<leftarrow> bool_dst ws dst; a \<leftarrow> bool_src ws src; strip_map1 sel d a pure () ws }
      | BResource \<Rightarrow> do { d \<leftarrow> handle_dst ws dst; a \<leftarrow> handle_src ws src; strip_map1 sel d a pure () ws }
      | _ \<Rightarrow> loop (\<lambda>channel ws.
          do { d \<leftarrow> float_dst ws (slot_channel dst channel); a \<leftarrow> float_src ws (slot_channel src channel);
               strip_map1 sel d a pure () ws }) (channels (bank_width bank)) ws)"

definition int_compare :: "compare_op \<Rightarrow> i32 \<Rightarrow> i32 \<Rightarrow> bool" where
  "int_compare op a b =
     (case op of
        CmpLess \<Rightarrow> sint a < sint b
      | CmpLessEqual \<Rightarrow> sint a \<le> sint b
      | CmpGreater \<Rightarrow> sint b < sint a
      | CmpGreaterEqual \<Rightarrow> sint b \<le> sint a
      | CmpEqual \<Rightarrow> a = b
      | CmpNotEqual \<Rightarrow> a \<noteq> b)"

definition float_compare :: "compare_op \<Rightarrow> f32 \<Rightarrow> f32 \<Rightarrow> bool" where
  "float_compare op a b =
     (case op of
        CmpLess \<Rightarrow> f32_lt a b
      | CmpLessEqual \<Rightarrow> f32_le a b
      | CmpGreater \<Rightarrow> f32_lt b a
      | CmpGreaterEqual \<Rightarrow> f32_le b a
      | CmpEqual \<Rightarrow> f32_eq a b
      | CmpNotEqual \<Rightarrow> \<not> f32_eq a b)"

definition strip_compare ::
  "compare_op \<Rightarrow> bank \<Rightarrow> slot \<Rightarrow> slot \<Rightarrow> slot \<Rightarrow> selection \<Rightarrow> workspace \<Rightarrow> workspace option" where
  "strip_compare op bank dst a b sel ws =
     do { d \<leftarrow> bool_dst ws dst;
          case bank of
            BBool \<Rightarrow> do { a \<leftarrow> bool_src ws a; b \<leftarrow> bool_src ws b;
                          strip_map2 sel d a b (\<lambda>a b. (a = b) \<noteq> (op = CmpNotEqual)) ws }
          | BInt \<Rightarrow> do { a \<leftarrow> int_src ws a; b \<leftarrow> int_src ws b; strip_map2 sel d a b (int_compare op) ws }
          | _ \<Rightarrow> do { a \<leftarrow> float_src ws a; b \<leftarrow> float_src ws b;
                      strip_map2 sel d a b (float_compare op) ws } }"

definition strip_index ::
  "machine \<Rightarrow> bank \<Rightarrow> slot \<Rightarrow> slot \<Rightarrow> slot \<Rightarrow> slot \<Rightarrow> selection \<Rightarrow> workspace \<Rightarrow> workspace option" where
  "strip_index m bank dst array index fallback sel ws =
     do { array \<leftarrow> handle_src ws array; index \<leftarrow> int_src ws index;
          let item = (\<lambda>ws i. array_item m (src_at array ws i) (src_at index ws i)) in
          case bank of
            BFloat \<Rightarrow> do { f \<leftarrow> float_src ws fallback; d \<leftarrow> float_dst ws dst;
              pick_each sel d (\<lambda>ws i. fallible (map_option (\<lambda>v. float_item m v (src_at f ws i)) (item ws i))) () ws }
          | BInt \<Rightarrow> do { f \<leftarrow> int_src ws fallback; d \<leftarrow> int_dst ws dst;
              pick_each sel d (\<lambda>ws i. fallible (map_option (\<lambda>v. int_item v (src_at f ws i)) (item ws i))) () ws }
          | BBool \<Rightarrow> do { f \<leftarrow> bool_src ws fallback; d \<leftarrow> bool_dst ws dst;
              pick_each sel d (\<lambda>ws i. fallible (map_option (\<lambda>v. bool_item v (src_at f ws i)) (item ws i))) () ws }
          | BColor \<Rightarrow> do { f \<leftarrow> color_src_of ws fallback; d \<leftarrow> color_dst_of ws dst;
              pick_color sel d (\<lambda>ws i. do { v \<leftarrow> item ws i; color_item m v (color_at f ws i) }) ws }
          | BResource \<Rightarrow> do { f \<leftarrow> handle_src ws fallback; d \<leftarrow> handle_dst ws dst;
              pick_each sel d (\<lambda>ws i. fallible (map_option (\<lambda>v. case v of
                  Some v \<Rightarrow> handle_show (show_value_word v) | None \<Rightarrow> src_at f ws i) (item ws i))) () ws } }"

definition strip_sample :: "signals \<Rightarrow> slot \<Rightarrow> u16 \<Rightarrow> slot signal_pixel \<Rightarrow> selection \<Rightarrow> workspace \<Rightarrow> workspace option" where
  "strip_sample sg dst input pixel sel ws =
     do { d \<leftarrow> color_dst_of ws dst;
          case pixel of
            Current \<Rightarrow> pick_color sel d (\<lambda>_ i. Some (read_strip sg (unat input) i)) ws
          | _ \<Rightarrow>
            do { a \<leftarrow> (case signal_pixel_index pixel of Some index \<Rightarrow> int_src ws index | None \<Rightarrow> None);
                 case d of
                   (Many r, Many g, Many b) \<Rightarrow>
                     pick_color sel d (\<lambda>ws i. Some (read_pixel sg (unat input) i
                       (signal_pixel_map (\<lambda>_. src_at a ws i) pixel))) ws
                 | _ \<Rightarrow> None } }"

section \<open>One instruction\<close>

definition float_map2 :: "arith \<Rightarrow> float_binary \<Rightarrow> selection \<Rightarrow> f32 dst \<Rightarrow> f32 src \<Rightarrow> f32 src \<Rightarrow>
    workspace \<Rightarrow> workspace option" where
  "float_map2 ar op sel d a b ws =
     (case op of
        FAdd \<Rightarrow> strip_map2 sel d a b (add ar) ws
      | FSubtract \<Rightarrow> strip_map2 sel d a b (subtract ar) ws
      | FMultiply \<Rightarrow> strip_map2 sel d a b (multiply ar) ws
      | FDivide \<Rightarrow> strip_map2 sel d a b (divide_by ar) ws
      | FMin \<Rightarrow> strip_map2 sel d a b min_float ws
      | FMax \<Rightarrow> strip_map2 sel d a b max_float ws
      | FValueOr \<Rightarrow> strip_map2 sel d a b value_or ws
      | _ \<Rightarrow> apply2 sel d a b (\<lambda>a b. pure (float_binary ar op a b)) () ws)"

definition strip_curve ::
  "machine \<Rightarrow> curve_op \<Rightarrow> slot \<Rightarrow> slot \<Rightarrow> slot \<Rightarrow> slot \<Rightarrow> selection \<Rightarrow> workspace \<Rightarrow> workspace option" where
  "strip_curve m op dst curve v before sel ws =
     do { d \<leftarrow> float_dst ws dst; h \<leftarrow> handle_src ws curve; v \<leftarrow> float_src ws v;
          if op = CurveSample \<and> src_is_scalar h then
            do { view \<leftarrow> handle_curve m (src_at h ws 0);
                 strip_map1 sel d v (\<lambda>v. fallible (view_sample (m_arith m) view v)) () ws }
          else if op = CurveCrossing \<and> src_is_scalar h then
            do { view \<leftarrow> handle_curve m (src_at h ws 0);
                 strip_map1 sel d v (\<lambda>v. pure (view_crossing (m_arith m) view v)) () ws }
          else if op = CurveLastCrossing then
            do { before \<leftarrow> float_src ws before;
                 apply3 sel d h v before (\<lambda>h v before. fallible (curve_query m op h v before)) () ws }
          else apply2 sel d h v (\<lambda>h v. fallible (curve_query m op h v 0)) () ws }"

definition strip_gradient ::
  "machine \<Rightarrow> slot \<Rightarrow> slot \<Rightarrow> slot \<Rightarrow> slot \<Rightarrow> selection \<Rightarrow> workspace \<Rightarrow> workspace option" where
  "strip_gradient m dst gradient pos scale sel ws =
     do { d \<leftarrow> color_dst_of ws dst; h \<leftarrow> handle_src ws gradient; p \<leftarrow> float_src ws pos;
          s \<leftarrow> (if slot_is_none scale then Some None else map_option Some (float_src ws scale));
          let scale_at = (\<lambda>ws i. map_option (\<lambda>s. src_at s ws i) s) in
          if src_is_scalar h then
            do { g \<leftarrow> handle_gradient m (src_at h ws 0);
                 pick_color sel d (\<lambda>ws i. gradient_color m g (src_at p ws i) (scale_at ws i)) ws }
          else pick_color sel d (\<lambda>ws i.
            do { g \<leftarrow> handle_gradient m (src_at h ws i);
                 gradient_color m g (src_at p ws i) (scale_at ws i) }) ws }"

definition strip_mark ::
  "machine \<Rightarrow> mark_op \<Rightarrow> slot \<Rightarrow> slot \<Rightarrow> slot \<Rightarrow> selection \<Rightarrow> workspace \<Rightarrow> workspace option" where
  "strip_mark m op dst marks x sel ws =
     do { h \<leftarrow> handle_src ws marks;
          let ar = m_arith m; cursor = (0 :: nat) in
          if src_is_scalar h then
            do { w \<leftarrow> handle_marks m (src_at h ws 0);
                 case op of
                   MarkAt \<Rightarrow> do { d \<leftarrow> float_dst ws dst; x \<leftarrow> int_src ws x;
                     strip_map1 sel d x (\<lambda>index. pure (mark_at ar w index)) cursor ws }
                 | MarkLast \<Rightarrow> do { d \<leftarrow> float_dst ws dst; x \<leftarrow> float_src ws x;
                     strip_map1 sel d x (\<lambda>seconds c. Some (previous_mark_time ar w seconds c)) cursor ws }
                 | MarkLastIndex \<Rightarrow> do { d \<leftarrow> int_dst ws dst; x \<leftarrow> float_src ws x;
                     strip_map1 sel d x (\<lambda>seconds c. Some (previous_mark_index ar w seconds c)) cursor ws } }
          else case op of
              MarkAt \<Rightarrow> do { d \<leftarrow> float_dst ws dst; x \<leftarrow> int_src ws x;
                apply2 sel d h x (\<lambda>h index. fallible (map_option (\<lambda>w. mark_at ar w index) (handle_marks m h))) cursor ws }
            | MarkLast \<Rightarrow> do { d \<leftarrow> float_dst ws dst; x \<leftarrow> float_src ws x;
                apply2 sel d h x (\<lambda>h seconds c.
                  map_option (\<lambda>w. previous_mark_time ar w seconds c) (handle_marks m h)) cursor ws }
            | MarkLastIndex \<Rightarrow> do { d \<leftarrow> int_dst ws dst; x \<leftarrow> float_src ws x;
                apply2 sel d h x (\<lambda>h seconds c.
                  map_option (\<lambda>w. previous_mark_index ar w seconds c) (handle_marks m h)) cursor ws } }"

definition strip_select ::
  "bank \<Rightarrow> slot \<Rightarrow> slot \<Rightarrow> slot \<Rightarrow> slot \<Rightarrow> selection \<Rightarrow> workspace \<Rightarrow> workspace option" where
  "strip_select bank dst condition yes no sel ws =
     do { c \<leftarrow> bool_src ws condition;
          case bank of
            BInt \<Rightarrow> do { d \<leftarrow> int_dst ws dst; y \<leftarrow> int_src ws yes; n \<leftarrow> int_src ws no;
                         strip_map3 sel d c y n strip_choose ws }
          | BBool \<Rightarrow> do { d \<leftarrow> bool_dst ws dst; y \<leftarrow> bool_src ws yes; n \<leftarrow> bool_src ws no;
                          strip_map3 sel d c y n strip_choose ws }
          | BResource \<Rightarrow> do { d \<leftarrow> handle_dst ws dst; y \<leftarrow> handle_src ws yes; n \<leftarrow> handle_src ws no;
                              strip_map3 sel d c y n strip_choose ws }
          | _ \<Rightarrow> loop (\<lambda>channel ws.
              do { d \<leftarrow> float_dst ws (slot_channel dst channel);
                   y \<leftarrow> float_src ws (slot_channel yes channel); n \<leftarrow> float_src ws (slot_channel no channel);
                   strip_map3 sel d c y n strip_choose ws }) (channels (bank_width bank)) ws }"

definition strip_lookup ::
  "bank \<Rightarrow> slot \<Rightarrow> slot \<Rightarrow> slot \<Rightarrow> slot \<Rightarrow> selection \<Rightarrow> workspace \<Rightarrow> workspace option" where
  "strip_lookup bank dst table index start sel ws =
     do { x \<leftarrow> int_src ws index; s \<leftarrow> int_src ws start;
          let at = (\<lambda>ws i. unat (src_at x ws i - src_at s ws i)) in
          case bank of
            BInt \<Rightarrow> do { t \<leftarrow> int_src ws table; d \<leftarrow> int_dst ws dst;
                         pick_each sel d (\<lambda>ws i. pure (src_at t ws (at ws i))) () ws }
          | BBool \<Rightarrow> do { t \<leftarrow> bool_src ws table; d \<leftarrow> bool_dst ws dst;
                          pick_each sel d (\<lambda>ws i. pure (src_at t ws (at ws i))) () ws }
          | _ \<Rightarrow> do { t \<leftarrow> float_src ws table; d \<leftarrow> float_dst ws dst;
                      pick_each sel d (\<lambda>ws i. pure (src_at t ws (at ws i))) () ws } }"

definition strip_param :: "machine \<Rightarrow> bank \<Rightarrow> slot \<Rightarrow> u16 \<Rightarrow> selection \<Rightarrow> workspace \<Rightarrow> workspace option" where
  "strip_param m bank dst index sel ws =
     (let word = nth_opt (param_words (m_params m)) (unat index)
      in case bank of
           BFloat \<Rightarrow> do { d \<leftarrow> float_dst ws dst; w \<leftarrow> word; Some (set_scalar d w ws) }
         | BInt \<Rightarrow> do { d \<leftarrow> int_dst ws dst; w \<leftarrow> word; Some (set_scalar d w ws) }
         | BBool \<Rightarrow> do { d \<leftarrow> bool_dst ws dst; w \<leftarrow> word; Some (set_scalar d (w \<noteq> 0) ws) }
         | BColor \<Rightarrow> do { w \<leftarrow> word; c \<leftarrow> word_color m w; d \<leftarrow> color_dst_of ws dst;
                          pick_color sel d (\<lambda>_ _. Some c) ws }
         | BResource \<Rightarrow> do { slot \<leftarrow> params_resource (m_params m) index; d \<leftarrow> handle_dst ws dst;
              Some (set_scalar d (if slot_store slot = STORE_SHOW then handle_show (slot_index slot)
                else handle_param index) ws) })"

fun step :: "machine \<Rightarrow> signals \<Rightarrow> instruction \<Rightarrow> selection \<Rightarrow> workspace \<Rightarrow> workspace option" where
  "step m sg (Const bank dst bits) sel ws =
     (case bank of
        BFloat \<Rightarrow> do { d \<leftarrow> float_dst ws dst; Some (set_scalar d bits ws) }
      | BInt \<Rightarrow> do { d \<leftarrow> int_dst ws dst; Some (set_scalar d bits ws) }
      | BBool \<Rightarrow> do { d \<leftarrow> bool_dst ws dst; Some (set_scalar d (bits \<noteq> 0) ws) }
      | _ \<Rightarrow> do { index \<leftarrow> nth_opt (m_resources m) (unat bits); d \<leftarrow> handle_dst ws dst;
                  Some (set_scalar d (handle_show index) ws) })"
| "step m sg (Param bank dst index) sel ws = strip_param m bank dst index sel ws"
| "step m sg (Context dst rd) sel ws =
     (case rd of
        CPixelCount \<Rightarrow> do { d \<leftarrow> int_dst ws dst; Some (set_scalar d (m_pixel_count m) ws) }
      | CFramesElapsed \<Rightarrow> do { d \<leftarrow> int_dst ws dst; Some (set_scalar d (m_frames_elapsed m) ws) }
      | _ \<Rightarrow> do { d \<leftarrow> float_dst ws dst; Some (set_scalar d (context_float m rd) ws) })"
| "step m sg (FloatUnary op dst a) sel ws =
     do { d \<leftarrow> float_dst ws dst; a \<leftarrow> float_src ws a;
          case op of
            FNegate \<Rightarrow> strip_map1 sel d a (\<lambda>v. pure (negate v)) () ws
          | FAbs \<Rightarrow> strip_map1 sel d a (\<lambda>v. pure (float_unary (m_arith m) FAbs v)) () ws
          | _ \<Rightarrow> apply1 sel d a (\<lambda>v. pure (float_unary (m_arith m) op v)) () ws }"
| "step m sg (FloatBinary op cs dst a b) sel ws =
     loop (\<lambda>channel ws.
       do { d \<leftarrow> float_dst ws (slot_channel dst channel);
            a \<leftarrow> float_src ws (colors_operand cs a 0 channel);
            b \<leftarrow> float_src ws (colors_operand cs b 1 channel);
            float_map2 (m_arith m) op sel d a b ws }) (channels (colors_channels cs)) ws"
| "step m sg (Clamp dst v low high) sel ws =
     do { d \<leftarrow> float_dst ws dst; v \<leftarrow> float_src ws v; low \<leftarrow> float_src ws low; high \<leftarrow> float_src ws high;
          strip_map3 sel d v low high clamp_float ws }"
| "step m sg (Mix cs dst a b amount) sel ws =
     loop (\<lambda>channel ws.
       do { d \<leftarrow> float_dst ws (slot_channel dst channel);
            a \<leftarrow> float_src ws (colors_operand cs a 0 channel);
            b \<leftarrow> float_src ws (colors_operand cs b 1 channel);
            t \<leftarrow> float_src ws (colors_operand cs amount 2 channel);
            strip_map3 sel d a b t (\<lambda>a b t. mix (m_arith m) t a b) ws }) (channels (colors_channels cs)) ws"
| "step m sg (IntUnary op dst a) sel ws =
     do { d \<leftarrow> int_dst ws dst; a \<leftarrow> int_src ws a;
          case op of
            INegate \<Rightarrow> strip_map1 sel d a (\<lambda>v. pure (- v)) () ws
          | IAbs \<Rightarrow> strip_map1 sel d a (\<lambda>v. pure (if sint v < 0 then - v else v)) () ws }"
| "step m sg (IntBinary op dst a b) sel ws =
     do { d \<leftarrow> int_dst ws dst; a \<leftarrow> int_src ws a; b \<leftarrow> int_src ws b;
          case op of
            IAdd \<Rightarrow> strip_map2 sel d a b (+) ws
          | ISubtract \<Rightarrow> strip_map2 sel d a b (-) ws
          | IMultiply \<Rightarrow> strip_map2 sel d a b (*) ws
          | _ \<Rightarrow> apply2 sel d a b (\<lambda>a b. pure (int_binary op a b)) () ws }"
| "step m sg (IntToFloat dst a) sel ws =
     do { d \<leftarrow> float_dst ws dst; a \<leftarrow> int_src ws a; strip_map1 sel d a (\<lambda>v. pure (of_i32 (m_arith m) v)) () ws }"
| "step m sg (FloatToInt dst a) sel ws =
     do { d \<leftarrow> int_dst ws dst; a \<leftarrow> float_src ws a; strip_map1 sel d a (\<lambda>v. pure (to_i32 (m_arith m) v)) () ws }"
| "step m sg (Compare op bank dst a b) sel ws = strip_compare op bank dst a b sel ws"
| "step m sg (ColorComponent op dst color) sel ws =
     do { c \<leftarrow> color_src_of ws color; d \<leftarrow> float_dst ws dst;
          pick_each sel d (\<lambda>ws i. pure (component m op (color_at c ws i))) () ws }"
| "step m sg (HsvColor dst hue saturation v) sel ws =
     do { h \<leftarrow> float_src ws hue; s \<leftarrow> float_src ws saturation; v \<leftarrow> float_src ws v; d \<leftarrow> color_dst_of ws dst;
          pick_color sel d (\<lambda>ws i. Some (hsv (m_arith m) (src_at h ws i) (src_at s ws i) (src_at v ws i))) ws }"
| "step m sg (Recolor shift dst color hue) sel ws =
     do { c \<leftarrow> color_src_of ws color; h \<leftarrow> float_src ws hue; d \<leftarrow> color_dst_of ws dst;
          pick_color sel d (\<lambda>ws i. Some (recolor (m_arith m) (color_at c ws i) (src_at h ws i) shift)) ws }"
| "step m sg (Curve op dst curve v before) sel ws = strip_curve m op dst curve v before sel ws"
| "step m sg (Gradient dst gradient pos scale) sel ws = strip_gradient m dst gradient pos scale sel ws"
| "step m sg (Mark op dst marks x) sel ws = strip_mark m op dst marks x sel ws"
| "step m sg (Length kind dst resource) sel ws =
     do { d \<leftarrow> int_dst ws dst; h \<leftarrow> handle_src ws resource;
          apply1 sel d h (\<lambda>h. fallible (resource_length m kind h)) () ws }"
| "step m sg (Index bank dst array index fallback) sel ws = strip_index m bank dst array index fallback sel ws"
| "step m sg (Select bank dst condition yes no) sel ws = strip_select bank dst condition yes no sel ws"
| "step m sg (Move bank dst src) sel ws = strip_assign bank dst src sel ws"
| "step m sg (Section index dst wd) sel ws =
     do { d \<leftarrow> int_dst ws dst; wd \<leftarrow> int_src ws wd;
          pick_each sel d (\<lambda>ws i run. Some (section_query m index ws i (src_at wd ws i) run)) None ws }"
| "step m sg (Read dst input pixel) sel ws = strip_sample sg dst input pixel sel ws"
| "step m sg (Lookup bank dst table index start) sel ws = strip_lookup bank dst table index start sel ws"
| "step m sg (Branch _ _ _) sel ws = None"
| "step m sg (Reduce _ _ _ _ _ _ _ _ _ _) sel ws = None"
| "step m sg (Stencil _ _ _ _ _ _ _ _ _ _ _) sel ws = None"
| "step m sg (Scan _ _ _ _ _ _) sel ws = None"
| "step m sg (Tabulate _ _ _ _ _ _ _ _) sel ws = None"

end
