(* ===== verification/StripBlocks.thy ===== *)
theory StripBlocks
  imports StripSteps
begin

unbundle bit_operations_syntax

text \<open>
  Code that nests code in the strip interpreter, \<open>crates/donder-runtime/src/dsl/vm/strip.rs\<close>:
  branches that split a selection, reductions that loop over per-pixel or shared ranges, tables,
  the blocks they nest in, and the run of a program over a strip. A construct takes what its code
  does as a function of the selection, the levels left and the workspace. Levels are the nesting
  depth a workspace has storage for; opening one more panics. Stencils and scans are not modelled:
  a block that reaches one is \<open>None\<close>.
\<close>

type_synonym runner = "selection \<Rightarrow> nat \<Rightarrow> workspace \<Rightarrow> workspace option"

section \<open>Branches\<close>

definition strip_branch :: "slot \<Rightarrow> runner \<Rightarrow> runner \<Rightarrow> runner" where
  "strip_branch condition run_then run_else sel levels ws =
     do { c \<leftarrow> bool_src ws condition;
          if src_is_scalar c then
            (if src_at c ws 0 then run_then sel levels ws else run_else sel levels ws)
          else case levels of
            0 \<Rightarrow> None
          | Suc inner \<Rightarrow>
              let holding = filter_sel STRIP sel (\<lambda>i. src_row c ws i);
                  failing = filter_sel (STRIP - length holding) sel (\<lambda>i. \<not> src_row c ws i)
              in if failing = [] then run_then sel inner ws
                 else if holding = [] then run_else sel inner ws
                 else do { ws \<leftarrow> run_then holding inner ws; run_else failing inner ws } }"

section \<open>Reductions\<close>

definition offset_count :: "i32 src \<Rightarrow> i32 src \<Rightarrow> workspace \<Rightarrow> nat \<Rightarrow> i32" where
  "offset_count start stop ws i = int_max (src_at stop ws i - src_at start ws i) 0"

definition I32_MAX :: i32 where "I32_MAX = 0x7fffffff"
definition I32_MIN :: i32 where "I32_MIN = 0x80000000"

definition range_union :: "i32 src \<Rightarrow> i32 src \<Rightarrow> selection \<Rightarrow> workspace \<Rightarrow> i32 \<times> i32" where
  "range_union start stop sel ws =
     fold (\<lambda>i (first, past).
         let count = offset_count start stop ws i
         in if 0 < sint count
            then (int_min first (src_at start ws i), int_max past (src_at start ws i + count))
            else (first, past)) (pixels sel) (I32_MAX, I32_MIN)"

definition int_extreme :: "bool \<Rightarrow> i32 \<Rightarrow> i32 \<Rightarrow> i32" where
  "int_extreme high a b = (if ((sint a < sint b) = high) \<and> b \<noteq> a then b else a)"

record reduction =
  red_reducer :: reducer
  red_bank :: bank
  red_acc :: slot
  red_index :: slot
  red_start :: slot
  red_end :: slot
  red_filter :: slot
  red_value :: slot

definition combine_int :: "reducer \<Rightarrow> i32 \<Rightarrow> i32 \<Rightarrow> i32" where
  "combine_int r a b =
     (case r of RedMax \<Rightarrow> int_extreme True a b | RedMin \<Rightarrow> int_extreme False a b | _ \<Rightarrow> a + b)"

definition combine_float :: "arith \<Rightarrow> reducer \<Rightarrow> f32 \<Rightarrow> f32 \<Rightarrow> f32" where
  "combine_float ar r a b =
     (case r of RedMax \<Rightarrow> max_float a b | RedMin \<Rightarrow> min_float a b | _ \<Rightarrow> add ar a b)"

definition combine_bool :: "reducer \<Rightarrow> bool \<Rightarrow> bool \<Rightarrow> bool" where
  "combine_bool r a b = (if r = RedAny then a \<or> b else a \<and> b)"

definition strip_combine :: "machine \<Rightarrow> reducer \<Rightarrow> bank \<Rightarrow> slot \<Rightarrow> slot \<Rightarrow> selection \<Rightarrow> workspace \<Rightarrow> workspace option" where
  "strip_combine m r bank acc v sel ws =
     (case bank of
        BInt \<Rightarrow> do { d \<leftarrow> int_dst ws acc; a \<leftarrow> int_src ws acc; b \<leftarrow> int_src ws v;
                     strip_map2 sel d a b (combine_int r) ws }
      | BBool \<Rightarrow> do { a \<leftarrow> bool_src ws acc; b \<leftarrow> bool_src ws v; d \<leftarrow> bool_dst ws acc;
                      pick_each sel d (\<lambda>ws i. pure (combine_bool r (src_at a ws i) (src_at b ws i))) () ws }
      | BResource \<Rightarrow> strip_assign bank acc v sel ws
      | _ \<Rightarrow> loop (\<lambda>channel ws.
          do { d \<leftarrow> float_dst ws (slot_channel acc channel); a \<leftarrow> float_src ws (slot_channel acc channel);
               b \<leftarrow> float_src ws (slot_channel v channel);
               strip_map2 sel d a b (combine_float (m_arith m) r) ws }) (channels (bank_width bank)) ws)"

text \<open>The masked combinations: what is not masked keeps the accumulator.\<close>

definition combine_where ::
  "machine \<Rightarrow> reducer \<Rightarrow> bank \<Rightarrow> slot \<Rightarrow> slot \<Rightarrow> slot \<Rightarrow> selection \<Rightarrow> workspace \<Rightarrow> workspace option" where
  "combine_where m r bank acc v msk sel ws =
     do { k \<leftarrow> bool_src ws msk;
          case bank of
            BInt \<Rightarrow> do { d \<leftarrow> int_dst ws acc; a \<leftarrow> int_src ws acc; b \<leftarrow> int_src ws v;
              pick_each sel d (\<lambda>ws i. pure (strip_choose (src_at k ws i)
                (combine_int r (src_at a ws i) (src_at b ws i)) (src_at a ws i))) () ws }
          | BBool \<Rightarrow> do { a \<leftarrow> bool_src ws acc; b \<leftarrow> bool_src ws v; d \<leftarrow> bool_dst ws acc;
              pick_each sel d (\<lambda>ws i. pure (if r = RedAny then src_at a ws i \<or> (src_at k ws i \<and> src_at b ws i)
                else src_at a ws i \<and> (\<not> src_at k ws i \<or> src_at b ws i))) () ws }
          | _ \<Rightarrow> loop (\<lambda>channel ws.
              do { d \<leftarrow> float_dst ws (slot_channel acc channel); a \<leftarrow> float_src ws (slot_channel acc channel);
                   b \<leftarrow> float_src ws (slot_channel v channel);
                   pick_each sel d (\<lambda>ws i. pure (strip_choose (src_at k ws i)
                     (combine_float (m_arith m) r (src_at a ws i) (src_at b ws i)) (src_at a ws i))) () ws })
              (channels (bank_width bank)) ws }"

definition all_decided :: "reducer \<Rightarrow> slot \<Rightarrow> selection \<Rightarrow> workspace \<Rightarrow> bool option" where
  "all_decided r acc sel ws =
     do { d \<leftarrow> bool_src ws acc;
          Some (list_all (\<lambda>i. src_at d ws i = (r = RedAny)) (pixels sel)) }"

definition decides :: "reducer \<Rightarrow> slot \<Rightarrow> workspace \<Rightarrow> (nat \<Rightarrow> bool) option" where
  "decides r v ws =
     (case r of
        RedAny \<Rightarrow> do { b \<leftarrow> bool_src ws v; Some (src_at b ws) }
      | RedAll \<Rightarrow> do { b \<leftarrow> bool_src ws v; Some (\<lambda>i. \<not> src_at b ws i) }
      | _ \<Rightarrow> Some (\<lambda>_. True))"

definition index_at :: "reducer \<Rightarrow> i32 src \<Rightarrow> i32 src \<Rightarrow> workspace \<Rightarrow> nat \<Rightarrow> i32 \<Rightarrow> i32" where
  "index_at r start stop ws i k = (if r = RedLast then src_at stop ws i - 1 - k else src_at start ws i + k)"

text \<open>The iterations \<open>0..count\<close> of a signed count.\<close>

definition iterations :: "i32 \<Rightarrow> i32 list" where
  "iterations count = map of_nat [0..<nat (sint count)]"

text \<open>
  A scalar accumulator: one loop for the strip. An iteration says whether it was the last, which the
  first value that decides is.
\<close>

definition scalar_iteration ::
  "machine \<Rightarrow> reduction \<Rightarrow> i32 src \<Rightarrow> i32 src \<Rightarrow> i32 dst \<Rightarrow> runner \<Rightarrow> runner \<Rightarrow> selection \<Rightarrow> nat \<Rightarrow>
   i32 \<Rightarrow> workspace \<Rightarrow> (bool \<times> workspace) option" where
  "scalar_iteration m r start stop index run_loop contribute sel levels k ws =
     do { ws \<leftarrow> run_loop sel levels (set_scalar index (index_at (red_reducer r) start stop ws 0 k) ws);
          keep \<leftarrow> (if slot_is_none (red_filter r) then Some True
            else do { f \<leftarrow> bool_src ws (red_filter r); Some (src_at f ws 0) });
          if \<not> keep then Some (False, ws)
          else do { ws \<leftarrow> contribute sel levels ws;
            if red_reducer r \<notin> {RedAny, RedAll, RedFirst, RedLast}
            then do { ws \<leftarrow> strip_combine m (red_reducer r) (red_bank r) (red_acc r) (red_value r) sel ws;
                      Some (False, ws) }
            else do { d \<leftarrow> decides (red_reducer r) (red_value r) ws;
                      if d 0 then do { ws \<leftarrow> strip_assign (red_bank r) (red_acc r) (red_value r) sel ws; Some (True, ws) }
                      else Some (False, ws) } } }"

fun scalar_loop ::
  "machine \<Rightarrow> reduction \<Rightarrow> i32 src \<Rightarrow> i32 src \<Rightarrow> i32 dst \<Rightarrow> runner \<Rightarrow> runner \<Rightarrow> selection \<Rightarrow> nat \<Rightarrow>
   i32 list \<Rightarrow> workspace \<Rightarrow> workspace option" where
  "scalar_loop m r start stop index run_loop contribute sel levels [] ws = Some ws"
| "scalar_loop m r start stop index run_loop contribute sel levels (k # ks) ws =
     do { (over, ws) \<leftarrow> scalar_iteration m r start stop index run_loop contribute sel levels k ws;
          if over then Some ws else scalar_loop m r start stop index run_loop contribute sel levels ks ws }"

text \<open>
  Row accumulators. \<open>flags\<close> are the pixels still running, kept by \<open>first\<close> and \<open>last\<close> alone, and
  \<open>running\<close> their number.
\<close>

record row_plan =
  loop_early :: bool
  loop_shared :: bool
  loop_uniform :: bool
  loop_first :: i32
  loop_past :: i32
  loop_masked :: bool

definition shared_at :: "reduction \<Rightarrow> row_plan \<Rightarrow> i32 \<Rightarrow> i32" where
  "shared_at r lp k = (if red_reducer r = RedLast then loop_past lp - 1 - k else loop_first lp + k)"

definition takes_part :: "reduction \<Rightarrow> row_plan \<Rightarrow> i32 src \<Rightarrow> i32 src \<Rightarrow> workspace \<Rightarrow> nat \<Rightarrow> i32 \<Rightarrow> bool" where
  "takes_part r lp start stop ws i k =
     (if loop_shared lp then
        sint (src_at start ws i) \<le> sint (shared_at r lp k) \<and>
        sint (shared_at r lp k) < sint (src_at start ws i + offset_count start stop ws i)
      else sint k < sint (offset_count start stop ws i))"

definition set_indices ::
  "reduction \<Rightarrow> row_plan \<Rightarrow> i32 src \<Rightarrow> i32 src \<Rightarrow> i32 dst \<Rightarrow> selection \<Rightarrow> i32 \<Rightarrow> workspace \<Rightarrow> workspace option" where
  "set_indices r lp start stop index participating k ws =
     (case index of
        One put \<Rightarrow> Some (if loop_shared lp then put (shared_at r lp k) ws
                        else put (index_at (red_reducer r) start stop ws 0 k) ws)
      | Many put \<Rightarrow> each participating (\<lambda>i ws. Some (put i (index_at (red_reducer r) start stop ws i k) ws)) ws)"

definition decided_all :: "reduction \<Rightarrow> selection \<Rightarrow> workspace \<Rightarrow> bool option" where
  "decided_all r sel ws =
     (if red_reducer r = RedAny \<or> red_reducer r = RedAll
      then all_decided (red_reducer r) (red_acc r) sel ws else Some False)"

definition participants ::
  "reduction \<Rightarrow> row_plan \<Rightarrow> i32 src \<Rightarrow> i32 src \<Rightarrow> selection \<Rightarrow> i32 \<Rightarrow> (nat \<Rightarrow> bool) \<Rightarrow> workspace \<Rightarrow> selection" where
  "participants r lp start stop sel k flags ws =
     (if loop_uniform lp \<and> \<not> loop_early lp then sel
      else filter_sel STRIP sel (\<lambda>i. (\<not> loop_early lp \<or> flags i) \<and> takes_part r lp start stop ws i k))"

definition contributors :: "reduction \<Rightarrow> selection \<Rightarrow> workspace \<Rightarrow> selection option" where
  "contributors r participating ws =
     (if slot_is_none (red_filter r) then Some participating
      else do { c \<leftarrow> bool_src ws (red_filter r); Some (filter_sel STRIP participating (src_at c ws)) })"

type_synonym running = "(nat \<Rightarrow> bool) \<times> nat"

definition settle :: "reduction \<Rightarrow> selection \<Rightarrow> running \<Rightarrow> workspace \<Rightarrow> (bool \<times> running \<times> workspace) option" where
  "settle r contributing run ws =
     do { d \<leftarrow> decides (red_reducer r) (red_value r) ws;
          let decided = filter_sel STRIP contributing d;
              run = ((\<lambda>i. fst run i \<and> i \<notin> set (pixels decided)), snd run - length (pixels decided))
          in do { ws \<leftarrow> strip_assign (red_bank r) (red_acc r) (red_value r) decided ws; Some (snd run = 0, run, ws) } }"

definition row_iteration ::
  "machine \<Rightarrow> reduction \<Rightarrow> row_plan \<Rightarrow> i32 src \<Rightarrow> i32 src \<Rightarrow> i32 dst \<Rightarrow> runner \<Rightarrow> runner \<Rightarrow> selection \<Rightarrow> nat \<Rightarrow>
   i32 \<Rightarrow> running \<Rightarrow> workspace \<Rightarrow> (bool \<times> running \<times> workspace) option" where
  "row_iteration m r lp start stop index run_loop contribute sel inner k run ws =
     (let participating = participants r lp start stop sel k (fst run) ws
      in if participating = [] then Some (False, run, ws)
         else do { ws \<leftarrow> set_indices r lp start stop index participating k ws;
              ws \<leftarrow> run_loop participating inner ws;
              if \<not> loop_early lp \<and> loop_masked lp then
                do { ws \<leftarrow> combine_where m (red_reducer r) (red_bank r) (red_acc r) (red_value r)
                       (red_filter r) participating ws;
                     over \<leftarrow> decided_all r sel ws;
                     Some (over, run, ws) }
              else do { contributing \<leftarrow> contributors r participating ws;
                if contributing = [] then Some (False, run, ws)
                else do { ws \<leftarrow> contribute contributing inner ws;
                  if loop_early lp then settle r contributing run ws
                  else do { ws \<leftarrow> strip_combine m (red_reducer r) (red_bank r) (red_acc r) (red_value r) contributing ws;
                            over \<leftarrow> decided_all r sel ws;
                            Some (over, run, ws) } } } })"

fun row_loop ::
  "machine \<Rightarrow> reduction \<Rightarrow> row_plan \<Rightarrow> i32 src \<Rightarrow> i32 src \<Rightarrow> i32 dst \<Rightarrow> runner \<Rightarrow> runner \<Rightarrow> selection \<Rightarrow> nat \<Rightarrow>
   i32 list \<Rightarrow> running \<Rightarrow> workspace \<Rightarrow> workspace option" where
  "row_loop m r lp start stop index run_loop contribute sel inner [] run ws = Some ws"
| "row_loop m r lp start stop index run_loop contribute sel inner (k # ks) run ws =
     do { (over, run, ws) \<leftarrow> row_iteration m r lp start stop index run_loop contribute sel inner k run ws;
          if over then Some ws
          else row_loop m r lp start stop index run_loop contribute sel inner ks run ws }"

text \<open>
  The union of ranges is a plain subtraction. A build with overflow checks panics where it overflows,
  which is \<open>None\<close>; a build without them wraps to a negative count and runs no iteration at all.
\<close>

definition union_length :: "i32 \<Rightarrow> i32 \<Rightarrow> i32 option" where
  "union_length first past =
     (if sint past \<le> sint first then Some 0
      else if sint past - sint first < 2 ^ 31 then Some (past - first) else None)"

lemma union_length_overflow:
  assumes "sint first < sint past"
  shows "union_length first past = None \<longleftrightarrow> sint (past - first) < 0"
proof -
  have range: "- (2 ^ 31) \<le> sint first" "sint past < 2 ^ 31"
    using sint_ge [of first] sint_lt [of past] by simp_all
  have "sint (past - first) = sint past - sint first - (if sint past - sint first < 2 ^ 31 then 0 else 2 ^ 32)"
    using assms range signed_take_bit_int_eq_self [of 31 "sint past - sint first"]
      signed_take_bit_int_eq_self [of 31 "sint past - sint first - 2 ^ 32"]
      signed_take_bit_eq_iff_take_bit_eq [of 31 "sint past - sint first" "sint past - sint first - 2 ^ 32"]
    by (simp add: sint_word_ariths take_bit_eq_mod minus_mod_self2 [of "sint past - sint first" "2 ^ 32", simplified])
  then show ?thesis using assms range by (simp add: union_length_def)
qed

definition strip_reduce :: "machine \<Rightarrow> reduction \<Rightarrow> bool \<Rightarrow> runner \<Rightarrow> runner \<Rightarrow> runner" where
  "strip_reduce m r empty_contribute run_loop contribute sel levels ws =
     do { start \<leftarrow> int_src ws (red_start r); stop \<leftarrow> int_src ws (red_end r);
          index \<leftarrow> int_dst ws (red_index r);
          if slot_is_scalar (red_acc r) then
            scalar_loop m r start stop index run_loop contribute sel levels
              (iterations (offset_count start stop ws 0)) ws
          else case levels of
            0 \<Rightarrow> None
          | Suc inner \<Rightarrow>
              let early = (red_reducer r = RedFirst \<or> red_reducer r = RedLast);
                  uniform = (src_is_scalar start \<and> src_is_scalar stop);
                  shared = (\<not> uniform \<and> (case index of One _ \<Rightarrow> True | Many _ \<Rightarrow> False));
                  (first, past) = (if shared then range_union start stop sel ws else (I32_MAX, I32_MIN));
                  lp = \<lparr>loop_early = early, loop_shared = shared, loop_uniform = uniform,
                        loop_first = first, loop_past = past,
                        loop_masked = (\<not> slot_is_none (red_filter r) \<and> empty_contribute)\<rparr>
              in do { count \<leftarrow> (if shared then union_length first past
                        else Some (fold (\<lambda>i n. int_max n (offset_count start stop ws i)) (pixels sel) 0));
                      row_loop m r lp start stop index run_loop contribute sel inner (iterations count)
                        ((\<lambda>i. i \<in> set (pixels sel)), length (pixels sel)) ws } }"

section \<open>Tables\<close>

definition table_entry ::
  "machine \<Rightarrow> bank \<Rightarrow> bool \<Rightarrow> slot \<Rightarrow> slot \<Rightarrow> nat \<Rightarrow> workspace \<Rightarrow> workspace option" where
  "table_entry m bank prefix dst v k ws =
     (case bank of
        BInt \<Rightarrow> do { d \<leftarrow> int_dst ws dst;
          case d of
            One _ \<Rightarrow> Some ws
          | Many put \<Rightarrow> do { row \<leftarrow> int_src ws dst; v \<leftarrow> int_src ws v;
              Some (put (if prefix then k + 1 else k)
                ((if prefix then src_row row ws k else 0) + src_at v ws 0) ws) } }
      | BBool \<Rightarrow> do { d \<leftarrow> bool_dst ws dst;
          case d of
            One _ \<Rightarrow> Some ws
          | Many put \<Rightarrow> do { v \<leftarrow> bool_src ws v; Some (put k (src_at v ws 0) ws) } }
      | _ \<Rightarrow> do { d \<leftarrow> float_dst ws dst;
          case d of
            One _ \<Rightarrow> Some ws
          | Many put \<Rightarrow> do { row \<leftarrow> float_src ws dst; v \<leftarrow> float_src ws v;
              Some (put (if prefix then k + 1 else k)
                (add (m_arith m) (if prefix then src_row row ws k else 0) (src_at v ws 0)) ws) } })"

definition strip_tabulate ::
  "machine \<Rightarrow> bank \<Rightarrow> bool \<Rightarrow> slot \<Rightarrow> slot \<Rightarrow> slot \<Rightarrow> slot \<Rightarrow> slot \<Rightarrow> runner \<Rightarrow> runner" where
  "strip_tabulate m bank prefix dst index start stop v body sel levels ws =
     do { start \<leftarrow> int_src ws start; stop \<leftarrow> int_src ws stop;
          let start = src_at start ws 0; stop = src_at stop ws 0; shift = (if prefix then 1 else 0) in
          do { index \<leftarrow> int_dst ws index;
               ws \<leftarrow> (if \<not> prefix then Some ws
                 else case bank of
                   BInt \<Rightarrow> do { d \<leftarrow> int_dst ws dst; Some (set_first d 0 ws) }
                 | _ \<Rightarrow> do { d \<leftarrow> float_dst ws dst; Some (set_first d 0 ws) });
               loop (\<lambda>k ws. do { ws \<leftarrow> body sel levels (set_scalar index (start + of_nat k) ws);
                                 table_entry m bank prefix dst v k ws })
                 [0..<min (nat (sint stop - sint start)) (STRIP - shift)] ws } }"

section \<open>Blocks\<close>

text \<open>A slice of nested code past the end of the code panics.\<close>

function block :: "machine \<Rightarrow> signals \<Rightarrow> instruction_word list \<Rightarrow> runner" where
  "block m sg code sel levels ws =
     (if code = [] then Some ws
      else case decode code of
        None \<Rightarrow> None
      | Some (Branch condition then_len else_len) \<Rightarrow>
          let rest = drop (width (Branch condition then_len else_len)) code;
              then_code = take (unat then_len) rest;
              rest = drop (unat then_len) rest;
              else_code = take (unat else_len) rest;
              after = drop (unat else_len) rest
          in if length then_code < unat then_len \<or> length else_code < unat else_len then None
             else do { ws \<leftarrow> strip_branch condition
                         (\<lambda>sel levels ws. block m sg then_code sel levels ws)
                         (\<lambda>sel levels ws. block m sg else_code sel levels ws) sel levels ws;
                       block m sg after sel levels ws }
      | Some (Reduce reducer bank acc index start stop flt v loop_len contribute_len) \<Rightarrow>
          let rest = drop (width (Reduce reducer bank acc index start stop flt v loop_len contribute_len)) code;
              loop_code = take (unat loop_len) rest;
              rest = drop (unat loop_len) rest;
              contribute = take (unat contribute_len) rest;
              after = drop (unat contribute_len) rest;
              r = \<lparr>red_reducer = reducer, red_bank = bank, red_acc = acc, red_index = index,
                   red_start = start, red_end = stop, red_filter = flt, red_value = v\<rparr>
          in if length loop_code < unat loop_len \<or> length contribute < unat contribute_len then None
             else do { ws \<leftarrow> strip_reduce m r (contribute = [])
                         (\<lambda>sel levels ws. block m sg loop_code sel levels ws)
                         (\<lambda>sel levels ws. block m sg contribute sel levels ws) sel levels ws;
                       block m sg after sel levels ws }
      | Some (Tabulate bank prefix dst index start stop v len) \<Rightarrow>
          let rest = drop (width (Tabulate bank prefix dst index start stop v len)) code;
              body = take (unat len) rest;
              after = drop (unat len) rest
          in if length body < unat len then None
             else do { ws \<leftarrow> strip_tabulate m bank prefix dst index start stop v
                         (\<lambda>sel levels ws. block m sg body sel levels ws) sel levels ws;
                       block m sg after sel levels ws }
      | Some i \<Rightarrow> do { ws \<leftarrow> step m sg i sel ws; block m sg (drop (width i) code) sel levels ws })"
  by pat_completeness auto

termination block
  by (relation "measure (\<lambda>(m, sg, code, sel, levels, ws). length code)") (auto simp: width_def min_def)

declare block.simps [simp del]

section \<open>Running a program over strips\<close>

record program_view =
  view_code :: "instruction_word list"
  view_query_end :: nat
  view_target_end :: nat
  view_result :: u16

text \<open>
  A strip interpreter: its machine holds the context, clock and target bounds, \<open>strip_shape\<close> the
  pixel count and the bits of the bounds its target block ran for.
\<close>

record strip =
  strip_machine :: machine
  strip_program :: program_view
  strip_shape :: "(i32 \<times> u32 \<times> u32 \<times> u32 \<times> u32) option"
  strip_workspace :: workspace
  strip_levels :: nat

definition strip_new :: "machine \<Rightarrow> program_view \<Rightarrow> workspace \<Rightarrow> nat \<Rightarrow> strip" where
  "strip_new m p ws levels =
     \<lparr>strip_machine = m\<lparr>m_min := (0, 0), m_max := (0, 0)\<rparr>, strip_program = p, strip_shape = None,
      strip_workspace = ws, strip_levels = levels\<rparr>"

definition split_code :: "nat \<Rightarrow> 'a list \<Rightarrow> ('a list \<times> 'a list) option" where
  "split_code at code = (if at \<le> length code then Some (take at code, drop at code) else None)"

definition strip_outputs :: "color_src \<Rightarrow> workspace \<Rightarrow> nat \<Rightarrow> color list" where
  "strip_outputs result ws n = map (color_at result ws) [0..<n]"

text \<open>
  A run takes the strip's own blocks again where they may answer differently: all of them the first
  time, the target's when the pixel count or the bounds have changed.
\<close>

type_synonym shape = "i32 \<times> u32 \<times> u32 \<times> u32 \<times> u32"

definition run_shape :: "nat \<Rightarrow> f32 \<times> f32 \<Rightarrow> f32 \<times> f32 \<Rightarrow> shape" where
  "run_shape pixel_count low high = (of_nat pixel_count, fst low, snd low, fst high, snd high)"

definition initialize :: "shape \<Rightarrow> strip \<Rightarrow> bool option" where
  "initialize shape st = map_option (\<lambda>current. current \<noteq> shape) (strip_shape st)"

definition run_machine :: "nat \<Rightarrow> f32 \<times> f32 \<Rightarrow> f32 \<times> f32 \<Rightarrow> strip \<Rightarrow> machine" where
  "run_machine pixel_count low high st =
     (if initialize (run_shape pixel_count low high) st = Some False then strip_machine st
      else (strip_machine st)\<lparr>m_pixel_count := of_nat pixel_count, m_min := low, m_max := high\<rparr>)"

definition prepare ::
  "machine \<Rightarrow> signals \<Rightarrow> bool option \<Rightarrow> instruction_word list \<Rightarrow> instruction_word list \<Rightarrow> nat \<Rightarrow> workspace \<Rightarrow>
   workspace option" where
  "prepare m sg initial query target levels ws =
     (let one = range_sel 0 1 in
      case initial of
        None \<Rightarrow> do { ws \<leftarrow> block m sg query one levels ws; block m sg target one levels ws }
      | Some True \<Rightarrow> block m sg target one levels ws
      | Some False \<Rightarrow> Some ws)"

definition strip_run ::
  "nat \<Rightarrow> f32 \<times> f32 \<Rightarrow> f32 \<times> f32 \<Rightarrow> signals \<Rightarrow> nat \<Rightarrow> strip \<Rightarrow> (color list \<times> strip) option" where
  "strip_run pixel_count low high sg n st =
     (if n = 0 \<or> STRIP < n then None
      else
        let shape = run_shape pixel_count low high;
            m = run_machine pixel_count low high st;
            p = strip_program st; levels = strip_levels st
        in do { (query, rest) \<leftarrow> split_code (view_query_end p) (view_code p);
                (target, body) \<leftarrow> (if view_query_end p \<le> view_target_end p
                   then split_code (view_target_end p - view_query_end p) rest else None);
                ws \<leftarrow> prepare m sg (initialize shape st) query target levels (strip_workspace st);
                ws \<leftarrow> block m sg body (range_sel 0 n) levels ws;
                result \<leftarrow> color_src_of ws (slot_from_bits (view_result p));
                Some (strip_outputs result ws n,
                  st\<lparr>strip_machine := m, strip_shape := Some shape, strip_workspace := ws\<rparr>) })"

end
