(* ===== verification/StripCells.thy ===== *)
theory StripCells
  imports StripStore
begin

unbundle bit_operations_syntax

text \<open>
  The cells of a workspace as its programs name them: a bank and a scalar, a row or a pixel input.
  An operand reads the cell of its slot and a destination writes it and no other, whatever windows
  of whatever arrays they are; each bank of the workspace keeps that contract, stated once as a
  locale.
\<close>

section \<open>Cells\<close>

datatype cell_value = FloatCell f32 | IntCell i32 | BoolCell bool | HandleCell handle

type_synonym cell = "bank \<times> slot_class"

definition store_get :: "'a store \<Rightarrow> slot_class \<Rightarrow> nat \<Rightarrow> 'a" where
  "store_get st c i =
     (case c of
        Scalar x \<Rightarrow> store_values st (unat x)
      | Row x \<Rightarrow> store_values st (row_start st x + i)
      | PixelInput _ \<Rightarrow> store_values st 0)"

definition cell_get :: "workspace \<Rightarrow> cell \<Rightarrow> nat \<Rightarrow> cell_value" where
  "cell_get ws c i =
     (case c of
        (BInt, PixelInput _) \<Rightarrow> IntCell (px_index (ws_pixels ws) i)
      | (BBool, PixelInput _) \<Rightarrow> BoolCell False
      | (BResource, PixelInput _) \<Rightarrow> HandleCell 0
      | (BInt, k) \<Rightarrow> IntCell (store_get (ws_ints ws) k i)
      | (BBool, k) \<Rightarrow> BoolCell (store_get (ws_bools ws) k i)
      | (BResource, k) \<Rightarrow> HandleCell (store_get (ws_handles ws) k i)
      | (_, PixelInput PixelX) \<Rightarrow> FloatCell (px_x (ws_pixels ws) i)
      | (_, PixelInput PixelY) \<Rightarrow> FloatCell (px_y (ws_pixels ws) i)
      | (_, PixelInput _) \<Rightarrow> FloatCell (px_fraction (ws_pixels ws) i)
      | (_, k) \<Rightarrow> FloatCell (store_get (ws_floats ws) k i))"

text \<open>What writing never changes: the sizes of the stores and the pixel inputs.\<close>

type_synonym layout = "(nat \<times> nat) \<times> (nat \<times> nat) \<times> (nat \<times> nat) \<times> (nat \<times> nat) \<times> pixel_rows"

definition store_layout :: "'a store \<Rightarrow> nat \<times> nat" where
  "store_layout st = (store_len st, store_scalars st)"

definition layout :: "workspace \<Rightarrow> layout" where
  "layout ws = (store_layout (ws_floats ws), store_layout (ws_ints ws), store_layout (ws_bools ws),
     store_layout (ws_handles ws), ws_pixels ws)"

definition class_fits :: "nat \<times> nat \<Rightarrow> slot_class \<Rightarrow> bool" where
  "class_fits l c =
     (case l of (len, scalars) \<Rightarrow>
        case c of
          Scalar x \<Rightarrow> unat x < scalars \<and> unat x + STRIP \<le> len
        | Row x \<Rightarrow> scalars + unat x * STRIP + STRIP \<le> len
        | PixelInput _ \<Rightarrow> False)"

definition bank_layout :: "layout \<Rightarrow> bank \<Rightarrow> nat \<times> nat" where
  "bank_layout l b =
     (case l of (fl, il, bl, hl, _) \<Rightarrow>
        case b of BInt \<Rightarrow> il | BBool \<Rightarrow> bl | BResource \<Rightarrow> hl | _ \<Rightarrow> fl)"

text \<open>A cell a program may write; one it may read may also be a pixel input of its bank.\<close>

definition writable :: "layout \<Rightarrow> cell \<Rightarrow> bool" where
  "writable l c \<longleftrightarrow> fst c \<noteq> BColor \<and> class_fits (bank_layout l (fst c)) (snd c)"

definition is_input :: "slot_class \<Rightarrow> bool" where
  "is_input c = (case c of PixelInput _ \<Rightarrow> True | _ \<Rightarrow> False)"

definition is_scalar_class :: "slot_class \<Rightarrow> bool" where
  "is_scalar_class c = (case c of Scalar _ \<Rightarrow> True | _ \<Rightarrow> False)"

definition is_row_class :: "slot_class \<Rightarrow> bool" where
  "is_row_class c = (case c of Row _ \<Rightarrow> True | _ \<Rightarrow> False)"

lemma class_simps [simp]:
  "is_input (PixelInput p)" "\<not> is_input (Scalar x)" "\<not> is_input (Row x)"
  "is_scalar_class (Scalar x)" "\<not> is_scalar_class (Row x)" "\<not> is_scalar_class (PixelInput p)"
  "is_row_class (Row x)" "\<not> is_row_class (Scalar x)" "\<not> is_row_class (PixelInput p)"
  by (simp_all add: is_input_def is_scalar_class_def is_row_class_def)

definition readable :: "layout \<Rightarrow> cell \<Rightarrow> bool" where
  "readable l c \<longleftrightarrow> writable l c \<or> fst c \<in> {BFloat, BInt} \<and> is_input (snd c)"

section \<open>The contract of a bank\<close>

lemma MASK_127: "MASK = 127"
  by (simp add: MASK_def STRIP_def)

lemma and_MASK: "i < STRIP \<Longrightarrow> i AND MASK = i"
proof -
  assume "i < STRIP"
  moreover have "i AND 127 = i mod 2 ^ 7" using take_bit_eq_mask [of 7 i] by (simp add: take_bit_eq_mod mask_eq_exp_minus_1)
  ultimately show ?thesis by (simp add: MASK_127 STRIP_def)
qed

lemma and_MASK_less: "i AND MASK < STRIP"
proof -
  have "i AND 127 = i mod 2 ^ 7" using take_bit_eq_mask [of 7 i] by (simp add: take_bit_eq_mod mask_eq_exp_minus_1)
  then show ?thesis by (simp add: MASK_127 STRIP_def)
qed

text \<open>An operand whose values are those of a cell.\<close>

definition reads_cell :: "('a \<Rightarrow> cell_value) \<Rightarrow> layout \<Rightarrow> cell \<Rightarrow> 'a src \<Rightarrow> bool" where
  "reads_cell wrap l c a \<longleftrightarrow>
     (\<forall>ws i. layout ws = l \<longrightarrow> wrap (src_at a ws i) = cell_get ws c (i AND MASK)) \<and>
     src_is_scalar a = is_scalar_class (snd c) \<and>
     (\<forall>ws i. i < STRIP \<longrightarrow> \<not> src_is_scalar a \<longrightarrow> src_row a ws i = src_at a ws i)"

text \<open>A destination that writes a cell and no other.\<close>

definition puts_cell :: "('a \<Rightarrow> cell_value) \<Rightarrow> layout \<Rightarrow> cell \<Rightarrow> ('a \<Rightarrow> workspace \<Rightarrow> workspace) \<Rightarrow> nat \<Rightarrow> bool" where
  "puts_cell wrap l c put i \<longleftrightarrow>
     (\<forall>ws v. layout ws = l \<longrightarrow> layout (put v ws) = l \<and>
        (\<forall>c' j. readable l c' \<longrightarrow> j < STRIP \<longrightarrow> cell_get (put v ws) c' j =
           (if c' = c \<and> (is_row_class (snd c) \<longrightarrow> j = i) then wrap v else cell_get ws c' j)))"

definition writes_cell :: "('a \<Rightarrow> cell_value) \<Rightarrow> layout \<Rightarrow> cell \<Rightarrow> 'a dst \<Rightarrow> bool" where
  "writes_cell wrap l c d \<longleftrightarrow>
     (case d of
        One put \<Rightarrow> is_scalar_class (snd c) \<and> puts_cell wrap l c put 0
      | Many put \<Rightarrow> is_row_class (snd c) \<and> (\<forall>i < STRIP. puts_cell wrap l c (put i) i))"

locale workspace_bank =
  fixes b :: "'a lens" and bank :: bank and wrap :: "'a \<Rightarrow> cell_value"
  assumes updated [simp]: "bank_of b (with_bank b f ws) = f (bank_of b ws)"
    and injective: "wrap x = wrap y \<longleftrightarrow> x = y"
    and same_layout: "store_layout (f (bank_of b ws)) = store_layout (bank_of b ws) \<Longrightarrow>
      layout (with_bank b f ws) = layout ws"
    and layout_is: "layout ws = l \<Longrightarrow> bank_layout l bank = store_layout (bank_of b ws)"
    and read_own: "\<not> is_input c \<Longrightarrow> cell_get ws (bank, c) i = wrap (store_get (bank_of b ws) c i)"
    and read_other: "bank' \<noteq> bank \<Longrightarrow> bank' \<noteq> BColor \<Longrightarrow>
      cell_get (with_bank b f ws) (bank', c) i = cell_get ws (bank', c) i"
    and read_input: "cell_get (with_bank b f ws) (bank, PixelInput p) i = cell_get ws (bank, PixelInput p) i"
    and stored: "bank \<noteq> BColor"
begin

lemma write_layout [simp]: "layout (with_bank b (store_write k v) ws) = layout ws"
  by (rule same_layout) (simp add: store_layout_def store_write_def)

definition address :: "'a store \<Rightarrow> slot_class \<Rightarrow> nat \<Rightarrow> nat" where
  "address st c i = (case c of Scalar x \<Rightarrow> unat x | Row x \<Rightarrow> row_start st x + i | PixelInput _ \<Rightarrow> 0)"

lemma address_eq:
  assumes "class_fits (store_layout st) c" "class_fits (store_layout st) c'" "i < STRIP" "j < STRIP"
  shows "address st c i = address st c' j \<longleftrightarrow> c = c' \<and> (is_row_class c \<longrightarrow> i = j)"
proof -
  have rows: "x * STRIP + i = y * STRIP + j \<longleftrightarrow> x = y \<and> i = j" for x y
    using assms(3,4) by (metis div_mult_self3 div_less mod_less mod_mult_self3 add.commute
        add_cancel_left_left mult.commute STRIP_def zero_neq_numeral mod_mult_self1 div_mult_self1)
  show ?thesis
    using assms rows
    by (cases c; cases c') (auto simp: address_def class_fits_def store_layout_def row_start_def word_unat_eq_iff)
qed

lemma write_get:
  assumes "class_fits (bank_layout (layout ws) bank) c" "i < STRIP" "j < STRIP"
    and "class_fits (bank_layout (layout ws) bank) c'"
  shows "cell_get (with_bank b (store_write (address (bank_of b ws) c i) v) ws) (bank, c') j =
    (if c' = c \<and> (is_row_class c \<longrightarrow> j = i) then wrap v else cell_get ws (bank, c') j)"
proof -
  have l: "bank_layout (layout ws) bank = store_layout (bank_of b ws)" by (rule layout_is) simp
  have get: "store_get st k n = store_values st (address st k n)" for st :: "'a store" and k n
    by (cases k) (simp_all add: store_get_def address_def)
  have start: "address (store_write k v st) = address st" for st :: "'a store" and k
    by (intro ext) (simp add: address_def row_start_def store_write_def split: slot_class.split)
  have "\<not> is_input c'" using assms(4) by (cases c') (simp_all add: class_fits_def split: prod.splits)
  then show ?thesis
    using address_eq [of "bank_of b ws" c c' i j] assms unfolding l
    by (auto simp: read_own get start) (auto simp: store_write_def)
qed

lemma layout_scalars:
  assumes "layout ws' = layout ws"
  shows "store_scalars (bank_of b ws') = store_scalars (bank_of b ws)"
    "store_len (bank_of b ws') = store_len (bank_of b ws)"
  using layout_is [of ws' "layout ws"] layout_is [of ws "layout ws"] assms by (simp_all add: store_layout_def)

lemma operand_layout:
  assumes "layout ws' = layout ws"
  shows "operand b ws' s = operand b ws s"
  by (simp add: operand_def src_one_def src_many_def window_def row_start_def layout_scalars [OF assms]
      split: slot_class.split)

lemma destination_layout:
  assumes "layout ws' = layout ws"
  shows "destination b ws' s = destination b ws s"
  by (simp add: destination_def row_start_def layout_scalars [OF assms] split: slot_class.split)

lemma operand_reads:
  assumes "operand b ws s = Some a"
  shows "reads_cell wrap (layout ws) (bank, slot_kind s) a"
proof (cases "slot_kind s")
  case (Scalar x)
  then have "a = \<lparr>src_row = \<lambda>w k. store_values (bank_of b w) (unat x + k), src_mask = 0\<rparr>"
    using assms by (simp add: operand_def src_one_def window_def split: if_splits)
  then show ?thesis
    by (simp add: reads_cell_def src_at_def src_is_scalar_def Scalar read_own store_get_def)
next
  case (Row x)
  then have "a = \<lparr>src_row = \<lambda>w k. store_values (bank_of b w) (row_start (bank_of b ws) x + k), src_mask = MASK\<rparr>"
    using assms by (simp add: operand_def src_many_def window_def split: if_splits)
  then have at: "src_at a w i = store_values (bank_of b w) (row_start (bank_of b ws) x + (i AND MASK))"
    and row: "src_row a w i = store_values (bank_of b w) (row_start (bank_of b ws) x + i)"
    and many: "\<not> src_is_scalar a" for w i
    by (simp_all add: src_at_def src_is_scalar_def MASK_127)
  have "wrap (src_at a w i) = cell_get w (bank, Row x) (i AND MASK)" if "layout w = layout ws" for w i
    using layout_scalars [OF that] by (simp add: at read_own store_get_def row_start_def)
  then show ?thesis by (simp add: reads_cell_def Row many at row and_MASK)
next
  case (PixelInput p)
  then show ?thesis using assms by (simp add: operand_def)
qed

lemma write_puts:
  assumes "class_fits (bank_layout l bank) c" "i < STRIP" "layout ws0 = l"
  shows "puts_cell wrap l (bank, c) (\<lambda>v. with_bank b (store_write (address (bank_of b ws0) c i) v)) i"
proof -
  have "cell_get (with_bank b (store_write (address (bank_of b ws0) c i) v) ws) c' j =
      (if c' = (bank, c) \<and> (is_row_class c \<longrightarrow> j = i) then wrap v else cell_get ws c' j)"
    if ws: "layout ws = l" and c': "readable l c'" "j < STRIP" for ws v c' j
  proof -
    have address: "address (bank_of b ws0) c i = address (bank_of b ws) c i"
      using layout_scalars [of ws ws0] ws assms(3) by (simp add: address_def row_start_def split: slot_class.split)
    obtain bank' k where c'_is: "c' = (bank', k)" by (cases c')
    consider (own) "bank' = bank" "\<not> is_input k" | (input) "bank' = bank" "is_input k" | (other) "bank' \<noteq> bank"
      by blast
    then show ?thesis
    proof cases
      case own
      then have "class_fits (bank_layout (layout ws) bank) k"
        using c'(1) ws by (auto simp: readable_def writable_def c'_is)
      moreover have "class_fits (bank_layout (layout ws) bank) c" using assms(1) ws by simp
      ultimately have "cell_get (with_bank b (store_write (address (bank_of b ws) c i) v) ws) (bank, k) j =
          (if k = c \<and> (is_row_class c \<longrightarrow> j = i) then wrap v else cell_get ws (bank, k) j)"
        using assms(2) c'(2) by (intro write_get)
      then show ?thesis by (simp only: c'_is own(1) address prod.inject simp_thms)
    next
      case input
      then obtain p where p: "k = PixelInput p" by (cases k) simp_all
      have "c \<noteq> PixelInput p" using assms(1) by (auto simp: class_fits_def split: prod.splits)
      then show ?thesis using input p read_input by (simp add: c'_is)
    next
      case other
      moreover have "bank' \<noteq> BColor" using c'(1) by (auto simp: readable_def writable_def c'_is)
      ultimately show ?thesis using read_other by (simp add: c'_is)
    qed
  qed
  then show ?thesis by (simp add: puts_cell_def)
qed

lemma destination_writes:
  assumes "destination b ws s = Some d" "class_fits (bank_layout (layout ws) bank) (slot_kind s)"
  shows "writes_cell wrap (layout ws) (bank, slot_kind s) d"
proof (cases "slot_kind s")
  case (Scalar x)
  then have "d = One (\<lambda>v. with_bank b (store_write (unat x) v))"
    using assms by (simp add: destination_def split: if_splits)
  then show ?thesis using write_puts [OF assms(2), of 0 ws]
    by (simp add: writes_cell_def Scalar address_def STRIP_def)
next
  case (Row x)
  then have "d = Many (\<lambda>k v. with_bank b (store_write (row_start (bank_of b ws) x + k) v))"
    using assms by (simp add: destination_def Let_def split: if_splits)
  then show ?thesis using write_puts [OF assms(2), of _ ws]
    by (simp add: writes_cell_def Row address_def)
next
  case (PixelInput p)
  then show ?thesis using assms by (simp add: destination_def)
qed

end

text \<open>The four banks keep it.\<close>

interpretation float_cells: workspace_bank float_bank BFloat FloatCell
  by unfold_locales
    (auto simp: float_bank_def cell_get_def layout_def bank_layout_def is_input_def
      split: slot_class.splits bank.splits input.splits)

interpretation int_cells: workspace_bank int_bank BInt IntCell
  by unfold_locales
    (auto simp: int_bank_def cell_get_def layout_def bank_layout_def is_input_def
      split: slot_class.splits bank.splits input.splits)

interpretation bool_cells: workspace_bank bool_bank BBool BoolCell
  by unfold_locales
    (auto simp: bool_bank_def cell_get_def layout_def bank_layout_def is_input_def
      split: slot_class.splits bank.splits input.splits)

interpretation handle_cells: workspace_bank handle_bank BResource HandleCell
  by unfold_locales
    (auto simp: handle_bank_def cell_get_def layout_def bank_layout_def is_input_def
      split: slot_class.splits bank.splits input.splits)

end
