(* ===== verification/StripActions.thy ===== *)
theory StripActions
  imports StripCells
begin

text \<open>
  What running code over a strip may do, and what it must: it changes the cells it writes and no
  other, a row only at the selected pixels; and what it leaves at a selected pixel is what running
  it for that pixel alone leaves there, for every cell but those the strip's other pixels may have
  spoilt. Two workspaces agree at a pixel outside the spoilt cells \<open>D\<close>; a row outside \<open>T\<close> agrees
  at every pixel, which a table read at any index needs.
\<close>

section \<open>Agreement and frames\<close>

type_synonym spoilt = "cell set \<times> cell set"

definition agree :: "layout \<Rightarrow> spoilt \<Rightarrow> nat \<Rightarrow> workspace \<Rightarrow> workspace \<Rightarrow> bool" where
  "agree l s i a b \<longleftrightarrow> layout a = l \<and> layout b = l \<and>
     (\<forall>c. readable l c \<longrightarrow>
        (c \<notin> fst s \<longrightarrow> cell_get a c i = cell_get b c i) \<and>
        (c \<notin> snd s \<longrightarrow> is_row_class (snd c) \<longrightarrow> (\<forall>j < STRIP. cell_get a c j = cell_get b c j)))"

definition kept :: "layout \<Rightarrow> cell set \<Rightarrow> cell set \<Rightarrow> selection \<Rightarrow> workspace \<Rightarrow> workspace \<Rightarrow> bool" where
  "kept l S M sel a b \<longleftrightarrow> layout b = l \<and>
     (\<forall>c j. readable l c \<longrightarrow> j < STRIP \<longrightarrow> c \<notin> S \<longrightarrow> (c \<in> M \<longrightarrow> is_row_class (snd c) \<and> j \<notin> set (pixels sel)) \<longrightarrow>
        cell_get b c j = cell_get a c j)"

definition alone :: "nat \<Rightarrow> selection" where
  "alone i = range_sel i (Suc i)"

definition weaker :: "spoilt \<Rightarrow> spoilt \<Rightarrow> bool" where
  "weaker s t \<longleftrightarrow> fst s \<subseteq> fst t \<and> snd s \<subseteq> snd t"

definition acts ::
  "layout \<Rightarrow> cell set \<Rightarrow> cell set \<Rightarrow> (spoilt \<Rightarrow> spoilt option) \<Rightarrow>
   (selection \<Rightarrow> nat \<Rightarrow> workspace \<Rightarrow> workspace option) \<Rightarrow> bool" where
  "acts l S M spoil f \<longleftrightarrow>
     (\<forall>sel levels a b. sel_ok sel \<longrightarrow> layout a = l \<longrightarrow> f sel levels a = Some b \<longrightarrow> kept l S M sel a b) \<and>
     (\<forall>sel levels a b i s t a2. sel_ok sel \<longrightarrow> i \<in> set (pixels sel) \<longrightarrow> agree l s i a a2 \<longrightarrow>
        spoil s = Some t \<longrightarrow> f sel levels a = Some b \<longrightarrow>
        (\<exists>b2. f (alone i) levels a2 = Some b2 \<and> agree l t i b b2))"

lemma actsI:
  assumes "\<And>sel levels a b. sel_ok sel \<Longrightarrow> layout a = l \<Longrightarrow> f sel levels a = Some b \<Longrightarrow> kept l S M sel a b"
    and "\<And>sel levels a b i s t a2. sel_ok sel \<Longrightarrow> i \<in> set (pixels sel) \<Longrightarrow> agree l s i a a2 \<Longrightarrow>
      spoil s = Some t \<Longrightarrow> f sel levels a = Some b \<Longrightarrow>
      \<exists>b2. f (alone i) levels a2 = Some b2 \<and> agree l t i b b2"
  shows "acts l S M spoil f"
  using assms unfolding acts_def by blast

lemma acts_kept:
  "acts l S M spoil f \<Longrightarrow> sel_ok sel \<Longrightarrow> layout a = l \<Longrightarrow> f sel levels a = Some b \<Longrightarrow> kept l S M sel a b"
  unfolding acts_def by blast

lemma acts_alone:
  assumes "acts l S M spoil f" "sel_ok sel" "i \<in> set (pixels sel)" "agree l s i a a2" "spoil s = Some t"
    "f sel levels a = Some b"
  obtains b2 where "f (alone i) levels a2 = Some b2" "agree l t i b b2"
  using assms unfolding acts_def by blast

lemma pixels_alone [simp]: "i < STRIP \<Longrightarrow> pixels (alone i) = [i]"
  by (simp add: alone_def range_sel_def pixels_def range_pixels_def min_absorb1)

lemma alone_ok: "i < STRIP \<Longrightarrow> sel_ok (alone i)"
  by (simp add: alone_def range_sel_def sel_ok_def)

lemma alone_not_Nil [simp]: "alone i \<noteq> []"
  by (simp add: alone_def range_sel_def)

lemma agree_layout: "agree l s i a b \<Longrightarrow> layout a = l" "agree l s i a b \<Longrightarrow> layout b = l"
  by (simp_all add: agree_def)

lemma agree_weaker: "agree l s i a b \<Longrightarrow> weaker s t \<Longrightarrow> agree l t i a b"
  unfolding agree_def weaker_def by blast

lemma weaker_refl [simp]: "weaker s s"
  by (simp add: weaker_def)

lemma weaker_trans: "weaker s t \<Longrightarrow> weaker t u \<Longrightarrow> weaker s u"
  by (auto simp: weaker_def)

lemma kept_layout: "kept l S M sel a b \<Longrightarrow> layout b = l"
  by (simp add: kept_def)

lemma kept_refl: "layout a = l \<Longrightarrow> kept l S M sel a a"
  by (simp add: kept_def)

lemma kept_trans: "kept l S M sel a b \<Longrightarrow> kept l S M sel b c \<Longrightarrow> kept l S M sel a c"
  unfolding kept_def by simp

lemma kept_more:
  assumes "kept l S M sel a b" "S \<subseteq> S'" "M \<subseteq> M' \<union> S'" "set (pixels sel) \<subseteq> set (pixels sel')"
  shows "kept l S' M' sel' a b"
  using assms unfolding kept_def by blast

text \<open>Code run for other pixels spoils what it shares, and tears the rows it writes.\<close>

lemma agree_kept:
  assumes "agree l s i a b" "kept l S M sel a a'" "i \<notin> set (pixels sel)" "i < STRIP"
    and "\<And>c. c \<in> M \<Longrightarrow> is_row_class (snd c)"
  shows "agree l (fst s \<union> S, snd s \<union> S \<union> M) i a' b"
  using assms unfolding agree_def kept_def by auto

lemma cell_get_scalar: "is_scalar_class (snd c) \<Longrightarrow> cell_get a c i = cell_get a c j"
  by (cases c; cases "fst c"; cases "snd c") (auto simp: cell_get_def store_get_def)

section \<open>Sequences\<close>

lemma loop_append: "loop visit (xs @ ys) s = Option.bind (loop visit xs s) (loop visit ys)"
  by (induction xs arbitrary: s) (auto split: bind_split)

lemma acts_seq:
  assumes f: "acts l S1 M1 spoil1 f" and g: "acts l S2 M2 spoil2 g"
  shows "acts l (S1 \<union> S2) (M1 \<union> M2) (\<lambda>s. Option.bind (spoil1 s) spoil2)
    (\<lambda>sel levels ws. Option.bind (f sel levels ws) (g sel levels))"
proof (rule actsI)
  fix sel levels a b
  assume "sel_ok sel" "layout a = l" "Option.bind (f sel levels a) (g sel levels) = Some b"
  then obtain c where "f sel levels a = Some c" "g sel levels c = Some b" by (auto simp: bind_eq_Some_conv)
  then have "kept l S1 M1 sel a c" "kept l S2 M2 sel c b"
    using acts_kept [OF f] acts_kept [OF g] kept_layout \<open>sel_ok sel\<close> \<open>layout a = l\<close> by blast+
  then show "kept l (S1 \<union> S2) (M1 \<union> M2) sel a b"
    by (meson kept_more kept_trans le_supI1 le_supI2 order_refl sup.cobounded1 sup.cobounded2)
next
  fix sel levels a b i s t a2
  assume *: "sel_ok sel" "i \<in> set (pixels sel)" "agree l s i a a2"
    and spoil: "Option.bind (spoil1 s) spoil2 = Some t"
    and run: "Option.bind (f sel levels a) (g sel levels) = Some b"
  obtain u c where u: "spoil1 s = Some u" "spoil2 u = Some t" and c: "f sel levels a = Some c" "g sel levels c = Some b"
    using spoil run by (auto simp: bind_eq_Some_conv)
  obtain c2 where c2: "f (alone i) levels a2 = Some c2" "agree l u i c c2"
    using acts_alone [OF f *(1,2,3) u(1) c(1)] .
  obtain b2 where "g (alone i) levels c2 = Some b2" "agree l t i b b2"
    using acts_alone [OF g *(1,2) c2(2) u(2) c(2)] .
  then show "\<exists>b2. Option.bind (f (alone i) levels a2) (g (alone i) levels) = Some b2 \<and> agree l t i b b2"
    using c2 by auto
qed

lemma acts_weaken:
  assumes "acts l S M spoil f" "S \<subseteq> S'" "M \<subseteq> M' \<union> S'"
    and "\<And>s t. spoil' s = Some t \<Longrightarrow> \<exists>u. spoil s = Some u \<and> weaker u t"
  shows "acts l S' M' spoil' f"
proof (rule actsI)
  fix sel levels a b
  assume "sel_ok sel" "layout a = l" "f sel levels a = Some b"
  then show "kept l S' M' sel a b" using acts_kept [OF assms(1)] kept_more assms(2,3) by blast
next
  fix sel levels a b i s t a2
  assume *: "sel_ok sel" "i \<in> set (pixels sel)" "agree l s i a a2" "spoil' s = Some t" "f sel levels a = Some b"
  obtain u where "spoil s = Some u" "weaker u t" using assms(4) [OF *(4)] by blast
  then show "\<exists>b2. f (alone i) levels a2 = Some b2 \<and> agree l t i b b2"
    using acts_alone [OF assms(1) *(1,2,3) _ *(5)] agree_weaker by metis
qed

lemma acts_skip: "acts l {} {} Some (\<lambda>_ _. Some)"
  by (rule actsI) (auto simp: kept_refl)

section \<open>Writing a destination\<close>

definition dst_write ::
  "selection \<Rightarrow> 'd dst \<Rightarrow> (workspace \<Rightarrow> nat \<Rightarrow> 'd option) \<Rightarrow> workspace \<Rightarrow> workspace option" where
  "dst_write sel d val ws =
     (case d of
        One put \<Rightarrow> map_option (\<lambda>v. put v ws) (val ws 0)
      | Many put \<Rightarrow> each sel (\<lambda>i ws. map_option (\<lambda>v. put i v ws) (val ws i)) ws)"

text \<open>A destination of several cells of one kind, a color's channels for one.\<close>

definition puts_cells :: "layout \<Rightarrow> cell set \<Rightarrow> ('v \<Rightarrow> cell \<Rightarrow> cell_value) \<Rightarrow>
    ('v \<Rightarrow> workspace \<Rightarrow> workspace) \<Rightarrow> nat \<Rightarrow> bool" where
  "puts_cells l C out put i \<longleftrightarrow>
     (\<forall>ws v. layout ws = l \<longrightarrow> layout (put v ws) = l \<and>
        (\<forall>c j. readable l c \<longrightarrow> j < STRIP \<longrightarrow> cell_get (put v ws) c j =
           (if c \<in> C \<and> (is_row_class (snd c) \<longrightarrow> j = i) then out v c else cell_get ws c j)))"

definition writes_cells :: "layout \<Rightarrow> cell set \<Rightarrow> ('v \<Rightarrow> cell \<Rightarrow> cell_value) \<Rightarrow> 'v dst \<Rightarrow> bool" where
  "writes_cells l C out d \<longleftrightarrow>
     (case d of
        One put \<Rightarrow> (\<forall>c \<in> C. is_scalar_class (snd c)) \<and> puts_cells l C out put 0
      | Many put \<Rightarrow> (\<forall>c \<in> C. is_row_class (snd c)) \<and> (\<forall>i < STRIP. puts_cells l C out (put i) i))"

lemma puts_layout: "puts_cells l C out put i \<Longrightarrow> layout ws = l \<Longrightarrow> layout (put v ws) = l"
  unfolding puts_cells_def by blast

lemma puts_get: "puts_cells l C out put i \<Longrightarrow> layout ws = l \<Longrightarrow> readable l c \<Longrightarrow> j < STRIP \<Longrightarrow>
    cell_get (put v ws) c j = (if c \<in> C \<and> (is_row_class (snd c) \<longrightarrow> j = i) then out v c else cell_get ws c j)"
  unfolding puts_cells_def by blast

lemma puts_one_cell: "puts_cell wrap l c put i \<longleftrightarrow> puts_cells l {c} (\<lambda>v _. wrap v) put i"
proof -
  have "(c' = c \<and> (is_row_class (snd c) \<longrightarrow> j = i)) = (c' \<in> {c} \<and> (is_row_class (snd c') \<longrightarrow> j = i))"
    for c' j by auto
  then show ?thesis unfolding puts_cell_def puts_cells_def by simp
qed

lemma writes_one_cell: "writes_cell wrap l c d \<longleftrightarrow> writes_cells l {c} (\<lambda>v _. wrap v) d"
  by (simp add: writes_cell_def writes_cells_def puts_one_cell split: dst.split)

lemma puts_then:
  assumes "puts_cells l C out p i" "puts_cells l C' out' p' i"
  shows "puts_cells l (C \<union> C') (\<lambda>v c. if c \<in> C' then out' (g v) c else out (f v) c)
    (\<lambda>v ws. p' (g v) (p (f v) ws)) i"
  using assms unfolding puts_cells_def by simp

definition shared_part :: "cell set \<Rightarrow> cell set" where
  "shared_part C = {c \<in> C. \<not> is_row_class (snd c)}"

definition masked_part :: "cell set \<Rightarrow> cell set" where
  "masked_part C = {c \<in> C. is_row_class (snd c)}"

definition spoil_write :: "cell set \<Rightarrow> cell set \<Rightarrow> cell set \<Rightarrow> spoilt \<Rightarrow> spoilt option" where
  "spoil_write R Q C s =
     (if R \<inter> fst s = {} \<and> Q \<inter> (snd s \<union> masked_part C) = {}
      then Some (fst s - C, snd s \<union> masked_part C) else None)"

text \<open>
  A value read from the cells \<open>R\<close> at the pixel and from the rows \<open>Q\<close> anywhere. Where agreement is
  known at one pixel it is read there, or anywhere if it reads nothing but scalars.
\<close>

definition all_scalar :: "cell set \<Rightarrow> bool" where
  "all_scalar C \<longleftrightarrow> (\<forall>c \<in> C. is_scalar_class (snd c))"

definition reads_only :: "layout \<Rightarrow> cell set \<Rightarrow> cell set \<Rightarrow> (workspace \<Rightarrow> nat \<Rightarrow> 'd) \<Rightarrow> bool" where
  "reads_only l R Q val \<longleftrightarrow>
     (\<forall>a b s i j. i < STRIP \<longrightarrow> j < STRIP \<longrightarrow> agree l s i a b \<longrightarrow> R \<inter> fst s = {} \<longrightarrow> Q \<inter> snd s = {} \<longrightarrow>
        j = i \<or> all_scalar R \<longrightarrow> val a j = val b j)"

lemma reads_onlyD:
  "reads_only l R Q val \<Longrightarrow> i < STRIP \<Longrightarrow> j < STRIP \<Longrightarrow> agree l s i a b \<Longrightarrow> R \<inter> fst s = {} \<Longrightarrow> Q \<inter> snd s = {} \<Longrightarrow>
    j = i \<or> all_scalar R \<Longrightarrow> val a j = val b j"
  unfolding reads_only_def by blast

lemma loop_kept:
  assumes "\<forall>i < STRIP. puts_cells l C out (put i) i" "\<forall>c \<in> C. is_row_class (snd c)"
    and "layout a = l" "loop (\<lambda>i ws. map_option (\<lambda>v. put i v ws) (val ws i)) is a = Some b"
    and "\<forall>i \<in> set is. i < STRIP"
  shows "layout b = l \<and> (\<forall>c j. readable l c \<longrightarrow> j < STRIP \<longrightarrow> (c \<in> C \<longrightarrow> j \<notin> set is) \<longrightarrow>
    cell_get b c j = cell_get a c j)"
  using assms(3-5)
proof (induction "is" arbitrary: a)
  case (Cons i rest)
  then obtain v where v: "val a i = Some v"
    and run: "loop (\<lambda>i ws. map_option (\<lambda>v. put i v ws) (val ws i)) rest (put i v a) = Some b"
    by (auto simp: bind_eq_Some_conv)
  have put: "layout (put i v a) = l" "\<And>c j. readable l c \<Longrightarrow> j < STRIP \<Longrightarrow>
      cell_get (put i v a) c j = (if c \<in> C \<and> j = i then out v c else cell_get a c j)"
    using puts_layout [of l C out "put i" i] puts_get [of l C out "put i" i] assms(1,2) Cons.prems(1,3)
    by auto
  then show ?case using Cons.IH [OF put(1) run] Cons.prems(3) by auto
qed simp

lemma write_acts:
  assumes d: "writes_cells l C out d" and reads: "reads_only l R Q val"
    and scalar: "\<And>put. d = One put \<Longrightarrow> all_scalar R"
  shows "acts l (shared_part C) (masked_part C) (spoil_write R Q C) (\<lambda>sel _. dst_write sel d val)"
proof (cases d)
  case (One put)
  then have c: "\<And>c. c \<in> C \<Longrightarrow> \<not> is_row_class (snd c)" and put: "puts_cells l C out put 0"
    using d by (auto simp: writes_cells_def is_scalar_class_def is_row_class_def split: slot_class.splits)
  then have parts: "shared_part C = C" "masked_part C = {}" by (auto simp: shared_part_def masked_part_def)
  show ?thesis
  proof (rule actsI)
    fix sel levels a b
    assume "sel_ok sel" "layout a = l" "dst_write sel d val a = Some b"
    then show "kept l (shared_part C) (masked_part C) sel a b"
      using put by (auto simp: dst_write_def One kept_def puts_cells_def parts)
  next
    fix sel levels a b i s t a2
    assume *: "sel_ok sel" "i \<in> set (pixels sel)" "agree l s i a a2" "spoil_write R Q C s = Some t"
      "dst_write sel d val a = Some b"
    have i: "i < STRIP" using *(2) pixels_below by blast
    have la: "layout a = l" "layout a2 = l" using agree_layout [OF *(3)] by simp_all
    have ok: "R \<inter> fst s = {}" "Q \<inter> snd s = {}" and t: "t = (fst s - C, snd s)"
      using *(4) by (auto simp: spoil_write_def parts split: if_splits)
    have "val a 0 = val a2 0"
      using reads_onlyD [OF reads i _ *(3) ok] scalar [OF One] by (simp add: STRIP_def)
    moreover obtain v where v: "val a 0 = Some v" "b = put v a" using *(5) by (auto simp: dst_write_def One)
    ultimately have b2: "dst_write (alone i) d val a2 = Some (put v a2)"
      by (simp add: dst_write_def One eq_commute [of "Some v"])
    have "agree l t i b (put v a2)"
      using put *(3) la i c unfolding t v(2) agree_def puts_cells_def by (auto split: if_splits)
    then show "\<exists>b2. dst_write (alone i) d val a2 = Some b2 \<and> agree l t i b b2" using b2 by blast
  qed
next
  case (Many put)
  then have c: "\<forall>c \<in> C. is_row_class (snd c)" and puts: "\<forall>i < STRIP. puts_cells l C out (put i) i"
    using d by (auto simp: writes_cells_def)
  then have parts: "shared_part C = {}" "masked_part C = C" by (auto simp: shared_part_def masked_part_def)
  note frame = loop_kept [of l C out put, OF puts c]
  show ?thesis
  proof (rule actsI)
    fix sel levels a b
    assume "sel_ok sel" "layout a = l" "dst_write sel d val a = Some b"
    then show "kept l (shared_part C) (masked_part C) sel a b"
      using frame [of a val "pixels sel" b] pixels_below
      by (auto simp: dst_write_def Many each_def kept_def parts)
  next
    fix sel levels a b i s t a2
    let ?visit = "\<lambda>i ws. map_option (\<lambda>v. put i v ws) (val ws i)"
    assume *: "sel_ok sel" "i \<in> set (pixels sel)" "agree l s i a a2" "spoil_write R Q C s = Some t"
      "dst_write sel d val a = Some b"
    have i: "i < STRIP" using *(2) pixels_below by blast
    have put: "puts_cells l C out (put i) i" using puts i by blast
    have la: "layout a = l" "layout a2 = l" using agree_layout [OF *(3)] by simp_all
    have ok: "R \<inter> fst s = {}" "Q \<inter> (snd s \<union> C) = {}" and t: "t = (fst s - C, snd s \<union> C)"
      using *(4) by (auto simp: spoil_write_def parts split: if_splits)
    obtain xs ys where split: "pixels sel = xs @ i # ys" using split_list [OF *(2)] by blast
    have small: "\<forall>j \<in> set xs. j < STRIP" "\<forall>j \<in> set ys. j < STRIP"
      using pixels_below [of _ sel] split by auto
    have apart: "i \<notin> set xs" "i \<notin> set ys" using pixels_distinct [OF *(1)] split by auto
    have "loop ?visit (xs @ i # ys) a = Some b" using *(5) by (simp add: dst_write_def Many each_def split)
    then obtain a1 v where a1: "loop ?visit xs a = Some a1" "val a1 i = Some v"
      "loop ?visit ys (put i v a1) = Some b"
      by (auto simp: loop_append bind_eq_Some_conv)
    have k1: "layout a1 = l" "\<And>c j. readable l c \<Longrightarrow> j < STRIP \<Longrightarrow> (c \<in> C \<longrightarrow> j \<notin> set xs) \<Longrightarrow>
        cell_get a1 c j = cell_get a c j"
      using frame [OF la(1) a1(1) small(1)] by blast+
    have p1: "layout (put i v a1) = l" "\<And>c j. readable l c \<Longrightarrow> j < STRIP \<Longrightarrow>
        cell_get (put i v a1) c j = (if c \<in> C \<and> j = i then out v c else cell_get a1 c j)"
      using puts_layout [OF put k1(1)] puts_get [OF put k1(1)] c by auto
    have k2: "layout b = l" "\<And>c j. readable l c \<Longrightarrow> j < STRIP \<Longrightarrow> (c \<in> C \<longrightarrow> j \<notin> set ys) \<Longrightarrow>
        cell_get b c j = cell_get (put i v a1) c j"
      using frame [OF p1(1) a1(3) small(2)] by blast+
    have p2: "layout (put i v a2) = l" "\<And>c j. readable l c \<Longrightarrow> j < STRIP \<Longrightarrow>
        cell_get (put i v a2) c j = (if c \<in> C \<and> j = i then out v c else cell_get a2 c j)"
      using puts_layout [OF put la(2)] puts_get [OF put la(2)] c by auto
    have "agree l (fst s, snd s \<union> C) i a1 a2"
      using *(3) k1 la apart i unfolding agree_def by auto
    then have "val a1 i = val a2 i" using reads_onlyD [OF reads i i] ok by simp
    then have "val a2 i = Some v" using a1(2) by simp
    then have b2: "dst_write (alone i) d val a2 = Some (put i v a2)"
      using i by (simp add: dst_write_def Many each_def)
    have "agree l t i b (put i v a2)"
      using *(3) k1 k2 p1 p2 apart i unfolding t agree_def by auto
    then show "\<exists>b2. dst_write (alone i) d val a2 = Some b2 \<and> agree l t i b b2" using b2 by blast
  qed
qed

end
