(* ===== verification/StripWrites.thy ===== *)
theory StripWrites
  imports StripActions StripSteps
begin

unbundle bit_operations_syntax

text \<open>
  The loops of the strip interpreter write their destination and no other cell. Each of them, the
  hoisted and the branch-free ones included, does what the plain loop over a destination does; so
  what it leaves at a pixel depends on its operands' cells at that pixel.
\<close>

section \<open>Operands\<close>

definition reads :: "layout \<Rightarrow> cell \<Rightarrow> 'a src \<Rightarrow> bool" where
  "reads l c a \<longleftrightarrow> readable l c \<and> (\<exists>wrap. (\<forall>x y. wrap x = wrap y \<longrightarrow> x = y) \<and> reads_cell wrap l c a)"

lemma agree_get: "agree l s i a b \<Longrightarrow> readable l c \<Longrightarrow> c \<notin> fst s \<Longrightarrow> cell_get a c i = cell_get b c i"
  unfolding agree_def by blast

lemma agree_row:
  "agree l s i a b \<Longrightarrow> readable l c \<Longrightarrow> c \<notin> snd s \<Longrightarrow> is_row_class (snd c) \<Longrightarrow> j < STRIP \<Longrightarrow>
    cell_get a c j = cell_get b c j"
  unfolding agree_def by blast

lemma agree_input: "layout a = layout b \<Longrightarrow> fst c \<noteq> BColor \<Longrightarrow> is_input (snd c) \<Longrightarrow> cell_get a c i = cell_get b c i"
  by (cases c) (auto simp: layout_def cell_get_def is_input_def split: slot_class.splits bank.splits input.splits)

lemma reads_eq:
  assumes "reads l c a" "layout w = l" "layout w2 = l"
    and "cell_get w c (i AND MASK) = cell_get w2 c (j AND MASK)"
  shows "src_at a w i = src_at a w2 j"
  using assms unfolding reads_def reads_cell_def by metis

lemma reads_scalar: "reads l c a \<Longrightarrow> src_is_scalar a = is_scalar_class (snd c)"
  by (auto simp: reads_def reads_cell_def)

lemma reads_row: "reads l c a \<Longrightarrow> \<not> src_is_scalar a \<Longrightarrow> i < STRIP \<Longrightarrow> src_row a w i = src_at a w i"
  by (auto simp: reads_def reads_cell_def)

lemma reads_anywhere: "reads l c a \<Longrightarrow> src_is_scalar a \<Longrightarrow> layout w = l \<Longrightarrow> src_at a w i = src_at a w j"
  by (rule reads_eq) (auto simp: reads_scalar cell_get_scalar)

lemma reads_src: "reads l c a \<Longrightarrow> reads_only l {c} {} (src_at a)"
  unfolding reads_only_def
proof (intro allI impI)
  fix w w2 s i j
  assume a: "reads l c a" and ij: "i < STRIP" "j < STRIP" and agree: "agree l s i w w2"
    and c: "{c} \<inter> fst s = {}" and j: "j = i \<or> all_scalar {c}"
  have "cell_get w c i = cell_get w2 c i" using agree_get [OF agree, of c] a c by (simp add: reads_def)
  then have "cell_get w c j = cell_get w2 c j"
    using j cell_get_scalar [of c w i j] cell_get_scalar [of c w2 i j] by (auto simp: all_scalar_def)
  then show "src_at a w j = src_at a w2 j"
    using reads_eq [OF a agree_layout [OF agree], of j j] ij by (simp add: and_MASK)
qed

lemma reads_const: "reads_only l {} {} (\<lambda>_ i. v i)"
  by (simp add: reads_only_def)

lemma reads_pixels: "reads_only l {} {} (\<lambda>ws i. f (ws_pixels ws) i)"
  by (auto simp: reads_only_def agree_def layout_def)

lemma reads_mapped:
  "reads_only l R Q v \<Longrightarrow> reads_only l R Q (\<lambda>ws i. g (v ws i))"
  unfolding reads_only_def by metis

lemma reads_both:
  assumes "reads_only l R Q v" "reads_only l R' Q' v'"
  shows "reads_only l (R \<union> R') (Q \<union> Q') (\<lambda>ws i. g (v ws i) (v' ws i))"
  unfolding reads_only_def
proof (intro allI impI)
  fix a b s i j
  assume *: "i < STRIP" "j < STRIP" "agree l s i a b" "(R \<union> R') \<inter> fst s = {}" "(Q \<union> Q') \<inter> snd s = {}"
    "j = i \<or> all_scalar (R \<union> R')"
  have "v a j = v b j" using * by (intro reads_onlyD [OF assms(1)]) (auto simp: all_scalar_def)
  moreover have "v' a j = v' b j" using * by (intro reads_onlyD [OF assms(2)]) (auto simp: all_scalar_def)
  ultimately show "g (v a j) (v' a j) = g (v b j) (v' b j)" by simp
qed

lemma reads_three:
  "reads_only l R Q v \<Longrightarrow> reads_only l R' Q' v' \<Longrightarrow> reads_only l R'' Q'' v'' \<Longrightarrow>
    reads_only l (R \<union> (R' \<union> R'')) (Q \<union> (Q' \<union> Q'')) (\<lambda>ws i. g (v ws i) (v' ws i) (v'' ws i))"
  using reads_both [OF _ reads_both [of l R' Q' v' R'' Q'' v'' Pair], of R Q v "\<lambda>x y. g x (fst y) (snd y)"]
  by simp

text \<open>A table, read at any index.\<close>

definition table_scalar :: "cell \<Rightarrow> cell set" where
  "table_scalar c = (if is_row_class (snd c) then {} else {c})"

definition table_row :: "cell \<Rightarrow> cell set" where
  "table_row c = (if is_row_class (snd c) then {c} else {})"

lemma class_cases: "is_scalar_class k \<or> is_row_class k \<or> is_input k"
  by (cases k) simp_all

lemma reads_table: "reads l c a \<Longrightarrow> reads_only l (table_scalar c) (table_row c) (\<lambda>ws _. src_at a ws)"
  unfolding reads_only_def
proof (intro allI impI ext)
  fix w w2 s i j k
  assume a: "reads l c a" and ij: "i < STRIP" "j < STRIP" and agree: "agree l s i w w2"
    and scalar: "table_scalar c \<inter> fst s = {}" and row: "table_row c \<inter> snd s = {}"
  have l: "layout w = l" "layout w2 = l" using agree_layout [OF agree] by simp_all
  have readable: "readable l c" and bank: "fst c \<noteq> BColor" using a by (auto simp: reads_def readable_def writable_def)
  consider "is_scalar_class (snd c)" | "is_row_class (snd c)" | "is_input (snd c)" using class_cases by blast
  then have "cell_get w c (k AND MASK) = cell_get w2 c (k AND MASK)"
  proof cases
    case 1
    then have "cell_get w c i = cell_get w2 c i"
      using agree_get [OF agree readable] scalar by (cases "snd c") (simp_all add: table_scalar_def)
    then show ?thesis using cell_get_scalar [OF 1] by metis
  next
    case 2
    then show ?thesis
      using agree_row [OF agree readable] row and_MASK_less by (simp add: table_row_def)
  next
    case 3
    then show ?thesis using agree_input l bank by metis
  qed
  then show "src_at a w k = src_at a w2 k" using reads_eq [OF a l] by blast
qed

section \<open>Loops that settle\<close>

text \<open>Row writes leave the scalars alone, so what was read from them once stands.\<close>

definition same_scalars :: "layout \<Rightarrow> workspace \<Rightarrow> workspace \<Rightarrow> bool" where
  "same_scalars l a b \<longleftrightarrow> layout a = l \<and> layout b = l \<and>
     (\<forall>c. readable l c \<longrightarrow> is_scalar_class (snd c) \<longrightarrow> cell_get b c 0 = cell_get a c 0)"

lemma same_scalars_refl: "layout a = l \<Longrightarrow> same_scalars l a a"
  by (simp add: same_scalars_def)

lemma same_scalars_put:
  assumes "same_scalars l a b" "puts_cells l C out put i" "\<forall>c \<in> C. is_row_class (snd c)"
  shows "same_scalars l a (put v b)"
proof -
  have "cell_get (put v b) c 0 = cell_get b c 0" if "readable l c" "is_scalar_class (snd c)" for c
  proof -
    have "c \<notin> C" using that(2) assms(3) by (cases "snd c") auto
    then show ?thesis using puts_get [OF assms(2) _ that(1), of b 0 v] assms(1) by (simp add: same_scalars_def STRIP_def)
  qed
  then show ?thesis using assms(1) puts_layout [OF assms(2), of b v] by (simp add: same_scalars_def)
qed

lemma settled_src:
  assumes "reads l c a" "src_is_scalar a" "same_scalars l ws w"
  shows "src_at a w i = src_at a ws 0"
proof (rule reads_eq [OF assms(1)])
  have c: "is_scalar_class (snd c)" "readable l c" using assms(1,2) reads_scalar [OF assms(1)] by (simp_all add: reads_def)
  have "cell_get w c (i AND MASK) = cell_get w c 0" by (rule cell_get_scalar [OF c(1)])
  also have "\<dots> = cell_get ws c 0" using assms(3) c unfolding same_scalars_def by blast
  finally show "cell_get w c (i AND MASK) = cell_get ws c (0 AND MASK)" by simp
qed (use assms(3) in \<open>simp_all add: same_scalars_def\<close>)

definition settles :: "('c \<Rightarrow> bool) \<Rightarrow> ('d \<times> 'c) option \<Rightarrow> 'd option \<Rightarrow> bool" where
  "settles I r v \<longleftrightarrow> (case r of None \<Rightarrow> v = None | Some (x, c) \<Rightarrow> v = Some x \<and> I c)"

lemma settles_simps [simp]:
  "settles I None v \<longleftrightarrow> v = None" "settles I (Some (x, c)) v \<longleftrightarrow> v = Some x \<and> I c"
  by (auto simp: settles_def)

lemma settles_pure [simp]: "settles (\<lambda>_. True) (pure v c) w \<longleftrightarrow> w = Some v"
  by (simp add: pure_def)

lemma settles_fallible [simp]: "settles (\<lambda>_. True) (fallible v c) w \<longleftrightarrow> w = v"
  by (cases v) (simp_all add: fallible_def)

lemma write_each_settles:
  assumes d: "writes_cells l C out (Many put)" and start: "layout ws = l" "I c"
    and each: "\<And>w i c. same_scalars l ws w \<Longrightarrow> i < STRIP \<Longrightarrow> I c \<Longrightarrow> settles I (v w i c) (val w i)"
  shows "write_each sel put v c ws = dst_write sel (Many put) val ws"
proof -
  have rows: "\<forall>c \<in> C. is_row_class (snd c)" and puts: "\<And>i. i < STRIP \<Longrightarrow> puts_cells l C out (put i) i"
    using d by (simp_all add: writes_cells_def)
  have "map_option fst (loop (\<lambda>i (w, c). map_option (\<lambda>(x, c). (put i x w, c)) (v w i c)) is (w, c)) =
      loop (\<lambda>i w. map_option (\<lambda>x. put i x w) (val w i)) is w"
    if "\<forall>i \<in> set is. i < STRIP" "same_scalars l ws w" "I c" for "is" w c
    using that
  proof (induction "is" arbitrary: w c)
    case (Cons i rest)
    have i: "i < STRIP" using Cons.prems(1) by simp
    have now: "settles I (v w i c) (val w i)" using each [OF Cons.prems(2) i Cons.prems(3)] .
    show ?case
    proof (cases "v w i c")
      case None
      then show ?thesis using now by simp
    next
      case (Some r)
      then obtain x c' where r: "v w i c = Some (x, c')" "val w i = Some x" "I c'"
        using now by (cases r) auto
      then show ?thesis using Cons.IH [of "put i x w" c'] Cons.prems same_scalars_put [OF Cons.prems(2) puts [OF i] rows]
        by simp
    qed
  qed simp
  from this [of "pixels sel" ws c] show ?thesis
    using pixels_below start same_scalars_refl by (fastforce simp: write_each_def each_def dst_write_def)
qed

section \<open>Every loop is a plain write\<close>

type_synonym action = "selection \<Rightarrow> nat \<Rightarrow> workspace \<Rightarrow> workspace option"

text \<open>
  A hoisted loop may panic where a plain one over no pixels would not; it does nothing the plain
  one does not.
\<close>

definition behaves :: "layout \<Rightarrow> action \<Rightarrow> action \<Rightarrow> bool" where
  "behaves l f g \<longleftrightarrow>
     (\<forall>sel levels ws b. sel_ok sel \<longrightarrow> layout ws = l \<longrightarrow>
        (f sel levels ws = Some b \<longrightarrow> g sel levels ws = Some b) \<and>
        (pixels sel \<noteq> [] \<longrightarrow> g sel levels ws = Some b \<longrightarrow> f sel levels ws = Some b))"

lemma behaves_same: "(\<And>sel levels ws. layout ws = l \<Longrightarrow> f sel levels ws = g sel levels ws) \<Longrightarrow> behaves l f g"
  by (simp add: behaves_def)

lemma acts_behaves:
  assumes "behaves l f g" "acts l S M spoil g"
  shows "acts l S M spoil f"
proof (rule actsI)
  fix sel levels a b
  assume "sel_ok sel" "layout a = l" "f sel levels a = Some b"
  then show "kept l S M sel a b" using assms acts_kept unfolding behaves_def by blast
next
  fix sel levels a b i s t a2
  assume *: "sel_ok sel" "i \<in> set (pixels sel)" "agree l s i a a2" "spoil s = Some t" "f sel levels a = Some b"
  have i: "i < STRIP" using *(2) pixels_below by blast
  have "g sel levels a = Some b" using * assms(1) agree_layout unfolding behaves_def by blast
  then obtain b2 where b2: "g (alone i) levels a2 = Some b2" "agree l t i b b2"
    using acts_alone [OF assms(2) *(1-4)] by blast
  then have "f (alone i) levels a2 = Some b2"
    using assms(1) alone_ok [OF i] agree_layout(2) [OF *(3)] i unfolding behaves_def
    by (metis list.distinct(1) pixels_alone)
  then show "\<exists>b2. f (alone i) levels a2 = Some b2 \<and> agree l t i b b2" using b2(2) by blast
qed

lemma write_one_settles: "settles I r v \<Longrightarrow> write_one put r ws = map_option (\<lambda>x. put x ws) v"
  by (auto simp: settles_def write_one_def split: option.splits)

lemma first_pixel:
  assumes "pixels sel \<noteq> []" "dst_write sel (Many put) val ws = Some b"
  obtains i x where "i < STRIP" "val ws i = Some x"
proof -
  obtain i rest where i: "pixels sel = i # rest" using assms(1) by (cases "pixels sel") auto
  then have "i < STRIP" using pixels_below [of i sel] by simp
  then show thesis using assms(2) that by (auto simp: dst_write_def each_def i bind_eq_Some_conv)
qed

lemma pick_each_settles:
  assumes "writes_cells l C out d" "I c"
    and "\<And>ws i c. layout ws = l \<Longrightarrow> i < STRIP \<Longrightarrow> I c \<Longrightarrow> settles I (v ws i c) (val ws i)"
  shows "behaves l (\<lambda>sel _ ws. pick_each sel d v c ws) (\<lambda>sel _. dst_write sel d val)"
proof (rule behaves_same)
  fix sel :: selection and ws assume l: "layout ws = l"
  have zero: "0 < STRIP" by (simp add: STRIP_def)
  show "pick_each sel d v c ws = dst_write sel d val ws"
  proof (cases d)
    case (One put)
    then show ?thesis
      using write_one_settles [OF assms(3) [OF l zero assms(2)]] by (simp add: pick_each_def dst_write_def)
  next
    case (Many put)
    show ?thesis using write_each_settles [of l C out put ws I c v val sel] assms l
      by (simp add: pick_each_def Many same_scalars_def)
  qed
qed

lemma apply1_settles:
  assumes "writes_cells l C out d" "I c" "\<And>x c. I c \<Longrightarrow> settles I (f x c) (g x)"
  shows "behaves l (\<lambda>sel _ ws. apply1 sel d a f c ws) (\<lambda>sel _. dst_write sel d (\<lambda>ws i. g (src_at a ws i)))"
proof -
  have "apply1 sel d a f c ws = pick_each sel d (\<lambda>ws i. f (src_at a ws i)) c ws" for sel ws
    by (simp add: apply1_def pick_each_def split: dst.split)
  then show ?thesis using pick_each_settles [where I = I, OF assms(1,2), of "\<lambda>ws i. f (src_at a ws i)"] assms(3) by simp
qed

lemma apply2_settles:
  assumes "writes_cells l C out d" "I c" "\<And>x y c. I c \<Longrightarrow> settles I (f x y c) (g x y)"
  shows "behaves l (\<lambda>sel _ ws. apply2 sel d a b f c ws)
    (\<lambda>sel _. dst_write sel d (\<lambda>ws i. g (src_at a ws i) (src_at b ws i)))"
proof -
  have "apply2 sel d a b f c ws = pick_each sel d (\<lambda>ws i. f (src_at a ws i) (src_at b ws i)) c ws" for sel ws
    by (simp add: apply2_def pick_each_def split: dst.split)
  then show ?thesis
    using pick_each_settles [where I = I, OF assms(1,2), of "\<lambda>ws i. f (src_at a ws i) (src_at b ws i)"] assms(3) by simp
qed

lemma apply3_settles:
  assumes "writes_cells l C out d" "I c" "\<And>x y z c. I c \<Longrightarrow> settles I (f x y z c) (g x y z)"
  shows "behaves l (\<lambda>sel _ ws. apply3 sel d a b e f c ws)
    (\<lambda>sel _. dst_write sel d (\<lambda>ws i. g (src_at a ws i) (src_at b ws i) (src_at e ws i)))"
proof -
  have "apply3 sel d a b e f c ws =
      pick_each sel d (\<lambda>ws i. f (src_at a ws i) (src_at b ws i) (src_at e ws i)) c ws" for sel ws
    by (simp add: apply3_def pick_each_def split: dst.split)
  then show ?thesis
    using pick_each_settles [where I = I, OF assms(1,2), of "\<lambda>ws i. f (src_at a ws i) (src_at b ws i) (src_at e ws i)"]
      assms(3) by simp
qed

lemma map1_settles:
  assumes d: "writes_cells l C out d" and a: "reads l ca a" and c: "I c"
    and f: "\<And>x c. I c \<Longrightarrow> settles I (f x c) (g x)"
  shows "behaves l (\<lambda>sel _ ws. strip_map1 sel d a f c ws) (\<lambda>sel _. dst_write sel d (\<lambda>ws i. g (src_at a ws i)))"
proof (cases d)
  case (One put)
  have "strip_map1 sel d a f c ws = dst_write sel d (\<lambda>ws i. g (src_at a ws i)) ws" for sel ws
    using write_one_settles [OF f [OF c]] by (simp add: strip_map1_def One dst_write_def)
  then show ?thesis by (simp add: behaves_same)
next
  case (Many put)
  note d = d [unfolded Many]
  show ?thesis
  proof (cases "src_is_scalar a")
    case False
    have "strip_map1 sel d a f c ws = dst_write sel d (\<lambda>ws i. g (src_at a ws i)) ws" if "layout ws = l" for sel ws
      using write_each_settles [where I = I, OF d that c, of "\<lambda>ws i. f (src_row a ws i)"] f
      by (simp add: strip_map1_def Many False reads_row [OF a False])
    then show ?thesis by (simp add: behaves_same)
  next
    case True
    have scalar: "\<And>ws w i. same_scalars l ws w \<Longrightarrow> src_at a w i = src_at a ws 0"
      using settled_src [OF a True] .
    have hoisted: "write_each sel put (\<lambda>_ _. pure v) () ws = dst_write sel d (\<lambda>ws i. g (src_at a ws i)) ws"
      if "layout ws = l" "g (src_at a ws 0) = Some v" for sel ws v
      using write_each_settles [OF d that(1), of "\<lambda>_. True" "()" "\<lambda>_ _. pure v" "\<lambda>ws i. g (src_at a ws i)"]
        that(2) scalar by (simp add: Many)
    show ?thesis unfolding behaves_def
    proof (intro allI impI conjI)
      fix sel :: selection and ws b
      assume l: "layout ws = l" and run: "strip_map1 sel d a f c ws = Some b"
      obtain v c' where "f (src_at a ws 0) c = Some (v, c')" "write_each sel put (\<lambda>_ _. pure v) () ws = Some b"
        using run by (auto simp: strip_map1_def Many True bind_eq_Some_conv)
      then show "dst_write sel d (\<lambda>ws i. g (src_at a ws i)) ws = Some b"
        using hoisted [OF l] f [OF c, of "src_at a ws 0"] by simp
    next
      fix sel :: selection and ws b
      assume l: "layout ws = l" and some: "pixels sel \<noteq> []"
        and run: "dst_write sel d (\<lambda>ws i. g (src_at a ws i)) ws = Some b"
      obtain i v where "g (src_at a ws i) = Some v" using first_pixel [OF some run [unfolded Many]] by blast
      then have v: "g (src_at a ws 0) = Some v" using scalar [OF same_scalars_refl [OF l]] by metis
      then obtain c' where "f (src_at a ws 0) c = Some (v, c')"
        using f [OF c, of "src_at a ws 0"] by (auto simp: settles_def split: option.splits)
      then show "strip_map1 sel d a f c ws = Some b"
        using hoisted [OF l v] run by (simp add: strip_map1_def Many True)
    qed
  qed
qed

lemma map2_plain:
  assumes d: "writes_cells l C out d" and a: "reads l ca a" and b: "reads l cb b"
  shows "behaves l (\<lambda>sel _ ws. strip_map2 sel d a b f ws)
    (\<lambda>sel _. dst_write sel d (\<lambda>ws i. Some (f (src_at a ws i) (src_at b ws i))))"
proof (rule behaves_same)
  fix sel :: selection and ws assume l: "layout ws = l"
  show "strip_map2 sel d a b f ws = dst_write sel d (\<lambda>ws i. Some (f (src_at a ws i) (src_at b ws i))) ws"
  proof (cases d)
    case (One put)
    then show ?thesis by (simp add: strip_map2_def dst_write_def)
  next
    case (Many put)
    note each = write_each_settles [OF d [unfolded Many] l, of "\<lambda>_. True" "()"]
    show ?thesis
      by (simp add: strip_map2_def Many Let_def)
        (auto intro!: each simp: reads_row [OF a] reads_row [OF b] settled_src [OF b])
  qed
qed

lemma map3_plain:
  assumes d: "writes_cells l C out d" and a: "reads l ca a" and b: "reads l cb b" and e: "reads l ce e"
  shows "behaves l (\<lambda>sel _ ws. strip_map3 sel d a b e f ws)
    (\<lambda>sel _. dst_write sel d (\<lambda>ws i. Some (f (src_at a ws i) (src_at b ws i) (src_at e ws i))))"
proof (rule behaves_same)
  fix sel :: selection and ws assume l: "layout ws = l"
  let ?val = "\<lambda>ws i. Some (f (src_at a ws i) (src_at b ws i) (src_at e ws i))"
  show "strip_map3 sel d a b e f ws = dst_write sel d ?val ws"
  proof (cases d)
    case (One put)
    then show ?thesis by (simp add: strip_map3_def dst_write_def)
  next
    case (Many put)
    note each = write_each_settles [OF d [unfolded Many] l, of "\<lambda>_. True" "()"]
    show ?thesis
      by (simp add: strip_map3_def Many Let_def)
        (auto intro!: each simp: reads_row [OF a] settled_src [OF b] settled_src [OF e])
  qed
qed

section \<open>What a strip looks up once\<close>

lemma dst_write_cong:
  assumes "writes_cells l C out (Many put)" "layout ws = l"
    and "\<And>w i. same_scalars l ws w \<Longrightarrow> i < STRIP \<Longrightarrow> val w i = val' w i"
  shows "dst_write sel (Many put) val ws = dst_write sel (Many put) val' ws"
proof -
  have "write_each sel put (\<lambda>w i. fallible (val' w i)) () ws = dst_write sel (Many put) v ws"
    if "v = val \<or> v = val'" for v
    using write_each_settles [OF assms(1,2), of "\<lambda>_. True" "()" "\<lambda>w i. fallible (val' w i)" v] assms(3) that by auto
  then show ?thesis by metis
qed

lemma hoisted:
  assumes d: "writes_cells l C out d" and h: "reads l ch h" "src_is_scalar h"
    and each: "\<And>x y. k y = Some x \<Longrightarrow> behaves l (F x) (\<lambda>sel _. dst_write sel d (val x))"
  shows "behaves l (\<lambda>sel levels ws. Option.bind (k (src_at h ws 0)) (\<lambda>x. F x sel levels ws))
    (\<lambda>sel _. dst_write sel d (\<lambda>ws i. Option.bind (k (src_at h ws i)) (\<lambda>x. val x ws i)))"
proof -
  let ?val = "\<lambda>ws i. Option.bind (k (src_at h ws i)) (\<lambda>x. val x ws i)"
  have same: "dst_write sel d ?val ws = dst_write sel d (val x) ws"
    if "layout ws = l" "k (src_at h ws 0) = Some x" for sel ws x
  proof (cases d)
    case (Many put)
    show ?thesis unfolding Many
      by (rule dst_write_cong [OF d [unfolded Many] that(1)]) (simp add: settled_src [OF h, of ws] that(2))
  qed (use that in \<open>simp add: dst_write_def\<close>)
  have none: "dst_write sel d ?val ws = None"
    if l: "layout ws = l" and absent: "k (src_at h ws 0) = None" and some: "pixels sel \<noteq> []" for sel ws
  proof (cases d)
    case (Many put)
    show ?thesis
    proof (rule ccontr)
      assume "dst_write sel d ?val ws \<noteq> None"
      then obtain b where "dst_write sel (Many put) ?val ws = Some b" by (auto simp: Many)
      then obtain i x where "?val ws i = Some x" using first_pixel [OF some] by blast
      moreover have "src_at h ws i = src_at h ws 0" using settled_src [OF h same_scalars_refl [OF l]] .
      ultimately show False using absent by simp
    qed
  qed (use absent in \<open>simp add: dst_write_def\<close>)
  show ?thesis unfolding behaves_def
  proof (intro allI impI conjI)
    fix sel levels ws b
    assume ok: "sel_ok sel" "layout ws = l" and "Option.bind (k (src_at h ws 0)) (\<lambda>x. F x sel levels ws) = Some b"
    then obtain x where x: "k (src_at h ws 0) = Some x" "F x sel levels ws = Some b" by (auto simp: bind_eq_Some_conv)
    then have "dst_write sel d (val x) ws = Some b" using each [OF x(1)] ok unfolding behaves_def by blast
    then show "dst_write sel d ?val ws = Some b" using same [OF ok(2) x(1)] by simp
  next
    fix sel levels ws b
    assume ok: "sel_ok sel" "layout ws = l" and some: "pixels sel \<noteq> []" and run: "dst_write sel d ?val ws = Some b"
    obtain x where x: "k (src_at h ws 0) = Some x" using none [OF ok(2) _ some] run by fastforce
    then have "F x sel levels ws = Some b"
      using each [OF x] ok some run same [OF ok(2) x] unfolding behaves_def by metis
    then show "Option.bind (k (src_at h ws 0)) (\<lambda>x. F x sel levels ws) = Some b" using x by simp
  qed
qed

end
