(* ===== verification/StripInstructions.thy ===== *)
theory StripInstructions
  imports StripWrites
begin

unbundle bit_operations_syntax

text \<open>
  Every instruction that nests no code reads and writes the cells \<open>accesses\<close> names: it changes no
  other, a row only at the selected pixels, and what it leaves at a pixel depends on what it reads
  there, whatever the other pixels of the strip are. The cells are those \<open>visit_slots\<close> reports.
\<close>

section \<open>Fetching operands and destinations\<close>

definition writes :: "layout \<Rightarrow> cell set \<Rightarrow> 'd dst \<Rightarrow> bool" where
  "writes l C d \<longleftrightarrow> (\<exists>out. writes_cells l C out d)"

lemma writes_one: "writes l C (One put) \<Longrightarrow> all_scalar C"
  by (auto simp: writes_def writes_cells_def all_scalar_def)

lemma readsI:
  "reads_cell wrap l c a \<Longrightarrow> readable l c \<Longrightarrow> (\<And>x y. wrap x = wrap y \<longleftrightarrow> x = y) \<Longrightarrow> reads l c a"
  unfolding reads_def by blast

lemma input_reads:
  assumes "\<And>ws i. layout ws = l \<Longrightarrow> wrap (row (ws_pixels ws) i) = cell_get ws (b, PixelInput p) i"
  shows "reads_cell wrap l (b, PixelInput p) (input_src row)"
proof -
  have "127 AND (127 :: nat) = 127" by simp
  then have "src_at (input_src row) ws i = row (ws_pixels ws) (i AND MASK)" for ws i
    by (simp add: src_at_def input_src_def MASK_127 and.assoc)
  moreover have "\<not> src_is_scalar (input_src row)" by (simp add: src_is_scalar_def input_src_def MASK_127)
  ultimately show ?thesis using assms by (simp add: reads_cell_def and_MASK) (simp add: input_src_def)
qed

lemma float_src_reads:
  assumes "float_src ws s = Some a" "readable (layout ws) (BFloat, slot_kind s)"
  shows "reads (layout ws) (BFloat, slot_kind s) a"
proof (rule readsI [of FloatCell])
  show "reads_cell FloatCell (layout ws) (BFloat, slot_kind s) a"
  proof (cases "slot_kind s")
    case (PixelInput p)
    have "\<exists>row. a = input_src row \<and> (\<forall>w i. FloatCell (row (ws_pixels w) i) = cell_get w (BFloat, PixelInput p) i)"
      using assms(1) PixelInput by (cases p) (auto simp: float_src_def cell_get_def)
    then show ?thesis using input_reads PixelInput by metis
  qed (use float_cells.operand_reads [of ws s a] assms(1) in \<open>simp_all add: float_src_def operand_def\<close>)
qed (use assms in simp_all)

lemma int_src_reads:
  assumes "int_src ws s = Some a" "readable (layout ws) (BInt, slot_kind s)"
  shows "reads (layout ws) (BInt, slot_kind s) a"
proof (rule readsI [of IntCell])
  show "reads_cell IntCell (layout ws) (BInt, slot_kind s) a"
  proof (cases "slot_kind s")
    case (PixelInput p)
    then have "a = input_src px_index" using assms(1) by (simp add: int_src_def)
    then show ?thesis using input_reads [of _ IntCell px_index BInt p] by (simp add: PixelInput cell_get_def)
  qed (use int_cells.operand_reads [of ws s a] assms(1) in \<open>simp_all add: int_src_def operand_def\<close>)
qed (use assms in simp_all)

lemma bool_src_reads:
  "bool_src ws s = Some a \<Longrightarrow> readable (layout ws) (BBool, slot_kind s) \<Longrightarrow> reads (layout ws) (BBool, slot_kind s) a"
  using bool_cells.operand_reads [of ws s a] by (intro readsI [of BoolCell]) (simp_all add: bool_src_def)

lemma handle_src_reads:
  "handle_src ws s = Some a \<Longrightarrow> readable (layout ws) (BResource, slot_kind s) \<Longrightarrow>
    reads (layout ws) (BResource, slot_kind s) a"
  using handle_cells.operand_reads [of ws s a] by (intro readsI [of HandleCell]) (simp_all add: handle_src_def)

lemma src_layout:
  assumes "layout ws' = layout ws"
  shows "float_src ws' s = float_src ws s" "int_src ws' s = int_src ws s"
    "bool_src ws' s = bool_src ws s" "handle_src ws' s = handle_src ws s"
    "color_src_of ws' s = color_src_of ws s"
proof -
  show f: "float_src ws' s = float_src ws s" for s
    using float_cells.operand_layout [OF assms, of s]
    by (simp add: float_src_def operand_def split: slot_class.splits)
  show "int_src ws' s = int_src ws s"
    using int_cells.operand_layout [OF assms, of s]
    by (simp add: int_src_def operand_def split: slot_class.splits)
  show "bool_src ws' s = bool_src ws s" using bool_cells.operand_layout [OF assms] by (simp add: bool_src_def)
  show "handle_src ws' s = handle_src ws s"
    using handle_cells.operand_layout [OF assms] by (simp add: handle_src_def)
  show "color_src_of ws' s = color_src_of ws s" by (simp only: color_src_of_def f)
qed

lemma dst_layout:
  assumes "layout ws' = layout ws"
  shows "float_dst ws' s = float_dst ws s" "int_dst ws' s = int_dst ws s"
    "bool_dst ws' s = bool_dst ws s" "handle_dst ws' s = handle_dst ws s"
    "color_dst_of ws' s = color_dst_of ws s"
proof -
  show f: "float_dst ws' s = float_dst ws s" for s
    using float_cells.destination_layout [OF assms] by (simp add: float_dst_def)
  show "int_dst ws' s = int_dst ws s" using int_cells.destination_layout [OF assms] by (simp add: int_dst_def)
  show "bool_dst ws' s = bool_dst ws s" using bool_cells.destination_layout [OF assms] by (simp add: bool_dst_def)
  show "handle_dst ws' s = handle_dst ws s"
    using handle_cells.destination_layout [OF assms] by (simp add: handle_dst_def)
  show "color_dst_of ws' s = color_dst_of ws s" by (simp only: color_dst_of_def f)
qed

lemma dst_writes:
  "float_dst ws s = Some fd \<Longrightarrow> writable (layout ws) (BFloat, slot_kind s) \<Longrightarrow> writes (layout ws) {(BFloat, slot_kind s)} fd"
  "int_dst ws s = Some nd \<Longrightarrow> writable (layout ws) (BInt, slot_kind s) \<Longrightarrow> writes (layout ws) {(BInt, slot_kind s)} nd"
  "bool_dst ws s = Some bd \<Longrightarrow> writable (layout ws) (BBool, slot_kind s) \<Longrightarrow> writes (layout ws) {(BBool, slot_kind s)} bd"
  "handle_dst ws s = Some rd \<Longrightarrow> writable (layout ws) (BResource, slot_kind s) \<Longrightarrow>
    writes (layout ws) {(BResource, slot_kind s)} rd"
  using float_cells.destination_writes [of ws s fd] int_cells.destination_writes [of ws s nd]
    bool_cells.destination_writes [of ws s bd] handle_cells.destination_writes [of ws s rd]
  by (auto simp: float_dst_def int_dst_def bool_dst_def handle_dst_def writable_def writes_def writes_one_cell)

lemma acts_fetch:
  assumes "\<And>ws ws'. layout ws = l \<Longrightarrow> layout ws' = l \<Longrightarrow> h ws' = h ws"
    and "\<And>ws a. layout ws = l \<Longrightarrow> h ws = Some a \<Longrightarrow> acts l S M spoil (F a)"
  shows "acts l S M spoil (\<lambda>sel levels ws. Option.bind (h ws) (\<lambda>a. F a sel levels ws))"
proof (cases "\<exists>ws a. layout ws = l \<and> h ws = Some a")
  case True
  then obtain ws a where ws: "layout ws = l" "h ws = Some a" by blast
  then have "\<And>ws'. layout ws' = l \<Longrightarrow> h ws' = Some a" using assms(1) by metis
  then have "behaves l (\<lambda>sel levels ws. Option.bind (h ws) (\<lambda>a. F a sel levels ws)) (F a)"
    by (intro behaves_same) simp
  then show ?thesis using assms(2) [OF ws] acts_behaves by blast
next
  case False
  then have "\<And>ws. layout ws = l \<Longrightarrow> h ws = None" using option.exhaust by blast
  then show ?thesis by (intro actsI) (simp_all add: agree_def)
qed

text \<open>An operand fetched, and the rest of the instruction with what is known of it.\<close>

abbreviation acts_on :: "layout \<Rightarrow> cell set \<Rightarrow> cell set \<Rightarrow> cell set \<Rightarrow> action \<Rightarrow> bool" where
  "acts_on l R Q C \<equiv> acts l (shared_part C) (masked_part C) (spoil_write R Q C)"

lemma fetch_src:
  "readable l (BFloat, slot_kind s) \<Longrightarrow> (\<And>a. reads l (BFloat, slot_kind s) a \<Longrightarrow> acts l S M spoil (F1 a)) \<Longrightarrow>
    acts l S M spoil (\<lambda>sel levels ws. Option.bind (float_src ws s) (\<lambda>a. F1 a sel levels ws))"
  "readable l (BInt, slot_kind s) \<Longrightarrow> (\<And>a. reads l (BInt, slot_kind s) a \<Longrightarrow> acts l S M spoil (F2 a)) \<Longrightarrow>
    acts l S M spoil (\<lambda>sel levels ws. Option.bind (int_src ws s) (\<lambda>a. F2 a sel levels ws))"
  "readable l (BBool, slot_kind s) \<Longrightarrow> (\<And>a. reads l (BBool, slot_kind s) a \<Longrightarrow> acts l S M spoil (F3 a)) \<Longrightarrow>
    acts l S M spoil (\<lambda>sel levels ws. Option.bind (bool_src ws s) (\<lambda>a. F3 a sel levels ws))"
  "readable l (BResource, slot_kind s) \<Longrightarrow> (\<And>a. reads l (BResource, slot_kind s) a \<Longrightarrow> acts l S M spoil (F4 a)) \<Longrightarrow>
    acts l S M spoil (\<lambda>sel levels ws. Option.bind (handle_src ws s) (\<lambda>a. F4 a sel levels ws))"
  by (rule acts_fetch, simp add: src_layout, use float_src_reads in blast)
    (rule acts_fetch, simp add: src_layout, use int_src_reads in blast,
     rule acts_fetch, simp add: src_layout, use bool_src_reads in blast,
     rule acts_fetch, simp add: src_layout, use handle_src_reads in blast)

lemma fetch_dst:
  "writable l (BFloat, slot_kind s) \<Longrightarrow> (\<And>d. writes l {(BFloat, slot_kind s)} d \<Longrightarrow> acts l S M spoil (F1 d)) \<Longrightarrow>
    acts l S M spoil (\<lambda>sel levels ws. Option.bind (float_dst ws s) (\<lambda>d. F1 d sel levels ws))"
  "writable l (BInt, slot_kind s) \<Longrightarrow> (\<And>d. writes l {(BInt, slot_kind s)} d \<Longrightarrow> acts l S M spoil (F2 d)) \<Longrightarrow>
    acts l S M spoil (\<lambda>sel levels ws. Option.bind (int_dst ws s) (\<lambda>d. F2 d sel levels ws))"
  "writable l (BBool, slot_kind s) \<Longrightarrow> (\<And>d. writes l {(BBool, slot_kind s)} d \<Longrightarrow> acts l S M spoil (F3 d)) \<Longrightarrow>
    acts l S M spoil (\<lambda>sel levels ws. Option.bind (bool_dst ws s) (\<lambda>d. F3 d sel levels ws))"
  "writable l (BResource, slot_kind s) \<Longrightarrow> (\<And>d. writes l {(BResource, slot_kind s)} d \<Longrightarrow> acts l S M spoil (F4 d)) \<Longrightarrow>
    acts l S M spoil (\<lambda>sel levels ws. Option.bind (handle_dst ws s) (\<lambda>d. F4 d sel levels ws))"
  by (rule acts_fetch, simp add: dst_layout, use dst_writes(1) in blast)
    (rule acts_fetch, simp add: dst_layout, use dst_writes(2) in blast,
     rule acts_fetch, simp add: dst_layout, use dst_writes(3) in blast,
     rule acts_fetch, simp add: dst_layout, use dst_writes(4) in blast)

section \<open>Writes with what they read\<close>

text \<open>A scalar is written once for the strip, so it takes nothing that differs between pixels.\<close>

definition shared_reads :: "cell set \<Rightarrow> cell set \<Rightarrow> bool" where
  "shared_reads R C \<longleftrightarrow> (all_scalar C \<longrightarrow> all_scalar R)"

lemma reads_more: "reads_only l R Q v \<Longrightarrow> R \<subseteq> R' \<Longrightarrow> Q \<subseteq> Q' \<Longrightarrow> reads_only l R' Q' v"
  unfolding reads_only_def
proof (intro allI impI)
  fix a b s i j
  assume v: "\<forall>a b s i j. i < STRIP \<longrightarrow> j < STRIP \<longrightarrow> agree l s i a b \<longrightarrow> R \<inter> fst s = {} \<longrightarrow> Q \<inter> snd s = {} \<longrightarrow>
      j = i \<or> all_scalar R \<longrightarrow> v a j = v b j" and more: "R \<subseteq> R'" "Q \<subseteq> Q'"
    and *: "i < STRIP" "j < STRIP" "agree l s i a b" "R' \<inter> fst s = {}" "Q' \<inter> snd s = {}" "j = i \<or> all_scalar R'"
  have "R \<inter> fst s = {}" "Q \<inter> snd s = {}" "j = i \<or> all_scalar R" using more * by (auto simp: all_scalar_def)
  then show "v a j = v b j" using v * by blast
qed

lemma acts_write:
  assumes "writes l C d" "reads_only l R Q val" "shared_reads R C"
  shows "acts_on l R Q C (\<lambda>sel _. dst_write sel d val)"
proof -
  obtain out where out: "writes_cells l C out d" using assms(1) by (auto simp: writes_def)
  show ?thesis
  proof (rule write_acts [OF out assms(2)])
    fix put assume "d = One put"
    then have "all_scalar C" using assms(1) by (intro writes_one) simp
    then show "all_scalar R" using assms(3) by (simp add: shared_reads_def)
  qed
qed

lemma acts_pick_each:
  assumes "writes l C d" "reads_only l R Q val" "shared_reads R C" "I c"
    and "\<And>ws i c. layout ws = l \<Longrightarrow> i < STRIP \<Longrightarrow> I c \<Longrightarrow> settles I (v ws i c) (val ws i)"
  shows "acts_on l R Q C (\<lambda>sel _ ws. pick_each sel d v c ws)"
proof -
  obtain out where out: "writes_cells l C out d" using assms(1) by (auto simp: writes_def)
  show ?thesis
    by (rule acts_behaves [OF pick_each_settles [where I = I, OF out assms(4,5)] acts_write [OF assms(1-3)]])
qed

lemma acts_apply1:
  assumes "writes l C d" "reads l ca a" "ca \<in> R" "shared_reads R C" "I c"
    and "\<And>x c. I c \<Longrightarrow> settles I (f x c) (g x)"
  shows "acts_on l R {} C (\<lambda>sel _ ws. apply1 sel d a f c ws)"
proof -
  obtain out where out: "writes_cells l C out d" using assms(1) by (auto simp: writes_def)
  have "reads_only l R {} (\<lambda>ws i. g (src_at a ws i))"
    using reads_more [OF reads_mapped [OF reads_src [OF assms(2)]]] assms(3) by blast
  moreover have "behaves l (\<lambda>sel _ ws. apply1 sel d a f c ws) (\<lambda>sel _. dst_write sel d (\<lambda>ws i. g (src_at a ws i)))"
    by (rule apply1_settles [where I = I, OF out assms(5)]) (fact assms(6))
  ultimately show ?thesis using acts_behaves acts_write [OF assms(1) _ assms(4)] by blast
qed

lemma acts_apply2:
  assumes "writes l C d" "reads l ca a" "reads l cb b" "ca \<in> R" "cb \<in> R" "shared_reads R C" "I c"
    and "\<And>x y c. I c \<Longrightarrow> settles I (f x y c) (g x y)"
  shows "acts_on l R {} C (\<lambda>sel _ ws. apply2 sel d a b f c ws)"
proof -
  obtain out where out: "writes_cells l C out d" using assms(1) by (auto simp: writes_def)
  have "reads_only l R {} (\<lambda>ws i. g (src_at a ws i) (src_at b ws i))"
    using reads_more [OF reads_both [OF reads_src [OF assms(2)] reads_src [OF assms(3)]]] assms(4,5) by blast
  moreover have "behaves l (\<lambda>sel _ ws. apply2 sel d a b f c ws) (\<lambda>sel _. dst_write sel d (\<lambda>ws i. g (src_at a ws i) (src_at b ws i)))"
    by (rule apply2_settles [where I = I, OF out assms(7)]) (fact assms(8))
  ultimately show ?thesis using acts_behaves acts_write [OF assms(1) _ assms(6)] by blast
qed

lemma acts_apply3:
  assumes "writes l C d" "reads l ca a" "reads l cb b" "reads l ce e" "ca \<in> R" "cb \<in> R" "ce \<in> R"
    "shared_reads R C" "I c"
    and "\<And>x y z c. I c \<Longrightarrow> settles I (f x y z c) (g x y z)"
  shows "acts_on l R {} C (\<lambda>sel _ ws. apply3 sel d a b e f c ws)"
proof -
  obtain out where out: "writes_cells l C out d" using assms(1) by (auto simp: writes_def)
  have "reads_only l R {} (\<lambda>ws i. g (src_at a ws i) (src_at b ws i) (src_at e ws i))"
    using reads_more [OF reads_three [OF reads_src [OF assms(2)] reads_src [OF assms(3)] reads_src [OF assms(4)]]]
      assms(5-7) by blast
  moreover have "behaves l (\<lambda>sel _ ws. apply3 sel d a b e f c ws) (\<lambda>sel _. dst_write sel d (\<lambda>ws i. g (src_at a ws i) (src_at b ws i) (src_at e ws i)))"
    by (rule apply3_settles [where I = I, OF out assms(9)]) (fact assms(10))
  ultimately show ?thesis using acts_behaves acts_write [OF assms(1) _ assms(8)] by blast
qed

lemma acts_map1:
  assumes "writes l C d" "reads l ca a" "ca \<in> R" "shared_reads R C" "I c"
    and "\<And>x c. I c \<Longrightarrow> settles I (f x c) (g x)"
  shows "acts_on l R {} C (\<lambda>sel _ ws. strip_map1 sel d a f c ws)"
proof -
  obtain out where out: "writes_cells l C out d" using assms(1) by (auto simp: writes_def)
  have "reads_only l R {} (\<lambda>ws i. g (src_at a ws i))"
    using reads_more [OF reads_mapped [OF reads_src [OF assms(2)]]] assms(3) by blast
  moreover have "behaves l (\<lambda>sel _ ws. strip_map1 sel d a f c ws) (\<lambda>sel _. dst_write sel d (\<lambda>ws i. g (src_at a ws i)))"
    by (rule map1_settles [where I = I, OF out assms(2,5)]) (fact assms(6))
  ultimately show ?thesis using acts_behaves acts_write [OF assms(1) _ assms(4)] by blast
qed

lemma acts_map1_pure:
  assumes "writes l C d" "reads l ca a" "ca \<in> R" "shared_reads R C"
  shows "acts_on l R {} C (\<lambda>sel _ ws. strip_map1 sel d a (\<lambda>v. pure (f v)) () ws)"
  by (rule acts_map1 [where I = "\<lambda>_. True" and g = "\<lambda>v. Some (f v)", OF assms]) simp_all

lemma acts_map2:
  assumes "writes l C d" "reads l ca a" "reads l cb b" "ca \<in> R" "cb \<in> R" "shared_reads R C"
  shows "acts_on l R {} C (\<lambda>sel _ ws. strip_map2 sel d a b f ws)"
proof -
  obtain out where out: "writes_cells l C out d" using assms(1) by (auto simp: writes_def)
  have "reads_only l R {} (\<lambda>ws i. Some (f (src_at a ws i) (src_at b ws i)))"
    by (rule reads_more [OF reads_both [where g = "\<lambda>x y. Some (f x y)", OF reads_src [OF assms(2)] reads_src [OF assms(3)]]])
      (use assms(4,5) in simp_all)
  moreover have "behaves l (\<lambda>sel _ ws. strip_map2 sel d a b f ws) (\<lambda>sel _. dst_write sel d (\<lambda>ws i. Some (f (src_at a ws i) (src_at b ws i))))"
    by (rule map2_plain [OF out assms(2,3)])
  ultimately show ?thesis using acts_behaves acts_write [OF assms(1) _ assms(6)] by blast
qed

lemma acts_map3:
  assumes "writes l C d" "reads l ca a" "reads l cb b" "reads l ce e" "ca \<in> R" "cb \<in> R" "ce \<in> R" "shared_reads R C"
  shows "acts_on l R {} C (\<lambda>sel _ ws. strip_map3 sel d a b e f ws)"
proof -
  obtain out where out: "writes_cells l C out d" using assms(1) by (auto simp: writes_def)
  have "reads_only l R {} (\<lambda>ws i. Some (f (src_at a ws i) (src_at b ws i) (src_at e ws i)))"
    by (rule reads_more [OF reads_three [where g = "\<lambda>x y z. Some (f x y z)",
          OF reads_src [OF assms(2)] reads_src [OF assms(3)] reads_src [OF assms(4)]]])
      (use assms(5-7) in simp_all)
  moreover have "behaves l (\<lambda>sel _ ws. strip_map3 sel d a b e f ws) (\<lambda>sel _. dst_write sel d (\<lambda>ws i. Some (f (src_at a ws i) (src_at b ws i) (src_at e ws i))))"
    by (rule map3_plain [OF out assms(2-4)])
  ultimately show ?thesis using acts_behaves acts_write [OF assms(1) _ assms(8)] by blast
qed

lemma acts_set_scalar:
  assumes "writes l C d" "all_scalar C" "C \<noteq> {}"
  shows "acts_on l {} {} C (\<lambda>_ _ ws. Some (set_scalar d v ws))"
proof -
  obtain c where c: "c \<in> C" using assms(3) by blast
  then have "\<not> is_row_class (snd c)" using assms(2) by (cases "snd c") (auto simp: all_scalar_def)
  then obtain put where put: "d = One put"
    using c assms(1) by (cases d) (auto simp: writes_def writes_cells_def)
  have "acts_on l {} {} C (\<lambda>sel _. dst_write sel d (\<lambda>_ _. Some v))"
    by (rule acts_write [OF assms(1) reads_const]) (simp add: shared_reads_def all_scalar_def)
  then show ?thesis by (rule acts_behaves [rotated]) (simp add: behaves_def put dst_write_def set_scalar_def)
qed

section \<open>Colors\<close>

definition all_rows :: "cell set \<Rightarrow> bool" where
  "all_rows C \<longleftrightarrow> (\<forall>c \<in> C. is_row_class (snd c))"

definition color_cells :: "slot \<Rightarrow> cell set" where
  "color_cells s = {(BFloat, slot_kind s), (BFloat, slot_kind (slot_channel s 1)), (BFloat, slot_kind (slot_channel s 2))}"

definition color_dst_writes :: "layout \<Rightarrow> slot \<Rightarrow> color_dst \<Rightarrow> bool" where
  "color_dst_writes l s d \<longleftrightarrow>
     (case d of (r, g, b) \<Rightarrow> writes l {(BFloat, slot_kind s)} r \<and> writes l {(BFloat, slot_kind (slot_channel s 1))} g \<and>
        writes l {(BFloat, slot_kind (slot_channel s 2))} b)"

definition color_src_reads :: "layout \<Rightarrow> slot \<Rightarrow> color_src \<Rightarrow> bool" where
  "color_src_reads l s a \<longleftrightarrow>
     (case a of (r, g, b) \<Rightarrow> reads l (BFloat, slot_kind s) r \<and> reads l (BFloat, slot_kind (slot_channel s 1)) g \<and>
        reads l (BFloat, slot_kind (slot_channel s 2)) b)"

lemma fetch_color_src:
  assumes "\<forall>c \<in> color_cells s. readable l c" "\<And>a. color_src_reads l s a \<Longrightarrow> acts l S M spoil (F a)"
  shows "acts l S M spoil (\<lambda>sel levels ws. Option.bind (color_src_of ws s) (\<lambda>a. F a sel levels ws))"
proof (rule acts_fetch)
  fix ws a assume "layout ws = l" "color_src_of ws s = Some a"
  then have "color_src_reads l s a" using assms(1) float_src_reads
    by (auto simp: color_src_of_def color_src_reads_def color_cells_def bind_eq_Some_conv)
  then show "acts l S M spoil (F a)" by (rule assms(2))
qed (simp add: src_layout)

lemma fetch_color_dst:
  assumes "\<forall>c \<in> color_cells s. writable l c" "\<And>d. color_dst_writes l s d \<Longrightarrow> acts l S M spoil (F d)"
  shows "acts l S M spoil (\<lambda>sel levels ws. Option.bind (color_dst_of ws s) (\<lambda>a. F a sel levels ws))"
proof (rule acts_fetch)
  fix ws a assume "layout ws = l" "color_dst_of ws s = Some a"
  then have "color_dst_writes l s a" using assms(1) dst_writes(1)
    by (auto simp: color_dst_of_def color_dst_writes_def color_cells_def bind_eq_Some_conv)
  then show "acts l S M spoil (F a)" by (rule assms(2))
qed (simp add: dst_layout)

lemma reads_triple:
  assumes "color_src_reads l s a"
  shows "reads_only l (color_cells s) {} (color_at a)"
proof -
  obtain r g b where a: "a = (r, g, b)" by (cases a)
  have "reads_only l ({(BFloat, slot_kind s)} \<union> ({(BFloat, slot_kind (slot_channel s 1))} \<union> {(BFloat, slot_kind (slot_channel s 2))}))
      ({} \<union> ({} \<union> {})) (\<lambda>ws i. \<lparr>red = src_at r ws i, green = src_at g ws i, blue = src_at b ws i\<rparr>)"
    using assms by (intro reads_three reads_src) (simp_all add: color_src_reads_def a)
  moreover have "color_at a = (\<lambda>ws i. \<lparr>red = src_at r ws i, green = src_at g ws i, blue = src_at b ws i\<rparr>)"
    by (intro ext) (simp add: color_at_def a)
  ultimately show ?thesis by (simp add: color_cells_def insert_commute)
qed

end
