(* ===== verification/StripAccess.thy ===== *)
theory StripAccess
  imports StripInstructions
begin

unbundle bit_operations_syntax

text \<open>
  What each instruction accesses: \<open>R\<close>, the cells it reads at the pixel, \<open>Q\<close>, the rows it reads at
  any index, and \<open>C\<close>, the cells it writes. An instruction that keeps its scalars free of what
  differs between pixels acts on exactly those.
\<close>

section \<open>Writing colors and channels\<close>

lemma writes_kind:
  "writes l {c} d \<Longrightarrow> is_row_class (snd c) \<Longrightarrow> \<exists>put. d = Many put"
  "writes l {c} d \<Longrightarrow> is_scalar_class (snd c) \<Longrightarrow> \<exists>put. d = One put"
  by (cases d; cases "snd c"; simp add: writes_def writes_cells_def)+

lemma writes_puts:
  "writes l {c} (One put) \<Longrightarrow> \<exists>out. puts_cells l {c} out put 0"
  "writes l {c} (Many puts) \<Longrightarrow> \<exists>out. \<forall>i < STRIP. puts_cells l {c} out (puts i) i"
  by (auto simp: writes_def writes_cells_def)

lemma three_puts:
  assumes "puts_cells l {cr} o1 r i" "puts_cells l {cg} o2 g i" "puts_cells l {cb} o3 b i"
  shows "puts_cells l {cr, cg, cb}
    (\<lambda>v c. if c \<in> {cb} then o3 (blue v) c else if c \<in> {cg} then o2 (green v) c else o1 (red v) c)
    (\<lambda>v ws. b (blue v) (g (green v) (r (red v) ws))) i"
  using puts_then [OF puts_then [OF assms(1,2), of green red] assms(3), of blue "\<lambda>v. v"]
  by (simp add: insert_commute)

lemma color_dst_one:
  assumes d: "color_dst_writes l s d" and kind: "all_scalar (color_cells s) \<or> all_rows (color_cells s)"
  shows "\<exists>d'. writes l (color_cells s) d' \<and> (\<forall>sel val ws. pick_color sel d val ws = dst_write sel d' val ws)"
proof -
  obtain r g b where rgb: "d = (r, g, b)" by (cases d)
  let ?cr = "(BFloat, slot_kind s)" and ?cg = "(BFloat, slot_kind (slot_channel s 1))"
    and ?cb = "(BFloat, slot_kind (slot_channel s 2))"
  have w: "writes l {?cr} r" "writes l {?cg} g" "writes l {?cb} b"
    using d by (simp_all add: color_dst_writes_def rgb)
  show ?thesis
  proof (cases "all_rows (color_cells s)")
    case True
    then obtain pr pg pb where puts: "r = Many pr" "g = Many pg" "b = Many pb"
      using writes_kind(1) [OF w(1)] writes_kind(1) [OF w(2)] writes_kind(1) [OF w(3)]
      by (auto simp: all_rows_def color_cells_def)
    obtain o1 o2 o3 where o: "\<forall>i < STRIP. puts_cells l {?cr} o1 (pr i) i"
      "\<forall>i < STRIP. puts_cells l {?cg} o2 (pg i) i" "\<forall>i < STRIP. puts_cells l {?cb} o3 (pb i) i"
      using writes_puts(2) [OF w(1) [unfolded puts]] writes_puts(2) [OF w(2) [unfolded puts]]
        writes_puts(2) [OF w(3) [unfolded puts]] by blast
    let ?d = "Many (\<lambda>i v ws. pb i (blue v) (pg i (green v) (pr i (red v) ws)))"
    have "writes l (color_cells s) ?d"
      using True three_puts [of l ?cr o1 _ _ ?cg o2 _ ?cb o3] o
      unfolding writes_def writes_cells_def all_rows_def color_cells_def dst.case by blast
    then show ?thesis by (intro exI [of _ ?d]) (simp add: pick_color_def rgb puts dst_write_def)
  next
    case False
    then have scalar: "all_scalar (color_cells s)" using kind by blast
    then obtain pr pg pb where puts: "r = One pr" "g = One pg" "b = One pb"
      using writes_kind(2) [OF w(1)] writes_kind(2) [OF w(2)] writes_kind(2) [OF w(3)]
      by (auto simp: all_scalar_def color_cells_def)
    obtain o1 o2 o3 where o: "puts_cells l {?cr} o1 pr 0" "puts_cells l {?cg} o2 pg 0" "puts_cells l {?cb} o3 pb 0"
      using writes_puts(1) [OF w(1) [unfolded puts]] writes_puts(1) [OF w(2) [unfolded puts]]
        writes_puts(1) [OF w(3) [unfolded puts]] by blast
    let ?d = "One (\<lambda>v ws. pb (blue v) (pg (green v) (pr (red v) ws)))"
    have "writes l (color_cells s) ?d"
      using scalar three_puts [OF o]
      unfolding writes_def writes_cells_def all_scalar_def color_cells_def dst.case by blast
    then show ?thesis by (intro exI [of _ ?d]) (simp add: pick_color_def rgb puts dst_write_def)
  qed
qed

lemma acts_pick_color:
  assumes d: "color_dst_writes l s d" and kind: "all_scalar (color_cells s) \<or> all_rows (color_cells s)"
    and reads: "reads_only l R {} val" and shared: "shared_reads R (color_cells s)"
  shows "acts_on l R {} (color_cells s) (\<lambda>sel _ ws. pick_color sel d val ws)"
  using color_dst_one [OF d kind] acts_write [OF _ reads shared] by auto

text \<open>Channel by channel: what the instruction writes is written once its operands are read.\<close>

lemma parts_Un: "shared_part (A \<union> B) = shared_part A \<union> shared_part B" "masked_part (A \<union> B) = masked_part A \<union> masked_part B"
  by (auto simp: shared_part_def masked_part_def)

lemma parts_subset: "shared_part C \<subseteq> C" "masked_part C \<subseteq> C"
  by (auto simp: shared_part_def masked_part_def)

lemma acts_channels:
  assumes "\<And>k. k \<in> set ks \<Longrightarrow> acts_on l (R k) {} (C k) (\<lambda>sel _ ws. F k sel ws)"
  shows "acts_on l (\<Union>k \<in> set ks. R k) {} (\<Union>k \<in> set ks. C k) (\<lambda>sel _ ws. loop (\<lambda>k ws. F k sel ws) ks ws)"
  using assms
proof (induction ks)
  case Nil
  have "acts_on l {} {} {} (\<lambda>_ _. Some)"
    by (rule acts_weaken [OF acts_skip]) (auto simp: spoil_write_def weaker_def split: if_splits)
  moreover have "loop f [] = Some" for f :: "'a \<Rightarrow> workspace \<Rightarrow> workspace option" by (rule ext) simp
  ultimately show ?case by simp
next
  case (Cons k ks)
  let ?R = "\<Union>k \<in> set ks. R k" and ?C = "\<Union>k \<in> set ks. C k"
  have rest: "acts_on l ?R {} ?C (\<lambda>sel _ ws. loop (\<lambda>k ws. F k sel ws) ks ws)" using Cons by simp
  have "acts_on l (R k \<union> ?R) {} (C k \<union> ?C)
      (\<lambda>sel levels ws. Option.bind (F k sel ws) (\<lambda>ws. loop (\<lambda>k ws. F k sel ws) ks ws))"
  proof (rule acts_weaken [OF acts_seq [OF Cons.prems [of k] rest]])
    fix s t assume "spoil_write (R k \<union> ?R) {} (C k \<union> ?C) s = Some t"
    then have "R k \<inter> fst s = {}" "?R \<inter> fst s = {}" "t = (fst s - (C k \<union> ?C), snd s \<union> masked_part (C k \<union> ?C))"
      by (auto simp: spoil_write_def split: if_splits)
    then show "\<exists>u. Option.bind (spoil_write (R k) {} (C k) s) (spoil_write ?R {} ?C) = Some u \<and> weaker u t"
      by (auto simp: spoil_write_def weaker_def parts_Un)
  qed (simp_all add: parts_Un)
  then show ?case by simp
qed

lemma acts_reads_more:
  assumes "acts_on l R {} C f" "R \<subseteq> R'"
  shows "acts_on l R' {} C f"
  by (rule acts_weaken [OF assms(1)]) (use assms(2) in \<open>auto simp: spoil_write_def weaker_def split: if_splits\<close>)

section \<open>What an instruction accesses\<close>

definition cells_of :: "bank \<Rightarrow> slot \<Rightarrow> cell set" where
  "cells_of b s = (if b = BColor then color_cells s else {(b, slot_kind s)})"

definition table_banks :: "bank set" where
  "table_banks = {BFloat, BInt, BBool}"

definition scalar_write :: "cell set \<Rightarrow> (cell set \<times> cell set \<times> cell set) option" where
  "scalar_write C = (if all_scalar C then Some ({}, {}, C) else None)"

fun accesses :: "instruction \<Rightarrow> (cell set \<times> cell set \<times> cell set) option" where
  "accesses (Const b dst bits) = (if b = BColor then None else scalar_write (cells_of b dst))"
| "accesses (Param b dst index) = scalar_write (cells_of b dst)"
| "accesses (Context dst rd) = scalar_write (cells_of (context_bank rd) dst)"
| "accesses (FloatUnary op dst a) = Some (cells_of BFloat a, {}, cells_of BFloat dst)"
| "accesses (FloatBinary op cs dst a b) =
     Some (cells_of (colors_bank cs (Some 0)) a \<union> cells_of (colors_bank cs (Some 1)) b, {},
       cells_of (colors_bank cs None) dst)"
| "accesses (Clamp dst a b c) =
     Some (cells_of BFloat a \<union> cells_of BFloat b \<union> cells_of BFloat c, {}, cells_of BFloat dst)"
| "accesses (Mix cs dst a b amount) =
     Some (cells_of (colors_bank cs (Some 0)) a \<union> cells_of (colors_bank cs (Some 1)) b \<union>
       cells_of (colors_bank cs (Some 2)) amount, {}, cells_of (colors_bank cs None) dst)"
| "accesses (IntUnary op dst a) = Some (cells_of BInt a, {}, cells_of BInt dst)"
| "accesses (IntBinary op dst a b) = Some (cells_of BInt a \<union> cells_of BInt b, {}, cells_of BInt dst)"
| "accesses (IntToFloat dst a) = Some (cells_of BInt a, {}, cells_of BFloat dst)"
| "accesses (FloatToInt dst a) = Some (cells_of BFloat a, {}, cells_of BInt dst)"
| "accesses (Compare op bank dst a b) =
     (if bank \<in> table_banks then Some (cells_of bank a \<union> cells_of bank b, {}, cells_of BBool dst) else None)"
| "accesses (ColorComponent op dst color) = Some (cells_of BColor color, {}, cells_of BFloat dst)"
| "accesses (HsvColor dst hue saturation v) =
     Some (cells_of BFloat hue \<union> cells_of BFloat saturation \<union> cells_of BFloat v, {}, cells_of BColor dst)"
| "accesses (Recolor shift dst color hue) =
     Some (cells_of BColor color \<union> cells_of BFloat hue, {}, cells_of BColor dst)"
| "accesses (Curve op dst curve v before) =
     Some (cells_of BResource curve \<union> cells_of BFloat v \<union>
       (if op = CurveLastCrossing then cells_of BFloat before else {}), {}, cells_of BFloat dst)"
| "accesses (Gradient dst gradient pos scale) =
     Some (cells_of BResource gradient \<union> cells_of BFloat pos \<union>
       (if slot_is_none scale then {} else cells_of BFloat scale), {}, cells_of BColor dst)"
| "accesses (Mark op dst marks x) =
     Some (cells_of BResource marks \<union> cells_of (mark_operand_bank op) x, {}, cells_of (mark_dst_bank op) dst)"
| "accesses (Length kind dst res) = Some (cells_of BResource res, {}, cells_of BInt dst)"
| "accesses (Index bank dst array index fallback) =
     Some (cells_of BResource array \<union> cells_of BInt index \<union> cells_of bank fallback, {}, cells_of bank dst)"
| "accesses (Select bank dst condition yes no) =
     Some (cells_of BBool condition \<union> cells_of bank yes \<union> cells_of bank no, {}, cells_of bank dst)"
| "accesses (Move bank dst src) = Some (cells_of bank src, {}, cells_of bank dst)"
| "accesses (Section index dst wd) = Some (cells_of BInt wd, {}, cells_of BInt dst)"
| "accesses (Read dst input pixel) =
     Some (case signal_pixel_index pixel of None \<Rightarrow> {} | Some index \<Rightarrow> cells_of BInt index, {}, cells_of BColor dst)"
| "accesses (Lookup bank dst table index start) =
     (if bank \<in> table_banks
      then Some (cells_of BInt index \<union> cells_of BInt start \<union> table_scalar (bank, slot_kind table),
        table_row (bank, slot_kind table), cells_of bank dst)
      else None)"
| "accesses _ = None"

text \<open>The cells exist, and the ones written together are all scalars or all rows.\<close>

definition access_ok :: "layout \<Rightarrow> cell set \<times> cell set \<times> cell set \<Rightarrow> bool" where
  "access_ok l a \<longleftrightarrow>
     (case a of (R, Q, C) \<Rightarrow>
        (\<forall>c \<in> R \<union> Q. readable l c) \<and> (\<forall>c \<in> C. writable l c) \<and> shared_reads R C \<and> (all_scalar C \<or> all_rows C))"

text \<open>The marks of a show are in order, which their validation sees to.\<close>

definition marks_sorted :: "machine \<Rightarrow> bool" where
  "marks_sorted m \<longleftrightarrow> (\<forall>h w. handle_marks m h = Some w \<longrightarrow> sorted (ticks w))"

lemma cells_of_simps [simp]:
  "cells_of BColor s = color_cells s" "b \<noteq> BColor \<Longrightarrow> cells_of b s = {(b, slot_kind s)}"
  by (simp_all add: cells_of_def)

lemma slot_channel_0 [simp]: "slot_channel s 0 = s"
  by (simp add: slot_channel_def)

lemma channels_1 [simp]: "channels 1 = [0]"
  by (simp add: channels_def)

lemma channels_3 [simp]: "channels 3 = [0, 1, 2]"
  by (simp add: channels_def upt_conv_Cons)

lemma color_cells_channels: "color_cells s = (\<Union>k \<in> {0, 1, 2}. {(BFloat, slot_kind (slot_channel s k))})"
  by (auto simp: color_cells_def)

lemma shared_part_reads: "shared_reads R C \<Longrightarrow> C' \<subseteq> C \<Longrightarrow> C' \<noteq> {} \<Longrightarrow> all_scalar C \<or> all_rows C \<Longrightarrow> shared_reads R C'"
proof -
  assume *: "shared_reads R C" "C' \<subseteq> C" "C' \<noteq> {}" "all_scalar C \<or> all_rows C"
  then obtain c where c: "c \<in> C'" "c \<in> C" by blast
  then have "\<not> all_scalar C'" if "all_rows C"
    using that c by (cases "snd c") (auto simp: all_rows_def all_scalar_def intro!: bexI [of _ c])
  then show "shared_reads R C'" using * by (auto simp: shared_reads_def)
qed

section \<open>Instructions act on what they access\<close>

lemma acts_same:
  assumes "\<And>sel ws. f sel ws = g sel ws" "acts l S M spoil (\<lambda>sel _ ws. g sel ws)"
  shows "acts l S M spoil (\<lambda>sel _ ws. f sel ws)"
proof -
  have "f = g" by (rule ext, rule ext, rule assms(1))
  show ?thesis unfolding \<open>f = g\<close> by (rule assms(2))
qed

lemma acts_over_channels:
  assumes ok: "access_ok l (R, {}, C)" and C: "C = (\<Union>k \<in> set ks. {(BFloat, slot_kind (slot_channel dst k))})" and "ks \<noteq> []"
    and each: "\<And>k. k \<in> set ks \<Longrightarrow> writable l (BFloat, slot_kind (slot_channel dst k)) \<Longrightarrow>
      shared_reads R {(BFloat, slot_kind (slot_channel dst k))} \<Longrightarrow>
      acts_on l R {} {(BFloat, slot_kind (slot_channel dst k))} (\<lambda>sel _ ws. F k sel ws)"
  shows "acts_on l R {} C (\<lambda>sel _ ws. loop (\<lambda>k ws. F k sel ws) ks ws)"
proof -
  have "acts_on l R {} {(BFloat, slot_kind (slot_channel dst k))} (\<lambda>sel _ ws. F k sel ws)" if k: "k \<in> set ks" for k
  proof (rule each [OF k])
    show "writable l (BFloat, slot_kind (slot_channel dst k))" using ok k by (auto simp: access_ok_def C)
    show "shared_reads R {(BFloat, slot_kind (slot_channel dst k))}"
      by (rule shared_part_reads [of R C]) (use ok k in \<open>auto simp: access_ok_def C\<close>)
  qed
  note all = acts_channels [where R = "\<lambda>_. R" and C = "\<lambda>k. {(BFloat, slot_kind (slot_channel dst k))}" and ks = ks, OF this]
  have "(\<Union>k \<in> set ks. R) = R" using \<open>ks \<noteq> []\<close> by (cases ks) auto
  from all [unfolded this] show ?thesis unfolding C .
qed

lemma bank_channels:
  "b = BFloat \<or> b = BColor \<Longrightarrow> cells_of b s = (\<Union>k \<in> set (channels (bank_width b)). {(BFloat, slot_kind (slot_channel s k))})"
  by (auto simp: bank_width_def color_cells_channels)

lemma bank_channel_in:
  "b = BFloat \<or> b = BColor \<Longrightarrow> k \<in> set (channels (bank_width b)) \<Longrightarrow> (BFloat, slot_kind (slot_channel s k)) \<in> cells_of b s"
  using bank_channels by blast

lemma channels_not_Nil [simp]: "channels (bank_width b) \<noteq> []" "channels (colors_channels cs) \<noteq> []"
  by (cases b) (simp_all add: bank_width_def colors_channels_def)

lemma colors_channels_of:
  "cells_of (colors_bank cs None) s = (\<Union>k \<in> set (channels (colors_channels cs)). {(BFloat, slot_kind (slot_channel s k))})"
  by (simp add: colors_bank_def colors_channels_def color_cells_channels)

lemma colors_operand_in:
  "k \<in> set (channels (colors_channels cs)) \<Longrightarrow>
    (BFloat, slot_kind (colors_operand cs s n k)) \<in> cells_of (colors_bank cs (Some n)) s"
  by (auto simp: colors_bank_def colors_channels_def colors_operand_def is_color_def color_cells_def split: if_splits)

lemma acts_move:
  assumes "access_ok l (R, {}, cells_of bank dst)" "cells_of bank src \<subseteq> R"
  shows "acts_on l R {} (cells_of bank dst) (\<lambda>sel _ ws. strip_assign bank dst src sel ws)"
proof -
  have wf: "shared_reads R (cells_of bank dst)" and w: "\<forall>c \<in> cells_of bank dst. writable l c"
    and r: "\<forall>c \<in> cells_of bank src. readable l c" using assms by (auto simp: access_ok_def)
  consider "bank = BInt" | "bank = BBool" | "bank = BResource" | "bank = BFloat \<or> bank = BColor"
    by (cases bank) auto
  then show ?thesis
  proof cases
    case 4
    then have eq: "strip_assign bank dst src sel ws = loop (\<lambda>channel ws.
          do { d \<leftarrow> float_dst ws (slot_channel dst channel); a \<leftarrow> float_src ws (slot_channel src channel);
               strip_map1 sel d a pure () ws }) (channels (bank_width bank)) ws" for sel ws
      by (auto simp: strip_assign_def)
    show ?thesis
      by (rule acts_same [OF eq], rule acts_over_channels [OF assms(1) bank_channels [OF 4]], simp, intro fetch_src fetch_dst acts_map1_pure)
        (use assms(2) r bank_channel_in [OF 4, of _ src] in auto)
  qed (rule acts_same [OF strip_assign_def], use wf w r assms(2) in \<open>auto intro!: fetch_src fetch_dst acts_map1_pure\<close>)+
qed

end
