(* ===== verification/StripFrames.thy ===== *)
theory StripFrames
  imports StripAccess
begin

unbundle bit_operations_syntax

text \<open>
  The instructions that have routines of their own act on what they access, and so does every
  instruction that nests no code.
\<close>

section \<open>Selections, comparisons, tables\<close>

lemma acts_select:
  assumes "access_ok l (R, {}, cells_of bank dst)"
    and "cells_of BBool condition \<union> cells_of bank yes \<union> cells_of bank no \<subseteq> R"
  shows "acts_on l R {} (cells_of bank dst) (\<lambda>sel _ ws. strip_select bank dst condition yes no sel ws)"
proof -
  have wf: "shared_reads R (cells_of bank dst)" and w: "\<forall>c \<in> cells_of bank dst. writable l c"
    and r: "\<forall>c \<in> R. readable l c" using assms(1) by (auto simp: access_ok_def)
  note sub = assms(2)
  consider "bank = BInt" | "bank = BBool" | "bank = BResource" | "bank = BFloat \<or> bank = BColor"
    by (cases bank) auto
  then show ?thesis
  proof cases
    case 4
    then have eq: "strip_select bank dst condition yes no sel ws =
        do { c \<leftarrow> bool_src ws condition; loop (\<lambda>channel ws.
          do { d \<leftarrow> float_dst ws (slot_channel dst channel);
               y \<leftarrow> float_src ws (slot_channel yes channel); n \<leftarrow> float_src ws (slot_channel no channel);
               strip_map3 sel d c y n strip_choose ws }) (channels (bank_width bank)) ws }" for sel ws
      by (auto simp: strip_select_def)
    show ?thesis
    proof (rule acts_same [OF eq], rule fetch_src(3))
      fix c :: "bool src" assume c: "reads l (BBool, slot_kind condition) c"
      show "acts_on l R {} (cells_of bank dst) (\<lambda>sel _ ws. loop (\<lambda>channel ws.
          do { d \<leftarrow> float_dst ws (slot_channel dst channel);
               y \<leftarrow> float_src ws (slot_channel yes channel); n \<leftarrow> float_src ws (slot_channel no channel);
               strip_map3 sel d c y n strip_choose ws }) (channels (bank_width bank)) ws)"
      proof (rule acts_over_channels [OF assms(1) bank_channels [OF 4]])
        fix k assume k: "k \<in> set (channels (bank_width bank))" "writable l (BFloat, slot_kind (slot_channel dst k))"
          "shared_reads R {(BFloat, slot_kind (slot_channel dst k))}"
        have "(BFloat, slot_kind (slot_channel yes k)) \<in> R" "(BFloat, slot_kind (slot_channel no k)) \<in> R"
          using bank_channel_in [OF 4 k(1)] sub by blast+
        then show "acts_on l R {} {(BFloat, slot_kind (slot_channel dst k))} (\<lambda>sel _ ws.
            do { d \<leftarrow> float_dst ws (slot_channel dst k);
                 y \<leftarrow> float_src ws (slot_channel yes k); n \<leftarrow> float_src ws (slot_channel no k);
                 strip_map3 sel d c y n strip_choose ws })"
          using k(2,3) r sub c by (intro fetch_dst(1) fetch_src(1)) (auto intro: acts_map3 [OF _ c])
      qed simp
    qed (use r sub in simp)
  qed (rule acts_same [OF strip_select_def], use wf w r sub in \<open>auto intro!: fetch_src fetch_dst acts_map3\<close>)+
qed

lemma acts_compare:
  assumes "access_ok l (R, {}, cells_of BBool dst)" "cells_of bank a \<union> cells_of bank b \<subseteq> R" "bank \<in> table_banks"
  shows "acts_on l R {} (cells_of BBool dst) (\<lambda>sel _ ws. strip_compare op bank dst a b sel ws)"
proof -
  have wf: "shared_reads R (cells_of BBool dst)" and w: "\<forall>c \<in> cells_of BBool dst. writable l c"
    and r: "\<forall>c \<in> R. readable l c" using assms(1) by (auto simp: access_ok_def)
  show ?thesis
    by (rule acts_same [OF strip_compare_def])
      (use wf w r assms(2,3) in \<open>auto simp: table_banks_def intro!: fetch_src fetch_dst acts_map2\<close>)
qed

lemma reads_lookup:
  assumes "reads l ct t" "reads l cx x" "reads l cs s"
  shows "reads_only l (table_scalar ct \<union> ({cx} \<union> {cs})) (table_row ct \<union> ({} \<union> {}))
    (\<lambda>ws i. Some (src_at t ws (unat (src_at x ws i - src_at s ws i :: i32))))"
  by (rule reads_three [where g = "\<lambda>t x s. Some (t (unat (x - s)))", OF reads_table [OF assms(1)]
        reads_src [OF assms(2)] reads_src [OF assms(3)]])

lemma acts_pick_lookup:
  assumes "writes l C d" "shared_reads R C" "reads l ct t" "reads l cx x" "reads l cs s"
    and "{cx, cs} \<union> table_scalar ct \<subseteq> R" "table_row ct \<subseteq> Q"
  shows "acts_on l R Q C (\<lambda>sel _ ws. pick_each sel d
      (\<lambda>ws i. pure (src_at t ws (unat (src_at x ws i - src_at s ws i :: i32)))) () ws)"
proof (rule acts_pick_each [where I = "\<lambda>_. True", OF assms(1) _ assms(2)])
  show "reads_only l R Q (\<lambda>ws i. Some (src_at t ws (unat (src_at x ws i - src_at s ws i :: i32))))"
    by (rule reads_more [OF reads_lookup [OF assms(3-5)]]) (use assms(6,7) in auto)
qed simp_all

lemma acts_lookup:
  assumes "access_ok l (R, Q, cells_of bank dst)" "bank \<in> table_banks" "readable l (bank, slot_kind table)"
    and "cells_of BInt index \<union> cells_of BInt start \<union> table_scalar (bank, slot_kind table) \<subseteq> R"
    and "table_row (bank, slot_kind table) \<subseteq> Q"
  shows "acts_on l R Q (cells_of bank dst) (\<lambda>sel _ ws. strip_lookup bank dst table index start sel ws)"
proof -
  have wf: "shared_reads R (cells_of bank dst)" and w: "\<forall>c \<in> cells_of bank dst. writable l c"
    and r: "\<forall>c \<in> R. readable l c" using assms(1) by (auto simp: access_ok_def)
  show ?thesis
    by (rule acts_same [OF strip_lookup_def])
      (use wf w r assms(2-5) in \<open>auto simp: table_banks_def Let_def intro!: fetch_src fetch_dst acts_pick_lookup\<close>)
qed

section \<open>Resources and signals\<close>

lemma acts_hoisted:
  assumes "writes l C d" "reads l ch h" "src_is_scalar h" "shared_reads R C"
    and each: "\<And>out x y. writes_cells l C out d \<Longrightarrow> k y = Some x \<Longrightarrow> behaves l (F x) (\<lambda>sel _. dst_write sel d (val x))"
    and reads: "reads_only l R Q (\<lambda>ws i. Option.bind (k (src_at h ws i)) (\<lambda>x. val x ws i))"
  shows "acts_on l R Q C (\<lambda>sel levels ws. Option.bind (k (src_at h ws 0)) (\<lambda>x. F x sel levels ws))"
proof -
  obtain out where out: "writes_cells l C out d" using assms(1) by (auto simp: writes_def)
  show ?thesis
    by (rule acts_behaves [OF hoisted [where k = k, OF out assms(2,3) each [OF out]] acts_write [OF assms(1) reads assms(4)]])
qed

lemma acts_hoisted_map1:
  assumes "writes l C d" "reads l ch h" "src_is_scalar h" "reads l ca a" "ch \<in> R" "ca \<in> R" "shared_reads R C" "I c"
    and f: "\<And>x y v c. k y = Some x \<Longrightarrow> I c \<Longrightarrow> settles I (f x v c) (g x v)"
  shows "acts_on l R {} C (\<lambda>sel _ ws. Option.bind (k (src_at h ws 0)) (\<lambda>x. strip_map1 sel d a (f x) c ws))"
proof (rule acts_hoisted [OF assms(1-3,7)])
  show "behaves l (\<lambda>sel _. strip_map1 sel d a (f x) c) (\<lambda>sel _. dst_write sel d (\<lambda>ws i. g x (src_at a ws i)))"
    if "writes_cells l C out d" "k y = Some x" for out x y
    by (rule map1_settles [where I = I, OF that(1) assms(4,8)]) (rule f [OF that(2)])
  show "reads_only l R {} (\<lambda>ws i. Option.bind (k (src_at h ws i)) (\<lambda>x. g x (src_at a ws i)))"
    by (rule reads_more [OF reads_both [where g = "\<lambda>h v. Option.bind (k h) (\<lambda>x. g x v)",
            OF reads_src [OF assms(2)] reads_src [OF assms(4)]]])
      (use assms(5,6) in simp_all)
qed

lemma acts_curve:
  assumes "access_ok l (R, {}, cells_of BFloat dst)"
    and "cells_of BResource curve \<union> cells_of BFloat v \<subseteq> R" "op = CurveLastCrossing \<Longrightarrow> cells_of BFloat before \<subseteq> R"
  shows "acts_on l R {} (cells_of BFloat dst) (\<lambda>sel _ ws. strip_curve m op dst curve v before sel ws)"
proof (rule acts_same [OF strip_curve_def])
  have wf: "shared_reads R (cells_of BFloat dst)" and w: "\<forall>c \<in> cells_of BFloat dst. writable l c"
    and r: "\<forall>c \<in> R. readable l c" using assms(1) by (auto simp: access_ok_def)
  let ?I = "\<lambda>_ :: unit. True"
  let ?rest = "\<lambda>d h v sel ws.
      if op = CurveSample \<and> src_is_scalar h then
        do { view \<leftarrow> handle_curve m (src_at h ws 0);
             strip_map1 sel d v (\<lambda>v. fallible (view_sample (m_arith m) view v)) () ws }
      else if op = CurveCrossing \<and> src_is_scalar h then
        do { view \<leftarrow> handle_curve m (src_at h ws 0);
             strip_map1 sel d v (\<lambda>v. pure (view_crossing (m_arith m) view v)) () ws }
      else if op = CurveLastCrossing then
        do { before \<leftarrow> float_src ws before;
             apply3 sel d h v before (\<lambda>h v before. fallible (curve_query m op h v before)) () ws }
      else apply2 sel d h v (\<lambda>h v. fallible (curve_query m op h v 0)) () ws"
  have "acts_on l R {} (cells_of BFloat dst) (\<lambda>sel _ ws. ?rest d h a sel ws)"
    if d: "writes l {(BFloat, slot_kind dst)} d" and h: "reads l (BResource, slot_kind curve) h"
      and a: "reads l (BFloat, slot_kind v) a" for d h a
  proof -
    have in_R: "(BResource, slot_kind curve) \<in> R" "(BFloat, slot_kind v) \<in> R" using assms(2) by simp_all
    have s: "shared_reads R {(BFloat, slot_kind dst)}" using wf by simp
    note one = acts_hoisted_map1 [where I = ?I and c = "()", OF d h _ a in_R s]
    consider "op = CurveSample" "src_is_scalar h" | "op = CurveCrossing" "src_is_scalar h"
      | "op = CurveLastCrossing" | "\<not> (op = CurveSample \<and> src_is_scalar h)"
        "\<not> (op = CurveCrossing \<and> src_is_scalar h)" "op \<noteq> CurveLastCrossing" by blast
    then show ?thesis
    proof cases
      case 1
      then show ?thesis by simp (rule one [where g = "\<lambda>view. view_sample (m_arith m) view"]; simp)
    next
      case 2
      then show ?thesis by simp (rule one [where g = "\<lambda>view v. Some (view_crossing (m_arith m) view v)"]; simp)
    next
      case 3
      then have "(BFloat, slot_kind before) \<in> R" using assms(3) by simp
      then show ?thesis using 3 r
        by (simp, intro fetch_src(1)) (auto intro!: acts_apply3 [where I = ?I and g = "\<lambda>h v b. curve_query m op h v b", OF d h a _ in_R _ s])
    next
      case 4
      then show ?thesis
        by (simp del: de_Morgan_conj cong: if_cong) (rule acts_apply2 [where I = ?I and g = "\<lambda>h v. curve_query m op h v 0", OF d h a in_R s]; simp)
    qed
  qed
  then show "acts_on l R {} (cells_of BFloat dst) (\<lambda>sel _ ws.
      do { d \<leftarrow> float_dst ws dst; h \<leftarrow> handle_src ws curve; v \<leftarrow> float_src ws v; ?rest d h v sel ws })"
    using w r assms(2) by (intro fetch_dst fetch_src) auto
qed

lemma acts_gradient:
  assumes "access_ok l (R, {}, cells_of BColor dst)"
    and "cells_of BResource gradient \<union> cells_of BFloat pos \<subseteq> R" "\<not> slot_is_none scale \<Longrightarrow> cells_of BFloat scale \<subseteq> R"
  shows "acts_on l R {} (cells_of BColor dst) (\<lambda>sel _ ws. strip_gradient m dst gradient pos scale sel ws)"
proof (rule acts_same [OF strip_gradient_def])
  have wf: "shared_reads R (color_cells dst)" and w: "\<forall>c \<in> color_cells dst. writable l c"
    and kind: "all_scalar (color_cells dst) \<or> all_rows (color_cells dst)"
    and r: "\<forall>c \<in> R. readable l c" using assms(1) by (auto simp: access_ok_def)
  let ?rest = "\<lambda>d h p s sel ws.
      let scale_at = (\<lambda>ws i. map_option (\<lambda>s. src_at s ws i) s) in
      if src_is_scalar h then
        do { g \<leftarrow> handle_gradient m (src_at h ws 0);
             pick_color sel d (\<lambda>ws i. gradient_color m g (src_at p ws i) (scale_at ws i)) ws }
      else pick_color sel d (\<lambda>ws i.
        do { g \<leftarrow> handle_gradient m (src_at h ws i);
             gradient_color m g (src_at p ws i) (scale_at ws i) }) ws"
  have rest: "acts_on l R {} (color_cells dst) (\<lambda>sel _ ws. ?rest d h p s sel ws)"
    if d: "color_dst_writes l dst d" and h: "reads l (BResource, slot_kind gradient) h"
      and p: "reads l (BFloat, slot_kind pos) p"
      and s: "reads_only l R {} (\<lambda>ws i. map_option (\<lambda>s. src_at s ws i) s)" for d h p s
  proof -
    let ?scale = "\<lambda>ws i. map_option (\<lambda>s. src_at s ws i) s"
    let ?val = "\<lambda>ws i. do { g \<leftarrow> handle_gradient m (src_at h ws i); gradient_color m g (src_at p ws i) (?scale ws i) }"
    have reads: "reads_only l R {} ?val"
      by (rule reads_more [OF reads_three [where g = "\<lambda>h p s. do { g \<leftarrow> handle_gradient m h; gradient_color m g p s }",
              OF reads_src [OF h] reads_src [OF p] s]])
        (use assms(2) in simp_all)
    obtain d' where d': "writes l (color_cells dst) d'" "\<And>sel val ws. pick_color sel d val ws = dst_write sel d' val ws"
      using color_dst_one [OF d kind] by blast
    show ?thesis
    proof (cases "src_is_scalar h")
      case True
      have "acts_on l R {} (color_cells dst) (\<lambda>sel levels ws. do { g \<leftarrow> handle_gradient m (src_at h ws 0);
          dst_write sel d' (\<lambda>ws i. gradient_color m g (src_at p ws i) (?scale ws i)) ws })"
        by (rule acts_hoisted [OF d'(1) h True wf _ reads]) (simp add: behaves_def)
      then show ?thesis by (simp add: True d'(2))
    next
      case False
      show ?thesis using acts_pick_color [OF d kind reads wf] by (simp add: False)
    qed
  qed
  have "acts_on l R {} (color_cells dst) (\<lambda>sel _ ws.
      do { s \<leftarrow> (if slot_is_none scale then Some None else map_option Some (float_src ws scale)); ?rest d h p s sel ws })"
    if d: "color_dst_writes l dst d" and h: "reads l (BResource, slot_kind gradient) h"
      and p: "reads l (BFloat, slot_kind pos) p" for d h p
  proof (rule acts_fetch)
    fix ws s assume l: "layout ws = l"
      and s: "(if slot_is_none scale then Some None else map_option Some (float_src ws scale)) = Some s"
    have "reads_only l R {} (\<lambda>ws i. map_option (\<lambda>s. src_at s ws i) s)"
    proof (cases "slot_is_none scale")
      case True
      then show ?thesis using s by (simp add: reads_only_def)
    next
      case False
      then obtain a where a: "float_src ws scale = Some a" "s = Some a" using s by auto
      have "(BFloat, slot_kind scale) \<in> R" using assms(3) [OF False] by simp
      moreover have "reads l (BFloat, slot_kind scale) a" using float_src_reads [OF a(1)] calculation r l by simp
      ultimately show ?thesis using reads_more [OF reads_mapped [where g = Some, OF reads_src]] by (simp add: a(2))
    qed
    from rest [OF d h p this] show "acts_on l R {} (color_cells dst) (\<lambda>sel _ ws. ?rest d h p s sel ws)" .
  qed (simp, metis src_layout(1))
  then show "acts_on l R {} (cells_of BColor dst) (\<lambda>sel _ ws.
      do { d \<leftarrow> color_dst_of ws dst; h \<leftarrow> handle_src ws gradient; p \<leftarrow> float_src ws pos;
           s \<leftarrow> (if slot_is_none scale then Some None else map_option Some (float_src ws scale)); ?rest d h p s sel ws })"
    using w r assms(2) by simp (intro fetch_color_dst fetch_src; simp)
qed

text \<open>A cursor between pixels changes no answer, as marks are in order.\<close>

lemma previous_mark_settles:
  assumes "sorted (ticks w)"
  shows "settles (\<lambda>_. True) (Some (previous_mark_time ar w seconds c)) (Some (fst (previous_mark_time ar w seconds 0)))"
    and "settles (\<lambda>_. True) (Some (previous_mark_index ar w seconds c)) (Some (fst (previous_mark_index ar w seconds 0)))"
  using mark_cursor_only_speeds_up [OF assms, of ar seconds c] mark_cursor_only_speeds_up [OF assms, of ar seconds 0]
  by (simp_all add: settles_def previous_mark_time_def previous_mark_index_def previous_mark_def Let_def split: prod.split)

lemma marks_settle:
  assumes "marks_sorted m"
  shows "settles (\<lambda>_. True) (map_option (\<lambda>w. previous_mark_time ar w seconds c) (handle_marks m h))
      (map_option (\<lambda>w. fst (previous_mark_time ar w seconds 0)) (handle_marks m h))"
    and "settles (\<lambda>_. True) (map_option (\<lambda>w. previous_mark_index ar w seconds c) (handle_marks m h))
      (map_option (\<lambda>w. fst (previous_mark_index ar w seconds 0)) (handle_marks m h))"
  using assms previous_mark_settles by (cases "handle_marks m h"; simp add: marks_sorted_def)+

lemma bind_swap: "Option.bind a (\<lambda>x. Option.bind b (\<lambda>y. F x y)) = Option.bind b (\<lambda>y. Option.bind a (\<lambda>x. F x y))"
  by (cases a; cases b) simp_all

lemma acts_mark_scalar:
  assumes "reads l (BResource, slot_kind marks) h" "src_is_scalar h" "(BResource, slot_kind marks) \<in> R"
    and "marks_sorted m" "\<forall>c \<in> R. readable l c"
  shows "writable l (BFloat, slot_kind dst) \<Longrightarrow> shared_reads R {(BFloat, slot_kind dst)} \<Longrightarrow>
      (BInt, slot_kind x) \<in> R \<Longrightarrow> acts_on l R {} {(BFloat, slot_kind dst)} (\<lambda>sel _ ws.
        do { w \<leftarrow> handle_marks m (src_at h ws 0); d \<leftarrow> float_dst ws dst; x \<leftarrow> int_src ws x;
             strip_map1 sel d x (\<lambda>index. pure (mark_at ar w index)) (0 :: nat) ws })"
    and "writable l (BFloat, slot_kind dst) \<Longrightarrow> shared_reads R {(BFloat, slot_kind dst)} \<Longrightarrow>
      (BFloat, slot_kind x) \<in> R \<Longrightarrow> acts_on l R {} {(BFloat, slot_kind dst)} (\<lambda>sel _ ws.
        do { w \<leftarrow> handle_marks m (src_at h ws 0); d \<leftarrow> float_dst ws dst; x \<leftarrow> float_src ws x;
             strip_map1 sel d x (\<lambda>seconds c. Some (previous_mark_time ar w seconds c)) 0 ws })"
    and "writable l (BInt, slot_kind dst) \<Longrightarrow> shared_reads R {(BInt, slot_kind dst)} \<Longrightarrow>
      (BFloat, slot_kind x) \<in> R \<Longrightarrow> acts_on l R {} {(BInt, slot_kind dst)} (\<lambda>sel _ ws.
        do { w \<leftarrow> handle_marks m (src_at h ws 0); d \<leftarrow> int_dst ws dst; x \<leftarrow> float_src ws x;
             strip_map1 sel d x (\<lambda>seconds c. Some (previous_mark_index ar w seconds c)) 0 ws })"
proof -
  let ?I = "\<lambda>_ :: nat. True"
  show "acts_on l R {} {(BFloat, slot_kind dst)} (\<lambda>sel _ ws.
        do { w \<leftarrow> handle_marks m (src_at h ws 0); d \<leftarrow> float_dst ws dst; x \<leftarrow> int_src ws x;
             strip_map1 sel d x (\<lambda>index. pure (mark_at ar w index)) (0 :: nat) ws })"
    if "writable l (BFloat, slot_kind dst)" "shared_reads R {(BFloat, slot_kind dst)}" "(BInt, slot_kind x) \<in> R"
    unfolding bind_swap [of "handle_marks m _"]
    by (intro fetch_dst(1) fetch_src(2),
        rule_tac [3] acts_hoisted_map1 [where I = ?I and g = "\<lambda>w i. Some (mark_at ar w i)", OF _ assms(1,2) _ assms(3)])
      (use that assms(5) in simp_all)
  show "acts_on l R {} {(BFloat, slot_kind dst)} (\<lambda>sel _ ws.
        do { w \<leftarrow> handle_marks m (src_at h ws 0); d \<leftarrow> float_dst ws dst; x \<leftarrow> float_src ws x;
             strip_map1 sel d x (\<lambda>seconds c. Some (previous_mark_time ar w seconds c)) 0 ws })"
    if "writable l (BFloat, slot_kind dst)" "shared_reads R {(BFloat, slot_kind dst)}" "(BFloat, slot_kind x) \<in> R"
    unfolding bind_swap [of "handle_marks m _"]
    by (intro fetch_dst(1) fetch_src(1),
        rule_tac [3] acts_hoisted_map1 [where I = ?I and g = "\<lambda>w i. Some (fst (previous_mark_time ar w i 0))", OF _ assms(1,2) _ assms(3)])
      (use that assms(4,5) previous_mark_settles in \<open>simp_all add: marks_sorted_def\<close>)
  show "acts_on l R {} {(BInt, slot_kind dst)} (\<lambda>sel _ ws.
        do { w \<leftarrow> handle_marks m (src_at h ws 0); d \<leftarrow> int_dst ws dst; x \<leftarrow> float_src ws x;
             strip_map1 sel d x (\<lambda>seconds c. Some (previous_mark_index ar w seconds c)) 0 ws })"
    if "writable l (BInt, slot_kind dst)" "shared_reads R {(BInt, slot_kind dst)}" "(BFloat, slot_kind x) \<in> R"
    unfolding bind_swap [of "handle_marks m _"]
    by (intro fetch_dst(2) fetch_src(1),
        rule_tac [3] acts_hoisted_map1 [where I = ?I and g = "\<lambda>w i. Some (fst (previous_mark_index ar w i 0))", OF _ assms(1,2) _ assms(3)])
      (use that assms(4,5) previous_mark_settles in \<open>simp_all add: marks_sorted_def\<close>)
qed

lemma acts_mark_rows:
  assumes "reads l (BResource, slot_kind marks) h" "(BResource, slot_kind marks) \<in> R" "marks_sorted m"
    and "\<forall>c \<in> R. readable l c"
  shows "writable l (BFloat, slot_kind dst) \<Longrightarrow> shared_reads R {(BFloat, slot_kind dst)} \<Longrightarrow>
      (BInt, slot_kind x) \<in> R \<Longrightarrow> acts_on l R {} {(BFloat, slot_kind dst)} (\<lambda>sel _ ws.
        do { d \<leftarrow> float_dst ws dst; x \<leftarrow> int_src ws x;
             apply2 sel d h x (\<lambda>h index. fallible (map_option (\<lambda>w. mark_at ar w index) (handle_marks m h))) (0 :: nat) ws })"
    and "writable l (BFloat, slot_kind dst) \<Longrightarrow> shared_reads R {(BFloat, slot_kind dst)} \<Longrightarrow>
      (BFloat, slot_kind x) \<in> R \<Longrightarrow> acts_on l R {} {(BFloat, slot_kind dst)} (\<lambda>sel _ ws.
        do { d \<leftarrow> float_dst ws dst; x \<leftarrow> float_src ws x;
             apply2 sel d h x (\<lambda>h seconds c. map_option (\<lambda>w. previous_mark_time ar w seconds c) (handle_marks m h)) 0 ws })"
    and "writable l (BInt, slot_kind dst) \<Longrightarrow> shared_reads R {(BInt, slot_kind dst)} \<Longrightarrow>
      (BFloat, slot_kind x) \<in> R \<Longrightarrow> acts_on l R {} {(BInt, slot_kind dst)} (\<lambda>sel _ ws.
        do { d \<leftarrow> int_dst ws dst; x \<leftarrow> float_src ws x;
             apply2 sel d h x (\<lambda>h seconds c. map_option (\<lambda>w. previous_mark_index ar w seconds c) (handle_marks m h)) 0 ws })"
proof -
  let ?I = "\<lambda>_ :: nat. True"
  note both = acts_apply2 [where I = ?I and c = 0, OF _ assms(1) _ assms(2)]
  show "acts_on l R {} {(BFloat, slot_kind dst)} (\<lambda>sel _ ws.
        do { d \<leftarrow> float_dst ws dst; x \<leftarrow> int_src ws x;
             apply2 sel d h x (\<lambda>h index. fallible (map_option (\<lambda>w. mark_at ar w index) (handle_marks m h))) (0 :: nat) ws })"
    if "writable l (BFloat, slot_kind dst)" "shared_reads R {(BFloat, slot_kind dst)}" "(BInt, slot_kind x) \<in> R"
    by (intro fetch_dst(1) fetch_src(2),
        rule_tac [3] both [where g = "\<lambda>h i. map_option (\<lambda>w. mark_at ar w i) (handle_marks m h)"])
      (use that assms(4) in simp_all)
  show "acts_on l R {} {(BFloat, slot_kind dst)} (\<lambda>sel _ ws.
        do { d \<leftarrow> float_dst ws dst; x \<leftarrow> float_src ws x;
             apply2 sel d h x (\<lambda>h seconds c. map_option (\<lambda>w. previous_mark_time ar w seconds c) (handle_marks m h)) 0 ws })"
    if "writable l (BFloat, slot_kind dst)" "shared_reads R {(BFloat, slot_kind dst)}" "(BFloat, slot_kind x) \<in> R"
    by (intro fetch_dst(1) fetch_src(1),
        rule_tac [3] both [where g = "\<lambda>h s. map_option (\<lambda>w. fst (previous_mark_time ar w s 0)) (handle_marks m h)"])
      (use that assms(3,4) marks_settle in simp_all)
  show "acts_on l R {} {(BInt, slot_kind dst)} (\<lambda>sel _ ws.
        do { d \<leftarrow> int_dst ws dst; x \<leftarrow> float_src ws x;
             apply2 sel d h x (\<lambda>h seconds c. map_option (\<lambda>w. previous_mark_index ar w seconds c) (handle_marks m h)) 0 ws })"
    if "writable l (BInt, slot_kind dst)" "shared_reads R {(BInt, slot_kind dst)}" "(BFloat, slot_kind x) \<in> R"
    by (intro fetch_dst(2) fetch_src(1),
        rule_tac [3] both [where g = "\<lambda>h s. map_option (\<lambda>w. fst (previous_mark_index ar w s 0)) (handle_marks m h)"])
      (use that assms(3,4) marks_settle in simp_all)
qed

lemma acts_mark:
  assumes ok: "access_ok l (R, {}, cells_of (mark_dst_bank op) dst)" and sorted: "marks_sorted m"
    and sub: "cells_of BResource marks \<union> cells_of (mark_operand_bank op) x \<subseteq> R"
  shows "acts_on l R {} (cells_of (mark_dst_bank op) dst) (\<lambda>sel _ ws. strip_mark m op dst marks x sel ws)"
proof (rule acts_same [OF strip_mark_def], rule fetch_src(4))
  have wf: "shared_reads R (cells_of (mark_dst_bank op) dst)" and w: "\<forall>c \<in> cells_of (mark_dst_bank op) dst. writable l c"
    and r: "\<forall>c \<in> R. readable l c" using ok by (auto simp: access_ok_def)
  have in_R: "(BResource, slot_kind marks) \<in> R" using sub by simp
  then show "readable l (BResource, slot_kind marks)" using r by simp
  fix h :: "handle src" assume h: "reads l (BResource, slot_kind marks) h"
  note rows = acts_mark_rows [OF h in_R sorted r] and scalar = acts_mark_scalar [OF h _ in_R sorted r]
  show "acts_on l R {} (cells_of (mark_dst_bank op) dst) (\<lambda>sel levels ws.
      let ar = m_arith m; cursor = 0 in
      if src_is_scalar h then
        do { w \<leftarrow> handle_marks m (src_at h ws 0);
             case op of
               MarkAt \<Rightarrow> do { d \<leftarrow> float_dst ws dst; x \<leftarrow> int_src ws x;
                 strip_map1 sel d x (\<lambda>index. pure (mark_at ar w index)) cursor ws }
             | MarkLast \<Rightarrow> do { d \<leftarrow> float_dst ws dst; x \<leftarrow> float_src ws x;
                 strip_map1 sel d x (\<lambda>seconds c. Some (previous_mark_time ar w seconds c)) cursor ws }
             | MarkLastIndex \<Rightarrow> do { d \<leftarrow> int_dst ws dst; x \<leftarrow> float_src ws x;
                 strip_map1 sel d x (\<lambda>seconds c. Some (previous_mark_index ar w seconds c)) cursor ws } }
      else case op of
          MarkAt \<Rightarrow> do { d \<leftarrow> float_dst ws dst; x \<leftarrow> int_src ws x;
            apply2 sel d h x (\<lambda>h index. fallible (map_option (\<lambda>w. mark_at ar w index) (handle_marks m h))) cursor ws }
        | MarkLast \<Rightarrow> do { d \<leftarrow> float_dst ws dst; x \<leftarrow> float_src ws x;
            apply2 sel d h x (\<lambda>h seconds c.
              map_option (\<lambda>w. previous_mark_time ar w seconds c) (handle_marks m h)) cursor ws }
        | MarkLastIndex \<Rightarrow> do { d \<leftarrow> int_dst ws dst; x \<leftarrow> float_src ws x;
            apply2 sel d h x (\<lambda>h seconds c.
              map_option (\<lambda>w. previous_mark_index ar w seconds c) (handle_marks m h)) cursor ws })"
    using wf w sub
    by (cases op; cases "src_is_scalar h"; simp add: Let_def mark_dst_bank_def mark_operand_bank_def)
      (rule rows scalar; simp)+
qed

section \<open>Arrays, sections, signals, parameters\<close>

lemma acts_pick_three:
  assumes "writes l C d" "shared_reads R C" "reads l ca a" "reads l cb b" "reads l ce e" "ca \<in> R" "cb \<in> R" "ce \<in> R"
  shows "acts_on l R {} C (\<lambda>sel _ ws. pick_each sel d (\<lambda>ws i. fallible (f (src_at a ws i) (src_at b ws i) (src_at e ws i))) () ws)"
proof (rule acts_pick_each [where I = "\<lambda>_. True", OF assms(1) _ assms(2)])
  show "reads_only l R {} (\<lambda>ws i. f (src_at a ws i) (src_at b ws i) (src_at e ws i))"
    by (rule reads_more [OF reads_three [where g = f, OF reads_src [OF assms(3)] reads_src [OF assms(4)] reads_src [OF assms(5)]]])
      (use assms(6-8) in simp_all)
qed simp_all

lemma acts_index:
  assumes ok: "access_ok l (R, {}, cells_of bank dst)"
    and sub: "cells_of BResource array \<union> cells_of BInt index \<union> cells_of bank fallback \<subseteq> R"
  shows "acts_on l R {} (cells_of bank dst) (\<lambda>sel _ ws. strip_index m bank dst array index fallback sel ws)"
proof (rule acts_same [OF strip_index_def], intro fetch_src)
  have wf: "shared_reads R (cells_of bank dst)" and w: "\<forall>c \<in> cells_of bank dst. writable l c"
    and kind: "all_scalar (cells_of bank dst) \<or> all_rows (cells_of bank dst)"
    and r: "\<forall>c \<in> R. readable l c" using ok by (auto simp: access_ok_def)
  show "readable l (BResource, slot_kind array)" "readable l (BInt, slot_kind index)" using r sub by simp_all
  fix h :: "handle src" and x :: "i32 src"
  assume h: "reads l (BResource, slot_kind array) h" and x: "reads l (BInt, slot_kind index) x"
  let ?item = "\<lambda>h x. array_item m h x"
  have in_R: "(BResource, slot_kind array) \<in> R" "(BInt, slot_kind index) \<in> R" using sub by simp_all
  have color: "acts_on l R {} (color_cells dst) (\<lambda>sel _ ws. pick_color sel d
      (\<lambda>ws i. do { v \<leftarrow> ?item (src_at h ws i) (src_at x ws i); color_item m v (color_at f ws i) }) ws)"
    if "bank = BColor" "color_dst_writes l dst d" "color_src_reads l fallback f" for d f
  proof (rule acts_pick_color [OF that(2)])
    show "reads_only l R {} (\<lambda>ws i. do { v \<leftarrow> ?item (src_at h ws i) (src_at x ws i); color_item m v (color_at f ws i) })"
      by (rule reads_more [OF reads_three [where g = "\<lambda>h x f. do { v \<leftarrow> ?item h x; color_item m v f }",
              OF reads_src [OF h] reads_src [OF x] reads_triple [OF that(3)]]])
        (use sub that(1) in simp_all)
  qed (use wf kind that(1) in simp_all)
  note one = acts_pick_three [OF _ _ h x _ in_R]
  show "acts_on l R {} (cells_of bank dst) (\<lambda>sel levels ws.
     let item = \<lambda>ws i. ?item (src_at h ws i) (src_at x ws i) in
     case bank of
       BFloat \<Rightarrow> do { f \<leftarrow> float_src ws fallback; d \<leftarrow> float_dst ws dst;
         pick_each sel d (\<lambda>ws i. fallible (map_option (\<lambda>v. float_item m v (src_at f ws i)) (item ws i))) () ws }
     | BInt \<Rightarrow> do { f \<leftarrow> int_src ws fallback; d \<leftarrow> int_dst ws dst;
         pick_each sel d (\<lambda>ws i. fallible (map_option (\<lambda>v. int_item v (src_at f ws i)) (item ws i))) () ws }
     | BBool \<Rightarrow> do { f \<leftarrow> bool_src ws fallback; d \<leftarrow> bool_dst ws dst;
         pick_each sel d (\<lambda>ws i. fallible (map_option (\<lambda>v. bool_item v (src_at f ws i)) (item ws i))) () ws }
     | BColor \<Rightarrow> do { f \<leftarrow> color_src_of ws fallback; d \<leftarrow> color_dst_of ws dst;
         pick_color sel d (\<lambda>ws i. do { v \<leftarrow> item ws i; color_item m v (color_at f ws i) }) ws }
     | BResource \<Rightarrow> do { f \<leftarrow> handle_src ws fallback; d \<leftarrow> handle_dst ws dst;
         pick_each sel d (\<lambda>ws i. fallible (map_option (\<lambda>v. case v of
             Some v \<Rightarrow> handle_show (show_value_word v) | None \<Rightarrow> src_at f ws i) (item ws i))) () ws })"
  proof (cases bank)
    case BColor
    have "\<forall>c \<in> color_cells fallback. readable l c" using r sub BColor by auto
    then show ?thesis using w BColor by (simp add: Let_def, intro fetch_color_src fetch_color_dst color) simp_all
  next
    case BFloat
    then show ?thesis using wf w r sub by (simp add: Let_def, intro fetch_src fetch_dst)
      (auto intro: one [where f = "\<lambda>h x f. map_option (\<lambda>v. float_item m v f) (?item h x)"])
  next
    case BInt
    then show ?thesis using wf w r sub by (simp add: Let_def, intro fetch_src fetch_dst)
      (auto intro: one [where f = "\<lambda>h x f. map_option (\<lambda>v. int_item v f) (?item h x)"])
  next
    case BBool
    then show ?thesis using wf w r sub by (simp add: Let_def, intro fetch_src fetch_dst)
      (auto intro: one [where f = "\<lambda>h x f. map_option (\<lambda>v. bool_item v f) (?item h x)"])
  next
    case BResource
    then show ?thesis using wf w r sub by (simp add: Let_def, intro fetch_src fetch_dst)
      (auto intro: one [where f = "\<lambda>h x f. map_option (\<lambda>v. case v of
          Some v \<Rightarrow> handle_show (show_value_word v) | None \<Rightarrow> f) (?item h x)"])
  qed
qed

text \<open>A cached run of sections answers as a fresh one.\<close>

definition cached_run :: "machine \<Rightarrow> run_sections option \<Rightarrow> bool" where
  "cached_run m run \<longleftrightarrow>
     (\<forall>s. run = Some s \<longrightarrow> (\<exists>target p wd. m_sections m = Some target \<and> s = run_sections_of target p wd))"

lemma run_key: "sections_key (run_sections_of target p wd) = (pixel_run p, wd)"
  by (simp add: run_sections_of_def Let_def split: option.split prod.split)

lemma section_settles:
  assumes "cached_run m run"
  shows "settles (cached_run m) (Some (section_query m index ws i wd run)) (Some (fst (section_query m index ws i wd None)))"
proof (cases "m_sections m")
  case (Some target)
  let ?pixel = "px_sections (ws_pixels ws) (i AND MASK)"
  have same: "s = run_sections_of target ?pixel wd"
    if run: "run = Some s" and key: "sections_key s = (pixel_run ?pixel, wd)" for s
  proof -
    obtain p w where "s = run_sections_of target p w" using assms run Some by (auto simp: cached_run_def)
    moreover have "pixel_run p = pixel_run ?pixel" "w = wd" using key by (simp_all add: calculation run_key)
    ultimately show ?thesis using run_sections_same_run by metis
  qed
  then have "section_query m index ws i wd run =
      (sections_query (run_sections_of target ?pixel wd) ?pixel index, Some (run_sections_of target ?pixel wd))"
    by (auto simp: section_query_def Some Let_def split: option.split)
  then show ?thesis by (auto simp: section_query_def Some Let_def cached_run_def)
qed (use assms in \<open>simp add: section_query_def\<close>)

lemma acts_section:
  assumes "access_ok l (R, {}, cells_of BInt dst)" "cells_of BInt wd \<subseteq> R"
  shows "acts_on l R {} (cells_of BInt dst) (\<lambda>sel _ ws.
    do { d \<leftarrow> int_dst ws dst; wd \<leftarrow> int_src ws wd;
         pick_each sel d (\<lambda>ws i run. Some (section_query m index ws i (src_at wd ws i) run)) None ws })"
proof (intro fetch_dst fetch_src)
  have wf: "shared_reads R (cells_of BInt dst)" and w: "\<forall>c \<in> cells_of BInt dst. writable l c"
    and r: "\<forall>c \<in> R. readable l c" using assms(1) by (auto simp: access_ok_def)
  show "writable l (BInt, slot_kind dst)" "readable l (BInt, slot_kind wd)" using w r assms(2) by simp_all
  fix d :: "i32 dst" and a :: "i32 src"
  assume d: "writes l {(BInt, slot_kind dst)} d" and a: "reads l (BInt, slot_kind wd) a"
  have same: "section_query m index w = section_query m index w'" if "ws_pixels w = ws_pixels w'" for w w'
    by (intro ext) (simp only: section_query_def that)
  have query: "reads_only l {} {} (section_query m index)"
    unfolding reads_only_def
  proof (intro allI impI)
    fix w w' s i j assume "agree l s i w w'"
    then have "ws_pixels w = ws_pixels w'" by (auto simp: agree_def layout_def)
    then show "section_query m index w j = section_query m index w' j" using same by metis
  qed
  show "acts_on l R {} (cells_of BInt dst) (\<lambda>sel levels ws.
      pick_each sel d (\<lambda>ws i run. Some (section_query m index ws i (src_at a ws i) run)) None ws)"
  proof (rule acts_pick_each [where I = "cached_run m" and val = "\<lambda>ws i. Some (fst (section_query m index ws i (src_at a ws i) None))"])
    show "reads_only l R {} (\<lambda>ws i. Some (fst (section_query m index ws i (src_at a ws i) None)))"
      by (rule reads_more [OF reads_both [where g = "\<lambda>f wd. Some (fst (f wd None))", OF query reads_src [OF a]]])
        (use assms(2) in simp_all)
  qed (use d wf section_settles in \<open>simp_all add: cached_run_def\<close>)
qed

lemma acts_sample:
  assumes "access_ok l (R, {}, cells_of BColor dst)"
    and sub: "(case signal_pixel_index pixel of None \<Rightarrow> {} | Some index \<Rightarrow> cells_of BInt index) \<subseteq> R"
  shows "acts_on l R {} (cells_of BColor dst) (\<lambda>sel _ ws. strip_sample sg dst input pixel sel ws)"
proof (rule acts_same [OF strip_sample_def], rule fetch_color_dst)
  have wf: "shared_reads R (color_cells dst)" and kind: "all_scalar (color_cells dst) \<or> all_rows (color_cells dst)"
    and r: "\<forall>c \<in> R. readable l c" using assms(1) by (auto simp: access_ok_def)
  show "\<forall>c \<in> color_cells dst. writable l c" using assms(1) by (auto simp: access_ok_def)
  fix d assume d: "color_dst_writes l dst d"
  show "acts_on l R {} (cells_of BColor dst) (\<lambda>sel levels ws.
      case pixel of
        Current \<Rightarrow> pick_color sel d (\<lambda>_ i. Some (read_strip sg (unat input) i)) ws
      | _ \<Rightarrow>
        do { a \<leftarrow> (case signal_pixel_index pixel of Some index \<Rightarrow> int_src ws index | None \<Rightarrow> None);
             case d of
               (Many r, Many g, Many b) \<Rightarrow>
                 pick_color sel d (\<lambda>ws i. Some (read_pixel sg (unat input) i
                   (signal_pixel_map (\<lambda>_. src_at a ws i) pixel))) ws
             | _ \<Rightarrow> None })"
  proof (cases "signal_pixel_index pixel")
    case None
    then have "pixel = Current" by (cases pixel) (simp_all add: signal_pixel_index_def)
    then show ?thesis
      using acts_pick_color [OF d kind reads_more [OF reads_const] wf] by simp
  next
    case (Some index)
    then have in_R: "(BInt, slot_kind index) \<in> R" using sub by simp
    have pick: "acts_on l R {} (color_cells dst) (\<lambda>sel _ ws. pick_color sel d
        (\<lambda>ws i. Some (read_pixel sg (unat input) i (signal_pixel_map (\<lambda>_. src_at a ws i) pixel))) ws)"
      if "reads l (BInt, slot_kind index) a" for a
    proof (rule acts_pick_color [OF d kind _ wf])
      show "reads_only l R {} (\<lambda>ws i. Some (read_pixel sg (unat input) i (signal_pixel_map (\<lambda>_. src_at a ws i) pixel)))"
        by (rule reads_more [OF reads_both [where g = "\<lambda>f x. Some (f (signal_pixel_map (\<lambda>_. x) pixel))",
                OF reads_const [of l "\<lambda>i. read_pixel sg (unat input) i"] reads_src [OF that]]])
          (use in_R in simp_all)
    qed
    have silent: "acts_on l R {} (color_cells dst) (\<lambda>sel _ ws. None)" by (intro actsI) simp_all
    have all: "acts_on l R {} (color_cells dst) (\<lambda>sel _ ws. case d of
          (Many r, Many g, Many b) \<Rightarrow>
            pick_color sel d (\<lambda>ws i. Some (read_pixel sg (unat input) i (signal_pixel_map (\<lambda>_. src_at a ws i) pixel))) ws
        | _ \<Rightarrow> None)" if "reads l (BInt, slot_kind index) a" for a
    proof -
      obtain r g b where d: "d = (r, g, b)" by (cases d)
      show ?thesis using pick [OF that] silent unfolding d by (cases r; cases g; cases b) simp_all
    qed
    have "acts_on l R {} (color_cells dst) (\<lambda>sel _ ws. do { a \<leftarrow> int_src ws index;
        case d of
          (Many r, Many g, Many b) \<Rightarrow>
            pick_color sel d (\<lambda>ws i. Some (read_pixel sg (unat input) i (signal_pixel_map (\<lambda>_. src_at a ws i) pixel))) ws
        | _ \<Rightarrow> None })"
      using r in_R by (intro fetch_src(2) all) simp
    moreover have "pixel \<noteq> Current" using Some by (auto simp: signal_pixel_index_def)
    ultimately show ?thesis using Some by (cases pixel) simp_all
  qed
qed

text \<open>An immediate written to a scalar.\<close>

lemma acts_immediate:
  "writable l (BFloat, slot_kind dst) \<Longrightarrow> is_scalar_class (slot_kind dst) \<Longrightarrow>
    acts_on l {} {} {(BFloat, slot_kind dst)} (\<lambda>_ _ ws. do { d \<leftarrow> float_dst ws dst; Some (set_scalar d v1 ws) })"
  "writable l (BInt, slot_kind dst) \<Longrightarrow> is_scalar_class (slot_kind dst) \<Longrightarrow>
    acts_on l {} {} {(BInt, slot_kind dst)} (\<lambda>_ _ ws. do { d \<leftarrow> int_dst ws dst; Some (set_scalar d v2 ws) })"
  "writable l (BBool, slot_kind dst) \<Longrightarrow> is_scalar_class (slot_kind dst) \<Longrightarrow>
    acts_on l {} {} {(BBool, slot_kind dst)} (\<lambda>_ _ ws. do { d \<leftarrow> bool_dst ws dst; Some (set_scalar d v3 ws) })"
  "writable l (BResource, slot_kind dst) \<Longrightarrow> is_scalar_class (slot_kind dst) \<Longrightarrow>
    acts_on l {} {} {(BResource, slot_kind dst)} (\<lambda>_ _ ws. do { d \<leftarrow> handle_dst ws dst; Some (set_scalar d v4 ws) })"
  by (intro fetch_dst acts_set_scalar; simp add: all_scalar_def)+

lemma acts_silent: "acts l S M spoil (\<lambda>_ _ _. None)"
  by (intro actsI) simp_all

lemma acts_given:
  "(\<And>x. v = Some x \<Longrightarrow> acts l S M spoil (F x)) \<Longrightarrow> acts l S M spoil (\<lambda>sel levels ws. Option.bind v (\<lambda>x. F x sel levels ws))"
  by (cases v) (simp_all add: acts_silent)

lemma acts_const:
  assumes "access_ok l ({}, {}, cells_of bank dst)" "all_scalar (cells_of bank dst)" "bank \<noteq> BColor"
  shows "acts_on l {} {} (cells_of bank dst) (\<lambda>sel _ ws. step m sg (Const bank dst bits) sel ws)"
proof (rule acts_same [OF step.simps(1)])
  have w: "writable l (bank, slot_kind dst)" and c: "is_scalar_class (slot_kind dst)"
    using assms by (simp_all add: access_ok_def all_scalar_def)
  show "acts_on l {} {} (cells_of bank dst) (\<lambda>sel levels ws. case bank of
        BFloat \<Rightarrow> do { d \<leftarrow> float_dst ws dst; Some (set_scalar d bits ws) }
      | BInt \<Rightarrow> do { d \<leftarrow> int_dst ws dst; Some (set_scalar d bits ws) }
      | BBool \<Rightarrow> do { d \<leftarrow> bool_dst ws dst; Some (set_scalar d (bits \<noteq> 0) ws) }
      | _ \<Rightarrow> do { index \<leftarrow> nth_opt (m_resources m) (unat bits); d \<leftarrow> handle_dst ws dst;
                  Some (set_scalar d (handle_show index) ws) })"
    using w c assms(3) by (cases bank) (auto intro!: acts_immediate acts_given)
qed

lemma acts_param:
  assumes ok: "access_ok l ({}, {}, cells_of bank dst)" and scalar: "all_scalar (cells_of bank dst)"
  shows "acts_on l {} {} (cells_of bank dst) (\<lambda>sel _ ws. strip_param m bank dst index sel ws)"
proof -
  have w: "\<forall>c \<in> cells_of bank dst. writable l c" using ok by (simp add: access_ok_def)
  have shared: "shared_reads {} (cells_of bank dst)" by (simp add: shared_reads_def all_scalar_def)
  show ?thesis
  proof (cases "bank = BColor")
    case True
    have "acts_on l {} {} (color_cells dst) (\<lambda>sel _ ws. pick_color sel d (\<lambda>_ _. Some c) ws)"
      if "color_dst_writes l dst d" for c d
      using acts_pick_color [OF that _ reads_const] scalar shared True by simp
    then show ?thesis using w True
      by (simp add: strip_param_def Let_def) (intro acts_given fetch_color_dst; simp)
  next
    case False
    then have "writable l (bank, slot_kind dst)" "is_scalar_class (slot_kind dst)"
      using w scalar by (simp_all add: all_scalar_def)
    then show ?thesis using False
      by (cases bank; simp add: strip_param_def Let_def bind_swap [of _ "nth_opt _ _"] del: bind_assoc)
        (intro acts_given acts_immediate; simp)+
  qed
qed

section \<open>Every instruction\<close>

lemma acts_float_map2:
  assumes "writes l C d" "reads l ca a" "reads l cb b" "ca \<in> R" "cb \<in> R" "shared_reads R C"
  shows "acts_on l R {} C (\<lambda>sel _ ws. float_map2 ar op sel d a b ws)"
proof -
  note m2 = acts_map2 [OF assms]
  note a2 = acts_apply2 [where I = "\<lambda>_ :: unit. True" and c = "()" and g = "\<lambda>x y. Some (float_binary ar op x y)", OF assms]
  show ?thesis by (cases op; simp add: float_map2_def) (rule m2 a2; simp)+
qed

lemma acts_float_binary:
  assumes ok: "access_ok l (R, {}, cells_of (colors_bank cs None) dst)"
    and sub: "cells_of (colors_bank cs (Some 0)) a \<union> cells_of (colors_bank cs (Some 1)) b \<subseteq> R"
  shows "acts_on l R {} (cells_of (colors_bank cs None) dst) (\<lambda>sel _ ws. step m sg (FloatBinary op cs dst a b) sel ws)"
proof (rule acts_same [OF step.simps(5)], rule acts_over_channels [OF ok colors_channels_of])
  fix k assume k: "k \<in> set (channels (colors_channels cs))" "writable l (BFloat, slot_kind (slot_channel dst k))"
    "shared_reads R {(BFloat, slot_kind (slot_channel dst k))}"
  have r: "\<forall>c \<in> R. readable l c" using ok by (auto simp: access_ok_def)
  have in_R: "(BFloat, slot_kind (colors_operand cs a 0 k)) \<in> R" "(BFloat, slot_kind (colors_operand cs b 1 k)) \<in> R"
    using colors_operand_in [OF k(1)] sub by blast+
  show "acts_on l R {} {(BFloat, slot_kind (slot_channel dst k))} (\<lambda>sel _ ws.
      do { d \<leftarrow> float_dst ws (slot_channel dst k); a \<leftarrow> float_src ws (colors_operand cs a 0 k);
           b \<leftarrow> float_src ws (colors_operand cs b 1 k); float_map2 (m_arith m) op sel d a b ws })"
    using k(2,3) r in_R by (intro fetch_dst(1) fetch_src(1)) (auto intro: acts_float_map2)
qed simp

lemma acts_mix:
  assumes ok: "access_ok l (R, {}, cells_of (colors_bank cs None) dst)"
    and sub: "cells_of (colors_bank cs (Some 0)) a \<union> cells_of (colors_bank cs (Some 1)) b \<union>
      cells_of (colors_bank cs (Some 2)) t \<subseteq> R"
  shows "acts_on l R {} (cells_of (colors_bank cs None) dst) (\<lambda>sel _ ws. step m sg (Mix cs dst a b t) sel ws)"
proof (rule acts_same [OF step.simps(7)], rule acts_over_channels [OF ok colors_channels_of])
  fix k assume k: "k \<in> set (channels (colors_channels cs))" "writable l (BFloat, slot_kind (slot_channel dst k))"
    "shared_reads R {(BFloat, slot_kind (slot_channel dst k))}"
  have r: "\<forall>c \<in> R. readable l c" using ok by (auto simp: access_ok_def)
  have in_R: "(BFloat, slot_kind (colors_operand cs a 0 k)) \<in> R" "(BFloat, slot_kind (colors_operand cs b 1 k)) \<in> R"
    "(BFloat, slot_kind (colors_operand cs t 2 k)) \<in> R"
    using colors_operand_in [OF k(1)] sub by blast+
  show "acts_on l R {} {(BFloat, slot_kind (slot_channel dst k))} (\<lambda>sel _ ws.
      do { d \<leftarrow> float_dst ws (slot_channel dst k); a \<leftarrow> float_src ws (colors_operand cs a 0 k);
           b \<leftarrow> float_src ws (colors_operand cs b 1 k); t \<leftarrow> float_src ws (colors_operand cs t 2 k);
           strip_map3 sel d a b t (\<lambda>a b t. mix (m_arith m) t a b) ws })"
    using k(2,3) r in_R by (intro fetch_dst(1) fetch_src(1)) (auto intro: acts_map3)
qed simp

lemma access_okD:
  assumes "access_ok l (R, Q, C)"
  shows "shared_reads R C" "\<And>c. c \<in> C \<Longrightarrow> writable l c" "\<And>c. c \<in> R \<Longrightarrow> readable l c" "\<And>c. c \<in> Q \<Longrightarrow> readable l c"
    "all_scalar C \<or> all_rows C"
  using assms by (auto simp: access_ok_def)

lemma acts_context:
  assumes "access_ok l ({}, {}, cells_of (context_bank rd) dst)" "all_scalar (cells_of (context_bank rd) dst)"
  shows "acts_on l {} {} (cells_of (context_bank rd) dst) (\<lambda>sel _ ws. step m sg (Context dst rd) sel ws)"
proof (rule acts_same [OF step.simps(3)])
  show "acts_on l {} {} (cells_of (context_bank rd) dst) (\<lambda>sel levels ws. case rd of
        CPixelCount \<Rightarrow> do { d \<leftarrow> int_dst ws dst; Some (set_scalar d (m_pixel_count m) ws) }
      | CFramesElapsed \<Rightarrow> do { d \<leftarrow> int_dst ws dst; Some (set_scalar d (m_frames_elapsed m) ws) }
      | _ \<Rightarrow> do { d \<leftarrow> float_dst ws dst; Some (set_scalar d (context_float m rd) ws) })"
    using access_okD(2) [OF assms(1)] assms(2)
    by (cases rd) (auto simp: context_bank_def all_scalar_def intro!: acts_immediate)
qed

text \<open>The plain ones: one loop over one destination.\<close>

lemma acts_float_unary:
  assumes ok: "access_ok l (cells_of BFloat a, {}, cells_of BFloat dst)"
  shows "acts_on l (cells_of BFloat a) {} (cells_of BFloat dst) (\<lambda>sel _ ws. step m sg (FloatUnary op dst a) sel ws)"
  using access_okD [OF ok]
  by (intro acts_same [OF step.simps(4)], simp, intro fetch_dst(1) fetch_src(1); cases op)
    (auto intro: acts_map1_pure acts_apply1 [where I = "\<lambda>_. True" and g = "\<lambda>v. Some (float_unary (m_arith m) op v)"])

lemma acts_clamp:
  assumes ok: "access_ok l (cells_of BFloat v \<union> cells_of BFloat low \<union> cells_of BFloat high, {}, cells_of BFloat dst)"
  shows "acts_on l (cells_of BFloat v \<union> cells_of BFloat low \<union> cells_of BFloat high) {} (cells_of BFloat dst)
    (\<lambda>sel _ ws. step m sg (Clamp dst v low high) sel ws)"
  using access_okD [OF ok]
  by (intro acts_same [OF step.simps(6)], simp, intro fetch_dst(1) fetch_src(1)) (auto intro: acts_map3)

lemma acts_int_unary:
  assumes ok: "access_ok l (cells_of BInt a, {}, cells_of BInt dst)"
  shows "acts_on l (cells_of BInt a) {} (cells_of BInt dst) (\<lambda>sel _ ws. step m sg (IntUnary op dst a) sel ws)"
  using access_okD [OF ok]
  by (intro acts_same [OF step.simps(8)], simp, intro fetch_dst(2) fetch_src(2); cases op)
    (auto intro: acts_map1_pure)

lemma acts_int_binary:
  assumes ok: "access_ok l (cells_of BInt a \<union> cells_of BInt b, {}, cells_of BInt dst)"
  shows "acts_on l (cells_of BInt a \<union> cells_of BInt b) {} (cells_of BInt dst)
    (\<lambda>sel _ ws. step m sg (IntBinary op dst a b) sel ws)"
  using access_okD [OF ok]
  by (intro acts_same [OF step.simps(9)], simp, intro fetch_dst(2) fetch_src(2); cases op)
    (auto intro: acts_map2 acts_apply2 [where I = "\<lambda>_. True" and g = "\<lambda>a b. Some (Sampling.int_binary op a b)"])

lemma acts_conversions:
  "access_ok l (cells_of BInt a, {}, cells_of BFloat dst) \<Longrightarrow>
    acts_on l (cells_of BInt a) {} (cells_of BFloat dst) (\<lambda>sel _ ws. step m sg (IntToFloat dst a) sel ws)"
  "access_ok l (cells_of BFloat a, {}, cells_of BInt dst) \<Longrightarrow>
    acts_on l (cells_of BFloat a) {} (cells_of BInt dst) (\<lambda>sel _ ws. step m sg (FloatToInt dst a) sel ws)"
proof -
  assume ok: "access_ok l (cells_of BInt a, {}, cells_of BFloat dst)"
  show "acts_on l (cells_of BInt a) {} (cells_of BFloat dst) (\<lambda>sel _ ws. step m sg (IntToFloat dst a) sel ws)"
    using access_okD [OF ok]
    by (intro acts_same [OF step.simps(10)], simp, intro fetch_dst(1) fetch_src(2)) (auto intro: acts_map1_pure)
next
  assume ok: "access_ok l (cells_of BFloat a, {}, cells_of BInt dst)"
  show "acts_on l (cells_of BFloat a) {} (cells_of BInt dst) (\<lambda>sel _ ws. step m sg (FloatToInt dst a) sel ws)"
    using access_okD [OF ok]
    by (intro acts_same [OF step.simps(11)], simp, intro fetch_dst(2) fetch_src(1)) (auto intro: acts_map1_pure)
qed

lemma acts_length:
  assumes ok: "access_ok l (cells_of BResource res, {}, cells_of BInt dst)"
  shows "acts_on l (cells_of BResource res) {} (cells_of BInt dst) (\<lambda>sel _ ws. step m sg (Length kind dst res) sel ws)"
  using access_okD [OF ok]
  by (intro acts_same [OF step.simps(19)], simp, intro fetch_dst(2) fetch_src(4))
    (auto intro: acts_apply1 [where I = "\<lambda>_. True" and g = "resource_length m kind"])

lemma acts_colors:
  "access_ok l (cells_of BColor color, {}, cells_of BFloat dst) \<Longrightarrow>
    acts_on l (cells_of BColor color) {} (cells_of BFloat dst) (\<lambda>sel _ ws. step m sg (ColorComponent op dst color) sel ws)"
  "access_ok l (cells_of BFloat hue \<union> cells_of BFloat sat \<union> cells_of BFloat v, {}, cells_of BColor dst) \<Longrightarrow>
    acts_on l (cells_of BFloat hue \<union> cells_of BFloat sat \<union> cells_of BFloat v) {} (cells_of BColor dst)
      (\<lambda>sel _ ws. step m sg (HsvColor dst hue sat v) sel ws)"
  "access_ok l (cells_of BColor color \<union> cells_of BFloat hue, {}, cells_of BColor dst) \<Longrightarrow>
    acts_on l (cells_of BColor color \<union> cells_of BFloat hue) {} (cells_of BColor dst)
      (\<lambda>sel _ ws. step m sg (Recolor shift dst color hue) sel ws)"
proof -
  assume ok: "access_ok l (cells_of BColor color, {}, cells_of BFloat dst)"
  show "acts_on l (cells_of BColor color) {} (cells_of BFloat dst) (\<lambda>sel _ ws. step m sg (ColorComponent op dst color) sel ws)"
  proof (rule acts_same [OF step.simps(13)], simp, intro fetch_color_src fetch_dst(1))
    fix c and d :: "f32 dst" assume c: "color_src_reads l color c" and d: "writes l {(BFloat, slot_kind dst)} d"
    show "acts_on l (color_cells color) {} {(BFloat, slot_kind dst)}
        (\<lambda>sel levels. pick_each sel d (\<lambda>ws i. pure (component m op (color_at c ws i))) ())"
      by (rule acts_pick_each [where I = "\<lambda>_. True", OF d reads_mapped [where g = "\<lambda>c. Some (component m op c)", OF reads_triple [OF c]]])
        (use access_okD [OF ok] in simp_all)
  qed (use access_okD [OF ok] in simp_all)
next
  assume ok: "access_ok l (cells_of BFloat hue \<union> cells_of BFloat sat \<union> cells_of BFloat v, {}, cells_of BColor dst)"
  let ?R = "cells_of BFloat hue \<union> cells_of BFloat sat \<union> cells_of BFloat v"
  show "acts_on l ?R {} (cells_of BColor dst) (\<lambda>sel _ ws. step m sg (HsvColor dst hue sat v) sel ws)"
  proof (rule acts_same [OF step.simps(14)], intro fetch_src(1) fetch_color_dst)
    fix h s b :: "f32 src" and d assume h: "reads l (BFloat, slot_kind hue) h" and s: "reads l (BFloat, slot_kind sat) s"
      and b: "reads l (BFloat, slot_kind v) b" and d: "color_dst_writes l dst d"
    have "reads_only l ?R {} (\<lambda>ws i. Some (hsv (m_arith m) (src_at h ws i) (src_at s ws i) (src_at b ws i)))"
      by (rule reads_more [OF reads_three [where g = "\<lambda>h s b. Some (hsv (m_arith m) h s b)",
              OF reads_src [OF h] reads_src [OF s] reads_src [OF b]]]) simp_all
    from acts_pick_color [OF d _ this] show "acts_on l ?R {} (cells_of BColor dst) (\<lambda>sel levels.
        pick_color sel d (\<lambda>ws i. Some (hsv (m_arith m) (src_at h ws i) (src_at s ws i) (src_at b ws i))))"
      using access_okD [OF ok] by simp
  qed (use access_okD [OF ok] in simp_all)
next
  assume ok: "access_ok l (cells_of BColor color \<union> cells_of BFloat hue, {}, cells_of BColor dst)"
  let ?R = "cells_of BColor color \<union> cells_of BFloat hue"
  show "acts_on l ?R {} (cells_of BColor dst) (\<lambda>sel _ ws. step m sg (Recolor shift dst color hue) sel ws)"
  proof (rule acts_same [OF step.simps(15)], intro fetch_color_src fetch_src(1) fetch_color_dst)
    fix c and h :: "f32 src" and d assume c: "color_src_reads l color c" and h: "reads l (BFloat, slot_kind hue) h"
      and d: "color_dst_writes l dst d"
    have "reads_only l ?R {} (\<lambda>ws i. Some (recolor (m_arith m) (color_at c ws i) (src_at h ws i) shift))"
      by (rule reads_more [OF reads_both [where g = "\<lambda>c h. Some (recolor (m_arith m) c h shift)",
              OF reads_triple [OF c] reads_src [OF h]]]) simp_all
    from acts_pick_color [OF d _ this] show "acts_on l ?R {} (cells_of BColor dst) (\<lambda>sel levels.
        pick_color sel d (\<lambda>ws i. Some (recolor (m_arith m) (color_at c ws i) (src_at h ws i) shift)))"
      using access_okD [OF ok] by simp
  qed (use access_okD [OF ok] in simp_all)
qed

lemma table_readable:
  "access_ok l (A \<union> table_scalar t, table_row t, C) \<Longrightarrow> readable l t"
  by (cases "is_row_class (snd t)") (auto simp: access_ok_def table_scalar_def table_row_def)

lemma step_acts:
  assumes "accesses i = Some (R, Q, C)" "access_ok l (R, Q, C)" "marks_sorted m"
  shows "acts_on l R Q C (\<lambda>sel _ ws. step m sg i sel ws)"
proof (cases i)
  case (Const b dst bits)
  then show ?thesis using assms(1,2)
    by (auto simp: scalar_write_def simp del: step.simps cells_of_simps split: if_splits intro!: acts_const)
next
  case (Param b dst index)
  then show ?thesis using assms(1,2)
    by (auto simp: scalar_write_def simp del: step.simps cells_of_simps split: if_splits intro!: acts_same [OF step.simps(2)] acts_param)
next
  case (Context dst rd)
  then show ?thesis using assms(1,2)
    by (auto simp: scalar_write_def simp del: step.simps cells_of_simps split: if_splits intro!: acts_context)
next
  case (FloatUnary op dst a)
  then show ?thesis using assms(1,2)
    by (auto simp del: step.simps cells_of_simps split: if_splits intro!: acts_float_unary)
next
  case (FloatBinary op cs dst a b)
  then show ?thesis using assms(1,2)
    by (auto simp del: step.simps cells_of_simps split: if_splits intro!: acts_float_binary)
next
  case (Clamp dst a b c)
  then show ?thesis using assms(1,2)
    by (auto simp del: step.simps cells_of_simps split: if_splits intro!: acts_clamp)
next
  case (Mix cs dst a b t)
  then show ?thesis using assms(1,2)
    by (auto simp del: step.simps cells_of_simps split: if_splits intro!: acts_mix)
next
  case (IntUnary op dst a)
  then show ?thesis using assms(1,2)
    by (auto simp del: step.simps cells_of_simps split: if_splits intro!: acts_int_unary)
next
  case (IntBinary op dst a b)
  then show ?thesis using assms(1,2)
    by (auto simp del: step.simps cells_of_simps split: if_splits intro!: acts_int_binary)
next
  case (IntToFloat dst a)
  then show ?thesis using assms(1,2)
    by (auto simp del: step.simps cells_of_simps split: if_splits intro!: acts_conversions(1))
next
  case (FloatToInt dst a)
  then show ?thesis using assms(1,2)
    by (auto simp del: step.simps cells_of_simps split: if_splits intro!: acts_conversions(2))
next
  case (Compare op bank dst a b)
  then show ?thesis using assms(1,2)
    by (auto simp del: step.simps cells_of_simps split: if_splits intro!: acts_same [OF step.simps(12)] acts_compare)
next
  case (ColorComponent op dst color)
  then show ?thesis using assms(1,2)
    by (auto simp del: step.simps cells_of_simps split: if_splits intro!: acts_colors(1))
next
  case (HsvColor dst h s v)
  then show ?thesis using assms(1,2)
    by (auto simp del: step.simps cells_of_simps split: if_splits intro!: acts_colors(2))
next
  case (Recolor shift dst color hue)
  then show ?thesis using assms(1,2)
    by (auto simp del: step.simps cells_of_simps split: if_splits intro!: acts_colors(3))
next
  case (Curve op dst curve v before)
  then show ?thesis using assms(1,2)
    by (auto simp del: step.simps cells_of_simps split: if_splits intro!: acts_same [OF step.simps(16)] acts_curve)
next
  case (Gradient dst gradient pos scale)
  then show ?thesis using assms(1,2)
    by (auto simp del: step.simps cells_of_simps split: if_splits intro!: acts_same [OF step.simps(17)] acts_gradient)
next
  case (Mark op dst marks x)
  then show ?thesis using assms
    by (auto simp del: step.simps cells_of_simps split: if_splits intro!: acts_same [OF step.simps(18)] acts_mark)
next
  case (Length kind dst res)
  then show ?thesis using assms(1,2)
    by (auto simp del: step.simps cells_of_simps split: if_splits intro!: acts_length)
next
  case (Index bank dst array index fallback)
  then show ?thesis using assms(1,2)
    by (auto simp del: step.simps cells_of_simps split: if_splits intro!: acts_same [OF step.simps(20)] acts_index)
next
  case (Select bank dst c y n)
  then show ?thesis using assms(1,2)
    by (auto simp del: step.simps cells_of_simps split: if_splits intro!: acts_same [OF step.simps(21)] acts_select)
next
  case (Move bank dst src)
  then show ?thesis using assms(1,2)
    by (auto simp del: step.simps cells_of_simps split: if_splits intro!: acts_same [OF step.simps(22)] acts_move)
next
  case (Section index dst wd)
  then show ?thesis using assms(1,2)
    by (auto simp del: step.simps cells_of_simps split: if_splits intro!: acts_same [OF step.simps(23)] acts_section)
next
  case (Read dst input pixel)
  then show ?thesis using assms(1,2)
    by (auto simp del: step.simps cells_of_simps split: if_splits intro!: acts_same [OF step.simps(24)] acts_sample)
next
  case (Lookup bank dst table index start)
  then show ?thesis using assms(1,2)
    by (auto simp del: step.simps cells_of_simps split: if_splits intro!: acts_same [OF step.simps(25)] acts_lookup dest: table_readable)
qed (use assms in simp_all)

end
