(* ===== verification/StripNesting.thy ===== *)
theory StripNesting
  imports StripFrames StripBlocks
begin

unbundle bit_operations_syntax

text \<open>
  Code that nests code keeps the contract of its parts: a branch runs each pixel's side, a table
  holds the same entries whichever pixels are selected, and what combines accumulators touches the
  contributing pixels alone.
\<close>

section \<open>Selections of one pixel\<close>

lemma sel_empty: "sel_ok s \<Longrightarrow> s = [] \<longleftrightarrow> pixels s = []"
  using sel_length [of s] by auto

lemma filter_alone:
  assumes "i < STRIP" "1 \<le> capacity"
  shows "filter_sel capacity (alone i) P = (if P i then alone i else [])"
proof -
  have up: "[i..<Suc i] = [i]" by simp
  show ?thesis using assms
    by (simp add: filter_sel_def alone_def range_sel_def range_runs_def range_pixels_def min_absorb1 up del: upt_Suc)
qed

lemma filter_pixels: "sel_ok sel \<Longrightarrow> pixels (filter_sel STRIP sel P) = filter P (pixels sel)"
  by (rule filter_sel_pixels) (use pixels_length [of sel] length_filter_le [of P "pixels sel"] in linarith)+

lemma other_pixels:
  "sel_ok sel \<Longrightarrow> pixels (filter_sel (STRIP - length (filter_sel STRIP sel P)) sel (\<lambda>i. \<not> P i)) = filter (\<lambda>i. \<not> P i) (pixels sel)"
  by (rule filter_sel_pixels) (use filter_both_fit [of sel P] in linarith)+

section \<open>Branches\<close>

definition row_cells :: "cell set \<Rightarrow> bool" where
  "row_cells M \<longleftrightarrow> (\<forall>c \<in> M. is_row_class (snd c))"

lemma masked_rows: "row_cells (masked_part C)"
  by (simp add: row_cells_def masked_part_def)

definition join :: "spoilt \<Rightarrow> spoilt \<Rightarrow> spoilt" where
  "join s t = (fst s \<union> fst t, snd s \<union> snd t)"

lemma weaker_join: "weaker s (join s t)" "weaker t (join s t)"
  by (auto simp: weaker_def join_def)

text \<open>What code for other pixels may spoil.\<close>

definition beside :: "spoilt \<Rightarrow> cell set \<Rightarrow> cell set \<Rightarrow> spoilt" where
  "beside s S M = (fst s \<union> S, snd s \<union> S \<union> M)"

lemma weaker_beside: "weaker s (beside s S M)"
  by (auto simp: weaker_def beside_def)

lemma agree_beside:
  "agree l s i a b \<Longrightarrow> kept l S M sel a a' \<Longrightarrow> i \<notin> set (pixels sel) \<Longrightarrow> i < STRIP \<Longrightarrow> row_cells M \<Longrightarrow>
    agree l (beside s S M) i a' b"
  unfolding beside_def row_cells_def by (rule agree_kept) auto

definition spoil_branch ::
  "cell \<Rightarrow> cell set \<Rightarrow> cell set \<Rightarrow> (spoilt \<Rightarrow> spoilt option) \<Rightarrow> cell set \<Rightarrow> cell set \<Rightarrow> (spoilt \<Rightarrow> spoilt option) \<Rightarrow>
   spoilt \<Rightarrow> spoilt option" where
  "spoil_branch k S1 M1 spoil1 S2 M2 spoil2 s =
     (if k \<in> fst s then None
      else if is_scalar_class (snd k) then do { t1 \<leftarrow> spoil1 s; t2 \<leftarrow> spoil2 s; Some (join t1 t2) }
      else do { t1 \<leftarrow> spoil1 s; t2 \<leftarrow> spoil2 (beside s S1 M1); Some (join (beside t1 S2 M2) t2) })"

lemma alone_weaker:
  assumes "acts l S M spoil f" "sel_ok sel" "i \<in> set (pixels sel)" "agree l s i a a2" "spoil s = Some t"
    "f sel levels a = Some b" "weaker t u"
  shows "\<exists>b2. f (alone i) levels a2 = Some b2 \<and> agree l u i b b2"
  using acts_alone [OF assms(1-6)] agree_weaker [OF _ assms(7)] by metis

text \<open>The two sides of a selection, one after the other.\<close>

definition both_sides :: "(nat \<Rightarrow> bool) \<Rightarrow> action \<Rightarrow> action \<Rightarrow> action" where
  "both_sides P run_then run_else sel levels ws =
     (let holding = filter_sel STRIP sel P;
          failing = filter_sel (STRIP - length holding) sel (\<lambda>i. \<not> P i)
      in if failing = [] then run_then sel levels ws
         else if holding = [] then run_else sel levels ws
         else do { ws \<leftarrow> run_then holding levels ws; run_else failing levels ws })"

lemma both_sides_kept:
  assumes f: "acts l S1 M1 spoil1 run_then" and g: "acts l S2 M2 spoil2 run_else"
    and "sel_ok sel" "layout a = l" "both_sides P run_then run_else sel levels a = Some b"
  shows "kept l (S1 \<union> S2) (M1 \<union> M2) sel a b"
proof -
  let ?holding = "filter_sel STRIP sel P"
  let ?failing = "filter_sel (STRIP - length ?holding) sel (\<lambda>i. \<not> P i)"
  have sub: "set (pixels ?holding) \<subseteq> set (pixels sel)" "set (pixels ?failing) \<subseteq> set (pixels sel)"
    by (simp_all add: filter_pixels other_pixels assms(3))
  have ok: "sel_ok ?holding" "sel_ok ?failing" using assms(3) by (simp_all add: filter_sel_ok)
  have then_kept: "kept l (S1 \<union> S2) (M1 \<union> M2) sel a c" if "run_then s levels a = Some c" "sel_ok s"
      "set (pixels s) \<subseteq> set (pixels sel)" for s c
    using kept_more [OF acts_kept [OF f that(2) assms(4) that(1)]] that(3) by blast
  have else_kept: "kept l (S1 \<union> S2) (M1 \<union> M2) sel c d" if "run_else s levels c = Some d" "sel_ok s" "layout c = l"
      "set (pixels s) \<subseteq> set (pixels sel)" for s c d
    using kept_more [OF acts_kept [OF g that(2,3,1)]] that(4) by blast
  consider "?failing = []" | "?failing \<noteq> []" "?holding = []" | "?failing \<noteq> []" "?holding \<noteq> []" by blast
  then show ?thesis
  proof cases
    case 1
    then show ?thesis using assms(3,5) then_kept by (simp add: both_sides_def Let_def)
  next
    case 2
    then show ?thesis using assms(3-5) else_kept by (simp add: both_sides_def Let_def)
  next
    case 3
    then obtain c where c: "run_then ?holding levels a = Some c" "run_else ?failing levels c = Some b"
      using assms(5) by (auto simp: both_sides_def Let_def bind_eq_Some_conv)
    have "kept l (S1 \<union> S2) (M1 \<union> M2) sel a c" using then_kept [OF c(1) ok(1) sub(1)] .
    moreover have "kept l (S1 \<union> S2) (M1 \<union> M2) sel c b"
      using else_kept [OF c(2) ok(2) kept_layout [OF calculation] sub(2)] .
    ultimately show ?thesis by (rule kept_trans)
  qed
qed

lemma both_sides_alone:
  assumes f: "acts l S1 M1 spoil1 run_then" and g: "acts l S2 M2 spoil2 run_else"
    and rows: "row_cells M1" "row_cells M2" and sel: "sel_ok sel" "i \<in> set (pixels sel)" and agree: "agree l s i a a2"
    and spoil: "spoil1 s = Some t1" "spoil2 (beside s S1 M1) = Some t2"
    and same: "P i = P' i" and run: "both_sides P run_then run_else sel levels a = Some b"
  shows "\<exists>b2. both_sides P' run_then run_else (alone i) levels a2 = Some b2 \<and> agree l (join (beside t1 S2 M2) t2) i b b2"
proof -
  let ?holding = "filter_sel STRIP sel P"
  let ?failing = "filter_sel (STRIP - length ?holding) sel (\<lambda>i. \<not> P i)"
  have i: "i < STRIP" using sel(2) pixels_below by blast
  have la: "layout a = l" using agree_layout [OF agree] by simp
  have alone: "both_sides P' run_then run_else (alone i) levels a2 =
      (if P i then run_then (alone i) levels a2 else run_else (alone i) levels a2)"
    using filter_alone [OF i] i same by (simp add: both_sides_def Let_def STRIP_def alone_def range_sel_def)
  have ok: "sel_ok ?holding" "sel_ok ?failing" using sel(1) by (simp_all add: filter_sel_ok)
  have px: "pixels ?holding = filter P (pixels sel)" "pixels ?failing = filter (\<lambda>i. \<not> P i) (pixels sel)"
    by (simp_all add: filter_pixels other_pixels sel(1))
  have le: "weaker t1 (join (beside t1 S2 M2) t2)" "weaker t2 (join (beside t1 S2 M2) t2)"
    "weaker (beside t1 S2 M2) (join (beside t1 S2 M2) t2)"
    using weaker_join weaker_trans [OF weaker_beside] by blast+
  show ?thesis
  proof (cases "P i")
    case True
    then have in_holding: "i \<in> set (pixels ?holding)" using sel(2) px by simp
    then have "?holding \<noteq> []" by auto
    show ?thesis
    proof (cases "?failing = []")
      case True
      then have "run_then sel levels a = Some b" using run by (simp add: both_sides_def Let_def)
      from alone_weaker [OF f sel agree spoil(1) this le(1)] show ?thesis using alone \<open>P i\<close> by simp
    next
      case False
      then obtain c where c: "run_then ?holding levels a = Some c" "run_else ?failing levels c = Some b"
        using run \<open>?holding \<noteq> []\<close> by (auto simp: both_sides_def Let_def bind_eq_Some_conv)
      from acts_alone [OF f ok(1) in_holding agree spoil(1) c(1)] obtain c2
        where c2: "run_then (alone i) levels a2 = Some c2" "agree l t1 i c c2" .
      have "kept l S2 M2 ?failing c b"
        using acts_kept [OF g ok(2) agree_layout(1) [OF c2(2)] c(2)] .
      from agree_beside [OF c2(2) this _ i rows(2)] have "agree l (beside t1 S2 M2) i b c2"
        using \<open>P i\<close> px by simp
      then show ?thesis using alone \<open>P i\<close> agree_weaker [OF _ le(3)] c2(1) by auto
    qed
  next
    case False
    then have in_failing: "i \<in> set (pixels ?failing)" using sel(2) px by simp
    then have "?failing \<noteq> []" by auto
    show ?thesis
    proof (cases "?holding = []")
      case True
      then have "run_else sel levels a = Some b" using run \<open>?failing \<noteq> []\<close> by (simp add: both_sides_def Let_def)
      from alone_weaker [OF g sel agree_weaker [OF agree weaker_beside] spoil(2) this le(2)] show ?thesis
        using alone \<open>\<not> P i\<close> by simp
    next
      case False
      then obtain c where c: "run_then ?holding levels a = Some c" "run_else ?failing levels c = Some b"
        using run \<open>?failing \<noteq> []\<close> by (auto simp: both_sides_def Let_def bind_eq_Some_conv)
      have "kept l S1 M1 ?holding a c" using acts_kept [OF f ok(1) la c(1)] .
      from agree_beside [OF agree this _ i rows(1)] have "agree l (beside s S1 M1) i c a2"
        using \<open>\<not> P i\<close> px by simp
      from alone_weaker [OF g ok(2) in_failing this spoil(2) c(2) le(2)] show ?thesis
        using alone \<open>\<not> P i\<close> by simp
    qed
  qed
qed

lemma acts_branch:
  assumes k: "readable l (BBool, slot_kind condition)"
    and f: "acts l S1 M1 spoil1 run_then" and g: "acts l S2 M2 spoil2 run_else"
    and rows: "row_cells M1" "row_cells M2"
  shows "acts l (S1 \<union> S2) (M1 \<union> M2) (spoil_branch (BBool, slot_kind condition) S1 M1 spoil1 S2 M2 spoil2)
    (\<lambda>sel levels ws. strip_branch condition run_then run_else sel levels ws)"
proof -
  let ?k = "(BBool, slot_kind condition)"
  let ?F = "\<lambda>c sel levels ws. if src_is_scalar c then
        (if src_at c ws 0 then run_then sel levels ws else run_else sel levels ws)
      else case levels of
        0 \<Rightarrow> None
      | Suc inner \<Rightarrow>
          let holding = filter_sel STRIP sel (\<lambda>i. src_row c ws i);
              failing = filter_sel (STRIP - length holding) sel (\<lambda>i. \<not> src_row c ws i)
          in if failing = [] then run_then sel inner ws
             else if holding = [] then run_else sel inner ws
             else do { ws \<leftarrow> run_then holding inner ws; run_else failing inner ws }"
  have "acts l (S1 \<union> S2) (M1 \<union> M2) (spoil_branch ?k S1 M1 spoil1 S2 M2 spoil2) (?F c)"
    if c: "reads l ?k c" for c
  proof (cases "src_is_scalar c")
    case True
    then have scalar: "is_scalar_class (snd ?k)" using reads_scalar [OF c] by simp
    show ?thesis
    proof (rule actsI)
      fix sel levels a b assume "sel_ok sel" "layout a = l" "?F c sel levels a = Some b"
      then show "kept l (S1 \<union> S2) (M1 \<union> M2) sel a b"
        using acts_kept [OF f] acts_kept [OF g] kept_more [of l S1 M1 sel a b "S1 \<union> S2" "M1 \<union> M2" sel]
          kept_more [of l S2 M2 sel a b "S1 \<union> S2" "M1 \<union> M2" sel]
        by (cases "src_at c a 0") (simp_all add: True sup.coboundedI1)
    next
      fix sel levels a b i s t a2
      assume *: "sel_ok sel" "i \<in> set (pixels sel)" "agree l s i a a2"
        and spoil: "spoil_branch ?k S1 M1 spoil1 S2 M2 spoil2 s = Some t" and run: "?F c sel levels a = Some b"
      have i: "i < STRIP" using *(2) pixels_below by blast
      obtain t1 t2 where t: "spoil1 s = Some t1" "spoil2 s = Some t2" "t = join t1 t2" and k: "?k \<notin> fst s"
        using spoil scalar by (auto simp: spoil_branch_def bind_eq_Some_conv split: if_splits)
      have same: "src_at c a 0 = src_at c a2 0"
        using reads_onlyD [OF reads_src [OF c] i _ *(3), of 0] k scalar by (simp add: all_scalar_def STRIP_def)
      show "\<exists>b2. ?F c (alone i) levels a2 = Some b2 \<and> agree l t i b b2"
      proof (cases "src_at c a 0")
        case True
        then have "run_then sel levels a = Some b" using run \<open>src_is_scalar c\<close> by simp
        from acts_alone [OF f *(1-3) t(1) this] obtain b2
          where "run_then (alone i) levels a2 = Some b2" "agree l t1 i b b2" .
        then show ?thesis using agree_weaker weaker_join(1) \<open>src_is_scalar c\<close> same True by (auto simp: t(3))
      next
        case False
        then have "run_else sel levels a = Some b" using run \<open>src_is_scalar c\<close> by simp
        from acts_alone [OF g *(1-3) t(2) this] obtain b2
          where "run_else (alone i) levels a2 = Some b2" "agree l t2 i b b2" .
        then show ?thesis using agree_weaker weaker_join(2) \<open>src_is_scalar c\<close> same False by (auto simp: t(3))
      qed
    qed
  next
    case False
    have row: "is_row_class (snd ?k)"
      using False reads_scalar [OF c] k by (cases "slot_kind condition")
        (auto simp: readable_def writable_def class_fits_def split: prod.splits)
    have at: "src_row c w j = src_at c w j" if "j < STRIP" for w j using reads_row [OF c False that] .
    let ?side = "\<lambda>sel inner ws. both_sides (src_row c ws) run_then run_else sel inner ws"
    have F: "?F c sel levels ws = (case levels of 0 \<Rightarrow> None | Suc inner \<Rightarrow> ?side sel inner ws)" for sel levels ws
      using False by (cases levels) (simp_all add: both_sides_def)
    show ?thesis
    proof (rule actsI)
      fix sel levels a b assume *: "sel_ok sel" "layout a = l" "?F c sel levels a = Some b"
      then obtain inner where "?side sel inner a = Some b" unfolding F by (cases levels) simp_all
      from both_sides_kept [OF f g *(1,2) this] show "kept l (S1 \<union> S2) (M1 \<union> M2) sel a b" .
    next
      fix sel levels a b i s t a2
      assume *: "sel_ok sel" "i \<in> set (pixels sel)" "agree l s i a a2"
        and spoil: "spoil_branch ?k S1 M1 spoil1 S2 M2 spoil2 s = Some t" and run: "?F c sel levels a = Some b"
      have i: "i < STRIP" using *(2) pixels_below by blast
      obtain t1 t2 where t: "spoil1 s = Some t1" "spoil2 (beside s S1 M1) = Some t2" "t = join (beside t1 S2 M2) t2"
        and unspoilt: "?k \<notin> fst s"
        using spoil row by (cases "slot_kind condition") (auto simp: spoil_branch_def bind_eq_Some_conv split: if_splits)
      have "src_at c a i = src_at c a2 i" using reads_onlyD [OF reads_src [OF c] i i *(3)] unspoilt by simp
      then have same: "src_row c a i = src_row c a2 i" by (simp add: at i)
      obtain inner where inner: "levels = Suc inner" "?side sel inner a = Some b" using run unfolding F by (cases levels) simp_all
      from both_sides_alone [where P = "src_row c a" and P' = "src_row c a2", OF f g rows * t(1,2) same inner(2)]
      show "\<exists>b2. ?F c (alone i) levels a2 = Some b2 \<and> agree l t i b b2" unfolding F by (simp add: inner(1) t(3))
    qed
  qed
  from fetch_src(3) [OF k this] show ?thesis by (simp only: strip_branch_def)
qed

section \<open>Combining accumulators\<close>

lemma acts_pick_pure:
  assumes "writes l C d" "reads_only l R {} val" "shared_reads R C"
  shows "acts_on l R {} C (\<lambda>sel _ ws. pick_each sel d (\<lambda>ws i. pure (val ws i)) () ws)"
  by (rule acts_pick_each [where I = "\<lambda>_. True", OF assms(1) reads_mapped [where g = Some, OF assms(2)] assms(3)]) simp_all

lemma reads_pair:
  assumes "reads l ca a" "reads l cb b" "ca \<in> R" "cb \<in> R"
  shows "reads_only l R {} (\<lambda>ws i. f (src_at a ws i) (src_at b ws i))"
  by (rule reads_more [OF reads_both [where g = f, OF reads_src [OF assms(1)] reads_src [OF assms(2)]]])
    (use assms(3,4) in simp_all)

lemma reads_masked:
  assumes "reads l ck k" "reads l ca a" "reads l cb b" "ck \<in> R" "ca \<in> R" "cb \<in> R"
  shows "reads_only l R {} (\<lambda>ws i. f (src_at k ws i) (src_at a ws i) (src_at b ws i))"
  by (rule reads_more [OF reads_three [where g = f, OF reads_src [OF assms(1)] reads_src [OF assms(2)] reads_src [OF assms(3)]]])
    (use assms(4-6) in simp_all)

lemma acts_combine:
  assumes ok: "access_ok l (R, {}, cells_of bank acc)" and sub: "cells_of bank acc \<union> cells_of bank v \<subseteq> R"
  shows "acts_on l R {} (cells_of bank acc) (\<lambda>sel _ ws. strip_combine m r bank acc v sel ws)"
proof -
  note d = access_okD [OF ok]
  consider "bank = BInt" | "bank = BBool" | "bank = BResource" | "bank = BFloat \<or> bank = BColor"
    by (cases bank) auto
  then show ?thesis
  proof cases
    case 1
    show ?thesis
      by (rule acts_same [OF strip_combine_def])
        (use d sub 1 in \<open>auto intro!: fetch_src fetch_dst acts_map2\<close>)
  next
    case 2
    show ?thesis
      by (rule acts_same [OF strip_combine_def])
        (use d sub 2 in \<open>auto intro!: fetch_src fetch_dst acts_pick_pure reads_pair\<close>)
  next
    case 3
    show ?thesis
      by (rule acts_same [OF strip_combine_def], simp only: 3 bank.case, rule acts_move)
        (use ok sub 3 in auto)
  next
    case 4
    then have eq: "strip_combine m r bank acc v sel ws = loop (\<lambda>channel ws.
          do { d \<leftarrow> float_dst ws (slot_channel acc channel); a \<leftarrow> float_src ws (slot_channel acc channel);
               b \<leftarrow> float_src ws (slot_channel v channel);
               strip_map2 sel d a b (combine_float (m_arith m) r) ws }) (channels (bank_width bank)) ws" for sel ws
      by (auto simp: strip_combine_def)
    show ?thesis
    proof (rule acts_same [OF eq], rule acts_over_channels [OF ok bank_channels [OF 4]])
      fix k assume k: "k \<in> set (channels (bank_width bank))" "writable l (BFloat, slot_kind (slot_channel acc k))"
        "shared_reads R {(BFloat, slot_kind (slot_channel acc k))}"
      have "(BFloat, slot_kind (slot_channel acc k)) \<in> R" "(BFloat, slot_kind (slot_channel v k)) \<in> R"
        using bank_channel_in [OF 4 k(1)] sub by blast+
      then show "acts_on l R {} {(BFloat, slot_kind (slot_channel acc k))} (\<lambda>sel _ ws.
          do { d \<leftarrow> float_dst ws (slot_channel acc k); a \<leftarrow> float_src ws (slot_channel acc k);
               b \<leftarrow> float_src ws (slot_channel v k); strip_map2 sel d a b (combine_float (m_arith m) r) ws })"
        using k(2,3) d(3) by (intro fetch_dst(1) fetch_src(1)) (auto intro: acts_map2)
    qed simp
  qed
qed

lemma acts_combine_where:
  assumes ok: "access_ok l (R, {}, cells_of bank acc)" and bank: "bank \<noteq> BResource"
    and sub: "cells_of bank acc \<union> cells_of bank v \<union> cells_of BBool msk \<subseteq> R"
  shows "acts_on l R {} (cells_of bank acc) (\<lambda>sel _ ws. combine_where m r bank acc v msk sel ws)"
proof (rule acts_same [OF combine_where_def], rule fetch_src(3))
  note d = access_okD [OF ok]
  show "readable l (BBool, slot_kind msk)" using d(3) sub by simp
  fix k :: "bool src" assume k: "reads l (BBool, slot_kind msk) k"
  have in_R: "(BBool, slot_kind msk) \<in> R" using sub by simp
  consider "bank = BInt" | "bank = BBool" | "bank = BFloat \<or> bank = BColor" using bank by (cases bank) auto
  then show "acts_on l R {} (cells_of bank acc) (\<lambda>sel levels ws. case bank of
            BInt \<Rightarrow> do { d \<leftarrow> int_dst ws acc; a \<leftarrow> int_src ws acc; b \<leftarrow> int_src ws v;
              pick_each sel d (\<lambda>ws i. pure (strip_choose (src_at k ws i)
                (combine_int r (src_at a ws i) (src_at b ws i)) (src_at a ws i))) () ws }
          | BBool \<Rightarrow> do { a \<leftarrow> bool_src ws acc; b \<leftarrow> bool_src ws v; d \<leftarrow> bool_dst ws acc;
              pick_each sel d (\<lambda>ws i. pure (if r = RedAny then src_at a ws i \<or> (src_at k ws i \<and> src_at b ws i)
                else src_at a ws i \<and> (\<not> src_at k ws i \<or> src_at b ws i))) () ws }
          | _ \<Rightarrow> loop (\<lambda>channel ws.
              do { d \<leftarrow> float_dst ws (slot_channel acc channel); a \<leftarrow> float_src ws (slot_channel acc channel);
                   b \<leftarrow> float_src ws (slot_channel v channel);
                   pick_each sel d (\<lambda>ws i. pure (strip_choose (src_at k ws i)
                     (combine_float (m_arith m) r (src_at a ws i) (src_at b ws i)) (src_at a ws i))) () ws })
              (channels (bank_width bank)) ws)"
  proof cases
    case 1
    then show ?thesis using d sub in_R k
      by (auto intro!: fetch_src fetch_dst acts_pick_pure
          reads_masked [where f = "\<lambda>k a b. strip_choose k (combine_int r a b) a"])
  next
    case 2
    then show ?thesis using d sub in_R k
      by (auto intro!: fetch_src fetch_dst acts_pick_pure
          reads_masked [where f = "\<lambda>k a b. if r = RedAny then a \<or> (k \<and> b) else a \<and> (\<not> k \<or> b)"])
  next
    case 3
    have "acts_on l R {} (cells_of bank acc) (\<lambda>sel levels ws. loop (\<lambda>channel ws.
              do { d \<leftarrow> float_dst ws (slot_channel acc channel); a \<leftarrow> float_src ws (slot_channel acc channel);
                   b \<leftarrow> float_src ws (slot_channel v channel);
                   pick_each sel d (\<lambda>ws i. pure (strip_choose (src_at k ws i)
                     (combine_float (m_arith m) r (src_at a ws i) (src_at b ws i)) (src_at a ws i))) () ws })
              (channels (bank_width bank)) ws)"
    proof (rule acts_over_channels [OF ok bank_channels [OF 3]])
      fix c assume c: "c \<in> set (channels (bank_width bank))" "writable l (BFloat, slot_kind (slot_channel acc c))"
        "shared_reads R {(BFloat, slot_kind (slot_channel acc c))}"
      have "(BFloat, slot_kind (slot_channel acc c)) \<in> R" "(BFloat, slot_kind (slot_channel v c)) \<in> R"
        using bank_channel_in [OF 3 c(1)] sub by blast+
      then show "acts_on l R {} {(BFloat, slot_kind (slot_channel acc c))} (\<lambda>sel _ ws.
          do { d \<leftarrow> float_dst ws (slot_channel acc c); a \<leftarrow> float_src ws (slot_channel acc c);
               b \<leftarrow> float_src ws (slot_channel v c);
               pick_each sel d (\<lambda>ws i. pure (strip_choose (src_at k ws i)
                 (combine_float (m_arith m) r (src_at a ws i) (src_at b ws i)) (src_at a ws i))) () ws })"
        using c(2,3) d(3) in_R k by (intro fetch_dst(1) fetch_src(1))
          (auto intro!: acts_pick_pure reads_masked [where f = "\<lambda>k a b. strip_choose k (combine_float (m_arith m) r a b) a"])
    qed simp
    then show ?thesis using 3 by auto
  qed
qed

end
