(* ===== verification/StripTables.thy ===== *)
theory StripTables
  imports StripNesting
begin

unbundle bit_operations_syntax

text \<open>
  Tables: the body runs for the same pixels at every index, and each entry goes to a row at the
  position of its index. Whatever pixels are selected, the entries are the same.
\<close>

lemma agree_put:
  assumes "agree l s i a b" "puts_cells l C out p j" "i < STRIP"
  shows "agree l s i (p v a) (p v b)"
proof -
  have la: "layout a = l" "layout b = l" using agree_layout [OF assms(1)] by simp_all
  note get = puts_get [OF assms(2) la(1)] puts_get [OF assms(2) la(2)]
  have "cell_get (p v a) c i = cell_get (p v b) c i" if "readable l c" "c \<notin> fst s" for c
    by (simp only: get [OF that(1) assms(3)] agree_get [OF assms(1) that])
  moreover have "cell_get (p v a) c x = cell_get (p v b) c x"
    if "readable l c" "c \<notin> snd s" "is_row_class (snd c)" "x < STRIP" for c x
    by (simp only: get [OF that(1,4)] agree_row [OF assms(1) that])
  ultimately show ?thesis
    using puts_layout [OF assms(2)] la unfolding agree_def by blast
qed

lemma agree_set:
  assumes "agree l s i a b" "puts_cells l C out p 0" "all_scalar C" "i < STRIP"
  shows "agree l (fst s - C, snd s) i (p v a) (p v b)"
proof -
  have "\<not> is_row_class (snd c)" if "c \<in> C" for c
    using that assms(3) by (cases "snd c") (auto simp: all_scalar_def)
  then show ?thesis using assms(1,2,4) unfolding agree_def puts_cells_def by auto
qed

lemma kept_put: "puts_cells l C out p j \<Longrightarrow> layout a = l \<Longrightarrow> kept l C {} sel a (p v a)"
  unfolding kept_def puts_cells_def by auto

text \<open>The index of an iteration, written to its scalar.\<close>

lemma set_scalar_puts:
  assumes "writes l {c} d" "is_scalar_class (snd c)"
  obtains put out where "d = One put" "puts_cells l {c} out put 0"
  using writes_kind(2) [OF assms] writes_puts(1) [of l c] assms(1) by blast

lemma set_scalar_agree:
  assumes d: "writes l {c} d" "is_scalar_class (snd c)" and agree: "agree l s i a b" "i < STRIP"
  shows "agree l (fst s - {c}, snd s) i (set_scalar d v a) (set_scalar d v b)"
proof -
  obtain put out where put: "d = One put" "puts_cells l {c} out put 0" using set_scalar_puts [OF d] .
  show ?thesis using agree_set [OF agree(1) put(2) _ agree(2)] d(2) by (simp add: put(1) set_scalar_def all_scalar_def)
qed

lemma set_scalar_kept:
  assumes d: "writes l {c} d" "is_scalar_class (snd c)" and "layout a = l"
  shows "kept l {c} {} sel a (set_scalar d v a)"
proof -
  obtain put out where put: "d = One put" "puts_cells l {c} out put 0" using set_scalar_puts [OF d] .
  show ?thesis using kept_put [OF put(2) assms(3)] by (simp add: put(1) set_scalar_def)
qed

section \<open>Entries\<close>

lemma entry_put:
  assumes d: "writes l {kd} d" "is_row_class (snd kd)" and agree: "agree l s i a a2" "i < STRIP" and "j < STRIP" "x = y"
  shows "\<exists>put. d = Many put \<and> agree l s i (put j x a) (put j y a2) \<and> kept l {kd} {} sel a (put j x a)"
proof -
  obtain put where put: "d = Many put" using writes_kind(1) [OF d] by blast
  then obtain out where "puts_cells l {kd} out (put j) j" using writes_puts(2) [of l kd put] d(1) assms(5) by blast
  from agree_put [OF agree(1) this agree(2), of x] kept_put [OF this agree_layout(1) [OF agree(1)], of sel x]
  show ?thesis using assms(6) put by simp
qed

lemma row_entry:
  assumes "reads l kd row" "is_row_class (snd kd)" "agree l s i a a2" "kd \<notin> snd s" "k < STRIP"
  shows "src_row row a k = src_row row a2 k"
proof -
  have many: "\<not> src_is_scalar row" using assms(2) reads_scalar [OF assms(1)] by (cases "snd kd") simp_all
  have "cell_get a kd k = cell_get a2 kd k"
    using agree_row [OF assms(3) _ assms(4,2,5)] assms(1) by (simp add: reads_def)
  then have "src_at row a k = src_at row a2 k"
    by (intro reads_eq [OF assms(1) agree_layout [OF assms(3)]]) (simp add: and_MASK assms(5))
  then show ?thesis using reads_row [OF assms(1) many assms(5)] by simp
qed

lemma first_value:
  assumes "reads l kv v" "is_scalar_class (snd kv)" "agree l s i a a2" "kv \<notin> fst s" "i < STRIP"
  shows "src_at v a 0 = src_at v a2 0"
  using reads_onlyD [OF reads_src [OF assms(1)] assms(5) _ assms(3), of 0] assms(2,4)
  by (simp add: all_scalar_def STRIP_def)

definition shift_of :: "bool \<Rightarrow> nat" where
  "shift_of prefix = (if prefix then 1 else 0)"

lemma table_entry_agree:
  assumes bank: "bank \<in> table_banks" and d: "writable l (bank, slot_kind dst)" "is_row_class (slot_kind dst)"
    and v: "readable l (bank, slot_kind v)" "is_scalar_class (slot_kind v)" and k: "k + shift_of prefix < STRIP"
    and "\<not> (prefix \<and> bank = BBool)"
    and agree: "agree l s i a a2" "i < STRIP" and unspoilt: "(bank, slot_kind dst) \<notin> snd s" "(bank, slot_kind v) \<notin> fst s"
    and run: "table_entry m bank prefix dst v k a = Some b"
  shows "\<exists>b2. table_entry m bank prefix dst v k a2 = Some b2 \<and> agree l s i b b2 \<and> kept l {(bank, slot_kind dst)} {} sel a b"
proof -
  let ?kd = "(bank, slot_kind dst)" and ?kv = "(bank, slot_kind v)"
  have la: "layout a = l" "layout a2 = l" using agree_layout [OF agree(1)] by simp_all
  have rd: "readable l ?kd" using d(1) by (simp add: readable_def)
  have ks: "k < STRIP" "k + 1 < STRIP \<or> \<not> prefix" using k by (auto simp: shift_of_def split: if_splits)
  consider "bank = BInt" | "bank = BBool" | "bank = BFloat" using bank by (auto simp: table_banks_def)
  then show ?thesis
  proof cases
    case 1
    obtain dd where dd: "int_dst a dst = Some dd" using run 1 by (auto simp: table_entry_def bind_eq_Some_conv)
    have w: "writes l {?kd} dd" using dst_writes(2) [OF dd] d(1) la(1) 1 by simp
    obtain put where put: "dd = Many put" using writes_kind(1) [OF w] d(2) by auto
    obtain row val where src: "int_src a dst = Some row" "int_src a v = Some val"
      using run 1 dd put by (auto simp: table_entry_def bind_eq_Some_conv)
    have reads: "reads l ?kd row" "reads l ?kv val" using int_src_reads [OF src(1)] int_src_reads [OF src(2)] rd v(1) la(1) 1 by simp_all
    have src2: "int_dst a2 dst = Some dd" "int_src a2 dst = Some row" "int_src a2 v = Some val"
      using dd src dst_layout(2) [of a2 a] src_layout(2) [of a2 a] la by simp_all
    let ?x = "\<lambda>w. (if prefix then src_row row w k else 0) + src_at val w 0"
    have "?x a = ?x a2"
      using row_entry [OF reads(1) _ agree(1) unspoilt(1) ks(1)] first_value [OF reads(2) _ agree(1) unspoilt(2) agree(2)] d(2) v(2) by simp
    from entry_put [OF w _ agree _ this, of "k + shift_of prefix" sel] show ?thesis
      using run 1 dd put src src2 d(2) k by (auto simp: table_entry_def shift_of_def)
  next
    case 2
    then have prefix: "\<not> prefix" using assms(7) by blast
    obtain dd where dd: "bool_dst a dst = Some dd" using run 2 by (auto simp: table_entry_def bind_eq_Some_conv)
    have w: "writes l {?kd} dd" using dst_writes(3) [OF dd] d(1) la(1) 2 by simp
    obtain put where put: "dd = Many put" using writes_kind(1) [OF w] d(2) by auto
    obtain val where src: "bool_src a v = Some val"
      using run 2 dd put by (auto simp: table_entry_def bind_eq_Some_conv)
    have reads: "reads l ?kv val" using bool_src_reads [OF src] v(1) la(1) 2 by simp
    have src2: "bool_dst a2 dst = Some dd" "bool_src a2 v = Some val"
      using dd src dst_layout(3) [of a2 a] src_layout(3) [of a2 a] la by simp_all
    have "src_at val a 0 = src_at val a2 0"
      using first_value [OF reads _ agree(1) unspoilt(2) agree(2)] v(2) by simp
    from entry_put [OF w _ agree _ this, of k sel] show ?thesis
      using run 2 dd put src src2 d(2) k prefix by (auto simp: table_entry_def shift_of_def)
  next
    case 3
    obtain dd where dd: "float_dst a dst = Some dd" using run 3 by (auto simp: table_entry_def bind_eq_Some_conv)
    have w: "writes l {?kd} dd" using dst_writes(1) [OF dd] d(1) la(1) 3 by simp
    obtain put where put: "dd = Many put" using writes_kind(1) [OF w] d(2) by auto
    obtain row val where src: "float_src a dst = Some row" "float_src a v = Some val"
      using run 3 dd put by (auto simp: table_entry_def bind_eq_Some_conv)
    have reads: "reads l ?kd row" "reads l ?kv val" using float_src_reads [OF src(1)] float_src_reads [OF src(2)] rd v(1) la(1) 3 by simp_all
    have src2: "float_dst a2 dst = Some dd" "float_src a2 dst = Some row" "float_src a2 v = Some val"
      using dd src dst_layout(1) [of a2 a] src_layout(1) [of a2 a] la by simp_all
    let ?x = "\<lambda>w. add (m_arith m) (if prefix then src_row row w k else 0) (src_at val w 0)"
    have "?x a = ?x a2"
      using row_entry [OF reads(1) _ agree(1) unspoilt(1) ks(1)] first_value [OF reads(2) _ agree(1) unspoilt(2) agree(2)] d(2) v(2) by simp
    from entry_put [OF w _ agree _ this, of "k + shift_of prefix" sel] show ?thesis
      using run 3 dd put src src2 d(2) k by (auto simp: table_entry_def shift_of_def)
  qed
qed

section \<open>The loop over a table's indices\<close>

text \<open>
  A loop whose iterations keep a frame and an agreement keeps them; each iteration answers alone when
  it answers for the strip.
\<close>

lemma loop_agrees:
  assumes one: "\<And>k a b a2. k \<in> set ks \<Longrightarrow> layout a = l \<Longrightarrow> agree l s i a a2 \<Longrightarrow> f k a = Some b \<Longrightarrow>
      \<exists>b2. g k a2 = Some b2 \<and> agree l s i b b2"
    and "agree l s i a a2" "loop f ks a = Some b"
  shows "\<exists>b2. loop g ks a2 = Some b2 \<and> agree l s i b b2"
  using assms
proof (induction ks arbitrary: a a2)
  case (Cons k ks)
  obtain c where c: "f k a = Some c" "loop f ks c = Some b" using Cons.prems(3) by (auto simp: bind_eq_Some_conv)
  obtain c2 where c2: "g k a2 = Some c2" "agree l s i c c2"
    using Cons.prems(1) [of k a a2 c] Cons.prems(2) c(1) agree_layout(1) by auto
  then show ?case using Cons.IH [OF _ c2(2) c(2)] Cons.prems(1) by simp
qed simp

lemma loop_keeps:
  assumes one: "\<And>k a b. k \<in> set ks \<Longrightarrow> layout a = l \<Longrightarrow> f k a = Some b \<Longrightarrow> kept l S M sel a b"
    and "layout a = l" "loop f ks a = Some b"
  shows "kept l S M sel a b"
  using assms
proof (induction ks arbitrary: a)
  case (Cons k ks)
  obtain c where c: "f k a = Some c" "loop f ks c = Some b" using Cons.prems(3) by (auto simp: bind_eq_Some_conv)
  have "kept l S M sel a c" using Cons.prems(1) [of k a c] Cons.prems(2) c(1) by simp
  moreover have "kept l S M sel c b"
    by (rule Cons.IH [OF _ kept_layout [OF calculation] c(2)]) (use Cons.prems(1) in auto)
  ultimately show ?case by (rule kept_trans)
qed (simp add: kept_refl)

definition table_ok :: "layout \<Rightarrow> bank \<Rightarrow> bool \<Rightarrow> slot \<Rightarrow> slot \<Rightarrow> slot \<Rightarrow> slot \<Rightarrow> slot \<Rightarrow> bool" where
  "table_ok l bank prefix dst index start stop v \<longleftrightarrow>
     bank \<in> table_banks \<and> \<not> (prefix \<and> bank = BBool) \<and>
     writable l (bank, slot_kind dst) \<and> is_row_class (slot_kind dst) \<and>
     writable l (BInt, slot_kind index) \<and> is_scalar_class (slot_kind index) \<and>
     readable l (BInt, slot_kind start) \<and> is_scalar_class (slot_kind start) \<and>
     readable l (BInt, slot_kind stop) \<and> is_scalar_class (slot_kind stop) \<and>
     readable l (bank, slot_kind v) \<and> is_scalar_class (slot_kind v)"

definition loop_start :: "cell \<Rightarrow> cell set \<Rightarrow> cell set \<Rightarrow> spoilt \<Rightarrow> spoilt" where
  "loop_start ki S M s = (fst s \<union> S \<union> M \<union> {ki}, snd s \<union> S \<union> M \<union> {ki})"

definition spoil_tabulate ::
  "cell \<Rightarrow> cell set \<Rightarrow> cell \<Rightarrow> cell \<Rightarrow> cell set \<Rightarrow> cell set \<Rightarrow> (spoilt \<Rightarrow> spoilt option) \<Rightarrow> spoilt \<Rightarrow> spoilt option" where
  "spoil_tabulate ki bounds kv kd S M spoil s =
     (let s0 = loop_start ki S M s in
      if bounds \<inter> fst s = {} \<and> kd \<notin> fst s0 \<union> snd s0
      then do { t \<leftarrow> spoil (fst s0 - {ki}, snd s0);
                if weaker t s0 \<and> kv \<notin> fst t then Some s0 else None }
      else None)"

lemma set_first_agree:
  assumes "writes l {kd} d" "is_row_class (snd kd)" "agree l s i a a2" "i < STRIP"
  shows "agree l s i (set_first d v a) (set_first d v a2) \<and> kept l {kd} {} sel a (set_first d v a)"
  using entry_put [OF assms, of 0 v v sel] by (auto simp: set_first_def STRIP_def)

definition start_table :: "bank \<Rightarrow> bool \<Rightarrow> slot \<Rightarrow> workspace \<Rightarrow> workspace option" where
  "start_table bank prefix dst ws =
     (if \<not> prefix then Some ws
      else case bank of
        BInt \<Rightarrow> do { d \<leftarrow> int_dst ws dst; Some (set_first d 0 ws) }
      | _ \<Rightarrow> do { d \<leftarrow> float_dst ws dst; Some (set_first d 0 ws) })"

lemma start_table_agree:
  assumes ok: "bank \<in> table_banks" "\<not> (prefix \<and> bank = BBool)" "writable l (bank, slot_kind dst)" "is_row_class (slot_kind dst)"
    and agree: "agree l s i a a2" "i < STRIP" and run: "start_table bank prefix dst a = Some b"
  shows "\<exists>b2. start_table bank prefix dst a2 = Some b2 \<and> agree l s i b b2 \<and> kept l {(bank, slot_kind dst)} {} sel a b"
proof -
  have la: "layout a = l" "layout a2 = l" using agree_layout [OF agree(1)] by simp_all
  consider "\<not> prefix" | "prefix" "bank = BInt" | "prefix" "bank = BFloat"
    using ok(1,2) by (auto simp: table_banks_def)
  then show ?thesis
  proof cases
    case 1
    then show ?thesis using run agree(1) kept_refl [OF la(1)] by (simp add: start_table_def)
  next
    case 2
    then obtain d where d: "int_dst a dst = Some d" using run by (auto simp: start_table_def bind_eq_Some_conv)
    have "writes l {(bank, slot_kind dst)} d" using dst_writes(2) [OF d] ok(3) la(1) 2 by simp
    from set_first_agree [OF this _ agree, of 0 sel] show ?thesis
      using 2 run d dst_layout(2) [of a2 a dst] la ok(4) by (auto simp: start_table_def)
  next
    case 3
    then obtain d where d: "float_dst a dst = Some d" using run by (auto simp: start_table_def bind_eq_Some_conv)
    have "writes l {(bank, slot_kind dst)} d" using dst_writes(1) [OF d] ok(3) la(1) 3 by simp
    from set_first_agree [OF this _ agree, of 0 sel] show ?thesis
      using 3 run d dst_layout(1) [of a2 a dst] la ok(4) by (auto simp: start_table_def)
  qed
qed

lemma kept_frame: "kept l S M sel a b \<Longrightarrow> S \<subseteq> S' \<Longrightarrow> M \<subseteq> M' \<union> S' \<Longrightarrow> kept l S' M' sel a b"
  by (rule kept_more) auto

definition table_step ::
  "machine \<Rightarrow> bank \<Rightarrow> bool \<Rightarrow> slot \<Rightarrow> slot \<Rightarrow> i32 dst \<Rightarrow> i32 \<Rightarrow> runner \<Rightarrow> selection \<Rightarrow> nat \<Rightarrow> nat \<Rightarrow> workspace \<Rightarrow> workspace option" where
  "table_step m bank prefix dst v index start body sel levels k ws =
     do { ws \<leftarrow> body sel levels (set_scalar index (start + of_nat k) ws);
          table_entry m bank prefix dst v k ws }"

lemma strip_tabulate_steps:
  "strip_tabulate m bank prefix dst index start stop v body sel levels ws =
     do { start \<leftarrow> int_src ws start; stop \<leftarrow> int_src ws stop; index \<leftarrow> int_dst ws index;
          w \<leftarrow> start_table bank prefix dst ws;
          loop (table_step m bank prefix dst v index (src_at start ws 0) body sel levels)
            [0..<min (nat (sint (src_at stop ws 0) - sint (src_at start ws 0))) (STRIP - shift_of prefix)] w }"
  by (simp add: strip_tabulate_def start_table_def table_step_def [abs_def] shift_of_def Let_def)

lemma table_step_kept:
  assumes ok: "table_ok l bank prefix dst index start stop v" and body: "acts l S M spoil body"
    and d: "writes l {(BInt, slot_kind index)} d" and sel: "sel_ok sel" and k: "k + shift_of prefix < STRIP"
    and run: "layout a = l" "table_step m bank prefix dst v d x body sel levels k a = Some b"
  shows "kept l (S \<union> {(BInt, slot_kind index), (bank, slot_kind dst)}) M sel a b"
proof -
  obtain c where c: "body sel levels (set_scalar d (x + of_nat k) a) = Some c" "table_entry m bank prefix dst v k c = Some b"
    using run(2) by (auto simp: table_step_def bind_eq_Some_conv)
  have k1: "kept l {(BInt, slot_kind index)} {} sel a (set_scalar d (x + of_nat k) a)"
    using set_scalar_kept [OF d _ run(1)] ok by (simp add: table_ok_def)
  have k2: "kept l S M sel (set_scalar d (x + of_nat k) a) c" using acts_kept [OF body sel kept_layout [OF k1] c(1)] .
  have "agree l ({}, {}) 0 c c" using kept_layout [OF k2] by (simp add: agree_def)
  then have k3: "kept l {(bank, slot_kind dst)} {} sel c b"
    using table_entry_agree [of bank l dst v k prefix "({}, {})" 0 c c m b sel] ok k c(2) by (auto simp: table_ok_def STRIP_def)
  have "kept l (S \<union> {(BInt, slot_kind index), (bank, slot_kind dst)}) M sel a (set_scalar d (x + of_nat k) a)"
    by (rule kept_frame [OF k1]) auto
  also have "kept l (S \<union> {(BInt, slot_kind index), (bank, slot_kind dst)}) M sel (set_scalar d (x + of_nat k) a) c"
    by (rule kept_frame [OF k2]) auto
  finally (kept_trans) have "kept l (S \<union> {(BInt, slot_kind index), (bank, slot_kind dst)}) M sel a c" .
  from kept_trans [OF this kept_frame [OF k3]] show ?thesis by auto
qed

lemma table_step_alone:
  assumes ok: "table_ok l bank prefix dst index start stop v" and body: "acts l S M spoil body"
    and d: "writes l {(BInt, slot_kind index)} d" and sel: "sel_ok sel" "i \<in> set (pixels sel)"
    and k: "k + shift_of prefix < STRIP" and agree: "agree l s i a a2"
    and t: "spoil (fst s - {(BInt, slot_kind index)}, snd s) = Some t" "weaker t s"
    and unspoilt: "(bank, slot_kind dst) \<notin> snd s" "(bank, slot_kind v) \<notin> fst t"
    and run: "table_step m bank prefix dst v d x body sel levels k a = Some b"
  shows "\<exists>b2. table_step m bank prefix dst v d x body (alone i) levels k a2 = Some b2 \<and> agree l s i b b2"
proof -
  have i: "i < STRIP" using sel(2) pixels_below by blast
  obtain c where c: "body sel levels (set_scalar d (x + of_nat k) a) = Some c" "table_entry m bank prefix dst v k c = Some b"
    using run by (auto simp: table_step_def bind_eq_Some_conv)
  have "agree l (fst s - {(BInt, slot_kind index)}, snd s) i (set_scalar d (x + of_nat k) a) (set_scalar d (x + of_nat k) a2)"
    using set_scalar_agree [OF d _ agree i] ok by (simp add: table_ok_def)
  from acts_alone [OF body sel this t(1) c(1)] obtain c2
    where c2: "body (alone i) levels (set_scalar d (x + of_nat k) a2) = Some c2" "agree l t i c c2" .
  have "(bank, slot_kind dst) \<notin> snd t" using t(2) unspoilt(1) by (auto simp: weaker_def)
  then obtain b2 where "table_entry m bank prefix dst v k c2 = Some b2" "agree l t i b b2"
    using table_entry_agree [of bank l dst v k prefix t i c c2 m b] ok k c2(2) i unspoilt(2) c(2) by (auto simp: table_ok_def)
  then show ?thesis using agree_weaker t(2) c2(1) by (auto simp: table_step_def)
qed

lemma spoil_tabulateD:
  assumes "spoil_tabulate ki bounds kv kd S M spoil s = Some t"
  shows "t = loop_start ki S M s" "bounds \<inter> fst s = {}" "kd \<notin> snd t"
    "\<exists>u. spoil (fst t - {ki}, snd t) = Some u \<and> weaker u t \<and> kv \<notin> fst u"
  using assms by (auto simp: spoil_tabulate_def Let_def bind_eq_Some_conv split: if_splits)

lemma acts_tabulate:
  assumes ok: "table_ok l bank prefix dst index start stop v" and body: "acts l S M spoil body"
  shows "acts l (S \<union> {(BInt, slot_kind index), (bank, slot_kind dst)}) M
    (spoil_tabulate (BInt, slot_kind index) {(BInt, slot_kind start), (BInt, slot_kind stop)}
       (bank, slot_kind v) (bank, slot_kind dst) S M spoil)
    (\<lambda>sel levels ws. strip_tabulate m bank prefix dst index start stop v body sel levels ws)"
    (is "acts l ?S M ?spoil ?run")
proof (rule actsI)
  fix sel levels a b assume *: "sel_ok sel" "layout a = l" "?run sel levels a = Some b"
  obtain st sp d w where run: "int_dst a index = Some d" "start_table bank prefix dst a = Some w"
      "int_src a start = Some st" "int_src a stop = Some sp"
      "loop (table_step m bank prefix dst v d (src_at st a 0) body sel levels)
        [0..<min (nat (sint (src_at sp a 0) - sint (src_at st a 0))) (STRIP - shift_of prefix)] w = Some b"
    using *(3) by (auto simp: strip_tabulate_steps bind_eq_Some_conv)
  have d: "writes l {(BInt, slot_kind index)} d" using dst_writes(2) [OF run(1)] ok *(2) by (simp add: table_ok_def)
  have "agree l ({}, {}) 0 a a" using *(2) by (simp add: agree_def)
  then have first: "kept l {(bank, slot_kind dst)} {} sel a w"
    using start_table_agree [of bank prefix l dst "({}, {})" 0 a a w sel] ok run(2) by (auto simp: table_ok_def STRIP_def)
  have "kept l ?S M sel w b"
    by (rule loop_keeps [OF _ kept_layout [OF first] run(5)]) (rule table_step_kept [OF ok body d *(1)], auto)
  from kept_trans [OF kept_frame [OF first] this] show "kept l ?S M sel a b" by auto
next
  fix sel levels a b i s t a2
  assume *: "sel_ok sel" "i \<in> set (pixels sel)" "agree l s i a a2" "?spoil s = Some t" "?run sel levels a = Some b"
  have i: "i < STRIP" using *(2) pixels_below by blast
  note t = spoil_tabulateD [OF *(4)]
  obtain u where u: "spoil (fst t - {(BInt, slot_kind index)}, snd t) = Some u" "weaker u t" "(bank, slot_kind v) \<notin> fst u"
    using t(4) by blast
  have la: "layout a = l" "layout a2 = l" using agree_layout [OF *(3)] by simp_all
  have start: "agree l t i a a2" by (rule agree_weaker [OF *(3)]) (auto simp: t(1) loop_start_def weaker_def)
  obtain st sp d w where run: "int_src a start = Some st" "int_src a stop = Some sp" "int_dst a index = Some d"
      "start_table bank prefix dst a = Some w"
      "loop (table_step m bank prefix dst v d (src_at st a 0) body sel levels)
        [0..<min (nat (sint (src_at sp a 0) - sint (src_at st a 0))) (STRIP - shift_of prefix)] w = Some b"
    using *(5) by (auto simp: strip_tabulate_steps bind_eq_Some_conv)
  have d: "writes l {(BInt, slot_kind index)} d" using dst_writes(2) [OF run(3)] ok la(1) by (simp add: table_ok_def)
  have reads: "reads l (BInt, slot_kind start) st" "reads l (BInt, slot_kind stop) sp"
    using int_src_reads [OF run(1)] int_src_reads [OF run(2)] ok la(1) by (simp_all add: table_ok_def)
  have same: "src_at st a 0 = src_at st a2 0" "src_at sp a 0 = src_at sp a2 0"
    using first_value [OF reads(1) _ *(3) _ i] first_value [OF reads(2) _ *(3) _ i] ok t(2) by (auto simp: table_ok_def)
  obtain w2 where w2: "start_table bank prefix dst a2 = Some w2" "agree l t i w w2"
    using start_table_agree [of bank prefix l dst t i a a2 w] ok start i run(4) by (auto simp: table_ok_def)
  let ?ks = "[0..<min (nat (sint (src_at sp a 0) - sint (src_at st a 0))) (STRIP - shift_of prefix)]"
  have "\<exists>b2. loop (table_step m bank prefix dst v d (src_at st a 0) body (alone i) levels) ?ks w2 = Some b2 \<and> agree l t i b b2"
    by (rule loop_agrees [OF _ w2(2) run(5)]) (rule table_step_alone [OF ok body d *(1,2)]; use u t(3) in auto)
  then show "\<exists>b2. ?run (alone i) levels a2 = Some b2 \<and> agree l t i b b2"
    using run(1-3) w2(1) same la src_layout(2) [of a2 a] dst_layout(2) [of a2 a]
    by (simp add: strip_tabulate_steps)
qed

end
