(* ===== verification/StripReduce.thy ===== *)
theory StripReduce
  imports StripTables
begin

unbundle bit_operations_syntax

text \<open>
  Reductions: what their loops read and write, and what may be spoilt when a pixel's own loop is
  compared with the strip's; the loop for a scalar accumulator.
\<close>

section \<open>Other pixels\<close>

lemma agree_other:
  assumes "agree l s i a b" "kept l S M sel a a'" "i \<notin> set (pixels sel)" "i < STRIP"
    and "S \<subseteq> fst s \<inter> snd s" "M \<subseteq> snd s" "row_cells M"
  shows "agree l s i a' b"
proof -
  have la: "layout a' = l" "layout b = l" using kept_layout [OF assms(2)] agree_layout(2) [OF assms(1)] by simp_all
  have "cell_get a' c i = cell_get b c i" if "readable l c" "c \<notin> fst s" for c
  proof -
    have "cell_get a' c i = cell_get a c i"
      using assms(2-5,7) that unfolding kept_def row_cells_def by blast
    then show ?thesis using agree_get [OF assms(1) that] by simp
  qed
  moreover have "cell_get a' c j = cell_get b c j"
    if "readable l c" "c \<notin> snd s" "is_row_class (snd c)" "j < STRIP" for c j
  proof -
    have "cell_get a' c j = cell_get a c j" using assms(2,5,6) that unfolding kept_def by blast
    then show ?thesis using agree_row [OF assms(1) that] by simp
  qed
  ultimately show ?thesis using la unfolding agree_def by blast
qed

section \<open>What a reduction touches\<close>

definition index_cell :: "reduction \<Rightarrow> cell" where
  "index_cell r = (BInt, slot_kind (red_index r))"

definition bound_cells :: "reduction \<Rightarrow> cell set" where
  "bound_cells r = {(BInt, slot_kind (red_start r)), (BInt, slot_kind (red_end r))}"

definition acc_cells :: "reduction \<Rightarrow> cell set" where
  "acc_cells r = cells_of (red_bank r) (red_acc r)"

definition value_cells :: "reduction \<Rightarrow> cell set" where
  "value_cells r = cells_of (red_bank r) (red_value r)"

definition filter_cells :: "reduction \<Rightarrow> cell set" where
  "filter_cells r = (if slot_is_none (red_filter r) then {} else {(BBool, slot_kind (red_filter r))})"

definition takes_early :: "reduction \<Rightarrow> bool" where
  "takes_early r \<longleftrightarrow> red_reducer r = RedFirst \<or> red_reducer r = RedLast"

definition decides_bool :: "reduction \<Rightarrow> bool" where
  "decides_bool r \<longleftrightarrow> red_reducer r = RedAny \<or> red_reducer r = RedAll"

text \<open>
  The slots of a reduction a compiler emits: a scalar accumulator has a scalar loop; \<open>any\<close> and
  \<open>all\<close> over rows end for the strip when every pixel is decided, so their pixels go through the
  same iterations.
\<close>

definition reduce_ok :: "layout \<Rightarrow> reduction \<Rightarrow> bool \<Rightarrow> bool" where
  "reduce_ok l r masked \<longleftrightarrow>
     writable l (index_cell r) \<and> (\<forall>c \<in> bound_cells r. readable l c) \<and>
     access_ok l (acc_cells r \<union> value_cells r \<union> filter_cells r, {}, acc_cells r) \<and>
     (decides_bool r \<longrightarrow> red_bank r = BBool) \<and>
     (if slot_is_scalar (red_acc r)
      then all_scalar (insert (index_cell r) (bound_cells r) \<union> acc_cells r)
      else all_rows (acc_cells r) \<and>
        (decides_bool r \<longrightarrow> all_scalar (bound_cells r) \<and> (slot_is_none (red_filter r) \<or> masked)) \<and>
        (masked \<longrightarrow> takes_early r \<or> red_bank r \<noteq> BResource))"

definition reduce_start :: "reduction \<Rightarrow> cell set \<Rightarrow> cell set \<Rightarrow> spoilt \<Rightarrow> spoilt" where
  "reduce_start r S M s =
     (fst s \<union> S \<union> M \<union> {index_cell r}, snd s \<union> S \<union> M \<union> {index_cell r} \<union> masked_part (acc_cells r))"

definition reduce_fits ::
  "reduction \<Rightarrow> bool \<Rightarrow> cell set \<Rightarrow> cell set \<Rightarrow> (spoilt \<Rightarrow> spoilt option) \<Rightarrow> (spoilt \<Rightarrow> spoilt option) \<Rightarrow>
   spoilt \<Rightarrow> spoilt \<Rightarrow> spoilt \<Rightarrow> bool" where
  "reduce_fits r masked S M spoil1 spoil2 s t1 t2 \<longleftrightarrow>
     S \<union> M \<union> {index_cell r} \<subseteq> fst s \<inter> snd s \<and> masked_part (acc_cells r) \<subseteq> snd s \<and>
     (acc_cells r \<union> bound_cells r) \<inter> fst s = {} \<and> acc_cells r \<inter> bound_cells r = {} \<and>
     spoil1 (fst s - {index_cell r}, snd s) = Some t1 \<and> filter_cells r \<inter> fst t1 = {} \<and>
     spoil2 t1 = Some t2 \<and> value_cells r \<inter> fst t2 = {} \<and> (masked \<longrightarrow> value_cells r \<inter> fst t1 = {}) \<and>
     weaker t1 s \<and> weaker t2 s"

definition spoil_reduce ::
  "reduction \<Rightarrow> bool \<Rightarrow> cell set \<Rightarrow> cell set \<Rightarrow> (spoilt \<Rightarrow> spoilt option) \<Rightarrow> (spoilt \<Rightarrow> spoilt option) \<Rightarrow>
   spoilt \<Rightarrow> spoilt option" where
  "spoil_reduce r masked S M spoil1 spoil2 s =
     (let s0 = reduce_start r S M s in
      do { t1 \<leftarrow> spoil1 (fst s0 - {index_cell r}, snd s0); t2 \<leftarrow> spoil2 t1;
           if reduce_fits r masked S M spoil1 spoil2 s0 t1 t2 then Some s0 else None })"

lemma spoil_reduceD:
  assumes "spoil_reduce r masked S M spoil1 spoil2 s = Some t"
  shows "weaker s t" "\<exists>t1 t2. reduce_fits r masked S M spoil1 spoil2 t t1 t2"
  using assms by (auto simp: spoil_reduce_def Let_def bind_eq_Some_conv reduce_start_def weaker_def split: if_splits)

lemma fitsD:
  assumes "reduce_fits r masked S M spoil1 spoil2 s t1 t2"
  shows "spoil1 (fst s - {index_cell r}, snd s) = Some t1" "spoil2 t1 = Some t2" "weaker t1 s" "weaker t2 s"
    "filter_cells r \<inter> fst t1 = {}" "value_cells r \<inter> fst t2 = {}" "acc_cells r \<inter> fst s = {}" "bound_cells r \<inter> fst s = {}"
    "S \<union> M \<union> {index_cell r} \<subseteq> fst s \<inter> snd s" "masked_part (acc_cells r) \<subseteq> snd s" "masked \<Longrightarrow> value_cells r \<inter> fst t1 = {}"
    "acc_cells r \<inter> bound_cells r = {}"
  using assms by (auto simp: reduce_fits_def)

lemma reduce_okD:
  assumes "reduce_ok l r masked"
  shows "writable l (index_cell r)" "\<And>c. c \<in> bound_cells r \<Longrightarrow> readable l c"
    "access_ok l (acc_cells r \<union> value_cells r, {}, acc_cells r)"
    "access_ok l (acc_cells r \<union> value_cells r \<union> filter_cells r, {}, acc_cells r)"
    "\<And>c. c \<in> acc_cells r \<union> value_cells r \<union> filter_cells r \<Longrightarrow> readable l c"
    "decides_bool r \<Longrightarrow> red_bank r = BBool"
  using assms by (auto simp: reduce_ok_def access_ok_def shared_reads_def all_scalar_def)

text \<open>The accumulator combined, or replaced.\<close>

lemma acc_action:
  assumes "acts_on l R {} (acc_cells r) f" "R \<inter> fst t = {}" "sel_ok sel" "layout a = l" "f sel levels a = Some b"
  shows "kept l (shared_part (acc_cells r)) (masked_part (acc_cells r)) sel a b"
    "i \<in> set (pixels sel) \<Longrightarrow> agree l t i a a2 \<Longrightarrow> weaker t s \<Longrightarrow> masked_part (acc_cells r) \<subseteq> snd s \<Longrightarrow>
      \<exists>b2. f (alone i) levels a2 = Some b2 \<and> agree l s i b b2"
proof -
  show "kept l (shared_part (acc_cells r)) (masked_part (acc_cells r)) sel a b"
    using acts_kept [OF assms(1,3-5)] .
  assume *: "i \<in> set (pixels sel)" "agree l t i a a2" "weaker t s" "masked_part (acc_cells r) \<subseteq> snd s"
  have "spoil_write R {} (acc_cells r) t = Some (fst t - acc_cells r, snd t \<union> masked_part (acc_cells r))"
    using assms(2) by (simp add: spoil_write_def)
  from alone_weaker [OF assms(1,3) *(1,2) this assms(5), of s]
  show "\<exists>b2. f (alone i) levels a2 = Some b2 \<and> agree l s i b b2" using *(3,4) by (auto simp: weaker_def)
qed

section \<open>A scalar accumulator\<close>

lemma scalar_value:
  assumes "bool_src a x = Some c" "readable l (BBool, slot_kind x)" "is_scalar_class (slot_kind x)"
    and "agree l s i a a2" "(BBool, slot_kind x) \<notin> fst s" "i < STRIP"
  shows "bool_src a2 x = Some c \<and> src_at c a 0 = src_at c a2 0"
proof -
  have la: "layout a = l" "layout a2 = l" using agree_layout [OF assms(4)] by simp_all
  have "reads l (BBool, slot_kind x) c" using bool_src_reads [OF assms(1)] assms(2) la by simp
  from first_value [OF this _ assms(4) _ assms(6)] show ?thesis
    using assms(1,3,5) src_layout(3) [of a2 a x] la by simp
qed

lemma first_decision:
  assumes "decides (red_reducer r) (red_value r) a = Some d" "decides_bool r \<Longrightarrow> value_cells r = {(BBool, slot_kind (red_value r))}"
    and "\<And>c. c \<in> value_cells r \<Longrightarrow> readable l c" "all_scalar (value_cells r)"
    and "agree l s i a a2" "value_cells r \<inter> fst s = {}" "i < STRIP"
  shows "\<exists>d2. decides (red_reducer r) (red_value r) a2 = Some d2 \<and> d2 0 = d 0"
proof -
  note v = scalar_value [of a "red_value r" _ l s i a2]
  show ?thesis
    using assms v by (cases "red_reducer r") (auto simp: decides_def decides_bool_def all_scalar_def bind_eq_Some_conv)
qed

text \<open>One iteration for a scalar accumulator: the index, the loop's code, the filter, the rest.\<close>

definition scalar_rest ::
  "machine \<Rightarrow> reduction \<Rightarrow> runner \<Rightarrow> selection \<Rightarrow> nat \<Rightarrow> workspace \<Rightarrow> (bool \<times> workspace) option" where
  "scalar_rest m r contribute sel levels ws =
     do { ws \<leftarrow> contribute sel levels ws;
          if red_reducer r \<notin> {RedAny, RedAll, RedFirst, RedLast}
          then do { ws \<leftarrow> strip_combine m (red_reducer r) (red_bank r) (red_acc r) (red_value r) sel ws;
                    Some (False, ws) }
          else do { d \<leftarrow> decides (red_reducer r) (red_value r) ws;
                    if d 0 then do { ws \<leftarrow> strip_assign (red_bank r) (red_acc r) (red_value r) sel ws; Some (True, ws) }
                    else Some (False, ws) } }"

definition filter_holds :: "reduction \<Rightarrow> workspace \<Rightarrow> bool option" where
  "filter_holds r ws =
     (if slot_is_none (red_filter r) then Some True
      else do { f \<leftarrow> bool_src ws (red_filter r); Some (src_at f ws 0) })"

lemma scalar_iteration_parts:
  "scalar_iteration m r start stop index run_loop contribute sel levels k ws =
     do { ws \<leftarrow> run_loop sel levels (set_scalar index (index_at (red_reducer r) start stop ws 0 k) ws);
          keep \<leftarrow> filter_holds r ws;
          if keep then scalar_rest m r contribute sel levels ws else Some (False, ws) }"
proof -
  have "(if \<not> keep then x else y) = (if keep then y else x)" for keep and x y :: "(bool \<times> workspace) option" by simp
  then show ?thesis by (simp only: scalar_iteration_def filter_holds_def scalar_rest_def)
qed

lemma acts_acc:
  assumes ok: "reduce_ok l r masked"
  shows "acts_on l (acc_cells r \<union> value_cells r) {} (acc_cells r)
      (\<lambda>sel _ ws. strip_combine m c (red_bank r) (red_acc r) (red_value r) sel ws)"
    "acts_on l (acc_cells r \<union> value_cells r) {} (acc_cells r)
      (\<lambda>sel _ ws. strip_assign (red_bank r) (red_acc r) (red_value r) sel ws)"
  using reduce_okD(3) [OF ok] unfolding acc_cells_def value_cells_def
  by (auto intro: acts_combine acts_move)

lemma fits_values:
  assumes "reduce_fits r masked S M spoil1 spoil2 s t1 t2"
  shows "(acc_cells r \<union> value_cells r) \<inter> fst t2 = {}"
  using fitsD(4,6,7) [OF assms] by (auto simp: weaker_def)

lemma acc_frame:
  assumes "kept l (shared_part (acc_cells r)) (masked_part (acc_cells r)) sel a b"
    "shared_part (acc_cells r) \<subseteq> U" "masked_part (acc_cells r) \<subseteq> W"
  shows "kept l U W sel a b"
  by (rule kept_frame [OF assms(1,2)]) (use assms(3) in auto)

lemma scalar_rest_kept:
  assumes ok: "reduce_ok l r masked" and g: "acts l S2 M2 spoil2 contribute"
    and sub: "S2 \<union> shared_part (acc_cells r) \<subseteq> U" "M2 \<union> masked_part (acc_cells r) \<subseteq> W"
    and "sel_ok sel" "layout a = l" "scalar_rest m r contribute sel levels a = Some (over, b)"
  shows "kept l U W sel a b"
proof -
  obtain c where c: "contribute sel levels a = Some c"
    "b = c \<or> strip_combine m (red_reducer r) (red_bank r) (red_acc r) (red_value r) sel c = Some b \<or>
     strip_assign (red_bank r) (red_acc r) (red_value r) sel c = Some b"
    using assms(7) by (auto simp: scalar_rest_def bind_eq_Some_conv split: if_splits)
  have k1: "kept l S2 M2 sel a c" using acts_kept [OF g assms(5,6) c(1)] .
  note parts = acts_kept [OF acts_acc(1) [OF ok, of m "red_reducer r"] assms(5) kept_layout [OF k1], of b]
    acts_kept [OF acts_acc(2) [OF ok] assms(5) kept_layout [OF k1], of b]
  have "kept l U W sel c b"
    using c(2) parts acc_frame [of l r sel c b U W] kept_refl [OF kept_layout [OF k1]] sub by auto
  moreover have "kept l U W sel a c" by (rule kept_frame [OF k1]) (use sub in auto)
  ultimately show ?thesis by (rule kept_trans [rotated])
qed

lemma decides_value:
  assumes ok: "reduce_ok l r masked" and "decides_bool r"
  shows "value_cells r = {(BBool, slot_kind (red_value r))}"
  using reduce_okD(6) [OF assms] by (simp add: value_cells_def)

lemma scalar_rest_alone:
  assumes ok: "reduce_ok l r masked" "slot_is_scalar (red_acc r)" and g: "acts l S2 M2 spoil2 contribute"
    and fits: "reduce_fits r masked S M spoil1 spoil2 s t1 t2"
    and sel: "sel_ok sel" "i \<in> set (pixels sel)" and agree: "agree l t1 i a a2"
    and run: "scalar_rest m r contribute sel levels a = Some (over, b)"
  shows "\<exists>b2. scalar_rest m r contribute (alone i) levels a2 = Some (over, b2) \<and> agree l s i b b2"
proof -
  have i: "i < STRIP" using sel(2) pixels_below by blast
  note fit = fitsD [OF fits]
  have scalars: "all_scalar (value_cells r)"
    using ok reduce_okD(4) [OF ok(1)] by (auto simp: reduce_ok_def access_ok_def shared_reads_def all_scalar_def)
  obtain c where c: "contribute sel levels a = Some c"
    "(if red_reducer r \<notin> {RedAny, RedAll, RedFirst, RedLast}
          then do { ws \<leftarrow> strip_combine m (red_reducer r) (red_bank r) (red_acc r) (red_value r) sel c;
                    Some (False, ws) }
          else do { d \<leftarrow> decides (red_reducer r) (red_value r) c;
                    if d 0 then do { ws \<leftarrow> strip_assign (red_bank r) (red_acc r) (red_value r) sel c; Some (True, ws) }
                    else Some (False, c) }) = Some (over, b)"
    using run by (auto simp: scalar_rest_def bind_eq_Some_conv)
  obtain c2 where c2: "contribute (alone i) levels a2 = Some c2" "agree l t2 i c c2"
    using acts_alone [OF g sel agree fit(2) c(1)] .
  have lc: "layout c = l" using agree_layout [OF c2(2)] by simp
  note act = acc_action(2) [OF acts_acc(1) [OF ok(1), of m "red_reducer r"] fits_values [OF fits] sel(1) lc _ sel(2) c2(2) fit(4,10), of b]
    acc_action(2) [OF acts_acc(2) [OF ok(1)] fits_values [OF fits] sel(1) lc _ sel(2) c2(2) fit(4,10), of b]
  show ?thesis
  proof (cases "red_reducer r \<notin> {RedAny, RedAll, RedFirst, RedLast}")
    case True
    then show ?thesis using c c2(1) act(1) by (auto simp: scalar_rest_def bind_eq_Some_conv)
  next
    case False
    then obtain d where d: "decides (red_reducer r) (red_value r) c = Some d"
      "(if d 0 then do { ws \<leftarrow> strip_assign (red_bank r) (red_acc r) (red_value r) sel c; Some (True, ws) }
        else Some (False, c)) = Some (over, b)" using c(2) by (auto simp: bind_eq_Some_conv)
    obtain d2 where d2: "decides (red_reducer r) (red_value r) c2 = Some d2" "d2 0 = d 0"
      using first_decision [OF d(1) decides_value [OF ok(1)] _ scalars c2(2) fit(6) i] reduce_okD(5) [OF ok(1)] by auto
    show ?thesis
    proof (cases "d 0")
      case True
      then show ?thesis using d(2) d2 c2(1) act(2) False by (auto simp: scalar_rest_def bind_eq_Some_conv)
    next
      case no: False
      then show ?thesis using d(2) d2 c2 agree_weaker [OF c2(2) fit(4)] False by (auto simp: scalar_rest_def)
    qed
  qed
qed

lemma scalar_iteration_alone:
  assumes ok: "reduce_ok l r masked" "slot_is_scalar (red_acc r)" and f: "acts l S1 M1 spoil1 run_loop"
    and g: "acts l S2 M2 spoil2 contribute" and fits: "reduce_fits r masked S M spoil1 spoil2 s t1 t2"
    and bounds: "reads l (BInt, slot_kind (red_start r)) start" "reads l (BInt, slot_kind (red_end r)) stop"
    and d: "writes l {index_cell r} index" and sel: "sel_ok sel" "i \<in> set (pixels sel)" and agree: "agree l s i a a2"
    and run: "scalar_iteration m r start stop index run_loop contribute sel levels k a = Some (over, b)"
  shows "\<exists>b2. scalar_iteration m r start stop index run_loop contribute (alone i) levels k a2 = Some (over, b2) \<and> agree l s i b b2"
proof -
  have i: "i < STRIP" using sel(2) pixels_below by blast
  note fit = fitsD [OF fits]
  have scalars: "is_scalar_class (snd (index_cell r))" "is_scalar_class (slot_kind (red_start r))"
    "is_scalar_class (slot_kind (red_end r))" "all_scalar (filter_cells r)"
    using ok reduce_okD(4) [OF ok(1)]
    by (auto simp: reduce_ok_def all_scalar_def bound_cells_def access_ok_def shared_reads_def)
  have "src_at start a 0 = src_at start a2 0" "src_at stop a 0 = src_at stop a2 0"
    using first_value [OF bounds(1) _ agree _ i] first_value [OF bounds(2) _ agree _ i] scalars fit(8)
    by (auto simp: bound_cells_def)
  then have x: "index_at (red_reducer r) start stop a2 0 k = index_at (red_reducer r) start stop a 0 k"
    by (simp add: index_at_def)
  let ?x = "index_at (red_reducer r) start stop a 0 k"
  obtain c keep where c: "run_loop sel levels (set_scalar index ?x a) = Some c" "filter_holds r c = Some keep"
    "(if keep then scalar_rest m r contribute sel levels c else Some (False, c)) = Some (over, b)"
    using run by (auto simp: scalar_iteration_parts bind_eq_Some_conv)
  obtain c2 where c2: "run_loop (alone i) levels (set_scalar index ?x a2) = Some c2" "agree l t1 i c c2"
    using acts_alone [OF f sel set_scalar_agree [OF d scalars(1) agree i] fit(1) c(1)] .
  have keep: "filter_holds r c2 = Some keep"
  proof (cases "slot_is_none (red_filter r)")
    case True
    then show ?thesis using c(2) by (simp add: filter_holds_def)
  next
    case False
    then obtain f where "bool_src c (red_filter r) = Some f" "keep = src_at f c 0"
      using c(2) by (auto simp: filter_holds_def bind_eq_Some_conv)
    then show ?thesis
      using False scalar_value [of c "red_filter r" f l t1 i c2] c2(2) i fit(5) scalars(4) reduce_okD(5) [OF ok(1)]
      by (auto simp: filter_holds_def filter_cells_def all_scalar_def)
  qed
  show ?thesis
  proof (cases keep)
    case True
    then have "scalar_rest m r contribute sel levels c = Some (over, b)" using c(3) by simp
    from scalar_rest_alone [OF ok g fits sel c2(2) this] show ?thesis
      using True keep c2(1) x by (simp add: scalar_iteration_parts)
  next
    case False
    then show ?thesis using c(3) keep c2 x agree_weaker [OF c2(2) fit(3)] by (simp add: scalar_iteration_parts)
  qed
qed

lemma scalar_iteration_kept:
  assumes ok: "reduce_ok l r masked" "slot_is_scalar (red_acc r)" and f: "acts l S1 M1 spoil1 run_loop"
    and g: "acts l S2 M2 spoil2 contribute" and d: "writes l {index_cell r} index"
    and sub: "S1 \<union> S2 \<union> {index_cell r} \<union> shared_part (acc_cells r) \<subseteq> U" "M1 \<union> M2 \<union> masked_part (acc_cells r) \<subseteq> W"
    and sel: "sel_ok sel" and "layout a = l"
    and run: "scalar_iteration m r start stop index run_loop contribute sel levels k a = Some (over, b)"
  shows "kept l U W sel a b"
proof -
  have scalar: "is_scalar_class (snd (index_cell r))" using ok by (auto simp: reduce_ok_def all_scalar_def)
  let ?x = "index_at (red_reducer r) start stop a 0 k"
  obtain c where c: "run_loop sel levels (set_scalar index ?x a) = Some c"
    "scalar_rest m r contribute sel levels c = Some (over, b) \<or> b = c"
    using run by (auto simp: scalar_iteration_parts bind_eq_Some_conv split: if_splits)
  note k1 = set_scalar_kept [OF d scalar assms(9), of sel ?x]
  note k2 = acts_kept [OF f sel kept_layout [OF k1] c(1)]
  have "kept l U W sel a (set_scalar index ?x a)" by (rule kept_frame [OF k1]) (use sub in auto)
  moreover have "kept l U W sel (set_scalar index ?x a) c" by (rule kept_frame [OF k2]) (use sub in auto)
  moreover have "kept l U W sel c b"
    using c(2) scalar_rest_kept [OF ok(1) g _ _ sel kept_layout [OF k2], of U W m levels over b] kept_refl [OF kept_layout [OF k2]] sub by auto
  ultimately show ?thesis using kept_trans by blast
qed

lemma scalar_loop_kept:
  assumes one: "\<And>k a b over. layout a = l \<Longrightarrow>
      scalar_iteration m r start stop index run_loop contribute sel levels k a = Some (over, b) \<Longrightarrow> kept l U W sel a b"
    and "layout a = l" "scalar_loop m r start stop index run_loop contribute sel levels ks a = Some b"
  shows "kept l U W sel a b"
  using assms(2,3)
proof (induction ks arbitrary: a)
  case (Cons k ks)
  obtain over c where c: "scalar_iteration m r start stop index run_loop contribute sel levels k a = Some (over, c)"
    "over \<and> b = c \<or> scalar_loop m r start stop index run_loop contribute sel levels ks c = Some b"
    using Cons.prems(2) by (auto simp: bind_eq_Some_conv split: if_splits)
  have "kept l U W sel a c" using one [OF Cons.prems(1) c(1)] .
  then show ?case using c(2) Cons.IH [OF kept_layout] kept_trans by blast
qed (simp add: kept_refl)

lemma scalar_loop_alone:
  assumes one: "\<And>k a b a2 over. agree l s i a a2 \<Longrightarrow>
      scalar_iteration m r start stop index run_loop contribute sel levels k a = Some (over, b) \<Longrightarrow>
      \<exists>b2. scalar_iteration m r start stop index run_loop contribute (alone i) levels k a2 = Some (over, b2) \<and> agree l s i b b2"
    and "agree l s i a a2" "scalar_loop m r start stop index run_loop contribute sel levels ks a = Some b"
  shows "\<exists>b2. scalar_loop m r start stop index run_loop contribute (alone i) levels ks a2 = Some b2 \<and> agree l s i b b2"
  using assms(2,3)
proof (induction ks arbitrary: a a2)
  case (Cons k ks)
  obtain over c where c: "scalar_iteration m r start stop index run_loop contribute sel levels k a = Some (over, c)"
    "(if over then Some c else scalar_loop m r start stop index run_loop contribute sel levels ks c) = Some b"
    using Cons.prems(2) by (auto simp: bind_eq_Some_conv)
  obtain c2 where c2: "scalar_iteration m r start stop index run_loop contribute (alone i) levels k a2 = Some (over, c2)" "agree l s i c c2"
    using one [OF Cons.prems(1) c(1)] by blast
  then show ?case using c(2) Cons.IH [OF c2(2)] by (cases over) simp_all
qed simp

end
