(* ===== verification/StripLanes.thy ===== *)
theory StripLanes
  imports StripReduce
begin

unbundle bit_operations_syntax

text \<open>
  Reductions into rows: the pixels that take part in an iteration, what an iteration leaves at one
  of them and at the others, and the loop of one pixel beside the loop of a strip.
\<close>

section \<open>The plan of a loop\<close>

definition plan_ok :: "reduction \<Rightarrow> bool \<Rightarrow> i32 src \<Rightarrow> i32 src \<Rightarrow> i32 dst \<Rightarrow> row_plan \<Rightarrow> bool" where
  "plan_ok r masked start stop index lp \<longleftrightarrow>
     loop_early lp = takes_early r \<and> loop_masked lp = masked \<and>
     loop_uniform lp = (src_is_scalar start \<and> src_is_scalar stop) \<and>
     loop_shared lp = (\<not> loop_uniform lp \<and> (case index of One _ \<Rightarrow> True | Many _ \<Rightarrow> False)) \<and>
     (masked \<longrightarrow> \<not> slot_is_none (red_filter r))"

section \<open>The indices of an iteration\<close>

definition same_index :: "reduction \<Rightarrow> row_plan \<Rightarrow> row_plan \<Rightarrow> i32 \<Rightarrow> i32 \<Rightarrow> bool" where
  "same_index r lp lp2 k k2 \<longleftrightarrow>
     loop_shared lp = loop_shared lp2 \<and> (if loop_shared lp then shared_at r lp k = shared_at r lp2 k2 else k = k2)"

lemma reads_index:
  assumes "reads l (BInt, slot_kind (red_start r)) start" "reads l (BInt, slot_kind (red_end r)) stop"
  shows "reads_only l (bound_cells r) {} (\<lambda>ws i. F (index_at c start stop ws i k))"
  using reads_pair [OF assms, of "bound_cells r" "\<lambda>x y. F (if c = RedLast then y - 1 - k else x + k)"]
  by (simp add: index_at_def bound_cells_def)

lemma set_indices_many:
  "index = Many put \<Longrightarrow> set_indices r lp start stop index sel k ws =
    dst_write sel index (\<lambda>ws i. Some (index_at (red_reducer r) start stop ws i k)) ws"
  by (simp add: set_indices_def dst_write_def)

lemma index_parts:
  "writes l {c} (One put) \<Longrightarrow> shared_part {c} = {c} \<and> masked_part {c} = {}"
  "writes l {c} (Many puts) \<Longrightarrow> shared_part {c} = {} \<and> masked_part {c} = {c}"
  by (cases "snd c"; auto simp: writes_def writes_cells_def shared_part_def masked_part_def)+

lemma many_acts:
  assumes bounds: "reads l (BInt, slot_kind (red_start r)) start" "reads l (BInt, slot_kind (red_end r)) stop"
    and d: "writes l {index_cell r} (Many put)"
  shows "acts_on l (bound_cells r) {} {index_cell r}
    (\<lambda>sel _ ws. dst_write sel (Many put) (\<lambda>ws i. Some (index_at (red_reducer r) start stop ws i k)) ws)"
proof (rule acts_write [OF d reads_index [OF bounds]])
  have "\<not> all_scalar {index_cell r}"
    using d by (cases "snd (index_cell r)") (auto simp: all_scalar_def writes_def writes_cells_def)
  then show "shared_reads (bound_cells r) {index_cell r}" by (simp add: shared_reads_def)
qed

lemma set_indices_kept:
  assumes bounds: "reads l (BInt, slot_kind (red_start r)) start" "reads l (BInt, slot_kind (red_end r)) stop"
    and d: "writes l {index_cell r} index" and sel: "sel_ok sel" "layout a = l"
    and run: "set_indices r lp start stop index sel k a = Some b"
  shows "kept l (shared_part {index_cell r}) (masked_part {index_cell r}) sel a b"
proof (cases index)
  case (One put)
  then obtain out where out: "puts_cells l {index_cell r} out put 0" using writes_puts(1) d by blast
  then show ?thesis
    using run One kept_put [OF out sel(2)] index_parts(1) [OF d [unfolded One]] by (auto simp: set_indices_def split: if_splits)
next
  case (Many put)
  then show ?thesis
    using acts_kept [OF many_acts [OF bounds] sel, of put k b] d run by (simp add: set_indices_many)
qed

lemma set_indices_alone:
  assumes bounds: "reads l (BInt, slot_kind (red_start r)) start" "reads l (BInt, slot_kind (red_end r)) stop"
    and d: "writes l {index_cell r} index" and plan: "plan_ok r masked start stop index lp"
    and same: "same_index r lp lp2 k k2" and unspoilt: "bound_cells r \<inter> fst s = {}" "index_cell r \<in> snd s"
    and sel: "sel_ok sel" "i \<in> set (pixels sel)" and agree: "agree l s i a a2"
    and run: "set_indices r lp start stop index sel k a = Some b"
  shows "\<exists>b2. set_indices r lp2 start stop index (alone i) k2 a2 = Some b2 \<and> agree l (fst s - {index_cell r}, snd s) i b b2"
proof -
  have i: "i < STRIP" using sel(2) pixels_below by blast
  show ?thesis
  proof (cases index)
    case (One put)
    then obtain out where out: "puts_cells l {index_cell r} out put 0" using writes_puts(1) d by blast
    have scalar: "all_scalar {index_cell r}" using writes_one d One by blast
    let ?x = "if loop_shared lp then shared_at r lp k else index_at (red_reducer r) start stop a 0 k"
    have "index_at (red_reducer r) start stop a 0 k = index_at (red_reducer r) start stop a2 0 k" if "\<not> loop_shared lp"
    proof -
      have "all_scalar (bound_cells r)" using that plan One reads_scalar [OF bounds(1)] reads_scalar [OF bounds(2)]
        by (auto simp: plan_ok_def all_scalar_def bound_cells_def)
      then show ?thesis
        using reads_onlyD [OF reads_index [where F = "\<lambda>x. x", OF bounds] i _ agree unspoilt(1), of 0] by (simp add: STRIP_def)
    qed
    then have "set_indices r lp2 start stop index (alone i) k2 a2 = Some (put ?x a2)" "b = put ?x a"
      using same run One by (auto simp: set_indices_def same_index_def split: if_splits)
    then show ?thesis using agree_set [OF agree out scalar i] by simp
  next
    case (Many put)
    then have "\<not> loop_shared lp" using plan by (auto simp: plan_ok_def)
    then have k: "k2 = k" using same by (simp add: same_index_def)
    have put_run: "dst_write sel (Many put) (\<lambda>ws i. Some (index_at (red_reducer r) start stop ws i k)) a = Some b"
      using run Many set_indices_many [OF refl] by simp
    have "spoil_write (bound_cells r) {} {index_cell r} s = Some (fst s - {index_cell r}, snd s \<union> masked_part {index_cell r})"
      using unspoilt by (simp add: spoil_write_def)
    moreover have "snd s \<union> masked_part {index_cell r} = snd s" using unspoilt(2) parts_subset by blast
    ultimately have spoil: "spoil_write (bound_cells r) {} {index_cell r} s = Some (fst s - {index_cell r}, snd s)" by simp
    from acts_alone [OF many_acts [OF bounds d [unfolded Many]] sel agree spoil put_run] obtain b2
      where "dst_write (alone i) (Many put) (\<lambda>ws i. Some (index_at (red_reducer r) start stop ws i k)) a2 = Some b2"
        "agree l (fst s - {index_cell r}, snd s) i b b2" .
    then show ?thesis using set_indices_many [OF Many, of r lp2] Many k by auto
  qed
qed

section \<open>The contributing pixels\<close>

definition row_tail ::
  "machine \<Rightarrow> reduction \<Rightarrow> row_plan \<Rightarrow> runner \<Rightarrow> selection \<Rightarrow> selection \<Rightarrow> nat \<Rightarrow> running \<Rightarrow> workspace \<Rightarrow>
   (bool \<times> running \<times> workspace) option" where
  "row_tail m r lp contribute sel contributing inner run ws =
     do { ws \<leftarrow> contribute contributing inner ws;
          if loop_early lp then settle r contributing run ws
          else do { ws \<leftarrow> strip_combine m (red_reducer r) (red_bank r) (red_acc r) (red_value r) contributing ws;
                    over \<leftarrow> decided_all r sel ws;
                    Some (over, run, ws) } }"

definition row_rest ::
  "machine \<Rightarrow> reduction \<Rightarrow> row_plan \<Rightarrow> runner \<Rightarrow> runner \<Rightarrow> selection \<Rightarrow> selection \<Rightarrow> nat \<Rightarrow> running \<Rightarrow> workspace \<Rightarrow>
   (bool \<times> running \<times> workspace) option" where
  "row_rest m r lp run_loop contribute sel participating inner run ws =
     do { ws \<leftarrow> run_loop participating inner ws;
          if \<not> loop_early lp \<and> loop_masked lp then
            do { ws \<leftarrow> combine_where m (red_reducer r) (red_bank r) (red_acc r) (red_value r) (red_filter r) participating ws;
                 over \<leftarrow> decided_all r sel ws;
                 Some (over, run, ws) }
          else do { contributing \<leftarrow> contributors r participating ws;
            if contributing = [] then Some (False, run, ws)
            else row_tail m r lp contribute sel contributing inner run ws } }"

lemma row_iteration_parts:
  "row_iteration m r lp start stop index run_loop contribute sel inner k run ws =
     (let participating = participants r lp start stop sel k (fst run) ws
      in if participating = [] then Some (False, run, ws)
         else do { ws \<leftarrow> set_indices r lp start stop index participating k ws;
                   row_rest m r lp run_loop contribute sel participating inner run ws })"
  by (simp only: row_iteration_def row_rest_def row_tail_def)

lemma decided_layout:
  assumes "decided_all r sel a = Some over" "layout a2 = layout a"
  shows "\<exists>over2. decided_all r sel2 a2 = Some over2"
  using assms src_layout(3) [OF assms(2), of "red_acc r"]
  by (auto simp: decided_all_def all_decided_def bind_eq_Some_conv split: if_splits)

lemma settle_early:
  assumes "takes_early r"
  shows "settle r contributing run ws =
     (let decided = filter_sel STRIP contributing (\<lambda>_. True);
          run = ((\<lambda>i. fst run i \<and> i \<notin> set (pixels decided)), snd run - length (pixels decided))
      in do { ws \<leftarrow> strip_assign (red_bank r) (red_acc r) (red_value r) decided ws; Some (snd run = 0, run, ws) })"
  using assms by (auto simp: settle_def decides_def takes_early_def)

lemma STRIP_room: "1 \<le> STRIP"
  by (simp add: STRIP_def)

lemma everything: "sel_ok s \<Longrightarrow> pixels (filter_sel STRIP s (\<lambda>_. True)) = pixels s"
  by (simp add: filter_pixels)

lemma row_acc:
  assumes "reduce_ok l r masked" "\<not> slot_is_scalar (red_acc r)"
  shows "shared_part (acc_cells r) = {}" "masked_part (acc_cells r) = acc_cells r" "row_cells (acc_cells r)"
proof -
  have "\<forall>c \<in> acc_cells r. is_row_class (snd c)" using assms by (auto simp: reduce_ok_def all_rows_def)
  then show "shared_part (acc_cells r) = {}" "masked_part (acc_cells r) = acc_cells r" "row_cells (acc_cells r)"
    by (auto simp: shared_part_def masked_part_def row_cells_def)
qed

lemma row_tail_kept:
  assumes ok: "reduce_ok l r masked" "\<not> slot_is_scalar (red_acc r)" and g: "acts l S2 M2 spoil2 contribute"
    and early: "loop_early lp = takes_early r" and sel: "sel_ok s" "layout a = l"
    and run: "row_tail m r lp contribute sel s inner run a = Some (over, run1, b)"
  shows "kept l S2 (M2 \<union> acc_cells r) s a b" "\<And>j. j \<notin> set (pixels s) \<Longrightarrow> fst run1 j = fst run j"
proof -
  obtain c where c: "contribute s inner a = Some c"
    "(if loop_early lp then settle r s run c
      else do { ws \<leftarrow> strip_combine m (red_reducer r) (red_bank r) (red_acc r) (red_value r) s c;
                over \<leftarrow> decided_all r sel ws; Some (over, run, ws) }) = Some (over, run1, b)"
    using run by (auto simp: row_tail_def bind_eq_Some_conv)
  note k1 = acts_kept [OF g sel c(1)]
  let ?s = "if loop_early lp then filter_sel STRIP s (\<lambda>_. True) else s"
  have s: "sel_ok ?s" "pixels ?s = pixels s" using sel(1) by (simp_all add: filter_sel_ok everything)
  have "strip_combine m (red_reducer r) (red_bank r) (red_acc r) (red_value r) ?s c = Some b \<or>
      strip_assign (red_bank r) (red_acc r) (red_value r) ?s c = Some b"
    using c(2) early by (auto simp: settle_early Let_def bind_eq_Some_conv split: if_splits)
  then have "kept l {} (acc_cells r) ?s c b"
    using acts_kept [OF acts_acc(1) [OF ok(1), of m "red_reducer r"] s(1) kept_layout [OF k1], of b]
      acts_kept [OF acts_acc(2) [OF ok(1)] s(1) kept_layout [OF k1], of b] row_acc(1,2) [OF ok] by auto
  then have "kept l {} (acc_cells r) s c b" using s(2) by (simp add: kept_def)
  show "kept l S2 (M2 \<union> acc_cells r) s a b"
    by (rule kept_trans [OF kept_frame [OF k1] kept_frame [OF \<open>kept l {} (acc_cells r) s c b\<close>]]) auto
  show "fst run1 j = fst run j" if "j \<notin> set (pixels s)" for j
    using c(2) that early sel(1) by (auto simp: settle_early Let_def bind_eq_Some_conv everything split: if_splits)
qed

lemma row_tail_alone:
  assumes ok: "reduce_ok l r masked" "\<not> slot_is_scalar (red_acc r)" and g: "acts l S2 M2 spoil2 contribute"
    and fits: "reduce_fits r masked S M spoil1 spoil2 t0 t1 t2"
    and early: "loop_early lp = takes_early r" "loop_early lp2 = takes_early r"
    and sel: "sel_ok s" "i \<in> set (pixels s)" and agree: "agree l t1 i a a2"
    and flags: "fst run i = fst run' i"
    and run: "row_tail m r lp contribute sel s inner run a = Some (over, run1, b)"
  shows "\<exists>over2 run2 b2. row_tail m r lp2 contribute (alone i) (alone i) inner run' a2 = Some (over2, run2, b2) \<and>
    agree l t0 i b b2 \<and> fst run1 i = fst run2 i"
proof -
  have i: "i < STRIP" using sel(2) pixels_below by blast
  note fit = fitsD [OF fits]
  obtain c where c: "contribute s inner a = Some c"
    "(if loop_early lp then settle r s run c
      else do { ws \<leftarrow> strip_combine m (red_reducer r) (red_bank r) (red_acc r) (red_value r) s c;
                over \<leftarrow> decided_all r sel ws; Some (over, run, ws) }) = Some (over, run1, b)"
    using run by (auto simp: row_tail_def bind_eq_Some_conv)
  obtain c2 where c2: "contribute (alone i) inner a2 = Some c2" "agree l t2 i c c2"
    using acts_alone [OF g sel agree fit(2) c(1)] .
  have lc: "layout c = l" using agree_layout [OF c2(2)] by simp
  show ?thesis
  proof (cases "takes_early r")
    case True
    let ?s = "filter_sel STRIP s (\<lambda>_. True)"
    have s: "sel_ok ?s" "i \<in> set (pixels ?s)" using sel by (simp_all add: filter_sel_ok everything)
    have "strip_assign (red_bank r) (red_acc r) (red_value r) ?s c = Some b" and r1: "\<not> fst run1 i"
      using c(2) early(1) True s(2) by (auto simp: settle_early Let_def bind_eq_Some_conv)
    then obtain b2 where b2: "strip_assign (red_bank r) (red_acc r) (red_value r) (alone i) c2 = Some b2" "agree l t0 i b b2"
      using acc_action(2) [OF acts_acc(2) [OF ok(1)] fits_values [OF fits] s(1) lc _ s(2) c2(2) fit(4,10), of b] by blast
    then show ?thesis
      using c2(1) early(2) True r1 i filter_alone [OF i STRIP_room, of "\<lambda>_. True"]
      by (auto simp: row_tail_def settle_early Let_def)
  next
    case False
    then have b: "strip_combine m (red_reducer r) (red_bank r) (red_acc r) (red_value r) s c = Some b" "run1 = run"
      "decided_all r sel b = Some over"
      using c(2) early(1) by (auto simp: bind_eq_Some_conv)
    obtain b2 where b2: "strip_combine m (red_reducer r) (red_bank r) (red_acc r) (red_value r) (alone i) c2 = Some b2" "agree l t0 i b b2"
      using acc_action(2) [OF acts_acc(1) [OF ok(1), of m "red_reducer r"] fits_values [OF fits] sel(1) lc b(1) sel(2) c2(2) fit(4,10)] by blast
    obtain over2 where "decided_all r (alone i) b2 = Some over2"
      using decided_layout [OF b(3), of b2] agree_layout [OF b2(2)] by auto
    then show ?thesis using c2(1) early(2) False b2 b(2) flags by (auto simp: row_tail_def)
  qed
qed

section \<open>The participating pixels\<close>

lemma contributors_in:
  assumes "contributors r s c = Some t" "sel_ok s"
  shows "sel_ok t" "set (pixels t) \<subseteq> set (pixels s)"
  using assms by (auto simp: contributors_def filter_sel_ok filter_pixels bind_eq_Some_conv split: if_splits)

lemma contributors_alone:
  assumes ok: "reduce_ok l r masked" and unspoilt: "filter_cells r \<inter> fst t = {}" and sel: "sel_ok s" "i \<in> set (pixels s)"
    and agree: "agree l t i c c2" and run: "contributors r s c = Some u"
  shows "contributors r (alone i) c2 = Some (if i \<in> set (pixels u) then alone i else [])"
proof (cases "slot_is_none (red_filter r)")
  case True
  then show ?thesis using run sel by (simp add: contributors_def)
next
  case False
  have i: "i < STRIP" using sel(2) pixels_below by blast
  have la: "layout c = l" "layout c2 = l" using agree_layout [OF agree] by simp_all
  obtain f where f: "bool_src c (red_filter r) = Some f" "u = filter_sel STRIP s (src_at f c)"
    using run False by (auto simp: contributors_def bind_eq_Some_conv)
  have "readable l (BBool, slot_kind (red_filter r))" using reduce_okD(5) [OF ok] False by (simp add: filter_cells_def)
  then have "reads l (BBool, slot_kind (red_filter r)) f" using bool_src_reads [OF f(1)] la by simp
  then have "src_at f c i = src_at f c2 i"
    using reads_onlyD [OF reads_src i i agree, of "(BBool, slot_kind (red_filter r))" f] unspoilt False by (simp add: filter_cells_def)
  then show ?thesis
    using f False sel filter_alone [OF i STRIP_room] src_layout(3) [of c2 c] la
    by (simp add: contributors_def filter_pixels)
qed

lemma acts_where:
  assumes ok: "reduce_ok l r masked" "\<not> slot_is_scalar (red_acc r)" and "masked" "\<not> takes_early r" "\<not> slot_is_none (red_filter r)"
  shows "acts_on l (acc_cells r \<union> value_cells r \<union> filter_cells r) {} (acc_cells r)
    (\<lambda>sel _ ws. combine_where m (red_reducer r) (red_bank r) (red_acc r) (red_value r) (red_filter r) sel ws)"
  unfolding acc_cells_def
proof (rule acts_combine_where)
  show "access_ok l (cells_of (red_bank r) (red_acc r) \<union> value_cells r \<union> filter_cells r, {}, cells_of (red_bank r) (red_acc r))"
    using reduce_okD(4) [OF ok(1)] by (simp add: acc_cells_def)
  show "red_bank r \<noteq> BResource" using assms by (auto simp: reduce_ok_def)
qed (use assms(5) in \<open>auto simp: value_cells_def filter_cells_def\<close>)

lemma row_rest_kept:
  assumes ok: "reduce_ok l r masked" "\<not> slot_is_scalar (red_acc r)" and f: "acts l S1 M1 spoil1 run_loop"
    and g: "acts l S2 M2 spoil2 contribute" and plan: "plan_ok r masked start stop index lp"
    and sel: "sel_ok s" "layout a = l"
    and run: "row_rest m r lp run_loop contribute sel s inner run a = Some (over, run1, b)"
  shows "kept l (S1 \<union> S2) (M1 \<union> M2 \<union> acc_cells r) s a b" "\<And>j. j \<notin> set (pixels s) \<Longrightarrow> fst run1 j = fst run j"
proof -
  have early: "loop_early lp = takes_early r" using plan by (simp add: plan_ok_def)
  obtain c where c: "run_loop s inner a = Some c" "row_rest m r lp (\<lambda>_ _. Some) contribute sel s inner run c = Some (over, run1, b)"
    using run by (auto simp: row_rest_def bind_eq_Some_conv)
  note k1 = acts_kept [OF f sel c(1)]
  have k2: "kept l (S1 \<union> S2) (M1 \<union> M2 \<union> acc_cells r) s a c" by (rule kept_frame [OF k1]) auto
  have "kept l (S1 \<union> S2) (M1 \<union> M2 \<union> acc_cells r) s c b \<and> (\<forall>j. j \<notin> set (pixels s) \<longrightarrow> fst run1 j = fst run j)"
  proof (cases "\<not> loop_early lp \<and> loop_masked lp")
    case True
    then have "combine_where m (red_reducer r) (red_bank r) (red_acc r) (red_value r) (red_filter r) s c = Some b" "run1 = run"
      using c(2) by (auto simp: row_rest_def bind_eq_Some_conv)
    from this(1) acts_kept [OF acts_where [OF ok, of m] sel(1) kept_layout [OF k1], of b]
    have "kept l {} (acc_cells r) s c b" using True plan row_acc(1,2) [OF ok] by (auto simp: plan_ok_def)
    from kept_frame [OF this] have "kept l (S1 \<union> S2) (M1 \<union> M2 \<union> acc_cells r) s c b" by blast
    then show ?thesis using \<open>run1 = run\<close> by simp
  next
    case False
    then obtain u where u: "contributors r s c = Some u"
      "(if u = [] then Some (False, run, c) else row_tail m r lp contribute sel u inner run c) = Some (over, run1, b)"
      using c(2) unfolding row_rest_def by (auto simp: bind_eq_Some_conv)
    note part = contributors_in [OF u(1) sel(1)]
    show ?thesis
    proof (cases "u = []")
      case True
      then show ?thesis using u(2) kept_refl [OF kept_layout [OF k1]] by simp
    next
      case False
      then have tail: "row_tail m r lp contribute sel u inner run c = Some (over, run1, b)" using u(2) by simp
      note t = row_tail_kept [OF ok g early part(1) kept_layout [OF k1] tail]
      show ?thesis using kept_more [OF t(1), of "S1 \<union> S2" "M1 \<union> M2 \<union> acc_cells r" s] t(2) part(2) by auto
    qed
  qed
  then show "kept l (S1 \<union> S2) (M1 \<union> M2 \<union> acc_cells r) s a b" "\<And>j. j \<notin> set (pixels s) \<Longrightarrow> fst run1 j = fst run j"
    using kept_trans [OF k2] by blast+
qed

lemma row_rest_alone:
  assumes ok: "reduce_ok l r masked" "\<not> slot_is_scalar (red_acc r)" and f: "acts l S1 M1 spoil1 run_loop"
    and g: "acts l S2 M2 spoil2 contribute" and rows: "row_cells M2"
    and fits: "reduce_fits r masked (S1 \<union> S2) (M1 \<union> M2) spoil1 spoil2 t0 t1 t2"
    and plan: "plan_ok r masked start stop index lp" "plan_ok r masked start2 stop2 index2 lp2"
    and sel: "sel_ok s" "i \<in> set (pixels s)" and agree: "agree l (fst t0 - {index_cell r}, snd t0) i a a2"
    and flags: "fst run i = fst run' i"
    and run: "row_rest m r lp run_loop contribute sel s inner run a = Some (over, run1, b)"
  shows "\<exists>over2 run2 b2. row_rest m r lp2 run_loop contribute (alone i) (alone i) inner run' a2 = Some (over2, run2, b2) \<and>
    agree l t0 i b b2 \<and> fst run1 i = fst run2 i"
proof -
  have i: "i < STRIP" using sel(2) pixels_below by blast
  note fit = fitsD [OF fits]
  have early: "loop_early lp = takes_early r" "loop_early lp2 = takes_early r" and masked: "loop_masked lp2 = loop_masked lp"
    using plan by (simp_all add: plan_ok_def)
  obtain c where c: "run_loop s inner a = Some c" "row_rest m r lp (\<lambda>_ _. Some) contribute sel s inner run c = Some (over, run1, b)"
    using run by (auto simp: row_rest_def bind_eq_Some_conv)
  obtain c2 where c2: "run_loop (alone i) inner a2 = Some c2" "agree l t1 i c c2"
    using acts_alone [OF f sel agree fit(1) c(1)] .
  have lc: "layout c = l" using agree_layout [OF c2(2)] by simp
  show ?thesis
  proof (cases "\<not> loop_early lp \<and> loop_masked lp")
    case True
    then have b: "combine_where m (red_reducer r) (red_bank r) (red_acc r) (red_value r) (red_filter r) s c = Some b"
      "run1 = run" "decided_all r sel b = Some over"
      using c(2) by (auto simp: row_rest_def bind_eq_Some_conv)
    have m: "masked" "\<not> takes_early r" "\<not> slot_is_none (red_filter r)" using True plan by (auto simp: plan_ok_def)
    have "(acc_cells r \<union> value_cells r \<union> filter_cells r) \<inter> fst t1 = {}"
      using fit(3,5,7) fit(11) [OF m(1)] by (auto simp: weaker_def)
    from acc_action(2) [OF acts_where [OF ok m, of m] this sel(1) lc b(1) sel(2) c2(2) fit(3,10)] obtain b2
      where b2: "combine_where m (red_reducer r) (red_bank r) (red_acc r) (red_value r) (red_filter r) (alone i) c2 = Some b2"
        "agree l t0 i b b2" by blast
    obtain over2 where "decided_all r (alone i) b2 = Some over2"
      using decided_layout [OF b(3), of b2] agree_layout [OF b2(2)] by auto
    then show ?thesis using c2(1) b2 b(2) flags True early masked by (auto simp: row_rest_def)
  next
    case False
    then obtain u where u: "contributors r s c = Some u"
      "(if u = [] then Some (False, run, c) else row_tail m r lp contribute sel u inner run c) = Some (over, run1, b)"
      using c(2) unfolding row_rest_def by (auto simp: bind_eq_Some_conv)
    note part = contributors_in [OF u(1) sel(1)]
    have lane: "row_rest m r lp2 run_loop contribute (alone i) (alone i) inner run' a2 =
        (if i \<in> set (pixels u) then row_tail m r lp2 contribute (alone i) (alone i) inner run' c2 else Some (False, run', c2))"
      using c2(1) False early masked contributors_alone [OF ok(1) fit(5) sel c2(2) u(1)] by (auto simp: row_rest_def)
    show ?thesis
    proof (cases "i \<in> set (pixels u)")
      case True
      then have "row_tail m r lp contribute sel u inner run c = Some (over, run1, b)" using u(2) by (cases "u = []") simp_all
      from row_tail_alone [OF ok g fits early part(1) True c2(2) flags this] show ?thesis using lane True by simp
    next
      case out: False
      have "agree l t0 i b c2 \<and> fst run1 i = fst run i"
      proof (cases "u = []")
        case True
        then show ?thesis using u(2) agree_weaker [OF c2(2) fit(3)] by simp
      next
        case False
        then have tail: "row_tail m r lp contribute sel u inner run c = Some (over, run1, b)" using u(2) by simp
        note k = row_tail_kept [OF ok g early(1) part(1) lc tail]
        have "row_cells (M2 \<union> acc_cells r)" using rows row_acc(3) [OF ok] by (auto simp: row_cells_def)
        from agree_other [OF agree_weaker [OF c2(2) fit(3)] k(1) out i _ _ this] show ?thesis
          using fit(9,10) row_acc(2) [OF ok] k(2) [OF out] by auto
      qed
      then show ?thesis using lane out flags by auto
    qed
  qed
qed

end
