(* ===== verification/StripTurns.thy ===== *)
theory StripTurns
  imports StripLanes
begin

unbundle bit_operations_syntax

text \<open>
  The loop of a reduction into rows: an iteration that a pixel takes no part in leaves it alone, one
  it takes part in does what the pixel's own loop does, and a loop that ends for the strip has
  ended for each of its pixels.
\<close>

section \<open>Who takes part\<close>

definition part_at :: "reduction \<Rightarrow> row_plan \<Rightarrow> i32 \<Rightarrow> i32 \<Rightarrow> i32 \<Rightarrow> bool" where
  "part_at r lp x y k =
     (if loop_shared lp then
        sint x \<le> sint (shared_at r lp k) \<and> sint (shared_at r lp k) < sint (x + int_max (y - x) 0)
      else sint k < sint (int_max (y - x) 0))"

lemma takes_part_at:
  "src_at start ws i = x \<Longrightarrow> src_at stop ws i = y \<Longrightarrow> takes_part r lp start stop ws i k = part_at r lp x y k"
  by (auto simp: takes_part_def part_at_def offset_count_def)

definition joins :: "row_plan \<Rightarrow> bool \<Rightarrow> bool \<Rightarrow> bool" where
  "joins lp flag part \<longleftrightarrow> loop_uniform lp \<and> \<not> loop_early lp \<or> (\<not> loop_early lp \<or> flag) \<and> part"

lemma participants_ok:
  assumes "sel_ok sel"
  shows "sel_ok (participants r lp start stop sel k flags ws)"
    "set (pixels (participants r lp start stop sel k flags ws)) \<subseteq> set (pixels sel)"
    "i \<in> set (pixels sel) \<Longrightarrow> i \<in> set (pixels (participants r lp start stop sel k flags ws)) \<longleftrightarrow>
      joins lp (flags i) (takes_part r lp start stop ws i k)"
  using assms by (auto simp: participants_def joins_def filter_sel_ok filter_pixels)

lemma participants_flagged:
  assumes "sel_ok sel" "loop_early lp" "i \<in> set (pixels (participants r lp start stop sel k flags ws))"
  shows "flags i"
  using assms by (auto simp: participants_def filter_pixels)

lemma participants_alone:
  "i < STRIP \<Longrightarrow> participants r lp start stop (alone i) k flags ws =
    (if joins lp (flags i) (takes_part r lp start stop ws i k) then alone i else [])"
  using filter_alone [OF _ STRIP_room] by (auto simp: participants_def joins_def)

section \<open>One iteration\<close>

definition reduce_frame ::
  "layout \<Rightarrow> reduction \<Rightarrow> i32 src \<Rightarrow> i32 src \<Rightarrow> i32 dst \<Rightarrow> bool" where
  "reduce_frame l r start stop index \<longleftrightarrow>
     reads l (BInt, slot_kind (red_start r)) start \<and> reads l (BInt, slot_kind (red_end r)) stop \<and>
     writes l {index_cell r} index"

lemma frameD:
  assumes "reduce_frame l r start stop index"
  shows "reads l (BInt, slot_kind (red_start r)) start" "reads l (BInt, slot_kind (red_end r)) stop"
    "writes l {index_cell r} index"
  using assms by (simp_all add: reduce_frame_def)

lemma iteration_kept:
  assumes ok: "reduce_ok l r masked" "\<not> slot_is_scalar (red_acc r)" and f: "acts l S1 M1 spoil1 run_loop"
    and g: "acts l S2 M2 spoil2 contribute" and plan: "plan_ok r masked start stop index lp"
    and frame: "reduce_frame l r start stop index" and sel: "sel_ok sel" "layout a = l"
    and run: "row_iteration m r lp start stop index run_loop contribute sel inner k run a = Some (over, run1, b)"
  shows "kept l (S1 \<union> S2 \<union> shared_part {index_cell r}) (M1 \<union> M2 \<union> acc_cells r \<union> masked_part {index_cell r})
      (participants r lp start stop sel k (fst run) a) a b"
    "j \<notin> set (pixels (participants r lp start stop sel k (fst run) a)) \<Longrightarrow> fst run1 j = fst run j"
proof -
  let ?U = "S1 \<union> S2 \<union> shared_part {index_cell r}" and ?W = "M1 \<union> M2 \<union> acc_cells r \<union> masked_part {index_cell r}"
  let ?p = "participants r lp start stop sel k (fst run) a"
  have "kept l ?U ?W ?p a b \<and> (j \<notin> set (pixels ?p) \<longrightarrow> fst run1 j = fst run j)"
  proof (cases "?p = []")
    case True
    then show ?thesis using run kept_refl [OF sel(2)] by (simp add: row_iteration_parts)
  next
    case False
    then obtain c where c: "set_indices r lp start stop index ?p k a = Some c"
      "row_rest m r lp run_loop contribute sel ?p inner run c = Some (over, run1, b)"
      using run by (auto simp: row_iteration_parts Let_def bind_eq_Some_conv)
    note p = participants_ok(1) [OF sel(1)]
    note k1 = set_indices_kept [OF frameD [OF frame] p sel(2) c(1)]
    note k2 = row_rest_kept [OF ok f g plan p kept_layout [OF k1] c(2)]
    have "kept l ?U ?W ?p a b" by (rule kept_trans [OF kept_frame [OF k1] kept_frame [OF k2(1)]]) auto
    then show ?thesis using k2(2) by simp
  qed
  then show "kept l ?U ?W ?p a b" "j \<notin> set (pixels ?p) \<Longrightarrow> fst run1 j = fst run j" by blast+
qed

lemma iteration_bystander:
  assumes ok: "reduce_ok l r masked" "\<not> slot_is_scalar (red_acc r)" and f: "acts l S1 M1 spoil1 run_loop"
    and g: "acts l S2 M2 spoil2 contribute" and rows: "row_cells M1" "row_cells M2"
    and fits: "reduce_fits r masked (S1 \<union> S2) (M1 \<union> M2) spoil1 spoil2 t0 t1 t2"
    and plan: "plan_ok r masked start stop index lp"
    and frame: "reduce_frame l r start stop index" and sel: "sel_ok sel" and agree: "agree l t0 i a a2" and i: "i < STRIP"
    and run: "row_iteration m r lp start stop index run_loop contribute sel inner k run a = Some (over, run1, b)"
    and out: "i \<notin> set (pixels (participants r lp start stop sel k (fst run) a))"
  shows "agree l t0 i b a2" "fst run1 i = fst run i"
proof -
  note k = iteration_kept [OF ok f g plan frame sel agree_layout(1) [OF agree] run]
  note fit = fitsD [OF fits]
  have rows: "row_cells (M1 \<union> M2 \<union> acc_cells r \<union> masked_part {index_cell r})"
    using rows row_acc(3) [OF ok] masked_rows [of "{index_cell r}"] by (auto simp: row_cells_def)
  show "agree l t0 i b a2"
    by (rule agree_other [OF agree k(1) out i _ _ rows])
      (use fit(9,10) row_acc(2) [OF ok] parts_subset [of "{index_cell r}"] in auto)
  show "fst run1 i = fst run i" using k(2) [OF out] .
qed

text \<open>A range's ends stay what they were.\<close>

lemma kept_src:
  assumes "kept l U W sel a b" "layout a = l" "reads l c x" "c \<notin> U" "c \<notin> W" "i < STRIP"
  shows "src_at x b i = src_at x a i"
proof (rule reads_eq [OF assms(3) kept_layout [OF assms(1)] assms(2)])
  have "readable l c" using assms(3) by (simp add: reads_def)
  then show "cell_get b c (i AND MASK) = cell_get a c (i AND MASK)"
    using assms(1,4,5) and_MASK_less unfolding kept_def by blast
qed

lemma iteration_bounds:
  assumes ok: "reduce_ok l r masked" "\<not> slot_is_scalar (red_acc r)" and f: "acts l S1 M1 spoil1 run_loop"
    and g: "acts l S2 M2 spoil2 contribute"
    and fits: "reduce_fits r masked (S1 \<union> S2) (M1 \<union> M2) spoil1 spoil2 t0 t1 t2"
    and plan: "plan_ok r masked start stop index lp"
    and frame: "reduce_frame l r start stop index" and sel: "sel_ok sel" "layout a = l" and i: "i < STRIP"
    and run: "row_iteration m r lp start stop index run_loop contribute sel inner k run a = Some (over, run1, b)"
  shows "src_at start b i = src_at start a i" "src_at stop b i = src_at stop a i"
proof -
  note k = iteration_kept(1) [OF ok f g plan frame sel run]
  note fit = fitsD [OF fits]
  have same: "src_at x b i = src_at x a i" if "reads l c x" "c \<in> bound_cells r" for c x
    by (rule kept_src [OF k sel(2) that(1) _ _ i])
      (use that(2) fit(8,9,12) parts_subset [of "{index_cell r}"] in auto)
  show "src_at start b i = src_at start a i" by (rule same [OF frameD(1) [OF frame]]) (simp add: bound_cells_def)
  show "src_at stop b i = src_at stop a i" by (rule same [OF frameD(2) [OF frame]]) (simp add: bound_cells_def)
qed

lemma iteration_turn:
  assumes ok: "reduce_ok l r masked" "\<not> slot_is_scalar (red_acc r)" and f: "acts l S1 M1 spoil1 run_loop"
    and g: "acts l S2 M2 spoil2 contribute" and rows: "row_cells M2"
    and fits: "reduce_fits r masked (S1 \<union> S2) (M1 \<union> M2) spoil1 spoil2 t0 t1 t2"
    and plan: "plan_ok r masked start stop index lp" "plan_ok r masked start stop index lp2"
    and frame: "reduce_frame l r start stop index" and sel: "sel_ok sel" and agree: "agree l t0 i a a2"
    and flags: "fst run i = fst run' i" and same: "same_index r lp lp2 k k2"
    and part: "i \<in> set (pixels (participants r lp start stop sel k (fst run) a))"
      "joins lp2 (fst run' i) (takes_part r lp2 start stop a2 i k2)"
    and run: "row_iteration m r lp start stop index run_loop contribute sel inner k run a = Some (over, run1, b)"
  shows "\<exists>over2 run2 b2. row_iteration m r lp2 start stop index run_loop contribute (alone i) inner k2 run' a2 = Some (over2, run2, b2) \<and>
    agree l t0 i b b2 \<and> fst run1 i = fst run2 i"
proof -
  let ?p = "participants r lp start stop sel k (fst run) a"
  have i: "i < STRIP" using part(1) pixels_below by blast
  note fit = fitsD [OF fits]
  note p = participants_ok(1) [OF sel]
  have "?p \<noteq> []" using part(1) by auto
  then obtain c where c: "set_indices r lp start stop index ?p k a = Some c"
    "row_rest m r lp run_loop contribute sel ?p inner run c = Some (over, run1, b)"
    using run by (auto simp: row_iteration_parts Let_def bind_eq_Some_conv)
  have ki: "index_cell r \<in> snd t0" using fit(9) by blast
  obtain c2 where c2: "set_indices r lp2 start stop index (alone i) k2 a2 = Some c2"
    "agree l (fst t0 - {index_cell r}, snd t0) i c c2"
    using set_indices_alone [OF frameD [OF frame] plan(1) same fit(8) ki p part(1) agree c(1)] by blast
  from row_rest_alone [OF ok f g rows fits plan p part(1) c2(2) flags c(2)] show ?thesis
    using c2(1) part(2) i by (simp add: row_iteration_parts participants_alone Let_def)
qed

section \<open>The end of a loop\<close>

definition counted :: "selection \<Rightarrow> running \<Rightarrow> bool" where
  "counted sel run \<longleftrightarrow> length (filter (fst run) (pixels sel)) \<le> snd run"

lemma counted_start: "counted sel ((\<lambda>i. i \<in> set (pixels sel)), length (pixels sel))"
  by (simp add: counted_def)

lemma counted_over: "counted sel run \<Longrightarrow> snd run = 0 \<Longrightarrow> i \<in> set (pixels sel) \<Longrightarrow> \<not> fst run i"
  by (auto simp: counted_def filter_empty_conv)

lemma filter_removed:
  assumes "distinct xs" "distinct ds" "set ds \<subseteq> {x \<in> set xs. P x}"
  shows "length (filter (\<lambda>x. P x \<and> x \<notin> set ds) xs) + length ds = length (filter P xs)"
proof -
  have "card ({x \<in> set xs. P x} - set ds) + card (set ds) = card {x \<in> set xs. P x}"
    using card_Diff_subset [of "set ds" "{x \<in> set xs. P x}"] card_mono [of "{x \<in> set xs. P x}" "set ds"] assms(3) by simp
  moreover have "{x \<in> set xs. P x} - set ds = {x \<in> set xs. P x \<and> x \<notin> set ds}" by blast
  ultimately show ?thesis using assms(1,2) by (simp add: distinct_length_filter distinct_card Int_def conj_commute)
qed

lemma settle_counted:
  assumes "takes_early r" "sel_ok sel" "sel_ok s" "set (pixels s) \<subseteq> {i \<in> set (pixels sel). fst run i}" "counted sel run"
    and "settle r s run a = Some (over, run1, b)"
  shows "counted sel run1"
proof -
  have run1: "run1 = ((\<lambda>i. fst run i \<and> i \<notin> set (pixels s)), snd run - length (pixels s))"
    using assms(6) everything [OF assms(3)] by (auto simp: settle_early [OF assms(1)] Let_def bind_eq_Some_conv)
  show ?thesis
    using filter_removed [OF pixels_distinct [OF assms(2)] pixels_distinct [OF assms(3)] assms(4)] assms(5)
    by (simp add: run1 counted_def)
qed

lemma iteration_counted:
  assumes plan: "plan_ok r masked start stop index lp" and sel: "sel_ok sel" and counted: "counted sel run"
    and run: "row_iteration m r lp start stop index run_loop contribute sel inner k run a = Some (over, run1, b)"
  shows "counted sel run1"
proof (cases "takes_early r")
  case False
  then have "run1 = run" using run plan
    by (auto simp: row_iteration_parts row_rest_def row_tail_def plan_ok_def Let_def bind_eq_Some_conv split: if_splits)
  then show ?thesis using counted by simp
next
  case True
  let ?p = "participants r lp start stop sel k (fst run) a"
  have early: "loop_early lp" using plan True by (simp add: plan_ok_def)
  have "run1 = run \<or> (\<exists>c u d. contributors r ?p c = Some u \<and> settle r u run d = Some (over, run1, b))"
    using run early by (auto simp: row_iteration_parts row_rest_def row_tail_def Let_def bind_eq_Some_conv split: if_splits)
  then show ?thesis
  proof
    assume "\<exists>c u d. contributors r ?p c = Some u \<and> settle r u run d = Some (over, run1, b)"
    then obtain c u d where u: "contributors r ?p c = Some u" "settle r u run d = Some (over, run1, b)" by blast
    note p = participants_ok(1,2) [OF sel, of r lp start stop k "fst run" a]
    have "set (pixels u) \<subseteq> {i \<in> set (pixels sel). fst run i}"
      using contributors_in(2) [OF u(1) p(1)] p(2) participants_flagged [OF sel early] by blast
    from settle_counted [OF True sel contributors_in(1) [OF u(1) p(1)] this counted u(2)] show ?thesis .
  qed (use counted in simp)
qed

lemma iteration_over:
  assumes plan: "plan_ok r masked start stop index lp"
    and run: "row_iteration m r lp start stop index run_loop contribute sel inner k run a = Some (True, run1, b)"
  shows "takes_early r \<and> snd run1 = 0 \<or> decides_bool r \<and> decided_all r sel b = Some True"
proof (cases "takes_early r")
  case True
  then show ?thesis using run plan
    by (auto simp: row_iteration_parts row_rest_def row_tail_def plan_ok_def settle_early Let_def bind_eq_Some_conv split: if_splits)
next
  case False
  then have "decided_all r sel b = Some True" using run plan
    by (auto simp: row_iteration_parts row_rest_def row_tail_def plan_ok_def Let_def bind_eq_Some_conv split: if_splits)
  then show ?thesis by (auto simp: decided_all_def decides_bool_def split: if_splits)
qed

end
