(* ===== verification/StripLoops.thy ===== *)
theory StripLoops
  imports StripTurns
begin

unbundle bit_operations_syntax

text \<open>
  The loop of a reduction into rows for a strip, and for one of its pixels alone: the pixel's own
  loop goes through the iterations it takes part in and ends where the strip's loop leaves it.
\<close>

section \<open>Loops by flags\<close>

lemma row_loop_kept:
  assumes ok: "reduce_ok l r masked" "\<not> slot_is_scalar (red_acc r)" and f: "acts l S1 M1 spoil1 run_loop"
    and g: "acts l S2 M2 spoil2 contribute" and plan: "plan_ok r masked start stop index lp"
    and frame: "reduce_frame l r start stop index" and sel: "sel_ok sel" and "layout a = l"
    and "row_loop m r lp start stop index run_loop contribute sel inner ks run a = Some b"
  shows "kept l (S1 \<union> S2 \<union> shared_part {index_cell r}) (M1 \<union> M2 \<union> acc_cells r \<union> masked_part {index_cell r}) sel a b"
    (is "kept l ?U ?W sel a b")
  using assms(8,9)
proof (induction ks arbitrary: run a)
  case (Cons k ks)
  obtain over run1 c where c: "row_iteration m r lp start stop index run_loop contribute sel inner k run a = Some (over, run1, c)"
    "b = c \<or> row_loop m r lp start stop index run_loop contribute sel inner ks run1 c = Some b"
    using Cons.prems(2) by (auto simp: bind_eq_Some_conv split: if_splits)
  note k = iteration_kept(1) [OF ok f g plan frame sel Cons.prems(1) c(1)]
  have "kept l ?U ?W sel a c" by (rule kept_more [OF k]) (use participants_ok(2) [OF sel] in auto)
  then show ?case using c(2) Cons.IH [OF kept_layout [OF k]] kept_trans by blast
qed (simp add: kept_refl)

lemma idle_lane:
  assumes "i < STRIP" "loop_early lp" "\<not> fst run i"
  shows "row_loop m r lp start stop index run_loop contribute (alone i) inner ks run a = Some a"
  using assms by (induction ks) (simp_all add: row_iteration_parts participants_alone joins_def)

lemma idle_pixel:
  assumes ok: "reduce_ok l r masked" "\<not> slot_is_scalar (red_acc r)" and f: "acts l S1 M1 spoil1 run_loop"
    and g: "acts l S2 M2 spoil2 contribute" and rows: "row_cells M1" "row_cells M2"
    and fits: "reduce_fits r masked (S1 \<union> S2) (M1 \<union> M2) spoil1 spoil2 t0 t1 t2"
    and plan: "plan_ok r masked start stop index lp"
    and frame: "reduce_frame l r start stop index" and sel: "sel_ok sel" and i: "i < STRIP" and early: "loop_early lp"
    and "agree l t0 i a a2" "\<not> fst run i"
    and "row_loop m r lp start stop index run_loop contribute sel inner ks run a = Some b"
  shows "agree l t0 i b a2"
  using assms(13-15)
proof (induction ks arbitrary: run a)
  case (Cons k ks)
  obtain over run1 c where c: "row_iteration m r lp start stop index run_loop contribute sel inner k run a = Some (over, run1, c)"
    "b = c \<or> row_loop m r lp start stop index run_loop contribute sel inner ks run1 c = Some b"
    using Cons.prems(3) by (auto simp: bind_eq_Some_conv split: if_splits)
  have "i \<notin> set (pixels (participants r lp start stop sel k (fst run) a))"
    using participants_flagged [OF sel early] Cons.prems(2) by blast
  note by_stander = iteration_bystander [OF ok f g rows fits plan frame sel Cons.prems(1) i c(1) this]
  then show ?case using c(2) Cons.IH [of c run1] Cons.prems(2) by auto
qed simp

lemma row_loop_alone:
  assumes ok: "reduce_ok l r masked" "\<not> slot_is_scalar (red_acc r)" and f: "acts l S1 M1 spoil1 run_loop"
    and g: "acts l S2 M2 spoil2 contribute" and rows: "row_cells M1" "row_cells M2"
    and fits: "reduce_fits r masked (S1 \<union> S2) (M1 \<union> M2) spoil1 spoil2 t0 t1 t2"
    and plan: "plan_ok r masked start stop index lp" "plan_ok r masked start stop index lp2"
    and frame: "reduce_frame l r start stop index" and sel: "sel_ok sel" "i \<in> set (pixels sel)"
    and plain: "\<not> decides_bool r"
    and all: "loop_uniform lp \<Longrightarrow> \<not> loop_early lp \<Longrightarrow> \<forall>k \<in> set ks. part_at r lp x y k"
      "\<forall>k2 \<in> set ks2. part_at r lp2 x y k2"
    and "list_all2 (same_index r lp lp2) (filter (part_at r lp x y) ks) ks2"
    and "agree l t0 i a a2" "fst run i = fst run' i" "counted sel run" "counted (alone i) run'"
    and "src_at start a i = x" "src_at stop a i = y"
    and "row_loop m r lp start stop index run_loop contribute sel inner ks run a = Some b"
  shows "\<exists>b2. row_loop m r lp2 start stop index run_loop contribute (alone i) inner ks2 run' a2 = Some b2 \<and> agree l t0 i b b2"
  using assms(14-23)
proof (induction ks arbitrary: ks2 run run' a a2)
  case Nil
  then show ?case by simp
next
  case (Cons k ks)
  note prems = Cons.prems
  have i: "i < STRIP" using sel(2) pixels_below by blast
  have alone: "sel_ok (alone i)" "i \<in> set (pixels (alone i))" using i by (simp_all add: alone_ok)
  have early: "loop_early lp = takes_early r" "loop_early lp2 = takes_early r" using plan by (simp_all add: plan_ok_def)
  note fit = fitsD [OF fits]
  note idle = idle_pixel [OF ok f g rows fits plan(1) frame sel(1) i]
  obtain over run1 c where c: "row_iteration m r lp start stop index run_loop contribute sel inner k run a = Some (over, run1, c)"
    "(if over then Some c else row_loop m r lp start stop index run_loop contribute sel inner ks run1 c) = Some b"
    using prems(10) by (auto simp: bind_eq_Some_conv)
  note counted1 = iteration_counted [OF plan(1) sel(1) prems(6) c(1)]
  note bounds = iteration_bounds [OF ok f g fits plan(1) frame sel(1) agree_layout(1) [OF prems(4)] i c(1)]
  note rest = Cons.IH [where run = run1 and a = c]
  have over_flag: "\<not> fst run1 i" "takes_early r" if "over"
    using iteration_over [OF plan(1)] c(1) that plain counted_over [OF counted1 _ sel(2)] by auto
  have part: "src_at start a i = x" "src_at stop a i = y" by (fact prems(8,9))+
  have same_bounds: "src_at start a2 i = x" "src_at stop a2 i = y"
  proof -
    note at = reads_onlyD [OF reads_src i i prems(4)]
    show "src_at start a2 i = x" using at [OF frameD(1) [OF frame]] fit(8) part by (simp add: bound_cells_def)
    show "src_at stop a2 i = y" using at [OF frameD(2) [OF frame]] fit(8) part by (simp add: bound_cells_def)
  qed
  show ?case
  proof (cases "takes_early r \<and> \<not> fst run i")
    case True
    then have "agree l t0 i b a2" using idle [OF _ prems(4) _ prems(10)] early by simp
    then show ?thesis using idle_lane [OF i] True early prems(5) by auto
  next
    case False
    have joins: "joins lp (fst run i) (takes_part r lp start stop a i k) = part_at r lp x y k"
      using False prems(1) early by (auto simp: joins_def takes_part_at [OF part])
    let ?p = "participants r lp start stop sel k (fst run) a"
    show ?thesis
    proof (cases "part_at r lp x y k")
      case True
      then have in_p: "i \<in> set (pixels ?p)" using participants_ok(3) [OF sel] joins by simp
      obtain k2 ks2' where k2: "ks2 = k2 # ks2'" "same_index r lp lp2 k k2"
        "list_all2 (same_index r lp lp2) (filter (part_at r lp x y) ks) ks2'"
        using prems(3) True by (auto simp: list_all2_Cons1)
      have "joins lp2 (fst run' i) (takes_part r lp2 start stop a2 i k2)"
        using False prems(2,5) early(2) by (auto simp: joins_def takes_part_at [OF same_bounds] k2(1))
      from iteration_turn [OF ok f g rows(2) fits plan frame sel(1) prems(4,5) k2(2) in_p this c(1)] obtain over2 run2 c2
        where c2: "row_iteration m r lp2 start stop index run_loop contribute (alone i) inner k2 run' a2 = Some (over2, run2, c2)"
          "agree l t0 i c c2" "fst run1 i = fst run2 i" by blast
      note counted2 = iteration_counted [OF plan(2) alone(1) prems(7) c2(1)]
      have lane: "row_loop m r lp2 start stop index run_loop contribute (alone i) inner ks2 run' a2 =
          (if over2 then Some c2 else row_loop m r lp2 start stop index run_loop contribute (alone i) inner ks2' run2 c2)"
        by (simp add: k2(1) c2(1))
      have over2_flag: "\<not> fst run2 i" "takes_early r" if "over2"
        using iteration_over [OF plan(2)] c2(1) that plain counted_over [OF counted2 _ alone(2)] by auto
      show ?thesis
      proof (cases over)
        case True
        then have "row_loop m r lp2 start stop index run_loop contribute (alone i) inner ks2' run2 c2 = Some c2"
          using idle_lane [OF i] over_flag c2(3) early by simp
        then show ?thesis using lane c(2) True c2(2) by auto
      next
        case False
        then have loop: "row_loop m r lp start stop index run_loop contribute sel inner ks run1 c = Some b" using c(2) by simp
        show ?thesis
        proof (cases over2)
          case True
          then have "agree l t0 i b c2" using idle [OF _ c2(2) _ loop] over2_flag c2(3) early by simp
          then show ?thesis using lane True by simp
        next
          case False
          then show ?thesis
            using rest [of ks2' c2 run2] prems(1,2) k2(1,3) c2(2,3) counted1 counted2 bounds part loop lane by auto
        qed
      qed
    next
      case out: False
      then have not_p: "i \<notin> set (pixels ?p)" using participants_ok(3) [OF sel] joins by simp
      note stays = iteration_bystander [OF ok f g rows fits plan(1) frame sel(1) prems(4) i c(1) not_p]
      have "\<not> over" using over_flag stays(2) False by auto
      then show ?thesis
        using rest [of ks2 a2 run'] prems(1,2,3,5,7) out stays counted1 bounds part c(2) by auto
    qed
  qed
qed

end
