(* ===== verification/StripDecided.thy ===== *)
theory StripDecided
  imports StripLoops
begin

unbundle bit_operations_syntax

text \<open>
  \<open>any\<close> and \<open>all\<close> over rows: a decided pixel stays decided, so the strip's loop, which goes on
  until every pixel is, leaves each pixel what its own loop leaves it.
\<close>

definition decided_at :: "reduction \<Rightarrow> workspace \<Rightarrow> nat \<Rightarrow> bool" where
  "decided_at r ws i \<longleftrightarrow> (\<exists>d. bool_src ws (red_acc r) = Some d \<and> src_at d ws i = (red_reducer r = RedAny))"

section \<open>What a combination leaves\<close>

lemma behavesD:
  assumes "behaves l f g" "sel_ok sel" "layout ws = l" "f sel levels ws = Some b"
  shows "g sel levels ws = Some b"
  using assms unfolding behaves_def by blast

text \<open>Written at a pixel, read back there.\<close>

lemma picked_bool:
  assumes d: "bool_dst c x = Some (Many put)" "bool_src c x = Some a" and k: "writable l (BBool, slot_kind x)"
    and l: "layout c = l" and reads: "reads_only l R {} val" and sel: "sel_ok sel" "i \<in> set (pixels sel)"
    and run: "pick_each sel (Many put) (\<lambda>ws i. pure (val ws i)) () c = Some b"
  shows "src_at a b i = val c i"
proof -
  have i: "i < STRIP" using sel(2) pixels_below by blast
  let ?k = "(BBool, slot_kind x)"
  have w: "writes_cell BoolCell l ?k (Many put)"
    using bool_cells.destination_writes [of c x "Many put"] d(1) k l by (simp add: bool_dst_def writable_def)
  have r: "reads_cell BoolCell l ?k a" using bool_cells.operand_reads [of c x a] d(2) l by (simp add: bool_src_def)
  have row: "is_row_class (slot_kind x)" and put: "puts_cell BoolCell l ?k (put i) i" using w i by (simp_all add: writes_cell_def)
  have writes: "writes l {?k} (Many put)" using w by (auto simp: writes_def writes_one_cell)
  have "shared_reads R {?k}" using row by (cases "slot_kind x") (simp_all add: shared_reads_def all_scalar_def)
  note act = acts_pick_pure [OF writes reads this]
  have same: "agree l ({}, {}) i c c" using l by (simp add: agree_def)
  have spoil: "spoil_write R {} {?k} ({}, {}) = Some ({}, masked_part {?k})" by (simp add: spoil_write_def)
  obtain b2 where b2: "pick_each (alone i) (Many put) (\<lambda>ws i. pure (val ws i)) () c = Some b2"
    "agree l ({}, masked_part {?k}) i b b2"
    by (rule acts_alone [OF act sel same spoil run])
  have same_as: "behaves l (\<lambda>sel _ ws. pick_each sel (Many put) (\<lambda>ws i. pure (val ws i)) () ws) (\<lambda>sel _. dst_write sel (Many put) (\<lambda>ws i. Some (val ws i)))"
    using w by (intro pick_each_settles [where I = "\<lambda>_. True"]) (auto simp: writes_one_cell)
  have "dst_write (alone i) (Many put) (\<lambda>ws i. Some (val ws i)) c = Some b2"
    by (rule behavesD [OF same_as alone_ok [OF i] l b2(1)])
  then have "b2 = put i (val c i) c" using i by (simp add: dst_write_def each_def)
  then have "cell_get b2 ?k i = BoolCell (val c i)" "layout b2 = l"
    using put l i k by (simp_all add: puts_cell_def readable_def)
  moreover have "cell_get b ?k i = cell_get b2 ?k i" using agree_get [OF b2(2)] k by (simp add: readable_def)
  moreover have "BoolCell (src_at a b i) = cell_get b ?k (i AND MASK)"
    using r agree_layout(1) [OF b2(2)] unfolding reads_cell_def by blast
  ultimately show ?thesis by (simp add: and_MASK i)
qed

lemma acc_bool:
  assumes ok: "reduce_ok l r masked" "\<not> slot_is_scalar (red_acc r)" and bool: "decides_bool r" and l: "layout c = l"
  shows "acc_cells r = {(BBool, slot_kind (red_acc r))}" "value_cells r = {(BBool, slot_kind (red_value r))}"
    "writable l (BBool, slot_kind (red_acc r))" "readable l (BBool, slot_kind (red_value r))"
    "bool_dst c (red_acc r) = Some d \<Longrightarrow> \<exists>put. d = Many put"
proof -
  have b: "red_bank r = BBool" using reduce_okD(6) [OF ok(1) bool] .
  show a: "acc_cells r = {(BBool, slot_kind (red_acc r))}" "value_cells r = {(BBool, slot_kind (red_value r))}"
    by (simp_all add: acc_cells_def value_cells_def b)
  show w: "writable l (BBool, slot_kind (red_acc r))" using access_okD(2) [OF reduce_okD(3) [OF ok(1)]] a by simp
  show "readable l (BBool, slot_kind (red_value r))" using reduce_okD(5) [OF ok(1)] a by simp
  show "\<exists>put. d = Many put" if "bool_dst c (red_acc r) = Some d"
    by (rule writes_kind(1) [OF dst_writes(3) [OF that, unfolded l, OF w]]) (use row_acc(3) [OF ok] a in \<open>simp add: row_cells_def\<close>)
qed

lemma combine_decided:
  assumes ok: "reduce_ok l r masked" "\<not> slot_is_scalar (red_acc r)" and bool: "decides_bool r"
    and l: "layout c = l" "layout b = l" and sel: "sel_ok s" "i \<in> set (pixels s)" and was: "decided_at r c i"
    and run: "strip_combine m (red_reducer r) (red_bank r) (red_acc r) (red_value r) s c = Some b \<or>
      filter_cells r \<noteq> {} \<and> combine_where m (red_reducer r) (red_bank r) (red_acc r) (red_value r) (red_filter r) s c = Some b"
  shows "decided_at r b i"
proof -
  note acc = acc_bool [OF ok bool l(1)]
  have bank: "red_bank r = BBool" using reduce_okD(6) [OF ok(1) bool] .
  obtain a where a: "bool_src c (red_acc r) = Some a" "src_at a c i = (red_reducer r = RedAny)"
    using was by (auto simp: decided_at_def)
  have a2: "bool_src b (red_acc r) = Some a" using a(1) src_layout(3) [of b c] l by simp
  have ra: "reads l (BBool, slot_kind (red_acc r)) a" using bool_src_reads [OF a(1)] acc(3) l(1) by (simp add: readable_def)
  have kind: "red_reducer r = RedAny \<or> red_reducer r = RedAll" using bool by (simp add: decides_bool_def)
  from run show ?thesis
  proof
    assume "strip_combine m (red_reducer r) (red_bank r) (red_acc r) (red_value r) s c = Some b"
    then obtain v d where v: "bool_src c (red_value r) = Some v" "bool_dst c (red_acc r) = Some d"
      "pick_each s d (\<lambda>ws i. pure (combine_bool (red_reducer r) (src_at a ws i) (src_at v ws i))) () c = Some b"
      using a(1) by (auto simp: strip_combine_def bank bind_eq_Some_conv)
    obtain put where put: "d = Many put" using acc(5) [OF v(2)] by blast
    have rv: "reads l (BBool, slot_kind (red_value r)) v" using bool_src_reads [OF v(1)] acc(4) l(1) by simp
    note val = reads_pair [OF ra rv, of "{(BBool, slot_kind (red_acc r)), (BBool, slot_kind (red_value r))}" "combine_bool (red_reducer r)"]
    have "src_at a b i = combine_bool (red_reducer r) (src_at a c i) (src_at v c i)"
      by (rule picked_bool [OF v(2) [unfolded put] a(1) acc(3) l(1) val sel v(3) [unfolded put]]) simp_all
    then show ?thesis using a(2) a2 kind by (auto simp: decided_at_def combine_bool_def)
  next
    assume wh: "filter_cells r \<noteq> {} \<and> combine_where m (red_reducer r) (red_bank r) (red_acc r) (red_value r) (red_filter r) s c = Some b"
    let ?f = "\<lambda>k x y. if red_reducer r = RedAny then x \<or> (k \<and> y) else x \<and> (\<not> k \<or> y)"
    obtain k v d where v: "bool_src c (red_filter r) = Some k" "bool_src c (red_value r) = Some v" "bool_dst c (red_acc r) = Some d"
      "pick_each s d (\<lambda>ws i. pure (?f (src_at k ws i) (src_at a ws i) (src_at v ws i))) () c = Some b"
      using a(1) wh by (auto simp: combine_where_def bank bind_eq_Some_conv)
    obtain put where put: "d = Many put" using acc(5) [OF v(3)] by blast
    have rv: "reads l (BBool, slot_kind (red_value r)) v" using bool_src_reads [OF v(2)] acc(4) l(1) by simp
    have "readable l (BBool, slot_kind (red_filter r))"
      using wh reduce_okD(5) [OF ok(1)] by (auto simp: filter_cells_def split: if_splits)
    then have rk: "reads l (BBool, slot_kind (red_filter r)) k" using bool_src_reads [OF v(1)] l(1) by simp
    note val = reads_masked [OF rk ra rv, of "{(BBool, slot_kind (red_filter r)), (BBool, slot_kind (red_acc r)), (BBool, slot_kind (red_value r))}" ?f]
    have "src_at a b i = ?f (src_at k c i) (src_at a c i) (src_at v c i)"
      by (rule picked_bool [OF v(3) [unfolded put] a(1) acc(3) l(1) val sel v(4) [unfolded put]]) simp_all
    then show ?thesis using a(2) a2 kind by (auto simp: decided_at_def)
  qed
qed

section \<open>A decided pixel\<close>

lemma decided_kept:
  assumes ok: "reduce_ok l r masked" "\<not> slot_is_scalar (red_acc r)" and bool: "decides_bool r"
    and "kept l U W sel a b" "layout a = l" "acc_cells r \<inter> (U \<union> W) = {}" "i < STRIP" "decided_at r a i"
  shows "decided_at r b i"
proof -
  note acc = acc_bool [OF ok bool assms(5)]
  obtain d where d: "bool_src a (red_acc r) = Some d" "src_at d a i = (red_reducer r = RedAny)"
    using assms(8) by (auto simp: decided_at_def)
  have "reads l (BBool, slot_kind (red_acc r)) d" using bool_src_reads [OF d(1)] acc(3) assms(5) by (simp add: readable_def)
  from kept_src [OF assms(4,5) this _ _ assms(7)] have "src_at d b i = src_at d a i" using acc(1) assms(6) by auto
  then show ?thesis using d src_layout(3) [of b a] kept_layout [OF assms(4)] assms(5) by (simp add: decided_at_def)
qed

lemma iteration_decided:
  assumes ok: "reduce_ok l r masked" "\<not> slot_is_scalar (red_acc r)" and f: "acts l S1 M1 spoil1 run_loop"
    and g: "acts l S2 M2 spoil2 contribute" and rows: "row_cells M1" "row_cells M2"
    and fits: "reduce_fits r masked (S1 \<union> S2) (M1 \<union> M2) spoil1 spoil2 t0 t1 t2"
    and plan: "plan_ok r masked start stop index lp"
    and frame: "reduce_frame l r start stop index" and sel: "sel_ok sel" "i < STRIP" and bool: "decides_bool r"
    and la: "layout a = l" and was: "decided_at r a i"
    and run: "row_iteration m r lp start stop index run_loop contribute sel inner k run a = Some (over, run1, b)"
  shows "decided_at r b i"
proof -
  let ?p = "participants r lp start stop sel k (fst run) a"
  note p = participants_ok(1) [OF sel(1)]
  note fit = fitsD [OF fits]
  have early: "\<not> loop_early lp" using plan bool by (auto simp: plan_ok_def takes_early_def decides_bool_def)
  have apart: "acc_cells r \<inter> (S1 \<union> M1) = {}" "acc_cells r \<inter> (S2 \<union> M2) = {}"
    "acc_cells r \<inter> (shared_part {index_cell r} \<union> masked_part {index_cell r}) = {}"
    using fit(7,9) parts_subset [of "{index_cell r}"] by blast+
  note keep = decided_kept [OF ok bool]
  show ?thesis
  proof (cases "i \<in> set (pixels ?p)")
    case False
    note k = iteration_kept(1) [OF ok f g plan frame sel(1) la run]
    note acc = acc_bool [OF ok bool la]
    obtain d where d: "bool_src a (red_acc r) = Some d" "src_at d a i = (red_reducer r = RedAny)"
      using was by (auto simp: decided_at_def)
    have ra: "reads l (BBool, slot_kind (red_acc r)) d" using bool_src_reads [OF d(1)] acc(3) la by (simp add: readable_def)
    have "cell_get b (BBool, slot_kind (red_acc r)) i = cell_get a (BBool, slot_kind (red_acc r)) i"
      using k False sel(2) acc(1,3) apart fit(7,9) row_acc(3) [OF ok] parts_subset [of "{index_cell r}"]
      unfolding kept_def row_cells_def by (auto simp: readable_def)
    from reads_eq [OF ra kept_layout [OF k] la, of i i] this have "src_at d b i = src_at d a i" by (simp add: and_MASK sel(2))
    then show ?thesis using d src_layout(3) [of b a] kept_layout [OF k] la by (simp add: decided_at_def)
  next
    case True
    then have "?p \<noteq> []" by auto
    then obtain c where c: "set_indices r lp start stop index ?p k a = Some c"
      "row_rest m r lp run_loop contribute sel ?p inner run c = Some (over, run1, b)"
      using run by (auto simp: row_iteration_parts Let_def bind_eq_Some_conv)
    note k1 = set_indices_kept [OF frameD [OF frame] p la c(1)]
    have d1: "decided_at r c i" by (rule keep [OF k1 la apart(3) sel(2) was])
    obtain e where e: "run_loop ?p inner c = Some e" "row_rest m r lp (\<lambda>_ _. Some) contribute sel ?p inner run e = Some (over, run1, b)"
      using c(2) by (auto simp: row_rest_def bind_eq_Some_conv)
    note k2 = acts_kept [OF f p kept_layout [OF k1] e(1)]
    have d2: "decided_at r e i" by (rule keep [OF k2 kept_layout [OF k1] apart(1) sel(2) d1])
    have lb: "layout b = l" using kept_layout [OF iteration_kept(1) [OF ok f g plan frame sel(1) la run]] .
    note combine = combine_decided [OF ok bool _ lb]
    show ?thesis
    proof (cases "loop_masked lp")
      case True
      then have "combine_where m (red_reducer r) (red_bank r) (red_acc r) (red_value r) (red_filter r) ?p e = Some b"
        using e(2) early by (auto simp: row_rest_def bind_eq_Some_conv)
      then show ?thesis
        using combine [OF kept_layout [OF k2] p \<open>i \<in> set (pixels ?p)\<close> d2] True plan by (auto simp: plan_ok_def filter_cells_def)
    next
      case False
      then obtain u where u: "contributors r ?p e = Some u"
        "(if u = [] then Some (False, run, e) else row_tail m r lp contribute sel u inner run e) = Some (over, run1, b)"
        using e(2) unfolding row_rest_def by (auto simp: bind_eq_Some_conv)
      have "slot_is_none (red_filter r)" using ok bool False plan by (auto simp: reduce_ok_def plan_ok_def)
      then have "u = ?p" using u(1) by (simp add: contributors_def)
      then obtain h where h: "contribute ?p inner e = Some h"
        "strip_combine m (red_reducer r) (red_bank r) (red_acc r) (red_value r) ?p h = Some b"
        using u(2) \<open>?p \<noteq> []\<close> early by (auto simp: row_tail_def bind_eq_Some_conv)
      note k3 = acts_kept [OF g p kept_layout [OF k2] h(1)]
      have "decided_at r h i" by (rule keep [OF k3 kept_layout [OF k2] apart(2) sel(2) d2])
      from combine [OF kept_layout [OF k3] p True this disjI1 [OF h(2)]] show ?thesis .
    qed
  qed
qed

lemma decided_cell:
  assumes ok: "reduce_ok l r masked" "\<not> slot_is_scalar (red_acc r)" and bool: "decides_bool r"
    and l: "layout a = l" and i: "i < STRIP" and "decided_at r a i"
  shows "cell_get a (BBool, slot_kind (red_acc r)) i = BoolCell (red_reducer r = RedAny)"
proof -
  obtain d where d: "bool_src a (red_acc r) = Some d" "src_at d a i = (red_reducer r = RedAny)"
    using assms(6) by (auto simp: decided_at_def)
  have "reads_cell BoolCell l (BBool, slot_kind (red_acc r)) d"
    using bool_cells.operand_reads [of a "red_acc r" d] d(1) l by (simp add: bool_src_def)
  then have "BoolCell (src_at d a i) = cell_get a (BBool, slot_kind (red_acc r)) (i AND MASK)"
    using l unfolding reads_cell_def by blast
  then show ?thesis using d(2) by (simp add: and_MASK i)
qed

lemma agree_decided:
  assumes ok: "reduce_ok l r masked" "\<not> slot_is_scalar (red_acc r)" and bool: "decides_bool r"
    and i: "i < STRIP" and dec: "decided_at r a i" "decided_at r b i" and agree: "agree l t i a a2"
    and k: "kept l U W sel a b" and sub: "U \<union> W \<subseteq> (fst t \<inter> snd t) \<union> acc_cells r" "acc_cells r \<subseteq> snd t"
  shows "agree l t i b a2"
proof -
  have la: "layout a = l" "layout a2 = l" and lb: "layout b = l" using agree_layout [OF agree] kept_layout [OF k] by simp_all
  note acc = acc_bool(1) [OF ok bool la(1)]
  have "cell_get b c i = cell_get a c i" if "readable l c" "c \<notin> fst t" for c
  proof (cases "c \<in> acc_cells r")
    case True
    then show ?thesis
      using acc decided_cell [OF ok bool la(1) i dec(1)] decided_cell [OF ok bool lb i dec(2)] by simp
  next
    case False
    then show ?thesis using k that sub(1) i unfolding kept_def by blast
  qed
  moreover have "cell_get b c j = cell_get a c j" if "readable l c" "c \<notin> snd t" "j < STRIP" for c j
    using k that sub unfolding kept_def by blast
  ultimately show ?thesis
    using agree_get [OF agree] agree_row [OF agree] la lb unfolding agree_def by simp
qed

section \<open>The loop in step\<close>

lemma frame_within:
  assumes "reduce_fits r masked (S1 \<union> S2) (M1 \<union> M2) spoil1 spoil2 t0 t1 t2"
  shows "(S1 \<union> S2 \<union> shared_part {index_cell r}) \<union> (M1 \<union> M2 \<union> acc_cells r \<union> masked_part {index_cell r})
    \<subseteq> (fst t0 \<inter> snd t0) \<union> acc_cells r"
  using fitsD(9) [OF assms] parts_subset [of "{index_cell r}"] by blast

lemma decided_rest:
  assumes ok: "reduce_ok l r masked" "\<not> slot_is_scalar (red_acc r)" and f: "acts l S1 M1 spoil1 run_loop"
    and g: "acts l S2 M2 spoil2 contribute" and rows: "row_cells M1" "row_cells M2"
    and fits: "reduce_fits r masked (S1 \<union> S2) (M1 \<union> M2) spoil1 spoil2 t0 t1 t2"
    and plan: "plan_ok r masked start stop index lp"
    and frame: "reduce_frame l r start stop index" and sel: "sel_ok sel" and i: "i < STRIP" and bool: "decides_bool r"
    and "agree l t0 i a a2" "decided_at r a i"
    and "row_loop m r lp start stop index run_loop contribute sel inner ks run a = Some b"
  shows "agree l t0 i b a2"
  using assms(13-15)
proof (induction ks arbitrary: run a)
  case (Cons k ks)
  obtain over run1 c where c: "row_iteration m r lp start stop index run_loop contribute sel inner k run a = Some (over, run1, c)"
    "b = c \<or> row_loop m r lp start stop index run_loop contribute sel inner ks run1 c = Some b"
    using Cons.prems(3) by (auto simp: bind_eq_Some_conv split: if_splits)
  have la: "layout a = l" using agree_layout(1) [OF Cons.prems(1)] .
  have d: "decided_at r c i"
    by (rule iteration_decided [OF ok f g rows fits plan frame sel i bool la Cons.prems(2) c(1)])
  have "acc_cells r \<subseteq> snd t0" using fitsD(10) [OF fits] row_acc(2) [OF ok] by simp
  from agree_decided [OF ok bool i Cons.prems(2) d Cons.prems(1) iteration_kept(1) [OF ok f g plan frame sel la c(1)]
      frame_within [OF fits] this] have "agree l t0 i c a2" .
  then show ?case using c(2) Cons.IH [OF _ d] by blast
qed simp

lemma decided_alone:
  assumes "decides_bool r" "i < STRIP" "decided_all r (alone i) b = Some over"
  shows "over \<longleftrightarrow> decided_at r b i"
  using assms by (auto simp: decided_all_def all_decided_def decided_at_def decides_bool_def bind_eq_Some_conv)

lemma decided_member:
  assumes "decides_bool r" "i \<in> set (pixels sel)" "decided_all r sel b = Some True"
  shows "decided_at r b i"
  using assms by (auto simp: decided_all_def all_decided_def decided_at_def decides_bool_def bind_eq_Some_conv list_all_iff)

lemma decided_agree:
  assumes ok: "reduce_ok l r masked" "\<not> slot_is_scalar (red_acc r)" and bool: "decides_bool r" and i: "i < STRIP"
    and agree: "agree l t i b b2" and "acc_cells r \<inter> fst t = {}"
  shows "decided_at r b i = decided_at r b2 i"
proof -
  have la: "layout b = l" "layout b2 = l" using agree_layout [OF agree] by simp_all
  note acc = acc_bool [OF ok bool la(1)]
  have "src_at d b i = src_at d b2 i" if "bool_src b (red_acc r) = Some d" for d
    by (rule reads_onlyD [OF reads_src i i agree, of "(BBool, slot_kind (red_acc r))"])
      (use bool_src_reads [OF that] acc(1,3) la assms(6) in \<open>simp_all add: readable_def\<close>)
  then show ?thesis using src_layout(3) [of b2 b "red_acc r"] la by (auto simp: decided_at_def)
qed

lemma uniform_plan:
  assumes ok: "reduce_ok l r masked" "\<not> slot_is_scalar (red_acc r)" and bool: "decides_bool r"
    and plan: "plan_ok r masked start stop index lp" and frame: "reduce_frame l r start stop index"
  shows "loop_uniform lp" "\<not> loop_early lp"
  using ok bool plan reads_scalar [OF frameD(1) [OF frame]] reads_scalar [OF frameD(2) [OF frame]]
  by (auto simp: reduce_ok_def plan_ok_def all_scalar_def bound_cells_def takes_early_def decides_bool_def)

lemma in_step:
  assumes ok: "reduce_ok l r masked" "\<not> slot_is_scalar (red_acc r)" and bool: "decides_bool r"
    and plan: "plan_ok r masked start stop index lp" and sel: "sel_ok sel" "pixels sel \<noteq> []"
    and frame: "reduce_frame l r start stop index"
    and run: "row_iteration m r lp start stop index run_loop contribute sel inner k run a = Some (over, run1, b)"
  shows "participants r lp start stop sel k (fst run) a = sel" "decided_all r sel b = Some over"
proof -
  note uniform = uniform_plan [OF ok bool plan frame]
  then show p: "participants r lp start stop sel k (fst run) a = sel" by (simp add: participants_def)
  have "sel \<noteq> []" using sel by auto
  have "slot_is_none (red_filter r) \<or> loop_masked lp" using ok bool plan by (auto simp: reduce_ok_def plan_ok_def)
  then show "decided_all r sel b = Some over"
    using run \<open>sel \<noteq> []\<close> uniform(2)
    by (auto simp: row_iteration_parts p row_rest_def row_tail_def contributors_def Let_def bind_eq_Some_conv split: if_splits)
qed

lemma row_loop_in_step:
  assumes ok: "reduce_ok l r masked" "\<not> slot_is_scalar (red_acc r)" and f: "acts l S1 M1 spoil1 run_loop"
    and g: "acts l S2 M2 spoil2 contribute" and rows: "row_cells M1" "row_cells M2"
    and fits: "reduce_fits r masked (S1 \<union> S2) (M1 \<union> M2) spoil1 spoil2 t0 t1 t2"
    and plan: "plan_ok r masked start stop index lp" "plan_ok r masked start stop index lp2"
    and frame: "reduce_frame l r start stop index" and sel: "sel_ok sel" "i \<in> set (pixels sel)" and bool: "decides_bool r"
    and same: "\<And>k. same_index r lp lp2 k k"
    and "agree l t0 i a a2" "fst run i = fst run' i"
    and "row_loop m r lp start stop index run_loop contribute sel inner ks run a = Some b"
  shows "\<exists>b2. row_loop m r lp2 start stop index run_loop contribute (alone i) inner ks run' a2 = Some b2 \<and> agree l t0 i b b2"
  using assms(15-17)
proof (induction ks arbitrary: run run' a a2)
  case (Cons k ks)
  have i: "i < STRIP" using sel(2) pixels_below by blast
  have alone: "sel_ok (alone i)" "pixels (alone i) \<noteq> []" "i \<in> set (pixels (alone i))" using i by (simp_all add: alone_ok)
  have some: "pixels sel \<noteq> []" using sel(2) by auto
  obtain over run1 c where c: "row_iteration m r lp start stop index run_loop contribute sel inner k run a = Some (over, run1, c)"
    "(if over then Some c else row_loop m r lp start stop index run_loop contribute sel inner ks run1 c) = Some b"
    using Cons.prems(3) by (auto simp: bind_eq_Some_conv)
  note step = in_step [OF ok bool plan(1) sel(1) some frame c(1)]
  have "joins lp2 (fst run' i) (takes_part r lp2 start stop a2 i k)"
    using uniform_plan [OF ok bool plan(2) frame] by (simp add: joins_def)
  from iteration_turn [OF ok f g rows(2) fits plan frame sel(1) Cons.prems(1,2) same _ this c(1), unfolded step(1), OF sel(2)]
  obtain over2 run2 c2 where c2: "row_iteration m r lp2 start stop index run_loop contribute (alone i) inner k run' a2 = Some (over2, run2, c2)"
    "agree l t0 i c c2" "fst run1 i = fst run2 i" by blast
  have over2: "over2 \<longleftrightarrow> decided_at r c i"
    using decided_alone [OF bool i in_step(2) [OF ok bool plan(2) alone(1,2) frame c2(1)]]
      decided_agree [OF ok bool i c2(2) fitsD(7) [OF fits]] by simp
  show ?case
  proof (cases over)
    case True
    then have "over2" using over2 decided_member [OF bool sel(2)] step(2) by simp
    then show ?thesis using c(2) True c2 by simp
  next
    case False
    then have loop: "row_loop m r lp start stop index run_loop contribute sel inner ks run1 c = Some b" using c(2) by simp
    show ?thesis
    proof (cases over2)
      case True
      then have "agree l t0 i b c2"
        using decided_rest [OF ok f g rows fits plan(1) frame sel(1) i bool c2(2) _ loop] over2 by blast
      then show ?thesis using True c2(1) by simp
    next
      case False
      then show ?thesis using Cons.IH [OF c2(2,3) loop] c2(1) by simp
    qed
  qed
qed simp

end
