(* ===== verification/StripIndices.thy ===== *)
theory StripIndices
  imports StripDecided SamplingLaws
begin

unbundle bit_operations_syntax

text \<open>
  The indices a pixel goes through in the strip's loop are those of its own: counted from its own
  start when each pixel has an index of its own, and out of the union of all ranges when the strip
  shares one. A union too long to count would panic for the strip, and no part of it is longer.
\<close>

section \<open>Words as numbers\<close>

lemma sint_added: "- (2 ^ 31) \<le> sint x + k \<Longrightarrow> sint x + k < 2 ^ 31 \<Longrightarrow> sint (x + word_of_int k) = sint x + k" for x :: i32
  using small_sint [of "sint x + k"] by (simp add: wi_hom_add)

lemma sint_taken: "- (2 ^ 31) \<le> sint x - sint y \<Longrightarrow> sint x - sint y < 2 ^ 31 \<Longrightarrow> sint (x - y) = sint x - sint y" for x y :: i32
  using small_sint [of "sint x - sint y"] by (simp add: wi_hom_sub)

lemma sint_int_max: "sint (int_max a b) = max (sint a) (sint b)"
  by (simp add: int_max_def)

lemma sint_int_min: "sint (int_min a b) = min (sint a) (sint b)"
  by (simp add: int_min_def)

lemma int_max_zero: "0 \<le> sint (int_max a 0)"
  by (simp add: sint_int_max)

lemma sint_of_count: "int k < 2 ^ 31 \<Longrightarrow> sint (of_nat k :: i32) = int k"
  using small_sint [of "int k"] by simp

lemma offset_at:
  "src_at start ws i = x \<Longrightarrow> src_at stop ws i = y \<Longrightarrow> offset_count start stop ws i = int_max (y - x) 0"
  by (simp add: offset_count_def)

section \<open>Some of a loop's iterations\<close>

lemma filter_between: "filter (\<lambda>k. a \<le> k \<and> k < b) [0..<n] = [a..<min b n]"
  by (induction n) (auto simp: min_def not_less le_Suc_eq)

lemma iterations_between:
  assumes "\<And>k. k < nat (sint count) \<Longrightarrow> P (of_nat k) \<longleftrightarrow> a \<le> k \<and> k < b" "b \<le> nat (sint count)"
  shows "filter P (iterations count) = map of_nat [a..<b]"
proof -
  have "filter P (iterations count) = map of_nat (filter (\<lambda>k. a \<le> k \<and> k < b) [0..<nat (sint count)])"
    unfolding iterations_def filter_map comp_def by (rule arg_cong [OF filter_cong]) (use assms(1) in auto)
  then show ?thesis using assms(2) by (simp add: filter_between min_absorb1)
qed

lemma matched:
  assumes "\<And>k. k < nat (sint count2) \<Longrightarrow> R (of_nat (a + k)) (of_nat k)" "b = a + nat (sint count2)"
  shows "list_all2 R (map of_nat [a..<b]) (iterations count2)"
  using assms by (auto simp: iterations_def list_all2_conv_all_nth)

section \<open>The longest range\<close>

lemma longest:
  "sint (fold (\<lambda>i n. int_max n (f i)) is n) \<ge> sint n"
  "j \<in> set is \<Longrightarrow> sint (f j) \<le> sint (fold (\<lambda>i n. int_max n (f i)) is n)"
proof -
  show below: "sint (fold (\<lambda>i n. int_max n (f i)) is n) \<ge> sint n" for "is" n
  proof (induction "is" arbitrary: n)
    case (Cons i "is")
    from Cons.IH [of "int_max n (f i)"] show ?case by (simp add: sint_int_max)
  qed simp
  show "j \<in> set is \<Longrightarrow> sint (f j) \<le> sint (fold (\<lambda>i n. int_max n (f i)) is n)"
  proof (induction "is" arbitrary: n)
    case (Cons i "is")
    show ?case
    proof (cases "j = i")
      case True
      then show ?thesis using below [of "int_max n (f i)" "is"] by (simp add: sint_int_max)
    qed (use Cons in simp)
  qed simp
qed

lemma longest_same:
  assumes "\<And>i. i \<in> set is \<Longrightarrow> f i = c" "0 \<le> sint c" "is \<noteq> []"
  shows "fold (\<lambda>i n. int_max n (f i)) is 0 = c"
proof -
  have "fold (\<lambda>i n. int_max n (f i)) is n = c" if "sint n \<le> sint c" "is \<noteq> []" "\<And>i. i \<in> set is \<Longrightarrow> f i = c" for "is" n
    using that
  proof (induction "is" arbitrary: n)
    case (Cons i "is")
    have "int_max n (f i) = c" using Cons.prems(1,3) by (auto simp: int_max_def)
    then show ?case using Cons.IH [of c] Cons.prems(3) by (cases "is") auto
  qed simp
  from this [of 0 "is"] assms show ?thesis by simp
qed

section \<open>The union of the ranges\<close>

lemma union_covers:
  assumes "range_union start stop sel ws = (first, past)" "i \<in> set (pixels sel)"
    and "src_at start ws i = x" "int_max (src_at stop ws i - x) 0 = c" "0 < sint c"
  shows "sint first \<le> sint x" "sint (x + c) \<le> sint past"
proof -
  let ?step = "\<lambda>i (first, past).
      let count = offset_count start stop ws i
      in if 0 < sint count then (int_min first (src_at start ws i), int_max past (src_at start ws i + count)) else (first, past)"
  have grow: "sint (fst (fold ?step is u)) \<le> sint (fst u) \<and> sint (snd u) \<le> sint (snd (fold ?step is u))" for "is" and u :: "i32 \<times> i32"
  proof (induction "is" arbitrary: u)
    case (Cons j "is")
    have "sint (fst (?step j u)) \<le> sint (fst u) \<and> sint (snd u) \<le> sint (snd (?step j u))"
      by (cases u) (simp add: Let_def sint_int_min sint_int_max)
    then show ?case using Cons.IH [of "?step j u"] by (auto intro: order_trans)
  qed simp
  have covered: "sint (fst (fold ?step is u)) \<le> sint x \<and> sint (x + c) \<le> sint (snd (fold ?step is u))" if "i \<in> set is" for "is" u
    using that
  proof (induction "is" arbitrary: u)
    case (Cons j "is")
    show ?case
    proof (cases "j = i")
      case True
      have "sint (fst (?step j u)) \<le> sint x \<and> sint (x + c) \<le> sint (snd (?step j u))"
        using assms(3-5) by (cases u) (auto simp: True Let_def sint_int_min sint_int_max offset_count_def)
      then show ?thesis using grow [of "is" "?step j u"] by (auto intro: order_trans)
    qed (use Cons in simp)
  qed simp
  show "sint first \<le> sint x" "sint (x + c) \<le> sint past"
    using covered [OF assms(2), of "(I32_MAX, I32_MIN)"] assms(1) by (simp_all add: range_union_def)
qed

lemma union_alone:
  assumes "i < STRIP" "src_at start ws i = x" "int_max (src_at stop ws i - x) 0 = c"
  shows "range_union start stop (alone i) ws = (if 0 < sint c then (x, x + c) else (I32_MAX, I32_MIN))"
proof -
  have "sint I32_MAX = 2 ^ 31 - 1" "sint I32_MIN = - (2 ^ 31)" by (simp_all add: I32_MAX_def I32_MIN_def)
  then have ends: "sint (int_min I32_MAX v) = sint v" "sint (int_max I32_MIN v) = sint v" for v
    using sint_range [of v] by (simp_all add: sint_int_min sint_int_max)
  have "int_min I32_MAX v = v" "int_max I32_MIN v = v" for v
    by (rule signed_word_eqI, rule ends)+
  then show ?thesis using assms by (simp add: range_union_def offset_count_def)
qed

section \<open>The plan for a strip and for a pixel\<close>

definition plan_of :: "reduction \<Rightarrow> i32 src \<Rightarrow> i32 src \<Rightarrow> i32 dst \<Rightarrow> bool \<Rightarrow> selection \<Rightarrow> workspace \<Rightarrow> row_plan" where
  "plan_of r start stop index masked sel ws =
     (let uniform = (src_is_scalar start \<and> src_is_scalar stop);
          shared = (\<not> uniform \<and> (case index of One _ \<Rightarrow> True | Many _ \<Rightarrow> False));
          ends = (if shared then range_union start stop sel ws else (I32_MAX, I32_MIN))
      in \<lparr>loop_early = takes_early r, loop_shared = shared, loop_uniform = uniform,
          loop_first = fst ends, loop_past = snd ends, loop_masked = masked\<rparr>)"

definition loop_count :: "i32 src \<Rightarrow> i32 src \<Rightarrow> row_plan \<Rightarrow> selection \<Rightarrow> workspace \<Rightarrow> i32 option" where
  "loop_count start stop lp sel ws =
     (if loop_shared lp then union_length (loop_first lp) (loop_past lp)
      else Some (fold (\<lambda>i n. int_max n (offset_count start stop ws i)) (pixels sel) 0))"

lemma strip_reduce_rows:
  assumes "\<not> slot_is_scalar (red_acc r)"
  shows "strip_reduce m r bare run_loop contribute sel (Suc inner) ws =
     do { start \<leftarrow> int_src ws (red_start r); stop \<leftarrow> int_src ws (red_end r); index \<leftarrow> int_dst ws (red_index r);
          let lp = plan_of r start stop index (\<not> slot_is_none (red_filter r) \<and> bare) sel ws in
          do { count \<leftarrow> loop_count start stop lp sel ws;
               row_loop m r lp start stop index run_loop contribute sel inner (iterations count)
                 ((\<lambda>i. i \<in> set (pixels sel)), length (pixels sel)) ws } }"
  using assms unfolding strip_reduce_def plan_of_def loop_count_def takes_early_def
  by (simp add: Let_def case_prod_beta cong: if_cong)

lemma plan_of_ok: "(masked \<Longrightarrow> \<not> slot_is_none (red_filter r)) \<Longrightarrow> plan_ok r masked start stop index (plan_of r start stop index masked sel ws)"
  by (simp add: plan_ok_def plan_of_def Let_def)

text \<open>Where each pixel has an index of its own.\<close>

lemma own_indices:
  assumes i: "i \<in> set (pixels sel)" and lp: "\<not> loop_shared lp" "\<not> loop_shared lp2"
    and at: "src_at start a i = x" "src_at stop a i = y" "src_at start a2 i = x" "src_at stop a2 i = y"
    and count: "loop_count start stop lp sel a = Some n"
  shows "\<exists>n2. loop_count start stop lp2 (alone i) a2 = Some n2 \<and>
    list_all2 (same_index r lp lp2) (filter (part_at r lp x y) (iterations n)) (iterations n2) \<and>
    (\<forall>k2 \<in> set (iterations n2). part_at r lp2 x y k2)"
proof -
  let ?c = "int_max (y - x) 0"
  have c: "offset_count start stop a i = ?c" "offset_count start stop a2 i = ?c" using offset_at at by blast+
  have n: "n = fold (\<lambda>i n. int_max n (offset_count start stop a i)) (pixels sel) 0" using count lp(1) by (simp add: loop_count_def)
  have le: "sint ?c \<le> sint n" using longest(2) [OF i, of "offset_count start stop a" 0] unfolding n c(1) .
  have n2: "loop_count start stop lp2 (alone i) a2 = Some ?c"
    using lp(2) i pixels_below c(2) longest_same [of "[i]" "offset_count start stop a2" ?c] int_max_zero by (simp add: loop_count_def)
  have small: "int k < 2 ^ 31" if "k < nat (sint v)" for k and v :: i32 using that sint_range [of v] by simp
  have part: "part_at r lp x y (of_nat k) \<longleftrightarrow> 0 \<le> k \<and> k < nat (sint ?c)" if "k < nat (sint n)" for k
    using lp(1) sint_of_count [OF small [OF that]] by (simp add: part_at_def) linarith
  have "filter (part_at r lp x y) (iterations n) = map of_nat [0..<nat (sint ?c)]"
    by (rule iterations_between [OF part]) (use le in auto)
  moreover have "list_all2 (same_index r lp lp2) (map of_nat [0..<nat (sint ?c)]) (iterations ?c)"
    by (rule matched) (use lp in \<open>simp_all add: same_index_def\<close>)
  moreover have "\<forall>k2 \<in> set (iterations ?c). part_at r lp2 x y k2"
    using lp(2) small sint_of_count by (auto simp: iterations_def part_at_def)
  ultimately show ?thesis using n2 by simp
qed

text \<open>Where the strip shares one.\<close>

lemma same_shared:
  assumes "loop_shared lp" "loop_shared lp2"
    and "if red_reducer r = RedLast then loop_past lp - 1 - k = loop_past lp2 - 1 - k2 else loop_first lp + k = loop_first lp2 + k2"
  shows "same_index r lp lp2 k k2"
  using assms by (auto simp: same_index_def shared_at_def)

lemma union_length_eq:
  assumes "union_length first past = Some n"
  shows "nat (sint n) = nat (sint past - sint first)" "sint first < sint past \<Longrightarrow> sint past - sint first < 2 ^ 31"
proof -
  have "sint n = max 0 (sint past - sint first)"
    using assms sint_taken [of past first] sint_range [of past] sint_range [of first]
    by (auto simp: union_length_def split: if_splits)
  then show "nat (sint n) = nat (sint past - sint first)" by simp
  show "sint past - sint first < 2 ^ 31" if "sint first < sint past"
    using assms that by (auto simp: union_length_def split: if_splits)
qed

lemma shared_number:
  assumes "union_length (loop_first lp) (loop_past lp) = Some n" "k < nat (sint n)"
  shows "sint (shared_at r lp (of_nat k)) =
    (if red_reducer r = RedLast then sint (loop_past lp) - 1 - int k else sint (loop_first lp) + int k)"
proof -
  let ?f = "loop_first lp" and ?p = "loop_past lp"
  have k: "int k < sint ?p - sint ?f" using union_length_eq(1) [OF assms(1)] assms(2) by simp
  have "sint (?f + word_of_int (int k)) = sint ?f + int k"
    by (rule sint_added) (use k sint_range [of ?f] sint_range [of ?p] in linarith)+
  then have first: "sint (?f + of_nat k) = sint ?f + int k" by simp
  have sum: "sint (?p + word_of_int (- 1 - int k)) = sint ?p + (- 1 - int k)"
    by (rule sint_added) (use k sint_range [of ?f] sint_range [of ?p] in linarith)+
  have as_sum: "?p - 1 - of_nat k = ?p + word_of_int (- 1 - int k)" by (simp add: algebra_simps)
  have last: "sint (?p - 1 - of_nat k) = sint ?p - 1 - int k" unfolding as_sum sum by linarith
  show ?thesis
  proof (cases "red_reducer r = RedLast")
    case True
    show ?thesis unfolding shared_at_def if_P [OF True] by (rule last)
  next
    case False
    show ?thesis unfolding shared_at_def if_not_P [OF False] by (rule first)
  qed
qed

text \<open>The iterations of the union that fall into one range.\<close>

lemma shared_part_of:
  fixes r :: reduction
  assumes lp: "loop_shared lp" and u: "union_length (loop_first lp) (loop_past lp) = Some n"
    and x: "sint (loop_first lp) \<le> sint x" "sint e \<le> sint (loop_past lp)" and e: "e = x + int_max (y - x) 0"
  defines "a \<equiv> nat (if red_reducer r = RedLast then sint (loop_past lp) - sint e else sint x - sint (loop_first lp))"
  shows "filter (part_at r lp x y) (iterations n) = map of_nat [a..<a + nat (sint e - sint x)]"
proof -
  let ?f = "loop_first lp" and ?p = "loop_past lp"
  have n: "nat (sint n) = nat (sint ?p - sint ?f)" using union_length_eq(1) [OF u] .
  show ?thesis
  proof (cases "sint x < sint e")
    case True
    show ?thesis
    proof (rule iterations_between)
      fix k assume k: "k < nat (sint n)"
      show "part_at r lp x y (of_nat k) \<longleftrightarrow> a \<le> k \<and> k < a + nat (sint e - sint x)"
        using lp shared_number [OF u k, of r] x True k n unfolding part_at_def e [symmetric] a_def by auto
    next
      show "a + nat (sint e - sint x) \<le> nat (sint n)" using x True n unfolding a_def by auto
    qed
  next
    case False
    have "\<not> part_at r lp x y k" for k using lp False unfolding part_at_def e [symmetric] by auto
    then show ?thesis using False by simp
  qed
qed

lemma shared_indices:
  assumes i: "i \<in> set (pixels sel)" and lp: "loop_shared lp" "loop_shared lp2"
    and ends: "range_union start stop sel a = (loop_first lp, loop_past lp)"
      "range_union start stop (alone i) a2 = (loop_first lp2, loop_past lp2)"
    and at: "src_at start a i = x" "src_at stop a i = y" "src_at start a2 i = x" "src_at stop a2 i = y"
    and count: "loop_count start stop lp sel a = Some n"
  shows "\<exists>n2. loop_count start stop lp2 (alone i) a2 = Some n2 \<and>
    list_all2 (same_index r lp lp2) (filter (part_at r lp x y) (iterations n)) (iterations n2) \<and>
    (\<forall>k2 \<in> set (iterations n2). part_at r lp2 x y k2)"
proof -
  let ?c = "int_max (y - x) 0" and ?e = "x + int_max (y - x) 0"
  have u: "union_length (loop_first lp) (loop_past lp) = Some n" using count lp(1) by (simp add: loop_count_def)
  have lane: "range_union start stop (alone i) a2 = (if 0 < sint ?c then (x, ?e) else (I32_MAX, I32_MIN))"
    using union_alone [OF pixels_below [OF i] at(3), of stop ?c] at(4) by simp
  show ?thesis
  proof (cases "0 < sint ?c")
    case False
    then have "loop_first lp2 = I32_MAX" "loop_past lp2 = I32_MIN" using lane ends(2) by simp_all
    then have n2: "loop_count start stop lp2 (alone i) a2 = Some 0"
      using lp(2) by (simp add: loop_count_def union_length_def I32_MAX_def I32_MIN_def)
    have "?c = 0" using False int_max_zero [of "y - x"] by (simp add: signed_word_eqI)
    then have "\<not> part_at r lp x y k" for k using lp(1) by (simp add: part_at_def)
    then show ?thesis using n2 by (simp add: iterations_def)
  next
    case True
    then have own: "loop_first lp2 = x" "loop_past lp2 = ?e" using lane ends(2) by simp_all
    note covers = union_covers [OF ends(1) i at(1), of ?c] at(2) True
    have x: "sint (loop_first lp) \<le> sint x" "sint ?e \<le> sint (loop_past lp)" using covers by simp_all
    have "sint ?e - sint x < 2 ^ 31" if "sint x < sint ?e" using union_length_eq(2) [OF u] x that by linarith
    then obtain n2 where n2: "union_length x ?e = Some n2"
      by (cases "sint ?e \<le> sint x") (auto simp: union_length_def)
    have len: "nat (sint n2) = nat (sint ?e - sint x)" using union_length_eq(1) [OF n2] .
    note u2 = n2 [folded own]
    let ?a = "nat (if red_reducer r = RedLast then sint (loop_past lp) - sint ?e else sint x - sint (loop_first lp))"
    have "filter (part_at r lp x y) (iterations n) = map of_nat [?a..<?a + nat (sint ?e - sint x)]"
      by (rule shared_part_of [OF lp(1) u x refl])
    moreover have "list_all2 (same_index r lp lp2) (map of_nat [?a..<?a + nat (sint ?e - sint x)]) (iterations n2)"
    proof (rule matched)
      fix k assume k: "k < nat (sint n2)"
      have "?a + k < nat (sint n)" using k x len union_length_eq(1) [OF u] by auto
      then have "sint (shared_at r lp (of_nat (?a + k))) = sint (shared_at r lp2 (of_nat k))"
        using shared_number [OF u, of "?a + k" r] shared_number [OF u2 k, of r] x own by auto
      then show "same_index r lp lp2 (of_nat (?a + k)) (of_nat k)"
        using lp by (auto simp: same_index_def intro: signed_word_eqI)
    qed (simp add: len)
    moreover have "part_at r lp2 x y (of_nat k)" if "k < nat (sint n2)" for k
      using lp(2) shared_number [OF u2 that, of r] that len own unfolding part_at_def by auto
    ultimately show ?thesis
      using n2 own lp(2) by (auto simp: loop_count_def iterations_def)
  qed
qed

end
