(* ===== verification/StripEffects.thy ===== *)
theory StripEffects
  imports StripIndices
begin

unbundle bit_operations_syntax

text \<open>
  What a block may touch and spoil, worked out from its code alone, and that it runs each pixel of a
  strip as it runs that pixel alone: the strip interpreter's contract.
\<close>

section \<open>Reductions\<close>

lemma reduce_fetched:
  assumes ok: "reduce_ok l r masked" and l: "layout a = l"
    and "int_src a (red_start r) = Some start" "int_src a (red_end r) = Some stop" "int_dst a (red_index r) = Some index"
  shows "reduce_frame l r start stop index"
  using reduce_okD(1,2) [OF ok] int_src_reads [OF assms(3)] int_src_reads [OF assms(4)] dst_writes(2) [OF assms(5)] l
  by (simp add: reduce_frame_def bound_cells_def index_cell_def)

lemma reduce_row_kept:
  assumes ok: "reduce_ok l r masked" "\<not> slot_is_scalar (red_acc r)"
    and masked: "masked = (\<not> slot_is_none (red_filter r) \<and> bare)"
    and f: "acts l S1 M1 spoil1 run_loop" and g: "acts l S2 M2 spoil2 contribute"
    and *: "sel_ok sel" "layout a = l" "strip_reduce m r bare run_loop contribute sel levels a = Some b"
  shows "kept l (S1 \<union> S2 \<union> shared_part {index_cell r}) (M1 \<union> M2 \<union> acc_cells r \<union> masked_part {index_cell r}) sel a b"
proof -
  obtain inner where levels: "levels = Suc inner" using *(3) ok(2) by (cases levels) (auto simp: strip_reduce_def bind_eq_Some_conv)
  obtain start stop index count where run: "int_src a (red_start r) = Some start" "int_src a (red_end r) = Some stop"
    "int_dst a (red_index r) = Some index"
    "row_loop m r (plan_of r start stop index masked sel a) start stop index run_loop contribute sel inner (iterations count)
       ((\<lambda>i. i \<in> set (pixels sel)), length (pixels sel)) a = Some b"
    using *(3) unfolding levels strip_reduce_rows [OF ok(2)] masked by (auto simp: Let_def bind_eq_Some_conv)
  have "plan_ok r masked start stop index (plan_of r start stop index masked sel a)"
    by (rule plan_of_ok) (simp add: masked)
  from row_loop_kept [OF ok f g this reduce_fetched [OF ok(1) *(2) run(1-3)] *(1,2) run(4)] show ?thesis .
qed

lemma reduce_row_alone:
  assumes ok: "reduce_ok l r masked" "\<not> slot_is_scalar (red_acc r)"
    and masked: "masked = (\<not> slot_is_none (red_filter r) \<and> bare)"
    and f: "acts l S1 M1 spoil1 run_loop" and g: "acts l S2 M2 spoil2 contribute" and rows: "row_cells M1" "row_cells M2"
    and fits: "reduce_fits r masked (S1 \<union> S2) (M1 \<union> M2) spoil1 spoil2 t0 t1 t2"
    and sel: "sel_ok sel" "i \<in> set (pixels sel)" and agree: "agree l t0 i a a2"
    and *: "strip_reduce m r bare run_loop contribute sel levels a = Some b"
  shows "\<exists>b2. strip_reduce m r bare run_loop contribute (alone i) levels a2 = Some b2 \<and> agree l t0 i b b2"
proof -
  have i: "i < STRIP" using sel(2) pixels_below by blast
  have la: "layout a = l" "layout a2 = l" using agree_layout [OF agree] by simp_all
  obtain inner where levels: "levels = Suc inner" using * ok(2) by (cases levels) (auto simp: strip_reduce_def bind_eq_Some_conv)
  obtain start stop index count where src: "int_src a (red_start r) = Some start" "int_src a (red_end r) = Some stop"
    "int_dst a (red_index r) = Some index" and
    run: "loop_count start stop (plan_of r start stop index masked sel a) sel a = Some count"
    "row_loop m r (plan_of r start stop index masked sel a) start stop index run_loop contribute sel inner (iterations count)
       ((\<lambda>i. i \<in> set (pixels sel)), length (pixels sel)) a = Some b"
    using * unfolding levels strip_reduce_rows [OF ok(2)] masked by (auto simp: Let_def bind_eq_Some_conv)
  let ?lp = "plan_of r start stop index masked sel a" and ?lp2 = "plan_of r start stop index masked (alone i) a2"
  note frame = reduce_fetched [OF ok(1) la(1) src]
  have plan: "plan_ok r masked start stop index ?lp" "plan_ok r masked start stop index ?lp2"
    by (rule plan_of_ok, simp add: masked)+
  have src2: "int_src a2 (red_start r) = Some start" "int_src a2 (red_end r) = Some stop" "int_dst a2 (red_index r) = Some index"
    using src src_layout(2) [of a2 a] dst_layout(2) [of a2 a] la by simp_all
  have lane: "strip_reduce m r bare run_loop contribute (alone i) levels a2 =
      do { count \<leftarrow> loop_count start stop ?lp2 (alone i) a2;
           row_loop m r ?lp2 start stop index run_loop contribute (alone i) inner (iterations count)
             ((\<lambda>j. j \<in> set (pixels (alone i))), length (pixels (alone i))) a2 }"
    unfolding levels strip_reduce_rows [OF ok(2)] masked by (simp add: src2 Let_def)
  note at = reads_onlyD [OF reads_src i i agree]
  have ends: "src_at start a2 i = src_at start a i" "src_at stop a2 i = src_at stop a i"
    using at [OF frameD(1) [OF frame]] at [OF frameD(2) [OF frame]] fitsD(8) [OF fits] by (simp_all add: bound_cells_def)
  let ?x = "src_at start a i" and ?y = "src_at stop a i"
  have shared: "loop_shared ?lp2 = loop_shared ?lp" by (simp add: plan_of_def Let_def)
  have "\<exists>n2. loop_count start stop ?lp2 (alone i) a2 = Some n2 \<and>
    list_all2 (same_index r ?lp ?lp2) (filter (part_at r ?lp ?x ?y) (iterations count)) (iterations n2) \<and>
    (\<forall>k2 \<in> set (iterations n2). part_at r ?lp2 ?x ?y k2)"
  proof (cases "loop_shared ?lp")
    case True
    then have "range_union start stop sel a = (loop_first ?lp, loop_past ?lp)"
      "range_union start stop (alone i) a2 = (loop_first ?lp2, loop_past ?lp2)"
      by (simp_all add: plan_of_def Let_def split: if_splits)
    from shared_indices [OF sel(2) _ _ this refl refl ends run(1)] show ?thesis using True shared by simp
  next
    case False
    from own_indices [OF sel(2) False _ refl refl ends run(1)] show ?thesis using False shared by simp
  qed
  then obtain n2 where n2: "loop_count start stop ?lp2 (alone i) a2 = Some n2"
    "list_all2 (same_index r ?lp ?lp2) (filter (part_at r ?lp ?x ?y) (iterations count)) (iterations n2)"
    "\<forall>k2 \<in> set (iterations n2). part_at r ?lp2 ?x ?y k2" by blast
  have uniform: "\<forall>k \<in> set (iterations count). part_at r ?lp ?x ?y k" if "loop_uniform ?lp"
  proof -
    have scalar: "src_is_scalar start" "src_is_scalar stop" "\<not> loop_shared ?lp" using that by (simp_all add: plan_of_def Let_def)
    have "offset_count start stop a j = int_max (?y - ?x) 0" for j
      using reads_anywhere [OF frameD(1) [OF frame] scalar(1) la(1)] reads_anywhere [OF frameD(2) [OF frame] scalar(2) la(1)]
      by (metis offset_count_def)
    then have "count = int_max (?y - ?x) 0"
      using run(1) scalar(3) longest_same [of "pixels sel" "offset_count start stop a" "int_max (?y - ?x) 0"] int_max_zero sel(2)
      by (force simp: loop_count_def)
    then show ?thesis using scalar(3) sint_range [of count] sint_of_count by (auto simp: iterations_def part_at_def)
  qed
  show ?thesis
  proof (cases "decides_bool r")
    case False
    have "\<exists>b2. row_loop m r ?lp2 start stop index run_loop contribute (alone i) inner (iterations n2)
        ((\<lambda>j. j \<in> set (pixels (alone i))), length (pixels (alone i))) a2 = Some b2 \<and> agree l t0 i b b2"
      by (rule row_loop_alone [OF ok f g rows fits plan frame sel False _ n2(3,2) agree _ counted_start counted_start refl refl run(2)])
        (use uniform sel(2) i in simp_all)
    then show ?thesis using lane n2(1) by simp
  next
    case True
    have "loop_uniform ?lp" using uniform_plan [OF ok True plan(1) frame] by simp
    then have part: "filter (part_at r ?lp ?x ?y) (iterations count) = iterations count" using uniform by (simp add: filter_id_conv)
    have unshared: "\<not> loop_shared ?lp" using \<open>loop_uniform ?lp\<close> by (simp add: plan_of_def Let_def)
    then have eq: "same_index r ?lp ?lp2 = (=)" using shared by (auto simp: same_index_def fun_eq_iff)
    have "iterations n2 = iterations count" using n2(2) unfolding part eq by (simp add: list.rel_eq)
    moreover have "\<exists>b2. row_loop m r ?lp2 start stop index run_loop contribute (alone i) inner (iterations count)
        ((\<lambda>j. j \<in> set (pixels (alone i))), length (pixels (alone i))) a2 = Some b2 \<and> agree l t0 i b b2"
      by (rule row_loop_in_step [OF ok f g rows fits plan frame sel True _ agree _ run(2)])
        (use sel(2) i eq in simp_all)
    ultimately show ?thesis using lane n2(1) by simp
  qed
qed

lemma strip_reduce_scalar:
  assumes "slot_is_scalar (red_acc r)"
  shows "strip_reduce m r bare run_loop contribute sel levels ws =
     do { start \<leftarrow> int_src ws (red_start r); stop \<leftarrow> int_src ws (red_end r); index \<leftarrow> int_dst ws (red_index r);
          scalar_loop m r start stop index run_loop contribute sel levels (iterations (offset_count start stop ws 0)) ws }"
  using assms by (simp add: strip_reduce_def)

lemma reduce_scalar_kept:
  assumes ok: "reduce_ok l r masked" "slot_is_scalar (red_acc r)"
    and f: "acts l S1 M1 spoil1 run_loop" and g: "acts l S2 M2 spoil2 contribute"
    and sub: "S1 \<union> S2 \<union> {index_cell r} \<union> shared_part (acc_cells r) \<subseteq> U" "M1 \<union> M2 \<union> masked_part (acc_cells r) \<subseteq> W"
    and *: "sel_ok sel" "layout a = l" "strip_reduce m r bare run_loop contribute sel levels a = Some b"
  shows "kept l U W sel a b"
proof -
  obtain start stop index where run: "int_src a (red_start r) = Some start" "int_src a (red_end r) = Some stop"
    "int_dst a (red_index r) = Some index"
    "scalar_loop m r start stop index run_loop contribute sel levels (iterations (offset_count start stop a 0)) a = Some b"
    using *(3) unfolding strip_reduce_scalar [OF ok(2)] by (auto simp: bind_eq_Some_conv)
  note frame = reduce_fetched [OF ok(1) *(2) run(1-3)]
  show ?thesis
    by (rule scalar_loop_kept [OF scalar_iteration_kept [OF ok f g frameD(3) [OF frame] sub *(1)] *(2) run(4)])
qed

lemma reduce_scalar_alone:
  assumes ok: "reduce_ok l r masked" "slot_is_scalar (red_acc r)"
    and f: "acts l S1 M1 spoil1 run_loop" and g: "acts l S2 M2 spoil2 contribute"
    and fits: "reduce_fits r masked S M spoil1 spoil2 t0 t1 t2"
    and sel: "sel_ok sel" "i \<in> set (pixels sel)" and agree: "agree l t0 i a a2"
    and *: "strip_reduce m r bare run_loop contribute sel levels a = Some b"
  shows "\<exists>b2. strip_reduce m r bare run_loop contribute (alone i) levels a2 = Some b2 \<and> agree l t0 i b b2"
proof -
  have i: "i < STRIP" using sel(2) pixels_below by blast
  have la: "layout a = l" "layout a2 = l" using agree_layout [OF agree] by simp_all
  obtain start stop index where src: "int_src a (red_start r) = Some start" "int_src a (red_end r) = Some stop"
    "int_dst a (red_index r) = Some index" and
    run: "scalar_loop m r start stop index run_loop contribute sel levels (iterations (offset_count start stop a 0)) a = Some b"
    using * unfolding strip_reduce_scalar [OF ok(2)] by (auto simp: bind_eq_Some_conv)
  note frame = reduce_fetched [OF ok(1) la(1) src]
  have "is_scalar_class (slot_kind (red_start r))" "is_scalar_class (slot_kind (red_end r))"
    using ok by (auto simp: reduce_ok_def all_scalar_def bound_cells_def)
  then have "offset_count start stop a2 0 = offset_count start stop a 0"
    using first_value [OF frameD(1) [OF frame] _ agree _ i] first_value [OF frameD(2) [OF frame] _ agree _ i] fitsD(8) [OF fits]
    by (simp add: offset_count_def bound_cells_def)
  moreover have "\<exists>b2. scalar_loop m r start stop index run_loop contribute (alone i) levels (iterations (offset_count start stop a 0)) a2 = Some b2 \<and>
    agree l t0 i b b2"
    by (rule scalar_loop_alone [OF _ agree run]) (rule scalar_iteration_alone [OF ok f g fits frameD [OF frame] sel])
  ultimately show ?thesis
    using src src_layout(2) [of a2 a] dst_layout(2) [of a2 a] la by (simp add: strip_reduce_scalar [OF ok(2)])
qed

definition reduce_shared :: "reduction \<Rightarrow> cell set \<Rightarrow> cell set" where
  "reduce_shared r S =
     (if slot_is_scalar (red_acc r) then S \<union> {index_cell r} \<union> shared_part (acc_cells r)
      else S \<union> shared_part {index_cell r})"

definition reduce_rows :: "reduction \<Rightarrow> cell set \<Rightarrow> cell set" where
  "reduce_rows r M =
     (if slot_is_scalar (red_acc r) then M else M \<union> acc_cells r \<union> masked_part {index_cell r})"

lemma acts_reduce:
  assumes ok: "reduce_ok l r masked" and masked: "masked = (\<not> slot_is_none (red_filter r) \<and> bare)"
    and f: "acts l S1 M1 spoil1 run_loop" and g: "acts l S2 M2 spoil2 contribute" and rows: "row_cells M1" "row_cells M2"
  shows "acts l (reduce_shared r (S1 \<union> S2)) (reduce_rows r (M1 \<union> M2)) (spoil_reduce r masked (S1 \<union> S2) (M1 \<union> M2) spoil1 spoil2)
    (\<lambda>sel levels ws. strip_reduce m r bare run_loop contribute sel levels ws)"
proof (rule actsI)
  fix sel levels a b assume *: "sel_ok sel" "layout a = l" "strip_reduce m r bare run_loop contribute sel levels a = Some b"
  show "kept l (reduce_shared r (S1 \<union> S2)) (reduce_rows r (M1 \<union> M2)) sel a b"
  proof (cases "slot_is_scalar (red_acc r)")
    case True
    have "\<not> is_row_class (snd c)" if "c \<in> acc_cells r" for c
    proof -
      have "is_scalar_class (snd c)" using ok True that by (auto simp: reduce_ok_def all_scalar_def)
      then show ?thesis by (cases "snd c") simp_all
    qed
    then have "masked_part (acc_cells r) = {}" by (auto simp: masked_part_def)
    then show ?thesis
      using reduce_scalar_kept [OF ok True f g _ _ *, of "reduce_shared r (S1 \<union> S2)" "reduce_rows r (M1 \<union> M2)"] True
      by (simp add: reduce_shared_def reduce_rows_def)
  next
    case False
    from reduce_row_kept [OF ok False masked f g *] show ?thesis using False by (simp add: reduce_shared_def reduce_rows_def)
  qed
next
  fix sel levels a b i s t a2
  assume *: "sel_ok sel" "i \<in> set (pixels sel)" "agree l s i a a2"
    "spoil_reduce r masked (S1 \<union> S2) (M1 \<union> M2) spoil1 spoil2 s = Some t"
    "strip_reduce m r bare run_loop contribute sel levels a = Some b"
  obtain t1 t2 where fits: "reduce_fits r masked (S1 \<union> S2) (M1 \<union> M2) spoil1 spoil2 t t1 t2" using spoil_reduceD(2) [OF *(4)] by blast
  have agree: "agree l t i a a2" using agree_weaker [OF *(3) spoil_reduceD(1) [OF *(4)]] .
  show "\<exists>b2. strip_reduce m r bare run_loop contribute (alone i) levels a2 = Some b2 \<and> agree l t i b b2"
    using reduce_scalar_alone [OF ok _ f g fits *(1,2) agree *(5)] reduce_row_alone [OF ok _ masked f g rows fits *(1,2) agree *(5)]
    by blast
qed

lemma reduce_rows_ok:
  assumes "reduce_ok l r masked" "row_cells M"
  shows "row_cells (reduce_rows r M)"
  using assms row_acc(3) [OF assms(1)] masked_rows [of "{index_cell r}"] by (auto simp: reduce_rows_def row_cells_def)

end
