(* ===== verification/StripContract.thy ===== *)
theory StripContract
  imports StripEffects
begin

unbundle bit_operations_syntax

text \<open>
  The effect of a block, worked out from its words: the cells it writes once for the strip, the rows
  it writes at the selected pixels, and what it leaves spoilt. A block with an effect runs each pixel
  of a strip as it runs the pixel alone. Stencils and scans have none.
\<close>

section \<open>Effects\<close>

type_synonym effect = "cell set \<times> cell set \<times> (spoilt \<Rightarrow> spoilt option)"

definition followed :: "effect \<Rightarrow> effect \<Rightarrow> effect" where
  "followed a b =
     (case (a, b) of ((S1, M1, spoil1), (S2, M2, spoil2)) \<Rightarrow>
        (S1 \<union> S2, M1 \<union> M2, \<lambda>s. Option.bind (spoil1 s) spoil2))"

definition branch_effect :: "layout \<Rightarrow> slot \<Rightarrow> effect \<Rightarrow> effect \<Rightarrow> effect option" where
  "branch_effect l condition a b =
     (case (a, b) of ((S1, M1, spoil1), (S2, M2, spoil2)) \<Rightarrow>
        if readable l (BBool, slot_kind condition)
        then Some (S1 \<union> S2, M1 \<union> M2, spoil_branch (BBool, slot_kind condition) S1 M1 spoil1 S2 M2 spoil2)
        else None)"

definition reduce_effect :: "layout \<Rightarrow> reduction \<Rightarrow> bool \<Rightarrow> effect \<Rightarrow> effect \<Rightarrow> effect option" where
  "reduce_effect l r masked a b =
     (case (a, b) of ((S1, M1, spoil1), (S2, M2, spoil2)) \<Rightarrow>
        if reduce_ok l r masked
        then Some (reduce_shared r (S1 \<union> S2), reduce_rows r (M1 \<union> M2),
          spoil_reduce r masked (S1 \<union> S2) (M1 \<union> M2) spoil1 spoil2)
        else None)"

definition table_effect :: "layout \<Rightarrow> bank \<Rightarrow> bool \<Rightarrow> slot \<Rightarrow> slot \<Rightarrow> slot \<Rightarrow> slot \<Rightarrow> slot \<Rightarrow> effect \<Rightarrow> effect option" where
  "table_effect l bank prefix dst index start stop v a =
     (case a of (S, M, spoil) \<Rightarrow>
        if table_ok l bank prefix dst index start stop v
        then Some (S \<union> {(BInt, slot_kind index), (bank, slot_kind dst)}, M,
          spoil_tabulate (BInt, slot_kind index) {(BInt, slot_kind start), (BInt, slot_kind stop)}
            (bank, slot_kind v) (bank, slot_kind dst) S M spoil)
        else None)"

definition step_effect :: "layout \<Rightarrow> instruction \<Rightarrow> effect option" where
  "step_effect l i =
     do { (R, Q, C) \<leftarrow> accesses i;
          if access_ok l (R, Q, C) then Some (shared_part C, masked_part C, spoil_write R Q C) else None }"

function effect :: "layout \<Rightarrow> instruction_word list \<Rightarrow> effect option" where
  "effect l code =
     (if code = [] then Some ({}, {}, Some)
      else case decode code of
        None \<Rightarrow> None
      | Some (Branch condition then_len else_len) \<Rightarrow>
          let rest = drop (width (Branch condition then_len else_len)) code;
              then_code = take (unat then_len) rest;
              rest = drop (unat then_len) rest;
              else_code = take (unat else_len) rest
          in do { a \<leftarrow> effect l then_code; b \<leftarrow> effect l else_code; e \<leftarrow> branch_effect l condition a b;
                  after \<leftarrow> effect l (drop (unat else_len) rest); Some (followed e after) }
      | Some (Reduce reducer bank acc index start stop flt v loop_len contribute_len) \<Rightarrow>
          let rest = drop (width (Reduce reducer bank acc index start stop flt v loop_len contribute_len)) code;
              loop_code = take (unat loop_len) rest;
              rest = drop (unat loop_len) rest;
              contribute = take (unat contribute_len) rest;
              r = \<lparr>red_reducer = reducer, red_bank = bank, red_acc = acc, red_index = index,
                   red_start = start, red_end = stop, red_filter = flt, red_value = v\<rparr>
          in do { a \<leftarrow> effect l loop_code; b \<leftarrow> effect l contribute;
                  e \<leftarrow> reduce_effect l r (\<not> slot_is_none flt \<and> contribute = []) a b;
                  after \<leftarrow> effect l (drop (unat contribute_len) rest); Some (followed e after) }
      | Some (Tabulate bank prefix dst index start stop v len) \<Rightarrow>
          let rest = drop (width (Tabulate bank prefix dst index start stop v len)) code
          in do { a \<leftarrow> effect l (take (unat len) rest);
                  e \<leftarrow> table_effect l bank prefix dst index start stop v a;
                  after \<leftarrow> effect l (drop (unat len) rest); Some (followed e after) }
      | Some i \<Rightarrow>
          do { e \<leftarrow> step_effect l i; after \<leftarrow> effect l (drop (width i) code); Some (followed e after) })"
  by pat_completeness auto

termination effect
  by (relation "measure (\<lambda>(l, code). length code)") (auto simp: width_def min_def)

declare effect.simps [simp del]

section \<open>The contract of a block\<close>

definition honours :: "layout \<Rightarrow> effect \<Rightarrow> action \<Rightarrow> bool" where
  "honours l e f \<longleftrightarrow> (case e of (S, M, spoil) \<Rightarrow> acts l S M spoil f \<and> row_cells M)"

lemma honours_followed:
  assumes "honours l a f" "honours l b g"
  shows "honours l (followed a b) (\<lambda>sel levels ws. Option.bind (f sel levels ws) (g sel levels))"
proof -
  obtain S1 M1 spoil1 S2 M2 spoil2 where eq: "a = (S1, M1, spoil1)" "b = (S2, M2, spoil2)" by (cases a; cases b)
  show ?thesis using assms acts_seq by (auto simp: eq honours_def followed_def row_cells_def)
qed

lemma honours_unless:
  assumes "honours l e f"
  shows "honours l e (\<lambda>sel levels ws. if short then None else f sel levels ws)"
proof (cases short)
  case True
  then show ?thesis using assms acts_silent by (cases e) (auto simp: honours_def)
qed (use assms in simp)

lemma honours_branch:
  assumes "honours l a f" "honours l b g" "branch_effect l condition a b = Some e"
  shows "honours l e (\<lambda>sel levels ws. strip_branch condition f g sel levels ws)"
proof -
  obtain S1 M1 spoil1 S2 M2 spoil2 where eq: "a = (S1, M1, spoil1)" "b = (S2, M2, spoil2)" by (cases a; cases b)
  have k: "readable l (BBool, slot_kind condition)"
    and e: "e = (S1 \<union> S2, M1 \<union> M2, spoil_branch (BBool, slot_kind condition) S1 M1 spoil1 S2 M2 spoil2)"
    using assms(3) by (simp_all add: eq branch_effect_def split: if_splits)
  have f: "acts l S1 M1 spoil1 f" "row_cells M1" "acts l S2 M2 spoil2 g" "row_cells M2"
    using assms(1,2) by (simp_all add: eq honours_def)
  have "row_cells (M1 \<union> M2)" using f(2,4) by (auto simp: row_cells_def)
  then show ?thesis using acts_branch [OF k f(1,3,2,4)] by (simp add: e honours_def)
qed

lemma honours_reduce:
  assumes "honours l a f" "honours l b g" "reduce_effect l r (\<not> slot_is_none (red_filter r) \<and> bare) a b = Some e"
  shows "honours l e (\<lambda>sel levels ws. strip_reduce m r bare f g sel levels ws)"
proof -
  obtain S1 M1 spoil1 S2 M2 spoil2 where eq: "a = (S1, M1, spoil1)" "b = (S2, M2, spoil2)" by (cases a; cases b)
  have ok: "reduce_ok l r (\<not> slot_is_none (red_filter r) \<and> bare)"
    and e: "e = (reduce_shared r (S1 \<union> S2), reduce_rows r (M1 \<union> M2),
      spoil_reduce r (\<not> slot_is_none (red_filter r) \<and> bare) (S1 \<union> S2) (M1 \<union> M2) spoil1 spoil2)"
    using assms(3) by (simp_all add: eq reduce_effect_def split: if_splits)
  have f: "acts l S1 M1 spoil1 f" "row_cells M1" "acts l S2 M2 spoil2 g" "row_cells M2"
    using assms(1,2) by (simp_all add: eq honours_def)
  have "row_cells (M1 \<union> M2)" using f(2,4) by (auto simp: row_cells_def)
  then show ?thesis using acts_reduce [OF ok refl f(1,3,2,4)] reduce_rows_ok [OF ok] by (simp add: e honours_def)
qed

lemma honours_table:
  assumes "honours l a f" "table_effect l bank prefix dst index start stop v a = Some e"
  shows "honours l e (\<lambda>sel levels ws. strip_tabulate m bank prefix dst index start stop v f sel levels ws)"
proof -
  obtain S M spoil where eq: "a = (S, M, spoil)" by (cases a)
  have ok: "table_ok l bank prefix dst index start stop v"
    and e: "e = (S \<union> {(BInt, slot_kind index), (bank, slot_kind dst)}, M,
      spoil_tabulate (BInt, slot_kind index) {(BInt, slot_kind start), (BInt, slot_kind stop)}
        (bank, slot_kind v) (bank, slot_kind dst) S M spoil)"
    using assms(2) by (simp_all add: eq table_effect_def split: if_splits)
  have f: "acts l S M spoil f" "row_cells M" using assms(1) by (simp_all add: eq honours_def)
  show ?thesis using acts_tabulate [OF ok f(1)] f(2) by (simp add: e honours_def)
qed

lemma honours_step:
  assumes "step_effect l i = Some e" "marks_sorted m"
  shows "honours l e (\<lambda>sel _ ws. step m sg i sel ws)"
proof -
  obtain R Q C where a: "accesses i = Some (R, Q, C)" "access_ok l (R, Q, C)"
    "e = (shared_part C, masked_part C, spoil_write R Q C)"
    using assms(1) by (auto simp: step_effect_def bind_eq_Some_conv simp del: split_paired_All split: if_splits)
  show ?thesis using step_acts [OF a(1,2) assms(2)] masked_rows by (simp add: a(3) honours_def)
qed

section \<open>Blocks, a construct at a time\<close>

definition nests :: "instruction \<Rightarrow> bool" where
  "nests i = (case i of Branch _ _ _ \<Rightarrow> True | Reduce _ _ _ _ _ _ _ _ _ _ \<Rightarrow> True | Tabulate _ _ _ _ _ _ _ _ \<Rightarrow> True | _ \<Rightarrow> False)"

lemma block_plain:
  assumes "decode code = Some i" "code \<noteq> []" "\<not> nests i"
  shows "block m sg code = (\<lambda>sel levels ws. Option.bind (step m sg i sel ws) (block m sg (drop (width i) code) sel levels))"
  using assms by (intro ext, subst block.simps) (cases i; simp add: nests_def)

lemma effect_plain:
  assumes "decode code = Some i" "code \<noteq> []" "\<not> nests i"
  shows "effect l code =
    do { e \<leftarrow> step_effect l i; after \<leftarrow> effect l (drop (width i) code); Some (followed e after) }"
  using assms by (subst effect.simps) (cases i; simp add: nests_def)

text \<open>The code after an instruction's words, and after so much of it.\<close>

definition code_after :: "instruction \<Rightarrow> instruction_word list \<Rightarrow> instruction_word list" where
  "code_after i code = drop (width i) code"

lemma block_branch:
  assumes "decode code = Some (Branch c t e)" "code \<noteq> []"
  defines "rest \<equiv> code_after (Branch c t e) code"
  shows "block m sg code = (\<lambda>sel levels ws.
    if length (take (unat t) rest) < unat t \<or> length (take (unat e) (drop (unat t) rest)) < unat e then None
    else Option.bind (strip_branch c (block m sg (take (unat t) rest)) (block m sg (take (unat e) (drop (unat t) rest))) sel levels ws)
      (block m sg (drop (unat e) (drop (unat t) rest)) sel levels))"
  using assms(1,2) unfolding rest_def code_after_def by (intro ext, subst block.simps) (simp only: Let_def if_False option.case instruction.case)

lemma effect_branch:
  assumes "decode code = Some (Branch c t e)" "code \<noteq> []"
  defines "rest \<equiv> code_after (Branch c t e) code"
  shows "effect l code =
    do { a \<leftarrow> effect l (take (unat t) rest); b \<leftarrow> effect l (take (unat e) (drop (unat t) rest));
         x \<leftarrow> branch_effect l c a b; after \<leftarrow> effect l (drop (unat e) (drop (unat t) rest)); Some (followed x after) }"
  using assms(1,2) unfolding rest_def code_after_def by (subst effect.simps) (simp only: Let_def if_False option.case instruction.case reduction.simps)

lemma block_reduce:
  assumes "decode code = Some (Reduce reducer bank acc index start stop flt v t e)" "code \<noteq> []"
  defines "rest \<equiv> code_after (Reduce reducer bank acc index start stop flt v t e) code"
    and "r \<equiv> \<lparr>red_reducer = reducer, red_bank = bank, red_acc = acc, red_index = index,
      red_start = start, red_end = stop, red_filter = flt, red_value = v\<rparr>"
  shows "block m sg code = (\<lambda>sel levels ws.
    if length (take (unat t) rest) < unat t \<or> length (take (unat e) (drop (unat t) rest)) < unat e then None
    else Option.bind (strip_reduce m r (take (unat e) (drop (unat t) rest) = []) (block m sg (take (unat t) rest))
        (block m sg (take (unat e) (drop (unat t) rest))) sel levels ws)
      (block m sg (drop (unat e) (drop (unat t) rest)) sel levels))"
  using assms(1,2) unfolding rest_def r_def code_after_def by (intro ext, subst block.simps) (simp only: Let_def if_False option.case instruction.case)

lemma effect_reduce:
  assumes "decode code = Some (Reduce reducer bank acc index start stop flt v t e)" "code \<noteq> []"
  defines "rest \<equiv> code_after (Reduce reducer bank acc index start stop flt v t e) code"
    and "r \<equiv> \<lparr>red_reducer = reducer, red_bank = bank, red_acc = acc, red_index = index,
      red_start = start, red_end = stop, red_filter = flt, red_value = v\<rparr>"
  shows "effect l code =
    do { a \<leftarrow> effect l (take (unat t) rest); b \<leftarrow> effect l (take (unat e) (drop (unat t) rest));
         x \<leftarrow> reduce_effect l r (\<not> slot_is_none (red_filter r) \<and> take (unat e) (drop (unat t) rest) = []) a b;
         after \<leftarrow> effect l (drop (unat e) (drop (unat t) rest)); Some (followed x after) }"
  using assms(1,2) unfolding rest_def r_def code_after_def by (subst effect.simps) (simp only: Let_def if_False option.case instruction.case reduction.simps)

lemma block_table:
  assumes "decode code = Some (Tabulate bank prefix dst index start stop v t)" "code \<noteq> []"
  defines "rest \<equiv> code_after (Tabulate bank prefix dst index start stop v t) code"
  shows "block m sg code = (\<lambda>sel levels ws.
    if length (take (unat t) rest) < unat t then None
    else Option.bind (strip_tabulate m bank prefix dst index start stop v (block m sg (take (unat t) rest)) sel levels ws)
      (block m sg (drop (unat t) rest) sel levels))"
  using assms(1,2) unfolding rest_def code_after_def by (intro ext, subst block.simps) (simp only: Let_def if_False option.case instruction.case)

lemma effect_table:
  assumes "decode code = Some (Tabulate bank prefix dst index start stop v t)" "code \<noteq> []"
  defines "rest \<equiv> code_after (Tabulate bank prefix dst index start stop v t) code"
  shows "effect l code =
    do { a \<leftarrow> effect l (take (unat t) rest); x \<leftarrow> table_effect l bank prefix dst index start stop v a;
         after \<leftarrow> effect l (drop (unat t) rest); Some (followed x after) }"
  using assms(1,2) unfolding rest_def code_after_def by (subst effect.simps) (simp only: Let_def if_False option.case instruction.case reduction.simps)

lemma after_shorter: "code \<noteq> [] \<Longrightarrow> length (code_after i code) < length code"
  by (cases code) (auto simp: code_after_def width_def)

theorem block_honours:
  assumes "marks_sorted m" "effect l code = Some e"
  shows "honours l e (block m sg code)"
  using assms(2)
proof (induction code arbitrary: e rule: measure_induct_rule [of length])
  case (less code)
  show ?case
  proof (cases "code = []")
    case True
    then have "e = ({}, {}, Some)" "block m sg code = (\<lambda>_ _. Some)"
      using less.prems by (simp_all add: effect.simps [of l "[]"] block.simps [of m sg "[]"] fun_eq_iff)
    then show ?thesis using acts_skip by (simp add: honours_def row_cells_def)
  next
    case False
    then obtain i where i: "decode code = Some i" using less.prems by (auto simp: effect.simps [of l code] split: option.splits)
    have part: "length (take k (drop j (code_after i code))) < length code" "length (drop j (code_after i code)) < length code" for k j
      using after_shorter [OF False, of i] by auto
    have IH: "honours l a (block m sg (take k (code_after i code)))" if "effect l (take k (code_after i code)) = Some a" for a k
      using less.IH [OF _ that] part(1) [of k 0] by simp
    have IH2: "honours l a (block m sg (take k (drop j (code_after i code))))"
      if "effect l (take k (drop j (code_after i code))) = Some a" for a k j by (rule less.IH [OF part(1) that])
    have IH3: "honours l a (block m sg (drop j (code_after i code)))"
      if "effect l (drop j (code_after i code)) = Some a" for a j by (rule less.IH [OF part(2) that])
    consider (branch) c t u where "i = Branch c t u"
      | (reduce) reducer bank acc index start stop flt v t u where "i = Reduce reducer bank acc index start stop flt v t u"
      | (table) bank prefix dst index start stop v t where "i = Tabulate bank prefix dst index start stop v t"
      | (plain) "\<not> nests i" by (cases i) (auto simp: nests_def)
    then show ?thesis
    proof cases
      case branch
      note eq = i [unfolded branch]
      obtain a b x after where parts: "effect l (take (unat t) (code_after i code)) = Some a"
        "effect l (take (unat u) (drop (unat t) (code_after i code))) = Some b" "branch_effect l c a b = Some x"
        "effect l (drop (unat u) (drop (unat t) (code_after i code))) = Some after" "e = followed x after"
        using less.prems unfolding effect_branch [OF eq False] branch by (auto simp: bind_eq_Some_conv simp del: split_paired_All)
      have rest: "honours l after (block m sg (drop (unat u) (drop (unat t) (code_after i code))))"
        using IH3 [of "unat u + unat t"] parts(4) by (simp add: add.commute)
      show ?thesis
        unfolding block_branch [OF eq False] parts(5) branch [symmetric]
        by (rule honours_unless, rule honours_followed [OF honours_branch [OF IH [OF parts(1)] IH2 [OF parts(2)] parts(3)] rest])
    next
      case reduce
      note eq = i [unfolded reduce]
      let ?r = "\<lparr>red_reducer = reducer, red_bank = bank, red_acc = acc, red_index = index,
        red_start = start, red_end = stop, red_filter = flt, red_value = v\<rparr>"
      obtain a b x after where parts: "effect l (take (unat t) (code_after i code)) = Some a"
        "effect l (take (unat u) (drop (unat t) (code_after i code))) = Some b"
        "reduce_effect l ?r (\<not> slot_is_none (red_filter ?r) \<and> take (unat u) (drop (unat t) (code_after i code)) = []) a b = Some x"
        "effect l (drop (unat u) (drop (unat t) (code_after i code))) = Some after" "e = followed x after"
        using less.prems unfolding effect_reduce [OF eq False] reduce by (auto simp only: bind_eq_Some_conv option.inject)
      have rest: "honours l after (block m sg (drop (unat u) (drop (unat t) (code_after i code))))"
        using IH3 [of "unat u + unat t"] parts(4) by (simp add: add.commute)
      show ?thesis
        unfolding block_reduce [OF eq False] parts(5) reduce [symmetric]
        by (rule honours_unless, rule honours_followed [OF honours_reduce [OF IH [OF parts(1)] IH2 [OF parts(2)] parts(3)] rest])
    next
      case table
      note eq = i [unfolded table]
      obtain a x after where parts: "effect l (take (unat t) (code_after i code)) = Some a"
        "table_effect l bank prefix dst index start stop v a = Some x"
        "effect l (drop (unat t) (code_after i code)) = Some after" "e = followed x after"
        using less.prems unfolding effect_table [OF eq False] table by (auto simp only: bind_eq_Some_conv option.inject)
      show ?thesis
        unfolding block_table [OF eq False] parts(4) table [symmetric]
        by (rule honours_unless, rule honours_followed [OF honours_table [OF IH [OF parts(1)] parts(2)] IH3 [OF parts(3)]])
    next
      case plain
      obtain x after where parts: "step_effect l i = Some x" "effect l (code_after i code) = Some after" "e = followed x after"
        using less.prems unfolding effect_plain [OF i False plain] code_after_def by (auto simp only: bind_eq_Some_conv option.inject)
      have rest: "honours l after (block m sg (drop (width i) code))"
        using IH3 [of 0 after] parts(2) by (simp add: code_after_def)
      show ?thesis
        unfolding block_plain [OF i False plain] parts(3)
        by (rule honours_followed [OF honours_step [OF parts(1) assms(1)] rest])
    qed
  qed
qed

end
