(* ===== verification/StripPixels.thy ===== *)
theory StripPixels
  imports StripContract
begin

unbundle bit_operations_syntax

text \<open>
  A strip is as good as its pixels: running a program over a strip gives each pixel the color that
  running it for that pixel alone gives, and a workspace that earlier strips have used gives the
  same colors as a fresh one.
\<close>

section \<open>Blocks\<close>

lemma block_acts:
  assumes "marks_sorted m" "effect l code = Some (S, M, spoil)"
  shows "acts l S M spoil (block m sg code)" "row_cells M"
  using block_honours [OF assms, of sg] by (simp_all add: honours_def)

lemma block_layout:
  assumes "marks_sorted m" "effect l code = Some e" "sel_ok sel" "layout a = l" "block m sg code sel levels a = Some b"
  shows "layout b = l"
proof -
  obtain S M spoil where e: "e = (S, M, spoil)" by (cases e)
  show ?thesis using acts_kept [OF block_acts(1) [OF assms(1,2) [unfolded e]] assms(3-5)] by (rule kept_layout)
qed

text \<open>C14. A block writes no cell but those its effect names, and a row it writes at the selected pixels alone.\<close>

theorem block_writes_its_cells:
  assumes "marks_sorted m" "effect (layout a) code = Some (S, M, spoil)" "sel_ok sel"
    and "block m sg code sel levels a = Some b"
  shows "layout b = layout a \<and>
    (\<forall>c j. readable (layout a) c \<longrightarrow> j < STRIP \<longrightarrow> c \<notin> S \<longrightarrow> (c \<in> M \<longrightarrow> j \<notin> set (pixels sel)) \<longrightarrow>
      cell_get b c j = cell_get a c j)"
proof -
  have "kept (layout a) S M sel a b" using acts_kept [OF block_acts(1) [OF assms(1,2)] assms(3) refl assms(4)] .
  moreover have "row_cells M" using block_acts(2) [OF assms(1,2)] .
  ultimately show ?thesis unfolding kept_def row_cells_def by blast
qed

text \<open>A block that runs for a selection runs for each of its pixels alone, and leaves at the pixel
  what the selection's run leaves there, in every cell its effect does not spoil.\<close>

lemma block_runs_pixels_alone:
  assumes "marks_sorted m" "effect (layout a) code = Some (S, M, spoil)" "spoil ({}, {}) = Some t" "sel_ok sel"
    and "block m sg code sel levels a = Some b" "i \<in> set (pixels sel)"
  shows "\<exists>b2. block m sg code (alone i) levels a = Some b2 \<and>
    (\<forall>c. readable (layout a) c \<longrightarrow> c \<notin> fst t \<longrightarrow> cell_get b c i = cell_get b2 c i)"
proof -
  have "agree (layout a) ({}, {}) i a a" by (simp add: agree_def)
  from acts_alone [OF block_acts(1) [OF assms(1,2)] assms(4,6) this assms(3,5)] obtain b2
    where b2: "block m sg code (alone i) levels a = Some b2" "agree (layout a) t i b b2" .
  then show ?thesis using agree_get [OF b2(2)] by blast
qed

section \<open>Strips\<close>

definition body_code :: "program_view \<Rightarrow> instruction_word list" where
  "body_code p = drop (view_target_end p) (view_code p)"

definition result_slot :: "program_view \<Rightarrow> slot" where
  "result_slot p = slot_from_bits (view_result p)"

text \<open>
  A program whose blocks have effects in a workspace, and whose result is not spoilt when everything
  its body writes may hold anything to begin with.
\<close>

definition strip_checks :: "layout \<Rightarrow> program_view \<Rightarrow> bool" where
  "strip_checks l p \<longleftrightarrow>
     effect l (take (view_query_end p) (view_code p)) \<noteq> None \<and>
     effect l (take (view_target_end p - view_query_end p) (drop (view_query_end p) (view_code p))) \<noteq> None \<and>
     (\<forall>c \<in> color_cells (result_slot p). readable l c) \<and>
     (case effect l (body_code p) of None \<Rightarrow> False
      | Some (S, M, spoil) \<Rightarrow>
          (case spoil (S \<union> M, S \<union> M) of None \<Rightarrow> False | Some t \<Rightarrow> color_cells (result_slot p) \<inter> fst t = {}))"

text \<open>The body run for one pixel, in the workspace a strip has left.\<close>

definition pixel_run :: "signals \<Rightarrow> nat \<Rightarrow> strip \<Rightarrow> color option" where
  "pixel_run sg i st =
     do { ws \<leftarrow> block (strip_machine st) sg (body_code (strip_program st)) (alone i) (strip_levels st) (strip_workspace st);
          result \<leftarrow> color_src_of ws (result_slot (strip_program st));
          Some (color_at result ws i) }"

lemma strip_checksD:
  assumes "strip_checks l p"
  obtains S M spoil t where "effect l (body_code p) = Some (S, M, spoil)" "spoil (S \<union> M, S \<union> M) = Some t"
    "color_cells (result_slot p) \<inter> fst t = {}" "\<And>c. c \<in> color_cells (result_slot p) \<Longrightarrow> readable l c"
proof -
  obtain S M spoil where e: "effect l (body_code p) = Some (S, M, spoil)"
    using assms by (cases "effect l (body_code p)") (auto simp: strip_checks_def)
  then obtain t where "spoil (S \<union> M, S \<union> M) = Some t"
    using assms by (cases "spoil (S \<union> M, S \<union> M)") (auto simp: strip_checks_def)
  then show thesis using assms e that [of S M spoil t] by (auto simp: strip_checks_def)
qed

lemma color_same:
  assumes "agree l t i a b" "i < STRIP" "color_cells s \<inter> fst t = {}" "\<And>c. c \<in> color_cells s \<Longrightarrow> readable l c"
    and "color_src_of a s = Some x"
  shows "color_src_of b s = Some x \<and> color_at x a i = color_at x b i"
proof -
  have la: "layout a = l" "layout b = l" using agree_layout [OF assms(1)] by simp_all
  obtain r g u where x: "x = (r, g, u)" and src: "float_src a s = Some r" "float_src a (slot_channel s 1) = Some g"
    "float_src a (slot_channel s 2) = Some u"
    using assms(5) by (auto simp: color_src_of_def bind_eq_Some_conv)
  have same: "src_at y a i = src_at y b i" if y: "float_src a z = Some y" and z: "(BFloat, slot_kind z) \<in> color_cells s" for y z
    by (rule reads_onlyD [OF reads_src assms(2,2,1)], rule float_src_reads [OF y, unfolded la])
      (use z assms(3,4) in auto)
  have "color_at x a i = color_at x b i"
    using same [OF src(1)] same [OF src(2)] same [OF src(3)] by (simp add: x color_at_def color_cells_def)
  then show ?thesis using assms(5) src_layout(5) [of b a] la by simp
qed

text \<open>What the strip leaves differs from what it began with in the body's own cells alone.\<close>

lemma kept_agree:
  assumes "kept l S M sel a b" "layout a = l" "i < STRIP"
  shows "agree l (S \<union> M, S \<union> M) i a b" "agree l (S \<union> M, S \<union> M) i b b"
proof -
  have lb: "layout b = l" using kept_layout [OF assms(1)] .
  have "cell_get b c j = cell_get a c j" if "readable l c" "j < STRIP" "c \<notin> S \<union> M" for c j
    using assms(1) that unfolding kept_def by blast
  then show "agree l (S \<union> M, S \<union> M) i a b" unfolding agree_def using assms(2,3) lb by simp
  show "agree l (S \<union> M, S \<union> M) i b b" using lb by (simp add: agree_def)
qed

text \<open>A run's parts: the workspace the query and target blocks prepare, and the body over the strip.\<close>

definition query_code :: "program_view \<Rightarrow> instruction_word list" where
  "query_code p = take (view_query_end p) (view_code p)"

definition target_code :: "program_view \<Rightarrow> instruction_word list" where
  "target_code p = take (view_target_end p - view_query_end p) (drop (view_query_end p) (view_code p))"

lemma strip_run_parts:
  assumes "strip_run pixel_count low high sg n st = Some (out, st1)"
  obtains w w1 result where "0 < n" "n \<le> STRIP"
    "prepare (run_machine pixel_count low high st) sg (initialize (run_shape pixel_count low high) st)
      (query_code (strip_program st)) (target_code (strip_program st)) (strip_levels st) (strip_workspace st) = Some w"
    "block (run_machine pixel_count low high st) sg (body_code (strip_program st)) (range_sel 0 n) (strip_levels st) w = Some w1"
    "color_src_of w1 (result_slot (strip_program st)) = Some result" "out = strip_outputs result w1 n"
    "st1 = st\<lparr>strip_machine := run_machine pixel_count low high st, strip_shape := Some (run_shape pixel_count low high),
      strip_workspace := w1\<rparr>"
proof -
  let ?p = "strip_program st"
  have n: "0 < n" "n \<le> STRIP" and ends: "view_query_end ?p \<le> length (view_code ?p)" "view_query_end ?p \<le> view_target_end ?p"
    using assms by (auto simp: strip_run_def split_code_def Let_def bind_eq_Some_conv split: if_splits)
  have body: "drop (view_target_end ?p - view_query_end ?p) (drop (view_query_end ?p) (view_code ?p)) = body_code ?p"
    using ends(2) by (simp add: body_code_def)
  show thesis
    using assms n ends body that unfolding strip_run_def split_code_def result_slot_def query_code_def target_code_def
    by (auto simp: Let_def bind_eq_Some_conv simp del: drop_drop split: if_split_asm)
qed

lemma run_marks:
  assumes "marks_sorted (strip_machine st)"
  shows "marks_sorted (run_machine pixel_count low high st)"
proof -
  have "handle_marks (m\<lparr>m_pixel_count := k, m_min := x, m_max := y\<rparr>) = handle_marks m" for m :: machine and k x y
    by (simp add: handle_marks_def fun_eq_iff split: sum.split)
  then show ?thesis using assms by (simp add: run_machine_def marks_sorted_def)
qed

lemma prepare_layout:
  assumes "strip_checks l p" "marks_sorted m" "layout a = l"
    and "prepare m sg initial (query_code p) (target_code p) levels a = Some b"
  shows "layout b = l"
proof -
  have one: "sel_ok (range_sel 0 1)" by (simp add: range_sel_def sel_ok_def STRIP_def)
  obtain q where q: "effect l (query_code p) = Some q"
    using assms(1) unfolding strip_checks_def query_code_def [symmetric] by blast
  obtain t where t: "effect l (target_code p) = Some t"
    using assms(1) unfolding strip_checks_def target_code_def [symmetric] by blast
  note part = block_layout [OF assms(2) q one] block_layout [OF assms(2) t one]
  consider "initial = None" | "initial = Some True" | "initial = Some False" by (cases initial) auto
  then show ?thesis
  proof cases
    case 1
    then obtain c where "block m sg (query_code p) (range_sel 0 1) levels a = Some c"
      "block m sg (target_code p) (range_sel 0 1) levels c = Some b"
      using assms(4) by (auto simp: prepare_def Let_def bind_eq_Some_conv)
    then show ?thesis using part(2) [OF part(1) [OF assms(3)]] by blast
  next
    case 2
    then show ?thesis using assms(4) part(2) [OF assms(3)] by (simp add: prepare_def Let_def)
  next
    case 3
    then show ?thesis using assms(3,4) by (simp add: prepare_def Let_def)
  qed
qed

section \<open>The colors of a strip\<close>

definition same_outside :: "layout \<Rightarrow> program_view \<Rightarrow> nat \<Rightarrow> workspace \<Rightarrow> workspace \<Rightarrow> bool" where
  "same_outside l p i a b \<longleftrightarrow>
     (\<forall>S M spoil. effect l (body_code p) = Some (S, M, spoil) \<longrightarrow> agree l (S \<union> M, S \<union> M) i a b)"

lemma body_pixel:
  assumes checks: "strip_checks l p" and marks: "marks_sorted m" and w: "layout w = l"
    and run: "block m sg (body_code p) sel levels w = Some w1" and sel: "sel_ok sel" "i \<in> set (pixels sel)"
    and same: "same_outside l p i w w2"
    and result: "color_src_of w1 (result_slot p) = Some x"
  shows "\<exists>b. block m sg (body_code p) (alone i) levels w2 = Some b \<and> color_src_of b (result_slot p) = Some x \<and>
    color_at x b i = color_at x w1 i"
proof -
  have i: "i < STRIP" using sel(2) pixels_below by blast
  obtain S M spoil t where e: "effect l (body_code p) = Some (S, M, spoil)" "spoil (S \<union> M, S \<union> M) = Some t"
    "color_cells (result_slot p) \<inter> fst t = {}" "\<And>c. c \<in> color_cells (result_slot p) \<Longrightarrow> readable l c"
    using strip_checksD [OF checks] by metis
  have "agree l (S \<union> M, S \<union> M) i w w2" using same e(1) unfolding same_outside_def by blast
  from acts_alone [OF block_acts(1) [OF marks e(1)] sel this e(2) run] obtain b
    where b: "block m sg (body_code p) (alone i) levels w2 = Some b" "agree l t i w1 b" .
  from color_same [OF b(2) i e(3,4) result] b(1) show ?thesis by simp
qed

lemma body_frame:
  assumes "strip_checks l p" "marks_sorted m" "layout w = l" "block m sg (body_code p) sel levels w = Some w1" "sel_ok sel" "i < STRIP"
  shows "same_outside l p i w w1" "same_outside l p i w1 w1" "layout w1 = l"
proof -
  have kept: "kept l S M sel w w1" if "effect l (body_code p) = Some (S, M, spoil)" for S M spoil
    using acts_kept [OF block_acts(1) [OF assms(2) that] assms(5,3,4)] .
  show "same_outside l p i w w1" "same_outside l p i w1 w1"
    unfolding same_outside_def using kept_agree [OF kept assms(3,6)] by blast+
  obtain S M spoil where "effect l (body_code p) = Some (S, M, spoil)" using strip_checksD [OF assms(1)] by metis
  from kept_layout [OF kept [OF this]] show "layout w1 = l" .
qed

text \<open>C3. For a program that \<open>strip_checks\<close> accepts (no stencil or scan, scalar accumulators in scalar
  loops alone, \<open>any\<close> and \<open>all\<close> over rows with the same range for every pixel, a result no other pixel
  spoils) and marks in order, the color a strip's run gives a pixel is the color of running the program's
  body for that pixel alone, and that in the workspace the whole strip has left.\<close>

theorem strip_colors_pixelwise:
  assumes "strip_checks (layout (strip_workspace st)) (strip_program st)" "marks_sorted (strip_machine st)"
    and "strip_run pixel_count low high sg n st = Some (out, st1)" "i < n"
  shows "length out = n \<and> pixel_run sg i st1 = Some (out ! i)"
proof -
  let ?l = "layout (strip_workspace st)" and ?p = "strip_program st" and ?m = "run_machine pixel_count low high st"
  obtain w w1 x where run: "n \<le> STRIP"
    "prepare ?m sg (initialize (run_shape pixel_count low high) st) (query_code ?p) (target_code ?p) (strip_levels st) (strip_workspace st) = Some w"
    "block ?m sg (body_code ?p) (range_sel 0 n) (strip_levels st) w = Some w1"
    "color_src_of w1 (result_slot ?p) = Some x" "out = strip_outputs x w1 n"
    "st1 = st\<lparr>strip_machine := ?m, strip_shape := Some (run_shape pixel_count low high), strip_workspace := w1\<rparr>"
    using strip_run_parts [OF assms(3)] by metis
  note marks = run_marks [OF assms(2), of pixel_count low high]
  have w: "layout w = ?l" by (rule prepare_layout [OF assms(1) marks refl run(2)])
  have sel: "sel_ok (range_sel 0 n)" "i \<in> set (pixels (range_sel 0 n))" and i: "i < STRIP"
    using single_range [of n] run(1) assms(4) by auto
  obtain b where "block ?m sg (body_code ?p) (alone i) (strip_levels st) w1 = Some b" "color_src_of b (result_slot ?p) = Some x"
    "color_at x b i = color_at x w1 i"
    using body_pixel [OF assms(1) marks w run(3) sel body_frame(1) [OF assms(1) marks w run(3) sel(1) i] run(4)] by blast
  then show ?thesis using assms(4) by (simp add: pixel_run_def run(5,6) strip_outputs_def)
qed

text \<open>C8. For a program that \<open>strip_checks\<close> accepts (as in C3; a program outside it may accumulate in a row
  from run to run) a strip's workspace carries nothing from one run to the next: the same run of another
  length, in the workspace the first has left, gives the pixels the two have in common the same colors.\<close>

theorem strip_runs_repeat:
  assumes "strip_checks (layout (strip_workspace st)) (strip_program st)" "marks_sorted (strip_machine st)"
    and "strip_run pixel_count low high sg n st = Some (out, st1)"
    and "strip_run pixel_count low high sg n2 st1 = Some (out2, st2)" "i < n" "i < n2"
  shows "out ! i = out2 ! i"
proof -
  let ?l = "layout (strip_workspace st)" and ?p = "strip_program st" and ?m = "run_machine pixel_count low high st"
  obtain w w1 x where run: "n \<le> STRIP"
    "prepare ?m sg (initialize (run_shape pixel_count low high) st) (query_code ?p) (target_code ?p) (strip_levels st) (strip_workspace st) = Some w"
    "block ?m sg (body_code ?p) (range_sel 0 n) (strip_levels st) w = Some w1"
    "color_src_of w1 (result_slot ?p) = Some x" "out = strip_outputs x w1 n"
    "st1 = st\<lparr>strip_machine := ?m, strip_shape := Some (run_shape pixel_count low high), strip_workspace := w1\<rparr>"
    using strip_run_parts [OF assms(3)] by metis
  note marks = run_marks [OF assms(2), of pixel_count low high]
  have again: "initialize (run_shape pixel_count low high) st1 = Some False" by (simp add: initialize_def run(6))
  have m: "run_machine pixel_count low high st1 = ?m" using again by (simp add: run_machine_def run(6))
  have st1: "strip_program st1 = ?p" "strip_levels st1 = strip_levels st" "strip_workspace st1 = w1" by (simp_all add: run(6))
  obtain v w2 y where run2: "n2 \<le> STRIP" "prepare ?m sg (Some False) (query_code ?p) (target_code ?p) (strip_levels st) w1 = Some v"
    "block ?m sg (body_code ?p) (range_sel 0 n2) (strip_levels st) v = Some w2"
    "color_src_of w2 (result_slot ?p) = Some y" "out2 = strip_outputs y w2 n2"
    using strip_run_parts [OF assms(4)] unfolding again m st1 by metis
  have v: "v = w1" using run2(2) by (simp add: prepare_def)
  have w: "layout w = ?l" by (rule prepare_layout [OF assms(1) marks refl run(2)])
  have sel: "sel_ok (range_sel 0 n)" "i \<in> set (pixels (range_sel 0 n))" and i: "i < STRIP"
    using single_range [of n] run(1) assms(5) by auto
  have sel2: "sel_ok (range_sel 0 n2)" "i \<in> set (pixels (range_sel 0 n2))"
    using single_range [of n2] run2(1) assms(6) by auto
  note frame = body_frame [OF assms(1) marks w run(3) sel(1) i]
  obtain b where b: "block ?m sg (body_code ?p) (alone i) (strip_levels st) w1 = Some b" "color_src_of b (result_slot ?p) = Some x"
    "color_at x b i = color_at x w1 i"
    using body_pixel [OF assms(1) marks w run(3) sel frame(1) run(4)] by blast
  obtain b2 where b2: "block ?m sg (body_code ?p) (alone i) (strip_levels st) w1 = Some b2" "color_src_of b2 (result_slot ?p) = Some y"
    "color_at y b2 i = color_at y w2 i"
    using body_pixel [OF assms(1) marks frame(3) run2(3) [unfolded v] sel2 frame(2) run2(4)] by blast
  have "b2 = b" "y = x" using b b2 by simp_all
  then show ?thesis using b(3) b2(3) assms(5,6) by (simp add: run(5) run2(5) strip_outputs_def)
qed

section \<open>A program of both sides of a branch and a sum per pixel\<close>

definition quiet_show :: show_image where
  "quiet_show = \<lparr>show_colors = [], show_curves = [], show_curve_points = [], show_curve_areas = [],
     show_curve_slopes = [], show_crossings = [], show_gradients = [], show_gradient_stops = [], show_marks = [],
     show_tracks = [], show_arrays = [], show_values = []\<rparr>"

definition quiet_machine :: machine where
  "quiet_machine = \<lparr>m_arith = bit_arith, m_show = quiet_show, m_resources = [],
     m_params = \<lparr>param_words = [], param_resources = ShowResources [], param_windows = [], param_points = [],
       param_areas = [], param_slopes = [], param_crossings = [], live_tracks = [], live_ticks = []\<rparr>,
     m_sections = None, m_seconds = 0, m_duration = 0, m_progress = 0, m_frame_rate = 0, m_frames_elapsed = 0,
     m_pixel_count = 0, m_min = (0, 0), m_max = (0, 0)\<rparr>"

definition sided_query :: "instruction_word list" where
  "sided_query = encode (Const BInt (slot_scalar 0) 0) [] @ encode (Const BInt (slot_scalar 1) 1) []"

definition sided_body :: "instruction_word list" where
  "sided_body =
     encode (Move BFloat (slot_row 0) (slot_input PixelX)) [] @
     encode (Move BFloat (slot_row 1) (slot_input PixelY)) [] @
     encode (Compare CmpLess BInt (slot_row 0) (slot_input PixelIndex) (slot_scalar 1)) [] @
     encode (Branch (slot_row 0) 1 1) [] @
     encode (Move BFloat (slot_row 1) (slot_row 0)) [] @
     encode (Move BFloat (slot_row 0) (slot_row 1)) [] @
     encode (Move BInt (slot_row 0) (slot_scalar 0)) [] @
     encode (Reduce RedSum BInt (slot_row 0) (slot_row 1) (slot_scalar 0) (slot_input PixelIndex) slot_NONE (slot_row 1) 0 0) [] @
     encode (IntToFloat (slot_row 2) (slot_row 0)) []"

definition sided_rows :: workspace where
  "sided_rows =
     (carve \<lparr>slots_scalars = \<lparr>floats = 0, ints = 2, bools = 0, resource_slots = 0\<rparr>,
        slots_rows = \<lparr>floats = 3, ints = 2, bools = 1, resource_slots = 0\<rparr>, slots_depth = 1, slots_stencils = False\<rparr>)
     \<lparr>ws_pixels := \<lparr>px_index = of_nat, px_fraction = of_nat, px_x = (\<lambda>i. of_nat (10 + i)), px_y = (\<lambda>i. of_nat (20 + i)),
        px_sections = \<lambda>_. section_pixel_default\<rparr>\<rparr>"

definition sided_strip :: strip where
  "sided_strip = strip_new quiet_machine
     \<lparr>view_code = sided_query @ sided_body, view_query_end = length sided_query, view_target_end = length sided_query,
       view_result = slot_bits (slot_row 0)\<rparr> sided_rows 1"

lemma quiet_marks: "marks_sorted quiet_machine" "marks_sorted (strip_machine sided_strip)"
proof -
  have "handle_marks quiet_machine h = None" "handle_marks (strip_machine sided_strip) h = None" for h
    by (auto simp: sided_strip_def strip_new_def quiet_machine_def quiet_show_def handle_marks_def show_mark_window_def
        params_resource_def nth_opt_def split: sum.split)
  then show "marks_sorted quiet_machine" "marks_sorted (strip_machine sided_strip)" by (simp_all add: marks_sorted_def)
qed

lemma sided_checks: "strip_checks (layout (strip_workspace sided_strip)) (strip_program sided_strip)"
  by code_simp

lemma sided_runs:
  "case strip_run 3 (0, 0) (1, 1) no_signals 3 sided_strip of
     None \<Rightarrow> False | Some (out, st) \<Rightarrow> map red out = [10, 21, 22] \<and> strip_run 3 (0, 0) (1, 1) no_signals 2 st \<noteq> None"
  by code_simp

theorem strip_colors_pixelwise_witness:
  "\<exists>out st1. strip_run 3 (0, 0) (1, 1) no_signals 3 sided_strip = Some (out, st1) \<and> pixel_run no_signals 2 st1 = Some (out ! 2)"
proof -
  obtain out st1 where "strip_run 3 (0, 0) (1, 1) no_signals 3 sided_strip = Some (out, st1)"
    using sided_runs by (auto split: option.splits)
  from strip_colors_pixelwise [OF sided_checks quiet_marks(2) this, of 2] this show ?thesis by auto
qed

theorem strip_runs_repeat_witness:
  "\<exists>out st1 out2 st2. strip_run 3 (0, 0) (1, 1) no_signals 3 sided_strip = Some (out, st1) \<and>
    strip_run 3 (0, 0) (1, 1) no_signals 2 st1 = Some (out2, st2) \<and> out ! 1 = out2 ! 1"
proof -
  obtain out st1 out2 st2 where "strip_run 3 (0, 0) (1, 1) no_signals 3 sided_strip = Some (out, st1)"
    "strip_run 3 (0, 0) (1, 1) no_signals 2 st1 = Some (out2, st2)"
    using sided_runs by (auto split: option.splits)
  from strip_runs_repeat [OF sided_checks quiet_marks(2) this, of 1] this show ?thesis by auto
qed

lemma sided_block:
  "case effect (layout sided_rows) sided_body of None \<Rightarrow> False
   | Some (S, M, spoil) \<Rightarrow> (BInt, Row 0) \<notin> S \<and> (BInt, Scalar 0) \<notin> S \<union> M"
  "block quiet_machine no_signals sided_body (range_sel 0 3) 1 sided_rows \<noteq> None"
  by code_simp+

theorem block_writes_its_cells_witness:
  "\<exists>b. block quiet_machine no_signals sided_body (range_sel 0 3) 1 sided_rows = Some b \<and>
    cell_get b (BInt, Scalar 0) 0 = cell_get sided_rows (BInt, Scalar 0) 0 \<and>
    cell_get b (BInt, Row 0) 5 = cell_get sided_rows (BInt, Row 0) 5"
proof -
  obtain S M spoil where e: "effect (layout sided_rows) sided_body = Some (S, M, spoil)"
    "(BInt, Row 0) \<notin> S" "(BInt, Scalar 0) \<notin> S \<union> M"
    using sided_block(1) by (cases "effect (layout sided_rows) sided_body") auto
  obtain b where b: "block quiet_machine no_signals sided_body (range_sel 0 3) 1 sided_rows = Some b" using sided_block(2) by auto
  have sel: "sel_ok (range_sel 0 3)" "pixels (range_sel 0 3) = [0..<3]" using single_range [of 3] by (simp_all add: STRIP_def)
  have cells: "readable (layout sided_rows) (BInt, Scalar 0)" "readable (layout sided_rows) (BInt, Row 0)" by code_simp+
  from block_writes_its_cells [OF quiet_marks(1) e(1) sel(1) b] e(2,3) cells sel(2) b show ?thesis by (auto simp: STRIP_def)
qed

end
