(* ===== verification/Spec2Isabelle.thy ===== *)
theory Spec2Isabelle
  imports Prelude Text Values ValueLaws Bytecode InstructionWords Programs Slots Emission
    ShowTime Transport Lexer ShowSlots ColorText DataTree DataPrinter DataParser ParserTotal DataTokens
    DataSpelling DataRoundTrip
    ValidDocuments Formatting Runs TaskScheduler DeviceClock DevicePlayback DeviceGroup
    Sampling SamplingLaws Resources Sections StripRanges StripStore StripSteps StripBlocks StripCells
    StripActions StripWrites StripInstructions StripAccess StripFrames StripNesting StripTables
    StripReduce StripLanes StripTurns StripLoops StripDecided StripIndices StripEffects StripContract
    StripPixels
begin

text \<open>
  Donder is a light show editor: documents describe fixtures, layouts and effects, a compiler
  turns effects into bytecode that a small machine runs for every pixel, on the desktop and on an
  ESP32 controller that follows the editor's clock. This development models the compiler's back end,
  the machine, the language's data documents, the clocks and transports that keep a show in time, the
  scheduler of the editor's background work, and the storage of a show on a controller.

  \<^bold>\<open>Theories.\<close> Each theory follows one source file or a few; its definitions carry the names of the
  source and stand in its order. Paths are under \<open>src/\<close>, those of crates under \<open>src/crates/\<close>.
  \<^item> \<open>Prelude\<close>, \<open>Text\<close>, \<open>Runs\<close>: words, little-endian bytes, list searches; the characters and decimal
    formats of the Rust library, a \<open>str\<close> being a list of scalar values with UTF-8 lengths; finite and
    fair infinite runs of a step function, with locale \<open>preserved\<close> for invariants of runs.
  \<^item> \<open>Values\<close>, \<open>ValueLaws\<close>, \<open>ColorText\<close> (\<open>donder-runtime-types/src/values.rs\<close>, \<open>types.rs\<close>): types and
    values, with an \<open>f32\<close> as its bits and comparison on them; equality, hashing, validation, colors as text.
  \<^item> \<open>Bytecode\<close> (\<open>bytecode.rs\<close>): slots, banks, instructions. \<open>visit_slots\<close>, which the source calls with
    a mutating closure, is a state monad; reading uses and renaming slots are two visitors of it.
  \<^item> \<open>InstructionWords\<close> (\<open>word.rs\<close>): the bytes of an instruction; locale \<open>wire\<close> is the contract of the
    enum numbers in a nibble, interpreted for each of the fourteen enums.
  \<^item> \<open>Programs\<close> (\<open>bytecode.rs\<close>): programs, their three blocks, and the questions asked of them.
  \<^item> \<open>Slots\<close> (\<open>donder-language/src/compiler/lower/slots.rs\<close>): register allocation. \<open>Emission\<close>
    (\<open>lower/emit.rs\<close>): virtual slots and \<open>finish\<close>, which composes the allocator, the limits and the encoding.
  \<^item> \<open>Lexer\<close> (\<open>donder-language/src/compiler/syntax/lexer.rs\<close>): the tokens of both modes.
  \<^item> \<open>DataTree\<close>, \<open>DataPrinter\<close>, \<open>DataParser\<close> (\<open>donder-language/src/data/\<close>): the tree of data documents
    and the spelling of each literal, the canonical layout, the error-tolerant parser with its recovery.
    \<open>ParserTotal\<close>, \<open>DataTokens\<close>, \<open>DataSpelling\<close>, \<open>DataRoundTrip\<close>, \<open>ValidDocuments\<close>, \<open>Formatting\<close> hold
    their theory.
  \<^item> \<open>ShowTime\<close> (\<open>values.rs\<close>, \<open>donder-runtime/src/playback_rate.rs\<close>): 32-bit show time.
  \<^item> \<open>Transport\<close> (\<open>firmware/esp32/src/transport.rs\<close>, \<open>loader_control.rs\<close>, \<open>bin/loader.rs\<close>): the clock
    estimate and the transport of a controller; locale \<open>pace\<close> is what it needs of a playback rate,
    interpreted for the rates of \<open>ShowTime\<close>; \<open>transport_step\<close> is its step relation.
  \<^item> \<open>DeviceClock\<close> (\<open>donder-device-protocol/src/clock.rs\<close>), \<open>DevicePlayback\<close>, \<open>DeviceGroup\<close>
    (\<open>apps/desktop/src/device/playback.rs\<close>): the clock exchange and its packets, the desktop's playback
    service over a network that is a parameter, and a group of controllers under it. Locale
    \<open>steady_network\<close> is what the service needs of the network, interpreted for a bench of the
    firmware's own handlers, whose boards render frames at any times while messages travel: each frame
    refreshes the board's transport, as the rendering core's loop does.
  \<^item> \<open>ShowSlots\<close> (\<open>firmware/esp32/crates/donder-device-storage/src/show_slots.rs\<close>, the upload of
    \<open>bin/loader.rs\<close>): the saved show of a controller in two flash slots.
  \<^item> \<open>TaskScheduler\<close> (\<open>apps/desktop/src/state_tasks/scheduler.rs\<close>): the queue, its lock sections and its
    condition variable, with lost and spurious wake-ups, as steps of interleaved threads.
  \<^item> \<open>Sampling\<close>, \<open>SamplingLaws\<close> (\<open>donder-runtime-types/src/sampling.rs\<close>), \<open>Resources\<close>, \<open>Sections\<close>
    (\<open>donder-runtime/src/resources.rs\<close>, \<open>format.rs\<close>, \<open>sections.rs\<close>): the arithmetic of programs, the
    curves, gradients and marks they sample, and the numbering of a pixel's section.
  \<^item> \<open>StripRanges\<close>, \<open>StripStore\<close>, \<open>StripSteps\<close>, \<open>StripBlocks\<close> (\<open>donder-runtime/src/dsl/vm/strip.rs\<close>,
    \<open>workspace.rs\<close>): the interpreter of programs over strips of 128 pixels: selections, the cells of a
    workspace, every plain instruction, branches, reductions, tables, and the run of a program.
  \<^item> The theory of the interpreter: \<open>StripCells\<close> (what an operand reads and a destination writes, with
    locale \<open>workspace_bank\<close> interpreted for the four banks), \<open>StripActions\<close> (frames, agreement at a
    pixel), \<open>StripWrites\<close>, \<open>StripInstructions\<close>, \<open>StripAccess\<close>, \<open>StripFrames\<close> (plain instructions),
    \<open>StripNesting\<close>, \<open>StripTables\<close>, \<open>StripReduce\<close>, \<open>StripLanes\<close>, \<open>StripTurns\<close>, \<open>StripLoops\<close>,
    \<open>StripDecided\<close>, \<open>StripIndices\<close> (branches, tables, reductions), \<open>StripEffects\<close>, \<open>StripContract\<close>
    (the effect of a block from its words), \<open>StripPixels\<close> (strips).

  \<^bold>\<open>What is shown.\<close>
  \<^item> The back end: values alive together get different slots, live ranges cover loops, allocation and
    \<open>finish\<close> always answer, a finished program keeps the limits and its words read back to the emitted code.
    The codec: every encodable instruction comes back.
  \<^item> The interpreter: a strip gives each pixel the color that running the program for that pixel alone
    gives, and a workspace carries nothing from one run to the next. \<open>effect\<close> works out from a block's
    words which cells it writes and which it leaves spoilt by other pixels, \<open>strip_checks\<close> that a
    program's result is never spoilt; \<open>acts\<close> is the contract each construct is shown to keep, and
    \<open>block_honours\<close> that every block with an effect keeps it. A scalar accumulator must have a scalar
    loop, and \<open>any\<close> and \<open>all\<close> over rows take ranges that are the same for all pixels: there a strip stops
    only when every pixel has.
  \<^item> Sampling: tables of slopes and areas answer what walks over the points answer, a curve's inverse
    what a scan of its segments answers, and a section's index is below its count.
  \<^item> Documents: lexing ends and tiles the source, the parser always returns, printing and parsing are a
    round trip, formatting keeps the document and is a fixed point.
  \<^item> Time and transports: exact wide arithmetic, frame and wall time as Galois connections; command
    numbers, effect times, what a refresh preserves and what it loses, when commands are accepted.
  \<^item> Clocks and groups: a clock exchange is exact to half its delay, no controller of a group ever
    divides by zero or runs its estimate backwards, a group whose controllers have different addresses
    starts together or the ones that did not are named.
  \<^item> The scheduler: no wake-up is lost, requests start in the order that the queue promises, and in
    every fair run a waiting thread leaves; a panic of the worker is the one way it does not.
  \<^item> Storage: replacing a show is atomic over every failure of the flash, reads included, but for a torn
    header that passes its checksum by accident, which the theorem names. Values: equality and hashing.

  \<^bold>\<open>Conventions.\<close> Machine integers are words, \<open>i128\<close> intermediates integers. Operations the source
  checks, saturates or wraps do so; plain arithmetic wraps, as in the builds that ship (no Cargo profile
  turns overflow checks on), also in \<open>section_step\<close>. One place differs: \<open>union_length\<close>, the union of a
  reduction's ranges, where a wrapped difference would run no iteration at all, has the panic of a
  build with checks, so that what is shown of strips is of runs without that overflow. A panic is
  \<open>None\<close>, an error \<open>Inl\<close>. The rounding operations on floats and the
  functions of libm are a record \<open>arith\<close> the definitions take: nothing is assumed of them, and
  comparisons and sign operations are on the bits. The parser of documents takes fuel: the number of
  tokens and two more, which \<open>parse_total\<close> shows to be enough for every source. All other loops are structural or have
  termination proofs (the lexer's by the text left, a block's by the words left). Unordered maps of the
  source are association lists where it iterates over them. A selection buffer is a list and the depth
  of nesting a count of the levels left; a strip's rows of pixel inputs belong to its layout, as
  no instruction writes them.

  \<^bold>\<open>Not modelled.\<close> Stencils and scans of the interpreter, which read other layers' pixels: a block that
  reaches one is \<open>None\<close>, and it has no effect. The provider of other layers' pixels is a parameter, a function of
  the query, as \<open>read_strip\<close> and \<open>read_pixel\<close> of both implementors are. How an
  image of a show is written and borrowed from bytes, the engine that renders clips and layers, and
  the host. Of the language, the parser of effects, its checker and the graph passes before emission;
  the elaboration of projects, their files and the editor's edits. Input and output (files, sockets,
  audio, windows, flash drivers, HTTP) and third-party formats.
\<close>

end
